(* ===== verification/Prelude.thy ===== *)
theory Prelude
  imports Complex_Main
begin

text \<open>
  The vocabulary every component of the development shares.

  \<^item> Python exceptions are the values of \<open>exn\<close>; an operation that may raise returns
    \<open>'a res\<close>, \<open>Inl\<close> for the exception and \<open>Inr\<close> for the value. The text of an
    exception is not modelled, its class is.
  \<^item> A Python float is a \<open>pyfloat\<close>: a finite value, one of the two infinities, or NaN.
    A finite float is an exact rational, so it is a \<open>rat\<close>; a sum or a product of two finite
    floats is taken exactly (the rounding of binary64 is not modelled), comparisons are exact.
    The checks the code makes with \<open>math.isfinite\<close> are kept, on \<open>pyfloat\<close>; what has passed
    them is a \<open>rat\<close>.
  \<^item> A Python \<open>str\<close> is a \<open>string\<close> (its UTF-8 bytes).
  \<^item> A Python dict whose order the code does not read is a map.
\<close>

section \<open>Exceptions\<close>

datatype exn = ValueError | RuntimeError | KeyError | TypeError | OSError | OverflowError
  | AttributeError

type_synonym 'a res = "exn + 'a"

named_theorems res_intro \<open>introduction rules for operations that return\<close>

definition returns :: "'a res \<Rightarrow> bool" where
  "returns r = (case r of Inl _ \<Rightarrow> False | Inr _ \<Rightarrow> True)"

lemma returns_simps [simp]:
  "returns (Inr x)" "\<not> returns (Inl e)"
  by (simp_all add: returns_def)

lemma returnsE: "returns r \<Longrightarrow> (\<And>x. r = Inr x \<Longrightarrow> P) \<Longrightarrow> P"
  by (cases r) simp_all

text \<open>A comprehension whose body may raise: left to right, the first exception ends it.\<close>

fun res_map :: "('a \<Rightarrow> 'b res) \<Rightarrow> 'a list \<Rightarrow> 'b list res" where
  "res_map f [] = Inr []"
| "res_map f (x # xs) = (case f x of Inl e \<Rightarrow> Inl e | Inr y \<Rightarrow>
     (case res_map f xs of Inl e \<Rightarrow> Inl e | Inr ys \<Rightarrow> Inr (y # ys)))"

lemma res_map_Inr: "res_map f xs = Inr ys \<Longrightarrow> list_all2 (\<lambda>x y. f x = Inr y) xs ys"
  by (induction xs arbitrary: ys) (auto split: sum.splits)

lemma res_map_Inr_map: "(\<And>x. x \<in> set xs \<Longrightarrow> f x = Inr (h x)) \<Longrightarrow> res_map f xs = Inr (map h xs)"
  by (induction xs) auto

section \<open>Floats\<close>

datatype pyfloat = Fin rat | PInf | NInf | NaN

definition isfinite :: "pyfloat \<Rightarrow> bool" where
  "isfinite x = (case x of Fin _ \<Rightarrow> True | _ \<Rightarrow> False)"

text \<open>\<open>x < y\<close> on floats: every comparison with NaN is false.\<close>

fun flt_less :: "pyfloat \<Rightarrow> pyfloat \<Rightarrow> bool" where
  "flt_less NaN _ = False"
| "flt_less _ NaN = False"
| "flt_less (Fin a) (Fin b) = (a < b)"
| "flt_less NInf y = (y \<noteq> NInf)"
| "flt_less PInf _ = False"
| "flt_less (Fin _) PInf = True"
| "flt_less (Fin _) NInf = False"

lemma isfinite_simps [simp]:
  "isfinite (Fin a)" "\<not> isfinite PInf" "\<not> isfinite NInf" "\<not> isfinite NaN"
  by (simp_all add: isfinite_def)

text \<open>\<open>float(value)\<close> checked finite, as the validators of the code do it: \<open>ValueError\<close> for
  anything else.\<close>

definition finite_arg :: "pyfloat \<Rightarrow> rat res" where
  "finite_arg x = (case x of Fin a \<Rightarrow> Inr a | _ \<Rightarrow> Inl ValueError)"

definition nonneg_arg :: "pyfloat \<Rightarrow> rat res" where
  "nonneg_arg x = (case finite_arg x of Inl e \<Rightarrow> Inl e
     | Inr a \<Rightarrow> if a < 0 then Inl ValueError else Inr a)"

text \<open>A non-negative int: Python's ints are unbounded, and a negative one raises.\<close>

definition count_arg :: "int \<Rightarrow> nat res" where
  "count_arg n = (if n < 0 then Inl ValueError else Inr (nat n))"

lemma finite_arg_Inr [simp]: "finite_arg x = Inr a \<longleftrightarrow> x = Fin a"
  by (cases x) (auto simp: finite_arg_def)

lemma finite_arg_Fin [simp]: "finite_arg (Fin a) = Inr a"
  by simp

lemma nonneg_arg_Inr [simp]: "nonneg_arg x = Inr a \<longleftrightarrow> x = Fin a \<and> 0 \<le> a"
  by (cases x) (auto simp: nonneg_arg_def finite_arg_def)

lemma nonneg_arg_Fin [simp]: "0 \<le> a \<Longrightarrow> nonneg_arg (Fin a) = Inr a"
  by simp

lemma count_arg_Inr [simp]: "count_arg n = Inr k \<longleftrightarrow> 0 \<le> n \<and> k = nat n"
  by (auto simp: count_arg_def)

lemma count_arg_int [simp]: "count_arg (int k) = Inr k"
  by (simp add: count_arg_def)

text \<open>Python's \<open>x % m\<close> on numbers: the result has the sign of the divisor.\<close>

definition pymod :: "rat \<Rightarrow> rat \<Rightarrow> rat" where
  "pymod x m = x - m * of_int \<lfloor>x / m\<rfloor>"

lemma pymod_bounds:
  assumes "0 < m"
  shows "0 \<le> pymod x m" and "pymod x m < m"
proof -
  have l: "of_int \<lfloor>x / m\<rfloor> \<le> x / m" and u: "x / m < of_int \<lfloor>x / m\<rfloor> + 1"
    by linarith+
  from mult_left_mono [OF l, of m] assms have "m * of_int \<lfloor>x / m\<rfloor> \<le> x" by simp
  then show "0 \<le> pymod x m" by (simp add: pymod_def)
  from mult_strict_left_mono [OF u assms] assms have "x < m * (of_int \<lfloor>x / m\<rfloor> + 1)" by simp
  then show "pymod x m < m" by (simp add: pymod_def algebra_simps)
qed

section \<open>Strings\<close>

text \<open>The decimal digits of a number, as \<open>str(n)\<close> and \<open>f"{n}"\<close> print it.\<close>

definition digit_char :: "nat \<Rightarrow> char" where
  "digit_char d = char_of (48 + d)"

fun nat_str :: "nat \<Rightarrow> string" where
  "nat_str n = (if n < 10 then [digit_char n] else nat_str (n div 10) @ [digit_char (n mod 10)])"

declare nat_str.simps [simp del]

definition int_str :: "int \<Rightarrow> string" where
  "int_str n = (if n < 0 then CHR ''-'' # nat_str (nat (- n)) else nat_str (nat n))"

text \<open>\<open>str.strip()\<close> on ASCII white space.\<close>

definition is_space :: "char \<Rightarrow> bool" where
  "is_space c = (c \<in> {CHR 0x20, CHR 0x09, CHR 0x0A, CHR 0x0B, CHR 0x0C, CHR 0x0D,
                       CHR 0x1C, CHR 0x1D, CHR 0x1E, CHR 0x1F})"

definition py_strip :: "string \<Rightarrow> string" where
  "py_strip s = rev (dropWhile is_space (rev (dropWhile is_space s)))"

lemma py_strip_Nil [simp]: "py_strip [] = []"
  by (simp add: py_strip_def)

lemma py_strip_idem [simp]: "py_strip (py_strip s) = py_strip s"
proof -
  have "dropWhile is_space (rev (dropWhile is_space (rev xs))) = rev (dropWhile is_space (rev xs))"
    if "dropWhile is_space xs = xs" for xs
  proof (cases "dropWhile is_space (rev xs)")
    case (Cons y ys)
    have "\<exists>us. rev xs = us @ dropWhile is_space (rev xs)" by (metis takeWhile_dropWhile_id)
    then obtain us where "xs = rev (dropWhile is_space (rev xs)) @ rev us"
      by (metis rev_append rev_rev_ident)
    then have "hd xs = hd (rev (dropWhile is_space (rev xs)))"
      using Cons by (metis hd_append2 list.distinct(1) rev_is_Nil_conv)
    moreover have "\<not> is_space (hd xs)" if "xs \<noteq> []"
      using that \<open>dropWhile is_space xs = xs\<close> by (metis hd_dropWhile)
    moreover have "xs \<noteq> []" using Cons by auto
    ultimately show ?thesis by (metis Cons dropWhile_eq_self_iff rev_is_Nil_conv)
  next
    case Nil
    show ?thesis unfolding Nil by simp
  qed
  then show ?thesis by (simp add: py_strip_def)
qed

text \<open>\<open>repr\<close> of a \<open>str\<close>: double quotes only where the text has a single quote and no double
  one, the backslash and the control characters escaped. Bytes above ASCII are kept.\<close>

definition hex_char :: "nat \<Rightarrow> char" where
  "hex_char d = (if d < 10 then char_of (48 + d) else char_of (87 + d))"

definition repr_char :: "char \<Rightarrow> char \<Rightarrow> string" where
  "repr_char q c = (let n = (of_char c :: nat) in
     if c = q \<or> c = CHR 0x5C then [CHR 0x5C, c]
     else if c = CHR 0x0A then [CHR 0x5C, CHR ''n'']
     else if c = CHR 0x0D then [CHR 0x5C, CHR ''r'']
     else if c = CHR 0x09 then [CHR 0x5C, CHR ''t'']
     else if n < 32 \<or> n = 127 then [CHR 0x5C, CHR ''x'', hex_char (n div 16), hex_char (n mod 16)]
     else [c])"

definition py_repr :: "string \<Rightarrow> string" where
  "py_repr s = (let q = (if CHR 0x27 \<in> set s \<and> CHR 0x22 \<notin> set s then CHR 0x22 else CHR 0x27)
     in [q] @ concat (map (repr_char q) s) @ [q])"

text \<open>\<open>sep.join(xs)\<close>.\<close>

fun py_join :: "string \<Rightarrow> string list \<Rightarrow> string" where
  "py_join sep [] = []"
| "py_join sep [x] = x"
| "py_join sep (x # y # ys) = x @ sep @ py_join sep (y # ys)"

text \<open>\<open>f"{x:.df}"\<close>: the value to \<open>d\<close> decimals, ties to even, on the exact value.\<close>

definition round_half_even :: "rat \<Rightarrow> int" where
  "round_half_even x = (let f = \<lfloor>x\<rfloor>; r = x - of_int f in
     if r < 1 / 2 then f else if 1 / 2 < r then f + 1 else if even f then f else f + 1)"

fun pad_left :: "nat \<Rightarrow> string \<Rightarrow> string" where
  "pad_left n s = replicate (n - length s) (CHR ''0'') @ s"

definition fmt_fixed :: "nat \<Rightarrow> rat \<Rightarrow> string" where
  "fmt_fixed d x = (let n = nat (round_half_even (\<bar>x\<bar> * 10 ^ d)) in
     (if x < 0 then ''-'' else []) @ nat_str (n div 10 ^ d)
     @ (if d = 0 then [] else ''.'' @ pad_left d (nat_str (n mod 10 ^ d))))"

definition fmt_float :: "nat \<Rightarrow> pyfloat \<Rightarrow> string" where
  "fmt_float d x = (case x of Fin a \<Rightarrow> fmt_fixed d a | PInf \<Rightarrow> ''inf'' | NInf \<Rightarrow> ''-inf''
     | NaN \<Rightarrow> ''nan'')"

lemma round_half_even_near: "\<bar>of_int (round_half_even x) - x\<bar> \<le> 1 / 2"
proof -
  have "of_int \<lfloor>x\<rfloor> \<le> x" "x < of_int \<lfloor>x\<rfloor> + 1" by linarith+
  then show ?thesis by (auto simp: round_half_even_def Let_def)
qed

section \<open>Lists and maps\<close>

text \<open>\<open>dict.fromkeys\<close> and every "first time it is seen" loop: the first occurrences, in order.\<close>

fun firsts :: "'a list \<Rightarrow> 'a list" where
  "firsts [] = []"
| "firsts (x # xs) = x # filter (\<lambda>y. y \<noteq> x) (firsts xs)"

lemma set_firsts [simp]: "set (firsts xs) = set xs"
  by (induction xs) auto

lemma distinct_firsts [simp]: "distinct (firsts xs)"
  by (induction xs) auto

lemma firsts_distinct: "distinct xs \<Longrightarrow> firsts xs = xs"
  by (induction xs) (auto simp: filter_id_conv)

text \<open>\<open>d.get(k, default)\<close>.\<close>

definition dget :: "('k \<rightharpoonup> 'v) \<Rightarrow> 'k \<Rightarrow> 'v \<Rightarrow> 'v" where
  "dget m k d = (case m k of None \<Rightarrow> d | Some v \<Rightarrow> v)"

lemma dget_simps [simp]:
  "dget Map.empty k d = d"
  "dget (m(k \<mapsto> v)) k d = v"
  "k' \<noteq> k \<Longrightarrow> dget (m(k' \<mapsto> v)) k d = dget m k d"
  "dget (m(k := None)) k d = d"
  "k' \<noteq> k \<Longrightarrow> dget (m(k' := None)) k d = dget m k d"
  by (simp_all add: dget_def)

lemma dget_upd:
  "dget (m(k := x)) k' d = (if k' = k then (case x of None \<Rightarrow> d | Some v \<Rightarrow> v) else dget m k' d)"
  by (simp add: dget_def)

end
