(* ===== verification/Py_Values.thy ===== *)
theory Py_Values
  imports Prelude
begin

text \<open>
  Untyped Python values, as they come out of a signed token, a JSON document or another component's
  object, and the conversions the code applies to them: \<open>int(x)\<close> of a string or a float, \<open>str.lower()\<close>
  and \<open>str.split\<close>. Case folding is that of ASCII letters.
\<close>

datatype jval = JNull | JBool bool | JInt int | JFloat pyfloat | JStr string | JList | JDict

text \<open>\<open>str.split(None, 1)\<close> and \<open>str.lower()\<close>.\<close>

definition split_once :: "string \<Rightarrow> string list" where
  "split_once s = (let s = dropWhile is_space s; w = takeWhile (\<lambda>c. \<not> is_space c) s;
       rest = dropWhile is_space (dropWhile (\<lambda>c. \<not> is_space c) s) in
     if w = [] then [] else if rest = [] then [w] else [w, rest])"

definition lower_char :: "char \<Rightarrow> char" where
  "lower_char c = (let n = (of_char c :: nat) in if 65 \<le> n \<and> n \<le> 90 then char_of (n + 32) else c)"

definition py_lower :: "string \<Rightarrow> string" where
  "py_lower s = map lower_char s"

definition is_ascii :: "string \<Rightarrow> bool" where
  "is_ascii s = (\<forall>c \<in> set s. (of_char c :: nat) < 128)"

text \<open>\<open>int(s)\<close>: ASCII digits with an optional sign, white space around them and single underscores
  between digits; \<open>int(x)\<close> of a finite float truncates.\<close>

fun digits_val :: "nat \<Rightarrow> string \<Rightarrow> nat option" where
  "digits_val acc [] = None"
| "digits_val acc [c] = (let n = (of_char c :: nat) in
     if 48 \<le> n \<and> n \<le> 57 then Some (acc * 10 + (n - 48)) else None)"
| "digits_val acc (c # d # cs) = (let n = (of_char c :: nat) in
     if 48 \<le> n \<and> n \<le> 57 then digits_val (acc * 10 + (n - 48)) (if d = CHR ''_'' then cs else d # cs)
     else None)"

definition str_int :: "string \<Rightarrow> int option" where
  "str_int s = (case py_strip s of [] \<Rightarrow> None
     | c # cs \<Rightarrow> if c = CHR ''-'' then map_option (\<lambda>n. - int n) (digits_val 0 cs)
         else if c = CHR ''+'' then map_option int (digits_val 0 cs)
         else map_option int (digits_val 0 (c # cs)))"

definition trunc :: "rat \<Rightarrow> int" where
  "trunc x = (if x < 0 then - \<lfloor>- x\<rfloor> else \<lfloor>x\<rfloor>)"

text \<open>\<open>int(x)\<close>, with the exception it raises.\<close>

definition int_of :: "jval \<Rightarrow> int res" where
  "int_of v = (case v of
     JInt n \<Rightarrow> Inr n | JBool b \<Rightarrow> Inr (if b then 1 else 0)
   | JFloat (Fin x) \<Rightarrow> Inr (trunc x) | JFloat NaN \<Rightarrow> Inl ValueError | JFloat _ \<Rightarrow> Inl OverflowError
   | JStr s \<Rightarrow> (case str_int s of None \<Rightarrow> Inl ValueError | Some n \<Rightarrow> Inr n)
   | _ \<Rightarrow> Inl TypeError)"

lemma strip_no_space:
  assumes "\<forall>c \<in> set s. \<not> is_space c"
  shows "py_strip s = s"
proof -
  have "dropWhile is_space xs = xs" if "\<forall>c \<in> set xs. \<not> is_space c" for xs
    using that by (cases xs) auto
  from this [of s] this [of "rev s"] assms show ?thesis by (simp add: py_strip_def)
qed

text \<open>\<open>str.split(c)\<close> on one character.\<close>

fun split_on :: "char \<Rightarrow> string \<Rightarrow> string list" where
  "split_on x [] = [[]]"
| "split_on x (c # cs) = (if c = x then [] # split_on x cs
     else (case split_on x cs of [] \<Rightarrow> [[c]] | w # ws \<Rightarrow> (c # w) # ws))"

lemma join_split: "py_join [x] (split_on x s) = s"
proof (induction s)
  case (Cons c cs)
  have "split_on x cs \<noteq> []" by (induction cs) (auto split: list.split)
  with Cons show ?case by (cases "split_on x cs"; cases "tl (split_on x cs)") auto
qed simp

end
