(* ===== verification/Machines.thy ===== *)
theory Machines
  imports Prelude
begin

text \<open>
  The contracts that several components share, as locales, with the lemmas their clients use.

  \<^item> \<open>machine\<close>: a deterministic state machine and an invariant every step keeps. It holds after
    every run.
  \<^item> \<open>metered\<close>: a machine that spends from a budget. What its steps spend is booked in the state,
    and the invariant caps the book; so over a whole run it spends at most what the cap leaves.
  \<^item> \<open>lawful\<close> and \<open>lawful_meter\<close>: the same two for machines whose events obey a law; a machine is
    lawful for the law that allows every event (\<open>sublocale\<close>).

  Each component that owns a machine interprets them on its own step function.
\<close>

definition run :: "('s \<Rightarrow> 'e \<Rightarrow> 's) \<Rightarrow> 's \<Rightarrow> 'e list \<Rightarrow> 's" where
  "run step = foldl step"

lemma run_simps [simp]:
  "run step s [] = s"
  "run step s (e # es) = run step (step s e) es"
  "run step s (es @ fs) = run step (run step s es) fs"
  by (simp_all add: run_def)

text \<open>A call that may raise: the state it leaves, and what it keeps when it returns.\<close>

definition settle :: "'s \<Rightarrow> 's res \<Rightarrow> 's" where
  "settle s r = (case r of Inl _ \<Rightarrow> s | Inr s' \<Rightarrow> s')"

definition keeps :: "('a \<Rightarrow> bool) \<Rightarrow> 'a res \<Rightarrow> bool" where
  "keeps P r = (case r of Inl _ \<Rightarrow> True | Inr x \<Rightarrow> P x)"

lemma settle_simps [simp]: "settle s (Inl e) = s" "settle s (Inr s') = s'"
  by (simp_all add: settle_def)

lemma keeps_simps [simp]: "keeps P (Inl e)" "keeps P (Inr x) = P x"
  by (simp_all add: keeps_def)

lemma keepsD: "keeps P r \<Longrightarrow> r = Inr x \<Longrightarrow> P x"
  by simp

lemma settle_keeps: "P s \<Longrightarrow> keeps P r \<Longrightarrow> P (settle s r)"
  by (cases r) simp_all

text \<open>What a run spends in all.\<close>

fun spent :: "('s \<Rightarrow> 'e \<Rightarrow> 's) \<Rightarrow> ('s \<Rightarrow> 'e \<Rightarrow> 'n::ordered_ab_group_add) \<Rightarrow> 's \<Rightarrow> 'e list \<Rightarrow> 'n" where
  "spent step spend s [] = 0"
| "spent step spend s (e # es) = spend s e + spent step spend (step s e) es"

lemma spent_diff:
  fixes f g :: "'s \<Rightarrow> 'e \<Rightarrow> 'n::ordered_ab_group_add"
  shows "spent step (\<lambda>s e. f s e - g s e) s es = spent step f s es - spent step g s es"
  by (induction es arbitrary: s) (simp_all add: algebra_simps)

text \<open>The runs that respect a law on the events, which may depend on the state (a clock that does not
  go back, an amount that is not negative).\<close>

fun legal_run :: "('s \<Rightarrow> 'e \<Rightarrow> bool) \<Rightarrow> ('s \<Rightarrow> 'e \<Rightarrow> 's) \<Rightarrow> 's \<Rightarrow> 'e list \<Rightarrow> bool" where
  "legal_run legal step s [] = True"
| "legal_run legal step s (e # es) = (legal s e \<and> legal_run legal step (step s e) es)"

lemma legal_run_True [simp]: "legal_run (\<lambda>_ _. True) step s es"
  by (induction es arbitrary: s) simp_all

lemma legal_run_append:
  "legal_run legal step s (es @ fs) = (legal_run legal step s es \<and> legal_run legal step (run step s es) fs)"
  by (induction es arbitrary: s) simp_all

locale lawful =
  fixes step :: "'s \<Rightarrow> 'e \<Rightarrow> 's"
    and inv :: "'s \<Rightarrow> bool"
    and legal :: "'s \<Rightarrow> 'e \<Rightarrow> bool"
  assumes legal_step: "inv s \<Longrightarrow> legal s e \<Longrightarrow> inv (step s e)"
begin

lemma inv_legal_run: "inv s \<Longrightarrow> legal_run legal step s es \<Longrightarrow> inv (run step s es)"
  by (induction es arbitrary: s) (auto intro: legal_step)

lemma inv_legal_take: "inv s \<Longrightarrow> legal_run legal step s es \<Longrightarrow> inv (run step s (take k es))"
  using legal_run_append [of legal step s "take k es" "drop k es"] by (auto intro: inv_legal_run)

end

locale lawful_meter = lawful +
  fixes spend :: "'a \<Rightarrow> 'b \<Rightarrow> 'n::ordered_ab_group_add"
    and used :: "'a \<Rightarrow> 'n"
    and cap :: 'n
  assumes legal_used: "inv s \<Longrightarrow> legal s e \<Longrightarrow> used s + spend s e \<le> used (step s e)"
    and legal_cap: "inv s \<Longrightarrow> used s \<le> cap"
begin

lemma spent_used: "inv s \<Longrightarrow> legal_run legal step s es \<Longrightarrow>
    used s + spent step spend s es \<le> used (run step s es)"
proof (induction es arbitrary: s)
  case Nil
  then show ?case by simp
next
  case (Cons e es)
  then have l: "legal s e" and ls: "legal_run legal step (step s e) es" by simp_all
  have "used s + spent step spend s (e # es) = (used s + spend s e) + spent step spend (step s e) es"
    by (simp add: add.assoc)
  also have "\<dots> \<le> used (step s e) + spent step spend (step s e) es"
    using legal_used [OF Cons.prems(1) l] by (rule add_right_mono)
  also have "\<dots> \<le> used (run step s (e # es))"
    using Cons.IH [OF legal_step [OF Cons.prems(1) l] ls] by simp
  finally show ?case .
qed

lemma spent_le_slack:
  assumes "inv s" and "legal_run legal step s es"
  shows "spent step spend s es \<le> cap - used s"
proof -
  have "used s + spent step spend s es \<le> cap"
    using spent_used [OF assms] legal_cap [OF inv_legal_run [OF assms]] by (rule order_trans)
  then show ?thesis by (simp add: le_diff_eq add.commute)
qed

end

text \<open>A machine obeys any law: every event is legal in every state.\<close>

locale machine =
  fixes step :: "'s \<Rightarrow> 'e \<Rightarrow> 's"
    and inv :: "'s \<Rightarrow> bool"
  assumes inv_step: "inv s \<Longrightarrow> inv (step s e)"

sublocale machine \<subseteq> lawful step inv "\<lambda>_ _. True"
  by unfold_locales (rule inv_step)

context machine
begin

lemma inv_run: "inv s \<Longrightarrow> inv (run step s es)"
  by (rule inv_legal_run) simp_all

lemma inv_all_along: "inv s \<Longrightarrow> \<forall>k. inv (run step s (take k es))"
  by (auto intro: inv_run)

end

locale metered = machine +
  fixes spend :: "'a \<Rightarrow> 'b \<Rightarrow> 'n::ordered_ab_group_add"
    and used :: "'a \<Rightarrow> 'n"
    and cap :: 'n
  assumes used_step: "inv s \<Longrightarrow> used s + spend s e \<le> used (step s e)"
    and used_cap: "inv s \<Longrightarrow> used s \<le> cap"

sublocale metered \<subseteq> lawful_meter step inv "\<lambda>_ _. True" spend used cap
  by unfold_locales (simp_all add: used_step used_cap)

context metered
begin

lemma spent_le_cap: "inv s \<Longrightarrow> spent step spend s es \<le> cap - used s"
  by (rule spent_le_slack) simp_all

end

end
