(* ===== verification/Event_Bus.thy ===== *)
theory Event_Bus
  imports Py_Values Machines "HOL-Library.AList" "HOL-Library.Sublist" "HOL-Library.Char_ord"
    "HOL-Library.List_Lexorder"
begin

text \<open>
  The event bus (\<open>server/astrodeck/events.py\<close>): everything the server says goes through it, to the
  subscribers' bounded queues, to a ring of recent log lines and to the night's log file.

  A payload is a Python dict of JSON values, an association list in insertion order. A subscription is
  the queue of \<open>Subscription\<close> with its numbers; the reader's \<open>get\<close> and the bus's offer are its operations.
  The bus is the record \<open>bus\<close>; its subscribers are listed with an identity. \<open>publish\<close> takes its clock
  readings at one instant (\<open>e_now\<close> monotonic, \<open>e_wall\<close> the wall clock), and the environment says what runs
  around it: whether the publishing task is inside a site-timed span, on which event loop it runs and how
  the other loops are, and what the operating system answers. The lines a handed-off delivery
  still owes a foreign loop are a queue per hand-off (\<open>handed\<close>), which that loop runs later. The night
  file's thread is the operation \<open>write_one\<close>, which takes one line off the queue.

  Left out: the flip hold, which the serving seams read, and the text export.
\<close>

section \<open>Values, events and the site-derived flag\<close>

datatype pv = PNone | PBool bool | PInt int | PFloat pyfloat | PStr string
  | PList "pv list" | PDict "(string \<times> pv) list"

type_synonym payload = "(string \<times> pv) list"

fun is_true :: "pv \<Rightarrow> bool" where
  "is_true PNone = False"
| "is_true (PBool b) = b"
| "is_true (PInt i) = (i \<noteq> 0)"
| "is_true (PFloat x) = (x \<noteq> Fin 0)"
| "is_true (PStr s) = (s \<noteq> [])"
| "is_true (PList xs) = (xs \<noteq> [])"
| "is_true (PDict kvs) = (kvs \<noteq> [])"

definition pget :: "payload \<Rightarrow> string \<Rightarrow> pv" where
  "pget d k = (case map_of d k of None \<Rightarrow> PNone | Some v \<Rightarrow> v)"

definition SITE_DERIVED_KEY :: string where "SITE_DERIVED_KEY = ''site_derived''"

record event =
  ev_type :: string
  ev_data :: payload
  ev_ts :: rat

definition to_json :: "event \<Rightarrow> pv" where
  "to_json e = PDict [(''type'', PStr (ev_type e)), (''data'', PDict (ev_data e)), (''ts'', PFloat (Fin (ev_ts e)))]"

text \<open>The one predicate every reader asks of a row (\<open>is_site_derived\<close>): anything not shaped like an
  event is unflagged, and any is_true flag counts.\<close>

definition is_site_derived :: "pv \<Rightarrow> bool" where
  "is_site_derived row = (case row of
     PDict r \<Rightarrow> (case pget r ''data'' of PDict d \<Rightarrow> is_true (pget d SITE_DERIVED_KEY) | _ \<Rightarrow> False)
   | _ \<Rightarrow> False)"

definition flagged :: "event \<Rightarrow> bool" where
  "flagged e = is_site_derived (to_json e)"

lemma flagged_iff: "flagged e \<longleftrightarrow> is_true (pget (ev_data e) SITE_DERIVED_KEY)"
  by (simp add: flagged_def is_site_derived_def to_json_def pget_def)

lemma pget_update [simp]:
  "pget (AList.update k v d) k = v"
  "k' \<noteq> k \<Longrightarrow> pget (AList.update k v d) k' = pget d k'"
  by (simp_all add: pget_def update_conv')

section \<open>One subscriber's queue\<close>

text \<open>What a reader is served: an event, or the marker of a hole (\<open>GapMarker\<close>), which serialises to the
  relay's own frame.\<close>

datatype item = Ev event | Gap

definition RELAY_GAP :: string where "RELAY_GAP = ''relay_gap''"
definition SUBSCRIBER_MAX :: nat where "SUBSCRIBER_MAX = 500"

definition item_json :: "item \<Rightarrow> pv" where
  "item_json i = (case i of Ev e \<Rightarrow> to_json e | Gap \<Rightarrow> PDict [(''type'', PStr RELAY_GAP)])"

record subscription =
  sub_max :: nat
  sub_queue :: "(nat \<times> event) list"
  sub_dropped :: nat
  sub_seq :: nat
  sub_next :: nat
  home_loop :: "nat option"

definition new_subscription :: "nat \<Rightarrow> nat option \<Rightarrow> subscription" where
  "new_subscription maxsize home = \<lparr>sub_max = maxsize, sub_queue = [], sub_dropped = 0, sub_seq = 0,
     sub_next = 1, home_loop = home\<rparr>"

definition put_ev :: "subscription \<Rightarrow> event \<Rightarrow> subscription" where
  "put_ev q e = q\<lparr>sub_seq := sub_seq q + 1, sub_queue := sub_queue q @ [(sub_seq q + 1, e)]\<rparr>"

text \<open>\<open>asyncio.Queue.full\<close>: a maxsize of 0 is no bound.\<close>

definition sub_full :: "subscription \<Rightarrow> bool" where
  "sub_full q = (0 < sub_max q \<and> sub_max q \<le> length (sub_queue q))"

definition drop_oldest :: "subscription \<Rightarrow> subscription" where
  "drop_oldest q = q\<lparr>sub_queue := tl (sub_queue q)\<rparr>"

definition offer :: "subscription \<Rightarrow> event \<Rightarrow> subscription" where
  "offer q e = (if sub_full q
     then (let q = drop_oldest q in put_ev (q\<lparr>sub_dropped := sub_dropped q + 1\<rparr>) e)
     else put_ev q e)"

text \<open>A read of a queue that holds something (\<open>_get\<close>); an empty queue makes the reader wait.\<close>

definition get_item :: "subscription \<Rightarrow> (item \<times> subscription) option" where
  "get_item q = (case sub_queue q of
     [] \<Rightarrow> None
   | (seq, e) # rest \<Rightarrow>
       if seq \<noteq> sub_next q then Some (Gap, q\<lparr>sub_next := seq\<rparr>)
       else Some (Ev e, q\<lparr>sub_queue := rest, sub_next := seq + 1\<rparr>))"

subsection \<open>What a reader is told\<close>

text \<open>A run of a queue: the bus offers events and the reader reads, in any order. The state beside the queue
  collects what was offered and what was served.\<close>

datatype queue_op = Offer event | Read

type_synonym queue_run = "subscription \<times> event list \<times> item list"

fun queue_step :: "queue_run \<Rightarrow> queue_op \<Rightarrow> queue_run" where
  "queue_step (q, offered, served) (Offer e) = (offer q e, offered @ [e], served)"
| "queue_step (q, offered, served) Read = (case get_item q of
     None \<Rightarrow> (q, offered, served) | Some (i, q') \<Rightarrow> (q', offered, served @ [i]))"

text \<open>The specification. Events are numbered as they are offered. \<open>told n kept served m\<close>: a reader who
  expected number \<open>n\<close> was served the numbered events \<open>kept\<close> in order, each with the very number expected
  then, and a marker wherever the expectation jumps; it expects \<open>m\<close> now.\<close>

inductive told :: "nat \<Rightarrow> (nat \<times> event) list \<Rightarrow> item list \<Rightarrow> nat \<Rightarrow> bool" where
  told_end: "told n [] [] n"
| told_event: "told (Suc n) kept served m \<Longrightarrow> told n ((n, e) # kept) (Ev e # served) m"
| told_hole: "n < k \<Longrightarrow> told k kept served m \<Longrightarrow> told n kept (Gap # served) m"

code_pred told .

definition numbered :: "event list \<Rightarrow> (nat \<times> event) list" where
  "numbered es = List.enumerate 1 es"

definition queued_from :: "subscription \<Rightarrow> nat" where
  "queued_from q = sub_seq q - length (sub_queue q)"

definition queue_ok :: "queue_run \<Rightarrow> bool" where
  "queue_ok r = (case r of (q, offered, served) \<Rightarrow>
     sub_seq q = length offered \<and> length (sub_queue q) \<le> length offered
     \<and> sub_queue q = drop (queued_from q) (numbered offered)
     \<and> (0 < sub_max q \<longrightarrow> length (sub_queue q) \<le> sub_max q)
     \<and> 1 \<le> sub_next q \<and> sub_next q \<le> queued_from q + 1
     \<and> (\<exists>kept. subseq kept (take (queued_from q) (numbered offered))
          \<and> told 1 kept served (sub_next q)
          \<and> length kept + length (sub_queue q) + sub_dropped q = length offered))"

lemma numbered_Nil [simp]: "numbered [] = []"
  by (simp add: numbered_def)

lemma numbered_snoc: "numbered (es @ [e]) = numbered es @ [(length es + 1, e)]"
  by (simp add: numbered_def enumerate_append_eq)

lemma length_numbered [simp]: "length (numbered es) = length es"
  by (simp add: numbered_def)

lemma told_served_event: "told n kept served m \<Longrightarrow> told n (kept @ [(m, e)]) (served @ [Ev e]) (Suc m)"
  by (induction rule: told.induct) (auto intro: told.intros)

lemma told_served_gap: "told n kept served m \<Longrightarrow> m < k \<Longrightarrow> told n kept (served @ [Gap]) k"
  by (induction rule: told.induct) (auto intro: told.intros)

lemma told_counts: "told n kept served m \<Longrightarrow> n + length kept + length (filter ((=) Gap) served) \<le> m"
  by (induction rule: told.induct) auto

lemma told_events: "told n kept served m \<Longrightarrow> filter ((\<noteq>) Gap) served = map (Ev \<circ> snd) kept"
  by (induction rule: told.induct) auto

lemma nth_numbered: "k < length es \<Longrightarrow> numbered es ! k = (k + 1, es ! k)"
  by (simp add: numbered_def nth_enumerate_eq)

lemma queue_ok_new: "queue_ok (new_subscription maxsize home, [], [])"
  by (auto simp: queue_ok_def new_subscription_def queued_from_def intro!: exI [of _ "[]"] told_end)

lemma queue_ok_put:
  assumes ok: "queue_ok (q, offered, served)" and room: "\<not> sub_full q"
  shows "queue_ok (put_ev q e, offered @ [e], served)"
proof -
  from ok obtain kept where kept: "subseq kept (take (queued_from q) (numbered offered))"
      "told 1 kept served (sub_next q)"
      "length kept + length (sub_queue q) + sub_dropped q = length offered"
    by (auto simp: queue_ok_def)
  have "queued_from (put_ev q e) = queued_from q"
    by (simp add: queued_from_def put_ev_def)
  moreover have "queued_from q \<le> length offered"
    using ok by (simp add: queue_ok_def queued_from_def)
  ultimately show ?thesis
    using ok room kept
    by (auto simp: queue_ok_def put_ev_def sub_full_def numbered_snoc not_le intro!: exI [of _ kept])
qed

lemma drop_oldest_fields [simp]:
  "sub_dropped (drop_oldest q) = sub_dropped q" "sub_max (drop_oldest q) = sub_max q"
  "sub_seq (drop_oldest q) = sub_seq q" "sub_next (drop_oldest q) = sub_next q"
  "home_loop (drop_oldest q) = home_loop q"
  by (simp_all add: drop_oldest_def)

lemma queue_ok_drop:
  assumes ok: "queue_ok (q, offered, served)" and full: "sub_full q"
  shows "queue_ok ((drop_oldest q)\<lparr>sub_dropped := Suc (sub_dropped q)\<rparr>, offered, served)"
    and "\<not> sub_full ((drop_oldest q)\<lparr>sub_dropped := Suc (sub_dropped q)\<rparr>)"
proof -
  let ?q = "(drop_oldest q)\<lparr>sub_dropped := Suc (sub_dropped q)\<rparr>"
  from ok obtain kept where kept: "subseq kept (take (queued_from q) (numbered offered))"
      "told 1 kept served (sub_next q)"
      "length kept + length (sub_queue q) + sub_dropped q = length offered"
    by (auto simp: queue_ok_def)
  have some: "0 < length (sub_queue q)"
    using full by (auto simp: sub_full_def)
  have size: "sub_seq q = length offered" "length (sub_queue q) \<le> length offered"
    using ok by (auto simp: queue_ok_def)
  have from1: "queued_from ?q = queued_from q + 1"
    using some size by (cases "sub_queue q") (auto simp: queued_from_def drop_oldest_def)
  have "subseq kept (take (queued_from q + 1) (numbered offered))"
    using kept(1) by (rule subseq_order.trans) (metis take_is_prefix prefix_imp_subseq take_take min.absorb1 le_add1)
  with kept some size have "\<exists>kept. subseq kept (take (queued_from ?q) (numbered offered))
          \<and> told 1 kept served (sub_next ?q)
          \<and> length kept + length (sub_queue ?q) + sub_dropped ?q = length offered"
    unfolding from1 by (intro exI [of _ kept]) (cases "sub_queue q", simp_all add: drop_oldest_def)
  moreover have "sub_queue ?q = drop (queued_from ?q) (numbered offered)"
    unfolding from1 using ok by (simp add: queue_ok_def drop_oldest_def drop_Suc tl_drop)
  ultimately show "queue_ok (?q, offered, served)"
    using ok size from1 by (auto simp: queue_ok_def drop_oldest_def)
  show "\<not> sub_full ?q"
    using ok full by (auto simp: queue_ok_def drop_oldest_def sub_full_def)
qed

lemma queue_ok_offer: "queue_ok (q, offered, served) \<Longrightarrow> queue_ok (offer q e, offered @ [e], served)"
  using queue_ok_drop [of q offered served]
  by (cases "sub_full q") (auto simp: offer_def Let_def intro: queue_ok_put)

lemma queue_ok_get:
  assumes ok: "queue_ok (q, offered, served)" and get: "get_item q = Some (i, q')"
  shows "queue_ok (q', offered, served @ [i])"
proof -
  from ok obtain kept where kept: "subseq kept (take (queued_from q) (numbered offered))"
      "told 1 kept served (sub_next q)"
      "length kept + length (sub_queue q) + sub_dropped q = length offered"
    by (auto simp: queue_ok_def)
  obtain seq e rest where queue: "sub_queue q = (seq, e) # rest"
    using get by (auto simp: get_item_def split: list.splits)
  let ?n = "queued_from q"
  have size: "sub_seq q = length offered" "Suc (length rest) \<le> length offered"
    and dropped: "drop ?n (numbered offered) = (seq, e) # rest"
    and bound: "0 < sub_max q \<longrightarrow> length rest \<le> sub_max q"
    using ok queue by (auto simp: queue_ok_def)
  then have n: "?n < length offered" and seq: "seq = ?n + 1" "numbered offered ! ?n = (seq, e)"
    using nth_numbered [of ?n offered] nth_via_drop [OF dropped]
    by (auto simp: queued_from_def queue)
  show ?thesis
  proof (cases "seq = sub_next q")
    case False
    then have q': "i = Gap" "q' = q\<lparr>sub_next := seq\<rparr>"
      using get queue by (auto simp: get_item_def)
    have "sub_next q < seq"
      using ok False seq by (simp add: queue_ok_def)
    then have "told 1 kept (served @ [Gap]) seq"
      using kept(2) by (rule told_served_gap [rotated])
    then show ?thesis
      using ok kept seq by (auto simp: queue_ok_def q' queued_from_def)
  next
    case True
    then have q': "i = Ev e" "q' = q\<lparr>sub_queue := rest, sub_next := seq + 1\<rparr>"
      using get queue by (auto simp: get_item_def)
    have from1: "queued_from q' = ?n + 1"
      using size by (simp add: queued_from_def q' queue)
    have "subseq (kept @ [(seq, e)]) (take ?n (numbered offered) @ [(seq, e)])"
      using kept(1) by (simp add: list_emb_append_mono)
    then have "subseq (kept @ [(seq, e)]) (take (?n + 1) (numbered offered))"
      using n seq(2) by (simp add: take_Suc_conv_app_nth)
    moreover have "told 1 (kept @ [(seq, e)]) (served @ [Ev e]) (seq + 1)"
      using told_served_event [OF kept(2)] True by simp
    moreover have "rest = drop (?n + 1) (numbered offered)"
      using dropped by (metis add.commute drop_drop drop_Suc_Cons drop0 plus_1_eq_Suc)
    ultimately show ?thesis
      using size bound kept(3) from1 seq(1)
      unfolding queue_ok_def prod.case
      by (intro conjI exI [of _ "kept @ [(seq, e)]"]) (auto simp: q' queue)
  qed
qed

interpretation reading: machine queue_step queue_ok
proof
  fix r op assume "queue_ok r"
  then show "queue_ok (queue_step r op)"
    by (cases r; cases op) (auto intro: queue_ok_offer queue_ok_get split: option.split)
qed

section \<open>The night file\<close>

definition LOG_KEEP_NIGHTS :: nat where "LOG_KEEP_NIGHTS = 14"
definition LOG_READ_MAX :: nat where "LOG_READ_MAX = 20000"
definition NIGHTLOG_RETRY_S :: rat where "NIGHTLOG_RETRY_S = 60"
definition NIGHTLOG_QUEUE_MAX :: nat where "NIGHTLOG_QUEUE_MAX = 10000"

datatype notice = Pause_Notice | Resume_Notice

record writer =
  keep_nights :: nat
  wr_failed :: bool
  retry_at :: rat
  paused_at :: rat
  paused_for :: rat
  pause_desc :: string
  wr_notice :: "notice option"
  wr_lost :: nat
  last_night :: "string option"
  pruned_for :: "string option"

definition new_writer :: "nat \<Rightarrow> writer" where
  "new_writer keep = \<lparr>keep_nights = keep, wr_failed = False, retry_at = 0, paused_at = 0, paused_for = 0,
     pause_desc = [], wr_notice = None, wr_lost = 0, last_night = None, pruned_for = None\<rparr>"

text \<open>A file as a reader finds it: the rows that parse, and whether it ends inside a line. The next line
  written after a torn one is glued to it, and the two parse as neither.\<close>

record night_file =
  nf_rows :: "pv list"
  nf_torn :: bool

type_synonym disk = "((string \<times> string) \<times> night_file) list"

definition file_at :: "disk \<Rightarrow> string \<times> string \<Rightarrow> night_file" where
  "file_at d p = (case map_of d p of None \<Rightarrow> \<lparr>nf_rows = [], nf_torn = False\<rparr> | Some f \<Rightarrow> f)"

definition append_line :: "pv \<Rightarrow> night_file \<Rightarrow> night_file" where
  "append_line row f = (if nf_torn f then f\<lparr>nf_torn := False\<rparr> else f\<lparr>nf_rows := nf_rows f @ [row]\<rparr>)"

datatype queued = Line event string string | Marker nat

text \<open>How recording a pause goes: everything is noted, or the handler runs out of stack before the
  description or before the clock is read.\<close>

datatype pause_note = Noted string | Undescribed | Untimed

definition pause :: "rat \<Rightarrow> pause_note \<Rightarrow> writer \<Rightarrow> writer" where
  "pause now n w = (
     let w = w\<lparr>wr_failed := True, wr_notice := Some Pause_Notice, last_night := None\<rparr> in
     case n of
       Noted desc \<Rightarrow> w\<lparr>paused_at := now, retry_at := now + NIGHTLOG_RETRY_S, pause_desc := desc\<rparr>
     | Undescribed \<Rightarrow> w\<lparr>paused_at := now, retry_at := now + NIGHTLOG_RETRY_S, pause_desc := []\<rparr>
     | Untimed \<Rightarrow> w\<lparr>pause_desc := []\<rparr>)"

definition resume_writer :: "rat \<Rightarrow> writer \<Rightarrow> writer" where
  "resume_writer now w = w\<lparr>wr_failed := False, paused_for := max 0 (now - paused_at w), wr_notice := Some Resume_Notice\<rparr>"

definition waiting :: "rat \<Rightarrow> writer \<Rightarrow> bool" where
  "waiting now w = (wr_failed w \<and> now < retry_at w)"

text \<open>Queueing one line (\<open>NightLogWriter.append\<close>). \<open>fault\<close> is an exception out of the body, before the line
  is on the queue or (\<open>True\<close>) after, when the thread will not start.\<close>

definition append_log :: "rat \<Rightarrow> string \<Rightarrow> (rat \<Rightarrow> string) \<Rightarrow> (bool \<times> pause_note) option
    \<Rightarrow> event \<Rightarrow> writer \<times> queued list \<Rightarrow> writer \<times> queued list" where
  "append_log now dir night_key fault ev = (\<lambda>(w, queue).
     if waiting now w then (w, queue)
     else let item = Line ev (night_key (ev_ts ev)) dir in
     case fault of
       Some (False, n) \<Rightarrow> (pause now n w, queue)
     | _ \<Rightarrow>
         if NIGHTLOG_QUEUE_MAX \<le> length queue then (w\<lparr>wr_lost := wr_lost w + 1\<rparr>, queue)
         else (case fault of Some (_, n) \<Rightarrow> (pause now n w, queue @ [item]) | None \<Rightarrow> (w, queue @ [item])))"

text \<open>Retention (\<open>_prune\<close>): the names sorted as the directory's file names are, the newest kept. \<open>gone\<close> is
  how many files are unlinked before one cannot be.\<close>

definition night_names :: "disk \<Rightarrow> string \<Rightarrow> string list" where
  "night_names d dir = map (snd \<circ> fst) (filter (\<lambda>(p, _). fst p = dir) d)"

definition prune_old :: "nat \<Rightarrow> string \<Rightarrow> string \<Rightarrow> writer \<times> disk \<Rightarrow> writer \<times> disk" where
  "prune_old gone current dir = (\<lambda>(w, d).
     if pruned_for w = Some current then (w, d)
     else let files = sort_key (\<lambda>n. n @ ''.jsonl'') (night_names d dir);
              old = take gone (take (length files - keep_nights w) files) in
       (w\<lparr>pruned_for := Some current\<rparr>, filter (\<lambda>(p, _). \<not> (fst p = dir \<and> snd p \<in> set old)) d))"

text \<open>Writing one queued line, on the writer's thread (\<open>_write\<close>).\<close>

datatype write_fault = No_Fault | Mkdir_Fails pause_note | Write_Fails bool pause_note

definition line_written :: "rat \<Rightarrow> nat \<Rightarrow> event \<Rightarrow> string \<Rightarrow> string \<Rightarrow> writer \<times> disk \<Rightarrow> writer \<times> disk" where
  "line_written now gone ev night dir = (\<lambda>(w, d).
     let rolled = last_night w \<noteq> Some night;
         d = AList.update (dir, night) (append_line (to_json ev) (file_at d (dir, night))) d;
         w = w\<lparr>last_night := Some night\<rparr>;
         (w, d) = (if rolled then prune_old gone night dir (w, d) else (w, d)) in
     (if wr_failed w then resume_writer now w else w, d))"

definition write_line :: "rat \<Rightarrow> write_fault \<Rightarrow> nat \<Rightarrow> event \<Rightarrow> string \<Rightarrow> string \<Rightarrow> writer \<times> disk \<Rightarrow> writer \<times> disk" where
  "write_line now fault gone ev night dir = (\<lambda>(w, d).
     if waiting now w then (w, d)
     else let rolled = last_night w \<noteq> Some night in
     case fault of
       No_Fault \<Rightarrow> line_written now gone ev night dir (w, d)
     | Mkdir_Fails n \<Rightarrow>
         (if rolled then (pause now n w, d) else line_written now gone ev night dir (w, d))
     | Write_Fails torn n \<Rightarrow>
         (let f = file_at d (dir, night) in
          (pause now n (w\<lparr>last_night := Some night\<rparr>),
           if torn then AList.update (dir, night) (f\<lparr>nf_torn := True\<rparr>) d else d)))"

text \<open>The line the writer owes the log (\<open>take_notice\<close>), given how long the queue is.\<close>

definition take_notice :: "nat \<Rightarrow> writer \<Rightarrow> (string \<times> string) option \<times> writer" where
  "take_notice qsize w =
     (if wr_notice w = None \<and> wr_lost w = 0 then (None, w)
      else let tag = wr_notice w; w = w\<lparr>wr_notice := None\<rparr>;
               tell = (tag = None \<and> 0 < wr_lost w \<and> qsize \<le> NIGHTLOG_QUEUE_MAX div 2);
               missed = (if tell then wr_lost w else 0);
               w = (if tell then w\<lparr>wr_lost := 0\<rparr> else w) in
        (if 0 < missed then Some (''warning'', ''night log file writer fell behind: '' @ nat_str missed
             @ '' lines were not written to the night file; the live log still has the recent ones'')
         else (case tag of
           Some Pause_Notice \<Rightarrow> Some (''warning'', ''night log file writer paused: ''
             @ (if pause_desc w = [] then ''unknown error'' else pause_desc w) @ ''; retrying in 60 s'')
         | Some Resume_Notice \<Rightarrow> Some (''info'', ''night log file writer resumed after ''
             @ fmt_fixed 0 (paused_for w) @ '' s'')
         | None \<Rightarrow> None), w))"

text \<open>Reading a night back (\<open>read\<close>): the level filter, then the rows the reader may not see, then the
  newest \<open>limit\<close>.\<close>

definition row_level :: "pv \<Rightarrow> pv res" where
  "row_level row = (case row of
     PDict r \<Rightarrow> (case pget r ''data'' of
         PDict d \<Rightarrow> Inr (pget d ''level'')
       | v \<Rightarrow> if is_true v then Inl AttributeError else Inr PNone)
   | _ \<Rightarrow> Inl AttributeError)"

fun wanted_rows :: "string \<Rightarrow> bool \<Rightarrow> pv list \<Rightarrow> pv list res" where
  "wanted_rows level flags [] = Inr []"
| "wanted_rows level flags (row # rows) =
     (case (if level = [] then Inr True else case row_level row of Inl e \<Rightarrow> Inl e | Inr v \<Rightarrow> Inr (v = PStr level)) of
        Inl e \<Rightarrow> Inl e
      | Inr match \<Rightarrow> (case wanted_rows level flags rows of
          Inl e \<Rightarrow> Inl e
        | Inr rest \<Rightarrow> Inr (if match \<and> (flags \<or> \<not> is_site_derived row) then row # rest else rest)))"

definition newest :: "nat \<Rightarrow> 'a list \<Rightarrow> 'a list" where
  "newest n xs = drop (length xs - n) xs"

definition read_night :: "string \<Rightarrow> nat \<Rightarrow> bool \<Rightarrow> night_file \<Rightarrow> pv list res" where
  "read_night level limit flags f = (case wanted_rows level flags (nf_rows f) of
     Inl e \<Rightarrow> Inl e
   | Inr rows \<Rightarrow> Inr (if 0 < limit then newest limit rows else rows))"

section \<open>The bus\<close>

definition STORM_PASS :: nat where "STORM_PASS = 3"
definition STORM_WINDOW_S :: rat where "STORM_WINDOW_S = 1"
definition SITE_ALERT_TYPE :: string where "SITE_ALERT_TYPE = ''site_alert''"

type_synonym storm = "pv \<times> pv \<times> pv \<times> bool"

text \<open>\<open>lines\<close> is the queue to the writer's thread and \<open>nights\<close> the disk; \<open>handed\<close> holds the deliveries waiting on a
  foreign loop, one per loop and publish. \<open>sent\<close> keeps, for the theorems, every event the bus has
  fanned out.\<close>

record bus =
  snapshots :: "(string \<times> payload) list"
  subscribers :: "(nat \<times> subscription) list"
  sub_count :: nat
  hist_max :: nat
  history :: "event list"
  history_unflagged :: "event list"
  night_log :: "writer option"
  storm_key :: "storm option"
  storm_start :: rat
  storm_seen :: nat
  storm_dropped :: nat
  in_notice :: bool
  lines :: "queued list"
  nights :: disk
  markers :: "nat list"
  handed :: "(nat \<times> nat list \<times> event) list"
  sent :: "event list"

datatype loop_state = Closed | Stopped | Running bool

record pub_env =
  e_now :: rat
  e_wall :: rat
  e_span :: bool
  e_here :: "nat option"
  e_loop :: "nat \<Rightarrow> loop_state"
  e_dir :: string
  e_night :: "rat \<Rightarrow> string"
  e_fault :: "event \<Rightarrow> (bool \<times> pause_note) option"
  e_text :: "pv \<Rightarrow> string"

definition new_bus :: "nat \<Rightarrow> bool \<Rightarrow> disk \<Rightarrow> bus" where
  "new_bus hist persist d = \<lparr>snapshots = [], subscribers = [], sub_count = 0, hist_max = hist, history = [],
     history_unflagged = [], night_log = (if persist then Some (new_writer LOG_KEEP_NIGHTS) else None),
     storm_key = None, storm_start = 0, storm_seen = 0, storm_dropped = 0, in_notice = False,
     lines = [], nights = d, markers = [], handed = [], sent = []\<rparr>"

subsection \<open>The span\<close>

definition span_exempt :: "string \<Rightarrow> payload \<Rightarrow> bool" where
  "span_exempt ty data = (ty \<in> {''safety'', ''alert''}
     \<or> ty = ''log'' \<and> pget data ''level'' \<in> {PStr ''warning'', PStr ''error''})"

definition spanned :: "pub_env \<Rightarrow> string \<Rightarrow> payload \<Rightarrow> payload" where
  "spanned env ty data = (if e_span env \<and> \<not> span_exempt ty data
     then AList.update SITE_DERIVED_KEY (PBool True) data else data)"

subsection \<open>Fan-out\<close>

text \<open>The subscribers served now, and those handed to another loop. A loop that is running elsewhere takes a
  hand-off (\<open>Running True\<close>) or has closed since it was asked (\<open>Running False\<close>).\<close>

definition offered_now :: "pub_env \<Rightarrow> subscription \<Rightarrow> bool" where
  "offered_now env q = (case home_loop q of
     None \<Rightarrow> True
   | Some l \<Rightarrow> Some l = e_here env \<or> e_loop env l = Stopped)"

definition handed_to :: "pub_env \<Rightarrow> subscription \<Rightarrow> nat option" where
  "handed_to env q = (case home_loop q of
     None \<Rightarrow> None
   | Some l \<Rightarrow> if Some l \<noteq> e_here env \<and> e_loop env l = Running True then Some l else None)"

definition hand_offs :: "pub_env \<Rightarrow> event \<Rightarrow> (nat \<times> subscription) list \<Rightarrow> (nat \<times> nat list \<times> event) list" where
  "hand_offs env ev subs =
     map (\<lambda>l. (l, map fst (filter (\<lambda>(_, q). handed_to env q = Some l) subs), ev))
       (firsts (List.map_filter (\<lambda>(_, q). handed_to env q) subs))"

definition fan_out :: "pub_env \<Rightarrow> event \<Rightarrow> bus \<Rightarrow> bus" where
  "fan_out env ev b = b\<lparr>
     subscribers := map (\<lambda>(k, q). (k, if offered_now env q then offer q ev else q)) (subscribers b),
     handed := handed b @ hand_offs env ev (subscribers b),
     sent := sent b @ [ev]\<rparr>"

text \<open>A handed-off delivery, run on its own loop (\<open>_offer_all\<close>).\<close>

definition offer_all :: "nat list \<Rightarrow> event \<Rightarrow> bus \<Rightarrow> bus" where
  "offer_all ks ev b = b\<lparr>subscribers :=
     map (\<lambda>(k, q). (k, if k \<in> set ks then offer q ev else q)) (subscribers b)\<rparr>"

definition run_handed :: "nat \<Rightarrow> bus \<Rightarrow> bus" where
  "run_handed l b = (case List.find (\<lambda>(l', _). l' = l) (handed b) of
     None \<Rightarrow> b
   | Some (l', ks, ev) \<Rightarrow> offer_all ks ev (b\<lparr>handed := remove1 (l', ks, ev) (handed b)\<rparr>))"

definition subscribe :: "nat option \<Rightarrow> bus \<Rightarrow> bus" where
  "subscribe here b = b\<lparr>subscribers := subscribers b
     @ [(sub_count b, new_subscription SUBSCRIBER_MAX here)], sub_count := sub_count b + 1\<rparr>"

definition unsubscribe :: "nat \<Rightarrow> bus \<Rightarrow> bus" where
  "unsubscribe k b = b\<lparr>subscribers := filter (\<lambda>(k', _). k' \<noteq> k) (subscribers b)\<rparr>"

subsection \<open>Ring, disk, subscribers\<close>

definition ring_push :: "nat \<Rightarrow> 'a list \<Rightarrow> 'a \<Rightarrow> 'a list" where
  "ring_push n xs x = newest n (xs @ [x])"

definition log_to_disk :: "pub_env \<Rightarrow> event \<Rightarrow> bus \<Rightarrow> bus" where
  "log_to_disk env ev b = (case night_log b of
     None \<Rightarrow> b
   | Some w \<Rightarrow>
       let (w, queue) = append_log (e_now env) (e_dir env) (e_night env) (e_fault env ev) ev (w, lines b)
       in b\<lparr>night_log := Some w, lines := queue\<rparr>)"

definition keep_line :: "event \<Rightarrow> bus \<Rightarrow> bus" where
  "keep_line ev b = b\<lparr>history := ring_push (hist_max b) (history b) ev,
     history_unflagged := (if is_site_derived (to_json ev) then history_unflagged b
                           else ring_push (hist_max b) (history_unflagged b) ev)\<rparr>"

definition deliver :: "pub_env \<Rightarrow> event \<Rightarrow> bus \<Rightarrow> bus" where
  "deliver env ev b = fan_out env ev
     (if ev_type ev = ''log'' then log_to_disk env ev (keep_line ev b) else b)"

subsection \<open>The storm limiter\<close>

definition py_text :: "pub_env \<Rightarrow> pv \<Rightarrow> string" where
  "py_text env v = (case v of PStr s \<Rightarrow> s | _ \<Rightarrow> e_text env v)"

definition storm_of :: "payload \<Rightarrow> storm" where
  "storm_of data = (pget data ''level'', pget data ''message'', pget data ''source'',
     is_true (pget data SITE_DERIVED_KEY))"

definition summary :: "pub_env \<Rightarrow> storm \<Rightarrow> nat \<Rightarrow> bool \<Rightarrow> payload" where
  "summary env key n by_site = (case key of (level, message, source, flag) \<Rightarrow>
     [(''level'', level),
      (''message'', PStr (py_text env message @ '' (repeated '' @ nat_str n @ '' more times in 1.0 s)'')),
      (''source'', source)]
     @ (if flag \<or> by_site then [(SITE_DERIVED_KEY, PBool True)] else []))"

definition flush :: "pub_env \<Rightarrow> bool \<Rightarrow> bus \<Rightarrow> bus" where
  "flush env by_site b = (
     let key = storm_key b; dropped = storm_dropped b;
         b = b\<lparr>storm_key := None, storm_dropped := 0, storm_seen := 0\<rparr> in
     case key of
       None \<Rightarrow> b
     | Some k \<Rightarrow> if dropped = 0 then b
         else deliver env \<lparr>ev_type = ''log'', ev_data = summary env k dropped by_site, ev_ts = e_wall env\<rparr> b)"

definition storm_suppresses :: "pub_env \<Rightarrow> payload \<Rightarrow> bus \<Rightarrow> bool \<times> bus" where
  "storm_suppresses env data b = (
     let key = storm_of data in
     if storm_key b = Some key \<and> e_now env - storm_start b < STORM_WINDOW_S
     then (let b = b\<lparr>storm_seen := storm_seen b + 1\<rparr> in
           if storm_seen b \<le> STORM_PASS then (False, b)
           else (True, b\<lparr>storm_dropped := storm_dropped b + 1\<rparr>))
     else (False, (flush env (snd (snd (snd key))) b)\<lparr>storm_key := Some key, storm_start := e_now env,
             storm_seen := 1, storm_dropped := 0\<rparr>))"

subsection \<open>Publishing\<close>

text \<open>The part of \<open>publish\<close> after the notice.\<close>

definition publish_event :: "pub_env \<Rightarrow> string \<Rightarrow> payload \<Rightarrow> bus \<Rightarrow> bus" where
  "publish_event env ty data b = (
     let (quiet, b) = (if ty = ''log'' then storm_suppresses env data b else (False, b)) in
     if quiet then b else deliver env \<lparr>ev_type = ty, ev_data = data, ev_ts = e_wall env\<rparr> b)"

text \<open>The notice is a publish of its own; the one it makes finds \<open>in_notice\<close> set, so it drains nothing.\<close>

definition drain_notice :: "pub_env \<Rightarrow> bus \<Rightarrow> bus" where
  "drain_notice env b = (case night_log b of
     None \<Rightarrow> b
   | Some w \<Rightarrow>
       if in_notice b then b
       else (case take_notice (length (lines b)) w of
          (None, w) \<Rightarrow> b\<lparr>night_log := Some w\<rparr>
        | (Some (level, message), w) \<Rightarrow>
            (let b = b\<lparr>night_log := Some w, in_notice := True\<rparr>;
                 data = spanned env ''log''
                   [(''level'', PStr level), (''message'', PStr message), (''source'', PStr ''log'')] in
             (publish_event env ''log'' data b)\<lparr>in_notice := False\<rparr>)))"

definition snapshot :: "pub_env \<Rightarrow> string \<Rightarrow> payload \<Rightarrow> bus \<Rightarrow> bus" where
  "snapshot env ty data b = (if ty \<in> {''focus'', ''filter_offsets''}
     then b\<lparr>snapshots := AList.update ty (AList.update ''_observed_at'' (PFloat (Fin (e_wall env))) data)
              (snapshots b)\<rparr>
     else b)"

definition bus_publish :: "pub_env \<Rightarrow> string \<Rightarrow> payload \<Rightarrow> bus \<Rightarrow> bus" where
  "bus_publish env ty data b = (
     let data = spanned env ty data;
         b = snapshot env ty data b;
         b = (if is_true (pget data SITE_DERIVED_KEY) then b else drain_notice env b) in
     publish_event env ty data b)"

definition log_line :: "string \<Rightarrow> string \<Rightarrow> string \<Rightarrow> bool \<Rightarrow> payload" where
  "log_line level message source site = [(''level'', PStr level), (''message'', PStr message), (''source'', PStr source)]
     @ (if site then [(SITE_DERIVED_KEY, PBool True)] else [])"

definition log_event :: "pub_env \<Rightarrow> string \<Rightarrow> string \<Rightarrow> string \<Rightarrow> bool \<Rightarrow> bus \<Rightarrow> bus" where
  "log_event env level message source site = bus_publish env ''log'' (log_line level message source site)"

definition log_with_alert :: "pub_env \<Rightarrow> pub_env \<Rightarrow> string \<Rightarrow> string \<Rightarrow> string \<Rightarrow> string option \<Rightarrow> bus \<Rightarrow> bus" where
  "log_with_alert env env' level message source alert b =
     bus_publish env' SITE_ALERT_TYPE
       (log_line level (case alert of None \<Rightarrow> message | Some m \<Rightarrow> m) source True)
       (log_event env level message source True b)"

text \<open>The writer's thread takes one item (\<open>_writer_loop\<close>); a marker tells its waiter that everything queued
  before it has been handled.\<close>

definition write_one :: "rat \<Rightarrow> write_fault \<Rightarrow> nat \<Rightarrow> bus \<Rightarrow> bus" where
  "write_one now fault gone b = (case lines b of
     [] \<Rightarrow> b
   | Marker k # rest \<Rightarrow> b\<lparr>lines := rest, markers := k # markers b\<rparr>
   | Line ev night dir # rest \<Rightarrow> (case night_log b of
         None \<Rightarrow> b\<lparr>lines := rest\<rparr>
       | Some w \<Rightarrow> (let (w, d) = write_line now fault gone ev night dir (w, nights b) in
           b\<lparr>lines := rest, night_log := Some w, nights := d\<rparr>)))"

definition flush_night_logs :: "nat \<Rightarrow> bus \<Rightarrow> bus" where
  "flush_night_logs k b = b\<lparr>lines := lines b @ [Marker k]\<rparr>"

definition read_sub :: "nat \<Rightarrow> bus \<Rightarrow> item option \<times> bus" where
  "read_sub k b = (case map_of (subscribers b) k of
     None \<Rightarrow> (None, b)
   | Some q \<Rightarrow> (case get_item q of
       None \<Rightarrow> (None, b)
     | Some (i, q') \<Rightarrow> (Some i, b\<lparr>subscribers := AList.update k q' (subscribers b)\<rparr>)))"

section \<open>What the bus promises\<close>

lemma flush_fields [simp]:
  "storm_key (deliver env ev b) = storm_key b" "storm_seen (deliver env ev b) = storm_seen b"
  "storm_dropped (deliver env ev b) = storm_dropped b" "storm_start (deliver env ev b) = storm_start b"
  "in_notice (deliver env ev b) = in_notice b" "sent (deliver env ev b) = sent b @ [ev]"
  by (simp_all add: deliver_def fan_out_def log_to_disk_def keep_line_def case_prod_beta split: option.split)

lemma unflagged_deliver:
  "flagged ev \<Longrightarrow> history_unflagged (deliver env ev b) = history_unflagged b"
  by (simp add: deliver_def fan_out_def log_to_disk_def keep_line_def flagged_def case_prod_beta split: option.split)

lemma sent_flush: "sent (flush env by_site b) = sent b @ (case storm_key b of None \<Rightarrow> []
    | Some k \<Rightarrow> if storm_dropped b = 0 then []
      else [\<lparr>ev_type = ''log'', ev_data = summary env k (storm_dropped b) by_site, ev_ts = e_wall env\<rparr>])"
  by (simp add: flush_def Let_def split: option.split)

lemma flagged_summary:
  "flagged \<lparr>ev_type = ''log'', ev_data = summary env k n by_site, ev_ts = t\<rparr> \<longleftrightarrow> snd (snd (snd k)) \<or> by_site"
  by (cases k) (simp add: flagged_iff summary_def pget_def SITE_DERIVED_KEY_def)

lemma unflagged_flush: "history_unflagged (flush env True b) = history_unflagged b"
  by (simp add: flush_def Let_def unflagged_deliver flagged_summary split: option.split)

text \<open>A publish whose moment is the site's.\<close>

definition only_flagged :: "bus \<Rightarrow> bus \<Rightarrow> bool" where
  "only_flagged b b' = (history_unflagged b' = history_unflagged b
     \<and> (\<exists>es. sent b' = sent b @ es \<and> list_all flagged es))"

lemma only_flagged_storm:
  "is_true (pget data SITE_DERIVED_KEY) \<Longrightarrow> only_flagged b (snd (storm_suppresses env data b))"
  by (auto simp: only_flagged_def storm_suppresses_def storm_of_def Let_def sent_flush unflagged_flush
      flagged_summary split: option.split)

lemma only_flagged_deliver:
  "only_flagged b b' \<Longrightarrow> flagged ev \<Longrightarrow> only_flagged b (deliver env ev b')"
  by (auto simp: only_flagged_def unflagged_deliver)

lemma only_flagged_publish:
  assumes "is_true (pget data SITE_DERIVED_KEY)"
  shows "only_flagged b (publish_event env ty data b)"
proof -
  have ev: "flagged \<lparr>ev_type = ty, ev_data = data, ev_ts = e_wall env\<rparr>"
    using assms by (simp add: flagged_iff)
  have refl: "only_flagged b b"
    by (simp add: only_flagged_def)
  show ?thesis
    using only_flagged_storm [OF assms, of b env] only_flagged_deliver [OF _ ev] refl
    by (simp add: publish_event_def case_prod_beta)
qed

lemma snapshot_fields [simp]:
  "history_unflagged (snapshot env ty data b) = history_unflagged b" "sent (snapshot env ty data b) = sent b"
  by (simp_all add: snapshot_def)

text \<open>C32. A publish that carries the site-derived flag, its own or the span's, shows a reader without the
  right to it nothing: the ring such a reader polls does not move, and every event the publish sends, the
  summary of a storm it closes included, carries the flag.\<close>

theorem site_moments_stay_hidden:
  assumes "is_true (pget (spanned env ty data) SITE_DERIVED_KEY)"
  shows "history_unflagged (bus_publish env ty data b) = history_unflagged b
    \<and> (\<exists>es. sent (bus_publish env ty data b) = sent b @ es \<and> list_all flagged es)"
  using only_flagged_publish [OF assms, of "snapshot env ty (spanned env ty data) b" env ty] assms
  by (simp add: bus_publish_def Let_def only_flagged_def)

text \<open>C33. However the bus offers and the reader reads, the reader is served the events in order, each
  either right after the one published before it or behind a marker; never more than 500 wait, and
  an event is served, waiting or counted as dropped. A marker stands for at least one dropped event.\<close>

theorem reader_is_told:
  "case run queue_step (new_subscription SUBSCRIBER_MAX home, [], []) ops of (q, offered, served) \<Rightarrow>
     length (sub_queue q) \<le> SUBSCRIBER_MAX
     \<and> (\<exists>kept. subseq kept (numbered offered) \<and> told 1 kept served (sub_next q)
          \<and> filter ((\<noteq>) Gap) served = map (Ev \<circ> snd) kept
          \<and> sub_queue q = drop (length offered - length (sub_queue q)) (numbered offered)
          \<and> length kept + length (sub_queue q) + sub_dropped q = length offered)
     \<and> length (filter ((=) Gap) served) \<le> sub_dropped q"
proof -
  have max_step: "sub_max (fst (queue_step r op)) = sub_max (fst r)" for r op
    by (cases r; cases op) (auto simp: offer_def put_ev_def get_item_def Let_def split: option.splits list.splits if_splits)
  have max: "sub_max (fst (run queue_step r ops)) = sub_max (fst r)" for r
    by (induction ops arbitrary: r) (simp_all add: max_step)
  obtain q offered served where final: "run queue_step (new_subscription SUBSCRIBER_MAX home, [], []) ops = (q, offered, served)"
    by (cases "run queue_step (new_subscription SUBSCRIBER_MAX home, [], []) ops")
  have ok: "queue_ok (q, offered, served)"
    using reading.inv_run [OF queue_ok_new, of SUBSCRIBER_MAX home ops] final by simp
  have bound: "sub_max q = SUBSCRIBER_MAX"
    using max [of "(new_subscription SUBSCRIBER_MAX home, [], [])"] final by (simp add: new_subscription_def)
  obtain kept where kept: "subseq kept (take (queued_from q) (numbered offered))"
      "told 1 kept served (sub_next q)"
      "length kept + length (sub_queue q) + sub_dropped q = length offered"
    using ok by (auto simp: queue_ok_def)
  have sub: "subseq kept (numbered offered)"
    using kept(1) take_is_prefix by (blast intro: subseq_order.trans prefix_imp_subseq)
  have gaps: "1 + length kept + length (filter ((=) Gap) served) \<le> sub_next q"
    using told_counts [OF kept(2)] by simp
  show ?thesis
    using ok sub kept gaps told_events [OF kept(2)]
    unfolding final prod.case
    by (intro conjI exI [of _ kept]) (auto simp: queue_ok_def bound queued_from_def SUBSCRIBER_MAX_def)
qed

text \<open>The storm limiter.\<close>

lemma publish_repeat:
  assumes "storm_key b = Some (storm_of data)" "e_now env - storm_start b < STORM_WINDOW_S"
  shows "publish_event env ''log'' data b = (let b' = b\<lparr>storm_seen := storm_seen b + 1\<rparr> in
    if storm_seen b + 1 \<le> STORM_PASS then deliver env \<lparr>ev_type = ''log'', ev_data = data, ev_ts = e_wall env\<rparr> b'
    else b'\<lparr>storm_dropped := storm_dropped b + 1\<rparr>)"
  using assms by (simp add: publish_event_def storm_suppresses_def Let_def)

lemma storm_counts:
  assumes "storm_key b = Some (storm_of data)"
    and "list_all (\<lambda>env. e_now env - storm_start b < STORM_WINDOW_S) envs"
    and "STORM_PASS \<le> storm_seen b"
  shows "let b' = run (\<lambda>b env. publish_event env ''log'' data b) b envs in
    storm_key b' = storm_key b \<and> storm_start b' = storm_start b \<and> sent b' = sent b
    \<and> storm_dropped b' = storm_dropped b + length envs"
  using assms by (induction envs arbitrary: b) (simp_all add: publish_repeat Let_def)

lemma publish_fresh:
  assumes "storm_key b \<noteq> Some (storm_of data) \<or> STORM_WINDOW_S \<le> e_now env - storm_start b"
  shows "publish_event env ''log'' data b = deliver env \<lparr>ev_type = ''log'', ev_data = data, ev_ts = e_wall env\<rparr>
    ((flush env (is_true (pget data SITE_DERIVED_KEY)) b)\<lparr>storm_key := Some (storm_of data),
      storm_start := e_now env, storm_seen := 1, storm_dropped := 0\<rparr>)"
  using assms by (auto simp: publish_event_def storm_suppresses_def Let_def storm_of_def)

text \<open>Of one log line repeated within a second of its first, three copies are sent and the rest are
  counted; the next line that is different, or later, sends one summary with that count ahead of itself.\<close>

theorem storm_is_summed_up:
  assumes "storm_key b = None"
    and "list_all (\<lambda>env. e_now env - e_now opened < STORM_WINDOW_S) (second # third # envs)" "envs \<noteq> []"
    and "storm_of other \<noteq> storm_of data \<or> STORM_WINDOW_S \<le> e_now env' - e_now opened"
  shows "sent (publish_event env' ''log'' other
           (run (\<lambda>b env. publish_event env ''log'' data b) b (opened # second # third # envs)))
    = sent b @ map (\<lambda>env. \<lparr>ev_type = ''log'', ev_data = data, ev_ts = e_wall env\<rparr>) [opened, second, third]
      @ [\<lparr>ev_type = ''log'', ev_data = summary env' (storm_of data) (length envs)
             (is_true (pget other SITE_DERIVED_KEY)), ev_ts = e_wall env'\<rparr>,
         \<lparr>ev_type = ''log'', ev_data = other, ev_ts = e_wall env'\<rparr>]"
proof -
  define b1 where "b1 = publish_event opened ''log'' data b"
  define b2 where "b2 = publish_event second ''log'' data b1"
  define b3 where "b3 = publish_event third ''log'' data b2"
  define b4 where "b4 = run (\<lambda>b env. publish_event env ''log'' data b) b3 envs"
  have b1: "storm_key b1 = Some (storm_of data)" "storm_start b1 = e_now opened" "storm_seen b1 = 1"
      "storm_dropped b1 = 0" "sent b1 = sent b @ [\<lparr>ev_type = ''log'', ev_data = data, ev_ts = e_wall opened\<rparr>]"
    using assms(1) by (simp_all add: b1_def publish_fresh sent_flush)
  have b2: "storm_key b2 = Some (storm_of data)" "storm_start b2 = e_now opened" "storm_seen b2 = 2"
      "storm_dropped b2 = 0" "sent b2 = sent b1 @ [\<lparr>ev_type = ''log'', ev_data = data, ev_ts = e_wall second\<rparr>]"
    using assms(2) b1 by (simp_all add: b2_def publish_repeat Let_def STORM_PASS_def)
  have b3: "storm_key b3 = Some (storm_of data)" "storm_start b3 = e_now opened" "storm_seen b3 = 3"
      "storm_dropped b3 = 0" "sent b3 = sent b2 @ [\<lparr>ev_type = ''log'', ev_data = data, ev_ts = e_wall third\<rparr>]"
    using assms(2) b2 by (simp_all add: b3_def publish_repeat Let_def STORM_PASS_def)
  have b4: "storm_key b4 = Some (storm_of data)" "storm_start b4 = e_now opened" "sent b4 = sent b3"
      "storm_dropped b4 = length envs"
    using storm_counts [of b3 data envs] assms(2) b3 by (simp_all add: b4_def Let_def STORM_PASS_def)
  have "sent (publish_event env' ''log'' other b4) = sent b4
      @ [\<lparr>ev_type = ''log'', ev_data = summary env' (storm_of data) (length envs)
             (is_true (pget other SITE_DERIVED_KEY)), ev_ts = e_wall env'\<rparr>,
         \<lparr>ev_type = ''log'', ev_data = other, ev_ts = e_wall env'\<rparr>]"
    using assms(3,4) b4 by (auto simp: publish_fresh sent_flush)
  then show ?thesis
    using b1(5) b2(5) b3(5) b4(3) by (simp add: b1_def b2_def b3_def b4_def)
qed

section \<open>The night file is the log\<close>

datatype bus_op = Publish pub_env string payload | Subscribe "nat option" | Unsubscribe nat | Read_Sub nat
  | Run_Handed nat | Write_One rat write_fault nat | Mark nat | Flush pub_env

fun bus_step :: "bus \<Rightarrow> bus_op \<Rightarrow> bus" where
  "bus_step b (Publish env ty data) = bus_publish env ty data b"
| "bus_step b (Subscribe here) = subscribe here b"
| "bus_step b (Unsubscribe k) = unsubscribe k b"
| "bus_step b (Read_Sub k) = snd (read_sub k b)"
| "bus_step b (Run_Handed l) = run_handed l b"
| "bus_step b (Write_One now fault gone) = write_one now fault gone b"
| "bus_step b (Mark k) = flush_night_logs k b"
| "bus_step b (Flush env) = flush env False b"

text \<open>The rows a file is still owed, and the log the bus has sent.\<close>

definition owed :: "string \<times> string \<Rightarrow> queued list \<Rightarrow> pv list" where
  "owed p queue = List.map_filter (\<lambda>i. case i of
     Line ev night dir \<Rightarrow> (if (dir, night) = p then Some (to_json ev) else None) | Marker _ \<Rightarrow> None) queue"

definition log_sent :: "event list \<Rightarrow> pv list" where
  "log_sent es = map to_json (filter (\<lambda>e. ev_type e = ''log'') es)"

definition file_follows :: "night_file \<Rightarrow> night_file \<Rightarrow> pv list \<Rightarrow> pv list \<Rightarrow> bool" where
  "file_follows f0 f ahead said = (\<exists>new. (nf_rows f = nf_rows f0 @ new \<or> nf_rows f = new)
     \<and> subseq (new @ ahead) said)"

definition nights_follow :: "disk \<Rightarrow> bus \<Rightarrow> bool" where
  "nights_follow d b = (\<forall>p. file_follows (file_at d p) (file_at (nights b) p) (owed p (lines b)) (log_sent (sent b)))"

lemma owed_simps [simp]:
  "owed p [] = []" "owed p (xs @ ys) = owed p xs @ owed p ys" "owed p (Marker k # xs) = owed p xs"
  "owed p (Line ev night dir # xs) = (if (dir, night) = p then [to_json ev] else []) @ owed p xs"
  by (simp_all add: owed_def map_filter_def)

lemma log_sent_simps [simp]:
  "log_sent (xs @ ys) = log_sent xs @ log_sent ys" "log_sent [] = []"
  "log_sent [e] = (if ev_type e = ''log'' then [to_json e] else [])"
  by (simp_all add: log_sent_def)

lemma follows_longer: "file_follows f0 f ahead said \<Longrightarrow> file_follows f0 f ahead (said @ later)"
  unfolding file_follows_def by (blast intro: subseq_order.trans subseq_rev_drop_many list_emb_append2)

lemma follows_queued: "file_follows f0 f ahead said \<Longrightarrow> file_follows f0 f (ahead @ [row]) (said @ [row])"
  unfolding file_follows_def by (metis append.assoc list_emb_append_mono subseq_order.order_refl)

lemma follows_skipped:
  assumes "file_follows f0 f (row # ahead) said"
  shows "file_follows f0 f ahead said"
proof -
  from assms obtain new where "nf_rows f = nf_rows f0 @ new \<or> nf_rows f = new" "subseq (new @ row # ahead) said"
    by (auto simp: file_follows_def)
  moreover have "subseq (new @ ahead) (new @ row # ahead)"
    by (auto intro: list_emb_append_mono)
  ultimately show ?thesis
    unfolding file_follows_def by (blast intro: subseq_order.trans)
qed

lemma follows_gone: "file_follows f0 f ahead said \<Longrightarrow> nf_rows f' = [] \<Longrightarrow> file_follows f0 f' ahead said"
  unfolding file_follows_def by (metis append_Nil list_emb_append_mono subseq_order.trans suffixI suffix_imp_subseq)

lemma follows_torn: "file_follows f0 (f\<lparr>nf_torn := t\<rparr>) ahead said = file_follows f0 f ahead said"
  by (simp add: file_follows_def)

lemma follows_written: "file_follows f0 f (row # ahead) said \<Longrightarrow> file_follows f0 (append_line row f) ahead said"
  by (cases "nf_torn f")
    (auto simp: append_line_def file_follows_def intro: follows_skipped [unfolded file_follows_def])

lemma file_at_update: "file_at (AList.update p f d) p' = (if p' = p then f else file_at d p')"
  by (simp add: file_at_def update_conv')

lemma file_at_filter:
  "file_at (filter (\<lambda>(p, _). P p) d) p = file_at d p \<or> nf_rows (file_at (filter (\<lambda>(p, _). P p) d) p) = []"
proof -
  have "map_of (filter (\<lambda>(p, _). P p) d) p = (if P p then map_of d p else None)"
    by (induction d) auto
  then show ?thesis
    by (simp add: file_at_def)
qed

lemma prune_follows:
  assumes "\<And>p. file_follows (f0 p) (file_at d p) (ahead p) said"
  shows "file_follows (f0 p) (file_at (snd (prune_old gone night dir (w, d))) p) (ahead p) said"
proof (cases "pruned_for w = Some night")
  case False
  then obtain P where "snd (prune_old gone night dir (w, d)) = filter (\<lambda>(p, _). P p) d"
    by (auto simp: prune_old_def Let_def case_prod_beta)
  then show ?thesis
    using file_at_filter [of P d p] assms [of p] follows_gone by metis
qed (simp add: prune_old_def assms)

lemma written_follows:
  assumes "\<And>p. file_follows (f0 p) (file_at d p) (owed p (Line ev night dir # rest)) said"
  shows "file_follows (f0 p) (file_at (snd (line_written now gone ev night dir (w, d))) p) (owed p rest) said"
proof -
  let ?d = "AList.update (dir, night) (append_line (to_json ev) (file_at d (dir, night))) d"
  have d: "file_follows (f0 p) (file_at ?d p) (owed p rest) said" for p
    using assms [of p] by (auto simp: file_at_update intro: follows_written split: if_splits)
  show ?thesis
    using d prune_follows [of f0 ?d "\<lambda>p. owed p rest" said, OF d]
    by (simp add: line_written_def Let_def case_prod_beta)
qed

lemma write_line_follows:
  assumes "\<And>p. file_follows (f0 p) (file_at d p) (owed p (Line ev night dir # rest)) said"
  shows "file_follows (f0 p) (file_at (snd (write_line now fault gone ev night dir (w, d))) p) (owed p rest) said"
proof -
  have skipped: "file_follows (f0 p) (file_at d p) (owed p rest) said"
    using assms [of p] by (auto intro: follows_skipped split: if_splits)
  show ?thesis
    using skipped written_follows [OF assms]
    by (auto simp: write_line_def Let_def case_prod_beta file_at_update follows_torn split: write_fault.splits)
qed

lemma nights_follow_write: "nights_follow d b \<Longrightarrow> nights_follow d (write_one now fault gone b)"
proof (cases "lines b")
  case (Cons item rest)
  assume ok: "nights_follow d b"
  show ?thesis
  proof (cases item)
    case (Line ev night dir)
    have each: "file_follows (file_at d p) (file_at (nights b) p) (owed p (Line ev night dir # rest)) (log_sent (sent b))" for p
      using ok Cons Line by (cases p) (simp add: nights_follow_def)
    have "file_follows (file_at d p) (file_at (nights b) p) (owed p rest) (log_sent (sent b))" for p
      using each [of p] by (auto intro: follows_skipped split: if_splits)
    then show ?thesis
      using write_line_follows [of "file_at d" "nights b" ev night dir rest "log_sent (sent b)", OF each] Cons Line
      by (auto simp: write_one_def nights_follow_def Let_def case_prod_beta split: option.split)
  qed (use ok Cons in \<open>simp add: write_one_def nights_follow_def\<close>)
qed (simp add: write_one_def)

lemma append_log_lines:
  "snd (append_log now dir nk fault ev (w, queue)) \<in> {queue, queue @ [Line ev (nk (ev_ts ev)) dir]}"
  by (auto simp: append_log_def Let_def split: option.split bool.split)

lemma nights_follow_deliver:
  assumes "nights_follow d b"
  shows "nights_follow d (deliver env ev b)"
proof -
  have rest: "nights (deliver env ev b) = nights b"
    by (simp add: deliver_def fan_out_def log_to_disk_def keep_line_def case_prod_beta split: option.split)
  have "lines (deliver env ev b) = lines b
      \<or> ev_type ev = ''log'' \<and> (\<exists>night dir. lines (deliver env ev b) = lines b @ [Line ev night dir])"
    using append_log_lines [of "e_now env" "e_dir env" "e_night env" "e_fault env ev" ev _ "lines b"]
    by (auto simp: deliver_def fan_out_def log_to_disk_def keep_line_def case_prod_beta split: option.split)
  note lines = this
  show ?thesis
    unfolding nights_follow_def
  proof
    fix p
    have "file_follows (file_at d p) (file_at (nights b) p) (owed p (lines b)) (log_sent (sent b))"
      using assms by (simp add: nights_follow_def del: split_paired_All)
    then show "file_follows (file_at d p) (file_at (nights (deliver env ev b)) p)
      (owed p (lines (deliver env ev b))) (log_sent (sent (deliver env ev b)))"
      using lines by (auto simp: rest intro: follows_longer follows_queued)
  qed
qed

lemma nights_follow_cong:
  "nights b' = nights b \<Longrightarrow> lines b' = lines b \<Longrightarrow> sent b' = sent b \<Longrightarrow> nights_follow d b' = nights_follow d b"
  by (simp add: nights_follow_def)

lemma nights_follow_quiet [simp]:
  "nights_follow d (storm_key_update f b) = nights_follow d b"
  "nights_follow d (storm_start_update g b) = nights_follow d b"
  "nights_follow d (storm_seen_update h b) = nights_follow d b"
  "nights_follow d (storm_dropped_update h b) = nights_follow d b"
  "nights_follow d (night_log_update w b) = nights_follow d b"
  "nights_follow d (in_notice_update i b) = nights_follow d b"
  "nights_follow d (subscribers_update ss b) = nights_follow d b"
  "nights_follow d (sub_count_update sc b) = nights_follow d b"
  "nights_follow d (handed_update hs b) = nights_follow d b"
  "nights_follow d (snapshot env ty data b) = nights_follow d b"
  by (rule nights_follow_cong; simp add: snapshot_def)+

lemma nights_follow_flush: "nights_follow d b \<Longrightarrow> nights_follow d (flush env by_site b)"
  by (auto simp: flush_def Let_def intro!: nights_follow_deliver split: option.split)

lemma nights_follow_event: "nights_follow d b \<Longrightarrow> nights_follow d (publish_event env ty data b)"
  by (auto simp: publish_event_def storm_suppresses_def Let_def case_prod_beta
      intro!: nights_follow_deliver nights_follow_flush)

lemma nights_follow_drain: "nights_follow d b \<Longrightarrow> nights_follow d (drain_notice env b)"
  by (auto simp: drain_notice_def Let_def case_prod_beta intro!: nights_follow_event split: option.split prod.split)

lemma nights_follow_publish: "nights_follow d b \<Longrightarrow> nights_follow d (bus_publish env ty data b)"
  by (simp add: bus_publish_def Let_def nights_follow_event nights_follow_drain)

interpretation disk_log: machine bus_step "nights_follow d" for d
proof
  fix b op assume ok: "nights_follow d b"
  show "nights_follow d (bus_step b op)"
  proof (cases op)
    case (Mark k)
    then show ?thesis
      using ok by (simp add: flush_night_logs_def nights_follow_def)
  qed (use ok in \<open>auto simp: subscribe_def unsubscribe_def read_sub_def run_handed_def offer_all_def nights_follow_write
      nights_follow_publish nights_follow_flush split: option.split\<close>)
qed

text \<open>Whatever is published, read and written, with any failures of the disk and any prune between: the
  rows a night file has gained, and after them those still queued for it, are log lines the bus
  sent, in the order it sent them, each at most once.\<close>

theorem night_file_is_in_order:
  "\<exists>new. (nf_rows (file_at (nights (run bus_step (new_bus hist persist d) ops)) p) \<in> {nf_rows (file_at d p) @ new, new})
     \<and> subseq (new @ owed p (lines (run bus_step (new_bus hist persist d) ops)))
         (log_sent (sent (run bus_step (new_bus hist persist d) ops)))"
proof -
  have "nights_follow d (new_bus hist persist d)"
    by (auto simp: nights_follow_def new_bus_def file_follows_def)
  then have "nights_follow d (run bus_step (new_bus hist persist d) ops)"
    by (rule disk_log.inv_run)
  then show ?thesis
    by (auto simp: nights_follow_def file_follows_def simp del: split_paired_All)
qed

text \<open>What a read withholds, it withholds before it cuts to the newest rows: a flagged row landing in the
  file changes nothing for a reader without the right to it, whatever the limit and the level.\<close>

lemma wanted_flagged:
  assumes "is_site_derived row"
  shows "wanted_rows level False (rows @ [row]) = wanted_rows level False rows"
proof (induction rows)
  case Nil
  have "\<exists>v. row_level row = Inr v"
    using assms by (auto simp: is_site_derived_def row_level_def split: pv.splits)
  then show ?case
    using assms by auto
next
  case (Cons r rows)
  then show ?case
    by (simp only: wanted_rows.simps append_Cons)
qed

lemma flagged_row_moves_no_read:
  "is_site_derived row \<Longrightarrow> read_night level limit False (f\<lparr>nf_rows := nf_rows f @ [row]\<rparr>) = read_night level limit False f"
  by (simp add: read_night_def wanted_flagged)

text \<open>A failed write pauses the writer for a minute and no longer, when the clock could be read; and then
  the first line that is written ends the pause. But where the failed write left part of its line, that
  first line is glued to it and lost, while the log is told that the writer resumed.\<close>

lemma pause_lasts_a_minute:
  assumes "n \<noteq> Untimed" "\<not> waiting now w"
  shows "waiting t (fst (write_line now (Write_Fails torn n) gone ev night dir (w, d))) \<longleftrightarrow> t < now + NIGHTLOG_RETRY_S"
  using assms by (cases n) (auto simp: write_line_def pause_def waiting_def Let_def)

lemma untimed_pause_retries_at_once:
  "\<not> waiting now w \<Longrightarrow> now \<le> t \<Longrightarrow> wr_failed w \<Longrightarrow> \<not> waiting t (fst (write_line now (Write_Fails torn Untimed) gone ev night dir (w, d)))"
  by (simp add: write_line_def pause_def waiting_def Let_def)

lemma resumed_line_is_written:
  assumes "\<not> waiting now w" "wr_failed w" "\<not> nf_torn (file_at d (dir, night))" "last_night w = Some night"
  shows "nf_rows (file_at (snd (write_line now No_Fault gone ev night dir (w, d))) (dir, night))
      = nf_rows (file_at d (dir, night)) @ [to_json ev]"
    and "wr_notice (fst (write_line now No_Fault gone ev night dir (w, d))) = Some Resume_Notice"
  using assms by (simp_all add: write_line_def line_written_def file_at_update append_line_def resume_writer_def Let_def)

lemma line_after_a_torn_one_is_lost:
  assumes "\<not> waiting now w" "n \<noteq> Untimed" "now + NIGHTLOG_RETRY_S \<le> t" "pruned_for w = Some night"
  shows "let wd = write_line now (Write_Fails True n) gone ev night dir (w, d);
             wd' = write_line t No_Fault gone' ev' night dir wd in
    nf_rows (file_at (snd wd') (dir, night)) = nf_rows (file_at d (dir, night))
    \<and> \<not> wr_failed (fst wd') \<and> wr_notice (fst wd') = Some Resume_Notice"
  using assms by (cases n) (simp_all add: write_line_def line_written_def file_at_update append_line_def resume_writer_def
      pause_def waiting_def prune_old_def Let_def)

section \<open>Concrete runs\<close>

definition bus_env :: "rat \<Rightarrow> pub_env" where
  "bus_env now = \<lparr>e_now = now, e_wall = 1000 + now, e_span = False, e_here = None, e_loop = (\<lambda>_. Closed),
     e_dir = ''logs'', e_night = (\<lambda>_. ''2026-09-06''), e_fault = (\<lambda>_. None), e_text = (\<lambda>_. ''?'')\<rparr>"

lemma site_moments_stay_hidden_witness:
  "let env = (bus_env 0)\<lparr>e_span := True\<rparr>; b = log_event (bus_env 0) ''info'' ''slewing'' ''hub'' False (new_bus 2 True []);
       b' = bus_publish env ''log'' (log_line ''info'' ''flipping'' ''sequence'' False) b in
   length (history_unflagged b) = 1 \<and> history_unflagged b' = history_unflagged b
   \<and> (\<exists>es. sent b' = sent b @ es \<and> list_all flagged es)"
proof -
  have flag: "is_true (pget (spanned ((bus_env 0)\<lparr>e_span := True\<rparr>) ''log''
      (log_line ''info'' ''flipping'' ''sequence'' False)) SITE_DERIVED_KEY)"
    by (simp add: spanned_def bus_env_def span_exempt_def log_line_def pget_def SITE_DERIVED_KEY_def)
  have "length (history_unflagged (log_event (bus_env 0) ''info'' ''slewing'' ''hub'' False (new_bus 2 True []))) = 1"
    by (simp add: log_event_def bus_publish_def publish_event_def snapshot_def drain_notice_def take_notice_def
        storm_suppresses_def flush_def deliver_def fan_out_def log_to_disk_def keep_line_def ring_push_def newest_def
        new_bus_def new_writer_def bus_env_def spanned_def log_line_def storm_of_def pget_def is_site_derived_def
        to_json_def SITE_DERIVED_KEY_def case_prod_beta Let_def split: option.split)
  with site_moments_stay_hidden [OF flag] show ?thesis
    by (simp add: Let_def)
qed

lemma storm_is_summed_up_witness:
  "length (sent (publish_event (bus_env 5) ''log'' (log_line ''info'' ''clear'' ''sequence'' False)
     (run (\<lambda>b env. publish_event env ''log'' (log_line ''info'' ''holding'' ''sequence'' False) b) (new_bus 2 True [])
        [bus_env 0, bus_env (1/10), bus_env (2/10), bus_env (3/10), bus_env (4/10)]))) = 5"
  by (subst storm_is_summed_up [where second = "bus_env (1/10)"])
    (simp_all add: new_bus_def bus_env_def STORM_WINDOW_S_def storm_of_def log_line_def pget_def)

end
