(* ===== verification/Persist.thy ===== *)
theory Persist
  imports Py_Values "HOL-Library.AList" "HOL-Library.Sublist"
begin

text \<open>
  The files the server keeps (\<open>server/astrodeck/persist.py\<close>): the atomic write with its backup, and the
  guards that turn a name or a path given by a client into a file.

  The file system is the directory of the written file: entries to inodes, the entries as last made
  durable, and each inode's bytes with whether they have been made durable. A write is the list of states it
  passes through, newest first, and what it returns; the environment holds the answer of every system call. A
  crash at a state keeps what was durable; of the rest it keeps anything. Private modes and access lists are
  the yes or no of a call.
\<close>

section \<open>Names from a client\<close>

definition upper_char :: "char \<Rightarrow> char" where
  "upper_char c = (if 97 \<le> (of_char c :: nat) \<and> (of_char c :: nat) \<le> 122 then char_of (of_char c - 32 :: nat) else c)"

definition WIN_RESERVED :: "string list" where
  "WIN_RESERVED = [''CON'', ''PRN'', ''AUX'', ''NUL'']
     @ map (\<lambda>i. ''COM'' @ nat_str i) [1..<10] @ map (\<lambda>i. ''LPT'' @ nat_str i) [1..<10]"

text \<open>What must not be one component of a path: \<open>name != name.rstrip(" .")\<close> says that it ends in a dot or
  a space.\<close>

definition refuse_component :: "string \<Rightarrow> bool" where
  "refuse_component name = (name = ''.'' \<or> name = ''..'' \<or> CHR '':'' \<in> set name
     \<or> (name \<noteq> [] \<and> last name \<in> {CHR '' '', CHR ''.''})
     \<or> map upper_char (takeWhile (\<lambda>c. c \<noteq> CHR ''.'') name) \<in> set WIN_RESERVED)"

definition separator :: "char \<Rightarrow> bool" where
  "separator c = (c = CHR ''/'' \<or> c = CHR 0x5C)"

definition nul :: char where "nul = CHR 0x00"

text \<open>\<open>resolve\<close> is \<open>Path.resolve\<close> and \<open>key\<close> is \<open>path_key\<close>; a path is a string with \<open>/\<close> between its parts.\<close>

definition joined :: "string \<Rightarrow> string \<Rightarrow> string" where
  "joined base part = base @ ''/'' @ part"

definition parent_of :: "string \<Rightarrow> string" where
  "parent_of p = rev (drop 1 (dropWhile (\<lambda>c. c \<noteq> CHR ''/'') (rev p)))"

definition safe_id_path :: "(string \<Rightarrow> string) \<Rightarrow> (string \<Rightarrow> string) \<Rightarrow> string \<Rightarrow> string \<Rightarrow> string \<Rightarrow> string res" where
  "safe_id_path resolve key base ident ext =
     (if ident = [] \<or> (\<exists>c \<in> set ident. separator c) \<or> nul \<in> set ident \<or> refuse_component ident
      then Inl KeyError
      else let resolved = resolve (joined base (ident @ ext)) in
        if key (parent_of resolved) \<noteq> key (resolve base) then Inl KeyError else Inr resolved)"

text \<open>\<open>relpath.replace("\\", "/").split("/")\<close> less the empty parts.\<close>

fun split_parts :: "string \<Rightarrow> string \<Rightarrow> string list" where
  "split_parts acc [] = (if acc = [] then [] else [rev acc])"
| "split_parts acc (c # cs) = (if separator c
     then (if acc = [] then [] else [rev acc]) @ split_parts [] cs else split_parts (c # acc) cs)"

definition safe_subpath :: "(string \<Rightarrow> string) \<Rightarrow> (string \<Rightarrow> string) \<Rightarrow> string \<Rightarrow> string \<Rightarrow> string res" where
  "safe_subpath resolve key base relpath =
     (if relpath = [] \<or> nul \<in> set relpath then Inl KeyError
      else if separator (hd relpath) then Inl KeyError
      else let parts = split_parts [] relpath in
        if parts = [] then Inl KeyError
        else if \<exists>p \<in> set parts. refuse_component p then Inl KeyError
        else let resolved = resolve (foldl joined base parts); k = key resolved; root = key (resolve base) in
          if k = root \<or> prefix (root @ ''/'') k then Inr resolved else Inl KeyError)"

text \<open>How a path that may hold \<open>.\<close> and \<open>..\<close> is walked from a directory, by either system's separators.\<close>

fun walk_parts :: "string list \<Rightarrow> string list \<Rightarrow> string list" where
  "walk_parts dir [] = dir"
| "walk_parts dir (p # ps) = walk_parts (if p = ''.'' then dir else if p = ''..'' then butlast dir else dir @ [p]) ps"

lemma split_parts_chars:
  "p \<in> set (split_parts acc s) \<Longrightarrow> \<forall>c \<in> set acc. \<not> separator c \<Longrightarrow> p \<noteq> [] \<and> (\<forall>c \<in> set p. \<not> separator c)"
proof (induction s arbitrary: acc)
  case (Cons c s)
  show ?case
  proof (cases "separator c")
    case True
    then have "p = rev acc \<and> acc \<noteq> [] \<or> p \<in> set (split_parts [] s)"
      using Cons.prems(1) by (simp split: if_splits)
    then show ?thesis
      using Cons.IH [of "[]"] Cons.prems(2) by fastforce
  next
    case False
    then show ?thesis
      using Cons.IH [of "c # acc"] Cons.prems by simp
  qed
qed (simp split: if_splits)

lemma walk_plain: "\<forall>p \<in> set ps. p \<noteq> ''.'' \<and> p \<noteq> ''..'' \<Longrightarrow> walk_parts dir ps = dir @ ps"
  by (induction ps arbitrary: dir) auto

text \<open>A path a client gives that is accepted has only plain components, by the separators of either system:
  walked from any directory it goes down and never up, no component names a drive, a stream or a
  device, and what it resolves to, links included, is the base or below it.\<close>

theorem accepted_path_stays_below:
  assumes "safe_subpath resolve key base relpath = Inr r"
  shows "walk_parts dir (split_parts [] relpath) = dir @ split_parts [] relpath"
    and "list_all (\<lambda>p. p \<noteq> [] \<and> list_all (\<lambda>c. \<not> separator c) p \<and> \<not> refuse_component p) (split_parts [] relpath)"
    and "r = resolve (foldl joined base (split_parts [] relpath))"
    and "key r = key (resolve base) \<or> prefix (key (resolve base) @ ''/'') (key r)"
  using assms split_parts_chars [of _ "[]" relpath]
  by (auto simp: safe_subpath_def Let_def list_all_iff refuse_component_def intro!: walk_plain split: if_splits)

theorem accepted_id_is_one_component:
  assumes "safe_id_path resolve key base ident ext = Inr r"
  shows "split_parts [] ident = [ident] \<and> \<not> refuse_component ident \<and> key (parent_of r) = key (resolve base)"
proof -
  have plain: "\<forall>c \<in> set s. \<not> separator c \<Longrightarrow> split_parts acc s = (if acc = [] \<and> s = [] then [] else [rev acc @ s])" for acc s
    by (induction acc s rule: split_parts.induct) auto
  show ?thesis
    using assms plain [of ident "[]"] by (auto simp: safe_id_path_def Let_def split: if_splits)
qed

section \<open>The atomic write\<close>

record inode =
  bytes :: string
  durable :: bool

record fs =
  entries :: "(string \<times> nat) list"
  kept_entries :: "(string \<times> nat) list"
  inodes :: "(nat \<times> inode) list"
  next_ino :: nat

definition content :: "fs \<Rightarrow> string \<Rightarrow> string option" where
  "content s name = (case map_of (entries s) name of
     None \<Rightarrow> None | Some i \<Rightarrow> map_option bytes (map_of (inodes s) i))"

text \<open>What a crash may leave: each name as it stands or as it was last made durable, and durable bytes.\<close>

definition after_crash :: "fs \<Rightarrow> fs \<Rightarrow> bool" where
  "after_crash s s' = (
     (\<forall>name. map_of (entries s') name \<in> {map_of (entries s) name, map_of (kept_entries s) name})
     \<and> (\<forall>i ino. map_of (inodes s) i = Some ino \<longrightarrow> durable ino \<longrightarrow> map_of (inodes s') i = Some ino))"

text \<open>The errors of a write.\<close>

datatype write_error = Permissions_Error | IO_Error | Serialise_Error

datatype copy_answer = Copied | Copy_Fails "string option"

datatype replace_answer = Replaced | Locked | Broken

record write_env =
  w_dir_private :: bool
  w_path_private :: bool
  w_bak_private :: bool
  w_copy :: copy_answer
  w_bak_unlinked :: bool
  w_bak_hardened :: bool
  w_tmp :: string
  w_made :: bool
  w_mode :: bool
  w_written :: "string option"
  w_synced :: bool
  w_tmp_private :: bool
  w_replace :: "nat \<Rightarrow> replace_answer"
  w_final_private :: bool
  w_tmp_unlinked :: bool
  w_dir_synced :: bool

text \<open>System calls. A file written to is no longer durable; a copy that fails leaves what it got to.\<close>

definition put_bytes :: "string \<Rightarrow> string \<Rightarrow> fs \<Rightarrow> fs" where
  "put_bytes name b s = (case map_of (entries s) name of
     Some i \<Rightarrow> s\<lparr>inodes := AList.update i \<lparr>bytes = b, durable = False\<rparr> (inodes s)\<rparr>
   | None \<Rightarrow> s\<lparr>entries := AList.update name (next_ino s) (entries s),
       inodes := AList.update (next_ino s) \<lparr>bytes = b, durable = False\<rparr> (inodes s),
       next_ino := next_ino s + 1\<rparr>)"

definition unlink :: "string \<Rightarrow> fs \<Rightarrow> fs" where
  "unlink name s = s\<lparr>entries := filter (\<lambda>e. fst e \<noteq> name) (entries s)\<rparr>"

definition fsync :: "string \<Rightarrow> fs \<Rightarrow> fs" where
  "fsync name s = (case map_of (entries s) name of
     None \<Rightarrow> s
   | Some i \<Rightarrow> s\<lparr>inodes := map (\<lambda>(k, ino). (k, if k = i then ino\<lparr>durable := True\<rparr> else ino)) (inodes s)\<rparr>)"

definition move_over :: "string \<Rightarrow> string \<Rightarrow> fs \<Rightarrow> fs" where
  "move_over src dst s = (case map_of (entries s) src of
     None \<Rightarrow> s
   | Some i \<Rightarrow> s\<lparr>entries := AList.update dst i (filter (\<lambda>e. fst e \<noteq> src) (entries s))\<rparr>)"

definition fsync_dir :: "bool \<Rightarrow> fs \<Rightarrow> fs" where
  "fsync_dir ok s = (if ok then s\<lparr>kept_entries := entries s\<rparr> else s)"

definition present :: "fs \<Rightarrow> string \<Rightarrow> bool" where
  "present s name = (map_of (entries s) name \<noteq> None)"

text \<open>A run so far: the states passed, newest first.\<close>

type_synonym passed = "fs list"

definition go :: "(fs \<Rightarrow> fs) \<Rightarrow> passed \<Rightarrow> passed" where
  "go f h = f (hd h) # h"

definition bak_of :: "string \<Rightarrow> string" where
  "bak_of name = name @ ''.bak''"

definition tmp_of :: "string \<Rightarrow> string \<Rightarrow> string" where
  "tmp_of name rand = ''.'' @ name @ ''.'' @ rand @ ''.tmp''"

text \<open>The backup: a copy, so the file itself is never absent.\<close>

definition back_up :: "string \<Rightarrow> write_env \<Rightarrow> passed \<Rightarrow> passed \<times> write_error option" where
  "back_up name env h = (
     if \<not> present (hd h) name then (h, None)
     else if present (hd h) (bak_of name) \<and> \<not> w_bak_private env then (h, Some Permissions_Error)
     else (case w_copy env of
       Copy_Fails part \<Rightarrow> (let h = (case part of None \<Rightarrow> h | Some b \<Rightarrow> go (put_bytes (bak_of name) b) h) in
          (if w_bak_unlinked env then go (unlink (bak_of name)) h else h, None))
     | Copied \<Rightarrow> (let h = go (put_bytes (bak_of name) (the (content (hd h) name))) h in
          if w_bak_hardened env then (h, None)
          else (if w_bak_unlinked env then go (unlink (bak_of name)) h else h, Some Permissions_Error))))"

fun replace_with_retry :: "(nat \<Rightarrow> replace_answer) \<Rightarrow> nat \<Rightarrow> nat \<Rightarrow> write_error option" where
  "replace_with_retry answers attempt 0 = Some IO_Error"
| "replace_with_retry answers attempt (Suc n) = (case answers attempt of
     Replaced \<Rightarrow> None
   | Broken \<Rightarrow> Some IO_Error
   | Locked \<Rightarrow> replace_with_retry answers (attempt + 1) n)"

definition REPLACE_RETRIES :: nat where "REPLACE_RETRIES = 3"

text \<open>The body of the write inside its \<open>try\<close>.\<close>

definition staged :: "string \<Rightarrow> string \<Rightarrow> string \<Rightarrow> write_env \<Rightarrow> passed \<Rightarrow> passed \<times> write_error option" where
  "staged name tmp text env h = (
     if \<not> w_mode env then (h, Some IO_Error)
     else (case w_written env of
       Some part \<Rightarrow> (go (put_bytes tmp part) h, Some IO_Error)
     | None \<Rightarrow> (let h = go (put_bytes tmp text) h in
         if \<not> w_synced env then (h, Some IO_Error)
         else let h = go (fsync tmp) h in
         if \<not> w_tmp_private env then (h, Some Permissions_Error)
         else (case replace_with_retry (w_replace env) 0 REPLACE_RETRIES of
           Some e \<Rightarrow> (h, Some e)
         | None \<Rightarrow> (let h = go (move_over tmp name) h in
             (h, if w_final_private env then None else Some Permissions_Error))))))"

definition write_private_atomic :: "string \<Rightarrow> string \<Rightarrow> write_env \<Rightarrow> passed \<Rightarrow> passed \<times> write_error option" where
  "write_private_atomic name text env h = (
     let tmp = tmp_of name (w_tmp env) in
     if \<not> w_made env \<or> present (hd h) tmp then (h, Some IO_Error)
     else let h = go (put_bytes tmp []) h;
              (h, failed) = staged name tmp text env h;
              h = (if w_tmp_unlinked env then go (unlink tmp) h else h) in
       (case failed of
          Some e \<Rightarrow> (h, Some e)
        | None \<Rightarrow> (go (fsync_dir (w_dir_synced env)) h, None)))"

definition secured :: "string \<Rightarrow> write_env \<Rightarrow> passed \<Rightarrow> bool" where
  "secured name env h = (w_dir_private env \<and> (present (hd h) name \<longrightarrow> w_path_private env))"

text \<open>\<open>text\<close> is what \<open>json.dumps\<close> gives, None where it raises.\<close>

definition write_json_atomic :: "bool \<Rightarrow> string \<Rightarrow> string option \<Rightarrow> write_env \<Rightarrow> fs \<Rightarrow> passed \<times> write_error option" where
  "write_json_atomic backup name data env s = (
     if \<not> secured name env [s] then ([s], Some Permissions_Error)
     else (case (if backup then back_up name env [s] else ([s], None)) of
       (h, Some e) \<Rightarrow> (h, Some e)
     | (h, None) \<Rightarrow> (case data of
         None \<Rightarrow> (h, Some Serialise_Error)
       | Some txt \<Rightarrow> write_private_atomic name txt env h)))"

definition write_private_text_atomic :: "string \<Rightarrow> string \<Rightarrow> write_env \<Rightarrow> fs \<Rightarrow> passed \<times> write_error option" where
  "write_private_text_atomic name txt env s = (
     if \<not> secured name env [s] then ([s], Some Permissions_Error)
     else write_private_atomic name txt env [s])"

section \<open>A crash leaves the old file or the new one\<close>

text \<open>The files as a write finds them: two names are never one inode, and the file is durable.\<close>

definition fs_ok :: "string \<Rightarrow> fs \<Rightarrow> bool" where
  "fs_ok name s = (
     (\<forall>n i. map_of (entries s) n = Some i \<longrightarrow> i < next_ino s)
     \<and> (\<forall>m n i. map_of (entries s) m = Some i \<longrightarrow> map_of (entries s) n = Some i \<longrightarrow> m = n)
     \<and> map_of (kept_entries s) name = map_of (entries s) name
     \<and> (\<forall>i. map_of (entries s) name = Some i \<longrightarrow> (\<exists>b. map_of (inodes s) i = Some \<lparr>bytes = b, durable = True\<rparr>)))"

definition holds_text :: "string \<Rightarrow> fs \<Rightarrow> nat option \<Rightarrow> bool" where
  "holds_text txt s e = (case e of None \<Rightarrow> False
     | Some i \<Rightarrow> map_of (inodes s) i = Some \<lparr>bytes = txt, durable = True\<rparr>)"

text \<open>A state of a write that began in \<open>s0\<close>.\<close>

definition between :: "string \<Rightarrow> string \<Rightarrow> fs \<Rightarrow> fs \<Rightarrow> bool" where
  "between name txt s0 s = (
     (\<forall>n i. map_of (entries s) n = Some i \<longrightarrow> i < next_ino s)
     \<and> (\<forall>m n i. map_of (entries s) m = Some i \<longrightarrow> map_of (entries s) n = Some i \<longrightarrow> m = n)
     \<and> (\<forall>i. map_of (entries s0) name = Some i \<longrightarrow> i < next_ino s \<and> map_of (inodes s) i = map_of (inodes s0) i
          \<and> (\<forall>n. n \<noteq> name \<longrightarrow> map_of (entries s) n \<noteq> Some i))
     \<and> (map_of (entries s) name = map_of (entries s0) name \<or> holds_text txt s (map_of (entries s) name))
     \<and> (map_of (kept_entries s) name = map_of (entries s0) name
          \<or> map_of (kept_entries s) name = map_of (entries s) name))"

named_theorems between_keeps

lemma between_start: "fs_ok name s \<Longrightarrow> between name txt s s"
  by (auto simp: fs_ok_def between_def)

lemma map_of_filter_ne: "map_of (filter (\<lambda>e. fst e \<noteq> k) xs) n = (if n = k then None else map_of xs n)"
  by (induction xs) auto

lemma between_put [between_keeps]:
  assumes b: "between name txt s0 s" and n: "n \<noteq> name"
  shows "between name txt s0 (put_bytes n x s)"
proof (cases "map_of (entries s) n")
  case None
  have new: "map_of (entries s) m \<noteq> Some (next_ino s)" for m
    using b by (auto simp: between_def)
  then have "holds_text txt (put_bytes n x s) (map_of (entries s) name) = holds_text txt s (map_of (entries s) name)"
    using None new [of name] by (auto simp: holds_text_def put_bytes_def update_conv' split: option.split)
  then show ?thesis
    using b n None new
    by (auto simp: between_def put_bytes_def update_conv' less_Suc_eq split: if_splits)
next
  case (Some i)
  have "map_of (entries s) name \<noteq> Some i" "map_of (entries s0) name \<noteq> Some i"
    using b Some n by (auto simp: between_def)
  then show ?thesis
    using b n Some by (auto simp: between_def put_bytes_def update_conv' holds_text_def split: option.splits)
qed

lemma between_unlink [between_keeps]:
  "between name txt s0 s \<Longrightarrow> n \<noteq> name \<Longrightarrow> between name txt s0 (unlink n s)"
  by (auto simp: between_def unlink_def map_of_filter_ne holds_text_def split: if_splits option.splits)

lemma map_of_fsync: "map_of (map (\<lambda>(k, ino). (k, if k = i then f ino else ino)) xs) j
    = (if j = i then map_option f (map_of xs j) else map_of xs j)"
  by (induction xs) auto

lemma between_fsync [between_keeps]:
  assumes b: "between name txt s0 s" and n: "n \<noteq> name"
  shows "between name txt s0 (fsync n s)"
proof (cases "map_of (entries s) n")
  case (Some i)
  have "map_of (entries s) name \<noteq> Some i" "map_of (entries s0) name \<noteq> Some i"
    using b Some n by (auto simp: between_def)
  then show ?thesis
    using b Some by (auto simp: between_def fsync_def map_of_fsync holds_text_def split: option.splits)
qed (use b in \<open>simp add: fsync_def\<close>)

lemma between_move:
  assumes b: "between name txt s0 s" and n: "tmp \<noteq> name" and old: "map_of (kept_entries s) name = map_of (entries s0) name"
    and full: "holds_text txt s (map_of (entries s) tmp)"
  shows "between name txt s0 (move_over tmp name s)"
proof -
  obtain i where i: "map_of (entries s) tmp = Some i" "map_of (inodes s) i = Some \<lparr>bytes = txt, durable = True\<rparr>"
    using full by (auto simp: holds_text_def split: option.splits)
  have only: "map_of (entries s) m = Some i \<longleftrightarrow> m = tmp" for m
    using b i(1) by (auto simp: between_def)
  have ent: "map_of (entries (move_over tmp name s)) m
      = (if m = name then Some i else if m = tmp then None else map_of (entries s) m)" for m
    using i(1) n by (simp add: move_over_def update_conv' map_of_filter_ne)
  have other: "inodes (move_over tmp name s) = inodes s" "next_ino (move_over tmp name s) = next_ino s"
      "kept_entries (move_over tmp name s) = kept_entries s"
    using i(1) by (simp_all add: move_over_def)
  have low: "i < next_ino s"
    using b i(1) by (auto simp: between_def)
  show ?thesis
    unfolding between_def ent other
  proof (intro conjI)
    show "\<forall>m ma j. (if m = name then Some i else if m = tmp then None else map_of (entries s) m) = Some j \<longrightarrow>
        (if ma = name then Some i else if ma = tmp then None else map_of (entries s) ma) = Some j \<longrightarrow> m = ma"
      using b only by (auto simp: between_def)
    show "\<forall>ia. map_of (entries s0) name = Some ia \<longrightarrow> ia < next_ino s \<and> map_of (inodes s) ia = map_of (inodes s0) ia
        \<and> (\<forall>m. m \<noteq> name \<longrightarrow> (if m = name then Some i else if m = tmp then None else map_of (entries s) m) \<noteq> Some ia)"
      using b by (auto simp: between_def)
  qed (use b i old low other in \<open>auto simp: between_def holds_text_def\<close>)
qed

lemma kept_calls [simp]:
  "kept_entries (put_bytes n x s) = kept_entries s" "kept_entries (unlink n s) = kept_entries s"
  "kept_entries (fsync n s) = kept_entries s" "kept_entries (move_over n m s) = kept_entries s"
  by (simp_all add: put_bytes_def unlink_def fsync_def move_over_def split: option.split)

lemma staged_text: "holds_text txt (fsync n (put_bytes n txt s)) (map_of (entries (fsync n (put_bytes n txt s))) n)"
  by (cases "map_of (entries s) n") (simp_all add: holds_text_def fsync_def put_bytes_def update_conv' map_of_fsync)

text \<open>Every state passed so far is a state between, and nothing new is durable in the directory yet.\<close>

definition along :: "string \<Rightarrow> string \<Rightarrow> fs \<Rightarrow> passed \<Rightarrow> bool" where
  "along name txt s0 h = (h \<noteq> [] \<and> list_all (between name txt s0) h
     \<and> map_of (kept_entries (hd h)) name = map_of (entries s0) name)"

lemma along_go:
  "along name txt s0 h \<Longrightarrow> between name txt s0 (f (hd h)) \<Longrightarrow> kept_entries (f (hd h)) = kept_entries (hd h)
    \<Longrightarrow> along name txt s0 (go f h)"
  by (simp add: along_def go_def)

lemma along_hd: "along name txt s0 h \<Longrightarrow> between name txt s0 (hd h)"
  by (cases h) (simp_all add: along_def)

lemma along_steps [between_keeps]:
  assumes "along name txt s0 h" "n \<noteq> name"
  shows "along name txt s0 (go (put_bytes n x) h)" "along name txt s0 (go (unlink n) h)"
    "along name txt s0 (go (fsync n) h)"
  using assms along_hd [OF assms(1)] by (auto intro!: along_go between_keeps)

lemma names_apart [simp]: "bak_of name \<noteq> name" "tmp_of name r \<noteq> name"
proof -
  show "bak_of name \<noteq> name"
    by (simp add: bak_of_def)
  have "length (tmp_of name r) \<noteq> length name"
    by (simp add: tmp_of_def)
  then show "tmp_of name r \<noteq> name"
    by metis
qed

lemma along_back_up:
  "along name txt s0 h \<Longrightarrow> along name txt s0 (fst (back_up name env h))"
  by (auto simp: back_up_def Let_def between_keeps split: copy_answer.split option.split)

lemma hd_go [simp]: "hd (go f h) = f (hd h)"
  by (simp add: go_def)

lemma along_staged:
  assumes "along name txt s0 h" "tmp \<noteq> name" "staged name tmp txt env h = (h', e)"
  shows "along name txt s0 h'"
    and "e = None \<Longrightarrow> holds_text txt (hd h') (map_of (entries (hd h')) name)"
proof -
  let ?h = "go (fsync tmp) (go (put_bytes tmp txt) h)"
  let ?s = "fsync tmp (put_bytes tmp txt (hd h))"
  have h: "along name txt s0 ?h"
    using assms(1,2) by (simp add: between_keeps)
  have full: "holds_text txt ?s (map_of (entries ?s) tmp)"
    by (rule staged_text)
  have b: "between name txt s0 (move_over tmp name ?s)"
    using along_hd [OF h] h full assms(2) by (intro between_move) (simp_all add: along_def)
  have renamed: "along name txt s0 (go (move_over tmp name) ?h)"
    using b by (intro along_go [OF h]) simp_all
  have "holds_text txt (move_over tmp name ?s) (map_of (entries (move_over tmp name ?s)) name)"
    using full assms(2) by (auto simp: holds_text_def move_over_def update_conv' split: option.splits)
  with assms renamed h show "along name txt s0 h'" "e = None \<Longrightarrow> holds_text txt (hd h') (map_of (entries (hd h')) name)"
    by (auto simp: staged_def Let_def between_keeps split: option.splits if_splits)
qed

lemma between_crash:
  assumes "between name txt s0 s" "fs_ok name s0" "after_crash s s'"
  shows "content s' name = content s0 name \<or> content s' name = Some txt"
proof -
  have "map_of (entries s') name \<in> {map_of (entries s) name, map_of (kept_entries s) name}"
    using assms(3) by (simp add: after_crash_def)
  then have "map_of (entries s') name = map_of (entries s0) name \<or> holds_text txt s (map_of (entries s') name)"
    using assms(1) by (auto simp: between_def)
  then show ?thesis
  proof
    assume old: "map_of (entries s') name = map_of (entries s0) name"
    then show ?thesis
    proof (cases "map_of (entries s0) name")
      case (Some i)
      then obtain b where "map_of (inodes s0) i = Some \<lparr>bytes = b, durable = True\<rparr>"
        using assms(2) by (auto simp: fs_ok_def)
      moreover have "map_of (inodes s) i = map_of (inodes s0) i"
        using assms(1) Some by (simp add: between_def)
      ultimately have "map_of (inodes s') i = map_of (inodes s0) i"
        using assms(3) by (auto simp: after_crash_def)
      then show ?thesis
        using old Some by (simp add: content_def)
    qed (simp add: content_def)
  next
    assume "holds_text txt s (map_of (entries s') name)"
    then obtain i where "map_of (entries s') name = Some i"
        "map_of (inodes s) i = Some \<lparr>bytes = txt, durable = True\<rparr>"
      by (auto simp: holds_text_def split: option.splits)
    moreover from this have "map_of (inodes s') i = Some \<lparr>bytes = txt, durable = True\<rparr>"
      using assms(3) by (auto simp: after_crash_def)
    ultimately show ?thesis
      by (simp add: content_def)
  qed
qed

lemma write_private_between:
  assumes "along name txt s0 h" "write_private_atomic name txt env h = (h', e)"
  shows "list_all (between name txt s0) h'"
    and "e = None \<Longrightarrow> content (hd h') name = Some txt"
proof -
  let ?tmp = "tmp_of name (w_tmp env)"
  obtain h1 e1 where staged: "staged name ?tmp txt env (go (put_bytes ?tmp []) h) = (h1, e1)"
    by fastforce
  define h2 where "h2 = (if w_tmp_unlinked env then go (unlink ?tmp) h1 else h1)"
  have "along name txt s0 (go (put_bytes ?tmp []) h)"
    using assms(1) by (simp add: between_keeps)
  note along1 = along_staged [OF this _ staged]
  have along2: "along name txt s0 h2"
    using along1(1) by (simp add: h2_def between_keeps)
  have full: "holds_text txt (hd h2) (map_of (entries (hd h2)) name)" if "e1 = None"
  proof -
    have "inodes (hd h2) = inodes (hd h1)" "map_of (entries (hd h2)) name = map_of (entries (hd h1)) name"
      by (simp_all add: h2_def unlink_def map_of_filter_ne names_apart [symmetric])
    then show ?thesis
      using along1(2) that by (simp add: holds_text_def split: option.splits)
  qed
  have synced: "between name txt s0 (fsync_dir ok (hd h2))" for ok
    using along_hd [OF along2] by (auto simp: fsync_dir_def between_def holds_text_def split: option.splits)
  have result: "(h', e) = (if \<not> w_made env \<or> present (hd h) ?tmp then (h, Some IO_Error)
      else case e1 of Some e \<Rightarrow> (h2, Some e) | None \<Rightarrow> (go (fsync_dir (w_dir_synced env)) h2, None))"
    using assms(2) unfolding write_private_atomic_def Let_def staged h2_def prod.case by (auto split: option.split)
  show "list_all (between name txt s0) h'"
    using result assms(1) along2 synced by (auto simp: along_def go_def split: option.splits if_splits)
  show "content (hd h') name = Some txt" if "e = None"
    using result that full
    by (auto simp: content_def fsync_dir_def holds_text_def split: option.splits if_splits)
qed

lemma write_json_between:
  assumes "fs_ok name s0" "write_json_atomic backup name (Some txt) env s0 = (h, e)"
  shows "list_all (between name txt s0) h"
    and "e = None \<Longrightarrow> content (hd h) name = Some txt"
proof -
  have start: "along name txt s0 [s0]"
    using assms(1) between_start [OF assms(1)] by (simp add: along_def fs_ok_def)
  obtain h1 e1 where backed: "(if backup then back_up name env [s0] else ([s0], None)) = (h1, e1)"
    by fastforce
  have along1: "along name txt s0 h1"
    using start along_back_up [OF start, of env] backed by (auto split: if_splits)
  have result: "(h, e) = (if \<not> secured name env [s0] then ([s0], Some Permissions_Error)
      else case e1 of Some e \<Rightarrow> (h1, Some e) | None \<Rightarrow> write_private_atomic name txt env h1)"
    using assms(2) unfolding write_json_atomic_def backed by (auto split: option.split)
  show "list_all (between name txt s0) h" "e = None \<Longrightarrow> content (hd h) name = Some txt"
    using result start along1 write_private_between [OF along1, of env h e]
    by (auto simp: along_def split: if_splits option.splits)
qed

text \<open>C36. Whatever the system calls answer, and whenever the process dies or the power fails: the file then
  holds, in full, what it held before or the new text, and it is never absent if it was there. A write that
  returns has put the new text in place.\<close>

theorem crash_leaves_old_or_new:
  assumes "fs_ok name s0" "write_json_atomic backup name (Some txt) env s0 = (h, e)"
    and "s \<in> set h" "after_crash s s'"
  shows "content s' name \<in> {content s0 name, Some txt} \<and> (e = None \<longrightarrow> content (hd h) name = Some txt)"
  using write_json_between [OF assms(1,2)] between_crash [OF _ assms(1,4), of "txt"] assms(3)
  by (auto simp: list_all_iff)

definition a_dir :: fs where
  "a_dir = \<lparr>entries = [(''a'', 0)], kept_entries = [(''a'', 0)],
     inodes = [(0, \<lparr>bytes = ''old'', durable = True\<rparr>)], next_ino = 1\<rparr>"

definition all_well :: write_env where
  "all_well = \<lparr>w_dir_private = True, w_path_private = True, w_bak_private = True, w_copy = Copied,
     w_bak_unlinked = True, w_bak_hardened = True, w_tmp = ''x'', w_made = True, w_mode = True, w_written = None,
     w_synced = True, w_tmp_private = True, w_replace = (\<lambda>k. if k = 1 then Replaced else Locked),
     w_final_private = True, w_tmp_unlinked = True, w_dir_synced = True\<rparr>"

lemma crash_leaves_old_or_new_witness:
  "case write_json_atomic True ''a'' (Some ''new'') all_well a_dir of (h, e) \<Rightarrow>
     content (hd h) ''a'' = Some ''new'' \<and> content (hd h) (bak_of ''a'') = Some ''old''
     \<and> content (h ! 3) ''a'' \<in> {Some ''old'', Some ''new''}"
proof -
  have ok: "fs_ok ''a'' a_dir"
    by (auto simp: fs_ok_def a_dir_def split: if_splits)
  define h where "h = fst (write_json_atomic True ''a'' (Some ''new'') all_well a_dir)"
  have run: "write_json_atomic True ''a'' (Some ''new'') all_well a_dir = (h, None)"
    unfolding h_def by (rule prod_eqI) code_simp+
  have "length h = 8" "content (hd h) (bak_of ''a'') = Some ''old''" "content a_dir ''a'' = Some ''old''"
    unfolding h_def by code_simp+
  then show ?thesis
    using crash_leaves_old_or_new [OF ok run, of "h ! 3" "h ! 3"] by (auto simp: run after_crash_def)
qed

end
