(* ===== verification/Roof.thy ===== *)
theory Roof
  imports Prelude
begin

text \<open>
  The roof close of \<open>server/astrodeck/sequence/roof.py\<close>. Every device call is awaited under a bound
  and its exceptions are swallowed, so a call is an outcome that is present or not: the field of
  the environment is what the call returns, \<open>None\<close> when it raises or times out. The result is the
  function's answer and the trace of calls and log lines, in order; a close that raises carries the
  text of its exception, which its log line prints. \<open>is_present\<close> of the telescope
  (\<open>devices/base.py\<close>) is a field, and \<open>None\<close> for the telescope is Python's \<open>None\<close>.
\<close>

datatype shutter_state = OPEN | CLOSED | OPENING | CLOSING | UNKNOWN | ERROR

datatype roof_step = Ask_Closed | Ask_Parked | Close_Shutter | Ask_State | Log string string

record scope_env =
  sc_present :: bool
  sc_is_parked :: "bool option"

record roof_env =
  dome_is_closed :: "bool option"
  dome_requires_park :: bool
  re_telescope :: "scope_env option"
  dome_close :: "string + unit"
  dome_state :: "shutter_state option"

definition refused_msg :: string where
  "refused_msg = ''roof close REFUSED: mount not parked (would collide) ''
     @ [CHR 0xE2, CHR 0x80, CHR 0x94] @ '' roof left OPEN''"

definition unconfirmed_msg :: string where
  "unconfirmed_msg = ''roof close did not confirm CLOSED ''
     @ [CHR 0xE2, CHR 0x80, CHR 0x94] @ '' gear may be exposed''"

definition mount_in_the_way :: "roof_env \<Rightarrow> bool" where
  "mount_in_the_way env = (dome_requires_park env \<and>
     (case re_telescope env of None \<Rightarrow> False | Some t \<Rightarrow> sc_present t))"

definition parked_answer :: "roof_env \<Rightarrow> bool" where
  "parked_answer env = (case re_telescope env of None \<Rightarrow> False
     | Some t \<Rightarrow> (case sc_is_parked t of None \<Rightarrow> False | Some p \<Rightarrow> p))"

text \<open>The close itself and its confirmation, step 3.\<close>

definition close_and_confirm :: "roof_env \<Rightarrow> bool \<times> roof_step list" where
  "close_and_confirm env = (case dome_close env of
     Inl e \<Rightarrow> (False, [Close_Shutter, Log ''error'' (''roof close failed: '' @ e)])
   | Inr _ \<Rightarrow> if dome_state env = Some CLOSED
       then (True, [Close_Shutter, Ask_State, Log ''info'' ''roof closed''])
       else (False, [Close_Shutter, Ask_State,
              Log ''error'' unconfirmed_msg]))"

definition close_observatory :: "roof_env \<Rightarrow> bool \<times> roof_step list" where
  "close_observatory env =
     (if dome_is_closed env = Some True then (True, [Ask_Closed])
      else if mount_in_the_way env then
        (if \<not> parked_answer env then (False, [Ask_Closed, Ask_Parked, Log ''error'' refused_msg])
         else (let (ok, tr) = close_and_confirm env in (ok, [Ask_Closed, Ask_Parked] @ tr)))
      else (let (ok, tr) = close_and_confirm env in (ok, Ask_Closed # tr)))"

section \<open>Properties\<close>

lemma close_needs_parked:
  "Close_Shutter \<in> set (snd (close_observatory env)) \<Longrightarrow> mount_in_the_way env \<Longrightarrow> parked_answer env"
  by (auto simp: close_observatory_def split: if_splits)

text \<open>C20. The roof never travels into an unparked mount: the close command is sent only where the
  roof does not cross the mount, or no mount is present, or the mount was asked first, in that same
  call, and answered that it is parked.\<close>

theorem never_closes_on_an_unparked_mount:
  assumes "Close_Shutter \<in> set (snd (close_observatory env))"
  shows "\<not> dome_requires_park env \<or>
    (case re_telescope env of None \<Rightarrow> True | Some t \<Rightarrow> \<not> sc_present t) \<or>
    ((\<exists>t. re_telescope env = Some t \<and> sc_is_parked t = Some True) \<and>
     (\<exists>pre post. snd (close_observatory env) = pre @ Close_Shutter # post \<and> Ask_Parked \<in> set pre))"
proof (cases "mount_in_the_way env")
  case True
  with assms have "dome_is_closed env \<noteq> Some True" and p: "parked_answer env"
    by (auto simp: close_observatory_def split: if_splits)
  moreover obtain tr where "snd (close_and_confirm env) = Close_Shutter # tr"
    by (cases "dome_close env"; cases "dome_state env = Some CLOSED") (auto simp: close_and_confirm_def)
  ultimately have "snd (close_observatory env) = [Ask_Closed, Ask_Parked] @ Close_Shutter # tr"
    using True by (cases "close_and_confirm env") (simp add: close_observatory_def)
  moreover have "Ask_Parked \<in> set [Ask_Closed, Ask_Parked]" by simp
  moreover from p have "\<exists>t. re_telescope env = Some t \<and> sc_is_parked t = Some True"
    by (auto simp: parked_answer_def split: option.splits)
  ultimately show ?thesis by blast
next
  case False
  then show ?thesis by (auto simp: mount_in_the_way_def split: option.splits)
qed

definition parked_env :: roof_env where
  "parked_env = \<lparr>dome_is_closed = Some False, dome_requires_park = True,
     re_telescope = Some \<lparr>sc_present = True, sc_is_parked = Some True\<rparr>,
     dome_close = Inr (), dome_state = Some CLOSED\<rparr>"

lemmas roof_eval = close_observatory_def close_and_confirm_def mount_in_the_way_def
  parked_answer_def parked_env_def

theorem never_closes_on_an_unparked_mount_witness:
  "\<exists>pre post. snd (close_observatory parked_env) = pre @ Close_Shutter # post \<and> Ask_Parked \<in> set pre"
  using never_closes_on_an_unparked_mount [of parked_env] by (simp add: roof_eval)

text \<open>True means closed: the function answers True exactly when the shutter itself said closed,
  at the start or after a close command that returned; a query that fails is never read as closed,
  and a mount that cannot be asked is never read as parked.\<close>

theorem true_means_closed:
  "fst (close_observatory env) \<longleftrightarrow>
     dome_is_closed env = Some True \<or>
     ((mount_in_the_way env \<longrightarrow> parked_answer env) \<and>
      dome_close env = Inr () \<and> dome_state env = Some CLOSED)"
  by (auto simp: close_observatory_def close_and_confirm_def split: sum.splits prod.splits if_splits)

theorem true_means_closed_witness:
  "fst (close_observatory parked_env) \<and> \<not> fst (close_observatory
     (parked_env\<lparr>re_telescope := Some \<lparr>sc_present = True, sc_is_parked = None\<rparr>\<rparr>))"
  using true_means_closed [of parked_env]
    true_means_closed [of "parked_env\<lparr>re_telescope := Some \<lparr>sc_present = True, sc_is_parked = None\<rparr>\<rparr>"]
  by (simp add: roof_eval)

end
