(* ===== verification/Wind_Down.thy ===== *)
theory Wind_Down
  imports Roof
begin

text \<open>
  How a run puts the rig away (\<open>server/astrodeck/sequence/engine.py\<close>): the wind-down at a run's end with its
  park, the park's read-back, the stop of tracking that replaces a park, the roof close over it, the
  warm-up; the park and close of an automatic reopen; and the retry of an unconfirmed stop.

  Every device call is bounded and its exceptions are caught, so a call is an answer of the
  environment. A function returns its result and the steps it took, in order: the commands to the
  devices, the questions asked of them and the lines logged. A line is named and not spelled; whether a
  swallowed failure had been said before is left out. The looks of the park's read-back are given as those made
  before the park's deadline and the one made after it (the loop sleeps towards the deadline, so there
  is one). A cancel of the wind-down is a flag of the wait it lands in, up to the end of the park, and after
  the park it cuts the roof close or the failed park's stop after some of their steps; one of the reopen's
  close cuts it the same way. Left out: a cancel before the guider's wait or after the mount and the roof
  are done with (the panel, the darks, the cooler), and the idle stop's task, beyond that it is re-armed.
\<close>

section \<open>Steps\<close>

datatype wd_line = Link_Down | Reopen_Failed | Parking | Park_Timed_Out | Park_Failed | Mount_Parked
  | Parked_Unread | Park_Late | Park_Unconfirmed | No_Second_Park | Parking_Again | Second_Park_Lost
  | Position_Unknown_Line | Not_Confirmed_Off | Confirmed_Off_Now | Never_Confirmed_Off
  | Guider_Not_Stopped | Park_Skipped | Left_Tracking | Not_Parked_Unknown | Stopped_Instead
  | Stop_Unconfirmed | Roof_Left_Open | Roof_Close_Failed | Closing_For_Reopen | Swallowed
  | Panel_Off_Failed | Cover_Not_Closed | Cooler_Left | Warming | Cooler_Off | No_Warmer | Warm_Failed

datatype wd_step = Position bool | Reopen | Bump | Park_Cmd | Ask_Park | Ask_Slew | Stop_Track | Ask_Track
  | Tell_Watch | Retry_Task | Rearm_Idle | Roof roof_step | Record string | Say string wd_line
  | Guider_Stop | Lamp_Off | Cover_Close | Day_Darks | Warm_Ramp | Cooler_Cut

section \<open>Stopping the mount\<close>

text \<open>One ask: is a mount there (connected, or in doubt), did the command go through, and what the tracking
  reads that follow answer.\<close>

record stop_env =
  st_present :: bool
  st_sent :: bool
  st_reads :: "nat \<Rightarrow> bool option"

definition TRACKING_CONFIRM_PROBES :: nat where "TRACKING_CONFIRM_PROBES = 4"

definition tracking_now :: "stop_env \<Rightarrow> bool option" where
  "tracking_now s = (if \<not> st_present s then None
     else case List.find (\<lambda>r. r \<noteq> Some False) (map (st_reads s) [0..<Suc TRACKING_CONFIRM_PROBES]) of
       None \<Rightarrow> Some False | Some r \<Rightarrow> r)"

definition stop_tracking_quietly :: "stop_env \<Rightarrow> wd_step list" where
  "stop_tracking_quietly s = (if \<not> st_present s then []
     else Stop_Track # (if st_sent s then [] else [Say ''warning'' Swallowed]))"

text \<open>The read-back of a stop made for an unknown position; \<open>tel\<close> is whether there is a telescope at all.\<close>

definition confirm_quiet_stop :: "bool \<Rightarrow> stop_env \<Rightarrow> wd_step list" where
  "confirm_quiet_stop tel s = (if \<not> tel then []
     else Ask_Track # (if tracking_now s = Some False then []
       else [Say ''error'' Not_Confirmed_Off, Retry_Task]))"

definition quiet_stop :: "bool \<Rightarrow> stop_env \<Rightarrow> wd_step list" where
  "quiet_stop tel s = Say ''warning'' Position_Unknown_Line # stop_tracking_quietly s @ confirm_quiet_stop tel s"

definition stop_after_a_failed_park :: "stop_env \<Rightarrow> wd_step list" where
  "stop_after_a_failed_park s = stop_tracking_quietly s @ [Ask_Track,
     if tracking_now s = Some False then Say ''warning'' Stopped_Instead else Say ''error'' Stop_Unconfirmed]"

text \<open>The retries of a stop that was not confirmed. A round finds whether the position is still unknown and, at
  the ask, whether a parking ending has fenced this task off (before the command, or only after it).\<close>

datatype fence = Clear | Fenced_Before | Fenced_After

record retry_round =
  rr_unknown :: bool
  rr_fence :: fence
  rr_stop :: stop_env

definition POSITION_UNKNOWN_STOP_ASKS :: nat where "POSITION_UNKNOWN_STOP_ASKS = 60"

fun retry_rounds :: "nat \<Rightarrow> (nat \<Rightarrow> retry_round) \<Rightarrow> nat \<Rightarrow> wd_step list" where
  "retry_rounds 0 rounds k = [Say ''error'' Never_Confirmed_Off]"
| "retry_rounds (Suc n) rounds k = (let r = rounds k in
     if \<not> rr_unknown r then [Position False]
     else if rr_fence r = Fenced_Before then [Position True]
     else Position True # stop_tracking_quietly (rr_stop r) @
       (if rr_fence r = Fenced_After then []
        else Ask_Track # (if tracking_now (rr_stop r) = Some False then [Say ''info'' Confirmed_Off_Now]
          else retry_rounds n rounds (k + 1))))"

definition quiet_stop_retry :: "(nat \<Rightarrow> retry_round) \<Rightarrow> wd_step list" where
  "quiet_stop_retry rounds = retry_rounds POSITION_UNKNOWN_STOP_ASKS rounds 0"

section \<open>The park and its read-back\<close>

text \<open>One look: what the mount says of being parked and, where it is asked, of slewing. None: it cannot
  say.\<close>

record look =
  lk_parked :: "bool option"
  lk_slewing :: "bool option"

datatype park_verdict = Arrived | Unreadable | Unconfirmed | Lost | Late

definition look_once :: "bool \<Rightarrow> bool \<Rightarrow> look \<Rightarrow> park_verdict option \<times> bool \<times> bool \<times> wd_step list" where
  "look_once known seen lk = (case lk_parked lk of
     Some True \<Rightarrow> (Some Arrived, known, seen, [Ask_Park])
   | None \<Rightarrow> (if seen then None else Some Unreadable, known, seen, [Ask_Park])
   | Some False \<Rightarrow>
       if \<not> known then (None, known, seen, [Ask_Park])
       else (if lk_slewing lk = Some False then Some Lost else None, lk_slewing lk \<noteq> None,
         seen \<or> lk_slewing lk = Some True, [Ask_Park, Ask_Slew]))"

fun await_the_park :: "bool \<Rightarrow> bool \<Rightarrow> look list \<Rightarrow> look \<Rightarrow> park_verdict \<times> wd_step list" where
  "await_the_park known seen [] final = (case look_once known seen final of
     (Some v, _, _, tr) \<Rightarrow> (v, tr)
   | (None, _, _, tr) \<Rightarrow> (if lk_parked final = None then Unconfirmed else Late, tr))"
| "await_the_park known seen (lk # looks) final = (case look_once known seen lk of
     (Some v, _, _, tr) \<Rightarrow> (v, tr)
   | (None, known, seen, tr) \<Rightarrow> (let (v, tr') = await_the_park known seen looks final in (v, tr @ tr')))"

datatype park_answer = Accepted | Timed_Out | Refused

record park_env =
  pk_answer :: park_answer
  pk_looks :: "look list"
  pk_final :: look

text \<open>One attempt: the park is over with an answer, or it was lost.\<close>

definition park_try :: "park_env \<Rightarrow> bool option \<times> wd_step list" where
  "park_try p = (case pk_answer p of
     Timed_Out \<Rightarrow> (Some False, [Park_Cmd, Say ''warning'' Park_Timed_Out])
   | Refused \<Rightarrow> (Some False, [Park_Cmd, Say ''warning'' Park_Failed])
   | Accepted \<Rightarrow> (let (v, tr) = await_the_park True False (pk_looks p) (pk_final p) in
       case v of
         Arrived \<Rightarrow> (Some True, Park_Cmd # tr @ [Say ''info'' Mount_Parked])
       | Unreadable \<Rightarrow> (Some True, Park_Cmd # tr @ [Say ''info'' Parked_Unread])
       | Late \<Rightarrow> (Some False, Park_Cmd # tr @ [Say ''warning'' Park_Late])
       | Unconfirmed \<Rightarrow> (Some False, Park_Cmd # tr @ [Say ''warning'' Park_Unconfirmed])
       | Lost \<Rightarrow> (None, Park_Cmd # tr)))"

text \<open>At most two attempts; None is the park not repeated because the position became unknown.\<close>

definition park_and_read_back :: "park_env \<Rightarrow> bool \<Rightarrow> park_env \<Rightarrow> bool option \<times> wd_step list" where
  "park_and_read_back try1 unknown try2 = (case park_try try1 of
     (Some b, tr) \<Rightarrow> (Some b, tr)
   | (None, tr) \<Rightarrow>
       if unknown then (None, tr @ [Position True, Say ''warning'' No_Second_Park])
       else (let (b, tr') = park_try try2; tr = tr @ [Position False, Say ''warning'' Parking_Again] @ tr' in
         case b of Some b \<Rightarrow> (Some b, tr) | None \<Rightarrow> (Some False, tr @ [Say ''warning'' Second_Park_Lost])))"

section \<open>The wind-down\<close>

datatype watch_answer = No_Watch | Told | Watch_Raises

record wind_env =
  wn_tel :: bool
  wn_present :: bool
  wn_connected :: bool
  wn_reopened :: bool
  wn_unknown :: bool
  wn_unknown_locked :: bool
  wn_unknown_again :: bool
  wn_can_bump :: bool
  wn_lock :: bool
  wn_try :: park_env
  wn_again :: park_env
  wn_quiet :: stop_env
  wn_failed :: stop_env
  wn_guider_over :: bool
  wn_guider_cancelled :: bool
  wn_cancelled :: bool
  wn_cut :: "nat option"
  wn_watch :: watch_answer
  wn_dome :: bool
  wn_dome_present :: bool
  wn_roof :: roof_env
  wn_frames_done :: bool
  wn_ended_unknown :: bool
  wn_unknown_end :: bool
  wn_netless :: bool

text \<open>The fenced, locked part of a park, common to the wind-down and the reopen's close.\<close>

definition locked_park :: "wind_env \<Rightarrow> bool option \<times> wd_step list" where
  "locked_park env = (
     let bump = (if wn_can_bump env then [Bump] else []) in
     if wn_lock env \<and> wn_unknown_locked env
     then (None, bump @ Position True # quiet_stop (wn_tel env) (wn_quiet env))
     else let (parked, tr) = park_and_read_back (wn_try env) (wn_unknown_again env) (wn_again env);
              tr = bump @ (if wn_lock env then [Position False] else []) @ tr in
       (parked, if parked = None then tr @ quiet_stop (wn_tel env) (wn_quiet env) else tr))"

definition reopen_mount :: "wind_env \<Rightarrow> wd_step list" where
  "reopen_mount env = (if wn_connected env then []
     else [Say ''warning'' Link_Down, Reopen] @ (if wn_reopened env then [] else [Say ''error'' Reopen_Failed]))"

definition wind_down_park :: "wind_env \<Rightarrow> bool option \<times> wd_step list" where
  "wind_down_park env = (
     if wn_unknown env
     then (None, reopen_mount env @ Position True # quiet_stop (wn_tel env) (wn_quiet env))
     else let (parked, tr) = locked_park env in
       (parked, reopen_mount env @ [Position False, Say ''info'' Parking] @ tr))"

definition tell_watch :: "wind_env \<Rightarrow> wd_step list" where
  "tell_watch env = (case wn_watch env of No_Watch \<Rightarrow> [] | Told \<Rightarrow> [Tell_Watch]
     | Watch_Raises \<Rightarrow> [Tell_Watch, Say ''warning'' Swallowed])"

definition roof_needs_a_parked_tube :: "wind_env \<Rightarrow> bool" where
  "roof_needs_a_parked_tube env = (\<not> wn_dome env \<or> dome_requires_park (wn_roof env))"

definition wind_down_roof :: "wind_env \<Rightarrow> bool \<Rightarrow> bool \<Rightarrow> wd_step list" where
  "wind_down_roof env close_dome unknown = (
     if close_dome \<and> unknown \<and> roof_needs_a_parked_tube env
     then [Say ''error'' Roof_Left_Open, Record ''close_roof_failed'']
     else if close_dome \<and> wn_dome env \<and> wn_dome_present env
     then let (ok, tr) = close_observatory (wn_roof env) in
       map Roof tr @ Record (if ok then ''close_roof'' else ''close_roof_failed'')
         # (if ok then [] else [Say ''error'' Roof_Close_Failed])
     else [])"

definition left_tracking :: "wind_env \<Rightarrow> wd_step list" where
  "left_tracking env = (
     if wn_frames_done env \<and> \<not> wn_ended_unknown env
     then (if wn_unknown_end env then [Say ''warning'' Not_Parked_Unknown]
       else [Say (if wn_netless env then ''warning'' else ''info'') Left_Tracking])
     else [])"

datatype wd_end = Ended | Cancelled

text \<open>What the ending's own task does after the park: an Abort that lands in it is raised there, after that
  many of its steps.\<close>

definition cut_short :: "nat option \<Rightarrow> wd_end \<Rightarrow> wd_step list \<Rightarrow> wd_step list \<Rightarrow> wd_end \<times> wd_step list" where
  "cut_short landed how start tail = (case landed of
     Some k \<Rightarrow> if k < length tail then (Cancelled, start @ take k tail) else (how, start @ tail)
   | None \<Rightarrow> (how, start @ tail))"

definition park_and_close :: "bool \<Rightarrow> bool \<Rightarrow> wind_env \<Rightarrow> wd_end \<times> wd_step list" where
  "park_and_close park close_dome env = (
     if \<not> park then cut_short (wn_cut env) Ended (left_tracking env) (wind_down_roof env close_dome False)
     else if \<not> wn_tel env
     then cut_short (wn_cut env) Ended [Say ''error'' Park_Skipped] (wind_down_roof env close_dome False)
     else let (parked, tr) = wind_down_park env;
              tr = (if wn_guider_over env then [Say ''warning'' Guider_Not_Stopped] else []) @ tr
                @ (if parked = Some True then tell_watch env else []);
              failed = (if parked = Some False then stop_after_a_failed_park (wn_failed env) else []) in
       if wn_guider_cancelled env \<or> wn_cancelled env then cut_short (wn_cut env) Cancelled tr failed
       else cut_short (wn_cut env) Ended tr (wind_down_roof env close_dome (parked = None) @ failed))"

text \<open>What stands around it (\<open>_wind_down\<close>): the flat panel, the guider's stop, the darks and the cooler.\<close>

datatype warm_answer = Ramped | Not_Ramped | Warm_Raises

record away_env =
  aw_calibrator :: bool
  aw_lamp_fails :: bool
  aw_cover :: bool
  aw_cover_fails :: bool
  aw_guider :: bool
  aw_resuming :: bool
  aw_can_cool :: bool
  aw_warmer :: bool
  aw_warm :: warm_answer

definition panel_off_safe :: "away_env \<Rightarrow> wd_step list" where
  "panel_off_safe a = (if \<not> aw_calibrator a then []
     else Lamp_Off # (if aw_lamp_fails a then [Say ''warning'' Panel_Off_Failed] else [])
       @ (if aw_cover a then Cover_Close # (if aw_cover_fails a then [Say ''error'' Cover_Not_Closed] else []) else []))"

definition wind_down_warm :: "away_env \<Rightarrow> bool \<Rightarrow> wd_step list" where
  "wind_down_warm a warm = (
     if \<not> warm then []
     else if aw_resuming a then [Say ''info'' Cooler_Left]
     else if \<not> aw_can_cool a then []
     else if aw_warmer a then Warm_Ramp # (case aw_warm a of
         Ramped \<Rightarrow> [Say ''info'' Warming] | Not_Ramped \<Rightarrow> [Say ''info'' Cooler_Off]
       | Warm_Raises \<Rightarrow> [Say ''warning'' Warm_Failed])
     else [Say ''warning'' No_Warmer, Cooler_Cut] @ (if aw_warm a = Warm_Raises then [Say ''warning'' Warm_Failed] else []))"

definition wind_down :: "away_env \<Rightarrow> wind_env \<Rightarrow> bool \<Rightarrow> bool \<Rightarrow> bool \<Rightarrow> bool \<Rightarrow> wd_end \<times> wd_step list" where
  "wind_down a env park warm close_dome day_darks = (
     let (how, tr) = park_and_close park close_dome env;
         tr = panel_off_safe a @ (if aw_guider a then [Guider_Stop] else []) @ tr in
     if how = Cancelled then (Cancelled, tr)
     else (Ended, tr @ (if day_darks then [Day_Darks] else []) @ wind_down_warm a warm))"

section \<open>The close of an automatic reopen\<close>

definition fenced_park :: "wind_env \<Rightarrow> bool option \<times> wd_step list" where
  "fenced_park env = (
     if wn_tel env \<and> wn_unknown env then (None, Position True # quiet_stop True (wn_quiet env))
     else if \<not> (wn_tel env \<and> wn_present env) then (Some False, [Position False])
     else let (parked, tr) = locked_park env in
       (parked, [Position False, Say ''info'' Parking] @ tr @ (if parked = Some True then tell_watch env else [])))"

text \<open>\<open>ended\<close>: this close ended an idle stop that was still asking. \<open>cut_at\<close>: an Abort lands after that many
  steps. The result is whether the shutter is confirmed closed; None is the exception going on.\<close>

definition reopen_steps :: "stop_env \<Rightarrow> wind_env \<Rightarrow> bool \<times> wd_step list" where
  "reopen_steps stop env = (
     let (parked, tr) = fenced_park env in
     if parked = None \<and> dome_requires_park (wn_roof env)
     then (dome_is_closed (wn_roof env) = Some True,
       stop_tracking_quietly stop @ tr @ Roof Ask_Closed
         # (if dome_is_closed (wn_roof env) = Some True then []
            else [Say ''error'' Roof_Left_Open, Record ''close_roof_failed'']))
     else let (ok, tr') = close_observatory (wn_roof env) in
       (ok, stop_tracking_quietly stop @ tr @ map Roof tr'))"

definition close_for_reopen :: "stop_env \<Rightarrow> wind_env \<Rightarrow> bool \<Rightarrow> nat option \<Rightarrow> bool option \<times> wd_step list" where
  "close_for_reopen stop env ended cut_at = (
     let rearm = (if ended \<and> wn_tel env then [Rearm_Idle] else []);
         start = Say ''info'' Closing_For_Reopen # (if wn_guider_over env then [Say ''warning'' Guider_Not_Stopped] else []);
         (closed, tr) = reopen_steps stop env in
     if wn_guider_cancelled env then (None, start @ stop_tracking_quietly stop @ rearm)
     else (case cut_at of
       Some k \<Rightarrow> (None, start @ take k tr @ rearm)
     | None \<Rightarrow> (Some closed, start @ tr @ (if closed then [] else rearm))))"

section \<open>A park is asked only from a known position\<close>

text \<open>The monitor of a trace: every park command has its own reading of the position, made since the park
  command before it, and the reading says known.\<close>

fun park_guard :: "bool \<Rightarrow> wd_step list \<Rightarrow> bool" where
  "park_guard known [] = True"
| "park_guard known (Position unknown # tr) = park_guard (\<not> unknown) tr"
| "park_guard known (Park_Cmd # tr) = (known \<and> park_guard False tr)"
| "park_guard known (_ # tr) = park_guard known tr"

text \<open>Steps that neither park nor read the position.\<close>

definition bystanders :: "wd_step list \<Rightarrow> bool" where
  "bystanders tr = list_all (\<lambda>s. s \<noteq> Park_Cmd \<and> (\<forall>u. s \<noteq> Position u)) tr"

lemma bystanders_simps [simp]:
  "bystanders []" "bystanders (s # tr) \<longleftrightarrow> s \<noteq> Park_Cmd \<and> (\<forall>u. s \<noteq> Position u) \<and> bystanders tr"
  "bystanders (xs @ ys) \<longleftrightarrow> bystanders xs \<and> bystanders ys"
  by (auto simp: bystanders_def)

lemma park_guard_bystanders [simp]: "bystanders xs \<Longrightarrow> park_guard known (xs @ ys) = park_guard known ys"
proof (induction xs)
  case (Cons s xs)
  then show ?case
    by (cases s) auto
qed simp

lemma park_guard_alone [simp]: "bystanders xs \<Longrightarrow> park_guard known xs"
  using park_guard_bystanders [of xs known "[]"] by simp

lemma bystanders_take: "bystanders tr \<Longrightarrow> bystanders (take k tr)"
  by (auto simp: bystanders_def list_all_iff dest: in_set_takeD)

lemma bystander_parts [simp]:
  "bystanders (stop_tracking_quietly s)" "bystanders (confirm_quiet_stop tel s)" "bystanders (quiet_stop tel s)"
  "bystanders (stop_after_a_failed_park s)" "bystanders (reopen_mount env)" "bystanders (tell_watch env)"
  "bystanders (wind_down_roof env close_dome unknown)" "bystanders (left_tracking env)"
  "bystanders (panel_off_safe a)" "bystanders (wind_down_warm a warm)" "bystanders (map Roof rs)"
proof -
  show roof: "bystanders (map Roof rs)" for rs
    by (induction rs) auto
  show "bystanders (wind_down_roof env close_dome unknown)"
    by (auto simp: wind_down_roof_def case_prod_beta roof)
qed (auto simp: stop_tracking_quietly_def confirm_quiet_stop_def quiet_stop_def stop_after_a_failed_park_def
    reopen_mount_def tell_watch_def left_tracking_def panel_off_safe_def wind_down_warm_def
    split: watch_answer.split warm_answer.split)

lemma bystander_look: "bystanders (snd (snd (snd (look_once known seen lk))))"
  by (auto simp: look_once_def split: option.split bool.split)

lemma bystander_await: "bystanders (snd (await_the_park known seen looks final))"
proof (induction known seen looks final rule: await_the_park.induct)
  case (1 known seen final)
  then show ?case
    using bystander_look [of known seen final] by (auto split: prod.split option.split)
next
  case (2 known seen lk looks final)
  obtain v known' seen' tr where look: "look_once known seen lk = (v, known', seen', tr)"
    by (metis prod_cases4)
  then show ?case
    using 2 bystander_look [of known seen lk] by (cases v) (simp_all add: case_prod_beta)
qed

lemma park_try_steps: "\<exists>tr. snd (park_try p) = Park_Cmd # tr \<and> bystanders tr"
  using bystander_await [of True False "pk_looks p" "pk_final p"]
  by (auto simp: park_try_def case_prod_beta split: park_answer.split park_verdict.split)

lemma park_guard_read_back: "park_guard True (snd (park_and_read_back t u t'))"
proof -
  obtain tr tr' where "snd (park_try t) = Park_Cmd # tr" "bystanders tr"
      "snd (park_try t') = Park_Cmd # tr'" "bystanders tr'"
    using park_try_steps by metis
  then show ?thesis
    by (cases "park_try t"; cases "park_try t'") (auto simp: park_and_read_back_def Let_def split: option.split)
qed

lemma park_guard_append: "park_guard known xs \<Longrightarrow> (\<And>k. park_guard k ys) \<Longrightarrow> park_guard known (xs @ ys)"
  by (induction known xs rule: park_guard.induct) auto

lemma park_guard_cut:
  "park_guard known start \<Longrightarrow> (\<And>k. park_guard k tail) \<Longrightarrow> bystanders tail
   \<Longrightarrow> park_guard known (snd (cut_short landed how start tail))"
  using bystanders_take [of tail] by (auto simp: cut_short_def intro!: park_guard_append split: option.split)

lemma park_guard_locked: "park_guard True (snd (locked_park env))"
  using park_guard_read_back [of "wn_try env" "wn_unknown_again env" "wn_again env"]
  by (auto simp: locked_park_def Let_def case_prod_beta intro: park_guard_append)

text \<open>A fenced park sends a park command, unless the position is unknown or no mount is there; and what it
  confirms it has commanded.\<close>

lemma read_back_parks: "Park_Cmd \<in> set (snd (park_and_read_back t u t'))"
proof -
  obtain tr where "snd (park_try t) = Park_Cmd # tr"
    using park_try_steps by blast
  then show ?thesis
    by (cases "park_try t"; cases "park_try t'") (auto simp: park_and_read_back_def Let_def split: option.split)
qed

lemma fenced_sends_a_park:
  "Park_Cmd \<in> set (snd (fenced_park env)) \<or> Position True \<in> set (snd (fenced_park env)) \<or> \<not> (wn_tel env \<and> wn_present env)"
  "fst (fenced_park env) = Some True \<Longrightarrow> Park_Cmd \<in> set (snd (fenced_park env))"
  using read_back_parks [of "wn_try env" "wn_unknown_again env" "wn_again env"]
  by (auto simp: fenced_park_def locked_park_def Let_def case_prod_beta split: if_splits)

lemma park_guard_wind_down_park: "park_guard known (snd (wind_down_park env))"
  using park_guard_locked [of env] by (auto simp: wind_down_park_def Let_def case_prod_beta)

lemma park_guard_fenced: "park_guard known (snd (fenced_park env))"
  using park_guard_locked [of env]
  by (auto simp: fenced_park_def Let_def case_prod_beta intro: park_guard_append)

lemma park_guard_park_and_close: "park_guard known (snd (park_and_close park close_dome env))"
  using park_guard_wind_down_park [of _ env]
  by (auto simp: park_and_close_def Let_def case_prod_beta intro!: park_guard_append park_guard_cut)

lemma park_guard_take: "park_guard known tr \<Longrightarrow> park_guard known (take k tr)"
proof (induction known tr arbitrary: k rule: park_guard.induct)
  case (3 known tr)
  then show ?case by (cases k) auto
qed (case_tac k; simp)+

text \<open>Neither the wind-down nor the close of a reopen, cut wherever an Abort cuts it, parks a mount
  whose position is unknown: every park command follows a reading of its own that says known, the second
  park of a lost one included.\<close>

theorem no_park_from_an_unknown_position:
  "park_guard False (snd (wind_down a env park warm close_dome day_darks))
   \<and> park_guard False (snd (close_for_reopen stop env ended cut_at))"
proof
  show "park_guard False (snd (wind_down a env park warm close_dome day_darks))"
    using park_guard_park_and_close [of _ park close_dome env]
    by (auto simp: wind_down_def Let_def case_prod_beta intro!: park_guard_append)
  have steps: "park_guard known (snd (reopen_steps stop env))" for known
    using park_guard_fenced [of _ env]
    by (auto simp: reopen_steps_def Let_def case_prod_beta intro!: park_guard_append)
  show "park_guard False (snd (close_for_reopen stop env ended cut_at))"
    using steps park_guard_take [OF steps]
    by (auto simp: close_for_reopen_def Let_def case_prod_beta intro!: park_guard_append split: option.split)
qed

section \<open>The mount is parked or stopped\<close>









lemma cut_short_keeps: "\<exists>tail'. snd (cut_short landed how start tail) = start @ tail' \<and> set tail' \<subseteq> set tail"
  by (auto simp: cut_short_def split: option.split dest: in_set_takeD)



section \<open>The roof and the park\<close>

lemma roof_steps_close: "Roof Close_Shutter \<in> Roof ` set rs \<longleftrightarrow> Close_Shutter \<in> set rs"
  by auto

lemma no_roof_step [simp]:
  "Roof s \<notin> set (stop_tracking_quietly st)" "Roof s \<notin> set (quiet_stop tel st)"
  "Roof s \<notin> set (stop_after_a_failed_park st)" "Roof s \<notin> set (reopen_mount env)" "Roof s \<notin> set (tell_watch env)"
  "Roof s \<notin> set (panel_off_safe a)" "Roof s \<notin> set (wind_down_warm a warm)"
  by (auto simp: stop_tracking_quietly_def confirm_quiet_stop_def quiet_stop_def stop_after_a_failed_park_def
    reopen_mount_def tell_watch_def panel_off_safe_def wind_down_warm_def split: watch_answer.splits warm_answer.splits if_splits)

lemma no_roof_look: "Roof s \<notin> set (snd (snd (snd (look_once known seen lk))))"
  by (auto simp: look_once_def split: option.splits bool.splits)

lemma no_roof_await: "Roof s \<notin> set (snd (await_the_park known seen looks final))"
proof (induction known seen looks final rule: await_the_park.induct)
  case (1 known seen final)
  then show ?case
    using no_roof_look [of s known seen final] by (auto split: prod.split option.split)
next
  case (2 known seen lk looks final)
  obtain v known' seen' tr where "look_once known seen lk = (v, known', seen', tr)"
    by (metis prod_cases4)
  then show ?case
    using 2 no_roof_look [of s known seen lk] by (cases v) (simp_all add: case_prod_beta)
qed

lemma no_roof_try: "Roof s \<notin> set (snd (park_try p))"
  using no_roof_await [of s True False "pk_looks p" "pk_final p"]
  by (auto simp: park_try_def case_prod_beta split: park_answer.splits park_verdict.splits)

lemma no_roof_park [simp]: "Roof s \<notin> set (snd (locked_park env))" "Roof s \<notin> set (snd (wind_down_park env))"
  "Roof s \<notin> set (snd (fenced_park env))"
proof -
  have "Roof s \<notin> set (snd (park_and_read_back t u t'))" for t u t'
    using no_roof_try [of s t] no_roof_try [of s t']
    by (cases "park_try t"; cases "park_try t'") (auto simp: park_and_read_back_def Let_def split: option.split)
  then show locked: "Roof s \<notin> set (snd (locked_park env))"
    by (auto simp: locked_park_def Let_def case_prod_beta)
  then show "Roof s \<notin> set (snd (wind_down_park env))" "Roof s \<notin> set (snd (fenced_park env))"
    by (auto simp: wind_down_park_def fenced_park_def Let_def case_prod_beta)
qed

lemma roof_step_of_cut: "s \<in> set (snd (cut_short landed how start tail)) \<Longrightarrow> s \<in> set start \<or> s \<in> set tail"
  by (auto simp: cut_short_def split: option.splits if_splits dest: in_set_takeD)

text \<open>C22. The end of a run that parks, and the close of a reopen, tell a roof that needs a parked tube to close
  only where the park was not skipped for an unknown position, no Abort has landed before it (in the
  guider's wait or, at the end of a run, in the park), and the mount, if one is there to ask, said in that
  close that it is parked. A mount that reads parked after a skipped park is not enough.\<close>

theorem roof_closes_after_the_park:
  assumes "dome_requires_park (wn_roof env)" "wn_tel env"
  shows "(Roof Close_Shutter \<in> set (snd (wind_down a env True warm close_dome day_darks))
      \<longrightarrow> fst (wind_down_park env) \<noteq> None \<and> \<not> wn_guider_cancelled env \<and> \<not> wn_cancelled env
        \<and> (mount_in_the_way (wn_roof env) \<longrightarrow> parked_answer (wn_roof env)))
    \<and> (Roof Close_Shutter \<in> set (snd (close_for_reopen stop env ended cut_at))
      \<longrightarrow> fst (fenced_park env) \<noteq> None \<and> \<not> wn_guider_cancelled env
        \<and> (mount_in_the_way (wn_roof env) \<longrightarrow> parked_answer (wn_roof env)))"
proof (intro conjI impI)
  assume "Roof Close_Shutter \<in> set (snd (wind_down a env True warm close_dome day_darks))"
  then have "Roof Close_Shutter \<in> set (snd (park_and_close True close_dome env))"
    by (auto simp: wind_down_def Let_def case_prod_beta split: if_splits)
  then show run: "\<not> wn_guider_cancelled env" "\<not> wn_cancelled env"
    using assms(2) by (auto simp: park_and_close_def Let_def case_prod_beta dest!: roof_step_of_cut split: if_splits)
  then have "Roof Close_Shutter \<in> set (wind_down_roof env close_dome (fst (wind_down_park env) = None))"
    using assms(2) \<open>Roof Close_Shutter \<in> set (snd (park_and_close True close_dome env))\<close>
    by (auto simp: park_and_close_def Let_def case_prod_beta dest!: roof_step_of_cut split: if_splits)
  then show "fst (wind_down_park env) \<noteq> None" "mount_in_the_way (wn_roof env) \<Longrightarrow> parked_answer (wn_roof env)"
    using assms(1) close_needs_parked [of "wn_roof env"]
    by (auto simp: wind_down_roof_def roof_needs_a_parked_tube_def case_prod_beta split: if_splits)
next
  assume "Roof Close_Shutter \<in> set (snd (close_for_reopen stop env ended cut_at))"
  then show "\<not> wn_guider_cancelled env" and "fst (fenced_park env) \<noteq> None"
      and "mount_in_the_way (wn_roof env) \<Longrightarrow> parked_answer (wn_roof env)"
    using assms(1) close_needs_parked [of "wn_roof env"]
    by (auto simp: close_for_reopen_def reopen_steps_def Let_def case_prod_beta dest!: in_set_takeD
        split: if_splits option.splits)
qed

section \<open>A park on its way\<close>

text \<open>A look that settles a park already seen slewing.\<close>

definition settles :: "look \<Rightarrow> bool" where
  "settles lk = (lk_parked lk = Some True \<or> lk_parked lk = Some False \<and> lk_slewing lk = Some False)"

definition tells_slewing :: "look \<Rightarrow> bool" where
  "tells_slewing lk = (lk_parked lk = Some False \<longrightarrow> lk_slewing lk \<noteq> None)"

lemma look_in_flight:
  "tells_slewing lk \<Longrightarrow> look_once True True lk =
    (if settles lk then Some (if lk_parked lk = Some True then Arrived else Lost) else None, True, True,
     if lk_parked lk = Some False then [Ask_Park, Ask_Slew] else [Ask_Park])"
  by (auto simp: look_once_def tells_slewing_def settles_def split: option.splits bool.splits)

lemma await_in_flight:
  "list_all tells_slewing (looks @ [final]) \<Longrightarrow> fst (await_the_park True True looks final) =
    (case List.find settles (looks @ [final]) of
       Some lk \<Rightarrow> if lk_parked lk = Some True then Arrived else Lost
     | None \<Rightarrow> if lk_parked final = None then Unconfirmed else Late)"
proof (induction looks)
  case Nil
  then show ?case
    by (auto simp: look_in_flight settles_def)
next
  case (Cons lk looks)
  then show ?case
    by (simp add: look_in_flight case_prod_beta)
qed

text \<open>A park the first look saw on its way, by a mount that can say whether it slews, is believed
  exactly as far as the mount says: it arrived if the first look that settles it reads parked, it is lost if
  that look reads neither parked nor slewing, and with no such look before the deadline it counts as not
  taken. Reads that failed in between settle nothing.\<close>

theorem park_in_flight_is_not_trusted:
  assumes "lk_parked lk = Some False" "lk_slewing lk = Some True" "list_all tells_slewing (looks @ [final])"
  shows "fst (park_try \<lparr>pk_answer = Accepted, pk_looks = lk # looks, pk_final = final\<rparr>) =
    (case List.find settles (looks @ [final]) of
       None \<Rightarrow> Some False
     | Some s \<Rightarrow> if lk_parked s = Some True then Some True else None)"
proof -
  have "look_once True False lk = (None, True, True, [Ask_Park, Ask_Slew])"
    using assms(1,2) by (simp add: look_once_def)
  then have "fst (await_the_park True False (lk # looks) final) = fst (await_the_park True True looks final)"
    by (simp add: case_prod_beta)
  with await_in_flight [OF assms(3)] show ?thesis
    by (auto simp: park_try_def case_prod_beta split: option.splits)
qed

text \<open>The retries of an unconfirmed stop end: at most sixty asks, each after a reading that says unknown.\<close>

lemma retries_bounded: "length (filter ((=) Stop_Track) (retry_rounds n rounds k)) \<le> n"
proof (induction n arbitrary: k)
  case (Suc n)
  have "length (filter ((=) Stop_Track) (stop_tracking_quietly s)) \<le> 1" for s
    by (simp add: stop_tracking_quietly_def)
  from this [of "rr_stop (rounds k)"] Suc [of "k + 1"] show ?case
    by (auto simp: Let_def)
qed simp

lemma sixty_asks_at_most: "length (filter ((=) Stop_Track) (quiet_stop_retry rounds)) \<le> 60"
  using retries_bounded [of 60 rounds 0] by (simp add: quiet_stop_retry_def POSITION_UNKNOWN_STOP_ASKS_def)

section \<open>Concrete endings\<close>

definition a_stop :: stop_env where
  "a_stop = \<lparr>st_present = True, st_sent = True, st_reads = (\<lambda>_. Some False)\<rparr>"

definition on_its_way :: look where "on_its_way = \<lparr>lk_parked = Some False, lk_slewing = Some True\<rparr>"
definition unread :: look where "unread = \<lparr>lk_parked = None, lk_slewing = None\<rparr>"
definition at_park :: look where "at_park = \<lparr>lk_parked = Some True, lk_slewing = None\<rparr>"

definition a_park :: park_env where
  "a_park = \<lparr>pk_answer = Accepted, pk_looks = [on_its_way, unread, at_park], pk_final = unread\<rparr>"

definition an_ending :: wind_env where
  "an_ending = \<lparr>wn_tel = True, wn_present = True, wn_connected = True, wn_reopened = True, wn_unknown = False,
     wn_unknown_locked = False, wn_unknown_again = False, wn_can_bump = True, wn_lock = True, wn_try = a_park,
     wn_again = a_park, wn_quiet = a_stop, wn_failed = a_stop, wn_guider_over = False, wn_guider_cancelled = False,
     wn_cancelled = False, wn_cut = None, wn_watch = Told, wn_dome = True, wn_dome_present = True,
     wn_roof = \<lparr>dome_is_closed = Some False, dome_requires_park = True,
       re_telescope = Some \<lparr>sc_present = True, sc_is_parked = Some True\<rparr>, dome_close = Inr (), dome_state = Some CLOSED\<rparr>,
     wn_frames_done = True, wn_ended_unknown = False, wn_unknown_end = False, wn_netless = False\<rparr>"

definition at_home :: away_env where
  "at_home = \<lparr>aw_calibrator = True, aw_lamp_fails = False, aw_cover = True, aw_cover_fails = False, aw_guider = True,
     aw_resuming = False, aw_can_cool = True, aw_warmer = True, aw_warm = Ramped\<rparr>"

text \<open>A park that was asked into a mount that refuses it: the mount is stopped and the roof stays open.\<close>

definition a_refusal :: wind_env where
  "a_refusal = an_ending\<lparr>wn_try := a_park\<lparr>pk_answer := Refused\<rparr>,
     wn_roof := (wn_roof an_ending)\<lparr>re_telescope := Some \<lparr>sc_present = True, sc_is_parked = Some False\<rparr>\<rparr>\<rparr>"



text \<open>An Abort that lands in the roof close after that refused park: the run ends there, and the mount, which
  is neither parked nor told to stop, tracks on.\<close>

lemma abort_in_the_roof_close_skips_the_stop:
  "let env = a_refusal\<lparr>wn_cut := Some 1\<rparr> in fst (wind_down_park env) = Some False
    \<and> fst (park_and_close True True env) = Cancelled \<and> Stop_Track \<notin> set (snd (park_and_close True True env))"
  by code_simp

lemma an_ending_closes:
  "Roof Close_Shutter \<in> set (snd (wind_down at_home an_ending True True True False)) \<and> fst (wind_down_park an_ending) = Some True"
  by code_simp

lemma roof_closes_after_the_park_witness:
  "Roof Close_Shutter \<in> set (snd (wind_down at_home an_ending True True True False))
   \<and> parked_answer (wn_roof an_ending)"
  using an_ending_closes roof_closes_after_the_park [of an_ending at_home True True False a_stop False None]
  by (simp add: an_ending_def mount_in_the_way_def)

lemma park_in_flight_is_not_trusted_witness:
  "fst (park_try \<lparr>pk_answer = Accepted, pk_looks = [on_its_way, unread, on_its_way], pk_final = unread\<rparr>) = Some False"
  by (subst park_in_flight_is_not_trusted) (simp_all add: on_its_way_def unread_def settles_def tells_slewing_def)

text \<open>A mount whose link is down for good is not there to ask: its park fails, nothing can stop it, and the roof
  is closed over it, parked or not.\<close>

lemma roof_closes_over_a_dead_link:
  assumes "wn_tel env" "\<not> wn_unknown env" "\<not> wn_unknown_locked env" "pk_answer (wn_try env) = Refused"
    and "\<not> st_present (wn_failed env)" "\<not> wn_guider_cancelled env" "\<not> wn_cancelled env" "wn_cut env = None"
    and "wn_dome env" "wn_dome_present env" "dome_requires_park (wn_roof env)"
    and "re_telescope (wn_roof env) = Some \<lparr>sc_present = False, sc_is_parked = p\<rparr>" "dome_is_closed (wn_roof env) = Some False"
  shows "fst (wind_down_park env) = Some False \<and> Roof Close_Shutter \<in> set (snd (park_and_close True True env))
    \<and> Stop_Track \<notin> set (snd (park_and_close True True env))"
proof -
  have park: "fst (wind_down_park env) = Some False" "Stop_Track \<notin> set (snd (wind_down_park env))"
    using assms(2-4) by (auto simp: wind_down_park_def locked_park_def park_and_read_back_def park_try_def reopen_mount_def Let_def)
  have "Close_Shutter \<in> set (snd (close_observatory (wn_roof env)))"
    using assms(11-13) by (auto simp: close_observatory_def close_and_confirm_def mount_in_the_way_def case_prod_beta split: sum.split)
  then show ?thesis
    using assms park
    by (auto simp: park_and_close_def cut_short_def wind_down_roof_def stop_after_a_failed_park_def stop_tracking_quietly_def Let_def
        case_prod_beta)
qed

end
