(* ===== verification/Auth_Caps.thy ===== *)
theory Auth_Caps
  imports Machines
begin

text \<open>
  Who may do what: the capability strings and the role table of
  \<open>server/astrodeck/auth/capabilities.py\<close>, and the resolved caller of \<open>auth/principal.py\<close>. A
  frozenset of capabilities is a set of strings.
\<close>

section \<open>Capabilities\<close>

definition ALL_CAPS :: "string set" where
  "ALL_CAPS = {''view.status'', ''view.preview'', ''view.media'', ''view.site_precise'',
     ''view.site_derived'', ''view.weather'', ''control.capture'', ''control.mount'', ''control.guide'',
     ''control.power'', ''control.reconnect'', ''config.safety'', ''config.solar_override'',
     ''config.backend'', ''config.site_optics'', ''config.alerts'', ''admin.users'', ''system.update''}"

definition DESTRUCTIVE_CAPS :: "string set" where
  "DESTRUCTIVE_CAPS = {''config.safety'', ''config.solar_override'', ''control.mount'',
     ''control.power'', ''admin.users'', ''system.update''}"

definition RETIRED_CAPS :: "string set" where
  "RETIRED_CAPS = {''view'', ''config.mount_limits''}"

definition VIEWER_LINK_CAPS :: "string set" where
  "VIEWER_LINK_CAPS = {''view.status'', ''view.preview''}"

definition ROLES :: "string list" where
  "ROLES = [''viewer'', ''syncer'', ''operator'', ''admin'']"

definition ROLES_CAP :: "string \<rightharpoonup> string set" where
  "ROLES_CAP = [''viewer'' \<mapsto> VIEWER_LINK_CAPS,
     ''syncer'' \<mapsto> {''view.status'', ''view.media''},
     ''operator'' \<mapsto> {''view.status'', ''view.preview'', ''view.weather'', ''view.site_derived'',
        ''control.capture'', ''control.guide'', ''control.mount'', ''control.reconnect''},
     ''admin'' \<mapsto> ALL_CAPS]"

text \<open>A role may be missing (\<open>None\<close>), which the table does not hold either.\<close>

definition caps_for_role :: "string option \<Rightarrow> string set" where
  "caps_for_role role = (case role of None \<Rightarrow> {} | Some r \<Rightarrow> dget ROLES_CAP r {})"

definition has_capability :: "string \<Rightarrow> string \<Rightarrow> bool" where
  "has_capability role cap = (cap \<in> caps_for_role (Some role))"

fun index_of :: "'a \<Rightarrow> 'a list \<Rightarrow> int option" where
  "index_of x [] = None"
| "index_of x (y # ys) = (if x = y then Some 0 else map_option ((+) 1) (index_of x ys))"

definition role_rank :: "string \<Rightarrow> int" where
  "role_rank role = (case index_of role ROLES of None \<Rightarrow> -1 | Some i \<Rightarrow> i)"

section \<open>The caller\<close>

record principal =
  pr_role :: string
  pr_email :: "string option"
  pr_caps :: "string set"
  pr_jti :: "string option"
  pr_authn :: "string option"
  pr_iat :: "int option"

definition holds :: "principal \<Rightarrow> string \<Rightarrow> bool" where
  "holds p cap = (cap \<in> pr_caps p)"

definition admin_principal :: principal where
  "admin_principal = \<lparr>pr_role = ''admin'', pr_email = None, pr_caps = ALL_CAPS, pr_jti = None,
     pr_authn = None, pr_iat = None\<rparr>"

definition principal_for_role :: "string \<Rightarrow> string option \<Rightarrow> string option \<Rightarrow> principal" where
  "principal_for_role role email jti = \<lparr>pr_role = role, pr_email = email,
     pr_caps = caps_for_role (Some role), pr_jti = jti, pr_authn = None, pr_iat = None\<rparr>"

text \<open>A principal is canonical when its capabilities are its role's, and some.\<close>

definition canonical :: "principal \<Rightarrow> bool" where
  "canonical p = (pr_caps p = caps_for_role (Some (pr_role p)) \<and> pr_caps p \<noteq> {})"

section \<open>The role table\<close>

lemma caps_for_role_simps [simp]:
  "caps_for_role None = {}" "caps_for_role (Some ''admin'') = ALL_CAPS"
  "caps_for_role (Some ''viewer'') = VIEWER_LINK_CAPS"
  "caps_for_role (Some ''syncer'') = {''view.status'', ''view.media''}"
  "caps_for_role (Some ''operator'') = {''view.status'', ''view.preview'', ''view.weather'',
     ''view.site_derived'', ''control.capture'', ''control.guide'', ''control.mount'', ''control.reconnect''}"
  by (simp_all add: caps_for_role_def dget_def ROLES_CAP_def)

lemma caps_for_role_known: "caps_for_role (Some r) \<noteq> {} \<Longrightarrow> r \<in> set ROLES"
  by (auto simp: caps_for_role_def dget_def ROLES_CAP_def ROLES_def split: if_splits)

lemma admin_canonical [simp]: "canonical admin_principal"
  by (simp add: canonical_def admin_principal_def ALL_CAPS_def)

lemma caps_real: "caps_for_role r \<subseteq> ALL_CAPS"
proof (cases r)
  case (Some s)
  show ?thesis
  proof (cases "caps_for_role (Some s) = {}")
    case False
    from caps_for_role_known [OF False] show ?thesis
      by (auto simp: Some ROLES_def VIEWER_LINK_CAPS_def ALL_CAPS_def)
  qed (simp add: Some)
qed simp

lemma role_cases:
  obtains "caps_for_role (Some r) = {}" "r \<notin> set ROLES" | "r = ''viewer''" | "r = ''syncer''"
    | "r = ''operator''" | "r = ''admin''"
proof (cases "r \<in> set ROLES")
  case True
  then show ?thesis using that by (auto simp: ROLES_def)
next
  case False
  then have "caps_for_role (Some r) = {}" using caps_for_role_known by blast
  with False show ?thesis using that by blast
qed

lemma mount_roles: "''control.mount'' \<in> caps_for_role (Some r) \<Longrightarrow> r \<in> {''operator'', ''admin''}"
  by (cases rule: role_cases [of r]) (simp_all add: VIEWER_LINK_CAPS_def)

text \<open>The role table keeps its separations: an unknown role holds nothing; of the destructive
  capabilities a role other than admin holds at most moving the mount; and a role other than admin that
  can take the raw frames holds nothing else but the status, so whoever drives the rig cannot take its
  data away and whoever takes the data cannot drive it.\<close>

theorem role_separations:
  assumes "r \<noteq> ''admin''"
  shows "(r \<in> set ROLES \<or> caps_for_role (Some r) = {}) \<and>
    caps_for_role (Some r) \<inter> DESTRUCTIVE_CAPS \<subseteq> {''control.mount''} \<and>
    (''view.media'' \<in> caps_for_role (Some r) \<longrightarrow> caps_for_role (Some r) \<subseteq> {''view.status'', ''view.media''})"
  using assms
  by (cases rule: role_cases [of r]) (simp_all add: VIEWER_LINK_CAPS_def DESTRUCTIVE_CAPS_def ROLES_def)

theorem role_separations_witness:
  "caps_for_role (Some ''operator'') \<inter> DESTRUCTIVE_CAPS \<subseteq> {''control.mount''} \<and>
   caps_for_role (Some ''syncer'') \<subseteq> {''view.status'', ''view.media''} \<and>
   caps_for_role (Some ''root'') = {}"
  using role_separations [of "''operator''"] role_separations [of "''syncer''"]
    role_separations [of "''root''"] by (simp add: ROLES_def)

end
