(* ===== verification/Auth_Providers.thy ===== *)
theory Auth_Providers
  imports Auth_Caps Py_Values
begin

text \<open>
  How a request becomes a caller: the providers of \<open>server/astrodeck/auth/providers.py\<close> and the
  resolver, provider selection and gates of \<open>auth/deps.py\<close>.

  A request is the five places the code reads a credential from and two facts of its ASGI scope: that
  the relay tunnelled it, and that it came from a loopback address. A header is \<open>None\<close> when absent.
  What the home knows is the record \<open>home\<close>: the live auth configuration (\<open>None\<close> when reading it
  raises), the account lookups of \<open>auth/users.py\<close>, \<open>verify_session\<close> and \<open>credential_fingerprint\<close>
  of \<open>auth/session.py\<close>; those functions are parameters here. A session's claims are a JSON object.
  Case folding is on ASCII.
\<close>

section \<open>Requests and credentials\<close>

record request =
  x_auth_token :: "string option"
  authorization :: "string option"
  query_token :: "string option"
  session_cookie :: "string option"
  remote :: bool
  loopback :: bool

type_synonym claims = "string \<rightharpoonup> jval"

record user =
  u_id :: string
  u_enabled :: bool
  u_password_hash :: string
  u_session_epoch :: int
  u_role :: string
  u_email :: "string option"
  u_login_email :: string

record auth_config =
  ac_methods :: "string list"
  ac_provider :: string
  ac_admin_token :: string
  ac_role_allowlist :: "string \<rightharpoonup> string"
  ac_default_role :: "string option"
  ac_session_ttl_s :: int
  ac_revoked_jti :: "string list"
  ac_session_epoch :: int
  ac_trust_loopback :: bool

record home =
  live_config :: "auth_config option"
  user_get :: "string \<Rightarrow> user option"
  user_by_email :: "string \<Rightarrow> user option"
  verify_session :: "string \<Rightarrow> claims option"
  fingerprint :: "string \<Rightarrow> string option"

text \<open>\<open>hmac.compare_digest\<close> on two strings, which raises for a character outside ASCII.\<close>

definition compare_digest :: "string \<Rightarrow> string \<Rightarrow> bool res" where
  "compare_digest a b = (if is_ascii a \<and> is_ascii b then Inr (a = b) else Inl TypeError)"

definition nonempty :: "string option \<Rightarrow> string option" where
  "nonempty s = (case s of Some t \<Rightarrow> if t = [] then None else Some t | None \<Rightarrow> None)"

section \<open>The providers\<close>

definition token_of_config :: "string \<Rightarrow> string" where
  "token_of_config admin_token = (let token = py_strip admin_token in
     if length token \<ge> 32 then token else [])"

text \<open>\<open>_present_token\<close>: the header, then the bearer, then the query.\<close>

definition present_token :: "request \<Rightarrow> string option" where
  "present_token rq = (case nonempty (x_auth_token rq) of
     Some h \<Rightarrow> Some (py_strip h)
   | None \<Rightarrow> (case nonempty (authorization rq) of
       Some a \<Rightarrow> (case split_once a of
           [w, rest] \<Rightarrow> if py_lower w = ''bearer'' then Some (py_strip rest) else Some (py_strip a)
         | _ \<Rightarrow> Some (py_strip a))
     | None \<Rightarrow> map_option py_strip (nonempty (query_token rq))))"

definition token_resolve :: "string \<Rightarrow> request \<Rightarrow> principal option res" where
  "token_resolve token rq =
     (if token = [] then Inr None
      else case nonempty (present_token rq) of None \<Rightarrow> Inr None
      | Some supplied \<Rightarrow> (case compare_digest supplied token of Inl e \<Rightarrow> Inl e
          | Inr ok \<Rightarrow> Inr (if ok then Some admin_principal else None)))"

definition present_session :: "request \<Rightarrow> string option" where
  "present_session rq = (case nonempty (session_cookie rq) of
     Some c \<Rightarrow> Some c
   | None \<Rightarrow> (case nonempty (authorization rq) of None \<Rightarrow> None
     | Some a \<Rightarrow> (case split_once a of
         [w, rest] \<Rightarrow> if py_lower w = ''bearer'' then Some (py_strip rest) else None
       | _ \<Rightarrow> None)))"

text \<open>\<open>int(x)\<close> of a claim: \<open>None\<close> where the code catches the exception, \<open>OverflowError\<close> for an
  infinity, which it does not catch.\<close>

definition claim_int :: "jval \<Rightarrow> int option res" where
  "claim_int v = (case v of
     JInt n \<Rightarrow> Inr (Some n) | JBool b \<Rightarrow> Inr (Some (if b then 1 else 0))
   | JFloat (Fin x) \<Rightarrow> Inr (Some (trunc x)) | JFloat NaN \<Rightarrow> Inr None | JFloat _ \<Rightarrow> Inl OverflowError
   | JStr s \<Rightarrow> Inr (str_int s) | _ \<Rightarrow> Inr None)"

definition claim :: "claims \<Rightarrow> string \<Rightarrow> jval" where
  "claim cl k = dget cl k JNull"

text \<open>\<open>jti in revoked\<close>: a list or an object cannot be hashed; only a string can be a member.\<close>

definition revoked :: "jval \<Rightarrow> string set \<Rightarrow> bool res" where
  "revoked jti denied = (case jti of JList \<Rightarrow> Inl TypeError | JDict \<Rightarrow> Inl TypeError
     | JStr s \<Rightarrow> Inr (s \<in> denied) | _ \<Rightarrow> Inr False)"

text \<open>The three issuers of a session: who the claims are for today, read from the live state, or
  nobody.\<close>

definition local_identity :: "home \<Rightarrow> string set \<Rightarrow> claims \<Rightarrow> (string option \<times> string option) option res" where
  "local_identity h methods cl =
     (if ''local'' \<notin> methods then Inr None
      else case claim cl ''sub'' of
        JStr subject \<Rightarrow> if subject = [] then Inr None
          else (case claim_int (claim cl ''account_epoch'') of Inl e \<Rightarrow> Inl e | Inr None \<Rightarrow> Inr None
            | Inr (Some epoch) \<Rightarrow> (case user_get h subject of None \<Rightarrow> Inr None
                | Some u \<Rightarrow> if \<not> u_enabled u \<or> u_password_hash u = [] \<or> u_session_epoch u \<noteq> epoch
                    then Inr None else Inr (Some (Some (u_role u), u_email u))))
      | _ \<Rightarrow> Inr None)"

definition google_identity :: "home \<Rightarrow> auth_config \<Rightarrow> string set \<Rightarrow> claims \<Rightarrow>
    (string option \<times> string option) option res" where
  "google_identity h auth methods cl =
     (if ''google'' \<notin> methods then Inr None
      else case claim cl ''email'' of
        JStr claimed \<Rightarrow> if py_strip claimed = [] then Inr None
          else let email = py_lower (py_strip claimed) in
            (case user_by_email h email of
               Some u \<Rightarrow> (case claim_int (claim cl ''account_epoch'') of Inl e \<Rightarrow> Inl e
                 | Inr None \<Rightarrow> Inr None
                 | Inr (Some epoch) \<Rightarrow>
                     if \<not> u_enabled u \<or> claim cl ''sub'' \<noteq> JStr (u_id u) \<or> u_session_epoch u \<noteq> epoch
                     then Inr None else Inr (Some (Some (u_role u), Some (u_login_email u))))
             | None \<Rightarrow> if claim cl ''sub'' \<noteq> JNull then Inr None
                 else Inr (Some (case ac_role_allowlist auth email of Some r \<Rightarrow> Some r
                            | None \<Rightarrow> ac_default_role auth, Some email)))
      | _ \<Rightarrow> Inr None)"

definition token_identity :: "home \<Rightarrow> auth_config \<Rightarrow> claims \<Rightarrow> (string option \<times> string option) option res" where
  "token_identity h auth cl = (let configured = py_strip (ac_admin_token auth) in
     case claim cl ''credential_tag'' of
       JStr tag \<Rightarrow> if configured = [] then Inr None
         else (case fingerprint h configured of None \<Rightarrow> Inr None
           | Some expected \<Rightarrow> (case compare_digest tag expected of Inl e \<Rightarrow> Inl e
               | Inr ok \<Rightarrow> Inr (if ok then Some (Some ''admin'', None) else None)))
     | _ \<Rightarrow> Inr None)"

definition identity_of :: "home \<Rightarrow> auth_config \<Rightarrow> string set \<Rightarrow> claims \<Rightarrow>
    (string option \<times> string option) option res" where
  "identity_of h auth methods cl = (case claim cl ''authn'' of
     JStr a \<Rightarrow> if a = ''local'' then local_identity h methods cl
       else if a = ''google'' then google_identity h auth methods cl
       else if a = ''admin_token'' then token_identity h auth cl else Inr None
   | _ \<Rightarrow> Inr None)"

definition methods_effective :: "auth_config \<Rightarrow> string list" where
  "methods_effective auth = filter (\<lambda>m. m \<in> set (ac_methods auth)) [''local'', ''google'']"

text \<open>\<open>SessionCookieProvider.resolve\<close>; \<open>denied\<close> and \<open>min_epoch\<close> are the provider's own.\<close>

definition session_resolve :: "home \<Rightarrow> string set \<Rightarrow> int \<Rightarrow> request \<Rightarrow> principal option res" where
  "session_resolve h denied min_epoch rq =
     (case nonempty (present_session rq) of None \<Rightarrow> Inr None | Some raw \<Rightarrow>
      case verify_session h raw of None \<Rightarrow> Inr None | Some cl \<Rightarrow>
      case live_config h of None \<Rightarrow> Inr None | Some auth \<Rightarrow>
      case revoked (claim cl ''jti'') (denied \<union> set (ac_revoked_jti auth)) of Inl e \<Rightarrow> Inl e
      | Inr True \<Rightarrow> Inr None | Inr False \<Rightarrow>
      case claim_int (dget cl ''epoch'' (JInt 0)) of Inl e \<Rightarrow> Inl e | Inr None \<Rightarrow> Inr None
      | Inr (Some epoch) \<Rightarrow>
      if epoch < max min_epoch (ac_session_epoch auth) then Inr None
      else case identity_of h auth (set (methods_effective auth)) cl of Inl e \<Rightarrow> Inl e
        | Inr None \<Rightarrow> Inr None
        | Inr (Some (role, email)) \<Rightarrow>
          if caps_for_role role = {} then Inr None
          else Inr (Some \<lparr>pr_role = (case role of None \<Rightarrow> [] | Some r \<Rightarrow> r), pr_email = email,
            pr_caps = caps_for_role role,
            pr_jti = (case claim cl ''jti'' of JStr s \<Rightarrow> Some s | _ \<Rightarrow> None),
            pr_authn = (case claim cl ''authn'' of JStr s \<Rightarrow> Some s | _ \<Rightarrow> None),
            pr_iat = (case claim cl ''iat'' of JInt n \<Rightarrow> Some n | _ \<Rightarrow> None)\<rparr>))"

text \<open>\<open>MultiAuthProvider.resolve\<close>: the break-glass token, when one is configured, then the session.\<close>

definition multi_resolve :: "home \<Rightarrow> string \<Rightarrow> string set \<Rightarrow> int \<Rightarrow> request \<Rightarrow> principal option res" where
  "multi_resolve h admin_token denied min_epoch rq =
     (if py_strip admin_token = [] then session_resolve h denied min_epoch rq
      else case token_resolve (token_of_config (py_strip admin_token)) rq of
        Inl e \<Rightarrow> Inl e | Inr (Some p) \<Rightarrow> Inr (Some p)
      | Inr None \<Rightarrow> session_resolve h denied min_epoch rq)"

section \<open>Choosing the provider, and the gates\<close>

datatype provider = None_Provider | Token_Provider string
  | Multi_Provider "string list" string "string set" int

definition provider_resolve :: "home \<Rightarrow> provider \<Rightarrow> request \<Rightarrow> principal option res" where
  "provider_resolve h pv rq = (case pv of
     None_Provider \<Rightarrow> Inr (Some admin_principal)
   | Token_Provider t \<Rightarrow> token_resolve (token_of_config t) rq
   | Multi_Provider ms t denied epoch \<Rightarrow> multi_resolve h t denied epoch rq)"

definition effective_methods :: "auth_config \<Rightarrow> string list" where
  "effective_methods auth = (let ms = (if ac_methods auth = [] \<and>
       (if ac_provider auth = [] then ''none'' else ac_provider auth) = ''google'' then [''google'']
       else ac_methods auth)
     in filter (\<lambda>m. m \<in> set ms) [''local'', ''google''])"

definition build_provider :: "auth_config \<Rightarrow> provider" where
  "build_provider auth =
     (if (\<exists>m \<in> set (ac_methods auth). m \<notin> {''local'', ''google''})
        \<or> (if ac_provider auth = [] then ''none'' else ac_provider auth) \<notin> {''none'', ''google''}
        \<or> ac_session_ttl_s auth \<le> 0 then Token_Provider []
      else let token = py_strip (ac_admin_token auth); ms = effective_methods auth in
        if ms = [] then (if token \<noteq> [] then Token_Provider token else None_Provider)
        else Multi_Provider ms token (set (ac_revoked_jti auth)) (ac_session_epoch auth))"

definition resolve_principal :: "home \<Rightarrow> provider \<Rightarrow> bool \<Rightarrow> request \<Rightarrow> bool \<Rightarrow> principal option res" where
  "resolve_principal h pv trust_loopback rq is_remote =
     (if pv = None_Provider \<and> is_remote then Inr None
      else if pv = None_Provider \<and> \<not> trust_loopback \<and> loopback rq then Inr None
      else provider_resolve h pv rq)"

datatype refusal = Unauthenticated | Not_Permitted | Step_Up | Raised exn

definition require_cap :: "home \<Rightarrow> provider \<Rightarrow> bool \<Rightarrow> string \<Rightarrow> request \<Rightarrow> refusal + principal" where
  "require_cap h pv trust cap rq = (case resolve_principal h pv trust rq (remote rq) of
     Inl e \<Rightarrow> Inl (Raised e) | Inr None \<Rightarrow> Inl Unauthenticated
   | Inr (Some p) \<Rightarrow> if \<not> holds p cap then Inl Not_Permitted else Inr p)"

definition STEP_UP_MAX_AGE_S :: rat where "STEP_UP_MAX_AGE_S = 300"
definition STEP_UP_CLOCK_SKEW_S :: rat where "STEP_UP_CLOCK_SKEW_S = 60"

definition require_recent_signin :: "rat \<Rightarrow> request \<Rightarrow> principal \<Rightarrow> refusal + unit" where
  "require_recent_signin now rq p =
     (if \<not> remote rq then Inr ()
      else case (pr_authn p, pr_iat p) of
        (Some a, Some iat) \<Rightarrow>
          if a \<notin> {''local'', ''google''} then Inl Step_Up
          else let age = now - of_int iat in
            if STEP_UP_MAX_AGE_S < age \<or> age < - STEP_UP_CLOCK_SKEW_S then Inl Step_Up else Inr ()
      | _ \<Rightarrow> Inl Step_Up)"

section \<open>What every provider promises\<close>

text \<open>The contract of the \<open>AuthProvider\<close> protocol: whoever it resolves is genuine, in the provider's
  own sense, and holds the capabilities of a known role, no more and no fewer.\<close>

locale authenticator =
  fixes resolve :: "request \<Rightarrow> principal option res"
    and genuine :: "request \<Rightarrow> principal \<Rightarrow> bool"
  assumes resolve_canonical: "resolve rq = Inr (Some p) \<Longrightarrow> canonical p"
    and resolve_genuine: "resolve rq = Inr (Some p) \<Longrightarrow> genuine rq p"
begin

lemma resolve_role: "resolve rq = Inr (Some p) \<Longrightarrow> holds p cap \<Longrightarrow>
    cap \<in> caps_for_role (Some (pr_role p)) \<and> pr_role p \<in> set ROLES \<and> genuine rq p"
  using resolve_canonical [of rq p] resolve_genuine [of rq p] caps_for_role_known [of "pr_role p"]
  by (auto simp: holds_def canonical_def)

lemma resolve_mount: "resolve rq = Inr (Some p) \<Longrightarrow> holds p ''control.mount'' \<Longrightarrow>
    pr_role p \<in> {''operator'', ''admin''}"
  using resolve_role mount_roles by blast

end

text \<open>Two providers tried in turn make a provider.\<close>

locale two_authenticators = first: authenticator r1 g1 + second: authenticator r2 g2 for r1 g1 r2 g2
begin

definition either :: "request \<Rightarrow> principal option res" where
  "either rq = (case r1 rq of Inl e \<Rightarrow> Inl e | Inr (Some p) \<Rightarrow> Inr (Some p) | Inr None \<Rightarrow> r2 rq)"

lemma either_Inr: "either rq = Inr (Some p) \<Longrightarrow> r1 rq = Inr (Some p) \<or> r2 rq = Inr (Some p)"
  by (auto simp: either_def split: sum.splits option.splits)

end

sublocale two_authenticators \<subseteq> authenticator either "\<lambda>rq p. g1 rq p \<or> g2 rq p"
  by unfold_locales
    (use either_Inr first.resolve_canonical second.resolve_canonical first.resolve_genuine
      second.resolve_genuine in blast)+

definition token_genuine :: "string \<Rightarrow> request \<Rightarrow> principal \<Rightarrow> bool" where
  "token_genuine token rq p = (present_token rq = Some token \<and> token \<noteq> [] \<and> p = admin_principal)"

lemma token_resolve_Some:
  "token_resolve token rq = Inr (Some p) \<Longrightarrow> token_genuine token rq p"
  by (auto simp: token_resolve_def token_genuine_def compare_digest_def nonempty_def
      split: option.splits sum.splits if_splits)

interpretation tok: authenticator "token_resolve token" "token_genuine token" for token
  by unfold_locales (auto dest!: token_resolve_Some simp: token_genuine_def)

text \<open>A session is genuine when its claims verify and the live state still backs them.\<close>

definition session_genuine :: "home \<Rightarrow> string set \<Rightarrow> int \<Rightarrow> request \<Rightarrow> principal \<Rightarrow> bool" where
  "session_genuine h denied min_epoch rq p = (\<exists>raw cl auth role.
     present_session rq = Some raw \<and> verify_session h raw = Some cl \<and> live_config h = Some auth \<and>
     (\<forall>j. claim cl ''jti'' = JStr j \<longrightarrow> j \<notin> denied \<union> set (ac_revoked_jti auth)) \<and>
     (\<exists>n. claim_int (dget cl ''epoch'' (JInt 0)) = Inr (Some n) \<and> min_epoch \<le> n \<and> ac_session_epoch auth \<le> n) \<and>
     identity_of h auth (set (methods_effective auth)) cl = Inr (Some (role, pr_email p)) \<and>
     role = Some (pr_role p) \<and> pr_caps p = caps_for_role role \<and> pr_caps p \<noteq> {} \<and>
     pr_jti p = (case claim cl ''jti'' of JStr s \<Rightarrow> Some s | _ \<Rightarrow> None) \<and>
     pr_authn p = (case claim cl ''authn'' of JStr s \<Rightarrow> Some s | _ \<Rightarrow> None) \<and>
     pr_iat p = (case claim cl ''iat'' of JInt n \<Rightarrow> Some n | _ \<Rightarrow> None))"

lemma session_resolve_Some:
  assumes "session_resolve h denied min_epoch rq = Inr (Some p)"
  shows "session_genuine h denied min_epoch rq p"
proof -
  from assms obtain raw cl auth epoch role email where
    r: "nonempty (present_session rq) = Some raw" "verify_session h raw = Some cl"
    "live_config h = Some auth"
    "revoked (claim cl ''jti'') (denied \<union> set (ac_revoked_jti auth)) = Inr False"
    "claim_int (dget cl ''epoch'' (JInt 0)) = Inr (Some epoch)"
    "\<not> epoch < max min_epoch (ac_session_epoch auth)"
    "identity_of h auth (set (methods_effective auth)) cl = Inr (Some (role, email))"
    "caps_for_role role \<noteq> {}"
    and p: "p = \<lparr>pr_role = (case role of None \<Rightarrow> [] | Some r \<Rightarrow> r), pr_email = email,
            pr_caps = caps_for_role role,
            pr_jti = (case claim cl ''jti'' of JStr s \<Rightarrow> Some s | _ \<Rightarrow> None),
            pr_authn = (case claim cl ''authn'' of JStr s \<Rightarrow> Some s | _ \<Rightarrow> None),
            pr_iat = (case claim cl ''iat'' of JInt n \<Rightarrow> Some n | _ \<Rightarrow> None)\<rparr>"
    unfolding session_resolve_def
    by (auto split: option.splits sum.splits bool.splits if_splits)
  obtain s where s: "role = Some s" using r(8) by (cases role) simp_all
  have "present_session rq = Some raw" using r(1) by (auto simp: nonempty_def split: option.splits if_splits)
  moreover have "\<forall>j. claim cl ''jti'' = JStr j \<longrightarrow> j \<notin> denied \<union> set (ac_revoked_jti auth)"
    using r(4) by (auto simp: revoked_def)
  moreover have "min_epoch \<le> epoch" "ac_session_epoch auth \<le> epoch" using r(6) by auto
  ultimately show ?thesis
    unfolding session_genuine_def using r s
    by (intro exI [of _ raw] exI [of _ cl] exI [of _ auth] exI [of _ role]) (simp add: p)
qed

interpretation ses: authenticator "session_resolve h denied e" "session_genuine h denied e" for h denied e
  by unfold_locales (auto dest!: session_resolve_Some simp: session_genuine_def canonical_def)

interpretation both: two_authenticators "token_resolve t" "token_genuine t" "session_resolve h d e"
  "session_genuine h d e" for t h d e ..

definition configured_token :: "provider \<Rightarrow> string" where
  "configured_token pv = (case pv of None_Provider \<Rightarrow> [] | Token_Provider t \<Rightarrow> token_of_config t
     | Multi_Provider ms t d e \<Rightarrow> token_of_config (py_strip t))"

definition provider_genuine :: "home \<Rightarrow> provider \<Rightarrow> request \<Rightarrow> principal \<Rightarrow> bool" where
  "provider_genuine h pv rq p = (pv = None_Provider \<or> token_genuine (configured_token pv) rq p \<or>
     (\<exists>ms t d e. pv = Multi_Provider ms t d e \<and> session_genuine h d e rq p))"

lemma multi_resolve_eq:
  "py_strip t \<noteq> [] \<Longrightarrow> multi_resolve h t d e = both.either (token_of_config (py_strip t)) h d e"
  by (simp add: fun_eq_iff multi_resolve_def two_authenticators.either_def
      [OF both.two_authenticators_axioms])

interpretation prov: authenticator "provider_resolve h pv" "provider_genuine h pv" for h pv
proof
  fix rq p assume r: "provider_resolve h pv rq = Inr (Some p)"
  have "canonical p \<and> provider_genuine h pv rq p"
  proof (cases pv)
    case None_Provider
    with r show ?thesis by (auto simp: provider_resolve_def provider_genuine_def)
  next
    case (Token_Provider t)
    with r have "token_resolve (token_of_config t) rq = Inr (Some p)" by (simp add: provider_resolve_def)
    then show ?thesis using tok.resolve_canonical tok.resolve_genuine
      by (auto simp: Token_Provider provider_genuine_def configured_token_def)
  next
    case (Multi_Provider ms t d e)
    with r have m: "multi_resolve h t d e rq = Inr (Some p)" by (simp add: provider_resolve_def)
    show ?thesis
    proof (cases "py_strip t = []")
      case True
      with m have "session_resolve h d e rq = Inr (Some p)" by (simp add: multi_resolve_def)
      then show ?thesis using ses.resolve_canonical ses.resolve_genuine
        by (auto simp: Multi_Provider provider_genuine_def)
    next
      case False
      then have "both.either (token_of_config (py_strip t)) h d e rq = Inr (Some p)"
        using m by (simp add: multi_resolve_eq)
      from both.resolve_canonical [OF this] both.resolve_genuine [OF this] show ?thesis
        by (auto simp: Multi_Provider provider_genuine_def configured_token_def)
    qed
  qed
  then show "canonical p" "provider_genuine h pv rq p" by simp_all
qed

lemma resolve_principal_Some:
  "resolve_principal h pv trust rq rem = Inr (Some p) \<Longrightarrow>
     provider_resolve h pv rq = Inr (Some p) \<and> \<not> (pv = None_Provider \<and> (rem \<or> \<not> trust \<and> loopback rq))"
  by (auto simp: resolve_principal_def split: if_splits)

lemma require_cap_Inr:
  "require_cap h pv trust cap rq = Inr p \<longleftrightarrow>
     resolve_principal h pv trust rq (remote rq) = Inr (Some p) \<and> holds p cap"
  by (auto simp: require_cap_def split: sum.splits option.splits if_splits)

section \<open>Properties\<close>

text \<open>C2. The open default never crosses the relay: whatever the configuration, a request the relay
  tunnelled passes a capability gate only with a credential of its own, the configured admin token of at
  least 32 bytes or a session that verifies against the live state; and then its role holds the
  capability.\<close>

theorem remote_needs_a_credential:
  assumes "require_cap h (build_provider auth) trust cap rq = Inr p" and "remote rq"
  shows "cap \<in> caps_for_role (Some (pr_role p)) \<and> pr_role p \<in> set ROLES \<and>
    ((\<exists>t. present_token rq = Some t \<and> t = py_strip (ac_admin_token auth) \<and> 32 \<le> length t) \<or>
     (\<exists>raw cl. present_session rq = Some raw \<and> verify_session h raw = Some cl))"
proof -
  let ?pv = "build_provider auth"
  from assms have a: "resolve_principal h ?pv trust rq True = Inr (Some p)" and c: "holds p cap"
    by (simp_all add: require_cap_Inr)
  from resolve_principal_Some [OF a] have r: "provider_resolve h ?pv rq = Inr (Some p)"
    and n: "?pv \<noteq> None_Provider" by simp_all
  note g = prov.resolve_role [OF r c]
  have tc: "configured_token ?pv = [] \<or>
      configured_token ?pv = py_strip (ac_admin_token auth) \<and> 32 \<le> length (configured_token ?pv)"
    by (simp add: build_provider_def configured_token_def token_of_config_def Let_def)
  from g have "provider_genuine h ?pv rq p" by simp
  then consider "token_genuine (configured_token ?pv) rq p"
    | d e where "session_genuine h d e rq p" using n unfolding provider_genuine_def by blast
  then have "(\<exists>t. present_token rq = Some t \<and> t = py_strip (ac_admin_token auth) \<and> 32 \<le> length t) \<or>
     (\<exists>raw cl. present_session rq = Some raw \<and> verify_session h raw = Some cl)"
  proof cases
    case 1
    with tc show ?thesis by (auto simp: token_genuine_def)
  next
    case (2 d e)
    then show ?thesis unfolding session_genuine_def by blast
  qed
  with g show ?thesis by blast
qed

text \<open>A home to evaluate: one local operator, a session that verifies, no token.\<close>

definition demo_auth :: auth_config where
  "demo_auth = \<lparr>ac_methods = [''local''], ac_provider = ''none'', ac_admin_token = [],
     ac_role_allowlist = Map.empty, ac_default_role = None, ac_session_ttl_s = 28800,
     ac_revoked_jti = [], ac_session_epoch = 2, ac_trust_loopback = True\<rparr>"

definition demo_claims :: claims where
  "demo_claims = [''authn'' \<mapsto> JStr ''local'', ''sub'' \<mapsto> JStr ''u1'', ''account_epoch'' \<mapsto> JInt 4,
     ''epoch'' \<mapsto> JInt 2, ''iat'' \<mapsto> JInt 1000]"

definition demo_home :: home where
  "demo_home = \<lparr>live_config = Some demo_auth,
     user_get = (\<lambda>i. if i = ''u1'' then Some \<lparr>u_id = ''u1'', u_enabled = True, u_password_hash = ''h'',
       u_session_epoch = 4, u_role = ''operator'', u_email = None, u_login_email = ''o''\<rparr> else None),
     user_by_email = (\<lambda>_. None),
     verify_session = (\<lambda>raw. if raw = ''good'' then Some demo_claims else None),
     fingerprint = (\<lambda>_. None)\<rparr>"

definition demo_request :: request where
  "demo_request = \<lparr>x_auth_token = None, authorization = None, query_token = None,
     session_cookie = Some ''good'', remote = True, loopback = False\<rparr>"

lemmas session_eval = session_resolve_def nonempty_def present_session_def revoked_def claim_def
  claim_int_def identity_of_def local_identity_def methods_effective_def

lemma demo_session: "session_resolve demo_home {} 2 demo_request = Inr (Some
    \<lparr>pr_role = ''operator'', pr_email = None, pr_caps = caps_for_role (Some ''operator''),
     pr_jti = None, pr_authn = Some ''local'', pr_iat = Some 1000\<rparr>)"
  by (simp add: demo_home_def demo_auth_def demo_claims_def demo_request_def session_eval)

lemma demo_provider: "build_provider demo_auth = Multi_Provider [''local''] [] {} 2"
  by (simp add: build_provider_def demo_auth_def effective_methods_def py_strip_def Let_def)

lemma demo_gate: "require_cap demo_home (build_provider demo_auth) True ''control.mount'' demo_request = Inr
    \<lparr>pr_role = ''operator'', pr_email = None, pr_caps = caps_for_role (Some ''operator''),
     pr_jti = None, pr_authn = Some ''local'', pr_iat = Some 1000\<rparr>"
  using demo_session
  by (simp add: require_cap_def resolve_principal_def provider_resolve_def multi_resolve_def demo_provider
      py_strip_def holds_def)

theorem remote_needs_a_credential_witness:
  "\<exists>p. require_cap demo_home (build_provider demo_auth) True ''control.mount'' demo_request = Inr p \<and>
    ''control.mount'' \<in> caps_for_role (Some (pr_role p))"
  using remote_needs_a_credential [OF demo_gate] demo_gate by (simp add: demo_request_def)

text \<open>A configuration that cannot be trusted denies everybody: with a method or a legacy provider the
  code does not know, or a session lifetime that is not positive, no request passes any gate, so a
  hand-edited file never falls back to the open default.\<close>

theorem malformed_config_denies_everyone:
  assumes "(\<exists>m \<in> set (ac_methods auth). m \<notin> {''local'', ''google''}) \<or>
    ac_provider auth \<notin> {[], ''none'', ''google''} \<or> ac_session_ttl_s auth \<le> 0"
  shows "require_cap h (build_provider auth) trust cap rq = Inl Unauthenticated"
proof -
  have "build_provider auth = Token_Provider []"
    unfolding build_provider_def by (rule if_P) (use assms in auto)
  then show ?thesis
    by (simp add: require_cap_def resolve_principal_def provider_resolve_def token_of_config_def
        token_resolve_def py_strip_def)
qed

theorem malformed_config_denies_everyone_witness:
  "require_cap demo_home (build_provider (demo_auth\<lparr>ac_methods := [''locla'']\<rparr>)) True ''view.status''
     demo_request = Inl Unauthenticated"
  by (rule malformed_config_denies_everyone) simp

text \<open>Who a session of claims \<open>cl\<close> is today, whatever it was at the sign-in: by the method that signed it in,
  an enabled account with a password, that the claims name by its id at its present session epoch; an
  enabled account that carries the claimed address, by its id and epoch too; an address without an account,
  which the allowlist of today, or the default role, gives the role; or the admin token of today, of which
  the claims hold the fingerprint.\<close>

definition entitled :: "home \<Rightarrow> auth_config \<Rightarrow> claims \<Rightarrow> principal \<Rightarrow> bool" where
  "entitled h auth cl p \<longleftrightarrow>
    (\<exists>s u. pr_authn p = Some ''local'' \<and> ''local'' \<in> set (ac_methods auth) \<and>
       claim cl ''sub'' = JStr s \<and> user_get h s = Some u \<and> u_enabled u \<and> u_password_hash u \<noteq> [] \<and>
       claim_int (claim cl ''account_epoch'') = Inr (Some (u_session_epoch u)) \<and> pr_role p = u_role u) \<or>
    (\<exists>c u. pr_authn p = Some ''google'' \<and> ''google'' \<in> set (ac_methods auth) \<and>
       claim cl ''email'' = JStr c \<and> user_by_email h (py_lower (py_strip c)) = Some u \<and> u_enabled u \<and>
       claim cl ''sub'' = JStr (u_id u) \<and>
       claim_int (claim cl ''account_epoch'') = Inr (Some (u_session_epoch u)) \<and> pr_role p = u_role u) \<or>
    (\<exists>c. pr_authn p = Some ''google'' \<and> ''google'' \<in> set (ac_methods auth) \<and>
       claim cl ''email'' = JStr c \<and> pr_email p = Some (py_lower (py_strip c)) \<and> claim cl ''sub'' = JNull \<and>
       user_by_email h (py_lower (py_strip c)) = None \<and>
       Some (pr_role p) = (case ac_role_allowlist auth (py_lower (py_strip c)) of Some r \<Rightarrow> Some r
         | None \<Rightarrow> ac_default_role auth)) \<or>
    (\<exists>tag. pr_authn p = Some ''admin_token'' \<and> pr_role p = ''admin'' \<and> py_strip (ac_admin_token auth) \<noteq> [] \<and>
       claim cl ''credential_tag'' = JStr tag \<and> fingerprint h (py_strip (ac_admin_token auth)) = Some tag)"

lemma local_identity_Some:
  "local_identity h ms cl = Inr (Some (role, email)) \<Longrightarrow> ''local'' \<in> ms \<and>
     (\<exists>s u. claim cl ''sub'' = JStr s \<and> user_get h s = Some u \<and> u_enabled u \<and> u_password_hash u \<noteq> [] \<and>
       claim_int (claim cl ''account_epoch'') = Inr (Some (u_session_epoch u)) \<and> role = Some (u_role u))"
  by (auto simp: local_identity_def split: if_splits jval.splits sum.splits option.splits)

lemma google_identity_Some:
  "google_identity h auth ms cl = Inr (Some (role, email)) \<Longrightarrow> ''google'' \<in> ms \<and>
     (\<exists>c. claim cl ''email'' = JStr c \<and>
      (case user_by_email h (py_lower (py_strip c)) of
         Some u \<Rightarrow> u_enabled u \<and> claim cl ''sub'' = JStr (u_id u) \<and>
           claim_int (claim cl ''account_epoch'') = Inr (Some (u_session_epoch u)) \<and> role = Some (u_role u)
       | None \<Rightarrow> email = Some (py_lower (py_strip c)) \<and> claim cl ''sub'' = JNull \<and>
           role = (case ac_role_allowlist auth (py_lower (py_strip c)) of Some r \<Rightarrow> Some r | None \<Rightarrow> ac_default_role auth)))"
  unfolding google_identity_def Let_def
  by (auto split: if_splits jval.splits sum.splits option.splits)

lemma token_identity_Some:
  "token_identity h auth cl = Inr (Some (role, email)) \<Longrightarrow>
     role = Some ''admin'' \<and> py_strip (ac_admin_token auth) \<noteq> [] \<and>
     (\<exists>tag. claim cl ''credential_tag'' = JStr tag \<and> fingerprint h (py_strip (ac_admin_token auth)) = Some tag)"
  by (auto simp: token_identity_def compare_digest_def Let_def split: if_splits jval.splits sum.splits option.splits)

lemma identity_entitled:
  assumes "identity_of h auth (set (methods_effective auth)) cl = Inr (Some (Some (pr_role p), pr_email p))"
    and "pr_authn p = (case claim cl ''authn'' of JStr s \<Rightarrow> Some s | _ \<Rightarrow> None)"
  shows "entitled h auth cl p"
proof -
  have m: "x \<in> set (methods_effective auth) \<Longrightarrow> x \<in> set (ac_methods auth)" for x
    by (auto simp: methods_effective_def split: if_splits)
  obtain w where w: "claim cl ''authn'' = JStr w" "w \<in> {''local'', ''google'', ''admin_token''}"
    using assms(1) by (auto simp: identity_of_def split: jval.splits if_splits)
  then have a: "pr_authn p = Some w" using assms(2) by simp
  from w(2) show ?thesis
  proof (elim insertE)
    assume x: "w = ''local''"
    then have "local_identity h (set (methods_effective auth)) cl = Inr (Some (Some (pr_role p), pr_email p))"
      using assms(1) w(1) by (simp add: identity_of_def)
    from local_identity_Some [OF this] m a x show ?thesis by (auto simp: entitled_def)
  next
    assume x: "w = ''google''"
    then have "google_identity h auth (set (methods_effective auth)) cl = Inr (Some (Some (pr_role p), pr_email p))"
      using assms(1) w(1) by (simp add: identity_of_def)
    from google_identity_Some [OF this] m a x show ?thesis by (auto simp: entitled_def split: option.splits)
  next
    assume x: "w = ''admin_token''"
    then have "token_identity h auth cl = Inr (Some (Some (pr_role p), pr_email p))"
      using assms(1) w(1) by (simp add: identity_of_def)
    from token_identity_Some [OF this] a x show ?thesis by (simp add: entitled_def)
  qed simp
qed

text \<open>C16. A session proves who signed in, never what they may do: a session that resolves is not
  revoked, is not older than the live session epoch, and takes its role from what its signed claims name
  today: an enabled account at its present session epoch, the claimed address on the allowlist (or the
  default role), or the admin token in the configuration, whose fingerprint the claims carry. So a revoked
  session, a disabled, deleted or re-keyed account, a changed token or allowlist, or a login method turned
  off loses its rights at the next request.\<close>

theorem session_reads_the_live_state:
  assumes "session_resolve h denied min_epoch rq = Inr (Some p)"
  shows "\<exists>raw cl auth. present_session rq = Some raw \<and> verify_session h raw = Some cl \<and>
    live_config h = Some auth \<and> (\<forall>j. claim cl ''jti'' = JStr j \<longrightarrow> j \<notin> denied \<union> set (ac_revoked_jti auth)) \<and>
    (\<exists>n. claim_int (dget cl ''epoch'' (JInt 0)) = Inr (Some n) \<and> max min_epoch (ac_session_epoch auth) \<le> n) \<and>
    pr_caps p = caps_for_role (Some (pr_role p)) \<and> entitled h auth cl p"
proof -
  from session_resolve_Some [OF assms] obtain raw cl auth where
    s: "present_session rq = Some raw" "verify_session h raw = Some cl" "live_config h = Some auth"
    "\<forall>j. claim cl ''jti'' = JStr j \<longrightarrow> j \<notin> denied \<union> set (ac_revoked_jti auth)"
    and e: "\<exists>n. claim_int (dget cl ''epoch'' (JInt 0)) = Inr (Some n) \<and> min_epoch \<le> n \<and> ac_session_epoch auth \<le> n"
    and i: "identity_of h auth (set (methods_effective auth)) cl = Inr (Some (Some (pr_role p), pr_email p))"
    and c: "pr_caps p = caps_for_role (Some (pr_role p))"
    and a: "pr_authn p = (case claim cl ''authn'' of JStr s \<Rightarrow> Some s | _ \<Rightarrow> None)"
    unfolding session_genuine_def by blast
  from e have "\<exists>n. claim_int (dget cl ''epoch'' (JInt 0)) = Inr (Some n) \<and> max min_epoch (ac_session_epoch auth) \<le> n"
    by simp
  then show ?thesis
    using s c identity_entitled [OF i a] by (intro exI [of _ raw] exI [of _ cl] exI [of _ auth] conjI)
qed

theorem session_reads_the_live_state_witness:
  "\<exists>p. session_resolve demo_home {} 2 demo_request = Inr (Some p) \<and>
    pr_caps p = caps_for_role (Some (pr_role p))"
  using session_reads_the_live_state [OF demo_session] demo_session by auto

text \<open>The comparison of two tokens raises on a character outside ASCII, instead of denying.\<close>

lemma non_ascii_token_raises:
  assumes "t \<noteq> []" and "present_token rq = Some s" and "s \<noteq> []" and "\<not> is_ascii s"
  shows "token_resolve t rq = Inl TypeError"
  using assms by (simp add: token_resolve_def compare_digest_def nonempty_def)

text \<open>The step-up gate: over the relay, a change to the accounts passes only for a session of a
  login made at most five minutes ago (and not more than a minute in the future of the home's clock) by
  password or Google; on the LAN the gate is open.\<close>

theorem step_up_is_recent:
  "require_recent_signin now rq p = Inr () \<longleftrightarrow> \<not> remote rq \<or>
    (\<exists>a i. pr_authn p = Some a \<and> a \<in> {''local'', ''google''} \<and> pr_iat p = Some i \<and>
       -60 \<le> now - of_int i \<and> now - of_int i \<le> 300)"
  by (auto simp: require_recent_signin_def Let_def STEP_UP_MAX_AGE_S_def STEP_UP_CLOCK_SKEW_S_def
      not_less split: option.splits)

theorem step_up_is_recent_witness:
  "require_recent_signin 1200 demo_request (admin_principal\<lparr>pr_authn := Some ''google'', pr_iat := Some 1000\<rparr>) = Inr () \<and>
   require_recent_signin 1301 demo_request (admin_principal\<lparr>pr_authn := Some ''google'', pr_iat := Some 1000\<rparr>) \<noteq> Inr () \<and>
   require_recent_signin 1000 demo_request admin_principal \<noteq> Inr ()"
  unfolding step_up_is_recent by (simp add: demo_request_def admin_principal_def)

end
