(* ===== verification/Session_Tokens.thy ===== *)
theory Session_Tokens
  imports Auth_Providers
begin

text \<open>
  Session tokens (\<open>server/astrodeck/auth/session.py\<close>): minting and verifying the signed envelope that a
  session cookie carries, under HS256 or EdDSA, with the choice of the key and the interlock against the
  public development secret.

  Bytes are characters. The base64url coding is modelled as Python's library does it, lenient decoding
  included. Parameters, in the record \<open>crypto\<close>, are the MAC, the Ed25519 functions and JSON: \<open>dumps\<close> of an
  object, \<open>loads\<close> of bytes, which gives an object, another value, or raises. The live
  state a call reads (the secret in force, the interlock, the signing configuration) is the record \<open>keys\<close>.
  The strict mode, which raises where the default answers None, is left out, and so are the writing of a
  new secret to the disk and the fingerprint of the admin token.
\<close>

section \<open>base64url\<close>

definition b64_char :: "nat \<Rightarrow> char" where
  "b64_char n = char_of (if n < 26 then 65 + n else if n < 52 then 71 + n else if n < 62 then n - 4
     else if n = 62 then 45 else 95 :: nat)"

text \<open>\<open>urlsafe_b64encode(raw).rstrip(b"=")\<close>.\<close>

fun b64u_encode :: "string \<Rightarrow> string" where
  "b64u_encode (x # y # z # cs) = (let a = of_char x :: nat; b = of_char y; c = of_char z in
     [b64_char (a div 4), b64_char (a mod 4 * 16 + b div 16), b64_char (b mod 16 * 4 + c div 64), b64_char (c mod 64)]
       @ b64u_encode cs)"
| "b64u_encode [x, y] = (let a = of_char x :: nat; b = of_char y in
     [b64_char (a div 4), b64_char (a mod 4 * 16 + b div 16), b64_char (b mod 16 * 4)])"
| "b64u_encode [x] = (let a = of_char x :: nat in [b64_char (a div 4), b64_char (a mod 4 * 16)])"
| "b64u_encode [] = []"

text \<open>The value of a character; the URL-safe pair is translated first, and the standard pair still counts.\<close>

definition b64_value :: "char \<Rightarrow> nat option" where
  "b64_value c = (let n = of_char c :: nat in
     if 65 \<le> n \<and> n \<le> 90 then Some (n - 65) else if 97 \<le> n \<and> n \<le> 122 then Some (n - 71)
     else if 48 \<le> n \<and> n \<le> 57 then Some (n + 4) else if n = 43 \<or> n = 45 then Some 62
     else if n = 47 \<or> n = 95 then Some 63 else None)"

text \<open>\<open>binascii.a2b_base64\<close>, which skips what is not of the alphabet and stops at a completed padding: the
  position in the group of four, the bits left over and the padding seen.\<close>

fun a2b :: "nat \<Rightarrow> nat \<Rightarrow> nat \<Rightarrow> string \<Rightarrow> string option" where
  "a2b quad left pads [] = (if quad = 0 then Some [] else None)"
| "a2b quad left pads (c # cs) = (
     if c = CHR ''='' then
       (if 2 \<le> quad \<and> 4 \<le> quad + (pads + 1) then Some []
        else a2b quad left (if 2 \<le> quad then pads + 1 else pads) cs)
     else (case b64_value c of
       None \<Rightarrow> a2b quad left pads cs
     | Some v \<Rightarrow>
         if quad = 0 then a2b 1 v 0 cs
         else if quad = 1 then map_option (Cons (char_of (left * 4 + v div 16))) (a2b 2 (v mod 16) 0 cs)
         else if quad = 2 then map_option (Cons (char_of (left * 16 + v div 4))) (a2b 3 (v mod 4) 0 cs)
         else map_option (Cons (char_of (left * 64 + v))) (a2b 0 0 0 cs)))"

definition b64u_decode :: "string \<Rightarrow> string option" where
  "b64u_decode seg = (if \<not> is_ascii seg then None
     else a2b 0 0 0 (seg @ replicate ((4 - length seg mod 4) mod 4) (CHR ''='')))"

section \<open>Keys\<close>

datatype document = Object claims | Not_Object | Malformed | Too_Deep

text \<open>The primitives: the MAC of a secret and a message; the Ed25519 signature of a message under a seed
  (None for a bad seed) and whether raw bytes are one under a public key (no, for a bad key); JSON; and
  \<open>float(s)\<close>.\<close>

record crypto =
  mac :: "string \<Rightarrow> string \<Rightarrow> string"
  ed_sign :: "string \<Rightarrow> string \<Rightarrow> string option"
  ed_check :: "string \<Rightarrow> string \<Rightarrow> string \<Rightarrow> bool"
  dumps :: "claims \<Rightarrow> string"
  loads :: "string \<Rightarrow> document"
  float_of :: "string \<Rightarrow> pyfloat option"

text \<open>The environment variable (stripped), the persisted secret, the interlock, the configuration's algorithm
  with its two keys and its session epoch. The persisted secret is None where the file is not there, and an
  exception where it cannot be read safely.\<close>

record keys =
  k_env :: string
  k_file :: "string option res"
  k_armed :: bool
  k_alg :: string
  k_private :: string
  k_public :: string
  k_epoch :: int

definition DEV_DEFAULT_SECRET :: string where "DEV_DEFAULT_SECRET = ''astrodeck-dev-insecure-secret-change-me''"
definition MIN_SESSION_SECRET_BYTES :: nat where "MIN_SESSION_SECRET_BYTES = 32"

definition validate_real_secret :: "string \<Rightarrow> string res" where
  "validate_real_secret raw = (if raw = DEV_DEFAULT_SECRET \<or> length raw < MIN_SESSION_SECRET_BYTES
     then Inl RuntimeError else Inr raw)"

definition session_secret :: "keys \<Rightarrow> string res" where
  "session_secret k = (if k_env k \<noteq> [] then validate_real_secret (k_env k)
     else (case k_file k of
       Inl e \<Rightarrow> Inl e | Inr None \<Rightarrow> Inr DEV_DEFAULT_SECRET | Inr (Some s) \<Rightarrow> validate_real_secret s))"

definition secret_is_default :: "keys \<Rightarrow> bool res" where
  "secret_is_default k =
     (if k_env k \<noteq> [] then (case validate_real_secret (k_env k) of Inl e \<Rightarrow> Inl e | Inr _ \<Rightarrow> Inr False)
      else (case k_file k of
        Inl e \<Rightarrow> Inl e
      | Inr None \<Rightarrow> Inr True
      | Inr (Some s) \<Rightarrow> (case validate_real_secret s of Inl e \<Rightarrow> Inl e | Inr _ \<Rightarrow> Inr False)))"

section \<open>Minting\<close>

definition HS256 :: string where "HS256 = ''HS256''"
definition EDDSA :: string where "EDDSA = ''EdDSA''"

definition header_of :: "string \<Rightarrow> claims" where
  "header_of alg = [''alg'' \<mapsto> JStr alg, ''typ'' \<mapsto> JStr ''ADSESS'']"

text \<open>The algorithm, and for EdDSA the private seed (\<open>_resolve_sign_alg\<close>).\<close>

definition resolve_sign_alg :: "keys \<Rightarrow> string option \<Rightarrow> string option \<Rightarrow> string option \<Rightarrow> string option res" where
  "resolve_sign_alg k alg private_key secret = (
     let alg = (if alg = None \<and> private_key \<noteq> None then Some EDDSA else alg) in
     case alg of
       None \<Rightarrow> (if secret \<noteq> None then Inr None
         else if k_alg k = EDDSA \<and> k_private k \<noteq> [] then Inr (Some (k_private k)) else Inr None)
     | Some a \<Rightarrow>
         if a = EDDSA then
           (let seed = (case private_key of Some s \<Rightarrow> if s = [] then k_private k else s | None \<Rightarrow> k_private k) in
            if seed = [] then Inl RuntimeError else Inr (Some seed))
         else Inr None)"

text \<open>The asymmetric signature of \<open>auth/eddsa.py\<close>: base64url of the raw one, and decoded before the check.\<close>

definition eddsa_sign :: "crypto \<Rightarrow> string \<Rightarrow> string \<Rightarrow> string res" where
  "eddsa_sign c m seed = (case ed_sign c m seed of None \<Rightarrow> Inl RuntimeError | Some raw \<Rightarrow> Inr (b64u_encode raw))"

definition eddsa_verify :: "crypto \<Rightarrow> string \<Rightarrow> string \<Rightarrow> string \<Rightarrow> bool" where
  "eddsa_verify c m sig pub = (case b64u_decode (py_strip sig) of None \<Rightarrow> False | Some raw \<Rightarrow> ed_check c m raw pub)"

record grant =
  g_role :: string
  g_email :: "string option"
  g_jti :: "string option"
  g_ttl :: "int option"
  g_epoch :: "int option"
  g_authn :: "string option"
  g_subject :: "string option"
  g_account_epoch :: "int option"
  g_credential_tag :: "string option"

definition put_opt :: "string \<Rightarrow> ('a \<Rightarrow> jval) \<Rightarrow> 'a option \<Rightarrow> claims \<Rightarrow> claims" where
  "put_opt key f v cl = (case v of None \<Rightarrow> cl | Some x \<Rightarrow> cl(key \<mapsto> f x))"

definition payload_of :: "keys \<Rightarrow> grant \<Rightarrow> rat \<Rightarrow> claims" where
  "payload_of k g now = (
     let cl = [''role'' \<mapsto> JStr (g_role g)];
         cl = put_opt ''email'' JStr (g_email g) cl;
         cl = put_opt ''jti'' JStr (g_jti g) cl;
         cl = put_opt ''authn'' JStr (g_authn g) cl;
         cl = put_opt ''sub'' JStr (g_subject g) cl;
         cl = put_opt ''account_epoch'' JInt (g_account_epoch g) cl;
         cl = put_opt ''credential_tag'' JStr (g_credential_tag g) cl;
         cl = cl(''epoch'' \<mapsto> JInt (case g_epoch g of None \<Rightarrow> k_epoch k | Some e \<Rightarrow> e));
         cl = cl(''iat'' \<mapsto> JInt (trunc now)) in
     put_opt ''exp'' (\<lambda>ttl. JInt (trunc now + ttl)) (g_ttl g) cl)"

definition signing_input :: "crypto \<Rightarrow> string \<Rightarrow> claims \<Rightarrow> string" where
  "signing_input c alg cl = b64u_encode (dumps c (header_of alg)) @ ''.'' @ b64u_encode (dumps c cl)"

definition hmac_signature :: "crypto \<Rightarrow> string \<Rightarrow> string \<Rightarrow> string" where
  "hmac_signature c secret msg = b64u_encode (mac c secret msg)"

definition sign_session :: "crypto \<Rightarrow> keys \<Rightarrow> grant \<Rightarrow> string option \<Rightarrow> rat \<Rightarrow> string option \<Rightarrow> string option \<Rightarrow> string res" where
  "sign_session c k g secret now alg private_key =
     (case resolve_sign_alg k alg private_key secret of
        Inl e \<Rightarrow> Inl e
      | Inr (Some seed) \<Rightarrow> (let m = signing_input c EDDSA (payload_of k g now) in case eddsa_sign c m seed of Inl e \<Rightarrow> Inl e | Inr sig \<Rightarrow> Inr (m @ ''.'' @ sig))
      | Inr None \<Rightarrow>
          (case (case secret of
                   Some s \<Rightarrow> Inr s
                 | None \<Rightarrow> (case (if k_armed k then secret_is_default k else Inr False) of
                     Inl e \<Rightarrow> Inl e | Inr True \<Rightarrow> Inl RuntimeError | Inr False \<Rightarrow> session_secret k)) of
             Inl e \<Rightarrow> Inl e
           | Inr s \<Rightarrow> (let m = signing_input c HS256 (payload_of k g now) in Inr (m @ ''.'' @ hmac_signature c s m))))"

section \<open>Verifying\<close>

datatype verifier = Hmac string | Ed string

text \<open>The algorithms this call accepts, each bound to its key; None is the interlock's refusal.\<close>

definition verifiers :: "keys \<Rightarrow> string option \<Rightarrow> string option \<Rightarrow> string option \<Rightarrow> (string \<rightharpoonup> verifier) option res" where
  "verifiers k secret public_key accept_alg = (
     let narrow = (\<lambda>v. case accept_alg of None \<Rightarrow> v | Some a \<Rightarrow> v |` {a}) in
     case public_key of
       Some pk \<Rightarrow> Inr (Some (narrow [EDDSA \<mapsto> Ed pk]))
     | None \<Rightarrow> (case secret of
         Some s \<Rightarrow> Inr (Some (narrow [HS256 \<mapsto> Hmac s]))
       | None \<Rightarrow> (case (if k_armed k then secret_is_default k else Inr False) of
           Inl e \<Rightarrow> Inl e
         | Inr True \<Rightarrow> Inr None
         | Inr False \<Rightarrow> (case session_secret k of
             Inl e \<Rightarrow> Inl e
           | Inr s \<Rightarrow> Inr (Some (narrow (if k_alg k = EDDSA \<and> k_public k \<noteq> []
               then [HS256 \<mapsto> Hmac s, EDDSA \<mapsto> Ed (k_public k)] else [HS256 \<mapsto> Hmac s])))))))"

text \<open>\<open>json.loads(_b64u_decode(seg))\<close>: an object or another value, None for an error the code catches. A
  document nested too deep raises \<open>RecursionError\<close>, which it does not.\<close>

definition read_segment :: "crypto \<Rightarrow> string \<Rightarrow> claims option res" where
  "read_segment c seg = (case b64u_decode seg of
     None \<Rightarrow> Inr None
   | Some raw \<Rightarrow> (case loads c raw of
       Object cl \<Rightarrow> Inr (Some cl) | Not_Object \<Rightarrow> Inr None | Malformed \<Rightarrow> Inr None | Too_Deep \<Rightarrow> Inl RuntimeError))"

text \<open>Does the signature hold? A segment outside ASCII cannot be encoded or compared, and raises.\<close>

definition signature_holds :: "crypto \<Rightarrow> verifier \<Rightarrow> string \<Rightarrow> string \<Rightarrow> string \<Rightarrow> bool res" where
  "signature_holds c v header_b64 payload_b64 sig_b64 = (
     let m = header_b64 @ ''.'' @ payload_b64 in
     if \<not> is_ascii m then Inl ValueError
     else (case v of
       Hmac s \<Rightarrow> compare_digest sig_b64 (hmac_signature c s m)
     | Ed pk \<Rightarrow> Inr (eddsa_verify c m sig_b64 pk)))"

text \<open>\<open>float(exp) < float(now)\<close>, None where the code catches the conversion's exception; an integer that no float
  holds raises \<open>OverflowError\<close>, which it does not.\<close>

definition FLOAT_MAX :: int where "FLOAT_MAX = 2 ^ 1024"

definition exp_passed :: "crypto \<Rightarrow> jval \<Rightarrow> rat \<Rightarrow> bool option res" where
  "exp_passed c e now = (case e of
     JInt n \<Rightarrow> if FLOAT_MAX \<le> \<bar>n\<bar> then Inl OverflowError else Inr (Some (of_int n < now))
   | JBool b \<Rightarrow> Inr (Some ((if b then 1 else 0) < now))
   | JFloat x \<Rightarrow> Inr (Some (flt_less x (Fin now)))
   | JStr s \<Rightarrow> Inr (map_option (\<lambda>x. flt_less x (Fin now)) (float_of c s))
   | _ \<Rightarrow> Inr None)"

definition check_exp :: "crypto \<Rightarrow> claims \<Rightarrow> rat \<Rightarrow> claims option res" where
  "check_exp c cl now = (if claim cl ''exp'' = JNull then Inr (Some cl)
     else case exp_passed c (claim cl ''exp'') now of
       Inl e \<Rightarrow> Inl e | Inr (Some False) \<Rightarrow> Inr (Some cl) | Inr _ \<Rightarrow> Inr None)"

text \<open>The payload, trusted only after its signature; then the segments, the header's algorithm first.\<close>

definition verified_claims :: "crypto \<Rightarrow> verifier \<Rightarrow> rat \<Rightarrow> string \<Rightarrow> string \<Rightarrow> string \<Rightarrow> claims option res" where
  "verified_claims c v now header_b64 payload_b64 sig_b64 =
     (case signature_holds c v header_b64 payload_b64 sig_b64 of
        Inl e \<Rightarrow> Inl e
      | Inr False \<Rightarrow> Inr None
      | Inr True \<Rightarrow> (case read_segment c payload_b64 of
          Inl e \<Rightarrow> Inl e | Inr None \<Rightarrow> Inr None | Inr (Some cl) \<Rightarrow> check_exp c cl now))"

definition token_claims :: "crypto \<Rightarrow> (string \<rightharpoonup> verifier) \<Rightarrow> rat \<Rightarrow> string \<Rightarrow> string \<Rightarrow> string \<Rightarrow> claims option res" where
  "token_claims c vs now header_b64 payload_b64 sig_b64 =
     (case read_segment c header_b64 of
        Inl e \<Rightarrow> Inl e
      | Inr None \<Rightarrow> Inr None
      | Inr (Some header) \<Rightarrow> (case claim header ''alg'' of
          JStr alg \<Rightarrow> (case vs alg of
            None \<Rightarrow> Inr None | Some v \<Rightarrow> verified_claims c v now header_b64 payload_b64 sig_b64)
        | _ \<Rightarrow> Inr None))"

definition decode_session :: "crypto \<Rightarrow> keys \<Rightarrow> string option \<Rightarrow> rat \<Rightarrow> string option \<Rightarrow> string option \<Rightarrow> string \<Rightarrow> claims option res" where
  "decode_session c k secret now public_key accept_alg token =
     (case verifiers k secret public_key accept_alg of
        Inl e \<Rightarrow> Inl e
      | Inr None \<Rightarrow> Inr None
      | Inr (Some vs) \<Rightarrow> (case split_on (CHR ''.'') token of
          [header_b64, payload_b64, sig_b64] \<Rightarrow> token_claims c vs now header_b64 payload_b64 sig_b64
        | _ \<Rightarrow> Inr None))"

section \<open>The coding round trips\<close>

lemma of_char_less [simp]: "(of_char c :: nat) < 256"
  using nat_of_char_less_256 [of c] by simp

lemma b64_char_code: "n < 64 \<Longrightarrow> (of_char (b64_char n) :: nat) =
    (if n < 26 then 65 + n else if n < 52 then 71 + n else if n < 62 then n - 4 else if n = 62 then 45 else 95)"
  by (simp add: b64_char_def)

lemma b64_value_char [simp]: "n < 64 \<Longrightarrow> b64_value (b64_char n) = Some n"
  by (auto simp: b64_value_def b64_char_code Let_def)

lemma b64_char_other [simp]:
  assumes "n < 64"
  shows "b64_char n \<noteq> CHR ''=''" "b64_char n \<noteq> CHR ''.''" "CHR ''.'' \<noteq> b64_char n" "(of_char (b64_char n) :: nat) < 128"
proof -
  have "(of_char (b64_char n) :: nat) \<noteq> 61" "(of_char (b64_char n) :: nat) \<noteq> 46"
    using assms by (auto simp: b64_char_code)
  then show "b64_char n \<noteq> CHR ''=''" and dot: "b64_char n \<noteq> CHR ''.''"
    by auto
  show "CHR ''.'' \<noteq> b64_char n"
    using dot by metis
qed (use assms in \<open>auto simp: b64_char_code\<close>)

lemma high_bits [simp]:
  "(of_char c :: nat) div 16 div 16 = 0" "(of_char c :: nat) div 64 div 4 = 0"
  "(of_char c :: nat) div 16 mod 16 = of_char c div 16" "(of_char c :: nat) div 64 mod 4 = of_char c div 64"
proof -
  have small: "(of_char c :: nat) div 16 < 16" "(of_char c :: nat) div 64 < 4"
    using of_char_less [of c] by (simp_all only: less_mult_imp_div_less numeral_times_numeral semiring_norm)
  then show "(of_char c :: nat) div 16 div 16 = 0" "(of_char c :: nat) div 64 div 4 = 0"
      "(of_char c :: nat) div 16 mod 16 = of_char c div 16" "(of_char c :: nat) div 64 mod 4 = of_char c div 64"
    by (simp_all only: div_less mod_less)
qed


lemma six_bits:
  fixes x y :: nat
  shows "x < 4 \<Longrightarrow> y < 16 \<Longrightarrow> x * 16 + y < 64" "x < 16 \<Longrightarrow> y < 4 \<Longrightarrow> x * 4 + y < 64" "x < 4 \<Longrightarrow> x * 16 < 64"
    "x < 16 \<Longrightarrow> x * 4 < 64"
  by simp_all

lemma sixes [simp]:
  fixes a b :: nat
  shows "a < 256 \<Longrightarrow> a div 4 < 64" "b < 256 \<Longrightarrow> a mod 4 * 16 + b div 16 < 64"
    "b < 256 \<Longrightarrow> a mod 16 * 4 + b div 64 < 64" "a mod 64 < 64" "a mod 4 * 16 < 64" "a mod 16 * 4 < 64"
proof -
  have "a mod 4 < 4" "a mod 16 < 16" "b < 256 \<Longrightarrow> b div 16 < 16" "b < 256 \<Longrightarrow> b div 64 < 4"
    by (simp_all add: less_mult_imp_div_less)
  then show "b < 256 \<Longrightarrow> a mod 4 * 16 + b div 16 < 64" "b < 256 \<Longrightarrow> a mod 16 * 4 + b div 64 < 64"
      "a mod 4 * 16 < 64" "a mod 16 * 4 < 64"
    by (blast intro: six_bits)+
  show "a < 256 \<Longrightarrow> a div 4 < 64" "a mod 64 < 64"
    by (simp_all add: less_mult_imp_div_less)
qed

lemma a2b_digit:
  "n < 64 \<Longrightarrow> a2b quad left pads (b64_char n # cs) =
     (if quad = 0 then a2b 1 n 0 cs
      else if quad = 1 then map_option (Cons (char_of (left * 4 + n div 16))) (a2b 2 (n mod 16) 0 cs)
      else if quad = 2 then map_option (Cons (char_of (left * 16 + n div 4))) (a2b 3 (n mod 4) 0 cs)
      else map_option (Cons (char_of (left * 64 + n))) (a2b 0 0 0 cs))"
  by simp

lemma regroup:
  fixes a b c :: nat
  assumes "b < 256" "c < 256"
  shows "a div 4 * 4 + (a mod 4 * 16 + b div 16) div 16 = a"
    "(a mod 4 * 16 + b div 16) mod 16 * 16 + (b mod 16 * 4 + c div 64) div 4 = b"
    "(b mod 16 * 4 + c div 64) mod 4 * 64 + c mod 64 = c"
    "a div 4 * 4 + a mod 4 * 16 div 16 = a" "(a mod 4 * 16 + b div 16) mod 16 * 16 + b mod 16 * 4 div 4 = b"
proof -
  have small: "b div 16 < 16" "c div 64 < 4"
    using assms by (simp_all add: less_mult_imp_div_less)
  then have parts: "(a mod 4 * 16 + b div 16) div 16 = a mod 4" "(a mod 4 * 16 + b div 16) mod 16 = b div 16"
      "(b mod 16 * 4 + c div 64) div 4 = b mod 16" "(b mod 16 * 4 + c div 64) mod 4 = c div 64"
    by (simp_all add: div_less mod_less)
  show "a div 4 * 4 + (a mod 4 * 16 + b div 16) div 16 = a"
    "(a mod 4 * 16 + b div 16) mod 16 * 16 + (b mod 16 * 4 + c div 64) div 4 = b"
    "(b mod 16 * 4 + c div 64) mod 4 * 64 + c mod 64 = c"
    "a div 4 * 4 + a mod 4 * 16 div 16 = a" "(a mod 4 * 16 + b div 16) mod 16 * 16 + b mod 16 * 4 div 4 = b"
    unfolding parts by simp_all
qed

lemma b64_round:
  "a2b 0 left pads (b64u_encode raw @ replicate ((4 - length (b64u_encode raw) mod 4) mod 4) (CHR ''='')) = Some raw"
proof (induction raw arbitrary: left pads rule: b64u_encode.induct)
  case (1 x y z cs)
  have "length (b64u_encode (x # y # z # cs)) mod 4 = length (b64u_encode cs) mod 4"
    by (simp add: Let_def)
  then show ?case
    using 1 [OF refl refl refl, of 0 0]
    by (simp add: Let_def a2b_digit regroup del: a2b.simps)
next
  case (2 x y)
  then show ?case
    by (simp add: Let_def a2b_digit regroup)
next
  case (3 x)
  then show ?case
    using regroup(4) [of 0 0 "of_char x"] by (simp add: Let_def a2b_digit numeral_2_eq_2)
qed simp

lemma b64_ascii: "is_ascii (b64u_encode raw)"
  by (induction raw rule: b64u_encode.induct) (auto simp: is_ascii_def Let_def)

lemma b64_no_dot: "CHR ''.'' \<notin> set (b64u_encode raw)"
  by (induction raw rule: b64u_encode.induct) (auto simp: Let_def)


lemma b64u_round_trip [simp]: "b64u_decode (b64u_encode raw) = Some raw"
  by (simp add: b64u_decode_def b64_ascii b64_round)

section \<open>What a token is worth\<close>

lemma split_on_plain: "x \<notin> set w \<Longrightarrow> split_on x w = [w]"
  by (induction w) auto

lemma split_on_joined: "x \<notin> set w \<Longrightarrow> split_on x (w @ x # s) = w # split_on x s"
  by (induction w) auto

text \<open>A token of three segments without dots, as it is minted.\<close>

lemma split_token:
  assumes "CHR ''.'' \<notin> set sig"
  shows "split_on (CHR ''.'') (signing_input c alg cl @ ''.'' @ sig)
    = [b64u_encode (dumps c (header_of alg)), b64u_encode (dumps c cl), sig]"
  using assms b64_no_dot by (simp add: signing_input_def split_on_joined split_on_plain)

lemma read_minted: "loads c (dumps c cl) = Object cl \<Longrightarrow> read_segment c (b64u_encode (dumps c cl)) = Inr (Some cl)"
  by (simp add: read_segment_def)

lemma signing_input_ascii: "is_ascii (signing_input c alg cl)"
  using b64_ascii by (auto simp: signing_input_def is_ascii_def)

text \<open>A token signed with a key the verifier binds to its algorithm decodes to its claims.\<close>

lemma decode_minted:
  assumes json: "loads c (dumps c (header_of alg)) = Object (header_of alg)" "loads c (dumps c cl) = Object cl"
    and vs: "verifiers k secret public_key None = Inr (Some vs)" "vs alg = Some v"
    and sig: "signature_holds c v (b64u_encode (dumps c (header_of alg))) (b64u_encode (dumps c cl)) sig = Inr True"
      "CHR ''.'' \<notin> set sig"
    and alive: "check_exp c cl now = Inr (Some cl)"
  shows "decode_session c k secret now public_key None (signing_input c alg cl @ ''.'' @ sig) = Inr (Some cl)"
  using split_token [OF sig(2), of c alg cl] read_minted [OF json(1)] read_minted [OF json(2)] vs sig(1) alive
  by (simp add: decode_session_def token_claims_def verified_claims_def claim_def header_of_def)

lemma decode_signed:
  assumes json: "loads c (dumps c (header_of HS256)) = Object (header_of HS256)" "loads c (dumps c cl) = Object cl"
    and vs: "verifiers k secret public_key None = Inr (Some vs)" "vs HS256 = Some (Hmac s)"
    and alive: "check_exp c cl now = Inr (Some cl)"
  shows "decode_session c k secret now public_key None
    (signing_input c HS256 cl @ ''.'' @ hmac_signature c s (signing_input c HS256 cl)) = Inr (Some cl)"
proof (rule decode_minted [OF json vs _ _ alive])
  show "signature_holds c (Hmac s) (b64u_encode (dumps c (header_of HS256))) (b64u_encode (dumps c cl))
      (hmac_signature c s (signing_input c HS256 cl)) = Inr True"
    using signing_input_ascii [of c HS256 cl]
    by (simp add: signature_holds_def hmac_signature_def compare_digest_def b64_ascii signing_input_def Let_def)
qed (simp add: hmac_signature_def b64_no_dot)

lemma alive_payload:
  assumes "case g_ttl g of None \<Rightarrow> True | Some t \<Rightarrow> now' \<le> of_int (trunc now + t) \<and> \<bar>trunc now + t\<bar> < FLOAT_MAX"
  shows "check_exp c (payload_of k g now) now' = Inr (Some (payload_of k g now))"
proof -
  have "claim (payload_of k g now) ''exp'' = (case g_ttl g of None \<Rightarrow> JNull | Some t \<Rightarrow> JInt (trunc now + t))"
    by (simp add: payload_of_def put_opt_def claim_def dget_def Let_def split: option.split)
  with assms show ?thesis
    by (auto simp: check_exp_def exp_passed_def split: option.splits)
qed


text \<open>Verification under a public key uses that key and nothing else: not the secret, its source or the MAC; and
  verification under a secret uses no signature scheme but the MAC. So no key is ever read as the other
  algorithm's, and a token of the other algorithm is refused whoever signed it.\<close>

lemma decode_cong:
  assumes "verifiers k s pk a = verifiers k' s' pk' a'" "loads c = loads c'" "float_of c = float_of c'"
    and "\<And>vs alg v m p sig. verifiers k s pk a = Inr (Some vs) \<Longrightarrow> vs alg = Some v \<Longrightarrow>
      signature_holds c v m p sig = signature_holds c' v m p sig"
  shows "decode_session c k s now pk a token = decode_session c' k' s' now pk' a' token"
proof -
  have read: "read_segment c = read_segment c'"
    unfolding read_segment_def [abs_def] assms(2) ..
  have float: "exp_passed c = exp_passed c'"
    unfolding exp_passed_def [abs_def] assms(3) ..
  have check: "check_exp c = check_exp c'"
    unfolding check_exp_def [abs_def] float ..
  have body: "verified_claims c v now h p sig = verified_claims c' v now h p sig"
    if "verifiers k s pk a = Inr (Some vs)" "vs alg = Some v" for vs alg v h p sig
    unfolding verified_claims_def read check assms(4) [OF that] ..
  have claims: "token_claims c vs now h p sig = token_claims c' vs now h p sig"
    if "verifiers k s pk a = Inr (Some vs)" for vs h p sig
    using body [OF that] by (auto simp: token_claims_def read split: sum.split option.split jval.split)
  show ?thesis
  proof (cases "\<exists>vs. verifiers k s pk a = Inr (Some vs)")
    case True
    then show ?thesis
      using claims by (auto simp: decode_session_def assms(1) [symmetric] split: list.split)
  qed (auto simp: decode_session_def assms(1) [symmetric] split: sum.split option.split)
qed

text \<open>A relay that verifies with a public key never consults a secret: its answer does not depend on the
  MAC, on the keys of the home or on any secret. And a call that verifies with a secret never consults a
  public key. So no algorithm's key is read as the other's.\<close>

theorem no_algorithm_confusion:
  "decode_session c k s now (Some pk) a token = decode_session (c\<lparr>mac := m\<rparr>) k' s' now (Some pk) a token
   \<and> decode_session c k (Some secret) now None a token
     = decode_session (c\<lparr>ed_check := e, ed_sign := es\<rparr>) k' (Some secret) now None a token"
proof
  have ed: "v = Ed pk" if "verifiers k s (Some pk) a = Inr (Some vs)" "vs alg = Some v" for vs alg v
    using that by (auto simp: verifiers_def Let_def restrict_map_def split: option.splits if_splits)
  show "decode_session c k s now (Some pk) a token = decode_session (c\<lparr>mac := m\<rparr>) k' s' now (Some pk) a token"
    by (rule decode_cong) (auto simp: verifiers_def signature_holds_def eddsa_verify_def Let_def dest!: ed [rotated] split: option.split)
  have hm: "v = Hmac secret" if "verifiers k (Some secret) None a = Inr (Some vs)" "vs alg = Some v" for vs alg v
    using that by (auto simp: verifiers_def Let_def restrict_map_def split: option.splits if_splits)
  show "decode_session c k (Some secret) now None a token
     = decode_session (c\<lparr>ed_check := e, ed_sign := es\<rparr>) k' (Some secret) now None a token"
    by (rule decode_cong) (auto simp: verifiers_def signature_holds_def hmac_signature_def Let_def dest!: hm [rotated])
qed

section \<open>Who a session cookie can be\<close>

text \<open>A grant as it was signed: the keys, the grant, the moment and the algorithm.\<close>

type_synonym issue = "keys \<times> grant \<times> rat \<times> string"

definition issued_input :: "crypto \<Rightarrow> issue \<Rightarrow> string" where
  "issued_input c i = (case i of (k, g, t, alg) \<Rightarrow> signing_input c alg (payload_of k g t))"

definition issued_claims :: "issue \<Rightarrow> claims" where
  "issued_claims i = (case i of (k, g, t, alg) \<Rightarrow> payload_of k g t)"

lemma signing_input_payload:
  assumes "h @ ''.'' @ p = issued_input c i" "CHR ''.'' \<notin> set h" "CHR ''.'' \<notin> set p"
    and "loads c (dumps c (issued_claims i)) = Object (issued_claims i)"
  shows "read_segment c p = Inr (Some (issued_claims i))"
proof -
  obtain k g t alg where i: "i = (k, g, t, alg)"
    by (cases i)
  have "split_on (CHR ''.'') (h @ ''.'' @ p) = [h, p]"
    using assms(2,3) by (simp add: split_on_joined split_on_plain)
  moreover have "split_on (CHR ''.'') (issued_input c i)
      = [b64u_encode (dumps c (header_of alg)), b64u_encode (dumps c (payload_of k g t))]"
    by (simp add: i issued_input_def signing_input_def split_on_joined split_on_plain b64_no_dot)
  ultimately have "p = b64u_encode (dumps c (payload_of k g t))"
    using assms(1) by simp
  then show ?thesis
    using read_minted assms(4) by (simp add: i issued_claims_def)
qed

lemma split_on_parts: "split_on x s = ws \<Longrightarrow> w \<in> set ws \<Longrightarrow> x \<notin> set w"
  by (induction s arbitrary: ws w) (auto split: list.splits if_splits)

lemma decode_accepted:
  assumes json: "\<And>i. i \<in> issues \<Longrightarrow> loads c (dumps c (issued_claims i)) = Object (issued_claims i)"
    and vs: "verifiers k None None None = Inr (Some vs)"
    and unforged: "\<And>h p sig v. split_on (CHR ''.'') token = [h, p, sig] \<Longrightarrow> v \<in> ran vs \<Longrightarrow>
        signature_holds c v h p sig = Inr True \<Longrightarrow> h @ ''.'' @ p \<in> issued_input c ` issues"
    and accepted: "decode_session c k None now None None token = Inr (Some cl)"
  shows "\<exists>i \<in> issues. cl = issued_claims i \<and> check_exp c cl now = Inr (Some cl)"
proof -
  from accepted vs obtain h p sig header alg v
    where parts: "split_on (CHR ''.'') token = [h, p, sig]" and v: "vs alg = Some v"
      and holds: "signature_holds c v h p sig = Inr True"
      and body: "\<exists>cl'. read_segment c p = Inr (Some cl') \<and> check_exp c cl' now = Inr (Some cl)"
    by (auto simp: decode_session_def token_claims_def verified_claims_def
        split: list.splits sum.splits option.splits jval.splits bool.splits)
  have "h @ ''.'' @ p \<in> issued_input c ` issues"
    using unforged [OF parts _ holds] v by (auto simp: ran_def)
  then obtain i where i: "i \<in> issues" "h @ ''.'' @ p = issued_input c i"
    by auto
  have "read_segment c p = Inr (Some (issued_claims i))"
    using signing_input_payload [OF i(2) _ _ json [OF i(1)]] split_on_parts [OF parts] by simp
  with body have "check_exp c (issued_claims i) now = Inr (Some cl)"
    by simp
  moreover from this have "cl = issued_claims i"
    by (auto simp: check_exp_def split: if_splits sum.splits option.splits bool.splits)
  ultimately show ?thesis
    using i(1) by auto
qed

lemma session_principal:
  assumes "session_resolve h denied min_epoch rq = Inr (Some p)"
  shows "\<exists>raw cl. present_session rq = Some raw \<and> verify_session h raw = Some cl
    \<and> pr_jti p = (case claim cl ''jti'' of JStr s \<Rightarrow> Some s | _ \<Rightarrow> None)
    \<and> pr_authn p = (case claim cl ''authn'' of JStr s \<Rightarrow> Some s | _ \<Rightarrow> None)
    \<and> pr_iat p = (case claim cl ''iat'' of JInt n \<Rightarrow> Some n | _ \<Rightarrow> None)"
  using assms unfolding session_resolve_def
  by (auto simp: nonempty_def split: option.splits sum.splits bool.splits if_splits)

lemma claims_of_grant:
  "claim (payload_of k g t) ''jti'' = (case g_jti g of None \<Rightarrow> JNull | Some j \<Rightarrow> JStr j)"
  "claim (payload_of k g t) ''authn'' = (case g_authn g of None \<Rightarrow> JNull | Some j \<Rightarrow> JStr j)"
  "claim (payload_of k g t) ''iat'' = JInt (trunc t)"
  "claim (payload_of k g t) ''exp'' = (case g_ttl g of None \<Rightarrow> JNull | Some ttl \<Rightarrow> JInt (trunc t + ttl))"
  by (simp_all add: payload_of_def put_opt_def claim_def dget_def Let_def split: option.split)

text \<open>C17. Whoever a session cookie resolves to was granted it: if the cookie presented is no forgery
  (its signature, should it hold, is over a token that was issued), the principal carries the token id,
  the login method and the time of one issued grant that has not expired.\<close>

theorem sessions_come_from_grants:
  assumes json: "\<And>i. i \<in> issues \<Longrightarrow> loads c (dumps c (issued_claims i)) = Object (issued_claims i)"
    and vs: "verifiers k None None None = Inr (Some vs)"
    and unforged: "\<And>h p sig v. split_on (CHR ''.'') token = [h, p, sig] \<Longrightarrow> v \<in> ran vs \<Longrightarrow>
        signature_holds c v h p sig = Inr True \<Longrightarrow> h @ ''.'' @ p \<in> issued_input c ` issues"
    and verifying: "\<And>cl. verify_session home token = Some cl \<Longrightarrow> decode_session c k None now None None token = Inr (Some cl)"
    and presented: "present_session rq = Some token"
    and resolved: "session_resolve home denied min_epoch rq = Inr (Some p)"
  shows "\<exists>kk g t alg. (kk, g, t, alg) \<in> issues \<and> pr_jti p = g_jti g \<and> pr_authn p = g_authn g
    \<and> pr_iat p = Some (trunc t) \<and> (case g_ttl g of None \<Rightarrow> True | Some ttl \<Rightarrow> now \<le> of_int (trunc t + ttl))"
proof -
  obtain cl where cl: "verify_session home token = Some cl"
      "pr_jti p = (case claim cl ''jti'' of JStr s \<Rightarrow> Some s | _ \<Rightarrow> None)"
      "pr_authn p = (case claim cl ''authn'' of JStr s \<Rightarrow> Some s | _ \<Rightarrow> None)"
      "pr_iat p = (case claim cl ''iat'' of JInt n \<Rightarrow> Some n | _ \<Rightarrow> None)"
    using session_principal [OF resolved] presented by auto
  have "\<exists>i \<in> issues. cl = issued_claims i \<and> check_exp c cl now = Inr (Some cl)"
    by (rule decode_accepted [where token = token, OF _ vs _ verifying [OF cl(1)]]) (erule json, erule (2) unforged)
  then obtain kk g t alg where i: "(kk, g, t, alg) \<in> issues" "cl = payload_of kk g t" "check_exp c cl now = Inr (Some cl)"
    by (auto simp: issued_claims_def)
  have "case g_ttl g of None \<Rightarrow> True | Some ttl \<Rightarrow> now \<le> of_int (trunc t + ttl)"
    using i(3) by (auto simp: i(2) check_exp_def exp_passed_def claims_of_grant split: option.splits if_splits bool.splits)
  then show ?thesis
    using cl i(1) by (intro exI conjI) (auto simp: i(2) claims_of_grant split: option.split)
qed

text \<open>While a real method is enabled and no real secret is there, nothing is signed and nothing is
  accepted.\<close>

lemma interlock:
  assumes "k_armed k" "secret_is_default k = Inr True"
  shows "decode_session c k None now None a token = Inr None"
    and "k_alg k \<noteq> EDDSA \<Longrightarrow> sign_session c k g None now None None = Inl RuntimeError"
  using assms by (simp_all add: decode_session_def verifiers_def sign_session_def resolve_sign_alg_def)

text \<open>A token whose payload is outside ASCII raises, for anyone who sends it, where the contract is to answer
  None; and so does one whose signature is.\<close>

lemma non_ascii_segment_raises:
  assumes "verifiers k secret None a = Inr (Some vs)" "vs HS256 = Some (Hmac s)"
    and "loads c raw = Object header" "claim header ''alg'' = JStr HS256"
    and "CHR ''.'' \<notin> set payload" "CHR ''.'' \<notin> set sig"
  shows "\<not> is_ascii payload \<Longrightarrow>
      decode_session c k secret now None a (b64u_encode raw @ ''.'' @ payload @ ''.'' @ sig) = Inl ValueError"
    and "is_ascii payload \<Longrightarrow> \<not> is_ascii sig \<Longrightarrow>
      decode_session c k secret now None a (b64u_encode raw @ ''.'' @ payload @ ''.'' @ sig) = Inl TypeError"
proof -
  have parts: "split_on (CHR ''.'') (b64u_encode raw @ ''.'' @ payload @ ''.'' @ sig) = [b64u_encode raw, payload, sig]"
    using assms(5,6) by (simp add: split_on_joined split_on_plain b64_no_dot)
  have ascii: "is_ascii (b64u_encode raw @ CHR ''.'' # payload) = is_ascii payload"
    using b64_ascii [of raw] by (auto simp: is_ascii_def)
  have header: "read_segment c (b64u_encode raw) = Inr (Some header)"
    using assms(3) by (simp add: read_segment_def)
  show "\<not> is_ascii payload \<Longrightarrow>
      decode_session c k secret now None a (b64u_encode raw @ ''.'' @ payload @ ''.'' @ sig) = Inl ValueError"
    "is_ascii payload \<Longrightarrow> \<not> is_ascii sig \<Longrightarrow>
      decode_session c k secret now None a (b64u_encode raw @ ''.'' @ payload @ ''.'' @ sig) = Inl TypeError"
    unfolding decode_session_def parts using assms(1,2,4) header ascii
    by (simp_all add: token_claims_def verified_claims_def signature_holds_def compare_digest_def Let_def)
qed

section \<open>A concrete session\<close>

definition a_grant :: grant where
  "a_grant = \<lparr>g_role = ''viewer'', g_email = None, g_jti = Some ''j1'', g_ttl = Some 3600, g_epoch = Some 3,
     g_authn = Some ''local'', g_subject = Some ''u1'', g_account_epoch = Some 4, g_credential_tag = None\<rparr>"

definition a_key :: keys where
  "a_key = \<lparr>k_env = ''0123456789abcdef0123456789abcdef'', k_file = Inr None, k_armed = True, k_alg = HS256,
     k_private = [], k_public = [], k_epoch = 3\<rparr>"

definition a_crypto :: crypto where
  "a_crypto = \<lparr>mac = (\<lambda>s m. ''m'' @ s), ed_sign = (\<lambda>_ _. None), ed_check = (\<lambda>_ _ _. False),
     dumps = (\<lambda>cl. if cl ''role'' = None then (if cl ''alg'' = Some (JStr HS256) then ''h'' else ''e'') else ''p''),
     loads = (\<lambda>s. if s = ''h'' then Object (header_of HS256) else if s = ''e'' then Object (header_of EDDSA)
        else if s = ''p'' then Object (payload_of a_key a_grant 1000) else Malformed), float_of = (\<lambda>_. None)\<rparr>"

definition a_token :: string where
  "a_token = signing_input a_crypto HS256 (payload_of a_key a_grant 1000)
     @ ''.'' @ hmac_signature a_crypto (k_env a_key) (signing_input a_crypto HS256 (payload_of a_key a_grant 1000))"

lemma a_key_facts: "session_secret a_key = Inr (k_env a_key)" "secret_is_default a_key = Inr False"
    "k_alg a_key \<noteq> EDDSA"
  by code_simp+

lemma role_of_payload: "payload_of k g t ''role'' = Some (JStr (g_role g))"
  by (simp add: payload_of_def put_opt_def Let_def split: option.split)

lemma a_json: "cl \<in> {header_of HS256, header_of EDDSA, payload_of a_key a_grant 1000}
    \<Longrightarrow> loads a_crypto (dumps a_crypto cl) = Object cl"
  using role_of_payload [of a_key a_grant 1000] by (auto simp: a_crypto_def header_of_def HS256_def EDDSA_def)



text \<open>The home's own check at 1200, and the request that presents the token.\<close>

definition a_home :: home where
  "a_home = demo_home\<lparr>verify_session := (\<lambda>raw. case decode_session a_crypto a_key None 1200 None None raw of Inl _ \<Rightarrow> None | Inr r \<Rightarrow> r)\<rparr>"

definition a_request :: request where
  "a_request = demo_request\<lparr>session_cookie := Some a_token\<rparr>"

lemma a_verifiers: "verifiers a_key None None None = Inr (Some [HS256 \<mapsto> Hmac (k_env a_key)])"
  using a_key_facts by (simp add: verifiers_def)

lemma a_token_there: "a_token \<noteq> []"
  by (simp add: a_token_def)

lemma a_token_decodes:
  "decode_session a_crypto a_key None 1200 None None a_token = Inr (Some (payload_of a_key a_grant 1000))"
proof -
  have alive: "check_exp a_crypto (payload_of a_key a_grant 1000) 1200 = Inr (Some (payload_of a_key a_grant 1000))"
    by (rule alive_payload) (simp add: a_grant_def trunc_def FLOAT_MAX_def)
  show ?thesis
    unfolding a_token_def by (rule decode_signed [OF a_json a_json a_verifiers _ alive]) simp_all
qed

lemma a_session: "session_resolve a_home {} 2 a_request = Inr (Some
    \<lparr>pr_role = ''operator'', pr_email = None, pr_caps = caps_for_role (Some ''operator''),
     pr_jti = Some ''j1'', pr_authn = Some ''local'', pr_iat = Some 1000\<rparr>)"
  by (simp add: a_token_there a_home_def a_request_def demo_home_def demo_auth_def demo_request_def session_eval a_token_decodes
      payload_of_def put_opt_def a_grant_def dget_def trunc_def)

lemma sessions_come_from_grants_witness:
  "\<exists>p. session_resolve a_home {} 2 a_request = Inr (Some p) \<and> pr_jti p = Some ''j1'' \<and> pr_iat p = Some 1000"
proof -
  let ?p = "\<lparr>pr_role = ''operator'', pr_email = None, pr_caps = caps_for_role (Some ''operator''),
     pr_jti = Some ''j1'', pr_authn = Some ''local'', pr_iat = Some 1000\<rparr>"
  have "\<exists>kk g t alg. (kk, g, t, alg) \<in> {(a_key, a_grant, 1000, HS256)} \<and> pr_jti ?p = g_jti g
      \<and> pr_authn ?p = g_authn g \<and> pr_iat ?p = Some (trunc t)
      \<and> (case g_ttl g of None \<Rightarrow> True | Some ttl \<Rightarrow> (1200 :: rat) \<le> of_int (trunc t + ttl))"
  proof (rule sessions_come_from_grants [OF _ _ _ _ _ a_session])
    show "verifiers a_key None None None = Inr (Some [HS256 \<mapsto> Hmac (k_env a_key)])"
      by (rule a_verifiers)
    show "present_session a_request = Some a_token"
      by (simp add: a_request_def demo_request_def present_session_def nonempty_def a_token_there)
    show "h @ ''.'' @ p \<in> issued_input a_crypto ` {(a_key, a_grant, 1000, HS256)}"
      if "split_on (CHR ''.'') a_token = [h, p, sig]" for h p sig
      using that split_token [of "hmac_signature a_crypto (k_env a_key) m" for m] b64_no_dot
      by (simp add: a_token_def hmac_signature_def issued_input_def signing_input_def)
  qed (auto simp: issued_claims_def a_home_def a_json split: sum.splits)
  then show ?thesis
    using a_session by auto
qed

end
