(* ===== verification/Group_Rules.thy ===== *)
theory Group_Rules
  imports Machines
begin

text \<open>
  The mosaic group driver's state and decisions, \<open>server/astrodeck/sequence/group_rules.py\<close>: the
  deferral a hop raises (\<open>PanelDeferred\<close>), \<open>VisitBound\<close>, the pass verdicts, and the class
  \<open>GroupRun\<close> with every method of it. The record \<open>group_run\<close> holds the class's attributes; a
  method that may raise returns a \<open>res\<close>. Its checks come before its first write, so a raise leaves
  the state as it was; the one exception would be a pass verdict that refuses its counts in
  \<open>close_pass\<close>, which the invariant of \<open>Group_Props\<close> shows cannot happen. The sentences the code logs are built here as it builds them.

  A dict keyed by the members with a value for each from the start (\<open>failed\<close>, \<open>reject_visits\<close>, the
  streak kinds) is a function; the others are maps. \<open>members\<close> keeps the dict's order as a list.
\<close>

section \<open>Constants\<close>

definition DEFER_WAIT_S :: rat where "DEFER_WAIT_S = 300"
definition REACH_RECHECK_S :: rat where "REACH_RECHECK_S = 60"
definition SET_ASIDE_EXPIRY_S :: rat where "SET_ASIDE_EXPIRY_S = 2700"
definition CENTRING_HOLD_RETRY_S :: rat where "CENTRING_HOLD_RETRY_S = 600"
definition HELD_PASS_ALERT_AT :: nat where "HELD_PASS_ALERT_AT = 3"
definition HELD_PASS_SET_ASIDE_AT :: nat where "HELD_PASS_SET_ASIDE_AT = 6"
definition HELD_PASS_STARVED_SET_ASIDE_AT :: nat where "HELD_PASS_STARVED_SET_ASIDE_AT = 1"

definition GENERIC_SOLVE_FAILURE :: string where
  "GENERIC_SOLVE_FAILURE = ''plate solve failed '' @ [CHR 0xE2, CHR 0x80, CHR 0x94] @ '' used raw GoTo''"

definition GUIDE_START :: string where "GUIDE_START = ''guide_start''"
definition GUIDE_LOST :: string where "GUIDE_LOST = ''guide_lost''"
definition TARGET_STOP :: string where "TARGET_STOP = ''target_stop''"
definition CENTRING :: string where "CENTRING = ''centring''"
definition SOLVE_TRANSIENT :: string where "SOLVE_TRANSIENT = ''solve_transient''"

definition HELD_PASS_KINDS :: "string list" where
  "HELD_PASS_KINDS = [CENTRING, ''deferred'']"

definition DEFERRAL_KINDS :: "string list" where
  "DEFERRAL_KINDS = [CENTRING, ''rotation'', ''angle'', ''pier_side'', GUIDE_START, GUIDE_LOST,
     TARGET_STOP, SOLVE_TRANSIENT]"

lemmas kind_defs = GUIDE_START_def GUIDE_LOST_def TARGET_STOP_def CENTRING_def SOLVE_TRANSIENT_def

lemma kinds_distinct [simp]:
  "CENTRING \<noteq> GUIDE_START" "GUIDE_START \<noteq> CENTRING" "CENTRING \<noteq> SOLVE_TRANSIENT"
  "SOLVE_TRANSIENT \<noteq> CENTRING" "GUIDE_START \<noteq> SOLVE_TRANSIENT" "SOLVE_TRANSIENT \<noteq> GUIDE_START"
  "''deferred'' \<noteq> CENTRING" "CENTRING \<noteq> ''deferred''" "''group'' \<noteq> CENTRING" "''rejects'' \<noteq> CENTRING"
  by (simp_all add: kind_defs)

section \<open>Deferrals\<close>

record deferral =
  d_reason :: string
  d_kind :: string
  d_last_error :: string

definition panel_deferred :: "string \<Rightarrow> string \<Rightarrow> string \<Rightarrow> deferral res" where
  "panel_deferred reason kind last_error =
     (if kind \<notin> set DEFERRAL_KINDS then Inl ValueError
      else if py_strip reason = [] then Inl ValueError
      else Inr \<lparr>d_reason = reason, d_kind = kind, d_last_error = last_error\<rparr>)"

definition held_pass_reason_code :: "(string \<times> deferral) list \<Rightarrow> string option" where
  "held_pass_reason_code deferrals =
     (let errors = map (d_last_error \<circ> snd) deferrals in
      case errors of [] \<Rightarrow> None
      | e # es \<Rightarrow> if e \<noteq> [] \<and> e \<noteq> GENERIC_SOLVE_FAILURE \<and> (\<forall>x \<in> set errors. x = e)
                  then Some e else None)"

definition visits_words :: "nat \<Rightarrow> string \<Rightarrow> string" where
  "visits_words n adjective = nat_str n @ '' '' @ adjective @ ''visit'' @ (if n = 1 then [] else ''s'')"

definition deferral_words :: "string \<Rightarrow> deferral \<Rightarrow> string" where
  "deferral_words label d = (let words = d_reason d @ '' on '' @ label in
     if d_last_error d \<noteq> [] then words @ '': '' @ d_last_error d else words)"

section \<open>How long a visit lasts\<close>

record visit_bound =
  vb_passes :: "nat option"
  vb_min_s :: rat
  vb_deadline_ts :: "rat option"

definition mk_visit_bound :: "int option \<Rightarrow> pyfloat \<Rightarrow> pyfloat option \<Rightarrow> visit_bound res" where
  "mk_visit_bound passes min_s deadline_ts =
     (if (case passes of None \<Rightarrow> False | Some n \<Rightarrow> n < 1) then Inl ValueError
      else case nonneg_arg min_s of Inl e \<Rightarrow> Inl e | Inr m \<Rightarrow>
        (case deadline_ts of
           None \<Rightarrow> Inr \<lparr>vb_passes = map_option nat passes, vb_min_s = m, vb_deadline_ts = None\<rparr>
         | Some d \<Rightarrow> (case finite_arg d of Inl e \<Rightarrow> Inl e
             | Inr t \<Rightarrow> Inr \<lparr>vb_passes = map_option nat passes, vb_min_s = m,
                              vb_deadline_ts = Some t\<rparr>)))"

definition ends_at_round :: "visit_bound \<Rightarrow> int \<Rightarrow> pyfloat \<Rightarrow> bool \<Rightarrow> bool res" where
  "ends_at_round vb rounds elapsed_s is_complete =
     (case count_arg rounds of Inl e \<Rightarrow> Inl e | Inr r \<Rightarrow>
      case finite_arg elapsed_s of Inl e \<Rightarrow> Inl e | Inr el \<Rightarrow>
      if is_complete then Inr True
      else (case vb_passes vb of None \<Rightarrow> Inr False
        | Some n \<Rightarrow> Inr (n \<le> r \<and> vb_min_s vb \<le> el)))"

definition next_frame_fits :: "visit_bound \<Rightarrow> pyfloat \<Rightarrow> pyfloat \<Rightarrow> pyfloat \<Rightarrow> pyfloat \<Rightarrow> bool res" where
  "next_frame_fits vb now exposure_s overhead_s margin_s =
     (case finite_arg now of Inl e \<Rightarrow> Inl e | Inr t \<Rightarrow>
      case nonneg_arg exposure_s of Inl e \<Rightarrow> Inl e | Inr ex \<Rightarrow>
      case nonneg_arg overhead_s of Inl e \<Rightarrow> Inl e | Inr ov \<Rightarrow>
      case nonneg_arg margin_s of Inl e \<Rightarrow> Inl e | Inr mg \<Rightarrow>
      (case vb_deadline_ts vb of None \<Rightarrow> Inr True
       | Some d \<Rightarrow> Inr (t + (ex + ov + mg) \<le> d)))"

section \<open>Verdicts on a pass\<close>

datatype verdict = Rig | Sky | Panel

definition guide_start_pass_verdict :: "nat \<Rightarrow> nat \<Rightarrow> verdict res" where
  "guide_start_pass_verdict attempted failed =
     (if failed > attempted then Inl ValueError
      else if attempted \<ge> 2 \<and> failed = attempted then Inr Rig else Inr Panel)"

definition centring_pass_verdict :: "nat \<Rightarrow> nat \<Rightarrow> nat option \<Rightarrow> verdict res" where
  "centring_pass_verdict attempted failed live =
     (if failed > attempted then Inl ValueError
      else if (case live of None \<Rightarrow> False
               | Some l \<Rightarrow> attempted \<ge> 1 \<and> attempted = l \<and> failed = attempted) then Inr Sky
      else if attempted \<ge> 2 \<and> failed = attempted then Inr Sky
      else Inr Panel)"

definition set_aside_expiry :: "pyfloat \<Rightarrow> pyfloat \<Rightarrow> int \<Rightarrow> bool res" where
  "set_aside_expiry now set_at expiries =
     (case finite_arg now of Inl e \<Rightarrow> Inl e | Inr t \<Rightarrow>
      case finite_arg set_at of Inl e \<Rightarrow> Inl e | Inr t0 \<Rightarrow>
      case count_arg expiries of Inl e \<Rightarrow> Inl e | Inr n \<Rightarrow>
      if n \<ge> 1 then Inr False else Inr (t \<ge> t0 + SET_ASIDE_EXPIRY_S))"

definition no_guider_defers :: "int \<Rightarrow> bool \<Rightarrow> bool res" where
  "no_guider_defers live require_guiding =
     (case count_arg live of Inl e \<Rightarrow> Inl e
      | Inr l \<Rightarrow> if l < 1 then Inl ValueError else Inr (require_guiding \<or> l \<ge> 2))"

datatype boundary = Guiding_Action | Set_Aside_All | None_Live | Defer_Wait | Next_Pass | Centring_Hold

definition pass_boundary :: "nat \<Rightarrow> nat \<Rightarrow> boundary" where
  "pass_boundary exposures deferrals =
     (if exposures = 0 \<and> deferrals = 0 then Set_Aside_All
      else if exposures = 0 then Defer_Wait else Next_Pass)"

section \<open>The state of a group\<close>

datatype visit_kind = Remove | Requeue | Set_Aside

record visit_action =
  va_action :: visit_kind
  va_reason :: string

record pass_end =
  pe_boundary :: boundary
  pe_set_aside :: "(string \<times> string) list"
  pe_reason :: string
  pe_counted :: "(string \<times> string) list"
  pe_held_streak :: nat

type_synonym held = "(string \<times> deferral) list"

record group_run =
  members :: "(string \<times> string) list"
  max_failed_visits :: nat
  pass_no :: nat
  visited :: "string set"
  exposures_this_pass :: nat
  deferred_this_pass :: nat
  failed :: "string \<Rightarrow> nat"
  reject_visits :: "string \<Rightarrow> nat"
  set_aside :: "string \<rightharpoonup> string"
  completed :: "string set"
  flipped :: bool
  acquired :: bool
  angle_verified :: bool
  defer_until :: "rat option"
  defer_why :: string
  let_through :: "string set"
  set_aside_kind :: "string \<rightharpoonup> string"
  expired :: "string set"
  visit_seq :: nat
  last_visit :: "string \<rightharpoonup> nat"
  last_accept :: "string \<rightharpoonup> nat"
  streak_kinds :: "string \<Rightarrow> string set"
  guide_attempts :: nat
  guide_failures :: nat
  held_guide :: held
  centring_attempted :: "string set"
  centring_failed :: "string set"
  held_centring :: held
  held_transient :: held
  held_streak :: nat
  held_pass_reason :: "string option"
  starved_nights :: "string \<rightharpoonup> nat"

definition group_init :: "(string \<times> string) list \<Rightarrow> int \<Rightarrow> group_run res" where
  "group_init ms max_failed =
     (if ms = [] then Inl ValueError
      else if max_failed < 1 then Inl ValueError
      else Inr \<lparr>members = ms, max_failed_visits = nat max_failed, pass_no = 1, visited = {},
        exposures_this_pass = 0, deferred_this_pass = 0, failed = (\<lambda>_. 0),
        reject_visits = (\<lambda>_. 0), set_aside = Map.empty, completed = {}, flipped = False,
        acquired = False, angle_verified = False, defer_until = None, defer_why = ''deferred'',
        let_through = {}, set_aside_kind = Map.empty, expired = {}, visit_seq = 0,
        last_visit = Map.empty, last_accept = Map.empty, streak_kinds = (\<lambda>_. {}),
        guide_attempts = 0, guide_failures = 0, held_guide = [], centring_attempted = {},
        centring_failed = {}, held_centring = [], held_transient = [], held_streak = 0,
        held_pass_reason = None, starved_nights = Map.empty\<rparr>)"

definition ids :: "group_run \<Rightarrow> string list" where
  "ids g = map fst (members g)"

definition label_of :: "group_run \<Rightarrow> string \<Rightarrow> string" where
  "label_of g p = (case map_of (members g) p of None \<Rightarrow> [] | Some l \<Rightarrow> l)"

definition is_live :: "group_run \<Rightarrow> string \<Rightarrow> bool" where
  "is_live g p = (p \<in> set (ids g) \<and> p \<notin> completed g \<and> set_aside g p = None)"

definition live :: "group_run \<Rightarrow> string list" where
  "live g = filter (is_live g) (ids g)"

definition note_let_through :: "string list \<Rightarrow> group_run \<Rightarrow> group_run" where
  "note_let_through ps g =
     g\<lparr>let_through := let_through g \<union> set (filter (\<lambda>p. p \<in> set (ids g)) ps)\<rparr>"

definition visitable :: "group_run \<Rightarrow> string list" where
  "visitable g = filter (\<lambda>p. is_live g p \<and> (p \<in> visited g \<or> p \<in> let_through g)) (ids g)"

definition check_live :: "group_run \<Rightarrow> string \<Rightarrow> unit res" where
  "check_live g p = (if p \<notin> set (ids g) then Inl ValueError
     else if \<not> is_live g p then Inl ValueError else Inr ())"

definition put_aside :: "string \<Rightarrow> string \<Rightarrow> string \<Rightarrow> group_run \<Rightarrow> group_run" where
  "put_aside p reason kind g =
     g\<lparr>set_aside := (set_aside g)(p \<mapsto> reason), set_aside_kind := (set_aside_kind g)(p \<mapsto> kind)\<rparr>"

definition set_aside_panel :: "string \<Rightarrow> string \<Rightarrow> string \<Rightarrow> group_run \<Rightarrow> group_run res" where
  "set_aside_panel p reason kind g = (case check_live g p of Inl e \<Rightarrow> Inl e
     | Inr _ \<Rightarrow> Inr (put_aside p reason kind g))"

definition note_starved :: "string \<Rightarrow> int \<Rightarrow> group_run \<Rightarrow> group_run res" where
  "note_starved p nights g =
     (if p \<notin> set (ids g) then Inl ValueError
      else case count_arg nights of Inl e \<Rightarrow> Inl e
        | Inr n \<Rightarrow> Inr (g\<lparr>starved_nights := (starved_nights g)(p := (if n \<noteq> 0 then Some n else None))\<rparr>))"

fun put_all_aside :: "string list \<Rightarrow> string \<Rightarrow> string \<Rightarrow> group_run \<Rightarrow> group_run" where
  "put_all_aside [] reason kind g = g"
| "put_all_aside (p # ps) reason kind g = put_all_aside ps reason kind (put_aside p reason kind g)"

definition set_aside_all :: "string \<Rightarrow> string \<Rightarrow> group_run \<Rightarrow> string list \<times> group_run" where
  "set_aside_all reason kind g = (let panels = live g in (panels, put_all_aside panels reason kind g))"

section \<open>Beginning a pass, and coming back into one\<close>

definition start_pass :: "group_run \<Rightarrow> group_run res" where
  "start_pass g =
     (if held_guide g \<noteq> [] \<or> held_centring g \<noteq> [] \<or> held_transient g \<noteq> [] then Inl RuntimeError
      else Inr (g\<lparr>pass_no := pass_no g + 1, visited := {}, let_through := {},
        exposures_this_pass := 0, deferred_this_pass := 0, guide_attempts := 0,
        guide_failures := 0, centring_attempted := {}, centring_failed := {}\<rparr>))"

definition begin_pass_alone :: "group_run \<Rightarrow> group_run res" where
  "begin_pass_alone g = start_pass (g\<lparr>held_guide := [], held_centring := [], held_transient := []\<rparr>)"

definition alone :: "group_run \<Rightarrow> string \<Rightarrow> bool" where
  "alone g p = (\<not> (\<exists>q \<in> set (ids g). q \<noteq> p \<and> is_live g q))"

text \<open>What an expiry and a retry share: the panel is live again with a clean slate.\<close>

definition clean_slate :: "string \<Rightarrow> group_run \<Rightarrow> group_run" where
  "clean_slate p g = g\<lparr>set_aside := (set_aside g)(p := None),
     set_aside_kind := (set_aside_kind g)(p := None), failed := (failed g)(p := 0),
     reject_visits := (reject_visits g)(p := 0), streak_kinds := (streak_kinds g)(p := {}),
     visited := visited g - {p}\<rparr>"

definition expire_set_aside :: "string \<Rightarrow> group_run \<Rightarrow> group_run res" where
  "expire_set_aside p g =
     (if p \<notin> set (ids g) then Inl ValueError
      else if set_aside g p = None then Inl ValueError
      else if set_aside_kind g p \<noteq> Some CENTRING then Inl ValueError
      else let al = alone g p; g = clean_slate p g; g = g\<lparr>expired := insert p (expired g)\<rparr>
           in if al then begin_pass_alone g else Inr g)"

definition retry_set_aside :: "string \<Rightarrow> group_run \<Rightarrow> group_run res" where
  "retry_set_aside p g =
     (if p \<notin> set (ids g) then Inl ValueError
      else if set_aside g p = None then Inl ValueError
      else let al = alone g p; g = clean_slate p g;
               g = g\<lparr>held_streak := 0, held_pass_reason := None,
                     starved_nights := (starved_nights g)(p := None)\<rparr>
           in if al then begin_pass_alone g else Inr g)"

section \<open>One visit\<close>

definition record_visit :: "string \<Rightarrow> int \<Rightarrow> int \<Rightarrow> bool \<Rightarrow> bool \<Rightarrow> bool \<Rightarrow> bool \<Rightarrow> group_run \<Rightarrow>
    (nat \<times> group_run) res" where
  "record_visit p exposures accepted guide_failed guide_started centring_miss transient g =
     (case check_live g p of Inl e \<Rightarrow> Inl e | Inr _ \<Rightarrow>
      case count_arg exposures of Inl e \<Rightarrow> Inl e | Inr ex \<Rightarrow>
      case count_arg accepted of Inl e \<Rightarrow> Inl e | Inr ac \<Rightarrow>
      if ac > ex then Inl ValueError
      else if guide_failed \<and> guide_started then Inl ValueError
      else let s = visit_seq g + 1; previous = dget (last_visit g) p 0 in
        Inr (previous, g\<lparr>visit_seq := s,
          last_visit := (last_visit g)(p \<mapsto> s),
          exposures_this_pass := exposures_this_pass g + ex,
          last_accept := (if ac > 0 then (last_accept g)(p \<mapsto> s) else last_accept g),
          starved_nights := (if ex > 0 then (starved_nights g)(p := None) else starved_nights g),
          guide_attempts := guide_attempts g + (if guide_failed \<or> guide_started then 1 else 0),
          guide_failures := guide_failures g + (if guide_failed then 1 else 0),
          centring_attempted := (if \<not> transient then insert p (centring_attempted g)
                                 else centring_attempted g),
          centring_failed := (if centring_miss then insert p (centring_failed g)
                              else centring_failed g)\<rparr>))"

definition another_live_accepted_since :: "group_run \<Rightarrow> string \<Rightarrow> nat \<Rightarrow> bool" where
  "another_live_accepted_since g p previous =
     (\<exists>q \<in> set (ids g). q \<noteq> p \<and> is_live g q \<and> dget (last_accept g) q 0 > previous)"

definition streak_reason :: "string \<Rightarrow> deferral \<Rightarrow> nat \<Rightarrow> string set \<Rightarrow> string" where
  "streak_reason label d n streak =
     (let tail = (if d_last_error d \<noteq> [] then '': '' @ d_last_error d else []) in
      if card streak = 1
      then d_reason d @ '' on '' @ label @ '' on '' @ visits_words n ''consecutive '' @ tail
      else label @ '' was deferred on '' @ visits_words n ''consecutive ''
           @ '', the last because '' @ d_reason d @ tail)"

definition streak_kind :: "string set \<Rightarrow> string" where
  "streak_kind streak = (if streak = {CENTRING} then CENTRING
     else if streak = {GUIDE_START} then GUIDE_START else ''deferred'')"

definition count_failure :: "string \<Rightarrow> deferral \<Rightarrow> group_run \<Rightarrow> visit_action \<times> group_run" where
  "count_failure p d g =
     (let label = label_of g p; n = failed g p + 1; streak = insert (d_kind d) (streak_kinds g p);
          g = g\<lparr>failed := (failed g)(p := n), streak_kinds := (streak_kinds g)(p := streak)\<rparr> in
      if n < max_failed_visits g then
        (\<lparr>va_action = Requeue, va_reason = deferral_words label d @ ''; retried on the next pass (''
            @ nat_str n @ '' of '' @ nat_str (max_failed_visits g) @ '' consecutive)''\<rparr>, g)
      else let reason = streak_reason label d n streak in
        (\<lparr>va_action = Set_Aside, va_reason = reason\<rparr>, put_aside p reason (streak_kind streak) g))"

text \<open>The branches of \<open>visit_outcome\<close> after the bookkeeping: a deferral, and a visit that ran.\<close>

definition deferred_outcome :: "string \<Rightarrow> deferral \<Rightarrow> group_run \<Rightarrow> visit_action \<times> group_run" where
  "deferred_outcome p d g =
     (let label = label_of g p; g = g\<lparr>deferred_this_pass := deferred_this_pass g + 1\<rparr> in
      if d_kind d = GUIDE_START then
        (\<lparr>va_action = Requeue, va_reason = deferral_words label d
           @ ''; retried on the next pass (counted when the pass ends: a guider that fails on ''
           @ ''every panel is the rig's fault)''\<rparr>, g\<lparr>held_guide := held_guide g @ [(p, d)]\<rparr>)
      else if d_kind d = CENTRING then
        (\<lparr>va_action = Requeue, va_reason = deferral_words label d
           @ ''; retried on the next pass (counted when the pass ends: a centring that fails on ''
           @ ''every panel is the sky's or the geometry's, not a panel's)''\<rparr>,
         g\<lparr>held_centring := held_centring g @ [(p, d)]\<rparr>)
      else if d_kind d = SOLVE_TRANSIENT then
        (\<lparr>va_action = Requeue, va_reason = deferral_words label d
           @ ''; retried on the next pass (not counted as a failed visit: the solve could not run, ''
           @ ''and nothing about the panel failed)''\<rparr>,
         g\<lparr>held_transient := held_transient g @ [(p, d)]\<rparr>)
      else count_failure p d g)"

definition shot_outcome :: "string \<Rightarrow> nat \<Rightarrow> nat \<Rightarrow> nat \<Rightarrow> group_run \<Rightarrow> visit_action \<times> group_run" where
  "shot_outcome p exposures accepted previous g =
     (let label = label_of g p in
      if accepted > 0 then
        (\<lparr>va_action = Requeue, va_reason = label @ '': '' @ nat_str accepted @ '' of ''
            @ nat_str exposures @ '' accepted this visit''\<rparr>, g)
      else if exposures > 0 then
        (if another_live_accepted_since g p previous then
           let n = reject_visits g p + 1; g = g\<lparr>reject_visits := (reject_visits g)(p := n)\<rparr> in
           if n \<ge> max_failed_visits g then
             let reason = label @ '' rejected every frame for '' @ visits_words n []
                          @ '' while the other panels were accepted''
             in (\<lparr>va_action = Set_Aside, va_reason = reason\<rparr>, put_aside p reason ''rejects'' g)
           else (\<lparr>va_action = Requeue, va_reason = label @ '' rejected every frame this visit while ''
                   @ ''another panel was accepted ('' @ nat_str n @ '' of ''
                   @ nat_str (max_failed_visits g) @ '')''\<rparr>, g)
         else (\<lparr>va_action = Requeue, va_reason = label @ '' rejected every frame, and no other ''
                 @ ''panel was accepted since its last visit: the sky, not the panel''\<rparr>, g))
      else (\<lparr>va_action = Requeue, va_reason = label @ '' took no exposures this visit''\<rparr>, g))"

definition kind_is :: "deferral option \<Rightarrow> string \<Rightarrow> bool" where
  "kind_is dfr k = (case dfr of None \<Rightarrow> False | Some d \<Rightarrow> d_kind d = k)"

definition visit_outcome :: "string \<Rightarrow> bool \<Rightarrow> int \<Rightarrow> int \<Rightarrow> deferral option \<Rightarrow> bool \<Rightarrow> group_run \<Rightarrow>
    (visit_action \<times> group_run) res" where
  "visit_outcome p is_complete exposures accepted dfr guide_started g =
     (case record_visit p exposures accepted (kind_is dfr GUIDE_START) guide_started
             (kind_is dfr CENTRING) (kind_is dfr SOLVE_TRANSIENT) g of
        Inl e \<Rightarrow> Inl e
      | Inr (previous, g) \<Rightarrow>
        if is_complete then
          Inr (\<lparr>va_action = Remove, va_reason = ''panel '' @ label_of g p @ '' complete''\<rparr>,
               g\<lparr>completed := insert p (completed g)\<rparr>)
        else
          let g = g\<lparr>visited := insert p (visited g)\<rparr>;
              g = (if accepted > 0 then g\<lparr>failed := (failed g)(p := 0),
                     reject_visits := (reject_visits g)(p := 0),
                     streak_kinds := (streak_kinds g)(p := {})\<rparr> else g)
          in (case dfr of
                Some d \<Rightarrow> Inr (deferred_outcome p d g)
              | None \<Rightarrow> Inr (shot_outcome p (nat exposures) (nat accepted) previous g)))"

definition note_visit :: "string \<Rightarrow> int \<Rightarrow> int \<Rightarrow> bool \<Rightarrow> group_run \<Rightarrow> group_run res" where
  "note_visit p exposures accepted guide_started g =
     map_sum id snd (record_visit p exposures accepted False guide_started False False g)"

definition note_complete :: "string \<Rightarrow> group_run \<Rightarrow> group_run res" where
  "note_complete p g = (case check_live g p of Inl e \<Rightarrow> Inl e
     | Inr _ \<Rightarrow> Inr (g\<lparr>completed := insert p (completed g)\<rparr>))"

section \<open>The end of a pass\<close>

text \<open>Counting the held deferrals of a pass: the panels set aside, and those only counted.\<close>

fun count_held :: "held \<Rightarrow> group_run \<Rightarrow>
    (string \<times> string) list \<times> (string \<times> string) list \<times> group_run" where
  "count_held [] g = ([], [], g)"
| "count_held ((p, d) # hs) g =
     (if \<not> is_live g p then count_held hs g
      else let (act, g) = count_failure p d g; (sa, co, g) = count_held hs g in
        if va_action act = Set_Aside then ((p, va_reason act) # sa, co, g)
        else (sa, (p, va_reason act) # co, g))"

definition pass_end_of :: "boundary \<Rightarrow> (string \<times> string) list \<Rightarrow> string \<Rightarrow> (string \<times> string) list \<Rightarrow>
    pass_end" where
  "pass_end_of b sa reason co =
     \<lparr>pe_boundary = b, pe_set_aside = sa, pe_reason = reason, pe_counted = co, pe_held_streak = 0\<rparr>"

text \<open>The ends of the two pass rules: the sky's, and the guiding rig's.\<close>

definition centring_hold_end :: "nat \<Rightarrow> nat \<Rightarrow> string option \<Rightarrow> pass_end" where
  "centring_hold_end tried pass frame_cause =
     (let blame = (case frame_cause of Some c \<Rightarrow> if c \<noteq> [] then c else ''the sky or the geometry''
                   | None \<Rightarrow> ''the sky or the geometry'') in
      pass_end_of Centring_Hold []
        (''centring failed on every one of the '' @ nat_str tried @ '' panels tried in pass ''
         @ nat_str pass @ '': '' @ blame
         @ '' is to blame, not a panel, so no panel's failure count moved; holding the mosaic ''
         @ fmt_fixed 0 (CENTRING_HOLD_RETRY_S / 60) @ '' minutes before the next pass'') [])"

definition guiding_action_end :: "nat \<Rightarrow> (string \<times> string) list \<Rightarrow> (string \<times> string) list \<Rightarrow>
    pass_end" where
  "guiding_action_end attempts sa co =
     (let moved = length co + length sa;
          also_words = (if moved \<noteq> 0 then nat_str moved @ '' ''
             @ (if moved = 1 then ''panel'' else ''panels'')
             @ '' in the same pass had a centring miss counted or set aside, charged to the panel, not the guider''
           else ''no panel's centring miss was counted in the same pass'') in
      pass_end_of Guiding_Action sa
        (''guiding did not start on any of the '' @ nat_str attempts
         @ '' panels tried this pass: the guider's fault, not a panel's; '' @ also_words
         @ '', and the plan's guiding_action decides'') co)"

definition decide_pass_end :: "string option \<Rightarrow> group_run \<Rightarrow>
    ((pass_end \<times> bool \<times> held) \<times> group_run) res" where
  "decide_pass_end frame_cause g =
     (let hg = held_guide g; hc = held_centring g; ht = held_transient g;
          g = g\<lparr>held_guide := [], held_centring := [], held_transient := []\<rparr>;
          tried = card (centring_attempted g) in
      case centring_pass_verdict tried (card (centring_failed g)) (Some (length (live g))) of
        Inl e \<Rightarrow> Inl e
      | Inr v \<Rightarrow>
      if v = Sky then Inr ((centring_hold_end tried (pass_no g) frame_cause, True, hc), g)
      else
        let (sa, co, g) = count_held hc g in
        case guide_start_pass_verdict (guide_attempts g) (guide_failures g) of
          Inl e \<Rightarrow> Inl e
        | Inr v \<Rightarrow>
        if v = Rig then Inr ((guiding_action_end (guide_attempts g) sa co, False, []), g)
        else
          let (sa2, _, g) = count_held hg g; sa = sa @ sa2; lv = live g in
          if lv = [] then
            Inr ((pass_end_of None_Live sa
                ''no panel is left to shoot tonight: every one is complete or set aside'' co,
              False, []), g)
          else Inr (case pass_boundary (exposures_this_pass g) (deferred_this_pass g) of
            Set_Aside_All \<Rightarrow>
              let reason = ''a full pass over '' @ nat_str (length lv)
                    @ '' panels took no exposures; setting the mosaic aside for tonight'' in
              ((pass_end_of Set_Aside_All (sa @ map (\<lambda>p. (p, reason)) lv) reason co, False, []),
               put_all_aside lv reason ''group'' g)
          | Defer_Wait \<Rightarrow>
              let is_held = (ht \<noteq> [] \<and> length ht = deferred_this_pass g) in
              ((pass_end_of Defer_Wait sa
                  (''pass '' @ nat_str (pass_no g) @ '' took no exposures and deferred ''
                   @ nat_str (deferred_this_pass g) @ '' visits; waiting ''
                   @ fmt_fixed 0 DEFER_WAIT_S @ '' s before the next pass'') co,
                is_held, if is_held then ht else []), g)
          | b \<Rightarrow>
              ((pass_end_of b sa
                  (''pass '' @ nat_str (pass_no g) @ '' ended with ''
                   @ nat_str (exposures_this_pass g) @ '' exposures and ''
                   @ nat_str (deferred_this_pass g) @ '' deferrals'') co, False, []), g)))"

definition held_limit :: "group_run \<Rightarrow> nat \<times> nat" where
  "held_limit g = (let starved = (case live g of [p] \<Rightarrow> dget (starved_nights g) p 0 | _ \<Rightarrow> 0) in
     (starved, if starved \<noteq> 0 then HELD_PASS_STARVED_SET_ASIDE_AT else HELD_PASS_SET_ASIDE_AT))"

definition held_reason :: "group_run \<Rightarrow> bool \<Rightarrow> string option \<Rightarrow> nat \<Rightarrow> nat \<Rightarrow> string" where
  "held_reason g same_as_last code streak starved =
     (let subject = (case live g of
            [p] \<Rightarrow> label_of g p @ '' (the mosaic's last live panel)'' | _ \<Rightarrow> ''the mosaic'') in
      if same_as_last then
        ''two held passes in a row of '' @ subject @ '' gave the identical reason (''
        @ py_repr (case code of Some c \<Rightarrow> c | None \<Rightarrow> [])
        @ ''): a rig-side fault, not the sky, so it is set aside for tonight instead of held any further''
      else if streak < HELD_PASS_SET_ASIDE_AT then
        subject @ '' has been held for '' @ nat_str streak @ '' ''
        @ (if streak = 1 then ''pass'' else ''passes'')
        @ '' in a row with no panel struck and no progress made, and was set aside on ''
        @ nat_str starved @ '' nights running before tonight; set aside for tonight without waiting for ''
        @ nat_str HELD_PASS_SET_ASIDE_AT @ '' passes''
      else subject @ '' has been held for '' @ nat_str streak
        @ '' passes in a row with no panel struck and no progress made; set aside for tonight'')"

definition apply_held_pass_rule :: "pass_end \<Rightarrow> bool \<Rightarrow> held \<Rightarrow> group_run \<Rightarrow> pass_end \<times> group_run" where
  "apply_held_pass_rule pend is_held deferrals g =
     (if \<not> is_held then (pend, g\<lparr>held_streak := 0, held_pass_reason := None\<rparr>)
      else
        let code = held_pass_reason_code deferrals;
            same_as_last = (code \<noteq> None \<and> held_pass_reason g \<noteq> None \<and> code = held_pass_reason g);
            streak = held_streak g + 1;
            g = g\<lparr>held_streak := streak, held_pass_reason := code\<rparr>;
            (starved, bound) = held_limit g in
        if same_as_last \<or> streak \<ge> bound then
          let reason = held_reason g same_as_last code streak starved;
              kind = (if length (live g) = 1 \<and> \<not> same_as_last then ''deferred'' else ''group'');
              (panels, g) = set_aside_all reason kind g
          in (pass_end_of Set_Aside_All (map (\<lambda>p. (p, reason)) panels) reason (pe_counted pend),
              g\<lparr>held_streak := 0, held_pass_reason := None\<rparr>)
        else (pend\<lparr>pe_held_streak := streak\<rparr>, g))"

definition close_pass :: "string option \<Rightarrow> group_run \<Rightarrow> (pass_end \<times> group_run) res" where
  "close_pass frame_cause g =
     (case decide_pass_end frame_cause g of Inl e \<Rightarrow> Inl e
      | Inr ((pend, is_held, deferrals), g) \<Rightarrow> Inr (apply_held_pass_rule pend is_held deferrals g))"

section \<open>The wait between passes\<close>

definition defer_next_pass :: "pyfloat \<Rightarrow> pyfloat \<Rightarrow> string \<Rightarrow> group_run \<Rightarrow> (rat \<times> group_run) res" where
  "defer_next_pass now wait_s why g =
     (case nonneg_arg wait_s of Inl e \<Rightarrow> Inl e | Inr w \<Rightarrow>
      if why \<notin> {''deferred'', ''centring''} then Inl ValueError
      else case finite_arg now of Inl e \<Rightarrow> Inl e
        | Inr t \<Rightarrow> Inr (t + w, g\<lparr>defer_until := Some (t + w), defer_why := why\<rparr>))"

definition deferring :: "pyfloat \<Rightarrow> group_run \<Rightarrow> bool res" where
  "deferring now g = (case defer_until g of None \<Rightarrow> Inr False
     | Some t \<Rightarrow> (case finite_arg now of Inl e \<Rightarrow> Inl e | Inr n \<Rightarrow> Inr (n < t)))"

end
