(* ===== verification/Campaign.thy ===== *)
theory Campaign
  imports Group_Rules Machines "HOL-Library.AList"
begin

text \<open>
  The campaign ledger: \<open>Session\<close> of \<open>server/astrodeck/sequence/session.py\<close>, what several nights of one plan have
  banked, set aside, locked and measured, with the parts of the engine (\<open>engine.py\<close>) and of the resume arm
  (\<open>resume_arm.py\<close>) that write its set-aside records and read them back after a restart.

  A \<open>Session\<close> is the record \<open>campaign\<close>; a method that changes it returns the new record. A set-aside record is a
  dictionary of the code with optional keys; here it is a record with optional fields, so a file edited by hand
  into values of other types is left out. The calendar is the parameter \<open>nk\<close>: the night of a run's local start
  stamp, None where the stamp is not a date.
\<close>

section \<open>The ledger\<close>

record plan_step =
  st_id :: string
  st_count :: int

record plan_target =
  tg_id :: string
  tg_steps :: "plan_step list"

datatype count_mode = Attempts | Accepted

record seq_plan =
  pl_targets :: "plan_target list"
  pl_mode :: count_mode

record frame_entry =
  fr_night :: string
  fr_target :: string
  fr_step :: string
  fr_auto :: bool
  fr_override :: "string option"

record aside =
  as_target :: string
  as_step :: "string option"
  as_reason :: string
  as_night :: string
  as_kind :: "string option"
  as_ts :: "rat option"
  as_expired :: bool
  as_cleared :: bool

record angle_lock =
  lk_pa :: rat
  lk_solved :: rat
  lk_exposed :: "rat option"
  lk_source :: string

datatype pier_side = East | West

record pier_note =
  pn_night :: string
  pn_flipped :: bool
  pn_side :: "pier_side option"
  pn_verified :: bool

text \<open>A group's pier value: None of the option is a value that is no record at all (a hand edit).\<close>

record campaign =
  c_status :: string
  c_auto_resume :: bool
  c_plan :: seq_plan
  c_nights :: "string list"
  c_frames :: "frame_entry list"
  c_set_aside :: "aside list"
  c_locks :: "string \<rightharpoonup> angle_lock"
  c_pier :: "string \<rightharpoonup> pier_note option"

definition STARVING_KINDS :: "string list" where "STARVING_KINDS = [''centring'', ''guide_start'', ''deferred'']"
definition STARVED_AFTER_NIGHTS :: nat where "STARVED_AFTER_NIGHTS = 3"

text \<open>\<open>SessionFrame.effective\<close>.\<close>

definition effective :: "frame_entry \<Rightarrow> bool" where
  "effective f = (case fr_override f of None \<Rightarrow> fr_auto f | Some w \<Rightarrow> w = ''accept'')"

section \<open>Nights\<close>

text \<open>\<open>_REPORT_STAMP.search\<close>: a date, a time and perhaps a running number at the end of a report id; the
  dollar sign also matches before a final line feed.\<close>

definition decimal :: "string \<Rightarrow> bool" where
  "decimal s = (\<forall>c \<in> set s. 48 \<le> (of_char c :: nat) \<and> (of_char c :: nat) \<le> 57)"

definition stamp_end :: "string \<Rightarrow> bool" where
  "stamp_end r = (let r = (if r \<noteq> [] \<and> of_char (List.last r) = (10 :: nat) then butlast r else r) in
     r = [] \<or> (hd r = CHR ''-'' \<and> tl r \<noteq> [] \<and> decimal (tl r)))"

definition stamp_at :: "string \<Rightarrow> string option" where
  "stamp_at s = (if 15 \<le> length s \<and> decimal (take 8 s) \<and> s ! 8 = CHR ''-'' \<and> decimal (take 6 (drop 9 s))
     \<and> stamp_end (drop 15 s) then Some (take 15 s) else None)"

fun find_stamp :: "string \<Rightarrow> string option" where
  "find_stamp [] = None"
| "find_stamp (c # cs) = (case stamp_at (c # cs) of Some m \<Rightarrow> Some m | None \<Rightarrow> find_stamp cs)"

definition report_night :: "(string \<Rightarrow> string option) \<Rightarrow> string \<Rightarrow> string option" where
  "report_night nk rid = (case find_stamp rid of None \<Rightarrow> None | Some m \<Rightarrow> nk m)"

text \<open>\<open>report_night(rid) or rid\<close>.\<close>

definition night_of_run :: "(string \<Rightarrow> string option) \<Rightarrow> string \<Rightarrow> string" where
  "night_of_run nk rid = (case report_night nk rid of None \<Rightarrow> rid | Some n \<Rightarrow> if n = [] then rid else n)"

definition observing_nights :: "(string \<Rightarrow> string option) \<Rightarrow> campaign \<Rightarrow> string list" where
  "observing_nights nk s = foldl (\<lambda>out rid. let key = night_of_run nk rid in if key \<in> set out then out else out @ [key])
     [] (c_nights s)"

definition night_at :: "(string \<Rightarrow> string option) \<Rightarrow> campaign \<Rightarrow> string \<Rightarrow> nat" where
  "night_at nk s tonight = (let nights = observing_nights nk s in length nights + (if tonight \<in> set nights then 0 else 1))"

definition is_armed :: "campaign \<Rightarrow> bool" where
  "is_armed s = (c_status s = ''dormant'' \<and> c_auto_resume s)"

section \<open>Set aside for the night\<close>

definition note_set_aside :: "campaign \<Rightarrow> string \<Rightarrow> string \<Rightarrow> string \<Rightarrow> string option \<Rightarrow> string option
    \<Rightarrow> pyfloat option \<Rightarrow> campaign res" where
  "note_set_aside s target reason night step kind ts =
     (if night = [] then Inl ValueError
      else case (case ts of None \<Rightarrow> Inr None | Some x \<Rightarrow> (case finite_arg x of Inl e \<Rightarrow> Inl e | Inr t \<Rightarrow> Inr (Some t))) of
        Inl e \<Rightarrow> Inl e
      | Inr t \<Rightarrow> Inr (s\<lparr>c_set_aside := c_set_aside s @ [\<lparr>as_target = target, as_step = step, as_reason = reason,
          as_night = night, as_kind = kind, as_ts = t, as_expired = False, as_cleared = False\<rparr>]\<rparr>))"

text \<open>The first of a list that meets a test, changed in place.\<close>

fun mark_first :: "('a \<Rightarrow> bool) \<Rightarrow> ('a \<Rightarrow> 'a) \<Rightarrow> 'a list \<Rightarrow> 'a list" where
  "mark_first p f [] = []"
| "mark_first p f (x # xs) = (if p x then f x # xs else x # mark_first p f xs)"

definition expirable :: "string \<Rightarrow> string \<Rightarrow> aside \<Rightarrow> bool" where
  "expirable target night r = (as_target r = target \<and> as_step r = None \<and> as_night r = night
     \<and> as_kind r = Some ''centring'' \<and> \<not> as_expired r)"

text \<open>The newest one is marked (\<open>reversed(self.set_aside)\<close>).\<close>

definition note_set_aside_expired :: "campaign \<Rightarrow> string \<Rightarrow> string \<Rightarrow> campaign" where
  "note_set_aside_expired s target night = s\<lparr>c_set_aside :=
     rev (mark_first (expirable target night) (\<lambda>r. r\<lparr>as_expired := True\<rparr>) (rev (c_set_aside s)))\<rparr>"

definition clearable :: "string list \<Rightarrow> string \<Rightarrow> aside \<Rightarrow> bool" where
  "clearable targets night r = (as_night r = night \<and> \<not> as_cleared r \<and> as_target r \<in> set targets)"

text \<open>The records of these targets are cleared; those that stood are returned.\<close>

definition note_set_aside_cleared :: "campaign \<Rightarrow> string list \<Rightarrow> string \<Rightarrow> campaign \<times> aside list" where
  "note_set_aside_cleared s targets night =
     (s\<lparr>c_set_aside := map (\<lambda>r. if clearable targets night r then r\<lparr>as_cleared := True\<rparr> else r) (c_set_aside s)\<rparr>,
      map (\<lambda>r. r\<lparr>as_cleared := True\<rparr>) (filter (\<lambda>r. clearable targets night r \<and> \<not> as_expired r) (c_set_aside s)))"

definition stands :: "string \<Rightarrow> aside \<Rightarrow> bool" where
  "stands night r = (as_night r = night \<and> \<not> as_expired r \<and> \<not> as_cleared r)"

definition set_aside_on :: "campaign \<Rightarrow> string \<Rightarrow> aside list" where
  "set_aside_on s night = filter (stands night) (c_set_aside s)"

definition spent_expiry :: "string \<Rightarrow> string \<Rightarrow> aside \<Rightarrow> bool" where
  "spent_expiry night target r = (as_night r = night \<and> as_expired r \<and> \<not> as_cleared r \<and> as_step r = None
     \<and> as_target r \<noteq> [] \<and> as_target r = target)"

definition set_aside_expiries_on :: "campaign \<Rightarrow> string \<Rightarrow> string \<Rightarrow> nat" where
  "set_aside_expiries_on s night target = length (filter (spent_expiry night target) (c_set_aside s))"

section \<open>Starved panels\<close>

text \<open>The nights, newest first: one that never reached the panel is stepped over, the first that was reached and
  does not count ends the walk.\<close>

fun streak_walk :: "string set \<Rightarrow> (string \<Rightarrow> aside list) \<Rightarrow> string set \<Rightarrow> nat \<Rightarrow> string option \<Rightarrow> string list
    \<Rightarrow> nat \<times> string option" where
  "streak_walk reached records banked streak kind [] = (streak, kind)"
| "streak_walk reached records banked streak kind (night # ns) =
     (if night \<notin> reached then streak_walk reached records banked streak kind ns
      else if records night = [] \<or> night \<in> banked then (streak, kind)
      else streak_walk reached records banked (streak + 1)
        (if kind = None then as_kind (List.last (records night)) else kind) ns)"

definition banked_nights :: "(string \<Rightarrow> string option) \<Rightarrow> campaign \<Rightarrow> string \<Rightarrow> string set" where
  "banked_nights nk s target = (night_of_run nk \<circ> fr_night) ` {f \<in> set (c_frames s). fr_target f = target \<and> effective f}"

definition reached_nights :: "(string \<Rightarrow> string option) \<Rightarrow> campaign \<Rightarrow> string \<Rightarrow> string set" where
  "reached_nights nk s target = as_night ` {r \<in> set (c_set_aside s). as_target r = target}
     \<union> (night_of_run nk \<circ> fr_night) ` {f \<in> set (c_frames s). fr_target f = target}"

definition starving_records :: "campaign \<Rightarrow> string \<Rightarrow> string list \<Rightarrow> string \<Rightarrow> aside list" where
  "starving_records s target kinds night = filter (\<lambda>r. as_target r = target \<and> as_step r = None \<and> as_night r = night
     \<and> (case as_kind r of None \<Rightarrow> False | Some k \<Rightarrow> k \<in> set kinds)) (c_set_aside s)"

definition set_aside_streak :: "(string \<Rightarrow> string option) \<Rightarrow> campaign \<Rightarrow> string \<Rightarrow> string option \<Rightarrow> string list
    \<Rightarrow> nat \<times> string option" where
  "set_aside_streak nk s target before kinds =
     (let nights = observing_nights nk s;
          nights = (case before of Some b \<Rightarrow> if b \<in> set nights then takeWhile (\<lambda>n. n \<noteq> b) nights else nights
            | None \<Rightarrow> nights) in
      streak_walk (reached_nights nk s target) (starving_records s target kinds) (banked_nights nk s target) 0 None
        (rev nights))"

definition earlier_starved_nights :: "(string \<Rightarrow> string option) \<Rightarrow> campaign \<Rightarrow> string \<Rightarrow> string \<Rightarrow> string list \<Rightarrow> nat" where
  "earlier_starved_nights nk s target night kinds =
     (if \<exists>r \<in> set (c_set_aside s). as_cleared r \<and> as_target r = target \<and> as_night r = night then 0
      else if \<exists>f \<in> set (c_frames s). fr_target f = target \<and> night_of_run nk (fr_night f) = night then 0
      else fst (set_aside_streak nk s target (Some night) kinds))"

section \<open>Locked angles and pier sides\<close>

text \<open>The first lock wins; what is returned is the lock in force.\<close>

definition lock_angle :: "campaign \<Rightarrow> string \<Rightarrow> pyfloat \<Rightarrow> rat \<Rightarrow> rat option \<Rightarrow> string \<Rightarrow> (campaign \<times> angle_lock) res" where
  "lock_angle s target pa solved exposed source =
     (case c_locks s target of
        Some held \<Rightarrow> Inr (s, held)
      | None \<Rightarrow> (case finite_arg pa of
          Inl e \<Rightarrow> Inl e
        | Inr a \<Rightarrow> (let l = \<lparr>lk_pa = a, lk_solved = solved, lk_exposed = exposed, lk_source = source\<rparr> in
            Inr (s\<lparr>c_locks := (c_locks s)(target \<mapsto> l)\<rparr>, l))))"

definition locked_angle :: "campaign \<Rightarrow> string \<Rightarrow> angle_lock option" where
  "locked_angle s target = c_locks s target"

text \<open>\<open>side in ("east", "west", None)\<close>.\<close>

definition side_word :: "string option \<Rightarrow> pier_side option res" where
  "side_word w = (case w of None \<Rightarrow> Inr None
     | Some x \<Rightarrow> if x = ''east'' then Inr (Some East) else if x = ''west'' then Inr (Some West) else Inl ValueError)"

definition note_group_pier :: "campaign \<Rightarrow> string \<Rightarrow> string \<Rightarrow> bool \<Rightarrow> string option \<Rightarrow> bool \<Rightarrow> campaign res" where
  "note_group_pier s gid night turned side verified =
     (if night = [] then Inl ValueError
      else case side_word side of Inl e \<Rightarrow> Inl e
      | Inr sd \<Rightarrow> Inr (s\<lparr>c_pier := (c_pier s)(gid \<mapsto> Some \<lparr>pn_night = night, pn_flipped = turned, pn_side = sd,
          pn_verified = (verified \<and> sd \<noteq> None)\<rparr>)\<rparr>))"

definition group_pier_on :: "campaign \<Rightarrow> string \<Rightarrow> string \<Rightarrow> pier_note option" where
  "group_pier_on s gid night = (case c_pier s gid of
     Some (Some p) \<Rightarrow> if pn_night p = night then Some p else None | _ \<Rightarrow> None)"

section \<open>What the plan still owes\<close>

text \<open>\<open>d.get(k, 0)\<close> and \<open>d[k] = d.get(k, 0) + 1\<close>.\<close>

definition dcount :: "string \<Rightarrow> (string \<times> int) list \<Rightarrow> int" where
  "dcount k d = (case map_of d k of None \<Rightarrow> 0 | Some n \<Rightarrow> n)"

definition bump :: "string \<Rightarrow> (string \<times> int) list \<Rightarrow> (string \<times> int) list" where
  "bump k d = AList.update k (dcount k d + 1) d"

definition accepted_by_step :: "campaign \<Rightarrow> (string \<times> int) list" where
  "accepted_by_step s = foldl (\<lambda>out f. if effective f then bump (fr_step f) out else out) [] (c_frames s)"

definition recorded_by_step :: "campaign \<Rightarrow> (string \<times> int) list" where
  "recorded_by_step s = foldl (\<lambda>out f. bump (fr_step f) out) [] (c_frames s)"

definition total_accepted :: "campaign \<Rightarrow> int" where
  "total_accepted s = sum_list (map snd (accepted_by_step s))"

definition counts :: "campaign \<Rightarrow> (string \<times> int) list" where
  "counts s = (if pl_mode (c_plan s) = Accepted then accepted_by_step s else recorded_by_step s)"

definition plan_steps :: "seq_plan \<Rightarrow> (plan_target \<times> plan_step) list" where
  "plan_steps p = concat (map (\<lambda>t. map (Pair t) (tg_steps t)) (pl_targets p))"

definition remaining_of :: "campaign \<Rightarrow> (string \<times> int) list" where
  "remaining_of s = foldl (\<lambda>out (t, st). AList.update (st_id st) (max 0 (st_count st - dcount (st_id st) (counts s))) out)
     [] (plan_steps (c_plan s))"

definition owed :: "campaign \<Rightarrow> int" where
  "owed s = sum_list (map snd (remaining_of s))"

definition owed_under :: "campaign \<Rightarrow> seq_plan \<Rightarrow> int" where
  "owed_under s p = owed (s\<lparr>c_plan := p\<rparr>)"

definition owes_more :: "campaign \<Rightarrow> seq_plan \<Rightarrow> bool" where
  "owes_more s p = (0 < owed_under s p)"

definition step_key :: "plan_target \<Rightarrow> plan_step \<Rightarrow> string" where
  "step_key t st = tg_id t @ '':'' @ st_id st"

definition done_map :: "campaign \<Rightarrow> (string \<times> int) list" where
  "done_map s = foldl (\<lambda>out (t, st). AList.update (step_key t st) (min (st_count st) (dcount (st_id st) (counts s))) out)
     [] (plan_steps (c_plan s))"

section \<open>The run's memory of tonight\<close>

text \<open>What \<open>SequenceEngine\<close> keeps of the set-asides of the night: a step's reason, a panel's reason as it was
  read at the start, its kind and time, and its expiries.\<close>

record run_memory =
  rm_steps :: "string \<rightharpoonup> string"
  rm_targets :: "string \<rightharpoonup> string"
  rm_meta :: "string \<rightharpoonup> string option \<times> rat option"
  rm_expiries :: "string \<Rightarrow> nat"

definition read_back :: "run_memory \<Rightarrow> aside \<Rightarrow> run_memory" where
  "read_back m r = (let tid = as_target r in
     if tid = [] then m
     else case as_step r of
       Some (c # cs) \<Rightarrow> m\<lparr>rm_steps := (rm_steps m)(tid @ '':'' @ c # cs \<mapsto> as_reason r)\<rparr>
     | _ \<Rightarrow> m\<lparr>rm_targets := (rm_targets m)(tid \<mapsto> as_reason r), rm_meta := (rm_meta m)(tid \<mapsto> (as_kind r, as_ts r))\<rparr>)"

text \<open>A start reads the records of tonight that stand (\<open>SequenceEngine.start\<close>).\<close>

definition start_memory :: "campaign \<Rightarrow> string \<Rightarrow> run_memory" where
  "start_memory s night = (foldl read_back \<lparr>rm_steps = Map.empty, rm_targets = Map.empty, rm_meta = Map.empty,
     rm_expiries = (\<lambda>_. 0)\<rparr> (set_aside_on s night))\<lparr>rm_expiries := set_aside_expiries_on s night\<rparr>"

type_synonym tonight = "campaign \<times> run_memory"

text \<open>\<open>_persist_set_aside\<close>; the memory keeps a whole panel's kind and time.\<close>

definition persist_set_aside :: "string \<Rightarrow> string \<Rightarrow> string \<Rightarrow> string option \<Rightarrow> string option \<Rightarrow> rat \<Rightarrow> tonight \<Rightarrow> tonight" where
  "persist_set_aside night tid reason step kind now sm = (case sm of (s, m) \<Rightarrow>
     let m = (if step = None then m\<lparr>rm_meta := (rm_meta m)(tid \<mapsto> (kind, Some now))\<rparr> else m) in
     (settle s (note_set_aside s tid reason night step kind (Some (Fin now))), m))"

definition may_expire :: "run_memory \<Rightarrow> string \<Rightarrow> bool" where
  "may_expire m tid = (case rm_meta m tid of
     Some (Some k, Some ts) \<Rightarrow> k = CENTRING \<and> rm_expiries m tid = 0 | _ \<Rightarrow> False)"

text \<open>\<open>_expire_set_aside\<close>, the part of the run state apart.\<close>

definition expire_panel :: "string \<Rightarrow> string \<Rightarrow> tonight \<Rightarrow> tonight" where
  "expire_panel night tid sm = (case sm of (s, m) \<Rightarrow>
     (note_set_aside_expired s tid night,
      m\<lparr>rm_expiries := (rm_expiries m)(tid := rm_expiries m tid + 1), rm_targets := (rm_targets m)(tid := None),
        rm_meta := (rm_meta m)(tid := None)\<rparr>))"

text \<open>The panel is set aside for the rest of the night: the memory says so, no record does.\<close>

definition gone_panel :: "string \<Rightarrow> run_memory \<Rightarrow> run_memory" where
  "gone_panel tid m = m\<lparr>rm_meta := (rm_meta m)(tid \<mapsto> (Some ''final'', (case rm_meta m tid of None \<Rightarrow> None | Some x \<Rightarrow> snd x)))\<rparr>"

text \<open>One selection's look at one panel (\<open>_expire_or_wait\<close>): is it held set aside in the group's run, has its
  window closed, its frozen stop.\<close>

definition expire_or_wait :: "string \<Rightarrow> string \<Rightarrow> rat \<Rightarrow> bool \<Rightarrow> bool \<Rightarrow> rat option \<Rightarrow> tonight \<Rightarrow> tonight" where
  "expire_or_wait night tid now held shut stop sm = (case sm of (s, m) \<Rightarrow>
     if \<not> (held \<and> may_expire m tid) then (s, m)
     else case rm_meta m tid of
       Some (_, Some ts) \<Rightarrow>
         (if shut then (s, gone_panel tid m)
          else if set_aside_expiry (Fin now) (Fin ts) 0 = Inr True then expire_panel night tid (s, m)
          else let wake = ts + SET_ASIDE_EXPIRY_S; wake = (case stop of None \<Rightarrow> wake | Some x \<Rightarrow> min wake x) in
            if wake \<le> now then (s, gone_panel tid m) else (s, m))
     | _ \<Rightarrow> (s, m))"

text \<open>The operator's retries, drained at a selection (\<open>_drain_set_aside_retries\<close>): the panels among them that
  the group's run still holds set aside.\<close>

definition forget_panel :: "campaign \<Rightarrow> run_memory \<Rightarrow> string \<Rightarrow> run_memory" where
  "forget_panel s m tid =
     (let steps = concat (map tg_steps (filter (\<lambda>t. tg_id t = tid) (pl_targets (c_plan s)))) in
      m\<lparr>rm_targets := (rm_targets m)(tid := None), rm_meta := (rm_meta m)(tid := None), rm_expiries := (rm_expiries m)(tid := 0),
        rm_steps := (rm_steps m) |` (- set (map (\<lambda>x. tid @ '':'' @ st_id x) steps))\<rparr>)"

definition drain_retries :: "string \<Rightarrow> string list \<Rightarrow> tonight \<Rightarrow> tonight" where
  "drain_retries night wanted sm = (case sm of (s, m) \<Rightarrow>
     (fst (note_set_aside_cleared s wanted night), foldl (forget_panel s) m wanted))"

text \<open>What happens to a campaign in one night: the run sets panels and steps aside, looks at a waiting panel,
  takes a retry up; it dies or ends and another starts, after retries of the stored session perhaps.\<close>

datatype night_event =
    Put_Aside string string "string option" "string option" rat
  | Look_At string rat bool bool "rat option"
  | Retry "string list"
  | Start_Again "string list"

fun night_step :: "string \<Rightarrow> tonight \<Rightarrow> night_event \<Rightarrow> tonight" where
  "night_step night sm (Put_Aside tid reason step kind now) = persist_set_aside night tid reason step kind now sm"
| "night_step night sm (Look_At tid now held shut stop) = expire_or_wait night tid now held shut stop sm"
| "night_step night sm (Retry wanted) = drain_retries night wanted sm"
| "night_step night sm (Start_Again wanted) =
     (let s = fst (note_set_aside_cleared (fst sm) wanted night) in (s, start_memory s night))"

text \<open>The resume arm's reading of the same records (\<open>standing_set_asides\<close>).\<close>

definition arm_expired :: "campaign \<Rightarrow> string \<Rightarrow> rat \<Rightarrow> aside \<Rightarrow> bool" where
  "arm_expired s night now r = (case as_ts r of None \<Rightarrow> False | Some ts \<Rightarrow>
     as_step r = None \<and> as_kind r = Some CENTRING
     \<and> set_aside_expiry (Fin now) (Fin ts) (int (set_aside_expiries_on s night (as_target r))) = Inr True)"

definition standing_set_asides :: "campaign \<Rightarrow> string \<Rightarrow> rat option \<Rightarrow> aside list" where
  "standing_set_asides s night now = (case now of None \<Rightarrow> set_aside_on s night
     | Some t \<Rightarrow> filter (\<lambda>r. \<not> arm_expired s night t r) (set_aside_on s night))"

section \<open>The books balance\<close>

lemma dcount_update [simp]: "dcount k (AList.update k' v d) = (if k = k' then v else dcount k d)"
  by (simp add: dcount_def update_conv)

lemma dcount_bump [simp]: "dcount k (bump k' d) = (if k = k' then dcount k d + 1 else dcount k d)"
  by (simp add: bump_def)

lemma dcount_Nil [simp]: "dcount k [] = 0"
  by (simp add: dcount_def)

text \<open>A dictionary built by counting.\<close>

lemma dcount_fold:
  "dcount k (foldl (\<lambda>out f. if p f then bump (key f) out else out) d fs)
     = dcount k d + int (length (filter (\<lambda>f. p f \<and> key f = k) fs))"
  by (induction fs arbitrary: d) auto

definition counted :: "campaign \<Rightarrow> frame_entry \<Rightarrow> bool" where
  "counted s f = (pl_mode (c_plan s) = Accepted \<longrightarrow> effective f)"

lemma dcount_counts:
  "dcount k (counts s) = int (length (filter (\<lambda>f. counted s f \<and> fr_step f = k) (c_frames s)))"
  using dcount_fold [of k "\<lambda>_. True" fr_step "[]" "c_frames s"] dcount_fold [of k effective fr_step "[]" "c_frames s"]
  by (simp add: counts_def counted_def accepted_by_step_def recorded_by_step_def)

text \<open>A dictionary filled with fresh keys lists them in the order they were put in.\<close>

lemma update_fresh: "k \<notin> fst ` set d \<Longrightarrow> AList.update k v d = d @ [(k, v)]"
  by (induction d) auto

lemma fold_update_fresh:
  assumes "distinct (map key xs)" "key ` set xs \<inter> fst ` set d = {}"
  shows "foldl (\<lambda>out x. AList.update (key x) (v x) out) d xs = d @ map (\<lambda>x. (key x, v x)) xs"
  using assms by (induction xs arbitrary: d) (auto simp: update_fresh)

definition step_ids :: "seq_plan \<Rightarrow> string list" where
  "step_ids p = map (st_id \<circ> snd) (plan_steps p)"

definition step_keys :: "seq_plan \<Rightarrow> string list" where
  "step_keys p = map (\<lambda>(t, st). step_key t st) (plan_steps p)"

lemma remaining_map:
  assumes "distinct (step_ids (c_plan s))"
  shows "remaining_of s = map (\<lambda>(t, st). (st_id st, max 0 (st_count st - dcount (st_id st) (counts s)))) (plan_steps (c_plan s))"
  using fold_update_fresh [of "st_id \<circ> snd" "plan_steps (c_plan s)" "[]" "\<lambda>x. max 0 (st_count (snd x) - dcount (st_id (snd x)) (counts s))"]
    assms by (simp add: remaining_of_def step_ids_def case_prod_unfold comp_def)

lemma done_map_eq:
  assumes "distinct (step_keys (c_plan s))"
  shows "done_map s = map (\<lambda>(t, st). (step_key t st, min (st_count st) (dcount (st_id st) (counts s)))) (plan_steps (c_plan s))"
  using fold_update_fresh [of "\<lambda>x. step_key (fst x) (snd x)" "plan_steps (c_plan s)" "[]" "\<lambda>x. min (st_count (snd x)) (dcount (st_id (snd x)) (counts s))"]
    assms by (simp add: done_map_def step_keys_def case_prod_unfold)

lemma dcount_map:
  assumes "distinct (map key xs)" "x \<in> set xs"
  shows "dcount (key x) (map (\<lambda>x. (key x, v x)) xs) = v x"
proof -
  have "map_of (map (\<lambda>x. (key x, v x)) xs) (key x) = Some (v x)"
    using assms by (intro map_of_is_SomeI) (auto simp: comp_def)
  then show ?thesis
    by (simp add: dcount_def)
qed

lemma dcount_remaining:
  assumes "distinct (step_ids (c_plan s))" "(t, st) \<in> set (plan_steps (c_plan s))"
  shows "dcount (st_id st) (remaining_of s) = max 0 (st_count st - dcount (st_id st) (counts s))"
  using dcount_map [of "st_id \<circ> snd" _ "(t, st)" "\<lambda>x. max 0 (st_count (snd x) - dcount (st_id (snd x)) (counts s))"] assms
  by (simp add: remaining_map step_ids_def case_prod_unfold comp_def)

lemma dcount_done:
  assumes "distinct (step_keys (c_plan s))" "(t, st) \<in> set (plan_steps (c_plan s))"
  shows "dcount (step_key t st) (done_map s) = min (st_count st) (dcount (st_id st) (counts s))"
  using dcount_map [of "\<lambda>x. step_key (fst x) (snd x)" _ "(t, st)" "\<lambda>x. min (st_count (snd x)) (dcount (st_id (snd x)) (counts s))"] assms
  by (simp add: done_map_eq step_keys_def case_prod_unfold)

lemma owed_sum:
  assumes "distinct (step_ids (c_plan s))"
  shows "owed s = (\<Sum>(t, st) \<leftarrow> plan_steps (c_plan s). max 0 (st_count st - dcount (st_id st) (counts s)))"
  using assms by (simp add: owed_def remaining_map case_prod_unfold comp_def)

lemma sum_list_zero: "(\<And>x. x \<in> set xs \<Longrightarrow> 0 \<le> f x) \<Longrightarrow> ((\<Sum>x \<leftarrow> xs. f x) = (0 :: int)) = (\<forall>x \<in> set xs. f x = 0)"
proof (induction xs)
  case (Cons x xs)
  have "0 \<le> (\<Sum>x \<leftarrow> xs. f x)"
    using Cons.prems by (intro sum_list_nonneg) auto
  with Cons show ?case
    by (auto simp: add_nonneg_eq_0_iff)
qed simp

text \<open>The frames a step has banked that its plan credits: all of them where attempts count; where accepted
  frames count, those the operator accepted and, without a word of the operator's, those the automatic
  verdict accepted.\<close>

definition credited :: "campaign \<Rightarrow> string \<Rightarrow> int" where
  "credited s k = int (length [f \<leftarrow> c_frames s. fr_step f = k \<and> (pl_mode (c_plan s) = Attempts
     \<or> fr_override f = Some ''accept'' \<or> fr_override f = None \<and> fr_auto f)])"

lemma credited_counts: "dcount k (counts s) = credited s k"
proof -
  have "(counted s f \<and> fr_step f = k) = (fr_step f = k \<and> (pl_mode (c_plan s) = Attempts
     \<or> fr_override f = Some ''accept'' \<or> fr_override f = None \<and> fr_auto f))" for f
    by (cases "pl_mode (c_plan s)") (auto simp: counted_def effective_def split: option.split)
  then show ?thesis
    by (simp add: dcount_counts credited_def)
qed

lemma sum_list_split:
  "(\<And>x. x \<in> set xs \<Longrightarrow> f x + g x = h x) \<Longrightarrow> (\<Sum>x \<leftarrow> xs. f x) + (\<Sum>x \<leftarrow> xs. g x) = (\<Sum>x \<leftarrow> xs. h x :: int)"
  by (induction xs) (auto simp: algebra_simps)

text \<open>C14. The ledger balances, against the frames themselves. For every step of the plan, a resumed run is
  seeded with the frames its plan credits, at most the count, and owes what they leave of the count; what
  the campaign owes is the sum of that over the plan, so that it and the seeded frames make up the plan's
  frames; and nothing is owed just where every step has its count in credited frames.\<close>

theorem ledger_balances:
  assumes "distinct (step_ids (c_plan s))" "distinct (step_keys (c_plan s))"
  shows "(\<forall>(t, st) \<in> set (plan_steps (c_plan s)).
      dcount (step_key t st) (done_map s) = min (st_count st) (credited s (st_id st))
      \<and> dcount (st_id st) (remaining_of s) = max 0 (st_count st - credited s (st_id st)))
    \<and> owed s = (\<Sum>(t, st) \<leftarrow> plan_steps (c_plan s). max 0 (st_count st - credited s (st_id st)))
    \<and> (\<Sum>(t, st) \<leftarrow> plan_steps (c_plan s). dcount (step_key t st) (done_map s)) + owed s
      = (\<Sum>(t, st) \<leftarrow> plan_steps (c_plan s). st_count st)
    \<and> (owed s = 0) = (\<forall>(t, st) \<in> set (plan_steps (c_plan s)). st_count st \<le> credited s (st_id st))"
proof (intro conjI)
  have seeded: "dcount (step_key t st) (done_map s) = min (st_count st) (credited s (st_id st))"
    and left: "dcount (st_id st) (remaining_of s) = max 0 (st_count st - credited s (st_id st))"
    if "(t, st) \<in> set (plan_steps (c_plan s))" for t st
    using dcount_done [OF assms(2) that] dcount_remaining [OF assms(1) that] by (simp_all add: credited_counts)
  then show "\<forall>(t, st) \<in> set (plan_steps (c_plan s)).
      dcount (step_key t st) (done_map s) = min (st_count st) (credited s (st_id st))
      \<and> dcount (st_id st) (remaining_of s) = max 0 (st_count st - credited s (st_id st))"
    by auto
  show sum: "owed s = (\<Sum>(t, st) \<leftarrow> plan_steps (c_plan s). max 0 (st_count st - credited s (st_id st)))"
    using owed_sum [OF assms(1)] by (simp add: credited_counts)
  show "(\<Sum>(t, st) \<leftarrow> plan_steps (c_plan s). dcount (step_key t st) (done_map s)) + owed s
      = (\<Sum>(t, st) \<leftarrow> plan_steps (c_plan s). st_count st)"
    unfolding sum by (rule sum_list_split) (auto simp: seeded)
  show "(owed s = 0) = (\<forall>(t, st) \<in> set (plan_steps (c_plan s)). st_count st \<le> credited s (st_id st))"
    unfolding sum by (subst sum_list_zero) (auto simp: max_def split: if_splits)
qed

text \<open>A frame is banked; it pays where it counts and its step is still short.\<close>

definition bank :: "campaign \<Rightarrow> frame_entry \<Rightarrow> campaign" where
  "bank s f = s\<lparr>c_frames := c_frames s @ [f]\<rparr>"

definition pays :: "campaign \<Rightarrow> frame_entry \<Rightarrow> int" where
  "pays s f = (if counted s f \<and> 0 < dcount (fr_step f) (remaining_of s) then 1 else 0)"

lemma counts_bank: "dcount k (counts (bank s f)) = dcount k (counts s) + (if counted s f \<and> fr_step f = k then 1 else 0)"
  by (auto simp: dcount_counts bank_def counted_def)

lemma sum_one_changed:
  fixes g h :: "'a \<Rightarrow> int"
  assumes "distinct (map key xs)" "x \<in> set xs" "\<And>y. y \<in> set xs \<Longrightarrow> key y \<noteq> key x \<Longrightarrow> h y = g y" "h x = g x - c"
  shows "(\<Sum>y \<leftarrow> xs. h y) = (\<Sum>y \<leftarrow> xs. g y) - c"
  using assms
proof (induction xs)
  case (Cons z zs)
  show ?case
  proof (cases "z = x")
    case True
    then have "map h zs = map g zs"
      using Cons.prems(1,3) by (intro map_cong refl) (metis distinct.simps(2) image_eqI list.set_intros(2) list.set_map list.simps(9))
    then have "(\<Sum>y \<leftarrow> zs. h y) = (\<Sum>y \<leftarrow> zs. g y)"
      by (rule arg_cong)
    with True Cons.prems(4) show ?thesis by simp
  next
    case False
    then have "x \<in> set zs"
      using Cons.prems(2) by simp
    moreover from this have "h z = g z"
      using Cons.prems(1,3) by (metis distinct.simps(2) image_eqI list.set_intros(1) list.set_map list.simps(9))
    moreover have "(\<Sum>y \<leftarrow> zs. h y) = (\<Sum>y \<leftarrow> zs. g y) - c"
      using Cons.prems calculation(1) by (intro Cons.IH) auto
    ultimately show ?thesis
      by simp
  qed
qed simp

lemma dcount_other: "k \<notin> fst ` set d \<Longrightarrow> dcount k d = 0"
  by (simp add: dcount_def map_of_eq_None_iff [THEN iffD2])

lemma plan_bank [simp]: "c_plan (bank s f) = c_plan s"
  by (simp add: bank_def)

lemma owed_bank:
  assumes "distinct (step_ids (c_plan s))"
  shows "owed (bank s f) = owed s - pays s f"
proof (cases "counted s f \<and> (\<exists>x \<in> set (plan_steps (c_plan s)). st_id (snd x) = fr_step f)")
  case True
  then obtain x where x: "x \<in> set (plan_steps (c_plan s))" "st_id (snd x) = fr_step f"
    by blast
  define due where "due c y = max 0 (st_count (snd y) - dcount (st_id (snd y)) (counts c))" for c :: campaign and y :: "plan_target \<times> plan_step"
  have sums: "owed c = (\<Sum>y \<leftarrow> plan_steps (c_plan s). due c y)" if "c_plan c = c_plan s" for c
    using owed_sum [of c] assms that by (simp add: due_def case_prod_unfold)
  have "(\<Sum>y \<leftarrow> plan_steps (c_plan s). due (bank s f) y) = (\<Sum>y \<leftarrow> plan_steps (c_plan s). due s y) - pays s f"
  proof (rule sum_one_changed [where key = "st_id \<circ> snd"])
    show "distinct (map (st_id \<circ> snd) (plan_steps (c_plan s)))"
      using assms by (simp add: step_ids_def)
    show "due (bank s f) y = due s y" if "(st_id \<circ> snd) y \<noteq> (st_id \<circ> snd) x" for y
      using that x(2) by (auto simp: due_def counts_bank)
    show "due (bank s f) x = due s x - pays s f"
      using dcount_remaining [OF assms, of "fst x" "snd x"] x True
      by (auto simp: due_def pays_def counts_bank)
  qed (rule x)
  then show ?thesis
    using sums [of "bank s f"] sums [of s] by simp
next
  case False
  have none: "pays s f = 0"
  proof (cases "counted s f")
    case True
    with False have "fr_step f \<notin> fst ` set (remaining_of s)"
      by (force simp: remaining_map [OF assms])
    then show ?thesis
      by (simp add: pays_def dcount_other)
  qed (simp add: pays_def)
  have "map (\<lambda>(t, st). max 0 (st_count st - dcount (st_id st) (counts (bank s f)))) (plan_steps (c_plan s))
      = map (\<lambda>(t, st). max 0 (st_count st - dcount (st_id st) (counts s))) (plan_steps (c_plan s))"
    using False by (force simp: counts_bank)
  then have "(\<Sum>(t, st) \<leftarrow> plan_steps (c_plan s). max 0 (st_count st - dcount (st_id st) (counts (bank s f))))
      = (\<Sum>(t, st) \<leftarrow> plan_steps (c_plan s). max 0 (st_count st - dcount (st_id st) (counts s)))"
    by (rule arg_cong)
  with none show ?thesis
    using owed_sum [of "bank s f"] owed_sum [of s] assms by simp
qed

text \<open>Over any frames of any nights the debt of a campaign goes down by exactly the frames that pay, one for
  one, and never below nothing: a frame that the grader refuses pays nothing in a plan that counts accepted
  frames, and neither does a frame of a step that has its count. So a campaign is over after as many paying
  frames as it owed.\<close>

theorem every_paying_frame_pays_once:
  assumes "distinct (step_ids (c_plan s))"
  shows "owed (run bank s fs) = owed s - spent bank pays s fs \<and> 0 \<le> owed (run bank s fs)"
proof -
  have plan: "c_plan (run bank s fs) = c_plan s" for s fs
    by (induction fs arbitrary: s) simp_all
  have "owed (run bank s fs) = owed s - spent bank pays s fs"
    using assms
  proof (induction fs arbitrary: s)
    case (Cons f fs)
    then show ?case
      using owed_bank [of s f] by simp
  qed simp
  moreover have "0 \<le> owed (run bank s fs)"
    using owed_sum [of "run bank s fs"] assms plan [of s fs] by (auto simp: case_prod_unfold intro!: sum_list_nonneg)
  ultimately show ?thesis
    by simp
qed

section \<open>Nights and streaks\<close>

text \<open>A start of a run appends its report id.\<close>

definition start_run :: "campaign \<Rightarrow> string \<Rightarrow> campaign" where
  "start_run s rid = s\<lparr>c_nights := c_nights s @ [rid]\<rparr>"

lemma observing_start: "observing_nights nk (start_run s rid) =
    (if night_of_run nk rid \<in> set (observing_nights nk s) then observing_nights nk s
     else observing_nights nk s @ [night_of_run nk rid])"
  by (simp add: observing_nights_def start_run_def Let_def)

lemma night_at_start: "night_of_run nk rid = tonight \<Longrightarrow> night_at nk (start_run s rid) tonight = night_at nk s tonight"
  by (auto simp: night_at_def observing_start)

text \<open>The number of a night holds through the night: whatever number CONTINUE announces for tonight, after any
  runs started tonight the session has observed that many nights, and announces that number again.\<close>

theorem night_number_holds:
  assumes "rids \<noteq> []" "\<And>rid. rid \<in> set rids \<Longrightarrow> night_of_run nk rid = tonight"
  shows "length (observing_nights nk (run start_run s rids)) = night_at nk s tonight
    \<and> night_at nk (run start_run s rids) tonight = night_at nk s tonight"
  using assms
proof (induction rids arbitrary: s)
  case (Cons rid rids)
  then have key: "night_of_run nk rid = tonight"
    by simp
  show ?case
  proof (cases "rids = []")
    case True
    then show ?thesis
      using key by (auto simp: night_at_def observing_start)
  next
    case False
    then show ?thesis
      using Cons.IH [of "start_run s rid"] Cons.prems(2) night_at_start [OF key] by simp
  qed
qed simp

text \<open>The nights that reached the panel, newest first, as far as they count.\<close>

definition tried_in_vain :: "(string \<Rightarrow> string option) \<Rightarrow> campaign \<Rightarrow> string \<Rightarrow> string list \<Rightarrow> string list \<Rightarrow> string list" where
  "tried_in_vain nk s target kinds nights =
     takeWhile (\<lambda>n. starving_records s target kinds n \<noteq> [] \<and> n \<notin> banked_nights nk s target)
       (filter (\<lambda>n. n \<in> reached_nights nk s target) (rev nights))"

lemma starving_kind: "r \<in> set (starving_records s target kinds n) \<Longrightarrow> as_kind r \<noteq> None"
  by (auto simp: starving_records_def split: option.splits)

lemma walk_started:
  "kind \<noteq> None \<Longrightarrow> streak_walk reached records banked k kind ns =
     (k + length (takeWhile (\<lambda>n. records n \<noteq> [] \<and> n \<notin> banked) (filter (\<lambda>n. n \<in> reached) ns)), kind)"
  by (induction ns arbitrary: k) auto

lemma walk_eq:
  assumes "\<And>n r. r \<in> set (records n) \<Longrightarrow> as_kind r \<noteq> None"
  shows "streak_walk reached records banked k None ns =
    (let w = takeWhile (\<lambda>n. records n \<noteq> [] \<and> n \<notin> banked) (filter (\<lambda>n. n \<in> reached) ns) in
     (k + length w, if w = [] then None else as_kind (List.last (records (hd w)))))"
proof (induction ns arbitrary: k)
  case (Cons n ns)
  have "as_kind (List.last (records n)) \<noteq> None" if "records n \<noteq> []"
    using assms [of "List.last (records n)" n] that by simp
  then show ?case
    using Cons by (auto simp: Let_def walk_started)
qed (simp add: Let_def)

lemma takeWhile_absent: "b \<notin> set ns \<Longrightarrow> takeWhile (\<lambda>n. n \<noteq> b) ns = ns"
  by (induction ns) auto

text \<open>The nights the walk looks at.\<close>

definition nights_before :: "string option \<Rightarrow> string list \<Rightarrow> string list" where
  "nights_before b nights = (case b of Some b \<Rightarrow> takeWhile (\<lambda>n. n \<noteq> b) nights | None \<Rightarrow> nights)"

lemma nights_before_None [simp]: "nights_before None nights = nights"
  by (simp add: nights_before_def)

text \<open>A panel's streak is the run of the newest nights that tried it in vain: among the nights that hold
  anything of it, the newest ones in a row with a whole record of a counting kind and no accepted frame; the kind
  is the newest record's of the newest of them.\<close>

lemma streak_eq:
  "set_aside_streak nk s target before kinds =
    (let w = tried_in_vain nk s target kinds (nights_before before (observing_nights nk s)) in
     (length w, if w = [] then None else as_kind (List.last (starving_records s target kinds (hd w)))))"
proof -
  have "(case before of Some b \<Rightarrow> if b \<in> set nights then takeWhile (\<lambda>n. n \<noteq> b) nights else nights | None \<Rightarrow> nights)
      = nights_before before nights" for nights
    by (auto simp: nights_before_def takeWhile_absent split: option.split)
  then show ?thesis
    unfolding set_aside_streak_def tried_in_vain_def
    by (simp add: walk_eq [OF starving_kind] Let_def)
qed

lemma reached_start [simp]: "reached_nights nk (start_run s rid) target = reached_nights nk s target"
  "banked_nights nk (start_run s rid) target = banked_nights nk s target"
  "starving_records (start_run s rid) = starving_records s" "c_set_aside (start_run s rid) = c_set_aside s"
  "c_frames (start_run s rid) = c_frames s"
  by (simp_all add: reached_nights_def banked_nights_def start_run_def starving_records_def fun_eq_iff)

lemma tried_start:
  assumes "night_of_run nk rid \<notin> reached_nights nk s target"
  shows "tried_in_vain nk (start_run s rid) target kinds (observing_nights nk (start_run s rid))
    = tried_in_vain nk s target kinds (observing_nights nk s)"
  using assms by (simp add: tried_in_vain_def observing_start)

text \<open>A night that has not reached a panel moves nothing: as a run starts, the streak the progress card
  shows is what it was, and on a night that is new the driver reads that same number as the nights before.\<close>

theorem idle_nights_change_no_streak:
  assumes "night_of_run nk rid \<notin> reached_nights nk s target"
  shows "set_aside_streak nk (start_run s rid) target None kinds = set_aside_streak nk s target None kinds
    \<and> (night_of_run nk rid \<notin> set (observing_nights nk s) \<longrightarrow>
       earlier_starved_nights nk (start_run s rid) target (night_of_run nk rid) kinds
         = fst (set_aside_streak nk s target None kinds))"
proof -
  have "set_aside_streak nk (start_run s rid) target None kinds = set_aside_streak nk s target None kinds"
    by (simp add: streak_eq tried_start [OF assms] cong: if_cong)
  moreover have "earlier_starved_nights nk (start_run s rid) target (night_of_run nk rid) kinds
      = fst (set_aside_streak nk s target None kinds)" if "night_of_run nk rid \<notin> set (observing_nights nk s)"
  proof -
    have before: "nights_before (Some (night_of_run nk rid)) (observing_nights nk (start_run s rid)) = observing_nights nk s"
      using that by (auto simp: nights_before_def observing_start takeWhile_append takeWhile_absent)
    have "tried_in_vain nk (start_run s rid) target kinds nights = tried_in_vain nk s target kinds nights" for nights
      by (simp add: tried_in_vain_def)
    then have "set_aside_streak nk (start_run s rid) target (Some (night_of_run nk rid)) kinds = set_aside_streak nk s target None kinds"
      by (simp add: streak_eq before cong: if_cong)
    moreover have "\<not> (\<exists>r \<in> set (c_set_aside s). as_cleared r \<and> as_target r = target \<and> as_night r = night_of_run nk rid)"
        "\<not> (\<exists>f \<in> set (c_frames s). fr_target f = target \<and> night_of_run nk (fr_night f) = night_of_run nk rid)"
      using assms by (force simp: reached_nights_def)+
    ultimately show ?thesis
      unfolding earlier_starved_nights_def reached_start by (simp only: if_False)
  qed
  ultimately show ?thesis
    by blast
qed

section \<open>Locked angles\<close>

text \<open>A request to lock: the target, the angle as the solve gave it, the two times and the source.\<close>

type_synonym lock_request = "string \<times> pyfloat \<times> rat \<times> rat option \<times> string"

definition lock_step :: "campaign \<Rightarrow> lock_request \<Rightarrow> campaign" where
  "lock_step s q = (case q of (target, pa, solved, exposed, source) \<Rightarrow>
     settle s (case lock_angle s target pa solved exposed source of Inl e \<Rightarrow> Inl e | Inr (s', _) \<Rightarrow> Inr s'))"

fun first_finite :: "string \<Rightarrow> lock_request list \<Rightarrow> angle_lock option" where
  "first_finite target [] = None"
| "first_finite target ((t, pa, solved, exposed, source) # qs) = (case pa of
     Fin a \<Rightarrow> if t = target then Some \<lparr>lk_pa = a, lk_solved = solved, lk_exposed = exposed, lk_source = source\<rparr>
       else first_finite target qs
   | _ \<Rightarrow> first_finite target qs)"

lemma lock_step_eq: "c_locks (lock_step s (t, pa, solved, exposed, source)) target =
    (if t = target \<and> c_locks s target = None then first_finite target [(t, pa, solved, exposed, source)] else c_locks s target)"
  by (auto simp: lock_step_def lock_angle_def finite_arg_def Let_def split: option.split pyfloat.split)

text \<open>The first finite angle locks a target for good: over any requests of any nights, in any order, every
  one of them is answered with that lock, and an angle that is not a number locks nothing.\<close>

theorem first_lock_wins:
  "locked_angle (run lock_step s qs) target =
     (case locked_angle s target of Some l \<Rightarrow> Some l | None \<Rightarrow> first_finite target qs)
   \<and> (case locked_angle (run lock_step s qs) target of None \<Rightarrow> True
      | Some l \<Rightarrow> lock_angle (run lock_step s qs) target pa solved exposed source = Inr (run lock_step s qs, l))"
proof
  show "locked_angle (run lock_step s qs) target =
     (case locked_angle s target of Some l \<Rightarrow> Some l | None \<Rightarrow> first_finite target qs)"
  proof (induction qs arbitrary: s)
    case (Cons q qs)
    obtain t pa solved exposed source where q: "q = (t, pa, solved, exposed, source)"
      by (cases q)
    show ?case
      using Cons [of "lock_step s q"]
      by (auto simp: q locked_angle_def lock_step_eq split: option.split pyfloat.split)
  qed (simp add: locked_angle_def split: option.split)
qed (simp add: locked_angle_def lock_angle_def split: option.split)

section \<open>One expiry a night\<close>

text \<open>The records of a panel in a night; what a start keeps of them.\<close>

definition records_of :: "string \<Rightarrow> string \<Rightarrow> campaign \<Rightarrow> aside list" where
  "records_of night tid s = filter (\<lambda>r. as_target r = tid \<and> as_night r = night) (c_set_aside s)"

definition whole :: "aside \<Rightarrow> bool" where
  "whole r = (as_step r = None \<and> \<not> as_expired r \<and> \<not> as_cleared r)"

definition kept_meta :: "aside list \<Rightarrow> (string option \<times> rat option) option" where
  "kept_meta rs = (let w = filter whole rs in if w = [] then None else Some (as_kind (List.last w), as_ts (List.last w)))"

lemma read_back_meta:
  assumes "tid \<noteq> []" "\<forall>r \<in> set rs. as_step r \<noteq> Some []"
  shows "rm_meta (foldl read_back m rs) tid = (let w = filter (\<lambda>r. as_target r = tid \<and> as_step r = None) rs in
    if w = [] then rm_meta m tid else Some (as_kind (List.last w), as_ts (List.last w)))"
  using assms(2)
proof (induction rs arbitrary: m)
  case (Cons r rs)
  have "rm_meta (read_back m r) tid = (if as_target r = tid \<and> as_step r = None then Some (as_kind r, as_ts r) else rm_meta m tid)"
    using Cons.prems assms(1) by (auto simp: read_back_def Let_def split: option.split list.split)
  then show ?case
    using Cons by (auto simp: Let_def)
qed simp

lemma start_meta:
  assumes "tid \<noteq> []" "\<forall>r \<in> set (c_set_aside s). as_step r \<noteq> Some []"
  shows "rm_meta (start_memory s night) tid = kept_meta (records_of night tid s)"
proof -
  have "filter (\<lambda>r. as_target r = tid \<and> as_step r = None) (set_aside_on s night) = filter whole (records_of night tid s)"
    by (auto simp: set_aside_on_def records_of_def stands_def whole_def intro!: filter_cong)
  then show ?thesis
    using read_back_meta [OF assms(1), of "set_aside_on s night"] assms(2)
    by (simp add: start_memory_def kept_meta_def Let_def set_aside_on_def)
qed

lemma start_expiries [simp]: "rm_expiries (start_memory s night) = set_aside_expiries_on s night"
  by (simp add: start_memory_def)

lemma expiries_records:
  "tid \<noteq> [] \<Longrightarrow> set_aside_expiries_on s night tid
    = length (filter (\<lambda>r. as_expired r \<and> \<not> as_cleared r \<and> as_step r = None) (records_of night tid s))"
  by (auto simp: set_aside_expiries_on_def records_of_def spent_expiry_def intro!: arg_cong [where f = length] filter_cong)

text \<open>What the three writers do to a panel's records.\<close>

lemma filter_mark_first:
  "(\<And>x. p x \<Longrightarrow> q x \<and> q (f x)) \<Longrightarrow> filter q (mark_first p f xs) = mark_first p f (filter q xs)"
  by (induction xs) auto

lemma filter_mark_other:
  "(\<And>x. p x \<Longrightarrow> \<not> q x \<and> \<not> q (f x)) \<Longrightarrow> filter q (mark_first p f xs) = filter q xs"
  by (induction xs) auto

lemma mark_first_split:
  "mark_first p f (xs @ y # ys) = xs @ f y # ys" if "\<forall>x \<in> set xs. \<not> p x" "p y"
  using that by (induction xs) auto

lemma records_put:
  assumes "note_set_aside s target reason night step kind (Some (Fin now)) = Inr s'"
  shows "records_of night tid s' = records_of night tid s @ (if tid = target then [\<lparr>as_target = target, as_step = step,
    as_reason = reason, as_night = night, as_kind = kind, as_ts = Some now, as_expired = False, as_cleared = False\<rparr>] else [])"
  using assms by (auto simp: note_set_aside_def records_of_def split: if_splits)

lemma records_expired:
  "records_of night tid (note_set_aside_expired s target night) =
    (if tid = target then rev (mark_first (expirable target night) (\<lambda>r. r\<lparr>as_expired := True\<rparr>) (rev (records_of night tid s)))
     else records_of night tid s)"
proof -
  let ?q = "\<lambda>r. as_target r = tid \<and> as_night r = night" and ?p = "expirable target night" and ?f = "\<lambda>r. r\<lparr>as_expired := True\<rparr>"
  have "filter ?q (mark_first ?p ?f (rev (c_set_aside s)))
      = (if tid = target then mark_first ?p ?f (filter ?q (rev (c_set_aside s))) else filter ?q (rev (c_set_aside s)))"
    using filter_mark_first [of ?p ?q ?f] filter_mark_other [of ?p ?q ?f] by (auto simp: expirable_def)
  then show ?thesis
    by (simp add: note_set_aside_expired_def records_of_def rev_filter [symmetric])
qed

lemma records_cleared:
  "records_of night tid (fst (note_set_aside_cleared s wanted night)) =
    (if tid \<in> set wanted then map (\<lambda>r. r\<lparr>as_cleared := True\<rparr>) (records_of night tid s) else records_of night tid s)"
proof -
  have "records_of night tid (fst (note_set_aside_cleared s wanted night)) =
      map (\<lambda>r. if clearable wanted night r then r\<lparr>as_cleared := True\<rparr> else r) (records_of night tid s)"
    by (auto simp: note_set_aside_cleared_def records_of_def filter_map comp_def intro!: arg_cong [where f = "map _"] filter_cong)
  also have "\<dots> = (if tid \<in> set wanted then map (\<lambda>r. r\<lparr>as_cleared := True\<rparr>) (records_of night tid s) else records_of night tid s)"
    by (auto simp: records_of_def clearable_def intro!: map_cong map_idI)
  finally show ?thesis .
qed

text \<open>The ledger and the memory agree on a panel: its cleared records are the older ones; the expiries are the
  records that expired, one at most; a centring set-aside that stands is the only whole one; and the memory holds
  the newest whole one, or that a centring one is final.\<close>

definition spent_expiries :: "aside list \<Rightarrow> nat" where
  "spent_expiries rs = length (filter (\<lambda>r. as_expired r \<and> \<not> as_cleared r \<and> as_step r = None) rs)"

definition panel_ok :: "aside list \<Rightarrow> nat \<Rightarrow> (string option \<times> rat option) option \<Rightarrow> bool" where
  "panel_ok rs n meta = (sorted_wrt (\<lambda>x y. as_cleared y \<longrightarrow> as_cleared x) rs \<and> n = spent_expiries rs \<and> n \<le> 1
     \<and> (\<forall>ts. kept_meta rs = Some (Some CENTRING, ts) \<longrightarrow> length (filter whole rs) = 1)
     \<and> (meta = kept_meta rs \<or> (\<exists>ts. kept_meta rs = Some (Some CENTRING, ts) \<and> meta = Some (Some ''final'', ts))))"

lemma panel_put:
  assumes "panel_ok rs n meta" "whole r" "as_kind r = Some CENTRING \<longrightarrow> meta = None"
  shows "panel_ok (rs @ [r]) n (Some (as_kind r, as_ts r))"
  using assms by (auto simp: panel_ok_def sorted_wrt_append whole_def kept_meta_def spent_expiries_def Let_def split: if_splits)

lemma panel_put_step:
  assumes "panel_ok rs n meta" "as_step r \<noteq> None" "\<not> as_cleared r"
  shows "panel_ok (rs @ [r]) n meta"
proof -
  have "filter whole (rs @ [r]) = filter whole rs" "spent_expiries (rs @ [r]) = spent_expiries rs"
    using assms(2) by (simp_all add: whole_def spent_expiries_def)
  then show ?thesis
    using assms by (simp add: panel_ok_def sorted_wrt_append kept_meta_def)
qed

lemma final_kind: "CENTRING \<noteq> ''final''" "''final'' \<noteq> CENTRING"
  by (simp_all add: CENTRING_def)

lemma panel_expire:
  assumes ok: "panel_ok rs 0 (Some (Some CENTRING, ts))"
    and own: "\<forall>r \<in> set rs. as_target r = tid \<and> as_night r = night"
  shows "panel_ok (rev (mark_first (expirable tid night) (\<lambda>r. r\<lparr>as_expired := True\<rparr>) (rev rs))) 1 None"
proof -
  let ?f = "\<lambda>r. r\<lparr>as_expired := True\<rparr>"
  from ok have kept: "kept_meta rs = Some (Some CENTRING, ts)"
    by (auto simp: panel_ok_def final_kind)
  with ok obtain r where r: "filter whole rs = [r]" "as_kind r = Some CENTRING"
    by (auto simp: panel_ok_def kept_meta_def Let_def length_Suc_conv split: if_splits)
  then obtain xs ys where rs: "rs = xs @ r # ys" "\<forall>x \<in> set xs. \<not> whole x" "whole r" "filter whole ys = []"
    by (auto simp: filter_eq_Cons_iff)
  have "\<not> expirable tid night y" if "y \<in> set ys" for y
  proof
    assume "expirable tid night y"
    then have "as_cleared y"
      using rs(4) that by (auto simp: whole_def expirable_def filter_empty_conv)
    then show False
      using ok rs(1,3) that by (auto simp: panel_ok_def sorted_wrt_append whole_def)
  qed
  moreover have "expirable tid night r"
    using own rs(1,3) r(2) by (auto simp: expirable_def whole_def CENTRING_def)
  ultimately have "rev (mark_first (expirable tid night) ?f (rev rs)) = xs @ ?f r # ys"
    using mark_first_split [of "rev ys" "expirable tid night" r ?f "rev xs"] by (simp add: rs(1))
  moreover have "filter whole (xs @ ?f r # ys) = []"
    using rs(2,4) by (simp add: whole_def filter_empty_conv)
  moreover have "spent_expiries (xs @ ?f r # ys) = 1"
    using ok rs(1,3) by (auto simp: panel_ok_def spent_expiries_def whole_def)
  moreover have "sorted_wrt (\<lambda>x y. as_cleared y \<longrightarrow> as_cleared x) (xs @ ?f r # ys)"
    using ok by (simp add: panel_ok_def rs(1) sorted_wrt_append)
  ultimately show ?thesis
    by (simp add: panel_ok_def kept_meta_def)
qed

lemma panel_gone:
  "panel_ok rs n (Some (Some CENTRING, ts)) \<Longrightarrow> panel_ok rs n (Some (Some ''final'', ts))"
  by (auto simp: panel_ok_def final_kind)

lemma panel_clear:
  assumes "panel_ok rs n meta"
  shows "panel_ok (map (\<lambda>r. r\<lparr>as_cleared := True\<rparr>) rs) 0 None"
proof -
  have "filter whole (map (\<lambda>r. r\<lparr>as_cleared := True\<rparr>) rs) = []"
    by (simp add: filter_empty_conv whole_def)
  moreover have "spent_expiries (map (\<lambda>r. r\<lparr>as_cleared := True\<rparr>) rs) = 0"
    by (simp add: spent_expiries_def filter_empty_conv)
  ultimately show ?thesis
    by (simp add: panel_ok_def kept_meta_def sorted_wrt_map)
qed

lemma panel_restart: "panel_ok rs n meta \<Longrightarrow> panel_ok rs (spent_expiries rs) (kept_meta rs)"
  by (simp add: panel_ok_def)

text \<open>All panels of the night; the records of the session name a step or none.\<close>

definition tonight_ok :: "string \<Rightarrow> tonight \<Rightarrow> bool" where
  "tonight_ok night sm = (case sm of (s, m) \<Rightarrow> night \<noteq> [] \<and> (\<forall>r \<in> set (c_set_aside s). as_step r \<noteq> Some [])
     \<and> (\<forall>tid. tid \<noteq> [] \<longrightarrow> panel_ok (records_of night tid s) (rm_expiries m tid) (rm_meta m tid)))"

text \<open>The law of a night: targets and steps have names, and a panel is set aside for its centring only while
  it is not set aside.\<close>

fun night_law :: "tonight \<Rightarrow> night_event \<Rightarrow> bool" where
  "night_law (s, m) (Put_Aside tid reason step kind now) = (tid \<noteq> [] \<and> step \<noteq> Some []
     \<and> (step = None \<and> kind = Some CENTRING \<longrightarrow> rm_meta m tid = None))"
| "night_law (s, m) (Look_At tid now held shut stop) = (tid \<noteq> [])"
| "night_law (s, m) (Retry wanted) = True"
| "night_law (s, m) (Start_Again wanted) = True"

lemma tonight_okD:
  "tonight_ok night (s, m) \<Longrightarrow> tid \<noteq> [] \<Longrightarrow> panel_ok (records_of night tid s) (rm_expiries m tid) (rm_meta m tid)"
  by (simp add: tonight_ok_def)

lemma records_own: "\<forall>r \<in> set (records_of night tid s). as_target r = tid \<and> as_night r = night"
  by (simp add: records_of_def)

lemma noted_aside_ok:
  assumes "tonight_ok night (s, m)" "night_law (s, m) (Put_Aside tid reason step kind now)"
  shows "tonight_ok night (persist_set_aside night tid reason step kind now (s, m))"
proof -
  from assms(1) have night: "night \<noteq> []"
    by (simp add: tonight_ok_def)
  then obtain s' where s': "note_set_aside s tid reason night step kind (Some (Fin now)) = Inr s'"
    by (simp add: note_set_aside_def)
  let ?r = "\<lparr>as_target = tid, as_step = step, as_reason = reason, as_night = night, as_kind = kind, as_ts = Some now,
    as_expired = False, as_cleared = False\<rparr>"
  let ?m = "if step = None then m\<lparr>rm_meta := (rm_meta m)(tid \<mapsto> (kind, Some now))\<rparr> else m"
  have after: "persist_set_aside night tid reason step kind now (s, m) = (s', ?m)"
    using s' by (simp add: persist_set_aside_def)
  have "panel_ok (records_of night t s') (rm_expiries ?m t) (rm_meta ?m t)" if "t \<noteq> []" for t
  proof -
    have ok: "panel_ok (records_of night t s) (rm_expiries m t) (rm_meta m t)"
      using tonight_okD [OF assms(1) that] .
    consider "t \<noteq> tid" | "t = tid" "step = None" | "t = tid" "step \<noteq> None"
      by blast
    then show ?thesis
    proof cases
      case 1
      then show ?thesis
        using ok records_put [OF s', of t] by simp
    next
      case 2
      then have "panel_ok (records_of night tid s @ [?r]) (rm_expiries m tid) (Some (as_kind ?r, as_ts ?r))"
        using ok assms(2) by (intro panel_put [where meta = "rm_meta m tid"]) (simp_all add: whole_def)
      then show ?thesis
        using 2 records_put [OF s', of t] by simp
    next
      case 3
      then have "panel_ok (records_of night tid s @ [?r]) (rm_expiries m tid) (rm_meta m tid)"
        using ok by (intro panel_put_step) simp_all
      then show ?thesis
        using 3 records_put [OF s', of t] by (simp only: if_False if_True option.distinct simp_thms)
    qed
  qed
  moreover have "\<forall>r \<in> set (c_set_aside s'). as_step r \<noteq> Some []"
    using s' assms by (auto simp: note_set_aside_def tonight_ok_def split: if_splits)
  ultimately show ?thesis
    unfolding after using night by (simp only: tonight_ok_def split: prod.split) blast
qed

lemma mark_steps:
  "\<forall>r \<in> set rs. as_step r \<noteq> Some [] \<Longrightarrow> \<forall>r \<in> set (mark_first p (\<lambda>r. r\<lparr>as_expired := True\<rparr>) rs). as_step r \<noteq> Some []"
  by (induction rs) auto

lemma expire_panel_ok:
  assumes "tonight_ok night (s, m)" "tid \<noteq> []" "rm_meta m tid = Some (Some CENTRING, ts)" "rm_expiries m tid = 0"
  shows "tonight_ok night (expire_panel night tid (s, m))"
proof -
  let ?s = "note_set_aside_expired s tid night"
  let ?m = "m\<lparr>rm_expiries := (rm_expiries m)(tid := rm_expiries m tid + 1), rm_targets := (rm_targets m)(tid := None),
        rm_meta := (rm_meta m)(tid := None)\<rparr>"
  have "panel_ok (records_of night t ?s) (rm_expiries ?m t) (rm_meta ?m t)" if "t \<noteq> []" for t
    using tonight_okD [OF assms(1) that] panel_expire [OF _ records_own, of night tid s ts] assms(3,4)
    by (cases "t = tid") (auto simp: records_expired)
  moreover have "\<forall>r \<in> set (c_set_aside ?s). as_step r \<noteq> Some []"
    using mark_steps [of "rev (c_set_aside s)"] assms(1) by (simp add: note_set_aside_expired_def tonight_ok_def)
  moreover have "night \<noteq> []"
    using assms(1) by (simp add: tonight_ok_def)
  ultimately show ?thesis
    by (simp only: tonight_ok_def expire_panel_def prod.case) blast
qed

lemma gone_ok:
  assumes "tonight_ok night (s, m)" "tid \<noteq> []" "rm_meta m tid = Some (Some CENTRING, ts)"
  shows "tonight_ok night (s, gone_panel tid m)"
  using assms panel_gone [of "records_of night tid s" "rm_expiries m tid" ts]
  by (auto simp: tonight_ok_def gone_panel_def)

lemma may_expireD: "may_expire m tid \<Longrightarrow> \<exists>ts. rm_meta m tid = Some (Some CENTRING, Some ts) \<and> rm_expiries m tid = 0"
  by (auto simp: may_expire_def split: option.splits)

lemma look_cases:
  "expire_or_wait night tid now held shut stop (s, m) = (s, m)
   \<or> (may_expire m tid \<and> (expire_or_wait night tid now held shut stop (s, m) = (s, gone_panel tid m)
     \<or> expire_or_wait night tid now held shut stop (s, m) = expire_panel night tid (s, m)))"
  by (auto simp: expire_or_wait_def Let_def split: option.split)

lemma look_ok:
  assumes "tonight_ok night (s, m)" "tid \<noteq> []"
  shows "tonight_ok night (expire_or_wait night tid now held shut stop (s, m))"
  using look_cases [of night tid now held shut stop s m] expire_panel_ok [OF assms] gone_ok [OF assms] assms(1)
  by (auto dest!: may_expireD)

lemma forgotten_fields:
  "rm_meta (foldl (forget_panel s) m wanted) tid = (if tid \<in> set wanted then None else rm_meta m tid)"
  "rm_expiries (foldl (forget_panel s) m wanted) tid = (if tid \<in> set wanted then 0 else rm_expiries m tid)"
  by (induction wanted arbitrary: m) (simp_all add: forget_panel_def Let_def)

lemma cleared_steps:
  "\<forall>r \<in> set (c_set_aside s). as_step r \<noteq> Some [] \<Longrightarrow>
    \<forall>r \<in> set (c_set_aside (fst (note_set_aside_cleared s wanted night))). as_step r \<noteq> Some []"
  by (auto simp: note_set_aside_cleared_def)

lemma drain_ok:
  assumes "tonight_ok night (s, m)"
  shows "tonight_ok night (drain_retries night wanted (s, m))"
  using assms panel_clear cleared_steps [of s wanted night]
  by (auto simp: tonight_ok_def drain_retries_def forgotten_fields records_cleared)

lemma start_ok:
  assumes "night \<noteq> []" "\<forall>r \<in> set (c_set_aside s). as_step r \<noteq> Some []"
    and "\<And>tid. tid \<noteq> [] \<Longrightarrow> \<exists>n meta. panel_ok (records_of night tid s) n meta"
  shows "tonight_ok night (s, start_memory s night)"
proof -
  have "panel_ok (records_of night tid s) (set_aside_expiries_on s night tid) (kept_meta (records_of night tid s))"
    if "tid \<noteq> []" for tid
    using assms(3) [OF that] panel_restart that by (auto simp: expiries_records spent_expiries_def [symmetric])
  then show ?thesis
    using assms(1,2) by (auto simp: tonight_ok_def start_meta)
qed

lemma night_step_ok:
  assumes "tonight_ok night sm" "night_law sm e"
  shows "tonight_ok night (night_step night sm e)"
proof (cases sm)
  case (Pair s m)
  show ?thesis
  proof (cases e)
    case (Start_Again wanted)
    have "\<exists>n meta. panel_ok (records_of night tid (fst (note_set_aside_cleared s wanted night))) n meta" if "tid \<noteq> []" for tid
      using tonight_okD [OF assms(1) [unfolded Pair] that] panel_clear [OF tonight_okD [OF assms(1) [unfolded Pair] that]]
      by (cases "tid \<in> set wanted") (simp_all add: records_cleared, blast+)
    then show ?thesis
      using assms(1) start_ok cleared_steps [of s wanted night] by (auto simp: Pair Start_Again Let_def tonight_ok_def)
  qed (use assms in \<open>auto simp: Pair intro: noted_aside_ok look_ok drain_ok\<close>)
qed

text \<open>How many expiries of a panel an event adds.\<close>

definition expiries_added :: "string \<Rightarrow> string \<Rightarrow> tonight \<Rightarrow> night_event \<Rightarrow> int" where
  "expiries_added night tid sm e = (case e of
     Look_At _ _ _ _ _ \<Rightarrow> int (rm_expiries (snd (night_step night sm e)) tid) - int (rm_expiries (snd sm) tid)
   | _ \<Rightarrow> 0)"

text \<open>The operator does not bring this panel back.\<close>

fun no_retry_of :: "string \<Rightarrow> night_event \<Rightarrow> bool" where
  "no_retry_of tid (Retry wanted) = (tid \<notin> set wanted)"
| "no_retry_of tid (Start_Again wanted) = (tid \<notin> set wanted)"
| "no_retry_of tid e = True"

lemma put_expiries [simp]: "rm_expiries (snd (persist_set_aside night t reason step kind now (s, m))) = rm_expiries m"
  by (simp add: persist_set_aside_def)

lemma expiries_step:
  assumes "tonight_ok night sm" "no_retry_of tid e" "tid \<noteq> []"
  shows "int (rm_expiries (snd sm) tid) + expiries_added night tid sm e \<le> int (rm_expiries (snd (night_step night sm e)) tid)"
proof (cases sm)
  case (Pair s m)
  show ?thesis
  proof (cases e)
    case (Start_Again wanted)
    then have "rm_expiries m tid = set_aside_expiries_on (fst (note_set_aside_cleared s wanted night)) night tid"
      using assms tonight_okD [of night s m tid] Pair
      by (simp add: expiries_records records_cleared panel_ok_def spent_expiries_def)
    then show ?thesis
      by (simp add: Pair Start_Again expiries_added_def Let_def)
  qed (use assms in \<open>auto simp: Pair expiries_added_def drain_retries_def forgotten_fields\<close>)
qed

interpretation nights: lawful_meter "night_step night" "tonight_ok night"
    "\<lambda>sm e. night_law sm e \<and> no_retry_of tid e \<and> tid \<noteq> []" "expiries_added night tid"
    "\<lambda>sm. if tid = [] then 0 else int (rm_expiries (snd sm) tid)" 1
  for night tid
proof unfold_locales
  show "tonight_ok night (night_step night s e)"
    if "tonight_ok night s" "night_law s e \<and> no_retry_of tid e \<and> tid \<noteq> []" for s e
    using night_step_ok that by blast
  show "(if tid = [] then 0 else int (rm_expiries (snd s) tid)) + expiries_added night tid s e
      \<le> (if tid = [] then 0 else int (rm_expiries (snd (night_step night s e)) tid))"
    if "tonight_ok night s" "night_law s e \<and> no_retry_of tid e \<and> tid \<noteq> []" for s e
    using expiries_step that by auto
  show "(if tid = [] then 0 else int (rm_expiries (snd s) tid)) \<le> 1" if "tonight_ok night s" for s
    using tonight_okD [of night "fst s" "snd s" tid] that by (auto simp: panel_ok_def)
qed

interpretation lawful_nights: lawful "night_step night" "tonight_ok night" night_law
  for night
  by unfold_locales (rule night_step_ok)

text \<open>A session that holds nothing of tonight yet.\<close>

definition untouched :: "campaign \<Rightarrow> string \<Rightarrow> bool" where
  "untouched s night = (night \<noteq> [] \<and> (\<forall>r \<in> set (c_set_aside s). as_night r \<noteq> night \<and> as_step r \<noteq> Some []))"

lemma untouched_ok: "untouched s night \<Longrightarrow> tonight_ok night (s, start_memory s night)"
proof (rule start_ok)
  assume untouched: "untouched s night"
  fix tid :: string
  have "records_of night tid s = []"
    using untouched by (auto simp: untouched_def records_of_def filter_empty_conv)
  then show "\<exists>n meta. panel_ok (records_of night tid s) n meta"
    by (auto simp: panel_ok_def spent_expiries_def kept_meta_def Let_def)
qed (auto simp: untouched_def)

text \<open>A set-aside expires at most once per panel and night, however often the run dies, ends and starts
  again: unless the operator brings the panel back, the looks at it add one expiry at most.\<close>

theorem one_expiry_per_night:
  assumes "untouched s night" "tid \<noteq> []"
    and "legal_run (\<lambda>sm e. night_law sm e \<and> no_retry_of tid e) (night_step night) (s, start_memory s night) es"
  shows "spent (night_step night) (expiries_added night tid) (s, start_memory s night) es \<le> 1"
proof -
  have "set_aside_expiries_on s night tid = 0"
    using assms(1) by (auto simp: untouched_def set_aside_expiries_on_def spent_expiry_def filter_empty_conv)
  then show ?thesis
    using nights.spent_le_slack [OF untouched_ok [OF assms(1)], of tid es] assms(2,3) by (simp add: conj_assoc [symmetric])
qed

text \<open>A restart remembers the night: after anything that may happen in a night, a run that starts now reads
  from the ledger, for every panel, the expiries the dying run had counted, and the kind and time it was set aside
  with; only that a panel waiting for its expiry was given up for the night is not written down.\<close>

theorem restart_remembers:
  assumes "untouched s night" "tid \<noteq> []"
    and "legal_run night_law (night_step night) (s, start_memory s night) es"
    and "run (night_step night) (s, start_memory s night) es = (s', m)"
  shows "rm_expiries (start_memory s' night) tid = rm_expiries m tid
    \<and> (rm_meta (start_memory s' night) tid = rm_meta m tid
      \<or> (\<exists>ts. rm_meta (start_memory s' night) tid = Some (Some CENTRING, ts) \<and> rm_meta m tid = Some (Some ''final'', ts)))"
proof -
  have ok: "tonight_ok night (s', m)"
    using lawful_nights.inv_legal_run [OF untouched_ok [OF assms(1)] assms(3)] assms(4) by simp
  then have "panel_ok (records_of night tid s') (rm_expiries m tid) (rm_meta m tid)"
    using assms(2) by (rule tonight_okD)
  moreover have "rm_meta (start_memory s' night) tid = kept_meta (records_of night tid s')"
    using ok assms(2) by (intro start_meta) (auto simp: tonight_ok_def)
  ultimately show ?thesis
    using assms(2) by (auto simp: panel_ok_def expiries_records spent_expiries_def)
qed

lemma expiry_answer: "set_aside_expiry (Fin now) (Fin ts) (int n) = Inr (n = 0 \<and> ts + SET_ASIDE_EXPIRY_S \<le> now)"
  by (simp add: set_aside_expiry_def)

lemma whole_standing:
  "(\<exists>r \<in> set (standing_set_asides s night (Some now)). as_target r = tid \<and> as_step r = None)
    = (\<exists>r \<in> set (filter whole (records_of night tid s)). \<not> arm_expired s night now r)"
  by (auto simp: standing_set_asides_def set_aside_on_def records_of_def stands_def whole_def)

lemma look_meta:
  assumes "rm_meta m tid = meta"
  shows "(rm_meta (snd (expire_or_wait night tid now True False stop (s, m))) tid = None)
    = (meta = None \<or> (\<exists>ts. meta = Some (Some CENTRING, Some ts) \<and> rm_expiries m tid = 0 \<and> ts + SET_ASIDE_EXPIRY_S \<le> now))"
  using assms expiry_answer [of now _ 0]
  by (auto simp: expire_or_wait_def may_expire_def expire_panel_def gone_panel_def Let_def split: option.splits if_splits)

text \<open>The resume arm and the run read one record alike: after anything that may happen in a night, the arm
  counts a panel as set aside at an instant just where a run that starts then holds it set aside after its
  first look, a window that has closed apart.\<close>

theorem arm_agrees_with_the_run:
  assumes "untouched s night" "tid \<noteq> []"
    and "legal_run night_law (night_step night) (s, start_memory s night) es"
    and "run (night_step night) (s, start_memory s night) es = (s', m)"
  shows "(\<exists>r \<in> set (standing_set_asides s' night (Some now)). as_target r = tid \<and> as_step r = None)
    = (rm_meta (snd (expire_or_wait night tid now True False stop (s', start_memory s' night))) tid \<noteq> None)"
proof -
  let ?w = "filter whole (records_of night tid s')" and ?n = "set_aside_expiries_on s' night tid"
  have ok: "tonight_ok night (s', m)"
    using lawful_nights.inv_legal_run [OF untouched_ok [OF assms(1)] assms(3)] assms(4) by simp
  then have single: "kept_meta (records_of night tid s') = Some (Some CENTRING, ts) \<Longrightarrow> length ?w = 1" for ts
    using tonight_okD [OF ok assms(2)] by (simp add: panel_ok_def)
  have meta: "rm_meta (start_memory s' night) tid = kept_meta (records_of night tid s')"
    using ok assms(2) by (intro start_meta) (auto simp: tonight_ok_def)
  have arm: "arm_expired s' night now r \<longleftrightarrow> (\<exists>ts. as_ts r = Some ts \<and> as_kind r = Some CENTRING \<and> ?n = 0 \<and> ts + SET_ASIDE_EXPIRY_S \<le> now)"
    if "r \<in> set ?w" for r
    using that by (auto simp: arm_expired_def whole_def records_of_def expiry_answer split: option.splits)
  show ?thesis
  proof (cases "?w = []")
    case True
    then show ?thesis
      using look_meta [OF meta] by (auto simp: whole_standing kept_meta_def)
  next
    case False
    then have newest: "List.last ?w \<in> set ?w"
        "kept_meta (records_of night tid s') = Some (as_kind (List.last ?w), as_ts (List.last ?w))"
      by (simp_all add: kept_meta_def Let_def del: set_filter)
    show ?thesis
    proof (cases "as_kind (List.last ?w) = Some CENTRING")
      case True
      then have "length ?w = 1"
        using newest(2) single by simp
      then have "set ?w = {List.last ?w}"
        by (cases ?w) auto
      then show ?thesis
        unfolding whole_standing look_meta [OF meta] using arm [OF newest(1)] newest(2) True by auto
    next
      case other: False
      then have "\<not> arm_expired s' night now (List.last ?w)"
        using arm [OF newest(1)] by auto
      then show ?thesis
        unfolding whole_standing look_meta [OF meta] using newest other by auto
    qed
  qed
qed

section \<open>A concrete campaign\<close>

definition a_frame :: "string \<Rightarrow> bool \<Rightarrow> frame_entry" where
  "a_frame step ok = \<lparr>fr_night = ''r1'', fr_target = ''t1'', fr_step = step, fr_auto = ok, fr_override = None\<rparr>"

definition a_plan :: seq_plan where
  "a_plan = \<lparr>pl_targets = [\<lparr>tg_id = ''t1'', tg_steps = [\<lparr>st_id = ''a'', st_count = 2\<rparr>, \<lparr>st_id = ''b'', st_count = 1\<rparr>]\<rparr>], pl_mode = Accepted\<rparr>"

definition a_campaign :: campaign where
  "a_campaign = \<lparr>c_status = ''active'', c_auto_resume = True, c_plan = a_plan, c_nights = [''m31-20260101-220000''],
     c_frames = [a_frame ''a'' True, a_frame ''a'' False], c_set_aside = [], c_locks = Map.empty, c_pier = Map.empty\<rparr>"

lemma a_ids: "distinct (step_ids (c_plan a_campaign))" "distinct (step_keys (c_plan a_campaign))"
  by code_simp+

lemma ledger_balances_witness:
  "dcount ''t1:a'' (done_map a_campaign) = 1 \<and> dcount ''a'' (remaining_of a_campaign) = 1 \<and> owed a_campaign = 2"
proof -
  have c: "credited a_campaign ''a'' = 1" "credited a_campaign ''b'' = 0"
    by code_simp+
  show ?thesis
    using ledger_balances [OF a_ids]
    by (simp add: a_campaign_def a_plan_def plan_steps_def step_key_def c [unfolded a_campaign_def a_plan_def])
qed

lemma every_paying_frame_pays_once_witness:
  "owed (run bank a_campaign [a_frame ''b'' True, a_frame ''a'' False, a_frame ''b'' True, a_frame ''a'' True]) = 0"
proof -
  let ?fs = "[a_frame ''b'' True, a_frame ''a'' False, a_frame ''b'' True, a_frame ''a'' True]"
  have "spent bank pays a_campaign ?fs = 2" "owed a_campaign = 2"
    by code_simp+
  then show ?thesis
    using every_paying_frame_pays_once [OF a_ids(1), of ?fs] by simp
qed

definition a_night :: "night_event list" where
  "a_night = [Put_Aside ''t1'' ''not centred'' None (Some CENTRING) 1000, Start_Again [], Look_At ''t1'' 4000 True False None,
     Put_Aside ''t1'' ''not centred'' None (Some CENTRING) 5000, Look_At ''t1'' 9000 True False None]"

lemma a_untouched: "untouched a_campaign ''n1''"
  by (simp add: untouched_def a_campaign_def)

lemma a_night_legal:
  "legal_run (\<lambda>sm e. night_law sm e \<and> no_retry_of ''t1'' e) (night_step ''n1'') (a_campaign, start_memory a_campaign ''n1'') a_night"
  by code_simp

lemma a_night_lawful: "legal_run night_law (night_step ''n1'') (a_campaign, start_memory a_campaign ''n1'') a_night"
  by code_simp

lemma one_expiry_per_night_witness:
  "spent (night_step ''n1'') (expiries_added ''n1'' ''t1'') (a_campaign, start_memory a_campaign ''n1'') a_night = 1"
proof -
  have "1 \<le> spent (night_step ''n1'') (expiries_added ''n1'' ''t1'') (a_campaign, start_memory a_campaign ''n1'') a_night"
    by code_simp
  then show ?thesis
    using one_expiry_per_night [OF a_untouched _ a_night_legal] by simp
qed

lemma restart_remembers_witness:
  "rm_expiries (start_memory (fst (run (night_step ''n1'') (a_campaign, start_memory a_campaign ''n1'') a_night)) ''n1'') ''t1'' = 1"
proof -
  obtain s' m where after: "run (night_step ''n1'') (a_campaign, start_memory a_campaign ''n1'') a_night = (s', m)"
    by fastforce
  have "rm_expiries (snd (run (night_step ''n1'') (a_campaign, start_memory a_campaign ''n1'') a_night)) ''t1'' = 1"
    by code_simp
  then show ?thesis
    using restart_remembers [OF a_untouched _ a_night_lawful after] by (simp add: after)
qed

lemma arm_agrees_with_the_run_witness:
  "\<exists>r \<in> set (standing_set_asides (fst (run (night_step ''n1'') (a_campaign, start_memory a_campaign ''n1'') a_night)) ''n1'' (Some 9000)).
     as_target r = ''t1'' \<and> as_step r = None"
proof -
  obtain s' m where after: "run (night_step ''n1'') (a_campaign, start_memory a_campaign ''n1'') a_night = (s', m)"
    by fastforce
  let ?s = "fst (run (night_step ''n1'') (a_campaign, start_memory a_campaign ''n1'') a_night)"
  have "rm_meta (snd (expire_or_wait ''n1'' ''t1'' 9000 True False None (?s, start_memory ?s ''n1''))) ''t1'' \<noteq> None"
    by code_simp
  then show ?thesis
    using arm_agrees_with_the_run [OF a_untouched _ a_night_lawful after, of "''t1''" 9000 None] by (simp add: after)
qed

end
