(* ===== verification/Session_Store.thy ===== *)
theory Session_Store
  imports Campaign "HOL-Library.List_Lexorder" "HOL-Library.Char_ord"
begin

text \<open>
  The sessions on the disk: \<open>SessionStore\<close> of \<open>server/astrodeck/sequence/session.py\<close>, with the transitions that
  arm, queue, start, finish and delete a session (\<open>SequenceEngine\<close> in \<open>engine.py\<close>, the session routes of
  \<open>api/app.py\<close>). A call that holds the store's write lock is one step. A start and the end of a run hold it only
  within their single saves: so requests answered on a worker thread may land between their parts, a start's arming and
  its save, an ending's reading of the file and its save, that save and the promotion. The loop that takes the switch
  of the others is one part.

  A file is what its reader makes of it: no JSON, JSON that is no session, or a session, with or without a stated
  status. A stamp stands for inode, time and size; every write gives a new one (a rewrite of the same size within one tick
  of the clock, which the code names, is left out). The answer of each write is a
  function of the file's id; the files the operating system will not open are part of the state. Thumbnails, log
  lines and the edit of a plan are left out.
\<close>

section \<open>Files\<close>

record session = campaign +
  se_id :: string
  se_name :: string
  se_created :: rat
  se_updated :: rat
  se_origin :: string
  se_origin_id :: string
  se_crash :: nat
  se_behind :: "string option"
  se_across :: bool

text \<open>What of a JSON document that is no session the scans read.\<close>

record raw_head =
  rw_status :: "string option"
  rw_origin :: string
  rw_origin_id :: string
  rw_created :: rat
  rw_updated :: rat
  rw_auto :: bool

text \<open>A valid session file states its status or not.\<close>

datatype body = Not_JSON | Unvalid raw_head string | Valid bool session

definition head_of :: "body \<Rightarrow> raw_head option" where
  "head_of b = (case b of
     Not_JSON \<Rightarrow> None
   | Unvalid h why \<Rightarrow> Some h
   | Valid stated s \<Rightarrow> Some \<lparr>rw_status = (if stated then Some (c_status s) else None), rw_origin = se_origin s,
       rw_origin_id = se_origin_id s, rw_created = se_created s, rw_updated = se_updated s, rw_auto = c_auto_resume s\<rparr>)"

datatype store_error = No_Session | Unreadable string | Live_Readable | OS_Refused

definition NO_STATUS :: string where "NO_STATUS = ''it has no status''"
definition NOT_JSON :: string where "NOT_JSON = ''not valid JSON''"
definition OTHER_SESSION :: string where "OTHER_SESSION = ''it holds a different session id''"

text \<open>\<open>_parsed\<close> and \<open>_session_from_file\<close>: the one judgment every reader makes.\<close>

definition from_body :: "body \<Rightarrow> store_error + session" where
  "from_body b = (case b of
     Not_JSON \<Rightarrow> Inl (Unreadable NOT_JSON)
   | Unvalid h why \<Rightarrow> Inl (Unreadable why)
   | Valid stated s \<Rightarrow> if stated then Inr s else Inl (Unreadable NO_STATUS))"

record sfile =
  sf_body :: body
  sf_stamp :: nat

record shelf =
  sh_files :: "(string \<times> sfile) list"
  sh_baks :: "(string \<times> body) list"
  sh_held :: "string set"
  sh_written :: "string \<rightharpoonup> nat \<times> bool"
  sh_told :: "string list"
  sh_next :: nat

definition file_at :: "shelf \<Rightarrow> string \<Rightarrow> sfile option" where
  "file_at sh sid = map_of (sh_files sh) sid"

definition bak_name :: "string \<Rightarrow> string" where
  "bak_name sid = sid @ ''.json.bak''"

section \<open>Readers\<close>

definition load_session :: "shelf \<Rightarrow> string \<Rightarrow> store_error + session" where
  "load_session sh sid = (case file_at sh sid of
     None \<Rightarrow> Inl No_Session
   | Some f \<Rightarrow> if sid \<in> sh_held sh then Inl No_Session else from_body (sf_body f))"

text \<open>\<open>list_json\<close>: the files by name; \<open>_entries\<close> passes over one that cannot be opened.\<close>

definition entries_of :: "shelf \<Rightarrow> (string \<times> body) list" where
  "entries_of sh = map (\<lambda>sid. (sid, sf_body (the (file_at sh sid))))
     (filter (\<lambda>sid. sid \<notin> sh_held sh) (sort_key (\<lambda>sid. sid @ ''.json'') (remdups (map fst (sh_files sh)))))"

definition load_all :: "shelf \<Rightarrow> session list" where
  "load_all sh = concat (map (\<lambda>(sid, b). case from_body b of Inl _ \<Rightarrow> [] | Inr s \<Rightarrow> [s]) (entries_of sh))"

definition newest_first :: "session list \<Rightarrow> session list" where
  "newest_first = sort_key (\<lambda>s. - se_updated s)"

definition head_list :: "'a list \<Rightarrow> 'a option" where
  "head_list xs = (case xs of [] \<Rightarrow> None | x # _ \<Rightarrow> Some x)"

text \<open>The scans by the raw head: the first of the newest that is a session.\<close>

definition first_session :: "(raw_head \<Rightarrow> bool) \<Rightarrow> (raw_head \<Rightarrow> rat) \<Rightarrow> shelf \<Rightarrow> session option" where
  "first_session wanted ts sh = head_list (concat (map (\<lambda>(h, b). case from_body b of Inl _ \<Rightarrow> [] | Inr s \<Rightarrow> [s])
     (sort_key (\<lambda>(h, b). - ts h) (concat (map (\<lambda>(sid, b). case head_of b of None \<Rightarrow> [] | Some h \<Rightarrow> if wanted h then [(h, b)] else [])
       (entries_of sh))))))"

definition active_session :: "shelf \<Rightarrow> session option" where
  "active_session = first_session (\<lambda>h. rw_status h = Some ''active'') rw_updated"

definition newest_for_flow :: "string \<Rightarrow> string list \<Rightarrow> shelf \<Rightarrow> session option" where
  "newest_for_flow flow statuses = first_session (\<lambda>h. rw_origin h = ''flow'' \<and> rw_origin_id h = flow
     \<and> (case rw_status h of None \<Rightarrow> False | Some w \<Rightarrow> w \<in> set statuses)) rw_created"

definition SESSION_STATUSES :: "string list" where
  "SESSION_STATUSES = [''active'', ''dormant'', ''complete'', ''abandoned'']"

definition current_for_flow :: "string \<Rightarrow> shelf \<Rightarrow> session option" where
  "current_for_flow flow sh = (case newest_for_flow flow SESSION_STATUSES sh of
     None \<Rightarrow> None | Some s \<Rightarrow> if c_status s = ''abandoned'' then None else Some s)"

definition recoverable :: "shelf \<Rightarrow> session option" where
  "recoverable sh = head_list (newest_first (filter (\<lambda>s. c_status s = ''dormant'' \<and> c_frames s \<noteq> []) (load_all sh)))"

text \<open>\<open>armed\<close>, which names an armed file it cannot read, once.\<close>

definition armed_unreadable :: "body \<Rightarrow> bool" where
  "armed_unreadable b = (isl (from_body b) \<and> (case head_of b of None \<Rightarrow> False
     | Some h \<Rightarrow> rw_auto h \<and> rw_status h \<in> {Some ''dormant'', Some ''active''}))"

definition armed_session :: "shelf \<Rightarrow> shelf \<times> session option" where
  "armed_session sh =
     (sh\<lparr>sh_told := sh_told sh @ filter (\<lambda>sid. sid \<notin> set (sh_told sh))
        (map fst (filter (\<lambda>(sid, b). armed_unreadable b) (entries_of sh)))\<rparr>,
      head_list (newest_first (filter (\<lambda>s. is_armed (campaign.truncate s)) (load_all sh))))"

section \<open>Writers\<close>

datatype write_answer = Written | Unstamped | Refused | Late

definition MAX_SESSIONS :: nat where "MAX_SESSIONS = 200"

text \<open>The session's file and its backup go, or the backup stays where it is to be kept and is there.\<close>

definition delete_session :: "bool \<Rightarrow> string \<Rightarrow> shelf \<Rightarrow> shelf" where
  "delete_session keep sid sh = (let sh' = sh\<lparr>sh_files := AList.delete sid (sh_files sh)\<rparr> in
     if keep \<and> map_of (sh_baks sh) sid \<noteq> None then sh' else sh'\<lparr>sh_baks := AList.delete sid (sh_baks sh)\<rparr>)"

definition prune_sessions :: "shelf \<Rightarrow> shelf" where
  "prune_sessions sh = (let all = load_all sh;
       prunable = sort_key se_updated (filter (\<lambda>s. c_status s \<in> {''complete'', ''abandoned''}) all) in
     foldl (\<lambda>sh s. delete_session False (se_id s) sh) sh (take (length all - MAX_SESSIONS) prunable))"

definition put_file :: "string \<Rightarrow> body \<Rightarrow> shelf \<Rightarrow> shelf" where
  "put_file sid b sh = sh\<lparr>sh_files := AList.update sid \<lparr>sf_body = b, sf_stamp = sh_next sh\<rparr> (sh_files sh), sh_next := sh_next sh + 1\<rparr>"

text \<open>\<open>save\<close>: does it return? A write is refused, or fails after the new file is in place, or is made, with or
  without a stamp that can be read.\<close>

definition save_session :: "(string \<Rightarrow> write_answer) \<Rightarrow> rat \<Rightarrow> session \<Rightarrow> shelf \<Rightarrow> shelf \<times> bool" where
  "save_session w now s sh = (let s = s\<lparr>se_updated := now\<rparr>; sid = se_id s; is_new = (file_at sh sid = None) in
     case w sid of
       Refused \<Rightarrow> (sh, False)
     | Late \<Rightarrow> (put_file sid (Valid True s) sh, False)
     | a \<Rightarrow> (let sh' = put_file sid (Valid True s) sh;
           sh' = sh'\<lparr>sh_written := (sh_written sh)(sid := (if a = Unstamped then None else Some (sh_next sh, c_auto_resume s)))\<rparr> in
         (if is_new then prune_sessions sh' else sh', True)))"

text \<open>The switch a run's write takes over: the recorded one where the file is the one last written here, else
  the one on the disk, else the run's own.\<close>

definition operator_switch :: "shelf \<Rightarrow> session \<Rightarrow> bool" where
  "operator_switch sh s = (case (sh_written sh (se_id s), file_at sh (se_id s)) of
     (Some (stamp, v), Some f) \<Rightarrow> if stamp = sf_stamp f then v
       else (case load_session sh (se_id s) of Inl _ \<Rightarrow> c_auto_resume s | Inr stored \<Rightarrow> c_auto_resume stored)
   | _ \<Rightarrow> (case load_session sh (se_id s) of Inl _ \<Rightarrow> c_auto_resume s | Inr stored \<Rightarrow> c_auto_resume stored))"

definition save_run_state :: "(string \<Rightarrow> write_answer) \<Rightarrow> rat \<Rightarrow> session \<Rightarrow> shelf \<Rightarrow> shelf \<times> session \<times> bool" where
  "save_run_state w now s sh = (let s = s\<lparr>c_auto_resume := operator_switch sh s\<rparr>; (sh', returned) = save_session w now s sh in
     (sh', s\<lparr>se_updated := now\<rparr>, returned))"

text \<open>Backups, and the way back from one.\<close>

definition backup_session :: "string \<Rightarrow> shelf \<Rightarrow> shelf \<times> bool" where
  "backup_session sid sh = (case file_at sh sid of
     None \<Rightarrow> (sh, False)
   | Some f \<Rightarrow> if sid \<in> sh_held sh then (sh, False) else (sh\<lparr>sh_baks := AList.update sid (sf_body f) (sh_baks sh)\<rparr>, True))"

definition restore_backup :: "(string \<Rightarrow> write_answer) \<Rightarrow> rat \<Rightarrow> string \<Rightarrow> shelf \<Rightarrow> shelf \<times> (store_error + session)" where
  "restore_backup w now sid sh = (case map_of (sh_baks sh) sid of
     None \<Rightarrow> (sh, Inl No_Session)
   | Some b \<Rightarrow>
       if bak_name sid \<in> sh_held sh then (sh, Inl OS_Refused)
       else case from_body b of Inl e \<Rightarrow> (sh, Inl e)
       | Inr s \<Rightarrow>
           if se_id s \<noteq> sid then (sh, Inl (Unreadable OTHER_SESSION))
           else (case (case file_at sh sid of None \<Rightarrow> Inr False
               | Some f \<Rightarrow> if sid \<in> sh_held sh then Inl OS_Refused else Inr (\<not> isl (from_body (sf_body f)))) of
             Inl e \<Rightarrow> (sh, Inl e)
           | Inr True \<Rightarrow> (sh, Inl Live_Readable)
           | Inr False \<Rightarrow>
               (let s = s\<lparr>c_auto_resume := False, c_status := (if c_status s = ''active'' then ''dormant'' else c_status s)\<rparr>;
                  (sh', returned) = save_session w now s sh in
                (sh', if returned then Inr (s\<lparr>se_updated := now\<rparr>) else Inl OS_Refused))))"

text \<open>Orphans of a power cut: the sessions left active; how many, and did every save return?\<close>

fun sweep :: "(string \<Rightarrow> write_answer) \<Rightarrow> rat \<Rightarrow> session list \<Rightarrow> shelf \<Rightarrow> shelf \<times> nat \<times> bool" where
  "sweep w now [] sh = (sh, 0, True)"
| "sweep w now (s # ss) sh =
     (if c_status s = ''active'' then
        (case save_session w now (s\<lparr>c_status := ''dormant'', se_crash := se_crash s + 1\<rparr>) sh of
           (sh', False) \<Rightarrow> (sh', 0, False)
         | (sh', True) \<Rightarrow> (case sweep w now ss sh' of (sh'', n, returned) \<Rightarrow> (sh'', n + 1, returned)))
      else sweep w now ss sh)"

definition boot_sweep :: "(string \<Rightarrow> write_answer) \<Rightarrow> rat \<Rightarrow> shelf \<Rightarrow> shelf \<times> nat \<times> bool" where
  "boot_sweep w now sh = sweep w now (load_all sh) sh"

section \<open>Arming\<close>

text \<open>\<open>_arm_exclusively\<close>: every other armed session loses its switch, each saved; the ids of those that were
  dormant or live, and did every save return?\<close>

fun disarm_others :: "(string \<Rightarrow> write_answer) \<Rightarrow> rat \<Rightarrow> string \<Rightarrow> session list \<Rightarrow> string list \<Rightarrow> shelf \<Rightarrow> shelf \<times> string list \<times> bool" where
  "disarm_others w now sid [] gone sh = (sh, gone, True)"
| "disarm_others w now sid (other # rest) gone sh =
     (if se_id other = sid \<or> \<not> c_auto_resume other then disarm_others w now sid rest gone sh
      else (case save_session w now (other\<lparr>c_auto_resume := False\<rparr>) sh of
          (sh', False) \<Rightarrow> (sh', gone, False)
        | (sh', True) \<Rightarrow> disarm_others w now sid rest
            (if c_status other \<in> {''dormant'', ''active''} then gone @ [se_id other] else gone) sh'))"

definition arm_exclusively :: "(string \<Rightarrow> write_answer) \<Rightarrow> rat \<Rightarrow> session \<Rightarrow> shelf \<Rightarrow> shelf \<times> session \<times> string list \<times> bool" where
  "arm_exclusively w now s sh = (case disarm_others w now (se_id s) (load_all sh) [] sh of
     (sh', gone, returned) \<Rightarrow> (sh', s\<lparr>c_auto_resume := True\<rparr>, gone, returned))"

text \<open>A start (\<open>SequenceEngine.start\<close>), in its two parts: the session is live, armed and waits for nothing; a failure
  among the others does not stop it, one of its own save does.\<close>

definition start_arms :: "(string \<Rightarrow> write_answer) \<Rightarrow> rat \<Rightarrow> session \<Rightarrow> shelf \<Rightarrow> shelf \<times> session" where
  "start_arms w now s sh =
     (case arm_exclusively w now (s\<lparr>c_status := ''active'', c_auto_resume := True, se_behind := None\<rparr>) sh of
        (sh, s, gone, _) \<Rightarrow> (sh, s))"

definition start_saves :: "(string \<Rightarrow> write_answer) \<Rightarrow> rat \<Rightarrow> string \<Rightarrow> session \<Rightarrow> shelf \<Rightarrow> shelf \<times> session option" where
  "start_saves w now rid s sh = (let s = s\<lparr>c_nights := c_nights s @ [rid]\<rparr> in
     case save_session w now s sh of
       (sh, returned) \<Rightarrow> (sh, if returned then Some (s\<lparr>se_updated := now\<rparr>) else None))"

text \<open>\<open>_promote_queued\<close>: the newest dormant session waiting behind the one that ended is armed.\<close>

definition promote_queued :: "(string \<Rightarrow> write_answer) \<Rightarrow> rat \<Rightarrow> string \<Rightarrow> shelf \<Rightarrow> shelf" where
  "promote_queued w now ended sh =
     (case newest_first (filter (\<lambda>s. se_behind s = Some ended \<and> c_status s = ''dormant'') (load_all sh)) of
        [] \<Rightarrow> sh
      | nxt # rest \<Rightarrow> (case arm_exclusively w now (nxt\<lparr>se_behind := None\<rparr>) sh of
          (sh, nxt, gone, returned) \<Rightarrow> if returned then fst (save_session w now nxt sh) else sh))"

text \<open>How a run ended: the reason, by hand, the position unknown, a time bound reached.\<close>

record ending =
  en_reason :: string
  en_by_hand :: bool
  en_unknown :: bool
  en_bounded :: bool

definition planned_ending :: "ending \<Rightarrow> session \<Rightarrow> bool" where
  "planned_ending e s = (c_status s = ''complete'' \<or> en_reason e = ''dawn_cutoff'' \<or> (en_reason e = ''incomplete'' \<and> en_bounded e))"

text \<open>What the run makes of its session at its end (\<open>_finalize_report\<close>), and the write.\<close>

definition ended_session :: "ending \<Rightarrow> session \<Rightarrow> session" where
  "ended_session e s = (
     let unmet = 0 < owed (campaign.truncate s);
         s = s\<lparr>c_status := (if en_reason e = ''complete'' \<and> \<not> unmet then ''complete'' else ''dormant'')\<rparr>;
         s = (if c_status s = ''complete'' then s\<lparr>c_auto_resume := False\<rparr> else s);
         s = (if en_reason e = ''aborted'' \<and> en_by_hand e then s\<lparr>c_auto_resume := False\<rparr> else s);
         s = (if en_reason e = ''unsafe'' \<and> en_unknown e then s\<lparr>c_auto_resume := False\<rparr> else s);
         s = (if en_reason e \<in> {''dawn_cutoff'', ''incomplete''} \<and> \<not> se_across s then s\<lparr>c_auto_resume := False\<rparr> else s) in
     s\<lparr>se_crash := (if en_reason e = ''error'' then se_crash s + 1 else 0)\<rparr>)"

definition adopt_operator_fields :: "shelf \<Rightarrow> session \<Rightarrow> session" where
  "adopt_operator_fields sh s = (case load_session sh (se_id s) of
     Inl _ \<Rightarrow> s | Inr stored \<Rightarrow> s\<lparr>c_auto_resume := c_auto_resume stored\<rparr>)"

section \<open>The routes\<close>

text \<open>What a PATCH asks: a status, the switch, a place in the queue. Answers are HTTP codes.\<close>

record patch_body =
  pb_status :: "string option"
  pb_auto :: "bool option"
  pb_queue :: "bool option"

definition patch_status :: "string option \<Rightarrow> session \<Rightarrow> nat + session" where
  "patch_status want s = (case want of None \<Rightarrow> Inr s
     | Some x \<Rightarrow> if x \<noteq> ''abandoned'' then Inl 422
         else if c_status s = ''active'' then Inl 409
         else Inr (s\<lparr>c_status := ''abandoned'', c_auto_resume := False\<rparr>))"

definition patch_auto :: "(string \<Rightarrow> write_answer) \<Rightarrow> rat \<Rightarrow> bool option \<Rightarrow> session \<Rightarrow> shelf \<Rightarrow> shelf \<times> (nat + session)" where
  "patch_auto w now want s sh = (case want of
     None \<Rightarrow> (sh, Inr s)
   | Some False \<Rightarrow> (sh, Inr (s\<lparr>c_auto_resume := False\<rparr>))
   | Some True \<Rightarrow>
       if c_status s \<notin> {''dormant'', ''active''} then (sh, Inl 409)
       else (case arm_exclusively w now (s\<lparr>se_behind := None\<rparr>) sh of
         (sh, s, gone, returned) \<Rightarrow> (sh, if returned then Inr s else Inl 500)))"

text \<open>The others that wait behind the same session lose their place.\<close>

fun dequeue_others :: "(string \<Rightarrow> write_answer) \<Rightarrow> rat \<Rightarrow> string \<Rightarrow> string \<Rightarrow> session list \<Rightarrow> shelf \<Rightarrow> shelf \<times> bool" where
  "dequeue_others w now sid ahead [] sh = (sh, True)"
| "dequeue_others w now sid ahead (other # rest) sh =
     (if se_id other = sid \<or> se_behind other \<noteq> Some ahead then dequeue_others w now sid ahead rest sh
      else (case save_session w now (other\<lparr>se_behind := None\<rparr>) sh of
          (sh', False) \<Rightarrow> (sh', False)
        | (sh', True) \<Rightarrow> dequeue_others w now sid ahead rest sh'))"

definition patch_queue :: "(string \<Rightarrow> write_answer) \<Rightarrow> rat \<Rightarrow> session option \<Rightarrow> bool option \<Rightarrow> session \<Rightarrow> shelf \<Rightarrow> shelf \<times> (nat + session)" where
  "patch_queue w now at_work want s sh = (case want of
     None \<Rightarrow> (sh, Inr s)
   | Some False \<Rightarrow> (sh, Inr (s\<lparr>se_behind := None\<rparr>))
   | Some True \<Rightarrow>
       if c_status s \<noteq> ''dormant'' then (sh, Inl 409)
       else (case (case at_work of Some l \<Rightarrow> (sh, Some l) | None \<Rightarrow> armed_session sh) of
         (sh, None) \<Rightarrow> (sh, Inl 409)
       | (sh, Some ahead) \<Rightarrow>
           if se_id ahead = se_id s then (sh, Inl 409)
           else (case dequeue_others w now (se_id s) (se_id ahead) (load_all sh) sh of
             (sh, returned) \<Rightarrow> (sh, if returned then Inr (s\<lparr>se_behind := Some (se_id ahead)\<rparr>) else Inl 500))))"

definition patch_session :: "(string \<Rightarrow> write_answer) \<Rightarrow> rat \<Rightarrow> session option \<Rightarrow> string \<Rightarrow> patch_body \<Rightarrow> shelf \<Rightarrow> shelf \<times> nat" where
  "patch_session w now at_work sid b sh =
     (if pb_queue b = Some True \<and> pb_auto b = Some True then (sh, 422)
      else case load_session sh sid of
        Inl No_Session \<Rightarrow> (sh, 404)
      | Inl _ \<Rightarrow> (sh, 500)
      | Inr s \<Rightarrow> (case patch_status (pb_status b) s of
          Inl code \<Rightarrow> (sh, code)
        | Inr s \<Rightarrow> (case patch_auto w now (pb_auto b) s sh of
            (sh, Inl code) \<Rightarrow> (sh, code)
          | (sh, Inr s) \<Rightarrow> (case patch_queue w now at_work (pb_queue b) s sh of
              (sh, Inl code) \<Rightarrow> (sh, code)
            | (sh, Inr s) \<Rightarrow>
                (let s = (if c_status s = ''abandoned'' then s\<lparr>se_behind := None\<rparr> else s);
                   (sh, returned) = save_session w now s sh in
                 (sh, if returned then 200 else 500))))))"

text \<open>The DELETE of a session, in its locked section: the file's word and the engine's.\<close>

definition has_orphan_backup :: "shelf \<Rightarrow> string \<Rightarrow> bool" where
  "has_orphan_backup sh sid = (map_of (sh_baks sh) sid \<noteq> None \<and> file_at sh sid = None)"

definition delete_route :: "session option \<Rightarrow> string \<Rightarrow> shelf \<Rightarrow> shelf \<times> nat" where
  "delete_route at_work sid sh =
     (let running = (case at_work of None \<Rightarrow> False | Some l \<Rightarrow> se_id l = sid) in
      case load_session sh sid of
        Inl No_Session \<Rightarrow>
          if \<not> has_orphan_backup sh sid then (sh, 404) else if running then (sh, 409) else (delete_session False sid sh, 200)
      | Inl _ \<Rightarrow> if running then (sh, 409) else (delete_session True sid sh, 200)
      | Inr s \<Rightarrow>
          if running \<or> c_status s = ''active'' then (sh, 409)
          else if c_status s \<notin> {''complete'', ''abandoned'', ''dormant''} then (sh, 409)
          else (delete_session False sid sh, 200))"

definition restore_route :: "(string \<Rightarrow> write_answer) \<Rightarrow> rat \<Rightarrow> session option \<Rightarrow> string \<Rightarrow> shelf \<Rightarrow> shelf" where
  "restore_route w now at_work sid sh = (if (case at_work of None \<Rightarrow> False | Some l \<Rightarrow> se_id l = sid) then sh
     else fst (restore_backup w now sid sh))"

section \<open>A history of the store\<close>

text \<open>The files, and the session of the run that is live. A request, with the answers of its writes and its time.\<close>

type_synonym world = "shelf \<times> session option"

datatype route = Patch string patch_body | Delete_It string | Back_Up string | Restore string

fun route_step :: "world \<Rightarrow> (string \<Rightarrow> write_answer) \<times> rat \<times> route \<Rightarrow> world" where
  "route_step (sh, at_work) (w, now, Patch sid b) = (fst (patch_session w now at_work sid b sh), at_work)"
| "route_step (sh, at_work) (w, now, Delete_It sid) = (fst (delete_route at_work sid sh), at_work)"
| "route_step (sh, at_work) (w, now, Back_Up sid) = (fst (backup_session sid sh), at_work)"
| "route_step (sh, at_work) (w, now, Restore sid) = (restore_route w now at_work sid sh, at_work)"

type_synonym requests = "((string \<Rightarrow> write_answer) \<times> rat \<times> route) list"

text \<open>A start and the end of a run, with the requests that land between their parts. At a start nothing is live yet;
  at an end the run still is, until it has promoted.\<close>

definition start_session :: "(string \<Rightarrow> write_answer) \<Rightarrow> rat \<Rightarrow> string \<Rightarrow> requests \<Rightarrow> session \<Rightarrow> shelf \<Rightarrow> shelf \<times> session option" where
  "start_session w now rid asks s sh = (case start_arms w now s sh of
     (sh, s) \<Rightarrow> start_saves w now rid s (fst (run route_step (sh, None) asks)))"

definition finish_run :: "(string \<Rightarrow> write_answer) \<Rightarrow> rat \<Rightarrow> ending \<Rightarrow> requests \<Rightarrow> requests \<Rightarrow> session \<Rightarrow> shelf \<Rightarrow> shelf" where
  "finish_run w now e asks before_next s sh = (
     let t = ended_session e (adopt_operator_fields sh s);
         (sh, saved) = save_session w now t (fst (run route_step (sh, Some s) asks)) in
     if saved \<and> planned_ending e t
     then promote_queued w now (se_id t) (fst (run route_step (sh, Some t) before_next)) else sh)"

text \<open>A continue takes a dormant session, or a complete one that owes frames again; an edit from outside replaces a file
  or removes it.\<close>

datatype store_event =
    Start_Fresh string session requests
  | Continue_Run string string requests
  | Bank_Frame frame_entry
  | Finish ending requests requests
  | Ask route
  | Boot
  | Outside string "body option"
  | Hold "string set"

fun store_step :: "world \<Rightarrow> (string \<Rightarrow> write_answer) \<times> rat \<times> store_event \<Rightarrow> world" where
  "store_step (sh, at_work) (w, now, Start_Fresh rid s asks) =
     (if at_work \<noteq> None then (sh, at_work) else start_session w now rid asks s sh)"
| "store_step (sh, at_work) (w, now, Continue_Run rid sid asks) =
     (if at_work \<noteq> None then (sh, at_work)
      else case load_session sh sid of
        Inl _ \<Rightarrow> (sh, at_work)
      | Inr s \<Rightarrow> if c_status s \<in> {''dormant'', ''complete''} then start_session w now rid asks s sh else (sh, at_work))"
| "store_step (sh, at_work) (w, now, Bank_Frame f) = (case at_work of
     None \<Rightarrow> (sh, at_work)
   | Some s \<Rightarrow> (case save_run_state w now (s\<lparr>c_frames := c_frames s @ [f]\<rparr>) sh of (sh', s', _) \<Rightarrow> (sh', Some s')))"
| "store_step (sh, at_work) (w, now, Finish e asks before_next) = (case at_work of
     None \<Rightarrow> (sh, at_work) | Some s \<Rightarrow> (finish_run w now e asks before_next s sh, None))"
| "store_step (sh, at_work) (w, now, Ask r) = route_step (sh, at_work) (w, now, r)"
| "store_step (sh, at_work) (w, now, Boot) = (fst (boot_sweep w now sh), None)"
| "store_step (sh, at_work) (w, now, Outside sid b) = (case b of
     None \<Rightarrow> (sh\<lparr>sh_files := AList.delete sid (sh_files sh)\<rparr>, at_work) | Some b \<Rightarrow> (put_file sid b sh, at_work))"
| "store_step (sh, at_work) (w, now, Hold held) = (sh\<lparr>sh_held := held\<rparr>, at_work)"

lemma route_at_work [simp]: "snd (route_step world x) = snd world"
  by (cases "(world, x)" rule: route_step.cases) simp_all

lemma routes_at_work [simp]: "snd (run route_step world xs) = snd world"
  by (induction xs arbitrary: world) simp_all

section \<open>What every writer keeps\<close>

text \<open>All of the store's operations write through \<open>save\<close> and \<open>delete\<close>; so what these two keep, all keep.\<close>

locale kept_by_writes =
  fixes inv :: "shelf \<Rightarrow> bool"
  assumes kept_save: "inv sh \<Longrightarrow> inv (fst (save_session w now s sh))"
    and kept_delete: "inv sh \<Longrightarrow> inv (delete_session keep sid sh)"
    and kept_told: "inv sh \<Longrightarrow> inv (sh\<lparr>sh_told := told\<rparr>)"
    and kept_baks: "inv sh \<Longrightarrow> inv (sh\<lparr>sh_baks := baks\<rparr>)"
    and kept_outside: "inv sh \<Longrightarrow> inv (put_file sid b sh)" "inv sh \<Longrightarrow> inv (sh\<lparr>sh_files := AList.delete sid (sh_files sh)\<rparr>)"
    and kept_hold: "inv sh \<Longrightarrow> inv (sh\<lparr>sh_held := held\<rparr>)"
begin

lemma kept_sweep: "inv sh \<Longrightarrow> inv (fst (sweep w now ss sh))"
proof (induction ss arbitrary: sh)
  case (Cons s ss)
  show ?case
    using Cons kept_save [of sh w now "s\<lparr>c_status := ''dormant'', se_crash := se_crash s + 1\<rparr>"]
    by (auto simp: case_prod_unfold split: bool.split)
qed simp

lemma kept_disarm: "inv sh \<Longrightarrow> inv (fst (disarm_others w now sid ss gone sh))"
proof (induction ss arbitrary: sh gone)
  case (Cons s ss)
  show ?case
    using Cons kept_save [of sh w now "s\<lparr>c_auto_resume := False\<rparr>"] by (auto simp: case_prod_unfold split: bool.split)
qed simp

lemma kept_dequeue: "inv sh \<Longrightarrow> inv (fst (dequeue_others w now sid ahead ss sh))"
proof (induction ss arbitrary: sh)
  case (Cons s ss)
  show ?case
    using Cons kept_save [of sh w now "s\<lparr>se_behind := None\<rparr>"] by (auto simp: case_prod_unfold split: bool.split)
qed simp

lemma kept_arm: "inv sh \<Longrightarrow> inv (fst (arm_exclusively w now s sh))"
  using kept_disarm by (simp add: arm_exclusively_def case_prod_unfold)

lemma kept_promote: "inv sh \<Longrightarrow> inv (promote_queued w now ended sh)"
  using kept_save kept_arm by (simp add: promote_queued_def case_prod_unfold split: list.split)

lemma kept_run_state: "inv sh \<Longrightarrow> inv (fst (save_run_state w now s sh))"
  using kept_save by (simp add: save_run_state_def case_prod_unfold Let_def)

lemma kept_restore: "inv sh \<Longrightarrow> inv (fst (restore_backup w now sid sh))"
  using kept_save by (simp add: restore_backup_def case_prod_unfold Let_def split: option.split sum.split bool.split)

lemma kept_armed: "inv sh \<Longrightarrow> inv (fst (armed_session sh))"
  using kept_told by (simp add: armed_session_def)

lemma kept_patch_auto: "inv sh \<Longrightarrow> inv (fst (patch_auto w now want s sh))"
  using kept_arm by (simp add: patch_auto_def case_prod_unfold split: option.split bool.split)

lemma kept_patch_queue: "inv sh \<Longrightarrow> inv (fst (patch_queue w now at_work want s sh))"
  using kept_armed kept_dequeue by (simp add: patch_queue_def case_prod_unfold split: option.split bool.split)

lemma kept_patch: "inv sh \<Longrightarrow> inv (fst (patch_session w now at_work sid b sh))"
  using kept_save kept_patch_auto kept_patch_queue
  by (simp add: patch_session_def case_prod_unfold Let_def split: sum.split store_error.split)

lemma kept_delete_route: "inv sh \<Longrightarrow> inv (fst (delete_route at_work sid sh))"
  using kept_delete by (simp add: delete_route_def Let_def split: sum.split store_error.split)

lemma kept_route: "inv (fst world) \<Longrightarrow> inv (fst (route_step world x))"
  using kept_patch kept_delete_route kept_baks kept_restore
  by (cases "(world, x)" rule: route_step.cases) (auto simp: restore_route_def backup_session_def split: option.split)

lemma kept_routes: "inv (fst world) \<Longrightarrow> inv (fst (run route_step world xs))"
  by (induction xs arbitrary: world) (simp_all add: kept_route)

lemma kept_start: "inv sh \<Longrightarrow> inv (fst (start_session w now rid asks s sh))"
  using kept_save kept_arm kept_routes
  by (simp add: start_session_def start_arms_def start_saves_def case_prod_unfold Let_def)

lemma kept_finish: "inv sh \<Longrightarrow> inv (finish_run w now e asks before_next s sh)"
  using kept_save kept_promote kept_routes by (simp add: finish_run_def case_prod_unfold Let_def)

lemma kept_step: "inv (fst world) \<Longrightarrow> inv (fst (store_step world we))"
proof (induction world we rule: store_step.induct)
  case (3 sh at_work w now f)
  then show ?case
    using kept_run_state by (simp add: case_prod_unfold split: option.split)
next
  case (5 sh at_work w now r)
  then show ?case
    using kept_route by simp
qed (use kept_start kept_finish kept_sweep kept_outside kept_hold
    in \<open>auto simp: boot_sweep_def split: sum.split option.split\<close>)

end

section \<open>The operator's switch survives the run\<close>

lemma file_at_put [simp]: "file_at (put_file sid b sh) k =
    (if k = sid then Some \<lparr>sf_body = b, sf_stamp = sh_next sh\<rparr> else file_at sh k)"
  by (simp add: file_at_def put_file_def update_conv)

lemma put_fields [simp]: "sh_next (put_file sid b sh) = sh_next sh + 1" "sh_written (put_file sid b sh) = sh_written sh"
  "sh_held (put_file sid b sh) = sh_held sh" "sh_baks (put_file sid b sh) = sh_baks sh"
  by (simp_all add: put_file_def)

lemma delete_fields [simp]: "file_at (delete_session keep sid sh) k = (if k = sid then None else file_at sh k)"
  "sh_next (delete_session keep sid sh) = sh_next sh" "sh_written (delete_session keep sid sh) = sh_written sh"
  "sh_held (delete_session keep sid sh) = sh_held sh"
  by (auto simp: delete_session_def file_at_def Let_def delete_conv)

lemma pruned_fields:
  "file_at (foldl (\<lambda>sh s. delete_session False (se_id s) sh) sh ss) k = (if k \<in> se_id ` set ss then None else file_at sh k)"
  "sh_next (foldl (\<lambda>sh s. delete_session False (se_id s) sh) sh ss) = sh_next sh"
  "sh_written (foldl (\<lambda>sh s. delete_session False (se_id s) sh) sh ss) = sh_written sh"
  "sh_held (foldl (\<lambda>sh s. delete_session False (se_id s) sh) sh ss) = sh_held sh"
  by (induction ss arbitrary: sh) auto

text \<open>What pruning removes: complete and abandoned sessions.\<close>

definition spare :: "shelf \<Rightarrow> string set" where
  "spare sh = se_id ` {s \<in> set (load_all sh). c_status s \<in> {''complete'', ''abandoned''}}"

lemma prune_fields:
  "file_at (prune_sessions sh) k = file_at sh k \<or> (file_at (prune_sessions sh) k = None \<and> k \<in> spare sh)"
  "sh_next (prune_sessions sh) = sh_next sh" "sh_written (prune_sessions sh) = sh_written sh" "sh_held (prune_sessions sh) = sh_held sh"
  by (auto simp: prune_sessions_def Let_def pruned_fields spare_def dest!: in_set_takeD)

text \<open>A record of the last write is true of the file it names.\<close>

definition written_ok :: "shelf \<Rightarrow> bool" where
  "written_ok sh = (\<forall>sid. (\<forall>f. file_at sh sid = Some f \<longrightarrow> sf_stamp f < sh_next sh)
     \<and> (\<forall>stamp v. sh_written sh sid = Some (stamp, v) \<longrightarrow> stamp < sh_next sh
        \<and> (\<forall>f. file_at sh sid = Some f \<longrightarrow> sf_stamp f = stamp \<longrightarrow> (\<exists>s. sf_body f = Valid True s \<and> c_auto_resume s = v))))"

lemma written_ok_fewer:
  assumes "written_ok sh" "sh_next sh' = sh_next sh" "sh_written sh' = sh_written sh"
    and "\<And>k. file_at sh' k = file_at sh k \<or> file_at sh' k = None"
  shows "written_ok sh'"
  unfolding written_ok_def
proof (intro allI)
  fix k
  show "(\<forall>f. file_at sh' k = Some f \<longrightarrow> sf_stamp f < sh_next sh')
     \<and> (\<forall>stamp v. sh_written sh' k = Some (stamp, v) \<longrightarrow> stamp < sh_next sh'
        \<and> (\<forall>f. file_at sh' k = Some f \<longrightarrow> sf_stamp f = stamp \<longrightarrow> (\<exists>s. sf_body f = Valid True s \<and> c_auto_resume s = v)))"
    using assms(1) [unfolded written_ok_def, rule_format, of k] assms(4) [of k] assms(2,3) by auto
qed

lemma written_ok_put: "written_ok sh \<Longrightarrow> written_ok (put_file sid b sh)"
  by (auto simp: written_ok_def less_Suc_eq) (metis less_irrefl)

lemma written_ok_record:
  "written_ok sh \<Longrightarrow> written_ok ((put_file sid (Valid True s) sh)\<lparr>sh_written := (sh_written sh)
     (sid := if a = Unstamped then None else Some (sh_next sh, c_auto_resume s))\<rparr>)"
  by (auto simp: written_ok_def less_Suc_eq file_at_def put_file_def update_conv split: if_splits)

lemma written_ok_save: "written_ok sh \<Longrightarrow> written_ok (fst (save_session w now s sh))"
proof -
  assume ok: "written_ok sh"
  let ?s = "s\<lparr>se_updated := now\<rparr>"
  have pruned: "written_ok sh' \<Longrightarrow> written_ok (prune_sessions sh')" for sh'
  proof (erule written_ok_fewer)
    show "file_at (prune_sessions sh') k = file_at sh' k \<or> file_at (prune_sessions sh') k = None" for k
      using prune_fields(1) [of sh' k] by auto
  qed (rule prune_fields)+
  show ?thesis
    using ok written_ok_put [OF ok, of "se_id s" "Valid True ?s"] written_ok_record [OF ok, where sid = "se_id s" and s = ?s and a = "w (se_id s)"]
    by (cases "w (se_id s)") (simp_all add: save_session_def Let_def pruned)
qed

interpretation written: kept_by_writes written_ok
proof
  show "written_ok sh \<Longrightarrow> written_ok (fst (save_session w now s sh))" for sh w now s
    by (rule written_ok_save)
  show "written_ok sh \<Longrightarrow> written_ok (delete_session keep sid sh)" for sh keep sid
    by (rule written_ok_fewer) auto
  show "written_ok sh \<Longrightarrow> written_ok (sh\<lparr>sh_files := AList.delete sid (sh_files sh)\<rparr>)" for sh sid
    by (rule written_ok_fewer) (auto simp: file_at_def delete_conv)
qed (auto simp: written_ok_put file_at_def intro: written_ok_fewer)

interpretation histories: machine store_step "\<lambda>world. written_ok (fst world)"
  by unfold_locales (rule written.kept_step)

lemma switch_on_disk:
  assumes "written_ok sh" "file_at sh (se_id s) = Some f" "sf_body f = Valid True stored" "se_id s \<notin> sh_held sh"
  shows "operator_switch sh s = c_auto_resume stored"
proof -
  have "load_session sh (se_id s) = Inr stored"
    using assms(2-4) by (simp add: load_session_def from_body_def)
  then show ?thesis
    using assms(1) [unfolded written_ok_def, rule_format, of "se_id s"] assms(2,3)
    by (auto simp: operator_switch_def split: option.split)
qed

text \<open>C13. A run never undoes the operator's switch: whatever was written before, by whom and with what failures,
  a frame that the live run banks leaves the auto-resume switch in the session's file as it stood there, and the
  run goes on with that.\<close>

theorem operator_switch_survives_the_run:
  assumes "written_ok (fst world)" "run store_step world es = (sh, Some s)"
    and "file_at sh (se_id s) = Some f" "sf_body f = Valid True stored" "se_id s \<notin> sh_held sh"
    and "store_step (sh, Some s) (w, now, Bank_Frame frame) = (sh', Some s')"
  shows "c_auto_resume s' = c_auto_resume stored
    \<and> (\<exists>f' t. file_at sh' (se_id s) = Some f' \<and> sf_body f' = Valid True t \<and> c_auto_resume t = c_auto_resume stored)"
proof -
  have ok: "written_ok sh"
    using histories.inv_run [OF assms(1), of es] assms(2) by simp
  let ?t = "s\<lparr>c_frames := c_frames s @ [frame]\<rparr>"
  have switch: "operator_switch sh ?t = c_auto_resume stored"
    using switch_on_disk [of sh ?t f stored] ok assms(3-5) by simp
  show ?thesis
    using assms(3,4,6)
    by (cases "w (se_id s)") (auto simp: save_run_state_def switch save_session_def Let_def file_at_def put_file_def update_conv)
qed

section \<open>One session is armed\<close>

text \<open>A session that a restart of tonight would take up, and the files that hold one.\<close>

definition switched :: "session \<Rightarrow> bool" where
  "switched s = (c_auto_resume s \<and> c_status s \<in> {''dormant'', ''active''})"

definition session_at :: "shelf \<Rightarrow> string \<Rightarrow> session option" where
  "session_at sh k = (case file_at sh k of None \<Rightarrow> None
     | Some f \<Rightarrow> (case from_body (sf_body f) of Inl _ \<Rightarrow> None | Inr s \<Rightarrow> Some s))"

definition armed_at :: "shelf \<Rightarrow> string \<Rightarrow> bool" where
  "armed_at sh k = (case session_at sh k of None \<Rightarrow> False | Some s \<Rightarrow> switched s)"

text \<open>Every file can be opened and holds the session it is named for.\<close>

definition named :: "shelf \<Rightarrow> bool" where
  "named sh = (sh_held sh = {} \<and> (\<forall>k s. session_at sh k = Some s \<longrightarrow> se_id s = k))"

lemma session_at_eq: "session_at sh k = Some s \<longleftrightarrow> (\<exists>f. file_at sh k = Some f \<and> from_body (sf_body f) = Inr s)"
  by (auto simp: session_at_def split: option.splits sum.splits)

lemma entries_iff: "(k, b) \<in> set (entries_of sh) = (k \<notin> sh_held sh \<and> (\<exists>f. file_at sh k = Some f \<and> b = sf_body f))"
proof -
  have "k \<in> fst ` set (sh_files sh) \<longleftrightarrow> (\<exists>f. file_at sh k = Some f)"
    by (metis domIff dom_map_of_conv_image_fst file_at_def not_None_eq)
  then show ?thesis
    by (auto simp: entries_of_def)
qed

lemma load_all_iff: "sh_held sh = {} \<Longrightarrow> s \<in> set (load_all sh) = (\<exists>k. session_at sh k = Some s)"
proof -
  have "s \<in> set (load_all sh) \<longleftrightarrow> (\<exists>k b. (k, b) \<in> set (entries_of sh) \<and> from_body b = Inr s)"
    by (force simp: load_all_def split: sum.splits)
  then show "sh_held sh = {} \<Longrightarrow> s \<in> set (load_all sh) = (\<exists>k. session_at sh k = Some s)"
    by (auto simp: entries_iff session_at_eq)
qed

lemma load_session_named: "named sh \<Longrightarrow> load_session sh sid = Inr s \<longleftrightarrow> session_at sh sid = Some s"
  by (auto simp: load_session_def session_at_def named_def split: option.splits sum.splits)

text \<open>The writes return.\<close>

definition writes :: "(string \<Rightarrow> write_answer) \<Rightarrow> bool" where
  "writes w = (\<forall>sid. w sid \<in> {Written, Unstamped})"

lemma session_at_put [simp]: "session_at (put_file sid (Valid True s) sh) k = (if k = sid then Some s else session_at sh k)"
  by (simp add: session_at_def from_body_def)

lemma session_at_written [simp]: "session_at (sh\<lparr>sh_written := x\<rparr>) = session_at sh" "session_at (sh\<lparr>sh_told := y\<rparr>) = session_at sh"
  "session_at (sh\<lparr>sh_baks := z\<rparr>) = session_at sh"
  by (simp_all add: session_at_def file_at_def fun_eq_iff)

definition finished :: "session \<Rightarrow> bool" where
  "finished s = (c_status s \<in> {''complete'', ''abandoned''})"

lemma named_put: "named sh \<Longrightarrow> named (put_file (se_id s) (Valid True s) sh)"
  by (simp add: named_def)

lemma prune_sessions_at:
  assumes "named sh"
  shows "session_at (prune_sessions sh) k = session_at sh k
    \<or> (session_at (prune_sessions sh) k = None \<and> (\<exists>t. session_at sh k = Some t \<and> finished t))"
proof -
  have "k \<in> spare sh \<Longrightarrow> \<exists>t. session_at sh k = Some t \<and> finished t"
    using assms load_all_iff by (auto simp: spare_def finished_def named_def)
  then show ?thesis
    using prune_fields(1) [of sh k] by (auto simp: session_at_def)
qed

text \<open>What a save does to the sessions: the saved one is there, unless it is finished and pruned at once; the
  others are as they were, or finished and pruned.\<close>

lemma save_at:
  assumes "writes w" "named sh"
  shows "snd (save_session w now s sh)" "sh_held (fst (save_session w now s sh)) = {}"
    "session_at (fst (save_session w now s sh)) k = (if k = se_id s then Some (s\<lparr>se_updated := now\<rparr>) else session_at sh k)
      \<or> (session_at (fst (save_session w now s sh)) k = None
         \<and> (\<exists>t. (if k = se_id s then Some (s\<lparr>se_updated := now\<rparr>) else session_at sh k) = Some t \<and> finished t))"
proof -
  let ?s = "s\<lparr>se_updated := now\<rparr>"
  define put where "put = (put_file (se_id s) (Valid True ?s) sh)\<lparr>sh_written := (sh_written sh)
     (se_id s := if w (se_id s) = Unstamped then None else Some (sh_next sh, c_auto_resume s))\<rparr>"
  have save: "save_session w now s sh = (if file_at sh (se_id s) = None then prune_sessions put else put, True)"
    using assms(1) [unfolded writes_def, rule_format, of "se_id s"]
    by (auto simp: save_session_def put_def Let_def)
  have at: "session_at put k = (if k = se_id s then Some ?s else session_at sh k)" for k
    by (simp add: put_def)
  have named: "named put"
    using assms(2) at by (auto simp: named_def put_def split: if_splits)
  show "snd (save_session w now s sh)" "sh_held (fst (save_session w now s sh)) = {}"
    using named by (auto simp: save prune_fields named_def)
  show "session_at (fst (save_session w now s sh)) k = (if k = se_id s then Some ?s else session_at sh k)
      \<or> (session_at (fst (save_session w now s sh)) k = None
         \<and> (\<exists>t. (if k = se_id s then Some ?s else session_at sh k) = Some t \<and> finished t))"
    using prune_sessions_at [OF named, of k] at [of k] by (cases "file_at sh (se_id s)") (auto simp: save)
qed

lemma save_named: "writes w \<Longrightarrow> named sh \<Longrightarrow> named (fst (save_session w now s sh))"
  unfolding named_def
proof (intro conjI allI impI)
  fix k t
  assume ok: "writes w" "sh_held sh = {} \<and> (\<forall>k s. session_at sh k = Some s \<longrightarrow> se_id s = k)"
    and t: "session_at (fst (save_session w now s sh)) k = Some t"
  then have "(if k = se_id s then Some (s\<lparr>se_updated := now\<rparr>) else session_at sh k) = Some t"
    using save_at(3) [of w sh now s k] by (simp add: named_def)
  with ok(2) show "se_id t = k"
    by (auto split: if_splits)
qed (simp add: save_at(2) [unfolded named_def])

lemma finished_not_switched: "finished s \<Longrightarrow> \<not> switched s"
  by (auto simp: finished_def switched_def)

lemma save_armed:
  assumes "writes w" "named sh"
  shows "armed_at (fst (save_session w now s sh)) k = (if k = se_id s then switched s else armed_at sh k)"
  using save_at(3) [OF assms, of now s k] finished_not_switched
  by (auto simp: armed_at_def switched_def finished_def split: if_splits option.split)

lemma save_kept:
  assumes "writes w" "named sh" "session_at sh k = Some t" "\<not> finished t" "k \<noteq> se_id s"
  shows "session_at (fst (save_session w now s sh)) k = Some t"
  using save_at(3) [OF assms(1,2), of now s k] assms(3-5) by auto

lemma save_own:
  assumes "writes w" "named sh" "\<not> finished s"
  shows "session_at (fst (save_session w now s sh)) (se_id s) = Some (s\<lparr>se_updated := now\<rparr>)"
  using save_at(3) [OF assms(1,2), of now s "se_id s"] assms(3) by (auto simp: finished_def)

text \<open>The sessions of a scan have different ids, and stand on the shelf; they still do after another is saved.\<close>

definition current :: "session list \<Rightarrow> shelf \<Rightarrow> bool" where
  "current ss sh = (distinct (map se_id ss) \<and> (\<forall>s \<in> set ss. session_at sh (se_id s) = Some s \<or> (session_at sh (se_id s) = None \<and> finished s)))"

lemma load_all_current:
  assumes "named sh"
  shows "current (load_all sh) sh"
proof -
  let ?es = "entries_of sh" and ?g = "\<lambda>(sid, b). case from_body b of Inl _ \<Rightarrow> [] | Inr s \<Rightarrow> [s]"
  have held: "sh_held sh = {}"
    using assms by (simp add: named_def)
  have "map se_id (concat (map ?g es)) = map fst (filter (\<lambda>e. from_body (snd e) \<in> range Inr) es)" if "set es \<subseteq> set ?es" for es
    using that
  proof (induction es)
    case (Cons e es)
    obtain k b where e: "e = (k, b)"
      by (cases e)
    have "se_id s = k" if "from_body b = Inr s" for s
      using Cons.prems assms that by (auto simp: e entries_iff named_def session_at_eq)
    then show ?case
      using Cons by (auto simp: e split: sum.split)
  qed simp
  then have "map se_id (load_all sh) = map fst (filter (\<lambda>e. from_body (snd e) \<in> range Inr) ?es)"
    by (simp add: load_all_def)
  moreover have "distinct (map fst ?es)"
    by (simp add: entries_of_def comp_def)
  then have "distinct (map fst (filter (\<lambda>e. from_body (snd e) \<in> range Inr) ?es))"
    by (rule distinct_map_filter)
  ultimately show ?thesis
    using assms load_all_iff [OF held] by (auto simp: current_def named_def)
qed

lemma current_save:
  assumes "writes w" "named sh" "current (o' # ss) sh" "se_id s = se_id o'"
  shows "current ss (fst (save_session w now s sh))"
  unfolding current_def
proof (intro conjI ballI)
  fix t
  assume t: "t \<in> set ss"
  have "se_id o' \<notin> se_id ` set ss"
    using assms(3) by (simp add: current_def)
  then have "se_id t \<noteq> se_id s"
    using t assms(4) by (metis imageI)
  moreover have "session_at sh (se_id t) = Some t \<or> (session_at sh (se_id t) = None \<and> finished t)"
    using assms(3) t by (simp add: current_def)
  ultimately show "session_at (fst (save_session w now s sh)) (se_id t) = Some t
      \<or> (session_at (fst (save_session w now s sh)) (se_id t) = None \<and> finished t)"
    using save_at(3) [OF assms(1,2), of now s "se_id t"] by auto
qed (use assms(3) in \<open>simp add: current_def\<close>)

text \<open>Fewer sessions are armed; the live ones stay live.\<close>

definition fewer :: "shelf \<Rightarrow> shelf \<Rightarrow> bool" where
  "fewer sh sh' = (named sh' \<and> (\<forall>k. armed_at sh' k \<longrightarrow> armed_at sh k))"

definition live_at :: "shelf \<Rightarrow> string \<Rightarrow> bool" where
  "live_at sh k = (\<exists>t. session_at sh k = Some t \<and> c_status t = ''active'')"

definition lives :: "shelf \<Rightarrow> shelf \<Rightarrow> bool" where
  "lives sh sh' = (\<forall>k. live_at sh k \<longrightarrow> live_at sh' k)"

lemma fewer_trans: "fewer sh sh' \<Longrightarrow> fewer sh' sh'' \<Longrightarrow> fewer sh sh''"
  by (auto simp: fewer_def)

lemma lives_trans: "lives sh sh' \<Longrightarrow> lives sh' sh'' \<Longrightarrow> lives sh sh''"
  by (auto simp: lives_def)

lemma fewer_save: "writes w \<Longrightarrow> named sh \<Longrightarrow> switched s \<longrightarrow> armed_at sh (se_id s) \<Longrightarrow> fewer sh (fst (save_session w now s sh))"
  by (auto simp: fewer_def save_armed save_named split: if_splits)

lemma lives_save:
  assumes "writes w" "named sh" "live_at sh (se_id s) \<longrightarrow> c_status s = ''active''"
  shows "lives sh (fst (save_session w now s sh))"
  unfolding lives_def
proof (intro allI impI)
  fix k
  assume "live_at sh k"
  then obtain t where t: "session_at sh k = Some t" "c_status t = ''active''"
    by (auto simp: live_at_def)
  show "live_at (fst (save_session w now s sh)) k"
  proof (cases "k = se_id s")
    case True
    then have "c_status s = ''active''"
      using assms(3) t by (auto simp: live_at_def)
    then show ?thesis
      using save_own [OF assms(1,2), of s now] True by (simp add: live_at_def finished_def)
  next
    case False
    then show ?thesis
      using save_kept [OF assms(1,2) t(1), of s now] t by (auto simp: live_at_def finished_def)
  qed
qed

text \<open>One save of a scan: the session as it stands, with no more switched on.\<close>

lemma scan_save:
  assumes "writes w" "named sh" "current (o' # ss) sh" "se_id s = se_id o'" "switched s \<longrightarrow> switched o'"
  shows "fewer sh (fst (save_session w now s sh))"
    and "(c_status o' = ''active'' \<longrightarrow> c_status s = ''active'') \<Longrightarrow> lives sh (fst (save_session w now s sh))"
proof -
  have at: "session_at sh (se_id o') = Some o' \<or> (session_at sh (se_id o') = None \<and> finished o')"
    using assms(3) by (auto simp: current_def)
  show "fewer sh (fst (save_session w now s sh))"
    using at assms(4,5) finished_not_switched by (intro fewer_save assms(1,2)) (auto simp: armed_at_def)
  show "(c_status o' = ''active'' \<longrightarrow> c_status s = ''active'') \<Longrightarrow> lives sh (fst (save_session w now s sh))"
    using at assms(4) by (intro lives_save assms(1,2)) (auto simp: live_at_def)
qed

lemma sweep_fewer:
  "writes w \<Longrightarrow> named sh \<Longrightarrow> current ss sh \<Longrightarrow> fewer sh (fst (sweep w now ss sh))"
proof (induction ss arbitrary: sh)
  case (Cons s ss)
  show ?case
  proof (cases "c_status s = ''active''")
    case True
    let ?s = "s\<lparr>c_status := ''dormant'', se_crash := se_crash s + 1\<rparr>"
    have saved: "fewer sh (fst (save_session w now ?s sh))"
      using Cons.prems True by (intro scan_save(1)) (auto simp: switched_def)
    then have "fewer (fst (save_session w now ?s sh)) (fst (sweep w now ss (fst (save_session w now ?s sh))))"
      using Cons.prems current_save [of w sh s ss ?s now] by (intro Cons.IH) (auto simp: fewer_def)
    then have "fewer sh (fst (sweep w now ss (fst (save_session w now ?s sh))))"
      by (rule fewer_trans [OF saved])
    then show ?thesis
      using True save_at(1) [OF Cons.prems(1,2), of now ?s] by (simp add: case_prod_unfold)
  next
    case False
    then show ?thesis
      using Cons by (auto simp: current_def)
  qed
qed (simp add: fewer_def)

lemma fewer_refl: "named sh \<Longrightarrow> fewer sh sh"
  by (simp add: fewer_def)

lemma lives_refl: "lives sh sh"
  by (simp add: lives_def)

lemma current_tl: "current (s # ss) sh \<Longrightarrow> current ss sh"
  by (simp add: current_def)

lemma dequeue_fewer:
  "writes w \<Longrightarrow> named sh \<Longrightarrow> current ss sh \<Longrightarrow> fewer sh (fst (dequeue_others w now sid ahead ss sh))
     \<and> lives sh (fst (dequeue_others w now sid ahead ss sh)) \<and> snd (dequeue_others w now sid ahead ss sh)"
proof (induction ss arbitrary: sh)
  case (Cons s ss)
  show ?case
  proof (cases "se_id s = sid \<or> se_behind s \<noteq> Some ahead")
    case True
    then show ?thesis
      using Cons current_tl by auto
  next
    case False
    let ?sh = "fst (save_session w now (s\<lparr>se_behind := None\<rparr>) sh)"
    have saved: "fewer sh ?sh" "lives sh ?sh"
      using Cons.prems by (auto intro!: scan_save simp: switched_def)
    moreover have "current ss ?sh"
      by (rule current_save [OF Cons.prems]) simp
    ultimately have "fewer ?sh (fst (dequeue_others w now sid ahead ss ?sh)) \<and> lives ?sh (fst (dequeue_others w now sid ahead ss ?sh))
        \<and> snd (dequeue_others w now sid ahead ss ?sh)"
      using Cons.prems(1) by (intro Cons.IH) (auto simp: fewer_def)
    then show ?thesis
      using False save_at(1) [OF Cons.prems(1,2), of now "s\<lparr>se_behind := None\<rparr>"] saved
      by (auto simp: case_prod_unfold intro: fewer_trans lives_trans)
  qed
qed (simp add: fewer_def lives_def)

lemma disarm_fewer:
  "writes w \<Longrightarrow> named sh \<Longrightarrow> current ss sh \<Longrightarrow> fewer sh (fst (disarm_others w now sid ss gone sh))
     \<and> lives sh (fst (disarm_others w now sid ss gone sh)) \<and> snd (snd (disarm_others w now sid ss gone sh))
     \<and> (\<forall>s \<in> set ss. se_id s \<noteq> sid \<longrightarrow> \<not> armed_at (fst (disarm_others w now sid ss gone sh)) (se_id s))"
proof (induction ss arbitrary: sh gone)
  case (Cons s ss)
  show ?case
  proof (cases "se_id s = sid \<or> \<not> c_auto_resume s")
    case True
    have at: "session_at sh (se_id s) = Some s \<or> (session_at sh (se_id s) = None \<and> finished s)"
      using Cons.prems(3) by (simp add: current_def)
    let ?r = "disarm_others w now sid ss gone sh"
    have rest: "fewer sh (fst ?r) \<and> lives sh (fst ?r) \<and> snd (snd ?r) \<and> (\<forall>s \<in> set ss. se_id s \<noteq> sid \<longrightarrow> \<not> armed_at (fst ?r) (se_id s))"
      using Cons.prems current_tl by (intro Cons.IH) auto
    moreover have "\<not> armed_at (fst ?r) (se_id s)" if "se_id s \<noteq> sid"
    proof -
      have "\<not> armed_at sh (se_id s)"
        using at True that by (auto simp: armed_at_def switched_def)
      then show ?thesis
        using rest by (auto simp: fewer_def)
    qed
    ultimately show ?thesis
      using True by simp
  next
    case False
    let ?s = "s\<lparr>c_auto_resume := False\<rparr>"
    let ?sh = "fst (save_session w now ?s sh)"
    let ?r = "\<lambda>gone. disarm_others w now sid ss gone ?sh"
    have saved: "fewer sh ?sh" "lives sh ?sh"
      using Cons.prems by (auto intro!: scan_save simp: switched_def)
    have "current ss ?sh"
      by (rule current_save [OF Cons.prems]) simp
    then have rest: "fewer ?sh (fst (?r gone)) \<and> lives ?sh (fst (?r gone)) \<and> snd (snd (?r gone))
        \<and> (\<forall>s \<in> set ss. se_id s \<noteq> sid \<longrightarrow> \<not> armed_at (fst (?r gone)) (se_id s))" for gone
      using Cons.prems(1) saved(1) by (intro Cons.IH) (auto simp: fewer_def)
    moreover have "\<not> armed_at ?sh (se_id s)"
      using save_armed [OF Cons.prems(1,2), of now ?s "se_id s"] by (simp add: switched_def)
    then have "\<not> armed_at (fst (?r gone)) (se_id s)" for gone
      using rest [of gone] by (auto simp: fewer_def)
    ultimately show ?thesis
      using False save_at(1) [OF Cons.prems(1,2), of now ?s] saved
      by (auto simp: case_prod_unfold intro: fewer_trans lives_trans)
  qed
qed (simp add: fewer_def lives_def)

text \<open>Arming one leaves no other armed.\<close>

lemma arm_alone:
  assumes "writes w" "named sh"
  shows "fewer sh (fst (arm_exclusively w now s sh))" "lives sh (fst (arm_exclusively w now s sh))"
    "snd (snd (snd (arm_exclusively w now s sh)))" "fst (snd (arm_exclusively w now s sh)) = s\<lparr>c_auto_resume := True\<rparr>"
    "armed_at (fst (arm_exclusively w now s sh)) k \<Longrightarrow> k = se_id s"
proof -
  let ?r = "disarm_others w now (se_id s) (load_all sh) [] sh"
  have r: "fewer sh (fst ?r)" "lives sh (fst ?r)" "snd (snd ?r)"
      "\<forall>t \<in> set (load_all sh). se_id t \<noteq> se_id s \<longrightarrow> \<not> armed_at (fst ?r) (se_id t)"
    using disarm_fewer [OF assms load_all_current [OF assms(2)], of now "se_id s" "[]"] by auto
  then show "fewer sh (fst (arm_exclusively w now s sh))" "lives sh (fst (arm_exclusively w now s sh))"
    "snd (snd (snd (arm_exclusively w now s sh)))" "fst (snd (arm_exclusively w now s sh)) = s\<lparr>c_auto_resume := True\<rparr>"
    by (simp_all add: arm_exclusively_def case_prod_unfold)
  assume armed: "armed_at (fst (arm_exclusively w now s sh)) k"
  then have "armed_at (fst ?r) k"
    by (simp add: arm_exclusively_def case_prod_unfold)
  moreover from this have "armed_at sh k"
    using r(1) by (simp add: fewer_def)
  then obtain t where "session_at sh k = Some t"
    by (auto simp: armed_at_def split: option.splits)
  then have "t \<in> set (load_all sh)" "se_id t = k"
    using assms(2) load_all_iff by (auto simp: named_def)
  ultimately show "k = se_id s"
    using r(4) by blast
qed

text \<open>At most one is armed, and the run's session is live in its file.\<close>

definition one_armed :: "shelf \<Rightarrow> bool" where
  "one_armed sh = (\<forall>k k'. armed_at sh k \<longrightarrow> armed_at sh k' \<longrightarrow> k = k')"

lemma one_armed_fewer: "one_armed sh \<Longrightarrow> fewer sh sh' \<Longrightarrow> one_armed sh'"
  by (auto simp: one_armed_def fewer_def)

lemma arm_and_save:
  assumes "writes w" "named sh" "se_id t = se_id s"
  shows "named (fst (save_session w now t (fst (arm_exclusively w now s sh))))"
    and "one_armed (fst (save_session w now t (fst (arm_exclusively w now s sh))))"
proof -
  let ?a = "fst (arm_exclusively w now s sh)"
  have named: "named ?a"
    using arm_alone(1) [OF assms(1,2)] by (simp add: fewer_def)
  then show "named (fst (save_session w now t ?a))"
    using save_named assms(1) by blast
  have "armed_at (fst (save_session w now t ?a)) k \<Longrightarrow> k = se_id s" for k
    using save_armed [OF assms(1) named, of now t k] arm_alone(5) [OF assms(1,2), of now s k] assms(3) by (auto split: if_splits)
  then show "one_armed (fst (save_session w now t ?a))"
    unfolding one_armed_def by blast
qed

definition world_ok :: "world \<Rightarrow> bool" where
  "world_ok world = (named (fst world) \<and> written_ok (fst world) \<and> one_armed (fst world)
     \<and> (\<forall>s. snd world = Some s \<longrightarrow> c_status s = ''active'' \<and> live_at (fst world) (se_id s)))"

text \<open>The requests that may come in the middle of a start or of an ending: any but a PATCH that switches a session on.\<close>

definition answered :: "requests \<Rightarrow> bool" where
  "answered xs = list_all (\<lambda>(w, now, x). writes w) xs"

definition quiet :: "requests \<Rightarrow> bool" where
  "quiet xs = (answered xs \<and> list_all (\<lambda>(w, now, x). \<forall>sid b. x = Patch sid b \<longrightarrow> pb_auto b \<noteq> Some True) xs)"

definition sound_event :: "world \<Rightarrow> (string \<Rightarrow> write_answer) \<times> rat \<times> store_event \<Rightarrow> bool" where
  "sound_event world we = (case we of (w, now, e) \<Rightarrow> writes w \<and> (case e of
     Outside _ _ \<Rightarrow> False | Hold _ \<Rightarrow> False
   | Start_Fresh _ _ asks \<Rightarrow> quiet asks | Continue_Run _ _ asks \<Rightarrow> quiet asks
   | Finish _ asks before_next \<Rightarrow> quiet asks \<and> answered before_next
   | _ \<Rightarrow> True))"

text \<open>In the middle of a PATCH: the session in hand, and the shelf since the beginning.\<close>

definition amid :: "shelf \<Rightarrow> shelf \<Rightarrow> session \<Rightarrow> bool" where
  "amid sh0 sh s = (named sh \<and> lives sh0 sh \<and> one_armed sh \<and> (switched s \<longrightarrow> (\<forall>k. armed_at sh k \<longrightarrow> k = se_id s))
     \<and> (live_at sh0 (se_id s) \<longrightarrow> c_status s = ''active''))"

definition stays :: "shelf \<Rightarrow> shelf \<Rightarrow> bool" where
  "stays sh0 sh = (named sh \<and> lives sh0 sh \<and> one_armed sh)"

lemma amid_save:
  assumes "writes w" "amid sh0 sh s"
  shows "stays sh0 (fst (save_session w now s sh))"
proof -
  have named: "named sh"
    using assms(2) by (simp add: amid_def)
  have "live_at (fst (save_session w now s sh)) k" if "live_at sh0 k" for k
  proof (cases "k = se_id s")
    case True
    then have "c_status s = ''active''"
      using assms(2) that by (simp add: amid_def)
    then show ?thesis
      using save_own [OF assms(1) named, of s now] True by (simp add: live_at_def finished_def)
  next
    case False
    have "live_at sh k"
      using assms(2) that by (simp add: amid_def lives_def)
    then show ?thesis
      using save_kept [OF assms(1) named _ _ False] by (fastforce simp: live_at_def finished_def)
  qed
  moreover have "armed_at (fst (save_session w now s sh)) k \<Longrightarrow> armed_at (fst (save_session w now s sh)) k' \<Longrightarrow> k = k'" for k k'
    using assms(2) unfolding amid_def one_armed_def save_armed [OF assms(1) named] by (metis (full_types))
  then have "one_armed (fst (save_session w now s sh))"
    unfolding one_armed_def by blast
  ultimately show ?thesis
    using save_named [OF assms(1) named] by (simp add: stays_def lives_def)
qed

lemma amid_cong:
  assumes "amid sh0 sh s" "se_id t = se_id s" "switched t \<Longrightarrow> switched s" "c_status s = ''active'' \<Longrightarrow> c_status t = ''active''"
  shows "amid sh0 sh t"
  using assms unfolding amid_def by metis

lemma amid_status:
  assumes "amid sh0 sh s" "patch_status want s = Inr s'"
  shows "amid sh0 sh s' \<and> se_id s' = se_id s"
proof (cases want)
  case (Some x)
  with assms(2) have "s' = s\<lparr>c_status := ''abandoned'', c_auto_resume := False\<rparr>" "c_status s \<noteq> ''active''"
    by (simp_all add: patch_status_def split: if_splits)
  then show ?thesis
    using amid_cong [OF assms(1), of s'] by (simp add: switched_def)
qed (use assms in \<open>simp add: patch_status_def\<close>)

lemma amid_stays: "amid sh0 sh s \<Longrightarrow> stays sh0 sh"
  by (simp add: amid_def stays_def)

lemma amid_arm:
  assumes "writes w" "amid sh0 sh s" "se_id t = se_id s" "c_status t = c_status s"
  shows "amid sh0 (fst (arm_exclusively w now t sh)) (t\<lparr>c_auto_resume := True\<rparr>)"
proof -
  have named: "named sh" and one: "one_armed sh" and lives: "lives sh0 sh"
    using assms(2) by (simp_all add: amid_def)
  note arm = arm_alone [OF assms(1) named, of now t]
  have "named (fst (arm_exclusively w now t sh))" "one_armed (fst (arm_exclusively w now t sh))"
      "lives sh0 (fst (arm_exclusively w now t sh))"
    using arm(1,2) one lives one_armed_fewer lives_trans by (auto simp: fewer_def)
  moreover have "armed_at (fst (arm_exclusively w now t sh)) k \<Longrightarrow> k = se_id t" for k
    by (rule arm(5))
  ultimately show ?thesis
    using assms(2-4) by (simp add: amid_def)
qed

lemma amid_auto:
  assumes "writes w" "amid sh0 sh s"
  shows "case patch_auto w now want s sh of (sh', r) \<Rightarrow> stays sh0 sh' \<and> (\<forall>s'. r = Inr s' \<longrightarrow> amid sh0 sh' s')"
proof -
  have off: "amid sh0 sh (s\<lparr>c_auto_resume := False\<rparr>)"
    by (rule amid_cong [OF assms(2)]) (simp_all add: switched_def)
  have on: "amid sh0 (fst (arm_exclusively w now (s\<lparr>se_behind := None\<rparr>) sh)) (s\<lparr>se_behind := None, c_auto_resume := True\<rparr>)"
    by (rule amid_arm [OF assms]) simp_all
  have named: "named sh"
    using assms(2) by (simp add: amid_def)
  note arm = arm_alone(3,4) [OF assms(1) named, of now "s\<lparr>se_behind := None\<rparr>"]
  show ?thesis
    using assms(2) off on amid_stays [OF assms(2)] amid_stays [OF on] arm
    by (cases want) (simp_all add: patch_auto_def case_prod_unfold split: bool.split)
qed

lemma armed_session_fields:
  "session_at (fst (armed_session sh)) = session_at sh" "sh_held (fst (armed_session sh)) = sh_held sh"
  by (simp_all add: armed_session_def)

lemma told_same: "fewer sh (fst (armed_session sh)) \<and> lives sh (fst (armed_session sh))" if "named sh"
  using that by (simp add: fewer_def lives_def named_def armed_at_def live_at_def armed_session_fields)

lemma amid_fewer: "amid sh0 sh s \<Longrightarrow> fewer sh sh' \<Longrightarrow> lives sh sh' \<Longrightarrow> amid sh0 sh' s"
  by (auto simp: amid_def fewer_def intro: lives_trans one_armed_fewer [unfolded fewer_def])

lemma amid_queue:
  assumes "writes w" "amid sh0 sh s"
  shows "case patch_queue w now at_work want s sh of (sh', r) \<Rightarrow> stays sh0 sh' \<and> (\<forall>s'. r = Inr s' \<longrightarrow> amid sh0 sh' s')"
proof -
  define first where "first = (case at_work of Some l \<Rightarrow> (sh, Some l) | None \<Rightarrow> armed_session sh)"
  have named: "named sh"
    using assms(2) by (simp add: amid_def)
  have first: "fewer sh (fst first) \<and> lives sh (fst first)"
    using told_same [OF named] named by (auto simp: first_def fewer_refl lives_refl split: option.split)
  let ?q = "\<lambda>ahead. dequeue_others w now (se_id s) ahead (load_all (fst first)) (fst first)"
  have named1: "named (fst first)"
    using first by (simp add: fewer_def)
  have queue: "fewer (fst first) (fst (?q ahead)) \<and> lives (fst first) (fst (?q ahead))" for ahead
    using dequeue_fewer [OF assms(1) named1 load_all_current [OF named1]] by blast
  have kept: "amid sh0 (fst first) t" "amid sh0 (fst (?q ahead)) t" if "amid sh0 sh t" for t ahead
  proof -
    show "amid sh0 (fst first) t"
      using first amid_fewer that by blast
    then show "amid sh0 (fst (?q ahead)) t"
      using queue amid_fewer by blast
  qed
  have behind: "amid sh0 sh (s\<lparr>se_behind := x\<rparr>)" for x
    by (rule amid_cong [OF assms(2)]) (simp_all add: switched_def)
  have asked: "patch_queue w now at_work (Some True) s sh = (if c_status s \<noteq> ''dormant'' then (sh, Inl 409)
      else case snd first of None \<Rightarrow> (fst first, Inl 409)
      | Some ahead \<Rightarrow> if se_id ahead = se_id s then (fst first, Inl 409)
          else (fst (?q (se_id ahead)), if snd (?q (se_id ahead)) then Inr (s\<lparr>se_behind := Some (se_id ahead)\<rparr>) else Inl 500))"
    by (simp add: patch_queue_def first_def [symmetric] case_prod_unfold split: option.split)
  note facts = kept [OF assms(2)] kept [OF behind] behind assms(2)
  show ?thesis
  proof (cases want)
    case (Some b)
    show ?thesis
    proof (cases b)
      case True
      then have "b = True"
        by simp
      show ?thesis
        unfolding Some \<open>b = True\<close> asked using facts facts [THEN amid_stays] by (auto split: option.split)
    next
      case False
      then show ?thesis
        using facts facts [THEN amid_stays] by (simp add: Some patch_queue_def)
    qed
  qed (use assms(2) amid_stays in \<open>auto simp: patch_queue_def\<close>)
qed

lemma patch_stays:
  assumes "writes w" "named sh" "one_armed sh"
  shows "stays sh (fst (patch_session w now at_work sid b sh))"
proof (cases "load_session sh sid")
  case (Inl e)
  then show ?thesis
    using assms by (cases e) (simp_all add: patch_session_def stays_def lives_refl)
next
  case (Inr s)
  have at: "session_at sh (se_id s) = Some s"
    using Inr load_session_named [OF assms(2)] assms(2) by (simp add: named_def)
  have here: "stays sh sh"
    using assms by (simp add: stays_def lives_refl)
  have "amid sh sh s"
    unfolding amid_def
  proof (intro conjI impI allI)
    fix k
    assume "switched s" "armed_at sh k"
    moreover from this have "armed_at sh (se_id s)"
      using at by (simp add: armed_at_def)
    ultimately show "k = se_id s"
      using assms(3) by (auto simp: one_armed_def)
  qed (use assms at in \<open>auto simp: lives_refl live_at_def\<close>)
  show ?thesis
  proof (cases "patch_status (pb_status b) s")
    case (Inl code)
    then show ?thesis
      using here Inr by (simp add: patch_session_def)
  next
    case status: (Inr s1)
    obtain sh2 r2 where auto: "patch_auto w now (pb_auto b) s1 sh = (sh2, r2)"
      by fastforce
    have two: "stays sh sh2" "r2 = Inr s2 \<Longrightarrow> amid sh sh2 s2" for s2
      using amid_auto [OF assms(1), of sh sh s1 now "pb_auto b"] amid_status [OF \<open>amid sh sh s\<close> status] auto by auto
    show ?thesis
    proof (cases r2)
      case (Inl code)
      then show ?thesis
        using here two(1) Inr status auto by (simp add: patch_session_def)
    next
      case three: (Inr s2)
      obtain sh3 r3 where queue: "patch_queue w now at_work (pb_queue b) s2 sh2 = (sh3, r3)"
        by fastforce
      have four: "stays sh sh3" "r3 = Inr s3 \<Longrightarrow> amid sh sh3 s3" for s3
        using amid_queue [OF assms(1) two(2) [OF three], of now at_work "pb_queue b"] queue by auto
      show ?thesis
      proof (cases r3)
        case (Inl code)
        then show ?thesis
          using here four(1) Inr status auto three queue by (simp add: patch_session_def)
      next
        case five: (Inr s3)
        let ?s = "if c_status s3 = ''abandoned'' then s3\<lparr>se_behind := None\<rparr> else s3"
        have "amid sh sh3 ?s"
          by (rule amid_cong [OF four(2) [OF five]]) (simp_all add: switched_def split: if_splits)
        then show ?thesis
          using here amid_save [OF assms(1)] Inr status auto three queue five
          by (simp add: patch_session_def Let_def case_prod_unfold)
      qed
    qed
  qed
qed

lemma kept_live: "stays sh sh' \<Longrightarrow> written_ok sh' \<Longrightarrow> world_ok (sh, at_work) \<Longrightarrow> world_ok (sh', at_work)"
  by (auto simp: world_ok_def stays_def lives_def)

lemma at_work_session:
  assumes "world_ok (sh, Some s)"
  shows "\<exists>f stored. file_at sh (se_id s) = Some f \<and> sf_body f = Valid True stored \<and> c_status stored = ''active''
    \<and> session_at sh (se_id s) = Some stored \<and> load_session sh (se_id s) = Inr stored"
proof -
  obtain t f where t: "session_at sh (se_id s) = Some t" "c_status t = ''active''" "file_at sh (se_id s) = Some f"
      "from_body (sf_body f) = Inr t"
    using assms by (auto simp: world_ok_def live_at_def session_at_eq)
  moreover from this have "sf_body f = Valid True t"
    by (auto simp: from_body_def split: body.splits if_splits)
  moreover have "load_session sh (se_id s) = Inr t"
    using t(1) assms load_session_named by (auto simp: world_ok_def)
  ultimately show ?thesis
    by blast
qed

lemma bank_ok:
  assumes "writes w" "world_ok (sh, Some s)" "store_step (sh, Some s) (w, now, Bank_Frame f) = world"
  shows "named (fst world) \<and> one_armed (fst world) \<and> (\<forall>t. snd world = Some t \<longrightarrow> c_status t = ''active'' \<and> live_at (fst world) (se_id t))"
proof -
  obtain g stored where at: "file_at sh (se_id s) = Some g" "sf_body g = Valid True stored" "c_status stored = ''active''"
      "session_at sh (se_id s) = Some stored"
    using at_work_session [OF assms(2)] by blast
  have ok: "named sh" "written_ok sh" "one_armed sh" "c_status s = ''active''"
    using assms(2) by (simp_all add: world_ok_def)
  define t where "t = s\<lparr>c_frames := c_frames s @ [f], c_auto_resume := c_auto_resume stored\<rparr>"
  have "operator_switch sh (s\<lparr>c_frames := c_frames s @ [f]\<rparr>) = c_auto_resume stored"
    using switch_on_disk [of sh "s\<lparr>c_frames := c_frames s @ [f]\<rparr>" g stored] ok(1,2) at by (simp add: named_def)
  then have world: "world = (fst (save_session w now t sh), Some (t\<lparr>se_updated := now\<rparr>))"
    using assms(3) by (simp add: save_run_state_def Let_def case_prod_unfold t_def)
  have t: "se_id t = se_id s" "c_status t = ''active''" "c_auto_resume t = c_auto_resume stored"
    using ok(4) by (simp_all add: t_def)
  have "fewer sh (fst (save_session w now t sh))"
    by (rule fewer_save [OF assms(1) ok(1)]) (use t at in \<open>simp add: armed_at_def switched_def\<close>)
  moreover have "live_at (fst (save_session w now t sh)) (se_id t)"
    using save_own [OF assms(1) ok(1), of t now] t by (simp add: live_at_def finished_def)
  ultimately show ?thesis
    using ok(3) one_armed_fewer t(2) by (auto simp: world fewer_def)
qed

lemma deleted_at:
  assumes "named sh"
  shows "fewer sh (delete_session keep sid sh)" "k \<noteq> sid \<Longrightarrow> live_at sh k \<Longrightarrow> live_at (delete_session keep sid sh) k"
  using assms by (auto simp: fewer_def named_def armed_at_def live_at_def session_at_def split: if_splits option.splits)

lemma delete_ok:
  assumes "named sh" "one_armed sh" "\<forall>s. at_work = Some s \<longrightarrow> live_at sh (se_id s)"
  shows "named (fst (delete_route at_work sid sh)) \<and> one_armed (fst (delete_route at_work sid sh))
    \<and> (\<forall>s. at_work = Some s \<longrightarrow> live_at (fst (delete_route at_work sid sh)) (se_id s))"
proof -
  have deleted: "named (delete_session keep sid sh) \<and> one_armed (delete_session keep sid sh)
      \<and> (\<forall>s. at_work = Some s \<longrightarrow> live_at (delete_session keep sid sh) (se_id s))"
    if "\<not> (case at_work of None \<Rightarrow> False | Some l \<Rightarrow> se_id l = sid)" for keep
    using deleted_at [OF assms(1), where keep = keep and sid = sid] one_armed_fewer [OF assms(2)] assms(3) that
    by (auto simp: fewer_def split: option.splits)
  show ?thesis
    using deleted assms by (auto simp: delete_route_def Let_def split: sum.split store_error.split)
qed

lemma restore_cases:
  "fst (restore_backup w now sid sh) = sh \<or> (\<exists>s. se_id s = sid \<and> c_auto_resume s = False \<and> c_status s \<noteq> ''active''
     \<and> fst (restore_backup w now sid sh) = fst (save_session w now s sh))"
proof (cases "map_of (sh_baks sh) sid")
  case (Some b)
  show ?thesis
  proof (cases "from_body b")
    case (Inr s)
    let ?t = "s\<lparr>c_auto_resume := False, c_status := if c_status s = ''active'' then ''dormant'' else c_status s\<rparr>"
    have "fst (restore_backup w now sid sh) \<in> {sh, fst (save_session w now ?t sh)} \<and> (se_id s \<noteq> sid \<longrightarrow> fst (restore_backup w now sid sh) = sh)"
      using Some Inr by (simp add: restore_backup_def Let_def case_prod_unfold split: option.split bool.split)
    moreover have "se_id ?t = se_id s" "\<not> c_auto_resume ?t" "c_status ?t \<noteq> ''active''"
      by simp_all
    ultimately show ?thesis
      by (metis insertE singletonD)
  qed (simp add: restore_backup_def Some)
qed (simp add: restore_backup_def)

lemma restore_fewer:
  assumes "writes w" "named sh"
  shows "fewer sh (restore_route w now at_work sid sh)"
proof (cases "fst (restore_backup w now sid sh) = sh")
  case False
  then obtain s where s: "fst (restore_backup w now sid sh) = fst (save_session w now s sh)" "\<not> c_auto_resume s"
    using restore_cases [of w now sid sh] by auto
  have "fewer sh (fst (save_session w now s sh))"
    by (rule fewer_save [OF assms]) (simp add: switched_def s(2))
  then show ?thesis
    using s(1) fewer_refl [OF assms(2)] by (simp add: restore_route_def)
qed (simp add: restore_route_def fewer_refl [OF assms(2)])

lemma restore_live:
  assumes "writes w" "named sh" "\<forall>s. at_work = Some s \<longrightarrow> live_at sh (se_id s)"
  shows "\<forall>s. at_work = Some s \<longrightarrow> live_at (restore_route w now at_work sid sh) (se_id s)"
proof (cases "(case at_work of None \<Rightarrow> False | Some l \<Rightarrow> se_id l = sid) \<or> fst (restore_backup w now sid sh) = sh")
  case True
  then show ?thesis
    using assms by (auto simp: restore_route_def)
next
  case False
  then obtain s where s: "fst (restore_backup w now sid sh) = fst (save_session w now s sh)" "se_id s = sid"
    using restore_cases [of w now sid sh] by auto
  have "live_at (fst (save_session w now s sh)) k" if "live_at sh k" "k \<noteq> sid" for k
    using that save_kept [OF assms(1,2), of k _ s now] s(2) by (fastforce simp: live_at_def finished_def)
  then show ?thesis
    using False s(1) assms(3) by (auto simp: restore_route_def split: option.splits)
qed

lemma backup_same:
  "named (fst (backup_session sid sh)) = named sh" "armed_at (fst (backup_session sid sh)) = armed_at sh"
  "live_at (fst (backup_session sid sh)) = live_at sh"
  by (auto simp: backup_session_def named_def armed_at_def live_at_def session_at_def file_at_def fun_eq_iff split: option.split)

lemma delete_fewer: "named sh \<Longrightarrow> fewer sh (fst (delete_route at_work sid sh))"
  using deleted_at(1) fewer_refl by (auto simp: delete_route_def Let_def split: sum.split store_error.split)

text \<open>A request keeps the run's session live, and one that switches nothing on adds no armed session.\<close>

lemma route_ok:
  assumes "writes w" "named sh" "one_armed sh"
  shows "named (fst (route_step (sh, at_work) (w, now, x))) \<and> one_armed (fst (route_step (sh, at_work) (w, now, x)))
    \<and> ((\<forall>s. at_work = Some s \<longrightarrow> live_at sh (se_id s)) \<longrightarrow>
        (\<forall>s. at_work = Some s \<longrightarrow> live_at (fst (route_step (sh, at_work) (w, now, x))) (se_id s)))"
proof (cases x)
  case (Patch sid b)
  then show ?thesis
    using patch_stays [OF assms, of now at_work sid b] by (auto simp: stays_def lives_def)
next
  case (Delete_It sid)
  then show ?thesis
    using delete_fewer [OF assms(2)] one_armed_fewer [OF assms(3)] delete_ok [OF assms(2,3)] by (auto simp: fewer_def)
next
  case (Back_Up sid)
  then show ?thesis
    using assms by (simp add: backup_same one_armed_def)
next
  case (Restore sid)
  then show ?thesis
    using restore_fewer [OF assms(1,2)] one_armed_fewer [OF assms(3)] restore_live [OF assms(1,2)] by (auto simp: fewer_def)
qed

lemma routes_ok:
  "answered xs \<Longrightarrow> named (fst world) \<Longrightarrow> one_armed (fst world) \<Longrightarrow>
     named (fst (run route_step world xs)) \<and> one_armed (fst (run route_step world xs))"
proof (induction xs arbitrary: world)
  case (Cons x xs)
  obtain sh a w now q where "world = (sh, a)" "x = (w, now, q)"
    by (metis prod.exhaust)
  then show ?case
    using Cons route_ok [of w sh a now q] by (simp add: answered_def)
qed simp

lemma queue_fewer:
  assumes "writes w" "named sh"
  shows "case patch_queue w now at_work want s sh of (sh', r) \<Rightarrow>
    fewer sh sh' \<and> (\<forall>s'. r = Inr s' \<longrightarrow> se_id s' = se_id s \<and> (switched s' \<longrightarrow> switched s))"
proof -
  define first where "first = (case at_work of Some l \<Rightarrow> (sh, Some l) | None \<Rightarrow> armed_session sh)"
  have first: "fewer sh (fst first)"
    using told_same [OF assms(2)] assms(2) by (auto simp: first_def fewer_refl split: option.split)
  have named1: "named (fst first)"
    using first by (simp add: fewer_def)
  have "fewer (fst first) (fst (dequeue_others w now (se_id s) ahead (load_all (fst first)) (fst first)))" for ahead
    using dequeue_fewer [OF assms(1) named1 load_all_current [OF named1]] by blast
  then have queue: "fewer sh (fst (dequeue_others w now (se_id s) ahead (load_all (fst first)) (fst first)))" for ahead
    using first fewer_trans by blast
  have same: "se_id (s\<lparr>se_behind := b\<rparr>) = se_id s \<and> switched (s\<lparr>se_behind := b\<rparr>) = switched s" for b
    by (simp add: switched_def)
  have here: "fewer sh sh"
    using assms(2) by (rule fewer_refl)
  have asked: "patch_queue w now at_work (Some True) s sh = (if c_status s \<noteq> ''dormant'' then (sh, Inl 409)
      else case snd first of None \<Rightarrow> (fst first, Inl 409)
      | Some ahead \<Rightarrow> if se_id ahead = se_id s then (fst first, Inl 409)
          else (fst (dequeue_others w now (se_id s) (se_id ahead) (load_all (fst first)) (fst first)),
            if snd (dequeue_others w now (se_id s) (se_id ahead) (load_all (fst first)) (fst first))
            then Inr (s\<lparr>se_behind := Some (se_id ahead)\<rparr>) else Inl 500))"
    by (simp add: patch_queue_def first_def [symmetric] case_prod_unfold split: option.split)
  show ?thesis
  proof (cases want)
    case (Some b)
    show ?thesis
    proof (cases b)
      case True
      then have "b = True"
        by simp
      show ?thesis
        unfolding Some \<open>b = True\<close> asked using first queue same here by (auto split: option.split)
    next
      case False
      then show ?thesis
        using same here by (simp add: Some patch_queue_def)
    qed
  qed (use here in \<open>simp add: patch_queue_def\<close>)
qed

lemma quiet_patch_fewer:
  assumes "writes w" "named sh" "pb_auto b \<noteq> Some True"
  shows "fewer sh (fst (patch_session w now at_work sid b sh))"
proof (cases "load_session sh sid")
  case (Inl e)
  then show ?thesis
    using fewer_refl [OF assms(2)] by (cases e) (simp_all add: patch_session_def)
next
  case (Inr s)
  have at: "session_at sh (se_id s) = Some s"
    using Inr load_session_named [OF assms(2)] assms(2) by (simp add: named_def)
  show ?thesis
  proof (cases "patch_status (pb_status b) s")
    case status: (Inr s1)
    have s1: "se_id s1 = se_id s" "switched s1 \<longrightarrow> switched s"
      using status by (auto simp: patch_status_def switched_def split: option.splits if_splits)
    obtain s2 where auto: "patch_auto w now (pb_auto b) s1 sh = (sh, Inr s2)"
        and s2: "se_id s2 = se_id s1" "switched s2 \<longrightarrow> switched s1"
      using assms(3) by (cases "pb_auto b") (auto simp: patch_auto_def switched_def split: bool.splits)
    obtain sh3 r3 where queue: "patch_queue w now at_work (pb_queue b) s2 sh = (sh3, r3)"
      by fastforce
    have q: "fewer sh sh3" "r3 = Inr s3 \<Longrightarrow> se_id s3 = se_id s2 \<and> (switched s3 \<longrightarrow> switched s2)" for s3
      using queue_fewer [OF assms(1,2), where now = now and at_work = at_work and want = "pb_queue b" and s = s2] queue by auto
    have fin: "fewer sh (fst (save_session w now t sh3))" if "se_id t = se_id s" "switched t \<longrightarrow> switched s" for t
    proof -
      have n: "named sh3"
        using q(1) by (simp add: fewer_def)
      have "armed_at sh k" if "armed_at (fst (save_session w now t sh3)) k" for k
        using that save_armed [OF assms(1) n, of now t k] q(1) \<open>se_id t = se_id s\<close> \<open>switched t \<longrightarrow> switched s\<close> at
        by (auto simp: fewer_def armed_at_def split: if_splits)
      then show ?thesis
        using save_named [OF assms(1) n] by (simp add: fewer_def)
    qed
    have keeps: "switched (s3\<lparr>se_behind := None\<rparr>) = switched s3" for s3
      by (simp add: switched_def)
    show ?thesis
      using Inr status auto queue q fin s1 s2 keeps fewer_refl [OF assms(2)]
      by (cases r3) (auto simp: patch_session_def Let_def case_prod_unfold)
  qed (use Inr fewer_refl [OF assms(2)] in \<open>simp add: patch_session_def\<close>)
qed

lemma quiet_fewer: "quiet xs \<Longrightarrow> named (fst world) \<Longrightarrow> fewer (fst world) (fst (run route_step world xs))"
proof (induction xs arbitrary: world)
  case (Cons x xs)
  obtain sh a w now q where eq: "world = (sh, a)" "x = (w, now, q)"
    by (metis prod.exhaust)
  have w: "writes w" and named: "named sh" and q: "\<And>sid b. q = Patch sid b \<Longrightarrow> pb_auto b \<noteq> Some True" and "quiet xs"
    using Cons.prems by (simp_all add: eq quiet_def answered_def)
  have one: "fewer sh (fst (route_step (sh, a) (w, now, q)))"
  proof (cases q)
    case (Back_Up sid)
    then show ?thesis
      using named by (simp add: backup_same fewer_def)
  qed (use quiet_patch_fewer [OF w named] q delete_fewer [OF named] restore_fewer [OF w named] in simp_all)
  then have "named (fst (route_step (sh, a) (w, now, q)))"
    by (simp add: fewer_def)
  from fewer_trans [OF one Cons.IH [OF \<open>quiet xs\<close> this]] show ?case
    by (simp add: eq)
qed (simp add: fewer_refl)

text \<open>Where only \<open>k\<close> may be armed, saving \<open>k\<close> leaves at most it.\<close>

lemma save_only:
  assumes "writes w" "named sh" "\<forall>k. armed_at sh k \<longrightarrow> k = se_id t"
  shows "one_armed (fst (save_session w now t sh))" "named (fst (save_session w now t sh))"
proof -
  have "k = se_id t" if "armed_at (fst (save_session w now t sh)) k" for k
    using that save_armed [OF assms(1,2), of now t k] assms(3) by (auto split: if_splits)
  then show "one_armed (fst (save_session w now t sh))"
    unfolding one_armed_def by blast
qed (rule save_named [OF assms(1,2)])

lemma started_ok:
  assumes "writes w" "named sh" "quiet asks"
  shows "named (fst (start_session w now rid asks s sh)) \<and> one_armed (fst (start_session w now rid asks s sh))
    \<and> (\<forall>t. snd (start_session w now rid asks s sh) = Some t \<longrightarrow> c_status t = ''active''
        \<and> live_at (fst (start_session w now rid asks s sh)) (se_id t))"
proof -
  let ?s = "s\<lparr>c_status := ''active'', c_auto_resume := True, se_behind := None\<rparr>"
  let ?a = "fst (arm_exclusively w now ?s sh)"
  let ?b = "fst (run route_step (?a, None) asks)"
  define t where "t = (fst (snd (arm_exclusively w now ?s sh)))\<lparr>c_nights := c_nights (fst (snd (arm_exclusively w now ?s sh))) @ [rid]\<rparr>"
  have t: "se_id t = se_id s" "c_status t = ''active''"
    using arm_alone(4) [OF assms(1,2), of now ?s] by (simp_all add: t_def)
  have "named ?a"
    using arm_alone(1) [OF assms(1,2)] by (simp add: fewer_def)
  then have b: "fewer ?a ?b"
    using quiet_fewer [OF assms(3), of "(?a, None)"] by simp
  then have named: "named ?b"
    by (simp add: fewer_def)
  have only: "\<forall>k. armed_at ?b k \<longrightarrow> k = se_id t"
    using b arm_alone(5) [OF assms(1,2), of now ?s] t(1) by (auto simp: fewer_def)
  have eq: "start_session w now rid asks s sh = (fst (save_session w now t ?b), Some (t\<lparr>se_updated := now\<rparr>))"
    using save_at(1) [OF assms(1) named, of now t]
    by (simp add: start_session_def start_arms_def start_saves_def case_prod_unfold Let_def t_def [symmetric])
  have "live_at (fst (save_session w now t ?b)) (se_id t)"
    using save_own [OF assms(1) named, of t now] t by (simp add: live_at_def finished_def)
  then show ?thesis
    using save_only [OF assms(1) named only] t unfolding eq by simp
qed

lemma finish_ok:
  assumes "writes w" "world_ok (sh, Some s)" "quiet asks" "answered before_next"
  shows "named (finish_run w now e asks before_next s sh) \<and> one_armed (finish_run w now e asks before_next s sh)"
proof -
  obtain stored where at: "session_at sh (se_id s) = Some stored" "c_status stored = ''active''" "load_session sh (se_id s) = Inr stored"
    using at_work_session [OF assms(2)] by blast
  have ok: "named sh" "one_armed sh"
    using assms(2) by (simp_all add: world_ok_def)
  define t where "t = ended_session e (adopt_operator_fields sh s)"
  have t: "se_id t = se_id s" "c_auto_resume t \<longrightarrow> c_auto_resume stored"
    by (simp_all add: t_def ended_session_def adopt_operator_fields_def at(3) Let_def)
  define sh1 where "sh1 = fst (run route_step (sh, Some s) asks)"
  have b: "fewer sh sh1"
    using quiet_fewer [OF assms(3), of "(sh, Some s)"] ok(1) by (simp add: sh1_def)
  then have named: "named sh1"
    by (simp add: fewer_def)
  have two: "named (fst (save_session w now t sh1))" "one_armed (fst (save_session w now t sh1))"
  proof -
    show "named (fst (save_session w now t sh1))"
      by (rule save_named [OF assms(1) named])
    show "one_armed (fst (save_session w now t sh1))"
    proof (cases "switched t")
      case True
      then have "armed_at sh (se_id t)"
        using t at by (simp add: armed_at_def switched_def)
      then have "\<forall>k. armed_at sh1 k \<longrightarrow> k = se_id t"
        using b ok(2) by (auto simp: fewer_def one_armed_def)
      then show ?thesis
        by (rule save_only(1) [OF assms(1) named])
    next
      case False
      then have "fewer sh1 (fst (save_session w now t sh1))"
        by (intro fewer_save [OF assms(1) named]) simp
      then show ?thesis
        using b ok(2) one_armed_fewer fewer_trans by blast
    qed
  qed
  have promoted: "named (promote_queued w now x sh') \<and> one_armed (promote_queued w now x sh')" if "named sh'" "one_armed sh'" for x sh'
  proof (cases "newest_first (filter (\<lambda>s. se_behind s = Some x \<and> c_status s = ''dormant'') (load_all sh'))")
    case (Cons nxt rest)
    let ?n = "nxt\<lparr>se_behind := None\<rparr>"
    show ?thesis
      using arm_alone(3,4) [OF assms(1) that(1), of now ?n] arm_and_save [OF assms(1) that(1), of "?n\<lparr>c_auto_resume := True\<rparr>" ?n now]
      by (simp add: promote_queued_def Cons case_prod_unfold)
  qed (use that in \<open>simp add: promote_queued_def\<close>)
  show ?thesis
    using two promoted routes_ok [OF assms(4), of "(fst (save_session w now t sh1), Some t)"]
    by (simp add: finish_run_def Let_def case_prod_unfold t_def [symmetric] sh1_def [symmetric])
qed

lemma step_ok:
  assumes "world_ok world" "sound_event world we"
  shows "world_ok (store_step world we)"
proof -
  obtain sh at_work w now e where eq: "world = (sh, at_work)" "we = (w, now, e)"
    by (metis prod.exhaust)
  have w: "writes w" and ok: "named sh" "written_ok sh" "one_armed sh" "\<forall>s. at_work = Some s \<longrightarrow> c_status s = ''active'' \<and> live_at sh (se_id s)"
    using assms by (auto simp: eq world_ok_def sound_event_def)
  have written: "written_ok (fst (store_step world we))"
    using written.kept_step [of world we] ok(2) by (simp add: eq)
  have "named (fst (store_step world we)) \<and> one_armed (fst (store_step world we))
      \<and> (\<forall>s. snd (store_step world we) = Some s \<longrightarrow> c_status s = ''active'' \<and> live_at (fst (store_step world we)) (se_id s))"
  proof (cases e)
    case (Start_Fresh rid s asks)
    then have "quiet asks"
      using assms(2) by (simp add: eq sound_event_def)
    from started_ok [OF w ok(1) this] show ?thesis
      using ok by (auto simp: eq Start_Fresh)
  next
    case (Continue_Run rid sid asks)
    then have "quiet asks"
      using assms(2) by (simp add: eq sound_event_def)
    from started_ok [OF w ok(1) this] show ?thesis
      using ok by (auto simp: eq Continue_Run split: sum.split)
  next
    case (Bank_Frame f)
    show ?thesis
    proof (cases at_work)
      case (Some s)
      have "world_ok (sh, Some s)"
        using assms(1) by (simp add: eq Some)
      then show ?thesis
        unfolding eq Some Bank_Frame by (rule bank_ok [OF w _ refl])
    qed (use ok in \<open>simp add: eq Bank_Frame\<close>)
  next
    case (Finish en asks before_next)
    then have "quiet asks" "answered before_next"
      using assms(2) by (simp_all add: eq sound_event_def)
    from finish_ok [OF w _ this] show ?thesis
      using assms(1) ok by (auto simp: eq Finish split: option.split)
  next
    case (Ask q)
    have "snd (route_step (sh, at_work) (w, now, q)) = at_work"
      by simp
    then show ?thesis
      using route_ok [OF w ok(1,3), of at_work now q] ok(4) by (auto simp: eq Ask)
  next
    case Boot
    then show ?thesis
      using sweep_fewer [OF w ok(1) load_all_current [OF ok(1)], of now] ok(3) one_armed_fewer
      by (auto simp: eq boot_sweep_def fewer_def)
  qed (use assms(2) in \<open>auto simp: eq sound_event_def\<close>)
  with written show ?thesis
    by (simp add: world_ok_def)
qed

interpretation worlds: lawful store_step world_ok sound_event
  by unfold_locales (rule step_ok)

text \<open>C12. One session is armed at most, and the session of a run is live in its file: while writes return, files can be
  opened and nobody edits them from outside, starts, continues, banked frames, endings with their promotions, PATCHes,
  deletes, backups, restores and reboots, in any order, keep both. A request may land in the middle of a start or of an
  ending, which hold no lock, unless it is a PATCH that switches a session on: one of these, there, leaves two armed.\<close>

theorem one_session_is_armed:
  assumes "world_ok world" "legal_run sound_event store_step world es" "run store_step world es = (sh, at_work)"
  shows "(\<forall>k k' s s'. session_at sh k = Some s \<and> switched s \<and> session_at sh k' = Some s' \<and> switched s' \<longrightarrow> k = k')
    \<and> (\<forall>t \<in> set_option at_work. live_at sh (se_id t))"
proof -
  have "world_ok (sh, at_work)"
    using worlds.inv_legal_run [OF assms(1,2)] assms(3) by simp
  then show ?thesis
    by (auto simp: world_ok_def one_armed_def armed_at_def)
qed

section \<open>Reboots and restores\<close>

lemma save_existing:
  assumes "writes w" "session_at sh (se_id s) \<noteq> None"
  shows "session_at (fst (save_session w now s sh)) k = (if k = se_id s then Some (s\<lparr>se_updated := now\<rparr>) else session_at sh k)"
proof -
  have "file_at sh (se_id s) \<noteq> None"
    using assms(2) by (auto simp: session_at_eq)
  then show ?thesis
    using assms(1) [unfolded writes_def, rule_format, of "se_id s"] by (auto simp: save_session_def Let_def)
qed

definition swept :: "rat \<Rightarrow> session \<Rightarrow> session" where
  "swept now s = (if c_status s = ''active'' then s\<lparr>c_status := ''dormant'', se_crash := se_crash s + 1, se_updated := now\<rparr> else s)"

lemma sweep_at:
  assumes "writes w" "named sh" "distinct (map se_id ss)" "\<forall>s \<in> set ss. session_at sh (se_id s) = Some s"
  shows "session_at (fst (sweep w now ss sh)) k = (if k \<in> se_id ` set ss then map_option (swept now) (session_at sh k) else session_at sh k)"
  using assms(2-4)
proof (induction ss arbitrary: sh)
  case (Cons s ss)
  show ?case
  proof (cases "c_status s = ''active''")
    case True
    define t where "t = s\<lparr>c_status := ''dormant'', se_crash := se_crash s + 1\<rparr>"
    define sh1 where "sh1 = fst (save_session w now t sh)"
    have t: "se_id t = se_id s" "swept now s = t\<lparr>se_updated := now\<rparr>"
      using True by (simp_all add: t_def swept_def)
    have at: "session_at sh1 k = (if k = se_id s then Some (t\<lparr>se_updated := now\<rparr>) else session_at sh k)" for k
      using save_existing [OF assms(1), of sh t now k] Cons.prems(3) by (simp add: sh1_def t(1))
    have rest: "distinct (map se_id ss)" "se_id s \<notin> se_id ` set ss" "session_at sh (se_id s) = Some s"
      using Cons.prems(2,3) by simp_all
    have kept: "\<forall>u \<in> set ss. session_at sh1 (se_id u) = Some u"
    proof
      fix u
      assume u: "u \<in> set ss"
      then have "se_id u \<noteq> se_id s"
        using rest(2) by (metis imageI)
      then show "session_at sh1 (se_id u) = Some u"
        using Cons.prems(3) u by (simp add: at)
    qed
    have "named sh1"
      unfolding sh1_def by (rule save_named [OF assms(1) Cons.prems(1)])
    from Cons.IH [OF this rest(1) kept]
    have "session_at (fst (sweep w now ss sh1)) k
        = (if k \<in> se_id ` set ss then map_option (swept now) (session_at sh1 k) else session_at sh1 k)" .
    moreover have "fst (sweep w now (s # ss) sh) = fst (sweep w now ss sh1)"
      using True save_at(1) [OF assms(1) Cons.prems(1), of now t] by (simp add: case_prod_unfold sh1_def t_def)
    ultimately show ?thesis
      using rest(2,3) t(2) at [of k] by (cases "k = se_id s") simp_all
  next
    case False
    then show ?thesis
      using Cons by (auto simp: swept_def)
  qed
qed simp

text \<open>A reboot turns every session a power cut left live into a dormant one, with its death counted, and
  touches no other; its switch stays as it stood, so what was armed is armed.\<close>

theorem reboot_counts_the_death:
  assumes "writes w" "named sh"
  shows "session_at (fst (boot_sweep w now sh)) k = map_option (swept now) (session_at sh k)
    \<and> armed_at (fst (boot_sweep w now sh)) k = armed_at sh k \<and> \<not> live_at (fst (boot_sweep w now sh)) k"
proof -
  have held: "sh_held sh = {}"
    using assms(2) by (simp add: named_def)
  have "\<forall>s \<in> set (load_all sh). session_at sh (se_id s) = Some s" "distinct (map se_id (load_all sh))"
    using load_all_current [OF assms(2)] load_all_iff [OF held] assms(2) by (auto simp: current_def named_def)
  moreover have "k \<in> se_id ` set (load_all sh) \<longleftrightarrow> session_at sh k \<noteq> None"
    using load_all_iff [OF held] assms(2) by (force simp: named_def)
  ultimately have at: "session_at (fst (boot_sweep w now sh)) k = map_option (swept now) (session_at sh k)"
    using sweep_at [OF assms, of "load_all sh" now k] by (cases "session_at sh k") (auto simp: boot_sweep_def)
  then show ?thesis
    by (cases "session_at sh k") (auto simp: armed_at_def live_at_def swept_def switched_def)
qed

lemma patch_auto_refused:
  "snd (patch_auto w now want s sh) = Inl code \<Longrightarrow> code \<noteq> 500 \<Longrightarrow> fst (patch_auto w now want s sh) = sh"
  "want \<noteq> Some True \<Longrightarrow> fst (patch_auto w now want s sh) = sh"
  by (auto simp: patch_auto_def case_prod_unfold split: option.splits bool.splits if_splits)

lemma patch_queue_refused:
  "snd (patch_queue w now at_work want s sh) = Inl code \<Longrightarrow> code \<noteq> 500
    \<Longrightarrow> want = Some True \<and> sh_files (fst (patch_queue w now at_work want s sh)) = sh_files sh"
  by (auto simp: patch_queue_def case_prod_unfold armed_session_def split: option.splits bool.splits if_splits)

text \<open>A PATCH of a session that is refused writes nothing: every answer but a success and a failed write leaves
  all the session files as they were, also where the request had several parts and an earlier one was taken.\<close>

theorem refused_patch_writes_nothing:
  assumes "snd (patch_session w now at_work sid b sh) \<notin> {200, 500}"
  shows "sh_files (fst (patch_session w now at_work sid b sh)) = sh_files sh"
proof (cases "load_session sh sid")
  case (Inl e)
  then show ?thesis
    by (cases e) (simp_all add: patch_session_def)
next
  case loaded: (Inr s)
  show ?thesis
  proof (cases "patch_status (pb_status b) s")
    case (Inl code)
    then show ?thesis
      using loaded by (simp add: patch_session_def)
  next
    case status: (Inr s1)
    obtain sh2 r2 where auto: "patch_auto w now (pb_auto b) s1 sh = (sh2, r2)"
      by fastforce
    show ?thesis
    proof (cases "pb_queue b = Some True \<and> pb_auto b = Some True")
      case False
      note facts = patch_auto_refused(1) [of w now "pb_auto b" s1 sh, unfolded auto]
        patch_auto_refused(2) [of "pb_auto b" w now s1 sh, unfolded auto]
      have body: "patch_session w now at_work sid b sh = (case r2 of Inl code \<Rightarrow> (sh2, code)
          | Inr s2 \<Rightarrow> (case patch_queue w now at_work (pb_queue b) s2 sh2 of (sh3, Inl code) \<Rightarrow> (sh3, code)
            | (sh3, Inr s3) \<Rightarrow> (let s3 = (if c_status s3 = ''abandoned'' then s3\<lparr>se_behind := None\<rparr> else s3);
                (sh4, returned) = save_session w now s3 sh3 in (sh4, if returned then 200 else 500))))"
        unfolding patch_session_def if_not_P [OF False] loaded status auto sum.case prod.case by (cases r2) simp_all
      show ?thesis
      proof (cases r2)
        case (Inl code)
        then show ?thesis
          using facts(1) assms by (simp add: body)
      next
        case (Inr s2)
        obtain sh3 r3 where queue: "patch_queue w now at_work (pb_queue b) s2 sh2 = (sh3, r3)"
          by fastforce
        show ?thesis
        proof (cases r3)
          case refused: (Inl code)
          then have "code \<noteq> 500"
            using assms by (simp add: body Inr queue)
          then have "pb_queue b = Some True" "sh_files sh3 = sh_files sh2"
            using patch_queue_refused [of w now at_work "pb_queue b" s2 sh2 code] queue refused by simp_all
          then show ?thesis
            using False facts(2) unfolding body Inr sum.case queue prod.case refused by simp
        next
          case (Inr s3)
          then show ?thesis
            using assms by (simp add: body \<open>r2 = Inr s2\<close> queue Let_def case_prod_unfold split: if_splits)
        qed
      qed
    qed (simp add: patch_session_def)
  qed
qed

text \<open>A restore answers a session only for a file that is missing or that nothing can read; what it puts back
  is the session of that name, neither live nor armed. Otherwise it writes nothing, unless the write itself failed.\<close>

theorem restore_is_no_undo:
  "(case snd (restore_backup w now sid sh) of
      Inr s \<Rightarrow> session_at sh sid = None \<and> se_id s = sid \<and> \<not> c_auto_resume s \<and> c_status s \<noteq> ''active''
    | Inl e \<Rightarrow> e = OS_Refused \<or> fst (restore_backup w now sid sh) = sh)"
  by (auto simp: restore_backup_def Let_def case_prod_unfold session_at_def split: option.splits sum.splits bool.splits if_splits)

section \<open>A concrete history\<close>

definition empty_shelf :: shelf where
  "empty_shelf = \<lparr>sh_files = [], sh_baks = [], sh_held = {}, sh_written = Map.empty, sh_told = [], sh_next = 0\<rparr>"

definition a_session :: "string \<Rightarrow> session" where
  "a_session sid = \<lparr>c_status = ''active'', c_auto_resume = False, c_plan = a_plan, c_nights = [], c_frames = [], c_set_aside = [],
     c_locks = Map.empty, c_pier = Map.empty, se_id = sid, se_name = sid, se_created = 0, se_updated = 0, se_origin = [],
     se_origin_id = [], se_crash = 0, se_behind = None, se_across = True\<rparr>"

definition all_written :: "string \<Rightarrow> write_answer" where
  "all_written sid = Written"

definition by_hand :: ending where
  "by_hand = \<lparr>en_reason = ''aborted'', en_by_hand = True, en_unknown = False, en_bounded = False\<rparr>"

text \<open>B runs and is stopped by hand; A runs, B waits behind it, and A reaches the end of its night.\<close>

definition a_history :: "((string \<Rightarrow> write_answer) \<times> rat \<times> store_event) list" where
  "a_history = [(all_written, 1, Start_Fresh ''r1'' (a_session ''B'') []), (all_written, 2, Finish by_hand [] []),
     (all_written, 3, Start_Fresh ''r2'' (a_session ''A'') []), (all_written, 4, Bank_Frame (a_frame ''a'' True)),
     (all_written, 5, Ask (Patch ''B'' \<lparr>pb_status = None, pb_auto = None, pb_queue = Some True\<rparr>)),
     (all_written, 6, Finish \<lparr>en_reason = ''dawn_cutoff'', en_by_hand = False, en_unknown = False, en_bounded = False\<rparr>
       [(all_written, 7, Back_Up ''A'')] [])]"

lemma a_history_sound: "legal_run sound_event store_step (empty_shelf, None) a_history"
  by (simp add: a_history_def sound_event_def quiet_def answered_def writes_def all_written_def)

lemma empty_ok: "world_ok (empty_shelf, None)"
  by (simp add: world_ok_def empty_shelf_def named_def written_ok_def one_armed_def armed_at_def session_at_def file_at_def)

lemma a_history_ends:
  "map_option switched (session_at (fst (run store_step (empty_shelf, None) a_history)) ''A'') = Some False"
  "map_option switched (session_at (fst (run store_step (empty_shelf, None) a_history)) ''B'') = Some True"
  by code_simp+

text \<open>The uniqueness is not vacuous: at the end of this history B is armed, and it alone.\<close>

theorem one_session_is_armed_witness:
  "{k. armed_at (fst (run store_step (empty_shelf, None) a_history)) k} = {''B''}"
proof -
  define end_of where "end_of = run store_step (empty_shelf, None) a_history"
  obtain s where s: "session_at (fst end_of) ''B'' = Some s" "switched s"
    using a_history_ends(2) by (auto simp: end_of_def)
  have pair: "run store_step (empty_shelf, None) a_history = (fst end_of, snd end_of)"
    by (simp add: end_of_def)
  have alone: "k = ''B''" if armed: "armed_at (fst end_of) k" for k
  proof -
    obtain t where "session_at (fst end_of) k = Some t" "switched t"
      using armed by (auto simp: armed_at_def split: option.splits)
    with one_session_is_armed [OF empty_ok a_history_sound pair] s show ?thesis
      by blast
  qed
  have "armed_at (fst end_of) ''B''"
    using s by (simp add: armed_at_def)
  with alone have "{k. armed_at (fst end_of) k} = {''B''}"
    by blast
  then show ?thesis
    by (simp add: end_of_def)
qed

text \<open>A is live and the operator has taken its switch.\<close>

definition switch_taken :: world where
  "switch_taken = run store_step (empty_shelf, None) (take 3 a_history
     @ [(all_written, 4, Ask (Patch ''A'' \<lparr>pb_status = None, pb_auto = Some False, pb_queue = None\<rparr>))])"

lemma switch_taken_facts:
  "(case file_at (fst switch_taken) ''A'' of None \<Rightarrow> False | Some f \<Rightarrow> (case sf_body f of Valid True s \<Rightarrow> \<not> c_auto_resume s | _ \<Rightarrow> False))"
  "map_option se_id (snd switch_taken) = Some ''A''"
  unfolding switch_taken_def
  subgoal by code_simp
  subgoal by code_simp
  done

lemma switch_taken_ok: "world_ok switch_taken"
  unfolding switch_taken_def
  by (rule worlds.inv_legal_run [OF empty_ok]) (simp add: a_history_def sound_event_def quiet_def answered_def writes_def all_written_def)

theorem operator_switch_survives_the_run_witness:
  "map_option c_auto_resume (snd (store_step switch_taken (all_written, 5, Bank_Frame (a_frame ''a'' True)))) = Some False"
proof -
  obtain s where s: "snd switch_taken = Some s" "se_id s = ''A''"
    using switch_taken_facts(2) by auto
  obtain f where f: "file_at (fst switch_taken) ''A'' = Some f"
    using switch_taken_facts(1) by (cases "file_at (fst switch_taken) ''A''") auto
  then obtain stored where stored: "sf_body f = Valid True stored" "\<not> c_auto_resume stored"
    using switch_taken_facts(1) by (auto split: body.splits bool.splits)
  have world: "run store_step (empty_shelf, None) (take 3 a_history
      @ [(all_written, 4, Ask (Patch ''A'' \<lparr>pb_status = None, pb_auto = Some False, pb_queue = None\<rparr>))]) = (fst switch_taken, Some s)"
    by (metis prod.collapse s(1) switch_taken_def)
  have pair: "switch_taken = (fst switch_taken, Some s)"
    by (metis prod.collapse s(1))
  have ok: "written_ok (fst (empty_shelf, None :: session option))"
    using empty_ok by (simp add: world_ok_def)
  obtain sh' s' where step: "store_step (fst switch_taken, Some s) (all_written, 5, Bank_Frame (a_frame ''a'' True)) = (sh', Some s')"
    by (simp add: case_prod_unfold)
  have "c_auto_resume s' = c_auto_resume stored"
    using operator_switch_survives_the_run [OF ok world _ stored(1) _ step] f s(2) switch_taken_ok by (simp add: world_ok_def named_def)
  then show ?thesis
    using step stored(2) by (subst pair) simp
qed

text \<open>A power cut in the middle of A's run, and the reboot.\<close>

theorem reboot_counts_the_death_witness:
  "map_option se_crash (session_at (fst (boot_sweep all_written 9 (fst (run store_step (empty_shelf, None) (take 4 a_history))))) ''A'') = Some 1"
proof -
  let ?w = "run store_step (empty_shelf, None) (take 4 a_history)"
  have "world_ok ?w"
    by (rule worlds.inv_legal_run [OF empty_ok]) (simp add: a_history_def sound_event_def quiet_def answered_def writes_def all_written_def)
  then have "named (fst ?w)"
    by (simp add: world_ok_def)
  moreover have "writes all_written"
    by (simp add: writes_def all_written_def)
  moreover have "map_option (\<lambda>s. (c_status s, se_crash s)) (session_at (fst ?w) ''A'') = Some (''active'', 0)"
    by code_simp
  ultimately show ?thesis
    using reboot_counts_the_death [of all_written "fst ?w" 9 "''A''"] by (auto simp: swept_def)
qed

text \<open>A is live and armed: it cannot wait behind itself, whatever else the request asks.\<close>

theorem refused_patch_writes_nothing_witness:
  "map_of (sh_files (fst (patch_session all_written 9 (snd (run store_step (empty_shelf, None) (take 4 a_history))) ''A''
      \<lparr>pb_status = None, pb_auto = Some False, pb_queue = Some True\<rparr> (fst (run store_step (empty_shelf, None) (take 4 a_history)))))) ''A''
    = file_at (fst (run store_step (empty_shelf, None) (take 4 a_history))) ''A''"
proof -
  have "snd (patch_session all_written 9 (snd (run store_step (empty_shelf, None) (take 4 a_history))) ''A''
      \<lparr>pb_status = None, pb_auto = Some False, pb_queue = Some True\<rparr> (fst (run store_step (empty_shelf, None) (take 4 a_history)))) = 409"
    by code_simp
  then show ?thesis
    using refused_patch_writes_nothing [of all_written 9] by (simp add: file_at_def)
qed

text \<open>A PATCH that arms B between the arming and the save of A's start: both are armed.\<close>

lemma patch_races_a_start:
  "let sh = fst (run store_step (empty_shelf, None) (take 2 a_history @ [(all_written, 3, Start_Fresh ''r2'' (a_session ''A'')
     [(all_written, 4, Patch ''B'' \<lparr>pb_status = None, pb_auto = Some True, pb_queue = None\<rparr>)])]))
   in armed_at sh ''A'' \<and> armed_at sh ''B''"
  by code_simp

text \<open>A PATCH that arms B while A runs, and one that queues it: the file holds a session armed and waiting.\<close>

lemma armed_and_queued:
  "map_option (\<lambda>s. (c_auto_resume s, se_behind s)) (session_at (fst (run store_step (empty_shelf, None) (take 4 a_history
     @ [(all_written, 5, Ask (Patch ''B'' \<lparr>pb_status = None, pb_auto = Some True, pb_queue = None\<rparr>)),
        (all_written, 6, Ask (Patch ''B'' \<lparr>pb_status = None, pb_auto = None, pb_queue = Some True\<rparr>))]))) ''B'')
   = Some (True, Some ''A'')"
  by code_simp

end
