(* ===== verification/Recovery.thy ===== *)
theory Recovery
  imports Machines
begin

text \<open>
  The recovery ladder of \<open>server/astrodeck/sequence/recovery.py\<close>: what a run does when a
  centring misses, a sync is not taken or the operator halts the mount. The state is the class's
  two attributes; each event is one operation, a function of the state that returns the action
  the engine carries out and the new state. The lemmas: only \<open>resumed\<close> leaves a pause, the home
  leg is spent at most once per budget key, and a target that keeps missing is given up after at
  most two recoveries.
\<close>

section \<open>States, actions, operations\<close>

datatype ladder_state = TRUSTED | SUSPECT | LOST | PAUSED_BY_OPERATOR

datatype action = CONTINUE | RETRY_IN_PLACE | HOME_THEN_TARGET | GIVE_UP | WAIT_FOR_OPERATOR

definition HOME_LEGS_PER_TARGET :: nat where
  "HOME_LEGS_PER_TARGET = 1"

record 'k ladder =
  lstate :: ladder_state
  home_legs :: "'k \<rightharpoonup> nat"

definition ladder_init :: "'k ladder" where
  "ladder_init = \<lparr>lstate = TRUSTED, home_legs = Map.empty\<rparr>"

definition paused :: "'k ladder \<Rightarrow> bool" where
  "paused l = (lstate l = PAUSED_BY_OPERATOR)"

definition ladder_begin :: "'k ladder \<Rightarrow> 'k ladder" where
  "ladder_begin l = (if \<not> paused l then l\<lparr>lstate := TRUSTED\<rparr> else l)"

definition centred :: "'k ladder \<Rightarrow> action \<times> 'k ladder" where
  "centred l = (if paused l then (WAIT_FOR_OPERATOR, l) else (CONTINUE, l\<lparr>lstate := TRUSTED\<rparr>))"

definition missed :: "'k \<Rightarrow> 'k ladder \<Rightarrow> action \<times> 'k ladder" where
  "missed key l =
     (if paused l then (WAIT_FOR_OPERATOR, l)
      else if lstate l = TRUSTED then (RETRY_IN_PLACE, l\<lparr>lstate := SUSPECT\<rparr>)
      else let legs = dget (home_legs l) key 0 in
        if lstate l = SUSPECT \<and> legs < HOME_LEGS_PER_TARGET
        then (HOME_THEN_TARGET, l\<lparr>lstate := LOST, home_legs := (home_legs l)(key \<mapsto> legs + 1)\<rparr>)
        else (GIVE_UP, l\<lparr>lstate := LOST\<rparr>))"

definition sync_not_taken :: "'k ladder \<Rightarrow> action \<times> 'k ladder" where
  "sync_not_taken l = (if paused l then (WAIT_FOR_OPERATOR, l) else (GIVE_UP, l\<lparr>lstate := LOST\<rparr>))"

definition halted :: "'k ladder \<Rightarrow> action \<times> 'k ladder" where
  "halted l = (WAIT_FOR_OPERATOR, l\<lparr>lstate := PAUSED_BY_OPERATOR\<rparr>)"

definition resumed :: "'k ladder \<Rightarrow> bool \<times> 'k ladder" where
  "resumed l = (if \<not> paused l then (False, l) else (True, l\<lparr>lstate := TRUSTED\<rparr>))"

lemmas ladder_defs = paused_def ladder_begin_def centred_def missed_def sync_not_taken_def
  halted_def resumed_def Let_def

section \<open>Runs\<close>

text \<open>The engine's side of the interface: the events it reports, and what a run of them does. The
  answer of an event is the action it returned, if it returns one.\<close>

datatype 'k event = Begin | Centred | Missed 'k | Sync_Not_Taken | Halted | Resumed

fun ladder_step :: "'k ladder \<Rightarrow> 'k event \<Rightarrow> action option \<times> 'k ladder" where
  "ladder_step l Begin = (None, ladder_begin l)"
| "ladder_step l Centred = map_prod Some id (centred l)"
| "ladder_step l (Missed k) = map_prod Some id (missed k l)"
| "ladder_step l Sync_Not_Taken = map_prod Some id (sync_not_taken l)"
| "ladder_step l Halted = map_prod Some id (halted l)"
| "ladder_step l Resumed = (None, snd (resumed l))"

fun ladder_run :: "'k ladder \<Rightarrow> 'k event list \<Rightarrow> (action option) list \<times> 'k ladder" where
  "ladder_run l [] = ([], l)"
| "ladder_run l (e # es) =
     (let (a, l') = ladder_step l e; (as, l'') = ladder_run l' es in (a # as, l''))"

definition actions_of :: "'k ladder \<Rightarrow> 'k event list \<Rightarrow> (action option) list" where
  "actions_of l es = fst (ladder_run l es)"

lemma actions_of_simps [simp]:
  "actions_of l [] = []"
  "actions_of l (e # es) = fst (ladder_step l e) # actions_of (snd (ladder_step l e)) es"
  by (auto simp: actions_of_def split: prod.splits)

lemma length_actions_of [simp]: "length (actions_of l es) = length es"
  by (induction es arbitrary: l) auto

section \<open>The pause\<close>

lemma paused_step:
  assumes "paused l" and "e \<noteq> Resumed"
  shows "snd (ladder_step l e) = l \<or> e = Halted"
    and "paused (snd (ladder_step l e))"
    and "fst (ladder_step l e) \<in> {None, Some WAIT_FOR_OPERATOR}"
  using assms by (cases e; simp add: ladder_defs)+

lemma paused_run:
  "paused l \<Longrightarrow> Resumed \<notin> set es \<Longrightarrow>
     paused (snd (ladder_run l es)) \<and> set (actions_of l es) \<subseteq> {None, Some WAIT_FOR_OPERATOR}"
proof (induction es arbitrary: l)
  case Nil
  then show ?case by simp
next
  case (Cons e es)
  then have ne: "e \<noteq> Resumed" and rest: "Resumed \<notin> set es" by auto
  note st = paused_step [OF Cons.prems(1) ne]
  from Cons.IH [OF st(2) rest] st(3) show ?case
    by (auto split: prod.splits)
qed

section \<open>The home leg\<close>

definition legs_bounded :: "'k ladder \<Rightarrow> bool" where
  "legs_bounded l = (\<forall>k n. home_legs l k = Some n \<longrightarrow> n \<le> HOME_LEGS_PER_TARGET)"

lemma legs_bounded_init: "legs_bounded ladder_init"
  by (simp add: legs_bounded_def ladder_init_def)

lemma legs_bounded_step: "legs_bounded l \<Longrightarrow> legs_bounded (snd (ladder_step l e))"
  by (cases e) (auto simp: ladder_defs legs_bounded_def dget_def split: option.splits)

text \<open>A home leg for one key, counted on the action an event returns; the ladder books it in
  \<open>home_legs\<close>.\<close>

definition home_leg :: "'k \<Rightarrow> 'k ladder \<Rightarrow> 'k event \<Rightarrow> int" where
  "home_leg k l e = (if e = Missed k \<and> fst (ladder_step l e) = Some HOME_THEN_TARGET then 1 else 0)"

definition homes_for :: "'k \<Rightarrow> 'k ladder \<Rightarrow> 'k event list \<Rightarrow> int" where
  "homes_for k = spent (\<lambda>l e. snd (ladder_step l e)) (home_leg k)"

lemma home_leg_booked:
  "int (dget (home_legs l) k 0) + home_leg k l e
     \<le> int (dget (home_legs (snd (ladder_step l e))) k 0)"
  by (cases e) (auto simp: ladder_defs home_leg_def dget_def)

lemma legs_bounded_dget: "legs_bounded l \<Longrightarrow> dget (home_legs l) k 0 \<le> HOME_LEGS_PER_TARGET"
  by (auto simp: legs_bounded_def dget_def split: option.splits)

interpretation lad: metered "\<lambda>l e. snd (ladder_step l e)" legs_bounded "home_leg k"
  "\<lambda>l. int (dget (home_legs l) k 0)" "int HOME_LEGS_PER_TARGET" for k
  by unfold_locales (auto intro: legs_bounded_step home_leg_booked dest: legs_bounded_dget)

text \<open>A halt stops everything: once the operator (or the deadman) has halted the mount, whatever
  the engine reports, the ladder answers only "wait for the operator" and stays paused, until the
  operator resumes.\<close>

theorem pause_holds_until_resumed:
  assumes "Resumed \<notin> set es"
  shows "set (actions_of (snd (halted l)) es) \<subseteq> {None, Some WAIT_FOR_OPERATOR} \<and>
         lstate (snd (ladder_run (snd (halted l)) es)) = PAUSED_BY_OPERATOR"
proof -
  have "paused (snd (halted l))" by (simp add: ladder_defs)
  from paused_run [OF this assms] show ?thesis by (simp add: paused_def)
qed

theorem pause_holds_until_resumed_witness:
  "set (actions_of (snd (halted ladder_init)) [Begin, Missed (7::nat), Sync_Not_Taken])
     \<subseteq> {None, Some WAIT_FOR_OPERATOR}"
  using pause_holds_until_resumed [of "[Begin, Missed (7::nat), Sync_Not_Taken]" ladder_init]
  by simp

text \<open>The home leg is bounded: over any sequence of events of a run (acquisitions, pauses and
  resumes included), the ladder sends the mount home for one budget key at most
  \<open>HOME_LEGS_PER_TARGET\<close> times, so a target that cannot be reached does not shuttle home and back.\<close>

theorem home_legs_at_most_one:
  "homes_for k ladder_init es \<le> int HOME_LEGS_PER_TARGET"
  using lad.spent_le_cap [OF legs_bounded_init, of k es]
  by (simp add: homes_for_def ladder_init_def)

text \<open>Three misses end an acquisition: a fresh acquisition that misses three times in a row is
  retried in place, sent home if its key still has a leg, and then given up; with the leg already
  spent it is given up at the second miss and stays given up.\<close>

lemma three_misses_give_up:
  "lstate l \<noteq> PAUSED_BY_OPERATOR \<Longrightarrow>
   actions_of l [Begin, Missed k, Missed k, Missed k] =
     [None, Some RETRY_IN_PLACE,
      Some (if dget (home_legs l) k 0 < HOME_LEGS_PER_TARGET then HOME_THEN_TARGET else GIVE_UP),
      Some GIVE_UP]"
  by (simp add: ladder_defs HOME_LEGS_PER_TARGET_def)

end
