(* ===== verification/Cloud_State.thy ===== *)
theory Cloud_State
  imports Prelude
begin

text \<open>
  The debounced cloud verdict of \<open>server/astrodeck/sequence/cloudstate.py\<close>. The record holds the
  dataclass's fields; \<open>observe\<close>, \<open>forget\<close>, \<open>age_s\<close> and \<open>cloudy\<close> are its methods. The lemmas
  refine the vote counter against a specification over the whole history of frames: the state
  is the last value that \<open>consecutive\<close> frames in a row agreed on.
\<close>

section \<open>The rolling verdict\<close>

definition DEFAULT_CONSECUTIVE :: int where
  "DEFAULT_CONSECUTIVE = 2"

definition DEFAULT_MAX_AGE_S :: rat where
  "DEFAULT_MAX_AGE_S = 900"

record cloud_state =
  consecutive :: int
  max_age_s :: rat
  cs_state :: "bool option"
  cs_pending :: "bool option"
  cs_votes :: int
  last_obs_ts :: rat
  last_reason :: string
  last_score :: "rat option"
  last_cloudy :: "bool option"

definition cloud_init :: "int \<Rightarrow> rat \<Rightarrow> cloud_state" where
  "cloud_init n age = \<lparr>consecutive = n, max_age_s = age, cs_state = None, cs_pending = None,
     cs_votes = 0, last_obs_ts = 0, last_reason = [], last_score = None, last_cloudy = None\<rparr>"

definition observe :: "bool \<Rightarrow> rat \<Rightarrow> rat option \<Rightarrow> string \<Rightarrow> cloud_state \<Rightarrow>
    bool option \<times> cloud_state" where
  "observe cl ts score reason c =
     (let c = c\<lparr>last_obs_ts := ts, last_score := score, last_cloudy := Some cl,
                last_reason := reason\<rparr> in
      if Some cl = cs_state c then
        let c = c\<lparr>cs_pending := None, cs_votes := 0\<rparr> in (cs_state c, c)
      else
        let c = (if Some cl \<noteq> cs_pending c then c\<lparr>cs_pending := Some cl, cs_votes := 1\<rparr>
                 else c\<lparr>cs_votes := cs_votes c + 1\<rparr>);
            c = (if cs_votes c \<ge> consecutive c
                 then c\<lparr>cs_state := Some cl, cs_pending := None, cs_votes := 0\<rparr> else c)
        in (cs_state c, c))"

definition forget :: "cloud_state \<Rightarrow> cloud_state" where
  "forget c = c\<lparr>cs_state := None, cs_pending := None, cs_votes := 0\<rparr>"

definition age_s :: "rat \<Rightarrow> cloud_state \<Rightarrow> rat option" where
  "age_s now c = (if last_obs_ts c \<le> 0 then None else Some (max 0 (now - last_obs_ts c)))"

definition cloudy :: "rat \<Rightarrow> cloud_state \<Rightarrow> bool option" where
  "cloudy now c = (case cs_state c of None \<Rightarrow> None
     | Some v \<Rightarrow> (case age_s now c of None \<Rightarrow> None
         | Some age \<Rightarrow> if age > max_age_s c then None else Some v))"

section \<open>Histories\<close>

text \<open>A frame's verdict as \<open>observe\<close> is fed it, and a run of frames. \<open>run_len v h\<close> is the length of
  the run of \<open>v\<close> that ends the history (newest frame first).\<close>

type_synonym frame = "bool \<times> rat \<times> rat option \<times> string"

definition observe_frame :: "cloud_state \<Rightarrow> frame \<Rightarrow> cloud_state" where
  "observe_frame c f = (case f of (cl, ts, sc, why) \<Rightarrow> snd (observe cl ts sc why c))"

definition observe_all :: "cloud_state \<Rightarrow> frame list \<Rightarrow> cloud_state" where
  "observe_all = foldl observe_frame"

fun run_len :: "bool \<Rightarrow> bool list \<Rightarrow> nat" where
  "run_len v [] = 0"
| "run_len v (x # xs) = (if x = v then Suc (run_len v xs) else 0)"

text \<open>The specification: the verdict of a history, newest frame first, is the value of the most
  recent moment at which the last \<open>n\<close> frames agreed.\<close>

fun agreed :: "nat \<Rightarrow> bool list \<Rightarrow> bool option" where
  "agreed n [] = None"
| "agreed n (x # xs) = (if n \<le> run_len x (x # xs) then Some x else agreed n xs)"

lemma agreed_Some_run:
  assumes "agreed n h = Some v" and "0 < n"
  obtains k where "k \<le> length h" and "n \<le> run_len v (drop k h)"
    and "\<And>j. j < k \<Longrightarrow> run_len (\<not> v) (drop j h) < n"
  using assms
proof (induction h arbitrary: thesis)
  case Nil
  then show ?case by simp
next
  case (Cons x xs)
  show ?case
  proof (cases "n \<le> run_len x (x # xs)")
    case True
    with Cons.prems show ?thesis by (auto intro!: Cons.prems(1) [of 0])
  next
    case False
    with Cons.prems have ag: "agreed n xs = Some v" by (simp del: run_len.simps)
    obtain k where k: "k \<le> length xs" "n \<le> run_len v (drop k xs)"
      and less: "\<And>j. j < k \<Longrightarrow> run_len (\<not> v) (drop j xs) < n"
      using Cons.IH [OF _ ag Cons.prems(3)] by metis
    show ?thesis
    proof (rule Cons.prems(1) [of "Suc k"])
      fix j assume "j < Suc k"
      then show "run_len (\<not> v) (drop j (x # xs)) < n"
        using less False Cons.prems(3) by (cases j) (auto split: if_splits)
    qed (use k in simp_all)
  qed
qed

text \<open>The refinement relation between the counter and the history it has seen since the last
  \<open>forget\<close>.\<close>

definition votes_match :: "cloud_state \<Rightarrow> bool list \<Rightarrow> bool" where
  "votes_match c h = (cs_state c = agreed (nat (consecutive c)) h \<and>
     (case h of [] \<Rightarrow> cs_pending c = None \<and> cs_votes c = 0
      | x # xs \<Rightarrow> if cs_state c = Some x then cs_pending c = None \<and> cs_votes c = 0
          else cs_pending c = Some x \<and> cs_votes c = int (run_len x h) \<and>
               cs_votes c < consecutive c))"

lemma votes_match_init: "votes_match (cloud_init n age) []"
  by (simp add: votes_match_def cloud_init_def)

lemma votes_match_forget: "votes_match (forget c) []"
  by (simp add: votes_match_def forget_def)

lemma consecutive_observe [simp]:
  "consecutive (snd (observe cl ts sc why c)) = consecutive c"
  "max_age_s (snd (observe cl ts sc why c)) = max_age_s c"
  "last_obs_ts (snd (observe cl ts sc why c)) = ts"
  by (simp_all add: observe_def Let_def)

lemma run_len_other: "x \<noteq> v \<Longrightarrow> run_len v (x # xs) = 0"
  by simp

lemma votes_match_observe:
  assumes m: "votes_match c h" and n: "1 \<le> consecutive c"
  shows "votes_match (snd (observe cl ts sc why c)) (cl # h)"
proof (cases "cs_state c = Some cl")
  case True
  with m have "agreed (nat (consecutive c)) h = Some cl" by (simp add: votes_match_def)
  with True show ?thesis
    by (auto simp: votes_match_def observe_def Let_def)
next
  case ne: False
  have st: "cs_state c = agreed (nat (consecutive c)) h" using m by (simp add: votes_match_def)
  show ?thesis
  proof (cases "cs_pending c = Some cl")
    case True
    with m ne obtain xs where h: "h = cl # xs" and v: "cs_votes c = int (run_len cl h)"
      by (cases h) (auto simp: votes_match_def split: if_splits)
    with True ne st show ?thesis
      by (auto simp: votes_match_def observe_def Let_def)
  next
    case False
    have r0: "run_len cl h = 0"
    proof (cases h)
      case (Cons x xs)
      with m ne False have "x \<noteq> cl" by (auto simp: votes_match_def split: if_splits)
      with Cons show ?thesis by simp
    qed simp
    with False ne st n show ?thesis
      by (auto simp: votes_match_def observe_def Let_def)
  qed
qed

lemma consecutive_observe_all [simp]: "consecutive (observe_all c fs) = consecutive c"
  by (induction fs arbitrary: c) (auto simp: observe_all_def observe_frame_def split: prod.splits)

lemma votes_match_observe_all:
  "votes_match c h \<Longrightarrow> 1 \<le> consecutive c \<Longrightarrow>
     votes_match (observe_all c fs) (rev (map fst fs) @ h)"
proof (induction fs arbitrary: c h)
  case Nil
  then show ?case by (simp add: observe_all_def)
next
  case (Cons f fs)
  obtain cl ts sc why where f: "f = (cl, ts, sc, why)" by (cases f)
  from votes_match_observe [OF Cons.prems, of cl ts sc why] Cons.prems(2)
    Cons.IH [of "observe_frame c f" "cl # h"]
  show ?case by (simp add: f observe_all_def observe_frame_def)
qed

section \<open>Properties\<close>

text \<open>The vote counter implements its specification: after any frames since the last
  \<open>forget\<close>, the debounced state is exactly the value of the most recent moment at which
  \<open>consecutive\<close> frames in a row agreed, and undecided when no such moment was.\<close>

theorem debounce_refines_history:
  assumes "1 \<le> consecutive c"
  shows "cs_state (observe_all (forget c) fs) = agreed (nat (consecutive c)) (rev (map fst fs))"
  using votes_match_observe_all [OF votes_match_forget, of c fs] assms
  by (simp add: votes_match_def forget_def)

theorem debounce_refines_history_witness:
  "cs_state (observe_all (forget (cloud_init DEFAULT_CONSECUTIVE DEFAULT_MAX_AGE_S))
     [(True, 10, None, []), (False, 20, None, []), (True, 30, None, []), (True, 40, None, [])])
   = Some True"
  using debounce_refines_history
    [of "cloud_init DEFAULT_CONSECUTIVE DEFAULT_MAX_AGE_S"
        "[(True, 10, None, []), (False, 20, None, []), (True, 30, None, []), (True, 40, None, [])]"]
  by (simp add: cloud_init_def DEFAULT_CONSECUTIVE_def)

text \<open>One contrary frame never turns a settled sky: with the default of two or more
  agreeing frames, a single frame against the settled state leaves it, and a frame that agrees
  again clears the contrary vote.\<close>

lemma one_frame_is_not_weather:
  assumes "2 \<le> consecutive c" and "cs_state c = Some v" and "cs_pending c = None"
  shows "cs_state (observe_frame c (\<not> v, ts, sc, why)) = Some v \<and>
         cs_pending (observe_frame (observe_frame c (\<not> v, ts, sc, why)) (v, ts', sc', why')) = None"
  using assms by (simp add: observe_frame_def observe_def Let_def)

lemma last_obs_observe_all:
  "fs \<noteq> [] \<Longrightarrow> last_obs_ts (observe_all c fs) = fst (snd (last fs)) \<and>
     max_age_s (observe_all c fs) = max_age_s c"
  by (induction fs rule: rev_induct)
    (auto simp: observe_all_def observe_frame_def split: prod.splits,
     metis (no_types, lifting) foldl_Nil)

text \<open>Not knowing is never read as an answer: when the run is told "cloudy" or "clear" at a
  moment, some moment of the history had \<open>consecutive\<close> frames in a row saying so, no later
  moment had as many saying the opposite, and the newest frame is within the age budget.\<close>

theorem answer_rests_on_evidence:
  assumes "1 \<le> consecutive c" and "fs \<noteq> []"
    and "cloudy now (observe_all (forget c) fs) = Some v"
  shows "(\<exists>k. nat (consecutive c) \<le> run_len v (drop k (rev (map fst fs))) \<and>
            (\<forall>j<k. run_len (\<not> v) (drop j (rev (map fst fs))) < nat (consecutive c))) \<and>
         max 0 (now - fst (snd (last fs))) \<le> max_age_s c"
proof -
  from assms(3) have st: "cs_state (observe_all (forget c) fs) = Some v"
    and age: "max 0 (now - last_obs_ts (observe_all (forget c) fs))
                \<le> max_age_s (observe_all (forget c) fs)"
    by (auto simp: cloudy_def age_s_def split: option.splits if_splits)
  from st votes_match_observe_all [OF votes_match_forget, of c fs] assms(1)
  have "agreed (nat (consecutive c)) (rev (map fst fs)) = Some v"
    by (simp add: votes_match_def forget_def)
  then obtain k where "nat (consecutive c) \<le> run_len v (drop k (rev (map fst fs)))"
    and "\<And>j. j < k \<Longrightarrow> run_len (\<not> v) (drop j (rev (map fst fs))) < nat (consecutive c)"
    using assms(1) by (rule_tac agreed_Some_run [of "nat (consecutive c)"]) auto
  with age last_obs_observe_all [OF assms(2), of "forget c"] show ?thesis
    by (auto simp: forget_def)
qed

theorem answer_rests_on_evidence_witness:
  "\<exists>k. 2 \<le> run_len True (drop k [True, True])"
  using answer_rests_on_evidence [of "cloud_init 2 900" "[(True, 10, None, []), (True, 20, None, [])]"
      30 True]
  by (auto simp: cloud_init_def observe_all_def observe_frame_def observe_def cloudy_def age_s_def
        forget_def)

end
