(* ===== verification/Instructions.thy ===== *)
theory Instructions
  imports Machines
begin

text \<open>
  The when-then rules of a plan, \<open>server/astrodeck/sequence/instructions.py\<close>: the trigger context
  of a frame boundary, the leaf predicates, the one-level compound condition and the evaluator
  with its per-rule fire records. The clock helper \<open>_clock_time_near_now\<close> of \<open>schedule.py\<close> is
  modelled down to \<open>time.mktime\<close>, which is the parameter \<open>mk\<close>: the instant of a local hour and
  minute on the local date of \<open>now\<close>, \<open>None\<close> where the platform raises.

  The lemmas: the compound condition is Kleene's three-valued logic; an unknown reading moves
  nothing; a level rule fires once per rising edge, a \<open>once\<close> rule once per run, a rule with a
  cooldown never twice within it.
\<close>

section \<open>Plan data\<close>

datatype trigger_kind = On_hfr_above | On_guide_rms_above | On_frame_rejected | On_target_complete
  | At_time | On_clouds_in | On_clouds_clear | On_unsafe | On_panel_ready | On_altitude_floor

datatype predicate_kind = P_hfr_above | P_guide_rms_above | P_frame_rejected | P_target_complete
  | P_at_time | P_clouds_in | P_clouds_clear | P_unsafe | P_panel_ready | P_altitude_floor

datatype action_kind = Notify | Pause | Refocus | Dither | Abort | Run_target | Skip_target
  | Hold_for_clear

datatype cond_op = All_of | Any_of

record predicate =
  p_kind :: predicate_kind
  p_threshold :: rat
  p_at_time :: "string option"
  p_relative :: bool

record condition =
  c_op :: cond_op
  c_terms :: "predicate list"

record instruction =
  i_id :: string
  i_enabled :: bool
  i_trigger :: trigger_kind
  i_threshold :: rat
  i_relative :: bool
  i_at_time :: "string option"
  i_action :: action_kind
  i_message :: string
  i_level :: string
  i_once :: bool
  i_cooldown_s :: rat
  i_only_target :: "string option"
  i_target_arg :: "string option"
  i_when :: "condition option"

record trigger_context =
  now_ts :: rat
  frame_hfr :: "pyfloat option"
  focus_baseline_hfr :: "pyfloat option"
  guide_rms :: "pyfloat option"
  frame_rejected :: bool
  target_complete :: bool
  active_target :: "string option"
  tc_cloudy :: "bool option"
  tc_unsafe :: "bool option"
  panel_ready :: "bool option"
  altitude_floor :: bool

record fire_record =
  fired_count :: nat
  last_fire_ts :: rat
  armed :: bool

definition fire_record_new :: fire_record where
  "fire_record_new = \<lparr>fired_count = 0, last_fire_ts = 0, armed = True\<rparr>"

record fired_action =
  fa_id :: string
  fa_action :: action_kind
  fa_message :: string
  fa_level :: string
  fa_target_arg :: "string option"

definition level_triggers :: "trigger_kind list" where
  "level_triggers = [On_hfr_above, On_guide_rms_above, On_clouds_in, On_clouds_clear, On_unsafe,
     On_panel_ready]"

fun predicate_of :: "trigger_kind \<Rightarrow> predicate_kind" where
  "predicate_of On_hfr_above = P_hfr_above"
| "predicate_of On_guide_rms_above = P_guide_rms_above"
| "predicate_of On_frame_rejected = P_frame_rejected"
| "predicate_of On_target_complete = P_target_complete"
| "predicate_of At_time = P_at_time"
| "predicate_of On_clouds_in = P_clouds_in"
| "predicate_of On_clouds_clear = P_clouds_clear"
| "predicate_of On_unsafe = P_unsafe"
| "predicate_of On_panel_ready = P_panel_ready"
| "predicate_of On_altitude_floor = P_altitude_floor"

section \<open>Clock times\<close>

text \<open>\<open>time.strptime(s, "%H:%M")\<close>: one or two digits, a colon, one or two digits.\<close>

definition digit_val :: "char \<Rightarrow> nat option" where
  "digit_val c = (let n = of_char c in if 48 \<le> n \<and> n \<le> (57::nat) then Some (n - 48) else None)"

fun two_digits :: "nat \<Rightarrow> string \<Rightarrow> nat option" where
  "two_digits limit [a] = digit_val a"
| "two_digits limit [a, b] = (case (digit_val a, digit_val b) of
     (Some x, Some y) \<Rightarrow> if 10 * x + y < limit then Some (10 * x + y) else None | _ \<Rightarrow> None)"
| "two_digits limit _ = None"

definition strptime_hm :: "string \<Rightarrow> (nat \<times> nat) option" where
  "strptime_hm s = (case dropWhile (\<lambda>c. c \<noteq> CHR '':'') s of [] \<Rightarrow> None
     | _ # mm \<Rightarrow> (case (two_digits 24 (takeWhile (\<lambda>c. c \<noteq> CHR '':'') s), two_digits 60 mm) of
         (Some h, Some m) \<Rightarrow> Some (h, m) | _ \<Rightarrow> None))"

text \<open>The two snapping loops of \<open>_clock_time_near_now\<close>.\<close>

function snap_down :: "rat \<Rightarrow> rat \<Rightarrow> rat" where
  "snap_down cand now = (if cand - now > 43200 then snap_down (cand - 86400) now else cand)"
  by pat_completeness auto
termination
proof (relation "measure (\<lambda>(c, n). nat \<lceil>(c - n) / 43200\<rceil>)")
  fix cand now :: rat
  assume a: "43200 < cand - now"
  have "(cand - 86400 - now) / 43200 = (cand - now) / 43200 - of_int 2" by (simp add: field_simps)
  then have "\<lceil>(cand - 86400 - now) / 43200\<rceil> = \<lceil>(cand - now) / 43200\<rceil> - 2"
    by (metis ceiling_diff_of_int)
  moreover from a have "0 < \<lceil>(cand - now) / 43200\<rceil>" by simp
  ultimately show "((cand - 86400, now), cand, now) \<in> measure (\<lambda>(c, n). nat \<lceil>(c - n) / 43200\<rceil>)"
    by simp
qed simp

function snap_up :: "rat \<Rightarrow> rat \<Rightarrow> rat" where
  "snap_up cand now = (if now - cand > 43200 then snap_up (cand + 86400) now else cand)"
  by pat_completeness auto
termination
proof (relation "measure (\<lambda>(c, n). nat \<lceil>(n - c) / 43200\<rceil>)")
  fix cand now :: rat
  assume a: "43200 < now - cand"
  have "(now - (cand + 86400)) / 43200 = (now - cand) / 43200 - of_int 2" by (simp add: field_simps)
  then have "\<lceil>(now - (cand + 86400)) / 43200\<rceil> = \<lceil>(now - cand) / 43200\<rceil> - 2"
    by (metis ceiling_diff_of_int)
  moreover from a have "0 < \<lceil>(now - cand) / 43200\<rceil>" by simp
  ultimately show "((cand + 86400, now), cand, now) \<in> measure (\<lambda>(c, n). nat \<lceil>(n - c) / 43200\<rceil>)"
    by simp
qed simp

declare snap_down.simps [simp del] snap_up.simps [simp del]

definition clock_time_near_now :: "(nat \<Rightarrow> nat \<Rightarrow> rat \<Rightarrow> rat option) \<Rightarrow> nat \<Rightarrow> nat \<Rightarrow> rat \<Rightarrow> rat option" where
  "clock_time_near_now mk hh mm now =
     (case mk hh mm now of None \<Rightarrow> None | Some cand \<Rightarrow> Some (snap_up (snap_down cand now) now))"

definition parse_hhmm :: "(nat \<Rightarrow> nat \<Rightarrow> rat \<Rightarrow> rat option) \<Rightarrow> string option \<Rightarrow> rat \<Rightarrow> rat option" where
  "parse_hhmm mk at_time now = (case at_time of None \<Rightarrow> None
     | Some s \<Rightarrow> if s = [] then None else (case strptime_hm s of None \<Rightarrow> None
         | Some (h, m) \<Rightarrow> clock_time_near_now mk h m now))"

lemma snap_down_le: "snap_down cand now - now \<le> 43200"
  by (induction cand now rule: snap_down.induct) (subst snap_down.simps, simp)

lemma snap_down_eq:
  "\<exists>k. snap_down cand now = cand - of_int k * 86400"
proof (induction cand now rule: snap_down.induct)
  case (1 cand now)
  show ?case
  proof (cases "cand - now > 43200")
    case True
    with 1 obtain k where "snap_down (cand - 86400) now = cand - 86400 - of_int k * 86400" by blast
    with True have "snap_down cand now = cand - of_int (k + 1) * 86400"
      by (subst snap_down.simps) (simp add: algebra_simps)
    then show ?thesis by blast
  next
    case False
    then have "snap_down cand now = cand - of_int 0 * 86400" by (subst snap_down.simps) simp
    then show ?thesis by blast
  qed
qed

lemma snap_up_bounds:
  "cand - now \<le> 43200 \<Longrightarrow> snap_up cand now - now \<le> 43200 \<and> now - snap_up cand now \<le> 43200"
  by (induction cand now rule: snap_up.induct) (subst snap_up.simps, subst (2) snap_up.simps, simp)

lemma snap_up_eq:
  "\<exists>k. snap_up cand now = cand + of_int k * 86400"
proof (induction cand now rule: snap_up.induct)
  case (1 cand now)
  show ?case
  proof (cases "now - cand > 43200")
    case True
    with 1 obtain k where "snap_up (cand + 86400) now = cand + 86400 + of_int k * 86400" by blast
    with True have "snap_up cand now = cand + of_int (k + 1) * 86400"
      by (subst snap_up.simps) (simp add: algebra_simps)
    then show ?thesis by blast
  next
    case False
    then have "snap_up cand now = cand + of_int 0 * 86400" by (subst snap_up.simps) simp
    then show ?thesis by blast
  qed
qed

section \<open>Leaf predicates and conditions\<close>

text \<open>The product of a finite factor and a float.\<close>

fun flt_scale :: "rat \<Rightarrow> pyfloat \<Rightarrow> pyfloat" where
  "flt_scale t (Fin b) = Fin (t * b)"
| "flt_scale t NaN = NaN"
| "flt_scale t PInf = (if t = 0 then NaN else if 0 < t then PInf else NInf)"
| "flt_scale t NInf = (if t = 0 then NaN else if 0 < t then NInf else PInf)"

definition eval_predicate :: "(nat \<Rightarrow> nat \<Rightarrow> rat \<Rightarrow> rat option) \<Rightarrow> predicate_kind \<Rightarrow> rat \<Rightarrow>
    string option \<Rightarrow> trigger_context \<Rightarrow> bool \<Rightarrow> bool option" where
  "eval_predicate mk kind threshold at_time ctx relative = (case kind of
     P_hfr_above \<Rightarrow> (case frame_hfr ctx of None \<Rightarrow> None
       | Some v \<Rightarrow> if relative
           then (case focus_baseline_hfr ctx of None \<Rightarrow> None
                 | Some b \<Rightarrow> Some (flt_less (flt_scale threshold b) v))
           else Some (flt_less (Fin threshold) v))
   | P_guide_rms_above \<Rightarrow> (case guide_rms ctx of None \<Rightarrow> None
       | Some v \<Rightarrow> Some (flt_less (Fin threshold) v))
   | P_frame_rejected \<Rightarrow> Some (frame_rejected ctx)
   | P_target_complete \<Rightarrow> Some (target_complete ctx)
   | P_altitude_floor \<Rightarrow> Some (altitude_floor ctx)
   | P_at_time \<Rightarrow> (case parse_hhmm mk at_time (now_ts ctx) of None \<Rightarrow> None
       | Some t \<Rightarrow> Some (now_ts ctx \<ge> t))
   | P_clouds_in \<Rightarrow> tc_cloudy ctx
   | P_clouds_clear \<Rightarrow> map_option Not (tc_cloudy ctx)
   | P_unsafe \<Rightarrow> tc_unsafe ctx
   | P_panel_ready \<Rightarrow> panel_ready ctx)"

definition eval_condition :: "(nat \<Rightarrow> nat \<Rightarrow> rat \<Rightarrow> rat option) \<Rightarrow> condition \<Rightarrow> trigger_context \<Rightarrow>
    bool option" where
  "eval_condition mk cond ctx =
     (let vals = map (\<lambda>t. eval_predicate mk (p_kind t) (p_threshold t) (p_at_time t) ctx
                            (p_relative t)) (c_terms cond) in
      case c_op cond of
        All_of \<Rightarrow> if \<exists>v \<in> set vals. v = Some False then Some False
                  else if \<exists>v \<in> set vals. v = None then None else Some True
      | Any_of \<Rightarrow> if \<exists>v \<in> set vals. v = Some True then Some True
                  else if \<exists>v \<in> set vals. v = None then None else Some False)"

section \<open>The evaluator\<close>

type_synonym fire_state = "string \<rightharpoonup> fire_record"

definition is_level :: "instruction \<Rightarrow> bool" where
  "is_level i = (i_when i = None \<and> i_trigger i \<in> set level_triggers)"

text \<open>The level of a rule: its compound condition when it has one, else its flat predicate. Only
  the level kinds read the relative flag, as the code's two calls do.\<close>

definition rule_value :: "(nat \<Rightarrow> nat \<Rightarrow> rat \<Rightarrow> rat option) \<Rightarrow> instruction \<Rightarrow> trigger_context \<Rightarrow>
    bool option" where
  "rule_value mk i ctx = (case i_when i of
     Some c \<Rightarrow> eval_condition mk c ctx
   | None \<Rightarrow> eval_predicate mk (predicate_of (i_trigger i)) (i_threshold i) (i_at_time i) ctx
       (if is_level i then i_relative i else False))"

definition eligible :: "(nat \<Rightarrow> nat \<Rightarrow> rat \<Rightarrow> rat option) \<Rightarrow> instruction \<Rightarrow> trigger_context \<Rightarrow>
    fire_record \<Rightarrow> bool \<times> fire_record" where
  "eligible mk i ctx rec =
     (if i_when i \<noteq> None \<or> is_level i then
        (case rule_value mk i ctx of
           None \<Rightarrow> (False, rec)
         | Some False \<Rightarrow> (False, rec\<lparr>armed := True\<rparr>)
         | Some True \<Rightarrow> (armed rec, rec))
      else if i_trigger i = At_time then
        (rule_value mk i ctx = Some True \<and> fired_count rec = 0, rec)
      else (rule_value mk i ctx = Some True, rec))"

definition fire_of :: "instruction \<Rightarrow> fired_action" where
  "fire_of i = \<lparr>fa_id = i_id i, fa_action = i_action i, fa_message = i_message i,
     fa_level = i_level i, fa_target_arg = i_target_arg i\<rparr>"

definition eval_one :: "(nat \<Rightarrow> nat \<Rightarrow> rat \<Rightarrow> rat option) \<Rightarrow> trigger_context \<Rightarrow> instruction \<Rightarrow>
    fire_state \<Rightarrow> fired_action list \<times> fire_state" where
  "eval_one mk ctx i fs =
     (if \<not> i_enabled i then ([], fs)
      else let rec = dget fs (i_id i) fire_record_new; fs = fs(i_id i \<mapsto> rec) in
        if i_only_target i \<noteq> None \<and> i_only_target i \<noteq> active_target ctx then ([], fs)
        else let (ok, rec) = eligible mk i ctx rec; fs = fs(i_id i \<mapsto> rec) in
          if \<not> ok then ([], fs)
          else if i_once i \<and> fired_count rec > 0 then ([], fs)
          else if i_cooldown_s i > 0 \<and> now_ts ctx - last_fire_ts rec < i_cooldown_s i then ([], fs)
          else let rec = rec\<lparr>fired_count := fired_count rec + 1, last_fire_ts := now_ts ctx\<rparr>;
                   rec = (if is_level i \<or> i_when i \<noteq> None then rec\<lparr>armed := False\<rparr> else rec)
               in ([fire_of i], fs(i_id i \<mapsto> rec)))"

fun evaluate_instructions :: "(nat \<Rightarrow> nat \<Rightarrow> rat \<Rightarrow> rat option) \<Rightarrow> instruction list \<Rightarrow>
    trigger_context \<Rightarrow> fire_state \<Rightarrow> fired_action list \<times> fire_state" where
  "evaluate_instructions mk [] ctx fs = ([], fs)"
| "evaluate_instructions mk (i # is) ctx fs =
     (let (a, fs') = eval_one mk ctx i fs; (as, fs'') = evaluate_instructions mk is ctx fs'
      in (a @ as, fs''))"

text \<open>A run: the frame boundaries in order, the fire state threaded through, as the engine does.\<close>

fun eval_run :: "(nat \<Rightarrow> nat \<Rightarrow> rat \<Rightarrow> rat option) \<Rightarrow> instruction list \<Rightarrow> trigger_context list \<Rightarrow>
    fire_state \<Rightarrow> fired_action list list \<times> fire_state" where
  "eval_run mk is [] fs = ([], fs)"
| "eval_run mk is (ctx # ctxs) fs =
     (let (a, fs') = evaluate_instructions mk is ctx fs; (as, fs'') = eval_run mk is ctxs fs'
      in (a # as, fs''))"

section \<open>Bookkeeping\<close>

lemma evaluate_Cons [simp]:
  "fst (evaluate_instructions mk (i # is) ctx fs) =
     fst (eval_one mk ctx i fs) @ fst (evaluate_instructions mk is ctx (snd (eval_one mk ctx i fs)))"
  "snd (evaluate_instructions mk (i # is) ctx fs) =
     snd (evaluate_instructions mk is ctx (snd (eval_one mk ctx i fs)))"
  by (simp_all split: prod.splits)

lemma eval_run_Cons [simp]:
  "fst (eval_run mk is (ctx # ctxs) fs) =
     fst (evaluate_instructions mk is ctx fs)
     # fst (eval_run mk is ctxs (snd (evaluate_instructions mk is ctx fs)))"
  "snd (eval_run mk is (ctx # ctxs) fs) =
     snd (eval_run mk is ctxs (snd (evaluate_instructions mk is ctx fs)))"
  by (simp_all split: prod.splits)

declare evaluate_instructions.simps(2) [simp del] eval_run.simps(2) [simp del]

abbreviation fires_in :: "string \<Rightarrow> fired_action list \<Rightarrow> nat" where
  "fires_in x as \<equiv> length (filter (\<lambda>a. fa_id a = x) as)"

abbreviation rec_of :: "fire_state \<Rightarrow> string \<Rightarrow> fire_record" where
  "rec_of fs x \<equiv> dget fs x fire_record_new"

lemma fa_id_fire_of [simp]: "fa_id (fire_of i) = i_id i"
  by (simp add: fire_of_def)

lemma eligible_record:
  "fired_count (snd (eligible mk i ctx rec)) = fired_count rec"
  "last_fire_ts (snd (eligible mk i ctx rec)) = last_fire_ts rec"
  by (auto simp: eligible_def split: option.splits bool.splits)

lemma eval_one_other:
  "i_id i \<noteq> x \<Longrightarrow> rec_of (snd (eval_one mk ctx i fs)) x = rec_of fs x
     \<and> fires_in x (fst (eval_one mk ctx i fs)) = 0"
  by (auto simp: eval_one_def Let_def dget_def split: prod.splits)

lemma eval_one_count:
  "fired_count (rec_of (snd (eval_one mk ctx i fs)) x)
     = fired_count (rec_of fs x) + fires_in x (fst (eval_one mk ctx i fs))"
proof (cases "i_id i = x")
  case True
  obtain ok r where el: "eligible mk i ctx (rec_of fs x) = (ok, r)" by (cases "eligible mk i ctx (rec_of fs x)")
  have "fired_count r = fired_count (rec_of fs x)" using eligible_record(1) [of mk i ctx "rec_of fs x"] el by simp
  with True el show ?thesis
    by (auto simp: eval_one_def Let_def)
next
  case False
  with eval_one_other [OF this] show ?thesis by simp
qed

lemma eval_one_once:
  assumes "i_id i = x \<Longrightarrow> i_once i" and "fired_count (rec_of fs x) \<le> 1"
  shows "fired_count (rec_of (snd (eval_one mk ctx i fs)) x) \<le> 1"
proof (cases "i_id i = x")
  case True
  obtain ok r where el: "eligible mk i ctx (rec_of fs x) = (ok, r)" by (cases "eligible mk i ctx (rec_of fs x)")
  have "fired_count r = fired_count (rec_of fs x)" using eligible_record(1) [of mk i ctx "rec_of fs x"] el by simp
  with True el assms show ?thesis
    by (auto simp: eval_one_def Let_def)
next
  case False
  with eval_one_other [OF this] assms(2) show ?thesis by simp
qed

lemma evaluate_count:
  "fired_count (rec_of (snd (evaluate_instructions mk is ctx fs)) x)
     = fired_count (rec_of fs x) + fires_in x (fst (evaluate_instructions mk is ctx fs))"
proof (induction "is" arbitrary: fs)
  case Nil
  then show ?case by simp
next
  case (Cons i "is")
  from Cons.IH [of "snd (eval_one mk ctx i fs)"] eval_one_count [of mk ctx i fs x]
  show ?case by simp
qed

definition once_rule :: "instruction list \<Rightarrow> string \<Rightarrow> bool" where
  "once_rule is x = (\<forall>i \<in> set is. i_id i = x \<longrightarrow> i_once i)"

lemma evaluate_once:
  "once_rule is x \<Longrightarrow> fired_count (rec_of fs x) \<le> 1 \<Longrightarrow>
     fired_count (rec_of (snd (evaluate_instructions mk is ctx fs)) x) \<le> 1"
proof (induction "is" arbitrary: fs)
  case Nil
  then show ?case by simp
next
  case (Cons i "is")
  have "fired_count (rec_of (snd (eval_one mk ctx i fs)) x) \<le> 1"
    using Cons.prems by (intro eval_one_once) (auto simp: once_rule_def)
  with Cons.IH [of "snd (eval_one mk ctx i fs)"] Cons.prems(1) show ?case
    by (auto simp: once_rule_def)
qed

text \<open>The fire state as a metered machine: a \<open>once\<close> rule books its fires in \<open>fired_count\<close>.\<close>

definition once_fires :: "(nat \<Rightarrow> nat \<Rightarrow> rat \<Rightarrow> rat option) \<Rightarrow> instruction list \<Rightarrow> string \<Rightarrow>
    fire_state \<Rightarrow> trigger_context \<Rightarrow> int" where
  "once_fires mk is x fs ctx =
     (if once_rule is x then int (fires_in x (fst (evaluate_instructions mk is ctx fs))) else 0)"

definition once_book :: "instruction list \<Rightarrow> string \<Rightarrow> fire_state \<Rightarrow> int" where
  "once_book is x fs = (if once_rule is x then int (fired_count (rec_of fs x)) else 0)"

interpretation rules: metered "\<lambda>fs ctx. snd (evaluate_instructions mk is ctx fs)"
  "\<lambda>fs. once_book is x fs \<le> 1" "once_fires mk is x" "once_book is x" 1 for mk "is" x
proof unfold_locales
  fix fs ctx
  assume "once_book is x fs \<le> 1"
  then show "once_book is x (snd (evaluate_instructions mk is ctx fs)) \<le> 1"
    using evaluate_once [of "is" x fs mk ctx] by (auto simp: once_book_def)
next
  fix fs ctx
  show "once_book is x fs + once_fires mk is x fs ctx
          \<le> once_book is x (snd (evaluate_instructions mk is ctx fs))"
    using evaluate_count [of mk "is" ctx fs x] by (simp add: once_book_def once_fires_def)
qed

lemma eval_run_total:
  "once_rule is x \<Longrightarrow> int (fires_in x (concat (fst (eval_run mk is ctxs fs))))
     = spent (\<lambda>fs ctx. snd (evaluate_instructions mk is ctx fs)) (once_fires mk is x) fs ctxs"
  by (induction ctxs arbitrary: fs) (auto simp: once_fires_def)

section \<open>Rising edges\<close>

definition edge_rule :: "instruction \<Rightarrow> bool" where
  "edge_rule i = (i_when i \<noteq> None \<or> is_level i)"

lemma eval_one_edge:
  assumes "edge_rule i" and "rule_value mk i ctx \<noteq> Some False"
  shows "fires_in (i_id i) (fst (eval_one mk ctx i fs)) \<le> (if armed (rec_of fs (i_id i)) then 1 else 0)"
    and "armed (rec_of (snd (eval_one mk ctx i fs)) (i_id i)) \<longrightarrow>
           fires_in (i_id i) (fst (eval_one mk ctx i fs)) = 0 \<and> armed (rec_of fs (i_id i))"
  using assms
  by (auto simp: eval_one_def Let_def eligible_def edge_rule_def split: option.splits bool.splits)

text \<open>The same for the whole list: the rules of one id share a record, so their fires are counted
  together.\<close>

definition held_high :: "(nat \<Rightarrow> nat \<Rightarrow> rat \<Rightarrow> rat option) \<Rightarrow> instruction list \<Rightarrow> string \<Rightarrow>
    trigger_context \<Rightarrow> bool" where
  "held_high mk is x ctx =
     (\<forall>i \<in> set is. i_id i = x \<longrightarrow> edge_rule i \<and> rule_value mk i ctx \<noteq> Some False)"

lemma evaluate_edge:
  "held_high mk is x ctx \<Longrightarrow>
     fires_in x (fst (evaluate_instructions mk is ctx fs)) \<le> (if armed (rec_of fs x) then 1 else 0) \<and>
     (armed (rec_of (snd (evaluate_instructions mk is ctx fs)) x) \<longrightarrow>
        fires_in x (fst (evaluate_instructions mk is ctx fs)) = 0 \<and> armed (rec_of fs x))"
proof (induction "is" arbitrary: fs)
  case Nil
  then show ?case by simp
next
  case (Cons i "is")
  let ?fs = "snd (eval_one mk ctx i fs)"
  have IH: "fires_in x (fst (evaluate_instructions mk is ctx ?fs)) \<le> (if armed (rec_of ?fs x) then 1 else 0) \<and>
     (armed (rec_of (snd (evaluate_instructions mk is ctx ?fs)) x) \<longrightarrow>
        fires_in x (fst (evaluate_instructions mk is ctx ?fs)) = 0 \<and> armed (rec_of ?fs x))"
    using Cons by (auto simp: held_high_def)
  show ?case
  proof (cases "i_id i = x")
    case True
    with Cons.prems have "edge_rule i" "rule_value mk i ctx \<noteq> Some False" by (auto simp: held_high_def)
    from eval_one_edge [OF this, of fs] True IH show ?thesis by (auto split: if_splits)
  next
    case False
    from eval_one_other [OF False, of mk ctx fs] IH show ?thesis by simp
  qed
qed

lemma eval_run_edge:
  "\<forall>ctx \<in> set ctxs. held_high mk is x ctx \<Longrightarrow>
     fires_in x (concat (fst (eval_run mk is ctxs fs))) \<le> (if armed (rec_of fs x) then 1 else 0)"
proof (induction ctxs arbitrary: fs)
  case Nil
  then show ?case by simp
next
  case (Cons ctx ctxs)
  then have h: "held_high mk is x ctx" by simp
  from evaluate_edge [OF h, of fs] Cons.IH [of "snd (evaluate_instructions mk is ctx fs)"] Cons.prems
  show ?case by (auto split: if_splits)
qed

section \<open>Cooldowns\<close>

text \<open>The clock times at which a rule fired, in order.\<close>

fun fire_times :: "(nat \<Rightarrow> nat \<Rightarrow> rat \<Rightarrow> rat option) \<Rightarrow> instruction list \<Rightarrow> string \<Rightarrow>
    trigger_context list \<Rightarrow> fire_state \<Rightarrow> rat list" where
  "fire_times mk is x [] fs = []"
| "fire_times mk is x (ctx # ctxs) fs =
     replicate (fires_in x (fst (evaluate_instructions mk is ctx fs))) (now_ts ctx)
     @ fire_times mk is x ctxs (snd (evaluate_instructions mk is ctx fs))"

definition spaced :: "rat \<Rightarrow> rat list \<Rightarrow> bool" where
  "spaced d = sorted_wrt (\<lambda>s t. d \<le> t - s)"

lemma spaced_Cons2:
  assumes "0 \<le> d"
  shows "spaced d (a # b # ts) \<longleftrightarrow> d \<le> b - a \<and> spaced d (b # ts)"
proof -
  have "transp (\<lambda>s t. d \<le> t - s)" using assms by (auto simp: transp_def)
  from sorted_wrt2 [OF this] show ?thesis by (simp add: spaced_def)
qed

lemma spaced_tail: "spaced d (a # ts) \<Longrightarrow> spaced d ts"
  by (simp add: spaced_def)

definition cooled_rule :: "instruction list \<Rightarrow> string \<Rightarrow> rat \<Rightarrow> bool" where
  "cooled_rule is x d = (\<forall>i \<in> set is. i_id i = x \<longrightarrow> d \<le> i_cooldown_s i)"

lemma eval_one_cooldown:
  assumes "0 < d" and "i_id i = x \<Longrightarrow> d \<le> i_cooldown_s i"
  shows "(fires_in x (fst (eval_one mk ctx i fs)) = 0 \<and>
           last_fire_ts (rec_of (snd (eval_one mk ctx i fs)) x) = last_fire_ts (rec_of fs x)) \<or>
         (fires_in x (fst (eval_one mk ctx i fs)) = 1 \<and>
           last_fire_ts (rec_of (snd (eval_one mk ctx i fs)) x) = now_ts ctx \<and>
           d \<le> now_ts ctx - last_fire_ts (rec_of fs x))"
proof (cases "i_id i = x")
  case True
  obtain ok r where el: "eligible mk i ctx (rec_of fs x) = (ok, r)" by (cases "eligible mk i ctx (rec_of fs x)")
  have "last_fire_ts r = last_fire_ts (rec_of fs x)" using eligible_record(2) [of mk i ctx "rec_of fs x"] el by simp
  with True el assms show ?thesis
    by (auto simp: eval_one_def Let_def not_less)
next
  case False
  with eval_one_other [OF this] show ?thesis by simp
qed

lemma evaluate_cooldown:
  assumes "0 < d"
  shows "cooled_rule is x d \<Longrightarrow>
     (fires_in x (fst (evaluate_instructions mk is ctx fs)) = 0 \<and>
        last_fire_ts (rec_of (snd (evaluate_instructions mk is ctx fs)) x) = last_fire_ts (rec_of fs x)) \<or>
     (fires_in x (fst (evaluate_instructions mk is ctx fs)) = 1 \<and>
        last_fire_ts (rec_of (snd (evaluate_instructions mk is ctx fs)) x) = now_ts ctx \<and>
        d \<le> now_ts ctx - last_fire_ts (rec_of fs x))"
proof (induction "is" arbitrary: fs)
  case Nil
  then show ?case by simp
next
  case (Cons i "is")
  have "i_id i = x \<Longrightarrow> d \<le> i_cooldown_s i" and "cooled_rule is x d"
    using Cons.prems by (auto simp: cooled_rule_def)
  with eval_one_cooldown [OF assms, of i x mk ctx fs] Cons.IH [of "snd (eval_one mk ctx i fs)"] assms
  show ?case by auto
qed

lemma fire_times_spaced:
  assumes "0 < d" and "cooled_rule is x d"
  shows "spaced d (last_fire_ts (rec_of fs x) # fire_times mk is x ctxs fs)"
proof (induction ctxs arbitrary: fs)
  case Nil
  then show ?case by (simp add: spaced_def)
next
  case (Cons ctx ctxs)
  from evaluate_cooldown [OF assms, of mk ctx fs]
    Cons.IH [of "snd (evaluate_instructions mk is ctx fs)"] assms(1)
  show ?case by (auto simp: spaced_Cons2)
qed

section \<open>Properties\<close>

text \<open>C19. A level rule acts once per rising edge: while the condition of every rule of an id stays
  true or unknown, frame after frame, the id fires at most once in all, however long that lasts;
  and not at all when it starts disarmed.\<close>

theorem one_fire_per_rising_edge:
  assumes "\<forall>ctx \<in> set ctxs. held_high mk is x ctx"
  shows "fires_in x (concat (fst (eval_run mk is ctxs fs))) \<le> (if armed (rec_of fs x) then 1 else 0)"
  using assms by (rule eval_run_edge)

definition demo_ctx :: "rat \<Rightarrow> bool option \<Rightarrow> trigger_context" where
  "demo_ctx t c = \<lparr>now_ts = t, frame_hfr = None, focus_baseline_hfr = None, guide_rms = None,
     frame_rejected = False, target_complete = False, active_target = None, tc_cloudy = c,
     tc_unsafe = None, panel_ready = None, altitude_floor = False\<rparr>"

definition demo_rule :: instruction where
  "demo_rule = \<lparr>i_id = ''r'', i_enabled = True, i_trigger = On_clouds_in, i_threshold = 0,
     i_relative = False, i_at_time = None, i_action = Hold_for_clear, i_message = [],
     i_level = ''warning'', i_once = True, i_cooldown_s = 60, i_only_target = None,
     i_target_arg = None, i_when = None\<rparr>"

lemmas demo_defs = demo_ctx_def demo_rule_def eval_one_def eligible_def rule_value_def is_level_def
  level_triggers_def eval_predicate_def fire_of_def fire_record_new_def

theorem one_fire_per_rising_edge_witness:
  "fires_in ''r'' (concat (fst (eval_run (\<lambda>_ _ _. None) [demo_rule]
      [demo_ctx 100 (Some True), demo_ctx 900 None, demo_ctx 990 (Some True)] Map.empty))) \<le> 1"
proof -
  have "\<forall>ctx \<in> set [demo_ctx 100 (Some True), demo_ctx 900 None, demo_ctx 990 (Some True)].
          held_high (\<lambda>_ _ _. None) [demo_rule] ''r'' ctx"
    by (simp add: held_high_def edge_rule_def demo_defs)
  from one_fire_per_rising_edge [OF this, of Map.empty] show ?thesis
    by (simp add: fire_record_new_def)
qed

text \<open>A rule marked \<open>once\<close> fires at most once in a run: over all frame boundaries together, and
  not again where its record already holds a fire (a resumed run).\<close>

theorem once_fires_once:
  assumes "once_rule is x" and "fired_count (rec_of fs x) \<le> 1"
  shows "fires_in x (concat (fst (eval_run mk is ctxs fs))) \<le> 1 - fired_count (rec_of fs x)"
proof -
  have "once_book is x fs \<le> 1" using assms by (simp add: once_book_def)
  from rules.spent_le_cap [OF this, of mk ctxs] eval_run_total [OF assms(1), of mk ctxs fs] assms
  show ?thesis by (simp add: once_book_def)
qed

theorem once_fires_once_witness:
  "fires_in ''r'' (concat (fst (eval_run (\<lambda>_ _ _. None) [demo_rule]
      [demo_ctx 100 (Some True), demo_ctx 900 (Some False), demo_ctx 990 (Some True)] Map.empty))) \<le> 1"
  using once_fires_once [of "[demo_rule]" "''r''" Map.empty "\<lambda>_ _ _. None"
      "[demo_ctx 100 (Some True), demo_ctx 900 (Some False), demo_ctx 990 (Some True)]"]
  by (simp add: once_rule_def demo_rule_def fire_record_new_def)

text \<open>A cooldown spaces the fires: the clock times at which rules of an id fire, over a whole
  run, are at least the cooldown apart, any two of them.\<close>

theorem cooldown_spaces_fires:
  assumes "0 < d" and "cooled_rule is x d"
  shows "spaced d (fire_times mk is x ctxs fs)"
  using fire_times_spaced [OF assms] by (rule spaced_tail)

theorem cooldown_spaces_fires_witness:
  "spaced 60 (fire_times (\<lambda>_ _ _. None) [demo_rule] ''r''
      [demo_ctx 100 (Some True), demo_ctx 120 (Some False), demo_ctx 990 (Some True)] Map.empty)"
  by (rule cooldown_spaces_fires) (simp_all add: cooled_rule_def demo_rule_def)

text \<open>An unknown reading is neither true nor false: where the value of a level or compound rule
  is unknown, the rule fires nothing and its record, the armed flag included, does not move.\<close>

theorem unknown_moves_nothing:
  assumes "edge_rule i" and "rule_value mk i ctx = None"
  shows "fst (eval_one mk ctx i fs) = [] \<and> rec_of (snd (eval_one mk ctx i fs)) y = rec_of fs y"
  using assms
  by (auto simp: eval_one_def Let_def eligible_def edge_rule_def dget_def split: option.splits)

theorem unknown_moves_nothing_witness:
  "fst (eval_one (\<lambda>_ _ _. None) (demo_ctx 100 None) demo_rule Map.empty) = []"
  using unknown_moves_nothing [of demo_rule "\<lambda>_ _ _. None" "demo_ctx 100 None" Map.empty]
  by (simp add: edge_rule_def demo_defs)

fun kleene_and :: "bool option \<Rightarrow> bool option \<Rightarrow> bool option" where
  "kleene_and (Some False) _ = Some False"
| "kleene_and _ (Some False) = Some False"
| "kleene_and (Some True) y = y"
| "kleene_and None _ = None"

definition kleene_not :: "bool option \<Rightarrow> bool option" where
  "kleene_not = map_option Not"

definition kleene_or :: "bool option \<Rightarrow> bool option \<Rightarrow> bool option" where
  "kleene_or a b = kleene_not (kleene_and (kleene_not a) (kleene_not b))"

definition term_value :: "(nat \<Rightarrow> nat \<Rightarrow> rat \<Rightarrow> rat option) \<Rightarrow> trigger_context \<Rightarrow> predicate \<Rightarrow>
    bool option" where
  "term_value mk ctx t = eval_predicate mk (p_kind t) (p_threshold t) (p_at_time t) ctx (p_relative t)"

lemma kleene_and_False [simp]: "kleene_and a (Some False) = Some False"
  by (cases "(a, Some False)" rule: kleene_and.cases) auto

lemma kleene_and_True [simp]: "kleene_and (Some True) b = b"
  by (cases "(Some True, b)" rule: kleene_and.cases) auto

lemma three_values: "v = None \<or> v = Some True \<or> v = Some False"
  by (cases v) auto

lemma kleene_all:
  "foldr kleene_and vs (Some True) =
     (if \<exists>v \<in> set vs. v = Some False then Some False
      else if \<exists>v \<in> set vs. v = None then None else Some True)"
proof (induction vs)
  case (Cons v vs)
  with three_values [of v] three_values [of "foldr kleene_and vs (Some True)"] show ?case
    by (elim disjE) (auto split: if_splits)
qed simp

lemma kleene_any:
  "foldr kleene_or vs (Some False) =
     (if \<exists>v \<in> set vs. v = Some True then Some True
      else if \<exists>v \<in> set vs. v = None then None else Some False)"
proof (induction vs)
  case (Cons v vs)
  with three_values [of v] three_values [of "foldr kleene_or vs (Some False)"] show ?case
    by (elim disjE) (auto simp: kleene_or_def kleene_not_def split: if_splits)
qed simp

text \<open>A compound condition is Kleene's logic: an \<open>all\<close> is the conjunction and an \<open>any\<close> the
  disjunction of its terms in three values, so an unknown term matters only where it could still
  decide the answer.\<close>

theorem condition_is_kleene:
  "eval_condition mk c ctx = (case c_op c of
     All_of \<Rightarrow> foldr kleene_and (map (term_value mk ctx) (c_terms c)) (Some True)
   | Any_of \<Rightarrow> foldr kleene_or (map (term_value mk ctx) (c_terms c)) (Some False))"
  unfolding kleene_all kleene_any
  by (simp add: eval_condition_def Let_def term_value_def split: cond_op.split)

text \<open>"HH:MM" means tonight: the instant a clock time resolves to is the local time the
  platform gives, moved by whole days, and lies within twelve hours of now either way.\<close>

lemma hhmm_within_twelve_hours:
  assumes "parse_hhmm mk (Some s) now = Some t"
  shows "\<bar>t - now\<bar> \<le> 43200 \<and>
    (\<exists>h m cand k. h < 24 \<and> m < 60 \<and> mk h m now = Some cand \<and> t = cand + of_int k * 86400)"
proof -
  from assms obtain h m cand where sp: "strptime_hm s = Some (h, m)" and mk: "mk h m now = Some cand"
    and t: "t = snap_up (snap_down cand now) now"
    by (auto simp: parse_hhmm_def clock_time_near_now_def split: option.splits if_splits)
  have lt: "two_digits l r = Some v \<Longrightarrow> 10 \<le> l \<Longrightarrow> v < l" for l r v
    by (induction l r rule: two_digits.induct)
      (auto simp: digit_val_def Let_def split: option.splits if_splits)
  from sp have "h < 24 \<and> m < 60"
    using lt [of 24] lt [of 60] by (auto simp: strptime_hm_def split: list.splits option.splits)
  moreover have "\<bar>t - now\<bar> \<le> 43200"
    using snap_up_bounds [OF snap_down_le, of cand now] t by auto
  moreover obtain a b where "snap_down cand now = cand - of_int a * 86400"
    and "t = snap_down cand now + of_int b * 86400"
    using snap_down_eq snap_up_eq t by metis
  then have "t = cand + of_int (b - a) * 86400" by (simp add: algebra_simps)
  ultimately show ?thesis using mk by blast
qed

end
