(* ===== verification/Panel_Order.thy ===== *)
theory Panel_Order
  imports Prelude "HOL-Library.Multiset" "HOL-Library.Product_Lexorder"
begin

text \<open>
  The mosaic panel order of \<open>server/astrodeck/sequence/panel_order.py\<close>: the snake index of a grid
  position, the snapshot a pass is ordered on, and \<open>order_panels\<close> with its three policies. The
  lemmas: the snake is a bijection between the grid and its indices that only ever steps to a
  neighbour; an order is a permutation, sorted by the policy's key, and does not depend on the
  order its caller listed the panels in.
\<close>

section \<open>Data\<close>

record panel =
  pan_id :: string
  panel_row :: "int option"
  panel_col :: "int option"

definition POLICIES :: "string list" where
  "POLICIES = [''least_complete'', ''setting_first'', ''grid'']"

record order_snapshot =
  fraction_banked :: "string \<rightharpoonup> pyfloat"
  last_visit_ts :: "string \<rightharpoonup> pyfloat option"
  time_to_floor_s :: "string \<rightharpoonup> pyfloat option"
  last_visited :: "(int \<times> int) option"

definition empty_snapshot :: order_snapshot where
  "empty_snapshot = \<lparr>fraction_banked = Map.empty, last_visit_ts = Map.empty,
     time_to_floor_s = Map.empty, last_visited = None\<rparr>"

section \<open>The snake\<close>

definition snake_index :: "int \<Rightarrow> int \<Rightarrow> int \<Rightarrow> int res" where
  "snake_index row col cols =
     (if cols < 1 then Inl ValueError
      else if row < 0 \<or> \<not> (0 \<le> col \<and> col < cols) then Inl ValueError
      else Inr (row * cols + (if row mod 2 = 0 then col else cols - 1 - col)))"

definition panel_label :: "int \<Rightarrow> int \<Rightarrow> string" where
  "panel_label row col = int_str (row + 1) @ ''-'' @ int_str (col + 1)"

text \<open>The index of a member: a position that is not an int is refused with the ones outside the
  grid.\<close>

definition panel_snake :: "int \<Rightarrow> panel \<Rightarrow> int res" where
  "panel_snake cols p = (case (panel_row p, panel_col p) of
     (Some r, Some c) \<Rightarrow> snake_index r c cols | _ \<Rightarrow> Inl ValueError)"

section \<open>The order\<close>

definition number_opt :: "pyfloat option option \<Rightarrow> rat option res" where
  "number_opt v = (case v of Some (Some x) \<Rightarrow> (case finite_arg x of Inl e \<Rightarrow> Inl e
       | Inr a \<Rightarrow> Inr (Some a)) | _ \<Rightarrow> Inr None)"

record panel_key =
  k_snake :: int
  k_fraction :: rat
  k_visited :: "rat option"
  k_floor :: "rat option"

text \<open>The numbers a panel's key is built from. All are checked whichever policy reads them.\<close>

definition panel_key_of :: "int \<Rightarrow> order_snapshot \<Rightarrow> panel \<Rightarrow> panel_key res" where
  "panel_key_of cols snap p =
     (case panel_snake cols p of Inl e \<Rightarrow> Inl e | Inr snake \<Rightarrow>
      case finite_arg (dget (fraction_banked snap) (pan_id p) (Fin 0)) of Inl e \<Rightarrow> Inl e
      | Inr fraction \<Rightarrow>
      case number_opt (last_visit_ts snap (pan_id p)) of Inl e \<Rightarrow> Inl e | Inr visited \<Rightarrow>
      case number_opt (time_to_floor_s snap (pan_id p)) of Inl e \<Rightarrow> Inl e | Inr to_floor \<Rightarrow>
      Inr \<lparr>k_snake = snake, k_fraction = fraction, k_visited = visited, k_floor = to_floor\<rparr>)"

fun keyed :: "int \<Rightarrow> order_snapshot \<Rightarrow> panel list \<Rightarrow> (panel_key \<times> panel) list res" where
  "keyed cols snap [] = Inr []"
| "keyed cols snap (p # ps) = (case panel_key_of cols snap p of Inl e \<Rightarrow> Inl e
     | Inr k \<Rightarrow> (case keyed cols snap ps of Inl e \<Rightarrow> Inl e | Inr ks \<Rightarrow> Inr ((k, p) # ks)))"

definition lc_key :: "panel_key \<Rightarrow> rat \<times> bool \<times> rat \<times> int" where
  "lc_key k = (k_fraction k, k_visited k \<noteq> None,
     (case k_visited k of None \<Rightarrow> 0 | Some t \<Rightarrow> t), k_snake k)"

definition sf_key :: "panel_key \<Rightarrow> bool \<times> rat \<times> rat \<times> int" where
  "sf_key k = (k_floor k = None, (case k_floor k of None \<Rightarrow> 0 | Some t \<Rightarrow> t), k_fraction k, k_snake k)"

definition grid_key :: "int option \<Rightarrow> panel_key \<Rightarrow> bool \<times> int" where
  "grid_key prev k = ((case prev of None \<Rightarrow> False | Some l \<Rightarrow> k_snake k \<le> l), k_snake k)"

definition last_index :: "int \<Rightarrow> order_snapshot \<Rightarrow> int option res" where
  "last_index cols snap = (case last_visited snap of None \<Rightarrow> Inr None
     | Some (r, c) \<Rightarrow> (case snake_index r c cols of Inl e \<Rightarrow> Inl e | Inr l \<Rightarrow> Inr (Some l)))"

definition sort_keyed :: "string \<Rightarrow> int option \<Rightarrow> (panel_key \<times> panel) list \<Rightarrow> (panel_key \<times> panel) list" where
  "sort_keyed policy prev ks =
     (if policy = ''least_complete'' then sort_key (\<lambda>(k, p). lc_key k) ks
      else if policy = ''setting_first'' then sort_key (\<lambda>(k, p). sf_key k) ks
      else sort_key (\<lambda>(k, p). grid_key prev k) ks)"

definition order_panels :: "panel list \<Rightarrow> int \<Rightarrow> string \<Rightarrow> order_snapshot option \<Rightarrow> panel list res" where
  "order_panels panels cols policy snapshot =
     (if policy \<notin> set POLICIES then Inl ValueError
      else let snap = (case snapshot of Some s \<Rightarrow> s | None \<Rightarrow> empty_snapshot) in
        case last_index cols snap of Inl e \<Rightarrow> Inl e | Inr prev \<Rightarrow>
        case keyed cols snap panels of Inl e \<Rightarrow> Inl e
        | Inr ks \<Rightarrow> Inr (map snd (sort_keyed policy prev ks)))"

section \<open>The snake is a walk over the grid\<close>

lemma snake_index_Inr:
  "snake_index r c n = Inr i \<longleftrightarrow>
     1 \<le> n \<and> 0 \<le> r \<and> 0 \<le> c \<and> c < n \<and> i = r * n + (if r mod 2 = 0 then c else n - 1 - c)"
  by (auto simp: snake_index_def)

lemma snake_index_row:
  assumes "snake_index r c n = Inr i"
  shows "i div n = r" and "i mod n = (if r mod 2 = 0 then c else n - 1 - c)"
  using assms by (auto simp: snake_index_Inr)

text \<open>The snake index is one-to-one: two positions of a grid with the same index are the same
  position, so the last tie-break of every policy is unique.\<close>

lemma snake_index_injective:
  assumes "snake_index r c n = Inr i" and "snake_index r' c' n = Inr i"
  shows "r = r' \<and> c = c'"
proof -
  from snake_index_row(1) [OF assms(1)] snake_index_row(1) [OF assms(2)] have "r = r'" by simp
  moreover with snake_index_row(2) [OF assms(1)] snake_index_row(2) [OF assms(2)] have "c = c'"
    by (auto split: if_splits)
  ultimately show ?thesis by simp
qed

definition unsnake :: "int \<Rightarrow> int \<Rightarrow> int \<times> int" where
  "unsnake n i = (i div n, if (i div n) mod 2 = 0 then i mod n else n - 1 - i mod n)"

lemma unsnake_index:
  assumes "1 \<le> n" and "0 \<le> i"
  shows "snake_index (fst (unsnake n i)) (snd (unsnake n i)) n = Inr i"
proof -
  have "0 \<le> i mod n" "i mod n < n" using assms by simp_all
  with assms show ?thesis
    by (simp add: snake_index_Inr unsnake_def pos_imp_zdiv_nonneg_iff)
qed

lemma next_row:
  fixes i n :: int
  assumes "1 \<le> n" and "0 \<le> i"
  shows "((i + 1) div n = i div n \<and> (i + 1) mod n = i mod n + 1) \<or>
         ((i + 1) div n = i div n + 1 \<and> (i + 1) mod n = 0 \<and> i mod n = n - 1)"
proof -
  have e: "i = n * (i div n) + i mod n" by simp
  have b: "0 \<le> i mod n" "i mod n < n" using assms by simp_all
  show ?thesis
  proof (cases "i mod n = n - 1")
    case True
    have "n * (i div n + 1) = n * (i div n) + n" by (simp add: distrib_left)
    with e True have eq: "i + 1 = n * (i div n + 1) + 0" by linarith
    have "(i + 1) div n = i div n + 1" by (rule int_div_pos_eq [OF eq]) (use assms in simp_all)
    moreover have "(i + 1) mod n = 0" by (rule int_mod_pos_eq [OF eq]) (use assms in simp_all)
    ultimately show ?thesis using True by blast
  next
    case False
    from e have eq: "i + 1 = n * (i div n) + (i mod n + 1)" by linarith
    have r: "0 \<le> i mod n + 1" "i mod n + 1 < n" using b False by linarith+
    have "(i + 1) div n = i div n" by (rule int_div_pos_eq [OF eq r])
    moreover have "(i + 1) mod n = i mod n + 1" by (rule int_mod_pos_eq [OF eq r])
    ultimately show ?thesis by blast
  qed
qed

text \<open>The snake is a walk: every index below \<open>rows * cols\<close> is the index of exactly one position
  of the grid, and the positions of two consecutive indices are side by side, so no hop of the
  grid order crosses the mosaic.\<close>

theorem snake_is_a_walk:
  assumes "1 \<le> n" and "0 \<le> i"
  shows "(\<exists>!(r, c). snake_index r c n = Inr i) \<and>
    \<bar>fst (unsnake n (i + 1)) - fst (unsnake n i)\<bar> + \<bar>snd (unsnake n (i + 1)) - snd (unsnake n i)\<bar> = 1"
proof
  show "\<exists>!(r, c). snake_index r c n = Inr i"
  proof (rule ex1I [of _ "unsnake n i"])
    show "case unsnake n i of (r, c) \<Rightarrow> snake_index r c n = Inr i"
      using unsnake_index [OF assms] by (simp add: case_prod_beta)
  next
    fix x assume "case x of (r, c) \<Rightarrow> snake_index r c n = Inr i"
    then have "snake_index (fst x) (snd x) n = Inr i" by (simp add: case_prod_beta)
    from snake_index_injective [OF this unsnake_index [OF assms]] show "x = unsnake n i"
      by (simp add: prod_eq_iff)
  qed
next
  show "\<bar>fst (unsnake n (i + 1)) - fst (unsnake n i)\<bar>
          + \<bar>snd (unsnake n (i + 1)) - snd (unsnake n i)\<bar> = 1"
    using next_row [OF assms]
  proof
    assume "(i + 1) div n = i div n \<and> (i + 1) mod n = i mod n + 1"
    then show ?thesis by (simp add: unsnake_def)
  next
    assume h: "(i + 1) div n = i div n + 1 \<and> (i + 1) mod n = 0 \<and> i mod n = n - 1"
    have "(q + 1) mod 2 = 0 \<longleftrightarrow> \<not> q mod 2 = 0" for q :: int by presburger
    with h show ?thesis by (simp add: unsnake_def)
  qed
qed

theorem snake_is_a_walk_witness:
  "\<exists>!(r, c). snake_index r c 3 = Inr 4"
  using snake_is_a_walk [of 3 4] by simp

section \<open>What an order keeps\<close>

lemma keyed_Inr:
  "keyed cols snap ps = Inr ks \<Longrightarrow>
     map snd ks = ps \<and> (\<forall>(k, p) \<in> set ks. panel_key_of cols snap p = Inr k)"
  by (induction ps arbitrary: ks) (auto split: sum.splits)

lemma keyed_map:
  "keyed cols snap ps = Inr ks \<Longrightarrow>
     ks = map (\<lambda>p. (case panel_key_of cols snap p of Inr k \<Rightarrow> k, p)) ps"
  by (induction ps arbitrary: ks) (auto split: sum.splits)

lemma keyed_returns:
  "returns (keyed cols snap ps) \<longleftrightarrow> (\<forall>p \<in> set ps. returns (panel_key_of cols snap p))"
  by (induction ps) (auto split: sum.splits)

lemma panel_key_snake:
  "panel_key_of cols snap p = Inr k \<Longrightarrow> panel_snake cols p = Inr (k_snake k)"
  by (auto simp: panel_key_of_def split: sum.splits)

lemma mset_sort_keyed: "mset (sort_keyed policy l ks) = mset ks"
  by (simp add: sort_keyed_def)

lemma sort_key_mset_unique:
  assumes "mset xs = mset ys" and "inj_on f (set xs)"
  shows "sort_key f xs = sort_key f ys"
proof (rule properties_for_sort_key [symmetric])
  show "mset (sort_key f xs) = mset ys" using assms(1) by simp
  show "sorted (map f (sort_key f xs))" by simp
  fix k assume k: "k \<in> set (sort_key f xs)"
  have rep: "filter (\<lambda>x. f k = f x) zs = replicate (count (mset zs) k) k" if "set zs = set xs" for zs
  proof -
    have "filter (\<lambda>x. f k = f x) zs = filter (\<lambda>x. k = x) zs"
      using k that assms(2) by (intro filter_cong) (auto dest: inj_onD)
    then show ?thesis by (simp add: replicate_count_mset_eq_filter_eq)
  qed
  have "filter (\<lambda>x. f k = f x) (sort_key f xs) = replicate (count (mset (sort_key f xs)) k) k"
    by (rule rep) simp
  moreover have "filter (\<lambda>x. f k = f x) ys = replicate (count (mset ys) k) k"
    using assms(1) by (intro rep) (metis mset_eq_setD)
  ultimately show "filter (\<lambda>x. f k = f x) (sort_key f xs) = filter (\<lambda>x. f k = f x) ys"
    using assms(1) by simp
qed

text \<open>Every key ends in the snake index, so distinct indices make any policy's order total.\<close>

lemma inj_on_snake_key:
  assumes "inj_on (k_snake \<circ> fst) A" and "\<And>k k'. f k = f k' \<Longrightarrow> k_snake k = k_snake k'"
  shows "inj_on (\<lambda>(k, p). f k) A"
proof (rule inj_onI)
  fix x y assume "x \<in> A" "y \<in> A" and "(\<lambda>(k, p). f k) x = (\<lambda>(k, p). f k) y"
  then have "f (fst x) = f (fst y)" by (simp only: case_prod_beta)
  then have "(k_snake \<circ> fst) x = (k_snake \<circ> fst) y" unfolding comp_apply by (rule assms(2))
  from inj_onD [OF assms(1) this \<open>x \<in> A\<close> \<open>y \<in> A\<close>] show "x = y" .
qed

lemma sort_keyed_unique:
  assumes "mset ks = mset ks'" and "inj_on (k_snake \<circ> fst) (set ks)"
  shows "sort_keyed policy l ks = sort_keyed policy l ks'"
proof -
  have "sort_key (\<lambda>(k, p). lc_key k) ks = sort_key (\<lambda>(k, p). lc_key k) ks'"
    by (rule sort_key_mset_unique [OF assms(1) inj_on_snake_key [OF assms(2)]]) (simp add: lc_key_def)
  moreover have "sort_key (\<lambda>(k, p). sf_key k) ks = sort_key (\<lambda>(k, p). sf_key k) ks'"
    by (rule sort_key_mset_unique [OF assms(1) inj_on_snake_key [OF assms(2)]]) (simp add: sf_key_def)
  moreover have "sort_key (\<lambda>(k, p). grid_key l k) ks = sort_key (\<lambda>(k, p). grid_key l k) ks'"
    by (rule sort_key_mset_unique [OF assms(1) inj_on_snake_key [OF assms(2)]]) (simp add: grid_key_def)
  ultimately show ?thesis by (simp only: sort_keyed_def)
qed

lemma order_panels_Inr:
  "order_panels ps cols policy so = Inr out \<longleftrightarrow>
     (\<exists>l ks. policy \<in> set POLICIES \<and>
        last_index cols (case so of Some s \<Rightarrow> s | None \<Rightarrow> empty_snapshot) = Inr l \<and>
        keyed cols (case so of Some s \<Rightarrow> s | None \<Rightarrow> empty_snapshot) ps = Inr ks \<and>
        out = map snd (sort_keyed policy l ks))"
  by (auto simp: order_panels_def Let_def split: sum.splits)

text \<open>A policy only reorders: whatever the snapshot says, the order holds every panel passed in
  exactly as often as it was passed, and nothing else; no panel is dropped or starved by it.\<close>

theorem order_is_permutation:
  assumes "order_panels ps cols policy so = Inr out"
  shows "mset out = mset ps"
proof -
  from assms obtain l ks s where "keyed cols s ps = Inr ks" "out = map snd (sort_keyed policy l ks)"
    by (auto simp: order_panels_Inr)
  then have "mset out = image_mset snd (mset ks)" and "map snd ks = ps"
    using keyed_Inr by (auto simp: mset_sort_keyed)
  then show ?thesis by (metis mset_map)
qed

definition grid32 :: "panel list" where
  "grid32 = [\<lparr>pan_id = ''f'', panel_row = Some 1, panel_col = Some 0\<rparr>,
     \<lparr>pan_id = ''a'', panel_row = Some 0, panel_col = Some 0\<rparr>,
     \<lparr>pan_id = ''d'', panel_row = Some 1, panel_col = Some 2\<rparr>,
     \<lparr>pan_id = ''c'', panel_row = Some 0, panel_col = Some 2\<rparr>,
     \<lparr>pan_id = ''b'', panel_row = Some 0, panel_col = Some 1\<rparr>,
     \<lparr>pan_id = ''e'', panel_row = Some 1, panel_col = Some 1\<rparr>]"

lemmas order_eval = order_panels_def POLICIES_def last_index_def empty_snapshot_def grid32_def
  panel_key_of_def panel_snake_def snake_index_def finite_arg_def number_opt_def sort_keyed_def
  lc_key_def sf_key_def grid_key_def sort_key_def less_eq_prod_def

lemma grid32_runs_snake:
  "order_panels grid32 3 ''least_complete'' None = Inr
     (map (\<lambda>(i, r, c). \<lparr>pan_id = i, panel_row = Some r, panel_col = Some c\<rparr>)
       [(''a'', 0, 0), (''b'', 0, 1), (''c'', 0, 2), (''d'', 1, 2), (''e'', 1, 1), (''f'', 1, 0)])"
  by (simp add: order_eval)

theorem order_is_permutation_witness:
  "\<exists>out. order_panels grid32 3 ''least_complete'' None = Inr out \<and> mset out = mset grid32"
  using order_is_permutation [OF grid32_runs_snake] grid32_runs_snake by blast

text \<open>The order does not depend on who lists the panels: two callers that pass the same panels
  of a grid in different orders, each panel at its own position, get the same order.\<close>

theorem order_ignores_listing:
  assumes "mset ps = mset qs"
    and "inj_on (\<lambda>p. (panel_row p, panel_col p)) (set ps)"
  shows "order_panels ps cols policy so = order_panels qs cols policy so"
proof -
  let ?s = "case so of Some s \<Rightarrow> s | None \<Rightarrow> empty_snapshot"
  have sets: "set ps = set qs" using assms(1) by (rule mset_eq_setD)
  show ?thesis
  proof (cases "\<exists>l ks. last_index cols ?s = Inr l \<and> keyed cols ?s ps = Inr ks")
    case False
    moreover have "returns (keyed cols ?s ps) = returns (keyed cols ?s qs)"
      by (simp add: keyed_returns sets)
    moreover have ve: "keyed cols s xs = Inl e \<Longrightarrow> e = ValueError" for s xs e
      by (induction xs) (auto simp: panel_key_of_def panel_snake_def snake_index_def finite_arg_def
          number_opt_def split: sum.splits option.splits if_splits pyfloat.splits)
    ultimately show ?thesis
      by (cases "keyed cols ?s ps"; cases "keyed cols ?s qs"; cases "last_index cols ?s")
        (auto simp: order_panels_def dest!: ve)
  next
    case True
    then obtain l ks where l: "last_index cols ?s = Inr l" and ks: "keyed cols ?s ps = Inr ks" by blast
    have "returns (keyed cols ?s qs)" using ks keyed_returns [of cols ?s ps]
      by (simp add: keyed_returns sets)
    then obtain ks' where ks': "keyed cols ?s qs = Inr ks'" by (rule returnsE)
    have "mset ks = mset ks'"
      by (subst keyed_map [OF ks], subst keyed_map [OF ks']) (simp add: assms(1))
    moreover have "inj_on (k_snake \<circ> fst) (set ks)"
    proof (rule inj_onI)
      fix x y assume in1: "x \<in> set ks" and in2: "y \<in> set ks"
        and eq: "(k_snake \<circ> fst) x = (k_snake \<circ> fst) y"
      have kp: "panel_key_of cols ?s (snd x) = Inr (fst x)" "panel_key_of cols ?s (snd y) = Inr (fst y)"
        and mem: "snd x \<in> set ps" "snd y \<in> set ps"
        using keyed_Inr [OF ks] in1 in2 by force+
      from eq panel_key_snake [OF kp(1)] panel_key_snake [OF kp(2)]
      have "panel_snake cols (snd x) = panel_snake cols (snd y)"
        and "returns (panel_snake cols (snd x))" by simp_all
      then have "(panel_row (snd x), panel_col (snd x)) = (panel_row (snd y), panel_col (snd y))"
        by (auto simp: panel_snake_def elim!: returnsE split: option.splits
            dest: snake_index_injective)
      with assms(2) mem have "snd x = snd y" by (auto dest: inj_onD)
      with kp show "x = y" by (simp add: prod_eq_iff)
    qed
    ultimately have "sort_keyed policy l ks = sort_keyed policy l ks'" by (rule sort_keyed_unique)
    with l ks ks' show ?thesis by (auto simp: order_panels_def Let_def)
  qed
qed

theorem order_ignores_listing_witness:
  "order_panels grid32 3 ''grid'' None = order_panels (rev grid32) 3 ''grid'' None"
  by (rule order_ignores_listing) (simp_all add: grid32_def inj_on_def)

lemma sorted_flag_split:
  fixes xs :: "'a::linorder list"
  assumes "sorted (map (\<lambda>i. (\<not> P i, i)) xs)"
  shows "xs = filter P xs @ filter (\<lambda>i. \<not> P i) xs \<and> sorted (filter P xs) \<and>
         sorted (filter (\<lambda>i. \<not> P i) xs)"
  using assms
proof (induction xs)
  case (Cons x xs)
  then have eq: "xs = filter P xs @ filter (\<lambda>i. \<not> P i) xs"
    and so: "sorted (filter P xs)" "sorted (filter (\<lambda>i. \<not> P i) xs)" by auto
  have ge: "\<forall>y \<in> set xs. (\<not> P x, x) \<le> (\<not> P y, y)" using Cons.prems by auto
  show ?case
  proof (cases "P x")
    case True
    have "x # xs = filter P (x # xs) @ filter (\<lambda>i. \<not> P i) (x # xs)"
      using True eq by (simp only: filter.simps if_True if_False not_True_eq_False append_Cons)
    with True ge so show ?thesis by (auto simp: less_eq_prod_def)
  next
    case False
    with ge have no: "\<forall>y \<in> set xs. \<not> P y" by (auto simp: less_eq_prod_def)
    then have "filter P xs = []" and "filter (\<lambda>i. \<not> P i) xs = xs"
      by (simp_all add: filter_empty_conv filter_id_conv)
    with False ge so no show ?thesis by (auto simp: less_eq_prod_def)
  qed
qed simp

text \<open>\<open>grid\<close> resumes the walk: the order is the panels after the last visited place along the
  snake, in snake order, then the ones up to it, in snake order (all of them in snake order when
  nothing was visited).\<close>

theorem grid_resumes_after_last:
  assumes "order_panels ps cols ''grid'' so = Inr out"
    and "last_index cols (case so of Some s \<Rightarrow> s | None \<Rightarrow> empty_snapshot) = Inr l"
  shows "\<exists>is. map (panel_snake cols) out = map Inr is \<and>
    (let later = (\<lambda>i. case l of None \<Rightarrow> True | Some j \<Rightarrow> j < i) in
     is = filter later is @ filter (\<lambda>i. \<not> later i) is \<and>
     sorted (filter later is) \<and> sorted (filter (\<lambda>i. \<not> later i) is))"
proof -
  let ?later = "\<lambda>i. case l of None \<Rightarrow> True | Some j \<Rightarrow> j < i"
  let ?s = "case so of Some s \<Rightarrow> s | None \<Rightarrow> empty_snapshot"
  from assms obtain ks where ks: "keyed cols ?s ps = Inr ks"
    and out: "out = map snd (sort_keyed ''grid'' l ks)"
    by (auto simp: order_panels_Inr)
  let ?sk = "sort_key (\<lambda>(k, p). grid_key l k) ks"
  let ?is = "map (k_snake \<circ> fst) ?sk"
  have sk: "sort_keyed ''grid'' l ks = ?sk" by (simp add: sort_keyed_def)
  have "map (panel_snake cols) out = map Inr ?is"
    unfolding out sk using keyed_Inr [OF ks] by (auto simp: dest!: panel_key_snake)
  moreover have "sorted (map (\<lambda>i. (\<not> ?later i, i)) ?is)"
  proof -
    have "sorted (map (\<lambda>(k, p). grid_key l k) ?sk)" by simp
    moreover have "map (\<lambda>(k, p). grid_key l k) ?sk = map (\<lambda>i. (\<not> ?later i, i)) ?is"
      by (auto simp: grid_key_def split: option.splits)
    ultimately show ?thesis by simp
  qed
  ultimately show ?thesis
    using sorted_flag_split [of ?later ?is] unfolding Let_def by blast
qed

definition resumed_snapshot :: order_snapshot where
  "resumed_snapshot = empty_snapshot\<lparr>last_visited := Some (0, 2)\<rparr>"

theorem grid_resumes_after_last_witness:
  "\<exists>out. order_panels grid32 3 ''grid'' (Some resumed_snapshot) = Inr out \<and>
     map pan_id out = [''d'', ''e'', ''f'', ''a'', ''b'', ''c''] \<and>
     (\<exists>is. map (panel_snake 3) out = map Inr is)"
proof -
  have ev: "order_panels grid32 3 ''grid'' (Some resumed_snapshot) = Inr
     (map (\<lambda>(i, r, c). \<lparr>pan_id = i, panel_row = Some r, panel_col = Some c\<rparr>)
       [(''d'', 1, 2), (''e'', 1, 1), (''f'', 1, 0), (''a'', 0, 0), (''b'', 0, 1), (''c'', 0, 2)])"
    by (simp add: resumed_snapshot_def order_eval)
  have "last_index 3 (case Some resumed_snapshot of Some s \<Rightarrow> s | None \<Rightarrow> empty_snapshot) = Inr (Some 2)"
    by (simp add: resumed_snapshot_def order_eval)
  then have "\<exists>is. map (panel_snake 3) (map (\<lambda>(i, r, c). \<lparr>pan_id = i, panel_row = Some r, panel_col = Some c\<rparr>)
       [(''d'', 1, 2), (''e'', 1, 1), (''f'', 1, 0), (''a'', 0, 0), (''b'', 0, 1), (''c'', 0, 2)]) = map Inr is"
    using grid_resumes_after_last [OF ev] by blast
  with ev show ?thesis by simp
qed

text \<open>\<open>least_complete\<close> is fair: a panel comes before another only if it has no more banked, and
  between two with as much banked, only if it was never visited or was visited no later.\<close>

theorem least_complete_first:
  assumes "order_panels ps cols ''least_complete'' (Some s) = Inr out"
    and "i < j" and "j < length out"
    and "panel_key_of cols s (out ! i) = Inr a" and "panel_key_of cols s (out ! j) = Inr b"
  shows "k_fraction a \<le> k_fraction b \<and>
    (k_fraction a = k_fraction b \<longrightarrow> (case k_visited b of
       None \<Rightarrow> k_visited a = None
     | Some tb \<Rightarrow> (case k_visited a of None \<Rightarrow> True | Some ta \<Rightarrow> ta \<le> tb)))"
proof -
  from assms(1) obtain l ks where ks: "keyed cols s ps = Inr ks"
    and out: "out = map snd (sort_key (\<lambda>(k, p). lc_key k) ks)"
    by (auto simp: order_panels_Inr sort_keyed_def)
  let ?sk = "sort_key (\<lambda>(k, p). lc_key k) ks"
  have len: "j < length ?sk" using assms(3) out by simp
  have "sorted (map (\<lambda>(k, p). lc_key k) ?sk)" by simp
  from sorted_nth_mono [OF this, of i j] assms(2) len
  have le: "lc_key (fst (?sk ! i)) \<le> lc_key (fst (?sk ! j))" by (simp add: case_prod_beta)
  have "x \<in> set ?sk \<Longrightarrow> panel_key_of cols s (snd x) = Inr (fst x)" for x
    using keyed_Inr [OF ks] by auto
  from this [OF nth_mem] assms(2,4,5) len out have "fst (?sk ! i) = a" "fst (?sk ! j) = b" by auto
  with le show ?thesis
    by (auto simp: lc_key_def less_eq_prod_def split: option.splits)
qed

theorem least_complete_first_witness:
  "k_fraction \<lparr>k_snake = 0, k_fraction = 0, k_visited = None, k_floor = None\<rparr>
     \<le> k_fraction \<lparr>k_snake = 5, k_fraction = 0, k_visited = None, k_floor = None\<rparr>"
proof -
  have "order_panels grid32 3 ''least_complete'' (Some empty_snapshot) = Inr
     (map (\<lambda>(i, r, c). \<lparr>pan_id = i, panel_row = Some r, panel_col = Some c\<rparr>)
       [(''a'', 0, 0), (''b'', 0, 1), (''c'', 0, 2), (''d'', 1, 2), (''e'', 1, 1), (''f'', 1, 0)])"
    by (simp add: order_eval)
  from least_complete_first [OF this, of 0 5] show ?thesis
    by (simp add: order_eval)
qed

end
