(* ===== verification/Policy.thy ===== *)
theory Policy
  imports Prelude
begin

text \<open>
  The rig's standards against one night's plan, \<open>server/astrodeck/sequence/policy.py\<close>:
  \<open>resolve_policy\<close> takes each of the twelve settings from the plan where the plan has one and from
  the rig's config otherwise, and records which layer won; the eccentricity gate and the pixel
  lower bound of the guide RMS read the result. A setting's value is a \<open>pval\<close>; the plan is its
  fields, each possibly absent; a config is its blocks of fields. The config used where the caller
  has none (\<open>AppConfig()\<close>) is written out from \<open>config.py\<close>.
\<close>

datatype pval = PFloat rat | PInt int | PBool bool

type_synonym plan_fields = "string \<Rightarrow> pval option"
type_synonym app_config = "string \<Rightarrow> string \<Rightarrow> pval"

definition MOVED_FIELDS :: "string list" where
  "MOVED_FIELDS = [''dither_pixels'', ''recover_guiding'', ''cool_timeout_s'',
     ''hfr_reject_factor'', ''meridian_flip_warn_min'', ''apply_filter_offsets'',
     ''refocus_on_temp_delta_c'', ''min_stars'', ''max_guide_rms'', ''max_eccentricity'',
     ''max_consecutive_rejects'', ''max_consecutive_rejects_night'']"

definition rig_block :: "string \<Rightarrow> string" where
  "rig_block f =
     (if f \<in> {''dither_pixels'', ''recover_guiding''} then ''guide''
      else if f = ''cool_timeout_s'' then ''cooling''
      else if f = ''hfr_reject_factor'' then ''escalation''
      else if f = ''meridian_flip_warn_min'' then ''safety''
      else ''standards'')"

definition default_config :: "rat \<Rightarrow> rat \<Rightarrow> app_config" where
  "default_config DEFAULT_MAX_GUIDE_RMS DEFAULT_MAX_ECCENTRICITY b f =
     (if f = ''dither_pixels'' then PFloat 3
      else if f = ''recover_guiding'' then PBool True
      else if f = ''cool_timeout_s'' then PInt 600
      else if f = ''hfr_reject_factor'' then PFloat 0
      else if f = ''meridian_flip_warn_min'' then PFloat 15
      else if f = ''apply_filter_offsets'' then PBool True
      else if f = ''refocus_on_temp_delta_c'' then PFloat 0
      else if f = ''min_stars'' then PInt 0
      else if f = ''max_guide_rms'' then PFloat DEFAULT_MAX_GUIDE_RMS
      else if f = ''max_eccentricity'' then PFloat DEFAULT_MAX_ECCENTRICITY
      else if f = ''max_consecutive_rejects'' then PInt 10
      else PInt 20)"

datatype layer = Plan_Layer | Rig_Layer

record run_policy =
  pol_values :: "string \<rightharpoonup> pval"
  pol_sources :: "string \<rightharpoonup> layer"

fun resolve_fields :: "plan_fields \<Rightarrow> app_config \<Rightarrow> string list \<Rightarrow> run_policy \<Rightarrow> run_policy" where
  "resolve_fields plan cfg [] pol = pol"
| "resolve_fields plan cfg (f # fs) pol = (case plan f of
     None \<Rightarrow> resolve_fields plan cfg fs
       \<lparr>pol_values = (pol_values pol)(f \<mapsto> cfg (rig_block f) f),
        pol_sources = (pol_sources pol)(f \<mapsto> Rig_Layer)\<rparr>
   | Some mine \<Rightarrow> resolve_fields plan cfg fs
       \<lparr>pol_values = (pol_values pol)(f \<mapsto> mine),
        pol_sources = (pol_sources pol)(f \<mapsto> Plan_Layer)\<rparr>)"

definition resolve_policy :: "app_config \<Rightarrow> plan_fields \<Rightarrow> app_config option \<Rightarrow> run_policy" where
  "resolve_policy dflt plan cfg =
     resolve_fields plan (case cfg of None \<Rightarrow> dflt | Some c \<Rightarrow> c) MOVED_FIELDS
       \<lparr>pol_values = Map.empty, pol_sources = Map.empty\<rparr>"

definition as_record :: "run_policy \<Rightarrow> (string \<times> pval option \<times> layer) list" where
  "as_record pol =
     map (\<lambda>f. (f, pol_values pol f, dget (pol_sources pol) f Rig_Layer)) MOVED_FIELDS"

section \<open>The frame gates\<close>

definition ECC_ELONGATED_FRACTION :: rat where
  "ECC_ELONGATED_FRACTION = 1 / 4"

definition ECC_ELONGATED_MARGIN :: rat where
  "ECC_ELONGATED_MARGIN = 15 / 100"

definition ECC_MIN_MARKS_FOR_FRACTION :: nat where
  "ECC_MIN_MARKS_FOR_FRACTION = 8"

definition MIN_GUIDE_SCALE_ARCSEC_PX :: rat where
  "MIN_GUIDE_SCALE_ARCSEC_PX = 1 / 10"

text \<open>What the grader left on a frame: the median, and the marks, each with its own eccentricity or
  none. A \<open>star_list\<close> that is no list is \<open>None\<close>.\<close>

record frame_info =
  fi_ecc :: "pyfloat option"
  fi_star_list :: "pyfloat option list option"

definition ecc_marks :: "frame_info \<Rightarrow> pyfloat list" where
  "ecc_marks info = (case fi_star_list info of None \<Rightarrow> [] | Some ms \<Rightarrow> List.map_filter id ms)"

definition elongated_share :: "rat \<Rightarrow> pyfloat list \<Rightarrow> rat" where
  "elongated_share bound eccs = (if eccs = [] then 0
     else of_nat (length (filter (\<lambda>e. flt_less (Fin bound) e) eccs)) / of_nat (length eccs))"

definition percent :: "rat \<Rightarrow> string" where
  "percent x = fmt_fixed 0 (x * 100) @ ''%''"

definition eccentricity_reject_reason :: "rat \<Rightarrow> frame_info option \<Rightarrow> rat option \<Rightarrow> string option" where
  "eccentricity_reject_reason max_ecc info guide_rms =
     (if max_ecc \<le> 0 then None
      else case info of None \<Rightarrow> None
      | Some info \<Rightarrow>
        let ceiling = max_ecc; elongated = ceiling + ECC_ELONGATED_MARGIN;
            eccs = ecc_marks info; n = length eccs; frac = elongated_share elongated eccs;
            tail = (if n \<ge> ECC_MIN_MARKS_FOR_FRACTION
              then '', '' @ percent frac @ '' of '' @ nat_str n @ '' stars above ''
                   @ fmt_fixed 2 elongated else []);
            rms_tail = (case guide_rms of None \<Rightarrow> []
              | Some g \<Rightarrow> ''; guide RMS '' @ fmt_fixed 1 g @ [CHR 0x22]);
            ecc = fi_ecc info in
        if (case ecc of None \<Rightarrow> False | Some e \<Rightarrow> flt_less (Fin ceiling) e)
        then Some (''frame eccentricity median ''
               @ (case ecc of None \<Rightarrow> [] | Some e \<Rightarrow> fmt_float 2 e) @ '' above ceiling ''
               @ fmt_fixed 2 ceiling @ tail @ '' - defocus or trailing'' @ rms_tail)
        else if n \<ge> ECC_MIN_MARKS_FOR_FRACTION \<and> ECC_ELONGATED_FRACTION < frac
        then Some (''frame eccentricity '' @ percent frac @ '' of '' @ nat_str n @ '' stars above ''
               @ fmt_fixed 2 elongated @ '' (limit '' @ percent ECC_ELONGATED_FRACTION @ ''), ''
               @ (case ecc of Some e \<Rightarrow> ''median '' @ fmt_float 2 e @ '' under the ''
                                         @ fmt_fixed 2 ceiling @ '' ceiling''
                  | None \<Rightarrow> ''median under the '' @ fmt_fixed 2 ceiling @ '' ceiling'')
               @ '' - defocus or trailing'' @ rms_tail)
        else None)"

text \<open>A guider's statistics: the flag, the scale (\<open>0.0\<close> for none) and the pixel RMS.\<close>

record guide_stats =
  gs_is_arcsec :: bool
  gs_image_scale :: "pyfloat option"
  gs_rms_total :: "pyfloat option"

definition guide_rms_floor_arcsec :: "guide_stats option \<Rightarrow> pyfloat option" where
  "guide_rms_floor_arcsec stats = (case stats of None \<Rightarrow> None
     | Some st \<Rightarrow> if gs_is_arcsec st then None
         else (let scale = (case gs_image_scale st of None \<Rightarrow> Fin 0 | Some x \<Rightarrow> x) in
           case gs_rms_total st of None \<Rightarrow> None
           | Some px \<Rightarrow> if flt_less (Fin 0) scale \<or> px = NaN \<or> flt_less px (Fin 0) then None
               else Some (case px of Fin a \<Rightarrow> Fin (a * MIN_GUIDE_SCALE_ARCSEC_PX) | _ \<Rightarrow> PInf)))"

section \<open>Properties\<close>

lemma resolve_fields_other:
  "f \<notin> set fs \<Longrightarrow> pol_values (resolve_fields plan cfg fs pol) f = pol_values pol f \<and>
     pol_sources (resolve_fields plan cfg fs pol) f = pol_sources pol f"
  by (induction fs arbitrary: pol) (auto split: option.splits)

lemma resolve_fields_in:
  "f \<in> set fs \<Longrightarrow> distinct fs \<Longrightarrow>
     pol_values (resolve_fields plan cfg fs pol) f =
       Some (case plan f of Some v \<Rightarrow> v | None \<Rightarrow> cfg (rig_block f) f) \<and>
     pol_sources (resolve_fields plan cfg fs pol) f =
       Some (case plan f of Some _ \<Rightarrow> Plan_Layer | None \<Rightarrow> Rig_Layer)"
proof (induction fs arbitrary: pol)
  case (Cons g gs)
  show ?case
  proof (cases "g = f")
    case True
    with Cons.prems have "f \<notin> set gs" by simp
    with True resolve_fields_other [OF this] show ?thesis by (auto split: option.splits)
  next
    case False
    with Cons show ?thesis by (auto split: option.splits)
  qed
qed simp

lemma distinct_MOVED_FIELDS: "distinct MOVED_FIELDS"
  by (simp add: MOVED_FIELDS_def)

text \<open>Absence is the only inheritance: every one of the twelve settings is resolved, to the
  plan's own value wherever the plan has one, an explicit 0 or False included, and to the rig's
  block otherwise; the record for the report says which layer it was.\<close>

theorem resolution_is_layered:
  assumes "f \<in> set MOVED_FIELDS"
  shows "pol_values (resolve_policy dflt plan cfg) f = Some (case plan f of Some v \<Rightarrow> v
           | None \<Rightarrow> (case cfg of Some c \<Rightarrow> c | None \<Rightarrow> dflt) (rig_block f) f) \<and>
         (f, pol_values (resolve_policy dflt plan cfg) f,
            if plan f = None then Rig_Layer else Plan_Layer)
           \<in> set (as_record (resolve_policy dflt plan cfg))"
proof -
  let ?c = "case cfg of Some c \<Rightarrow> c | None \<Rightarrow> dflt"
  have "(case cfg of None \<Rightarrow> dflt | Some c \<Rightarrow> c) = ?c" by (cases cfg) auto
  with resolve_fields_in [OF assms distinct_MOVED_FIELDS]
  have r: "pol_values (resolve_policy dflt plan cfg) f =
         Some (case plan f of Some v \<Rightarrow> v | None \<Rightarrow> ?c (rig_block f) f)"
       "pol_sources (resolve_policy dflt plan cfg) f =
         Some (case plan f of Some _ \<Rightarrow> Plan_Layer | None \<Rightarrow> Rig_Layer)"
    by (auto simp: resolve_policy_def)
  from r(2) have "dget (pol_sources (resolve_policy dflt plan cfg)) f Rig_Layer
      = (if plan f = None then Rig_Layer else Plan_Layer)"
    by (simp add: dget_def split: option.splits)
  with r(1) assms show ?thesis by (auto simp: as_record_def)
qed

theorem resolution_is_layered_witness:
  "pol_values (resolve_policy (default_config 5 (65 / 100))
      (\<lambda>f. if f = ''min_stars'' then Some (PInt 0) else None)
      (Some (\<lambda>b f. PInt 40))) ''min_stars'' = Some (PInt 0)"
  using resolution_is_layered [of "''min_stars''" "default_config 5 (65 / 100)"
      "\<lambda>f. if f = ''min_stars'' then Some (PInt 0) else None" "Some (\<lambda>b f. PInt 40)"]
  by (simp add: MOVED_FIELDS_def)

text \<open>One dial drives both eccentricity rules: a frame is rejected exactly when the dial is on
  and the median exceeds it, or at least eight marks carry an eccentricity and more than a quarter
  of them exceed the dial by the margin; a dial of 0 disarms both.\<close>

theorem eccentricity_gate_iff:
  "eccentricity_reject_reason m (Some info) g \<noteq> None \<longleftrightarrow>
     0 < m \<and> ((\<exists>e. fi_ecc info = Some e \<and> flt_less (Fin m) e) \<or>
       (8 \<le> length (ecc_marks info) \<and>
        length (ecc_marks info) < 4 * length (filter (\<lambda>e. flt_less (Fin (m + 15 / 100)) e) (ecc_marks info))))"
proof -
  let ?es = "ecc_marks info"
  let ?k = "length (filter (\<lambda>e. flt_less (Fin (m + 15 / 100)) e) ?es)"
  have frac: "8 \<le> length ?es \<Longrightarrow> (1 / 4 < elongated_share (m + 15 / 100) ?es) = (length ?es < 4 * ?k)"
  proof -
    assume len: "8 \<le> length ?es"
    then have "(1 / 4 < elongated_share (m + 15 / 100) ?es)
        = ((of_nat (length ?es) :: rat) < of_nat (4 * ?k))"
      by (auto simp: elongated_share_def field_simps)
    then show ?thesis by (simp only: of_nat_less_iff)
  qed
  show ?thesis
    using frac
    by (auto simp: eccentricity_reject_reason_def Let_def ECC_ELONGATED_MARGIN_def
        ECC_ELONGATED_FRACTION_def ECC_MIN_MARKS_FOR_FRACTION_def split: option.splits)
qed

text \<open>The pixel bound never rejects wrongly: for any true image scale at least the smallest a
  guide train has, the arcsecond floor the code computes from a finite pixel RMS is at most the
  true arcsecond RMS, so a frame over the ceiling by the floor is over it in truth.\<close>

lemma guide_floor_is_lower_bound:
  assumes "guide_rms_floor_arcsec (Some st) = Some (Fin fl)" and "gs_rms_total st = Some (Fin px)"
    and "MIN_GUIDE_SCALE_ARCSEC_PX \<le> true_scale"
  shows "0 \<le> fl \<and> fl \<le> px * true_scale"
proof -
  from assms(1,2) have "0 \<le> px" and "fl = px * MIN_GUIDE_SCALE_ARCSEC_PX"
    by (auto simp: guide_rms_floor_arcsec_def Let_def split: if_splits)
  with mult_left_mono [OF assms(3) \<open>0 \<le> px\<close>] show ?thesis
    by (simp add: MIN_GUIDE_SCALE_ARCSEC_PX_def)
qed

end
