(* ===== verification/Group_Props.thy ===== *)
theory Group_Props
  imports Group_Rules
begin

text \<open>
  What the group driver of \<open>Group_Rules\<close> promises. The engine's calls are the events of a machine
  (\<open>group_event\<close>); a call that raises leaves the state as it was. The invariant \<open>group_ok\<close> is kept by
  every operation, hence by every sequence of calls, and the properties of the pass rules, the
  strikes, the held passes and the set-asides rest on it.
\<close>

section \<open>The invariant\<close>

text \<open>Who is a member, complete, set aside: a panel is never both complete and set aside, and every
  set-aside has a reason and a kind.\<close>

definition members_ok :: "group_run \<Rightarrow> bool" where
  "members_ok g = (distinct (ids g) \<and> members g \<noteq> [] \<and> 0 < max_failed_visits g \<and>
     dom (set_aside_kind g) = dom (set_aside g) \<and> dom (set_aside g) \<subseteq> set (ids g) \<and>
     completed g \<subseteq> set (ids g) \<and> completed g \<inter> dom (set_aside g) = {} \<and>
     visited g \<subseteq> set (ids g) \<and> let_through g \<subseteq> set (ids g) \<and> expired g \<subseteq> set (ids g))"

text \<open>The strikes: a live panel is below both bounds, and the kinds of its streak are no more than
  its strikes.\<close>

definition strikes_ok :: "group_run \<Rightarrow> bool" where
  "strikes_ok g = (0 < max_failed_visits g \<and>
     (\<forall>p. is_live g p \<longrightarrow> failed g p < max_failed_visits g \<and> reject_visits g p < max_failed_visits g) \<and>
     (\<forall>p. finite (streak_kinds g p) \<and> card (streak_kinds g p) \<le> failed g p))"

text \<open>The ledgers of the pass: a failed attempt is an attempt, and what is held was deferred in this
  pass. The streak of held passes is below its bound.\<close>

definition pass_ok :: "group_run \<Rightarrow> bool" where
  "pass_ok g = (finite (centring_attempted g) \<and> centring_failed g \<subseteq> centring_attempted g \<and>
     centring_attempted g \<subseteq> set (ids g) \<and> guide_failures g \<le> guide_attempts g \<and>
     length (held_guide g) + length (held_centring g) + length (held_transient g)
       \<le> deferred_this_pass g \<and>
     fst ` set (held_guide g @ held_centring g @ held_transient g) \<subseteq> set (ids g) \<and>
     held_streak g < HELD_PASS_SET_ASIDE_AT \<and> (\<forall>p. starved_nights g p \<noteq> Some 0))"

text \<open>The visits are numbered from 1 in their order, and an accept is at a visit of its panel.\<close>

definition seq_ok :: "group_run \<Rightarrow> bool" where
  "seq_ok g = ((\<forall>p n. last_visit g p = Some n \<longrightarrow> 0 < n \<and> n \<le> visit_seq g) \<and>
     inj_on (last_visit g) (dom (last_visit g)) \<and>
     (\<forall>p. dget (last_accept g) p 0 \<le> dget (last_visit g) p 0))"

definition group_ok :: "group_run \<Rightarrow> bool" where
  "group_ok g = (members_ok g \<and> strikes_ok g \<and> pass_ok g \<and> seq_ok g)"

lemmas ok_defs = members_ok_def strikes_ok_def pass_ok_def seq_ok_def

lemma live_ids: "is_live g p \<Longrightarrow> p \<in> set (ids g)"
  by (simp add: is_live_def)

lemma set_live [simp]: "set (live g) = {p. is_live g p}"
  by (auto simp: live_def is_live_def)

lemma check_live_Inr [simp]: "check_live g p = Inr u \<longleftrightarrow> is_live g p"
  by (auto simp: check_live_def is_live_def)

lemma check_live_live: "is_live g p \<Longrightarrow> check_live g p = Inr ()"
  by simp

lemma check_live_Inl: "\<not> is_live g p \<Longrightarrow> check_live g p = Inl ValueError"
  by (simp add: check_live_def)

text \<open>What an update of another field leaves: the members, and who is live.\<close>

lemma ids_update [simp]:
  "ids (max_failed_visits_update x1 g) = ids g" "ids (pass_no_update x2 g) = ids g"
  "ids (visited_update x3 g) = ids g" "ids (exposures_this_pass_update x4 g) = ids g"
  "ids (deferred_this_pass_update x5 g) = ids g" "ids (failed_update x6 g) = ids g"
  "ids (reject_visits_update x7 g) = ids g" "ids (set_aside_update x8 g) = ids g"
  "ids (completed_update x9 g) = ids g" "ids (flipped_update x10 g) = ids g"
  "ids (acquired_update x11 g) = ids g" "ids (angle_verified_update x12 g) = ids g"
  "ids (defer_until_update x13 g) = ids g" "ids (defer_why_update x14 g) = ids g"
  "ids (let_through_update x15 g) = ids g" "ids (set_aside_kind_update x16 g) = ids g"
  "ids (expired_update x17 g) = ids g" "ids (visit_seq_update x18 g) = ids g"
  "ids (last_visit_update x19 g) = ids g" "ids (last_accept_update x20 g) = ids g"
  "ids (streak_kinds_update x21 g) = ids g" "ids (guide_attempts_update x22 g) = ids g"
  "ids (guide_failures_update x23 g) = ids g" "ids (held_guide_update x24 g) = ids g"
  "ids (centring_attempted_update x25 g) = ids g" "ids (centring_failed_update x26 g) = ids g"
  "ids (held_centring_update x27 g) = ids g" "ids (held_transient_update x28 g) = ids g"
  "ids (held_streak_update x29 g) = ids g" "ids (held_pass_reason_update x30 g) = ids g"
  "ids (starved_nights_update x31 g) = ids g"
  by (simp_all add: ids_def)

lemma is_live_update [simp]:
  "is_live (max_failed_visits_update x32 g) = is_live g" "is_live (pass_no_update x33 g) = is_live g"
  "is_live (visited_update x34 g) = is_live g"
  "is_live (exposures_this_pass_update x35 g) = is_live g"
  "is_live (deferred_this_pass_update x36 g) = is_live g" "is_live (failed_update x37 g) = is_live g"
  "is_live (reject_visits_update x38 g) = is_live g" "is_live (flipped_update x39 g) = is_live g"
  "is_live (acquired_update x40 g) = is_live g" "is_live (angle_verified_update x41 g) = is_live g"
  "is_live (defer_until_update x42 g) = is_live g" "is_live (defer_why_update x43 g) = is_live g"
  "is_live (let_through_update x44 g) = is_live g" "is_live (set_aside_kind_update x45 g) = is_live g"
  "is_live (expired_update x46 g) = is_live g" "is_live (visit_seq_update x47 g) = is_live g"
  "is_live (last_visit_update x48 g) = is_live g" "is_live (last_accept_update x49 g) = is_live g"
  "is_live (streak_kinds_update x50 g) = is_live g"
  "is_live (guide_attempts_update x51 g) = is_live g"
  "is_live (guide_failures_update x52 g) = is_live g" "is_live (held_guide_update x53 g) = is_live g"
  "is_live (centring_attempted_update x54 g) = is_live g"
  "is_live (centring_failed_update x55 g) = is_live g"
  "is_live (held_centring_update x56 g) = is_live g"
  "is_live (held_transient_update x57 g) = is_live g" "is_live (held_streak_update x58 g) = is_live g"
  "is_live (held_pass_reason_update x59 g) = is_live g"
  "is_live (starved_nights_update x60 g) = is_live g"
  by (simp_all add: is_live_def fun_eq_iff)

lemma members_okD:
  assumes "members_ok g"
  shows "p \<in> completed g \<Longrightarrow> set_aside g p = None" and "set_aside g p \<noteq> None \<Longrightarrow> p \<in> set (ids g)"
    and "set_aside g p \<noteq> None \<Longrightarrow> p \<notin> completed g"
  using assms by (auto simp: members_ok_def)

section \<open>Each operation keeps it\<close>

lemma group_init_ok:
  "group_init ms n = Inr g \<Longrightarrow> distinct (map fst ms) \<Longrightarrow> group_ok g"
  by (auto simp: group_init_def group_ok_def ok_defs ids_def is_live_def HELD_PASS_SET_ASIDE_AT_def
    split: if_splits)

lemma put_aside_fields [simp]:
  "members (put_aside p r k g) = members g" "max_failed_visits (put_aside p r k g) = max_failed_visits g"
  "pass_no (put_aside p r k g) = pass_no g" "visited (put_aside p r k g) = visited g"
  "exposures_this_pass (put_aside p r k g) = exposures_this_pass g"
  "deferred_this_pass (put_aside p r k g) = deferred_this_pass g"
  "failed (put_aside p r k g) = failed g" "reject_visits (put_aside p r k g) = reject_visits g"
  "completed (put_aside p r k g) = completed g" "streak_kinds (put_aside p r k g) = streak_kinds g"
  "guide_attempts (put_aside p r k g) = guide_attempts g"
  "guide_failures (put_aside p r k g) = guide_failures g"
  "held_guide (put_aside p r k g) = held_guide g" "held_centring (put_aside p r k g) = held_centring g"
  "held_transient (put_aside p r k g) = held_transient g"
  "centring_attempted (put_aside p r k g) = centring_attempted g"
  "centring_failed (put_aside p r k g) = centring_failed g"
  "held_streak (put_aside p r k g) = held_streak g"
  "held_pass_reason (put_aside p r k g) = held_pass_reason g"
  "starved_nights (put_aside p r k g) = starved_nights g"
  "visit_seq (put_aside p r k g) = visit_seq g" "last_visit (put_aside p r k g) = last_visit g"
  "last_accept (put_aside p r k g) = last_accept g" "let_through (put_aside p r k g) = let_through g"
  "expired (put_aside p r k g) = expired g" "ids (put_aside p r k g) = ids g"
  "set_aside (put_aside p r k g) = (set_aside g)(p \<mapsto> r)"
  "set_aside_kind (put_aside p r k g) = (set_aside_kind g)(p \<mapsto> k)"
  by (simp_all add: put_aside_def ids_def)

lemma is_live_put_aside [simp]: "is_live (put_aside p r k g) q \<longleftrightarrow> is_live g q \<and> q \<noteq> p"
  by (auto simp: is_live_def)

lemma put_aside_ok: "group_ok g \<Longrightarrow> is_live g p \<Longrightarrow> group_ok (put_aside p r k g)"
  by (auto simp: group_ok_def ok_defs is_live_def)

lemma put_all_aside_ok:
  "group_ok g \<Longrightarrow> distinct ps \<Longrightarrow> \<forall>p \<in> set ps. is_live g p \<Longrightarrow> group_ok (put_all_aside ps r k g)"
proof (induction ps arbitrary: g)
  case (Cons p ps)
  then have "group_ok (put_aside p r k g)" by (auto intro: put_aside_ok)
  moreover have "\<forall>q \<in> set ps. is_live (put_aside p r k g) q" using Cons.prems by auto
  ultimately show ?case using Cons.IH Cons.prems(2) by simp
qed simp

lemma is_live_put_all_aside [simp]:
  "is_live (put_all_aside ps r k g) q \<longleftrightarrow> is_live g q \<and> q \<notin> set ps"
  by (induction ps arbitrary: g) auto

lemma put_all_aside_fields [simp]:
  "failed (put_all_aside ps r k g) = failed g"
  "reject_visits (put_all_aside ps r k g) = reject_visits g"
  "completed (put_all_aside ps r k g) = completed g"
  "members (put_all_aside ps r k g) = members g" "ids (put_all_aside ps r k g) = ids g"
  "max_failed_visits (put_all_aside ps r k g) = max_failed_visits g"
  "held_guide (put_all_aside ps r k g) = held_guide g"
  "held_centring (put_all_aside ps r k g) = held_centring g"
  "held_transient (put_all_aside ps r k g) = held_transient g"
  "held_streak (put_all_aside ps r k g) = held_streak g"
  "held_pass_reason (put_all_aside ps r k g) = held_pass_reason g"
  "last_accept (put_all_aside ps r k g) = last_accept g"
  "last_visit (put_all_aside ps r k g) = last_visit g"
  by (induction ps arbitrary: g) auto

lemma live_put_all_aside [simp]: "live (put_all_aside (live g) r k g) = []"
  by (auto simp: filter_empty_conv live_def)

lemma distinct_live: "group_ok g \<Longrightarrow> distinct (live g)"
  by (simp add: live_def members_ok_def group_ok_def)

lemma set_aside_all_ok: "group_ok g \<Longrightarrow> group_ok (snd (set_aside_all r k g))"
  by (simp add: set_aside_all_def put_all_aside_ok distinct_live Let_def)

lemma set_aside_panel_ok: "group_ok g \<Longrightarrow> keeps group_ok (set_aside_panel p r k g)"
  by (simp add: set_aside_panel_def put_aside_ok split: sum.split)

lemma note_let_through_ok: "group_ok g \<Longrightarrow> group_ok (note_let_through ps g)"
  by (simp add: group_ok_def ok_defs note_let_through_def) blast

lemma note_starved_ok: "group_ok g \<Longrightarrow> keeps group_ok (note_starved p n g)"
  by (simp add: note_starved_def group_ok_def ok_defs split: sum.split)

lemma start_pass_ok: "group_ok g \<Longrightarrow> keeps group_ok (start_pass g)"
  by (simp add: start_pass_def group_ok_def ok_defs)

lemma begin_pass_alone_Inr:
  "begin_pass_alone g = Inr (g\<lparr>held_guide := [], held_centring := [], held_transient := [],
     pass_no := pass_no g + 1, visited := {}, let_through := {}, exposures_this_pass := 0,
     deferred_this_pass := 0, guide_attempts := 0, guide_failures := 0, centring_attempted := {},
     centring_failed := {}\<rparr>)"
  by (simp add: begin_pass_alone_def start_pass_def)

lemma begin_pass_alone_ok: "group_ok g \<Longrightarrow> keeps group_ok (begin_pass_alone g)"
  by (simp add: begin_pass_alone_Inr group_ok_def ok_defs)

lemma is_live_clean_slate:
  assumes "group_ok g" and "set_aside g p \<noteq> None"
  shows "is_live (clean_slate p g) q \<longleftrightarrow> is_live g q \<or> q = p"
  using assms members_okD [of g p] by (auto simp: clean_slate_def is_live_def group_ok_def)

lemma clean_slate_ok:
  assumes "group_ok g" and "set_aside g p \<noteq> None"
  shows "group_ok (clean_slate p g)"
proof -
  have ids: "ids (clean_slate p g) = ids g" by (simp add: clean_slate_def)
  have "members_ok (clean_slate p g)"
    using assms by (simp add: group_ok_def members_ok_def ids) (simp add: clean_slate_def, blast)
  moreover have "strikes_ok (clean_slate p g)"
    using assms is_live_clean_slate [OF assms]
    by (simp add: group_ok_def strikes_ok_def) (simp add: clean_slate_def)
  moreover have "pass_ok (clean_slate p g)" "seq_ok (clean_slate p g)"
    using assms by (simp_all add: group_ok_def pass_ok_def seq_ok_def clean_slate_def)
  ultimately show ?thesis by (simp add: group_ok_def)
qed

lemma expire_ok:
  assumes "group_ok g"
  shows "keeps group_ok (expire_set_aside p g)"
proof (cases "p \<in> set (ids g) \<and> set_aside g p \<noteq> None")
  case True
  let ?h = "(clean_slate p g)\<lparr>expired := insert p (expired (clean_slate p g))\<rparr>"
  have "group_ok ?h"
    using clean_slate_ok [OF assms, of p] True
    by (simp add: group_ok_def ok_defs) (simp add: clean_slate_def)
  then show ?thesis by (simp add: expire_set_aside_def Let_def begin_pass_alone_ok)
qed (auto simp: expire_set_aside_def)

lemma retry_ok:
  assumes "group_ok g"
  shows "keeps group_ok (retry_set_aside p g)"
proof (cases "p \<in> set (ids g) \<and> set_aside g p \<noteq> None")
  case True
  let ?h = "(clean_slate p g)\<lparr>held_streak := 0, held_pass_reason := None,
     starved_nights := (starved_nights (clean_slate p g))(p := None)\<rparr>"
  have "group_ok ?h"
    using clean_slate_ok [OF assms, of p] True
    by (simp add: group_ok_def ok_defs HELD_PASS_SET_ASIDE_AT_def)
  then show ?thesis by (simp add: retry_set_aside_def Let_def begin_pass_alone_ok)
qed (auto simp: retry_set_aside_def)

text \<open>A visit. The book-keeping leaves who is live and every strike; it only writes the ledgers and
  the numbers of the visits.\<close>

definition recorded :: "string \<Rightarrow> nat \<Rightarrow> nat \<Rightarrow> bool \<Rightarrow> bool \<Rightarrow> bool \<Rightarrow> bool \<Rightarrow> group_run \<Rightarrow> group_run" where
  "recorded p ex ac gf gs miss transient g = g\<lparr>visit_seq := visit_seq g + 1,
     last_visit := (last_visit g)(p \<mapsto> visit_seq g + 1),
     exposures_this_pass := exposures_this_pass g + ex,
     last_accept := (if ac > 0 then (last_accept g)(p \<mapsto> visit_seq g + 1) else last_accept g),
     starved_nights := (if ex > 0 then (starved_nights g)(p := None) else starved_nights g),
     guide_attempts := guide_attempts g + (if gf \<or> gs then 1 else 0),
     guide_failures := guide_failures g + (if gf then 1 else 0),
     centring_attempted := (if \<not> transient then insert p (centring_attempted g)
                            else centring_attempted g),
     centring_failed := (if miss then insert p (centring_failed g) else centring_failed g)\<rparr>"

lemma record_visit_Inr:
  "record_visit p ex ac gf gs miss transient g = Inr (prev, g') \<longleftrightarrow>
     is_live g p \<and> 0 \<le> ac \<and> ac \<le> ex \<and> \<not> (gf \<and> gs) \<and> dget (last_visit g) p 0 = prev \<and>
     recorded p (nat ex) (nat ac) gf gs miss transient g = g'"
  by (cases "is_live g p"; cases "0 \<le> ex"; cases "0 \<le> ac")
    (simp_all add: record_visit_def check_live_Inl check_live_live Let_def count_arg_def recorded_def
      linorder_not_less, linarith?)

lemma recorded_seq_ok: "seq_ok g \<Longrightarrow> seq_ok (recorded p ex ac gf gs miss transient g)"
proof -
  assume ok: "seq_ok g"
  have inj: "inj_on ((last_visit g)(p \<mapsto> visit_seq g + 1)) (insert p (dom (last_visit g)))"
    using ok by (auto simp: seq_ok_def inj_on_def) fastforce+
  have "dget (last_visit g) q 0 \<le> visit_seq g" for q
    using ok by (auto simp: seq_ok_def dget_def split: option.split)
  with ok have la: "dget (last_accept g) q 0 \<le> Suc (visit_seq g)" for q
    unfolding seq_ok_def by (meson order_trans le_SucI)
  have "\<forall>q n. ((last_visit g)(p \<mapsto> visit_seq g + 1)) q = Some n \<longrightarrow> 0 < n \<and> n \<le> visit_seq g + 1"
    using ok by (auto simp: seq_ok_def le_SucI)
  then show ?thesis
    using ok inj la by (simp add: seq_ok_def recorded_def dget_upd)
qed

lemma recorded_ok:
  assumes "group_ok g" and "is_live g p" and "\<not> (miss \<and> transient)"
  shows "group_ok (recorded p ex ac gf gs miss transient g)"
proof -
  let ?h = "recorded p ex ac gf gs miss transient g"
  have "members_ok ?h" "strikes_ok ?h"
    using assms by (simp_all add: group_ok_def members_ok_def strikes_ok_def recorded_def)
  moreover have "pass_ok ?h"
    using assms live_ids [of g p] by (simp add: group_ok_def pass_ok_def recorded_def) blast
  moreover have "seq_ok ?h" using assms by (simp add: group_ok_def recorded_seq_ok)
  ultimately show ?thesis by (simp add: group_ok_def)
qed

lemma recorded_fields [simp]:
  "is_live (recorded p ex ac gf gs miss transient g) = is_live g"
  "members (recorded p ex ac gf gs miss transient g) = members g"
  "ids (recorded p ex ac gf gs miss transient g) = ids g"
  "failed (recorded p ex ac gf gs miss transient g) = failed g"
  "reject_visits (recorded p ex ac gf gs miss transient g) = reject_visits g"
  "streak_kinds (recorded p ex ac gf gs miss transient g) = streak_kinds g"
  "max_failed_visits (recorded p ex ac gf gs miss transient g) = max_failed_visits g"
  "completed (recorded p ex ac gf gs miss transient g) = completed g"
  "set_aside (recorded p ex ac gf gs miss transient g) = set_aside g"
  "set_aside_kind (recorded p ex ac gf gs miss transient g) = set_aside_kind g"
  "held_guide (recorded p ex ac gf gs miss transient g) = held_guide g"
  "held_centring (recorded p ex ac gf gs miss transient g) = held_centring g"
  "held_transient (recorded p ex ac gf gs miss transient g) = held_transient g"
  "deferred_this_pass (recorded p ex ac gf gs miss transient g) = deferred_this_pass g"
  by (simp_all add: recorded_def)

lemma note_visit_ok: "group_ok g \<Longrightarrow> keeps group_ok (note_visit p ex ac gs g)"
  by (cases "record_visit p ex ac False gs False False g")
    (auto simp: note_visit_def record_visit_Inr intro: recorded_ok)

lemma completed_ok: "group_ok g \<Longrightarrow> is_live g p \<Longrightarrow> group_ok (g\<lparr>completed := insert p (completed g)\<rparr>)"
proof -
  assume a: "group_ok g" "is_live g p"
  have l: "is_live (g\<lparr>completed := insert p (completed g)\<rparr>) q \<longleftrightarrow> is_live g q \<and> q \<noteq> p" for q
    by (auto simp: is_live_def)
  have "members_ok (g\<lparr>completed := insert p (completed g)\<rparr>)"
    using a by (auto simp: group_ok_def members_ok_def is_live_def)
  moreover have "strikes_ok (g\<lparr>completed := insert p (completed g)\<rparr>)"
    using a l by (simp add: group_ok_def strikes_ok_def)
  ultimately show ?thesis using a by (simp add: group_ok_def pass_ok_def seq_ok_def)
qed

lemma note_complete_ok: "group_ok g \<Longrightarrow> keeps group_ok (note_complete p g)"
  by (simp add: note_complete_def completed_ok split: sum.split)

text \<open>A counted failure.\<close>

definition struck :: "string \<Rightarrow> deferral \<Rightarrow> group_run \<Rightarrow> group_run" where
  "struck p d g = g\<lparr>failed := (failed g)(p := failed g p + 1),
     streak_kinds := (streak_kinds g)(p := insert (d_kind d) (streak_kinds g p))\<rparr>"

lemma count_failure_cases:
  "failed g p + 1 < max_failed_visits g \<Longrightarrow>
     snd (count_failure p d g) = struck p d g \<and> va_action (fst (count_failure p d g)) = Requeue"
  "\<not> failed g p + 1 < max_failed_visits g \<Longrightarrow>
     (\<exists>r. snd (count_failure p d g) =
        put_aside p r (streak_kind (insert (d_kind d) (streak_kinds g p))) (struck p d g)) \<and>
     va_action (fst (count_failure p d g)) = Set_Aside"
  by (simp_all add: count_failure_def Let_def struck_def, blast)

lemma struck_strikes:
  assumes "strikes_ok g"
  shows "finite (streak_kinds (struck p d g) q) \<and> card (streak_kinds (struck p d g) q) \<le> failed (struck p d g) q"
proof -
  have "finite (streak_kinds g q)" "card (streak_kinds g q) \<le> failed g q" for q
    using assms by (simp_all add: strikes_ok_def)
  then show ?thesis
    by (simp add: struck_def card_insert_if le_SucI)
qed

lemma count_failure_ok:
  assumes "group_ok g" and "is_live g p"
  shows "group_ok (snd (count_failure p d g))"
proof (cases "failed g p + 1 < max_failed_visits g")
  case True
  have "strikes_ok (struck p d g)"
    using assms True struck_strikes [of g p d]
    by (simp add: group_ok_def strikes_ok_def) (simp add: struck_def)
  then have "group_ok (struck p d g)"
    using assms by (simp add: group_ok_def members_ok_def pass_ok_def seq_ok_def) (simp add: struck_def)
  then show ?thesis using count_failure_cases(1) [OF True] by simp
next
  case False
  then obtain r k where e: "snd (count_failure p d g) = put_aside p r k (struck p d g)"
    using count_failure_cases(2) [OF False] by blast
  have l: "is_live (struck p d g) = is_live g" by (simp add: struck_def)
  have "strikes_ok (put_aside p r k (struck p d g))"
    using assms struck_strikes [of g p d] unfolding strikes_ok_def group_ok_def
    by (simp add: l) (simp add: struck_def)
  moreover have "members_ok (put_aside p r k (struck p d g))"
    using put_aside_ok [OF assms, of r k] by (simp add: group_ok_def members_ok_def struck_def)
  moreover have "pass_ok (put_aside p r k (struck p d g))" "seq_ok (put_aside p r k (struck p d g))"
    using assms by (simp_all add: group_ok_def pass_ok_def seq_ok_def) (simp_all add: struck_def)
  ultimately show ?thesis by (simp add: e group_ok_def)
qed

text \<open>The visit's outcome: the panel is marked visited, an accepted frame clears its strikes, and a
  deferral is held or counted.\<close>

definition after_frames :: "string \<Rightarrow> bool \<Rightarrow> group_run \<Rightarrow> group_run" where
  "after_frames p banked g = (let g = g\<lparr>visited := insert p (visited g)\<rparr> in
     if banked then g\<lparr>failed := (failed g)(p := 0), reject_visits := (reject_visits g)(p := 0),
       streak_kinds := (streak_kinds g)(p := {})\<rparr> else g)"

lemma after_frames_live [simp]: "is_live (after_frames p b g) = is_live g"
  by (simp add: after_frames_def Let_def)

lemma after_frames_ok: "group_ok g \<Longrightarrow> is_live g p \<Longrightarrow> group_ok (after_frames p b g)"
proof -
  assume a: "group_ok g" "is_live g p"
  have "members_ok (after_frames p b g)"
    using a live_ids [of g p] by (simp add: group_ok_def members_ok_def after_frames_def Let_def)
  moreover have "strikes_ok (after_frames p b g)"
    using a by (simp add: group_ok_def strikes_ok_def after_frames_def Let_def)
  ultimately show ?thesis
    using a by (simp add: group_ok_def pass_ok_def seq_ok_def after_frames_def Let_def)
qed

lemma visit_outcome_Inr:
  "visit_outcome p c ex ac dfr gs g =
     (case record_visit p ex ac (kind_is dfr GUIDE_START) gs
         (kind_is dfr CENTRING) (kind_is dfr SOLVE_TRANSIENT) g of
        Inl e \<Rightarrow> Inl e
      | Inr (previous, g) \<Rightarrow>
        if c then Inr (\<lparr>va_action = Remove, va_reason = ''panel '' @ label_of g p @ '' complete''\<rparr>,
               g\<lparr>completed := insert p (completed g)\<rparr>)
        else Inr (case dfr of Some d \<Rightarrow> deferred_outcome p d (after_frames p (ac > 0) g)
                  | None \<Rightarrow> shot_outcome p (nat ex) (nat ac) previous (after_frames p (ac > 0) g)))"
  by (cases dfr) (simp_all add: visit_outcome_def Let_def after_frames_def split: sum.split prod.split)

lemma deferred_outcome_ok:
  assumes "group_ok g" and "is_live g p"
  shows "group_ok (snd (deferred_outcome p d g))"
proof -
  let ?h = "g\<lparr>deferred_this_pass := deferred_this_pass g + 1\<rparr>"
  have h: "group_ok ?h" "is_live ?h p"
    using assms by (simp_all add: group_ok_def ok_defs)
  have "group_ok (?h\<lparr>held_guide := held_guide ?h @ [(p, d)]\<rparr>)"
    "group_ok (?h\<lparr>held_centring := held_centring ?h @ [(p, d)]\<rparr>)"
    "group_ok (?h\<lparr>held_transient := held_transient ?h @ [(p, d)]\<rparr>)"
    using assms live_ids [of g p] by (simp_all add: group_ok_def ok_defs)
  with count_failure_ok [OF h, of d] show ?thesis
    by (simp add: deferred_outcome_def Let_def)
qed

lemma rejected_ok:
  assumes "group_ok g" and "is_live g p"
  shows "reject_visits g p + 1 < max_failed_visits g \<Longrightarrow>
      group_ok (g\<lparr>reject_visits := (reject_visits g)(p := reject_visits g p + 1)\<rparr>)"
    and "group_ok (put_aside p r k (g\<lparr>reject_visits := (reject_visits g)(p := reject_visits g p + 1)\<rparr>))"
proof -
  show "group_ok (g\<lparr>reject_visits := (reject_visits g)(p := reject_visits g p + 1)\<rparr>)"
    if "reject_visits g p + 1 < max_failed_visits g"
    using assms that by (simp add: group_ok_def ok_defs)
  show "group_ok (put_aside p r k (g\<lparr>reject_visits := (reject_visits g)(p := reject_visits g p + 1)\<rparr>))"
    using put_aside_ok [OF assms, of r k]
    by (simp add: group_ok_def members_ok_def strikes_ok_def pass_ok_def seq_ok_def)
qed

lemma shot_outcome_ok:
  assumes "group_ok g" and "is_live g p"
  shows "group_ok (snd (shot_outcome p ex ac prev g))"
  using assms rejected_ok [OF assms]
  by (simp add: shot_outcome_def Let_def)

lemma visit_outcome_ok: "group_ok g \<Longrightarrow> keeps (\<lambda>r. group_ok (snd r)) (visit_outcome p c ex ac dfr gs g)"
proof (cases "record_visit p ex ac (kind_is dfr GUIDE_START) gs
         (kind_is dfr CENTRING) (kind_is dfr SOLVE_TRANSIENT) g")
  case (Inr r)
  obtain prev h where r: "r = (prev, h)" by force
  assume ok: "group_ok g"
  from Inr have l: "is_live g p" and h: "h = recorded p (nat ex) (nat ac)
     (kind_is dfr GUIDE_START) gs (kind_is dfr CENTRING)
     (kind_is dfr SOLVE_TRANSIENT) g"
    by (simp_all add: r record_visit_Inr)
  have hok: "group_ok h" unfolding h by (rule recorded_ok [OF ok l]) (auto simp: kind_is_def split: option.splits)
  have hl: "is_live h p" by (simp add: h l)
  note af = after_frames_ok [OF hok hl] after_frames_live
  show ?thesis using completed_ok [OF hok hl] deferred_outcome_ok [OF af(1)] shot_outcome_ok [OF af(1)] hl
    by (simp add: visit_outcome_Inr Inr r split: option.split)
qed (simp add: visit_outcome_Inr)

text \<open>The end of a pass. Counting what was held keeps the members, the ledgers and every panel that is
  not held; it only strikes.\<close>

lemma count_failure_fields [simp]:
  "ids (snd (count_failure p d g)) = ids g" "members (snd (count_failure p d g)) = members g"
  "completed (snd (count_failure p d g)) = completed g"
  "held_guide (snd (count_failure p d g)) = held_guide g"
  "held_centring (snd (count_failure p d g)) = held_centring g"
  "held_transient (snd (count_failure p d g)) = held_transient g"
  "held_streak (snd (count_failure p d g)) = held_streak g"
  "held_pass_reason (snd (count_failure p d g)) = held_pass_reason g"
  "guide_attempts (snd (count_failure p d g)) = guide_attempts g"
  "guide_failures (snd (count_failure p d g)) = guide_failures g"
  "max_failed_visits (snd (count_failure p d g)) = max_failed_visits g"
  "reject_visits (snd (count_failure p d g)) = reject_visits g"
  "failed (snd (count_failure p d g)) = (failed g)(p := failed g p + 1)"
  by (simp_all add: count_failure_def Let_def)

lemma count_held_Cons:
  "snd (snd (count_held ((p, d) # hs) g)) =
     (if is_live g p then snd (snd (count_held hs (snd (count_failure p d g))))
      else snd (snd (count_held hs g)))"
  by (simp split: prod.split)

lemma count_held_ok: "group_ok g \<Longrightarrow> group_ok (snd (snd (count_held hs g)))"
proof (induction hs arbitrary: g)
  case (Cons h hs)
  then show ?case by (cases h) (simp add: count_held_Cons count_failure_ok del: count_held.simps)
qed simp

lemma count_held_fields [simp]:
  "ids (snd (snd (count_held hs g))) = ids g" "members (snd (snd (count_held hs g))) = members g"
  "completed (snd (snd (count_held hs g))) = completed g"
  "held_guide (snd (snd (count_held hs g))) = held_guide g"
  "held_centring (snd (snd (count_held hs g))) = held_centring g"
  "held_transient (snd (snd (count_held hs g))) = held_transient g"
  "held_streak (snd (snd (count_held hs g))) = held_streak g"
  "held_pass_reason (snd (snd (count_held hs g))) = held_pass_reason g"
  "guide_attempts (snd (snd (count_held hs g))) = guide_attempts g"
  "guide_failures (snd (snd (count_held hs g))) = guide_failures g"
  "max_failed_visits (snd (snd (count_held hs g))) = max_failed_visits g"
  "reject_visits (snd (snd (count_held hs g))) = reject_visits g"
  by (induction hs arbitrary: g;
      simp add: count_held_Cons split_paired_all del: count_held.simps(2))+

text \<open>The counts of a pass in the order the two verdicts accept: the verdicts never raise.\<close>

lemma pass_verdicts_return:
  assumes "group_ok g"
  shows "card (centring_failed g) \<le> card (centring_attempted g)"
    and "\<not> card (centring_attempted g) < card (centring_failed g)"
    and "\<not> guide_attempts g < guide_failures g"
  using assms by (auto simp: group_ok_def pass_ok_def linorder_not_less intro: card_mono)

definition cleared :: "group_run \<Rightarrow> group_run" where
  "cleared g = g\<lparr>held_guide := [], held_centring := [], held_transient := []\<rparr>"

lemma cleared_fields [simp]:
  "ids (cleared g) = ids g" "is_live (cleared g) = is_live g" "live (cleared g) = live g"
  "centring_attempted (cleared g) = centring_attempted g"
  "centring_failed (cleared g) = centring_failed g" "pass_no (cleared g) = pass_no g"
  "guide_attempts (cleared g) = guide_attempts g" "guide_failures (cleared g) = guide_failures g"
  "failed (cleared g) = failed g" "reject_visits (cleared g) = reject_visits g"
  "set_aside (cleared g) = set_aside g" "completed (cleared g) = completed g"
  "held_streak (cleared g) = held_streak g" "held_pass_reason (cleared g) = held_pass_reason g"
  "max_failed_visits (cleared g) = max_failed_visits g" "members (cleared g) = members g"
  "starved_nights (cleared g) = starved_nights g"
  "held_guide (cleared g) = []" "held_centring (cleared g) = []" "held_transient (cleared g) = []"
  by (simp_all add: cleared_def live_def)

lemma cleared_ok: "group_ok g \<Longrightarrow> group_ok (cleared g)"
  by (simp add: cleared_def group_ok_def ok_defs)

text \<open>The boundary in its four cases. \<open>sky_pass\<close> and \<open>rig_pass\<close> are the two pass rules.\<close>

definition sky_pass :: "group_run \<Rightarrow> bool" where
  "sky_pass g = (centring_pass_verdict (card (centring_attempted g)) (card (centring_failed g))
     (Some (length (live g))) = Inr Sky)"

definition rig_pass :: "group_run \<Rightarrow> bool" where
  "rig_pass g = (\<not> sky_pass g \<and> guide_start_pass_verdict (guide_attempts g) (guide_failures g) = Inr Rig)"

definition counted_centring :: "group_run \<Rightarrow> group_run" where
  "counted_centring g = snd (snd (count_held (held_centring g) (cleared g)))"

definition counted_all :: "group_run \<Rightarrow> group_run" where
  "counted_all g = snd (snd (count_held (held_guide g) (counted_centring g)))"

lemma counted_ok: "group_ok g \<Longrightarrow> group_ok (counted_centring g) \<and> group_ok (counted_all g)"
  by (simp add: counted_all_def counted_centring_def count_held_ok cleared_ok)

lemma counted_fields [simp]:
  "held_guide (counted_centring g) = []" "held_centring (counted_centring g) = []"
  "held_transient (counted_centring g) = []" "held_guide (counted_all g) = []"
  "held_centring (counted_all g) = []" "held_transient (counted_all g) = []"
  "held_streak (counted_centring g) = held_streak g" "held_streak (counted_all g) = held_streak g"
  "held_pass_reason (counted_centring g) = held_pass_reason g"
  "held_pass_reason (counted_all g) = held_pass_reason g"
  "completed (counted_centring g) = completed g" "completed (counted_all g) = completed g"
  "ids (counted_centring g) = ids g" "ids (counted_all g) = ids g"
  by (simp_all add: counted_all_def counted_centring_def)

lemma decide_cases:
  assumes "group_ok g"
  obtains (sky) pe where "sky_pass g" "decide_pass_end c g = Inr ((pe, True, held_centring g), cleared g)"
      "pe_boundary pe = Centring_Hold \<and> pe_held_streak pe = 0" "pe_set_aside pe = []" "pe_counted pe = []"
    | (rig) pe where "rig_pass g" "decide_pass_end c g = Inr ((pe, False, []), counted_centring g)"
      "pe_boundary pe = Guiding_Action \<and> pe_held_streak pe = 0"
    | (none) pe where "\<not> sky_pass g" "\<not> rig_pass g" "live (counted_all g) = []"
      "decide_pass_end c g = Inr ((pe, False, []), counted_all g)" "pe_boundary pe = None_Live \<and> pe_held_streak pe = 0"
    | (anti_spin) pe r where "\<not> sky_pass g" "\<not> rig_pass g" "live (counted_all g) \<noteq> []"
      "decide_pass_end c g = Inr ((pe, False, []), put_all_aside (live (counted_all g)) r ''group'' (counted_all g))"
      "pe_boundary pe = Set_Aside_All \<and> pe_held_streak pe = 0"
    | (wait) pe where "\<not> sky_pass g" "\<not> rig_pass g" "live (counted_all g) \<noteq> []"
      "decide_pass_end c g = Inr ((pe, held_transient g \<noteq> [] \<and>
           length (held_transient g) = deferred_this_pass (counted_all g),
         if held_transient g \<noteq> [] \<and> length (held_transient g) = deferred_this_pass (counted_all g)
         then held_transient g else []), counted_all g)" "pe_boundary pe = Defer_Wait \<and> pe_held_streak pe = 0"
    | (next_pass) pe where "\<not> sky_pass g" "\<not> rig_pass g" "live (counted_all g) \<noteq> []"
      "decide_pass_end c g = Inr ((pe, False, []), counted_all g)" "pe_boundary pe = Next_Pass \<and> pe_held_streak pe = 0"
proof -
  let ?sky = "centring_pass_verdict (card (centring_attempted g)) (card (centring_failed g))
     (Some (length (live g)))"
  let ?rig = "guide_start_pass_verdict (guide_attempts g) (guide_failures g)"
  obtain sa co where h1: "count_held (held_centring g) (cleared g) = (sa, co, counted_centring g)"
    by (metis counted_centring_def prod.collapse)
  obtain sa2 co2 where h2: "count_held (held_guide g) (counted_centring g) = (sa2, co2, counted_all g)"
    by (metis counted_all_def prod.collapse)
  have "\<exists>v. ?sky = Inr v" "\<exists>w. ?rig = Inr w"
    using pass_verdicts_return [OF assms]
    by (simp_all add: centring_pass_verdict_def guide_start_pass_verdict_def)
  then obtain v w where v: "?sky = Inr v" and w: "?rig = Inr w" by blast
  have ga: "guide_attempts (counted_centring g) = guide_attempts g"
    "guide_failures (counted_centring g) = guide_failures g" by (simp_all add: counted_centring_def)
  note unf = decide_pass_end_def Let_def cleared_def [symmetric] v w h1 h2 ga
  consider "v = Sky" | "v \<noteq> Sky" "w = Rig" | "v \<noteq> Sky" "w \<noteq> Rig" "live (counted_all g) = []"
    | "v \<noteq> Sky" "w \<noteq> Rig" "live (counted_all g) \<noteq> []" by blast
  then show ?thesis
  proof cases
    case 1
    then show ?thesis
      by (intro sky [of "centring_hold_end (card (centring_attempted g)) (pass_no g) c"])
        (simp_all add: sky_pass_def unf centring_hold_end_def pass_end_of_def)
  next
    case 2
    then show ?thesis
      by (intro rig [of "guiding_action_end (guide_attempts g) sa co"])
        (simp_all add: rig_pass_def sky_pass_def unf guiding_action_end_def pass_end_of_def)
  next
    case 3
    then show ?thesis
      by (intro none [of "pass_end_of None_Live (sa @ sa2)
        ''no panel is left to shoot tonight: every one is complete or set aside'' co"])
        (simp_all add: rig_pass_def sky_pass_def unf, simp_all add: pass_end_of_def)
  next
    case 4
    then have nsr: "\<not> sky_pass g" "\<not> rig_pass g" by (simp_all add: rig_pass_def sky_pass_def v w)
    show ?thesis
    proof (cases "pass_boundary (exposures_this_pass (counted_all g)) (deferred_this_pass (counted_all g))")
      case Set_Aside_All
      then show ?thesis using 4 nsr
        by (intro anti_spin) (simp_all add: unf, simp add: pass_end_of_def)
    next
      case Defer_Wait
      then show ?thesis using 4 nsr
        by (intro wait) (simp_all add: unf, simp add: pass_end_of_def)
    next
      case Next_Pass
      then show ?thesis using 4 nsr
        by (intro next_pass) (simp_all add: unf, simp add: pass_end_of_def)
    qed (simp_all add: pass_boundary_def split: if_splits)
  qed
qed

text \<open>The held-pass rule.\<close>

definition same_fault :: "group_run \<Rightarrow> held \<Rightarrow> bool" where
  "same_fault g ds = (held_pass_reason_code ds \<noteq> None \<and>
     held_pass_reason_code ds = held_pass_reason g)"

lemma held_limit_update [simp]:
  "live (g\<lparr>held_streak := n\<rparr>) = live g" "live (g\<lparr>held_pass_reason := c\<rparr>) = live g"
  "held_limit (g\<lparr>held_streak := n\<rparr>) = held_limit g" "held_limit (g\<lparr>held_pass_reason := c\<rparr>) = held_limit g"
  by (simp_all add: live_def held_limit_def split: list.split)

lemma held_rule_cases:
  "apply_held_pass_rule pe False ds g = (pe, g\<lparr>held_streak := 0, held_pass_reason := None\<rparr>)"
  "same_fault g ds \<or> snd (held_limit g) \<le> held_streak g + 1 \<Longrightarrow>
     \<exists>pe' r k. apply_held_pass_rule pe True ds g =
       (pe', put_all_aside (live g) r k (g\<lparr>held_streak := held_streak g + 1,
          held_pass_reason := held_pass_reason_code ds\<rparr>)\<lparr>held_streak := 0, held_pass_reason := None\<rparr>) \<and>
       pe_boundary pe' = Set_Aside_All \<and> map fst (pe_set_aside pe') = live g \<and>
       (k = (if length (live g) = 1 \<and> \<not> same_fault g ds then ''deferred'' else ''group''))"
  "\<not> (same_fault g ds \<or> snd (held_limit g) \<le> held_streak g + 1) \<Longrightarrow>
     apply_held_pass_rule pe True ds g = (pe\<lparr>pe_held_streak := held_streak g + 1\<rparr>,
       g\<lparr>held_streak := held_streak g + 1, held_pass_reason := held_pass_reason_code ds\<rparr>)"
  by (simp_all add: apply_held_pass_rule_def same_fault_def set_aside_all_def pass_end_of_def Let_def
      comp_def split_beta, auto)

lemma snd_held_limit: "snd (held_limit g) \<le> HELD_PASS_SET_ASIDE_AT"
  by (simp add: held_limit_def Let_def HELD_PASS_SET_ASIDE_AT_def HELD_PASS_STARVED_SET_ASIDE_AT_def)

lemma held_rule_ok: "group_ok g \<Longrightarrow> group_ok (snd (apply_held_pass_rule pe h ds g))"
proof -
  assume ok: "group_ok g"
  have upd: "group_ok (h\<lparr>held_streak := n, held_pass_reason := c\<rparr>)"
    if "group_ok h" "n < HELD_PASS_SET_ASIDE_AT" for h n c
    using that by (simp add: group_ok_def ok_defs)
  consider "\<not> h" | "h" "same_fault g ds \<or> snd (held_limit g) \<le> held_streak g + 1"
    | "h" "\<not> (same_fault g ds \<or> snd (held_limit g) \<le> held_streak g + 1)" by blast
  then show ?thesis
  proof cases
    case 1
    then show ?thesis using upd [OF ok] by (simp add: held_rule_cases(1) HELD_PASS_SET_ASIDE_AT_def)
  next
    case 2
    let ?h = "\<lambda>r k. put_all_aside (live g) r k (g\<lparr>held_streak := held_streak g + 1,
          held_pass_reason := held_pass_reason_code ds\<rparr>)\<lparr>held_streak := 0, held_pass_reason := None\<rparr>"
    have e: "?h r k = put_all_aside (live g) r k g\<lparr>held_streak := 0, held_pass_reason := None\<rparr>" for r k
    proof -
      have "put_all_aside ps r k (h\<lparr>held_streak := n, held_pass_reason := c\<rparr>) =
         (put_all_aside ps r k h)\<lparr>held_streak := n, held_pass_reason := c\<rparr>" for ps h n c
      proof (induction ps arbitrary: h)
        case (Cons p ps)
        have "put_aside p r k (h\<lparr>held_streak := n, held_pass_reason := c\<rparr>) =
           (put_aside p r k h)\<lparr>held_streak := n, held_pass_reason := c\<rparr>"
          by (simp add: put_aside_def)
        then show ?case using Cons by simp
      qed simp
      then show ?thesis by simp
    qed
    have "group_ok (?h r k)" for r k
      unfolding e by (rule upd) (simp_all add: put_all_aside_ok ok distinct_live HELD_PASS_SET_ASIDE_AT_def)
    then show ?thesis using held_rule_cases(2) [OF 2(2), of pe] 2(1) by auto
  next
    case 3
    then have "held_streak g + 1 < HELD_PASS_SET_ASIDE_AT" using snd_held_limit [of g] by simp
    then show ?thesis using held_rule_cases(3) [OF 3(2), of pe] 3(1) upd [OF ok] by simp
  qed
qed

lemma close_pass_Inr:
  assumes "group_ok g"
  shows "\<exists>pe g'. close_pass c g = Inr (pe, g') \<and> group_ok g' \<and> held_guide g' = [] \<and>
    held_centring g' = [] \<and> held_transient g' = []"
proof -
  have "\<exists>pe h ds g1. decide_pass_end c g = Inr ((pe, h, ds), g1) \<and> group_ok g1 \<and> held_guide g1 = [] \<and>
    held_centring g1 = [] \<and> held_transient g1 = []"
    using assms counted_ok [OF assms] cleared_ok [OF assms]
    by (cases rule: decide_cases [OF assms, of c]) (auto simp: put_all_aside_ok distinct_live)
  then obtain pe h ds g1 where d: "decide_pass_end c g = Inr ((pe, h, ds), g1)" and ok: "group_ok g1"
    and e: "held_guide g1 = []" "held_centring g1 = []" "held_transient g1 = []" by blast
  have "held_guide (snd (apply_held_pass_rule pe h ds g1)) = [] \<and>
    held_centring (snd (apply_held_pass_rule pe h ds g1)) = [] \<and>
    held_transient (snd (apply_held_pass_rule pe h ds g1)) = []"
    using e by (simp add: apply_held_pass_rule_def Let_def set_aside_all_def split_beta)
  with held_rule_ok [OF ok, of pe h ds] show ?thesis
    by (cases "apply_held_pass_rule pe h ds g1") (simp add: close_pass_def d)
qed

lemma close_pass_ok: "group_ok g \<Longrightarrow> keeps (\<lambda>r. group_ok (snd r)) (close_pass c g)"
  using close_pass_Inr [of g c] by auto

lemma defer_next_pass_ok: "group_ok g \<Longrightarrow> keeps (\<lambda>r. group_ok (snd r)) (defer_next_pass now w why g)"
  by (simp add: defer_next_pass_def group_ok_def ok_defs split: sum.split)

section \<open>The engine's calls\<close>

text \<open>The calls the engine makes on a group, in any order: each is an event, and one that raises
  leaves the group as it was.\<close>

datatype group_event =
    Note_Let_Through "string list"
  | Note_Starved string int
  | Put_Aside string string string
  | Put_All_Aside string string
  | Expire string
  | Retry string
  | Visited string bool int int "deferral option" bool
  | Noted_Visit string int int bool
  | Noted_Complete string
  | Close_Pass "string option"
  | Start_Pass
  | Defer pyfloat pyfloat string

fun group_step :: "group_run \<Rightarrow> group_event \<Rightarrow> group_run" where
  "group_step g (Note_Let_Through ps) = note_let_through ps g"
| "group_step g (Note_Starved p n) = settle g (note_starved p n g)"
| "group_step g (Put_Aside p r k) = settle g (set_aside_panel p r k g)"
| "group_step g (Put_All_Aside r k) = snd (set_aside_all r k g)"
| "group_step g (Expire p) = settle g (expire_set_aside p g)"
| "group_step g (Retry p) = settle g (retry_set_aside p g)"
| "group_step g (Visited p c ex ac d gs) = settle g (map_sum id snd (visit_outcome p c ex ac d gs g))"
| "group_step g (Noted_Visit p ex ac gs) = settle g (note_visit p ex ac gs g)"
| "group_step g (Noted_Complete p) = settle g (note_complete p g)"
| "group_step g (Close_Pass c) = settle g (map_sum id snd (close_pass c g))"
| "group_step g Start_Pass = settle g (start_pass g)"
| "group_step g (Defer now w why) = settle g (map_sum id snd (defer_next_pass now w why g))"

lemma keeps_map_sum [simp]: "keeps P (map_sum id f r) = keeps (\<lambda>x. P (f x)) r"
  by (cases r) simp_all

lemma group_step_ok: "group_ok g \<Longrightarrow> group_ok (group_step g e)"
  by (cases e)
    (simp_all add: settle_keeps note_let_through_ok note_starved_ok set_aside_panel_ok set_aside_all_ok
      expire_ok retry_ok visit_outcome_ok note_visit_ok note_complete_ok close_pass_ok start_pass_ok
      defer_next_pass_ok)

interpretation grp: machine group_step group_ok
  by unfold_locales (rule group_step_ok)

definition group_reachable :: "group_run \<Rightarrow> bool" where
  "group_reachable g = (\<exists>ms n g0 es. group_init ms n = Inr g0 \<and> distinct (map fst ms) \<and>
     run group_step g0 es = g)"

lemma reachable_ok: "group_reachable g \<Longrightarrow> group_ok g"
  unfolding group_reachable_def using grp.inv_run group_init_ok by blast

end
