(* ===== verification/Group_Theorems.thy ===== *)
theory Group_Theorems
  imports Group_Props
begin

text \<open>
  The promises of the mosaic group driver, over every sequence of calls of the engine
  (\<open>Group_Props.group_step\<close>) and for every reachable group.
\<close>

section \<open>The group as a whole\<close>

text \<open>C1. Whatever the engine calls, in whatever order, no panel is ever both complete and set aside,
  every set-aside panel is a member with a reason and a kind, and a panel that is still live has
  fewer strikes (deferrals in a row, rejecting visits in a row) than the plan's bound.\<close>

theorem group_invariant:
  assumes "group_init ms n = Inr g0" and "distinct (map fst ms)"
  shows "let g = run group_step g0 es in
     completed g \<inter> dom (set_aside g) = {} \<and> dom (set_aside_kind g) = dom (set_aside g) \<and>
     completed g \<union> dom (set_aside g) \<subseteq> set (map fst (members g)) \<and>
     (\<forall>p. is_live g p \<longrightarrow> failed g p < max_failed_visits g \<and> reject_visits g p < max_failed_visits g)"
  using grp.inv_run [OF group_init_ok [OF assms], of es]
  by (simp add: Let_def group_ok_def members_ok_def strikes_ok_def ids_def)

theorem group_invariant_witness:
  "let g = run group_step (projr (group_init [(''a'', ''A''), (''b'', ''B'')] 3))
     [Visited ''a'' True 2 2 None False, Put_Aside ''b'' ''below its floor'' ''panel''] in
   completed g = {''a''} \<and> completed g \<inter> dom (set_aside g) = {}"
  using group_invariant [of "[(''a'', ''A''), (''b'', ''B'')]" 3
    "projr (group_init [(''a'', ''A''), (''b'', ''B'')] 3)"
    "[Visited ''a'' True 2 2 None False, Put_Aside ''b'' ''below its floor'' ''panel'']"]
  by (simp add: group_init_def Let_def visit_outcome_def record_visit_def kind_is_def check_live_def
      ids_def is_live_def count_arg_def set_aside_panel_def put_aside_def)

text \<open>The pass boundary never fails: on every reachable group, \<open>close_pass\<close> returns (its two
  verdicts never refuse the counts the group kept), and \<open>start_pass\<close> right after it never raises,
  because the boundary drops every held deferral.\<close>

theorem boundary_never_raises:
  assumes "group_reachable g"
  shows "\<exists>pe g'. close_pass cause g = Inr (pe, g') \<and> returns (start_pass g')"
proof -
  obtain pe g' where "close_pass cause g = Inr (pe, g')" "held_guide g' = []" "held_centring g' = []"
    "held_transient g' = []"
    using close_pass_Inr [OF reachable_ok [OF assms], of cause] by blast
  then show ?thesis by (simp add: start_pass_def)
qed

text \<open>A group to evaluate: two panels, three strikes.\<close>

definition two_panels :: group_run where
  "two_panels = projr (group_init [(''a'', ''A''), (''b'', ''B'')] 3)"

lemma two_panels_reachable: "group_reachable (run group_step two_panels es)"
  unfolding group_reachable_def two_panels_def
  by (rule exI [of _ "[(''a'', ''A''), (''b'', ''B'')]"], rule exI [of _ 3]) (auto simp: group_init_def)

definition centring_miss :: deferral where
  "centring_miss = \<lparr>d_reason = ''centring failed'', d_kind = CENTRING, d_last_error = []\<rparr>"

theorem boundary_never_raises_witness:
  "\<exists>pe g'. close_pass None (run group_step two_panels [Visited ''a'' False 0 0 (Some centring_miss) False])
     = Inr (pe, g') \<and> returns (start_pass g')"
  by (rule boundary_never_raises [OF two_panels_reachable])

lemma live_Nil: "live g = [] \<longleftrightarrow> (\<forall>q. \<not> is_live g q)"
  using set_live [of g] by (metis (mono_tags) Collect_empty_eq set_empty)

section \<open>Coming back\<close>

lemma back_fields:
  assumes "group_ok g" and "set_aside g p \<noteq> None"
  shows "is_live (clean_slate p g) p" and "q \<noteq> p \<Longrightarrow> is_live (clean_slate p g) q = is_live g q"
  using is_live_clean_slate [OF assms] by auto

text \<open>A panel that was set aside comes back clean: an operator's retry always returns, and so does
  the expiry of a centring set-aside, also when a deferral is still held and no other panel is live;
  the panel is live, unstruck and not visited in the pass, and no other panel's liveness changed.\<close>

theorem set_aside_comes_back:
  assumes "group_reachable g" and "set_aside g p \<noteq> None"
    and "f = retry_set_aside \<or> f = expire_set_aside \<and> set_aside_kind g p = Some CENTRING"
  shows "\<exists>g'. f p g = Inr g' \<and> is_live g' p \<and> failed g' p = 0 \<and> reject_visits g' p = 0 \<and>
    p \<notin> visited g' \<and> (\<forall>q. q \<noteq> p \<longrightarrow> is_live g' q = is_live g q \<and> failed g' q = failed g q)"
proof -
  note ok = reachable_ok [OF assms(1)]
  have m: "p \<in> set (ids g)" using ok members_okD(2) assms(2) by (auto simp: group_ok_def)
  note b = back_fields [OF ok assms(2)]
  from m assms(2,3) b show ?thesis
    by (cases "alone g p")
      (auto simp: retry_set_aside_def expire_set_aside_def Let_def begin_pass_alone_Inr clean_slate_def)
qed

text \<open>Below, the transient deferral of a panel that then completed is still held when the other
  panel's set-aside expires.\<close>

definition transient_solve :: deferral where
  "transient_solve = \<lparr>d_reason = ''the solve could not run'', d_kind = SOLVE_TRANSIENT, d_last_error = []\<rparr>"

definition held_while_away :: "group_event list" where
  "held_while_away = [Visited ''a'' False 0 0 (Some transient_solve) False, Noted_Complete ''a'',
     Put_Aside ''b'' ''haze'' CENTRING]"

theorem set_aside_comes_back_witness:
  "held_transient (run group_step two_panels held_while_away) = [(''a'', transient_solve)] \<and>
   (\<exists>g'. expire_set_aside ''b'' (run group_step two_panels held_while_away) = Inr g' \<and> is_live g' ''b'')"
proof -
  let ?g = "run group_step two_panels held_while_away"
  have h: "held_transient ?g = [(''a'', transient_solve)]" "set_aside ?g ''b'' = Some ''haze''"
    "set_aside_kind ?g ''b'' = Some CENTRING"
    by (simp_all add: two_panels_def group_init_def held_while_away_def set_aside_panel_def check_live_def
        put_aside_def ids_def is_live_def visit_outcome_def record_visit_def kind_is_def count_arg_def
        transient_solve_def deferred_outcome_def note_complete_def Let_def)
  with set_aside_comes_back [OF two_panels_reachable, of held_while_away "''b''" expire_set_aside]
  show ?thesis by auto
qed

section \<open>The pass rules: the sky's faults and the rig's are not the panels'\<close>

lemma sky_pass_close:
  assumes ok: "group_ok g" and sky: "sky_pass g"
  shows "\<exists>pe g'. close_pass cause g = Inr (pe, g') \<and> failed g' = failed g \<and>
    reject_visits g' = reject_visits g \<and> completed g' = completed g \<and>
    (pe_boundary pe = Centring_Hold \<and> set_aside g' = set_aside g \<or>
     pe_boundary pe = Set_Aside_All \<and> live g' = [])"
proof -
  from sky obtain pe where d: "decide_pass_end cause g = Inr ((pe, True, held_centring g), cleared g)"
    and b: "pe_boundary pe = Centring_Hold"
    by (cases rule: decide_cases [OF ok, of cause]) (auto simp: rig_pass_def)
  let ?f = "same_fault (cleared g) (held_centring g) \<or> snd (held_limit (cleared g)) \<le> held_streak (cleared g) + 1"
  show ?thesis
  proof (cases ?f)
    case True
    from held_rule_cases(2) [OF this, of pe] show ?thesis
      by (auto simp: close_pass_def d) (auto simp: live_Nil)
  next
    case False
    from held_rule_cases(3) [OF this, of pe] show ?thesis
      using b by (auto simp: close_pass_def d)
  qed
qed

text \<open>A pass in which every panel tried missed its centring (two or more of them, or all the live
  ones) is the sky's: no panel is struck, none completes, and either none is set aside and the group
  holds, or the held passes are over and the whole group is set aside.\<close>

theorem sky_pass_strikes_nobody:
  assumes "group_reachable g" and "centring_failed g = centring_attempted g"
    and "2 \<le> card (centring_attempted g) \<or>
         1 \<le> card (centring_attempted g) \<and> card (centring_attempted g) = length (live g)"
  shows "\<exists>pe g'. close_pass cause g = Inr (pe, g') \<and> failed g' = failed g \<and>
    reject_visits g' = reject_visits g \<and> completed g' = completed g \<and>
    (pe_boundary pe = Centring_Hold \<and> set_aside g' = set_aside g \<or>
     pe_boundary pe = Set_Aside_All \<and> live g' = [])"
  by (rule sky_pass_close [OF reachable_ok [OF assms(1)]])
    (use assms(2,3) in \<open>auto simp: sky_pass_def centring_pass_verdict_def\<close>)

text \<open>The definitions a concrete visit evaluates.\<close>

lemmas visit_eval = visit_outcome_def record_visit_def kind_is_def check_live_def is_live_def ids_def
  count_arg_def deferred_outcome_def after_frames_def

definition both_miss :: "group_event list" where
  "both_miss = [Visited ''a'' False 0 0 (Some centring_miss) False,
     Visited ''b'' False 0 0 (Some centring_miss) False]"

lemma both_miss_facts:
  "centring_attempted (run group_step two_panels both_miss) = {''a'', ''b''}"
  "centring_failed (run group_step two_panels both_miss) = {''a'', ''b''}"
  by (auto simp: two_panels_def group_init_def both_miss_def visit_eval centring_miss_def)

theorem sky_pass_strikes_nobody_witness:
  "\<exists>pe g'. close_pass None (run group_step two_panels both_miss) = Inr (pe, g') \<and>
    failed g' = failed (run group_step two_panels both_miss)"
  using sky_pass_strikes_nobody [OF two_panels_reachable, of both_miss None]
  by (auto simp: both_miss_facts)

lemma count_held_others:
  "p \<notin> fst ` set hs \<Longrightarrow> failed (snd (snd (count_held hs g))) p = failed g p \<and>
     set_aside (snd (snd (count_held hs g))) p = set_aside g p"
proof (induction hs arbitrary: g)
  case (Cons h hs)
  obtain q d where h: "h = (q, d)" by force
  have "set_aside (snd (count_failure q d g)) p = set_aside g p" if "p \<noteq> q"
    using that by (simp add: count_failure_def Let_def)
  with Cons show ?case by (simp add: h count_held_Cons del: count_held.simps)
qed simp

text \<open>A pass in which the guider failed on every panel that asked for it (two or more) is the
  rig's: no failed guide start is counted against a panel. A strike can only come from a centring miss
  of a pass in which another panel centred, and nothing else is set aside.\<close>

theorem rig_pass_strikes_no_guide_failure:
  assumes "group_reachable g" and "2 \<le> guide_attempts g" and "guide_failures g = guide_attempts g"
    and "p \<notin> fst ` set (held_centring g)"
  shows "\<exists>pe g'. close_pass cause g = Inr (pe, g') \<and> failed g' p = failed g p \<and>
    (set_aside g' p = set_aside g p \<or> pe_boundary pe = Set_Aside_All) \<and>
    (pe_boundary pe = Guiding_Action \<or> sky_pass g)"
proof (cases "sky_pass g")
  case True
  with sky_pass_close [OF reachable_ok [OF assms(1)] True, of cause] show ?thesis by auto
next
  case False
  note ok = reachable_ok [OF assms(1)]
  from False have "rig_pass g" using assms(2,3) by (simp add: rig_pass_def guide_start_pass_verdict_def)
  with False obtain pe where d: "decide_pass_end cause g = Inr ((pe, False, []), counted_centring g)"
    and b: "pe_boundary pe = Guiding_Action"
    by (cases rule: decide_cases [OF ok, of cause]) auto
  have "failed (counted_centring g) p = failed g p" "set_aside (counted_centring g) p = set_aside g p"
    using count_held_others [OF assms(4), of "cleared g"] by (simp_all add: counted_centring_def)
  then show ?thesis using b by (simp add: close_pass_def d held_rule_cases(1))
qed

definition guider_down :: deferral where
  "guider_down = \<lparr>d_reason = ''guiding did not start'', d_kind = GUIDE_START, d_last_error = []\<rparr>"

definition both_unguided :: "group_event list" where
  "both_unguided = [Visited ''a'' False 0 0 (Some guider_down) False,
     Visited ''b'' False 0 0 (Some guider_down) False]"

theorem rig_pass_strikes_no_guide_failure_witness:
  "\<exists>pe g'. close_pass None (run group_step two_panels both_unguided) = Inr (pe, g') \<and>
    failed g' ''a'' = 0 \<and> pe_boundary pe = Guiding_Action"
proof -
  let ?g = "run group_step two_panels both_unguided"
  have f: "guide_attempts ?g = 2" "guide_failures ?g = 2" "held_centring ?g = []" "failed ?g ''a'' = 0"
    "centring_failed ?g = {}" "centring_attempted ?g = {''a'', ''b''}"
    by (auto simp: two_panels_def group_init_def both_unguided_def visit_eval guider_down_def)
  have "\<not> sky_pass ?g" by (simp add: sky_pass_def centring_pass_verdict_def f)
  with rig_pass_strikes_no_guide_failure [OF two_panels_reachable, of both_unguided "''a''" None]
  show ?thesis by (auto simp: f)
qed

section \<open>Held passes\<close>

text \<open>The held streak each boundary of a run reports: 0 where the pass was not held, or where the
  held passes ended in setting the group aside.\<close>

fun reported_streaks :: "group_run \<Rightarrow> group_event list \<Rightarrow> nat list" where
  "reported_streaks g [] = []"
| "reported_streaks g (e # es) = (case e of
     Close_Pass c \<Rightarrow> (case close_pass c g of Inl _ \<Rightarrow> [] | Inr (pe, _) \<Rightarrow> [pe_held_streak pe])
   | _ \<Rightarrow> []) @ reported_streaks (group_step g e) es"

lemma decide_streak:
  assumes "group_ok g" and "decide_pass_end c g = Inr ((pe, h, ds), g1)"
  shows "pe_held_streak pe = 0 \<and> held_streak g1 = held_streak g"
  using assms(2) by (cases rule: decide_cases [OF assms(1), of c]) auto

lemma close_pass_streak:
  assumes "group_ok g" and "close_pass c g = Inr (pe, g')" and "0 < pe_held_streak pe"
  shows "held_streak g' = held_streak g + 1 \<and> pe_held_streak pe = held_streak g'"
proof -
  obtain pe0 h ds g1 where d: "decide_pass_end c g = Inr ((pe0, h, ds), g1)"
    and a: "apply_held_pass_rule pe0 h ds g1 = (pe, g')"
    using assms(2) by (auto simp: close_pass_def split: sum.splits)
  note z = decide_streak [OF assms(1) d]
  from a assms(3) z show ?thesis
    by (auto simp: apply_held_pass_rule_def Let_def pass_end_of_def split_beta split: if_splits)
qed

lemma outcome_streak [simp]:
  "held_streak (recorded p n a gf gs miss transient g) = held_streak g"
  "held_streak (after_frames p b g) = held_streak g"
  "held_streak (snd (deferred_outcome p d g)) = held_streak g"
  "held_streak (snd (shot_outcome p n a prev g)) = held_streak g"
  by (simp_all add: recorded_def after_frames_def deferred_outcome_def shot_outcome_def Let_def)

lemma visit_streak: "visit_outcome p c ex ac d gs g = Inr r \<Longrightarrow> held_streak (snd r) = held_streak g"
  by (cases "record_visit p ex ac (kind_is d GUIDE_START) gs (kind_is d CENTRING)
        (kind_is d SOLVE_TRANSIENT) g"; cases d)
    (auto simp: visit_outcome_Inr record_visit_Inr split: if_splits)

lemma group_step_streak:
  assumes "\<forall>c. e \<noteq> Close_Pass c" and "\<forall>p. e \<noteq> Retry p"
  shows "held_streak (group_step g e) = held_streak g"
proof (cases e)
  case (Visited p c ex ac d gs)
  then show ?thesis by (cases "visit_outcome p c ex ac d gs g") (simp_all add: visit_streak)
next
  case (Noted_Visit p ex ac gs)
  then show ?thesis
    by (cases "record_visit p ex ac False gs False False g")
      (auto simp: note_visit_def record_visit_Inr)
next
  case (Expire p)
  then show ?thesis by (simp add: expire_set_aside_def begin_pass_alone_Inr clean_slate_def Let_def)
next
  case (Defer now w why)
  then show ?thesis by (simp add: defer_next_pass_def split: sum.split)
qed (use assms in \<open>simp_all add: note_let_through_def note_starved_def set_aside_panel_def
    set_aside_all_def note_complete_def start_pass_def Let_def split: sum.split\<close>)

lemma held_passes_count:
  "group_ok g \<Longrightarrow> \<forall>p. Retry p \<notin> set es \<Longrightarrow> \<forall>n \<in> set (reported_streaks g es). 0 < n \<Longrightarrow>
     held_streak g + length (reported_streaks g es) < HELD_PASS_SET_ASIDE_AT"
proof (induction es arbitrary: g)
  case Nil
  then show ?case by (simp add: group_ok_def pass_ok_def)
next
  case (Cons e es)
  have IH: "held_streak (group_step g e) + length (reported_streaks (group_step g e) es)
      < HELD_PASS_SET_ASIDE_AT"
    using Cons by (auto intro!: Cons.IH group_step_ok)
  show ?case
  proof (cases e)
    case (Close_Pass c)
    obtain pe g' where c: "close_pass c g = Inr (pe, g')" using close_pass_Inr [OF Cons.prems(1)] by blast
    have "held_streak g' = held_streak g + 1"
      using close_pass_streak [OF Cons.prems(1) c] Cons.prems(3) by (simp add: Close_Pass c)
    with IH show ?thesis by (simp add: Close_Pass c)
  next
    case (Retry p)
    then show ?thesis using Cons.prems(2) by auto
  qed (use IH group_step_streak [of e g] in auto)
qed

definition held_twice :: "group_event list" where
  "held_twice = both_miss @ [Close_Pass None, Start_Pass] @ both_miss @ [Close_Pass None]"

text \<open>Held passes are bounded: over any calls but an operator's retry, however the visits, waits
  and passes interleave, at most five boundaries in a row report a held pass that goes on; the sixth
  held pass sets the group aside.\<close>

theorem five_held_passes_at_most:
  assumes "group_reachable g" and "\<forall>p. Retry p \<notin> set es"
    and "\<forall>n \<in> set (reported_streaks g es). 0 < n"
  shows "length (reported_streaks g es) \<le> 5"
  using held_passes_count [OF reachable_ok [OF assms(1)] assms(2,3)]
  by (simp add: HELD_PASS_SET_ASIDE_AT_def)

theorem five_held_passes_at_most_witness:
  "length (reported_streaks two_panels held_twice) \<le> 5 \<and> reported_streaks two_panels held_twice = [1, 2]"
proof -
  have e: "reported_streaks two_panels held_twice = [1, 2]" by code_simp
  with five_held_passes_at_most [of two_panels held_twice] two_panels_reachable [of "[]"]
  show ?thesis by (simp add: held_twice_def both_miss_def)
qed

text \<open>The same rig-side reason twice is enough: when every deferral of a held pass gives one and
  the same error, other than the generic solve failure, and the held pass before it gave that error
  too, the boundary sets every live panel aside at once.\<close>

theorem same_fault_twice_sets_aside:
  assumes "group_reachable g" and "sky_pass g" and "held_pass_reason g = Some err"
    and "held_centring g \<noteq> []" and "\<forall>(p, d) \<in> set (held_centring g). d_last_error d = err"
    and "err \<noteq> []" and "err \<noteq> GENERIC_SOLVE_FAILURE"
  shows "\<exists>pe g'. close_pass cause g = Inr (pe, g') \<and> pe_boundary pe = Set_Aside_All \<and>
    map fst (pe_set_aside pe) = live g \<and> live g' = [] \<and> held_streak g' = 0"
proof -
  note ok = reachable_ok [OF assms(1)]
  from assms(2) obtain pe where d: "decide_pass_end cause g = Inr ((pe, True, held_centring g), cleared g)"
    by (cases rule: decide_cases [OF ok, of cause]) (auto simp: rig_pass_def)
  have "held_pass_reason_code (held_centring g) = Some err"
    using assms(4-7) by (cases "held_centring g") (auto simp: held_pass_reason_code_def)
  then have "same_fault (cleared g) (held_centring g)" using assms(3) by (simp add: same_fault_def)
  then show ?thesis
    using held_rule_cases(2) [of "cleared g" "held_centring g" pe]
    by (auto simp: close_pass_def d) (auto simp: live_Nil)
qed

definition camera_dead :: deferral where
  "camera_dead = \<lparr>d_reason = ''centring failed'', d_kind = CENTRING, d_last_error = ''locked file''\<rparr>"

definition locked_twice :: "group_event list" where
  "locked_twice = (let vs = [Visited ''a'' False 0 0 (Some camera_dead) False,
     Visited ''b'' False 0 0 (Some camera_dead) False] in vs @ [Close_Pass None, Start_Pass] @ vs)"

theorem same_fault_twice_sets_aside_witness:
  "\<exists>pe g'. close_pass None (run group_step two_panels locked_twice) = Inr (pe, g') \<and>
    pe_boundary pe = Set_Aside_All \<and> live g' = []"
proof -
  let ?g = "run group_step two_panels locked_twice"
  have "sky_pass ?g" "held_pass_reason ?g = Some ''locked file''"
    "held_centring ?g = [(''a'', camera_dead), (''b'', camera_dead)]" by code_simp+
  with same_fault_twice_sets_aside [OF two_panels_reachable, of locked_twice "''locked file''" None]
  show ?thesis by (auto simp: camera_dead_def GENERIC_SOLVE_FAILURE_def)
qed

text \<open>A starved last panel gets one held pass: when the only live panel was set aside whole on the
  nights before, the first pass it is held on sets it aside, as a panel and not as the group.\<close>

theorem starved_last_panel_gets_one_pass:
  assumes "group_reachable g" and "sky_pass g" and "live g = [p]" and "starved_nights g p = Some n"
    and "\<not> same_fault g (held_centring g)"
  shows "\<exists>pe g'. close_pass cause g = Inr (pe, g') \<and> pe_boundary pe = Set_Aside_All \<and>
    live g' = [] \<and> set_aside_kind g' p = Some ''deferred''"
proof -
  note ok = reachable_ok [OF assms(1)]
  from assms(2) obtain pe where d: "decide_pass_end cause g = Inr ((pe, True, held_centring g), cleared g)"
    by (cases rule: decide_cases [OF ok, of cause]) (auto simp: rig_pass_def)
  have "n \<noteq> 0" using ok assms(4) by (cases "n = 0") (auto simp: group_ok_def pass_ok_def)
  then have "snd (held_limit (cleared g)) \<le> held_streak (cleared g) + 1"
    using assms(3,4) by (simp add: held_limit_def Let_def dget_def HELD_PASS_STARVED_SET_ASIDE_AT_def)
  moreover have "\<not> same_fault (cleared g) (held_centring g)" using assms(5) by (simp add: same_fault_def)
  moreover have only: "is_live g q \<longleftrightarrow> q = p" for q using set_live [of g] assms(3) by auto
  ultimately show ?thesis
    using held_rule_cases(2) [of "cleared g" "held_centring g" pe] assms(3) only
    by (auto simp: close_pass_def d live_Nil)
qed

definition last_and_starved :: "group_event list" where
  "last_and_starved = [Note_Starved ''b'' 3, Visited ''a'' True 2 2 None False, Close_Pass None,
     Start_Pass, Visited ''b'' False 0 0 (Some centring_miss) False]"

theorem starved_last_panel_gets_one_pass_witness:
  "\<exists>pe g'. close_pass None (run group_step two_panels last_and_starved) = Inr (pe, g') \<and> live g' = [] \<and>
    set_aside_kind g' ''b'' = Some ''deferred''"
proof -
  let ?g = "run group_step two_panels last_and_starved"
  have "live ?g = [''b'']" "starved_nights ?g ''b'' = Some 3"
    "\<not> same_fault ?g (held_centring ?g)" "sky_pass ?g" by code_simp+
  with starved_last_panel_gets_one_pass [OF two_panels_reachable, of last_and_starved "''b''" 3 None]
  show ?thesis by blast
qed

section \<open>Strikes\<close>

lemma after_frames_fields [simp]:
  "failed (after_frames p False g) = failed g"
  "max_failed_visits (after_frames p b g) = max_failed_visits g"
  by (simp_all add: after_frames_def Let_def)

text \<open>A panel whose every visit is deferred for its own cause is struck once a visit.\<close>

lemma deferred_visit:
  assumes "is_live g p" and "d_kind d \<notin> {GUIDE_START, CENTRING, SOLVE_TRANSIENT}"
  shows "group_step g (Visited p False 0 0 (Some d) False) = snd (count_failure p d
    ((after_frames p False (recorded p 0 0 False False False False g))
      \<lparr>deferred_this_pass := deferred_this_pass g + 1\<rparr>))"
proof -
  have "record_visit p 0 0 False False False False g =
     Inr (dget (last_visit g) p 0, recorded p 0 0 False False False False g)"
    using assms(1) by (simp add: record_visit_Inr)
  then show ?thesis using assms(2)
    by (simp add: visit_outcome_Inr kind_is_def deferred_outcome_def Let_def)
      (simp add: after_frames_def Let_def)
qed

lemma deferred_visit_fields:
  assumes "is_live g p" and "d_kind d \<notin> {GUIDE_START, CENTRING, SOLVE_TRANSIENT}"
    and "g' = group_step g (Visited p False 0 0 (Some d) False)"
  shows "failed g' p = failed g p + 1" and "max_failed_visits g' = max_failed_visits g"
    and "is_live g' p \<longleftrightarrow> failed g p + 1 < max_failed_visits g"
proof -
  let ?h = "(after_frames p False (recorded p 0 0 False False False False g))
      \<lparr>deferred_this_pass := deferred_this_pass g + 1\<rparr>"
  have h: "failed ?h = failed g" "max_failed_visits ?h = max_failed_visits g" "is_live ?h = is_live g"
    by (simp_all add: after_frames_def Let_def)
  note e = deferred_visit [OF assms(1,2)]
  show "failed g' p = failed g p + 1" "max_failed_visits g' = max_failed_visits g"
    unfolding assms(3) e by (simp_all add: h)
  show "is_live g' p \<longleftrightarrow> failed g p + 1 < max_failed_visits g"
  proof (cases "failed ?h p + 1 < max_failed_visits ?h")
    case True
    from count_failure_cases(1) [OF True, of d] show ?thesis
      unfolding assms(3) e using True assms(1) by (simp add: h struck_def)
  next
    case False
    from count_failure_cases(2) [OF False, of d] obtain r k where
      "snd (count_failure p d ?h) = put_aside p r k (struck p d ?h)" by blast
    then show ?thesis unfolding assms(3) e using False by (simp add: h)
  qed
qed

text \<open>The bound on failures is exact: an unstruck live panel whose visits are all deferred for a
  cause of its own stays in the rotation for the first \<open>max_failed_visits - 1\<close> of them and is set
  aside by the next one.\<close>

theorem set_aside_at_the_bound:
  assumes "group_reachable g" and "is_live g p" and "failed g p = 0"
    and "d_kind d \<notin> {GUIDE_START, CENTRING, SOLVE_TRANSIENT}" and "0 < k" and "k \<le> max_failed_visits g"
  shows "is_live (run group_step g (replicate k (Visited p False 0 0 (Some d) False))) p
    \<longleftrightarrow> k < max_failed_visits g"
proof -
  let ?v = "Visited p False 0 0 (Some d) False"
  have "failed g p + k \<le> max_failed_visits g \<Longrightarrow> 0 < k \<Longrightarrow> is_live g p \<Longrightarrow>
    is_live (run group_step g (replicate k ?v)) p \<longleftrightarrow> failed g p + k < max_failed_visits g" for k g
  proof (induction k arbitrary: g)
    case (Suc k)
    note f = deferred_visit_fields [OF Suc.prems(3) assms(4) refl]
    show ?case
    proof (cases "k = 0")
      case True
      then show ?thesis using f(3) by simp
    next
      case False
      then have "is_live (group_step g ?v) p" using f(3) Suc.prems(1) by simp
      then show ?thesis using Suc.IH [of "group_step g ?v"] f(1,2) False Suc.prems(1) by simp
    qed
  qed simp
  from this [of g k] assms show ?thesis by simp
qed

definition stopped :: deferral where
  "stopped = \<lparr>d_reason = ''the target was stopped'', d_kind = TARGET_STOP, d_last_error = []\<rparr>"

theorem set_aside_at_the_bound_witness:
  "is_live (run group_step two_panels (replicate 2 (Visited ''a'' False 0 0 (Some stopped) False))) ''a'' \<and>
   \<not> is_live (run group_step two_panels (replicate 3 (Visited ''a'' False 0 0 (Some stopped) False))) ''a''"
proof -
  have f: "is_live two_panels ''a''" "failed two_panels ''a'' = 0" "max_failed_visits two_panels = 3"
    by (simp_all add: two_panels_def group_init_def is_live_def ids_def)
  have r: "group_reachable two_panels" using two_panels_reachable [of "[]"] by simp
  have k: "d_kind stopped \<notin> {GUIDE_START, CENTRING, SOLVE_TRANSIENT}" by (simp add: stopped_def kind_defs)
  show ?thesis
    using set_aside_at_the_bound [OF r f(1,2) k, of 2] set_aside_at_the_bound [OF r f(1,2) k, of 3] f(3)
    by simp
qed

text \<open>The engine's calls of a night on which no frame is accepted.\<close>

fun no_accept :: "group_event \<Rightarrow> bool" where
  "no_accept (Visited p c ex ac d gs) = (ac \<le> 0)"
| "no_accept (Noted_Visit p ex ac gs) = (ac \<le> 0)"
| "no_accept (Put_Aside p r k) = (k \<noteq> ''rejects'')"
| "no_accept (Put_All_Aside r k) = (k \<noteq> ''rejects'')"
| "no_accept _ = True"

definition unjudged :: "group_run \<Rightarrow> bool" where
  "unjudged g = (last_accept g = Map.empty \<and> (\<forall>p. reject_visits g p = 0) \<and>
     (\<forall>p. set_aside_kind g p \<noteq> Some ''rejects''))"

lemma unjudged_put_aside: "unjudged g \<Longrightarrow> k \<noteq> ''rejects'' \<Longrightarrow> unjudged (put_aside p r k g)"
  by (simp add: unjudged_def)

lemma unjudged_put_all: "unjudged g \<Longrightarrow> k \<noteq> ''rejects'' \<Longrightarrow> unjudged (put_all_aside ps r k g)"
  by (induction ps arbitrary: g) (simp_all add: unjudged_put_aside)

lemma streak_kind_not_rejects: "streak_kind S \<noteq> ''rejects''"
  by (simp add: streak_kind_def kind_defs)

lemma unjudged_count: "unjudged g \<Longrightarrow> unjudged (snd (count_failure p d g))"
proof (cases "failed g p + 1 < max_failed_visits g")
  case True
  moreover assume "unjudged g"
  ultimately show ?thesis using count_failure_cases(1) [OF True, of d]
    by (simp add: unjudged_def struck_def)
next
  case False
  moreover assume "unjudged g"
  then have "unjudged (struck p d g)" by (simp add: unjudged_def struck_def)
  ultimately show ?thesis using count_failure_cases(2) [OF False, of d] streak_kind_not_rejects
    by (auto intro!: unjudged_put_aside)
qed

lemma unjudged_count_held: "unjudged g \<Longrightarrow> unjudged (snd (snd (count_held hs g)))"
  by (induction hs arbitrary: g;
      simp add: count_held_Cons unjudged_count split_paired_all del: count_held.simps(2))

lemma unjudged_decide:
  assumes "group_ok g" and "unjudged g"
  shows "keeps (\<lambda>r. unjudged (snd r)) (decide_pass_end c g)"
proof -
  have u: "unjudged (cleared g)" using assms(2) by (simp add: unjudged_def cleared_def)
  then have "unjudged (counted_centring g)" "unjudged (counted_all g)"
    by (simp_all add: counted_all_def counted_centring_def unjudged_count_held)
  with u show ?thesis
    by (cases rule: decide_cases [OF assms(1), of c]) (simp_all add: unjudged_put_all)
qed

lemma unjudged_close:
  assumes "group_ok g" and "unjudged g"
  shows "keeps (\<lambda>r. unjudged (snd r)) (close_pass c g)"
proof (cases "decide_pass_end c g")
  case (Inr r)
  obtain pe h ds g1 where r: "r = ((pe, h, ds), g1)" by (cases r) auto
  have "unjudged g1" using unjudged_decide [OF assms, of c] by (simp add: Inr r)
  moreover have "unjudged (g'\<lparr>held_streak := n, held_pass_reason := x\<rparr>) = unjudged g'" for g' n x
    by (simp add: unjudged_def)
  ultimately have "unjudged (snd (apply_held_pass_rule pe h ds g1))"
    by (simp add: apply_held_pass_rule_def set_aside_all_def Let_def split_beta unjudged_put_all)
  then show ?thesis by (simp add: close_pass_def Inr r)
qed (simp add: close_pass_def)

lemma unjudged_visit:
  assumes "unjudged g" and "ac \<le> 0"
  shows "keeps (\<lambda>r. unjudged (snd r)) (visit_outcome p c ex ac d gs g)"
proof -
  have rec: "unjudged (recorded p n (nat ac) gf b miss transient g)" for n gf b miss transient
    using assms by (simp add: unjudged_def recorded_def)
  have af: "unjudged (after_frames p b h)" if "unjudged h" for b h
    using that by (simp add: unjudged_def after_frames_def Let_def)
  have z: "nat ac = 0" "\<not> 0 < ac" using assms(2) by simp_all
  have shot: "unjudged (snd (shot_outcome p n 0 prev h))" if "unjudged h" for n prev h
  proof -
    have "\<not> another_live_accepted_since h p prev"
      using that by (simp add: another_live_accepted_since_def unjudged_def)
    with that show ?thesis by (simp add: shot_outcome_def Let_def)
  qed
  have defo: "unjudged (snd (deferred_outcome p d h))" if "unjudged h" for d h
  proof -
    have "unjudged (h\<lparr>deferred_this_pass := n\<rparr>)" for n using that by (simp add: unjudged_def)
    from unjudged_count [OF this] that show ?thesis
      by (simp add: deferred_outcome_def Let_def) (simp add: unjudged_def)
  qed
  have comp: "unjudged (h\<lparr>completed := X\<rparr>)" if "unjudged h" for h X
    using that by (simp add: unjudged_def)
  show ?thesis
    by (cases "record_visit p ex ac (kind_is d GUIDE_START) gs (kind_is d CENTRING)
        (kind_is d SOLVE_TRANSIENT) g"; cases d)
      (auto simp: visit_outcome_Inr record_visit_Inr z intro!: shot defo comp rec [unfolded z] af)
qed

lemma unjudged_step:
  assumes "group_ok g" and "unjudged g" and "no_accept e"
  shows "unjudged (group_step g e)"
proof (cases e)
  case (Visited p c ex ac d gs)
  then show ?thesis
    using unjudged_visit [OF assms(2), of ac p c ex d gs] assms(2,3)
    by (cases "visit_outcome p c ex ac d gs g") simp_all
next
  case (Close_Pass c)
  then show ?thesis using unjudged_close [OF assms(1,2), of c] assms(2)
    by (cases "close_pass c g") simp_all
next
  case (Noted_Visit p ex ac gs)
  then show ?thesis using assms(2,3)
    by (cases "record_visit p ex ac False gs False False g")
      (auto simp: note_visit_def record_visit_Inr recorded_def unjudged_def)
next
  case (Expire p)
  then show ?thesis using assms(2)
    by (simp add: expire_set_aside_def begin_pass_alone_Inr clean_slate_def unjudged_def Let_def)
next
  case (Retry p)
  then show ?thesis using assms(2)
    by (simp add: retry_set_aside_def begin_pass_alone_Inr clean_slate_def unjudged_def Let_def)
next
  case (Defer now w why)
  then show ?thesis using assms(2)
    by (simp add: defer_next_pass_def unjudged_def split: sum.split)
next
  case (Put_Aside p r k)
  then show ?thesis using assms(2,3)
    by (simp add: set_aside_panel_def unjudged_put_aside split: sum.split)
next
  case (Put_All_Aside r k)
  then show ?thesis using assms(2,3) by (simp add: set_aside_all_def unjudged_put_all Let_def)
qed (use assms(2) in \<open>simp_all add: note_let_through_def note_starved_def note_complete_def start_pass_def
    unjudged_def split: sum.split\<close>)

lemma unjudged_run:
  "group_ok g \<Longrightarrow> unjudged g \<Longrightarrow> \<forall>e \<in> set es. no_accept e \<Longrightarrow> unjudged (run group_step g es)"
  by (induction es arbitrary: g) (simp_all add: group_step_ok unjudged_step)

text \<open>When the sky rejects everything no panel is blamed: over a whole night on which no frame of
  any panel is accepted, however often every panel's frames are all rejected, no panel collects a
  rejecting visit and none is set aside for its rejects.\<close>

theorem all_rejected_blames_nobody:
  assumes "group_init ms n = Inr g0" and "distinct (map fst ms)" and "\<forall>e \<in> set es. no_accept e"
  shows "reject_visits (run group_step g0 es) p = 0 \<and>
    set_aside_kind (run group_step g0 es) p \<noteq> Some ''rejects''"
proof -
  have "unjudged g0" using assms(1) by (auto simp: group_init_def unjudged_def split: if_splits)
  from unjudged_run [OF group_init_ok [OF assms(1,2)] this assms(3)] show ?thesis
    by (simp add: unjudged_def)
qed

theorem all_rejected_blames_nobody_witness:
  "reject_visits (run group_step two_panels (concat (replicate 4
     [Visited ''a'' False 5 0 None False, Visited ''b'' False 5 0 None False]))) ''a'' = 0"
  using all_rejected_blames_nobody [of "[(''a'', ''A''), (''b'', ''B'')]" 3 two_panels
    "concat (replicate 4 [Visited ''a'' False 5 0 None False, Visited ''b'' False 5 0 None False])" "''a''"]
  by (auto simp: two_panels_def group_init_def)

section \<open>Completion\<close>

lemma visit_completed:
  "visit_outcome p c ex ac d gs g = Inr r \<Longrightarrow> completed g \<subseteq> completed (snd r)"
proof -
  have o: "completed (snd (deferred_outcome p d h)) = completed h"
    "completed (snd (shot_outcome p n a prev h)) = completed h"
    "completed (after_frames p b h) = completed h" for d n a prev h b
    by (simp_all add: deferred_outcome_def shot_outcome_def after_frames_def Let_def)
  show "visit_outcome p c ex ac d gs g = Inr r \<Longrightarrow> completed g \<subseteq> completed (snd r)"
    by (cases "record_visit p ex ac (kind_is d GUIDE_START) gs (kind_is d CENTRING)
        (kind_is d SOLVE_TRANSIENT) g"; cases d)
      (auto simp: visit_outcome_Inr record_visit_Inr o split: if_splits)
qed

lemma close_completed:
  assumes "group_ok g" and "close_pass c g = Inr r"
  shows "completed g \<subseteq> completed (snd r)"
proof -
  obtain pe h ds g1 where d: "decide_pass_end c g = Inr ((pe, h, ds), g1)"
    and a: "apply_held_pass_rule pe h ds g1 = r"
    using assms(2) by (auto simp: close_pass_def split: sum.splits)
  have "completed g1 = completed g"
    using d by (cases rule: decide_cases [OF assms(1), of c]) auto
  moreover have "completed (snd (apply_held_pass_rule pe h ds g1)) = completed g1"
    by (simp add: apply_held_pass_rule_def set_aside_all_def Let_def split_beta)
  ultimately show ?thesis using a by simp
qed

lemma group_step_completed:
  assumes "group_ok g"
  shows "completed g \<subseteq> completed (group_step g e)"
proof (cases e)
  case (Visited p c ex ac d gs)
  then show ?thesis using visit_completed [of p c ex ac d gs g]
    by (cases "visit_outcome p c ex ac d gs g") simp_all
next
  case (Close_Pass c)
  then show ?thesis using close_completed [OF assms, of c] by (cases "close_pass c g") simp_all
next
  case (Noted_Visit p ex ac gs)
  then show ?thesis
    by (cases "record_visit p ex ac False gs False False g")
      (auto simp: note_visit_def record_visit_Inr)
next
  case (Expire p)
  then show ?thesis by (simp add: expire_set_aside_def begin_pass_alone_Inr clean_slate_def Let_def)
next
  case (Retry p)
  then show ?thesis by (simp add: retry_set_aside_def begin_pass_alone_Inr clean_slate_def Let_def)
next
  case (Noted_Complete p)
  then show ?thesis by (auto simp: note_complete_def settle_def split: sum.split)
next
  case (Defer now w why)
  then show ?thesis by (simp add: defer_next_pass_def split: sum.split)
qed (simp_all add: note_let_through_def note_starved_def set_aside_panel_def
    set_aside_all_def start_pass_def Let_def split: sum.split)

lemma run_completed: "group_ok g \<Longrightarrow> completed g \<subseteq> completed (run group_step g es)"
proof (induction es arbitrary: g)
  case (Cons e es)
  from Cons.IH [OF group_step_ok [OF Cons.prems]] group_step_completed [OF Cons.prems] show ?case
    by fastforce
qed simp

text \<open>A completed panel is done for the night: whatever is called afterwards (set-asides,
  expiries, retries, new passes), it stays complete, is never live or set aside, and a further visit
  to it is refused without changing anything.\<close>

theorem complete_is_final:
  assumes "group_reachable g" and "p \<in> completed g" and "g' = run group_step g es"
  shows "p \<in> completed g' \<and> p \<notin> set (live g') \<and> set_aside g' p = None \<and>
    visit_outcome p c ex ac d gs g' = Inl ValueError"
proof -
  note ok = reachable_ok [OF assms(1)]
  have c: "p \<in> completed g'" using run_completed [OF ok, of es] assms(2,3) by auto
  then have l: "\<not> is_live g' p" by (simp add: is_live_def)
  have "set_aside g' p = None"
    using members_okD(1) [OF _ c] grp.inv_run [OF ok, of es] assms(3) by (simp add: group_ok_def)
  with c l show ?thesis by (simp add: visit_outcome_Inr record_visit_def check_live_Inl)
qed

theorem complete_is_final_witness:
  "\<not> is_live (run group_step two_panels [Visited ''a'' True 2 2 None False, Close_Pass None, Start_Pass,
     Retry ''a'']) ''a''"
proof -
  let ?g = "run group_step two_panels [Visited ''a'' True 2 2 None False]"
  have "''a'' \<in> completed ?g" by (simp add: two_panels_def group_init_def visit_eval)
  from complete_is_final [OF two_panels_reachable this refl, of "[Close_Pass None, Start_Pass, Retry ''a'']"]
  show ?thesis by simp
qed

end
