(* ===== verification/Group_Meridian.thy ===== *)
theory Group_Meridian
  imports Group_Rules
begin

text \<open>
  The mosaic group's rules on the sky, the second half of \<open>server/astrodeck/sequence/group_rules.py\<close>:
  which panels may shoot around the meridian (\<open>meridian_eligibility\<close>), the RA span of a grid, the idle
  before the flip, the first clear instant of a blocked panel (\<open>forward_clear_ts\<close>) and what the
  camera-angle check means for a panel (\<open>angle_decision\<close>).

  The panels of \<open>meridian_eligibility\<close> are a dict in its order: an association list with distinct
  keys, and so is its answer.
\<close>

definition SOLAR_PER_SIDEREAL :: rat where "SOLAR_PER_SIDEREAL = 9972696 / 10000000"

section \<open>The meridian\<close>

record panel_meridian =
  pm_h_p :: pyfloat
  pm_f_h :: pyfloat
  pm_skip :: bool

record meridian_verdict =
  mv_eligible :: bool
  mv_deadline_h :: "rat option"
  mv_wake_h :: "rat option"
  mv_reason :: string

definition shoots :: "rat option \<Rightarrow> string \<Rightarrow> meridian_verdict" where
  "shoots deadline why = \<lparr>mv_eligible = True, mv_deadline_h = deadline, mv_wake_h = None, mv_reason = why\<rparr>"

definition waits :: "rat \<Rightarrow> string \<Rightarrow> meridian_verdict" where
  "waits wake why = \<lparr>mv_eligible = False, mv_deadline_h = None, mv_wake_h = Some wake, mv_reason = why\<rparr>"

text \<open>The validated facts of a panel, and the night's: the lead, the hop, the band past the crossing,
  whether the group has flipped and whether the plan flips at all.\<close>

record mer_facts =
  m_h :: rat
  m_f :: rat
  m_skip :: bool

record night =
  n_lead :: rat
  n_hop :: rat
  n_crossed :: rat
  n_flipped :: bool
  n_flips :: bool

definition facts_of :: "panel_meridian \<Rightarrow> mer_facts res" where
  "facts_of p = (case finite_arg (pm_h_p p) of Inl e \<Rightarrow> Inl e | Inr h \<Rightarrow>
     case nonneg_arg (pm_f_h p) of Inl e \<Rightarrow> Inl e | Inr f \<Rightarrow>
     Inr \<lparr>m_h = h, m_f = f, m_skip = pm_skip p\<rparr>)"

text \<open>The first loop: a panel past the meridian of a group that has not flipped has no verdict yet
  (\<open>None\<close>, the code's list \<open>post\<close>).\<close>

definition rule_off :: "night \<Rightarrow> mer_facts \<Rightarrow> bool" where
  "rule_off n m = (\<not> n_flips n \<or> m_skip m)"

definition first_verdict :: "night \<Rightarrow> mer_facts \<Rightarrow> meridian_verdict option" where
  "first_verdict n m =
     (if rule_off n m then Some (shoots None (''the meridian rule is off''
        @ (if m_skip m \<and> n_flips n then '' for this panel: its flip can be skipped''
           else '': meridian flips are off'')))
      else if n_flipped n then
        (if m_h m \<le> - n_crossed n
         then Some (shoots None ''past the meridian, on the side the group flipped to'')
         else Some (waits (m_h m + n_crossed n)
           ''the group has flipped; this panel waits for its meridian crossing, since going back would be a second pier change''))
      else if m_h m \<le> - n_crossed n then None
      else if m_h m \<le> 0 then Some (waits (m_h m + n_crossed n)
        ''just past its meridian crossing; waiting until the mount's side there is not in doubt'')
      else let room = m_h m - n_lead n in
        if n_hop n + m_f m \<le> room then Some (shoots (Some room)
          ''before the meridian with room for a hop and a frame; the visit ends before its flip point'')
        else Some (waits (m_h m + n_crossed n)
          ''too little room before its flip point for a hop and one frame; waiting for its meridian crossing''))"

text \<open>When each panel that may still shoot before the flip runs out of room.\<close>

definition has_room :: "night \<Rightarrow> mer_facts \<Rightarrow> bool" where
  "has_room n m = (\<not> rule_off n m \<and> \<not> n_flipped n \<and> \<not> m_h m \<le> - n_crossed n \<and> \<not> m_h m \<le> 0 \<and>
     n_hop n + m_f m \<le> m_h m - n_lead n)"

definition pre_room_left :: "night \<Rightarrow> mer_facts list \<Rightarrow> rat list" where
  "pre_room_left n ms = map (\<lambda>m. m_h m - n_lead n - n_hop n - m_f m) (filter (has_room n) ms)"

definition post_verdict :: "rat list \<Rightarrow> meridian_verdict" where
  "post_verdict rooms = (case rooms of
     r # rs \<Rightarrow> waits (foldl max r rs)
       ''past the meridian, held while a panel before the meridian can still shoot, so the group changes pier side once''
   | [] \<Rightarrow> shoots None ''past the meridian, and no panel before the meridian can shoot'')"

definition verdict_of :: "night \<Rightarrow> mer_facts list \<Rightarrow> mer_facts \<Rightarrow> meridian_verdict" where
  "verdict_of n ms m = (case first_verdict n m of Some v \<Rightarrow> v
     | None \<Rightarrow> post_verdict (pre_room_left n ms))"

definition meridian_eligibility :: "(string \<times> panel_meridian) list \<Rightarrow> pyfloat \<Rightarrow> pyfloat \<Rightarrow> bool \<Rightarrow>
    bool \<Rightarrow> pyfloat \<Rightarrow> (string \<times> meridian_verdict) list res" where
  "meridian_eligibility panels lead_h hop_h is_flipped meridian_flip crossed_h =
     (case nonneg_arg lead_h of Inl e \<Rightarrow> Inl e | Inr lead \<Rightarrow>
      case nonneg_arg hop_h of Inl e \<Rightarrow> Inl e | Inr hop \<Rightarrow>
      case nonneg_arg crossed_h of Inl e \<Rightarrow> Inl e | Inr crossed \<Rightarrow>
      case res_map (facts_of \<circ> snd) panels of Inl e \<Rightarrow> Inl e | Inr ms \<Rightarrow>
      let n = \<lparr>n_lead = lead, n_hop = hop, n_crossed = crossed, n_flipped = is_flipped,
               n_flips = meridian_flip\<rparr>
      in Inr (zip (map fst panels) (map (verdict_of n ms) ms)))"

section \<open>Spans and idle times\<close>

definition ra_gaps :: "rat list \<Rightarrow> rat list" where
  "ra_gaps ras = map (\<lambda>(a, b). b - a) (zip ras (tl ras)) @ [hd ras + 24 - last ras]"

definition ra_span_sidereal_h :: "pyfloat list \<Rightarrow> rat res" where
  "ra_span_sidereal_h ra_hours =
     (case res_map finite_arg ra_hours of Inl e \<Rightarrow> Inl e | Inr rs \<Rightarrow>
      let ras = sort (map (\<lambda>r. pymod r 24) rs) in
      if ras = [] then Inl ValueError else Inr (24 - Max (set (ra_gaps ras))))"

definition ra_span_solar_h :: "pyfloat list \<Rightarrow> rat res" where
  "ra_span_solar_h ra_hours = map_sum id (\<lambda>s. s * SOLAR_PER_SIDEREAL) (ra_span_sidereal_h ra_hours)"

definition whole_visit_s :: "int \<Rightarrow> pyfloat \<Rightarrow> int \<Rightarrow> pyfloat \<Rightarrow> pyfloat \<Rightarrow> rat res" where
  "whole_visit_s passes pass_shutter_s frames_per_pass overhead_s hop_s =
     (if passes < 1 then Inl ValueError
      else case count_arg frames_per_pass of Inl e \<Rightarrow> Inl e | Inr frames \<Rightarrow>
      case nonneg_arg pass_shutter_s of Inl e \<Rightarrow> Inl e | Inr shutter \<Rightarrow>
      case nonneg_arg overhead_s of Inl e \<Rightarrow> Inl e | Inr overhead \<Rightarrow>
      case nonneg_arg hop_s of Inl e \<Rightarrow> Inl e | Inr hop \<Rightarrow>
      Inr (of_int passes * (shutter + of_nat frames * overhead) + hop))"

definition preflip_idle_cut_h :: "pyfloat \<Rightarrow> pyfloat \<Rightarrow> pyfloat \<Rightarrow> pyfloat \<Rightarrow> rat res" where
  "preflip_idle_cut_h lead_h hop_h f_h span_h =
     (case nonneg_arg lead_h of Inl e \<Rightarrow> Inl e | Inr lead \<Rightarrow>
      case nonneg_arg hop_h of Inl e \<Rightarrow> Inl e | Inr hop \<Rightarrow>
      case nonneg_arg f_h of Inl e \<Rightarrow> Inl e | Inr f \<Rightarrow>
      case nonneg_arg span_h of Inl e \<Rightarrow> Inl e | Inr s \<Rightarrow> Inr (max 0 (lead + hop + f - s)))"

definition preflip_idle_whole_h :: "pyfloat \<Rightarrow> pyfloat \<Rightarrow> pyfloat \<Rightarrow> rat res" where
  "preflip_idle_whole_h visit_h lead_h span_h =
     (case nonneg_arg visit_h of Inl e \<Rightarrow> Inl e | Inr visit \<Rightarrow>
      case nonneg_arg lead_h of Inl e \<Rightarrow> Inl e | Inr lead \<Rightarrow>
      case nonneg_arg span_h of Inl e \<Rightarrow> Inl e | Inr s \<Rightarrow> Inr (max 0 (visit + lead - s)))"

section \<open>The first clear instant\<close>

text \<open>The loop over the grid: the remaining steps and the instant.\<close>

fun first_clear :: "(rat \<Rightarrow> bool) \<Rightarrow> rat \<Rightarrow> rat \<Rightarrow> nat \<Rightarrow> rat option" where
  "first_clear clear step t 0 = None"
| "first_clear clear step t (Suc k) = (if clear t then Some t else first_clear clear step (t + step) k)"

definition grid_steps :: "rat \<Rightarrow> rat \<Rightarrow> nat" where
  "grid_steps horizon step = nat \<lfloor>horizon / step + 1 / 10 ^ 9\<rfloor>"

definition forward_clear_ts :: "(rat \<Rightarrow> bool) \<Rightarrow> pyfloat \<Rightarrow> pyfloat \<Rightarrow> pyfloat \<Rightarrow> rat option res" where
  "forward_clear_ts clear now horizon_s step_s =
     (case finite_arg now of Inl e \<Rightarrow> Inl e | Inr t0 \<Rightarrow>
      case nonneg_arg horizon_s of Inl e \<Rightarrow> Inl e | Inr horizon \<Rightarrow>
      case finite_arg step_s of Inl e \<Rightarrow> Inl e | Inr step \<Rightarrow>
      if step \<le> 0 then Inl ValueError
      else Inr (first_clear clear step t0 (grid_steps horizon step + 1)))"

section \<open>The camera angle\<close>

datatype angle_action = Shoot | Shoot_Logged | Warn | Defer_Panel | Set_Group_Aside

record angle_decision =
  ad_action :: angle_action
  ad_why :: string

definition angle_refusal :: "angle_decision \<Rightarrow> bool \<Rightarrow> bool \<Rightarrow> angle_decision" where
  "angle_refusal refusal shoot_anyway single_panel =
     (if shoot_anyway then \<lparr>ad_action = Warn,
        ad_why = ad_why refusal @ '' (shooting anyway, as this mosaic asks)''\<rparr>
      else if single_panel then \<lparr>ad_action = Warn, ad_why = ad_why refusal
        @ '' (a single panel has no neighbours to leave a hole beside, so it only warns)''\<rparr>
      else refusal)"

definition decide_angle :: "string \<Rightarrow> bool \<Rightarrow> bool \<Rightarrow> bool \<Rightarrow> bool \<Rightarrow> bool \<Rightarrow> angle_decision res" where
  "decide_angle kind rotates verified rotator_evidence shoot_anyway single_panel =
     (if kind \<notin> {''ok'', ''off'', ''no_measurement''} then Inl ValueError
      else if kind = ''ok'' then
        Inr \<lparr>ad_action = Shoot, ad_why = ''the camera is at the mosaic's angle''\<rparr>
      else if kind = ''off'' then
        Inr (angle_refusal
          (if rotates then \<lparr>ad_action = Defer_Panel, ad_why =
             ''the rotator did not bring the camera to the mosaic's angle; the panel is retried on the next pass''\<rparr>
           else \<lparr>ad_action = Set_Group_Aside, ad_why =
             ''a fixed camera cannot turn itself: turn the camera or re-frame at the measured angle''\<rparr>)
          shoot_anyway single_panel)
      else if \<not> rotates then
        (if verified then Inr \<lparr>ad_action = Shoot_Logged, ad_why =
           ''angle not re-measured on this hop; the camera is fixed and was measured at the mosaic's angle earlier tonight''\<rparr>
         else Inr (angle_refusal \<lparr>ad_action = Defer_Panel, ad_why =
           ''angle not measured on this hop, and this fixed camera has not been measured tonight: tiles are never laid blind''\<rparr>
           shoot_anyway single_panel))
      else if rotator_evidence then Inr \<lparr>ad_action = Warn, ad_why =
        ''angle not measured on this hop; shooting on the calibrated rotator's own report that it reached the mosaic's angle''\<rparr>
      else Inr (angle_refusal \<lparr>ad_action = Defer_Panel, ad_why =
        ''angle not measured on this hop, and the rotator gave no evidence that it reached the mosaic's angle''\<rparr>
        shoot_anyway single_panel))"

section \<open>Properties of the meridian rule\<close>

lemma facts_of_Inr:
  "facts_of p = Inr m \<Longrightarrow> pm_h_p p = Fin (m_h m) \<and> pm_f_h p = Fin (m_f m) \<and> 0 \<le> m_f m \<and>
     m_skip m = pm_skip p"
  by (cases m) (auto simp: facts_of_def split: sum.splits)

lemma meridian_nth:
  assumes "meridian_eligibility panels lead_h hop_h fl flips crossed_h = Inr vs"
  obtains n ms where "lead_h = Fin (n_lead n)" "hop_h = Fin (n_hop n)" "crossed_h = Fin (n_crossed n)"
    "0 \<le> n_lead n" "0 \<le> n_hop n" "0 \<le> n_crossed n" "n_flipped n = fl" "n_flips n = flips"
    "length ms = length panels" "length vs = length panels"
    "\<And>i. i < length panels \<Longrightarrow> pm_h_p (snd (panels ! i)) = Fin (m_h (ms ! i)) \<and>
       pm_f_h (snd (panels ! i)) = Fin (m_f (ms ! i)) \<and> 0 \<le> m_f (ms ! i) \<and>
       m_skip (ms ! i) = pm_skip (snd (panels ! i)) \<and>
       vs ! i = (fst (panels ! i), verdict_of n ms (ms ! i))"
proof -
  from assms obtain lead hop crossed ms where v: "lead_h = Fin lead" "0 \<le> lead" "hop_h = Fin hop" "0 \<le> hop"
    "crossed_h = Fin crossed" "0 \<le> crossed" "res_map (facts_of \<circ> snd) panels = Inr ms"
    and vs: "vs = zip (map fst panels) (map (verdict_of \<lparr>n_lead = lead, n_hop = hop,
       n_crossed = crossed, n_flipped = fl, n_flips = flips\<rparr> ms) ms)"
    by (auto simp: meridian_eligibility_def Let_def split: sum.splits)
  let ?n = "\<lparr>n_lead = lead, n_hop = hop, n_crossed = crossed, n_flipped = fl, n_flips = flips\<rparr>"
  note la = res_map_Inr [OF v(7)]
  have len: "length ms = length panels" using list_all2_lengthD [OF la] by simp
  have nth: "pm_h_p (snd (panels ! i)) = Fin (m_h (ms ! i)) \<and> pm_f_h (snd (panels ! i)) = Fin (m_f (ms ! i)) \<and>
    0 \<le> m_f (ms ! i) \<and> m_skip (ms ! i) = pm_skip (snd (panels ! i))" if "i < length panels" for i
    using facts_of_Inr [of "snd (panels ! i)" "ms ! i"] list_all2_nthD [OF la that] by simp
  show ?thesis
    by (rule that [of ?n ms]) (use v len nth in \<open>simp_all add: vs\<close>)
qed

lemma pre_room_left_Nil: "pre_room_left n ms = [] \<longleftrightarrow> (\<forall>m \<in> set ms. \<not> has_room n m)"
  by (auto simp: pre_room_left_def filter_empty_conv)

lemma eligible_iff:
  assumes "\<not> rule_off n m"
  shows "mv_eligible (verdict_of n ms m) \<longleftrightarrow>
    (if n_flipped n then m_h m \<le> - n_crossed n
     else has_room n m \<or> m_h m \<le> - n_crossed n \<and> (\<forall>m \<in> set ms. \<not> has_room n m))"
  using assms pre_room_left_Nil [of n ms]
  by (cases "pre_room_left n ms")
    (auto simp: verdict_of_def first_verdict_def post_verdict_def shoots_def waits_def has_room_def Let_def)

text \<open>Which side of the meridian a panel is on, with the band past the crossing.\<close>

definition past_meridian :: "pyfloat \<Rightarrow> panel_meridian \<Rightarrow> bool" where
  "past_meridian crossed_h p = (case (pm_h_p p, crossed_h) of
     (Fin h, Fin c) \<Rightarrow> h \<le> - c | _ \<Rightarrow> False)"

text \<open>C3. At most one pier change per group and night: among the panels the meridian rule binds, those
  it lets shoot are always all on one side of the meridian, and once the group has flipped they are all
  past it, so no hop ever goes back.\<close>

theorem one_side_at_a_time:
  assumes "meridian_eligibility panels lead_h hop_h fl True crossed_h = Inr vs"
    and "i < length panels" and "j < length panels"
    and "\<not> pm_skip (snd (panels ! i))" and "\<not> pm_skip (snd (panels ! j))"
    and "mv_eligible (snd (vs ! i))" and "mv_eligible (snd (vs ! j))"
  shows "past_meridian crossed_h (snd (panels ! i)) = past_meridian crossed_h (snd (panels ! j)) \<and>
    (fl \<longrightarrow> past_meridian crossed_h (snd (panels ! i)))"
proof -
  from assms(1) obtain n ms where n: "crossed_h = Fin (n_crossed n)" "n_flipped n = fl" "n_flips n = True"
    "length ms = length panels" and k: "\<And>i. i < length panels \<Longrightarrow>
       pm_h_p (snd (panels ! i)) = Fin (m_h (ms ! i)) \<and> m_skip (ms ! i) = pm_skip (snd (panels ! i)) \<and>
       vs ! i = (fst (panels ! i), verdict_of n ms (ms ! i))"
    by (rule meridian_nth) metis
  have off: "\<not> rule_off n (ms ! i)" "\<not> rule_off n (ms ! j)"
    using k [OF assms(2)] k [OF assms(3)] assms(4,5) n by (simp_all add: rule_off_def)
  have e: "mv_eligible (verdict_of n ms (ms ! i))" "mv_eligible (verdict_of n ms (ms ! j))"
    using k [OF assms(2)] k [OF assms(3)] assms(6,7) by simp_all
  have mem: "ms ! i \<in> set ms" "ms ! j \<in> set ms" using assms(2,3) n by simp_all
  have side: "past_meridian (Fin (n_crossed n)) (snd (panels ! x)) \<longleftrightarrow> m_h (ms ! x) \<le> - n_crossed n"
    if "x < length panels" for x
    using k [OF that] n by (simp add: past_meridian_def)
  from e off mem show ?thesis
    by (auto simp: side [OF assms(2)] side [OF assms(3)] eligible_iff n has_room_def split: if_splits)
qed

definition low_and_high :: "(string \<times> panel_meridian) list" where
  "low_and_high = [(''e'', \<lparr>pm_h_p = Fin 2, pm_f_h = Fin (1/10), pm_skip = False\<rparr>),
     (''w'', \<lparr>pm_h_p = Fin (-1), pm_f_h = Fin (1/10), pm_skip = False\<rparr>),
     (''v'', \<lparr>pm_h_p = Fin (-2), pm_f_h = Fin (1/10), pm_skip = False\<rparr>)]"

lemmas meridian_eval = meridian_eligibility_def facts_of_def verdict_of_def first_verdict_def
  rule_off_def pre_room_left_def has_room_def post_verdict_def shoots_def waits_def Let_def

theorem one_side_at_a_time_witness:
  "\<exists>vs. meridian_eligibility low_and_high (Fin (1/2)) (Fin (1/10)) True True (Fin 0) = Inr vs \<and>
    past_meridian (Fin 0) (snd (low_and_high ! 1)) = past_meridian (Fin 0) (snd (low_and_high ! 2))"
proof -
  obtain vs where vs: "meridian_eligibility low_and_high (Fin (1/2)) (Fin (1/10)) True True (Fin 0) = Inr vs"
    and e: "mv_eligible (snd (vs ! 1))" "mv_eligible (snd (vs ! 2))"
    by (simp add: meridian_eval low_and_high_def)
  from one_side_at_a_time [OF vs, of 1 2] e vs show ?thesis by (simp add: low_and_high_def)
qed

text \<open>A visit before the flip ends before the flip point: a panel that may shoot under a deadline
  has, before that deadline, room for a hop and one frame, and the deadline is the plan's flip lead
  before the panel's crossing.\<close>

theorem deadline_leaves_room:
  assumes "meridian_eligibility panels lead_h hop_h fl flips crossed_h = Inr vs"
    and "i < length panels" and "mv_deadline_h (snd (vs ! i)) = Some d"
  shows "\<exists>h f lead hop. pm_h_p (snd (panels ! i)) = Fin h \<and> pm_f_h (snd (panels ! i)) = Fin f \<and>
    lead_h = Fin lead \<and> hop_h = Fin hop \<and> mv_eligible (snd (vs ! i)) \<and>
    d = h - lead \<and> hop + f \<le> d \<and> 0 < h"
proof -
  from assms(1) obtain n ms where n: "lead_h = Fin (n_lead n)" "hop_h = Fin (n_hop n)"
    and k: "\<And>i. i < length panels \<Longrightarrow> pm_h_p (snd (panels ! i)) = Fin (m_h (ms ! i)) \<and>
       pm_f_h (snd (panels ! i)) = Fin (m_f (ms ! i)) \<and>
       vs ! i = (fst (panels ! i), verdict_of n ms (ms ! i))"
    by (rule meridian_nth) metis
  from assms(3) k [OF assms(2)] have "mv_deadline_h (verdict_of n ms (ms ! i)) = Some d" by simp
  then show ?thesis using n k [OF assms(2)]
    by (auto simp: verdict_of_def first_verdict_def post_verdict_def shoots_def waits_def Let_def
        split: if_splits list.splits)
qed

theorem deadline_leaves_room_witness:
  "\<exists>vs h f. meridian_eligibility low_and_high (Fin (1/2)) (Fin (1/10)) False True (Fin 0) = Inr vs \<and>
    pm_h_p (snd (low_and_high ! 0)) = Fin h \<and> pm_f_h (snd (low_and_high ! 0)) = Fin f \<and>
    1/10 + f \<le> (3/2 :: rat)"
proof -
  obtain vs where vs: "meridian_eligibility low_and_high (Fin (1/2)) (Fin (1/10)) False True (Fin 0) = Inr vs"
    and e: "mv_deadline_h (snd (vs ! 0)) = Some (3/2)"
    by (simp add: meridian_eval low_and_high_def)
  from deadline_leaves_room [OF vs _ e] vs show ?thesis by (auto simp: low_and_high_def)
qed

text \<open>The panels a while later: every hour angle has run on by the same amount.\<close>

definition later :: "rat \<Rightarrow> (string \<times> panel_meridian) list \<Rightarrow> (string \<times> panel_meridian) list" where
  "later w panels = map (\<lambda>(k, p). (k, p\<lparr>pm_h_p :=
     (case pm_h_p p of Fin h \<Rightarrow> Fin (h - w) | x \<Rightarrow> x)\<rparr>)) panels"

lemma eligible_if_past:
  assumes "\<not> rule_off n m" and "m_h m \<le> - n_crossed n" and "m \<in> set ms"
  shows "\<exists>m \<in> set ms. mv_eligible (verdict_of n ms m)"
proof (cases "n_flipped n \<or> (\<forall>m \<in> set ms. \<not> has_room n m)")
  case True
  with assms have "mv_eligible (verdict_of n ms m)" by (auto simp: eligible_iff)
  with assms(3) show ?thesis by blast
next
  case False
  then obtain m' where m: "m' \<in> set ms" "has_room n m'" by blast
  then have "mv_eligible (verdict_of n ms m')" by (simp add: eligible_iff has_room_def)
  with m(1) show ?thesis by blast
qed

lemma wake_when_idle:
  assumes "\<forall>m \<in> set ms. \<not> mv_eligible (verdict_of n ms m)" and "m \<in> set ms" and "0 \<le> n_crossed n"
  shows "\<not> rule_off n m \<and> 0 < m_h m + n_crossed n \<and> mv_wake_h (verdict_of n ms m) = Some (m_h m + n_crossed n)"
proof -
  have off: "\<not> rule_off n m" using assms(1,2)
    by (auto simp: verdict_of_def first_verdict_def shoots_def)
  have "\<not> m_h m \<le> - n_crossed n" using eligible_if_past [OF off _ assms(2)] assms(1) by blast
  moreover have "\<not> has_room n m"
    using assms(1,2) off eligible_iff [OF off, of ms] by (auto simp: has_room_def)
  ultimately show ?thesis using off
    by (auto simp: verdict_of_def first_verdict_def waits_def has_room_def Let_def)
qed

text \<open>C40. The meridian never stalls a group: when no panel may shoot, every panel has a wake in the
  future, and at any panel's wake, the sky having moved on by that much, some panel may shoot.\<close>

theorem idle_group_wakes:
  assumes "meridian_eligibility panels lead_h hop_h fl flips crossed_h = Inr vs"
    and "\<forall>i < length panels. \<not> mv_eligible (snd (vs ! i))" and "i < length panels"
  shows "\<exists>w vs'. mv_wake_h (snd (vs ! i)) = Some w \<and> 0 < w \<and>
    meridian_eligibility (later w panels) lead_h hop_h fl flips crossed_h = Inr vs' \<and>
    (\<exists>j < length panels. mv_eligible (snd (vs' ! j)))"
proof -
  from assms(1) obtain n ms where n: "lead_h = Fin (n_lead n)" "hop_h = Fin (n_hop n)"
    "crossed_h = Fin (n_crossed n)" "0 \<le> n_lead n" "0 \<le> n_hop n" "0 \<le> n_crossed n"
    "n_flipped n = fl" "n_flips n = flips" "length ms = length panels"
    and k: "\<And>i. i < length panels \<Longrightarrow> pm_h_p (snd (panels ! i)) = Fin (m_h (ms ! i)) \<and>
       pm_f_h (snd (panels ! i)) = Fin (m_f (ms ! i)) \<and> 0 \<le> m_f (ms ! i) \<and>
       m_skip (ms ! i) = pm_skip (snd (panels ! i)) \<and>
       vs ! i = (fst (panels ! i), verdict_of n ms (ms ! i))"
    by (rule meridian_nth) metis
  have idle: "\<forall>m \<in> set ms. \<not> mv_eligible (verdict_of n ms m)"
    using assms(2) k n(9) by (metis in_set_conv_nth snd_conv)
  have mem: "ms ! i \<in> set ms" using assms(3) n(9) by simp
  note wk = wake_when_idle [OF idle mem n(6)]
  let ?w = "m_h (ms ! i) + n_crossed n"
  let ?ms = "map (\<lambda>m. m\<lparr>m_h := m_h m - ?w\<rparr>) ms"
  have "res_map (facts_of \<circ> snd) (later ?w panels) = Inr ?ms"
  proof -
    have "map (facts_of \<circ> snd) (later ?w panels) = map Inr ?ms"
      by (rule nth_equalityI) (auto simp: later_def n(9) facts_of_def k split_beta)
    moreover have "map f xs = map Inr ys \<Longrightarrow> res_map f xs = Inr ys" for f :: "(string \<times> panel_meridian) \<Rightarrow> mer_facts res" and xs ys
      by (induction xs arbitrary: ys) auto
    ultimately show ?thesis by blast
  qed
  moreover obtain vs' where vs': "vs' = zip (map fst (later ?w panels)) (map (verdict_of n ?ms) ?ms)" by blast
  moreover have nn: "\<lparr>n_lead = n_lead n, n_hop = n_hop n, n_crossed = n_crossed n, n_flipped = fl,
     n_flips = flips\<rparr> = n" using n(7,8) by simp
  ultimately have e: "meridian_eligibility (later ?w panels) lead_h hop_h fl flips crossed_h = Inr vs'"
    using n(1-6) by (simp add: meridian_eligibility_def)
  have "\<not> rule_off n (?ms ! i)" "m_h (?ms ! i) \<le> - n_crossed n"
    using wk assms(3) n(9) by (simp_all add: rule_off_def)
  moreover have "?ms ! i \<in> set ?ms" using assms(3) n(9) by (intro nth_mem) simp
  ultimately have "\<exists>m \<in> set ?ms. mv_eligible (verdict_of n ?ms m)" by (rule eligible_if_past)
  then obtain j where "j < length ?ms" "mv_eligible (verdict_of n ?ms (?ms ! j))"
    unfolding Bex_def in_set_conv_nth by blast
  then have "\<exists>j < length panels. mv_eligible (snd (vs' ! j))"
    using n(9) by (auto simp: vs' later_def)
  with e wk k [OF assms(3)] show ?thesis by (intro exI [of _ ?w] exI [of _ vs']) simp
qed

definition all_waiting :: "(string \<times> panel_meridian) list" where
  "all_waiting = [(''e'', \<lparr>pm_h_p = Fin (1/5), pm_f_h = Fin (1/10), pm_skip = False\<rparr>),
     (''d'', \<lparr>pm_h_p = Fin (3/10), pm_f_h = Fin (1/10), pm_skip = False\<rparr>)]"

theorem idle_group_wakes_witness:
  "\<exists>vs'. meridian_eligibility (later (1/5) all_waiting) (Fin (1/2)) (Fin (1/10)) False True (Fin 0) = Inr vs' \<and>
    (\<exists>j < 2. mv_eligible (snd (vs' ! j)))"
proof -
  obtain vs where vs: "meridian_eligibility all_waiting (Fin (1/2)) (Fin (1/10)) False True (Fin 0) = Inr vs"
    and e: "\<forall>i < length all_waiting. \<not> mv_eligible (snd (vs ! i))" "mv_wake_h (snd (vs ! 0)) = Some (1/5)"
    by (simp add: meridian_eval all_waiting_def less_Suc_eq)
  have len: "0 < length all_waiting" "length all_waiting = 2" by (simp_all add: all_waiting_def)
  from idle_group_wakes [OF vs e(1) len(1)] obtain w vs' where w: "mv_wake_h (snd (vs ! 0)) = Some w"
    "meridian_eligibility (later w all_waiting) (Fin (1/2)) (Fin (1/10)) False True (Fin 0) = Inr vs'"
    "\<exists>j < length all_waiting. mv_eligible (snd (vs' ! j))" by blast
  from w(1) e(2) have "w = 1/5" by simp
  with w len(2) show ?thesis by auto
qed

section \<open>Properties of the RA span\<close>

text \<open>\<open>r\<close> is on the arc of the circle that begins at \<open>s\<close> and is \<open>L\<close> hours long.\<close>

definition on_arc :: "rat \<Rightarrow> rat \<Rightarrow> rat \<Rightarrow> bool" where
  "on_arc s L r = (pymod (r - s) 24 \<le> L)"

lemma pymod_shift: "pymod x 24 = x + 24 * of_int (- \<lfloor>x / 24\<rfloor>)"
  by (simp add: pymod_def)

lemma pymod_unique:
  assumes "0 \<le> x + 24 * of_int k" and "x + 24 * of_int k < 24"
  shows "pymod x 24 = x + 24 * of_int k"
proof -
  have "\<lfloor>x / 24\<rfloor> = - k" using assms by (intro floor_unique) (simp_all add: field_simps)
  then show ?thesis by (simp add: pymod_def)
qed

lemma pymod_id: "0 \<le> x \<Longrightarrow> x < 24 \<Longrightarrow> pymod x 24 = x"
  using pymod_unique [of x 0] by simp

lemma on_arcI: "s \<le> r + 24 * of_int k \<Longrightarrow> r + 24 * of_int k \<le> s + L \<Longrightarrow> L < 24 \<Longrightarrow> on_arc s L r"
  using pymod_unique [of "r - s" k] by (simp add: on_arc_def algebra_simps)

lemma on_arcE:
  assumes "on_arc s L r"
  obtains k where "s \<le> r + 24 * of_int k" "r + 24 * of_int k \<le> s + L"
  using assms pymod_bounds [of 24 "r - s"] that [of "- \<lfloor>(r - s) / 24\<rfloor>"]
  by (simp add: on_arc_def pymod_shift algebra_simps)

lemma ra_gaps_set:
  assumes "xs \<noteq> []"
  shows "set (ra_gaps xs) = insert (hd xs + 24 - last xs) {xs ! Suc i - xs ! i | i. Suc i < length xs}"
proof -
  have "(\<lambda>(a, b). b - a) ` set (zip xs (tl xs)) = {xs ! Suc i - xs ! i | i. Suc i < length xs}"
  proof -
    have "set (zip xs (tl xs)) = {(xs ! i, xs ! Suc i) | i. Suc i < length xs}"
    proof -
      have "(xs ! i, tl xs ! i) = (xs ! i, xs ! Suc i)" if "i < length (tl xs)" for i
        using that by (simp add: nth_tl)
      moreover have "i < min (length xs) (length (tl xs)) \<longleftrightarrow> Suc i < length xs" for i by auto
      ultimately show ?thesis unfolding set_zip by (metis (no_types, lifting) length_tl less_diff_conv Suc_eq_plus1)
    qed
    then show ?thesis by auto
  qed
  then show ?thesis by (auto simp: ra_gaps_def)
qed

lemma span_arc:
  assumes "sorted xs" and "xs \<noteq> []" and "set xs \<subseteq> {0..<24}" and "g \<in> set (ra_gaps xs)" and "0 < g"
  shows "\<exists>s. \<forall>x \<in> set xs. on_arc s (24 - g) x"
proof -
  have le: "xs ! i \<le> xs ! j" if "i \<le> j" "j < length xs" for i j
    using assms(1) that by (rule sorted_nth_mono)
  have lst: "last xs = xs ! (length xs - 1)" "hd xs = xs ! 0" using assms(2) by (simp_all add: last_conv_nth hd_conv_nth)
  have rng: "0 \<le> xs ! i" "xs ! i < 24" if "i < length xs" for i
    using assms(3) nth_mem [OF that] by auto
  from assms(4) consider "g = hd xs + 24 - last xs" | i where "g = xs ! Suc i - xs ! i" "Suc i < length xs"
    by (auto simp: ra_gaps_set [OF assms(2)])
  then show ?thesis
  proof cases
    case 1
    have "on_arc (hd xs) (24 - g) (xs ! j)" if "j < length xs" for j
      by (rule on_arcI [of _ _ 0]) (use that le [of 0 j] le [of j "length xs - 1"] assms(5) in \<open>simp_all add: 1 lst\<close>)
    then show ?thesis by (metis in_set_conv_nth)
  next
    case (2 i)
    have "on_arc (xs ! Suc i) (24 - g) (xs ! j)" if j: "j < length xs" for j
    proof (cases "j \<le> i")
      case True
      show ?thesis
        by (rule on_arcI [of _ _ 1]) (use True 2 j le [of j i] rng [of j] rng [of "Suc i"] assms(5) in simp_all)
    next
      case False
      show ?thesis
        by (rule on_arcI [of _ _ 0]) (use False 2 j le [of "Suc i" j] rng [of j] rng [of i] assms(5) in simp_all)
    qed
    then show ?thesis by (metis in_set_conv_nth)
  qed
qed

lemma first_at_least:
  fixes xs :: "rat list"
  assumes "xs \<noteq> []" and "hd xs < s" and "\<not> last xs < s"
  shows "\<exists>i. Suc i < length xs \<and> xs ! i < s \<and> \<not> xs ! Suc i < s"
  using assms
proof (induction xs)
  case (Cons x ys)
  then have ne: "ys \<noteq> []" by auto
  show ?case
  proof (cases "hd ys < s")
    case True
    with Cons ne obtain i where "Suc i < length ys" "ys ! i < s" "\<not> ys ! Suc i < s" by auto
    then show ?thesis by (intro exI [of _ "Suc i"]) simp
  next
    case False
    with Cons.prems ne show ?thesis by (intro exI [of _ 0]) (simp add: hd_conv_nth)
  qed
qed simp

lemma arc_gap:
  assumes "sorted xs" and "xs \<noteq> []" and "set xs \<subseteq> {0..<24}" and "\<forall>x \<in> set xs. on_arc s0 L x"
    and "L < 24"
  shows "\<exists>g \<in> set (ra_gaps xs). 24 - L \<le> g"
proof -
  define s where "s = pymod s0 24"
  have s: "0 \<le> s" "s < 24" by (simp_all add: s_def pymod_bounds)
  have side: "s \<le> x \<and> x \<le> s + L \<or> x + 24 \<le> s + L" if x: "x \<in> set xs" for x
  proof -
    from assms(4) x obtain k where k: "s0 \<le> x + 24 * of_int k" "x + 24 * of_int k \<le> s0 + L"
      by (auto elim: on_arcE)
    define m where "m = k - \<lfloor>s0 / 24\<rfloor>"
    have m: "s \<le> x + 24 * of_int m" "x + 24 * of_int m \<le> s + L"
      using k by (simp_all add: s_def m_def pymod_shift algebra_simps)
    have x01: "0 \<le> x" "x < 24" using assms(3) x by auto
    have "(of_int m :: rat) > -1" "(of_int m :: rat) < 2" using m s x01 assms(5) by linarith+
    then have "-1 < m" "m < 2" by simp_all
    then have "m = 0 \<or> m = 1" by linarith
    with m show ?thesis by auto
  qed
  have hl: "hd xs \<in> set xs" "last xs \<in> set xs" using assms(2) by simp_all
  have "0 \<le> hd xs" using assms(3) hl by auto
  show ?thesis
  proof (cases "last xs < s \<or> \<not> hd xs < s")
    case True
    have "24 - L \<le> hd xs + 24 - last xs"
    proof (cases "last xs < s")
      case True
      with side [OF hl(2)] s \<open>0 \<le> hd xs\<close> show ?thesis by linarith
    next
      case False
      with True have "s \<le> hd xs" by simp
      with side [OF hl(2)] s assms(5) assms(3) hl show ?thesis by (auto; linarith)
    qed
    then show ?thesis by (auto simp: ra_gaps_set [OF assms(2)])
  next
    case False
    then obtain i where i: "Suc i < length xs" "xs ! i < s" "\<not> xs ! Suc i < s"
      using first_at_least [OF assms(2)] by blast
    then have "xs ! i + 24 \<le> s + L" using side [of "xs ! i"] by auto
    with i have "24 - L \<le> xs ! Suc i - xs ! i" by linarith
    with i(1) show ?thesis by (auto simp: ra_gaps_set [OF assms(2)])
  qed
qed

lemma on_arc_mod [simp]: "on_arc s L (pymod r 24) = on_arc s L r"
proof -
  have "pymod (x + 24 * of_int k) 24 = pymod x 24" for x k
  proof -
    have "\<lfloor>(x + 24 * of_int k) / 24\<rfloor> = \<lfloor>x / 24\<rfloor> + k" by (simp add: add_divide_distrib)
    then show ?thesis by (simp add: pymod_def algebra_simps)
  qed
  from this [of "r - s" "- \<lfloor>r / 24\<rfloor>"]
  have "pymod ((r - s) + 24 * of_int (- \<lfloor>r / 24\<rfloor>)) 24 = pymod (r - s) 24" .
  moreover have "pymod r 24 - s = (r - s) + 24 * of_int (- \<lfloor>r / 24\<rfloor>)"
    unfolding pymod_shift [of r] by (simp only: algebra_simps)
  ultimately show ?thesis by (simp only: on_arc_def)
qed

text \<open>The RA span is the shortest arc that holds the grid: every panel centre lies on an arc of
  that length somewhere on the 24 h circle, no shorter arc holds them all, and it is at least 0 and
  below 24 hours (a grid across RA 0 h is not 23 hours wide).\<close>

theorem ra_span_is_shortest_arc:
  assumes "ra_span_sidereal_h ras = Inr w"
  shows "0 \<le> w \<and> w < 24 \<and> (\<exists>s. \<forall>r. Fin r \<in> set ras \<longrightarrow> on_arc s w r) \<and>
    (\<forall>s L. (\<forall>r. Fin r \<in> set ras \<longrightarrow> on_arc s L r) \<longrightarrow> w \<le> L)"
proof -
  from assms obtain rs where rs: "res_map finite_arg ras = Inr rs"
    by (auto simp: ra_span_sidereal_h_def split: sum.splits)
  define xs where "xs = sort (map (\<lambda>r. pymod r 24) rs)"
  from assms rs have ne: "xs \<noteq> []" and w: "w = 24 - Max (set (ra_gaps xs))"
    by (auto simp: ra_span_sidereal_h_def xs_def [symmetric] Let_def split: if_splits)
  have ras: "ras = map Fin rs"
    using res_map_Inr [OF rs] by (induction ras rs rule: list_all2_induct) auto
  have sx: "sorted xs" "set xs = (\<lambda>r. pymod r 24) ` set rs" by (simp_all add: xs_def)
  have rng: "set xs \<subseteq> {0..<24}" using pymod_bounds [of 24] by (auto simp: sx)
  have hl: "hd xs \<in> set xs" "last xs \<in> set xs" using ne by simp_all
  have gne: "finite (set (ra_gaps xs))" "set (ra_gaps xs) \<noteq> {}" by (simp_all add: ra_gaps_def)
  have "hd xs + 24 - last xs \<le> Max (set (ra_gaps xs))" by (simp add: ra_gaps_def)
  moreover have "0 \<le> hd xs" "last xs < 24" using rng hl by auto
  ultimately have g0: "0 < Max (set (ra_gaps xs))" by linarith
  from span_arc [OF sx(1) ne rng Max_in [OF gne] g0] obtain s where s: "\<forall>x \<in> set xs. on_arc s w x"
    by (auto simp: w)
  have short: "w \<le> L" if "\<forall>x \<in> set xs. on_arc s L x" for s L
  proof (cases "L < 24")
    case True
    from arc_gap [OF sx(1) ne rng that True] obtain g where g: "g \<in> set (ra_gaps xs)" "24 - L \<le> g" by blast
    from Max_ge [OF gne(1) g(1)] g(2) show ?thesis by (simp add: w)
  qed (use g0 in \<open>simp add: w\<close>)
  have eq: "(\<forall>x \<in> set xs. on_arc s L x) \<longleftrightarrow> (\<forall>r. Fin r \<in> set ras \<longrightarrow> on_arc s L r)" for s L
    by (auto simp: sx ras)
  have "0 \<le> w" using s hl(1) pymod_bounds(1) [of 24 "hd xs - s"] by (auto simp: on_arc_def intro: order_trans)
  with g0 s short show ?thesis by (auto simp: w eq [symmetric])
qed

theorem ra_span_is_shortest_arc_witness:
  "ra_span_sidereal_h [Fin (239/10), Fin (1/10), Fin 0] = Inr (1/5) \<and>
   (\<exists>s. \<forall>r. Fin r \<in> set [Fin (239/10), Fin (1/10), Fin 0] \<longrightarrow> on_arc s (1/5) r)"
proof -
  have "ra_span_sidereal_h [Fin (239/10), Fin (1/10), Fin 0] = Inr (1/5)"
    by (simp add: ra_span_sidereal_h_def pymod_id ra_gaps_def Let_def)
  with ra_span_is_shortest_arc [OF this] show ?thesis by blast
qed

section \<open>Properties of the wait and the angle\<close>

lemma first_clear_iff:
  "first_clear clear step t k = Some u \<longleftrightarrow> (\<exists>i < k. u = t + of_nat i * step \<and> clear u \<and>
     (\<forall>j < i. \<not> clear (t + of_nat j * step)))"
proof (induction k arbitrary: t)
  case (Suc k)
  have sh: "t + step + of_nat i * step = t + of_nat (Suc i) * step" for i by (simp add: algebra_simps)
  show ?case
  proof (cases "clear t")
    case True
    then have "(\<exists>i < Suc k. u = t + of_nat i * step \<and> clear u \<and> (\<forall>j < i. \<not> clear (t + of_nat j * step)))
        \<longleftrightarrow> u = t"
      by (metis gr_zeroI less_Suc_eq_0_disj mult_zero_left of_nat_0 add_0_right not_less_zero)
    with True show ?thesis by auto
  next
    case False
    then show ?thesis
      by (simp add: Suc sh Ex_less_Suc2 All_less_Suc2 del: of_nat_Suc cong: conj_cong)
  qed
qed simp

lemma first_clear_None:
  "first_clear clear step t k = None \<Longrightarrow> i < k \<Longrightarrow> \<not> clear (t + of_nat i * step)"
proof (induction k arbitrary: t i)
  case (Suc k)
  then have n: "\<not> clear t" "first_clear clear step (t + step) k = None" by (auto split: if_splits)
  show ?case
  proof (cases i)
    case (Suc j)
    with Suc.IH [OF n(2), of j] Suc.prems show ?thesis by (simp add: algebra_simps)
  qed (simp add: n)
qed simp

text \<open>The scan for a blocked panel's clearing time is exact on its grid: it answers the first grid
  instant at which the panel is clear, every earlier one being blocked, and \<open>None\<close> only when the whole
  horizon is blocked; so a panel that is blocked now never answers now.\<close>

theorem forward_clear_is_first:
  assumes "forward_clear_ts clear (Fin t0) (Fin horizon) (Fin step) = Inr r"
  shows "case r of
      Some u \<Rightarrow> clear u \<and> (u = t0 \<longleftrightarrow> clear t0) \<and> (\<exists>i \<le> grid_steps horizon step.
        u = t0 + of_nat i * step \<and> (\<forall>j < i. \<not> clear (t0 + of_nat j * step)))
    | None \<Rightarrow> \<forall>i \<le> grid_steps horizon step. \<not> clear (t0 + of_nat i * step)"
proof -
  let ?k = "grid_steps horizon step + 1"
  from assms have st: "0 < step" and r: "r = first_clear clear step t0 ?k"
    by (auto simp: forward_clear_ts_def not_le split: sum.splits if_splits)
  show ?thesis
  proof (cases r)
    case None
    then show ?thesis using first_clear_None [of clear step t0 ?k] r by auto
  next
    case (Some u)
    then obtain i where i: "i < ?k" "u = t0 + of_nat i * step" "clear u" "\<forall>j < i. \<not> clear (t0 + of_nat j * step)"
      using r first_clear_iff [of clear step t0 ?k u] by auto
    have "u = t0 \<longleftrightarrow> clear t0"
    proof (cases "i = 0")
      case False
      with i(4) have "\<not> clear t0" by (metis add.right_neutral gr0I mult_zero_left of_nat_0)
      with i(3) show ?thesis by auto
    qed (use i in simp)
    with i show ?thesis by (auto simp: Some)
  qed
qed

theorem forward_clear_is_first_witness:
  "forward_clear_ts (\<lambda>t. 150 \<le> t) (Fin 0) (Fin 300) (Fin REACH_RECHECK_S) = Inr (Some 180) \<and>
   \<not> (150 :: rat) \<le> 0"
proof -
  have e: "forward_clear_ts (\<lambda>t. 150 \<le> t) (Fin 0) (Fin 300) (Fin REACH_RECHECK_S) = Inr (Some 180)"
  proof -
    have "\<lfloor>(5000000001 / 1000000000 :: rat)\<rfloor> = 5" by (rule floor_unique) simp_all
    then show ?thesis
      by (simp add: forward_clear_ts_def grid_steps_def REACH_RECHECK_S_def eval_nat_numeral)
  qed
  from forward_clear_is_first [OF e] e show ?thesis by simp
qed

text \<open>No tile is laid blind: a hop goes on with a camera whose angle is off, or not measured and
  not vouched for (a fixed camera measured earlier tonight, a rotator's own report), only where the
  mosaic says to shoot anyway or has a single panel; and only a fixed camera whose angle is off sets
  the whole group aside.\<close>

theorem no_tile_laid_blind:
  assumes "decide_angle kind rotates verified evidence anyway single = Inr d"
  shows "(ad_action d \<in> {Defer_Panel, Set_Group_Aside} \<longleftrightarrow> \<not> anyway \<and> \<not> single \<and>
      (kind = ''off'' \<or> kind = ''no_measurement'' \<and> \<not> (if rotates then evidence else verified))) \<and>
    (ad_action d = Set_Group_Aside \<longleftrightarrow> \<not> anyway \<and> \<not> single \<and> kind = ''off'' \<and> \<not> rotates) \<and>
    (ad_action d = Shoot \<longleftrightarrow> kind = ''ok'')"
  using assms by (auto simp: decide_angle_def angle_refusal_def split: if_splits)

theorem no_tile_laid_blind_witness:
  "\<exists>d. decide_angle ''no_measurement'' False False False False False = Inr d \<and> ad_action d \<noteq> Shoot \<and>
    ad_action d \<in> {Defer_Panel, Set_Group_Aside}"
proof -
  obtain d where d: "decide_angle ''no_measurement'' False False False False False = Inr d"
    by (simp add: decide_angle_def)
  from no_tile_laid_blind [OF d] d show ?thesis by (intro exI [of _ d]) auto
qed

end
