(* ===== verification/Auth_Routes.thy ===== *)
theory Auth_Routes
  imports Auth_Providers
begin

text \<open>
  The boot-time assertion over the routes, \<open>server/astrodeck/auth/rbac.py\<close>: what a route's label
  declares (\<open>@declare\<close>), what its dependencies enforce (\<open>Depends(require(cap))\<close>), the walk over
  the app's routes and included routers, and \<open>assert_route_capabilities\<close>.

  A route is what the assertion reads off FastAPI's route object. An included router is its identity
  and its routes; the same router may be included more than once.
\<close>

section \<open>Routes\<close>

record endpoint =
  ep_caps :: "string set option"
  ep_reaches :: "string set option"
  ep_identity :: bool

record route =
  rt_path :: string
  rt_methods :: "string set"
  rt_endpoint :: "endpoint option"
  rt_deps :: "string option list"

datatype app_node = Route route | Included nat "app_node list"

definition MOTION_SINKS :: "string set" where
  "MOTION_SINKS = {''Telescope.slew'', ''Telescope.move_axis'', ''Telescope.set_tracking'',
     ''Telescope.park'', ''Telescope.unpark'', ''Telescope.pulse_guide'', ''Telescope.sync'',
     ''Telescope.stop'', ''SequenceEngine.start'', ''PolarSession.start''}"

definition MUTATING_METHODS :: "string set" where
  "MUTATING_METHODS = {''POST'', ''PUT'', ''PATCH'', ''DELETE''}"

definition IDENTITY_PATHS :: "string set" where
  "IDENTITY_PATHS = {''/api/me'', ''/auth/me''}"

definition IDENTITY_SELF_GATED :: "string set" where
  "IDENTITY_SELF_GATED = {''/auth/me''}"

definition FIELD_LEVEL_CAP_ROUTES :: "(string \<times> string) set" where
  "FIELD_LEVEL_CAP_ROUTES = {(''POST'', ''/api/config''), (''POST'', ''/api/site''),
     (''PUT'', ''/api/site''), (''PUT'', ''/api/camera/frame-settings'')}"

definition declare_caps :: "string list \<Rightarrow> string set option \<Rightarrow> bool \<Rightarrow> endpoint" where
  "declare_caps caps reaches identity = \<lparr>ep_caps = Some (set caps),
     ep_reaches = Some (case reaches of None \<Rightarrow> {} | Some s \<Rightarrow> s), ep_identity = identity\<rparr>"

definition marker_caps :: "route \<Rightarrow> string set" where
  "marker_caps r = (case rt_endpoint r of None \<Rightarrow> {} | Some e \<Rightarrow>
     (case ep_caps e of None \<Rightarrow> {} | Some c \<Rightarrow> c))"

definition dependency_caps :: "route \<Rightarrow> string set" where
  "dependency_caps r = set (List.map_filter id (rt_deps r))"

definition route_reaches :: "route \<Rightarrow> string set" where
  "route_reaches r = (case rt_endpoint r of None \<Rightarrow> {} | Some e \<Rightarrow>
     (case ep_reaches e of None \<Rightarrow> {} | Some s \<Rightarrow> s))"

definition route_is_identity :: "route \<Rightarrow> bool" where
  "route_is_identity r = (case rt_endpoint r of None \<Rightarrow> False | Some e \<Rightarrow> ep_identity e)"

section \<open>The walk\<close>

text \<open>\<open>iter_app_routes\<close>: depth first, in order; a router seen before is skipped. The routes found, and
  the routers seen.\<close>

fun walk :: "nat set \<Rightarrow> app_node list \<Rightarrow> route list \<times> nat set" where
  "walk seen [] = ([], seen)"
| "walk seen (Route r # ns) = (let (rs, seen) = walk seen ns in (r # rs, seen))"
| "walk seen (Included i cs # ns) =
     (if i \<in> seen then walk seen ns
      else let (rs, seen) = walk (insert i seen) cs; (rs', seen) = walk seen ns in (rs @ rs', seen))"

definition iter_app_routes :: "app_node list \<Rightarrow> route list" where
  "iter_app_routes app = fst (walk {} app)"

section \<open>The assertion\<close>

datatype route_error = Identity_Ungated | Retired_Cap | Unknown_Cap | Label_Unbacked | Floor_Missing
  | Motion_Ungated | Mutating_Ungated

definition starts_with :: "string \<Rightarrow> string \<Rightarrow> bool" where
  "starts_with s p = (take (length p) s = p)"

definition is_exempt :: "string set \<Rightarrow> string list \<Rightarrow> string \<Rightarrow> bool" where
  "is_exempt paths prefixes path = (path \<in> paths \<or> (\<exists>p \<in> set prefixes. path = p \<or> starts_with path p))"

definition field_level :: "route \<Rightarrow> bool" where
  "field_level r = (\<exists>m \<in> rt_methods r. (m, rt_path r) \<in> FIELD_LEVEL_CAP_ROUTES)"

definition check_route :: "string set \<Rightarrow> string list \<Rightarrow> route \<Rightarrow> route_error option" where
  "check_route paths prefixes r =
     (let path = rt_path r; marker = marker_caps r; enforced = dependency_caps r; reaches = route_reaches r;
          written = marker \<union> enforced; unbacked = marker - enforced in
      if ''GET'' \<in> rt_methods r \<and> (path \<in> IDENTITY_PATHS \<or> route_is_identity r)
         \<and> enforced = {} \<and> path \<notin> IDENTITY_SELF_GATED then Some Identity_Ungated
      else if is_exempt paths prefixes path then None
      else if written \<inter> RETIRED_CAPS \<noteq> {} then Some Retired_Cap
      else if written - ALL_CAPS \<noteq> {} then Some Unknown_Cap
      else if unbacked \<noteq> {} \<and> \<not> field_level r then Some Label_Unbacked
      else if unbacked \<noteq> {} \<and> enforced = {} then Some Floor_Missing
      else if reaches \<inter> MOTION_SINKS \<noteq> {} \<and> ''control.mount'' \<notin> enforced then Some Motion_Ungated
      else if rt_methods r \<inter> MUTATING_METHODS \<noteq> {} \<and> enforced = {} then Some Mutating_Ungated
      else None)"

fun check_routes :: "string set \<Rightarrow> string list \<Rightarrow> route list \<Rightarrow> (string \<times> route_error) option" where
  "check_routes paths prefixes [] = None"
| "check_routes paths prefixes (r # rs) = (case check_route paths prefixes r of
     Some e \<Rightarrow> Some (rt_path r, e) | None \<Rightarrow> check_routes paths prefixes rs)"

definition assert_route_capabilities :: "app_node list \<Rightarrow> string set \<Rightarrow> string list \<Rightarrow>
    (string \<times> route_error) option" where
  "assert_route_capabilities app paths prefixes = check_routes paths prefixes (iter_app_routes app)"

section \<open>Every served route is graded\<close>

fun leaves :: "app_node \<Rightarrow> route set" where
  "leaves (Route r) = {r}"
| "leaves (Included i cs) = (\<Union>n \<in> set cs. leaves n)"

fun router_ids :: "app_node \<Rightarrow> nat set" where
  "router_ids (Route r) = {}"
| "router_ids (Included i cs) = insert i (\<Union>n \<in> set cs. router_ids n)"

definition leaves_of :: "app_node list \<Rightarrow> route set" where
  "leaves_of ns = (\<Union>n \<in> set ns. leaves n)"

definition ids_of :: "app_node list \<Rightarrow> nat set" where
  "ids_of ns = (\<Union>n \<in> set ns. router_ids n)"

lemma of_simps [simp]:
  "leaves_of [] = {}" "leaves_of (n # ns) = leaves n \<union> leaves_of ns"
  "ids_of [] = {}" "ids_of (n # ns) = router_ids n \<union> ids_of ns"
  "leaves (Included i cs) = leaves_of cs" "router_ids (Included i cs) = insert i (ids_of cs)"
  by (simp_all add: leaves_of_def ids_of_def)

text \<open>A router is one object: every inclusion of it carries the same routes, and no router includes
  itself.\<close>

fun node_ok :: "(nat \<Rightarrow> app_node list) \<Rightarrow> app_node \<Rightarrow> bool" where
  "node_ok routes (Route r) = True"
| "node_ok routes (Included i cs) = (cs = routes i \<and> (\<forall>n \<in> set cs. node_ok routes n))"

definition app_ok :: "(nat \<Rightarrow> app_node list) \<Rightarrow> app_node list \<Rightarrow> bool" where
  "app_ok routes ns = (\<forall>n \<in> set ns. node_ok routes n)"

lemma app_ok_simps [simp]:
  "app_ok routes []" "app_ok routes (n # ns) \<longleftrightarrow> node_ok routes n \<and> app_ok routes ns"
  "node_ok routes (Included i cs) \<longleftrightarrow> cs = routes i \<and> app_ok routes cs"
  by (auto simp: app_ok_def)

declare node_ok.simps(2) [simp del] leaves.simps(2) [simp del] router_ids.simps(2) [simp del]

lemma own_id_smaller:
  "node_ok routes n \<Longrightarrow> i \<in> router_ids n \<Longrightarrow> size_list size (routes i) < size n"
proof (induction n)
  case (Included j cs)
  then consider "i = j" | n where "n \<in> set cs" "i \<in> router_ids n" by (auto simp: ids_of_def)
  then show ?case
  proof cases
    case 1
    with Included.prems show ?thesis by simp
  next
    case 2
    with Included have "size_list size (routes i) < size n" by (auto simp: app_ok_def)
    also have "size n \<le> size_list size cs" using 2(1) by (simp add: size_list_estimation')
    finally show ?thesis by simp
  qed
qed simp

lemma not_own_child: "node_ok routes (Included i cs) \<Longrightarrow> i \<notin> ids_of cs"
proof
  assume ok: "node_ok routes (Included i cs)" and "i \<in> ids_of cs"
  then obtain n where n: "n \<in> set cs" "i \<in> router_ids n" by (auto simp: ids_of_def)
  with ok have "size_list size (routes i) < size n" by (auto simp: app_ok_def intro: own_id_smaller)
  moreover have "size n \<le> size_list size cs" using n(1) by (simp add: size_list_estimation')
  ultimately show False using ok by simp
qed

abbreviation pending :: "(nat \<Rightarrow> app_node list) \<Rightarrow> nat set \<Rightarrow> route set" where
  "pending routes is \<equiv> (\<Union>j \<in> is. leaves_of (routes j))"

definition walked :: "(nat \<Rightarrow> app_node list) \<Rightarrow> nat set \<Rightarrow> app_node list \<Rightarrow> route list \<Rightarrow> nat set \<Rightarrow> bool" where
  "walked routes seen ns rs seen' = (leaves_of ns \<subseteq> set rs \<union> pending routes (seen \<inter> ids_of ns) \<and>
     seen \<subseteq> seen' \<and> seen' \<subseteq> seen \<union> ids_of ns \<and>
     (\<forall>j \<in> seen' - seen. leaves_of (routes j) \<subseteq> set rs \<union> pending routes (seen \<inter> ids_of ns)) \<and>
     set rs \<subseteq> leaves_of ns)"

lemma walked_router:
  assumes "node_ok routes (Included i cs)" and "i \<notin> seen"
    and "walked routes (insert i seen) cs r1 s1" and "walked routes s1 ns r2 s2"
  shows "walked routes seen (Included i cs # ns) (r1 @ r2) s2"
proof -
  let ?P = "pending routes (seen \<inter> ids_of (Included i cs # ns))"
  have cs: "cs = routes i" using assms(1) by simp
  have ni: "i \<notin> ids_of cs" by (rule not_own_child [OF assms(1)])
  have "pending routes (insert i seen \<inter> ids_of cs) \<subseteq> ?P" using ni by auto
  with assms(3) have l1: "leaves_of cs \<subseteq> set r1 \<union> ?P"
    and n1: "\<forall>j \<in> s1 - insert i seen. leaves_of (routes j) \<subseteq> set r1 \<union> ?P"
    and s1: "insert i seen \<subseteq> s1" "s1 \<subseteq> insert i seen \<union> ids_of cs" and r1: "set r1 \<subseteq> leaves_of cs"
    unfolding walked_def by blast+
  have p2: "pending routes (s1 \<inter> ids_of ns) \<subseteq> set r1 \<union> ?P"
  proof
    fix r assume "r \<in> pending routes (s1 \<inter> ids_of ns)"
    then obtain j where j: "j \<in> s1" "j \<in> ids_of ns" "r \<in> leaves_of (routes j)" by blast
    consider "j \<in> seen" | "j = i" | "j \<in> s1 - insert i seen" using j(1) by blast
    then show "r \<in> set r1 \<union> ?P" using j l1 n1 cs by cases auto
  qed
  have l2: "leaves_of ns \<subseteq> set r2 \<union> (set r1 \<union> ?P)"
    and n2: "\<forall>j \<in> s2 - s1. leaves_of (routes j) \<subseteq> set r2 \<union> (set r1 \<union> ?P)"
    and s2: "s1 \<subseteq> s2" "s2 \<subseteq> s1 \<union> ids_of ns" and r2: "set r2 \<subseteq> leaves_of ns"
    using assms(4) p2 unfolding walked_def by blast+
  have n: "leaves_of (routes j) \<subseteq> set (r1 @ r2) \<union> ?P" if j: "j \<in> s2 - seen" for j
  proof -
    consider "j = i" | "j \<in> s1 - insert i seen" | "j \<in> s2 - s1" using j by blast
    then show ?thesis using l1 n1 n2 cs by cases auto
  qed
  show ?thesis
    unfolding walked_def using l1 l2 n r1 r2 s1 s2 by auto
qed

lemma walked_skip:
  assumes "walked routes seen ns rs s" and "leaves n \<subseteq> pending routes (seen \<inter> ids_of (n # ns))"
  shows "walked routes seen (n # ns) rs s"
proof -
  let ?Q = "pending routes (seen \<inter> ids_of (n # ns))"
  have w: "leaves_of ns \<subseteq> set rs \<union> pending routes (seen \<inter> ids_of ns)" "seen \<subseteq> s" "s \<subseteq> seen \<union> ids_of ns"
    "\<forall>j \<in> s - seen. leaves_of (routes j) \<subseteq> set rs \<union> pending routes (seen \<inter> ids_of ns)"
    "set rs \<subseteq> leaves_of ns"
    using assms(1) by (simp_all add: walked_def)
  have le: "set rs \<union> pending routes (seen \<inter> ids_of ns) \<subseteq> set rs \<union> ?Q" by auto
  have "leaves_of (n # ns) \<subseteq> set rs \<union> ?Q"
    using order_trans [OF w(1) le] assms(2) by (simp only: of_simps) blast
  moreover have "\<forall>j \<in> s - seen. leaves_of (routes j) \<subseteq> set rs \<union> ?Q"
    using w(4) le by (meson order_trans)
  moreover have "s \<subseteq> seen \<union> ids_of (n # ns)" "set rs \<subseteq> leaves_of (n # ns)" using w(3,5) by auto
  ultimately show ?thesis using w(2) unfolding walked_def by blast
qed

lemma walk_walked: "app_ok routes ns \<Longrightarrow> walked routes seen ns (fst (walk seen ns)) (snd (walk seen ns))"
proof (induction seen ns rule: walk.induct)
  case (1 seen)
  show ?case by (simp add: walked_def)
next
  case (2 seen r ns)
  then have w: "walked routes seen ns (fst (walk seen ns)) (snd (walk seen ns))" by simp
  have e: "walk seen (Route r # ns) = (r # fst (walk seen ns), snd (walk seen ns))"
    by (simp add: split_beta)
  show ?case using w unfolding e walked_def by auto
next
  case (3 seen i cs ns)
  show ?case
  proof (cases "i \<in> seen")
    case True
    with 3 have w: "walked routes seen ns (fst (walk seen ns)) (snd (walk seen ns))" by simp
    have "leaves (Included i cs) \<subseteq> pending routes (seen \<inter> ids_of (Included i cs # ns))"
      using True 3(4) by auto
    from walked_skip [OF w this]
    have "walked routes seen (Included i cs # ns) (fst (walk seen ns)) (snd (walk seen ns))" .
    with True show ?thesis by simp
  next
    case False
    let ?w1 = "walk (insert i seen) cs" and ?w2 = "walk (snd (walk (insert i seen) cs)) ns"
    have ok: "app_ok routes cs" "app_ok routes ns" "node_ok routes (Included i cs)" using 3(4) unfolding app_ok_simps by blast+
    have w1: "walked routes (insert i seen) cs (fst ?w1) (snd ?w1)" by (rule 3(2) [OF False ok(1)])
    have w2: "walked routes (snd ?w1) ns (fst ?w2) (snd ?w2)"
      using 3(3) [OF False refl prod.collapse ok(2)] .
    have e: "walk seen (Included i cs # ns) = (fst ?w1 @ fst ?w2, snd ?w2)"
      using False by (simp add: split_beta)
    show ?thesis unfolding e using walked_router [OF ok(3) False w1 w2] by simp
  qed
qed

lemma iter_app_routes_all: "app_ok routes app \<Longrightarrow> set (iter_app_routes app) = leaves_of app"
  using walk_walked [of routes app "{}"] by (auto simp: iter_app_routes_def walked_def)

lemma check_routes_None: "check_routes paths prefixes rs = None \<longleftrightarrow> (\<forall>r \<in> set rs. check_route paths prefixes r = None)"
  by (induction rs) (auto split: option.splits)

section \<open>Properties\<close>

definition route_sound :: "string set \<Rightarrow> string list \<Rightarrow> route \<Rightarrow> bool" where
  "route_sound paths prefixes r \<longleftrightarrow>
    (''GET'' \<in> rt_methods r \<and> (rt_path r \<in> IDENTITY_PATHS \<or> route_is_identity r) \<longrightarrow>
       dependency_caps r \<noteq> {} \<or> rt_path r \<in> IDENTITY_SELF_GATED) \<and>
    (\<not> is_exempt paths prefixes (rt_path r) \<longrightarrow>
       marker_caps r \<union> dependency_caps r \<subseteq> ALL_CAPS - RETIRED_CAPS \<and>
       (marker_caps r \<subseteq> dependency_caps r \<or> field_level r \<and> dependency_caps r \<noteq> {}) \<and>
       (route_reaches r \<inter> MOTION_SINKS \<noteq> {} \<longrightarrow> ''control.mount'' \<in> dependency_caps r) \<and>
       (rt_methods r \<inter> MUTATING_METHODS \<noteq> {} \<longrightarrow> dependency_caps r \<noteq> {}))"

lemma check_route_None: "check_route paths prefixes r = None \<longleftrightarrow> route_sound paths prefixes r"
proof -
  have "marker_caps r \<union> dependency_caps r \<subseteq> ALL_CAPS - RETIRED_CAPS \<longleftrightarrow>
      (marker_caps r \<union> dependency_caps r) \<inter> RETIRED_CAPS = {} \<and>
      (marker_caps r \<union> dependency_caps r) - ALL_CAPS = {}"
    "marker_caps r \<subseteq> dependency_caps r \<longleftrightarrow> marker_caps r - dependency_caps r = {}" by blast+
  then show ?thesis unfolding check_route_def route_sound_def Let_def by (simp split: if_split) blast
qed

lemma assertion_passes: "app_ok routes app \<Longrightarrow>
    assert_route_capabilities app paths prefixes = None \<longleftrightarrow> (\<forall>r \<in> leaves_of app. route_sound paths prefixes r)"
  by (simp add: assert_route_capabilities_def check_routes_None iter_app_routes_all check_route_None)

text \<open>C15. What a booted server enforces: when the assertion passes, every route served, however deep in
  included routers, that is not exempt enforces a capability if it mutates, enforces \<open>control.mount\<close> if it
  reaches a motion sink, and names only real capabilities; what it declares above what it enforces is on
  a field-level route with a real floor; and every route that discloses the caller, exempt or not,
  enforces a capability or gates itself. And the assertion refuses nothing else.\<close>

theorem boot_assertion_is_exact:
  assumes "app_ok routes app"
  shows "assert_route_capabilities app paths prefixes = None \<longleftrightarrow> (\<forall>r \<in> leaves_of app.
    (''GET'' \<in> rt_methods r \<and> (rt_path r \<in> IDENTITY_PATHS \<or> route_is_identity r) \<longrightarrow>
       dependency_caps r \<noteq> {} \<or> rt_path r \<in> IDENTITY_SELF_GATED) \<and>
    (\<not> is_exempt paths prefixes (rt_path r) \<longrightarrow>
       marker_caps r \<union> dependency_caps r \<subseteq> ALL_CAPS - RETIRED_CAPS \<and>
       (marker_caps r \<subseteq> dependency_caps r \<or> field_level r \<and> dependency_caps r \<noteq> {}) \<and>
       (route_reaches r \<inter> MOTION_SINKS \<noteq> {} \<longrightarrow> ''control.mount'' \<in> dependency_caps r) \<and>
       (rt_methods r \<inter> MUTATING_METHODS \<noteq> {} \<longrightarrow> dependency_caps r \<noteq> {})))"
  unfolding assertion_passes [OF assms] route_sound_def ..

definition slew_route :: route where
  "slew_route = \<lparr>rt_path = ''/api/mount/slew'', rt_methods = {''POST''},
     rt_endpoint = Some (declare_caps [''control.mount''] (Some {''Telescope.slew''}) False),
     rt_deps = [None, Some ''control.mount'']\<rparr>"

definition status_route :: route where
  "status_route = \<lparr>rt_path = ''/api/status'', rt_methods = {''GET''},
     rt_endpoint = Some (declare_caps [''view.status''] None False), rt_deps = [Some ''view.status'']\<rparr>"

definition demo_app :: "app_node list" where
  "demo_app = [Route status_route, Included 1 [Route slew_route], Included 1 [Route slew_route]]"

definition demo_routers :: "nat \<Rightarrow> app_node list" where
  "demo_routers i = [Route slew_route]"

lemma demo_app_ok: "app_ok demo_routers demo_app"
  by (simp add: demo_app_def demo_routers_def)

lemma demo_app_booted: "assert_route_capabilities demo_app {} [''/assets'', ''/auth''] = None"
  by (simp add: assert_route_capabilities_def iter_app_routes_def demo_app_def check_route_def
      slew_route_def status_route_def declare_caps_def marker_caps_def dependency_caps_def
      route_reaches_def route_is_identity_def is_exempt_def starts_with_def RETIRED_CAPS_def
      ALL_CAPS_def IDENTITY_PATHS_def MUTATING_METHODS_def MOTION_SINKS_def map_filter_simps Let_def)

theorem boot_assertion_is_exact_witness:
  "assert_route_capabilities demo_app {} [''/assets'', ''/auth''] = None \<and>
   (''control.mount'' \<in> dependency_caps slew_route)"
proof -
  have "slew_route \<in> leaves_of demo_app" by (simp add: demo_app_def)
  moreover have "\<not> is_exempt {} [''/assets'', ''/auth''] (rt_path slew_route)"
    "route_reaches slew_route \<inter> MOTION_SINKS \<noteq> {}"
    by (simp_all add: is_exempt_def starts_with_def slew_route_def route_reaches_def declare_caps_def
        MOTION_SINKS_def)
  ultimately show ?thesis
    using boot_assertion_is_exact [OF demo_app_ok, of "{}" "[''/assets'', ''/auth'']"] demo_app_booted
    by blast
qed

text \<open>Nobody moves the mount without the right to: on a server that booted, a request that passes
  every gate of a route that reaches a motion sink comes from an operator or an admin who holds
  \<open>control.mount\<close>, and over the relay never from the open default.\<close>

theorem motion_needs_the_mount_cap:
  assumes "app_ok routes app" and "assert_route_capabilities app paths prefixes = None"
    and "r \<in> leaves_of app" and "\<not> is_exempt paths prefixes (rt_path r)"
    and "route_reaches r \<inter> MOTION_SINKS \<noteq> {}"
    and "\<forall>cap \<in> dependency_caps r. require_cap h pv trust cap rq = Inr p"
  shows "holds p ''control.mount'' \<and> pr_role p \<in> {''operator'', ''admin''} \<and>
    (remote rq \<longrightarrow> pv \<noteq> None_Provider)"
proof -
  have "''control.mount'' \<in> dependency_caps r"
    using assertion_passes [OF assms(1), of paths prefixes] assms(2-5) unfolding route_sound_def by blast
  with assms(6) have "require_cap h pv trust ''control.mount'' rq = Inr p" by blast
  then have a: "resolve_principal h pv trust rq (remote rq) = Inr (Some p)" and c: "holds p ''control.mount''"
    by (simp_all add: require_cap_Inr)
  from resolve_principal_Some [OF a] prov.resolve_mount [OF _ c] c show ?thesis by blast
qed

theorem motion_needs_the_mount_cap_witness:
  "\<exists>p. require_cap demo_home (build_provider demo_auth) True ''control.mount'' demo_request = Inr p \<and>
    pr_role p \<in> {''operator'', ''admin''}"
proof -
  have r: "slew_route \<in> leaves_of demo_app" "\<not> is_exempt {} [''/assets'', ''/auth''] (rt_path slew_route)"
    "route_reaches slew_route \<inter> MOTION_SINKS \<noteq> {}" "dependency_caps slew_route = {''control.mount''}"
    by (simp_all add: demo_app_def is_exempt_def starts_with_def slew_route_def route_reaches_def
        declare_caps_def dependency_caps_def MOTION_SINKS_def map_filter_simps)
  obtain p where p: "require_cap demo_home (build_provider demo_auth) True ''control.mount'' demo_request = Inr p"
    using demo_gate by blast
  then have "\<forall>cap \<in> dependency_caps slew_route.
      require_cap demo_home (build_provider demo_auth) True cap demo_request = Inr p"
    by (simp add: r(4))
  from motion_needs_the_mount_cap [OF demo_app_ok demo_app_booted r(1-3) this] p show ?thesis by blast
qed

end
