(* ===== verification/Rate_Limits.thy ===== *)
theory Rate_Limits
  imports Machines
begin

text \<open>
  The three throttles on the way in: the sliding window on password attempts
  (\<open>server/astrodeck/auth/login_rate_limit.py\<close>), the single-use WebSocket tickets
  (\<open>auth/ws_ticket.py\<close>) and the relay's per-address token bucket (\<open>src/relay/relay/ratelimit.py\<close>).

  Accounts are their keyed digests (the HMAC is the caller's), clocks are the arguments the code
  takes or reads, and \<open>time.monotonic\<close> does not go back. The locks make each operation atomic, which
  a function is.
\<close>

section \<open>The login limiter\<close>

record bucket =
  attempts :: "rat list"
  last_seen :: rat

record login_limiter =
  max_failures :: nat
  window_s :: rat
  max_keys :: nat
  idle_ttl_s :: rat
  buckets :: "string \<rightharpoonup> bucket"
  overflow :: bucket

definition limiter_init :: "int \<Rightarrow> pyfloat \<Rightarrow> int \<Rightarrow> pyfloat \<Rightarrow> login_limiter res" where
  "limiter_init max_fail window keys ttl =
     (case (window, ttl) of
        (Fin w, Fin t) \<Rightarrow> if max_fail \<le> 0 \<or> w \<le> 0 \<or> keys \<le> 0 \<or> t \<le> 0 then Inl ValueError
          else Inr \<lparr>max_failures = nat max_fail, window_s = w, max_keys = nat keys, idle_ttl_s = t,
            buckets = Map.empty, overflow = \<lparr>attempts = [], last_seen = 0\<rparr>\<rparr>
      | _ \<Rightarrow> Inl ValueError)"

definition trim :: "rat \<Rightarrow> rat \<Rightarrow> bucket \<Rightarrow> bucket" where
  "trim window now b = b\<lparr>attempts := dropWhile (\<lambda>t. t \<le> now - window) (attempts b)\<rparr>"

definition prune_idle :: "rat \<Rightarrow> login_limiter \<Rightarrow> login_limiter" where
  "prune_idle now l =
     (let cutoff = now - idle_ttl_s l;
          keep = (\<lambda>b. let b = trim (window_s l) now b in
            if attempts b = [] \<and> last_seen b \<le> cutoff then None else Some b);
          o_b = trim (window_s l) now (overflow l)
      in l\<lparr>buckets := (\<lambda>d. case buckets l d of None \<Rightarrow> None | Some b \<Rightarrow> keep b),
           overflow := (if attempts o_b = [] \<and> last_seen o_b \<le> cutoff then o_b\<lparr>last_seen := 0\<rparr> else o_b)\<rparr>)"

text \<open>Where an account's attempt goes: its own bucket, a new one when there is room, or the shared
  overflow.\<close>

datatype slot = Own string | Shared

definition slot_for :: "string \<Rightarrow> login_limiter \<Rightarrow> slot" where
  "slot_for d l = (if buckets l d \<noteq> None \<or> card (dom (buckets l)) < max_keys l then Own d else Shared)"

definition bucket_at :: "login_limiter \<Rightarrow> slot \<Rightarrow> rat \<Rightarrow> bucket" where
  "bucket_at l s now = (case s of
     Own d \<Rightarrow> (case buckets l d of Some b \<Rightarrow> b | None \<Rightarrow> \<lparr>attempts = [], last_seen = now\<rparr>)
   | Shared \<Rightarrow> overflow l)"

definition put_bucket :: "slot \<Rightarrow> bucket \<Rightarrow> login_limiter \<Rightarrow> login_limiter" where
  "put_bucket s b l = (case s of Own d \<Rightarrow> l\<lparr>buckets := (buckets l)(d \<mapsto> b)\<rparr> | Shared \<Rightarrow> l\<lparr>overflow := b\<rparr>)"

definition reserve :: "string \<Rightarrow> rat \<Rightarrow> login_limiter \<Rightarrow> int option \<times> login_limiter" where
  "reserve d now l =
     (let l = prune_idle now l; s = slot_for d l; b = trim (window_s l) now (bucket_at l s now);
          b = b\<lparr>last_seen := now\<rparr> in
      if length (attempts b) \<ge> max_failures l then
        (Some (max 1 (min 60 \<lceil>hd (attempts b) + window_s l - now\<rceil>)), put_bucket s b l)
      else (None, put_bucket s (b\<lparr>attempts := attempts b @ [now]\<rparr>) l))"

definition begin_attempt :: "string \<Rightarrow> pyfloat \<Rightarrow> login_limiter \<Rightarrow> (int option \<times> login_limiter) res" where
  "begin_attempt d now l = (case now of Fin t \<Rightarrow> Inr (reserve d t l) | _ \<Rightarrow> Inl ValueError)"

definition record_success :: "string \<Rightarrow> login_limiter \<Rightarrow> login_limiter" where
  "record_success d l = l\<lparr>buckets := (buckets l)(d := None)\<rparr>"

section \<open>The tickets\<close>

record ticket_store =
  ttl :: rat
  max_outstanding :: int
  tickets :: "(string \<times> rat) list"

definition prune_tickets :: "rat \<Rightarrow> (string \<times> rat) list \<Rightarrow> (string \<times> rat) list" where
  "prune_tickets now ts = filter (\<lambda>(t, until). \<not> until \<le> now) ts"

text \<open>The first ticket with the smallest expiry, in the dict's order, and the dict without it.\<close>

fun soonest :: "(string \<times> rat) \<Rightarrow> (string \<times> rat) list \<Rightarrow> string \<times> rat" where
  "soonest best [] = best"
| "soonest best (t # ts) = soonest (if snd t < snd best then t else best) ts"

definition forget_ticket :: "string \<Rightarrow> (string \<times> rat) list \<Rightarrow> (string \<times> rat) list" where
  "forget_ticket x ts = filter (\<lambda>(t, until). t \<noteq> x) ts"

text \<open>\<open>d[k] = v\<close>: in place for a key the dict has, at the end for a new one.\<close>

definition put_ticket :: "string \<Rightarrow> rat \<Rightarrow> (string \<times> rat) list \<Rightarrow> (string \<times> rat) list" where
  "put_ticket x until ts = (if x \<in> fst ` set ts then map (\<lambda>(t, e). if t = x then (t, until) else (t, e)) ts
     else ts @ [(x, until)])"

text \<open>\<open>issue\<close>: \<open>fresh\<close> is the token \<open>secrets.token_urlsafe\<close> draws. With a bound below 1 and nothing
  outstanding there is nothing to evict, and \<open>min\<close> raises.\<close>

definition issue :: "string \<Rightarrow> rat \<Rightarrow> ticket_store \<Rightarrow> ticket_store res" where
  "issue fresh now st =
     (let ts = prune_tickets now (tickets st) in
      if int (length ts) \<ge> max_outstanding st then
        (case ts of [] \<Rightarrow> Inl ValueError
         | t # us \<Rightarrow> Inr (st\<lparr>tickets := put_ticket fresh (now + ttl st)
                                 (forget_ticket (fst (soonest t us)) ts)\<rparr>))
      else Inr (st\<lparr>tickets := put_ticket fresh (now + ttl st) ts\<rparr>))"

definition consume :: "string \<Rightarrow> rat \<Rightarrow> ticket_store \<Rightarrow> bool \<times> ticket_store" where
  "consume x now st =
     (if x = [] then (False, st)
      else let ts = prune_tickets now (tickets st) in
        (case map_of ts x of
           None \<Rightarrow> (False, st\<lparr>tickets := ts\<rparr>)
         | Some until \<Rightarrow> (until > now, st\<lparr>tickets := forget_ticket x ts\<rparr>)))"

section \<open>The token bucket\<close>

text \<open>\<open>prune\<close> also returns how many buckets it dropped; only the limiter it leaves is modelled.\<close>

record token_bucket =
  tokens :: rat
  updated :: rat

record rate_limiter =
  rate :: rat
  capacity :: rat
  max_idle_s :: rat
  rl_buckets :: "string \<rightharpoonup> token_bucket"

definition refilled :: "rate_limiter \<Rightarrow> string \<Rightarrow> rat \<Rightarrow> rat" where
  "refilled rl key now = (case rl_buckets rl key of None \<Rightarrow> capacity rl
     | Some b \<Rightarrow> min (capacity rl) (tokens b + (now - updated b) * rate rl))"

definition allow :: "string \<Rightarrow> rat \<Rightarrow> rat \<Rightarrow> rate_limiter \<Rightarrow> bool \<times> rate_limiter" where
  "allow key cost now rl = (let avail = refilled rl key now in
     if avail \<ge> cost
     then (True, rl\<lparr>rl_buckets := (rl_buckets rl)(key \<mapsto> \<lparr>tokens = avail - cost, updated = now\<rparr>)\<rparr>)
     else (False, rl\<lparr>rl_buckets := (rl_buckets rl)(key \<mapsto> \<lparr>tokens = avail, updated = now\<rparr>)\<rparr>))"

definition prune :: "rat \<Rightarrow> rate_limiter \<Rightarrow> rate_limiter" where
  "prune now rl = rl\<lparr>rl_buckets := (\<lambda>k. case rl_buckets rl k of None \<Rightarrow> None
     | Some b \<Rightarrow> if now - updated b > max_idle_s rl then None else Some b)\<rparr>"

section \<open>The token bucket: what it lets through\<close>

text \<open>A limiter in use: the limiter and the last reading of its monotonic clock.\<close>

datatype rl_event = Allow string rat rat | Prune rat

fun rl_step :: "rate_limiter \<times> rat \<Rightarrow> rl_event \<Rightarrow> rate_limiter \<times> rat" where
  "rl_step (rl, clock) (Allow key cost now) = (snd (allow key cost now rl), now)"
| "rl_step (rl, clock) (Prune now) = (prune now rl, now)"

fun rl_legal :: "rate_limiter \<times> rat \<Rightarrow> rl_event \<Rightarrow> bool" where
  "rl_legal (rl, clock) (Allow key cost now) = (clock \<le> now \<and> 0 \<le> cost)"
| "rl_legal (rl, clock) (Prune now) = (clock \<le> now)"

fun admitted :: "string \<Rightarrow> rate_limiter \<times> rat \<Rightarrow> rl_event \<Rightarrow> rat" where
  "admitted k (rl, clock) (Allow key cost now) = (if key = k \<and> fst (allow key cost now rl) then cost else 0)"
| "admitted k (rl, clock) (Prune now) = 0"

fun elapsed :: "rate_limiter \<times> rat \<Rightarrow> rl_event \<Rightarrow> rat" where
  "elapsed (rl, clock) (Allow key cost now) = now - clock"
| "elapsed (rl, clock) (Prune now) = now - clock"

text \<open>The limits make sense: nothing is negative, and a bucket that is dropped as idle has had the time
  to fill up.\<close>

definition rl_ok :: "rat \<Rightarrow> rat \<Rightarrow> rate_limiter \<times> rat \<Rightarrow> bool" where
  "rl_ok r c s = (rate (fst s) = r \<and> capacity (fst s) = c \<and> 0 \<le> r \<and> 0 \<le> c \<and>
     c \<le> r * max_idle_s (fst s) \<and>
     (\<forall>k b. rl_buckets (fst s) k = Some b \<longrightarrow> 0 \<le> tokens b \<and> tokens b \<le> c \<and> updated b \<le> snd s))"

lemma refilled_bounds:
  assumes "rl_ok r c (rl, clock)" and "clock \<le> now"
  shows "0 \<le> refilled rl k now" and "refilled rl k now \<le> c"
    and "refilled rl k now \<le> refilled rl k clock + (now - clock) * r"
    and "refilled rl k clock \<le> refilled rl k now"
proof -
  have p: "0 \<le> (now - clock) * r" using assms by (simp add: rl_ok_def)
  have "0 \<le> refilled rl k now \<and> refilled rl k now \<le> c \<and>
     refilled rl k now \<le> refilled rl k clock + (now - clock) * r \<and> refilled rl k clock \<le> refilled rl k now"
  proof (cases "rl_buckets rl k")
    case None
    with assms p show ?thesis by (auto simp: refilled_def rl_ok_def)
  next
    case (Some b)
    have b: "0 \<le> tokens b" "updated b \<le> clock" "rate rl = r" "capacity rl = c" "0 \<le> r" "0 \<le> c"
      using assms Some by (auto simp: rl_ok_def)
    have e: "(now - updated b) * r = (clock - updated b) * r + (now - clock) * r" by (simp add: algebra_simps)
    have "0 \<le> (clock - updated b) * r" using b by simp
    then show ?thesis using b p e by (simp add: refilled_def Some min_def)
  qed
  then show "0 \<le> refilled rl k now" "refilled rl k now \<le> c"
    "refilled rl k now \<le> refilled rl k clock + (now - clock) * r" "refilled rl k clock \<le> refilled rl k now"
    by simp_all
qed

lemma refilled_allow:
  assumes "rl_ok r c (rl, clock)" and "clock \<le> now" and "0 \<le> cost"
  shows "refilled (snd (allow key cost now rl)) k now =
    refilled rl k now - (if key = k \<and> fst (allow key cost now rl) then cost else 0)"
  using refilled_bounds [OF assms(1,2), of k] assms
  by (auto simp: allow_def refilled_def rl_ok_def Let_def split: option.splits)

lemma refilled_prune:
  assumes "rl_ok r c (rl, clock)" and "clock \<le> now"
  shows "refilled (prune now rl) k now = refilled rl k now"
proof (cases "rl_buckets rl k")
  case (Some b)
  show ?thesis
  proof (cases "now - updated b > max_idle_s rl")
    case True
    have b: "0 \<le> tokens b" "rate rl = r" "capacity rl = c" "0 \<le> r" "c \<le> r * max_idle_s rl"
      using assms Some by (auto simp: rl_ok_def)
    have "r * max_idle_s rl \<le> r * (now - updated b)" using True b(4) by (intro mult_left_mono) simp_all
    then have "c \<le> tokens b + (now - updated b) * r" using b by (simp add: mult.commute)
    then show ?thesis using True Some b by (simp add: refilled_def prune_def)
  qed (simp add: Some refilled_def prune_def)
qed (simp add: refilled_def prune_def)

lemma rl_ok_step: "rl_ok r c s \<Longrightarrow> rl_legal s e \<Longrightarrow> rl_ok r c (rl_step s e)"
proof (cases s; cases e)
  fix rl clock key cost now assume s: "s = (rl, clock)" "e = Allow key cost now" "rl_ok r c s" "rl_legal s e"
  then have l: "clock \<le> now" "0 \<le> cost" by simp_all
  note b = refilled_bounds [of r c rl clock now key]
  have "updated b \<le> now" if "rl_buckets rl k = Some b" for k b
    using that s l by (force simp: rl_ok_def)
  then show ?thesis using s l b by (auto simp: rl_ok_def allow_def Let_def)
next
  fix rl clock now assume s: "s = (rl, clock)" "e = Prune now" "rl_ok r c s" "rl_legal s e"
  then show ?thesis by (force simp: rl_ok_def prune_def split: option.splits if_splits)
qed

lemma rl_used_step:
  assumes "rl_ok r c s" and "rl_legal s e"
  shows "- refilled (fst s) k (snd s) + (admitted k s e - elapsed s e * r)
    \<le> - refilled (fst (rl_step s e)) k (snd (rl_step s e))"
proof (cases s; cases e)
  fix rl clock key cost now assume s: "s = (rl, clock)" "e = Allow key cost now"
  with assms have a: "rl_ok r c (rl, clock)" "clock \<le> now" "0 \<le> cost" by simp_all
  from refilled_bounds(3) [OF a(1,2), of k] refilled_allow [OF a, of key k] show ?thesis
    by (simp add: s)
next
  fix rl clock now assume s: "s = (rl, clock)" "e = Prune now"
  with assms have a: "rl_ok r c (rl, clock)" "clock \<le> now" by simp_all
  from refilled_bounds(3) [OF a, of k] refilled_prune [OF a, of k] show ?thesis by (simp add: s)
qed

interpretation rlm: lawful_meter rl_step "rl_ok r c" rl_legal "\<lambda>s e. admitted k s e - elapsed s e * r"
  "\<lambda>s. - refilled (fst s) k (snd s)" 0 for r c k
proof unfold_locales
  fix s e assume "rl_ok r c s" "rl_legal s e"
  then show "rl_ok r c (rl_step s e)" by (rule rl_ok_step)
next
  fix s e assume "rl_ok r c s" "rl_legal s e"
  then show "- refilled (fst s) k (snd s) + (admitted k s e - elapsed s e * r)
    \<le> - refilled (fst (rl_step s e)) k (snd (rl_step s e))" by (rule rl_used_step)
next
  fix s assume "rl_ok r c s"
  then show "- refilled (fst s) k (snd s) \<le> 0"
    using refilled_bounds(1) [of r c "fst s" "snd s" "snd s" k] by simp
qed

lemma spent_admitted:
  "spent rl_step (\<lambda>s e. admitted k s e - elapsed s e * r) s es =
     spent rl_step (admitted k) s es - (snd (run rl_step s es) - snd s) * r"
proof (induction es arbitrary: s)
  case (Cons e es)
  have "elapsed s e = snd (rl_step s e) - snd s" by (cases s; cases e) simp_all
  then have "elapsed s e * r = (snd (rl_step s e) - snd s) * r" by simp
  with Cons [of "rl_step s e"] show ?case by (simp add: left_diff_distrib)
qed simp

text \<open>The token bucket bounds every client: whatever the calls, their costs and the housekeeping in
  between, what the limiter admits for one key since any moment is at most its burst capacity plus its
  rate times the time that passed, provided the idle time after which a bucket is dropped is long enough
  to refill it.\<close>

theorem token_bucket_bounds_the_flow:
  assumes "0 \<le> rate rl" and "0 \<le> capacity rl" and "capacity rl \<le> rate rl * max_idle_s rl"
    and "rl_buckets rl = Map.empty" and "legal_run rl_legal rl_step (rl, t0) es"
  shows "spent rl_step (admitted k) (rl, t0) es \<le> capacity rl + rate rl * (snd (run rl_step (rl, t0) es) - t0)"
proof -
  have "rl_ok (rate rl) (capacity rl) (rl, t0)" using assms by (simp add: rl_ok_def)
  from rlm.spent_le_slack [OF this assms(5), of k, unfolded spent_admitted] show ?thesis
    using assms(4) by (simp add: refilled_def mult.commute)
qed

definition edge_limiter :: rate_limiter where
  "edge_limiter = \<lparr>rate = 10, capacity = 20, max_idle_s = 300, rl_buckets = Map.empty\<rparr>"

theorem token_bucket_bounds_the_flow_witness:
  "spent rl_step (admitted ''ip'') (edge_limiter, 0) [Allow ''ip'' 15 0, Allow ''ip'' 15 0, Prune 1, Allow ''ip'' 15 2]
     \<le> 20 + 10 * 2"
  using token_bucket_bounds_the_flow [of edge_limiter 0
    "[Allow ''ip'' 15 0, Allow ''ip'' 15 0, Prune 1, Allow ''ip'' 15 2]" "''ip''"]
  by (simp add: edge_limiter_def)

section \<open>The tickets: once, and not for long\<close>

datatype ticket_event = Issue string rat | Consume string rat

fun ticket_step :: "ticket_store \<Rightarrow> ticket_event \<Rightarrow> ticket_store" where
  "ticket_step st (Issue x now) = settle st (issue x now st)"
| "ticket_step st (Consume x now) = snd (consume x now st)"

definition distinct_tickets :: "ticket_store \<Rightarrow> bool" where
  "distinct_tickets st = distinct (map fst (tickets st))"

text \<open>Redemptions of a ticket, and its issues; and whether it is outstanding.\<close>

fun redeemed :: "string \<Rightarrow> ticket_store \<Rightarrow> ticket_event \<Rightarrow> int" where
  "redeemed x st (Issue y now) = 0"
| "redeemed x st (Consume y now) = (if x = y \<and> fst (consume y now st) then 1 else 0)"

fun issued :: "string \<Rightarrow> ticket_store \<Rightarrow> ticket_event \<Rightarrow> int" where
  "issued x st (Issue y now) = (if x = y \<and> returns (issue y now st) then 1 else 0)"
| "issued x st (Consume y now) = 0"

definition outstanding :: "string \<Rightarrow> ticket_store \<Rightarrow> int" where
  "outstanding x st = (if x \<in> fst ` set (tickets st) then 1 else 0)"

lemma distinct_filter_fst: "distinct (map fst ts) \<Longrightarrow> distinct (map fst (filter P ts))"
  by (induction ts) auto

lemma put_ticket_fst:
  "fst ` set (put_ticket x u ts) = insert x (fst ` set ts)"
  "distinct (map fst ts) \<Longrightarrow> distinct (map fst (put_ticket x u ts))"
proof -
  have m: "map fst (map (\<lambda>(t, e). if t = x then (t, u) else (t, e)) ts) = map fst ts" by (induction ts) auto
  show "distinct (map fst ts) \<Longrightarrow> distinct (map fst (put_ticket x u ts))"
    unfolding put_ticket_def using m by (simp del: map_map)
  show "fst ` set (put_ticket x u ts) = insert x (fst ` set ts)"
    unfolding put_ticket_def by (force simp: image_iff split: if_splits)
qed

lemma fst_filters:
  "fst ` set (prune_tickets now ts) \<subseteq> fst ` set ts"
  "fst ` set (forget_ticket x ts) = fst ` set ts - {x}"
  "distinct (map fst ts) \<Longrightarrow> distinct (map fst (prune_tickets now ts))"
  "distinct (map fst ts) \<Longrightarrow> distinct (map fst (forget_ticket x ts))"
  by (auto simp: prune_tickets_def forget_ticket_def distinct_filter_fst)

lemma issue_cases:
  assumes "issue x now st = Inr st'"
  obtains ts where "tickets st' = put_ticket x (now + ttl st) ts" "set ts \<subseteq> set (tickets st)"
    "distinct (map fst (tickets st)) \<Longrightarrow> distinct (map fst ts)" "ttl st' = ttl st"
    "max_outstanding st' = max_outstanding st"
    "int (length ts) < max_outstanding st \<or> int (length ts) < int (length (prune_tickets now (tickets st)))"
proof (cases "int (length (prune_tickets now (tickets st))) \<ge> max_outstanding st")
  case False
  with assms have "st' = st\<lparr>tickets := put_ticket x (now + ttl st) (prune_tickets now (tickets st))\<rparr>"
    by (auto simp: issue_def Let_def)
  then show ?thesis using False fst_filters(3)
    by (intro that [of "prune_tickets now (tickets st)"]) (auto simp: prune_tickets_def)
next
  case True
  obtain t us where p: "prune_tickets now (tickets st) = t # us"
    using assms True by (cases "prune_tickets now (tickets st)") (auto simp: issue_def Let_def)
  let ?k = "fst (soonest t us)"
  have sn: "soonest b ss \<in> set (b # ss)" for b ss by (induction ss arbitrary: b) force+
  let ?ts = "forget_ticket ?k (t # us)"
  have st: "st' = st\<lparr>tickets := put_ticket x (now + ttl st) ?ts\<rparr>"
    using assms True by (simp add: issue_def Let_def p)
  have "length (forget_ticket ?k (t # us)) < length (t # us)"
    unfolding forget_ticket_def using sn [of t us] by (intro length_filter_less) auto
  moreover have "set ?ts \<subseteq> set (tickets st)"
    unfolding p [symmetric] by (auto simp: prune_tickets_def forget_ticket_def)
  moreover have "distinct (map fst (tickets st)) \<Longrightarrow> distinct (map fst ?ts)"
    using fst_filters(3) [of "tickets st" now] fst_filters(4) p by metis
  ultimately show ?thesis using st p by (intro that [of ?ts]) auto
qed

lemma distinct_step: "distinct_tickets st \<Longrightarrow> distinct_tickets (ticket_step st e)"
proof (cases e)
  case (Issue x now)
  assume d: "distinct_tickets st"
  show ?thesis
  proof (cases "issue x now st")
    case (Inr st')
    from Inr d show ?thesis
      by (elim issue_cases) (simp add: Issue Inr distinct_tickets_def put_ticket_fst)
  qed (simp add: Issue d)
next
  case (Consume x now)
  assume "distinct_tickets st"
  then show ?thesis
    using fst_filters(3,4) by (auto simp: Consume consume_def distinct_tickets_def Let_def split: option.splits)
qed

lemma redeem_step:
  assumes "distinct_tickets st"
  shows "- outstanding x st + (redeemed x st e - issued x st e) \<le> - outstanding x (ticket_step st e)"
proof (cases e)
  case (Issue y now)
  show ?thesis
  proof (cases "issue y now st")
    case (Inr st')
    then show ?thesis
      by (elim issue_cases) (auto simp: Issue Inr outstanding_def put_ticket_fst)
  qed (simp add: Issue outstanding_def)
next
  case (Consume y now)
  note f = fst_filters(1) [of now "tickets st"] fst_filters(2) [of y "prune_tickets now (tickets st)"]
  have "y \<in> fst ` set (tickets st)" if "map_of (prune_tickets now (tickets st)) y = Some u" for u
    using that f(1) by (force dest: map_of_SomeD)
  then show ?thesis using f
    by (auto simp: Consume consume_def outstanding_def Let_def split: option.splits)
qed

interpretation tick: metered ticket_step distinct_tickets "\<lambda>st e. redeemed x st e - issued x st e"
  "\<lambda>st. - outstanding x st" 0 for x
proof unfold_locales
  fix st e assume d: "distinct_tickets st"
  show "distinct_tickets (ticket_step st e)" by (rule distinct_step [OF d])
  show "- outstanding x st + (redeemed x st e - issued x st e) \<le> - outstanding x (ticket_step st e)"
    by (rule redeem_step [OF d])
  show "- outstanding x st \<le> 0" by (simp add: outstanding_def)
qed

text \<open>What is outstanding was issued, and expires its time to live after that.\<close>

definition backed :: "ticket_event list \<Rightarrow> rat \<Rightarrow> ticket_store \<Rightarrow> bool" where
  "backed es life st = (ttl st = life \<and> (\<forall>(x, u) \<in> set (tickets st). \<exists>t. Issue x t \<in> set es \<and> u = t + life))"

lemma put_ticket_sub: "set (put_ticket x u ts) \<subseteq> insert (x, u) (set ts)"
  by (auto simp: put_ticket_def split: if_splits)

lemma backed_step:
  assumes "backed es life st"
  shows "backed (es @ [e]) life (ticket_step st e)"
proof (cases e)
  case (Issue x now)
  show ?thesis
  proof (cases "issue x now st")
    case (Inr st')
    then obtain ts where ts: "tickets st' = put_ticket x (now + ttl st) ts" "set ts \<subseteq> set (tickets st)"
      "ttl st' = ttl st" by (rule issue_cases)
    have "\<exists>t. Issue y t \<in> set (es @ [e]) \<and> u = t + life" if "(y, u) \<in> set (tickets st')" for y u
    proof -
      have "(y, u) = (x, now + ttl st) \<or> (y, u) \<in> set (tickets st)"
        using that ts put_ticket_sub [of x "now + ttl st" ts] by auto
      then show ?thesis using assms Issue by (auto simp: backed_def)
    qed
    then show ?thesis using assms ts(3) by (auto simp: Issue Inr backed_def)
  qed (use assms Issue in \<open>auto simp: backed_def\<close>)
next
  case (Consume x now)
  have "set (tickets (snd (consume x now st))) \<subseteq> set (tickets st)" "ttl (snd (consume x now st)) = ttl st"
    by (auto simp: consume_def Let_def prune_tickets_def forget_ticket_def split: option.splits)
  then show ?thesis using assms by (fastforce simp: Consume backed_def)
qed

lemma backed_run: "backed [] life st \<Longrightarrow> backed es life (run ticket_step st es)"
  by (induction es rule: rev_induct) (simp_all add: backed_step)

text \<open>A ticket opens one socket, once, and soon: over any interleaving of issues and redemptions,
  each ticket is redeemed at most as often as it was issued, and a redemption succeeds only less than
  the time to live after an issue of that very ticket.\<close>

theorem ticket_opens_once:
  assumes "tickets st = []"
  shows "spent ticket_step (redeemed x) st es \<le> spent ticket_step (issued x) st es \<and>
    (fst (consume x now (run ticket_step st es)) \<longrightarrow> (\<exists>t. Issue x t \<in> set es \<and> now < t + ttl st))"
proof -
  have d: "distinct_tickets st" and o: "outstanding x st = 0"
    by (simp_all add: assms distinct_tickets_def outstanding_def)
  have "backed [] (ttl st) st" by (simp add: assms backed_def)
  note b = backed_run [OF this, of es]
  have "\<exists>t. Issue x t \<in> set es \<and> now < t + ttl st" if c: "fst (consume x now (run ticket_step st es))"
  proof -
    from c obtain u where "map_of (prune_tickets now (tickets (run ticket_step st es))) x = Some u" "now < u"
      by (auto simp: consume_def Let_def split: if_splits option.splits)
    then have "(x, u) \<in> set (tickets (run ticket_step st es))"
      by (auto dest!: map_of_SomeD simp: prune_tickets_def)
    with b \<open>now < u\<close> show ?thesis by (auto simp: backed_def)
  qed
  with tick.spent_le_cap [OF d, of x es] o show ?thesis by (simp add: spent_diff)
qed

definition ws_store :: ticket_store where
  "ws_store = \<lparr>ttl = 30, max_outstanding = 1024, tickets = []\<rparr>"

theorem ticket_opens_once_witness:
  "spent ticket_step (redeemed ''t'') ws_store [Issue ''t'' 0, Consume ''t'' 5, Consume ''t'' 6] \<le> 1 \<and>
   \<not> fst (consume ''t'' 31 (run ticket_step ws_store [Issue ''t'' 0]))"
  using ticket_opens_once [of ws_store "''t''" "[Issue ''t'' 0, Consume ''t'' 5, Consume ''t'' 6]" 0]
    ticket_opens_once [of ws_store "''t''" "[Issue ''t'' 0]" 31]
  by (auto simp: ws_store_def issue_def prune_tickets_def put_ticket_def Let_def)

section \<open>The login limiter: few guesses, little memory\<close>

datatype login_event = Attempt string rat | Success string

fun login_step :: "login_limiter \<Rightarrow> login_event \<Rightarrow> login_limiter" where
  "login_step l (Attempt d now) = settle l (map_sum id snd (begin_attempt d (Fin now) l))"
| "login_step l (Success d) = record_success d l"

lemma limiter_fields [simp]:
  "max_failures (put_bucket s b l) = max_failures l" "window_s (put_bucket s b l) = window_s l"
  "max_keys (put_bucket s b l) = max_keys l"
  "max_failures (prune_idle now l) = max_failures l" "window_s (prune_idle now l) = window_s l"
  "max_keys (prune_idle now l) = max_keys l"
  by (simp_all add: put_bucket_def prune_idle_def Let_def split: slot.splits)

lemma trim_fields [simp]:
  "attempts (trim w now b) = dropWhile (\<lambda>t. t \<le> now - w) (attempts b)" "last_seen (trim w now b) = last_seen b"
  by (simp_all add: trim_def)

text \<open>What the bucket of a slot holds; nothing, for an account that has none.\<close>

definition held :: "login_limiter \<Rightarrow> slot \<Rightarrow> rat list" where
  "held l s = attempts (bucket_at l s 0)"

lemma attempts_bucket_at [simp]: "attempts (bucket_at l s now) = held l s"
  by (simp add: held_def bucket_at_def split: slot.splits option.splits)

lemma held_put: "held (put_bucket s b l) s' = (if s = s' then attempts b else held l s')"
  by (auto simp: held_def put_bucket_def bucket_at_def split: slot.splits)

lemma held_success: "held (record_success d l) s = (if s = Own d then [] else held l s)"
  by (auto simp: held_def record_success_def bucket_at_def split: slot.splits)

lemma Nil_dropWhile [simp]: "[] = dropWhile P xs \<longleftrightarrow> (\<forall>x\<in>set xs. P x)"
  using dropWhile_eq_Nil_conv by metis

lemma held_prune: "held (prune_idle now l) s = dropWhile (\<lambda>t. t \<le> now - window_s l) (held l s)"
  by (auto simp: held_def prune_idle_def bucket_at_def Let_def split: slot.splits option.splits)

text \<open>An attempt, seen from the slots: the slot's window is trimmed, and the attempt either fits in it
  or is refused.\<close>

lemma dropWhile_idem_le [simp]: "dropWhile P (dropWhile P xs) = dropWhile P xs"
  by (induction xs) auto

lemma reserve_slots:
  fixes l now d
  defines "s \<equiv> slot_for d (prune_idle now l)" and "l1 \<equiv> prune_idle now l"
  shows "fst (reserve d now l) = None \<longleftrightarrow> length (held l1 s) < max_failures l"
    and "held (snd (reserve d now l)) s' =
      (if s = s' \<and> fst (reserve d now l) = None then held l1 s @ [now] else held l1 s')"
  by (auto simp: reserve_def Let_def held_put s_def l1_def held_prune)

text \<open>The invariant of the bounds: room in the table, no bucket over its limit.\<close>

definition limiter_ok :: "login_limiter \<Rightarrow> bool" where
  "limiter_ok l = (finite (dom (buckets l)) \<and> card (dom (buckets l)) \<le> max_keys l \<and>
     (\<forall>s. length (held l s) \<le> max_failures l))"

lemma dom_prune: "dom (buckets (prune_idle now l)) \<subseteq> dom (buckets l)"
  by (auto simp: prune_idle_def Let_def split: option.splits)

lemma dom_put_slot:
  assumes "finite (dom (buckets l))" and "card (dom (buckets l)) \<le> max_keys l"
  shows "card (dom (buckets (put_bucket (slot_for d l) b l))) \<le> max_keys l"
  using assms by (cases "d \<in> dom (buckets l)")
    (simp_all add: put_bucket_def slot_for_def domIff card_insert_if insert_absorb)

lemma begin_attempt_Fin: "begin_attempt d (Fin now) l = Inr (reserve d now l)"
  by (simp add: begin_attempt_def)

lemma reserve_buckets: "\<exists>b. buckets (snd (reserve d now l)) =
    buckets (put_bucket (slot_for d (prune_idle now l)) b (prune_idle now l))"
  by (auto simp: reserve_def Let_def)

lemma reserve_limits [simp]: "max_failures (snd (reserve d now l)) = max_failures l"
  "max_keys (snd (reserve d now l)) = max_keys l" "window_s (snd (reserve d now l)) = window_s l"
  by (simp_all add: reserve_def Let_def)

lemma limiter_step: "limiter_ok l \<Longrightarrow> limiter_ok (login_step l e)"
proof (cases e)
  case (Attempt d now)
  assume ok: "limiter_ok l"
  let ?l1 = "prune_idle now l"
  have f: "finite (dom (buckets ?l1))" by (rule finite_subset [OF dom_prune]) (use ok in \<open>simp add: limiter_ok_def\<close>)
  have "card (dom (buckets ?l1)) \<le> card (dom (buckets l))"
    using ok dom_prune by (intro card_mono) (auto simp: limiter_ok_def)
  then have c: "card (dom (buckets ?l1)) \<le> max_keys ?l1" using ok by (simp add: limiter_ok_def)
  obtain b where b: "buckets (snd (reserve d now l)) = buckets (put_bucket (slot_for d ?l1) b ?l1)"
    using reserve_buckets by blast
  have "finite (dom (buckets (snd (reserve d now l))))"
    using f by (auto simp: b put_bucket_def split: slot.splits)
  moreover have "card (dom (buckets (snd (reserve d now l)))) \<le> max_keys l"
    using dom_put_slot [OF f c] by (simp add: b)
  moreover have "length (held ?l1 s) \<le> max_failures l" for s
    using ok length_dropWhile_le [of "\<lambda>t. t \<le> now - window_s l" "held l s"]
    by (fastforce simp: limiter_ok_def held_prune intro: order_trans)
  then have "length (held (snd (reserve d now l)) s) \<le> max_failures l" for s
    using reserve_slots [of d now l] by (auto simp: Suc_le_eq)
  ultimately show ?thesis by (simp add: Attempt begin_attempt_Fin limiter_ok_def)
next
  case (Success d)
  assume ok: "limiter_ok l"
  have "card (dom (buckets l) - {d}) \<le> card (dom (buckets l))"
    using ok by (intro card_mono) (auto simp: limiter_ok_def)
  moreover have "length (held (record_success d l) s) \<le> max_failures l" for s
    using ok by (simp add: limiter_ok_def held_success)
  ultimately show ?thesis using ok by (auto simp: Success limiter_ok_def record_success_def)
qed

interpretation lim: machine login_step limiter_ok
  by unfold_locales (rule limiter_step)

text \<open>The limiter's memory is bounded whatever names are thrown at it: after any sequence of
  attempts and successes it keeps at most \<open>max_keys\<close> accounts and at most \<open>max_failures\<close> times in each
  bucket, and a refusal always asks for between 1 and 60 seconds.\<close>

theorem limiter_memory_is_bounded:
  assumes "limiter_init f w k i = Inr l"
  shows "card (dom (buckets (run login_step l es))) \<le> max_keys (run login_step l es) \<and>
    length (held (run login_step l es) s) \<le> max_failures (run login_step l es) \<and>
    (case fst (reserve d now (run login_step l es)) of None \<Rightarrow> True | Some secs \<Rightarrow> 1 \<le> secs \<and> secs \<le> 60)"
proof -
  have "limiter_ok l" using assms
    by (auto simp: limiter_init_def limiter_ok_def held_def bucket_at_def split: pyfloat.splits if_splits slot.splits)
  then have "limiter_ok (run login_step l es)" by (rule lim.inv_run)
  moreover have "case fst (reserve d now l') of None \<Rightarrow> True | Some secs \<Rightarrow> 1 \<le> secs \<and> secs \<le> 60" for l'
    by (simp add: reserve_def Let_def)
  ultimately show ?thesis by (simp add: limiter_ok_def)
qed

definition admitted_to :: "slot \<Rightarrow> login_limiter \<Rightarrow> string \<Rightarrow> rat \<Rightarrow> bool" where
  "admitted_to s l d now = (slot_for d (prune_idle now l) = s \<and> fst (reserve d now l) = None)"

text \<open>The limiter with its clock and the log of what one slot was admitted.\<close>

fun watch :: "slot \<Rightarrow> login_limiter \<times> rat \<times> rat list \<Rightarrow> login_event \<Rightarrow> login_limiter \<times> rat \<times> rat list" where
  "watch s (l, clock, seen) (Attempt d now) =
     (login_step l (Attempt d now), now, if admitted_to s l d now then seen @ [now] else seen)"
| "watch s (l, clock, seen) (Success d) = (login_step l (Success d), clock, seen)"

fun watch_legal :: "slot \<Rightarrow> login_limiter \<times> rat \<times> rat list \<Rightarrow> login_event \<Rightarrow> bool" where
  "watch_legal s (l, clock, seen) (Attempt d now) = (clock \<le> now)"
| "watch_legal s (l, clock, seen) (Success d) = (s \<noteq> Own d)"

definition in_window :: "rat \<Rightarrow> rat \<Rightarrow> rat list \<Rightarrow> rat list" where
  "in_window w T ts = filter (\<lambda>t. T - w < t \<and> t \<le> T) ts"

definition recent :: "rat \<Rightarrow> rat list \<Rightarrow> rat list" where
  "recent c ts = dropWhile (\<lambda>t. t \<le> c) ts"

lemma recent_recent: "c \<le> c' \<Longrightarrow> recent c' (recent c ts) = recent c' ts"
  by (induction ts) (auto simp: recent_def)

lemma recent_snoc: "c < t \<Longrightarrow> recent c (ts @ [t]) = recent c ts @ [t]"
  by (induction ts) (auto simp: recent_def)

lemma recent_sorted: "sorted ts \<Longrightarrow> filter (\<lambda>t. c < t) ts = recent c ts"
proof (induction ts)
  case (Cons a ts)
  then show ?case by (cases ts) (auto simp: recent_def)
qed (simp add: recent_def)

definition watched_ok :: "rat \<Rightarrow> nat \<Rightarrow> slot \<Rightarrow> login_limiter \<times> rat \<times> rat list \<Rightarrow> bool" where
  "watched_ok w m s z = (case z of (l, clock, seen) \<Rightarrow>
     window_s l = w \<and> max_failures l = m \<and> 0 < w \<and> sorted seen \<and> (\<forall>t \<in> set seen. t \<le> clock) \<and>
     recent (clock - w) seen = recent (clock - w) (held l s) \<and> (\<forall>T. length (in_window w T seen) \<le> m))"

lemma window_grows:
  assumes "sorted seen" and "length (recent (now - w) seen) < m" and "length (in_window w T seen) \<le> m"
  shows "length (in_window w T (seen @ [now])) \<le> m"
proof (cases "now \<le> T")
  case True
  have "length (in_window w T seen) \<le> length (filter (\<lambda>t. now - w < t) seen)"
    using True by (induction seen) (auto simp: in_window_def)
  also have "\<dots> < m" using assms(1,2) by (simp add: recent_sorted)
  finally show ?thesis by (simp add: in_window_def)
qed (use assms(3) in \<open>simp add: in_window_def\<close>)

lemma watch_keeps:
  assumes ok: "watched_ok w m s z" and "watch_legal s z e"
  shows "watched_ok w m s (watch s z e)"
proof (cases z)
  case (fields l clock seen)
  note ok' = ok [unfolded fields watched_ok_def, simplified]
  show ?thesis
  proof (cases e)
    case (Success d)
    then show ?thesis using assms fields by (simp add: watched_ok_def held_success) (simp add: record_success_def)
  next
    case (Attempt d now)
    then have t: "clock \<le> now" using assms fields by simp
    let ?l = "snd (reserve d now l)" and ?h = "held (prune_idle now l) s"
    have h: "?h = recent (now - w) seen"
      using ok' t recent_recent [of "clock - w" "now - w"] by (simp add: held_prune recent_def) metis
    have same: "recent (now - w) ?h = recent (now - w) seen" by (simp add: h recent_recent)
    show ?thesis
    proof (cases "admitted_to s l d now")
      case True
      then have "held ?l s = ?h @ [now]" "length ?h < m"
        using ok' reserve_slots [of d now l] by (auto simp: admitted_to_def)
      then show ?thesis using ok' t True same h
        by (force simp: Attempt fields watched_ok_def begin_attempt_Fin sorted_append recent_snoc window_grows)
    next
      case False
      then have "held ?l s = ?h" using reserve_slots(2) [of d now l s] by (auto simp: admitted_to_def)
      then show ?thesis using ok' t False same
        by (force simp: Attempt fields watched_ok_def begin_attempt_Fin)
    qed
  qed
qed

interpretation slot: lawful "watch s" "watched_ok w m s" "watch_legal s" for s w m
  by unfold_locales (rule watch_keeps)

text \<open>Password guessing is throttled: with a clock that does not go back and while the account's
  owner does not sign in, any window of \<open>window_s\<close> seconds holds at most \<open>max_failures\<close> admitted attempts
  for the account's own bucket; and the overflow bucket, which all accounts beyond the table share and
  which no success clears, admits at most as many for all of them together.\<close>

theorem guessing_is_throttled:
  assumes "limiter_init f w k i = Inr l" and "legal_run (watch_legal s) (watch s) (l, t0, []) es"
  shows "length (in_window (window_s l) T (snd (snd (run (watch s) (l, t0, []) es)))) \<le> max_failures l"
proof -
  have "watched_ok (window_s l) (max_failures l) s (l, t0, [])" using assms(1)
    by (auto simp: limiter_init_def watched_ok_def held_def bucket_at_def recent_def in_window_def
        split: pyfloat.splits if_splits slot.splits)
  from slot.inv_legal_run [OF this assms(2)] show ?thesis by (auto simp: watched_ok_def)
qed

theorem limiter_memory_is_bounded_witness:
  "\<exists>l. limiter_init 10 (Fin 600) 2 (Fin 3600) = Inr l \<and>
    card (dom (buckets (run login_step l [Attempt ''a'' 1, Attempt ''b'' 2, Attempt ''c'' 3]))) \<le>
      max_keys (run login_step l [Attempt ''a'' 1, Attempt ''b'' 2, Attempt ''c'' 3])"
proof -
  obtain l where l: "limiter_init 10 (Fin 600) 2 (Fin 3600) = Inr l" by (simp add: limiter_init_def)
  from limiter_memory_is_bounded [OF l] show ?thesis using l by blast
qed

theorem guessing_is_throttled_witness:
  "\<exists>l. limiter_init 2 (Fin 600) 2 (Fin 3600) = Inr l \<and>
    length (in_window (window_s l) 3 (snd (snd (run (watch (Own ''a'')) (l, 0, [])
      [Attempt ''a'' 1, Attempt ''a'' 2, Success ''b'', Attempt ''a'' 3])))) \<le> 2"
proof -
  obtain l where l: "limiter_init 2 (Fin 600) 2 (Fin 3600) = Inr l" "max_failures l = 2"
    by (simp add: limiter_init_def)
  have "legal_run (watch_legal (Own ''a'')) (watch (Own ''a'')) (l, 0, [])
      [Attempt ''a'' 1, Attempt ''a'' 2, Success ''b'', Attempt ''a'' 3]" by simp
  from guessing_is_throttled [OF l(1) this, of 3] show ?thesis using l by auto
qed

end
