(* ===== verification/Update_Version.thy ===== *)
theory Update_Version
  imports Py_Values "HOL-Library.Char_ord" "HOL-Library.List_Lexorder" "HOL-Library.Product_Lexorder"
begin

text \<open>
  Which release an update is: the restricted SemVer of \<open>server/astrodeck/update/version.py\<close> (parsing,
  precedence, the newest tag of a channel) and the choice of a GitHub release of
  \<open>update/github.py\<close>.

  The grammar is the code's regular expression, whose pieces begin with characters the piece before
  cannot contain, so each piece is taken greedily. A version's precedence key is a tuple, compared as
  Python compares tuples: the library's lexicographic orders on products and lists, over an instance of
  \<open>linorder\<close> for the pre-release identifiers.
\<close>

section \<open>Versions\<close>

record version =
  v_major :: nat
  v_minor :: nat
  v_patch :: nat
  v_pre :: "string list"
  v_raw :: string

definition is_digit :: "char \<Rightarrow> bool" where
  "is_digit c = (let n = (of_char c :: nat) in 48 \<le> n \<and> n \<le> 57)"

definition is_alnum :: "char \<Rightarrow> bool" where
  "is_alnum c = (let n = (of_char c :: nat) in is_digit c \<or> 65 \<le> n \<and> n \<le> 90 \<or> 97 \<le> n \<and> n \<le> 122)"

definition is_ident :: "char \<Rightarrow> bool" where
  "is_ident c = (is_alnum c \<or> c = CHR ''.'' \<or> c = CHR ''-'')"

definition digits_nat :: "string \<Rightarrow> nat" where
  "digits_nat s = foldl (\<lambda>n c. n * 10 + (of_char c - 48)) 0 s"

text \<open>The pieces of the expression: a number, a number with its dot, the pre-release, the build metadata
  and the white space that must end the string.\<close>

definition take_number :: "string \<Rightarrow> (nat \<times> string) option" where
  "take_number s = (let d = takeWhile is_digit s in
     if d = [] then None else Some (digits_nat d, dropWhile is_digit s))"

definition take_dotted :: "string \<Rightarrow> (nat \<times> string) option" where
  "take_dotted s = (case take_number s of
     Some (n, c # rest) \<Rightarrow> if c = CHR ''.'' then Some (n, rest) else None | _ \<Rightarrow> None)"

definition take_pre :: "string \<Rightarrow> string \<times> string" where
  "take_pre s = (case s of
     m # c # cs \<Rightarrow> if m = CHR ''-'' \<and> is_alnum c
       then (takeWhile is_ident (c # cs), dropWhile is_ident (c # cs)) else ([], s)
   | _ \<Rightarrow> ([], s))"

definition drop_build :: "string \<Rightarrow> string" where
  "drop_build s = (case s of p # c # cs \<Rightarrow> if p = CHR ''+'' \<and> is_ident c
     then dropWhile is_ident (c # cs) else s | _ \<Rightarrow> s)"

definition drop_v :: "string \<Rightarrow> string" where
  "drop_v s = (case s of c # cs \<Rightarrow> if c = CHR ''v'' then cs else s | [] \<Rightarrow> [])"

definition parse_version :: "string \<Rightarrow> version option" where
  "parse_version tag =
     (case take_dotted (drop_v (dropWhile is_space tag)) of None \<Rightarrow> None | Some (major, s) \<Rightarrow>
      case take_dotted s of None \<Rightarrow> None | Some (minor, s) \<Rightarrow>
      case take_number s of None \<Rightarrow> None | Some (patch, s) \<Rightarrow>
      let (pre, s) = take_pre s in
      if dropWhile is_space (drop_build s) \<noteq> [] then None
      else Some \<lparr>v_major = major, v_minor = minor, v_patch = patch,
             v_pre = (if pre = [] then [] else split_on (CHR ''.'') pre), v_raw = py_strip tag\<rparr>)"

definition version_str :: "version \<Rightarrow> string" where
  "version_str v = (let core = nat_str (v_major v) @ ''.'' @ nat_str (v_minor v) @ ''.'' @ nat_str (v_patch v) in
     if v_pre v \<noteq> [] then core @ ''-'' @ py_join ''.'' (v_pre v) else core)"

section \<open>Precedence\<close>

text \<open>An identifier's key: numbers by value, below every other identifier.\<close>

datatype ident = Num_Id nat | Text_Id string

instantiation ident :: linorder
begin

fun less_eq_ident :: "ident \<Rightarrow> ident \<Rightarrow> bool" where
  "less_eq_ident (Num_Id a) (Num_Id b) = (a \<le> b)"
| "less_eq_ident (Num_Id a) (Text_Id s) = True"
| "less_eq_ident (Text_Id s) (Num_Id a) = False"
| "less_eq_ident (Text_Id s) (Text_Id t) = (s \<le> t)"

definition less_ident :: "ident \<Rightarrow> ident \<Rightarrow> bool" where
  "less_ident a b = (a \<le> b \<and> \<not> b \<le> a)"

instance
proof
  fix x y z :: ident
  show "x \<le> x" by (cases x) auto
  show "x < y \<longleftrightarrow> x \<le> y \<and> \<not> y \<le> x" by (rule less_ident_def)
  show "x \<le> y \<Longrightarrow> y \<le> z \<Longrightarrow> x \<le> z" by (cases x; cases y; cases z) auto
  show "x \<le> y \<Longrightarrow> y \<le> x \<Longrightarrow> x = y" by (cases x; cases y) auto
  show "x \<le> y \<or> y \<le> x" by (cases x; cases y) auto
qed

end

definition ident_key :: "string \<Rightarrow> ident" where
  "ident_key s = (if s \<noteq> [] \<and> list_all is_digit s then Num_Id (digits_nat s) else Text_Id s)"

type_synonym version_key = "nat \<times> nat \<times> nat \<times> nat \<times> ident list"

definition version_key :: "version \<Rightarrow> version_key" where
  "version_key v = (v_major v, v_minor v, v_patch v, if v_pre v = [] then 1 else 0, map ident_key (v_pre v))"

definition is_newer :: "string \<Rightarrow> string \<Rightarrow> bool" where
  "is_newer a b = (case (parse_version a, parse_version b) of
     (Some va, Some vb) \<Rightarrow> version_key vb < version_key va | _ \<Rightarrow> False)"

text \<open>\<open>max(versions, key=sort_key)\<close>: the first of the largest.\<close>

fun first_max :: "version \<Rightarrow> version list \<Rightarrow> version" where
  "first_max best [] = best"
| "first_max best (v # vs) = first_max (if version_key best < version_key v then v else best) vs"

definition select_latest :: "string list \<Rightarrow> string \<Rightarrow> string option \<Rightarrow> version option" where
  "select_latest tags channel current =
     (case filter (\<lambda>v. channel = ''prerelease'' \<or> v_pre v = []) (List.map_filter parse_version tags) of
        [] \<Rightarrow> None
      | v # vs \<Rightarrow> let latest = first_max v vs in
          (case current of None \<Rightarrow> Some latest
           | Some c \<Rightarrow> (case parse_version c of None \<Rightarrow> Some latest
               | Some cur \<Rightarrow> if version_key cur < version_key latest then Some latest else None)))"

section \<open>The release of a tag\<close>

text \<open>A release and its assets as the GitHub API lists them; \<open>None\<close> is an entry that is not an object. A
  missing text field reads as the empty string, a URL may be missing.\<close>

record asset =
  as_name :: string
  as_browser_url :: "string option"
  as_api_url :: "string option"

record gh_release =
  gh_draft :: bool
  gh_prerelease :: bool
  gh_tag :: string
  gh_body :: string
  gh_assets :: "asset option list"

record release_info =
  ri_version :: string
  ri_tag :: string
  ri_notes_md :: string
  ri_artifact_url :: string
  ri_sha256_url :: "string option"
  ri_sig_url :: "string option"
  ri_prerelease :: bool
  ri_artifact_api_url :: "string option"
  ri_sha256_api_url :: "string option"
  ri_sig_api_url :: "string option"

definition ends_with :: "string \<Rightarrow> string \<Rightarrow> bool" where
  "ends_with suffix s = (length suffix \<le> length s \<and> drop (length s - length suffix) s = suffix)"

definition find_asset :: "string \<Rightarrow> asset option list \<Rightarrow> asset option" where
  "find_asset suffix assets = find (\<lambda>a. ends_with suffix (as_name a)) (List.map_filter id assets)"

definition eligible_releases :: "string \<Rightarrow> gh_release option list \<Rightarrow> gh_release list" where
  "eligible_releases channel releases =
     filter (\<lambda>r. \<not> gh_draft r \<and> (channel = ''prerelease'' \<or> \<not> gh_prerelease r)) (List.map_filter id releases)"

definition pick_release :: "gh_release option list \<Rightarrow> string \<Rightarrow> string option \<Rightarrow> release_info option" where
  "pick_release releases channel current =
     (let rels = eligible_releases channel releases in
      case select_latest (map gh_tag rels) channel current of None \<Rightarrow> None | Some latest \<Rightarrow>
      case find (\<lambda>r. case parse_version (gh_tag r) of None \<Rightarrow> False
          | Some v \<Rightarrow> version_str v = version_str latest) rels of None \<Rightarrow> None | Some r \<Rightarrow>
      case find_asset ''.tar.gz'' (gh_assets r) of None \<Rightarrow> None | Some art \<Rightarrow>
      case as_browser_url art of None \<Rightarrow> None | Some url \<Rightarrow>
      if url = [] then None
      else let sha = find_asset ''.sha256'' (gh_assets r); sig = find_asset ''.sig'' (gh_assets r) in
        Some \<lparr>ri_version = version_str latest, ri_tag = gh_tag r, ri_notes_md = gh_body r,
          ri_artifact_url = url,
          ri_sha256_url = Option.bind sha as_browser_url, ri_sig_url = Option.bind sig as_browser_url,
          ri_prerelease = gh_prerelease r, ri_artifact_api_url = as_api_url art,
          ri_sha256_api_url = Option.bind sha as_api_url, ri_sig_api_url = Option.bind sig as_api_url\<rparr>)"

section \<open>Printing and parsing\<close>

lemma nat_str_not_Nil [simp]: "nat_str n \<noteq> []"
  by (subst nat_str.simps) simp

lemma digit_char_nat: "d < 10 \<Longrightarrow> of_char (digit_char d) = 48 + d"
  by (simp add: digit_char_def of_char_of)

lemma nat_str_digits: "list_all is_digit (nat_str n)"
proof (induction n rule: nat_str.induct)
  case (1 n)
  have "is_digit (digit_char d)" if "d < 10" for d using digit_char_nat [OF that] that by (simp add: is_digit_def)
  then show ?case using 1 by (subst nat_str.simps) simp
qed

lemma digits_nat_str [simp]: "digits_nat (nat_str n) = n"
proof (induction n rule: nat_str.induct)
  case (1 n)
  then show ?case by (subst nat_str.simps) (simp add: digits_nat_def digit_char_nat)
qed

lemma take_number_str:
  assumes "rest = [] \<or> \<not> is_digit (hd rest)"
  shows "take_number (nat_str n @ rest) = Some (n, rest)"
proof -
  have "takeWhile is_digit (nat_str n @ rest) = nat_str n @ takeWhile is_digit rest"
    "dropWhile is_digit (nat_str n @ rest) = dropWhile is_digit rest"
    using nat_str_digits [of n] by (auto simp: list_all_iff takeWhile_append dropWhile_append)
  moreover have "takeWhile is_digit rest = []" "dropWhile is_digit rest = rest" using assms by (cases rest; auto)+
  ultimately show ?thesis by (simp add: take_number_def)
qed

lemma take_dotted_str: "take_dotted (nat_str n @ ''.'' @ rest) = Some (n, rest)"
proof -
  have "take_number (nat_str n @ CHR ''.'' # rest) = Some (n, CHR ''.'' # rest)"
    by (rule take_number_str) (simp add: is_digit_def)
  then show ?thesis by (simp add: take_dotted_def)
qed

lemma take_pre_shape: "take_pre s = (pre, s') \<Longrightarrow> pre = [] \<and> s' = s \<or>
    (\<exists>c cs. pre = c # cs \<and> is_alnum c \<and> list_all is_ident pre)"
  by (auto simp: take_pre_def list_all_iff is_ident_def dest!: set_takeWhileD split: list.splits if_splits)

lemma no_space_chars:
  "is_digit c \<Longrightarrow> \<not> is_space c" "is_alnum c \<Longrightarrow> \<not> is_space c" "is_ident c \<Longrightarrow> \<not> is_space c"
  by (auto simp: is_digit_def is_alnum_def is_ident_def is_space_def Let_def)

lemma parse_version_Some:
  assumes "parse_version tag = Some v"
  obtains s pre s' where "v_pre v = (if pre = [] then [] else split_on (CHR ''.'') pre)"
    "v_raw v = py_strip tag" "take_pre s = (pre, s')"
proof -
  obtain major s1 where 1: "take_dotted (drop_v (dropWhile is_space tag)) = Some (major, s1)"
    using assms by (auto simp: parse_version_def split: option.splits)
  obtain minor s2 where 2: "take_dotted s1 = Some (minor, s2)"
    using assms 1 by (auto simp: parse_version_def split: option.splits)
  obtain patch s where 3: "take_number s2 = Some (patch, s)"
    using assms 1 2 by (auto simp: parse_version_def split: option.splits)
  obtain pre s' where 4: "take_pre s = (pre, s')" by (cases "take_pre s")
  show ?thesis by (rule that [of pre s s']) (use assms 1 2 3 4 in \<open>auto simp: parse_version_def split: if_splits\<close>)
qed

lemma version_str_shape:
  assumes "parse_version tag = Some v"
  obtains pre where "version_str v = nat_str (v_major v) @ ''.'' @ nat_str (v_minor v) @ ''.'' @ nat_str (v_patch v)
      @ (if pre = [] then [] else CHR ''-'' # pre)"
    "v_pre v = (if pre = [] then [] else split_on (CHR ''.'') pre)"
    "take_pre (if pre = [] then [] else CHR ''-'' # pre) = (pre, [])" "\<forall>c \<in> set pre. \<not> is_space c"
proof -
  from assms obtain s pre s' where vp: "v_pre v = (if pre = [] then [] else split_on (CHR ''.'') pre)"
    and pre: "take_pre s = (pre, s')"
    by (rule parse_version_Some)
  have "split_on (CHR ''.'') pre \<noteq> []" by (induction pre) (auto split: list.split)
  then have "version_str v = nat_str (v_major v) @ ''.'' @ nat_str (v_minor v) @ ''.'' @ nat_str (v_patch v)
      @ (if pre = [] then [] else CHR ''-'' # pre)"
    using join_split [of "CHR ''.''" pre] by (simp add: vp version_str_def)
  moreover have "take_pre (if pre = [] then [] else CHR ''-'' # pre) = (pre, [])"
    using take_pre_shape [OF pre] by (auto simp: take_pre_def list_all_iff)
  moreover have "\<forall>c \<in> set pre. \<not> is_space c"
    using take_pre_shape [OF pre] no_space_chars(3) by (auto simp: list_all_iff)
  ultimately show ?thesis using that vp by blast
qed

lemma version_str_plain:
  assumes "parse_version tag = Some v"
  shows "\<forall>c \<in> set (version_str v). \<not> is_space c" and "drop_v (dropWhile is_space (version_str v)) = version_str v"
proof -
  from assms obtain pre where str: "version_str v = nat_str (v_major v) @ ''.'' @ nat_str (v_minor v) @ ''.''
      @ nat_str (v_patch v) @ (if pre = [] then [] else CHR ''-'' # pre)" and pre: "\<forall>c \<in> set pre. \<not> is_space c"
    by (rule version_str_shape)
  have "\<forall>c \<in> set (nat_str n). \<not> is_space c" for n
    using nat_str_digits [of n] no_space_chars(1) by (auto simp: list_all_iff)
  moreover have "\<not> is_space (CHR ''.'')" "\<not> is_space (CHR ''-'')" by (simp_all add: is_space_def)
  ultimately show sp: "\<forall>c \<in> set (version_str v). \<not> is_space c" using pre by (auto simp: str)
  obtain c cs where c: "version_str v = c # cs" "is_digit c"
    using nat_str_digits [of "v_major v"] by (cases "nat_str (v_major v)") (auto simp: str)
  then have "c \<noteq> CHR ''v''" by (auto simp: is_digit_def)
  then show "drop_v (dropWhile is_space (version_str v)) = version_str v" using c sp by (simp add: drop_v_def)
qed

lemma parse_printed:
  assumes "parse_version tag = Some v" and t: "drop_v (dropWhile is_space t) = version_str v"
  shows "parse_version t = Some (v\<lparr>v_raw := py_strip t\<rparr>)"
proof -
  obtain pre where str: "version_str v = nat_str (v_major v) @ ''.'' @ nat_str (v_minor v) @ ''.''
      @ nat_str (v_patch v) @ (if pre = [] then [] else CHR ''-'' # pre)"
    and vp: "v_pre v = (if pre = [] then [] else split_on (CHR ''.'') pre)"
    and p: "take_pre (if pre = [] then [] else CHR ''-'' # pre) = (pre, [])"
    by (rule version_str_shape [OF assms(1)])
  define rest where "rest = (if pre = [] then [] else CHR ''-'' # pre)"
  note p = p [folded rest_def] and str = str [folded rest_def]
  have n: "take_number (nat_str (v_patch v) @ rest) = Some (v_patch v, rest)"
    by (rule take_number_str) (simp add: rest_def is_digit_def)
  have d: "take_dotted (version_str v) = Some (v_major v, nat_str (v_minor v) @ ''.'' @ nat_str (v_patch v) @ rest)"
    "take_dotted (nat_str (v_minor v) @ ''.'' @ nat_str (v_patch v) @ rest) = Some (v_minor v, nat_str (v_patch v) @ rest)"
    unfolding str by (rule take_dotted_str)+
  show ?thesis
    by (simp only: parse_version_def t d n p option.case prod.case Let_def) (simp add: drop_build_def vp [symmetric])
qed

lemma version_str_inj:
  assumes "parse_version s = Some v" and "parse_version t = Some w" and "version_str v = version_str w"
  shows "version_key v = version_key w \<and> v_pre v = v_pre w"
proof -
  have "v\<lparr>v_raw := py_strip (version_str v)\<rparr> = w\<lparr>v_raw := py_strip (version_str v)\<rparr>"
    using parse_printed [OF assms(1) version_str_plain(2) [OF assms(1)]]
      parse_printed [OF assms(2) version_str_plain(2) [OF assms(2)]] assms(3) by simp
  then show ?thesis by (cases v; cases w) (simp add: version_key_def)
qed

text \<open>Parsing and printing agree: what a tag parses to prints as a version that parses to the same
  version, with or without a leading v, so the version a release is staged, installed and reported under
  is the one its tag said (build metadata aside).\<close>

theorem version_round_trip:
  assumes "parse_version tag = Some v"
  shows "parse_version (version_str v) = Some (v\<lparr>v_raw := version_str v\<rparr>) \<and>
    parse_version (''v'' @ version_str v) = Some (v\<lparr>v_raw := ''v'' @ version_str v\<rparr>)"
proof -
  note sp = version_str_plain [OF assms]
  have "\<forall>c \<in> set (''v'' @ version_str v). \<not> is_space c" using sp(1) by (simp add: is_space_def [of "CHR ''v''"])
  then have "py_strip (''v'' @ version_str v) = ''v'' @ version_str v" by (rule strip_no_space)
  moreover have "drop_v (dropWhile is_space (''v'' @ version_str v)) = version_str v"
    by (simp add: drop_v_def is_space_def)
  ultimately show ?thesis
    using parse_printed [OF assms sp(2)] parse_printed [OF assms, of "''v'' @ version_str v"]
      strip_no_space [OF sp(1)] by simp
qed

theorem version_round_trip_witness:
  "\<exists>v. parse_version '' v1.20.3-rc.10+linux '' = Some v \<and> version_str v = ''1.20.3-rc.10'' \<and>
     parse_version ''1.20.3-rc.10'' = Some (v\<lparr>v_raw := ''1.20.3-rc.10''\<rparr>)"
proof -
  have p: "parse_version '' v1.20.3-rc.10+linux '' = Some \<lparr>v_major = 1, v_minor = 20, v_patch = 3,
      v_pre = [''rc'', ''10''], v_raw = ''v1.20.3-rc.10+linux''\<rparr>" (is "_ = Some ?v")
    by code_simp
  moreover have "version_str ?v = ''1.20.3-rc.10''" by code_simp
  ultimately show ?thesis using version_round_trip [OF p] by simp
qed

section \<open>The newest release\<close>

lemma first_max_in: "first_max b vs \<in> insert b (set vs)"
  by (induction vs arbitrary: b) (auto split: if_splits)

lemma first_max_ge: "x \<in> insert b (set vs) \<Longrightarrow> version_key x \<le> version_key (first_max b vs)"
proof (induction vs arbitrary: b x)
  case (Cons v vs)
  let ?m = "if version_key b < version_key v then v else b"
  have m: "version_key ?m \<le> version_key (first_max ?m vs)" by (rule Cons.IH [of ?m]) simp
  have "version_key x \<le> version_key (first_max ?m vs)"
  proof (cases "x \<in> set vs")
    case False
    with Cons.prems have "version_key x \<le> version_key ?m" by auto
    then show ?thesis using m by (rule order_trans)
  qed (use Cons.IH [of x ?m] in simp)
  then show ?case by simp
qed simp

definition in_channel :: "string \<Rightarrow> version \<Rightarrow> bool" where
  "in_channel channel v = (channel = ''prerelease'' \<or> v_pre v = [])"

lemma select_latest_Some:
  assumes "select_latest tags channel cur = Some v"
  shows "\<exists>t \<in> set tags. parse_version t = Some v" and "in_channel channel v"
    and "t \<in> set tags \<Longrightarrow> parse_version t = Some w \<Longrightarrow> in_channel channel w \<Longrightarrow> version_key w \<le> version_key v"
    and "cur = Some c \<Longrightarrow> parse_version c = Some cv \<Longrightarrow> version_key cv < version_key v"
proof -
  let ?vs = "filter (in_channel channel) (List.map_filter parse_version tags)"
  have vs: "x \<in> set ?vs \<longleftrightarrow> (\<exists>t \<in> set tags. parse_version t = Some x) \<and> in_channel channel x" for x
    by (force simp: map_filter_def)
  have f: "filter (\<lambda>v. channel = ''prerelease'' \<or> v_pre v = []) (List.map_filter parse_version tags) = ?vs"
    by (simp add: in_channel_def [abs_def])
  from assms obtain b bs where b: "?vs = b # bs"
    by (cases ?vs) (auto simp: select_latest_def f)
  then have v: "v = first_max b bs" using assms by (auto simp: select_latest_def f Let_def split: option.splits if_splits)
  have "v \<in> set ?vs" using first_max_in [of b bs] by (simp add: v b)
  then show "\<exists>t \<in> set tags. parse_version t = Some v" "in_channel channel v" using vs by auto
  show "version_key w \<le> version_key v" if "t \<in> set tags" "parse_version t = Some w" "in_channel channel w"
    unfolding v by (rule first_max_ge) (use that vs [of w] b in auto)
  show "version_key cv < version_key v" if "cur = Some c" "parse_version c = Some cv"
    using assms that by (auto simp: select_latest_def f b Let_def v split: if_splits)
qed

definition on_offer :: "gh_release option list \<Rightarrow> string \<Rightarrow> gh_release \<Rightarrow> version \<Rightarrow> bool" where
  "on_offer releases channel r v = (Some r \<in> set releases \<and> \<not> gh_draft r \<and> parse_version (gh_tag r) = Some v \<and>
     (channel = ''prerelease'' \<or> \<not> gh_prerelease r) \<and> in_channel channel v)"

lemma on_offer_eligible:
  "on_offer releases channel r v \<longleftrightarrow> r \<in> set (eligible_releases channel releases) \<and>
     parse_version (gh_tag r) = Some v \<and> in_channel channel v"
  by (force simp: on_offer_def eligible_releases_def map_filter_def)

text \<open>An update is a step forward: the release picked is on offer in the channel (not a draft, no
  pre-release on the stable channel), carries an artifact, is staged under the version its tag says, is
  strictly newer than the version that runs, and no release on offer is newer still.\<close>

lemma picked_is_the_newest:
  assumes "pick_release releases channel current = Some ri"
  shows "\<exists>r v. on_offer releases channel r v \<and> ri_tag ri = gh_tag r \<and> ri_version ri = version_str v \<and>
    ri_artifact_url ri \<noteq> [] \<and>
    (\<forall>r' v'. on_offer releases channel r' v' \<longrightarrow> version_key v' \<le> version_key v) \<and>
    (\<forall>c cv. current = Some c \<and> parse_version c = Some cv \<longrightarrow> version_key cv < version_key v)"
proof -
  let ?rels = "eligible_releases channel releases"
  let ?named = "\<lambda>w r. case parse_version (gh_tag r) of None \<Rightarrow> False | Some v \<Rightarrow> version_str v = version_str w"
  obtain w where w: "select_latest (map gh_tag ?rels) channel current = Some w"
    using assms by (auto simp: pick_release_def Let_def split: option.splits)
  obtain r where r: "find (?named w) ?rels = Some r"
    using assms w by (auto simp: pick_release_def Let_def split: option.splits)
  then have rin: "r \<in> set ?rels" "?named w r" by (auto simp: find_Some_iff)
  then obtain v where v: "parse_version (gh_tag r) = Some v" "version_str v = version_str w"
    by (auto split: option.splits)
  note sel = select_latest_Some [OF w]
  from sel(1) obtain t where t: "parse_version t = Some w" by blast
  note eq = version_str_inj [OF v(1) t v(2)]
  have "on_offer releases channel r v"
    using rin(1) v(1) sel(2) eq by (simp add: on_offer_eligible in_channel_def)
  moreover have "ri_tag ri = gh_tag r \<and> ri_version ri = version_str v \<and> ri_artifact_url ri \<noteq> []"
    using assms by (auto simp: pick_release_def Let_def w r v(2) split: option.splits if_splits)
  moreover have "version_key v' \<le> version_key v" if "on_offer releases channel r' v'" for r' v'
    using that sel(3) [of "gh_tag r'" v'] eq by (simp add: on_offer_eligible)
  moreover have "version_key cv < version_key v" if "current = Some c \<and> parse_version c = Some cv" for c cv
    using that sel(4) [of c cv] eq by simp
  ultimately show ?thesis by blast
qed

end
