(* ===== verification/Supervisor.thy ===== *)
theory Supervisor
  imports Machines Update_Version
begin

text \<open>
  The supervisor that launches the server, applies staged updates and rolls back the ones that do not
  come up (\<open>supervisor/supervisor.py\<close>), and the files it shares with the server
  (\<open>supervisor/protocol.py\<close>).

  \<open>install\<close> is the install root: each state file with what reading it gives (\<open>None\<close> where it is missing,
  empty or, for a JSON file, not an object with something in it). \<open>sup\<close> holds the variables of \<open>run_forever\<close>
  and \<open>iteration\<close> is one turn of its loop. What is not the supervisor's is the turn's \<open>world\<close>: whether the
  process starts, becomes healthy, how it exits, what the server wrote meanwhile, and which file operations
  raise \<open>OSError\<close> (each operation of a turn is a \<open>site\<close>). An \<open>OSError\<close> ends the turn where it happens, with
  what was done before it done.

  A \<open>last-good\<close> or \<open>current\<close> file holds the stripped version; a version is compared as the string it is.
\<close>

section \<open>The files\<close>

definition EXIT_STOP :: int where "EXIT_STOP = 0"
definition EXIT_APPLY_UPDATE :: int where "EXIT_APPLY_UPDATE = 92"

text \<open>The expression ends in \<open>$\<close>, which also matches before a last line feed.\<close>

definition safe_char :: "char \<Rightarrow> bool" where
  "safe_char c = (is_alnum c \<or> c \<in> set ''.+_-'')"

fun has_dotdot :: "string \<Rightarrow> bool" where
  "has_dotdot (a # b # s) = (a = CHR ''.'' \<and> b = CHR ''.'' \<or> has_dotdot (b # s))"
| "has_dotdot s = False"

definition matches_safe :: "string \<Rightarrow> bool" where
  "matches_safe s = (s \<noteq> [] \<and> is_alnum (hd s) \<and> list_all safe_char s)"

definition is_safe_version :: "string option \<Rightarrow> bool" where
  "is_safe_version v = (case v of None \<Rightarrow> False
     | Some s \<Rightarrow> (matches_safe s \<or> s \<noteq> [] \<and> last s = CHR 0x0A \<and> matches_safe (butlast s)) \<and> \<not> has_dotdot s)"

text \<open>A pending update: its version (\<open>None\<close>: missing or not a string) and its probe window.\<close>

record pending =
  pd_version :: "string option"
  pd_timeout :: "rat option"

record outcome =
  oc_ok :: bool
  oc_version :: "string option"
  oc_from :: "string option"
  oc_reason :: string

record install =
  current_file :: "string option"
  last_good_file :: "string option"
  pending_file :: "pending option"
  failed_marks :: "string set"
  staged :: "string set"
  result_file :: "outcome option"
  freeze_file :: "string option"

definition pointer :: "string \<Rightarrow> string option" where
  "pointer text = (if py_strip text = [] then None else Some (py_strip text))"

lemma pointer_idem: "pointer x = Some y \<Longrightarrow> pointer y = Some y"
  by (auto simp: pointer_def split: if_splits)

section \<open>The supervisor's state and its world\<close>

record sup =
  root :: install
  target :: string
  last_good :: string
  probing :: bool
  prev_version :: "string option"
  probe_timeout :: "rat option"
  backoff :: rat
  running :: nat

datatype site = Start_Current | Start_Last_Good | Commit_Last_Good | Commit_Result | Clear_Freeze
  | Rollback_Failed | Rollback_Result | Rollback_Current | Clear_Pending | Apply_Current | Reject_Result

text \<open>What the server has written by the time the supervisor looks.\<close>

record served =
  sv_pending :: "pending option"
  sv_staged :: "string set"
  sv_result :: "outcome option"
  sv_freeze :: "string option"

record world =
  starts :: bool
  by_probe :: served
  healthy :: bool
  by_exit :: served
  exit_code :: int
  ran_stable :: bool
  restores :: bool
  broken :: "site \<Rightarrow> bool"

definition serve :: "served \<Rightarrow> sup \<Rightarrow> sup" where
  "serve w s = s\<lparr>root := (root s)\<lparr>pending_file := sv_pending w, staged := sv_staged w,
     result_file := sv_result w, freeze_file := sv_freeze w\<rparr>\<rparr>"

text \<open>What a turn does that others see.\<close>

datatype sup_act = Launch string | Terminate | Restore_Venv string | Sleep rat

section \<open>Waiting for health\<close>

text \<open>The probe loop: at poll \<open>i\<close> the clock, whether the child has exited and whether it answers as the
  probed version. The bound is on the number of polls.\<close>

fun await_health :: "nat \<Rightarrow> (nat \<Rightarrow> rat) \<Rightarrow> (nat \<Rightarrow> bool) \<Rightarrow> (nat \<Rightarrow> bool) \<Rightarrow> rat \<Rightarrow> nat \<Rightarrow> bool option" where
  "await_health 0 now exited answers deadline i = None"
| "await_health (Suc k) now exited answers deadline i =
     (if \<not> now i < deadline then Some False
      else if exited i then Some False
      else if answers i then Some True
      else await_health k now exited answers deadline (Suc i))"

section \<open>One turn\<close>

definition max_backoff_s :: rat where "max_backoff_s = 30"

definition clear_freeze :: "world \<Rightarrow> sup \<Rightarrow> sup" where
  "clear_freeze w s = (if broken w Clear_Freeze then s else s\<lparr>root := (root s)\<lparr>freeze_file := None\<rparr>\<rparr>)"

definition write_result :: "bool \<Rightarrow> string option \<Rightarrow> string option \<Rightarrow> string \<Rightarrow> sup \<Rightarrow> sup" where
  "write_result ok v from why s = s\<lparr>root := (root s)\<lparr>result_file :=
     Some \<lparr>oc_ok = ok, oc_version = v, oc_from = from, oc_reason = why\<rparr>\<rparr>\<rparr>"

text \<open>The healthy branch of a probe: commit the version as last-good. The left value is a turn that ended
  in \<open>OSError\<close>.\<close>

definition commit :: "world \<Rightarrow> sup \<Rightarrow> sup + sup" where
  "commit w s =
     (if broken w Commit_Last_Good then Inl s
      else let s = s\<lparr>root := (root s)\<lparr>last_good_file := pointer (target s)\<rparr>, last_good := target s\<rparr> in
      if broken w Commit_Result then Inl s
      else let s = clear_freeze w (write_result True (Some (target s)) (prev_version s) [] s) in
        Inr (s\<lparr>probing := False, probe_timeout := None, backoff := 1\<rparr>))"

definition restore_venv :: "world \<Rightarrow> sup \<Rightarrow> sup \<times> sup_act list" where
  "restore_venv w s = (case freeze_file (root s) of None \<Rightarrow> (s, [])
     | Some text \<Rightarrow> (clear_freeze w s, if restores w then [Restore_Venv text] else []))"

text \<open>The unhealthy branch: the child is gone, the version marked, the last-good one put back.\<close>

definition rollback :: "world \<Rightarrow> sup \<Rightarrow> (sup + sup) \<times> sup_act list" where
  "rollback w s =
     (let s = s\<lparr>running := running s - 1\<rparr> in
      if broken w Rollback_Failed then (Inl s, [Terminate])
      else let s = s\<lparr>root := (root s)\<lparr>failed_marks := insert (target s) (failed_marks (root s))\<rparr>\<rparr> in
      if broken w Rollback_Result then (Inl s, [Terminate])
      else let s = write_result False (Some (target s)) (prev_version s) ''health check failed; rolled back'' s;
               (s, acts) = restore_venv w s in
      if broken w Rollback_Current then (Inl s, Terminate # acts)
      else (Inr (s\<lparr>root := (root s)\<lparr>current_file := pointer (last_good s)\<rparr>, target := last_good s,
                   probing := False, probe_timeout := None\<rparr>), Terminate # acts))"

text \<open>The server asked for an update: the pending file is read and removed, and the version it names becomes
  the target of a probe, or the refusal is reported.\<close>

definition acceptable :: "string option \<Rightarrow> install \<Rightarrow> bool" where
  "acceptable nv r = (is_safe_version nv \<and> (case nv of None \<Rightarrow> False
     | Some v \<Rightarrow> v \<notin> failed_marks r \<and> v \<in> staged r))"

definition refusal_reason :: "string option \<Rightarrow> install \<Rightarrow> string" where
  "refusal_reason nv r = (if \<not> is_safe_version nv then ''invalid version string in pending update''
     else if (case nv of None \<Rightarrow> False | Some v \<Rightarrow> v \<in> failed_marks r)
     then ''version previously failed a health check''
     else ''release not staged'')"

definition apply_update :: "world \<Rightarrow> sup \<Rightarrow> sup + sup" where
  "apply_update w s =
     (let pend = pending_file (root s);
          s = (if broken w Clear_Pending then s else s\<lparr>root := (root s)\<lparr>pending_file := None\<rparr>\<rparr>) in
      case pend of None \<Rightarrow> Inr s
      | Some p \<Rightarrow>
        if acceptable (pd_version p) (root s) then
          (let nv = (case pd_version p of Some v \<Rightarrow> v | None \<Rightarrow> []);
               s = s\<lparr>prev_version := Some (target s)\<rparr> in
           if broken w Apply_Current then Inl s
           else Inr (s\<lparr>root := (root s)\<lparr>current_file := pointer nv\<rparr>, target := nv, probing := True,
                       probe_timeout := pd_timeout p\<rparr>))
        else if broken w Reject_Result then Inl s
        else Inr (clear_freeze w (write_result False (pd_version p) (Some (target s))
                    (refusal_reason (pd_version p) (root s)) s)))"

text \<open>After \<open>proc.wait()\<close>: \<open>Inl\<close> of \<open>Inl\<close> is the stop, \<open>Inl\<close> of \<open>Inr\<close> an \<open>OSError\<close>.\<close>

datatype turn = Stopped sup | Raised sup | Goes_On sup

definition nap :: "sup \<Rightarrow> sup \<times> sup_act list" where
  "nap s = (s\<lparr>backoff := min max_backoff_s (backoff s * 2)\<rparr>, [Sleep (backoff s)])"

definition crashed :: "world \<Rightarrow> sup \<Rightarrow> sup \<times> sup_act list" where
  "crashed w s = nap (if ran_stable w then s\<lparr>backoff := 1\<rparr> else s)"

definition after_exit :: "world \<Rightarrow> sup \<Rightarrow> turn \<times> sup_act list" where
  "after_exit w s =
     (let s = serve (by_exit w) (s\<lparr>running := running s - 1\<rparr>) in
      if exit_code w = EXIT_STOP then (Stopped s, [])
      else if exit_code w = EXIT_APPLY_UPDATE then
        (case apply_update w s of Inl s \<Rightarrow> (Raised s, []) | Inr s \<Rightarrow> (Goes_On s, []))
      else (let (s, acts) = crashed w s in (Goes_On s, acts)))"

definition turn_body :: "world \<Rightarrow> sup \<Rightarrow> turn \<times> sup_act list" where
  "turn_body w s =
     (if \<not> starts w then (Raised s, [])
      else let s = s\<lparr>running := running s + 1\<rparr> in
      if probing s then
        (let s = serve (by_probe w) s in
         if healthy w then
           (case commit w s of Inl s \<Rightarrow> (Raised s, []) | Inr s \<Rightarrow> after_exit w s)
         else (case rollback w s of (Inl s, acts) \<Rightarrow> (Raised s, acts) | (Inr s, acts) \<Rightarrow> (Goes_On s, acts)))
      else after_exit w s)"

text \<open>A turn with its handler. The loop has ended when it returns \<open>Stopped\<close>.\<close>

definition iteration :: "world \<Rightarrow> sup \<Rightarrow> turn \<times> sup_act list" where
  "iteration w s =
     (case turn_body w s of (t, acts) \<Rightarrow>
        let acts = (if starts w then [Launch (target s)] else []) @ acts in
        (case t of Raised s' \<Rightarrow> (let (s', naps) = nap s' in (Goes_On s', acts @ naps)) | _ \<Rightarrow> (t, acts)))"

text \<open>The boot: the current version, or the initial one, is trusted as it is.\<close>

definition sup_start :: "(site \<Rightarrow> bool) \<Rightarrow> string option \<Rightarrow> install \<Rightarrow> (exn + sup) option" where
  "sup_start br initial r =
     (let boot = (\<lambda>r t. if last_good_file r = None \<and> br Start_Last_Good then Some (Inl OSError)
        else let r = (if last_good_file r = None then r\<lparr>last_good_file := pointer t\<rparr> else r) in
          Some (Inr \<lparr>root = r, target = t,
            last_good = (case last_good_file r of None \<Rightarrow> t | Some g \<Rightarrow> g), probing = False,
            prev_version = None, probe_timeout = None, backoff = 1, running = 0\<rparr>)) in
      case current_file r of
        Some c \<Rightarrow> boot r c
      | None \<Rightarrow> (case initial of
          None \<Rightarrow> None
        | Some v \<Rightarrow> if v = [] then None
            else if br Start_Current then Some (Inl OSError)
            else boot (r\<lparr>current_file := pointer v\<rparr>) v))"


section \<open>Runs\<close>

fun sup_next :: "turn \<Rightarrow> world \<Rightarrow> turn" where
  "sup_next (Goes_On s) w = fst (iteration w s)"
| "sup_next t w = t"

fun sup_of :: "turn \<Rightarrow> sup" where
  "sup_of (Goes_On s) = s"
| "sup_of (Stopped s) = s"
| "sup_of (Raised s) = s"

text \<open>A fact of both ends of a sum.\<close>

definition both :: "('a \<Rightarrow> bool) \<Rightarrow> 'a + 'a \<Rightarrow> bool" where
  "both P r = (case r of Inl s \<Rightarrow> P s | Inr s \<Rightarrow> P s)"

lemma both_simps [simp]: "both P (Inl s) = P s" "both P (Inr s) = P s"
  by (simp_all add: both_def)

named_theorems sup_ops

lemmas [sup_ops] = commit_def rollback_def restore_venv_def clear_freeze_def write_result_def
  apply_update_def nap_def crashed_def serve_def Let_def split_beta

text \<open>A predicate on the supervisor's state that each of the operations keeps is kept by the turn. Each
  operation is looked at where the turn calls it.\<close>

definition op_keeps :: "(sup \<Rightarrow> bool) \<Rightarrow> world \<Rightarrow> sup \<Rightarrow> bool" where
  "op_keeps P w s \<longleftrightarrow>
     (\<forall>n. P (s\<lparr>running := n\<rparr>)) \<and> (\<forall>v. P (serve v s)) \<and> P (fst (nap s)) \<and> P (s\<lparr>backoff := 1\<rparr>)
     \<and> both P (apply_update w s)"

lemma crashed_keeps:
  assumes "\<And>s. P s \<Longrightarrow> op_keeps P w s" and "P s"
  shows "P (fst (crashed w s))"
  using assms unfolding op_keeps_def crashed_def by (cases "ran_stable w") auto

lemma after_exit_keeps:
  assumes "\<And>s. P s \<Longrightarrow> op_keeps P w s" and "P s"
  shows "P (sup_of (fst (after_exit w s)))"
proof -
  let ?s = "serve (by_exit w) (s\<lparr>running := running s - 1\<rparr>)"
  have s: "P ?s" using assms unfolding op_keeps_def by blast
  have a: "both P (apply_update w ?s)" using assms(1) [OF s] unfolding op_keeps_def by blast
  have c: "P (fst (crashed w ?s))" by (rule crashed_keeps [OF assms(1) s])
  show ?thesis
    using s a c unfolding after_exit_def Let_def
    by (cases "apply_update w ?s") (simp_all add: split_beta)
qed

lemma iteration_keeps:
  assumes ops: "\<And>s. P s \<Longrightarrow> op_keeps P w s" and s: "P s"
    and commits: "\<And>s'. P s' \<Longrightarrow> probing s' \<Longrightarrow> target s' = target s \<Longrightarrow>
      probing s \<and> starts w \<Longrightarrow> healthy w \<Longrightarrow> both P (commit w s')"
    and rolls: "\<And>s'. P s' \<Longrightarrow> probing s' \<Longrightarrow> target s' = target s \<Longrightarrow>
      probing s \<and> starts w \<Longrightarrow> \<not> healthy w \<Longrightarrow> both P (fst (rollback w s'))"
  shows "P (sup_of (fst (iteration w s)))"
proof -
  let ?u = "s\<lparr>running := running s + 1\<rparr>"
  let ?v = "serve (by_probe w) ?u"
  have u: "P ?u" using ops [OF s] unfolding op_keeps_def by blast
  have v: "P ?v" using ops [OF u] unfolding op_keeps_def by blast
  have t: "target ?v = target s" "probing ?v = probing s" by (simp_all add: serve_def)
  have body: "P (sup_of (fst (turn_body w s)))"
  proof (cases "starts w \<and> probing s")
    case True
    show ?thesis
    proof (cases "healthy w")
      case h: True
      have c: "both P (commit w ?v)" using commits [OF v] t True h by simp
      show ?thesis
        using c True h after_exit_keeps [OF ops, of "case commit w ?v of Inl s \<Rightarrow> s | Inr s \<Rightarrow> s"]
        by (cases "commit w ?v") (simp_all add: turn_body_def Let_def)
    next
      case h: False
      have c: "both P (fst (rollback w ?v))" using rolls [OF v] t True h by simp
      obtain r acts where r: "rollback w ?v = (r, acts)" by (cases "rollback w ?v")
      show ?thesis using c True h r by (cases r) (simp_all add: turn_body_def Let_def)
    qed
  next
    case False
    then show ?thesis
      using s after_exit_keeps [OF ops u] by (auto simp: turn_body_def Let_def)
  qed
  show ?thesis
  proof (cases "fst (turn_body w s)")
    case (Raised s')
    then have "P s'" using body by simp
    then have "P (fst (nap s'))" using ops unfolding op_keeps_def by blast
    then show ?thesis using Raised by (simp add: iteration_def split_beta Let_def)
  qed (use body in \<open>simp_all add: iteration_def split_beta Let_def\<close>)
qed

section \<open>The supervisor's invariant\<close>

text \<open>The two pointer files agree with the supervisor's variables at every moment between turns, so that a
  supervisor that starts again finds the same versions. Outside a probe it runs the version it last
  found good or the one it booted with, and what it probes is a name it may use as a path.\<close>

definition sup_ok :: "string \<Rightarrow> sup \<Rightarrow> bool" where
  "sup_ok t0 s \<longleftrightarrow> 1 \<le> backoff s \<and> backoff s \<le> max_backoff_s
     \<and> current_file (root s) = pointer (target s) \<and> last_good_file (root s) = pointer (last_good s)
     \<and> (if probing s then is_safe_version (Some (target s)) else target s = last_good s \<or> target s = t0)"

lemma acceptableD: "acceptable nv r \<Longrightarrow> \<exists>v. nv = Some v \<and> is_safe_version (Some v) \<and> v \<notin> failed_marks r \<and> v \<in> staged r"
  by (cases nv) (auto simp: acceptable_def)

lemma sup_ok_ops:
  assumes "sup_ok t0 s"
  shows "op_keeps (sup_ok t0) w s"
proof -
  have "both (sup_ok t0) (apply_update w s)"
    using assms
    by (auto simp: sup_ok_def apply_update_def clear_freeze_def write_result_def Let_def max_backoff_s_def
        split: option.splits dest!: acceptableD)
  then show ?thesis
    using assms by (auto simp: op_keeps_def sup_ok_def serve_def nap_def max_backoff_s_def)
qed

lemma sup_ok_commit: "sup_ok t0 s \<Longrightarrow> probing s \<Longrightarrow> both (sup_ok t0) (commit w s)"
  by (auto simp: sup_ok_def commit_def clear_freeze_def write_result_def Let_def max_backoff_s_def)

lemma restore_venv_keeps [simp]:
  "backoff (fst (restore_venv w s)) = backoff s" "target (fst (restore_venv w s)) = target s"
  "last_good (fst (restore_venv w s)) = last_good s" "probing (fst (restore_venv w s)) = probing s"
  "running (fst (restore_venv w s)) = running s" "prev_version (fst (restore_venv w s)) = prev_version s"
  "failed_marks (root (fst (restore_venv w s))) = failed_marks (root s)"
  "current_file (root (fst (restore_venv w s))) = current_file (root s)"
  "last_good_file (root (fst (restore_venv w s))) = last_good_file (root s)"
  "result_file (root (fst (restore_venv w s))) = result_file (root s)"
  by (auto simp: restore_venv_def clear_freeze_def split: option.split)

lemma sup_ok_rollback: "sup_ok t0 s \<Longrightarrow> probing s \<Longrightarrow> both (sup_ok t0) (fst (rollback w s))"
  by (auto simp: sup_ok_def rollback_def write_result_def Let_def split_beta max_backoff_s_def)

lemma sup_ok_iteration: "sup_ok t0 s \<Longrightarrow> sup_ok t0 (sup_of (fst (iteration w s)))"
  by (rule iteration_keeps) (auto intro: sup_ok_ops sup_ok_commit sup_ok_rollback)

lemma sup_ok_next: "sup_ok t0 (sup_of t) \<Longrightarrow> sup_ok t0 (sup_of (sup_next t w))"
  by (cases t) (simp_all add: sup_ok_iteration)

interpretation supm: machine sup_next "\<lambda>t. sup_ok t0 (sup_of t)"
  for t0
  by unfold_locales (rule sup_ok_next)

text \<open>What a pointer file read at the boot holds is stripped.\<close>

definition read_back :: "install \<Rightarrow> bool" where
  "read_back r \<longleftrightarrow> (\<forall>c. current_file r = Some c \<longrightarrow> pointer c = Some c)
     \<and> (\<forall>g. last_good_file r = Some g \<longrightarrow> pointer g = Some g)"

lemma sup_ok_start:
  assumes "sup_start br initial r = Some (Inr s)" and "read_back r"
  shows "sup_ok (target s) s"
  using assms
  by (auto simp: sup_start_def sup_ok_def read_back_def Let_def max_backoff_s_def
      split: option.splits if_splits dest: pointer_idem)


text \<open>C30. Whatever the server writes and however it exits, and whichever file operations fail: the two
  pointer files agree with the supervisor's variables between any two turns, what it probes has a name
  that is safe as a path, what it runs outside a probe is the version it last found good or the one it
  booted with, and the pause before a relaunch is between one second and the cap.\<close>

theorem supervisor_invariant:
  assumes "sup_start br initial r = Some (Inr s)" and "read_back r"
  shows "sup_ok (target s) (sup_of (run sup_next (Goes_On s) ws))"
  by (rule supm.inv_run) (simp add: sup_ok_start [OF assms])

definition a_boot :: install where
  "a_boot = \<lparr>current_file = Some ''1.0.0'', last_good_file = None, pending_file = None, failed_marks = {},
     staged = {''1.0.0''}, result_file = None, freeze_file = None\<rparr>"

definition a_server :: "string \<Rightarrow> served" where
  "a_server v = \<lparr>sv_pending = Some \<lparr>pd_version = Some v, pd_timeout = None\<rparr>, sv_staged = {''1.0.0'', v},
     sv_result = None, sv_freeze = Some ''numpy==1''\<rparr>"

definition a_world :: "bool \<Rightarrow> int \<Rightarrow> world" where
  "a_world h c = \<lparr>starts = True, by_probe = a_server ''1.1.0'', healthy = h, by_exit = a_server ''1.1.0'',
     exit_code = c, ran_stable = False, restores = True, broken = (\<lambda>_. False)\<rparr>"

lemma supervisor_invariant_witness:
  "\<exists>s. sup_start (\<lambda>_. False) None a_boot = Some (Inr s) \<and>
       sup_ok ''1.0.0'' (sup_of (run sup_next (Goes_On s) [a_world True 92, a_world True 1]))"
proof -
  define s where "s = (case sup_start (\<lambda>_. False) None a_boot of Some (Inr s) \<Rightarrow> s)"
  have s: "sup_start (\<lambda>_. False) None a_boot = Some (Inr s)"
    by (simp add: s_def sup_start_def a_boot_def)
  have t: "target s = ''1.0.0''" by (simp add: s_def sup_start_def a_boot_def)
  have r: "read_back a_boot" by (simp add: read_back_def a_boot_def pointer_def py_strip_def is_space_def)
  show ?thesis
    using s supervisor_invariant [OF s r, of "[a_world True 92, a_world True 1]"] unfolding t by blast
qed

section \<open>What becomes last-good\<close>

lemma last_good_apply:
  "last_good (serve v s) = last_good s" "last_good (fst (nap s)) = last_good s"
  "both P (apply_update w s) = P (case apply_update w s of Inl s \<Rightarrow> s | Inr s \<Rightarrow> s)"
  "last_good (case apply_update w s of Inl s \<Rightarrow> s | Inr s \<Rightarrow> s) = last_good s"
  by (auto simp: both_def serve_def nap_def apply_update_def clear_freeze_def write_result_def Let_def
      split: option.split sum.split)

lemma last_good_step:
  "last_good (sup_of (fst (iteration w s))) = last_good s \<or>
   probing s \<and> starts w \<and> healthy w \<and> last_good (sup_of (fst (iteration w s))) = target s"
proof (cases "probing s \<and> starts w \<and> healthy w")
  case True
  let ?P = "\<lambda>s'. last_good s' = last_good s \<or> last_good s' = target s"
  have "?P (sup_of (fst (iteration w s)))"
  proof (rule iteration_keeps)
    show "op_keeps ?P w s'" if "?P s'" for s'
      using that by (auto simp: op_keeps_def last_good_apply)
  qed (auto simp: both_def commit_def rollback_def write_result_def clear_freeze_def Let_def split_beta)
  then show ?thesis using True by blast
next
  case False
  let ?P = "\<lambda>s'. last_good s' = last_good s"
  have "?P (sup_of (fst (iteration w s)))"
  proof (rule iteration_keeps)
    show "op_keeps ?P w s'" if "?P s'" for s'
      using that by (auto simp: op_keeps_def last_good_apply)
  qed (use False in \<open>auto simp: both_def rollback_def write_result_def clear_freeze_def Let_def split_beta\<close>)
  then show ?thesis by blast
qed

text \<open>A turn that finds the version it probes healthy.\<close>

fun probe_passes :: "turn \<Rightarrow> world \<Rightarrow> string \<Rightarrow> bool" where
  "probe_passes (Goes_On s) w v = (probing s \<and> target s = v \<and> starts w \<and> healthy w)"
| "probe_passes t w v = False"

text \<open>At any moment, whatever failed before, the version the supervisor falls back to is the one it had
  at the boot or one that answered a health probe in an earlier turn of this run.\<close>

theorem last_good_was_probed:
  "last_good (sup_of (run sup_next t ws)) = last_good (sup_of t) \<or>
   (\<exists>i < length ws. probe_passes (run sup_next t (take i ws)) (ws ! i) (last_good (sup_of (run sup_next t ws))))"
proof (induction ws arbitrary: t)
  case Nil
  then show ?case by simp
next
  case (Cons w ws)
  have step: "last_good (sup_of (sup_next t w)) = last_good (sup_of t) \<or>
      probe_passes t w (last_good (sup_of (sup_next t w)))"
  proof (cases t)
    case (Goes_On s)
    then show ?thesis using last_good_step [of w s] by auto
  qed simp_all
  show ?case
    using Cons.IH [of "sup_next t w"]
  proof
    assume "last_good (sup_of (run sup_next (sup_next t w) ws)) = last_good (sup_of (sup_next t w))"
    then show ?thesis using step by (auto intro!: exI [of _ 0])
  next
    assume "\<exists>i < length ws. probe_passes (run sup_next (sup_next t w) (take i ws)) (ws ! i)
      (last_good (sup_of (run sup_next (sup_next t w) ws)))"
    then obtain i where "i < length ws" "probe_passes (run sup_next (sup_next t w) (take i ws)) (ws ! i)
      (last_good (sup_of (run sup_next (sup_next t w) ws)))" by blast
    then show ?thesis by (intro disjI2 exI [of _ "Suc i"]) simp
  qed
qed

section \<open>A release that does not come up\<close>

text \<open>The turns in which \<open>v\<close> never answers its probe and the files of a rollback can be written.\<close>

fun stays_down :: "string \<Rightarrow> turn \<Rightarrow> world \<Rightarrow> bool" where
  "stays_down v (Goes_On s) w = ((target s = v \<longrightarrow> \<not> healthy w)
     \<and> \<not> broken w Rollback_Failed \<and> \<not> broken w Rollback_Result \<and> \<not> broken w Rollback_Current)"
| "stays_down v t w = True"

fun launches :: "string \<Rightarrow> turn \<Rightarrow> world \<Rightarrow> int" where
  "launches v (Goes_On s) w = (if starts w \<and> target s = v then 1 else 0)"
| "launches v t w = 0"

definition marked :: "string \<Rightarrow> sup \<Rightarrow> bool" where
  "marked v s = (v \<in> failed_marks (root s))"

text \<open>Outside its own probe \<open>v\<close> is not what runs, and once marked it is not even probed.\<close>

definition held_off :: "string \<Rightarrow> sup \<Rightarrow> bool" where
  "held_off v s \<longleftrightarrow> last_good s \<noteq> v \<and> (target s = v \<longrightarrow> probing s \<and> \<not> marked v s)"

lemma marked_ops: "marked v s \<Longrightarrow> op_keeps (marked v) w s"
  by (simp add: op_keeps_def serve_def nap_def both_def apply_update_def clear_freeze_def write_result_def
      marked_def Let_def split: option.split)

lemma marked_stays: "marked v s \<Longrightarrow> marked v (sup_of (fst (iteration w s)))"
proof (rule iteration_keeps)
  show "marked v s \<Longrightarrow> op_keeps (marked v) w s" for s by (rule marked_ops)
qed (auto simp: both_def commit_def rollback_def write_result_def clear_freeze_def marked_def Let_def split_beta)

lemma held_off_ops: "held_off v s \<Longrightarrow> op_keeps (held_off v) w s"
  by (auto simp: op_keeps_def serve_def nap_def both_def apply_update_def clear_freeze_def write_result_def
      marked_def held_off_def Let_def split: option.split dest: acceptableD)

lemma held_off_step:
  assumes h: "held_off v s" and l: "stays_down v (Goes_On s) w"
  shows "held_off v (sup_of (fst (iteration w s)))"
proof (rule iteration_keeps [OF held_off_ops h])
  show "both (held_off v) (commit w s')"
    if "held_off v s'" "target s' = target s" "healthy w" for s'
    using that l by (auto simp: both_def commit_def held_off_def clear_freeze_def write_result_def marked_def Let_def)
  show "both (held_off v) (fst (rollback w s'))" if "held_off v s'" for s'
    using that l by (auto simp: both_def rollback_def held_off_def write_result_def marked_def Let_def split_beta)
qed

lemma launch_marks:
  assumes "held_off v s" and "stays_down v (Goes_On s) w" and "starts w" "target s = v"
  shows "marked v (sup_of (fst (iteration w s)))"
  using assms
  by (auto simp: iteration_def turn_body_def rollback_def held_off_def write_result_def marked_def serve_def
      Let_def split_beta)

lemma held_off_next:
  assumes "held_off v (sup_of t)" and "stays_down v t w"
  shows "held_off v (sup_of (sup_next t w))"
  using assms held_off_step by (cases t) auto

lemma launches_booked:
  assumes "held_off v (sup_of t)" and "stays_down v t w"
  shows "of_bool (marked v (sup_of t)) + launches v t w \<le> (of_bool (marked v (sup_of (sup_next t w))) :: int)"
  using assms launch_marks [of v _ w] marked_stays [of v _ w]
  by (cases t) (auto simp: held_off_def)

interpretation downm: lawful_meter sup_next "\<lambda>t. held_off v (sup_of t)" "stays_down v" "launches v"
    "\<lambda>t. of_bool (marked v (sup_of t))" "1 :: int"
  for v
  by unfold_locales (simp_all add: held_off_next launches_booked)

text \<open>A release that never answers its health probe is launched at most once in all, however often
  the server asks for it and whatever else happens, as long as the files of a rollback can be
  written; and a release that is already marked is never launched.\<close>

theorem broken_release_runs_once:
  assumes "legal_run (stays_down v) sup_next (Goes_On s) ws"
    and "target s \<noteq> v" and "last_good s \<noteq> v"
  shows "spent sup_next (launches v) (Goes_On s) ws \<le> 1 - of_bool (marked v s)"
  using downm.spent_le_slack [of v "Goes_On s" ws] assms by (simp add: held_off_def)

definition a_sup :: sup where
  "a_sup = \<lparr>root = a_boot, target = ''1.0.0'', last_good = ''1.0.0'', probing = False,
     prev_version = None, probe_timeout = None, backoff = 1, running = 0\<rparr>"

lemma broken_release_runs_once_witness:
  "spent sup_next (launches ''1.1.0'') (Goes_On a_sup) [a_world False 92, a_world False 92, a_world False 92] = 1 \<and>
   spent sup_next (launches ''1.1.0'') (Goes_On a_sup) [a_world False 92, a_world False 92, a_world False 92]
     \<le> 1 - of_bool (marked ''1.1.0'' a_sup)"
proof
  show "spent sup_next (launches ''1.1.0'') (Goes_On a_sup) [a_world False 92, a_world False 92, a_world False 92] = 1"
    by code_simp
  show "spent sup_next (launches ''1.1.0'') (Goes_On a_sup) [a_world False 92, a_world False 92, a_world False 92]
     \<le> 1 - of_bool (marked ''1.1.0'' a_sup)"
    by (rule broken_release_runs_once) code_simp+
qed

section \<open>An update is kept or undone\<close>

text \<open>A request for an update that may be applied, and the turn after it, both with working files: if the
  release answers its probe it is committed as last-good and goes on; if not, it is marked, its process
  stopped, the dependencies restored where there is a snapshot, and the supervisor is back at the version
  it fell back to, which the current pointer names again. The result file says which of the two happened.\<close>

lemma update_is_kept_or_undone:
  assumes req: "exit_code w1 = EXIT_APPLY_UPDATE" "starts w1" "\<not> probing s"
    and pend: "sv_pending (by_exit w1) = Some p" "pd_version p = Some v" "is_safe_version (Some v)"
      "v \<in> sv_staged (by_exit w1)" "\<not> marked v s"
    and run: "starts w2" and files: "\<And>x. \<not> broken w1 x" "\<And>x. \<not> broken w2 x"
  shows "let s2 = run sup_next (Goes_On s) [w1, w2]; r = root (sup_of s2) in
    if healthy w2 then last_good (sup_of s2) = v \<and> last_good_file r = pointer v
    else s2 = Goes_On (sup_of s2) \<and> target (sup_of s2) = last_good s \<and> current_file r = pointer (last_good s)
      \<and> marked v (sup_of s2) \<and> last_good (sup_of s2) = last_good s \<and> \<not> probing (sup_of s2)
      \<and> result_file r = Some \<lparr>oc_ok = False, oc_version = Some v, oc_from = Some (target s),
          oc_reason = ''health check failed; rolled back''\<rparr>
      \<and> freeze_file r = None
      \<and> snd (iteration w2 (sup_of (sup_next (Goes_On s) w1))) =
          Launch v # Terminate # (case sv_freeze (by_probe w2) of None \<Rightarrow> []
            | Some text \<Rightarrow> if restores w2 then [Restore_Venv text] else [])"
proof -
  define s1 where "s1 = sup_of (sup_next (Goes_On s) w1)"
  have acc: "acceptable (Some v) (root (serve (by_exit w1) s)\<lparr>pending_file := None\<rparr>)"
    using pend by (simp add: acceptable_def serve_def marked_def)
  have it: "sup_next (Goes_On s) w1 = Goes_On s1" and
    s1: "target s1 = v" "probing s1" "last_good s1 = last_good s" "prev_version s1 = Some (target s)"
    using req pend(1,2) acc files(1)
    by (simp_all add: s1_def iteration_def turn_body_def after_exit_def apply_update_def serve_def
        EXIT_STOP_def EXIT_APPLY_UPDATE_def Let_def)
  show ?thesis
  proof (cases "healthy w2")
    case True
    have "last_good (sup_of (fst (iteration w2 s1))) = v \<and>
        last_good_file (root (sup_of (fst (iteration w2 s1)))) = pointer v"
      using True run files(2) s1
      by (auto simp: iteration_def turn_body_def commit_def clear_freeze_def write_result_def serve_def Let_def split_beta after_exit_def crashed_def nap_def apply_update_def split: turn.splits sum.splits option.splits if_splits)
    then show ?thesis using True it by simp
  next
    case False
    have "iteration w2 s1 = (Goes_On (sup_of (fst (iteration w2 s1))), snd (iteration w2 s1))"
      using False run files(2) s1
      by (simp add: iteration_def turn_body_def rollback_def serve_def Let_def split_beta)
    then show ?thesis
      using False run files(2) s1 it
      apply (simp add: iteration_def turn_body_def rollback_def serve_def write_result_def marked_def Let_def split_beta)
      apply (cases "sv_freeze (by_probe w2)"; simp add: restore_venv_def clear_freeze_def)
      done
  qed
qed

section \<open>How many servers run\<close>

text \<open>A healthy probe whose commit could not be written: the process is not waited for.\<close>

fun commit_lost :: "turn \<Rightarrow> world \<Rightarrow> int" where
  "commit_lost (Goes_On s) w = (if starts w \<and> probing s \<and> healthy w
     \<and> (broken w Commit_Last_Good \<or> broken w Commit_Result) then 1 else 0)"
| "commit_lost t w = 0"

lemma running_ops [simp]:
  "running (serve v s) = running s" "running (fst (nap s)) = running s"
  "apply_update w s = Inl s' \<Longrightarrow> running s' = running s" "apply_update w s = Inr s' \<Longrightarrow> running s' = running s"
  by (auto simp: serve_def nap_def apply_update_def clear_freeze_def write_result_def Let_def
      split: option.splits if_splits)

lemma running_after_exit: "running (sup_of (fst (after_exit w s))) = running s - 1"
proof (cases "apply_update w (serve (by_exit w) (s\<lparr>running := running s - 1\<rparr>))")
  case (Inl s')
  then show ?thesis using running_ops(3) [OF Inl] by (simp add: after_exit_def crashed_def Let_def split_beta)
next
  case (Inr s')
  then show ?thesis using running_ops(4) [OF Inr] by (simp add: after_exit_def crashed_def Let_def split_beta)
qed

lemma running_commit:
  "commit w s = Inl s' \<Longrightarrow> running s' = running s \<and> (broken w Commit_Last_Good \<or> broken w Commit_Result)"
  "commit w s = Inr s' \<Longrightarrow> running s' = running s \<and> \<not> broken w Commit_Last_Good \<and> \<not> broken w Commit_Result"
  by (auto simp: commit_def clear_freeze_def write_result_def Let_def split: if_splits)

lemma running_rollback: "running (case fst (rollback w s) of Inl s \<Rightarrow> s | Inr s \<Rightarrow> s) = running s - 1"
  by (simp add: rollback_def write_result_def Let_def split_beta)

lemma running_turn_body:
  "int (running (sup_of (fst (turn_body w s)))) = int (running s) + commit_lost (Goes_On s) w"
proof -
  let ?v = "serve (by_probe w) (s\<lparr>running := running s + 1\<rparr>)"
  show ?thesis
  proof (cases "commit w ?v")
    case (Inl s')
    obtain r acts where "rollback w ?v = (r, acts)" by (cases "rollback w ?v")
    with Inl running_commit(1) [OF Inl] running_rollback [of w ?v] show ?thesis
      by (cases r) (auto simp: turn_body_def running_after_exit Let_def)
  next
    case (Inr s')
    obtain r acts where "rollback w ?v = (r, acts)" by (cases "rollback w ?v")
    with Inr running_commit(2) [OF Inr] running_rollback [of w ?v] show ?thesis
      by (cases r) (auto simp: turn_body_def running_after_exit Let_def)
  qed
qed

lemma running_next: "int (running (sup_of (sup_next t w))) = int (running (sup_of t)) + commit_lost t w"
proof (cases t)
  case (Goes_On s)
  then show ?thesis
    using running_turn_body [of w s]
    by (cases "fst (turn_body w s)") (simp_all add: iteration_def split_beta Let_def)
qed simp_all

text \<open>Between two turns exactly as many servers are left running as commits of a healthy probe failed:
  none while the state files can be written, and one more, unsupervised while the next turn launches
  another, for each commit that raised.\<close>

theorem servers_left_behind:
  "int (running (sup_of (run sup_next t ws))) = int (running (sup_of t)) + spent sup_next commit_lost t ws"
  by (induction ws arbitrary: t) (simp_all add: running_next)

section \<open>The probe ends\<close>

lemma await_healthD:
  "await_health k now exited answers deadline i = Some b \<Longrightarrow>
   b = (\<exists>n\<ge>i. answers n \<and> (\<forall>m. i \<le> m \<and> m \<le> n \<longrightarrow> now m < deadline \<and> \<not> exited m))"
proof (induction k arbitrary: i)
  case 0
  then show ?case by simp
next
  case (Suc k)
  let ?good = "\<lambda>i. \<exists>n\<ge>i. answers n \<and> (\<forall>m. i \<le> m \<and> m \<le> n \<longrightarrow> now m < deadline \<and> \<not> exited m)"
  consider "\<not> now i < deadline \<or> exited i" | "now i < deadline" "\<not> exited i" "answers i"
    | "now i < deadline" "\<not> exited i" "\<not> answers i" by blast
  then show ?case
  proof cases
    case 1
    then have "\<not> ?good i" by auto
    moreover have "\<not> b" using Suc.prems 1 by (auto split: if_splits)
    ultimately show ?thesis by simp
  next
    case 2
    then have "?good i" by (auto intro!: exI [of _ i] dest: antisym)
    moreover have "b" using Suc.prems 2 by simp
    ultimately show ?thesis by simp
  next
    case 3
    have "b = ?good (Suc i)" using Suc.IH [of "Suc i"] Suc.prems 3 by simp
    moreover have "?good (Suc i) = ?good i"
    proof
      assume "?good (Suc i)"
      then obtain n where "Suc i \<le> n" "answers n" "\<forall>m. Suc i \<le> m \<and> m \<le> n \<longrightarrow> now m < deadline \<and> \<not> exited m"
        by blast
      then show "?good i" using 3 by (intro exI [of _ n]) (metis Suc_leD not_less_eq_eq le_antisym)
    next
      assume "?good i"
      then obtain n where "i \<le> n" "answers n" "\<forall>m. i \<le> m \<and> m \<le> n \<longrightarrow> now m < deadline \<and> \<not> exited m" by blast
      moreover then have "i \<noteq> n" using 3 by blast
      ultimately show "?good (Suc i)" by (intro exI [of _ n]) auto
    qed
    ultimately show ?thesis by simp
  qed
qed

lemma await_health_ends:
  assumes tick: "\<And>i. now i + h \<le> now (Suc i)" and "deadline - now i \<le> h * of_nat k"
  shows "\<exists>b. await_health (Suc k) now exited answers deadline i = Some b"
  using assms(2)
proof (induction k arbitrary: i)
  case 0
  then show ?case by auto
next
  case (Suc k)
  have "deadline - now (Suc i) \<le> h * of_nat k"
    using Suc.prems tick [of i] by (simp add: algebra_simps)
  from Suc.IH [OF this] show ?case
    by (auto simp del: await_health.simps simp add: await_health.simps(2) [of "Suc k"])
qed

text \<open>The probe ends: if the clock moves by at least \<open>h\<close> from poll to poll, \<open>k\<close> such steps that reach
  the deadline are enough for an answer, and the answer is yes exactly when the server answered as the
  probed version at a poll up to which the time was not over and the process had not exited.\<close>

theorem probe_terminates:
  assumes "\<And>i. now i + h \<le> now (Suc i)" and "deadline - now 0 \<le> h * of_nat k"
  shows "await_health (Suc k) now exited answers deadline 0 =
    Some (\<exists>n. answers n \<and> (\<forall>m \<le> n. now m < deadline \<and> \<not> exited m))"
proof -
  obtain b where b: "await_health (Suc k) now exited answers deadline 0 = Some b"
    using await_health_ends [OF assms] by blast
  then show ?thesis using await_healthD [OF b] by (simp del: await_health.simps)
qed

lemma probe_terminates_witness:
  "await_health (Suc 60) (\<lambda>i. of_nat i) (\<lambda>_. False) (\<lambda>i. i = 3) 60 0 = Some True"
proof -
  have "await_health (Suc 60) (\<lambda>i. of_nat i) (\<lambda>_. False) (\<lambda>i. i = 3) 60 0 =
      Some (\<exists>n. n = 3 \<and> (\<forall>m \<le> n. of_nat m < (60::rat) \<and> \<not> False))"
    by (rule probe_terminates [of "\<lambda>i. of_nat i" 1 60 60 "\<lambda>_. False" "\<lambda>i. i = 3"]) simp_all
  then show ?thesis by (simp del: await_health.simps)
qed

section \<open>A boot in the middle of a probe\<close>

text \<open>A supervisor that starts again finds the version under probe in the current pointer and takes it as its
  target without probing it.\<close>

lemma reboot_trusts_the_probed_version:
  assumes "sup_ok t0 s" and "probing s" and "pointer (target s) = Some (target s)"
    and "pointer (last_good s) = Some (last_good s)"
  shows "\<exists>s'. sup_start br initial (root s) = Some (Inr s') \<and> target s' = target s \<and> last_good s' = last_good s
    \<and> \<not> probing s'"
  using assms by (auto simp: sup_start_def sup_ok_def Let_def)

end
