(* ===== verification/Update_Apply.thy ===== *)
theory Update_Apply
  imports Supervisor Py_Values
begin

text \<open>
  The server's half of an update (\<open>server/astrodeck/update/service.py\<close>, \<open>signing.py\<close>, \<open>state.py\<close>): look
  for a release, and on request download it, verify it, stage it, leave the request for the supervisor and
  exit. The install root is the record \<open>install\<close> of the supervisor's theory; the rig's idle gate is
  \<open>Hub.restart_blocker\<close>.

  Parameters: the cryptography library and \<open>hashlib\<close> (\<open>crypto\<close>), the network, the archive, \<open>pip\<close> and the
  moments at which the rig is asked whether it is busy (\<open>apply_world\<close>). A step that may raise returns the
  text of its exception on the left. The events published on the bus are snapshots of the update state and
  are not recorded; a cancelled task is not modelled.
\<close>

section \<open>The rig's idle gate\<close>

definition BUSY_LANE_LABELS :: "(string \<times> string) list" where
  "BUSY_LANE_LABELS = [(''goto'', ''slewing''), (''dome'', ''closing the roof''), (''polar'', ''polar aligning''),
     (''pulse_probe'', ''running the pulse probe''), (''solve'', ''solving''), (''autofocus'', ''focusing''),
     (''focuser'', ''focusing''), (''filter_offsets'', ''focusing''), (''video'', ''recording''),
     (''capture'', ''capturing''), (''looping'', ''capturing''), (''egain'', ''capturing'')]"

text \<open>What the gate reads off the hub: the live lanes, the engine's run and the motion lock.\<close>

record rig_now =
  live_lanes :: "string set"
  engine_running :: bool
  motion_locked :: bool

definition busy_label :: "rig_now \<Rightarrow> string option" where
  "busy_label r = map_option snd (find (\<lambda>(lane, _). lane \<in> live_lanes r) BUSY_LANE_LABELS)"

definition restart_blocker :: "rig_now \<Rightarrow> string option" where
  "restart_blocker r = (case busy_label r of
     Some label \<Rightarrow> Some (''rig is '' @ label)
   | None \<Rightarrow> if engine_running r then Some ''a sequence is running''
       else if motion_locked r then Some ''the mount is moving'' else None)"

section \<open>Signatures\<close>

type_synonym bytes = "nat list"

record crypto =
  have_ed25519 :: bool
  sha256_hex :: "bytes \<Rightarrow> string"
  b64decode :: "string \<Rightarrow> bytes option"
  from_public_bytes :: "bytes \<Rightarrow> nat option"
  ed_verify :: "nat \<Rightarrow> bytes \<Rightarrow> bytes \<Rightarrow> bool"

definition load_public :: "crypto \<Rightarrow> string \<Rightarrow> nat option" where
  "load_public c pub = (if \<not> have_ed25519 c then None
     else case b64decode c (py_strip pub) of None \<Rightarrow> None
     | Some raw \<Rightarrow> if length raw \<noteq> 32 then None else from_public_bytes c raw)"

definition verify_bytes :: "crypto \<Rightarrow> bytes \<Rightarrow> string \<Rightarrow> string \<Rightarrow> bool" where
  "verify_bytes c content signature pub = (case load_public c pub of None \<Rightarrow> False
     | Some key \<Rightarrow> (case b64decode c (py_strip signature) of None \<Rightarrow> False
       | Some sig \<Rightarrow> ed_verify c key sig content))"

definition hex_digit :: "char \<Rightarrow> bool" where
  "hex_digit c = (c \<in> set ''0123456789abcdef'')"

definition parse_sha256_sidecar :: "string \<Rightarrow> string option" where
  "parse_sha256_sidecar text = (let text = py_strip text in
     if text = [] then None
     else let head = py_lower (takeWhile (\<lambda>c. \<not> is_space c) text) in
       if length head = 64 \<and> list_all hex_digit head then Some head else None)"

definition verify_artifact :: "crypto \<Rightarrow> string + bytes \<Rightarrow> string \<Rightarrow> string option \<Rightarrow> string option \<Rightarrow> bool \<times> string" where
  "verify_artifact c artifact pub sha sig =
     (if py_strip pub = [] then (False, ''no signing public key pinned (refusing to trust artifact)'')
      else if \<not> have_ed25519 c then (False, ''cryptography unavailable; cannot verify signature'')
      else case artifact of Inl e \<Rightarrow> (False, ''cannot read artifact: '' @ e)
      | Inr content \<Rightarrow>
        let signed = (case sig of None \<Rightarrow> (False, ''no signature provided'')
          | Some s \<Rightarrow> if verify_bytes c content s pub then (True, ''ok'')
              else (False, ''Ed25519 signature verification failed'')) in
        (case sha of None \<Rightarrow> signed
         | Some text \<Rightarrow> (case parse_sha256_sidecar text of None \<Rightarrow> (False, ''malformed .sha256 sidecar'')
           | Some want \<Rightarrow> if want \<noteq> sha256_hex c content
               then (False, ''sha256 mismatch (want '' @ take 12 want @ ''.., got ''
                  @ take 12 (sha256_hex c content) @ ''..)'')
               else signed)))"

section \<open>The update state\<close>

record update_state =
  us_current :: string
  us_latest :: "string option"
  us_available :: bool
  us_notes :: string
  us_channel :: string
  us_last_check :: "rat option"
  us_phase :: string
  us_progress :: rat
  us_error :: "string option"
  us_result :: "outcome option"

definition set_available :: "string option \<Rightarrow> string \<Rightarrow> rat option \<Rightarrow> string option \<Rightarrow> update_state \<Rightarrow> update_state" where
  "set_available new_latest notes ts ch u = u\<lparr>us_latest := new_latest, us_notes := notes,
     us_available := (case new_latest of None \<Rightarrow> False | Some l \<Rightarrow> l \<noteq> us_current u),
     us_last_check := (case ts of None \<Rightarrow> us_last_check u | Some t \<Rightarrow> Some t),
     us_channel := (case ch of None \<Rightarrow> us_channel u | Some c \<Rightarrow> c)\<rparr>"

definition set_phase :: "string \<Rightarrow> rat \<Rightarrow> string option \<Rightarrow> update_state \<Rightarrow> update_state" where
  "set_phase phase progress err u = u\<lparr>us_phase := phase, us_progress := progress, us_error := err\<rparr>"

section \<open>The service\<close>

record update_config =
  uc_enabled :: bool
  uc_channel :: string
  uc_pubkey :: string
  uc_token :: string
  uc_health_timeout :: rat

text \<open>The service with what it shares: the update state, the install root (\<open>None\<close> when not supervised) and
  the armed exit code.\<close>

record service =
  ustate :: update_state
  disk :: "install option"
  armed :: int

datatype staging = Staged_Tree | Stage_Raised string bool

record apply_world =
  aw_now :: rat
  aw_idle_before :: rig_now
  aw_idle_after :: rig_now
  aw_releases :: "string + gh_release option list"
  aw_file :: "string \<Rightarrow> string option \<Rightarrow> string + bytes"
  aw_unreadable :: "string option"
  aw_text :: "string \<Rightarrow> string option \<Rightarrow> string + string"
  aw_stage :: staging
  aw_carry :: "string + unit"
  aw_pending :: "string + unit"
  aw_freeze :: "string option"
  aw_freeze_write :: "string + unit"
  aw_deps :: "bool \<times> string"

definition truthy :: "string option \<Rightarrow> string option" where
  "truthy x = (case x of Some s \<Rightarrow> if s = [] then None else Some s | None \<Rightarrow> None)"

definition token_of :: "update_config \<Rightarrow> string option" where
  "token_of cfg = truthy (Some (py_strip (uc_token cfg)))"

definition check :: "update_config \<Rightarrow> string + gh_release option list \<Rightarrow> rat \<Rightarrow> service \<Rightarrow> service" where
  "check cfg got now s = (case got of
     Inl e \<Rightarrow> s\<lparr>ustate := set_phase ''idle'' 0 (Some (''check failed: '' @ e)) (ustate s)\<rparr>
   | Inr releases \<Rightarrow>
       let u = (case pick_release releases (uc_channel cfg) (Some (us_current (ustate s))) of
           None \<Rightarrow> set_available None [] (Some now) (Some (uc_channel cfg)) (ustate s)
         | Some rel \<Rightarrow> set_available (Some (ri_version rel)) (ri_notes_md rel) (Some now) (Some (uc_channel cfg)) (ustate s))
       in s\<lparr>ustate := set_phase ''idle'' 0 None u\<rparr>)"

definition apply_preconditions :: "update_config \<Rightarrow> rig_now \<Rightarrow> service \<Rightarrow> bool \<times> string" where
  "apply_preconditions cfg rig s =
     (if \<not> uc_enabled cfg then (False, ''update subsystem disabled'')
      else if disk s = None then (False, ''not running under the supervisor (apply unavailable)'')
      else if py_strip (uc_pubkey cfg) = [] then (False, ''no signing public key pinned (cannot verify a release)'')
      else if \<not> (us_available (ustate s) \<and> truthy (us_latest (ustate s)) \<noteq> None) then (False, ''no update available'')
      else case restart_blocker rig of Some b \<Rightarrow> (False, b) | None \<Rightarrow> (True, []))"

text \<open>\<open>_publish\<close>, and the two handlers that end a failed apply.\<close>

definition publish :: "string \<Rightarrow> rat \<Rightarrow> service \<Rightarrow> service" where
  "publish phase progress s = s\<lparr>ustate := set_phase phase progress None (ustate s)\<rparr>"

datatype failure = Update_Error string | Other_Error string

definition failed :: "failure \<Rightarrow> service \<Rightarrow> (string + string \<times> string) \<times> service" where
  "failed f s = (let why = (case f of Update_Error m \<Rightarrow> m | Other_Error e \<Rightarrow> ''apply failed: '' @ e) in
     (Inl why, s\<lparr>ustate := set_phase ''idle'' 0 (Some why) (ustate s)\<rparr>))"

text \<open>The download leg: the artifact and the texts of its two sidecars.\<close>

definition fetch_text_opt :: "apply_world \<Rightarrow> string option \<Rightarrow> string option \<Rightarrow> string + string option" where
  "fetch_text_opt w url token = (case truthy url of None \<Rightarrow> Inr None
     | Some u \<Rightarrow> (case aw_text w u token of Inl e \<Rightarrow> Inl e | Inr t \<Rightarrow> Inr (Some t)))"

definition url_for :: "string option \<Rightarrow> string option \<Rightarrow> string option \<Rightarrow> string option" where
  "url_for token api browser = (if token \<noteq> None then (case truthy api of Some u \<Rightarrow> Some u | None \<Rightarrow> browser) else browser)"

definition download_release :: "apply_world \<Rightarrow> string option \<Rightarrow> release_info \<Rightarrow>
    string + (bytes \<times> string option \<times> string option)" where
  "download_release w token rel =
     (let art = (case url_for token (ri_artifact_api_url rel) (Some (ri_artifact_url rel)) of Some u \<Rightarrow> u | None \<Rightarrow> []) in
      case aw_file w art token of Inl e \<Rightarrow> Inl e | Inr content \<Rightarrow>
      case fetch_text_opt w (url_for token (ri_sha256_api_url rel) (ri_sha256_url rel)) token of Inl e \<Rightarrow> Inl e | Inr sha \<Rightarrow>
      case fetch_text_opt w (url_for token (ri_sig_api_url rel) (ri_sig_url rel)) token of Inl e \<Rightarrow> Inl e | Inr sig \<Rightarrow>
        Inr (content, sha, sig))"

definition on_disk :: "(install \<Rightarrow> install) \<Rightarrow> service \<Rightarrow> service" where
  "on_disk f s = s\<lparr>disk := map_option f (disk s)\<rparr>"

text \<open>After the verification: stage, carry the vendor libraries over, ask the rig again, leave the request,
  snapshot the environment, reconcile it, and arm the exit.\<close>

definition stage_and_signal :: "update_config \<Rightarrow> apply_world \<Rightarrow> release_info \<Rightarrow> service \<Rightarrow> (string + string \<times> string) \<times> service" where
  "stage_and_signal cfg w rel s =
     (let v = ri_version rel; s = publish ''staging'' 0 s in
      case aw_stage w of
        Stage_Raised e gone \<Rightarrow>
          failed (Other_Error e) (if gone then on_disk (\<lambda>d. d\<lparr>staged := staged d - {v}\<rparr>) s else s)
      | Staged_Tree \<Rightarrow>
        let s = on_disk (\<lambda>d. d\<lparr>staged := insert v (staged d)\<rparr>) s in
        case aw_carry w of Inl e \<Rightarrow> failed (Other_Error e) s | Inr _ \<Rightarrow>
        case restart_blocker (aw_idle_after w) of
          Some b \<Rightarrow> failed (Update_Error (''aborted before restart: '' @ b)) s
        | None \<Rightarrow>
        case aw_pending w of Inl e \<Rightarrow> failed (Other_Error e) s | Inr _ \<Rightarrow>
        let s = on_disk (\<lambda>d. d\<lparr>pending_file := Some \<lparr>pd_version = Some v, pd_timeout = Some (uc_health_timeout cfg)\<rparr>\<rparr>) s in
        case (case aw_freeze w of None \<Rightarrow> Inr s
              | Some text \<Rightarrow> (case aw_freeze_write w of Inl e \<Rightarrow> Inl e
                  | Inr _ \<Rightarrow> Inr (on_disk (\<lambda>d. d\<lparr>freeze_file := Some text\<rparr>) s))) of
          Inl e \<Rightarrow> failed (Other_Error e) s
        | Inr s \<Rightarrow> (Inr (v, snd (aw_deps w)), (publish ''applying'' 1 s)\<lparr>armed := EXIT_APPLY_UPDATE\<rparr>))"

definition apply_release :: "crypto \<Rightarrow> update_config \<Rightarrow> apply_world \<Rightarrow> service \<Rightarrow> (string + string \<times> string) \<times> service" where
  "apply_release c cfg w s =
     (case apply_preconditions cfg (aw_idle_before w) s of
        (False, why) \<Rightarrow> (Inl why, s)
      | (True, _) \<Rightarrow>
        case aw_releases w of Inl e \<Rightarrow> failed (Other_Error e) s | Inr releases \<Rightarrow>
        case pick_release releases (uc_channel cfg) (Some (us_current (ustate s))) of
          None \<Rightarrow> failed (Update_Error ''update no longer available'') s
        | Some rel \<Rightarrow>
          if \<not> is_safe_version (Some (ri_version rel)) then
            failed (Update_Error (''unsafe version string: '' @ py_repr (ri_version rel))) s
          else let s = publish ''downloading'' 0 s in
          case download_release w (token_of cfg) rel of Inl e \<Rightarrow> failed (Other_Error e) s
          | Inr (content, sha, sig) \<Rightarrow>
            let s = publish ''verifying'' 1 s in
            case verify_artifact c (case aw_unreadable w of Some e \<Rightarrow> Inl e | None \<Rightarrow> Inr content)
                (uc_pubkey cfg) sha sig of
              (False, why) \<Rightarrow> failed (Update_Error (''verification failed: '' @ why)) s
            | (True, _) \<Rightarrow> stage_and_signal cfg w rel s)"

text \<open>At boot the outcome of the last attempt is read, shown and removed.\<close>

definition load_boot_result :: "service \<Rightarrow> service" where
  "load_boot_result s = (case disk s of None \<Rightarrow> s
     | Some d \<Rightarrow> (case result_file d of None \<Rightarrow> s
       | Some res \<Rightarrow> s\<lparr>ustate := (ustate s)\<lparr>us_result := Some res\<rparr>, disk := Some (d\<lparr>result_file := None\<rparr>)\<rparr>))"

section \<open>What an apply leaves\<close>

lemma apply_preconditionsD:
  "apply_preconditions cfg rig s = (True, m) \<Longrightarrow> uc_enabled cfg \<and> disk s \<noteq> None \<and> py_strip (uc_pubkey cfg) \<noteq> [] \<and>
     us_available (ustate s) \<and> restart_blocker rig = None"
  by (auto simp: apply_preconditions_def split: if_splits option.splits)

lemma verify_artifactD:
  assumes "verify_artifact c a pub sha sig = (True, m)"
  shows "\<exists>content s. a = Inr content \<and> sig = Some s \<and> verify_bytes c content s pub \<and>
    (\<forall>t. sha = Some t \<longrightarrow> parse_sha256_sidecar t = Some (sha256_hex c content))"
  using assms by (auto simp: verify_artifact_def Let_def split: if_splits option.splits sum.splits)

lemma failed_simps [simp]:
  "fst (failed f s) = Inl (case f of Update_Error m \<Rightarrow> m | Other_Error e \<Rightarrow> ''apply failed: '' @ e)"
  "disk (snd (failed f s)) = disk s" "armed (snd (failed f s)) = armed s"
  "us_phase (ustate (snd (failed f s))) = ''idle''"
  "us_error (ustate (snd (failed f s))) = Some (case f of Update_Error m \<Rightarrow> m | Other_Error e \<Rightarrow> ''apply failed: '' @ e)"
  by (simp_all add: failed_def set_phase_def Let_def)

lemma publish_simps [simp]:
  "disk (publish p x s) = disk s" "armed (publish p x s) = armed s"
  "us_current (ustate (publish p x s)) = us_current (ustate s)"
  by (simp_all add: publish_def set_phase_def)

lemma on_disk_simps [simp]: "disk (on_disk f s) = map_option f (disk s)" "armed (on_disk f s) = armed s"
  by (simp_all add: on_disk_def)

lemma stage_and_signal_ok:
  assumes "stage_and_signal cfg w rel s = (Inr (v, why), s')"
  shows "v = ri_version rel \<and> armed s' = EXIT_APPLY_UPDATE \<and> aw_stage w = Staged_Tree \<and>
    restart_blocker (aw_idle_after w) = None \<and>
    disk s' = map_option (\<lambda>d. d\<lparr>staged := insert v (staged d),
      pending_file := Some \<lparr>pd_version = Some v, pd_timeout = Some (uc_health_timeout cfg)\<rparr>,
      freeze_file := (case aw_freeze w of None \<Rightarrow> freeze_file d | Some t \<Rightarrow> Some t)\<rparr>) (disk s)"
proof -
  have "fst (failed f t) \<noteq> Inr y" for f t and y :: "string \<times> string" by simp
  then have no: "failed f t \<noteq> (Inr y, s')" for f t and y :: "string \<times> string" by (metis fst_conv)
  show ?thesis
    using assms no
    by (cases "disk s") (auto simp: stage_and_signal_def Let_def split: staging.splits sum.splits option.splits)
qed

lemma apply_releaseD:
  assumes "apply_release c cfg w s = (Inr (v, why), s')"
  obtains releases rel content sha sig m m' t where
    "apply_preconditions cfg (aw_idle_before w) s = (True, m)" "aw_releases w = Inr releases"
    "pick_release releases (uc_channel cfg) (Some (us_current (ustate s))) = Some rel"
    "is_safe_version (Some (ri_version rel))" "download_release w (token_of cfg) rel = Inr (content, sha, sig)"
    "verify_artifact c (case aw_unreadable w of Some e \<Rightarrow> Inl e | None \<Rightarrow> Inr content) (uc_pubkey cfg) sha sig
      = (True, m')"
    "stage_and_signal cfg w rel t = (Inr (v, why), s')" "disk t = disk s"
proof -
  have "fst (failed f t) \<noteq> Inr y" for f t and y :: "string \<times> string" by simp
  then have no: "failed f t \<noteq> (Inr y, s')" for f t and y :: "string \<times> string" by (metis fst_conv)
  show thesis
    using assms no
    by (auto simp: apply_release_def Let_def intro: that split: prod.splits bool.splits sum.splits option.splits if_splits)
qed

text \<open>C29. A restart into a release is earned: when apply arms the exit, the rig was idle at the request and
  again after staging, a key is pinned and the signature over the bytes that were downloaded verifies
  under it, a digest that was offered is theirs, the release is the newest on offer in the channel and
  strictly newer than the version that runs, its name is safe as a path, its tree is staged and the request
  on the disk names it.\<close>

theorem restart_is_earned:
  assumes "apply_release c cfg w s = (Inr (v, why), s')"
  shows "restart_blocker (aw_idle_before w) = None \<and> restart_blocker (aw_idle_after w) = None \<and>
    is_safe_version (Some v) \<and> armed s' = EXIT_APPLY_UPDATE \<and>
    (\<exists>d. disk s' = Some d \<and> v \<in> staged d \<and>
       pending_file d = Some \<lparr>pd_version = Some v, pd_timeout = Some (uc_health_timeout cfg)\<rparr>) \<and>
    (\<exists>rel content sha sig. download_release w (token_of cfg) rel = Inr (content, sha, Some sig) \<and> ri_version rel = v \<and>
       py_strip (uc_pubkey cfg) \<noteq> [] \<and> verify_bytes c content sig (uc_pubkey cfg) \<and>
       (\<forall>t. sha = Some t \<longrightarrow> parse_sha256_sidecar t = Some (sha256_hex c content))) \<and>
    (\<exists>releases r ver. aw_releases w = Inr releases \<and> on_offer releases (uc_channel cfg) r ver \<and> version_str ver = v \<and>
       (\<forall>r' v'. on_offer releases (uc_channel cfg) r' v' \<longrightarrow> version_key v' \<le> version_key ver) \<and>
       (\<forall>cv. parse_version (us_current (ustate s)) = Some cv \<longrightarrow> version_key cv < version_key ver))"
proof -
  obtain releases rel content sha sig m m' t where
    pre: "apply_preconditions cfg (aw_idle_before w) s = (True, m)" and rels: "aw_releases w = Inr releases" and
    pick: "pick_release releases (uc_channel cfg) (Some (us_current (ustate s))) = Some rel" and
    safe: "is_safe_version (Some (ri_version rel))" and
    dl: "download_release w (token_of cfg) rel = Inr (content, sha, sig)" and
    ver: "verify_artifact c (case aw_unreadable w of Some e \<Rightarrow> Inl e | None \<Rightarrow> Inr content) (uc_pubkey cfg) sha sig
      = (True, m')" and
    st: "stage_and_signal cfg w rel t = (Inr (v, why), s')" and t: "disk t = disk s"
    by (rule apply_releaseD [OF assms])
  note ok = stage_and_signal_ok [OF st]
  note p = apply_preconditionsD [OF pre]
  obtain d where d: "disk s = Some d" using p by blast
  obtain sg where sg: "sig = Some sg" "verify_bytes c content sg (uc_pubkey cfg)"
      "\<forall>t. sha = Some t \<longrightarrow> parse_sha256_sidecar t = Some (sha256_hex c content)"
    using verify_artifactD [OF ver] by (auto split: option.splits)
  obtain r vr where r: "on_offer releases (uc_channel cfg) r vr" "ri_version rel = version_str vr"
      "\<forall>r' v'. on_offer releases (uc_channel cfg) r' v' \<longrightarrow> version_key v' \<le> version_key vr"
      "\<forall>c cv. Some (us_current (ustate s)) = Some c \<and> parse_version c = Some cv \<longrightarrow> version_key cv < version_key vr"
    using picked_is_the_newest [OF pick] by blast
  have "\<exists>d. disk s' = Some d \<and> v \<in> staged d \<and>
       pending_file d = Some \<lparr>pd_version = Some v, pd_timeout = Some (uc_health_timeout cfg)\<rparr>"
    using ok t d by simp
  moreover have "\<exists>rel content sha sig. download_release w (token_of cfg) rel = Inr (content, sha, Some sig) \<and> ri_version rel = v \<and>
       py_strip (uc_pubkey cfg) \<noteq> [] \<and> verify_bytes c content sig (uc_pubkey cfg) \<and>
       (\<forall>t. sha = Some t \<longrightarrow> parse_sha256_sidecar t = Some (sha256_hex c content))"
    using dl sg ok p by (intro exI [of _ rel] exI [of _ content] exI [of _ sha] exI [of _ sg]) simp
  moreover have "\<exists>releases r ver. aw_releases w = Inr releases \<and> on_offer releases (uc_channel cfg) r ver \<and> version_str ver = v \<and>
       (\<forall>r' v'. on_offer releases (uc_channel cfg) r' v' \<longrightarrow> version_key v' \<le> version_key ver) \<and>
       (\<forall>cv. parse_version (us_current (ustate s)) = Some cv \<longrightarrow> version_key cv < version_key ver)"
    using rels r ok by (intro exI [of _ releases] exI [of _ r] exI [of _ vr]) simp
  ultimately show ?thesis using ok p safe by simp
qed

text \<open>A demonstration: a server at 0.9.1 to which a signed 0.10.0 is offered, with a library that takes the
  text \<open>sig\<close> for the signature of everything.\<close>

definition a_crypto :: crypto where
  "a_crypto = \<lparr>have_ed25519 = True, sha256_hex = (\<lambda>_. []), b64decode = (\<lambda>t. if t = ''sig'' then Some [1]
       else Some (replicate 32 0)), from_public_bytes = (\<lambda>_. Some 7),
     ed_verify = (\<lambda>key sg content. key = 7 \<and> sg = [1])\<rparr>"

definition a_config :: update_config where
  "a_config = \<lparr>uc_enabled = True, uc_channel = ''stable'', uc_pubkey = ''key'', uc_token = [], uc_health_timeout = 60\<rparr>"

definition an_offer :: gh_release where
  "an_offer = \<lparr>gh_draft = False, gh_prerelease = False, gh_tag = ''v0.10.0'', gh_body = [],
     gh_assets = [Some \<lparr>as_name = ''a.tar.gz'', as_browser_url = Some ''u'', as_api_url = None\<rparr>,
       Some \<lparr>as_name = ''a.tar.gz.sig'', as_browser_url = Some ''s'', as_api_url = None\<rparr>]\<rparr>"

definition idle_rig :: rig_now where
  "idle_rig = \<lparr>live_lanes = {''guide''}, engine_running = False, motion_locked = False\<rparr>"

definition an_apply :: apply_world where
  "an_apply = \<lparr>aw_now = 0, aw_idle_before = idle_rig, aw_idle_after = idle_rig, aw_releases = Inr [Some an_offer],
     aw_file = (\<lambda>_ _. Inr [42]), aw_unreadable = None, aw_text = (\<lambda>_ _. Inr ''sig''), aw_stage = Staged_Tree,
     aw_carry = Inr (), aw_pending = Inr (), aw_freeze = Some ''numpy==1'', aw_freeze_write = Inr (),
     aw_deps = (True, ''ok'')\<rparr>"

definition a_service :: service where
  "a_service = \<lparr>ustate = \<lparr>us_current = ''0.9.1'', us_latest = Some ''0.10.0'', us_available = True, us_notes = [],
       us_channel = ''stable'', us_last_check = None, us_phase = ''idle'', us_progress = 0, us_error = None,
       us_result = None\<rparr>,
     disk = Some a_boot, armed = 0\<rparr>"

lemma an_apply_works:
  "apply_release a_crypto a_config an_apply a_service =
     (Inr (''0.10.0'', ''ok''), snd (apply_release a_crypto a_config an_apply a_service))"
proof -
  have "fst (apply_release a_crypto a_config an_apply a_service) = Inr (''0.10.0'', ''ok'')" by code_simp
  then show ?thesis by (metis prod.collapse)
qed

lemma restart_is_earned_witness:
  "armed (snd (apply_release a_crypto a_config an_apply a_service)) = EXIT_APPLY_UPDATE \<and>
   is_safe_version (Some ''0.10.0'')"
  using restart_is_earned [OF an_apply_works] by blast

section \<open>A failed apply\<close>

lemma stage_and_signal_failed:
  assumes "stage_and_signal cfg w rel s = (Inl why, s')"
  shows "armed s' = armed s \<and> us_phase (ustate s') = ''idle'' \<and> us_error (ustate s') = Some why \<and>
    map_option current_file (disk s') = map_option current_file (disk s) \<and>
    map_option last_good_file (disk s') = map_option last_good_file (disk s) \<and>
    (restart_blocker (aw_idle_after w) \<noteq> None \<longrightarrow>
       map_option pending_file (disk s') = map_option pending_file (disk s))"
proof -
  have f: "failed f t = (Inl why, s') \<Longrightarrow> armed s' = armed t \<and> us_phase (ustate s') = ''idle'' \<and>
      us_error (ustate s') = Some why \<and> disk s' = disk t" for f t
    by (auto simp: failed_def set_phase_def Let_def)
  show ?thesis
    using assms
    by (cases "disk s")
      (auto simp: stage_and_signal_def Let_def split: staging.splits sum.splits option.splits if_splits dest!: f)
qed

text \<open>C39. An apply that does not succeed never restarts the server: the exit is not armed, the version that
  runs and the one to fall back to are untouched on the disk, and a rig found busy after staging leaves no
  request behind. Past its preconditions, wherever it failed, the update state is idle again and shows the
  very reason the caller is given; an apply that a precondition refused has that refusal for its reason
  and leaves everything as it was.\<close>

theorem failed_apply_changes_nothing:
  assumes "apply_release c cfg w s = (Inl why, s')"
  shows "armed s' = armed s \<and>
    (if fst (apply_preconditions cfg (aw_idle_before w) s)
     then us_phase (ustate s') = ''idle'' \<and> us_error (ustate s') = Some why
     else s' = s \<and> why = snd (apply_preconditions cfg (aw_idle_before w) s)) \<and>
    map_option current_file (disk s') = map_option current_file (disk s) \<and>
    map_option last_good_file (disk s') = map_option last_good_file (disk s) \<and>
    (restart_blocker (aw_idle_after w) \<noteq> None \<longrightarrow>
       map_option pending_file (disk s') = map_option pending_file (disk s))"
proof -
  have f: "failed f t = (Inl why, s') \<Longrightarrow> armed s' = armed t \<and> us_phase (ustate s') = ''idle'' \<and>
      us_error (ustate s') = Some why \<and> disk s' = disk t" for f t
    by (auto simp: failed_def set_phase_def Let_def)
  show ?thesis
    using assms
    by (auto simp: apply_release_def Let_def dest!: f stage_and_signal_failed
        split: prod.splits bool.splits sum.splits option.splits if_splits)
qed

lemma failed_apply_changes_nothing_witness:
  "armed (snd (apply_release a_crypto a_config
     (an_apply\<lparr>aw_idle_after := idle_rig\<lparr>motion_locked := True\<rparr>\<rparr>) a_service)) = 0"
proof -
  let ?r = "apply_release a_crypto a_config (an_apply\<lparr>aw_idle_after := idle_rig\<lparr>motion_locked := True\<rparr>\<rparr>) a_service"
  have "fst ?r = Inl ''aborted before restart: the mount is moving''" by code_simp
  then have "?r = (Inl ''aborted before restart: the mount is moving'', snd ?r)" by (metis prod.collapse)
  from failed_apply_changes_nothing [OF this] show ?thesis by (simp add: a_service_def)
qed

section \<open>From the request to the outcome\<close>

text \<open>What the supervisor finds when the server that left this disk has exited.\<close>

definition leaves :: "install \<Rightarrow> served" where
  "leaves d = \<lparr>sv_pending = pending_file d, sv_staged = staged d, sv_result = result_file d, sv_freeze = freeze_file d\<rparr>"

text \<open>C28. Server and supervisor together. After an apply that succeeded, the supervisor that finds the exit
  code and the files of that server, with working files and a release not marked as failed, launches
  exactly that release. If it comes up, it is the new last-good; if not, the version that ran last good is
  the target and the current pointer again, the release is marked, the environment's snapshot that the
  server took is put back, and the next boot of the server shows the failure.\<close>

theorem update_end_to_end:
  assumes applied: "apply_release c cfg w sv = (Inr (v, why), sv')" and d: "disk sv' = Some d"
    and exit: "exit_code w1 = armed sv'" "by_exit w1 = leaves d" "starts w1"
    and sup: "\<not> probing s" "\<not> marked v s"
    and launch: "starts w2" "sv_freeze (by_probe w2) = freeze_file d" "restores w2"
    and files: "\<And>x. \<not> broken w1 x" "\<And>x. \<not> broken w2 x"
    and boot: "disk b = Some (root (sup_of (run sup_next (Goes_On s) [w1, w2])))"
  shows "let s2 = sup_of (run sup_next (Goes_On s) [w1, w2]);
      acts = snd (iteration w2 (sup_of (sup_next (Goes_On s) w1))) in
    if healthy w2 then last_good s2 = v \<and> last_good_file (root s2) = pointer v
    else target s2 = last_good s \<and> last_good s2 = last_good s \<and> current_file (root s2) = pointer (last_good s) \<and>
      marked v s2 \<and>
      acts = [Launch v, Terminate] @ (case freeze_file d of None \<Rightarrow> [] | Some text \<Rightarrow> [Restore_Venv text]) \<and>
      us_result (ustate (load_boot_result b)) = Some \<lparr>oc_ok = False, oc_version = Some v, oc_from = Some (target s),
        oc_reason = ''health check failed; rolled back''\<rparr>"
proof -
  obtain rel t where st: "stage_and_signal cfg w rel t = (Inr (v, why), sv')" and
      safe: "is_safe_version (Some (ri_version rel))" and t: "disk t = disk sv"
    by (rule apply_releaseD [OF applied])
  note ok = stage_and_signal_ok [OF st]
  obtain p where p: "pending_file d = Some p" "pd_version p = Some v" and "v \<in> staged d"
    using ok d by (cases "disk t") auto
  have "exit_code w1 = EXIT_APPLY_UPDATE" "sv_pending (by_exit w1) = Some p" "v \<in> sv_staged (by_exit w1)"
    using exit ok p \<open>v \<in> staged d\<close> by (simp_all add: leaves_def)
  moreover have "is_safe_version (Some v)" using safe ok by simp
  ultimately show ?thesis
    using update_is_kept_or_undone [of w1 s p v w2] exit(3) sup launch files p(2) boot
    by (cases "freeze_file d") (auto simp: Let_def load_boot_result_def split: if_splits)
qed

definition a_disk :: install where
  "a_disk = a_boot\<lparr>staged := {''0.10.0'', ''1.0.0''}, pending_file := Some \<lparr>pd_version = Some ''0.10.0'', pd_timeout = Some 60\<rparr>,
     freeze_file := Some ''numpy==1''\<rparr>"

definition handed_over :: "bool \<Rightarrow> world" where
  "handed_over h = \<lparr>starts = True, by_probe = leaves a_disk, healthy = h, by_exit = leaves a_disk,
     exit_code = 92, ran_stable = False, restores = True, broken = (\<lambda>_. False)\<rparr>"

lemma update_end_to_end_witness:
  "marked ''0.10.0'' (sup_of (run sup_next (Goes_On a_sup) [handed_over True, handed_over False])) \<and>
   target (sup_of (run sup_next (Goes_On a_sup) [handed_over True, handed_over False])) = ''1.0.0''"
proof -
  let ?sv = "snd (apply_release a_crypto a_config an_apply a_service)"
  let ?b = "a_service\<lparr>disk := Some (root (sup_of (run sup_next (Goes_On a_sup) [handed_over True, handed_over False])))\<rparr>"
  have d: "disk ?sv = Some a_disk"
  proof -
    obtain rel t where st: "stage_and_signal a_config an_apply rel t = (Inr (''0.10.0'', ''ok''), ?sv)"
      and t: "disk t = disk a_service"
      by (rule apply_releaseD [OF an_apply_works])
    have "disk ?sv = map_option (\<lambda>d. d\<lparr>staged := insert ''0.10.0'' (staged d),
        pending_file := Some \<lparr>pd_version = Some ''0.10.0'', pd_timeout = Some (uc_health_timeout a_config)\<rparr>,
        freeze_file := (case aw_freeze an_apply of None \<Rightarrow> freeze_file d | Some t \<Rightarrow> Some t)\<rparr>) (disk t)"
      using stage_and_signal_ok [OF st] by blast
    then show ?thesis unfolding t
      by (simp add: a_service_def a_disk_def a_boot_def a_config_def an_apply_def)
  qed
  have e: "exit_code (handed_over True) = armed ?sv"
    by (simp add: handed_over_def) code_simp
  have m: "\<not> marked ''0.10.0'' a_sup" by code_simp
  have b: "disk ?b = Some (root (sup_of (run sup_next (Goes_On a_sup) [handed_over True, handed_over False])))"
    by simp
  show ?thesis
    using update_end_to_end [OF an_apply_works d e _ _ _ m _ _ _ _ _ b]
    by (simp add: handed_over_def leaves_def a_sup_def Let_def)
qed

end
