(* ===== verification/Users.thy ===== *)
theory Users
  imports Machines Auth_Providers
begin

text \<open>
  The account list (\<open>server/astrodeck/auth/users.py\<close>): a JSON file read into a cache, re-read when the
  file's stamp changes, and rewritten whole by every mutation; and the password rules of
  \<open>auth/passwords.py\<close>.

  \<open>account\<close> is the class \<open>User\<close> and \<open>user_store\<close> the \<open>UserStore\<close> with its file and backup. A document is what
  reading it gives, each record as the validation library returned it (\<open>None\<close> where it refused). What the
  file system does in a call is \<open>io\<close>. A mutation changes an object that was taken out of the cache: if the
  cache is read again in between, the object is no longer in it. So \<open>require\<close> returns the account with the
  generation of the cache it is in, and \<open>touch\<close> changes the cache only if that is still the cache.

  \<open>bcrypt\<close> is a parameter: a hash of a password (with the salt of the call) and a check. Case folding is that
  of ASCII. An operation is not interrupted by another process.
  Every look at the file's stamp may fail, and a write may fail before or after the new file is in place.
\<close>

section \<open>Passwords\<close>

definition MAX_PASSWORD_BYTES :: nat where "MAX_PASSWORD_BYTES = 72"
definition MIN_PASSWORD_LEN :: nat where "MIN_PASSWORD_LEN = 12"
definition CURRENT_PASSWORD_POLICY :: int where "CURRENT_PASSWORD_POLICY = 1"

definition too_long :: "string \<Rightarrow> bool" where
  "too_long pw = (MAX_PASSWORD_BYTES < length pw)"

definition too_short :: "string \<Rightarrow> bool" where
  "too_short pw = (length (py_strip pw) < MIN_PASSWORD_LEN)"

text \<open>The library: \<open>hashpw\<close> with the salt of the call and \<open>checkpw\<close> (\<open>None\<close> where it raises).\<close>

record bcrypt =
  hashpw :: "string \<Rightarrow> string"
  checkpw :: "string \<Rightarrow> string \<Rightarrow> bool option"

definition hash_password :: "bcrypt \<Rightarrow> string \<Rightarrow> string res" where
  "hash_password b pw = (if too_short pw then Inl ValueError else if too_long pw then Inl ValueError
     else Inr (hashpw b pw))"

definition verify_password :: "bcrypt \<Rightarrow> string \<Rightarrow> string \<Rightarrow> bool" where
  "verify_password b pw h = (if h = [] then False else if too_long pw then False
     else (case checkpw b pw h of None \<Rightarrow> False | Some ok \<Rightarrow> ok))"

section \<open>Accounts\<close>

record account =
  a_id :: string
  a_username :: string
  a_email :: "string option"
  a_role :: string
  a_hash :: string
  a_policy :: int
  a_epoch :: int
  a_enabled :: bool
  a_created :: rat

definition norm_username :: "string \<Rightarrow> string" where
  "norm_username name = py_lower (py_strip name)"

definition normalize_email :: "string \<Rightarrow> string res" where
  "normalize_email email = (let e = py_lower (py_strip email) in
     if e = [] then Inl ValueError
     else if \<not> list_all (\<lambda>c. \<not> is_space c) e then Inl ValueError
     else if length (filter (\<lambda>c. c = CHR ''@'') e) \<noteq> 1 then Inl ValueError
     else let local_part = takeWhile (\<lambda>c. c \<noteq> CHR ''@'') e; domain = drop (length local_part + 1) e in
       if local_part = [] \<or> domain = [] \<or> CHR ''.'' \<notin> set domain then Inl ValueError else Inr e)"

definition login_email :: "account \<Rightarrow> string" where
  "login_email u = py_lower (py_strip (case nonempty (a_email u) of Some e \<Rightarrow> e | None \<Rightarrow> a_username u))"

section \<open>The file\<close>

datatype doc = No_File | Unreadable | Malformed | Records "account option list"

fun decode_records :: "account list \<Rightarrow> string set \<Rightarrow> account option list \<Rightarrow> account list res" where
  "decode_records us names [] = Inr us"
| "decode_records us names (None # rs) = Inl RuntimeError"
| "decode_records us names (Some u # rs) = (let name = norm_username (a_username u) in
     if name = [] \<or> a_role u \<notin> set ROLES then Inl RuntimeError
     else if a_id u \<in> set (map a_id us) \<or> name \<in> names then Inl RuntimeError
     else decode_records (us @ [u]) (insert name names) rs)"

definition decode :: "doc \<Rightarrow> account list res" where
  "decode d = (case d of Records rs \<Rightarrow> decode_records [] {} rs | _ \<Rightarrow> Inl RuntimeError)"

definition dump :: "account list \<Rightarrow> doc" where
  "dump us = Records (map Some (sort_key a_created us))"

record user_store =
  us_users :: "account list option"
  us_gen :: nat
  us_stamp :: "nat option"
  f_doc :: doc
  f_bak :: doc
  f_stamp :: "nat option"

text \<open>How a write ends: done; raised with the file as it was; or raised with the new file in place (the
  permissions set on it, or the look at its stamp, failed). And what it leaves of the backup.\<close>

datatype write_end = Written | Not_Written exn | Written_Late exn

datatype bak_end = Copied | Dropped | Spoiled | Untouched

text \<open>The file system in one call: whether the file can be inspected at each look before the change and at
  the one that begins the save, and how the restore of a backup and the save end, with the stamps of what
  they write.\<close>

record io =
  stat_ok :: "nat \<Rightarrow> bool"
  save_stat_ok :: bool
  restoring :: write_end
  saving :: write_end
  baking :: bak_end
  restore_stamp :: nat
  save_stamp :: nat

definition restore_from_bak :: "io \<Rightarrow> user_store \<Rightarrow> account list option res \<times> user_store" where
  "restore_from_bak io s = (case f_bak s of
     No_File \<Rightarrow> (Inr None, s)
   | Unreadable \<Rightarrow> (Inl RuntimeError, s)
   | _ \<Rightarrow> (case decode (f_bak s) of Inl e \<Rightarrow> (Inl RuntimeError, s)
       | Inr us \<Rightarrow> (let there = s\<lparr>f_doc := dump us, f_stamp := Some (restore_stamp io)\<rparr> in
           case restoring io of Written \<Rightarrow> (Inr (Some us), there) | Not_Written e \<Rightarrow> (Inl e, s)
           | Written_Late e \<Rightarrow> (Inl e, there))))"

definition load :: "io \<Rightarrow> user_store \<Rightarrow> account list res \<times> user_store" where
  "load io s = (case f_doc s of
     No_File \<Rightarrow> (case restore_from_bak io s of (Inl e, s) \<Rightarrow> (Inl e, s)
       | (Inr None, s) \<Rightarrow> (Inr [], s) | (Inr (Some us), s) \<Rightarrow> (Inr us, s))
   | d \<Rightarrow> (case decode d of Inr us \<Rightarrow> (Inr us, s)
       | Inl _ \<Rightarrow> (case restore_from_bak io s of (Inl e, s) \<Rightarrow> (Inl e, s)
           | (Inr None, s) \<Rightarrow> (Inl RuntimeError, s) | (Inr (Some us), s) \<Rightarrow> (Inr us, s))))"

text \<open>\<open>_cache\<close>: the stamp is the one read before the load. \<open>ok\<close>: this look can inspect the file.\<close>

definition cache :: "bool \<Rightarrow> io \<Rightarrow> user_store \<Rightarrow> account list res \<times> user_store" where
  "cache ok io s = (if \<not> ok then (Inl RuntimeError, s)
     else let stamp = f_stamp s in
       case us_users s of
         Some us \<Rightarrow> if stamp = us_stamp s then (Inr us, s)
           else (case load io s of (Inl e, s) \<Rightarrow> (Inl e, s)
             | (Inr us, s) \<Rightarrow> (Inr us, s\<lparr>us_users := Some us, us_gen := us_gen s + 1, us_stamp := stamp\<rparr>))
       | None \<Rightarrow> (case load io s of (Inl e, s) \<Rightarrow> (Inl e, s)
             | (Inr us, s) \<Rightarrow> (Inr us, s\<lparr>us_users := Some us, us_gen := us_gen s + 1, us_stamp := stamp\<rparr>)))"

definition backed_up :: "io \<Rightarrow> user_store \<Rightarrow> user_store" where
  "backed_up io s = (if f_doc s = No_File then s else s\<lparr>f_bak := (case baking io of
     Copied \<Rightarrow> f_doc s | Dropped \<Rightarrow> No_File | Spoiled \<Rightarrow> Malformed | Untouched \<Rightarrow> f_bak s)\<rparr>)"

definition save :: "io \<Rightarrow> user_store \<Rightarrow> unit res \<times> user_store" where
  "save io s = (case cache (save_stat_ok io) io s of (Inl e, s) \<Rightarrow> (Inl e, s)
     | (Inr us, s) \<Rightarrow> (let there = (backed_up io s)\<lparr>f_doc := dump us, f_stamp := Some (save_stamp io)\<rparr> in
         case saving io of Written \<Rightarrow> (Inr (), there\<lparr>us_stamp := Some (save_stamp io)\<rparr>)
         | Not_Written e \<Rightarrow> (Inl e, backed_up io s)
         | Written_Late e \<Rightarrow> (Inl e, there)))"

section \<open>Queries\<close>

definition named :: "string \<Rightarrow> account list \<Rightarrow> account option" where
  "named name us = find (\<lambda>u. a_username u = norm_username name) us"

definition get_by_username :: "io \<Rightarrow> string \<Rightarrow> user_store \<Rightarrow> account option res \<times> user_store" where
  "get_by_username io name s = (case cache (stat_ok io 0) io s of (Inl e, s) \<Rightarrow> (Inl e, s) | (Inr us, s) \<Rightarrow> (Inr (named name us), s))"

definition by_email :: "string \<Rightarrow> account list \<Rightarrow> account option" where
  "by_email email us = (case normalize_email email of Inl _ \<Rightarrow> None
     | Inr key \<Rightarrow> find (\<lambda>u. login_email u = key) us)"

definition get_by_email :: "io \<Rightarrow> string \<Rightarrow> user_store \<Rightarrow> account option res \<times> user_store" where
  "get_by_email io email s = (if normalize_email email = Inl ValueError then (Inr None, s)
     else case cache (stat_ok io 0) io s of (Inl e, s) \<Rightarrow> (Inl e, s) | (Inr us, s) \<Rightarrow> (Inr (by_email email us), s))"

definition get_user :: "io \<Rightarrow> string \<Rightarrow> user_store \<Rightarrow> account option res \<times> user_store" where
  "get_user io i s = (case cache (stat_ok io 0) io s of (Inl e, s) \<Rightarrow> (Inl e, s) | (Inr us, s) \<Rightarrow> (Inr (find (\<lambda>u. a_id u = i) us), s))"

definition other_admins :: "string \<Rightarrow> account list \<Rightarrow> account list" where
  "other_admins i us = filter (\<lambda>u. a_role u = ''admin'' \<and> a_enabled u \<and> a_id u \<noteq> i) us"

section \<open>Mutations\<close>

definition require :: "io \<Rightarrow> nat \<Rightarrow> string \<Rightarrow> user_store \<Rightarrow> (account \<times> nat) res \<times> user_store" where
  "require io k i s = (case cache (stat_ok io k) io s of (Inl e, s) \<Rightarrow> (Inl e, s)
     | (Inr us, s) \<Rightarrow> (case find (\<lambda>u. a_id u = i) us of None \<Rightarrow> (Inl KeyError, s) | Some u \<Rightarrow> (Inr (u, us_gen s), s)))"

definition touch :: "nat \<Rightarrow> string \<Rightarrow> (account \<Rightarrow> account) \<Rightarrow> user_store \<Rightarrow> user_store" where
  "touch gen i f s = (if us_gen s = gen
     then s\<lparr>us_users := map_option (map (\<lambda>u. if a_id u = i then f u else u)) (us_users s)\<rparr> else s)"

text \<open>The looks of a call are numbered in their order.\<close>

text \<open>The last lines of a mutation: change the object, save, return it.\<close>

definition finish :: "io \<Rightarrow> account \<times> nat \<Rightarrow> (account \<Rightarrow> account) \<Rightarrow> user_store \<Rightarrow> account res \<times> user_store" where
  "finish io ug f s = (let (u, gen) = ug in
     case save io (touch gen (a_id u) f s) of (Inl e, s) \<Rightarrow> (Inl e, s) | (Inr _, s) \<Rightarrow> (Inr (f u), s))"

text \<open>The refusal to lose the last enabled administrator.\<close>

definition spare_admin :: "io \<Rightarrow> account \<Rightarrow> bool \<Rightarrow> user_store \<Rightarrow> unit res \<times> user_store" where
  "spare_admin io u leaves s = (if leaves \<and> a_role u = ''admin'' \<and> a_enabled u
     then (case cache (stat_ok io 1) io s of (Inl e, s) \<Rightarrow> (Inl e, s)
       | (Inr us, s) \<Rightarrow> (if other_admins (a_id u) us = [] then Inl ValueError else Inr (), s))
     else (Inr (), s))"

text \<open>\<open>create\<close>, with the identifier and the time of the new record; the identity has to be an email address
  where \<open>strict\<close>.\<close>

definition create :: "io \<Rightarrow> bcrypt \<Rightarrow> string \<Rightarrow> rat \<Rightarrow> bool \<Rightarrow> string \<Rightarrow> string \<Rightarrow> string \<Rightarrow> string option \<Rightarrow> bool \<Rightarrow>
    user_store \<Rightarrow> account res \<times> user_store" where
  "create io b i now strict username password role email enabled s =
     (case (if strict then normalize_email username else Inr (norm_username username)) of
        Inl e \<Rightarrow> (Inl e, s)
      | Inr key \<Rightarrow>
        if key = [] then (Inl ValueError, s)
        else if role \<notin> set ROLES then (Inl ValueError, s)
        else case get_by_username io key s of (Inl e, s) \<Rightarrow> (Inl e, s)
        | (Inr (Some _), s) \<Rightarrow> (Inl ValueError, s)
        | (Inr None, s) \<Rightarrow>
          case (if password = [] then Inr [] else hash_password b password) of Inl e \<Rightarrow> (Inl e, s)
          | Inr pw_hash \<Rightarrow>
            let u = \<lparr>a_id = i, a_username = key,
                  a_email = Some (case nonempty email of Some e \<Rightarrow> e | None \<Rightarrow> key), a_role = role,
                  a_hash = pw_hash, a_policy = (if pw_hash = [] then 0 else CURRENT_PASSWORD_POLICY),
                  a_epoch = 0, a_enabled = enabled, a_created = now\<rparr> in
            case cache (stat_ok io 1) io s of (Inl e, s) \<Rightarrow> (Inl e, s)
            | (Inr us, s) \<Rightarrow> (case save io (s\<lparr>us_users := Some (us @ [u])\<rparr>) of
                (Inl e, s) \<Rightarrow> (Inl e, s) | (Inr _, s) \<Rightarrow> (Inr u, s)))"

definition clear_password :: "io \<Rightarrow> string \<Rightarrow> user_store \<Rightarrow> account res \<times> user_store" where
  "clear_password io i s = (case require io 0 i s of (Inl e, s) \<Rightarrow> (Inl e, s)
     | (Inr ug, s) \<Rightarrow> finish io ug (\<lambda>u. u\<lparr>a_hash := [], a_policy := 0, a_epoch := a_epoch u + 1\<rparr>) s)"

definition set_password :: "io \<Rightarrow> bcrypt \<Rightarrow> string \<Rightarrow> string \<Rightarrow> user_store \<Rightarrow> account res \<times> user_store" where
  "set_password io b i pw s = (case require io 0 i s of (Inl e, s) \<Rightarrow> (Inl e, s)
     | (Inr ug, s) \<Rightarrow> (case hash_password b pw of Inl e \<Rightarrow> (Inl e, s)
       | Inr h \<Rightarrow> finish io ug (\<lambda>u. u\<lparr>a_hash := h, a_policy := CURRENT_PASSWORD_POLICY, a_epoch := a_epoch u + 1\<rparr>) s))"

definition set_role :: "io \<Rightarrow> string \<Rightarrow> string \<Rightarrow> user_store \<Rightarrow> account res \<times> user_store" where
  "set_role io i role s = (if role \<notin> set ROLES then (Inl ValueError, s)
     else case require io 0 i s of (Inl e, s) \<Rightarrow> (Inl e, s)
     | (Inr ug, s) \<Rightarrow> (case spare_admin io (fst ug) (role \<noteq> ''admin'') s of (Inl e, s) \<Rightarrow> (Inl e, s)
       | (Inr _, s) \<Rightarrow> finish io ug (\<lambda>u. if a_role u = role then u else u\<lparr>a_role := role, a_epoch := a_epoch u + 1\<rparr>) s))"

definition set_enabled :: "io \<Rightarrow> string \<Rightarrow> bool \<Rightarrow> user_store \<Rightarrow> account res \<times> user_store" where
  "set_enabled io i on s = (case require io 0 i s of (Inl e, s) \<Rightarrow> (Inl e, s)
     | (Inr ug, s) \<Rightarrow> (case spare_admin io (fst ug) (\<not> on) s of (Inl e, s) \<Rightarrow> (Inl e, s)
       | (Inr _, s) \<Rightarrow> finish io ug (\<lambda>u. if a_enabled u = on then u else u\<lparr>a_enabled := on, a_epoch := a_epoch u + 1\<rparr>) s))"

definition rename :: "io \<Rightarrow> string \<Rightarrow> string \<Rightarrow> user_store \<Rightarrow> account res \<times> user_store" where
  "rename io i username s = (let key = norm_username username in
     if key = [] then (Inl ValueError, s)
     else case get_by_username io key s of (Inl e, s) \<Rightarrow> (Inl e, s)
     | (Inr existing, s) \<Rightarrow>
       if (case existing of None \<Rightarrow> False | Some u \<Rightarrow> a_id u \<noteq> i) then (Inl ValueError, s)
       else case require io 1 i s of (Inl e, s) \<Rightarrow> (Inl e, s)
       | (Inr ug, s) \<Rightarrow> finish io ug
           (\<lambda>u. if a_username u = key then u else u\<lparr>a_username := key, a_epoch := a_epoch u + 1\<rparr>) s)"

definition set_email :: "io \<Rightarrow> string \<Rightarrow> string option \<Rightarrow> user_store \<Rightarrow> account res \<times> user_store" where
  "set_email io i email s = (case require io 0 i s of (Inl e, s) \<Rightarrow> (Inl e, s)
     | (Inr ug, s) \<Rightarrow>
       (case (case nonempty email of None \<Rightarrow> Inr None
          | Some e \<Rightarrow> (case normalize_email e of Inl x \<Rightarrow> Inl x | Inr n \<Rightarrow> Inr (Some n))) of
          Inl e \<Rightarrow> (Inl e, s)
        | Inr normalized \<Rightarrow> finish io ug
            (\<lambda>u. if a_email u = normalized then u else u\<lparr>a_email := normalized, a_epoch := a_epoch u + 1\<rparr>) s))"

definition delete_user :: "io \<Rightarrow> string \<Rightarrow> user_store \<Rightarrow> unit res \<times> user_store" where
  "delete_user io i s = (case require io 0 i s of (Inl e, s) \<Rightarrow> (Inl e, s)
     | (Inr (u, gen), s) \<Rightarrow> (case spare_admin io u True s of (Inl e, s) \<Rightarrow> (Inl e, s)
       | (Inr _, s) \<Rightarrow> (case cache (stat_ok io 2) io s of (Inl e, s) \<Rightarrow> (Inl e, s)
         | (Inr us, s) \<Rightarrow> if i \<notin> set (map a_id us) then (Inl KeyError, s)
             else save io (s\<lparr>us_users := Some (filter (\<lambda>u. a_id u \<noteq> i) us)\<rparr>))))"

section \<open>Signing in\<close>

definition verify :: "io \<Rightarrow> bcrypt \<Rightarrow> string \<Rightarrow> string \<Rightarrow> user_store \<Rightarrow> account option res \<times> user_store" where
  "verify io b username password s = (case get_by_username io username s of (Inl e, s) \<Rightarrow> (Inl e, s)
     | (Inr None, s) \<Rightarrow> (Inr None, s)
     | (Inr (Some u), s) \<Rightarrow>
         (Inr (if \<not> a_enabled u then None else if a_hash u = [] then None
               else if \<not> verify_password b password (a_hash u) then None else Some u), s))"

section \<open>Every call\<close>

datatype user_op = Create string rat bool string string string "string option" bool
  | Clear_Password string | Set_Password string string | Set_Role string string | Set_Enabled string bool
  | Rename string string | Set_Email string "string option" | Delete string

definition ends :: "'a res \<times> user_store \<Rightarrow> unit res \<times> user_store" where
  "ends r = (case r of (Inl e, s) \<Rightarrow> (Inl e, s) | (Inr _, s) \<Rightarrow> (Inr (), s))"

fun call :: "bcrypt \<Rightarrow> io \<times> user_op \<Rightarrow> user_store \<Rightarrow> unit res \<times> user_store" where
  "call b (io, Create i now strict name pw role email on) s = ends (create io b i now strict name pw role email on s)"
| "call b (io, Clear_Password i) s = ends (clear_password io i s)"
| "call b (io, Set_Password i pw) s = ends (set_password io b i pw s)"
| "call b (io, Set_Role i role) s = ends (set_role io i role s)"
| "call b (io, Set_Enabled i on) s = ends (set_enabled io i on s)"
| "call b (io, Rename i name) s = ends (rename io i name s)"
| "call b (io, Set_Email i email) s = ends (set_email io i email s)"
| "call b (io, Delete i) s = delete_user io i s"

definition user_step :: "bcrypt \<Rightarrow> user_store \<Rightarrow> io \<times> user_op \<Rightarrow> user_store" where
  "user_step b s e = snd (call b e s)"

section \<open>What the store promises\<close>

text \<open>The specification: accounts as a list, without file, cache or stamps. A call refuses or gives the new
  list.\<close>

definition account_of :: "string \<Rightarrow> account list \<Rightarrow> account option" where
  "account_of i us = find (\<lambda>u. a_id u = i) us"

definition edit :: "string \<Rightarrow> (account \<Rightarrow> account) \<Rightarrow> account list \<Rightarrow> account list res" where
  "edit i f us = (if account_of i us = None then Inl KeyError else Inr (map (\<lambda>u. if a_id u = i then f u else u) us))"

definition only_admin :: "string \<Rightarrow> account list \<Rightarrow> bool" where
  "only_admin i us = (case account_of i us of None \<Rightarrow> False
     | Some u \<Rightarrow> a_role u = ''admin'' \<and> a_enabled u \<and> other_admins i us = [])"

fun spec :: "bcrypt \<Rightarrow> user_op \<Rightarrow> account list \<Rightarrow> account list res" where
  "spec b (Create i now strict name pw role email on) us =
     (case (if strict then normalize_email name else Inr (norm_username name)) of Inl e \<Rightarrow> Inl e
      | Inr key \<Rightarrow> if key = [] \<or> role \<notin> set ROLES \<or> named key us \<noteq> None then Inl ValueError
        else (case (if pw = [] then Inr [] else hash_password b pw) of Inl e \<Rightarrow> Inl e
          | Inr h \<Rightarrow> Inr (us @ [\<lparr>a_id = i, a_username = key,
              a_email = Some (case nonempty email of Some e \<Rightarrow> e | None \<Rightarrow> key), a_role = role, a_hash = h,
              a_policy = (if h = [] then 0 else CURRENT_PASSWORD_POLICY), a_epoch = 0, a_enabled = on, a_created = now\<rparr>])))"
| "spec b (Clear_Password i) us = edit i (\<lambda>u. u\<lparr>a_hash := [], a_policy := 0, a_epoch := a_epoch u + 1\<rparr>) us"
| "spec b (Set_Password i pw) us = (if account_of i us = None then Inl KeyError
     else case hash_password b pw of Inl e \<Rightarrow> Inl e
     | Inr h \<Rightarrow> edit i (\<lambda>u. u\<lparr>a_hash := h, a_policy := CURRENT_PASSWORD_POLICY, a_epoch := a_epoch u + 1\<rparr>) us)"
| "spec b (Set_Role i role) us = (if role \<notin> set ROLES then Inl ValueError
     else if role \<noteq> ''admin'' \<and> only_admin i us then Inl ValueError
     else edit i (\<lambda>u. if a_role u = role then u else u\<lparr>a_role := role, a_epoch := a_epoch u + 1\<rparr>) us)"
| "spec b (Set_Enabled i on) us = (if \<not> on \<and> only_admin i us then Inl ValueError
     else edit i (\<lambda>u. if a_enabled u = on then u else u\<lparr>a_enabled := on, a_epoch := a_epoch u + 1\<rparr>) us)"
| "spec b (Rename i name) us = (let key = norm_username name in
     if key = [] then Inl ValueError
     else if (case named key us of None \<Rightarrow> False | Some u \<Rightarrow> a_id u \<noteq> i) then Inl ValueError
     else edit i (\<lambda>u. if a_username u = key then u else u\<lparr>a_username := key, a_epoch := a_epoch u + 1\<rparr>) us)"
| "spec b (Set_Email i email) us = (if account_of i us = None then Inl KeyError
     else case (case nonempty email of None \<Rightarrow> Inr None
          | Some e \<Rightarrow> (case normalize_email e of Inl x \<Rightarrow> Inl x | Inr n \<Rightarrow> Inr (Some n))) of Inl e \<Rightarrow> Inl e
     | Inr n \<Rightarrow> edit i (\<lambda>u. if a_email u = n then u else u\<lparr>a_email := n, a_epoch := a_epoch u + 1\<rparr>) us)"
| "spec b (Delete i) us = (if account_of i us = None then Inl KeyError else if only_admin i us then Inl ValueError
     else Inr (filter (\<lambda>u. a_id u \<noteq> i) us))"

text \<open>The accounts in force: the cache while the file's stamp is the one it was read or written with, and what
  the file holds otherwise. The store is legible when these can be had without the backup.\<close>

definition in_file :: "user_store \<Rightarrow> account list" where
  "in_file s = (case decode (f_doc s) of Inr us \<Rightarrow> us | Inl _ \<Rightarrow> [])"

definition in_force :: "user_store \<Rightarrow> account list" where
  "in_force s = (case us_users s of Some us \<Rightarrow> if us_stamp s = f_stamp s then us else in_file s | None \<Rightarrow> in_file s)"

definition legible :: "user_store \<Rightarrow> bool" where
  "legible s \<longleftrightarrow> us_users s \<noteq> None \<and> us_stamp s = f_stamp s \<or> (\<exists>us. decode (f_doc s) = Inr us)
     \<or> f_doc s = No_File \<and> f_bak s = No_File"

definition same_file :: "user_store \<Rightarrow> user_store \<Rightarrow> bool" where
  "same_file s t \<longleftrightarrow> f_doc s = f_doc t \<and> f_bak s = f_bak t \<and> f_stamp s = f_stamp t"

definition warm :: "user_store \<Rightarrow> account list \<Rightarrow> bool" where
  "warm s us \<longleftrightarrow> us_users s = Some us \<and> us_stamp s = f_stamp s"

lemma warm_in_force: "warm s us \<Longrightarrow> in_force s = us \<and> legible s"
  by (simp add: warm_def in_force_def legible_def)

lemma same_file_refl [simp]: "same_file s s"
  by (simp add: same_file_def)

lemma cache_blind [simp]: "cache False io s = (Inl RuntimeError, s)"
  by (simp add: cache_def)

lemma cache_warm: "warm s us \<Longrightarrow> cache ok io s = (if ok then Inr us else Inl RuntimeError, s)"
  by (simp add: cache_def warm_def)

text \<open>The state after one look that could inspect the file.\<close>

lemma look_legible:
  assumes "legible s"
  obtains t where "\<And>io. cache True io s = (Inr (in_force s), t)" "warm t (in_force s)" "same_file t s"
proof (cases "us_users s \<noteq> None \<and> us_stamp s = f_stamp s")
  case True
  then have "warm s (in_force s)"
    by (auto simp: warm_def in_force_def)
  with that [of s] show thesis
    by (simp add: cache_warm)
next
  case False
  have f: "in_force s = in_file s"
    using False by (auto simp: in_force_def split: option.split)
  have l: "load io s = (Inr (in_file s), s)" for io
  proof (cases "f_doc s = No_File")
    case True
    then have "decode (f_doc s) = Inl RuntimeError" by (simp add: decode_def)
    then show ?thesis
      using assms False True by (auto simp: legible_def load_def restore_from_bak_def in_file_def)
  next
    case nf: False
    then obtain us where "decode (f_doc s) = Inr us"
      using assms False by (auto simp: legible_def)
    then show ?thesis
      using nf by (cases "f_doc s") (simp_all add: load_def in_file_def)
  qed
  let ?t = "s\<lparr>us_users := Some (in_file s), us_gen := us_gen s + 1, us_stamp := f_stamp s\<rparr>"
  have "cache True io s = (Inr (in_force s), ?t)" for io
    using False by (auto simp: cache_def l f Let_def split: option.split)
  with that [of ?t] show thesis
    by (simp add: warm_def f same_file_def)
qed

text \<open>What a call leaves that gets as far as saving the list \<open>us'\<close>: where the save cannot inspect the file, or the
  write fails, the cache has the list and the file has not; where the write fails late, both have it.\<close>

definition saved :: "io \<Rightarrow> account list \<Rightarrow> user_store \<Rightarrow> 'a res \<times> user_store \<Rightarrow> bool" where
  "saved io us' s r \<longleftrightarrow> us_users (snd r) = Some us' \<and>
     (if \<not> save_stat_ok io then fst r = Inl RuntimeError \<and> same_file (snd r) s \<and> us_stamp (snd r) = f_stamp s
      else case saving io of
        Written \<Rightarrow> returns (fst r) \<and> f_doc (snd r) = dump us' \<and> us_stamp (snd r) = f_stamp (snd r)
      | Not_Written e \<Rightarrow> fst r = Inl e \<and> f_doc (snd r) = f_doc s \<and> us_stamp (snd r) = f_stamp (snd r)
      | Written_Late e \<Rightarrow> fst r = Inl e \<and> f_doc (snd r) = dump us')"

lemma backed_up_fields [simp]:
  "f_doc (backed_up io s) = f_doc s" "us_users (backed_up io s) = us_users s" "us_gen (backed_up io s) = us_gen s"
  "us_stamp (backed_up io s) = us_stamp s" "f_stamp (backed_up io s) = f_stamp s"
  by (simp_all add: backed_up_def)

lemma save_warm: "warm s us \<Longrightarrow> saved io us s (save io s)"
  by (cases "saving io") (simp_all add: saved_def save_def cache_warm warm_def Let_def same_file_def)

lemma saved_same_file: "saved io us' t r \<Longrightarrow> same_file t s \<Longrightarrow> saved io us' s r"
  by (auto simp: saved_def same_file_def split: write_end.splits if_splits)

lemma saved_result:
  "saved io us' s (x, t) \<Longrightarrow> saved io us' s (case x of Inl e \<Rightarrow> Inl e | Inr _ \<Rightarrow> Inr y, t)"
  by (cases x) (auto simp: saved_def returns_def split: write_end.splits if_splits)

lemma finish_warm:
  assumes w: "warm s us"
  shows "saved io (map (\<lambda>x. if a_id x = a_id u then f x else x) us) s (finish io (u, us_gen s) f s)"
proof -
  let ?s = "touch (us_gen s) (a_id u) f s"
  have t: "warm ?s (map (\<lambda>x. if a_id x = a_id u then f x else x) us)" "same_file ?s s"
    using w by (simp_all add: warm_def touch_def same_file_def)
  have "finish io (u, us_gen s) f s = (case fst (save io ?s) of Inl e \<Rightarrow> Inl e | Inr _ \<Rightarrow> Inr (f u), snd (save io ?s))"
    by (simp add: finish_def split: prod.split sum.split)
  moreover have "saved io (map (\<lambda>x. if a_id x = a_id u then f x else x) us) s (fst (save io ?s), snd (save io ?s))"
    using saved_same_file [OF save_warm [OF t(1)] t(2)] by simp
  ultimately show ?thesis
    by (simp add: saved_result)
qed

lemma require_warm:
  "warm s us \<Longrightarrow> require io k i s = (if \<not> stat_ok io k then (Inl RuntimeError, s)
     else case account_of i us of None \<Rightarrow> (Inl KeyError, s) | Some u \<Rightarrow> (Inr (u, us_gen s), s))"
  by (simp add: require_def cache_warm account_of_def)

lemma account_of_id: "account_of i us = Some u \<Longrightarrow> a_id u = i \<and> u \<in> set us"
  by (auto simp: account_of_def find_Some_iff)

lemma spare_admin_warm:
  assumes "warm s us" and u: "account_of i us = Some u"
  shows "spare_admin io u leaves s = (if leaves \<and> a_role u = ''admin'' \<and> a_enabled u \<and> \<not> stat_ok io 1 then Inl RuntimeError
    else if leaves \<and> only_admin i us then Inl ValueError else Inr (), s)"
  using assms account_of_id [OF u] by (simp add: spare_admin_def cache_warm only_admin_def)

lemma saved_ends: "saved io us' s r \<Longrightarrow> saved io us' s (ends r)"
  by (cases r; cases "fst r") (auto simp: saved_def ends_def returns_def split: write_end.splits if_splits)

lemma ends_Inl [simp]: "ends (Inl e, s) = (Inl e, s)"
  by (simp add: ends_def)

lemma get_by_username_warm:
  "warm s us \<Longrightarrow> get_by_username io name s = (if stat_ok io 0 then Inr (named name us) else Inl RuntimeError, s)"
  by (simp add: get_by_username_def cache_warm)

lemmas warm_ops = cache_warm require_warm get_by_username_warm

text \<open>A call on the list \<open>us\<close> that the specification answers with \<open>sp\<close>: a look before the change may have failed;
  else it refuses as the specification does, with nothing changed, or gets as far as saving.\<close>

definition meets :: "io \<Rightarrow> account list res \<Rightarrow> user_store \<Rightarrow> 'a res \<times> user_store \<Rightarrow> bool" where
  "meets io sp s r \<longleftrightarrow> (\<exists>k. \<not> stat_ok io k) \<and> r = (Inl RuntimeError, s)
     \<or> (case sp of Inl e \<Rightarrow> r = (Inl e, s) | Inr us' \<Rightarrow> saved io us' s r)"

lemma meets_ends: "meets io sp s r \<Longrightarrow> meets io sp s (ends r)"
  by (auto simp: meets_def saved_ends split: sum.splits)

lemma meets_Inl [simp]: "meets io (Inl e) s (Inl e, s)"
  by (simp add: meets_def)

lemma meets_blind [simp]:
  "\<not> stat_ok io 0 \<Longrightarrow> meets io sp s (Inl RuntimeError, s)"
  "\<not> stat_ok io 1 \<Longrightarrow> meets io sp s (Inl RuntimeError, s)"
  "\<not> stat_ok io (Suc 0) \<Longrightarrow> meets io sp s (Inl RuntimeError, s)"
  by (auto simp: meets_def)

lemma meets_finish:
  assumes "warm s us" and u: "account_of i us = Some u"
  shows "meets io (edit i f us) s (finish io (u, us_gen s) f s)"
  using finish_warm [OF assms(1), of io u f] account_of_id [OF u] u by (simp add: meets_def edit_def)

lemma edit_unknown: "account_of i us = None \<Longrightarrow> edit i f us = Inl KeyError"
  by (simp add: edit_def)

lemma only_admin_unknown: "account_of i us = None \<Longrightarrow> \<not> only_admin i us"
  by (simp add: only_admin_def)

lemma find_admin: "account_of i us = Some u \<Longrightarrow> only_admin i us \<Longrightarrow> a_role u = ''admin'' \<and> a_enabled u"
  by (simp add: only_admin_def)

lemma save_changed:
  assumes w: "warm s us"
  shows "saved io us' s (save io (s\<lparr>us_users := Some us'\<rparr>))"
proof -
  have "warm (s\<lparr>us_users := Some us'\<rparr>) us'" "same_file (s\<lparr>us_users := Some us'\<rparr>) s"
    using w by (simp_all add: warm_def same_file_def)
  then show ?thesis
    using save_warm saved_same_file by blast
qed

lemma create_meets:
  assumes w: "warm s us"
  shows "meets io (spec b (Create i now strict name pw role email on) us) s
    (create io b i now strict name pw role email on s)"
proof -
  have app: "saved io (us @ [u]) s (case save io (s\<lparr>us_users := Some (us @ [u])\<rparr>) of
      (Inl e, s) \<Rightarrow> (Inl e, s) | (Inr _, s) \<Rightarrow> (Inr u, s))" for u
  proof -
    let ?r = "save io (s\<lparr>us_users := Some (us @ [u])\<rparr>)"
    have "(case ?r of (Inl e, s) \<Rightarrow> (Inl e, s) | (Inr _, s) \<Rightarrow> (Inr u, s))
        = (case fst ?r of Inl e \<Rightarrow> Inl e | Inr _ \<Rightarrow> Inr u, snd ?r)"
      by (simp split: prod.split sum.split)
    moreover have "saved io (us @ [u]) s (fst ?r, snd ?r)"
      using save_changed [OF w] by simp
    ultimately show ?thesis
      by (simp add: saved_result)
  qed
  show ?thesis
    using app by (auto simp: create_def warm_ops [OF w] meets_def Let_def split: sum.split option.split)
qed

lemma delete_meets:
  assumes w: "warm s us"
  shows "meets io (spec b (Delete i) us) s (delete_user io i s)"
proof (cases "account_of i us")
  case (Some u)
  then show ?thesis
    using save_changed [OF w, of io "filter (\<lambda>u. a_id u \<noteq> i) us"] account_of_id [OF Some]
    by (auto simp: delete_user_def warm_ops [OF w] spare_admin_warm [OF w Some] meets_def image_iff)
qed (auto simp: delete_user_def warm_ops [OF w] meets_def)

lemma call_meets:
  assumes w: "warm s us"
  shows "meets io (spec b op us) s (call b (io, op) s)"
proof (cases op)
  case (Create i now strict name pw role email on)
  then show ?thesis
    using create_meets [OF w] by (simp only: call.simps meets_ends)
next
  case (Delete i)
  then show ?thesis
    using delete_meets [OF w] by (simp only: call.simps)
next
  case (Clear_Password i)
  then show ?thesis
    by (cases "account_of i us")
      (simp_all add: clear_password_def warm_ops [OF w] edit_unknown meets_ends meets_finish [OF w])
next
  case (Set_Password i pw)
  then show ?thesis
    by (cases "account_of i us"; cases "hash_password b pw")
      (simp_all add: set_password_def warm_ops [OF w] edit_unknown meets_ends meets_finish [OF w])
next
  case (Set_Role i role)
  then show ?thesis
    by (cases "account_of i us")
      (simp_all add: set_role_def require_warm [OF w] spare_admin_warm [OF w] edit_unknown
        only_admin_unknown meets_ends meets_finish [OF w])
next
  case (Set_Enabled i on)
  then show ?thesis
    by (cases "account_of i us")
      (simp_all add: set_enabled_def require_warm [OF w] spare_admin_warm [OF w] edit_unknown
        only_admin_unknown meets_ends meets_finish [OF w])
next
  case (Rename i name)
  then show ?thesis
    by (cases "account_of i us"; cases "named (norm_username name) us")
      (simp_all add: rename_def require_warm [OF w] get_by_username_warm [OF w] edit_unknown Let_def
        meets_ends meets_finish [OF w])
next
  case (Set_Email i email)
  then show ?thesis
    by (cases "account_of i us"; cases "nonempty email"; cases "normalize_email (the (nonempty email))")
      (simp_all add: set_email_def warm_ops [OF w] edit_unknown meets_ends meets_finish [OF w])
qed

text \<open>A call on a cache that has to be read again is the call on the cache it reads, unless it ends before.\<close>

lemma call_refreshed:
  assumes "\<And>io. cache True io s = cache True io t"
  shows "call b (io, op) s = call b (io, op) t \<or> (\<not> stat_ok io 0 \<and> call b (io, op) s = (Inl RuntimeError, s)) \<or>
    (\<exists>e. call b (io, op) s = (Inl e, s) \<and> (\<forall>us. spec b op us = Inl e))"
proof (cases "stat_ok io 0")
  case True
  then have "require io 0 i s = require io 0 i t" "get_by_username io name s = get_by_username io name t" for i name
    by (simp_all add: require_def get_by_username_def assms)
  then show ?thesis
    by (cases op) (auto simp: create_def clear_password_def set_password_def set_role_def set_enabled_def rename_def
        set_email_def delete_user_def Let_def split: sum.split)
next
  case False
  then have "require io 0 i s = (Inl RuntimeError, s)" "get_by_username io name s = (Inl RuntimeError, s)" for i name s
    by (simp_all add: require_def get_by_username_def)
  then show ?thesis
    using False
    by (cases op) (auto simp: create_def clear_password_def set_password_def set_role_def set_enabled_def rename_def
        set_email_def delete_user_def Let_def split: sum.split)
qed

text \<open>A legible store: the call is the specification's on the accounts in force.\<close>

definition unmoved :: "user_store \<Rightarrow> user_store \<Rightarrow> bool" where
  "unmoved s s' \<longleftrightarrow> same_file s' s \<and> in_force s' = in_force s \<and> legible s' \<and> us_users s' \<in> {us_users s, Some (in_force s)}"

definition call_outcome :: "io \<Rightarrow> account list res \<Rightarrow> user_store \<Rightarrow> unit res \<times> user_store \<Rightarrow> bool" where
  "call_outcome io sp s r \<longleftrightarrow> (\<exists>k. \<not> stat_ok io k) \<and> fst r = Inl RuntimeError \<and> unmoved s (snd r)
     \<or> (case sp of Inl e \<Rightarrow> fst r = Inl e \<and> unmoved s (snd r) | Inr us' \<Rightarrow> saved io us' s r)"

lemma call_legible:
  assumes "legible s"
  shows "call_outcome io (spec b op (in_force s)) s (call b (io, op) s)"
proof -
  obtain t where t: "\<And>io. cache True io s = (Inr (in_force s), t)" "warm t (in_force s)" "same_file t s"
    by (rule look_legible [OF assms]) blast
  have tt: "unmoved s t"
    using t(2,3) warm_in_force [OF t(2)] by (simp add: unmoved_def warm_def)
  have ss: "unmoved s s"
    using assms by (simp add: unmoved_def)
  have "cache True io s = cache True io t" for io
    using t(1) cache_warm [OF t(2)] by simp
  from call_refreshed [OF this, of b io op] show ?thesis
  proof (elim disjE exE conjE)
    assume same: "call b (io, op) s = call b (io, op) t"
    have "saved io us' s (call b (io, op) t)" if "saved io us' t (call b (io, op) t)" for us'
      using that t(3) by (rule saved_same_file)
    then show ?thesis
      unfolding same using call_meets [OF t(2), of io b op] tt
      by (auto simp: meets_def call_outcome_def split: sum.splits)
  qed (use ss in \<open>auto simp: call_outcome_def\<close>)
qed

section \<open>Well-formed account lists\<close>

definition accounts_ok :: "account list \<Rightarrow> bool" where
  "accounts_ok us \<longleftrightarrow> distinct (map a_id us) \<and> distinct (map a_username us) \<and>
     (\<forall>u \<in> set us. a_username u \<noteq> [] \<and> norm_username (a_username u) = a_username u \<and> a_role u \<in> set ROLES)"

definition has_admin :: "account list \<Rightarrow> bool" where
  "has_admin us \<longleftrightarrow> (\<exists>u \<in> set us. a_role u = ''admin'' \<and> a_enabled u)"

lemma lower_char_space [simp]: "is_space (lower_char c) = is_space c"
proof (cases "65 \<le> (of_char c :: nat) \<and> (of_char c :: nat) \<le> 90")
  case True
  then have "\<not> is_space c" by (auto simp: is_space_def)
  moreover have "\<not> is_space (lower_char c)"
  proof
    assume "is_space (lower_char c)"
    then have "(of_char (lower_char c) :: nat) < 33" by (auto simp: is_space_def)
    moreover have "(of_char (lower_char c) :: nat) = of_char c + 32"
      using True by (simp add: lower_char_def of_char_of)
    ultimately show False using True by simp
  qed
  ultimately show ?thesis by simp
next
  case False
  then have "lower_char c = c" unfolding lower_char_def Let_def by meson
  then show ?thesis by simp
qed

lemma lower_char_idem [simp]: "lower_char (lower_char c) = lower_char c"
proof (cases "65 \<le> (of_char c :: nat) \<and> (of_char c :: nat) \<le> 90")
  case True
  then have "(of_char (lower_char c) :: nat) = of_char c + 32"
    by (simp add: lower_char_def of_char_of)
  then show ?thesis using True by (simp add: lower_char_def [of "lower_char c"])
next
  case False
  then have "lower_char c = c" unfolding lower_char_def Let_def by meson
  then show ?thesis by simp
qed

lemma strip_lower [simp]: "py_strip (py_lower s) = py_lower (py_strip s)"
  by (simp add: py_strip_def py_lower_def dropWhile_map rev_map comp_def)

lemma py_lower_idem [simp]: "py_lower (py_lower s) = py_lower s"
  by (simp add: py_lower_def comp_def)

lemma norm_username_idem [simp]: "norm_username (norm_username s) = norm_username s"
  by (simp add: norm_username_def)

lemma normalize_email_Inr: "normalize_email e = Inr k \<Longrightarrow> k \<noteq> [] \<and> norm_username k = k"
  by (auto simp: normalize_email_def norm_username_def Let_def split: if_splits)

lemma named_None: "named name us = None \<Longrightarrow> norm_username name \<notin> set (map a_username us)"
  by (auto simp: named_def find_None_iff)

lemma accounts_ok_append:
  assumes "accounts_ok us" and "a_id u \<notin> set (map a_id us)" and "a_username u \<notin> set (map a_username us)"
    and "a_username u \<noteq> []" "norm_username (a_username u) = a_username u" "a_role u \<in> set ROLES"
  shows "accounts_ok (us @ [u])"
  using assms by (auto simp: accounts_ok_def)

text \<open>Changing one account keeps the list in order when the identifier stays and the new record is fit to
  stand in it.\<close>

lemma accounts_ok_map:
  assumes ok: "accounts_ok us"
    and f: "\<And>u. u \<in> set us \<Longrightarrow> a_id u = i \<Longrightarrow> a_id (f u) = i \<and> a_username (f u) \<noteq> [] \<and>
      norm_username (a_username (f u)) = a_username (f u) \<and> a_role (f u) \<in> set ROLES \<and>
      (\<forall>v \<in> set us. a_username v = a_username (f u) \<longrightarrow> a_id v = i)"
  shows "accounts_ok (map (\<lambda>u. if a_id u = i then f u else u) us)"
proof -
  let ?g = "\<lambda>u. if a_id u = i then f u else u"
  have "map a_id (map ?g us) = map a_id us" using f by (auto simp: comp_def)
  moreover have "distinct (map a_username (map ?g us))"
  proof -
    have "inj_on (a_username \<circ> ?g) (set us)"
    proof (rule inj_onI)
      fix u v assume u: "u \<in> set us" and v: "v \<in> set us" and e: "(a_username \<circ> ?g) u = (a_username \<circ> ?g) v"
      have iu: "a_id u = a_id v \<Longrightarrow> u = v" using ok u v by (auto simp: accounts_ok_def distinct_map inj_on_def)
      have nu: "a_username u = a_username v \<Longrightarrow> u = v" using ok u v by (auto simp: accounts_ok_def distinct_map inj_on_def)
      consider "a_id u = i" "a_id v = i" | "a_id u = i" "a_id v \<noteq> i" | "a_id u \<noteq> i" "a_id v = i"
        | "a_id u \<noteq> i" "a_id v \<noteq> i" by blast
      then show "u = v"
      proof cases
        case 2
        then have "a_username v = a_username (f u)" using e by simp
        then show ?thesis using f [OF u 2(1)] v 2 by blast
      next
        case 3
        then have "a_username u = a_username (f v)" using e by simp
        then show ?thesis using f [OF v 3(2)] u 3 by blast
      qed (use iu nu e in simp_all)
    qed
    then show ?thesis using ok by (simp add: accounts_ok_def distinct_map)
  qed
  moreover have "\<forall>u \<in> set (map ?g us). a_username u \<noteq> [] \<and> norm_username (a_username u) = a_username u \<and> a_role u \<in> set ROLES"
    using ok f by (auto simp: accounts_ok_def)
  moreover have "distinct (map a_id us)" using ok by (simp add: accounts_ok_def)
  ultimately show ?thesis by (simp only: accounts_ok_def simp_thms)
qed

definition fresh_id :: "account list \<Rightarrow> user_op \<Rightarrow> bool" where
  "fresh_id us op = (case op of Create i _ _ _ _ _ _ _ \<Rightarrow> i \<notin> set (map a_id us) | _ \<Rightarrow> True)"

lemma edit_ok:
  assumes ok: "accounts_ok us" and e: "edit i f us = Inr us'"
    and f: "\<And>u. a_id (f u) = a_id u" "\<And>u. a_username (f u) = a_username u"
      "\<And>u. a_role u \<in> set ROLES \<Longrightarrow> a_role (f u) \<in> set ROLES"
  shows "accounts_ok us'"
proof -
  have us': "us' = map (\<lambda>u. if a_id u = i then f u else u) us" using e by (simp add: edit_def split: if_splits)
  show ?thesis unfolding us'
    using ok f by (intro accounts_ok_map) (auto simp: accounts_ok_def distinct_map inj_on_def)
qed

lemma spec_ok:
  assumes ok: "accounts_ok us" and new: "fresh_id us op" and sp: "spec b op us = Inr us'"
  shows "accounts_ok us'"
proof (cases op)
  case (Create i now strict name pw role email on)
  let ?key = "if strict then normalize_email name else Inr (norm_username name)"
  obtain key where key: "?key = Inr key" using sp Create by (cases ?key) simp_all
  then have k: "key \<noteq> [] \<longrightarrow> norm_username key = key"
    using normalize_email_Inr [of name key] by (auto split: if_splits)
  from sp Create key have g: "key \<noteq> []" "role \<in> set ROLES" "named key us = None" by (auto split: if_splits)
  with sp Create key obtain u where us': "us' = us @ [u]" "a_id u = i" "a_username u = key" "a_role u = role"
    by (fastforce split: if_splits sum.splits)
  show ?thesis unfolding us'(1)
    using ok new g k named_None [OF g(3)] us' Create by (intro accounts_ok_append) (simp_all add: fresh_id_def)
next
  case (Rename i name)
  let ?key = "norm_username name"
  let ?f = "\<lambda>u. if a_username u = ?key then u else u\<lparr>a_username := ?key, a_epoch := a_epoch u + 1\<rparr>"
  have k: "?key \<noteq> []" and free: "\<not> (case named ?key us of None \<Rightarrow> False | Some u \<Rightarrow> a_id u \<noteq> i)"
    and us': "us' = map (\<lambda>u. if a_id u = i then ?f u else u) us"
    using sp Rename by (auto simp: Let_def edit_def split: if_splits)
  have "a_id v = i" if v: "v \<in> set us" "a_username v = ?key" for v
  proof (cases "named ?key us")
    case None
    have "a_username v \<in> set (map a_username us)" using v(1) by simp
    then show ?thesis using named_None [OF None] v(2) by simp
  next
    case (Some w)
    then have w: "w \<in> set us" "a_username w = ?key" by (auto simp: named_def find_Some_iff)
    then have "v = w" using v ok by (auto simp: accounts_ok_def distinct_map inj_on_def)
    then show ?thesis using free Some by simp
  qed
  then show ?thesis unfolding us'
    using ok k by (intro accounts_ok_map) (auto simp: accounts_ok_def)
next
  case (Delete i)
  then show ?thesis
    using ok sp by (auto simp: accounts_ok_def distinct_map_filter split: if_splits)
next
  case (Clear_Password i)
  show ?thesis by (rule edit_ok [OF ok sp [unfolded Clear_Password spec.simps]]) simp_all
next
  case (Set_Password i pw)
  obtain h where "edit i (\<lambda>u. u\<lparr>a_hash := h, a_policy := CURRENT_PASSWORD_POLICY, a_epoch := a_epoch u + 1\<rparr>) us = Inr us'"
    using sp Set_Password by (auto split: if_splits sum.splits)
  from edit_ok [OF ok this] show ?thesis by simp
next
  case (Set_Role i role)
  have r: "role \<in> set ROLES" and e: "edit i (\<lambda>u. if a_role u = role then u else u\<lparr>a_role := role, a_epoch := a_epoch u + 1\<rparr>) us = Inr us'"
    using sp Set_Role by (auto split: if_splits)
  show ?thesis by (rule edit_ok [OF ok e]) (simp_all add: r)
next
  case (Set_Enabled i on)
  have e: "edit i (\<lambda>u. if a_enabled u = on then u else u\<lparr>a_enabled := on, a_epoch := a_epoch u + 1\<rparr>) us = Inr us'"
    using sp Set_Enabled by (auto split: if_splits)
  show ?thesis by (rule edit_ok [OF ok e]) simp_all
next
  case (Set_Email i email)
  obtain n where "edit i (\<lambda>u. if a_email u = n then u else u\<lparr>a_email := n, a_epoch := a_epoch u + 1\<rparr>) us = Inr us'"
    using sp Set_Email by (auto split: if_splits sum.splits)
  from edit_ok [OF ok this] show ?thesis by simp
qed

section \<open>The list survives\<close>

lemma edit_Inr: "edit i f us = Inr us' \<Longrightarrow> us' = map (\<lambda>u. if a_id u = i then f u else u) us"
  by (simp add: edit_def split: if_splits)

lemma other_admin: "\<not> only_admin i us \<Longrightarrow> account_of i us = Some u \<Longrightarrow> a_role u = ''admin'' \<Longrightarrow> a_enabled u \<Longrightarrow>
    \<exists>v \<in> set us. a_role v = ''admin'' \<and> a_enabled v \<and> a_id v \<noteq> i"
  by (auto simp: only_admin_def other_admins_def filter_empty_conv)

lemma account_of_in: "accounts_ok us \<Longrightarrow> u \<in> set us \<Longrightarrow> account_of (a_id u) us = Some u"
proof -
  assume ok: "accounts_ok us" and u: "u \<in> set us"
  obtain v where v: "account_of (a_id u) us = Some v"
    using u by (cases "account_of (a_id u) us") (auto simp: account_of_def find_None_iff)
  then have "v \<in> set us" "a_id v = a_id u" using account_of_id by blast+
  then show ?thesis using v ok u by (auto simp: accounts_ok_def distinct_map inj_on_def)
qed

text \<open>An administrator who is not the one a call takes away, or who is changed in neither role nor state,
  stays.\<close>

lemma has_admin_map:
  assumes "has_admin us" and "\<And>u. u \<in> set us \<Longrightarrow> a_role u = ''admin'' \<Longrightarrow> a_enabled u \<Longrightarrow>
    (\<exists>v \<in> set us. a_role (g v) = ''admin'' \<and> a_enabled (g v))"
  shows "has_admin (map g us)"
  using assms by (auto simp: has_admin_def)

lemma has_admin_edit:
  assumes ok: "accounts_ok us" and a: "has_admin us" and e: "edit i f us = Inr us'"
    and f: "\<And>u. (a_role (f u) = a_role u \<or> a_role (f u) = ''admin'') \<and> (a_enabled u \<longrightarrow> a_enabled (f u)) \<or> \<not> only_admin i us"
  shows "has_admin us'"
  unfolding edit_Inr [OF e]
proof (rule has_admin_map [OF a])
  fix u assume u: "u \<in> set us" "a_role u = ''admin''" "a_enabled u"
  show "\<exists>v \<in> set us. a_role (if a_id v = i then f v else v) = ''admin'' \<and> a_enabled (if a_id v = i then f v else v)"
  proof (cases "a_id u = i \<and> \<not> only_admin i us")
    case True
    then show ?thesis using other_admin [of i us u] account_of_in [OF ok u(1)] u by (auto 4 3)
  next
    case False
    then show ?thesis using u f [of u] by (intro bexI [OF _ u(1)]) auto
  qed
qed

lemma spec_admin:
  assumes ok: "accounts_ok us" and a: "has_admin us" and sp: "spec b op us = Inr us'"
  shows "has_admin us'"
proof (cases op)
  case (Create i now strict name pw role email on)
  then obtain u where "us' = us @ [u]" using sp by (auto split: if_splits sum.splits)
  then show ?thesis using a by (auto simp: has_admin_def)
next
  case (Delete i)
  then have us': "us' = filter (\<lambda>u. a_id u \<noteq> i) us" and n: "\<not> only_admin i us" using sp by (auto split: if_splits)
  from a obtain u where u: "u \<in> set us" "a_role u = ''admin''" "a_enabled u" by (auto simp: has_admin_def)
  show ?thesis
  proof (cases "a_id u = i")
    case True
    then show ?thesis using other_admin [OF n] account_of_in [OF ok u(1)] u us' by (auto simp: has_admin_def)
  qed (use u us' in \<open>auto simp: has_admin_def\<close>)
next
  case (Clear_Password i)
  show ?thesis by (rule has_admin_edit [OF ok a sp [unfolded Clear_Password spec.simps]]) simp
next
  case (Set_Password i pw)
  obtain h where "edit i (\<lambda>u. u\<lparr>a_hash := h, a_policy := CURRENT_PASSWORD_POLICY, a_epoch := a_epoch u + 1\<rparr>) us = Inr us'"
    using sp Set_Password by (auto split: if_splits sum.splits)
  from has_admin_edit [OF ok a this] show ?thesis by simp
next
  case (Set_Role i role)
  have n: "role = ''admin'' \<or> \<not> only_admin i us"
    and e: "edit i (\<lambda>u. if a_role u = role then u else u\<lparr>a_role := role, a_epoch := a_epoch u + 1\<rparr>) us = Inr us'"
    using sp Set_Role by (auto split: if_splits)
  show ?thesis by (rule has_admin_edit [OF ok a e]) (use n in auto)
next
  case (Set_Enabled i on)
  have n: "on \<or> \<not> only_admin i us"
    and e: "edit i (\<lambda>u. if a_enabled u = on then u else u\<lparr>a_enabled := on, a_epoch := a_epoch u + 1\<rparr>) us = Inr us'"
    using sp Set_Enabled by (auto split: if_splits)
  show ?thesis by (rule has_admin_edit [OF ok a e]) (use n in auto)
next
  case (Rename i name)
  have e: "edit i (\<lambda>u. if a_username u = norm_username name then u
      else u\<lparr>a_username := norm_username name, a_epoch := a_epoch u + 1\<rparr>) us = Inr us'"
    using sp Rename by (auto simp: Let_def split: if_splits)
  show ?thesis by (rule has_admin_edit [OF ok a e]) simp
next
  case (Set_Email i email)
  obtain n where "edit i (\<lambda>u. if a_email u = n then u else u\<lparr>a_email := n, a_epoch := a_epoch u + 1\<rparr>) us = Inr us'"
    using sp Set_Email by (auto split: if_splits sum.splits)
  from has_admin_edit [OF ok a this] show ?thesis by simp
qed

text \<open>What is written can be read.\<close>

lemma decode_records_ok:
  "accounts_ok (us @ vs) \<Longrightarrow> decode_records us (a_username ` set us) (map Some vs) = Inr (us @ vs)"
proof (induction vs arbitrary: us)
  case (Cons v vs)
  have ok: "accounts_ok ((us @ [v]) @ vs)" using Cons.prems by simp
  have v: "a_id v \<notin> set (map a_id us)" "a_username v \<notin> a_username ` set us" "a_username v \<noteq> []"
      "norm_username (a_username v) = a_username v" "a_role v \<in> set ROLES"
    using Cons.prems by (auto simp: accounts_ok_def)
  show ?case using Cons.IH [OF ok] v by (simp add: Let_def)
qed simp

lemma decode_ok: "accounts_ok vs \<Longrightarrow> decode (Records (map Some vs)) = Inr vs"
  using decode_records_ok [of "[]" vs] by (simp add: decode_def)

lemma distinct_map_sort: "distinct (map f (sort_key k us)) = distinct (map f us)"
  by (simp add: distinct_map)

lemma accounts_ok_sort [simp]: "accounts_ok (sort_key k us) = accounts_ok us"
  by (simp add: accounts_ok_def distinct_map_sort)

lemma has_admin_sort [simp]: "has_admin (sort_key k us) = has_admin us"
  by (simp add: has_admin_def)

definition accounts :: "user_store \<Rightarrow> account list" where
  "accounts s = (case us_users s of None \<Rightarrow> [] | Some us \<Rightarrow> us)"

lemma warm_accounts: "warm s us \<Longrightarrow> accounts s = us"
  by (simp add: warm_def accounts_def)

definition guarded :: "account list \<Rightarrow> bool" where
  "guarded us \<longleftrightarrow> accounts_ok us \<and> has_admin us"

text \<open>The accounts kept in memory and those in the file, which may differ after a write that failed.\<close>

definition store_ok :: "user_store \<Rightarrow> bool" where
  "store_ok s \<longleftrightarrow> (\<exists>us. us_users s = Some us \<and> guarded us) \<and> (\<exists>vs. f_doc s = Records (map Some vs) \<and> guarded vs)"

fun brings_new :: "user_store \<Rightarrow> io \<times> user_op \<Rightarrow> bool" where
  "brings_new s (io, op) = fresh_id (in_force s) op"

lemma store_okD: "store_ok s \<Longrightarrow> legible s \<and> guarded (in_force s) \<and> guarded (accounts s)"
  by (auto simp: store_ok_def legible_def in_force_def in_file_def accounts_def guarded_def decode_ok split: option.split)

lemma dump_guarded: "guarded us \<Longrightarrow> \<exists>vs. dump us = Records (map Some vs) \<and> guarded vs"
  by (auto simp: dump_def guarded_def)

lemma unmoved_ok: "unmoved s t \<Longrightarrow> store_ok s \<Longrightarrow> store_ok t"
  using store_okD [of s] by (auto simp: store_ok_def unmoved_def same_file_def)

lemma saved_ok: "saved io us' s r \<Longrightarrow> guarded us' \<Longrightarrow> store_ok s \<Longrightarrow> store_ok (snd r)"
  using dump_guarded [of us'] by (auto simp: saved_def store_ok_def same_file_def split: write_end.splits if_splits)

lemma outcome_ok:
  assumes ok: "store_ok s" and new: "fresh_id (in_force s) op" and r: "call_outcome io (spec b op (in_force s)) s r"
  shows "store_ok (snd r)"
proof -
  note g = store_okD [OF ok]
  from r consider "unmoved s (snd r)" | us' where "spec b op (in_force s) = Inr us'" "saved io us' s r"
    by (auto simp: call_outcome_def split: sum.splits)
  then show ?thesis
  proof cases
    case 1
    then show ?thesis using ok by (rule unmoved_ok)
  next
    case (2 us')
    have "guarded us'"
      using spec_ok [OF _ new 2(1)] spec_admin [OF _ _ 2(1)] g by (simp add: guarded_def)
    then show ?thesis using saved_ok [OF 2(2) _ ok] by blast
  qed
qed

lemma store_ok_step: "store_ok s \<Longrightarrow> brings_new s e \<Longrightarrow> store_ok (user_step b s e)"
  using outcome_ok [OF _ _ call_legible] store_okD [of s] by (cases e) (auto simp: user_step_def)

interpretation usr: lawful "user_step b" store_ok brings_new
  for b
  by unfold_locales (rule store_ok_step)

text \<open>C34. The store implements the account list. Wherever its accounts in force (the cache while the file's stamp
  is its own, else the file) can be had without the backup, a call does to them what the specification does to
  a list. It refuses exactly as the specification does, with file and accounts in force as they were; or
  fails so at a look at the file before the change; or it takes the accounts to the list the specification
  gives: the call returns, and cache and file both hold that list, just where the save can inspect and write
  the file. Where it cannot, the call raises, and the cache has the new list and the file is as it was; and
  where the write fails only after the new file is in place, the call raises and both have it.\<close>

theorem store_refines_the_list:
  assumes "legible s"
  shows "let r = call b (io, op) s; s' = snd r in
    (\<exists>k. \<not> stat_ok io k) \<and> fst r = Inl RuntimeError \<and> same_file s' s \<and> legible s' \<and> in_force s' = in_force s \<or>
    (case spec b op (in_force s) of
       Inl e \<Rightarrow> fst r = Inl e \<and> same_file s' s \<and> legible s' \<and> in_force s' = in_force s
     | Inr us' \<Rightarrow> us_users s' = Some us' \<and>
         (if \<not> save_stat_ok io then fst r = Inl RuntimeError \<and> same_file s' s \<and> in_force s' = us'
          else case saving io of
            Written \<Rightarrow> fst r = Inr () \<and> f_doc s' = dump us' \<and> in_force s' = us'
          | Not_Written e \<Rightarrow> fst r = Inl e \<and> f_doc s' = f_doc s \<and> in_force s' = us'
          | Written_Late e \<Rightarrow> fst r = Inl e \<and> f_doc s' = dump us'))"
  using call_legible [OF assms, of io b op]
  by (auto simp: call_outcome_def unmoved_def saved_def returns_def in_force_def Let_def same_file_def
      split: sum.splits write_end.splits)

definition an_account :: "string \<Rightarrow> string \<Rightarrow> string \<Rightarrow> account" where
  "an_account i name role = \<lparr>a_id = i, a_username = name, a_email = None, a_role = role, a_hash = ''h'', a_policy = 1,
     a_epoch = 0, a_enabled = True, a_created = 0\<rparr>"

definition two_accounts :: "account list" where
  "two_accounts = [an_account ''1'' ''root'' ''admin'', an_account ''2'' ''eve'' ''operator'']"

definition a_store :: user_store where
  "a_store = \<lparr>us_users = Some two_accounts, us_gen = 1, us_stamp = Some 3,
     f_doc = Records (map Some two_accounts), f_bak = No_File, f_stamp = Some 3\<rparr>"

definition calm :: io where
  "calm = \<lparr>stat_ok = (\<lambda>_. True), save_stat_ok = True, restoring = Written, saving = Written, baking = Copied,
     restore_stamp = 8, save_stamp = 9\<rparr>"

definition a_bcrypt :: bcrypt where
  "a_bcrypt = \<lparr>hashpw = (\<lambda>pw. ''$'' @ pw), checkpw = (\<lambda>pw h. Some (h = ''$'' @ pw))\<rparr>"

lemma a_store_in_force: "in_force a_store = two_accounts" "accounts a_store = two_accounts" "legible a_store"
  by (simp_all add: in_force_def accounts_def legible_def a_store_def)

text \<open>A promotion whose write fails late, and a store whose file was then changed underneath it.\<close>

definition late :: io where
  "late = calm\<lparr>saving := Written_Late OSError\<rparr>"

lemma store_refines_the_list_witness:
  "fst (call a_bcrypt (calm, Delete ''1'') a_store) = Inl ValueError \<and>
   us_users (snd (call a_bcrypt (late, Set_Role ''2'' ''admin'') a_store)) =
     Some [an_account ''1'' ''root'' ''admin'', (an_account ''2'' ''eve'' ''admin'')\<lparr>a_epoch := 1\<rparr>] \<and>
   fst (call a_bcrypt (late, Set_Role ''2'' ''admin'') a_store) = Inl OSError"
proof -
  have "spec a_bcrypt (Delete ''1'') two_accounts = Inl ValueError"
    by (simp add: two_accounts_def an_account_def account_of_def only_admin_def other_admins_def)
  moreover have "spec a_bcrypt (Set_Role ''2'' ''admin'') two_accounts =
      Inr [an_account ''1'' ''root'' ''admin'', (an_account ''2'' ''eve'' ''admin'')\<lparr>a_epoch := 1\<rparr>]"
    by (simp add: two_accounts_def an_account_def account_of_def edit_def ROLES_def)
  ultimately show ?thesis
    using store_refines_the_list [OF a_store_in_force(3), of a_bcrypt calm "Delete ''1''"]
      store_refines_the_list [OF a_store_in_force(3), of a_bcrypt late "Set_Role ''2'' ''admin''"]
    by (simp add: a_store_in_force calm_def late_def Let_def)
qed

text \<open>A refused write leaves the accounts in memory ahead of the file: the caller was told that the change
  failed, and the server goes on with it.\<close>

lemma refused_write_is_in_force:
  "let s = snd (call a_bcrypt (calm\<lparr>saving := Not_Written OSError\<rparr>, Set_Role ''2'' ''viewer'') a_store) in
     map a_role (in_force s) = [''admin'', ''viewer''] \<and> f_doc s = f_doc a_store"
  by code_simp

text \<open>C35. Nobody can be locked out by the store itself: after any calls, with any writes and inspections
  failing, early or late, there is an enabled administrator among the accounts in use, and the file on the disk can be
  read back, without a duplicate, to a list that holds one too.\<close>

theorem store_keeps_an_admin:
  assumes "store_ok s" and "legal_run brings_new (user_step b) s es"
  shows "let s' = run (user_step b) s es in
    (\<exists>u \<in> set (accounts s'). a_role u = ''admin'' \<and> a_enabled u) \<and> accounts_ok (accounts s') \<and>
    (\<exists>vs. decode (f_doc s') = Inr vs \<and> accounts_ok vs \<and> (\<exists>u \<in> set vs. a_role u = ''admin'' \<and> a_enabled u))"
proof -
  have "store_ok (run (user_step b) s es)" by (rule usr.inv_legal_run [OF assms])
  then show ?thesis
    by (auto simp: store_ok_def guarded_def has_admin_def accounts_def Let_def decode_ok)
qed

lemma a_store_ok: "store_ok a_store"
proof -
  have "guarded two_accounts"
    unfolding guarded_def has_admin_def accounts_ok_def by code_simp
  then show ?thesis by (simp add: store_ok_def a_store_def)
qed

lemma store_keeps_an_admin_witness:
  "\<exists>u \<in> set (accounts (run (user_step a_bcrypt) a_store
      [(late, Set_Role ''2'' ''admin''), (calm, Delete ''1''),
       (calm\<lparr>saving := Not_Written OSError\<rparr>, Delete ''2'')])).
    a_role u = ''admin'' \<and> a_enabled u"
proof -
  have "legal_run brings_new (user_step a_bcrypt) a_store
      [(late, Set_Role ''2'' ''admin''), (calm, Delete ''1''), (calm\<lparr>saving := Not_Written OSError\<rparr>, Delete ''2'')]"
    by (simp add: fresh_id_def)
  from store_keeps_an_admin [OF a_store_ok this] show ?thesis by (simp only: Let_def)
qed

section \<open>Sessions\<close>

text \<open>The providers' view of the store.\<close>

definition as_user :: "account \<Rightarrow> user" where
  "as_user u = \<lparr>u_id = a_id u, u_enabled = a_enabled u, u_password_hash = a_hash u, u_session_epoch = a_epoch u,
     u_role = a_role u, u_email = a_email u, u_login_email = login_email u\<rparr>"

definition home_of :: "home \<Rightarrow> account list \<Rightarrow> home" where
  "home_of h us = h\<lparr>user_get := (\<lambda>i. map_option as_user (account_of i us)),
     user_by_email := (\<lambda>e. map_option as_user (by_email e us))\<rparr>"

definition same_login :: "account \<Rightarrow> account \<Rightarrow> bool" where
  "same_login u v \<longleftrightarrow> a_role u = a_role v \<and> a_enabled u = a_enabled v \<and> a_hash u = a_hash v \<and>
     a_username u = a_username v \<and> a_email u = a_email v"

definition unchanged_since :: "account \<Rightarrow> account list \<Rightarrow> bool" where
  "unchanged_since v us \<longleftrightarrow> (\<forall>u \<in> set us. a_id u = a_id v \<longrightarrow> a_epoch v < a_epoch u \<or> a_epoch v = a_epoch u \<and> same_login u v)"

text \<open>An account that is gone or has a later epoch.\<close>

definition superseded :: "account \<Rightarrow> account list \<Rightarrow> bool" where
  "superseded v us \<longleftrightarrow> (\<forall>u \<in> set us. a_id u = a_id v \<longrightarrow> a_epoch v < a_epoch u)"

fun makes :: "string \<Rightarrow> user_op \<Rightarrow> bool" where
  "makes i (Create j _ _ _ _ _ _ _) = (i = j)"
| "makes i op = False"

text \<open>Every change of an account by the specification advances its epoch or leaves what a login rests on.\<close>

lemma same_login_refl [simp]: "same_login u u"
  by (simp add: same_login_def)

lemma edit_account:
  assumes "edit j f us = Inr us'" and "u' \<in> set us'"
    and "\<And>u. a_id (f u) = a_id u \<and> (a_epoch u < a_epoch (f u) \<or> f u = u)"
  shows "\<exists>u \<in> set us. a_id u = a_id u' \<and> (a_epoch u < a_epoch u' \<or> a_epoch u = a_epoch u' \<and> same_login u' u)"
proof -
  obtain u where u: "u \<in> set us" "u' = (if a_id u = j then f u else u)"
    using assms(2) unfolding edit_Inr [OF assms(1)] by auto
  show ?thesis using u assms(3) [of u] by (intro bexI [OF _ u(1)]) auto
qed

lemma spec_account:
  assumes sp: "spec b op us = Inr us'" and new: "\<not> makes i op" and u': "u' \<in> set us'" and i: "a_id u' = i"
  shows "\<exists>u \<in> set us. a_id u = i \<and> (a_epoch u < a_epoch u' \<or> a_epoch u = a_epoch u' \<and> same_login u' u)"
proof (cases op)
  case (Create j now strict name pw role email on)
  then obtain v where "us' = us @ [v]" "a_id v = j" using sp by (auto split: if_splits sum.splits)
  then show ?thesis using u' i new Create by auto
next
  case (Delete j)
  then show ?thesis using sp u' i by (auto split: if_splits)
next
  case (Clear_Password j)
  from edit_account [OF sp [unfolded Clear_Password spec.simps] u'] i show ?thesis by simp
next
  case (Set_Password j pw)
  obtain h where "edit j (\<lambda>u. u\<lparr>a_hash := h, a_policy := CURRENT_PASSWORD_POLICY, a_epoch := a_epoch u + 1\<rparr>) us = Inr us'"
    using sp Set_Password by (auto split: if_splits sum.splits)
  from edit_account [OF this u'] i show ?thesis by simp
next
  case (Set_Role j role)
  have "edit j (\<lambda>u. if a_role u = role then u else u\<lparr>a_role := role, a_epoch := a_epoch u + 1\<rparr>) us = Inr us'"
    using sp Set_Role by (auto split: if_splits)
  from edit_account [OF this u'] i show ?thesis by simp
next
  case (Set_Enabled j on)
  have "edit j (\<lambda>u. if a_enabled u = on then u else u\<lparr>a_enabled := on, a_epoch := a_epoch u + 1\<rparr>) us = Inr us'"
    using sp Set_Enabled by (auto split: if_splits)
  from edit_account [OF this u'] i show ?thesis by simp
next
  case (Rename j name)
  have "edit j (\<lambda>u. if a_username u = norm_username name then u
      else u\<lparr>a_username := norm_username name, a_epoch := a_epoch u + 1\<rparr>) us = Inr us'"
    using sp Rename by (auto simp: Let_def split: if_splits)
  from edit_account [OF this u'] i show ?thesis by simp
next
  case (Set_Email j email)
  obtain n where "edit j (\<lambda>u. if a_email u = n then u else u\<lparr>a_email := n, a_epoch := a_epoch u + 1\<rparr>) us = Inr us'"
    using sp Set_Email by (auto split: if_splits sum.splits)
  from edit_account [OF this u'] i show ?thesis by simp
qed

text \<open>A run in which the identifier \<open>i\<close> is not given to a new account.\<close>

fun keeps_id :: "string \<Rightarrow> user_store \<Rightarrow> io \<times> user_op \<Rightarrow> bool" where
  "keeps_id i s (io, op) = (\<not> makes i op \<and> fresh_id (in_force s) op)"

lemma in_force_dump: "f_doc s = dump us \<Longrightarrow> guarded us \<Longrightarrow> us_users s = Some us \<Longrightarrow> set (in_force s) = set us"
  by (auto simp: in_force_def in_file_def dump_def decode_ok guarded_def)

lemma saved_leaves:
  "saved io us' s r \<Longrightarrow> us_users (snd r) = Some us' \<and> (us_stamp (snd r) = f_stamp (snd r) \<or> f_doc (snd r) = dump us')"
  by (cases "save_stat_ok io"; cases "saving io") (simp_all add: saved_def same_file_def)

lemma in_force_step:
  assumes ok: "store_ok s" and new: "fresh_id (in_force s) op"
  shows "in_force (user_step b s (io, op)) = in_force s
    \<or> (\<exists>us'. spec b op (in_force s) = Inr us' \<and> set (in_force (user_step b s (io, op))) = set us')"
proof -
  let ?r = "call b (io, op) s"
  note g = store_okD [OF ok]
  from call_legible [of s io b op] g consider "unmoved s (snd ?r)"
    | us' where "spec b op (in_force s) = Inr us'" "saved io us' s ?r"
    by (auto simp: call_outcome_def split: sum.splits)
  then show ?thesis
  proof cases
    case 1
    then show ?thesis by (simp add: user_step_def unmoved_def)
  next
    case (2 us')
    have "guarded us'"
      using spec_ok [OF _ new 2(1)] spec_admin [OF _ _ 2(1)] g by (simp add: guarded_def)
    moreover have "us_users (snd ?r) = Some us' \<and> (us_stamp (snd ?r) = f_stamp (snd ?r) \<or> f_doc (snd ?r) = dump us')"
      using 2(2) by (rule saved_leaves)
    ultimately have "set (in_force (snd ?r)) = set us'"
      using in_force_dump [of "snd ?r" us'] by (cases "us_stamp (snd ?r) = f_stamp (snd ?r)") (simp_all add: in_force_def)
    then show ?thesis using 2(1) by (auto simp: user_step_def)
  qed
qed

lemma user_step_accounts:
  assumes ok: "store_ok s" and l: "keeps_id i s e" and u': "u' \<in> set (in_force (user_step b s e))" "a_id u' = i"
  shows "\<exists>u \<in> set (in_force s). a_id u = i \<and> (a_epoch u < a_epoch u' \<or> a_epoch u = a_epoch u' \<and> same_login u' u)"
proof -
  obtain io op where e: "e = (io, op)" by (cases e)
  from l e have new: "fresh_id (in_force s) op" and i: "\<not> makes i op" by simp_all
  from in_force_step [OF ok new, of b io] show ?thesis
  proof (elim disjE exE conjE)
    assume "in_force (user_step b s (io, op)) = in_force s"
    then show ?thesis using u' e by auto
  next
    fix us' assume "spec b op (in_force s) = Inr us'" "set (in_force (user_step b s (io, op))) = set us'"
    then show ?thesis using spec_account [OF _ i, of b "in_force s" us' u'] u' e by simp
  qed
qed

lemma keeps_id_ok: "store_ok s \<Longrightarrow> keeps_id i s e \<Longrightarrow> store_ok (user_step b s e)"
  using store_ok_step [of s e b] by (cases e) simp

interpretation upast: lawful "user_step b" "\<lambda>s. store_ok s \<and> superseded v (in_force s)" "keeps_id (a_id v)"
  for b v
proof (unfold_locales, intro conjI)
  fix s e assume h: "store_ok s \<and> superseded v (in_force s)" and l: "keeps_id (a_id v) s e"
  then show "store_ok (user_step b s e)" using keeps_id_ok by blast
  show "superseded v (in_force (user_step b s e))"
    unfolding superseded_def
  proof (intro ballI impI)
    fix u' assume "u' \<in> set (in_force (user_step b s e))" "a_id u' = a_id v"
    then obtain u where "u \<in> set (in_force s)" "a_id u = a_id v" "a_epoch u \<le> a_epoch u'"
      using user_step_accounts [OF _ l, of u' b] h by fastforce
    then show "a_epoch v < a_epoch u'" using h unfolding superseded_def by fastforce
  qed
qed

interpretation usame: lawful "user_step b" "\<lambda>s. store_ok s \<and> unchanged_since v (in_force s)" "keeps_id (a_id v)"
  for b v
proof (unfold_locales, intro conjI)
  fix s e assume h: "store_ok s \<and> unchanged_since v (in_force s)" and l: "keeps_id (a_id v) s e"
  then show "store_ok (user_step b s e)" using keeps_id_ok by blast
  show "unchanged_since v (in_force (user_step b s e))"
    unfolding unchanged_since_def
  proof (intro ballI impI)
    fix u' assume "u' \<in> set (in_force (user_step b s e))" "a_id u' = a_id v"
    then obtain u where "u \<in> set (in_force s)" "a_id u = a_id v"
        "a_epoch u < a_epoch u' \<or> a_epoch u = a_epoch u' \<and> same_login u' u"
      using user_step_accounts [OF _ l, of u' b] h by fastforce
    then show "a_epoch v < a_epoch u' \<or> a_epoch v = a_epoch u' \<and> same_login u' v"
      using h unfolding unchanged_since_def same_login_def by fastforce
  qed
qed

lemma identity_account:
  assumes "identity_of (home_of h us) auth methods cl = Inr (Some x)" and "claim cl ''sub'' = JStr i"
    and "claim cl ''authn'' \<noteq> JStr ''admin_token''"
  shows "\<exists>u \<in> set us. a_id u = i \<and> claim_int (claim cl ''account_epoch'') = Inr (Some (a_epoch u))"
proof -
  have in_list: "u \<in> set us" if "by_email e us = Some u" for e u
    using that by (auto simp: by_email_def find_Some_iff split: sum.splits)
  have "local_identity (home_of h us) methods cl = Inr (Some x) \<or> google_identity (home_of h us) auth methods cl = Inr (Some x)"
    using assms by (auto simp: identity_of_def split: jval.splits if_splits)
  then show ?thesis
  proof
    assume "local_identity (home_of h us) methods cl = Inr (Some x)"
    then show ?thesis using assms(2)
      by (auto simp: local_identity_def home_of_def as_user_def dest!: account_of_id
          split: if_splits sum.splits option.splits)
  next
    assume "google_identity (home_of h us) auth methods cl = Inr (Some x)"
    then show ?thesis using assms(2)
      by (auto simp: google_identity_def home_of_def as_user_def Let_def dest: in_list
          split: if_splits sum.splits option.splits jval.splits)
  qed
qed

text \<open>A change of an account ends its sessions for good: if a signed-in session (password or Google) is
  accepted now and still accepted after any calls, with any failing writes, then at every moment in
  between the account was there with the same role, state, password, name and address.\<close>

theorem session_ends_with_a_change:
  assumes start: "store_ok s" and u0: "account_of i (in_force s) = Some u0"
    and run: "legal_run (keeps_id i) (user_step b) s es"
    and cl: "claim cl ''sub'' = JStr i" "claim cl ''authn'' \<noteq> JStr ''admin_token''"
    and before: "identity_of (home_of h (in_force s)) auth methods cl = Inr (Some x)"
    and after: "identity_of (home_of h' (in_force (run (user_step b) s es))) auth' methods' cl = Inr (Some y)"
  shows "\<exists>u \<in> set (in_force (run (user_step b) s (take k es))). a_id u = i \<and> same_login u u0"
proof (rule ccontr)
  have ok: "accounts_ok (in_force s)" using store_okD [OF start] by (simp add: guarded_def)
  have i: "a_id u0 = i" and in0: "u0 \<in> set (in_force s)" using account_of_id [OF u0] by simp_all
  have uniq: "u = u0" if "u \<in> set (in_force s)" "a_id u = i" for u
    using account_of_in [OF ok that(1)] that(2) u0 by simp
  have epoch: "claim_int (claim cl ''account_epoch'') = Inr (Some (a_epoch u0))"
    using identity_account [OF before cl] uniq by blast
  let ?sk = "run (user_step b) s (take k es)" and ?es = "drop k es"
  have legal: "legal_run (keeps_id (a_id u0)) (user_step b) s (take k es)"
      "legal_run (keeps_id (a_id u0)) (user_step b) ?sk ?es"
    using run legal_run_append [of "keeps_id i" "user_step b" s "take k es" ?es] by (simp_all add: i)
  have "unchanged_since u0 (in_force s)" using uniq by (auto simp: unchanged_since_def i)
  with usame.inv_legal_run [OF _ legal(1)] start
  have sk: "store_ok ?sk" "unchanged_since u0 (in_force ?sk)" by blast+
  assume "\<not> (\<exists>u \<in> set (in_force ?sk). a_id u = i \<and> same_login u u0)"
  then have "superseded u0 (in_force ?sk)" using sk(2) by (auto simp: unchanged_since_def superseded_def i)
  with upast.inv_legal_run [OF _ legal(2)] sk(1)
  have "superseded u0 (in_force (run (user_step b) ?sk ?es))" by blast
  then have "superseded u0 (in_force (run (user_step b) s es))" by (simp flip: run_simps(3))
  moreover obtain u where "u \<in> set (in_force (run (user_step b) s es))" "a_id u = i" "a_epoch u = a_epoch u0"
    using identity_account [OF after cl] epoch by auto
  ultimately show False by (auto simp: superseded_def i)
qed

text \<open>The demonstration: the operator's password session lasts through a change of somebody else.\<close>

definition eve_claims :: claims where
  "eve_claims = [''sub'' \<mapsto> JStr ''2'', ''authn'' \<mapsto> JStr ''local'', ''account_epoch'' \<mapsto> JInt 0]"

definition no_home :: home where
  "no_home = \<lparr>live_config = None, user_get = (\<lambda>_. None), user_by_email = (\<lambda>_. None),
     verify_session = (\<lambda>_. None), fingerprint = (\<lambda>_. None)\<rparr>"

definition no_auth :: auth_config where
  "no_auth = \<lparr>ac_methods = [], ac_provider = [], ac_admin_token = [], ac_role_allowlist = Map.empty,
     ac_default_role = None, ac_session_ttl_s = 0, ac_revoked_jti = [], ac_session_epoch = 0, ac_trust_loopback = False\<rparr>"

lemma session_ends_with_a_change_witness:
  "\<exists>u \<in> set (in_force (run (user_step a_bcrypt) a_store (take 1 [(calm, Clear_Password ''1'')]))).
     a_id u = ''2'' \<and> same_login u (an_account ''2'' ''eve'' ''operator'')"
proof -
  have acc: "in_force a_store = two_accounts" by (rule a_store_in_force)
  have u0: "account_of ''2'' (in_force a_store) = Some (an_account ''2'' ''eve'' ''operator'')"
    unfolding acc by code_simp
  have l: "legal_run (keeps_id ''2'') (user_step a_bcrypt) a_store [(calm, Clear_Password ''1'')]"
    by (simp add: fresh_id_def)
  have sub: "claim eve_claims ''sub'' = JStr ''2''" and authn: "claim eve_claims ''authn'' \<noteq> JStr ''admin_token''"
    by (simp_all add: claim_def eve_claims_def dget_def)
  have acc': "in_force (run (user_step a_bcrypt) a_store [(calm, Clear_Password ''1'')]) =
      [(an_account ''1'' ''root'' ''admin'')\<lparr>a_hash := [], a_policy := 0, a_epoch := 1\<rparr>, an_account ''2'' ''eve'' ''operator'']"
    by code_simp
  have "identity_of (home_of no_home (in_force a_store)) no_auth {''local''} eve_claims = Inr (Some (Some ''operator'', None))"
    unfolding acc
    by (simp add: identity_of_def local_identity_def claim_def eve_claims_def dget_def claim_int_def home_of_def
        two_accounts_def an_account_def account_of_def as_user_def)
  moreover have "identity_of (home_of no_home (in_force (run (user_step a_bcrypt) a_store [(calm, Clear_Password ''1'')])))
      no_auth {''local''} eve_claims = Inr (Some (Some ''operator'', None))"
    unfolding acc'
    by (simp add: identity_of_def local_identity_def claim_def eve_claims_def dget_def claim_int_def home_of_def
        an_account_def account_of_def as_user_def)
  ultimately show ?thesis
    using session_ends_with_a_change [OF a_store_ok u0 l sub authn] by blast
qed

section \<open>Signing in with a password\<close>

lemma verify_warm:
  assumes "warm s us" and "stat_ok io 0"
  shows "verify io b name pw s = (Inr (case named name us of None \<Rightarrow> None
    | Some u \<Rightarrow> if a_enabled u \<and> verify_password b pw (a_hash u) then Some u else None), s)"
  using get_by_username_warm [OF assms(1), of io name] assms(2)
  by (cases "named name us") (auto simp: verify_def verify_password_def)

text \<open>A password that was accepted when it was set opens its account, and only its account: after a
  \<open>set_password\<close> that returned, the account's name (in any case, with any white space around it) and this
  password sign in as that account while it is enabled, whatever the write did to the file's stamp. The
  library is one whose check accepts the hash it made.\<close>

theorem password_round_trip:
  assumes lib: "\<And>pw. hashpw b pw \<noteq> [] \<and> checkpw b pw (hashpw b pw) = Some True"
    and ok: "store_ok s" and u: "account_of i (in_force s) = Some u" "a_enabled u"
    and set: "set_password io b i pw s = (Inr v, s')" and io: "stat_ok io' 0"
    and name: "norm_username name = a_username u"
  shows "fst (verify io' b name pw s') = Inr (Some v) \<and> a_id v = i \<and> same_login v (u\<lparr>a_hash := a_hash v\<rparr>)"
proof -
  let ?f = "\<lambda>u. u\<lparr>a_hash := hashpw b pw, a_policy := CURRENT_PASSWORD_POLICY, a_epoch := a_epoch u + 1\<rparr>"
  let ?g = "\<lambda>u. if a_id u = i then ?f u else u"
  note g = store_okD [OF ok]
  have aok: "accounts_ok (in_force s)" using g by (simp add: guarded_def)
  have i: "a_id u = i" and mem: "u \<in> set (in_force s)" using account_of_id [OF u(1)] by simp_all
  have h: "hash_password b pw = Inr (hashpw b pw)"
    using set by (auto simp: set_password_def hash_password_def split: prod.splits sum.splits if_splits)
  obtain t where t: "\<And>io. cache True io s = (Inr (in_force s), t)" "warm t (in_force s)"
    by (rule look_legible [of s]) (use g in blast)+
  have "stat_ok io 0"
    using set by (cases "stat_ok io 0") (auto simp: set_password_def require_def)
  then have fin: "finish io (u, us_gen t) ?f t = (Inr v, s')"
    using set u(1) h t(1) by (simp add: set_password_def require_def account_of_def)
  have v: "v = ?f u" using fin by (auto simp: finish_def split: prod.splits sum.splits)
  have w': "warm s' (map ?g (in_force s))"
    using finish_warm [OF t(2), of io u ?f] fin i by (auto simp: saved_def warm_def split: write_end.splits if_splits)
  have n: "named name (map ?g (in_force s)) = Some v"
    unfolding named_def name v
  proof -
    have "find (\<lambda>x. a_username x = a_username u) (map ?g us) = Some (?f u)"
      if "u \<in> set us" "\<And>x. x \<in> set us \<Longrightarrow> a_username x = a_username u \<Longrightarrow> x = u" for us
      using that i by (induction us) auto
    from this [OF mem] show "find (\<lambda>x. a_username x = a_username u) (map ?g (in_force s)) = Some (?f u)"
      using aok mem by (auto simp: accounts_ok_def distinct_map inj_on_def)
  qed
  have "\<not> too_long pw" using h by (auto simp: hash_password_def split: if_splits)
  then have "verify_password b pw (a_hash v)" using lib by (simp add: v verify_password_def)
  then show ?thesis using verify_warm [OF w' io] n u(2) v i by (simp add: same_login_def)
qed

lemma password_round_trip_witness:
  "\<exists>v s'. set_password calm a_bcrypt ''2'' ''correct horse'' a_store = (Inr v, s') \<and>
     fst (verify calm a_bcrypt '' EVE '' ''correct horse'' s') = Inr (Some v)"
proof -
  have acc: "in_force a_store = two_accounts" by (rule a_store_in_force)
  have u: "account_of ''2'' (in_force a_store) = Some (an_account ''2'' ''eve'' ''operator'')"
    unfolding acc by code_simp
  have lib: "hashpw a_bcrypt pw \<noteq> [] \<and> checkpw a_bcrypt pw (hashpw a_bcrypt pw) = Some True" for pw
    by (simp add: a_bcrypt_def)
  obtain v s' where set: "set_password calm a_bcrypt ''2'' ''correct horse'' a_store = (Inr v, s')"
  proof -
    have "isl (fst (set_password calm a_bcrypt ''2'' ''correct horse'' a_store)) = False" by code_simp
    then show thesis using that by (cases "set_password calm a_bcrypt ''2'' ''correct horse'' a_store"; cases "fst (set_password calm a_bcrypt ''2'' ''correct horse'' a_store)") auto
  qed
  have n: "norm_username '' EVE '' = a_username (an_account ''2'' ''eve'' ''operator'')" by code_simp
  have "a_enabled (an_account ''2'' ''eve'' ''operator'')" "stat_ok calm 0" by (simp_all add: an_account_def calm_def)
  with password_round_trip [OF lib a_store_ok u _ set _ n] set show ?thesis by blast
qed

section \<open>A change lost to the backup\<close>

text \<open>Where the primary file cannot be read and the backup is restored within a mutation, the stamp kept is
  the one from before the restore; so the save reads the file again and writes it as it was restored. The
  call returns the changed account and nothing has changed.\<close>

definition broken_store :: user_store where
  "broken_store = \<lparr>us_users = None, us_gen = 0, us_stamp = None, f_doc = Unreadable,
     f_bak = Records (map Some two_accounts), f_stamp = Some 3\<rparr>"

lemma change_lost_to_the_backup:
  "map_sum id a_role (fst (set_role calm ''2'' ''viewer'' broken_store)) = Inr ''viewer'' \<and>
   map a_role (accounts (snd (set_role calm ''2'' ''viewer'' broken_store))) = [''admin'', ''operator''] \<and>
   f_doc (snd (set_role calm ''2'' ''viewer'' broken_store)) = Records (map Some two_accounts)"
  by code_simp

text \<open>Two accounts may sign in with one address: neither \<open>create\<close> nor \<open>set_email\<close> looks for another
  account's.\<close>

lemma one_address_two_accounts:
  "map login_email (accounts (snd (set_email calm ''2'' (Some ''root@x.org'')
     (snd (set_email calm ''1'' (Some ''root@x.org'') a_store))))) = [''root@x.org'', ''root@x.org'']"
  by code_simp

end
