(* ===== verification/Rig_Beacon.thy ===== *)
theory Rig_Beacon
  imports Update_Version Py_Values Machines "HOL-Library.Sublist"
begin

text \<open>
  The status line that leaves the rig with every ping (\<open>server/astrodeck/rig_beacon.py\<close>) and what the relay
  makes of it (\<open>relay/relay/rig_status.py\<close>): the printer, which clamps whatever it is given to a closed
  vocabulary, the relay's parser, which accepts only that grammar, and the log of the last ten pings.

  The grammar is a regular expression whose pieces are told apart by their first character, and no
  alternative is a prefix of another: it is read from the left, a word or a run of digits at a time.
\<close>

section \<open>The vocabulary\<close>

definition STATES :: "string list" where
  "STATES = [''aborted'', ''aborting'', ''complete'', ''error'', ''holding'', ''idle'', ''paused'', ''running'', ''unknown'']"

definition LEVELS :: "string list" where
  "LEVELS = [''none'', ''info'', ''warning'', ''error'']"

definition BOOT_WORDS :: "string list" where
  "BOOT_WORDS = [''normal'', ''unexpected'', ''unread'']"

definition FRAMES_MAX :: int where "FRAMES_MAX = 999999"
definition UP_MAX :: int where "UP_MAX = 99999999"
definition LOG_MAX :: int where "LOG_MAX = 999999999999"

section \<open>Printing\<close>

text \<open>The default word is in the vocabulary of the line; the engine's own words are the others.\<close>

definition word_of :: "string list \<Rightarrow> string \<Rightarrow> jval \<Rightarrow> string" where
  "word_of allowed fallback v = (case v of JStr s \<Rightarrow> if s \<in> set allowed then s else fallback | _ \<Rightarrow> fallback)"

definition count_of :: "int \<Rightarrow> jval \<Rightarrow> int" where
  "count_of cap v = (case int_of v of Inl _ \<Rightarrow> 0 | Inr n \<Rightarrow> max 0 (min n cap))"

type_synonym beacon_dict = "string \<rightharpoonup> jval"

definition coerce :: "string \<Rightarrow> jval \<Rightarrow> string" where
  "coerce key v =
     (if key = ''v'' then ''1''
      else if key = ''state'' then word_of STATES ''unknown'' v
      else if key = ''frames'' then nat_str (nat (count_of FRAMES_MAX v))
      else if key = ''level'' then word_of LEVELS ''none'' v
      else if key = ''up_s'' then nat_str (nat (count_of UP_MAX v))
      else if key = ''log'' then nat_str (nat (count_of LOG_MAX v))
      else if key = ''pending'' then (if v = JBool True then ''yes'' else ''no'')
      else word_of BOOT_WORDS ''unread'' v)"

definition wire_keys :: "beacon_dict \<Rightarrow> (string \<times> string) list" where
  "wire_keys b = [(''v'', ''v''), (''state'', ''state''), (''frames'', ''frames''), (''level'', ''level''), (''up_s'', ''up'')]
     @ map (\<lambda>k. (k, k)) (filter (\<lambda>k. k \<in> dom b) [''log'', ''pending''])
     @ [(''boot'', ''boot'')]"

definition render :: "beacon_dict \<Rightarrow> string" where
  "render b = py_join '' '' (map (\<lambda>(key, wire). wire @ ''='' @ coerce key (dget b key JNull)) (wire_keys b))"

section \<open>Parsing\<close>

record beacon =
  b_state :: string
  b_frames :: nat
  b_level :: string
  b_up :: nat
  b_boot :: string
  b_log :: "nat option"
  b_pending :: "bool option"

definition expect :: "string \<Rightarrow> string \<Rightarrow> string option" where
  "expect w s = (if take (length w) s = w then Some (drop (length w) s) else None)"

fun one_of :: "string list \<Rightarrow> string \<Rightarrow> (string \<times> string) option" where
  "one_of [] s = None"
| "one_of (w # ws) s = (case expect w s of Some rest \<Rightarrow> Some (w, rest) | None \<Rightarrow> one_of ws s)"

definition digits_upto :: "nat \<Rightarrow> string \<Rightarrow> (nat \<times> string) option" where
  "digits_upto n s = (let d = takeWhile is_digit s in
     if d = [] \<or> n < length d then None else Some (digits_nat d, dropWhile is_digit s))"

definition keyed_word :: "string \<Rightarrow> string list \<Rightarrow> string \<Rightarrow> (string \<times> string) option" where
  "keyed_word key ws s = Option.bind (expect key s) (one_of ws)"

definition keyed_count :: "string \<Rightarrow> nat \<Rightarrow> string \<Rightarrow> (nat \<times> string) option" where
  "keyed_count key n s = Option.bind (expect key s) (digits_upto n)"

text \<open>An optional group: taken where it matches, skipped where it does not.\<close>

definition optionally :: "(string \<Rightarrow> ('a \<times> string) option) \<Rightarrow> string \<Rightarrow> 'a option \<times> string" where
  "optionally p s = (case p s of Some (x, rest) \<Rightarrow> (Some x, rest) | None \<Rightarrow> (None, s))"

definition parse_beacon :: "string \<Rightarrow> beacon option" where
  "parse_beacon s =
     (case keyed_word ''v=1 state='' STATES s of None \<Rightarrow> None | Some (state, s) \<Rightarrow>
      case keyed_count '' frames='' 6 s of None \<Rightarrow> None | Some (frames, s) \<Rightarrow>
      case keyed_word '' level='' LEVELS s of None \<Rightarrow> None | Some (level, s) \<Rightarrow>
      case keyed_count '' up='' 8 s of None \<Rightarrow> None | Some (up, s) \<Rightarrow>
      let (log, s) = optionally (keyed_count '' log='' 12) s;
          (pend, s) = optionally (keyed_word '' pending='' [''yes'', ''no'']) s in
      case keyed_word '' boot='' BOOT_WORDS s of None \<Rightarrow> None | Some (boot, s) \<Rightarrow>
      if s \<noteq> [] then None
      else Some \<lparr>b_state = state, b_frames = frames, b_level = level, b_up = up, b_boot = boot,
             b_log = log, b_pending = map_option (\<lambda>w. w = ''yes'') pend\<rparr>)"

definition is_closed_vocabulary :: "string \<Rightarrow> bool" where
  "is_closed_vocabulary s = (parse_beacon s \<noteq> None)"

section \<open>The last pings\<close>

definition RECENT_PINGS :: nat where "RECENT_PINGS = 10"
definition SLOT_S :: rat where "SLOT_S = 60"

record ping_slot =
  ps_beacon :: beacon
  ps_at :: rat
  ps_since :: rat

text \<open>Oldest first; a full log drops its oldest slot.\<close>

definition same_words :: "beacon \<Rightarrow> beacon \<Rightarrow> bool" where
  "same_words a b = (b_state a = b_state b \<and> b_level a = b_level b \<and> b_boot a = b_boot b \<and> b_pending a = b_pending b)"

definition push_slot :: "ping_slot \<Rightarrow> ping_slot list \<Rightarrow> ping_slot list" where
  "push_slot p slots = (if length slots < RECENT_PINGS then slots @ [p] else tl slots @ [p])"

definition record_slot :: "ping_slot list \<Rightarrow> beacon \<times> rat \<Rightarrow> ping_slot list" where
  "record_slot slots ping = (let (b, now) = ping; fresh = \<lparr>ps_beacon = b, ps_at = now, ps_since = now\<rparr> in
     if slots \<noteq> [] \<and> now - ps_since (List.last slots) < SLOT_S \<and> same_words (ps_beacon (List.last slots)) b
     then butlast slots @ [(List.last slots)\<lparr>ps_beacon := b, ps_at := now\<rparr>]
     else push_slot fresh slots)"

section \<open>What is printed is parsed\<close>

lemma expect_append [simp]: "expect w (w @ rest) = Some rest"
  by (simp add: expect_def)

lemma expect_prefix: "expect w s = Some rest \<Longrightarrow> prefix w s"
  by (metis append_take_drop_id expect_def option.distinct(1) prefixI)

definition prefix_free :: "string list \<Rightarrow> bool" where
  "prefix_free ws \<longleftrightarrow> (\<forall>v \<in> set ws. \<forall>w \<in> set ws. v \<noteq> w \<longrightarrow> \<not> prefix v w)"

lemma one_of_append: "prefix_free ws \<Longrightarrow> w \<in> set ws \<Longrightarrow> one_of ws (w @ rest) = Some (w, rest)"
proof (induction ws)
  case (Cons v ws)
  show ?case
  proof (cases "v = w")
    case False
    have "\<not> prefix v (w @ rest)"
      using Cons.prems False prefix_same_cases [of v "w @ rest" w] by (auto simp: prefix_free_def)
    then have "expect v (w @ rest) = None" using expect_prefix [of v "w @ rest"] by (cases "expect v (w @ rest)") auto
    then show ?thesis using Cons False by (simp add: prefix_free_def)
  qed simp
qed simp

lemma vocabulary_prefix_free: "prefix_free STATES" "prefix_free LEVELS" "prefix_free BOOT_WORDS" "prefix_free [''yes'', ''no'']"
  by (simp_all add: prefix_free_def STATES_def LEVELS_def BOOT_WORDS_def)

lemma length_nat_str: "n < 10 ^ k \<Longrightarrow> 0 < k \<Longrightarrow> length (nat_str n) \<le> k"
proof (induction k arbitrary: n)
  case (Suc k)
  show ?case
  proof (cases "n < 10")
    case True
    then show ?thesis by (subst nat_str.simps) simp
  next
    case False
    then have "0 < k" using Suc.prems by (cases k) auto
    moreover have "n div 10 < 10 ^ k" using Suc.prems by (simp add: less_mult_imp_div_less mult.commute)
    ultimately have "length (nat_str (n div 10)) \<le> k" by (rule Suc.IH [rotated])
    then show ?thesis using False by (subst nat_str.simps) simp
  qed
qed simp

lemma digits_upto_append:
  assumes "n < 10 ^ k" and "0 < k" and "rest = [] \<or> \<not> is_digit (hd rest)"
  shows "digits_upto k (nat_str n @ rest) = Some (n, rest)"
proof -
  have t: "takeWhile is_digit (nat_str n @ rest) = nat_str n @ takeWhile is_digit rest"
    "dropWhile is_digit (nat_str n @ rest) = dropWhile is_digit rest"
    using nat_str_digits [of n] by (auto simp: list_all_iff takeWhile_append dropWhile_append)
  moreover have "takeWhile is_digit rest = []" "dropWhile is_digit rest = rest" using assms(3) by (cases rest; auto)+
  ultimately show ?thesis using length_nat_str [OF assms(1,2)] by (simp add: digits_upto_def not_less)
qed

lemma keyed_append:
  "prefix_free ws \<Longrightarrow> w \<in> set ws \<Longrightarrow> keyed_word key ws (key @ w @ rest) = Some (w, rest)"
  "n < 10 ^ k \<Longrightarrow> 0 < k \<Longrightarrow> rest = [] \<or> \<not> is_digit (hd rest) \<Longrightarrow> keyed_count key k (key @ nat_str n @ rest) = Some (n, rest)"
  by (simp_all add: keyed_word_def keyed_count_def one_of_append digits_upto_append)

lemma keyed_mismatch:
  "expect key s = None \<Longrightarrow> keyed_word key ws s = None" "expect key s = None \<Longrightarrow> keyed_count key k s = None"
  by (simp_all add: keyed_word_def keyed_count_def)

text \<open>The line of a beacon, and what the relay reads from it.\<close>

definition pending_part :: "bool option \<Rightarrow> string" where
  "pending_part p = (case p of None \<Rightarrow> [] | Some b \<Rightarrow> '' pending='' @ (if b then ''yes'' else ''no''))"

definition log_part :: "nat option \<Rightarrow> string" where
  "log_part l = (case l of None \<Rightarrow> [] | Some n \<Rightarrow> '' log='' @ nat_str n)"

definition line_of :: "beacon \<Rightarrow> string" where
  "line_of b = ''v=1 state='' @ b_state b @ '' frames='' @ nat_str (b_frames b) @ '' level='' @ b_level b @
     '' up='' @ nat_str (b_up b) @ log_part (b_log b) @ pending_part (b_pending b) @ '' boot='' @ b_boot b"

definition in_vocabulary :: "beacon \<Rightarrow> bool" where
  "in_vocabulary b \<longleftrightarrow> b_state b \<in> set STATES \<and> b_level b \<in> set LEVELS \<and> b_boot b \<in> set BOOT_WORDS \<and>
     b_frames b < 10 ^ 6 \<and> b_up b < 10 ^ 8 \<and> (case b_log b of None \<Rightarrow> True | Some n \<Rightarrow> n < 10 ^ 12)"

lemma optional_parts:
  assumes "case l of None \<Rightarrow> True | Some n \<Rightarrow> n < 10 ^ 12"
  shows "optionally (keyed_count '' log='' 12) (log_part l @ pending_part p @ '' boot='' @ bt) = (l, pending_part p @ '' boot='' @ bt)"
    and "optionally (keyed_word '' pending='' [''yes'', ''no'']) (pending_part p @ '' boot='' @ bt) =
      (map_option (\<lambda>b. if b then ''yes'' else ''no'') p, '' boot='' @ bt)"
proof -
  have nolog: "keyed_count '' log='' 12 (pending_part p @ '' boot='' @ bt) = None"
    by (rule keyed_mismatch) (simp add: expect_def pending_part_def split: option.split)
  have nopend: "keyed_word '' pending='' [''yes'', ''no''] ('' boot='' @ bt) = None"
    by (rule keyed_mismatch) (simp add: expect_def)
  have head: "pending_part p @ '' boot='' @ bt = [] \<or> \<not> is_digit (hd (pending_part p @ '' boot='' @ bt))"
    by (simp add: pending_part_def is_digit_def split: option.split)
  show "optionally (keyed_count '' log='' 12) (log_part l @ pending_part p @ '' boot='' @ bt) = (l, pending_part p @ '' boot='' @ bt)"
  proof (cases l)
    case None
    then show ?thesis using nolog by (simp only: log_part_def option.case append_Nil optionally_def)
  next
    case (Some n)
    then have "keyed_count '' log='' 12 ('' log='' @ nat_str n @ pending_part p @ '' boot='' @ bt) = Some (n, pending_part p @ '' boot='' @ bt)"
      using assms head by (intro keyed_append) simp_all
    then show ?thesis using Some by (simp only: log_part_def option.case append_assoc optionally_def prod.case)
  qed
  show "optionally (keyed_word '' pending='' [''yes'', ''no'']) (pending_part p @ '' boot='' @ bt) =
      (map_option (\<lambda>b. if b then ''yes'' else ''no'') p, '' boot='' @ bt)"
  proof (cases p)
    case None
    then show ?thesis using nopend by (simp only: pending_part_def option.case append_Nil optionally_def option.map)
  next
    case (Some b)
    have "keyed_word '' pending='' [''yes'', ''no''] ('' pending='' @ (if b then ''yes'' else ''no'') @ '' boot='' @ bt) =
        Some (if b then ''yes'' else ''no'', '' boot='' @ bt)"
      by (intro keyed_append vocabulary_prefix_free) simp
    then show ?thesis using Some by (simp only: pending_part_def option.case append_assoc optionally_def prod.case option.map)
  qed
qed

lemma parse_line:
  assumes b: "in_vocabulary b"
  shows "parse_beacon (line_of b) = Some b"
proof -
  let ?t4 = "'' boot='' @ b_boot b"
  let ?t3 = "log_part (b_log b) @ pending_part (b_pending b) @ ?t4"
  have v: "b_state b \<in> set STATES" "b_level b \<in> set LEVELS" "b_boot b \<in> set BOOT_WORDS"
    "b_frames b < 10 ^ 6" "b_up b < 10 ^ 8" and l: "case b_log b of None \<Rightarrow> True | Some n \<Rightarrow> n < 10 ^ 12"
    using b by (simp_all add: in_vocabulary_def)
  have h3: "?t3 = [] \<or> \<not> is_digit (hd ?t3)"
    by (simp add: log_part_def pending_part_def is_digit_def split: option.split)
  have 1: "keyed_word ''v=1 state='' STATES (line_of b) =
      Some (b_state b, '' frames='' @ nat_str (b_frames b) @ '' level='' @ b_level b @ '' up='' @ nat_str (b_up b) @ ?t3)"
    unfolding line_of_def by (rule keyed_append(1) [OF vocabulary_prefix_free(1) v(1)])
  have 2: "keyed_count '' frames='' 6 ('' frames='' @ nat_str (b_frames b) @ '' level='' @ b_level b @ '' up='' @ nat_str (b_up b) @ ?t3) =
      Some (b_frames b, '' level='' @ b_level b @ '' up='' @ nat_str (b_up b) @ ?t3)"
    by (rule keyed_append(2) [OF v(4)]) (simp_all add: is_digit_def)
  have 3: "keyed_word '' level='' LEVELS ('' level='' @ b_level b @ '' up='' @ nat_str (b_up b) @ ?t3) =
      Some (b_level b, '' up='' @ nat_str (b_up b) @ ?t3)"
    by (rule keyed_append(1) [OF vocabulary_prefix_free(2) v(2)])
  have 4: "keyed_count '' up='' 8 ('' up='' @ nat_str (b_up b) @ ?t3) = Some (b_up b, ?t3)"
    by (rule keyed_append(2) [OF v(5) _ h3]) simp
  have 5: "keyed_word '' boot='' BOOT_WORDS ?t4 = Some (b_boot b, [])"
    using keyed_append(1) [OF vocabulary_prefix_free(3) v(3), of "'' boot=''" "[]"] by simp
  have p: "map_option (\<lambda>w. w = ''yes'') (map_option (\<lambda>b. if b then ''yes'' else ''no'') (b_pending b)) = b_pending b"
    by (cases "b_pending b") simp_all
  show ?thesis
    by (simp only: parse_beacon_def 1 2 3 4 5 optional_parts [OF l] option.case prod.case Let_def p) simp
qed

text \<open>A beacon as the relay is to see it: every field clamped to its vocabulary.\<close>

definition clamped :: "beacon_dict \<Rightarrow> beacon" where
  "clamped b = \<lparr>b_state = word_of STATES ''unknown'' (dget b ''state'' JNull),
     b_frames = nat (count_of FRAMES_MAX (dget b ''frames'' JNull)),
     b_level = word_of LEVELS ''none'' (dget b ''level'' JNull),
     b_up = nat (count_of UP_MAX (dget b ''up_s'' JNull)),
     b_boot = word_of BOOT_WORDS ''unread'' (dget b ''boot'' JNull),
     b_log = map_option (\<lambda>v. nat (count_of LOG_MAX v)) (b ''log''),
     b_pending = map_option (\<lambda>v. v = JBool True) (b ''pending'')\<rparr>"

lemma word_of_in: "d \<in> set ws \<Longrightarrow> word_of ws d v \<in> set ws"
  by (simp add: word_of_def split: jval.split)

lemma nat_count_of: "0 < cap \<Longrightarrow> nat (count_of cap v) < nat (cap + 1)"
  by (auto simp: count_of_def nat_less_iff split: sum.split)

lemma clamped_in_vocabulary: "in_vocabulary (clamped b)"
  using nat_count_of [of FRAMES_MAX "dget b ''frames'' JNull"] nat_count_of [of UP_MAX "dget b ''up_s'' JNull"]
    nat_count_of [of LOG_MAX]
    word_of_in [of "''unknown''" STATES] word_of_in [of "''none''" LEVELS] word_of_in [of "''unread''" BOOT_WORDS]
  by (auto simp: in_vocabulary_def clamped_def FRAMES_MAX_def UP_MAX_def LOG_MAX_def STATES_def LEVELS_def
      BOOT_WORDS_def split: option.split)

lemma coerce_simps:
  "coerce ''v'' v = ''1''"
  "coerce ''state'' v = word_of STATES ''unknown'' v"
  "coerce ''frames'' v = nat_str (nat (count_of FRAMES_MAX v))"
  "coerce ''level'' v = word_of LEVELS ''none'' v"
  "coerce ''up_s'' v = nat_str (nat (count_of UP_MAX v))"
  "coerce ''log'' v = nat_str (nat (count_of LOG_MAX v))"
  "coerce ''pending'' v = (if v = JBool True then ''yes'' else ''no'')"
  "coerce ''boot'' v = word_of BOOT_WORDS ''unread'' v"
  by (simp_all add: coerce_def)

lemma render_line: "render b = line_of (clamped b)"
  by (cases "b ''log''"; cases "b ''pending''")
    (simp_all add: render_def wire_keys_def coerce_simps line_of_def log_part_def pending_part_def clamped_def
      dget_def [of b "''log''"] dget_def [of b "''pending''"] domIff)

text \<open>Whatever dictionary the rig hands to the printer, with any key missing or holding any value, the
  line is one the relay parses, and the relay reads exactly the clamped fields: nothing else of the
  dictionary leaves the rig, and nothing that is in the vocabulary is lost.\<close>

theorem beacon_round_trip: "parse_beacon (render b) = Some (clamped b)"
  unfolding render_line by (rule parse_line [OF clamped_in_vocabulary])

lemma one_of_in: "one_of ws s = Some (w, rest) \<Longrightarrow> w \<in> set ws"
  by (induction ws) (auto split: option.splits)

lemma digits_nat_bound: "list_all is_digit d \<Longrightarrow> digits_nat d < 10 ^ length d"
proof (induction d rule: rev_induct)
  case (snoc c d)
  then have "digits_nat d < 10 ^ length d" "(of_char c :: nat) \<le> 57" by (simp_all add: is_digit_def Let_def)
  then show ?case by (simp add: digits_nat_def)
qed (simp add: digits_nat_def)

lemma digits_upto_bound:
  assumes "digits_upto k s = Some (n, rest)"
  shows "n < 10 ^ k"
proof -
  let ?d = "takeWhile is_digit s"
  have n: "n = digits_nat ?d" "length ?d \<le> k" using assms by (auto simp: digits_upto_def Let_def split: if_splits)
  have "digits_nat ?d < 10 ^ length ?d"
    by (rule digits_nat_bound) (auto simp: list_all_iff dest: set_takeWhileD)
  also have "\<dots> \<le> (10::nat) ^ k" using n(2) by (rule power_increasing) simp
  finally show ?thesis using n(1) by simp
qed

lemma keyed_bounds:
  "keyed_word key ws s = Some (w, rest) \<Longrightarrow> w \<in> set ws"
  "keyed_count key k s = Some (n, rest) \<Longrightarrow> n < 10 ^ k"
  by (auto simp: keyed_word_def keyed_count_def bind_eq_Some_conv one_of_in digits_upto_bound)

text \<open>A run of at most \<open>k\<close> digits that reads as a number.\<close>

definition spells :: "nat \<Rightarrow> string \<Rightarrow> nat \<Rightarrow> bool" where
  "spells k d n \<longleftrightarrow> d \<noteq> [] \<and> length d \<le> k \<and> list_all is_digit d \<and> digits_nat d = n"

definition log_spelled :: "string \<Rightarrow> nat option \<Rightarrow> bool" where
  "log_spelled part l = (case l of None \<Rightarrow> part = [] | Some n \<Rightarrow> \<exists>d. part = '' log='' @ d \<and> spells 12 d n)"

lemma expect_split: "expect w s = Some rest \<Longrightarrow> s = w @ rest"
  by (metis append_take_drop_id expect_def option.distinct(1) option.inject)

lemma one_of_split: "one_of ws s = Some (w, rest) \<Longrightarrow> s = w @ rest"
  by (induction ws) (auto split: option.splits dest: expect_split)

lemma keyed_word_split: "keyed_word key ws s = Some (w, rest) \<Longrightarrow> s = key @ w @ rest"
  by (auto simp: keyed_word_def bind_eq_Some_conv dest!: expect_split one_of_split)

lemma keyed_count_split: "keyed_count key k s = Some (n, rest) \<Longrightarrow> \<exists>d. s = key @ d @ rest \<and> spells k d n"
proof -
  assume "keyed_count key k s = Some (n, rest)"
  then obtain s' where s: "s = key @ s'" "digits_upto k s' = Some (n, rest)"
    by (auto simp: keyed_count_def bind_eq_Some_conv dest!: expect_split)
  have "list_all is_digit (takeWhile is_digit s')"
    by (auto simp: list_all_iff dest: set_takeWhileD)
  then show ?thesis
    using s by (intro exI [of _ "takeWhile is_digit s'"]) (auto simp: digits_upto_def spells_def Let_def split: if_splits)
qed

lemma log_split:
  "optionally (keyed_count '' log='' 12) s = (l, rest) \<Longrightarrow> \<exists>part. s = part @ rest \<and> log_spelled part l"
  by (fastforce simp: optionally_def log_spelled_def split: option.splits dest: keyed_count_split)

lemma pending_split:
  assumes "optionally (keyed_word '' pending='' [''yes'', ''no'']) s = (p, rest)"
  shows "s = pending_part (map_option (\<lambda>w. w = ''yes'') p) @ rest"
proof (cases "keyed_word '' pending='' [''yes'', ''no''] s")
  case (Some x)
  then obtain w where w: "x = (w, rest)" "p = Some w"
    using assms by (cases x) (auto simp: optionally_def)
  then show ?thesis
    using keyed_word_split [of "'' pending=''" "[''yes'', ''no'']" s w rest]
      keyed_bounds(1) [of "'' pending=''" "[''yes'', ''no'']" s w rest] Some
    by (auto simp: pending_part_def)
qed (use assms in \<open>auto simp: optionally_def pending_part_def\<close>)

lemma vocabulary_of_parsed:
  assumes "parse_beacon s = Some b"
  shows "in_vocabulary b"
proof -
  have opt: "n < 1000000000000" if "fst (optionally (keyed_count key 12) t) = Some n" for key t n
    using that keyed_bounds(2) [of key 12 t] by (auto simp: optionally_def split: option.splits)
  show ?thesis
    using assms
    by (auto simp: parse_beacon_def in_vocabulary_def Let_def split_beta dest!: keyed_bounds opt
        split: option.splits if_splits)
qed

text \<open>C38. The text of a device the relay does not run cannot bring in a value of its own. A line that is
  parsed is made, from its first character to its last, of the seven keyed fields in their order: words of
  the vocabulary, which are the ones read, and runs of at most six, eight and twelve digits, which spell the
  counts read. Nothing stands between them, before them or after them.\<close>

theorem only_the_vocabulary_is_parsed:
  assumes "parse_beacon s = Some b"
  shows "in_vocabulary b \<and>
    (\<exists>frames up logged. s = ''v=1 state='' @ b_state b @ '' frames='' @ frames @ '' level='' @ b_level b @
        '' up='' @ up @ logged @ pending_part (b_pending b) @ '' boot='' @ b_boot b \<and>
      spells 6 frames (b_frames b) \<and> spells 8 up (b_up b) \<and> log_spelled logged (b_log b))"
proof -
  obtain state s1 n1 s2 level s3 n2 s4 l s5 p s6 boot where
    p: "keyed_word ''v=1 state='' STATES s = Some (state, s1)" "keyed_count '' frames='' 6 s1 = Some (n1, s2)"
      "keyed_word '' level='' LEVELS s2 = Some (level, s3)" "keyed_count '' up='' 8 s3 = Some (n2, s4)"
      "optionally (keyed_count '' log='' 12) s4 = (l, s5)"
      "optionally (keyed_word '' pending='' [''yes'', ''no'']) s5 = (p, s6)"
      "keyed_word '' boot='' BOOT_WORDS s6 = Some (boot, [])"
    and b: "b = \<lparr>b_state = state, b_frames = n1, b_level = level, b_up = n2, b_boot = boot, b_log = l,
        b_pending = map_option (\<lambda>w. w = ''yes'') p\<rparr>"
    using assms by (auto simp: parse_beacon_def Let_def split: option.splits prod.splits if_splits)
  obtain frames where "s1 = '' frames='' @ frames @ s2" "spells 6 frames n1"
    using keyed_count_split [OF p(2)] by blast
  moreover obtain up where "s3 = '' up='' @ up @ s4" "spells 8 up n2"
    using keyed_count_split [OF p(4)] by blast
  moreover obtain logged where "s4 = logged @ s5" "log_spelled logged l"
    using log_split [OF p(5)] by blast
  moreover note keyed_word_split [OF p(1)] keyed_word_split [OF p(3)] keyed_word_split [OF p(7)] pending_split [OF p(6)]
  ultimately show ?thesis
    using vocabulary_of_parsed [OF assms] b
    by (intro conjI exI [of _ frames] exI [of _ up] exI [of _ logged]) simp_all
qed

lemma only_the_vocabulary_is_parsed_witness:
  "\<exists>b. parse_beacon ''v=1 state=running frames=42 level=warning up=3600 pending=no boot=normal'' = Some b \<and>
     in_vocabulary b"
proof -
  have "parse_beacon ''v=1 state=running frames=42 level=warning up=3600 pending=no boot=normal'' =
      Some \<lparr>b_state = ''running'', b_frames = 42, b_level = ''warning'', b_up = 3600, b_boot = ''normal'',
        b_log = None, b_pending = Some False\<rparr>"
    by code_simp
  from only_the_vocabulary_is_parsed [OF this] this show ?thesis by blast
qed

section \<open>What the log of pings holds\<close>

text \<open>Two slots in a row: a minute apart, or told apart by one of the four words.\<close>

definition parted :: "ping_slot \<Rightarrow> ping_slot \<Rightarrow> bool" where
  "parted p q \<longleftrightarrow> ps_since p \<le> ps_since q \<and>
     (ps_since p + SLOT_S \<le> ps_since q \<or> \<not> same_words (ps_beacon p) (ps_beacon q))"

fun all_parted :: "ping_slot list \<Rightarrow> bool" where
  "all_parted (p # q # ps) = (parted p q \<and> all_parted (q # ps))"
| "all_parted ps = True"

definition log_ok :: "ping_slot list \<Rightarrow> bool" where
  "log_ok ps \<longleftrightarrow> length ps \<le> RECENT_PINGS \<and> all_parted ps \<and> (\<forall>p \<in> set ps. ps_since p \<le> ps_at p)"

text \<open>The clock does not go back behind the last ping.\<close>

definition in_time :: "ping_slot list \<Rightarrow> beacon \<times> rat \<Rightarrow> bool" where
  "in_time ps ping = (ps = [] \<or> ps_at (List.last ps) \<le> snd ping)"

lemma all_parted_snoc: "all_parted (ps @ [p, q]) = (all_parted (ps @ [p]) \<and> parted p q)"
  by (induction ps rule: all_parted.induct) auto

lemma all_parted_tl: "all_parted ps \<Longrightarrow> all_parted (tl ps)"
  by (cases ps rule: all_parted.cases) auto

lemma set_tl_subset: "set (tl ps) \<subseteq> set ps"
  by (cases ps) auto

lemma all_parted_push:
  assumes "all_parted ps" and "ps = [] \<or> parted (List.last ps) p"
  shows "all_parted (ps @ [p])"
  using assms by (cases ps rule: rev_cases) (auto simp: all_parted_snoc)

lemma log_ok_step:
  assumes ok: "log_ok ps" and t: "in_time ps ping"
  shows "log_ok (record_slot ps ping)"
proof -
  obtain b now where ping: "ping = (b, now)" by (cases ping)
  show ?thesis
  proof (cases "ps \<noteq> [] \<and> now - ps_since (List.last ps) < SLOT_S \<and> same_words (ps_beacon (List.last ps)) b")
    case True
    then obtain qs q where ps: "ps = qs @ [q]" by (cases ps rule: rev_cases) auto
    let ?q = "q\<lparr>ps_beacon := b, ps_at := now\<rparr>"
    have "all_parted (qs @ [?q])"
    proof (cases qs rule: rev_cases)
      case (snoc rs r)
      then have "parted r q" "all_parted qs" using ok ps by (simp_all add: log_ok_def all_parted_snoc)
      then have "parted r ?q" using True by (auto simp: parted_def same_words_def ps)
      then show ?thesis using \<open>all_parted qs\<close> snoc by (simp add: all_parted_snoc)
    qed simp
    moreover have "ps_since q \<le> now" using ok t by (simp add: ps log_ok_def in_time_def ping)
    ultimately show ?thesis using ok True by (simp add: record_slot_def ping ps log_ok_def)
  next
    case False
    let ?p = "\<lparr>ps_beacon = b, ps_at = now, ps_since = now\<rparr>"
    have step: "record_slot ps ping = push_slot ?p ps" using False by (auto simp: record_slot_def ping Let_def)
    have since: "ps_since (List.last ps) \<le> now" if "ps \<noteq> []"
    proof -
      have "ps_since (List.last ps) \<le> ps_at (List.last ps)" using ok last_in_set [OF that] by (simp only: log_ok_def)
      then show ?thesis using t that by (simp add: in_time_def ping)
    qed
    have part: "ps = [] \<or> parted (List.last ps) ?p"
      using False since by (auto simp: parted_def SLOT_S_def)
    have "all_parted (push_slot ?p ps)"
    proof (cases "length ps < RECENT_PINGS")
      case True
      then show ?thesis using all_parted_push [OF _ part] ok by (simp add: push_slot_def log_ok_def)
    next
      case False
      then have tl: "tl ps = [] \<or> List.last (tl ps) = List.last ps" by (cases ps) auto
      have "all_parted (tl ps @ [?p])"
      proof (rule all_parted_push)
        show "all_parted (tl ps)" using ok all_parted_tl by (simp add: log_ok_def)
        show "tl ps = [] \<or> parted (List.last (tl ps)) ?p" using tl part by (cases ps) auto
      qed
      then show ?thesis using False by (simp add: push_slot_def)
    qed
    moreover have "length (push_slot ?p ps) \<le> RECENT_PINGS" using ok by (auto simp: push_slot_def log_ok_def RECENT_PINGS_def)
    moreover have "\<forall>p \<in> set (push_slot ?p ps). ps_since p \<le> ps_at p"
      using ok set_tl_subset [of ps] by (auto simp: push_slot_def log_ok_def)
    ultimately show ?thesis by (simp add: step log_ok_def)
  qed
qed

interpretation pings: lawful record_slot log_ok in_time
  by unfold_locales (rule log_ok_step)

lemma last_record_slot: "record_slot ps (b, now) \<noteq> [] \<and> ps_at (List.last (record_slot ps (b, now))) = now \<and>
    ps_beacon (List.last (record_slot ps (b, now))) = b"
  by (auto simp: record_slot_def push_slot_def Let_def)

text \<open>What an owner can read with the rig dark: the log never holds more than ten slots, its newest
  slot is the last beacon heard with the moment it was heard, and slots in a row began a minute apart or
  differ in one of the four words.\<close>

theorem ping_log_is_the_last_word:
  assumes "legal_run in_time record_slot [] (ps @ [(b, now)])"
  shows "let slots = run record_slot [] (ps @ [(b, now)]) in
    length slots \<le> RECENT_PINGS \<and> slots \<noteq> [] \<and> ps_beacon (List.last slots) = b \<and> ps_at (List.last slots) = now \<and>
    (\<forall>i. Suc i < length slots \<longrightarrow> parted (slots ! i) (slots ! Suc i))"
proof -
  let ?slots = "run record_slot [] (ps @ [(b, now)])"
  have ok: "log_ok ?slots" by (rule pings.inv_legal_run [OF _ assms]) (simp add: log_ok_def)
  have nth: "Suc i < length qs \<Longrightarrow> all_parted qs \<Longrightarrow> parted (qs ! i) (qs ! Suc i)" for i and qs :: "ping_slot list"
    by (induction qs arbitrary: i rule: all_parted.induct) (auto simp: nth_Cons split: nat.split)
  show ?thesis
    using ok nth [of _ ?slots] last_record_slot [of "run record_slot [] ps" b now]
    by (simp add: Let_def log_ok_def)
qed

definition a_beacon :: "string \<Rightarrow> beacon" where
  "a_beacon st = \<lparr>b_state = st, b_frames = 42, b_level = ''none'', b_up = 3600, b_boot = ''normal'', b_log = None,
     b_pending = None\<rparr>"

lemma ping_log_is_the_last_word_witness:
  "ps_at (List.last (run record_slot [] ([(a_beacon ''idle'', 0), (a_beacon ''idle'', 10)] @ [(a_beacon ''running'', 20)]))) = 20"
proof -
  have "legal_run in_time record_slot [] ([(a_beacon ''idle'', 0), (a_beacon ''idle'', 10)] @ [(a_beacon ''running'', 20)])"
    by code_simp
  from ping_log_is_the_last_word [OF this] show ?thesis by (simp only: Let_def)
qed

text \<open>Ten slots of one rig in one state can reach back nine minutes: the tenth slot has just begun.\<close>

lemma ten_slots_reach_nine_minutes:
  "let slots = run record_slot [] (map (\<lambda>i. (a_beacon ''idle'', of_nat i * 60)) [0..<10]) in
     length slots = RECENT_PINGS \<and> ps_at (List.last slots) - ps_since (hd slots) = 540"
  by (simp add: upt_rec record_slot_def push_slot_def same_words_def RECENT_PINGS_def SLOT_S_def)

end
