(* ===== verification/Relay_Registry.thy ===== *)
theory Relay_Registry
  imports Rig_Beacon Auth_Providers
begin

text \<open>
  The relay's routing table (\<open>relay/relay/registry.py\<close>), the connection of one home
  (\<open>relay/relay/connection.py\<close>) and the part of \<open>relay/relay/server.py\<close> that drives both: the handshake
  under the registration lock, the end of a tunnel, and the reload of the token file.

  A \<open>ScopeConnection\<close>, its \<open>ScopeTunnel\<close> and the \<open>HomeRegistration\<close> it makes are created together, one of
  each, so one number names the three. \<open>relay\<close> holds the registry's tables, what can change of these objects
  and the affinity table of the server. Asynchronous code is a step relation: a step is what runs between two
  points where the code awaits, so a token reload or the end of another tunnel can fall between the
  registration of a tunnel and the delivery of its acknowledgement.

  Two steps of the model stand for more than the code does: a tunnel may starve or be lost at any time, and
  the teardown of a closed tunnel may run more than once.
\<close>

section \<open>State\<close>

record registration =
  rg_home :: string
  rg_gen :: int
  rg_previous :: "nat option"

text \<open>Who holds the registration lock: nobody, a tunnel whose acknowledgement is on its way, or the one
  that closes the tunnel it has replaced.\<close>

datatype lock = Free | Acking nat | Replacing nat

record relay =
  tokens :: "(string \<times> string) list"
  homes :: "string \<rightharpoonup> nat"
  regs :: "nat \<rightharpoonup> registration"
  closed :: "nat set"
  evicted :: "nat set"
  committed :: "nat set"
  connections :: "string \<rightharpoonup> nat"
  evict_tasks :: "string list"
  locked :: lock
  ping_logs :: "string \<rightharpoonup> ping_slot list"

definition relay_init :: "(string \<times> string) list \<Rightarrow> relay" where
  "relay_init toks = \<lparr>tokens = toks, homes = Map.empty, regs = Map.empty, closed = {}, evicted = {}, committed = {},
     connections = Map.empty, evict_tasks = [], locked = Free, ping_logs = Map.empty\<rparr>"

definition home_at :: "relay \<Rightarrow> nat \<Rightarrow> string option" where
  "home_at s c = map_option rg_home (regs s c)"

section \<open>Tokens\<close>

definition valid_device_token :: "string \<Rightarrow> bool" where
  "valid_device_token t = (32 \<le> length t \<and> length t \<le> 256 \<and> list_all (\<lambda>c. 33 \<le> (of_char c :: nat) \<and> (of_char c :: nat) \<le> 126) t)"

definition is_provisioned :: "string \<Rightarrow> relay \<Rightarrow> bool" where
  "is_provisioned h s = (h \<in> snd ` set (tokens s))"

text \<open>The token decides the home; what the HELLO claims is not looked at.\<close>

definition validate_token :: "jval \<Rightarrow> relay \<Rightarrow> string option" where
  "validate_token tok s = (case tok of
     JStr t \<Rightarrow> if t = [] then None
       else map_option snd (find (\<lambda>(p, h). compare_digest t p = Inr True) (tokens s))
   | _ \<Rightarrow> None)"

definition put_token :: "string \<Rightarrow> string \<Rightarrow> (string \<times> string) list \<Rightarrow> (string \<times> string) list" where
  "put_token t h ts = (if t \<in> fst ` set ts then map (\<lambda>(p, g). if p = t then (p, h) else (p, g)) ts else ts @ [(t, h)])"

definition provision :: "string \<Rightarrow> string \<Rightarrow> relay \<Rightarrow> relay" where
  "provision t h s = s\<lparr>tokens := put_token t h (tokens s)\<rparr>"

definition evict_registered :: "string \<Rightarrow> relay \<Rightarrow> relay" where
  "evict_registered h s = (case homes s h of None \<Rightarrow> s
     | Some c \<Rightarrow> s\<lparr>homes := (homes s)(h := None), evicted := insert c (evicted s), closed := insert c (closed s)\<rparr>)"

definition revoke :: "string \<Rightarrow> relay \<Rightarrow> bool \<times> relay" where
  "revoke t s = (case map_of (tokens s) t of None \<Rightarrow> (False, s)
     | Some h \<Rightarrow> (True, evict_registered h (s\<lparr>tokens := filter (\<lambda>(p, g). p \<noteq> t) (tokens s)\<rparr>)))"

definition rotate_token :: "string \<Rightarrow> string \<Rightarrow> relay \<Rightarrow> string option \<times> relay" where
  "rotate_token old new s = (case map_of (tokens s) old of None \<Rightarrow> (None, s)
     | Some h \<Rightarrow>
       if \<not> valid_device_token new then (None, s)
       else if (case map_of (tokens s) new of None \<Rightarrow> False | Some g \<Rightarrow> g \<noteq> h) then (None, s)
       else (Some h, s\<lparr>tokens := (let ts = put_token new h (tokens s) in
              if new \<noteq> old then filter (\<lambda>(p, g). p \<noteq> old) ts else ts)\<rparr>))"

text \<open>The homes a reload evicts are the registered ones that no accepted token names; the server schedules
  the closing of their sockets.\<close>

definition replace_tokens :: "(string \<times> string) list \<Rightarrow> string list \<Rightarrow> relay \<Rightarrow> relay option" where
  "replace_tokens m registered s =
     (if \<not> list_all (\<lambda>(t, h). valid_device_token t \<and> h \<noteq> []) m then None
      else let gone = filter (\<lambda>h. h \<notin> snd ` set m) registered in
        Some (fold evict_registered gone (s\<lparr>tokens := m, evict_tasks := evict_tasks s @ gone\<rparr>)))"

section \<open>Registration\<close>

record hello =
  hl_is_hello :: bool
  hl_version :: jval
  hl_token :: jval
  hl_generation :: jval

definition PROTO_VERSION :: int where "PROTO_VERSION = 1"

definition register :: "nat \<Rightarrow> hello \<Rightarrow> relay \<Rightarrow> relay option" where
  "register c hl s = (case int_of (hl_generation hl) of Inl _ \<Rightarrow> None | Inr gen \<Rightarrow>
     (case validate_token (hl_token hl) s of None \<Rightarrow> None | Some h \<Rightarrow>
      if (case homes s h of None \<Rightarrow> False | Some e \<Rightarrow>
            (case regs s e of None \<Rightarrow> False | Some r \<Rightarrow> gen \<le> rg_gen r)) then None
      else Some (s\<lparr>homes := (homes s)(h \<mapsto> c),
             regs := (regs s)(c \<mapsto> \<lparr>rg_home = h, rg_gen = gen, rg_previous = homes s h\<rparr>)\<rparr>)))"

definition forget_previous :: "nat \<Rightarrow> relay \<Rightarrow> relay" where
  "forget_previous c s = s\<lparr>regs := (regs s)(c := map_option (\<lambda>r. r\<lparr>rg_previous := None\<rparr>) (regs s c))\<rparr>"

definition is_current :: "nat \<Rightarrow> relay \<Rightarrow> bool" where
  "is_current c s = (case regs s c of None \<Rightarrow> False | Some r \<Rightarrow> homes s (rg_home r) = Some c)"

definition previous_of :: "nat \<Rightarrow> relay \<Rightarrow> nat option" where
  "previous_of c s = Option.bind (regs s c) rg_previous"

definition commit_reg :: "nat \<Rightarrow> relay \<Rightarrow> bool \<times> relay" where
  "commit_reg c s = (if \<not> is_current c s then (False, s)
     else (True, case previous_of c s of None \<Rightarrow> forget_previous c s
       | Some p \<Rightarrow> (forget_previous c s)\<lparr>evicted := insert p (evicted s), closed := insert p (closed s)\<rparr>))"

definition rollback_reg :: "nat \<Rightarrow> relay \<Rightarrow> relay" where
  "rollback_reg c s = (case regs s c of None \<Rightarrow> s
     | Some r \<Rightarrow> if homes s (rg_home r) \<noteq> Some c then s
         else (forget_previous c s)\<lparr>homes := (homes s)(rg_home r := rg_previous r)\<rparr>)"

definition unregister :: "nat \<Rightarrow> relay \<Rightarrow> relay" where
  "unregister c s = (case regs s c of None \<Rightarrow> s
     | Some r \<Rightarrow> if homes s (rg_home r) = Some c then s\<lparr>homes := (homes s)(rg_home r := None)\<rparr> else s)"

definition record_ping :: "string \<Rightarrow> jval \<Rightarrow> rat \<Rightarrow> relay \<Rightarrow> relay" where
  "record_ping h text now s = (case text of JStr t \<Rightarrow>
       (case parse_beacon t of None \<Rightarrow> s
        | Some b \<Rightarrow> if is_provisioned h s
            then s\<lparr>ping_logs := (ping_logs s)(h \<mapsto> record_slot (dget (ping_logs s) h []) (b, now))\<rparr> else s)
     | _ \<Rightarrow> s)"

section \<open>The connection\<close>

datatype answer = Refused | Raised | Welcome

definition handle_hello :: "nat \<Rightarrow> hello \<Rightarrow> relay \<Rightarrow> answer \<times> relay" where
  "handle_hello c hl s =
     (if \<not> hl_is_hello hl then (Refused, s)
      else case int_of (hl_version hl) of Inl _ \<Rightarrow> (Raised, s)
      | Inr v \<Rightarrow> if v \<noteq> PROTO_VERSION then (Refused, s)
          else (case int_of (hl_generation hl) of Inl _ \<Rightarrow> (Raised, s)
            | Inr _ \<Rightarrow> (case register c hl s of None \<Rightarrow> (Refused, s) | Some s' \<Rightarrow> (Welcome, s'))))"

definition commit_registration :: "nat \<Rightarrow> relay \<Rightarrow> bool \<times> relay" where
  "commit_registration c s = (case commit_reg c s of (ok, s') \<Rightarrow>
     (ok, if ok then s'\<lparr>committed := insert c (committed s')\<rparr> else s'))"

definition conn_close :: "nat \<Rightarrow> relay \<Rightarrow> relay" where
  "conn_close c s = (let s = s\<lparr>closed := insert c (closed s)\<rparr> in
     if c \<in> committed s then unregister c s else rollback_reg c s)"

section \<open>The server\<close>

text \<open>The acknowledgement has reached the home: commit, take over the affinity, close the tunnel that had
  it. A registration that is no longer the current one is closed instead.\<close>

definition welcome_sent :: "nat \<Rightarrow> relay \<Rightarrow> relay" where
  "welcome_sent c s = (case commit_registration c s of
       (False, s') \<Rightarrow> (conn_close c (s'\<lparr>closed := insert c (closed s')\<rparr>))\<lparr>locked := Free\<rparr>
     | (True, s') \<Rightarrow> (case home_at s' c of None \<Rightarrow> s'
         | Some h \<Rightarrow> (let prior = connections s' h; s' = s'\<lparr>connections := (connections s')(h \<mapsto> c)\<rparr> in
             case prior of None \<Rightarrow> s'\<lparr>locked := Free\<rparr>
             | Some p \<Rightarrow> if p = c then s'\<lparr>locked := Free\<rparr>
                 else s'\<lparr>closed := insert p (closed s'), locked := Replacing p\<rparr>)))"

definition drop_affinity :: "nat \<Rightarrow> relay \<Rightarrow> relay" where
  "drop_affinity c s = (case home_at s c of None \<Rightarrow> s
     | Some h \<Rightarrow> if connections s h = Some c then s\<lparr>connections := (connections s)(h := None)\<rparr> else s)"

definition evict_home :: "string \<Rightarrow> relay \<Rightarrow> relay" where
  "evict_home h s = (case connections s h of None \<Rightarrow> s
     | Some c \<Rightarrow> s\<lparr>connections := (connections s)(h := None), closed := insert c (closed s)\<rparr>)"

datatype relay_event = Hello nat hello | Ack_Sent nat | Ack_Lost nat | Replaced nat | Starved nat | Lost nat
  | Torn_Down nat | Reload "(string \<times> string) list" | Evict string | Pong nat jval rat

inductive relay_step :: "relay \<Rightarrow> relay_event \<Rightarrow> relay \<Rightarrow> bool" where
  refused: "locked s = Free \<Longrightarrow> regs s c = None \<Longrightarrow> handle_hello c hl s = (a, s') \<Longrightarrow> a \<noteq> Welcome \<Longrightarrow>
     relay_step s (Hello c hl) (s\<lparr>closed := insert c (closed s)\<rparr>)"
| welcomed: "locked s = Free \<Longrightarrow> regs s c = None \<Longrightarrow> handle_hello c hl s = (Welcome, s') \<Longrightarrow>
     relay_step s (Hello c hl) (s'\<lparr>locked := Acking c\<rparr>)"
| ack_sent: "locked s = Acking c \<Longrightarrow> relay_step s (Ack_Sent c) (welcome_sent c s)"
| ack_lost: "locked s = Acking c \<Longrightarrow> relay_step s (Ack_Lost c) ((conn_close c s)\<lparr>locked := Free\<rparr>)"
| replaced: "locked s = Replacing p \<Longrightarrow> relay_step s (Replaced p) ((conn_close p s)\<lparr>locked := Free\<rparr>)"
| starved: "c \<in> committed s \<Longrightarrow> relay_step s (Starved c) (s\<lparr>closed := insert c (closed s)\<rparr>)"
| lost: "c \<in> committed s \<Longrightarrow> relay_step s (Lost c) ((drop_affinity c s)\<lparr>closed := insert c (closed s)\<rparr>)"
| torn_down: "c \<in> committed s \<Longrightarrow> c \<in> closed s \<Longrightarrow> relay_step s (Torn_Down c) (conn_close c s)"
| reload: "set hs = dom (homes s) \<Longrightarrow> replace_tokens m hs s = Some s' \<Longrightarrow> relay_step s (Reload m) s'"
| evict: "evict_tasks s = h # hs \<Longrightarrow> relay_step s (Evict h) (evict_home h (s\<lparr>evict_tasks := hs\<rparr>))"
| pong: "home_at s c = Some h \<Longrightarrow> c \<in> committed s \<Longrightarrow> relay_step s (Pong c text now) (record_ping h text now s)"

inductive reachable :: "(string \<times> string) list \<Rightarrow> relay \<Rightarrow> bool" for toks where
  start: "reachable toks (relay_init toks)"
| go: "reachable toks s \<Longrightarrow> relay_step s e s' \<Longrightarrow> reachable toks s'"

inductive_cases relay_stepE: "relay_step s e s'"

section \<open>The invariant\<close>

definition gen_of :: "relay \<Rightarrow> nat \<Rightarrow> int" where
  "gen_of s c = (case regs s c of None \<Rightarrow> 0 | Some r \<Rightarrow> rg_gen r)"

definition live :: "relay \<Rightarrow> nat \<Rightarrow> bool" where
  "live s c \<longleftrightarrow> c \<in> committed s \<and> c \<notin> closed s"

text \<open>The registry knows the tunnel: it is the home's, or the registration whose acknowledgement is on its
  way has it to go back to.\<close>

definition routed :: "relay \<Rightarrow> string \<Rightarrow> nat \<Rightarrow> bool" where
  "routed s h c \<longleftrightarrow> homes s h = Some c \<or> (\<exists>p. locked s = Acking p \<and> homes s h = Some p \<and> previous_of p s = Some c)"

definition homes_ok :: "relay \<Rightarrow> bool" where
  "homes_ok s \<longleftrightarrow> (\<forall>h c. homes s h = Some c \<longrightarrow> home_at s c = Some h \<and> is_provisioned h s \<and>
     (c \<in> committed s \<or> locked s = Acking c))"

definition previous_ok :: "relay \<Rightarrow> bool" where
  "previous_ok s \<longleftrightarrow> (\<forall>h p c. homes s h = Some p \<longrightarrow> previous_of p s = Some c \<longrightarrow>
     c \<noteq> p \<and> home_at s c = Some h \<and> c \<in> committed s \<and> gen_of s c < gen_of s p)"

definition affinity_ok :: "relay \<Rightarrow> bool" where
  "affinity_ok s \<longleftrightarrow> (\<forall>h c. connections s h = Some c \<longrightarrow> home_at s c = Some h \<and> c \<in> committed s)"

definition live_ok :: "relay \<Rightarrow> bool" where
  "live_ok s \<longleftrightarrow> (\<forall>c h. live s c \<longrightarrow> home_at s c = Some h \<longrightarrow>
     connections s h = Some c \<and> (routed s h c \<or> h \<in> set (evict_tasks s)))"

definition known_ok :: "relay \<Rightarrow> bool" where
  "known_ok s \<longleftrightarrow> (\<forall>c \<in> committed s. home_at s c \<noteq> None \<and> previous_of c s = None) \<and>
     (\<forall>c. locked s = Acking c \<longrightarrow> c \<notin> committed s \<and> home_at s c \<noteq> None) \<and>
     (\<forall>c. locked s = Replacing c \<longrightarrow> c \<in> committed s)"

definition relay_ok :: "relay \<Rightarrow> bool" where
  "relay_ok s \<longleftrightarrow> homes_ok s \<and> previous_ok s \<and> affinity_ok s \<and> live_ok s \<and> known_ok s"

lemma relay_ok_init: "relay_ok (relay_init toks)"
  by (simp add: relay_ok_def homes_ok_def previous_ok_def affinity_ok_def live_ok_def known_ok_def relay_init_def live_def)

lemma relay_okD:
  assumes "relay_ok s"
  shows "homes s h = Some c \<Longrightarrow> home_at s c = Some h \<and> is_provisioned h s \<and> (c \<in> committed s \<or> locked s = Acking c)"
    and "homes s h = Some p \<Longrightarrow> previous_of p s = Some c \<Longrightarrow>
      c \<noteq> p \<and> home_at s c = Some h \<and> c \<in> committed s \<and> gen_of s c < gen_of s p"
    and "connections s h = Some c \<Longrightarrow> home_at s c = Some h \<and> c \<in> committed s"
    and "live s c \<Longrightarrow> home_at s c = Some h \<Longrightarrow> connections s h = Some c \<and> (routed s h c \<or> h \<in> set (evict_tasks s))"
    and "c \<in> committed s \<Longrightarrow> home_at s c \<noteq> None \<and> previous_of c s = None"
    and "locked s = Acking c \<Longrightarrow> c \<notin> committed s \<and> home_at s c \<noteq> None"
    and "locked s = Replacing c \<Longrightarrow> c \<in> committed s"
  using assms unfolding relay_ok_def homes_ok_def previous_ok_def affinity_ok_def live_ok_def known_ok_def by blast+

lemma relay_okI:
  assumes "\<And>h c. homes s h = Some c \<Longrightarrow> home_at s c = Some h \<and> is_provisioned h s \<and> (c \<in> committed s \<or> locked s = Acking c)"
    and "\<And>h p c. homes s h = Some p \<Longrightarrow> previous_of p s = Some c \<Longrightarrow>
      c \<noteq> p \<and> home_at s c = Some h \<and> c \<in> committed s \<and> gen_of s c < gen_of s p"
    and "\<And>h c. connections s h = Some c \<Longrightarrow> home_at s c = Some h \<and> c \<in> committed s"
    and "\<And>h c. live s c \<Longrightarrow> home_at s c = Some h \<Longrightarrow> connections s h = Some c \<and> (routed s h c \<or> h \<in> set (evict_tasks s))"
    and "\<And>c. c \<in> committed s \<Longrightarrow> home_at s c \<noteq> None \<and> previous_of c s = None"
    and "\<And>c. locked s = Acking c \<Longrightarrow> c \<notin> committed s \<and> home_at s c \<noteq> None"
    and "\<And>c. locked s = Replacing c \<Longrightarrow> c \<in> committed s"
  shows "relay_ok s"
  using assms unfolding relay_ok_def homes_ok_def previous_ok_def affinity_ok_def live_ok_def known_ok_def by blast

text \<open>What each operation leaves alone.\<close>

lemma home_at_forget [simp]: "home_at (forget_previous p s) c = home_at s c"
  by (auto simp: home_at_def forget_previous_def map_option_case split: option.splits)

lemma gen_of_forget [simp]: "gen_of (forget_previous p s) c = gen_of s c"
  by (auto simp: gen_of_def forget_previous_def split: option.splits)

lemma previous_of_forget: "previous_of c (forget_previous p s) = (if c = p then None else previous_of c s)"
  by (cases "regs s p") (simp_all add: previous_of_def forget_previous_def)

lemma forget_fields [simp]:
  "tokens (forget_previous p s) = tokens s" "homes (forget_previous p s) = homes s"
  "closed (forget_previous p s) = closed s" "committed (forget_previous p s) = committed s"
  "connections (forget_previous p s) = connections s" "evict_tasks (forget_previous p s) = evict_tasks s"
  "locked (forget_previous p s) = locked s"
  by (simp_all add: forget_previous_def)

text \<open>A tunnel that is committed and told to close: its home's route goes only if it is the route.\<close>

lemma conn_close_committed:
  assumes "c \<in> committed s"
  shows "conn_close c s = s\<lparr>closed := insert c (closed s),
    homes := (case home_at s c of None \<Rightarrow> homes s | Some h \<Rightarrow> if homes s h = Some c then (homes s)(h := None) else homes s)\<rparr>"
  using assms by (auto simp: conn_close_def unregister_def home_at_def split: option.splits)

lemma unaffected [simp]:
  "home_at (s\<lparr>closed := x\<rparr>) c = home_at s c" "home_at (s\<lparr>locked := l\<rparr>) c = home_at s c"
  "home_at (s\<lparr>homes := m\<rparr>) c = home_at s c" "home_at (s\<lparr>connections := m\<rparr>) c = home_at s c"
  "home_at (s\<lparr>evict_tasks := ts\<rparr>) c = home_at s c" "home_at (s\<lparr>committed := x\<rparr>) c = home_at s c"
  "home_at (s\<lparr>evicted := x\<rparr>) c = home_at s c" "home_at (s\<lparr>ping_logs := g\<rparr>) c = home_at s c"
  "home_at (s\<lparr>tokens := tk\<rparr>) c = home_at s c"
  "previous_of c (s\<lparr>closed := x\<rparr>) = previous_of c s" "previous_of c (s\<lparr>locked := l\<rparr>) = previous_of c s"
  "previous_of c (s\<lparr>homes := m\<rparr>) = previous_of c s" "previous_of c (s\<lparr>connections := m\<rparr>) = previous_of c s"
  "previous_of c (s\<lparr>evict_tasks := ts\<rparr>) = previous_of c s" "previous_of c (s\<lparr>committed := x\<rparr>) = previous_of c s"
  "previous_of c (s\<lparr>evicted := x\<rparr>) = previous_of c s" "previous_of c (s\<lparr>ping_logs := g\<rparr>) = previous_of c s"
  "previous_of c (s\<lparr>tokens := tk\<rparr>) = previous_of c s"
  "gen_of (s\<lparr>closed := x\<rparr>) c = gen_of s c" "gen_of (s\<lparr>locked := l\<rparr>) c = gen_of s c"
  "gen_of (s\<lparr>homes := m\<rparr>) c = gen_of s c" "gen_of (s\<lparr>connections := m\<rparr>) c = gen_of s c"
  "gen_of (s\<lparr>evict_tasks := ts\<rparr>) c = gen_of s c" "gen_of (s\<lparr>committed := x\<rparr>) c = gen_of s c"
  "gen_of (s\<lparr>evicted := x\<rparr>) c = gen_of s c" "gen_of (s\<lparr>ping_logs := g\<rparr>) c = gen_of s c"
  "gen_of (s\<lparr>tokens := tk\<rparr>) c = gen_of s c"
  by (simp_all add: home_at_def previous_of_def gen_of_def)

text \<open>A step that makes no registration and no commit keeps the invariant when it only takes routes and
  affinities away, and leaves those of the tunnels that stay live.\<close>

lemma relay_ok_mono:
  assumes ok: "relay_ok s"
    and same: "\<And>c. home_at s' c = home_at s c" "\<And>c. previous_of c s' = previous_of c s" "\<And>c. gen_of s' c = gen_of s c"
      "committed s' = committed s" "\<And>c. locked s' = Acking c \<longleftrightarrow> locked s = Acking c"
      "\<And>c. locked s' = Replacing c \<Longrightarrow> locked s = Replacing c"
    and routes: "\<And>h c. homes s' h = Some c \<Longrightarrow> homes s h = Some c"
      "\<And>h c. homes s' h = Some c \<Longrightarrow> is_provisioned h s \<Longrightarrow> is_provisioned h s'"
    and conns: "\<And>h c. connections s' h = Some c \<Longrightarrow> connections s h = Some c"
    and lives: "\<And>h c. c \<in> committed s \<Longrightarrow> c \<notin> closed s' \<Longrightarrow> home_at s c = Some h \<Longrightarrow> c \<notin> closed s \<and>
      (connections s h = Some c \<longrightarrow> routed s h c \<or> h \<in> set (evict_tasks s) \<longrightarrow>
         connections s' h = Some c \<and> (routed s' h c \<or> h \<in> set (evict_tasks s')))"
  shows "relay_ok s'"
proof (rule relay_okI)
  fix h c assume "homes s' h = Some c"
  then show "home_at s' c = Some h \<and> is_provisioned h s' \<and> (c \<in> committed s' \<or> locked s' = Acking c)"
    unfolding same(1-5) using relay_okD(1) [OF ok routes(1)] routes(2) by blast
next
  fix h p c assume "homes s' h = Some p" "previous_of p s' = Some c"
  then have "homes s h = Some p" "previous_of p s = Some c" using routes(1) same by simp_all
  from relay_okD(2) [OF ok this]
  show "c \<noteq> p \<and> home_at s' c = Some h \<and> c \<in> committed s' \<and> gen_of s' c < gen_of s' p" unfolding same(1-5) .
next
  fix h c assume "connections s' h = Some c"
  from relay_okD(3) [OF ok conns [OF this]] show "home_at s' c = Some h \<and> c \<in> committed s'" unfolding same(1-5) .
next
  fix h c assume "live s' c" "home_at s' c = Some h"
  then have c: "c \<in> committed s" "c \<notin> closed s'" "home_at s c = Some h" unfolding live_def same(1-5) by blast+
  from lives [OF this] have "live s c" using c(1) by (simp add: live_def)
  from relay_okD(4) [OF ok this c(3)] lives [OF c]
  show "connections s' h = Some c \<and> (routed s' h c \<or> h \<in> set (evict_tasks s'))" by blast
next
  fix c assume "c \<in> committed s'"
  then show "home_at s' c \<noteq> None \<and> previous_of c s' = None" unfolding same(1-5) by (rule relay_okD(5) [OF ok])
next
  fix c assume "locked s' = Acking c"
  then show "c \<notin> committed s' \<and> home_at s' c \<noteq> None" unfolding same(1-5) by (rule relay_okD(6) [OF ok])
next
  fix c assume "locked s' = Replacing c"
  from relay_okD(7) [OF ok same(6) [OF this]] show "c \<in> committed s'" unfolding same(4) .
qed

lemma relay_ok_close: "relay_ok s \<Longrightarrow> relay_ok (s\<lparr>closed := insert c (closed s)\<rparr>)"
  by (rule relay_ok_mono [of s], assumption) (simp_all add: is_provisioned_def routed_def)

lemma relay_ok_unlock:
  assumes ok: "relay_ok s" and l: "\<And>c. locked s \<noteq> Acking c"
  shows "relay_ok (s\<lparr>locked := Free\<rparr>)"
  by (rule relay_ok_mono [OF ok]) (simp_all add: is_provisioned_def routed_def l)

lemma relay_ok_pong: "relay_ok s \<Longrightarrow> relay_ok (record_ping h text now s)"
proof -
  assume ok: "relay_ok s"
  have "relay_ok (s\<lparr>ping_logs := g\<rparr>)" for g
    by (rule relay_ok_mono [OF ok]) (simp_all add: is_provisioned_def routed_def)
  then show ?thesis using ok by (simp add: record_ping_def split: jval.split option.split)
qed

lemma relay_ok_torn_down:
  assumes ok: "relay_ok s" and c: "c \<in> committed s"
  shows "relay_ok (conn_close c s)"
proof -
  obtain hc where hc: "home_at s c = Some hc" using relay_okD(5) [OF ok c] by blast
  have s': "conn_close c s = s\<lparr>closed := insert c (closed s),
      homes := (if homes s hc = Some c then (homes s)(hc := None) else homes s)\<rparr>"
    using conn_close_committed [OF c] hc by simp
  have nl: "locked s \<noteq> Acking c" using relay_okD(6) [OF ok] c by blast
  show ?thesis
  proof (rule relay_ok_mono [OF ok])
    fix h d assume "homes (conn_close c s) h = Some d"
    then show "homes s h = Some d" by (simp add: s' split: if_splits)
  next
    fix h d assume "d \<in> committed s" "d \<notin> closed (conn_close c s)" "home_at s d = Some h"
    then have "d \<noteq> c" "d \<notin> closed s" by (simp_all add: s')
    then show "d \<notin> closed s \<and> (connections s h = Some d \<longrightarrow> routed s h d \<or> h \<in> set (evict_tasks s) \<longrightarrow>
        connections (conn_close c s) h = Some d \<and> (routed (conn_close c s) h d \<or> h \<in> set (evict_tasks (conn_close c s))))"
      using nl by (auto simp: s' routed_def)
  qed (simp_all add: s' is_provisioned_def)
qed

lemma relay_ok_lost:
  assumes ok: "relay_ok s" and c: "c \<in> committed s"
  shows "relay_ok ((drop_affinity c s)\<lparr>closed := insert c (closed s)\<rparr>)"
proof -
  obtain hc where hc: "home_at s c = Some hc" using relay_okD(5) [OF ok c] by blast
  have s': "(drop_affinity c s)\<lparr>closed := insert c (closed s)\<rparr> = s\<lparr>closed := insert c (closed s),
      connections := (if connections s hc = Some c then (connections s)(hc := None) else connections s)\<rparr>"
    by (simp add: drop_affinity_def hc)
  show ?thesis unfolding s'
    by (rule relay_ok_mono [OF ok]) (auto simp: is_provisioned_def routed_def split: if_splits)
qed

lemma relay_ok_evict:
  assumes ok: "relay_ok s" and t: "evict_tasks s = h # hs"
  shows "relay_ok (evict_home h (s\<lparr>evict_tasks := hs\<rparr>))"
proof (cases "connections s h")
  case None
  then have s': "evict_home h (s\<lparr>evict_tasks := hs\<rparr>) = s\<lparr>evict_tasks := hs\<rparr>" by (simp add: evict_home_def)
  show ?thesis unfolding s'
    by (rule relay_ok_mono [OF ok]) (use None t in \<open>auto simp: is_provisioned_def routed_def\<close>)
next
  case (Some c)
  then have s': "evict_home h (s\<lparr>evict_tasks := hs\<rparr>) =
      s\<lparr>evict_tasks := hs, connections := (connections s)(h := None), closed := insert c (closed s)\<rparr>"
    by (simp add: evict_home_def)
  show ?thesis unfolding s'
    by (rule relay_ok_mono [OF ok])
      (use Some t in \<open>auto simp: is_provisioned_def routed_def split: if_splits\<close>)
qed

text \<open>A reload.\<close>

lemma fold_evict:
  "fold evict_registered hs s = s\<lparr>homes := (\<lambda>h. if h \<in> set hs then None else homes s h),
     evicted := evicted s \<union> {c. \<exists>h \<in> set hs. homes s h = Some c},
     closed := closed s \<union> {c. \<exists>h \<in> set hs. homes s h = Some c}\<rparr>"
proof (induction hs arbitrary: s)
  case (Cons h hs)
  have "evict_registered h s = s\<lparr>homes := (homes s)(h := None), evicted := evicted s \<union> {c. homes s h = Some c},
      closed := closed s \<union> {c. homes s h = Some c}\<rparr>"
    by (cases "homes s h") (auto simp: evict_registered_def fun_upd_idem)
  then show ?case by (simp add: Cons.IH) (auto intro!: relay.equality)
qed simp

lemma relay_ok_reload:
  assumes ok: "relay_ok s" and r: "replace_tokens m hs s = Some s'" and hs: "set hs = dom (homes s)"
  shows "relay_ok s'"
proof -
  let ?gone = "filter (\<lambda>h. h \<notin> snd ` set m) hs"
  let ?C = "{c. \<exists>h \<in> set ?gone. homes s h = Some c}"
  have s': "s' = s\<lparr>tokens := m, evict_tasks := evict_tasks s @ ?gone,
      homes := (\<lambda>h. if h \<in> set ?gone then None else homes s h), evicted := evicted s \<union> ?C, closed := closed s \<union> ?C\<rparr>"
    using r by (auto simp: replace_tokens_def Let_def fold_evict cong: if_cong split: if_splits)
  show ?thesis
  proof (rule relay_ok_mono [OF ok])
    fix h c assume c: "homes s' h = Some c"
    then show "homes s h = Some c" by (auto simp: s' split: if_splits)
    then show "is_provisioned h s'" using hs c by (auto simp: s' is_provisioned_def split: if_splits)
  next
    fix h c assume "c \<notin> closed s'"
    then show "c \<notin> closed s \<and> (connections s h = Some c \<longrightarrow> routed s h c \<or> h \<in> set (evict_tasks s) \<longrightarrow>
        connections s' h = Some c \<and> (routed s' h c \<or> h \<in> set (evict_tasks s')))"
      by (cases "h \<in> set ?gone") (auto simp: s' routed_def)
  qed (simp_all add: s')
qed

text \<open>A registration, and its two ends.\<close>

lemma handle_hello_Welcome:
  assumes "handle_hello c hl s = (Welcome, s')"
  obtains h gen where "validate_token (hl_token hl) s = Some h"
    "s' = s\<lparr>homes := (homes s)(h \<mapsto> c), regs := (regs s)(c \<mapsto> \<lparr>rg_home = h, rg_gen = gen, rg_previous = homes s h\<rparr>)\<rparr>"
    "\<And>e. homes s h = Some e \<Longrightarrow> regs s e \<noteq> None \<Longrightarrow> gen_of s e < gen"
proof -
  have reg: "register c hl s = Some s'"
    using assms by (auto simp: handle_hello_def split: if_splits sum.splits option.splits)
  then obtain gen h where g: "int_of (hl_generation hl) = Inr gen" "validate_token (hl_token hl) s = Some h"
    by (auto simp: register_def split: sum.splits option.splits)
  show ?thesis
  proof (rule that [OF g(2)])
    show "s' = s\<lparr>homes := (homes s)(h \<mapsto> c), regs := (regs s)(c \<mapsto> \<lparr>rg_home = h, rg_gen = gen, rg_previous = homes s h\<rparr>)\<rparr>"
      using reg g by (simp add: register_def split: if_splits)
    show "gen_of s e < gen" if "homes s h = Some e" "regs s e \<noteq> None" for e
      using reg g that by (auto simp: register_def gen_of_def split: if_splits)
  qed
qed

lemma validate_provisioned: "validate_token tok s = Some h \<Longrightarrow> is_provisioned h s"
  by (force simp: validate_token_def is_provisioned_def find_Some_iff split: jval.splits if_splits dest: nth_mem)

lemma relay_ok_hello:
  assumes ok: "relay_ok s" and free: "locked s = Free" and new: "regs s c = None" and w: "handle_hello c hl s = (Welcome, s')"
  shows "relay_ok (s'\<lparr>locked := Acking c\<rparr>)" (is "relay_ok ?s")
proof -
  from w obtain h gen where tok: "validate_token (hl_token hl) s = Some h" and
    s': "s' = s\<lparr>homes := (homes s)(h \<mapsto> c), regs := (regs s)(c \<mapsto> \<lparr>rg_home = h, rg_gen = gen, rg_previous = homes s h\<rparr>)\<rparr>" and
    gen: "\<And>e. homes s h = Some e \<Longrightarrow> regs s e \<noteq> None \<Longrightarrow> gen_of s e < gen"
    by (rule handle_hello_Welcome) blast
  have nc: "home_at s c = None" using new by (simp add: home_at_def)
  have at: "home_at ?s d = (if d = c then Some h else home_at s d)"
    "previous_of d ?s = (if d = c then homes s h else previous_of d s)" "gen_of ?s d = (if d = c then gen else gen_of s d)" for d
    by (simp_all add: s' home_at_def previous_of_def gen_of_def)
  have fields: "homes ?s = (homes s)(h \<mapsto> c)" "committed ?s = committed s" "closed ?s = closed s" "connections ?s = connections s"
    "evict_tasks ?s = evict_tasks s" "locked ?s = Acking c" "tokens ?s = tokens s"
    by (simp_all add: s')
  have cc: "c \<notin> committed s" using relay_okD(5) [OF ok] nc by blast
  show ?thesis
  proof (rule relay_okI)
    fix g d assume "homes ?s g = Some d"
    then show "home_at ?s d = Some g \<and> is_provisioned g ?s \<and> (d \<in> committed ?s \<or> locked ?s = Acking d)"
      using relay_okD(1) [OF ok, of g d] validate_provisioned [OF tok] nc free
      unfolding at fields is_provisioned_def by (auto split: if_splits)
  next
    fix g p d assume p: "homes ?s g = Some p" "previous_of p ?s = Some d"
    show "d \<noteq> p \<and> home_at ?s d = Some g \<and> d \<in> committed ?s \<and> gen_of ?s d < gen_of ?s p"
    proof (cases "p = c")
      case True
      then have "g = h" using p(1) relay_okD(1) [OF ok, of g c] nc unfolding fields by (auto split: if_splits)
      then have d: "homes s h = Some d" using p(2) True unfolding at by simp
      from relay_okD(1) [OF ok d] have "home_at s d = Some h" "d \<in> committed s" using free by simp_all
      moreover from this have "d \<noteq> c" using nc by auto
      moreover have "gen_of s d < gen" by (rule gen [OF d]) (use \<open>home_at s d = Some h\<close> in \<open>auto simp: home_at_def\<close>)
      ultimately show ?thesis using True \<open>g = h\<close> unfolding at fields by simp
    next
      case False
      then have "homes s g = Some p" "previous_of p s = Some d" using p unfolding at fields by (auto split: if_splits)
      from relay_okD(2) [OF ok this] have "d \<noteq> p" "home_at s d = Some g" "d \<in> committed s" "gen_of s d < gen_of s p" by blast+
      then show ?thesis using False nc unfolding at fields by auto
    qed
  next
    fix g d assume d: "live ?s d" "home_at ?s d = Some g"
    then have dc: "d \<noteq> c" "live s d" "home_at s d = Some g" using cc unfolding at live_def fields by (auto split: if_splits)
    from relay_okD(4) [OF ok dc(2,3)] free have conn: "connections s g = Some d" and
      r: "homes s g = Some d \<or> g \<in> set (evict_tasks s)" by (auto simp: routed_def)
    show "connections ?s g = Some d \<and> (routed ?s g d \<or> g \<in> set (evict_tasks ?s))"
      using conn r unfolding routed_def fields at by auto
  next
    fix g d assume "connections ?s g = Some d"
    then show "home_at ?s d = Some g \<and> d \<in> committed ?s"
      using relay_okD(3) [OF ok, of g d] nc unfolding at fields by auto
  next
    fix d assume "d \<in> committed ?s"
    then show "home_at ?s d \<noteq> None \<and> previous_of d ?s = None"
      using relay_okD(5) [OF ok, of d] cc unfolding at fields by auto
  next
    fix d assume "locked ?s = Acking d"
    then show "d \<notin> committed ?s \<and> home_at ?s d \<noteq> None" using cc unfolding at fields by auto
  qed (simp add: fields)
qed

lemma conn_close_pending:
  assumes "c \<notin> committed s" and h: "home_at s c = Some h"
  shows "conn_close c s = (if homes s h = Some c
    then (forget_previous c (s\<lparr>closed := insert c (closed s)\<rparr>))\<lparr>homes := (homes s)(h := previous_of c s)\<rparr>
    else s\<lparr>closed := insert c (closed s)\<rparr>)"
  using assms by (auto simp: conn_close_def rollback_reg_def home_at_def previous_of_def)

lemma relay_ok_ack_lost:
  assumes ok: "relay_ok s" and l: "locked s = Acking c"
  shows "relay_ok ((conn_close c s)\<lparr>locked := Free\<rparr>)" (is "relay_ok ?s")
proof -
  have c: "c \<notin> committed s" using relay_okD(6) [OF ok l] by blast
  obtain h where h: "home_at s c = Some h" using relay_okD(6) [OF ok l] by blast
  have fields: "committed ?s = committed s" "closed ?s = insert c (closed s)" "connections ?s = connections s"
    "evict_tasks ?s = evict_tasks s" "locked ?s = Free" "tokens ?s = tokens s"
    "homes ?s = (if homes s h = Some c then (homes s)(h := previous_of c s) else homes s)"
    by (simp_all add: conn_close_pending [OF c h])
  have at [simp]: "home_at ?s d = home_at s d" "gen_of ?s d = gen_of s d" for d
    by (simp_all add: conn_close_pending [OF c h])
  have prev: "d \<noteq> c \<Longrightarrow> previous_of d ?s = previous_of d s" for d
    by (simp add: conn_close_pending [OF c h] previous_of_forget)
  have earlier: "homes s g = Some d \<and> d \<noteq> c \<or> g = h \<and> homes s h = Some c \<and> previous_of c s = Some d"
    if "homes ?s g = Some d" for g d
    using that relay_okD(1) [OF ok, of g c] h unfolding fields by (auto split: if_splits)
  show ?thesis
  proof (rule relay_okI)
    fix g d assume "homes ?s g = Some d"
    from earlier [OF this] have "home_at s d = Some g \<and> is_provisioned g s \<and> d \<in> committed s"
    proof
      assume "homes s g = Some d \<and> d \<noteq> c"
      with relay_okD(1) [OF ok, of g d] l show ?thesis by simp
    next
      assume h: "g = h \<and> homes s h = Some c \<and> previous_of c s = Some d"
      from relay_okD(1) [OF ok, of h c] relay_okD(2) [OF ok, of h c d] h show ?thesis by blast
    qed
    then show "home_at ?s d = Some g \<and> is_provisioned g ?s \<and> (d \<in> committed ?s \<or> locked ?s = Acking d)"
      unfolding is_provisioned_def at fields by simp
  next
    fix g p d assume p: "homes ?s g = Some p" and d: "previous_of p ?s = Some d"
    have pc: "p \<noteq> c" using earlier [OF p] relay_okD(2) [OF ok, of h c p] by auto
    from earlier [OF p] have "homes s g = Some p \<or> previous_of p s = None"
    proof
      assume "g = h \<and> homes s h = Some c \<and> previous_of c s = Some p"
      then have "p \<in> committed s" using relay_okD(2) [OF ok, of h c p] by blast
      from relay_okD(5) [OF ok this] show ?thesis by simp
    qed blast
    then have "homes s g = Some p" using d unfolding prev [OF pc] by auto
    then show "d \<noteq> p \<and> home_at ?s d = Some g \<and> d \<in> committed ?s \<and> gen_of ?s d < gen_of ?s p"
      using relay_okD(2) [OF ok, of g p d] d unfolding prev [OF pc] at fields by blast
  next
    fix g d assume d: "live ?s d" "home_at ?s d = Some g"
    then have dc: "d \<noteq> c" "live s d" "home_at s d = Some g" unfolding live_def fields at by auto
    from relay_okD(4) [OF ok dc(2,3)] have conn: "connections s g = Some d" and
      r: "routed s g d \<or> g \<in> set (evict_tasks s)" by blast+
    have "homes ?s g = Some d" if "routed s g d"
    proof -
      from that have "homes s g = Some d \<or> homes s g = Some c \<and> previous_of c s = Some d"
        using l by (auto simp: routed_def)
      moreover have "homes s g = Some c \<Longrightarrow> g = h" using relay_okD(1) [OF ok, of g c] h by simp
      ultimately show ?thesis using dc(1) unfolding fields by auto
    qed
    then have "routed ?s g d \<or> g \<in> set (evict_tasks s)" using r by (auto simp only: routed_def)
    then show "connections ?s g = Some d \<and> (routed ?s g d \<or> g \<in> set (evict_tasks ?s))"
      using conn unfolding fields by blast
  next
    fix g d assume "connections ?s g = Some d"
    then show "home_at ?s d = Some g \<and> d \<in> committed ?s"
      using relay_okD(3) [OF ok, of g d] unfolding at fields by simp
  next
    fix d assume "d \<in> committed ?s"
    then have d: "d \<in> committed s" "d \<noteq> c" using c unfolding fields by auto
    then show "home_at ?s d \<noteq> None \<and> previous_of d ?s = None"
      using relay_okD(5) [OF ok d(1)] prev [OF d(2)] unfolding at by simp
  qed (simp_all add: fields)
qed

lemma welcome_sent_current:
  assumes h: "home_at s c = Some h" and cur: "homes s h = Some c" and s': "s' = welcome_sent c s"
  shows "homes s' = homes s" "committed s' = insert c (committed s)" "connections s' = (connections s)(h \<mapsto> c)"
    "closed s' = closed s \<union> (set_option (previous_of c s) \<union> (set_option (connections s h) - {c}))"
    "evict_tasks s' = evict_tasks s" "tokens s' = tokens s" "locked s' \<noteq> Acking d"
    "locked s' = Replacing p \<Longrightarrow> connections s h = Some p"
    "home_at s' d = home_at s d" "gen_of s' d = gen_of s d" "previous_of d s' = (if d = c then None else previous_of d s)"
proof -
  obtain r where r: "regs s c = Some r" "rg_home r = h" using h by (auto simp: home_at_def)
  have i: "is_current c s" using r cur by (simp add: is_current_def)
  let ?u = "(forget_previous c s)\<lparr>evicted := evicted s \<union> set_option (previous_of c s),
      closed := closed s \<union> set_option (previous_of c s), committed := insert c (committed s)\<rparr>"
  have "commit_registration c s = (True, ?u)"
    using i by (cases "previous_of c s") (simp_all add: commit_registration_def commit_reg_def forget_previous_def)
  then have w: "welcome_sent c s = (let prior = connections s h; u = ?u\<lparr>connections := (connections s)(h \<mapsto> c)\<rparr> in
      case prior of None \<Rightarrow> u\<lparr>locked := Free\<rparr>
      | Some p \<Rightarrow> if p = c then u\<lparr>locked := Free\<rparr> else u\<lparr>closed := insert p (closed u), locked := Replacing p\<rparr>)"
    using h by (simp add: welcome_sent_def Let_def)
  show "homes s' = homes s" "committed s' = insert c (committed s)" "connections s' = (connections s)(h \<mapsto> c)"
    "closed s' = closed s \<union> (set_option (previous_of c s) \<union> (set_option (connections s h) - {c}))"
    "evict_tasks s' = evict_tasks s" "tokens s' = tokens s" "locked s' \<noteq> Acking d"
    "home_at s' d = home_at s d" "gen_of s' d = gen_of s d" "previous_of d s' = (if d = c then None else previous_of d s)"
    unfolding s' w by (simp_all add: Let_def previous_of_forget split: option.split if_split)
  show "connections s h = Some p" if "locked s' = Replacing p"
    using that unfolding s' w by (auto simp: Let_def split: option.splits if_splits)
qed

lemma relay_ok_ack_sent:
  assumes ok: "relay_ok s" and l: "locked s = Acking c"
  shows "relay_ok (welcome_sent c s)"
proof -
  obtain h where h: "home_at s c = Some h" using relay_okD(6) [OF ok l] by blast
  show ?thesis
  proof (cases "homes s h = Some c")
    case False
    then have "\<not> is_current c s" using h by (auto simp: is_current_def home_at_def split: option.splits)
    then have "welcome_sent c s = (conn_close c (s\<lparr>closed := insert c (closed s)\<rparr>))\<lparr>locked := Free\<rparr>"
      by (simp add: welcome_sent_def commit_registration_def commit_reg_def)
    then show ?thesis using relay_ok_ack_lost [OF relay_ok_close [OF ok], of c c] l by simp
  next
    case True
    define s' where "s' = welcome_sent c s"
    note fields = welcome_sent_current [OF h True s'_def]
    have only: "g = h" if "homes s g = Some c" for g using relay_okD(1) [OF ok that] h by simp
    show ?thesis unfolding s'_def [symmetric]
    proof (rule relay_okI)
      fix g d assume "homes s' g = Some d"
      then have "homes s g = Some d" unfolding fields .
      from relay_okD(1) [OF ok this] l
      show "home_at s' d = Some g \<and> is_provisioned g s' \<and> (d \<in> committed s' \<or> locked s' = Acking d)"
        unfolding fields is_provisioned_def by auto
    next
      fix g p d assume a: "homes s' g = Some p" "previous_of p s' = Some d"
      then have "p \<noteq> c" "homes s g = Some p" "previous_of p s = Some d" unfolding fields by (auto split: if_splits)
      from relay_okD(2) [OF ok this(2,3)]
      show "d \<noteq> p \<and> home_at s' d = Some g \<and> d \<in> committed s' \<and> gen_of s' d < gen_of s' p" unfolding fields by blast
    next
      fix g d assume "connections s' g = Some d"
      then show "home_at s' d = Some g \<and> d \<in> committed s'"
        using relay_okD(3) [OF ok, of g d] h unfolding fields by (auto split: if_splits)
    next
      fix g d assume d: "live s' d" "home_at s' d = Some g"
      show "connections s' g = Some d \<and> (routed s' g d \<or> g \<in> set (evict_tasks s'))"
      proof (cases "d = c")
        case True
        then have "g = h" using d(2) h unfolding fields by simp
        then show ?thesis using True \<open>homes s h = Some c\<close> unfolding routed_def fields by simp
      next
        case False
        then have dl: "live s d" "home_at s d = Some g" using d unfolding live_def fields by auto
        from relay_okD(4) [OF ok this] have conn: "connections s g = Some d" and
          r: "routed s g d \<or> g \<in> set (evict_tasks s)" by blast+
        have "g \<noteq> h" using conn d(1) False unfolding live_def fields by auto
        then have "homes s g = Some d \<or> g \<in> set (evict_tasks s)" using r only l by (auto simp: routed_def)
        then show ?thesis using conn \<open>g \<noteq> h\<close> unfolding routed_def fields by auto
      qed
    next
      fix d assume "d \<in> committed s'"
      then show "home_at s' d \<noteq> None \<and> previous_of d s' = None"
        using relay_okD(5) [OF ok, of d] h unfolding fields by auto
    next
      fix p assume "locked s' = Replacing p"
      from relay_okD(3) [OF ok fields(8) [OF this]] show "p \<in> committed s'" unfolding fields(2) by simp
    qed (simp add: fields(7))
  qed
qed

lemma relay_step_ok: "relay_step s e s' \<Longrightarrow> relay_ok s \<Longrightarrow> relay_ok s'"
proof (induction rule: relay_step.induct)
  case (refused s c hl a s')
  then show ?case using relay_ok_close by blast
next
  case (welcomed s c hl s')
  then show ?case using relay_ok_hello by blast
next
  case (ack_sent s c)
  then show ?case using relay_ok_ack_sent by blast
next
  case (ack_lost s c)
  then show ?case using relay_ok_ack_lost by blast
next
  case (starved c s)
  then show ?case using relay_ok_close by blast
next
  case (lost c s)
  then show ?case using relay_ok_lost by blast
next
  case (torn_down c s)
  then show ?case using relay_ok_torn_down by blast
next
  case (reload hs s m s')
  then show ?case using relay_ok_reload by blast
next
  case (evict s h hs)
  then show ?case using relay_ok_evict by blast
next
  case (pong s c h t now)
  then show ?case using relay_ok_pong by blast
next
  case (replaced s p)
  have p: "p \<in> committed s" using relay_okD(7) replaced by blast
  have "locked (conn_close p s) = Replacing p" using replaced(1) by (simp add: conn_close_committed [OF p])
  then show ?case using relay_ok_unlock [OF relay_ok_torn_down [OF replaced(2) p]] by simp
qed

lemma relay_reachable_ok: "reachable toks s \<Longrightarrow> relay_ok s"
  by (induction rule: reachable.induct) (auto intro: relay_ok_init relay_step_ok)

section \<open>A demonstration\<close>

definition a_token :: string where
  "a_token = replicate 32 (CHR ''x'')"

definition a_hello :: "int \<Rightarrow> hello" where
  "a_hello g = \<lparr>hl_is_hello = True, hl_version = JInt 1, hl_token = JStr a_token, hl_generation = JInt g\<rparr>"

definition relay0 :: relay where "relay0 = relay_init [(a_token, ''rig'')]"
definition relay1 :: relay where "relay1 = (snd (handle_hello 1 (a_hello 5) relay0))\<lparr>locked := Acking 1\<rparr>"
definition relay2 :: relay where "relay2 = welcome_sent 1 relay1"
definition relay3 :: relay where "relay3 = (snd (handle_hello 2 (a_hello 6) relay2))\<lparr>locked := Acking 2\<rparr>"

lemma hello_step:
  assumes "locked s = Free" "regs s c = None" "fst (handle_hello c hl s) = Welcome"
  shows "relay_step s (Hello c hl) ((snd (handle_hello c hl s))\<lparr>locked := Acking c\<rparr>)"
  using assms by (intro relay_step.welcomed) (simp_all add: prod_eq_iff)

lemma a_token_accepted:
  "tokens s = [(a_token, h)] \<Longrightarrow> validate_token (JStr a_token) s = Some h" "a_token \<noteq> []"
  by (simp_all add: validate_token_def compare_digest_def is_ascii_def a_token_def)

lemma a_hello_register:
  assumes "tokens s = [(a_token, h)]" and "\<forall>e r. homes s h = Some e \<longrightarrow> regs s e = Some r \<longrightarrow> rg_gen r < g"
  shows "handle_hello c (a_hello g) s = (Welcome, s\<lparr>homes := (homes s)(h \<mapsto> c),
    regs := (regs s)(c \<mapsto> \<lparr>rg_home = h, rg_gen = g, rg_previous = homes s h\<rparr>)\<rparr>)"
  using assms(2) by (auto simp: handle_hello_def register_def a_hello_def int_of_def PROTO_VERSION_def
      a_token_accepted(1) [OF assms(1)] split: option.splits)

text \<open>The states of the demonstration, evaluated.\<close>

lemma relay1_eq: "relay1 = (relay_init [(a_token, ''rig'')])\<lparr>homes := [''rig'' \<mapsto> 1],
    regs := [1 \<mapsto> \<lparr>rg_home = ''rig'', rg_gen = 5, rg_previous = None\<rparr>], locked := Acking 1\<rparr>"
  unfolding relay1_def relay0_def by (subst a_hello_register [of _ "''rig''"]) (simp_all add: relay_init_def)

lemma relay2_eq: "relay2 = (relay_init [(a_token, ''rig'')])\<lparr>homes := [''rig'' \<mapsto> 1],
    regs := [1 \<mapsto> \<lparr>rg_home = ''rig'', rg_gen = 5, rg_previous = None\<rparr>], committed := {1}, connections := [''rig'' \<mapsto> 1]\<rparr>"
  unfolding relay2_def relay1_eq by (simp add: welcome_sent_def commit_registration_def commit_reg_def is_current_def
      previous_of_def forget_previous_def home_at_def relay_init_def)

lemma relay3_eq: "relay3 = (relay_init [(a_token, ''rig'')])\<lparr>homes := [''rig'' \<mapsto> 2],
    regs := [1 \<mapsto> \<lparr>rg_home = ''rig'', rg_gen = 5, rg_previous = None\<rparr>, 2 \<mapsto> \<lparr>rg_home = ''rig'', rg_gen = 6, rg_previous = Some 1\<rparr>],
    committed := {1}, connections := [''rig'' \<mapsto> 1], locked := Acking 2\<rparr>"
  unfolding relay3_def relay2_eq by (subst a_hello_register [of _ "''rig''"]) (simp_all add: relay_init_def)

lemmas relay_eqs = relay0_def relay1_eq relay2_eq relay3_eq relay_init_def

lemma relay_steps:
  "relay_step relay0 (Hello 1 (a_hello 5)) relay1" "relay_step relay1 (Ack_Sent 1) relay2"
  "relay_step relay2 (Hello 2 (a_hello 6)) relay3"
proof -
  show "relay_step relay0 (Hello 1 (a_hello 5)) relay1"
    unfolding relay1_def by (rule hello_step) (simp_all add: relay_eqs a_hello_register)
  show "relay_step relay1 (Ack_Sent 1) relay2"
    unfolding relay2_def by (rule relay_step.ack_sent) (simp add: relay_eqs)
  show "relay_step relay2 (Hello 2 (a_hello 6)) relay3"
    unfolding relay3_def by (rule hello_step) (simp_all add: relay_eqs a_hello_register)
qed

lemma relays_reachable:
  "reachable [(a_token, ''rig'')] relay2" "reachable [(a_token, ''rig'')] relay3"
  using reachable.start [of "[(a_token, ''rig'')]"] relay_steps unfolding relay0_def [symmetric]
  by (blast intro: reachable.go)+

section \<open>One live tunnel\<close>

text \<open>C37. In every reachable state a home has at most one live tunnel, and it is the one the browsers' traffic
  goes to.\<close>

theorem one_live_tunnel:
  assumes "reachable toks s" and "live s c" "live s d" and "home_at s c = home_at s d"
  shows "c = d \<and> (\<exists>h. home_at s c = Some h \<and> connections s h = Some c)"
proof -
  note ok = relay_reachable_ok [OF assms(1)]
  obtain h where h: "home_at s c = Some h" using relay_okD(5) [OF ok, of c] assms(2) by (auto simp: live_def)
  then have "home_at s d = Some h" using assms(4) by simp
  from relay_okD(4) [OF ok assms(2) h] relay_okD(4) [OF ok assms(3) this] h show ?thesis by auto
qed

lemma one_live_tunnel_witness: "live relay3 1 \<and> (\<exists>h. home_at relay3 1 = Some h \<and> connections relay3 h = Some 1)"
proof -
  have l: "live relay3 1" by (simp add: live_def relay_eqs)
  with one_live_tunnel [OF relays_reachable(2) l l] show ?thesis by blast
qed

text \<open>Revocation is complete: in every reachable state in which no accepted token names a home and no
  eviction of it is outstanding, none of its tunnels is live, the registry has no route to it and no HELLO
  is accepted for it, whatever was in flight when its token was taken away.\<close>

theorem revoked_home_is_cut_off:
  assumes "reachable toks s" and gone: "h \<notin> snd ` set (tokens s)" and "h \<notin> set (evict_tasks s)"
  shows "(\<forall>c. home_at s c = Some h \<longrightarrow> \<not> live s c) \<and> homes s h = None \<and>
    (\<forall>c hl s'. handle_hello c hl s = (Welcome, s') \<longrightarrow> home_at s' c \<noteq> Some h)"
proof (intro conjI allI impI)
  note ok = relay_reachable_ok [OF assms(1)]
  have no: "\<not> is_provisioned h s" using gone by (simp add: is_provisioned_def)
  show none: "homes s h = None" using relay_okD(1) [OF ok, of h] no by (cases "homes s h") auto
  show "\<not> live s c" if "home_at s c = Some h" for c
  proof
    assume "live s c"
    from relay_okD(4) [OF ok this that] assms(3) none show False by (auto simp: routed_def)
  qed
  show "home_at s' c \<noteq> Some h" if "handle_hello c hl s = (Welcome, s')" for c hl s'
    using that
  proof (rule handle_hello_Welcome)
    fix g gen assume g: "validate_token (hl_token hl) s = Some g"
      "s' = s\<lparr>homes := (homes s)(g \<mapsto> c), regs := (regs s)(c \<mapsto> \<lparr>rg_home = g, rg_gen = gen, rg_previous = homes s g\<rparr>)\<rparr>"
    then have "g \<noteq> h" using validate_provisioned [OF g(1)] no by auto
    then show ?thesis using g(2) by (simp add: home_at_def)
  qed
qed

definition relay_revoked :: relay where
  "relay_revoked = evict_home ''rig'' ((the (replace_tokens [] [''rig''] relay3))\<lparr>evict_tasks := []\<rparr>)"

lemma revoked_reachable: "reachable [(a_token, ''rig'')] relay_revoked"
proof -
  obtain s where s: "replace_tokens [] [''rig''] relay3 = Some s" "evict_tasks s = [''rig'']"
  proof (cases "replace_tokens [] [''rig''] relay3")
    case None
    then show thesis by (simp add: replace_tokens_def)
  next
    case (Some s)
    have "evict_tasks relay3 = []" by (simp add: relay_eqs)
    then have "evict_tasks s = [''rig'']" using Some by (auto simp: replace_tokens_def Let_def fold_evict)
    with Some show thesis by (rule that)
  qed
  have d: "set [''rig''] = dom (homes relay3)" by (simp add: relay_eqs)
  have "reachable [(a_token, ''rig'')] s" by (rule reachable.go [OF relays_reachable(2) relay_step.reload [OF d s(1)]])
  from reachable.go [OF this relay_step.evict [OF s(2)]] s(1) show ?thesis by (simp add: relay_revoked_def)
qed

lemma revoked_home_is_cut_off_witness: "\<not> live relay_revoked 1 \<and> homes relay_revoked ''rig'' = None"
proof -
  note eval = relay_revoked_def replace_tokens_def evict_registered_def evict_home_def relay_eqs home_at_def
  have "''rig'' \<notin> snd ` set (tokens relay_revoked)" "''rig'' \<notin> set (evict_tasks relay_revoked)"
    and "home_at relay_revoked 1 = Some ''rig''" by (simp_all add: eval)
  with revoked_home_is_cut_off [OF revoked_reachable, of "''rig''"] show ?thesis by blast
qed

section \<open>Taking over\<close>

lemma live_after_welcome:
  assumes ok: "relay_ok s" and l: "locked s = Acking c" and d: "live s d" "\<not> live (welcome_sent c s) d"
  shows "home_at s d = home_at s c \<and> homes s (the (home_at s c)) = Some c"
proof -
  obtain h where h: "home_at s c = Some h" using relay_okD(6) [OF ok l] by blast
  have dc: "d \<noteq> c" using d(1) relay_okD(6) [OF ok l] by (auto simp: live_def)
  show ?thesis
  proof (cases "homes s h = Some c")
    case True
    note fields = welcome_sent_current [OF h True refl]
    have "d \<in> set_option (previous_of c s) \<union> set_option (connections s h)"
      using d dc unfolding live_def fields by auto
    then have "home_at s d = Some h"
      using relay_okD(2) [OF ok True, of d] relay_okD(3) [OF ok, of h d] by auto
    then show ?thesis using h True by simp
  next
    case False
    then have "\<not> is_current c s" using h by (auto simp: is_current_def home_at_def split: option.splits)
    then have "welcome_sent c s = (conn_close c (s\<lparr>closed := insert c (closed s)\<rparr>))\<lparr>locked := Free\<rparr>"
      by (simp add: welcome_sent_def commit_registration_def commit_reg_def)
    moreover have "c \<notin> committed s" using relay_okD(6) [OF ok l] by blast
    ultimately have "closed (welcome_sent c s) = insert c (closed s)" "committed (welcome_sent c s) = committed s"
      using h False by (simp_all add: conn_close_pending)
    then show ?thesis using d dc by (simp add: live_def)
  qed
qed

text \<open>Only a newer generation displaces a live tunnel: when the delivery of an acknowledgement ends a tunnel
  that was live, the new tunnel is of the same home and of a higher generation, unless an eviction of that
  home is outstanding anyway.\<close>

theorem only_a_newer_generation_displaces:
  assumes "reachable toks s" and "relay_step s (Ack_Sent c) s'" and "live s d" "\<not> live s' d"
  shows "home_at s d = home_at s c \<and> (gen_of s d < gen_of s c \<or> (\<exists>h. home_at s d = Some h \<and> h \<in> set (evict_tasks s)))"
proof -
  note ok = relay_reachable_ok [OF assms(1)]
  from assms(2) have l: "locked s = Acking c" and s': "s' = welcome_sent c s" by (auto elim: relay_stepE)
  note d = live_after_welcome [OF ok l assms(3)] assms(4) [unfolded s']
  obtain h where h: "home_at s c = Some h" using relay_okD(6) [OF ok l] by blast
  then have dh: "home_at s d = Some h" and cur: "homes s h = Some c" using d by auto
  from relay_okD(4) [OF ok assms(3) dh] have "routed s h d \<or> h \<in> set (evict_tasks s)" by blast
  moreover have "d \<noteq> c" using assms(3) relay_okD(6) [OF ok l] by (auto simp: live_def)
  ultimately have "previous_of c s = Some d \<or> h \<in> set (evict_tasks s)" using cur l by (auto simp: routed_def)
  then show ?thesis using relay_okD(2) [OF ok cur, of d] h dh by auto
qed

lemma only_a_newer_generation_displaces_witness: "gen_of relay3 1 < gen_of relay3 2"
proof -
  have step: "relay_step relay3 (Ack_Sent 2) (welcome_sent 2 relay3)"
    by (rule relay_step.ack_sent) (simp add: relay_eqs)
  have "live relay3 1" "\<not> live (welcome_sent 2 relay3) 1"
    by (simp_all add: live_def relay_eqs welcome_sent_def commit_registration_def commit_reg_def is_current_def
        previous_of_def forget_previous_def home_at_def)
  moreover have "evict_tasks relay3 = []" by (simp add: relay_eqs)
  ultimately show ?thesis using only_a_newer_generation_displaces [OF relays_reachable(2) step] by auto
qed

text \<open>A failed acknowledgement costs nothing but the new tunnel: if nothing else happens between the HELLO
  and the loss of its acknowledgement, the routes, the affinities and every other tunnel are as before.\<close>

theorem lost_ack_restores_the_route:
  assumes "reachable toks s" and "relay_step s (Hello c hl) s1" and "relay_step s1 (Ack_Lost c) s2"
  shows "homes s2 = homes s \<and> connections s2 = connections s \<and> closed s2 = insert c (closed s) \<and>
    evicted s2 = evicted s \<and> committed s2 = committed s \<and> locked s2 = Free"
proof -
  note ok = relay_reachable_ok [OF assms(1)]
  from assms(3) have l: "locked s1 = Acking c" and s2: "s2 = (conn_close c s1)\<lparr>locked := Free\<rparr>" by (auto elim: relay_stepE)
  from assms(2) l obtain s' where free: "locked s = Free" and new: "regs s c = None" and w: "handle_hello c hl s = (Welcome, s')"
    and s1: "s1 = s'\<lparr>locked := Acking c\<rparr>"
    by (auto elim: relay_stepE)
  from w obtain h gen where
    s': "s' = s\<lparr>homes := (homes s)(h \<mapsto> c), regs := (regs s)(c \<mapsto> \<lparr>rg_home = h, rg_gen = gen, rg_previous = homes s h\<rparr>)\<rparr>"
    by (rule handle_hello_Welcome) blast
  have "c \<notin> committed s" using relay_okD(5) [OF ok, of c] new by (auto simp: home_at_def)
  then show ?thesis
    by (simp add: s2 s1 s' conn_close_def rollback_reg_def forget_previous_def Let_def fun_upd_idem)
qed

lemma lost_ack_restores_the_route_witness: "homes ((conn_close 2 relay3)\<lparr>locked := Free\<rparr>) = homes relay2"
proof -
  have "relay_step relay3 (Ack_Lost 2) ((conn_close 2 relay3)\<lparr>locked := Free\<rparr>)" 
    by (rule relay_step.ack_lost) (simp add: relay_eqs)
  from lost_ack_restores_the_route [OF relays_reachable(1) relay_steps(3) this] show ?thesis by blast
qed

text \<open>With the end of the old tunnel in between it does not: the route the rollback puts back names a tunnel
  that has been torn down, and nothing removes it until a newer tunnel of the home is committed.\<close>

lemma ghost_route:
  "\<exists>s. reachable [(a_token, ''rig'')] s \<and> locked s = Free \<and> evict_tasks s = [] \<and> connections s ''rig'' = None \<and>
     homes s ''rig'' = Some 1 \<and> 1 \<in> closed s"
proof -
  let ?a = "(drop_affinity 1 relay3)\<lparr>closed := insert 1 (closed relay3)\<rparr>"
  let ?b = "conn_close 1 ?a"
  let ?c = "(conn_close 2 ?b)\<lparr>locked := Free\<rparr>"
  note eval = relay_eqs drop_affinity_def home_at_def conn_close_def unregister_def rollback_reg_def forget_previous_def
  have "relay_step relay3 (Lost 1) ?a" by (rule relay_step.lost) (simp add: relay_eqs)
  moreover have "relay_step ?a (Torn_Down 1) ?b" by (rule relay_step.torn_down) (simp_all add: eval)
  moreover have "relay_step ?b (Ack_Lost 2) ?c" by (rule relay_step.ack_lost) (simp add: eval)
  ultimately have "reachable [(a_token, ''rig'')] ?c" using relays_reachable(2) by (blast intro: reachable.go)
  moreover have "locked ?c = Free \<and> evict_tasks ?c = [] \<and> connections ?c ''rig'' = None \<and> homes ?c ''rig'' = Some 1 \<and> 1 \<in> closed ?c"
    by (simp add: eval)
  ultimately show ?thesis by blast
qed

end
