(* ===== verification/Power_Guard.thy ===== *)
theory Power_Guard
  imports Py_Values Update_Version
begin

text \<open>
  Which switch ports may not be switched while a run is live (\<open>server/astrodeck/power_guard.py\<close>): the stored
  answer per profile and port, the name that decides where nobody has, and the refusal. The same store says
  which ports follow the dew margin.

  The store is a JSON file read at every question. A bucket or a row that is not an object is \<open>None\<close>. What
  the module logs about a damaged file is left out.
\<close>

section \<open>The store\<close>

type_synonym port_row = "string \<rightharpoonup> jval"
type_synonym port_table = "string \<rightharpoonup> (string \<rightharpoonup> port_row option) option"

datatype port_file = Absent | Damaged | Not_An_Object | Table port_table

definition DEFAULT_KEY :: string where "DEFAULT_KEY = ''__default__''"

text \<open>The profile asked for, or the active one, or the bucket of a rig without a profile.\<close>

definition profile_key :: "string option \<Rightarrow> string option \<Rightarrow> string" where
  "profile_key active pid = (case (case pid of None \<Rightarrow> active | Some p \<Rightarrow> Some p) of
     None \<Rightarrow> DEFAULT_KEY | Some p \<Rightarrow> if p = [] then DEFAULT_KEY else p)"

definition load_store :: "port_file \<Rightarrow> port_table" where
  "load_store f = (case f of Table t \<Rightarrow> t | _ \<Rightarrow> Map.empty)"

definition port_entry :: "port_table \<Rightarrow> string \<Rightarrow> int \<Rightarrow> port_row" where
  "port_entry t key i = (case t key of Some (Some bucket) \<Rightarrow>
       (case bucket (int_str i) of Some (Some row) \<Rightarrow> row | _ \<Rightarrow> Map.empty)
     | _ \<Rightarrow> Map.empty)"

record port_flags =
  protect :: "bool option"
  follows :: bool

text \<open>Only a real boolean is a decision.\<close>

definition settings_from :: "port_row \<Rightarrow> port_flags" where
  "settings_from row =
     \<lparr>protect = (case row ''protect_during_run'' of Some (JBool b) \<Rightarrow> Some b | _ \<Rightarrow> None),
      follows = (row ''follow_dew'' = Some (JBool True))\<rparr>"

definition port_settings :: "string option \<Rightarrow> port_file \<Rightarrow> string option \<Rightarrow> int \<Rightarrow> port_flags" where
  "port_settings active f pid i = settings_from (port_entry (load_store f) (profile_key active pid) i)"

text \<open>A field that is left alone, or its new value.\<close>

datatype change = Unchanged | To jval

definition put_field :: "string \<Rightarrow> change \<Rightarrow> port_row \<Rightarrow> port_row" where
  "put_field k c row = (case c of Unchanged \<Rightarrow> row | To v \<Rightarrow> row(k \<mapsto> v))"

fun tri_state :: "change \<Rightarrow> bool" where
  "tri_state Unchanged = True" | "tri_state (To JNull) = True" | "tri_state (To (JBool b)) = True" | "tri_state (To v) = False"

fun two_state :: "change \<Rightarrow> bool" where
  "two_state Unchanged = True" | "two_state (To (JBool b)) = True" | "two_state (To v) = False"

definition set_port_settings :: "bool \<Rightarrow> string option \<Rightarrow> change \<Rightarrow> change \<Rightarrow> string option \<Rightarrow> int \<Rightarrow> port_file \<Rightarrow>
    port_flags res \<times> port_file" where
  "set_port_settings write_ok active prot foll pid i f =
     (if \<not> tri_state prot then (Inl ValueError, f)
      else if \<not> two_state foll then (Inl ValueError, f)
      else let t = load_store f; key = profile_key active pid;
             bucket = (case t key of Some (Some b) \<Rightarrow> b | _ \<Rightarrow> Map.empty);
             row = put_field ''follow_dew'' foll (put_field ''protect_during_run'' prot (port_entry t key i)) in
        if \<not> write_ok then (Inl OSError, f)
        else (Inr (settings_from row), Table (t(key \<mapsto> Some (bucket(int_str i \<mapsto> Some row))))))"

section \<open>The answer\<close>

record switch_port =
  p_id :: int
  p_name :: string
  p_value :: pyfloat
  p_min :: pyfloat
  p_max :: pyfloat
  p_protect :: "bool option"
  p_protected_now :: bool
  p_follow_dew :: bool

fun mentions :: "string \<Rightarrow> string \<Rightarrow> bool" where
  "mentions w [] = (w = [])"
| "mentions w (c # cs) = (take (length w) (c # cs) = w \<or> mentions w cs)"

definition protected_name :: "string \<Rightarrow> bool" where
  "protected_name name = list_ex (\<lambda>w. mentions w (py_lower name)) [''mount'', ''camera'', ''usb'']"

definition is_protected_by :: "switch_port \<Rightarrow> port_flags \<Rightarrow> bool" where
  "is_protected_by port flags = (case protect flags of Some b \<Rightarrow> b | None \<Rightarrow> protected_name (p_name port))"

definition is_protected :: "string option \<Rightarrow> port_file \<Rightarrow> string option \<Rightarrow> switch_port \<Rightarrow> bool" where
  "is_protected active f pid port = is_protected_by port (port_settings active f pid (p_id port))"

definition refusal_text :: "switch_port \<Rightarrow> string" where
  "refusal_text port = p_name port @ '' is protected while a run is live: switching it now would cut ''
     @ ''power to something the sequence is using. Stop the run, or clear ''
     @ ''the protection for this port in Power settings.''"

definition port_refusal :: "string option \<Rightarrow> port_file \<Rightarrow> bool \<Rightarrow> string option \<Rightarrow> switch_port \<Rightarrow> string option" where
  "port_refusal active f run_active pid port =
     (if \<not> run_active then None else if \<not> is_protected active f pid port then None else Some (refusal_text port))"

definition annotate :: "string option \<Rightarrow> port_file \<Rightarrow> bool \<Rightarrow> string option \<Rightarrow> switch_port list \<Rightarrow> switch_port list" where
  "annotate active f run_active pid ports = (let t = load_store f; key = profile_key active pid in
     map (\<lambda>port. let flags = settings_from (port_entry t key (p_id port)) in
       port\<lparr>p_protect := protect flags, p_follow_dew := follows flags,
         p_protected_now := (run_active \<and> is_protected_by port flags)\<rparr>) ports)"

section \<open>What is stored is what is answered\<close>

lemma nat_str_inject [simp]: "nat_str m = nat_str n \<longleftrightarrow> m = n"
  by (metis digits_nat_str)

lemma nat_str_no_sign: "nat_str n \<noteq> CHR ''-'' # cs"
  using nat_str_digits [of n] by (auto simp: is_digit_def)

lemma int_str_inject [simp]: "int_str a = int_str b \<longleftrightarrow> a = b"
  using nat_str_no_sign by (auto simp: int_str_def eq_commute [of "CHR ''-'' # _"])

text \<open>A write to one port answers the fields it names and keeps the others, of this port and of every other
  port and profile; a write that raises leaves the file. The three states of a protection are told apart.\<close>

theorem port_settings_read_write:
  assumes "set_port_settings ok active prot foll pid i f = (Inr v, f')"
  shows "port_settings active f' pid i = v
    \<and> protect v = (case prot of To (JBool b) \<Rightarrow> Some b | To _ \<Rightarrow> None | Unchanged \<Rightarrow> protect (port_settings active f pid i))
    \<and> follows v = (case foll of To c \<Rightarrow> c = JBool True | Unchanged \<Rightarrow> follows (port_settings active f pid i))
    \<and> ((profile_key active pid', j) \<noteq> (profile_key active pid, i) \<longrightarrow>
        port_settings active f' pid' j = port_settings active f pid' j)"
proof -
  let ?key = "profile_key active pid"
  let ?row = "put_field ''follow_dew'' foll (put_field ''protect_during_run'' prot (port_entry (load_store f) ?key i))"
  let ?bucket = "case load_store f ?key of Some (Some b) \<Rightarrow> b | _ \<Rightarrow> Map.empty"
  from assms have v: "v = settings_from ?row"
    and f': "f' = Table ((load_store f)(?key \<mapsto> Some (?bucket(int_str i \<mapsto> Some ?row))))"
    and ok: "tri_state prot" "two_state foll"
    by (auto simp: set_port_settings_def Let_def split: if_splits)
  have entry: "port_entry (load_store f') k j = (if (k, j) = (?key, i) then ?row else port_entry (load_store f) k j)" for k j
    by (auto simp: f' load_store_def port_entry_def split: option.splits)
  have "protect v = (case prot of To (JBool b) \<Rightarrow> Some b | To _ \<Rightarrow> None | Unchanged \<Rightarrow> protect (port_settings active f pid i))"
    using ok by (cases prot rule: tri_state.cases; cases foll)
      (auto simp: v settings_from_def port_settings_def put_field_def)
  moreover have "follows v = (case foll of To c \<Rightarrow> c = JBool True | Unchanged \<Rightarrow> follows (port_settings active f pid i))"
    by (cases foll; cases prot) (simp_all add: v settings_from_def port_settings_def put_field_def)
  ultimately show ?thesis by (auto simp: port_settings_def entry v)
qed

lemma set_port_settings_raises:
  "set_port_settings ok active prot foll pid i f = (Inl e, f') \<Longrightarrow> f' = f"
  by (auto simp: set_port_settings_def Let_def split: if_splits)

text \<open>A switch is refused exactly while a run is live and the port is protected: by the stored answer where
  somebody gave one, in both directions, and by its name where nobody did.\<close>

theorem refused_iff_protected:
  "port_refusal active f run_active pid port = Some t \<longleftrightarrow>
     run_active \<and> t = refusal_text port \<and>
     (let flags = port_settings active f pid (p_id port) in
        protect flags = Some True \<or> protect flags = None \<and> protected_name (p_name port))"
  by (auto simp: port_refusal_def is_protected_def is_protected_by_def Let_def split: option.splits)

text \<open>What the clients are shown is what would be refused.\<close>

lemma annotate_shows_the_refusal:
  "k < length ports \<Longrightarrow> p_protected_now (annotate active f run_active pid ports ! k) \<longleftrightarrow>
     port_refusal active f run_active pid (ports ! k) \<noteq> None"
  by (simp add: annotate_def Let_def port_refusal_def is_protected_def port_settings_def)

end
