(* ===== verification/Dew.thy ===== *)
theory Dew
  imports Power_Guard Machines "HOL-Library.AList"
begin

text \<open>
  The dew heater loop (\<open>server/astrodeck/dew.py\<close>): the ramp from the dew margin to a heater level, the scale
  of a port, and the controller with its manual overrides, its memory of what it last commanded, and its
  snapshot.

  A tick is a coroutine: while it awaits a device, the routes may call the controller. Its environment
  \<open>dew_env\<close> holds the answer of every device call and, for every await, the calls that fall into it, so one
  function covers every interleaving. The state carries the list of what has happened (\<open>dw_out\<close>): the
  commands to the heaters with their outcome, the levels set by hand, the log lines and the snapshots
  published. The configuration and the port store are read at the start of a tick. Readings are finite.
\<close>

section \<open>The ramp\<close>

record dew_cfg =
  dc_enabled :: bool
  dc_full :: rat
  dc_off :: rat
  dc_min :: int
  dc_max :: int
  dc_camera :: bool
  dc_override_s :: int

definition CHANGE_THRESHOLD_PCT :: int where "CHANGE_THRESHOLD_PCT = 5"

definition round_half_up :: "rat \<Rightarrow> int" where
  "round_half_up x = (if 0 \<le> x then \<lfloor>x + 1 / 2\<rfloor> else - \<lfloor>- x + 1 / 2\<rfloor>)"

definition ramp_power :: "dew_cfg \<Rightarrow> rat \<Rightarrow> int" where
  "ramp_power cfg margin = (let full = dc_full cfg; off = dc_off cfg; lo = of_int (dc_min cfg); hi = of_int (dc_max cfg);
       span = off - full;
       level = (if span \<le> 0 then (if margin \<le> full then hi else lo)
         else if margin \<le> full then hi
         else if off \<le> margin then lo
         else lo + (off - margin) / span * (hi - lo)) in
     round_half_up (min (max level lo) hi))"

definition num :: "pyfloat \<Rightarrow> rat \<Rightarrow> pyfloat" where
  "num x d = (case x of NaN \<Rightarrow> Fin d | _ \<Rightarrow> x)"

definition is_whole :: "rat \<Rightarrow> bool" where
  "is_whole x = (of_int \<lfloor>x\<rfloor> = x)"

text \<open>A range with an infinite end has no whole ends: the arithmetic of the floats gives the value.\<close>

definition scale_range :: "rat \<Rightarrow> rat \<Rightarrow> int \<Rightarrow> rat" where
  "scale_range lo hi pct =
     (if hi \<le> lo then hi
      else let v = lo + (hi - lo) * (of_int (max 0 (min 100 pct)) / 100) in
        if is_whole lo \<and> is_whole hi \<and> 1 \<le> hi - lo then of_int (round_half_up v)
        else of_int (round_half_even (v * 1000)) / 1000)"

definition scale_to_port :: "switch_port \<Rightarrow> int \<Rightarrow> pyfloat" where
  "scale_to_port port pct = (case (num (p_min port) 0, num (p_max port) 1) of
     (Fin lo, Fin hi) \<Rightarrow> Fin (scale_range lo hi pct)
   | (Fin lo, PInf) \<Rightarrow> if pct \<le> 0 then NaN else PInf
   | (NInf, Fin hi) \<Rightarrow> NaN
   | (NInf, PInf) \<Rightarrow> NaN
   | (_, hi) \<Rightarrow> hi)"

section \<open>The controller\<close>

datatype surface = Camera_Window | Port int | Some_Port

record port_view =
  v_id :: int
  v_name :: string
  v_value :: pyfloat
  v_wrote :: bool
  v_paused :: bool

record snap =
  sn_enabled :: bool
  sn_following :: bool
  sn_until :: "rat option"
  sn_reading :: "(rat \<times> rat \<times> rat) option"
  sn_power :: "int option"
  sn_reason :: string
  sn_ports :: "port_view list"

datatype dew_out = Camera_Set int bool | Port_Set int int pyfloat bool | Hand_Set surface
  | Dew_Log string string | Publish snap

type_synonym dew_edge = "bool \<times> bool \<times> string \<times> int option \<times> int option \<times> (int \<times> int) set"

record dew =
  dw_overrides :: "(string \<times> pyfloat) list"
  dw_camera :: "int option"
  dw_ports :: "(int \<times> int) list"
  dw_power :: "int option"
  dw_snap :: "snap option"
  dw_edge :: "dew_edge option"
  dw_out :: "dew_out list"

definition dew_init :: dew where
  "dew_init = \<lparr>dw_overrides = [], dw_camera = None, dw_ports = [], dw_power = None, dw_snap = None, dw_edge = None, dw_out = []\<rparr>"

definition out :: "dew_out \<Rightarrow> dew \<Rightarrow> dew" where
  "out x s = s\<lparr>dw_out := dw_out s @ [x]\<rparr>"

fun surface_key :: "surface \<Rightarrow> string" where
  "surface_key Camera_Window = ''camera''"
| "surface_key (Port i) = ''port:'' @ int_str i"
| "surface_key Some_Port = ''ports''"

definition label :: "string \<Rightarrow> string" where
  "label key = (if key = ''camera'' then ''the camera window'' else if key = ''ports'' then ''every switch port''
     else ''switch port '' @ tl (dropWhile (\<lambda>c. c \<noteq> CHR '':'') key))"

definition is_overridden :: "string \<Rightarrow> rat \<Rightarrow> dew \<Rightarrow> bool" where
  "is_overridden key now s = (case map_of (dw_overrides s) key of None \<Rightarrow> False | Some u \<Rightarrow> flt_less (Fin now) u)"

definition port_is_overridden :: "int \<Rightarrow> rat \<Rightarrow> dew \<Rightarrow> bool" where
  "port_is_overridden i now s = (is_overridden (surface_key (Port i)) now s \<or> is_overridden ''ports'' now s)"

definition should_command :: "int option \<Rightarrow> int \<Rightarrow> bool" where
  "should_command prior level = (case prior of None \<Rightarrow> True | Some l \<Rightarrow> CHANGE_THRESHOLD_PCT \<le> \<bar>level - l\<bar>)"

section \<open>The readout\<close>

definition max_until :: "pyfloat list \<Rightarrow> rat" where
  "max_until us = (case List.map_filter (\<lambda>u. case u of Fin a \<Rightarrow> Some a | _ \<Rightarrow> None) us of [] \<Rightarrow> 0 | a # as \<Rightarrow> foldl max a as)"

definition override_until :: "dew \<Rightarrow> rat option" where
  "override_until s = (if dw_overrides s = [] \<or> PInf \<in> set (map snd (dw_overrides s)) then None
     else Some (max_until (map snd (dw_overrides s))))"

definition pause_reason :: "rat \<Rightarrow> dew \<Rightarrow> string" where
  "pause_reason now s = (let held = sort (map fst (dw_overrides s));
       names = (if held = [] then ''nothing'' else py_join '' and '' (map label held)) in
     if PInf \<in> set (map snd (dw_overrides s)) then
       ''following is paused on '' @ names @ '' - a level was set by hand and the override does not expire on its own''
     else ''following is paused on '' @ names @ '' for another ''
       @ int_str (max 0 (trunc ((max_until (map snd (dw_overrides s)) - now) / 60))) @ '' min - a level was set by hand'')"

definition edge_of :: "snap \<Rightarrow> dew \<Rightarrow> dew_edge" where
  "edge_of sn s = (sn_enabled sn, sn_following sn, sn_reason sn, sn_power sn, dw_camera s, set (dw_ports s))"

definition publish_edge :: "snap \<Rightarrow> dew \<Rightarrow> dew" where
  "publish_edge sn s = (let e = edge_of sn s in
     if dw_edge s = Some e then s else out (Publish sn) (s\<lparr>dw_edge := Some e\<rparr>))"

definition dew_record :: "dew_cfg \<Rightarrow> bool \<Rightarrow> (rat \<times> rat \<times> rat) option \<Rightarrow> int option \<Rightarrow> string \<Rightarrow> port_view list \<Rightarrow> dew \<Rightarrow> dew" where
  "dew_record cfg following reading level reason rows s =
     (let sn = \<lparr>sn_enabled = dc_enabled cfg, sn_following = following, sn_until = override_until s,
          sn_reading = map_option (\<lambda>(t, d, m). (t, d, of_int (round_half_even (m * 100)) / 100)) reading,
          sn_power = level, sn_reason = reason, sn_ports = map (\<lambda>r. r\<lparr>v_wrote := False\<rparr>) rows\<rparr> in
      publish_edge sn (s\<lparr>dw_snap := Some sn\<rparr>))"

section \<open>Calls from the routes\<close>

record hand =
  h_surface :: surface
  h_now :: rat
  h_cfg :: "dew_cfg option"
  h_active :: "string option"
  h_file :: port_file

datatype dew_call = By_Hand hand | Resume string

definition drives :: "hand \<Rightarrow> bool" where
  "drives h = (case h_surface h of
     Camera_Window \<Rightarrow> (case h_cfg h of None \<Rightarrow> True | Some cfg \<Rightarrow> dc_camera cfg)
   | Port i \<Rightarrow> follows (port_settings (h_active h) (h_file h) None i)
   | Some_Port \<Rightarrow> True)"

definition override_end :: "hand \<Rightarrow> pyfloat" where
  "override_end h = (let seconds = (case h_cfg h of None \<Rightarrow> 7200 | Some cfg \<Rightarrow> dc_override_s cfg) in
     if seconds \<le> 0 then PInf else Fin (h_now h + of_int seconds))"

definition note_manual :: "hand \<Rightarrow> dew \<Rightarrow> dew" where
  "note_manual h s = (if \<not> drives h then s
     else let key = surface_key (h_surface h); was_paused = is_overridden key (h_now h) s;
        s = s\<lparr>dw_overrides := AList.update key (override_end h) (dw_overrides s)\<rparr>;
        s = (case h_surface h of Camera_Window \<Rightarrow> s\<lparr>dw_camera := None\<rparr>
             | Some_Port \<Rightarrow> s\<lparr>dw_ports := []\<rparr> | Port i \<Rightarrow> s\<lparr>dw_ports := AList.delete i (dw_ports s)\<rparr>) in
        if was_paused then s
        else out (Dew_Log ''info'' (''dew following paused on '' @ label key @ '' - a level was set by hand'')) s)"

definition release_snapshot :: "dew \<Rightarrow> dew" where
  "release_snapshot s = (case dw_snap s of None \<Rightarrow> s
     | Some sn \<Rightarrow> let sn = sn\<lparr>sn_following := True, sn_until := None,
           sn_reason := ''following the dew margin again - the loop re-commands the heaters on its next tick'',
           sn_ports := map (\<lambda>r. r\<lparr>v_paused := False\<rparr>) (sn_ports sn)\<rparr> in
         publish_edge sn (s\<lparr>dw_snap := Some sn\<rparr>))"

definition resume :: "string \<Rightarrow> dew \<Rightarrow> string list \<times> dew" where
  "resume why s = (let held = sort (map fst (dw_overrides s)) in
     if held = [] then ([], s)
     else let labels = map label held;
        s = s\<lparr>dw_overrides := [], dw_camera := None, dw_ports := []\<rparr>;
        s = out (Dew_Log ''info'' (''dew following resumed on '' @ py_join '' and '' labels @ '' - '' @ why)) s in
      (labels, release_snapshot s))"

text \<open>The route has set the level when it calls \<open>note_manual\<close>.\<close>

fun on_call :: "dew_call \<Rightarrow> dew \<Rightarrow> dew" where
  "on_call (By_Hand h) s = note_manual h (out (Hand_Set (h_surface h)) s)"
| "on_call (Resume why) s = snd (resume why s)"

definition dew_calls :: "dew_call list \<Rightarrow> dew \<Rightarrow> dew" where
  "dew_calls cs s = fold on_call cs s"

section \<open>A tick\<close>

record dew_env =
  e_cfg :: dew_cfg
  e_now :: rat
  e_reading :: "rat option \<times> rat option"
  e_active :: "string option"
  e_file :: port_file
  e_heater :: "bool option"
  e_camera_ok :: bool
  e_in_camera :: "dew_call list"
  e_ports :: "switch_port list option option"
  e_in_list :: "dew_call list"
  e_port_ok :: "int \<Rightarrow> bool"
  e_in_port :: "int \<Rightarrow> dew_call list"
  e_error :: string

definition expired :: "rat \<Rightarrow> pyfloat \<Rightarrow> bool" where
  "expired now u = (u = Fin now \<or> flt_less u (Fin now))"

definition expiry_line :: "string \<Rightarrow> string" where
  "expiry_line key = ''dew following resumed on '' @ label key @ '' - the manual override has expired''"

definition expire_overrides :: "rat \<Rightarrow> dew \<Rightarrow> dew" where
  "expire_overrides now s = foldl (\<lambda>s key. out (Dew_Log ''info'' (expiry_line key)) (s\<lparr>dw_overrides := AList.delete key (dw_overrides s)\<rparr>)) s
     (map fst (filter (\<lambda>(key, u). expired now u) (dw_overrides s)))"

definition drive_camera :: "dew_env \<Rightarrow> int \<Rightarrow> dew \<Rightarrow> bool \<times> dew" where
  "drive_camera env level s =
     (if \<not> dc_camera (e_cfg env) \<or> is_overridden ''camera'' (e_now env) s then (False, s)
      else if e_heater env \<noteq> Some True then (False, s)
      else if \<not> should_command (dw_camera s) level then (False, s)
      else let s = dew_calls (e_in_camera env) (out (Camera_Set level (e_camera_ok env)) s) in
        if e_camera_ok env then (True, s\<lparr>dw_camera := Some level\<rparr>)
        else (False, out (Dew_Log ''warning'' (''could not set the camera dew heater: '' @ e_error env)) s))"

definition port_follows :: "dew_env \<Rightarrow> int \<Rightarrow> bool" where
  "port_follows env i = follows (port_settings (e_active env) (e_file env) None i)"

definition drive_port :: "dew_env \<Rightarrow> int option \<Rightarrow> switch_port \<Rightarrow> dew \<Rightarrow> port_view \<times> dew" where
  "drive_port env level port s =
     (let i = p_id port; paused = port_is_overridden i (e_now env) s;
        row = \<lparr>v_id = i, v_name = p_name port, v_value = num (p_value port) 0, v_wrote = False, v_paused = paused\<rparr> in
      case level of None \<Rightarrow> (row, s)
      | Some pct \<Rightarrow>
        if paused \<or> \<not> should_command (map_of (dw_ports s) i) pct then (row, s)
        else let v = scale_to_port port pct;
            s = dew_calls (e_in_port env i) (out (Port_Set i pct v (e_port_ok env i)) s) in
          if e_port_ok env i then (row\<lparr>v_value := v, v_wrote := True\<rparr>, s\<lparr>dw_ports := AList.update i pct (dw_ports s)\<rparr>)
          else (row, out (Dew_Log ''warning'' (''could not set dew port ''
              @ (if p_name port = [] then int_str i else p_name port) @ '': '' @ e_error env)) s))"

fun drive_ports :: "dew_env \<Rightarrow> int option \<Rightarrow> switch_port list \<Rightarrow> dew \<Rightarrow> port_view list \<times> dew" where
  "drive_ports env level [] s = ([], s)"
| "drive_ports env level (port # ports) s =
     (if \<not> port_follows env (p_id port) then drive_ports env level ports s
      else case drive_port env level port s of (row, s) \<Rightarrow>
        (case drive_ports env level ports s of (rows, s) \<Rightarrow> (row # rows, s)))"

definition port_rows :: "dew_env \<Rightarrow> int option \<Rightarrow> dew \<Rightarrow> port_view list \<times> dew" where
  "port_rows env level s = (case e_ports env of None \<Rightarrow> ([], s)
     | Some answer \<Rightarrow> let s = dew_calls (e_in_list env) s in
         (case answer of None \<Rightarrow> ([], s) | Some ports \<Rightarrow> drive_ports env level ports s))"

definition dew_tick :: "dew_env \<Rightarrow> dew \<Rightarrow> dew" where
  "dew_tick env s = (let cfg = e_cfg env; now = e_now env in
     if \<not> dc_enabled cfg then dew_record cfg False None None ''dew following is off'' [] s
     else let s = expire_overrides now s in
       case e_reading env of
         (Some temp, Some dewp) \<Rightarrow>
           let margin = temp - dewp; level = ramp_power cfg margin;
             camera_paused = is_overridden ''camera'' now s in
           (case drive_camera env level s of (wrote_camera, s) \<Rightarrow>
            case port_rows env (Some level) s of (rows, s) \<Rightarrow>
            let s = (if dc_camera cfg \<and> \<not> camera_paused \<or> list_ex (\<lambda>r. \<not> v_paused r) rows
                     then s\<lparr>dw_power := Some level\<rparr> else s);
              reason = (if dw_overrides s \<noteq> [] then pause_reason now s
                else if \<not> wrote_camera \<and> \<not> list_ex v_wrote rows then ''following the dew margin - no change worth commanding''
                else ''following the dew margin'') in
            dew_record cfg (dw_overrides s = []) (Some (temp, dewp, margin)) (Some level) reason rows s)
       | _ \<Rightarrow>
           let following = (dw_overrides s = []); level = dw_power s in
           (case port_rows env None s of (rows, s) \<Rightarrow>
             dew_record cfg following None level ''no dew-point reading'' rows s))"

datatype dew_event = Tick dew_env | Call dew_call

fun dew_step :: "dew \<Rightarrow> dew_event \<Rightarrow> dew" where
  "dew_step s (Tick env) = dew_tick env s"
| "dew_step s (Call c) = on_call c s"

section \<open>The ramp is a ramp\<close>

lemma round_half_up_mono: "x \<le> y \<Longrightarrow> round_half_up x \<le> round_half_up y"
  unfolding round_half_up_def by (simp, linarith)

lemma round_half_up_int [simp]: "round_half_up (of_int n) = n"
proof -
  have "\<lfloor>(of_int k :: rat) + 1 / 2\<rfloor> = k" for k :: int by (rule floor_unique) simp_all
  from this [of n] this [of "- n"] show ?thesis by (simp add: round_half_up_def)
qed

lemma round_half_up_near: "\<bar>of_int (round_half_up x) - x\<bar> \<le> 1 / 2"
proof -
  have "\<bar>of_int \<lfloor>y + 1 / 2\<rfloor> - y\<bar> \<le> 1 / 2" for y :: rat by linarith
  from this [of x] this [of "- x"] show ?thesis unfolding round_half_up_def by (cases "0 \<le> x") (auto simp: abs_if split: if_splits)
qed

definition ramp_line :: "dew_cfg \<Rightarrow> rat \<Rightarrow> rat" where
  "ramp_line cfg margin = of_int (dc_min cfg)
     + (dc_off cfg - margin) / (dc_off cfg - dc_full cfg) * (of_int (dc_max cfg) - of_int (dc_min cfg))"

definition cfg_ok :: "dew_cfg \<Rightarrow> bool" where
  "cfg_ok cfg \<longleftrightarrow> dc_full cfg < dc_off cfg \<and> dc_min cfg \<le> dc_max cfg"

lemma ramp_line_antimono: "cfg_ok cfg \<Longrightarrow> a \<le> b \<Longrightarrow> ramp_line cfg b \<le> ramp_line cfg a"
  unfolding ramp_line_def cfg_ok_def
  by (intro add_left_mono mult_right_mono divide_right_mono) simp_all

lemma ramp_line_ends:
  assumes "cfg_ok cfg"
  shows "ramp_line cfg (dc_full cfg) = of_int (dc_max cfg)" "ramp_line cfg (dc_off cfg) = of_int (dc_min cfg)"
  using assms by (simp_all add: ramp_line_def cfg_ok_def)

lemma ramp_power_line:
  assumes "cfg_ok cfg"
  shows "ramp_power cfg m = round_half_up (min (max (ramp_line cfg m) (of_int (dc_min cfg))) (of_int (dc_max cfg)))"
proof -
  have pos: "0 < dc_off cfg - dc_full cfg" and lh: "(of_int (dc_min cfg) :: rat) \<le> of_int (dc_max cfg)"
    using assms by (simp_all add: cfg_ok_def)
  consider "m \<le> dc_full cfg" | "dc_off cfg \<le> m" "\<not> m \<le> dc_full cfg" | "\<not> m \<le> dc_full cfg" "\<not> dc_off cfg \<le> m" by blast
  then show ?thesis
  proof cases
    case 1
    then have "of_int (dc_max cfg) \<le> ramp_line cfg m"
      using ramp_line_antimono [OF assms 1] by (simp add: ramp_line_ends [OF assms])
    then show ?thesis using 1 pos lh by (simp add: ramp_power_def Let_def)
  next
    case 2
    then have "ramp_line cfg m \<le> of_int (dc_min cfg)"
      using ramp_line_antimono [OF assms 2(1)] by (simp add: ramp_line_ends [OF assms])
    then show ?thesis using 2 pos lh by (simp add: ramp_power_def Let_def)
  next
    case 3
    then show ?thesis using pos by (simp add: ramp_power_def Let_def ramp_line_def)
  qed
qed

text \<open>The ramp never leaves the bounds of the configuration, never heats less when the air is closer to its
  dew point, and is the straight line between the two thresholds, to the nearest percent.\<close>

theorem ramp_is_a_ramp:
  assumes "cfg_ok cfg"
  shows "dc_min cfg \<le> ramp_power cfg m \<and> ramp_power cfg m \<le> dc_max cfg
    \<and> (m \<le> m' \<longrightarrow> ramp_power cfg m' \<le> ramp_power cfg m)
    \<and> (dc_full cfg \<le> m \<and> m \<le> dc_off cfg \<longrightarrow> \<bar>of_int (ramp_power cfg m) - ramp_line cfg m\<bar> \<le> 1 / 2)"
proof (intro conjI impI)
  note line = ramp_power_line [OF assms]
  let ?lo = "of_int (dc_min cfg) :: rat" and ?hi = "of_int (dc_max cfg) :: rat"
  have lh: "?lo \<le> ?hi" using assms by (simp add: cfg_ok_def)
  from lh round_half_up_mono [of ?lo "min (max (ramp_line cfg m) ?lo) ?hi"]
  show "dc_min cfg \<le> ramp_power cfg m" by (simp add: line)
  from round_half_up_mono [of "min (max (ramp_line cfg m) ?lo) ?hi" ?hi]
  show "ramp_power cfg m \<le> dc_max cfg" by (simp add: line)
  show "ramp_power cfg m' \<le> ramp_power cfg m" if "m \<le> m'"
    unfolding line using ramp_line_antimono [OF assms that] by (intro round_half_up_mono min.mono max.mono order_refl)
  show "\<bar>of_int (ramp_power cfg m) - ramp_line cfg m\<bar> \<le> 1 / 2" if "dc_full cfg \<le> m \<and> m \<le> dc_off cfg"
  proof -
    have "?lo \<le> ramp_line cfg m" "ramp_line cfg m \<le> ?hi"
      using that ramp_line_antimono [OF assms, of m "dc_off cfg"] ramp_line_antimono [OF assms, of "dc_full cfg" m]
      by (simp_all add: ramp_line_ends [OF assms])
    then show ?thesis using round_half_up_near [of "ramp_line cfg m"] by (simp add: line)
  qed
qed

text \<open>What a port is told: a whole number inside the range of a register, at most half a unit from the exact
  value; on a range with fractional ends the exact value to three decimals.\<close>

lemma scale_range_register:
  assumes "lo < hi" "is_whole lo" "is_whole hi"
  shows "lo \<le> scale_range lo hi pct \<and> scale_range lo hi pct \<le> hi \<and> is_whole (scale_range lo hi pct)
    \<and> \<bar>scale_range lo hi pct - (lo + (hi - lo) * (of_int (max 0 (min 100 pct)) / 100))\<bar> \<le> 1 / 2"
proof -
  obtain a b where ab: "lo = of_int a" "hi = of_int b" using assms(2,3) unfolding is_whole_def by metis
  define p where "p = (of_int (max 0 (min 100 pct)) / 100 :: rat)"
  have p: "0 \<le> p" "p \<le> 1" by (simp_all add: p_def)
  have "(hi - lo) * p \<le> hi - lo" using mult_left_mono [OF p(2), of "hi - lo"] assms(1) by simp
  then have v: "lo \<le> lo + (hi - lo) * p" "lo + (hi - lo) * p \<le> hi" using assms(1) p(1) by (simp, linarith)
  have "1 \<le> hi - lo" using assms(1) by (simp add: ab)
  then have s: "scale_range lo hi pct = of_int (round_half_up (lo + (hi - lo) * p))"
    using assms by (simp add: scale_range_def Let_def p_def)
  have r: "a \<le> round_half_up (lo + (hi - lo) * p)" "round_half_up (lo + (hi - lo) * p) \<le> b"
    using round_half_up_mono [OF v(1)] round_half_up_mono [OF v(2)] by (simp_all add: ab)
  have "lo \<le> scale_range lo hi pct" "scale_range lo hi pct \<le> hi" using r ab unfolding s by simp_all
  moreover have "\<bar>scale_range lo hi pct - (lo + (hi - lo) * p)\<bar> \<le> 1 / 2" unfolding s by (rule round_half_up_near)
  moreover have "is_whole (scale_range lo hi pct)" by (simp add: s is_whole_def)
  ultimately show ?thesis unfolding p_def by blast
qed

section \<open>A level set by hand is kept\<close>

fun late :: "rat \<Rightarrow> pyfloat \<Rightarrow> bool" where
  "late u (Fin b) = (u \<le> b)" | "late u PInf = True" | "late u _ = False"

text \<open>The commands of the loop to a surface.\<close>

fun commanded :: "surface \<Rightarrow> dew_out \<Rightarrow> bool" where
  "commanded Camera_Window (Camera_Set p ok) = True"
| "commanded (Port i) (Port_Set j p v ok) = (i = j)"
| "commanded Some_Port (Port_Set j p v ok) = True"
| "commanded k x = False"

definition commands :: "surface \<Rightarrow> dew \<Rightarrow> dew_out list" where
  "commands k s = filter (commanded k) (dw_out s)"

text \<open>The surface is held until \<open>u\<close> at least, and the loop has not commanded it since.\<close>

definition held :: "rat \<Rightarrow> surface \<Rightarrow> dew_out list \<Rightarrow> dew \<Rightarrow> bool" where
  "held u k cs s \<longleftrightarrow> distinct (map fst (dw_overrides s))
     \<and> (\<exists>v. map_of (dw_overrides s) (surface_key k) = Some v \<and> late u v) \<and> commands k s = cs"

fun call_within :: "rat \<Rightarrow> dew_call \<Rightarrow> bool" where
  "call_within u (By_Hand h) = late u (override_end h)"
| "call_within u (Resume why) = False"

text \<open>Before \<open>u\<close>, with no resume, and no shorter override set by a later hand.\<close>

fun in_hold :: "rat \<Rightarrow> dew_event \<Rightarrow> bool" where
  "in_hold u (Tick env) = (e_now env < u \<and> list_all (call_within u) (e_in_camera env) \<and>
     list_all (call_within u) (e_in_list env) \<and> (\<forall>i. list_all (call_within u) (e_in_port env i)))"
| "in_hold u (Call c) = call_within u c"

lemma out_fields [simp]:
  "dw_overrides (out x s) = dw_overrides s" "dw_camera (out x s) = dw_camera s" "dw_ports (out x s) = dw_ports s"
  "dw_power (out x s) = dw_power s" "dw_snap (out x s) = dw_snap s" "dw_edge (out x s) = dw_edge s"
  "dw_out (out x s) = dw_out s @ [x]"
  by (simp_all add: out_def)

lemma held_simps [simp]:
  "held u k cs (s\<lparr>dw_camera := c\<rparr>) = held u k cs s" "held u k cs (s\<lparr>dw_ports := p\<rparr>) = held u k cs s"
  "held u k cs (s\<lparr>dw_power := w\<rparr>) = held u k cs s" "held u k cs (s\<lparr>dw_snap := n\<rparr>) = held u k cs s"
  "held u k cs (s\<lparr>dw_edge := e\<rparr>) = held u k cs s"
  "\<not> commanded k x \<Longrightarrow> held u k cs (out x s) = held u k cs s"
  by (simp_all add: held_def commands_def)

lemma held_publish [simp]: "held u k cs (publish_edge sn s) = held u k cs s"
  by (simp add: publish_edge_def Let_def)

lemma held_record [simp]: "held u k cs (dew_record cfg f rd lv why rows s) = held u k cs s"
  by (simp add: dew_record_def Let_def)

lemma note_manual_overrides:
  "dw_overrides (note_manual h s) = (if drives h then AList.update (surface_key (h_surface h)) (override_end h) (dw_overrides s)
     else dw_overrides s)"
  by (simp add: note_manual_def Let_def split: surface.split)

lemma commands_note_manual [simp]: "commands k (note_manual h s) = commands k s"
  by (simp add: note_manual_def Let_def commands_def split: surface.split)

lemma commands_hand [simp]: "commands k (out (Hand_Set j) s) = commands k s"
  by (cases k) (simp_all add: commands_def)

lemma held_call:
  assumes "held u k cs s" and "call_within u c"
  shows "held u k cs (on_call c s)"
proof (cases c)
  case (By_Hand h)
  from assms obtain v where v: "map_of (dw_overrides s) (surface_key k) = Some v" "late u v" "late u (override_end h)"
    by (auto simp: held_def By_Hand)
  then have "\<exists>v. map_of (AList.update key (override_end h) (dw_overrides s)) (surface_key k) = Some v \<and> late u v" for key
    by (cases "key = surface_key k") (simp_all add: AList.update_conv)
  then show ?thesis
    using assms(1) by (simp add: By_Hand held_def note_manual_overrides AList.distinct_update del: map_of_eq_Some_iff)
qed (use assms in simp)

lemma held_calls: "held u k cs s \<Longrightarrow> list_all (call_within u) cl \<Longrightarrow> held u k cs (dew_calls cl s)"
  unfolding dew_calls_def by (induction cl arbitrary: s) (auto intro: held_call)

lemma held_overridden: "held u k cs s \<Longrightarrow> now < u \<Longrightarrow> is_overridden (surface_key k) now s"
  by (auto simp: held_def is_overridden_def elim!: late.elims)

lemma held_expire:
  assumes "held u k cs s" and "now < u"
  shows "held u k cs (expire_overrides now s)"
proof -
  have fold: "held u k cs (foldl (\<lambda>s key. out (Dew_Log ''info'' (m key)) (s\<lparr>dw_overrides := AList.delete key (dw_overrides s)\<rparr>)) t keys)"
    if "held u k cs t" "surface_key k \<notin> set keys" for t keys m
    using that
  proof (induction keys arbitrary: t)
    case (Cons key keys)
    then have "held u k cs (t\<lparr>dw_overrides := AList.delete key (dw_overrides t)\<rparr>)"
      by (auto simp: held_def commands_def AList.delete_conv' AList.distinct_delete)
    then show ?case using Cons by simp
  qed simp
  have "surface_key k \<notin> set (map fst (filter (\<lambda>(key, v). expired now v) (dw_overrides s)))"
  proof
    assume "surface_key k \<in> set (map fst (filter (\<lambda>(key, v). expired now v) (dw_overrides s)))"
    then obtain v where v: "(surface_key k, v) \<in> set (dw_overrides s)" "expired now v" by auto
    then have "map_of (dw_overrides s) (surface_key k) = Some v" using assms(1) by (simp add: held_def)
    then have "late u v" using assms(1) by (auto simp: held_def)
    then show False using v(2) assms(2) by (cases v) (auto simp: expired_def)
  qed
  from fold [OF assms(1) this] show ?thesis unfolding expire_overrides_def .
qed

lemma held_camera:
  assumes "held u k cs s" and "in_hold u (Tick env)"
  shows "held u k cs (snd (drive_camera env lv s))"
proof (cases "is_overridden ''camera'' (e_now env) s")
  case True
  then show ?thesis using assms(1) by (simp add: drive_camera_def)
next
  case False
  then have "k \<noteq> Camera_Window" using held_overridden [OF assms(1), of "e_now env"] assms(2) by auto
  then have "\<not> commanded k (Camera_Set p ok)" for p ok by (cases k) auto
  then show ?thesis using assms by (auto simp: drive_camera_def Let_def held_calls)
qed

lemma held_port:
  assumes "held u k cs s" and "in_hold u (Tick env)"
  shows "held u k cs (snd (drive_port env lv port s))"
proof (cases "port_is_overridden (p_id port) (e_now env) s")
  case True
  then show ?thesis using assms(1) by (simp add: drive_port_def Let_def split: option.split)
next
  case False
  have "k \<noteq> Port (p_id port)" "k \<noteq> Some_Port"
    using held_overridden [OF assms(1), of "e_now env"] assms(2) False by (auto simp: port_is_overridden_def)
  then have "\<not> commanded k (Port_Set (p_id port) p v ok)" for p v ok by (cases k) auto
  then show ?thesis using assms by (auto simp: drive_port_def Let_def held_calls split: option.split)
qed

lemma held_ports: "held u k cs s \<Longrightarrow> in_hold u (Tick env) \<Longrightarrow> held u k cs (snd (drive_ports env lv ports s))"
proof (induction ports arbitrary: s)
  case (Cons port ports)
  then show ?case using held_port [OF Cons.prems] by (auto simp: case_prod_beta)
qed simp

lemma held_rows: "held u k cs s \<Longrightarrow> in_hold u (Tick env) \<Longrightarrow> held u k cs (snd (port_rows env lv s))"
  by (auto simp: port_rows_def Let_def held_calls intro!: held_ports split: option.split)

lemma held_tick:
  assumes "held u k cs s" and w: "in_hold u (Tick env)"
  shows "held u k cs (dew_tick env s)"
proof -
  note h = held_expire [OF assms(1), of "e_now env"]
  from w have h: "held u k cs (expire_overrides (e_now env) s)" using h by simp
  show ?thesis
    using assms(1) held_rows [OF h w] held_rows [OF held_camera [OF h w] w]
    by (auto simp: dew_tick_def Let_def case_prod_beta split: option.split)
qed

interpretation held: lawful dew_step "held u k cs" "\<lambda>_. in_hold u" for u k cs
proof
  fix s e
  assume "held u k cs s" "in_hold u e"
  then show "held u k cs (dew_step s e)" using held_tick held_call by (cases e) auto
qed

text \<open>A level set by hand is kept: after a hand has set a surface the loop drives, and until its override
  ends or somebody resumes, the loop never commands that surface, whatever else is called and whenever in
  a tick it is called. An override of all ports holds every port.\<close>

theorem hand_set_level_is_kept:
  assumes "distinct (map fst (dw_overrides s))" and "h_surface h = k" "drives h"
    and "late u (override_end h)" and "legal_run (\<lambda>_. in_hold u) dew_step (on_call (By_Hand h) s) es"
  shows "commands k (run dew_step (on_call (By_Hand h) s) es) = commands k s"
proof -
  have "held u k (commands k s) (on_call (By_Hand h) s)"
    using assms(1-4) unfolding held_def by (auto simp: note_manual_overrides AList.update_conv AList.distinct_update
        simp del: map_of_eq_Some_iff)
  from held.inv_legal_run [OF this assms(5)] show ?thesis by (simp add: held_def)
qed

section \<open>The heaters follow the margin\<close>

text \<open>What a heater was last put at, read off what has happened: the level of the last command that went
  through, nothing known once a hand has set it. A command that fails leaves the heater as it was.\<close>

fun camera_after :: "dew_out \<Rightarrow> int option \<Rightarrow> int option" where
  "camera_after (Camera_Set p ok) c = (if ok then Some p else c)"
| "camera_after (Hand_Set Camera_Window) c = None"
| "camera_after x c = c"

fun port_after :: "int \<Rightarrow> dew_out \<Rightarrow> int option \<Rightarrow> int option" where
  "port_after i (Port_Set j p v ok) c = (if ok \<and> i = j then Some p else c)"
| "port_after i (Hand_Set (Port j)) c = (if i = j then None else c)"
| "port_after i (Hand_Set Some_Port) c = None"
| "port_after i x c = c"

definition camera_level :: "dew \<Rightarrow> int option" where
  "camera_level s = fold camera_after (dw_out s) None"

definition port_level :: "int \<Rightarrow> dew \<Rightarrow> int option" where
  "port_level i s = fold (port_after i) (dw_out s) None"

lemma level_out [simp]:
  "camera_level (out x s) = camera_after x (camera_level s)" "port_level i (out x s) = port_after i x (port_level i s)"
  by (simp_all add: camera_level_def port_level_def)

text \<open>The memory of the loop is true of the heaters.\<close>

definition camera_true :: "dew \<Rightarrow> bool" where
  "camera_true s \<longleftrightarrow> (\<forall>p. dw_camera s = Some p \<longrightarrow> camera_level s = Some p)"

definition ports_true :: "dew \<Rightarrow> bool" where
  "ports_true s \<longleftrightarrow> (\<forall>i p. map_of (dw_ports s) i = Some p \<longrightarrow> port_level i s = Some p)"

definition memory_true :: "dew \<Rightarrow> bool" where
  "memory_true s \<longleftrightarrow> camera_true s \<and> ports_true s"

fun resumes :: "dew_call \<Rightarrow> bool" where
  "resumes (Resume why) = True" | "resumes (By_Hand h) = False"

text \<open>No hand falls into the middle of a tick, and a hand sets only surfaces that are being driven.\<close>

definition calm_tick :: "dew_env \<Rightarrow> bool" where
  "calm_tick env \<longleftrightarrow> list_all resumes (e_in_camera env) \<and> list_all resumes (e_in_list env) \<and> (\<forall>i. list_all resumes (e_in_port env i))"

fun calm_event :: "dew_event \<Rightarrow> bool" where
  "calm_event (Tick env) = calm_tick env"
| "calm_event (Call (By_Hand h)) = drives h"
| "calm_event (Call (Resume why)) = True"

definition levels :: "dew \<Rightarrow> int option \<times> (int \<Rightarrow> int option)" where
  "levels s = (camera_level s, \<lambda>i. port_level i s)"

lemma level_fields [simp]:
  "camera_level (s\<lparr>dw_overrides := os\<rparr>) = camera_level s" "port_level i (s\<lparr>dw_overrides := os\<rparr>) = port_level i s"
  "camera_level (s\<lparr>dw_camera := c\<rparr>) = camera_level s" "port_level i (s\<lparr>dw_camera := c\<rparr>) = port_level i s"
  "camera_level (s\<lparr>dw_ports := ps\<rparr>) = camera_level s" "port_level i (s\<lparr>dw_ports := ps\<rparr>) = port_level i s"
  "camera_level (s\<lparr>dw_power := w\<rparr>) = camera_level s" "port_level i (s\<lparr>dw_power := w\<rparr>) = port_level i s"
  "camera_level (s\<lparr>dw_snap := n\<rparr>) = camera_level s" "port_level i (s\<lparr>dw_snap := n\<rparr>) = port_level i s"
  "camera_level (s\<lparr>dw_edge := e\<rparr>) = camera_level s" "port_level i (s\<lparr>dw_edge := e\<rparr>) = port_level i s"
  by (simp_all add: camera_level_def port_level_def)

lemma publish_fields [simp]:
  "dw_overrides (publish_edge sn s) = dw_overrides s" "dw_camera (publish_edge sn s) = dw_camera s"
  "dw_ports (publish_edge sn s) = dw_ports s" "camera_level (publish_edge sn s) = camera_level s"
  "port_level i (publish_edge sn s) = port_level i s"
  by (simp_all add: publish_edge_def Let_def)

lemma record_fields [simp]:
  "dw_overrides (dew_record cfg f rd lv why rows s) = dw_overrides s" "dw_camera (dew_record cfg f rd lv why rows s) = dw_camera s"
  "dw_ports (dew_record cfg f rd lv why rows s) = dw_ports s" "camera_level (dew_record cfg f rd lv why rows s) = camera_level s"
  "port_level i (dew_record cfg f rd lv why rows s) = port_level i s"
  by (simp_all add: dew_record_def Let_def)

lemma expire_fields [simp]:
  "dw_camera (expire_overrides now s) = dw_camera s" "dw_ports (expire_overrides now s) = dw_ports s"
  "camera_level (expire_overrides now s) = camera_level s" "port_level i (expire_overrides now s) = port_level i s"
proof -
  have "dw_camera t' = dw_camera t \<and> dw_ports t' = dw_ports t \<and> camera_level t' = camera_level t \<and> port_level i t' = port_level i t"
    if "t' = foldl (\<lambda>s key. out (Dew_Log ''info'' (m key)) (s\<lparr>dw_overrides := AList.delete key (dw_overrides s)\<rparr>)) t keys"
    for t t' keys m
    using that by (induction keys arbitrary: t) simp_all
  from this [OF expire_overrides_def] show
    "dw_camera (expire_overrides now s) = dw_camera s" "dw_ports (expire_overrides now s) = dw_ports s"
    "camera_level (expire_overrides now s) = camera_level s" "port_level i (expire_overrides now s) = port_level i s"
    by simp_all
qed

lemma resume_fields:
  "camera_level (snd (resume why s)) = camera_level s" "port_level i (snd (resume why s)) = port_level i s"
  "dw_camera (snd (resume why s)) \<in> {None, dw_camera s}" "dw_ports (snd (resume why s)) \<in> {[], dw_ports s}"
  by (auto simp: resume_def Let_def release_snapshot_def split: option.split)

text \<open>Resumes leave the heaters, and forget or keep.\<close>

definition forgets :: "dew \<Rightarrow> dew \<Rightarrow> bool" where
  "forgets s t \<longleftrightarrow> camera_level t = camera_level s \<and> (\<forall>i. port_level i t = port_level i s)
     \<and> dw_camera t \<in> {None, dw_camera s} \<and> dw_ports t \<in> {[], dw_ports s} \<and> dw_overrides t \<in> {[], dw_overrides s}"

lemma forgets_refl: "forgets s s"
  by (simp add: forgets_def)

lemma forgets_trans: "forgets s t \<Longrightarrow> forgets t u \<Longrightarrow> forgets s u"
  by (auto simp: forgets_def)

lemma forgets_resume: "forgets s (snd (resume why s))"
  using resume_fields [where why = why and s = s]
  by (auto simp: forgets_def resume_def Let_def release_snapshot_def split: option.splits)

lemma forgets_calls: "list_all resumes cl \<Longrightarrow> forgets s (dew_calls cl s)"
  unfolding dew_calls_def
proof (induction cl arbitrary: s)
  case (Cons c cl)
  then obtain why where "c = Resume why" by (cases c) auto
  with Cons.IH [of "on_call c s"] Cons.prems forgets_trans [OF forgets_resume] show ?case by simp
qed (simp add: forgets_refl)

definition near :: "int \<Rightarrow> int option \<Rightarrow> bool" where
  "near lv c = (case c of None \<Rightarrow> False | Some p \<Rightarrow> \<bar>lv - p\<bar> < CHANGE_THRESHOLD_PCT)"

lemma near_self [simp]: "near lv (Some lv)"
  by (simp add: near_def CHANGE_THRESHOLD_PCT_def)

lemma not_should_command: "\<not> should_command c lv \<Longrightarrow> \<exists>p. c = Some p \<and> near lv (Some p)"
  by (cases c) (auto simp: should_command_def near_def)

lemma memory_near:
  assumes "memory_true s"
  shows "\<not> should_command (dw_camera s) lv \<Longrightarrow> near lv (camera_level s)"
    and "\<not> should_command (map_of (dw_ports s) i) lv \<Longrightarrow> near lv (port_level i s)"
  using assms by (auto dest!: not_should_command simp: memory_true_def camera_true_def ports_true_def)

lemma overridden_le:
  "dw_overrides t = [] \<or> dw_overrides t = dw_overrides s \<Longrightarrow> is_overridden key now t \<Longrightarrow> is_overridden key now s"
  by (auto simp: is_overridden_def)

lemma expire_overridden:
  assumes "is_overridden key now (expire_overrides now s)"
  shows "is_overridden key now s"
proof -
  have "map_of (dw_overrides (foldl (\<lambda>s key. out (Dew_Log ''info'' (m key)) (s\<lparr>dw_overrides := AList.delete key (dw_overrides s)\<rparr>)) t keys)) key
      \<in> {None, map_of (dw_overrides t) key}" for t keys m
  proof (induction keys arbitrary: t)
    case (Cons k keys)
    from Cons.IH [of "out (Dew_Log ''info'' (m k)) (t\<lparr>dw_overrides := AList.delete k (dw_overrides t)\<rparr>)"]
    show ?case by (auto simp: AList.delete_conv')
  qed simp
  then have "map_of (dw_overrides (expire_overrides now s)) key \<in> {None, map_of (dw_overrides s) key}"
    unfolding expire_overrides_def .
  then show ?thesis using assms unfolding is_overridden_def by (elim insertE emptyE) simp_all
qed

text \<open>What a calm tick does to the camera and to one port: the memory stays true, no override comes up, and
  a surface that is driven ends near the level asked for.\<close>

lemma drive_camera_true:
  fixes lv :: int
  assumes calm: "list_all resumes (e_in_camera env)" and m: "memory_true s"
  defines "t \<equiv> snd (drive_camera env lv s)"
  shows "memory_true t \<and> (\<forall>i. port_level i t = port_level i s) \<and> (dw_overrides t = [] \<or> dw_overrides t = dw_overrides s)"
    and "dc_camera (e_cfg env) \<Longrightarrow> \<not> is_overridden ''camera'' (e_now env) s \<Longrightarrow> e_heater env = Some True \<Longrightarrow> e_camera_ok env \<Longrightarrow>
       near lv (camera_level t)"
proof -
  define u where "u = dew_calls (e_in_camera env) (out (Camera_Set lv (e_camera_ok env)) s)"
  have "forgets (out (Camera_Set lv (e_camera_ok env)) s) u" unfolding u_def by (rule forgets_calls [OF calm])
  then have u: "camera_level u = (if e_camera_ok env then Some lv else camera_level s)" "\<And>i. port_level i u = port_level i s"
    "dw_camera u \<in> {None, dw_camera s}" "dw_ports u \<in> {[], dw_ports s}" "dw_overrides u \<in> {[], dw_overrides s}"
    by (simp_all add: forgets_def)
  define skip where "skip \<longleftrightarrow> \<not> dc_camera (e_cfg env) \<or> is_overridden ''camera'' (e_now env) s \<or> e_heater env \<noteq> Some True
    \<or> \<not> should_command (dw_camera s) lv"
  have t: "t = (if skip then s else if e_camera_ok env then u\<lparr>dw_camera := Some lv\<rparr>
      else out (Dew_Log ''warning'' (''could not set the camera dew heater: '' @ e_error env)) u)"
    by (simp add: t_def drive_camera_def skip_def u_def Let_def)
  show "memory_true t \<and> (\<forall>i. port_level i t = port_level i s) \<and> (dw_overrides t = [] \<or> dw_overrides t = dw_overrides s)"
  proof -
    have "map_of (dw_ports u) i = Some p \<Longrightarrow> port_level i s = Some p" "dw_camera u = Some p \<Longrightarrow> camera_level s = Some p" for i p
      using m u(3,4) by (auto simp: memory_true_def camera_true_def ports_true_def dest: sym [of "Some p"])
    then show ?thesis
      using m u(1,2,5) unfolding t by (auto simp: memory_true_def camera_true_def ports_true_def split: if_splits)
  qed
  show "near lv (camera_level t)"
    if "dc_camera (e_cfg env)" "\<not> is_overridden ''camera'' (e_now env) s" "e_heater env = Some True" "e_camera_ok env"
  proof (cases "should_command (dw_camera s) lv")
    case True
    then show ?thesis using that u(1) by (simp add: t skip_def)
  next
    case False
    then show ?thesis using memory_near(1) [OF m False] by (simp add: t skip_def)
  qed
qed

lemma drive_port_true:
  fixes lv :: int
  assumes calm: "list_all resumes (e_in_port env (p_id port))" and m: "memory_true s"
  defines "t \<equiv> snd (drive_port env (Some lv) port s)"
  shows "memory_true t \<and> camera_level t = camera_level s \<and> (dw_overrides t = [] \<or> dw_overrides t = dw_overrides s)"
    and "near lv (port_level j s) \<Longrightarrow> near lv (port_level j t)"
    and "\<not> port_is_overridden (p_id port) (e_now env) s \<Longrightarrow> e_port_ok env (p_id port) \<Longrightarrow> near lv (port_level (p_id port) t)"
proof -
  define i where "i = p_id port"
  define x where "x = Port_Set i lv (scale_to_port port lv) (e_port_ok env i)"
  define u where "u = dew_calls (e_in_port env i) (out x s)"
  have "forgets (out x s) u" unfolding u_def i_def by (rule forgets_calls [OF calm])
  then have u: "\<And>j. port_level j u = (if e_port_ok env i \<and> j = i then Some lv else port_level j s)" "camera_level u = camera_level s"
    "dw_camera u \<in> {None, dw_camera s}" "dw_ports u \<in> {[], dw_ports s}" "dw_overrides u \<in> {[], dw_overrides s}"
    by (simp_all add: forgets_def x_def)
  define skip where "skip \<longleftrightarrow> port_is_overridden i (e_now env) s \<or> \<not> should_command (map_of (dw_ports s) i) lv"
  define msg where "msg = ''could not set dew port '' @ (if p_name port = [] then int_str i else p_name port) @ '': '' @ e_error env"
  have t: "t = (if skip then s else if e_port_ok env i then u\<lparr>dw_ports := AList.update i lv (dw_ports u)\<rparr>
      else out (Dew_Log ''warning'' msg) u)"
    by (simp add: t_def drive_port_def skip_def u_def x_def msg_def Let_def flip: i_def)
  have old: "port_level j s = Some p" if "map_of (dw_ports u) j = Some p" for j p
    using m u(4) that by (auto simp: memory_true_def ports_true_def)
  have cam: "camera_level s = Some p" if "dw_camera u = Some p" for p
    using m u(3) that by (auto simp: memory_true_def camera_true_def dest: sym [of "Some p"])
  have "memory_true t"
    using m unfolding t memory_true_def camera_true_def ports_true_def
    by (auto simp: u AList.update_conv dest: old cam split: if_splits)
  then show "memory_true t \<and> camera_level t = camera_level s \<and> (dw_overrides t = [] \<or> dw_overrides t = dw_overrides s)"
    using u(2,5) unfolding t by (auto split: if_splits)
  show "near lv (port_level j t)" if "near lv (port_level j s)" using that unfolding t by (simp add: u)
  show "near lv (port_level (p_id port) t)" if "\<not> port_is_overridden (p_id port) (e_now env) s" "e_port_ok env (p_id port)"
  proof (cases "should_command (map_of (dw_ports s) i) lv")
    case True
    then show ?thesis using that by (simp add: t u skip_def flip: i_def)
  next
    case False
    then show ?thesis using memory_near(2) [OF m False] by (simp add: t skip_def flip: i_def)
  qed
qed

lemma drive_port_None [simp]: "snd (drive_port env None port s) = s"
  by (simp add: drive_port_def Let_def)

lemma drive_ports_None [simp]: "snd (drive_ports env None ports s) = s"
  by (induction ports arbitrary: s) (simp_all add: case_prod_beta)

lemma port_overridden_le:
  "dw_overrides t = [] \<or> dw_overrides t = dw_overrides s \<Longrightarrow> port_is_overridden i now t \<Longrightarrow> port_is_overridden i now s"
  by (auto simp: port_is_overridden_def is_overridden_def)

lemma drive_ports_true:
  fixes lv :: int
  assumes "\<And>i. list_all resumes (e_in_port env i)" and "memory_true s"
  shows "memory_true (snd (drive_ports env (Some lv) ports s)) \<and> camera_level (snd (drive_ports env (Some lv) ports s)) = camera_level s
      \<and> (near lv (port_level j s) \<longrightarrow> near lv (port_level j (snd (drive_ports env (Some lv) ports s))))
      \<and> (\<forall>port \<in> set ports. port_follows env (p_id port) \<and> \<not> port_is_overridden (p_id port) (e_now env) s \<and> e_port_ok env (p_id port) \<longrightarrow>
           near lv (port_level (p_id port) (snd (drive_ports env (Some lv) ports s))))"
  using assms(2)
proof (induction ports arbitrary: s j)
  case (Cons port ports)
  show ?case
  proof (cases "port_follows env (p_id port)")
    case False
    then show ?thesis using Cons.IH [OF Cons.prems] by auto
  next
    case True
    define t where "t = snd (drive_port env (Some lv) port s)"
    note p = drive_port_true [OF assms(1) Cons.prems, where lv = lv and port = port, folded t_def]
    have m: "memory_true t" and o: "dw_overrides t = [] \<or> dw_overrides t = dw_overrides s" using p(1) by blast+
    have near: "near lv (port_level i s) \<Longrightarrow> near lv (port_level i (snd (drive_ports env (Some lv) ports t)))" for i
      using Cons.IH [OF m, of i] p(2) [of i] by blast
    have head: "near lv (port_level (p_id port) (snd (drive_ports env (Some lv) ports t)))"
      if "\<not> port_is_overridden (p_id port) (e_now env) s" "e_port_ok env (p_id port)"
      using Cons.IH [OF m, of "p_id port"] p(3) [OF that] by blast
    have tail: "near lv (port_level (p_id q) (snd (drive_ports env (Some lv) ports t)))"
      if "q \<in> set ports" "port_follows env (p_id q)" "\<not> port_is_overridden (p_id q) (e_now env) s" "e_port_ok env (p_id q)" for q
      using Cons.IH [OF m] that port_overridden_le [OF o, of "p_id q" "e_now env"] by blast
    have s: "snd (drive_ports env (Some lv) (port # ports) s) = snd (drive_ports env (Some lv) ports t)"
      using True by (simp add: t_def case_prod_beta)
    show ?thesis unfolding s using Cons.IH [OF m] p(1) near head tail by auto
  qed
qed simp

lemma memory_forgets:
  assumes "forgets s t" and m: "memory_true s"
  shows "memory_true t"
proof -
  have "dw_camera t = Some p \<Longrightarrow> dw_camera s = Some p" "map_of (dw_ports t) i = Some p \<Longrightarrow> map_of (dw_ports s) i = Some p" for i p
    using assms(1) unfolding forgets_def by (elim conjE insertE emptyE; simp)+
  with m show ?thesis using assms(1) unfolding forgets_def memory_true_def camera_true_def ports_true_def by metis
qed

lemma port_rows_true:
  fixes lv :: int
  assumes calm: "calm_tick env" and m: "memory_true s"
  defines "t \<equiv> snd (port_rows env (Some lv) s)"
  shows "memory_true t \<and> camera_level t = camera_level s"
    and "e_ports env = Some (Some ports) \<Longrightarrow> port \<in> set ports \<Longrightarrow> port_follows env (p_id port) \<Longrightarrow>
       \<not> port_is_overridden (p_id port) (e_now env) s \<Longrightarrow> e_port_ok env (p_id port) \<Longrightarrow> near lv (port_level (p_id port) t)"
proof -
  define u where "u = dew_calls (e_in_list env) s"
  have f: "forgets s u" unfolding u_def using calm by (intro forgets_calls) (simp add: calm_tick_def)
  have o: "dw_overrides u = [] \<or> dw_overrides u = dw_overrides s" using f by (auto simp: forgets_def)
  have c: "\<And>i. list_all resumes (e_in_port env i)" using calm by (simp add: calm_tick_def)
  note d = drive_ports_true [OF c memory_forgets [OF f m], where lv = lv]
  show "memory_true t \<and> camera_level t = camera_level s"
    using d m f memory_forgets [OF f m] by (auto simp: t_def port_rows_def Let_def forgets_def simp flip: u_def split: option.split)
  show "near lv (port_level (p_id port) t)"
    if "e_ports env = Some (Some ports)" "port \<in> set ports" "port_follows env (p_id port)"
      "\<not> port_is_overridden (p_id port) (e_now env) s" "e_port_ok env (p_id port)"
    using that d port_overridden_le [OF o, of "p_id port" "e_now env"] by (auto simp: t_def port_rows_def Let_def simp flip: u_def)
qed

lemma port_rows_None_true:
  assumes "calm_tick env" and "memory_true s"
  shows "memory_true (snd (port_rows env None s))"
  using assms memory_forgets [OF forgets_calls [of "e_in_list env" s]]
  by (auto simp: port_rows_def Let_def calm_tick_def split: option.split)

lemma memory_expire [simp]: "memory_true (expire_overrides now s) = memory_true s"
  by (simp add: memory_true_def camera_true_def ports_true_def)

lemma memory_record [simp]: "memory_true (dew_record cfg f rd lv why rows s) = memory_true s"
  by (simp add: memory_true_def camera_true_def ports_true_def)

lemma memory_power [simp]: "memory_true (s\<lparr>dw_power := w\<rparr>) = memory_true s"
  by (simp add: memory_true_def camera_true_def ports_true_def)

lemma memory_tick:
  assumes calm: "calm_tick env" and m: "memory_true s"
  shows "memory_true (dew_tick env s)"
proof -
  have c: "list_all resumes (e_in_camera env)" using calm by (simp add: calm_tick_def)
  have e: "memory_true (expire_overrides (e_now env) s)" using m by simp
  note d = conjunct1 [OF drive_camera_true(1) [OF c e]]
  note r = conjunct1 [OF port_rows_true(1) [OF calm d]]
  show ?thesis
    using m r port_rows_None_true [OF calm e] by (auto simp: dew_tick_def Let_def case_prod_beta split: option.split)
qed

lemma memory_hand:
  assumes "drives h" and "memory_true s"
  shows "memory_true (on_call (By_Hand h) s)"
  using assms by (cases "h_surface h")
    (auto simp: note_manual_def Let_def memory_true_def camera_true_def ports_true_def AList.delete_conv' restrict_map_def split: if_splits)

interpretation memory: lawful dew_step memory_true "\<lambda>_. calm_event"
proof
  fix s e
  assume "memory_true s" "calm_event e"
  then show "memory_true (dew_step s e)"
    using memory_tick memory_hand memory_forgets [OF forgets_resume] by (cases e rule: calm_event.cases) auto
qed

text \<open>The heaters follow the margin: after any calls and ticks in which hands set only surfaces that were
  being driven, and not in the middle of a tick, a tick with a reading leaves every heater it may drive
  within five points of the level the ramp asks for, by a command that went through.\<close>

theorem heaters_follow_the_margin:
  assumes "legal_run (\<lambda>_. calm_event) dew_step dew_init es" and "calm_tick env"
    and "dc_enabled (e_cfg env)" and "e_reading env = (Some t, Some d)"
  shows "let s = run dew_step dew_init es; s' = dew_tick env s; lv = ramp_power (e_cfg env) (t - d) in
    (dc_camera (e_cfg env) \<and> \<not> is_overridden ''camera'' (e_now env) s \<and> e_heater env = Some True \<and> e_camera_ok env \<longrightarrow>
       near lv (camera_level s'))
    \<and> (\<forall>ports. e_ports env = Some (Some ports) \<longrightarrow> (\<forall>port \<in> set ports. port_follows env (p_id port)
         \<and> \<not> port_is_overridden (p_id port) (e_now env) s \<and> e_port_ok env (p_id port) \<longrightarrow>
         near lv (port_level (p_id port) s')))"
proof -
  define s where "s = run dew_step dew_init es"
  define s1 where "s1 = expire_overrides (e_now env) s"
  define lv where "lv = ramp_power (e_cfg env) (t - d)"
  define s2 where "s2 = snd (drive_camera env lv s1)"
  define s3 where "s3 = snd (port_rows env (Some lv) s2)"
  have "memory_true dew_init" by (simp add: memory_true_def camera_true_def ports_true_def dew_init_def)
  then have m: "memory_true s1" unfolding s1_def s_def using memory.inv_legal_run [OF _ assms(1)] by simp
  have c: "list_all resumes (e_in_camera env)" using assms(2) by (simp add: calm_tick_def)
  have o1: "is_overridden key (e_now env) s1 \<Longrightarrow> is_overridden key (e_now env) s" for key
    unfolding s1_def by (rule expire_overridden)
  note cam = drive_camera_true [OF c m, of lv, folded s2_def]
  have m2: "memory_true s2" and o2: "dw_overrides s2 = [] \<or> dw_overrides s2 = dw_overrides s1" using cam(1) by blast+
  note rows = port_rows_true [OF assms(2) m2, where lv = lv, folded s3_def]
  have levels: "camera_level (dew_tick env s) = camera_level s3" "port_level i (dew_tick env s) = port_level i s3" for i
    using assms(3,4) by (simp_all add: dew_tick_def Let_def case_prod_beta flip: s1_def lv_def)
      (simp_all add: s2_def s3_def)
  have "near lv (camera_level s3)" if "dc_camera (e_cfg env)" "\<not> is_overridden ''camera'' (e_now env) s"
    "e_heater env = Some True" "e_camera_ok env"
    using cam(2) that rows(1) o1 by auto
  moreover have "near lv (port_level (p_id port) s3)" if "e_ports env = Some (Some ports)" "port \<in> set ports"
    "port_follows env (p_id port)" "\<not> port_is_overridden (p_id port) (e_now env) s" "e_port_ok env (p_id port)" for ports port
    using rows(2) [OF that(1-3) _ that(5)] that(4) port_overridden_le [OF o2] o1 by (auto simp: port_is_overridden_def)
  ultimately show ?thesis unfolding Let_def levels s_def [symmetric] lv_def [symmetric] by blast
qed

section \<open>Demonstrations\<close>

definition demo_cfg :: dew_cfg where
  "demo_cfg = \<lparr>dc_enabled = True, dc_full = 1, dc_off = 5, dc_min = 0, dc_max = 100, dc_camera = True, dc_override_s = 7200\<rparr>"

definition demo_file :: port_file where
  "demo_file = Table [''__default__'' \<mapsto> Some [''3'' \<mapsto> Some [''follow_dew'' \<mapsto> JBool True]]]"

definition demo_port :: switch_port where
  "demo_port = \<lparr>p_id = 3, p_name = ''DEW A'', p_value = Fin 0, p_min = Fin 0, p_max = Fin 255, p_protect = None,
     p_protected_now = False, p_follow_dew = False\<rparr>"

definition demo_tick :: "rat \<Rightarrow> rat \<Rightarrow> dew_env" where
  "demo_tick now margin = \<lparr>e_cfg = demo_cfg, e_now = now, e_reading = (Some margin, Some 0), e_active = None, e_file = demo_file,
     e_heater = Some True, e_camera_ok = True, e_in_camera = [], e_ports = Some (Some [demo_port]), e_in_list = [],
     e_port_ok = (\<lambda>_. True), e_in_port = (\<lambda>_. []), e_error = []\<rparr>"

definition demo_hand :: "surface \<Rightarrow> rat \<Rightarrow> port_file \<Rightarrow> hand" where
  "demo_hand k now f = \<lparr>h_surface = k, h_now = now, h_cfg = Some demo_cfg, h_active = None, h_file = f\<rparr>"

lemma hand_set_level_is_kept_witness:
  "commands Camera_Window (run dew_step (on_call (By_Hand (demo_hand Camera_Window 0 demo_file)) dew_init)
     [Tick (demo_tick 120 3), Tick (demo_tick 240 1)]) = []"
proof -
  have "commands Camera_Window dew_init = []" "distinct (map fst (dw_overrides dew_init))"
    by (simp_all add: commands_def dew_init_def)
  with hand_set_level_is_kept [where s = dew_init and h = "demo_hand Camera_Window 0 demo_file" and k = Camera_Window and u = 7200
      and es = "[Tick (demo_tick 120 3), Tick (demo_tick 240 1)]"]
  show ?thesis by (simp add: demo_hand_def demo_tick_def demo_cfg_def drives_def override_end_def)
qed

lemma heaters_follow_the_margin_witness:
  "near 50 (camera_level (dew_tick (demo_tick 120 3) dew_init)) \<and> near 50 (port_level 3 (dew_tick (demo_tick 120 3) dew_init))"
proof -
  have r: "ramp_power (e_cfg (demo_tick 120 3)) (3 - 0) = 50" "port_follows (demo_tick 120 3) 3" by code_simp+
  have "calm_tick (demo_tick 120 3)" "dc_enabled (e_cfg (demo_tick 120 3))" "e_reading (demo_tick 120 3) = (Some 3, Some 0)"
    by (simp_all add: calm_tick_def demo_tick_def demo_cfg_def)
  note follow = heaters_follow_the_margin [of "[]", OF _ this, simplified run_simps legal_run.simps r Let_def]
  have "e_ports (demo_tick 120 3) = Some (Some [demo_port])" "p_id demo_port = 3" "dc_camera (e_cfg (demo_tick 120 3))"
    "e_heater (demo_tick 120 3) = Some True" "e_camera_ok (demo_tick 120 3)" "e_port_ok (demo_tick 120 3) 3"
    by (simp_all add: demo_tick_def demo_cfg_def demo_port_def)
  moreover have "\<not> is_overridden key now dew_init" "\<not> port_is_overridden i now dew_init" for key i now
    by (simp_all add: port_is_overridden_def is_overridden_def dew_init_def)
  ultimately show ?thesis using follow r(2) by simp
qed

text \<open>Both conditions are needed. A hand that falls into the middle of a command: the command returns after
  it and its level is remembered over the hand's, so when the override has run out and the ramp asks for
  about the same level, nothing is sent and the heater stays where the hand put it.\<close>

lemma hand_during_a_command:
  "let s = dew_tick (demo_tick 100 3\<lparr>e_in_camera := [By_Hand (demo_hand Camera_Window 101 demo_file)]\<rparr>) dew_init;
       s' = dew_tick (demo_tick 8000 3) s in
     \<not> is_overridden ''camera'' 8000 s \<and> dw_camera s = Some 50 \<and> camera_level s = None \<and> camera_level s' = None"
  by code_simp

text \<open>A hand that sets a port while it does not follow the margin: the memory of an earlier command stays, and
  once the port follows again it holds back the command that is needed.\<close>

lemma hand_on_an_unfollowed_port:
  "let s = on_call (By_Hand (demo_hand (Port 3) 200 Absent)) (dew_tick (demo_tick 100 3) dew_init);
       s' = dew_tick (demo_tick 300 3) s in
     \<not> port_is_overridden 3 300 s \<and> port_follows (demo_tick 300 3) 3 \<and> port_level 3 s = None \<and> port_level 3 s' = None"
  by code_simp

end
