(* ===== verification/Cooling.thy ===== *)
theory Cooling
  imports Prelude
begin

text \<open>
  The loop in which the engine waits for a cooled sensor (\<open>server/astrodeck/sequence/engine.py\<close>, the end of
  \<open>_cool_and_wait\<close>), and its constants, two of which the preparation at dusk takes over. A probe has the clock
  read before it and what the sensor said, if anything; a list of probes that is used up is a wait that goes on.
\<close>

section \<open>The loop\<close>

definition COOLER_AT_TARGET_C :: rat where "COOLER_AT_TARGET_C = 1"
definition COOLER_STABLE_S :: rat where "COOLER_STABLE_S = 120"
definition COOLER_SETTLE_MAX_S :: rat where "COOLER_SETTLE_MAX_S = 900"

record cool_probe =
  cp_now :: rat
  cp_reads :: "rat option"

datatype probed = Stable | Never string | Probing

definition sensor_in_band :: "rat \<Rightarrow> rat option \<Rightarrow> bool" where
  "sensor_in_band target t = (case t of None \<Rightarrow> False | Some t \<Rightarrow> \<bar>t - target\<bar> \<le> COOLER_AT_TARGET_C)"

text \<open>The loop: since when the sensor has been in its band, and whether a probe has found it out of it.\<close>

fun cool_probing :: "rat \<Rightarrow> rat \<Rightarrow> rat option \<Rightarrow> bool \<Rightarrow> cool_probe list \<Rightarrow> probed" where
  "cool_probing target deadline since out [] = Probing"
| "cool_probing target deadline since out (q # qs) =
     (if since = None \<and> deadline \<le> cp_now q then Never ''cooler did not reach its band in time''
      else if (case since of None \<Rightarrow> False | Some b \<Rightarrow> COOLER_SETTLE_MAX_S \<le> cp_now q - b)
      then Never ''cooler reached its band but never settled''
      else if sensor_in_band target (cp_reads q)
      then let b = (case since of None \<Rightarrow> cp_now q | Some b \<Rightarrow> b) in
        if (if out then COOLER_STABLE_S else 0) \<le> cp_now q - b then Stable
        else cool_probing target deadline (Some b) out qs
      else cool_probing target deadline None True qs)"

section \<open>It ends\<close>

text \<open>A probe past the two bounds, the one of the descent and the one of the settling, is the last.\<close>

lemma probing_ends:
  assumes "\<exists>q \<in> set qs. deadline + COOLER_SETTLE_MAX_S \<le> cp_now q" "\<And>b. since = Some b \<Longrightarrow> b < deadline"
  shows "cool_probing target deadline since out qs \<noteq> Probing"
  using assms
proof (induction qs arbitrary: since out)
  case (Cons q qs)
  show ?case
  proof (cases "deadline + COOLER_SETTLE_MAX_S \<le> cp_now q")
    case True
    then show ?thesis
      using Cons.prems(2) by (cases since) (auto simp: COOLER_SETTLE_MAX_S_def)
  next
    case False
    then have rest: "\<exists>q \<in> set qs. deadline + COOLER_SETTLE_MAX_S \<le> cp_now q"
      using Cons.prems(1) by simp
    have "cool_probing target deadline (Some b) out qs \<noteq> Probing" if "b < deadline" for b
      using Cons.IH [OF rest, of "Some b" out] that by simp
    moreover have "cool_probing target deadline None True qs \<noteq> Probing"
      using Cons.IH [OF rest, of None True] by simp
    ultimately show ?thesis
      using Cons.prems(2) by (cases since) (simp_all add: Let_def)
  qed
qed simp

end
