(* ===== verification/Dusk_Arm.thy ===== *)
theory Dusk_Arm
  imports Py_Values Machines Cooling
begin

text \<open>
  The preparation of an idle rig at dusk (\<open>server/astrodeck/dusk_arm.py\<close>): once before the dawn of a night it connects the
  equipment and cools the camera, and it records the attempt on the disk before it touches anything.

  A tick is a coroutine. \<open>rig\<close> is what the service reads of its surroundings at one instant: the live
  configuration, the site, who is busy, which devices there are. The environment of a tick holds one such
  reading for every stretch of code between two awaits, and the answer of every await; an answer may be
  \<open>Stops\<close>: the task is cancelled there, or the process dies. A restart is an event of its own and keeps
  the file and nothing else. The night of an instant (\<open>schedule.observing_night\<close>) is part of the
  environment, whatever it answers at each tick, as is what the weather service and the profile store answer. The extra fields of the status
  are left out.
\<close>

section \<open>State\<close>

definition CONNECT_TIMEOUT_S :: rat where "CONNECT_TIMEOUT_S = 120"
definition DEVICE_TIMEOUT_S :: rat where "DEVICE_TIMEOUT_S = 15"

datatype 'a await = Gives 'a | Fails | Stops

datatype dusk_error = Dusk_State_Error | Other_Error

datatype dusk_file = No_Record | Broken_Record | Attempt_Row jval jval

record attempt =
  at_until :: rat
  at_state :: string

record dusk_cfg =
  kc_enabled :: bool
  kc_profile :: "string option"
  kc_sun_alt :: rat
  kc_setpoint :: "pyfloat option"
  kc_timeout :: rat
  kc_safety :: bool
  kc_active :: "string option"

record dusk_site =
  ks_default :: bool
  ks_lat :: jval
  ks_lon :: jval

type_synonym signature = "(string option \<times> rat \<times> pyfloat option \<times> jval \<times> jval \<times> bool) option"

datatype dusk_act = Connect_Rig | Cool_To rat | Wrote attempt | Said string string | Band rat | Out_Of_Band

record dusk =
  dk_attempt :: "attempt option option"
  dk_camera :: "nat option"
  dk_deadline :: rat
  dk_in_band :: "rat option"
  dk_target :: rat
  dk_sig :: signature
  dk_warm :: nat
  dk_connecting :: bool
  dk_status :: "string \<times> string"
  dk_file :: dusk_file
  dk_log :: "dusk_act list"

definition dusk_boot :: "dusk \<Rightarrow> dusk" where
  "dusk_boot s = s\<lparr>dk_attempt := None, dk_camera := None, dk_deadline := 0, dk_in_band := None, dk_target := 0, dk_sig := None,
     dk_warm := 0, dk_connecting := False, dk_status := (''disabled'', ''Dusk preparation is off.'')\<rparr>"

definition dusk_init :: "dusk_file \<Rightarrow> dusk" where
  "dusk_init f = \<lparr>dk_attempt = None, dk_camera = None, dk_deadline = 0, dk_in_band = None, dk_target = 0, dk_sig = None,
     dk_warm = 0, dk_connecting = False, dk_status = (''disabled'', ''Dusk preparation is off.''), dk_file = f, dk_log = []\<rparr>"

section \<open>What a tick reads\<close>

record rig =
  r_cfg :: dusk_cfg
  r_site :: dusk_site
  r_clock :: rat
  r_running :: bool
  r_busy :: bool
  r_locked :: bool
  r_devices :: bool
  r_required :: bool
  r_camera :: "nat option"
  r_can_cool :: bool
  r_has_safety :: bool
  r_warm :: nat
  r_warming :: bool
  r_weather_veto :: bool

datatype profile_answer = Profile_Found | Profile_Missing

text \<open>What the cooler says of itself: nothing to ask, or whether it is on and where it is set.\<close>

datatype cooler_answer = Cannot_Ask | No_State | Cooler bool "rat option"

record dusk_env =
  e_rig0 :: rig
  e_night :: "(rat \<times> rat) option"
  e_guiding :: "bool await"
  e_rig1 :: rig
  e_cooler :: "cooler_answer await"
  e_temperature :: "pyfloat option await"
  e_rig_read :: rig
  e_profile :: "profile_answer await"
  e_rig2 :: rig
  e_connect :: "unit await"
  e_rig3 :: rig
  e_safe :: "bool await"
  e_rig4 :: rig
  e_guiding2 :: "bool await"
  e_rig5 :: rig
  e_cool :: "unit await"
  e_rig6 :: rig
  e_write1 :: bool
  e_write2 :: bool
  e_write3 :: bool

definition current_signature :: "rig \<Rightarrow> signature" where
  "current_signature r = (if kc_enabled (r_cfg r)
     then Some (kc_profile (r_cfg r), kc_sun_alt (r_cfg r), kc_setpoint (r_cfg r), ks_lat (r_site r), ks_lon (r_site r), ks_default (r_site r))
     else None)"

definition float_of :: "jval \<Rightarrow> pyfloat option" where
  "float_of v = (case v of JInt n \<Rightarrow> Some (Fin (of_int n)) | JBool b \<Rightarrow> Some (Fin (if b then 1 else 0))
     | JFloat x \<Rightarrow> Some x | _ \<Rightarrow> None)"

definition finite_number :: "jval \<Rightarrow> bool" where
  "finite_number v = (case float_of v of None \<Rightarrow> False | Some x \<Rightarrow> isfinite x)"

section \<open>The record of the attempt\<close>

definition said :: "string \<Rightarrow> string \<Rightarrow> dusk \<Rightarrow> dusk" where
  "said state detail s =
     (let s = (if (state, detail) \<noteq> dk_status s
        then s\<lparr>dk_log := dk_log s @ [Said (if state = ''failed'' then ''warning'' else ''info'') detail]\<rparr> else s) in
      s\<lparr>dk_status := (state, detail)\<rparr>)"

definition attempt_states :: "string list" where
  "attempt_states = [''preparing'', ''ready'', ''failed'', ''interrupted'', ''in_use'']"

definition parse_attempt :: "dusk_file \<Rightarrow> dusk_error + attempt option" where
  "parse_attempt f = (case f of
     No_Record \<Rightarrow> Inr None
   | Broken_Record \<Rightarrow> Inl Dusk_State_Error
   | Attempt_Row until state \<Rightarrow>
      (case float_of until of Some (Fin u) \<Rightarrow>
         if u \<le> 0 then Inl Dusk_State_Error
         else (case state of JStr st \<Rightarrow> if st \<in> set attempt_states then Inr (Some \<lparr>at_until = u, at_state = st\<rparr>)
               else Inl Dusk_State_Error
           | JList \<Rightarrow> Inl Other_Error | JDict \<Rightarrow> Inl Other_Error | _ \<Rightarrow> Inl Dusk_State_Error)
       | _ \<Rightarrow> Inl Dusk_State_Error))"

definition load_attempt :: "dusk \<Rightarrow> (dusk_error + attempt option) \<times> dusk" where
  "load_attempt s = (case dk_attempt s of
     Some a \<Rightarrow> (Inr a, s)
   | None \<Rightarrow> (case parse_attempt (dk_file s) of Inl e \<Rightarrow> (Inl e, s)
       | Inr a \<Rightarrow> (Inr a, s\<lparr>dk_attempt := Some a\<rparr>)))"

definition record_attempt :: "bool \<Rightarrow> rat \<Rightarrow> string \<Rightarrow> dusk \<Rightarrow> dusk_error option \<times> dusk" where
  "record_attempt ok until state s = (if \<not> ok then (Some Dusk_State_Error, s)
     else let row = \<lparr>at_until = until, at_state = state\<rparr> in
       (None, s\<lparr>dk_file := Attempt_Row (JFloat (Fin until)) (JStr state), dk_attempt := Some (Some row),
          dk_log := dk_log s @ [Wrote row]\<rparr>))"

text \<open>\<open>_finish\<close>: an attempt is loaded whenever it is called.\<close>

definition known_until :: "dusk \<Rightarrow> rat" where
  "known_until s = (case dk_attempt s of Some (Some a) \<Rightarrow> at_until a | _ \<Rightarrow> 0)"

definition finish_attempt :: "bool \<Rightarrow> string \<Rightarrow> string \<Rightarrow> dusk \<Rightarrow> dusk_error option \<times> dusk" where
  "finish_attempt ok state detail s =
     (case record_attempt ok (known_until s) state (s\<lparr>dk_camera := None\<rparr>) of
        (Some e, s) \<Rightarrow> (Some e, s)
      | (None, s) \<Rightarrow> (None, said state detail s))"

text \<open>The last line of the attempt: an error in it is one more failure.\<close>

definition finish_guarded :: "dusk_env \<Rightarrow> string \<Rightarrow> string \<Rightarrow> dusk \<Rightarrow> dusk_error option \<times> dusk" where
  "finish_guarded env state detail s = (case finish_attempt (e_write2 env) state detail s of
     (None, s) \<Rightarrow> (None, s)
   | (Some e, s) \<Rightarrow> finish_attempt (e_write3 env) ''failed'' ''Dusk preparation failed. Check Equipment before starting manually.'' s)"

definition attempt_failed :: "dusk_env \<Rightarrow> dusk \<Rightarrow> dusk_error option \<times> dusk" where
  "attempt_failed env s = finish_attempt (e_write2 env) ''failed'' ''Dusk preparation failed. Check Equipment before starting manually.'' s"

section \<open>Cooling\<close>

definition in_band :: "dusk \<Rightarrow> pyfloat option \<Rightarrow> bool" where
  "in_band s temperature = (case temperature of Some (Fin t) \<Rightarrow> \<bar>t - dk_target s\<bar> \<le> COOLER_AT_TARGET_C | _ \<Rightarrow> False)"

text \<open>After the readings of the camera, which is the one the attempt began with.\<close>

definition judge_cooling :: "dusk_env \<Rightarrow> bool \<Rightarrow> nat option \<Rightarrow> pyfloat option \<Rightarrow> dusk \<Rightarrow> dusk_error option \<times> dusk" where
  "judge_cooling env ok cam temperature s = (let r = e_rig_read env; now = r_clock r in
     if r_busy r \<or> dk_sig s \<noteq> current_signature r \<or> r_warm r \<noteq> dk_warm s \<or> cam \<noteq> r_camera r \<or> \<not> r_required r then
       finish_attempt ok ''interrupted'' ''The rig changed while cooling; check it before starting a run.'' s
     else if known_until s \<le> now then
       finish_attempt ok ''interrupted'' ''Dawn arrived before preparation finished. Waiting for the next evening.'' s
     else if dk_deadline s \<le> now then
       finish_attempt ok ''failed'' ''The camera did not settle at its imaging temperature in time. Check the cooler before starting.'' s
     else if in_band s temperature then
       (let since = (case dk_in_band s of None \<Rightarrow> now | Some t \<Rightarrow> t);
            s = s\<lparr>dk_in_band := Some since, dk_log := dk_log s @ [Band now]\<rparr> in
        if COOLER_STABLE_S \<le> now - since then
          finish_attempt ok ''ready'' ''Dusk preparation completed. The camera reached its imaging temperature.'' s
        else (None, said ''cooling'' ''Waiting for the camera temperature to settle.'' s))
     else (None, said ''cooling'' ''Waiting for the camera temperature to settle.''
             (s\<lparr>dk_in_band := None, dk_log := dk_log s @ [Out_Of_Band]\<rparr>)))"

definition read_temperature :: "dusk_env \<Rightarrow> bool \<Rightarrow> nat option \<Rightarrow> dusk \<Rightarrow> dusk_error option \<times> dusk" where
  "read_temperature env ok cam s = (case e_temperature env of
     Stops \<Rightarrow> (None, s) | Fails \<Rightarrow> judge_cooling env ok cam None s | Gives t \<Rightarrow> judge_cooling env ok cam t s)"

text \<open>An error of the record that falls into the reading of the cooler is taken for a missing reading.\<close>

definition check_cooling :: "dusk_env \<Rightarrow> dusk \<Rightarrow> dusk_error option \<times> dusk" where
  "check_cooling env s = (let r = e_rig1 env; cam = dk_camera s in
     if cam \<noteq> r_camera r \<or> \<not> r_required r then
       finish_attempt (e_write2 env) ''interrupted'' ''Equipment was disconnected; dusk preparation will not reconnect it tonight.'' s
     else if r_warm r \<noteq> dk_warm s \<or> r_warming r then
       finish_attempt (e_write2 env) ''interrupted'' ''The camera is warming; dusk preparation will not cool it again tonight.'' s
     else case e_cooler env of
       Stops \<Rightarrow> (None, s)
     | Fails \<Rightarrow> judge_cooling env (e_write2 env) cam None s
     | Gives Cannot_Ask \<Rightarrow> read_temperature env (e_write2 env) cam s
     | Gives No_State \<Rightarrow> judge_cooling env (e_write2 env) cam None s
     | Gives (Cooler on target) \<Rightarrow>
        if \<not> on \<or> (case target of None \<Rightarrow> False | Some t \<Rightarrow> 1 / 10 < \<bar>t - dk_target s\<bar>) then
          (case finish_attempt (e_write2 env) ''interrupted'' ''The cooler setting changed; dusk preparation will leave it alone tonight.'' s of
             (None, s) \<Rightarrow> (None, s)
           | (Some e, s) \<Rightarrow> judge_cooling env (e_write3 env) cam None s)
        else read_temperature env (e_write2 env) cam s)"

section \<open>The attempt\<close>

text \<open>From the moment the equipment is there.\<close>

definition start_cooling :: "dusk_env \<Rightarrow> signature \<Rightarrow> rat \<Rightarrow> rig \<Rightarrow> dusk \<Rightarrow> dusk_error option \<times> dusk" where
  "start_cooling env sg dawn r4 s =
     (case r_camera r4 of None \<Rightarrow> attempt_failed env s
      | Some cam \<Rightarrow>
        if \<not> r_can_cool r4 then finish_guarded env ''failed'' ''This camera cannot cool to the requested temperature. Prepare this rig manually.'' s
        else if e_guiding2 env = Stops then (None, s)
        else let guiding = (e_guiding2 env \<noteq> Gives False); r5 = e_rig5 env in
          if sg \<noteq> current_signature r5 \<or> r_busy r5 \<or> guiding \<or> dawn \<le> r_clock r5 \<or> r_warm r5 \<noteq> dk_warm s then
            finish_guarded env ''interrupted'' ''Conditions changed during connection; check the rig before starting.'' s
          else let s = s\<lparr>dk_log := dk_log s @ [Cool_To (dk_target s)]\<rparr> in
            (case e_cool env of
               Stops \<Rightarrow> (None, s)
             | Fails \<Rightarrow> attempt_failed env s
             | Gives _ \<Rightarrow> (None, said ''cooling'' ''Cooling the camera to the imaging temperature.''
                 (s\<lparr>dk_camera := Some cam,
                    dk_deadline := r_clock (e_rig6 env) + max 60 (kc_timeout (r_cfg (e_rig6 env))) + COOLER_STABLE_S,
                    dk_in_band := None\<rparr>))))"

definition confirm_safe :: "dusk_env \<Rightarrow> signature \<Rightarrow> rat \<Rightarrow> rig \<Rightarrow> dusk \<Rightarrow> dusk_error option \<times> dusk" where
  "confirm_safe env sg dawn r3 s =
     (if \<not> r_required r3 then finish_guarded env ''failed'' ''The mount or camera did not connect. Check Equipment before starting.'' s
      else if sg \<noteq> current_signature r3 \<or> r_busy r3 then
        finish_guarded env ''interrupted'' ''Dusk preparation stopped because the settings or rig activity changed.'' s
      else if kc_safety (r_cfg r3) \<and> r_has_safety r3 then
        (case e_safe env of
           Stops \<Rightarrow> (None, s)
         | Fails \<Rightarrow> attempt_failed env s
         | Gives False \<Rightarrow> finish_guarded env ''failed'' ''The safety monitor has not confirmed safe conditions. Cooling was not started.'' s
         | Gives True \<Rightarrow> start_cooling env sg dawn (e_rig4 env) s)
      else start_cooling env sg dawn r3 s)"

definition prepare :: "dusk_env \<Rightarrow> signature \<Rightarrow> rat \<Rightarrow> dusk \<Rightarrow> dusk_error option \<times> dusk" where
  "prepare env sg dawn s = (let r2 = e_rig2 env in
     if r_locked r2 then (None, s)
     else if r_busy r2 \<or> sg \<noteq> current_signature r2 then (None, s)
     else if r_devices r2 \<and> kc_active (r_cfg r2) \<noteq> kc_profile (r_cfg r2) then
       (None, said ''waiting'' ''Another equipment profile is connected; dusk preparation will leave it alone.'' s)
     else if r_devices r2 \<and> \<not> r_required r2 then
       (None, said ''waiting'' ''The rig is partly connected. Check its mount and camera before preparing.'' s)
     else case record_attempt (e_write1 env) dawn ''preparing'' s of
       (Some e, s) \<Rightarrow> (Some e, s)
     | (None, s) \<Rightarrow>
       (case kc_setpoint (r_cfg r2) of
          Some (Fin target) \<Rightarrow>
           let s = s\<lparr>dk_sig := sg, dk_warm := r_warm r2, dk_target := target\<rparr> in
           if r_devices r2 then confirm_safe env sg dawn r2 s
           else let s = said ''connecting'' ''Connecting the saved dusk profile.'' (s\<lparr>dk_connecting := True\<rparr>);
                    s = s\<lparr>dk_log := dk_log s @ [Connect_Rig], dk_connecting := False\<rparr> in
             (case e_connect env of
                Stops \<Rightarrow> (None, s)
              | Fails \<Rightarrow> attempt_failed env s
              | Gives _ \<Rightarrow> confirm_safe env sg dawn (e_rig3 env) s)
        | _ \<Rightarrow> (Some Other_Error, s\<lparr>dk_sig := sg, dk_warm := r_warm r2\<rparr>)))"

definition consider_attempt :: "dusk_env \<Rightarrow> signature \<Rightarrow> bool \<Rightarrow> rat \<times> rat \<Rightarrow> dusk \<Rightarrow> dusk_error option \<times> dusk" where
  "consider_attempt env sg guiding night s = (let now = r_clock (e_rig0 env); r1 = e_rig1 env; cfg = r_cfg r1 in
     if snd night - now \<le> CONNECT_TIMEOUT_S + max 60 (kc_timeout cfg) + COOLER_STABLE_S + 2 * DEVICE_TIMEOUT_S then
       (None, said ''waiting'' ''Dawn is too close to finish preparation. Waiting for the next dusk.'' s)
     else if (case kc_profile cfg of None \<Rightarrow> True | Some p \<Rightarrow> p = []) \<or> (case kc_setpoint cfg of Some x \<Rightarrow> \<not> isfinite x | None \<Rightarrow> True) then
       (None, said ''waiting'' ''Choose a profile and an imaging temperature for dusk preparation.'' s)
     else if r_busy r1 \<or> guiding \<or> r_locked r1 then
       (None, said ''waiting'' ''Waiting for the rig to be idle.'' s)
     else if r_weather_veto r1 then
       (None, said ''waiting'' ''Waiting for the weather policy to allow preparation.'' s)
     else case e_profile env of
       Stops \<Rightarrow> (None, s)
     | Fails \<Rightarrow> (Some Other_Error, s)
     | Gives Profile_Missing \<Rightarrow> (None, said ''waiting'' ''The dusk profile is missing. Choose a saved equipment profile.'' s)
     | Gives Profile_Found \<Rightarrow> prepare env sg (snd night) s)"

definition until_of :: "attempt option \<Rightarrow> rat" where
  "until_of a = (case a of None \<Rightarrow> 0 | Some a \<Rightarrow> at_until a)"

definition already_ran :: "attempt option \<Rightarrow> dusk \<Rightarrow> dusk" where
  "already_ran a s = (if fst (dk_status s) \<in> {''ready'', ''failed'', ''interrupted'', ''completed'', ''in_use''} then s
     else said (case map_option at_state a of Some st \<Rightarrow>
            if st = ''ready'' then ''completed'' else if st = ''in_use'' then ''in_use'' else ''interrupted'' | None \<Rightarrow> ''interrupted'')
          ''Dusk preparation already ran tonight. Check the rig before starting manually.'' s)"

text \<open>In the night, with the record of the last attempt read.\<close>

definition yield_to_run :: "dusk_env \<Rightarrow> rat \<times> rat \<Rightarrow> attempt option \<Rightarrow> dusk \<Rightarrow> dusk_error option \<times> dusk" where
  "yield_to_run env night a s =
     (case (if dk_camera s \<noteq> None \<or> until_of a \<le> r_clock (e_rig0 env) \<or> map_option at_state a \<noteq> Some ''in_use''
            then record_attempt (e_write1 env) (snd night) ''in_use'' (s\<lparr>dk_camera := None\<rparr>) else (None, s)) of
        (Some e, s) \<Rightarrow> (Some e, s)
      | (None, s) \<Rightarrow> (None, said ''in_use'' ''An existing run owns the rig. Dusk preparation is skipped tonight.'' s))"

definition dusk_tonight :: "dusk_env \<Rightarrow> rat \<times> rat \<Rightarrow> attempt option \<Rightarrow> dusk \<Rightarrow> dusk_error option \<times> dusk" where
  "dusk_tonight env night a s = (let r0 = e_rig0 env; now = r_clock r0 in
     if r_running r0 then yield_to_run env night a s
     else let sg = current_signature r0 in
       if e_guiding env = Stops then (None, s)
       else let guiding = (e_guiding env \<noteq> Gives False) in
         if dk_camera s \<noteq> None then
           (if dk_sig s \<noteq> sg \<or> r_busy (e_rig1 env) \<or> guiding then
              finish_attempt (e_write2 env) ''interrupted'' ''Dusk preparation stopped because the settings or rig activity changed.'' s
            else check_cooling env s)
         else if now < until_of a then (None, already_ran a s)
         else consider_attempt env sg guiding night s)"

definition dusk_tick :: "dusk_env \<Rightarrow> dusk \<Rightarrow> dusk_error option \<times> dusk" where
  "dusk_tick env s = (let r0 = e_rig0 env; now = r_clock r0 in
     if \<not> kc_enabled (r_cfg r0) then (None, said ''disabled'' ''Dusk preparation is off.'' (s\<lparr>dk_camera := None\<rparr>))
     else if ks_default (r_site r0) \<or> \<not> finite_number (ks_lat (r_site r0)) \<or> \<not> finite_number (ks_lon (r_site r0)) then
       (None, said ''waiting'' ''Set your observing location before enabling dusk preparation.'' s)
     else case e_night env of None \<Rightarrow> (None, said ''waiting'' ''Waiting for dusk.'' (s\<lparr>dk_camera := None\<rparr>))
     | Some night \<Rightarrow>
       if \<not> (fst night \<le> now \<and> now < snd night) then (None, said ''waiting'' ''Waiting for dusk.'' (s\<lparr>dk_camera := None\<rparr>))
       else case load_attempt s of (Inl e, s) \<Rightarrow> (Some e, s)
       | (Inr a, s) \<Rightarrow> dusk_tonight env night a s)"

text \<open>The loop around the tick turns an error into a status.\<close>

definition dusk_turn :: "dusk_env \<Rightarrow> dusk \<Rightarrow> dusk" where
  "dusk_turn env s = (case dusk_tick env s of
     (None, s) \<Rightarrow> s
   | (Some Dusk_State_Error, s) \<Rightarrow>
       said ''failed'' ''The dusk preparation record could not be read or saved. Check the server's storage.'' s
   | (Some Other_Error, s) \<Rightarrow> said ''failed'' ''Dusk preparation failed. Check the equipment connection.'' s)"

definition resume_veto :: "dusk_cfg \<Rightarrow> dusk \<Rightarrow> string option" where
  "resume_veto cfg s = (if dk_connecting s then Some ''Dusk preparation is connecting the equipment.''
     else if \<not> kc_enabled cfg then None
     else if fst (dk_status s) \<notin> {''ready'', ''completed'', ''in_use''} then Some (''Dusk preparation: '' @ snd (dk_status s))
     else None)"

definition dusk_snapshot :: "dusk_cfg \<Rightarrow> dusk \<Rightarrow> string \<times> string" where
  "dusk_snapshot cfg s = (if \<not> kc_enabled cfg then (''disabled'', ''Dusk preparation is off.'')
     else if fst (dk_status s) = ''disabled'' then (''waiting'', ''Dusk preparation is enabled. Checking conditions shortly.'')
     else dk_status s)"

datatype dusk_event = Turn dusk_env | Restart

fun dusk_step :: "dusk \<Rightarrow> dusk_event \<Rightarrow> dusk" where
  "dusk_step s (Turn env) = dusk_turn env s"
| "dusk_step s Restart = dusk_boot s"

section \<open>Once a night\<close>

fun is_touch :: "dusk_act \<Rightarrow> bool" where
  "is_touch Connect_Rig = True" | "is_touch (Cool_To t) = True" | "is_touch x = False"

text \<open>How often the service has told the hardware to do something.\<close>

definition touches :: "dusk \<Rightarrow> nat" where
  "touches s = length (filter is_touch (dk_log s))"

text \<open>No attempt begins before \<open>b\<close>: neither the file nor the memory allows one.\<close>

definition blocked :: "rat \<Rightarrow> dusk \<Rightarrow> bool" where
  "blocked b s \<longleftrightarrow> (\<forall>a. parse_attempt (dk_file s) = Inr a \<longrightarrow> b \<le> until_of a) \<and> (\<forall>a. dk_attempt s = Some a \<longrightarrow> b \<le> until_of a)"

definition barred :: "rat \<Rightarrow> dusk \<Rightarrow> bool" where
  "barred b s \<longleftrightarrow> blocked b s \<and> dk_attempt s \<noteq> None"

named_theorems dusk_keeps \<open>what the steps of the service keep\<close>

lemma said_fields [simp]:
  "dk_attempt (said st d s) = dk_attempt s" "dk_camera (said st d s) = dk_camera s" "dk_file (said st d s) = dk_file s"
  "dk_status (said st d s) = (st, d)" "dk_in_band (said st d s) = dk_in_band s" "dk_target (said st d s) = dk_target s"
  "dk_sig (said st d s) = dk_sig s" "dk_warm (said st d s) = dk_warm s" "dk_deadline (said st d s) = dk_deadline s"
  "dk_connecting (said st d s) = dk_connecting s"
  by (simp_all add: said_def Let_def)

lemma touches_said [simp]: "touches (said st d s) = touches s"
  by (simp add: said_def Let_def touches_def)

lemma blocked_cong: "dk_file s' = dk_file s \<Longrightarrow> dk_attempt s' = dk_attempt s \<Longrightarrow> blocked b s' = blocked b s"
  by (simp add: blocked_def)

lemma barred_cong: "dk_file s' = dk_file s \<Longrightarrow> dk_attempt s' = dk_attempt s \<Longrightarrow> barred b s' = barred b s"
  by (simp add: barred_def blocked_def)

lemma barred_said [simp]: "barred b (said st d s) = barred b s" "blocked b (said st d s) = blocked b s"
  by (rule barred_cong blocked_cong; simp)+

lemma barred_fields [simp]:
  "barred b (s\<lparr>dk_camera := c\<rparr>) = barred b s" "barred b (s\<lparr>dk_in_band := i\<rparr>) = barred b s"
  "barred b (s\<lparr>dk_log := l\<rparr>) = barred b s" "barred b (s\<lparr>dk_deadline := t\<rparr>) = barred b s" "barred b (s\<lparr>dk_target := g\<rparr>) = barred b s"
  "barred b (s\<lparr>dk_sig := sg\<rparr>) = barred b s" "barred b (s\<lparr>dk_warm := w\<rparr>) = barred b s"
  "barred b (s\<lparr>dk_connecting := k\<rparr>) = barred b s"
  by (rule barred_cong; simp)+

lemma touches_fields [simp]:
  "touches (s\<lparr>dk_camera := c\<rparr>) = touches s" "touches (s\<lparr>dk_in_band := i\<rparr>) = touches s" "touches (s\<lparr>dk_deadline := t\<rparr>) = touches s"
  "touches (s\<lparr>dk_target := g\<rparr>) = touches s" "touches (s\<lparr>dk_sig := sg\<rparr>) = touches s" "touches (s\<lparr>dk_warm := w\<rparr>) = touches s"
  "touches (s\<lparr>dk_connecting := k\<rparr>) = touches s" "touches (s\<lparr>dk_attempt := a\<rparr>) = touches s"
  "touches (s\<lparr>dk_log := dk_log t2 @ [x]\<rparr>) = touches t2 + (if is_touch x then 1 else 0)"
  by (simp_all add: touches_def)

lemma parse_written: "parse_attempt (Attempt_Row (JFloat (Fin u)) (JStr st)) = Inr a \<Longrightarrow> until_of a = u"
  by (auto simp: parse_attempt_def float_of_def until_of_def split: if_splits)

text \<open>A write of the record bars up to its end; one that fails changes nothing.\<close>

lemma record_attempt_eq: "record_attempt ok u st s = (if ok
    then (None, s\<lparr>dk_file := Attempt_Row (JFloat (Fin u)) (JStr st), dk_attempt := Some (Some \<lparr>at_until = u, at_state = st\<rparr>),
      dk_log := dk_log s @ [Wrote \<lparr>at_until = u, at_state = st\<rparr>]\<rparr>)
    else (Some Dusk_State_Error, s))"
  by (simp add: record_attempt_def Let_def)

lemma barred_written:
  "b \<le> u \<Longrightarrow> barred b (s\<lparr>dk_file := Attempt_Row (JFloat (Fin u)) (JStr st), dk_attempt := Some (Some \<lparr>at_until = u, at_state = st\<rparr>)\<rparr>)"
  by (auto simp: barred_def blocked_def until_of_def dest!: parse_written [of u st, unfolded until_of_def])

lemma record_attempt_keeps [dusk_keeps]:
  "barred b s \<Longrightarrow> b \<le> u \<Longrightarrow> barred b (snd (record_attempt ok u st s))" "touches (snd (record_attempt ok u st s)) = touches s"
  "fst (record_attempt ok u st s) = None \<Longrightarrow> b \<le> u \<Longrightarrow> barred b (snd (record_attempt ok u st s))"
  by (simp_all add: record_attempt_eq barred_written touches_def split: if_splits)

lemma barred_until: "barred b s \<Longrightarrow> b \<le> known_until s"
  by (auto simp: barred_def blocked_def known_until_def until_of_def split: option.splits)

lemma finish_attempt_keeps [dusk_keeps]:
  "barred b s \<Longrightarrow> barred b (snd (finish_attempt ok st d s))" "touches (snd (finish_attempt ok st d s)) = touches s"
  using record_attempt_keeps(1) [of b "s\<lparr>dk_camera := None\<rparr>" "known_until s" ok st] barred_until [of b s]
    record_attempt_keeps(2) [of ok "known_until s" st "s\<lparr>dk_camera := None\<rparr>"]
  by (simp_all add: finish_attempt_def case_prod_beta split: option.split)

lemma finish_guarded_keeps [dusk_keeps]:
  "barred b s \<Longrightarrow> barred b (snd (finish_guarded env st d s))" "touches (snd (finish_guarded env st d s)) = touches s"
  by (simp_all add: finish_guarded_def case_prod_beta finish_attempt_keeps split: option.split)

lemma attempt_failed_keeps [dusk_keeps]:
  "barred b s \<Longrightarrow> barred b (snd (attempt_failed env s))" "touches (snd (attempt_failed env s)) = touches s"
  by (simp_all add: attempt_failed_def finish_attempt_keeps)

lemma judge_cooling_keeps [dusk_keeps]:
  "barred b s \<Longrightarrow> barred b (snd (judge_cooling env ok cam t s))" "touches (snd (judge_cooling env ok cam t s)) = touches s"
  by (simp_all add: judge_cooling_def Let_def finish_attempt_keeps)

lemma read_temperature_keeps [dusk_keeps]:
  "barred b s \<Longrightarrow> barred b (snd (read_temperature env ok cam s))" "touches (snd (read_temperature env ok cam s)) = touches s"
  by (simp_all add: read_temperature_def judge_cooling_keeps split: await.split)

lemma check_cooling_keeps [dusk_keeps]:
  "barred b s \<Longrightarrow> barred b (snd (check_cooling env s))" "touches (snd (check_cooling env s)) = touches s"
  by (simp_all add: check_cooling_def Let_def case_prod_beta finish_attempt_keeps judge_cooling_keeps read_temperature_keeps
      split: await.split cooler_answer.split option.split)

lemma start_cooling_keeps [dusk_keeps]: "barred b s \<Longrightarrow> barred b (snd (start_cooling env sg dawn r s))"
  by (simp add: start_cooling_def Let_def dusk_keeps split: await.split option.split)

lemma confirm_safe_keeps [dusk_keeps]: "barred b s \<Longrightarrow> barred b (snd (confirm_safe env sg dawn r s))"
  by (simp add: confirm_safe_def dusk_keeps split: await.split bool.split)

text \<open>An attempt either leaves the hardware alone or bars the rest of the night.\<close>

lemma prepare_keeps [dusk_keeps]:
  "barred b s \<Longrightarrow> b \<le> dawn \<Longrightarrow> barred b (snd (prepare env sg dawn s))"
  "touches (snd (prepare env sg dawn s)) = touches s \<or> barred dawn (snd (prepare env sg dawn s))"
proof -
  define w where "w = record_attempt (e_write1 env) dawn ''preparing'' s"
  have w: "fst w = None \<Longrightarrow> barred dawn (snd w)" "barred b s \<Longrightarrow> b \<le> dawn \<Longrightarrow> barred b (snd w)" "touches (snd w) = touches s"
    by (simp_all add: w_def record_attempt_keeps)
  show "barred b s \<Longrightarrow> b \<le> dawn \<Longrightarrow> barred b (snd (prepare env sg dawn s))"
    using w(2) by (simp add: prepare_def Let_def case_prod_beta confirm_safe_keeps attempt_failed_keeps flip: w_def split: option.split pyfloat.split await.split)
  show "touches (snd (prepare env sg dawn s)) = touches s \<or> barred dawn (snd (prepare env sg dawn s))"
    using w(1,3) by (simp add: prepare_def Let_def case_prod_beta confirm_safe_keeps attempt_failed_keeps flip: w_def split: option.split pyfloat.split await.split)
qed

lemma consider_attempt_keeps [dusk_keeps]:
  "barred b s \<Longrightarrow> b \<le> snd night \<Longrightarrow> barred b (snd (consider_attempt env sg g night s))"
  "touches (snd (consider_attempt env sg g night s)) = touches s \<or> barred (snd night) (snd (consider_attempt env sg g night s))"
  by (simp_all add: consider_attempt_def Let_def prepare_keeps split: await.split profile_answer.split)

lemma load_attempt_keeps:
  assumes "load_attempt s = (r, t)"
  shows "touches t = touches s" "blocked b s \<Longrightarrow> blocked b t" "r = Inr a \<Longrightarrow> blocked b s \<Longrightarrow> barred b t \<and> b \<le> until_of a"
  using assms by (auto simp: load_attempt_def barred_def blocked_def split: option.splits sum.splits)

lemma barred_blocked: "barred b s \<Longrightarrow> blocked b s"
  by (simp add: barred_def)

lemma blocked_camera [simp]: "blocked b (s\<lparr>dk_camera := c\<rparr>) = blocked b s"
  by (simp add: blocked_def)

definition tonight :: "dusk_env \<Rightarrow> rat \<times> rat \<Rightarrow> bool" where
  "tonight env night \<longleftrightarrow> e_night env = Some night \<and> fst night \<le> r_clock (e_rig0 env) \<and> r_clock (e_rig0 env) < snd night"

lemma already_ran_keeps [dusk_keeps]: "barred b (already_ran a s) = barred b s" "touches (already_ran a s) = touches s"
  by (simp_all add: already_ran_def)

lemma yield_to_run_keeps [dusk_keeps]:
  "barred b s \<Longrightarrow> b \<le> snd night \<Longrightarrow> barred b (snd (yield_to_run env night a s))" "touches (snd (yield_to_run env night a s)) = touches s"
  unfolding yield_to_run_def by (auto simp: case_prod_beta record_attempt_keeps split: option.split)

lemma dusk_tonight_keeps:
  "barred b s \<Longrightarrow> (r_running (e_rig0 env) \<or> until_of a \<le> r_clock (e_rig0 env) \<Longrightarrow> b \<le> snd night) \<Longrightarrow>
     barred b (snd (dusk_tonight env night a s))"
  "touches (snd (dusk_tonight env night a s)) = touches s \<or>
     until_of a \<le> r_clock (e_rig0 env) \<and> barred (snd night) (snd (dusk_tonight env night a s))"
  using consider_attempt_keeps(2) [of env "current_signature (e_rig0 env)" "e_guiding env \<noteq> Gives False" night s]
  by (auto simp: dusk_tonight_def Let_def dusk_keeps)

lemma touches_load [simp]: "touches (snd (load_attempt s)) = touches s"
  by (simp add: load_attempt_def split: option.split sum.split)

lemma dusk_tick_tonight:
  obtains "touches (snd (dusk_tick env s)) = touches s" "blocked b s \<Longrightarrow> blocked b (snd (dusk_tick env s))"
  | night a t where "tonight env night" "load_attempt s = (Inr a, t)" "dusk_tick env s = dusk_tonight env night a t"
proof (cases "kc_enabled (r_cfg (e_rig0 env)) \<and> \<not> ks_default (r_site (e_rig0 env)) \<and> finite_number (ks_lat (r_site (e_rig0 env)))
    \<and> finite_number (ks_lon (r_site (e_rig0 env))) \<and> (\<exists>night. tonight env night)")
  case False
  then show thesis by (intro that(1)) (auto simp: dusk_tick_def Let_def tonight_def split: option.split)
next
  case True
  then obtain night where n: "tonight env night" by blast
  obtain r t where l: "load_attempt s = (r, t)" by (cases "load_attempt s")
  have d: "dusk_tick env s = (case r of Inl e \<Rightarrow> (Some e, t) | Inr a \<Rightarrow> dusk_tonight env night a t)"
    using True n by (simp add: dusk_tick_def Let_def tonight_def l)
  show thesis
  proof (cases r)
    case (Inl e)
    then show ?thesis using load_attempt_keeps(1,2) [OF l] by (intro that(1)) (simp_all add: d)
  next
    case (Inr a)
    then show ?thesis using n l by (intro that(2)) (simp_all add: d)
  qed
qed

lemma blocked_turn: "blocked b (dusk_turn env s) = blocked b (snd (dusk_tick env s))"
  by (simp add: dusk_turn_def case_prod_beta split: option.split dusk_error.split)

lemma touches_turn: "touches (dusk_turn env s) = touches (snd (dusk_tick env s))"
  by (simp add: dusk_turn_def case_prod_beta split: option.split dusk_error.split)

text \<open>A tick keeps what bars the night, and one that touches the hardware was not barred and bars it.\<close>

lemma turn_blocked:
  assumes "\<And>night. r_running (e_rig0 env) \<Longrightarrow> tonight env night \<Longrightarrow> b \<le> snd night" and "blocked b s"
  shows "blocked b (dusk_turn env s)"
  unfolding blocked_turn
proof (cases rule: dusk_tick_tonight [of env s b])
  case 1
  then show "blocked b (snd (dusk_tick env s))" using assms(2) by blast
next
  case (2 night a t)
  then have t: "barred b t" "b \<le> until_of a" using load_attempt_keeps(3) [OF 2(2) refl assms(2)] by blast+
  have "b \<le> snd night" if "r_running (e_rig0 env) \<or> until_of a \<le> r_clock (e_rig0 env)"
    using that assms(1) [OF _ 2(1)] t(2) 2(1) by (auto simp: tonight_def)
  from dusk_tonight_keeps(1) [OF t(1) this] show "blocked b (snd (dusk_tick env s))"
    unfolding 2(3) by (rule barred_blocked) blast
qed

lemma turn_touches:
  assumes "touches (dusk_turn env s) \<noteq> touches s"
  shows "\<exists>night. tonight env night \<and> blocked (snd night) (dusk_turn env s) \<and> (\<forall>b. blocked b s \<longrightarrow> b \<le> r_clock (e_rig0 env))"
proof (cases rule: dusk_tick_tonight [of env s 0])
  case 1
  then show ?thesis using assms by (simp add: touches_turn)
next
  case (2 night a t)
  have "touches t = touches s" by (rule load_attempt_keeps(1) [OF 2(2)])
  then have t: "until_of a \<le> r_clock (e_rig0 env)" "barred (snd night) (snd (dusk_tick env s))"
    using assms dusk_tonight_keeps(2) [of env night a t] by (auto simp: touches_turn 2(3))
  have "b \<le> r_clock (e_rig0 env)" if "blocked b s" for b
    using load_attempt_keeps(3) [OF 2(2) refl that] t(1) by simp
  then show ?thesis using 2(1) barred_blocked [OF t(2)] unfolding blocked_turn by blast
qed

lemma boot_keeps: "blocked b s \<Longrightarrow> blocked b (dusk_boot s)" "touches (dusk_boot s) = touches s"
  by (simp_all add: blocked_def dusk_boot_def touches_def)

text \<open>A tick that finds a run under way in the night writes that night's dawn over the record.\<close>

definition yields :: "dusk_event \<Rightarrow> rat \<Rightarrow> bool" where
  "yields e dawn = (case e of Restart \<Rightarrow> False
     | Turn env \<Rightarrow> r_running (e_rig0 env) \<and> (\<exists>dusk. tonight env (dusk, dawn)))"

lemma run_blocked:
  assumes "\<forall>e \<in> set es. \<forall>dawn. yields e dawn \<longrightarrow> c < dawn" and "c < b" "blocked b s"
  shows "\<exists>b. c < b \<and> blocked b (run dusk_step s es)"
  using assms
proof (induction es arbitrary: s b)
  case (Cons e es)
  have "\<exists>b'. c < b' \<and> blocked b' (dusk_step s e)"
  proof (cases e)
    case Restart
    then show ?thesis using Cons.prems(2,3) boot_keeps(1) by auto
  next
    case (Turn env)
    show ?thesis
    proof (cases "\<exists>dawn. yields e dawn")
      case True
      then obtain dusk dawn where n: "tonight env (dusk, dawn)" "yields e dawn" by (auto simp: yields_def Turn)
      have "blocked (min b dawn) s" using Cons.prems(3) by (auto simp: blocked_def min.coboundedI1)
      then have "blocked (min b dawn) (dusk_turn env s)"
        using n(1) by (intro turn_blocked) (auto simp: tonight_def)
      moreover have "c < min b dawn" using n(2) Cons.prems(1,2) by simp
      ultimately show ?thesis unfolding Turn dusk_step.simps by blast
    next
      case False
      then have "blocked b (dusk_turn env s)"
        using Cons.prems(3) by (intro turn_blocked) (auto simp: yields_def Turn)
      then show ?thesis using Cons.prems(2) by (auto simp: Turn)
    qed
  qed
  then obtain b' where "c < b'" "blocked b' (dusk_step s e)" by blast
  then show ?case using Cons.IH [of b' "dusk_step s e"] Cons.prems(1) by simp
qed auto

section \<open>The properties\<close>

text \<open>C31. One attempt up to the dawn it was recorded with. When a tick has told the hardware to do something,
  it did so inside a night as it was reckoned at that tick, and a later tick tells it something only once that
  dawn is past, whatever happens in between: failing writes and devices, cancelled ticks, a process that dies
  at any await and starts again, a clock that is set, nights that are reckoned anew from an edited site or
  twilight. The one thing that takes the place of that dawn is a tick in between that found a run under way,
  which records the dawn of the night as reckoned then: then that dawn is past.\<close>

theorem once_per_night:
  assumes first: "touches (dusk_turn e1 s) \<noteq> touches s"
    and again: "touches (dusk_turn e2 (run dusk_step (dusk_turn e1 s) es)) \<noteq> touches (run dusk_step (dusk_turn e1 s) es)"
  shows "\<exists>dusk dawn. e_night e1 = Some (dusk, dawn) \<and> dusk \<le> r_clock (e_rig0 e1) \<and> r_clock (e_rig0 e1) < dawn \<and>
     (dawn \<le> r_clock (e_rig0 e2) \<or> (\<exists>env dusk' dawn'. Turn env \<in> set es \<and> r_running (e_rig0 env) \<and>
        e_night env = Some (dusk', dawn') \<and> dusk' \<le> r_clock (e_rig0 env) \<and> r_clock (e_rig0 env) < dawn' \<and>
        dawn' \<le> r_clock (e_rig0 e2)))"
proof -
  obtain dusk dawn where n: "tonight e1 (dusk, dawn)" and bl: "blocked dawn (dusk_turn e1 s)" using turn_touches [OF first] by auto
  have "dawn \<le> r_clock (e_rig0 e2) \<or> (\<exists>e \<in> set es. \<exists>d. yields e d \<and> d \<le> r_clock (e_rig0 e2))"
    using run_blocked [OF _ _ bl, of es "r_clock (e_rig0 e2)"] turn_touches [OF again] by force
  then show ?thesis using n by (fastforce simp: tonight_def yields_def split: dusk_event.splits)
qed

fun is_reading :: "dusk_act \<Rightarrow> bool" where
  "is_reading (Band t) = True" | "is_reading Out_Of_Band = True" | "is_reading (Cool_To t) = True" | "is_reading x = False"

text \<open>The last readings, since the camera was told to cool: all in the band, for the time it takes to settle.\<close>

definition steady :: "rat \<Rightarrow> dusk_act list \<Rightarrow> bool" where
  "steady t acts \<longleftrightarrow> (\<exists>xs ys. filter is_reading acts = xs @ map Band ys \<and> ys \<noteq> [] \<and> hd ys = t)"

definition settled :: "dusk_act list \<Rightarrow> bool" where
  "settled acts \<longleftrightarrow> (\<exists>xs ys. filter is_reading acts = xs @ map Band ys \<and> ys \<noteq> [] \<and> COOLER_STABLE_S \<le> List.last ys - hd ys)"

definition ready_earned :: "dusk_act list \<Rightarrow> bool" where
  "ready_earned acts \<longleftrightarrow> (\<forall>pre row post. acts = pre @ Wrote row # post \<longrightarrow> at_state row = ''ready'' \<longrightarrow> settled pre)"

definition cooling_ok :: "dusk \<Rightarrow> bool" where
  "cooling_ok s \<longleftrightarrow> ready_earned (dk_log s) \<and> (\<forall>t. dk_camera s \<noteq> None \<longrightarrow> dk_in_band s = Some t \<longrightarrow> steady t (dk_log s))"

lemma ready_earned_snoc:
  "ready_earned (acts @ [x]) \<longleftrightarrow> ready_earned acts \<and> (\<forall>row. x = Wrote row \<longrightarrow> at_state row = ''ready'' \<longrightarrow> settled acts)"
proof -
  have "acts @ [x] = pre @ y # post \<longleftrightarrow> (post = [] \<and> acts = pre \<and> x = y) \<or> (\<exists>q. post = q @ [x] \<and> acts = pre @ y # q)" for pre y post
    by (cases post rule: rev_cases) auto
  then show ?thesis unfolding ready_earned_def by auto
qed

lemma ready_earned_Said: "ready_earned (acts @ [x, Said l d]) = ready_earned (acts @ [x])"
  using ready_earned_snoc [of "acts @ [x]" "Said l d"] by simp

lemma steady_snoc [simp]: "\<not> is_reading x \<Longrightarrow> steady t (acts @ [x]) = steady t acts"
  by (simp add: steady_def)

fun plain :: "dusk_act \<Rightarrow> bool" where
  "plain (Wrote row) = (at_state row \<noteq> ''ready'')" | "plain x = (\<not> is_reading x)"

lemma cooling_ok_log:
  "cooling_ok s \<Longrightarrow> plain x \<Longrightarrow> cooling_ok (s\<lparr>dk_log := dk_log s @ [x]\<rparr>)"
  by (cases x) (auto simp: cooling_ok_def ready_earned_snoc)

lemma cooling_ok_fields [simp]:
  "cooling_ok (s\<lparr>dk_status := z\<rparr>) = cooling_ok s" "cooling_ok (s\<lparr>dk_deadline := q\<rparr>) = cooling_ok s"
  "cooling_ok (s\<lparr>dk_target := g\<rparr>) = cooling_ok s" "cooling_ok (s\<lparr>dk_sig := sg\<rparr>) = cooling_ok s"
  "cooling_ok (s\<lparr>dk_warm := w\<rparr>) = cooling_ok s" "cooling_ok (s\<lparr>dk_connecting := k\<rparr>) = cooling_ok s"
  "cooling_ok (s\<lparr>dk_file := f\<rparr>) = cooling_ok s" "cooling_ok (s\<lparr>dk_attempt := a\<rparr>) = cooling_ok s"
  "cooling_ok s \<Longrightarrow> cooling_ok (s\<lparr>dk_camera := None\<rparr>)"
  by (simp_all add: cooling_ok_def)

lemma cooling_ok_said [simp]: "cooling_ok s \<Longrightarrow> cooling_ok (said st d s)"
  by (simp add: said_def Let_def cooling_ok_log)

lemma cooling_ok_cong:
  "dk_log s' = dk_log s \<Longrightarrow> dk_camera s' = dk_camera s \<Longrightarrow> dk_in_band s' = dk_in_band s \<Longrightarrow> cooling_ok s' = cooling_ok s"
  by (simp add: cooling_ok_def)

text \<open>Without a camera only the log counts.\<close>

lemma cooling_ok_idle: "dk_camera s = None \<Longrightarrow> cooling_ok s \<longleftrightarrow> ready_earned (dk_log s)"
  by (simp add: cooling_ok_def)

lemma record_attempt_cooling:
  "cooling_ok s \<Longrightarrow> st \<noteq> ''ready'' \<Longrightarrow> cooling_ok (snd (record_attempt ok u st s))"
  "dk_camera (snd (record_attempt ok u st s)) = dk_camera s"
  by (simp_all add: record_attempt_eq cooling_ok_def ready_earned_snoc)

lemma finish_attempt_cooling:
  "ready_earned (dk_log s) \<Longrightarrow> st = ''ready'' \<longrightarrow> settled (dk_log s) \<Longrightarrow> cooling_ok (snd (finish_attempt ok st d s))"
  "dk_camera (snd (finish_attempt ok st d s)) = None"
  by (simp_all add: finish_attempt_def record_attempt_eq cooling_ok_idle said_def Let_def ready_earned_snoc ready_earned_Said split: option.split)

lemma cooling_earned: "cooling_ok s \<Longrightarrow> ready_earned (dk_log s)"
  by (simp add: cooling_ok_def)

lemma finish_guarded_cooling: "cooling_ok s \<Longrightarrow> st \<noteq> ''ready'' \<Longrightarrow> cooling_ok (snd (finish_guarded env st d s))"
  using cooling_earned [of "snd (finish_attempt (e_write2 env) st d s)"]
  by (simp add: finish_guarded_def case_prod_beta finish_attempt_cooling cooling_earned split: option.split)

lemma attempt_failed_cooling: "cooling_ok s \<Longrightarrow> cooling_ok (snd (attempt_failed env s))"
  by (simp add: attempt_failed_def finish_attempt_cooling cooling_earned)

lemma steady_Band: "steady t acts \<Longrightarrow> steady t (acts @ [Band now])" "steady now (acts @ [Band now])"
proof -
  assume "steady t acts"
  then obtain xs ys where "filter is_reading acts = xs @ map Band ys" "ys \<noteq> []" "hd ys = t" by (auto simp: steady_def)
  then show "steady t (acts @ [Band now])" unfolding steady_def by (intro exI [of _ xs] exI [of _ "ys @ [now]"]) simp
next
  show "steady now (acts @ [Band now])" unfolding steady_def
    by (intro exI [of _ "filter is_reading acts"] exI [of _ "[now]"]) simp
qed

lemma steady_settled: "steady t (acts @ [Band now]) \<Longrightarrow> COOLER_STABLE_S \<le> now - t \<Longrightarrow> settled (acts @ [Band now])"
proof -
  assume "steady t (acts @ [Band now])" and long: "COOLER_STABLE_S \<le> now - t"
  then obtain xs ys where y: "filter is_reading acts @ [Band now] = xs @ map Band ys" "ys \<noteq> []" "hd ys = t" by (auto simp: steady_def)
  then have "List.last (map Band ys) = Band now" by (metis last_append last_snoc list.map_disc_iff)
  then have "List.last ys = now" using y(2) by (simp add: last_map)
  then show ?thesis using y long unfolding settled_def by (intro exI [of _ xs] exI [of _ ys]) simp
qed

lemma judge_cooling_cooling:
  assumes "cooling_ok s" and "dk_camera s \<noteq> None \<or> t = None"
  shows "cooling_ok (snd (judge_cooling env ok cam t s))"
proof -
  define now where "now = r_clock (e_rig_read env)"
  define since where "since = (case dk_in_band s of None \<Rightarrow> now | Some t \<Rightarrow> t)"
  define u where "u = s\<lparr>dk_in_band := Some since, dk_log := dk_log s @ [Band now]\<rparr>"
  have st: "steady since (dk_log s @ [Band now])" if "in_band s t"
  proof (cases "dk_in_band s")
    case None
    then show ?thesis using steady_Band(2) by (simp add: since_def)
  next
    case (Some t0)
    have "dk_camera s \<noteq> None" using assms(2) that by (auto simp: in_band_def)
    then show ?thesis using assms(1) Some steady_Band(1) by (simp add: cooling_ok_def since_def)
  qed
  have u: "ready_earned (dk_log u)" using assms(1) by (simp add: u_def cooling_ok_def ready_earned_snoc)
  have ok: "cooling_ok u" if "in_band s t" using u st [OF that] by (simp add: cooling_ok_def u_def)
  have fin: "cooling_ok (snd (finish_attempt ok ''ready'' d u))" if "in_band s t" "COOLER_STABLE_S \<le> now - since" for d
    using finish_attempt_cooling(1) [OF u] steady_settled [OF st [OF that(1)] that(2)] by (simp add: u_def)
  have oob: "cooling_ok (s\<lparr>dk_in_band := None, dk_log := dk_log s @ [Out_Of_Band]\<rparr>)"
    using assms(1) by (simp add: cooling_ok_def ready_earned_snoc)
  show ?thesis
    unfolding judge_cooling_def Let_def now_def [symmetric] since_def [symmetric] u_def [symmetric]
    using assms(1) ok fin oob by (simp add: finish_attempt_cooling cooling_earned)
qed

lemma check_cooling_cooling:
  assumes "cooling_ok s" and "dk_camera s \<noteq> None"
  shows "cooling_ok (snd (check_cooling env s))"
proof -
  have read: "cooling_ok (snd (read_temperature env ok cam s))" for ok cam
    using assms by (simp add: read_temperature_def judge_cooling_cooling split: await.split)
  have fin: "cooling_ok (snd (finish_attempt ok ''interrupted'' d s))" for ok d
    using finish_attempt_cooling(1) cooling_earned [OF assms(1)] by simp
  show ?thesis
    using assms read fin
    by (simp add: check_cooling_def Let_def case_prod_beta judge_cooling_cooling split: await.split cooler_answer.split option.split)
qed

lemma start_cooling_cooling:
  assumes "ready_earned (dk_log s)" and "dk_camera s = None"
  shows "cooling_ok (snd (start_cooling env sg dawn r s))"
proof -
  define u where "u = s\<lparr>dk_log := dk_log s @ [Cool_To (dk_target s)]\<rparr>"
  have u: "cooling_ok u" "dk_camera u = None" using assms by (simp_all add: u_def cooling_ok_idle ready_earned_snoc)
  have ok: "cooling_ok (u\<lparr>dk_camera := c, dk_deadline := t, dk_in_band := None\<rparr>)" for c t
    using u(1) by (simp add: cooling_ok_def)
  have "cooling_ok s" using assms by (simp add: cooling_ok_idle)
  then show ?thesis unfolding start_cooling_def Let_def u_def [symmetric]
    using u ok by (simp add: attempt_failed_cooling finish_guarded_cooling split: await.split option.split)
qed

lemma confirm_safe_cooling:
  assumes "ready_earned (dk_log s)" and "dk_camera s = None"
  shows "cooling_ok (snd (confirm_safe env sg dawn r s))"
proof -
  have "cooling_ok s" using assms by (simp add: cooling_ok_idle)
  then show ?thesis
    using assms by (simp add: confirm_safe_def attempt_failed_cooling finish_guarded_cooling start_cooling_cooling split: await.split bool.split)
qed

lemma prepare_cooling:
  assumes "cooling_ok s" and "dk_camera s = None"
  shows "cooling_ok (snd (prepare env sg dawn s))"
proof -
  define w where "w = record_attempt (e_write1 env) dawn ''preparing'' s"
  have w: "cooling_ok (snd w)" "dk_camera (snd w) = None" "ready_earned (dk_log (snd w))"
    using assms cooling_earned record_attempt_cooling by (simp_all add: w_def)
  define c where "c t = (snd w)\<lparr>dk_sig := sg, dk_warm := r_warm (e_rig2 env), dk_target := t\<rparr>" for t
  define d where "d t = said ''connecting'' ''Connecting the saved dusk profile.'' ((c t)\<lparr>dk_connecting := True\<rparr>)" for t
  define e where "e t = (d t)\<lparr>dk_log := dk_log (d t) @ [Connect_Rig], dk_connecting := False\<rparr>" for t
  have c: "ready_earned (dk_log (c t))" "dk_camera (c t) = None" for t using w by (simp_all add: c_def)
  have d: "dk_camera (d t) = None" "cooling_ok (d t)" for t
    using c by (simp_all add: d_def cooling_ok_idle) (simp add: said_def Let_def ready_earned_snoc)
  have e: "dk_camera (e t) = None" "ready_earned (dk_log (e t))" "cooling_ok (e t)" for t
    using d [of t] by (simp_all add: e_def ready_earned_snoc cooling_ok_idle)
  have bad: "cooling_ok ((snd w)\<lparr>dk_sig := sg, dk_warm := x\<rparr>)" for x using w(1) by simp
  show ?thesis
    unfolding prepare_def Let_def w_def [symmetric] case_prod_beta c_def [symmetric] d_def [symmetric] e_def [symmetric]
    using assms w(1) c e bad
    by (simp add: confirm_safe_cooling attempt_failed_cooling split: option.split pyfloat.split await.split)
qed

lemma consider_attempt_cooling:
  assumes "cooling_ok s" and "dk_camera s = None"
  shows "cooling_ok (snd (consider_attempt env sg g night s))"
  using assms by (simp add: consider_attempt_def Let_def prepare_cooling split: await.split profile_answer.split)

lemma yield_to_run_cooling: "cooling_ok s \<Longrightarrow> cooling_ok (snd (yield_to_run env night a s))"
  unfolding yield_to_run_def by (auto simp: case_prod_beta record_attempt_cooling split: option.split)

lemma dusk_tonight_cooling: "cooling_ok s \<Longrightarrow> cooling_ok (snd (dusk_tonight env night a s))"
  using finish_attempt_cooling(1) cooling_earned
  by (simp add: dusk_tonight_def Let_def yield_to_run_cooling check_cooling_cooling consider_attempt_cooling already_ran_def)

lemma load_attempt_cooling: "cooling_ok (snd (load_attempt s)) = cooling_ok s"
  by (simp add: load_attempt_def split: option.split sum.split)

lemma dusk_tick_cooling: "cooling_ok s \<Longrightarrow> cooling_ok (snd (dusk_tick env s))"
  using load_attempt_cooling [of s]
  by (simp add: dusk_tick_def Let_def case_prod_beta dusk_tonight_cooling split: option.split sum.split)

interpretation cooling: machine dusk_step cooling_ok
proof
  fix s e
  assume ok: "cooling_ok s"
  show "cooling_ok (dusk_step s e)"
  proof (cases e)
    case (Turn env)
    then show ?thesis using dusk_tick_cooling [OF ok]
      by (simp add: dusk_turn_def case_prod_beta split: option.split dusk_error.split)
  next
    case Restart
    have "cooling_ok (dusk_boot s) = ready_earned (dk_log s)" by (subst cooling_ok_idle) (simp_all add: dusk_boot_def)
    then show ?thesis using Restart cooling_earned [OF ok] by simp
  qed
qed

text \<open>Ready means settled: whenever the service records a night as ready, the readings since it told the
  camera to cool end in a row that is in the band of the imaging temperature throughout and spans the time
  it takes to settle.\<close>

theorem ready_means_settled:
  assumes "dk_log (run dusk_step (dusk_init f) es) = pre @ Wrote row # post" and "at_state row = ''ready''"
  shows "settled pre"
proof -
  have "cooling_ok (dusk_init f)" by (simp add: cooling_ok_def ready_earned_def dusk_init_def)
  from cooling.inv_run [OF this] cooling_earned assms show ?thesis unfolding ready_earned_def by blast
qed

section \<open>Demonstrations\<close>

definition demo_rig :: "rat \<Rightarrow> rig" where
  "demo_rig t = \<lparr>r_cfg = \<lparr>kc_enabled = True, kc_profile = Some ''rig'', kc_sun_alt = -12, kc_setpoint = Some (Fin (-10)), kc_timeout = 600,
       kc_safety = False, kc_active = Some ''rig''\<rparr>, r_site = \<lparr>ks_default = False, ks_lat = JInt 51, ks_lon = JInt 5\<rparr>,
     r_clock = t, r_running = False, r_busy = False, r_locked = False, r_devices = True, r_required = True, r_camera = Some 1,
     r_can_cool = True, r_has_safety = False, r_warm = 0, r_warming = False, r_weather_veto = False\<rparr>"

definition demo_nights :: "rat \<Rightarrow> (rat \<times> rat) option" where
  "demo_nights t = (if t < 50000 then Some (0, 40000) else Some (86400, 126400))"

definition demo_env :: "rat \<Rightarrow> dusk_env" where
  "demo_env t = \<lparr>e_rig0 = demo_rig t, e_night = demo_nights t, e_guiding = Gives False, e_rig1 = demo_rig t, e_cooler = Gives Cannot_Ask,
     e_temperature = Gives (Some (Fin (-10))), e_rig_read = demo_rig t, e_profile = Gives Profile_Found, e_rig2 = demo_rig t,
     e_connect = Gives (), e_rig3 = demo_rig t, e_safe = Gives True, e_rig4 = demo_rig t, e_guiding2 = Gives False, e_rig5 = demo_rig t,
     e_cool = Gives (), e_rig6 = demo_rig t, e_write1 = True, e_write2 = True, e_write3 = True\<rparr>"

lemma once_per_night_witness:
  "\<exists>dusk dawn. e_night (demo_env 1000) = Some (dusk, dawn) \<and> dusk \<le> r_clock (e_rig0 (demo_env 1000)) \<and>
     r_clock (e_rig0 (demo_env 1000)) < dawn \<and> dawn \<le> r_clock (e_rig0 (demo_env 87400))"
proof -
  have "touches (dusk_turn (demo_env 1000) (dusk_init No_Record)) \<noteq> touches (dusk_init No_Record)"
    "touches (dusk_turn (demo_env 87400) (run dusk_step (dusk_turn (demo_env 1000) (dusk_init No_Record)) [Restart])) \<noteq>
     touches (run dusk_step (dusk_turn (demo_env 1000) (dusk_init No_Record)) [Restart])" by code_simp+
  from once_per_night [OF this] show ?thesis by simp
qed

text \<open>The night is reckoned anew at every tick: when the dawn of an edited twilight lies later than the recorded
  one, the stretch between the two is open to a second attempt in what an observer calls the same night.\<close>

lemma later_dawn_opens_the_night_again:
  "(let s = dusk_turn ((demo_env 1000)\<lparr>e_night := Some (0, 40000)\<rparr>) (dusk_init No_Record);
        s = dusk_turn ((demo_env 1300)\<lparr>e_temperature := Gives None, e_cooler := Gives (Cooler False None), e_night := Some (0, 40000)\<rparr>) s;
        s' = dusk_turn ((demo_env 41000)\<lparr>e_night := Some (0, 45000)\<rparr>) s
    in touches s = 1 \<and> touches s' = 2)"
  by code_simp

lemma ready_means_settled_witness:
  "settled (take 6 (dk_log (run dusk_step (dusk_init No_Record) [Turn (demo_env 1000), Turn (demo_env 1100), Turn (demo_env 1230)])))"
proof -
  let ?run = "run dusk_step (dusk_init No_Record) [Turn (demo_env 1000), Turn (demo_env 1100), Turn (demo_env 1230)]"
  have n: "6 < length (dk_log ?run)" and at: "dk_log ?run ! 6 = Wrote \<lparr>at_until = 40000, at_state = ''ready''\<rparr>" by code_simp+
  from id_take_nth_drop [OF n] have "dk_log ?run = take 6 (dk_log ?run) @ Wrote \<lparr>at_until = 40000, at_state = ''ready''\<rparr> # drop (Suc 6) (dk_log ?run)"
    unfolding at .
  from ready_means_settled [OF this] show ?thesis by simp
qed

end
