(* ===== verification/Park_Nets.thy ===== *)
theory Park_Nets
  imports Machines
begin

text \<open>
  What the two nets under an idle mount share (\<open>server/astrodeck/sun_watch.py\<close>, \<open>server/astrodeck/dawn_park.py\<close>): the
  steps a tick takes, the lanes that keep a net's hands off, the threshold of the Sun's altitude, and the gate that
  says whether the rig knows where it points (\<open>devices/base.py\<close>).

  The contract of a net is the locale \<open>parking_net\<close>: a tick only adds steps, sends at most one park, right behind the
  bump of the motion fence, and only where it was allowed. The hub's fence and motion lock are there (the code also
  serves test doubles without them).
\<close>

section \<open>Steps\<close>

datatype 'l net_step =
    Said string bool 'l
  | Alerted string 'l
  | Reopened
  | Bumped
  | Park
  | Track_Off
  | Guide_Off
  | Warm
  | Told_Watch

type_synonym lanes = "string list option"

text \<open>\<open>hub.busy_lanes()\<close>, the empty set where it raises; the lanes in which the mount moves, sorted.\<close>

definition HANDS_OFF_LANES :: "string list" where
  "HANDS_OFF_LANES = [''dome'', ''goto'', ''polar'']"

definition busy_lanes :: "lanes \<Rightarrow> string set" where
  "busy_lanes l = (case l of None \<Rightarrow> {} | Some xs \<Rightarrow> set xs)"

definition moving :: "lanes \<Rightarrow> string list" where
  "moving l = filter (\<lambda>x. x \<in> busy_lanes l) HANDS_OFF_LANES"

definition CIVIL_TWILIGHT_DEG :: rat where "CIVIL_TWILIGHT_DEG = -6"

definition park_threshold_deg :: "rat option \<Rightarrow> rat" where
  "park_threshold_deg twilight = (case twilight of None \<Rightarrow> CIVIL_TWILIGHT_DEG | Some t \<Rightarrow> max t CIVIL_TWILIGHT_DEG)"

text \<open>How a park command ends.\<close>

datatype park_answer = Took_It | Too_Late | Refused_It string

text \<open>The Sun and the sphere (\<open>catalog/coords.py\<close>, trigonometry on floats): the Sun's place at a time, the angle
  between two finite places, the Sun's altitude at a site.\<close>

record sky =
  sky_sun :: "rat \<Rightarrow> rat \<times> rat"
  sky_sep :: "rat \<Rightarrow> rat \<Rightarrow> rat \<Rightarrow> rat \<Rightarrow> rat"
  sky_alt :: "rat \<Rightarrow> rat \<Rightarrow> rat \<Rightarrow> rat"

section \<open>The contract of a net\<close>

definition parks :: "'l net_step list \<Rightarrow> nat" where
  "parks steps = length (filter (\<lambda>x. x = Park) steps)"

text \<open>Nothing stands between the bump of the fence and the park.\<close>

fun fenced_after :: "bool \<Rightarrow> 'l net_step list \<Rightarrow> bool" where
  "fenced_after bumped [] = True"
| "fenced_after bumped (x # xs) = ((x = Park \<longrightarrow> bumped) \<and> fenced_after (x = Bumped) xs)"

definition fenced :: "'l net_step list \<Rightarrow> bool" where
  "fenced = fenced_after False"

lemma parks_simps [simp]: "parks [] = 0" "parks (x # xs) = (if x = Park then Suc (parks xs) else parks xs)"
  "parks (xs @ ys) = parks xs + parks ys"
  by (simp_all add: parks_def)

lemma parks_0: "parks xs = 0 \<longleftrightarrow> Park \<notin> set xs"
  by (induction xs) auto

lemma fenced_mono: "fenced_after False xs \<Longrightarrow> fenced_after b xs"
  by (cases xs) auto

lemma fenced_after_append: "fenced_after b xs \<Longrightarrow> fenced ys \<Longrightarrow> fenced_after b (xs @ ys)"
  by (induction xs arbitrary: b) (auto simp: fenced_def intro: fenced_mono)

lemma fenced_append: "fenced xs \<Longrightarrow> fenced ys \<Longrightarrow> fenced (xs @ ys)"
  using fenced_after_append by (simp add: fenced_def)

lemma fenced_simps [simp]: "fenced []" "fenced (Bumped # Park # xs) = fenced xs"
  "x \<noteq> Park \<Longrightarrow> x \<noteq> Bumped \<Longrightarrow> fenced (x # xs) = fenced xs"
  by (simp_all add: fenced_def)

lemma fenced_no_park: "Park \<notin> set xs \<Longrightarrow> fenced xs"
proof -
  have "Park \<notin> set xs \<Longrightarrow> fenced_after b xs" for b
    by (induction xs arbitrary: b) auto
  then show "Park \<notin> set xs \<Longrightarrow> fenced xs"
    by (simp add: fenced_def)
qed

text \<open>The steps one tick adds.\<close>

definition news :: "'l net_step list \<Rightarrow> 'l net_step list \<Rightarrow> 'l net_step list" where
  "news old new = drop (length old) new"

lemma news_append [simp]: "news xs (xs @ ys) = ys" "news xs xs = []"
  by (simp_all add: news_def)

text \<open>A part of a tick adds steps, among them one park or none.\<close>

definition reports :: "bool \<Rightarrow> 'l net_step list \<Rightarrow> 'l net_step list \<Rightarrow> bool" where
  "reports b old new = (\<exists>xs. new = old @ xs \<and> fenced xs \<and> parks xs = (if b then 1 else 0))"

lemma reports_quiet [simp]: "reports False old (old @ xs) \<longleftrightarrow> Park \<notin> set xs"
  using parks_0 [of xs] fenced_no_park [of xs] by (auto simp: reports_def)

lemma reports_refl [simp]: "reports False old old"
  using reports_quiet [of old "[]"] by (simp del: reports_quiet)

lemma reports_trans:
  "reports b x y \<Longrightarrow> reports False y z \<Longrightarrow> reports b x z"
  "reports False x y \<Longrightarrow> reports b y z \<Longrightarrow> reports b x z"
  by (fastforce simp: reports_def intro: fenced_append)+

lemma reports_park: "Park \<notin> set rest \<Longrightarrow> reports True old (old @ Bumped # Park # rest)"
  using parks_0 [of rest] fenced_no_park [of rest] by (auto simp: reports_def)

locale parking_net =
  fixes tick :: "'s \<Rightarrow> 'e \<Rightarrow> 's"
    and did :: "'s \<Rightarrow> 'l net_step list"
    and allowed :: "'s \<Rightarrow> 'e \<Rightarrow> bool"
  assumes adds: "reports (allowed s e) (did s) (did (tick s e))"
begin

lemma did_news: "did (tick s e) = did s @ news (did s) (did (tick s e))"
  using adds [of s e] by (auto simp: reports_def)

lemma park_iff: "Park \<in> set (news (did s) (did (tick s e))) \<longleftrightarrow> allowed s e"
proof -
  obtain xs where "did (tick s e) = did s @ xs" "parks xs = (if allowed s e then 1 else 0)"
    using adds [of s e] by (auto simp: reports_def)
  then show ?thesis
    using parks_0 [of xs] by (auto split: if_splits)
qed

lemma run_fenced: "fenced (did s) \<Longrightarrow> fenced (did (run tick s es))"
proof (induction es arbitrary: s)
  case (Cons e es)
  obtain new where "did (tick s e) = did s @ new" "fenced new"
    using adds by (auto simp: reports_def)
  then have "fenced (did (tick s e))"
    using Cons.prems by (simp add: fenced_append)
  then show ?case
    using Cons.IH by simp
qed simp

text \<open>A run parks as often as a tick of it was allowed to.\<close>

lemma run_parks: "int (parks (did (run tick s es))) = int (parks (did s)) + spent tick (\<lambda>s e. if allowed s e then 1 else 0) s es"
proof (induction es arbitrary: s)
  case (Cons e es)
  obtain new where "did (tick s e) = did s @ new" "parks new = (if allowed s e then 1 else 0)"
    using adds by (auto simp: reports_def)
  then show ?case
    using Cons.IH [of "tick s e"] by simp
qed simp

end

section \<open>Does the rig know where it points?\<close>

text \<open>The doubt is kept on the telescope object, and on the hub together with the object that held it
  (\<open>rig_position_known\<close>). The hub holds the telescope of the moment, if any.\<close>

record scope =
  sc_id :: nat
  sc_known :: bool
  sc_markable :: bool

record rig =
  rg_scope :: "scope option"
  rg_doubt :: "nat option"

definition rig_position_known :: "rig \<Rightarrow> rig \<times> bool" where
  "rig_position_known r = (case rg_scope r of
     None \<Rightarrow> (r, True)
   | Some t \<Rightarrow>
       let held = rg_doubt r;
           carried = (held \<noteq> None \<and> held \<noteq> Some (sc_id t) \<and> sc_known t);
           known = (if carried \<and> sc_markable t then False else sc_known t) in
       if carried \<and> known then (r, False)
       else let r = r\<lparr>rg_scope := Some (t\<lparr>sc_known := known\<rparr>)\<rparr> in
         if known then (r\<lparr>rg_doubt := None\<rparr>, True)
         else (r\<lparr>rg_doubt := Some (sc_id t)\<rparr>, False))"

text \<open>The gate of every motion (\<open>position_known_for_motion\<close>), for the telescope the hub holds.\<close>

definition position_known_for_motion :: "rig \<Rightarrow> rig \<times> bool" where
  "position_known_for_motion r = (case rg_scope r of
     Some t \<Rightarrow> if \<not> sc_known t then (r, False) else rig_position_known r
   | None \<Rightarrow> rig_position_known r)"

text \<open>What happens to a rig: a read of the gate or of the rig's word, a new telescope object, a driver that loses the
  position, an object that proves it, the operator's word.\<close>

datatype rig_event = Ask_Motion | Ask_Rig | New_Scope scope | Unplugged | Lost | Proved | Trusted

definition rig_step :: "rig \<Rightarrow> rig_event \<Rightarrow> rig" where
  "rig_step r e = (case e of
     Ask_Motion \<Rightarrow> fst (position_known_for_motion r)
   | Ask_Rig \<Rightarrow> fst (rig_position_known r)
   | New_Scope t \<Rightarrow> r\<lparr>rg_scope := Some t\<rparr>
   | Unplugged \<Rightarrow> r\<lparr>rg_scope := None\<rparr>
   | Lost \<Rightarrow> r\<lparr>rg_scope := map_option (\<lambda>t. t\<lparr>sc_known := False\<rparr>) (rg_scope r)\<rparr>
   | Proved \<Rightarrow> r\<lparr>rg_scope := map_option (\<lambda>t. t\<lparr>sc_known := True\<rparr>) (rg_scope r)\<rparr>
   | Trusted \<Rightarrow> r\<lparr>rg_doubt := None, rg_scope := map_option (\<lambda>t. t\<lparr>sc_known := True\<rparr>) (rg_scope r)\<rparr>)"

text \<open>A doubt that a read has seen: it is kept on the hub, and the object that is there now, if it is the one that
  held it, still has it.\<close>

definition in_doubt :: "rig \<Rightarrow> bool" where
  "in_doubt r = (rg_doubt r \<noteq> None \<and> (\<forall>t. rg_scope r = Some t \<longrightarrow> rg_doubt r = Some (sc_id t) \<longrightarrow> \<not> sc_known t))"

definition no_evidence :: "rig \<Rightarrow> rig_event \<Rightarrow> bool" where
  "no_evidence r e = (case e of Proved \<Rightarrow> False | Trusted \<Rightarrow> False
     | New_Scope t \<Rightarrow> rg_doubt r \<noteq> Some (sc_id t) \<or> \<not> sc_known t | _ \<Rightarrow> True)"

lemma rig_read_doubt:
  assumes "in_doubt r"
  shows "in_doubt (fst (rig_position_known r))" "rg_scope r \<noteq> None \<Longrightarrow> \<not> snd (rig_position_known r)"
proof -
  obtain i where i: "rg_doubt r = Some i"
    using assms by (auto simp: in_doubt_def)
  have "in_doubt (fst (rig_position_known r)) \<and> (rg_scope r \<noteq> None \<longrightarrow> \<not> snd (rig_position_known r))"
  proof (cases "rg_scope r")
    case (Some t)
    have "i = sc_id t \<Longrightarrow> \<not> sc_known t"
      using assms Some i by (simp add: in_doubt_def)
    then show ?thesis
      using Some i by (cases "i = sc_id t"; cases "sc_known t"; cases "sc_markable t")
        (simp_all add: rig_position_known_def in_doubt_def Let_def)
  qed (use assms in \<open>simp add: rig_position_known_def\<close>)
  then show "in_doubt (fst (rig_position_known r))" "rg_scope r \<noteq> None \<Longrightarrow> \<not> snd (rig_position_known r)"
    by simp_all
qed

lemma motion_read_doubt:
  assumes "in_doubt r"
  shows "in_doubt (fst (position_known_for_motion r))" "rg_scope r \<noteq> None \<Longrightarrow> \<not> snd (position_known_for_motion r)"
  using rig_read_doubt [OF assms] assms by (simp_all add: position_known_for_motion_def split: option.split)

interpretation doubts: lawful rig_step in_doubt no_evidence
proof
  fix r e
  assume r: "in_doubt r" and e: "no_evidence r e"
  show "in_doubt (rig_step r e)"
    using r e rig_read_doubt(1) [OF r] motion_read_doubt(1) [OF r]
    by (cases e) (auto simp: rig_step_def in_doubt_def no_evidence_def)
qed

text \<open>A doubt of the position outlives the telescope object it was taken on: once a read has seen it, and until
  the object that held it proves the position or the operator vouches for it, no gate opens on any telescope object
  the hub is given, whatever reconnects come between.\<close>

theorem doubt_outlives_the_telescope:
  assumes "rg_scope r \<noteq> None" "\<not> snd (position_known_for_motion r)"
    and "legal_run no_evidence rig_step (rig_step (rig_step r Ask_Motion) Ask_Rig) es"
    and "run rig_step (rig_step (rig_step r Ask_Motion) Ask_Rig) es = r'" "rg_scope r' \<noteq> None"
  shows "\<not> snd (position_known_for_motion r') \<and> \<not> snd (rig_position_known r')"
proof -
  obtain t where t: "rg_scope r = Some t"
    using assms(1) by blast
  have "in_doubt (rig_step (rig_step r Ask_Motion) Ask_Rig)"
  proof (cases "sc_known t")
    case False
    then have "rig_step r Ask_Motion = r"
      using t by (simp add: position_known_for_motion_def rig_step_def)
    then show ?thesis
      using t False by (simp add: rig_position_known_def in_doubt_def Let_def rig_step_def)
  next
    case True
    then have "rig_step r Ask_Motion = fst (rig_position_known r)" "\<not> snd (rig_position_known r)"
      using assms(2) t by (simp_all add: position_known_for_motion_def rig_step_def)
    moreover from this have "in_doubt (fst (rig_position_known r))"
      using t True
      by (cases "rg_doubt r"; cases "rg_doubt r = Some (sc_id t)"; cases "sc_markable t")
        (simp_all add: rig_position_known_def in_doubt_def Let_def)
    ultimately show ?thesis
      using rig_read_doubt(1) by (simp add: rig_step_def)
  qed
  then have "in_doubt r'"
    using doubts.inv_legal_run [OF _ assms(3)] assms(4) by simp
  then show ?thesis
    using rig_read_doubt(2) motion_read_doubt(2) assms(5) by simp
qed

text \<open>A mount that lost its position, an Ask that saw it, and a reconnect with a fresh object that claims to know.\<close>

definition a_scope :: "nat \<Rightarrow> bool \<Rightarrow> scope" where
  "a_scope i known = \<lparr>sc_id = i, sc_known = known, sc_markable = True\<rparr>"

theorem doubt_outlives_the_telescope_witness:
  "\<not> snd (position_known_for_motion (run rig_step \<lparr>rg_scope = Some (a_scope 1 False), rg_doubt = Some 1\<rparr>
     [New_Scope (a_scope 2 True), Ask_Motion, New_Scope (a_scope 3 True)]))"
proof -
  let ?r = "\<lparr>rg_scope = Some (a_scope 1 False), rg_doubt = None\<rparr> :: rig"
    and ?es = "[New_Scope (a_scope 2 True), Ask_Motion, New_Scope (a_scope 3 True)]"
  have after: "rig_step (rig_step ?r Ask_Motion) Ask_Rig = \<lparr>rg_scope = Some (a_scope 1 False), rg_doubt = Some 1\<rparr>"
    by (simp add: rig_step_def position_known_for_motion_def rig_position_known_def a_scope_def Let_def)
  have "\<not> snd (position_known_for_motion ?r)"
    by (simp add: position_known_for_motion_def a_scope_def)
  moreover have "legal_run no_evidence rig_step (rig_step (rig_step ?r Ask_Motion) Ask_Rig) ?es"
    unfolding after by (simp add: no_evidence_def rig_step_def position_known_for_motion_def rig_position_known_def a_scope_def Let_def)
  moreover have "rg_scope (run rig_step (rig_step (rig_step ?r Ask_Motion) Ask_Rig) ?es) \<noteq> None"
    unfolding after by (simp add: rig_step_def)
  ultimately show ?thesis
    using doubt_outlives_the_telescope [of ?r ?es] unfolding after by simp
qed

end
