(* ===== verification/Sun_Watch.thy ===== *)
theory Sun_Watch
  imports Park_Nets
begin

text \<open>
  The sun watch (\<open>server/astrodeck/sun_watch.py\<close>): once a minute, will the Sun be inside the exclusion cone around the
  tube within the lead time? Where the mount cannot be read, the last position read is projected instead.

  A tick is a coroutine. Its environment holds the answer of each device call, the hub's lanes and the engine's word
  at each look, the clock at each reading, and a park noted by another path during each await. A tick leaves a state
  and says whether it raised; the loop logs that. Numbers in log lines are the texts the code prints; the prose of a
  line is its constructor.
\<close>

section \<open>The projection\<close>

definition LEAD_TIME_S :: rat where "LEAD_TIME_S = 1800"
definition PROJECTION_STEP_S :: rat where "PROJECTION_STEP_S = 300"
definition BLIND_WARN_AFTER :: nat where "BLIND_WARN_AFTER = 10"
definition BLIND_ERROR_AFTER :: nat where "BLIND_ERROR_AFTER = 30"
definition BLIND_LOG_EVERY :: nat where "BLIND_LOG_EVERY = 30"
definition SIDEREAL_HOURS_PER_SOLAR_HOUR :: rat where "SIDEREAL_HOURS_PER_SOLAR_HOUR = 10027379 / 10000000"

text \<open>A float's \<open>inf % 24.0\<close> is NaN.\<close>

definition project_pointing :: "pyfloat \<Rightarrow> pyfloat \<Rightarrow> bool \<Rightarrow> rat \<Rightarrow> pyfloat \<times> pyfloat" where
  "project_pointing ra dec tracking dt =
     (if tracking then (ra, dec)
      else (case ra of Fin r \<Rightarrow> Fin (pymod (r + dt / 3600 * SIDEREAL_HOURS_PER_SOLAR_HOUR) 24) | _ \<Rightarrow> NaN, dec))"

text \<open>\<open>angular_sep_deg\<close> raises on what is not finite.\<close>

definition angular_sep :: "sky \<Rightarrow> pyfloat \<times> pyfloat \<Rightarrow> rat \<times> rat \<Rightarrow> rat res" where
  "angular_sep sk p q = (case p of (Fin r, Fin d) \<Rightarrow> Inr (sky_sep sk r d (fst q) (snd q)) | _ \<Rightarrow> Inl ValueError)"

definition sample_offsets :: "rat \<Rightarrow> rat \<Rightarrow> rat list" where
  "sample_offsets lead step = (let steps = nat (max 1 (round_half_even (lead / step))) in
     map (\<lambda>i. of_nat i * (lead / of_nat steps)) [0..<steps + 1])"

fun nearest :: "sky \<Rightarrow> pyfloat \<Rightarrow> pyfloat \<Rightarrow> bool \<Rightarrow> rat \<Rightarrow> rat list \<Rightarrow> rat \<times> rat \<Rightarrow> (rat \<times> rat) res" where
  "nearest sk ra dec tracking now [] best = Inr best"
| "nearest sk ra dec tracking now (off # offs) best =
     (case angular_sep sk (project_pointing ra dec tracking off) (sky_sun sk (now + off)) of
        Inl e \<Rightarrow> Inl e
      | Inr sep \<Rightarrow> nearest sk ra dec tracking now offs (if sep < fst best then (sep, off) else best))"

definition closest_approach :: "sky \<Rightarrow> pyfloat \<Rightarrow> pyfloat \<Rightarrow> bool \<Rightarrow> rat \<Rightarrow> rat \<Rightarrow> (rat \<times> rat) res" where
  "closest_approach sk ra dec tracking now lead =
     nearest sk ra dec tracking now (sample_offsets lead PROJECTION_STEP_S) (360, 0)"

section \<open>What it says\<close>

datatype hands = Run_In_Progress | Lanes_Busy "string list"

datatype approach =
    Live "string option" string string bool
  | From_Memory string bool "string option" string string

datatype sun_held =
    Solar_Off | Cone_Off | No_Telescope
  | Not_Moved approach
  | Hands_On hands approach
  | Parked_There approach
  | Blind_Acted
  | Blind_Hands_On hands string
  | Blind_Parked
  | Night_Hold

datatype dark = Link_Down | Not_Answering

datatype dark_note = No_Note | Parked_Since | Never_Read | Read_Moving

datatype sun_line =
    Held "string option" sun_held
  | Clear_Again string string
  | Parking_Now approach
  | Park_Too_Late
  | Park_Refused string
  | Mount_Parked
  | Blind_Line dark dark_note "(string \<times> nat) option"
  | Blind_In_Daylight dark string dark_note string nat
  | Unknown_Sun_Unknown
  | Unknown_Daylight
  | Reading_Again string
  | Tick_Failed

section \<open>State and environment\<close>

datatype sun_clock = Read_Began | Read_Done | Blind_Began | Blind_Said | Blind_Sun | Projected | Doubt_Began | Doubt_Sun | Streak_Ended
datatype sun_look = At_Reopen | At_Read | At_Check | At_Park
datatype sun_gate = At_Top | At_Gate | Under_Lock
datatype sun_await = In_Reopen | In_Position | In_Tracking | In_Parked | In_Lock | In_Park

record sun_env =
  w_avoid :: bool
  w_cone :: "rat option"
  w_twilight :: "rat option"
  w_site :: "(rat \<times> rat) option"
  w_tel :: bool
  w_known :: "sun_gate \<Rightarrow> bool"
  w_connected :: bool
  w_back :: bool
  w_running :: "sun_look \<Rightarrow> bool"
  w_lanes :: "sun_look \<Rightarrow> lanes"
  w_position :: "(pyfloat \<times> pyfloat) option"
  w_tracking :: "bool option"
  w_parked :: "bool option"
  w_park :: park_answer
  w_clock :: "sun_clock \<Rightarrow> rat"
  w_noted :: "sun_await \<Rightarrow> rat option"

record sun_watch =
  sw_lead :: rat
  sw_acted :: bool
  sw_held :: "sun_held option"
  sw_blind_reason :: "dark option"
  sw_blind_count :: nat
  sw_blind_since :: rat
  sw_last_good :: "(pyfloat \<times> pyfloat \<times> rat) option"
  sw_last_read :: "rat option"
  sw_tries :: nat
  sw_noted :: "rat option"
  sw_daylight :: bool
  sw_unknown_since :: "rat option"
  sw_unknown_ticks :: nat
  sw_judged :: "bool option"
  sw_did :: "sun_line net_step list"

definition new_sun_watch :: "rat \<Rightarrow> sun_watch" where
  "new_sun_watch lead = \<lparr>sw_lead = lead, sw_acted = False, sw_held = None, sw_blind_reason = None, sw_blind_count = 0,
     sw_blind_since = 0, sw_last_good = None, sw_last_read = None, sw_tries = 0, sw_noted = None, sw_daylight = False,
     sw_unknown_since = None, sw_unknown_ticks = 0, sw_judged = None, sw_did = []\<rparr>"

text \<open>What the route for the safety state publishes.\<close>

record published =
  pu_blind :: bool
  pu_blind_since :: "rat option"
  pu_unknown :: bool
  pu_unknown_since :: "rat option"
  pu_last_at :: "rat option"
  pu_armed :: bool

definition sun_state :: "bool \<Rightarrow> sun_watch \<Rightarrow> published" where
  "sun_state alive s = \<lparr>pu_blind = (sw_blind_reason s \<noteq> None),
     pu_blind_since = (if sw_blind_reason s \<noteq> None then Some (sw_blind_since s) else None),
     pu_unknown = (sw_unknown_since s \<noteq> None), pu_unknown_since = sw_unknown_since s,
     pu_last_at = sw_last_read s, pu_armed = alive\<rparr>"

definition note_parked :: "rat \<Rightarrow> sun_watch \<Rightarrow> sun_watch" where
  "note_parked now s = s\<lparr>sw_noted := Some now\<rparr>"

text \<open>A park that another path notes while the tick awaits.\<close>

definition land :: "sun_env \<Rightarrow> sun_await \<Rightarrow> sun_watch \<Rightarrow> sun_watch" where
  "land e a s = (case w_noted e a of None \<Rightarrow> s | Some t \<Rightarrow> note_parked t s)"

definition sun_do :: "sun_line net_step \<Rightarrow> sun_watch \<Rightarrow> sun_watch" where
  "sun_do x s = s\<lparr>sw_did := sw_did s @ [x]\<rparr>"

section \<open>The tick\<close>

definition sun_hands_off :: "sun_env \<Rightarrow> sun_look \<Rightarrow> hands option" where
  "sun_hands_off e l = (if w_running e l then Some Run_In_Progress
     else if moving (w_lanes e l) \<noteq> [] then Some (Lanes_Busy (moving (w_lanes e l))) else None)"

definition sun_hold :: "sun_held \<Rightarrow> rat option \<Rightarrow> string \<Rightarrow> bool \<Rightarrow> sun_watch \<Rightarrow> sun_watch" where
  "sun_hold reason sep level site s =
     (if sw_held s = Some reason then s
      else sun_do (Said level site (Held (map_option (fmt_fixed 0) sep) reason)) (s\<lparr>sw_held := Some reason\<rparr>))"

definition drop_blind :: "sun_watch \<Rightarrow> sun_watch" where
  "drop_blind s = s\<lparr>sw_blind_reason := None, sw_blind_count := 0, sw_tries := 0, sw_daylight := False\<rparr>"

definition drop_unknown :: "sun_watch \<Rightarrow> sun_watch" where
  "drop_unknown s = s\<lparr>sw_unknown_since := None, sw_unknown_ticks := 0, sw_judged := None\<rparr>"

text \<open>The three branches in which the net does not watch.\<close>

definition stand_down :: "sun_held \<Rightarrow> sun_watch \<Rightarrow> sun_watch" where
  "stand_down reason s = drop_unknown (drop_blind ((sun_hold reason None ''info'' False s)\<lparr>sw_acted := False\<rparr>))"

text \<open>Is the Sun above the threshold of the dawn park? Unknown without a site.\<close>

definition sun_against_dawn :: "sky \<Rightarrow> sun_env \<Rightarrow> sun_clock \<Rightarrow> (bool \<times> rat) option" where
  "sun_against_dawn sk e c = (case w_site e of None \<Rightarrow> None
     | Some (lat, lon) \<Rightarrow> let th = park_threshold_deg (w_twilight e) in Some (th \<le> sky_alt sk lat lon (w_clock e c), th))"

definition fallback_note :: "sun_watch \<Rightarrow> dark_note" where
  "fallback_note s = (if sw_noted s \<noteq> None then Parked_Since
     else if sw_last_read s = None then Never_Read
     else if sw_last_good s = None then Read_Moving else No_Note)"

definition signed :: "nat \<Rightarrow> rat \<Rightarrow> string" where
  "signed d x = (if x < 0 then [] else ''+'') @ fmt_fixed d x"

definition position_unknown_tick :: "sky \<Rightarrow> sun_env \<Rightarrow> sun_watch \<Rightarrow> sun_watch" where
  "position_unknown_tick sk e s = (
     let s = (if sw_unknown_since s = None
         then s\<lparr>sw_unknown_since := Some (w_clock e Doubt_Began), sw_unknown_ticks := 0, sw_judged := None\<rparr> else s);
       s = (drop_blind s)\<lparr>sw_last_good := None, sw_acted := False\<rparr>;
       verdict = sun_against_dawn sk e Doubt_Sun;
       s = (if Some (verdict \<noteq> None) \<noteq> sw_judged s
         then s\<lparr>sw_judged := Some (verdict \<noteq> None), sw_unknown_ticks := 0\<rparr> else s) in
     case verdict of
       Some (False, _) \<Rightarrow> sun_hold Night_Hold None ''info'' True (s\<lparr>sw_unknown_ticks := 0\<rparr>)
     | _ \<Rightarrow> let n = sw_unknown_ticks s; s = s\<lparr>sw_unknown_ticks := n + 1\<rparr> in
         if n mod BLIND_LOG_EVERY = 0
         then sun_do (if verdict = None then Said ''warning'' False Unknown_Sun_Unknown else Alerted ''error'' Unknown_Daylight) s
         else s)"

definition blind_in_daylight :: "sky \<Rightarrow> sun_env \<Rightarrow> dark \<Rightarrow> string \<Rightarrow> nat \<Rightarrow> sun_watch \<Rightarrow> sun_watch" where
  "blind_in_daylight sk e reason mins n s = (case sun_against_dawn sk e Blind_Sun of
     None \<Rightarrow> s
   | Some (up, th) \<Rightarrow>
       if \<not> up then s\<lparr>sw_daylight := False\<rparr>
       else if sw_daylight s \<or> sw_noted s \<noteq> None then s
       else sun_do (Alerted ''error'' (Blind_In_Daylight reason (signed 0 th) (fallback_note s) mins n)) (s\<lparr>sw_daylight := True\<rparr>))"

definition blind_level :: "nat \<Rightarrow> string option" where
  "blind_level n = (if n = 1 then Some ''info''
     else if n = BLIND_WARN_AFTER then Some ''warning''
     else if BLIND_ERROR_AFTER \<le> n \<and> (n - BLIND_ERROR_AFTER) mod BLIND_LOG_EVERY = 0 then Some ''error''
     else None)"

definition blind :: "sky \<Rightarrow> sun_env \<Rightarrow> dark \<Rightarrow> sun_watch \<Rightarrow> sun_watch" where
  "blind sk e reason s = (
     let s = (if sw_blind_reason s = None then s\<lparr>sw_blind_count := 0, sw_blind_since := w_clock e Blind_Began\<rparr> else s);
       n = sw_blind_count s + 1;
       s = s\<lparr>sw_blind_reason := Some reason, sw_blind_count := n\<rparr>;
       mins = fmt_fixed 0 ((w_clock e Blind_Said - sw_blind_since s) / 60);
       s = (case blind_level n of None \<Rightarrow> s
         | Some level \<Rightarrow> sun_do (Said level False (Blind_Line reason (fallback_note s) (if n = 1 then None else Some (mins, n)))) s) in
     blind_in_daylight sk e reason mins n s)"

definition clear_blind :: "sun_env \<Rightarrow> sun_watch \<Rightarrow> sun_watch" where
  "clear_blind e s = drop_blind (if sw_blind_reason s = None then s
     else (if 1 < sw_blind_count s
         then sun_do (Said ''info'' False (Reading_Again (fmt_fixed 0 ((w_clock e Streak_Ended - sw_blind_since s) / 60)))) s else s)
       \<lparr>sw_acted := False\<rparr>)"

text \<open>The park block, for both paths. The answer: taken, not taken, or stood aside.\<close>

definition sun_park :: "sky \<Rightarrow> sun_env \<Rightarrow> approach \<Rightarrow> (hands \<Rightarrow> sun_watch \<Rightarrow> sun_watch) \<Rightarrow> bool \<Rightarrow> sun_watch \<Rightarrow> sun_watch \<times> bool option" where
  "sun_park sk e a hold loud s = (case sun_hands_off e At_Park of
     Some h \<Rightarrow> (hold h s, None)
   | None \<Rightarrow>
       if \<not> w_known e At_Gate then (position_unknown_tick sk e s, None)
       else let s = (if loud then sun_do (Said ''error'' False (Parking_Now a)) s else s);
              s = land e In_Lock (sun_do Bumped s) in
         if \<not> w_known e Under_Lock then (position_unknown_tick sk e s, None)
         else let s = land e In_Park (sun_do Park s) in
           case w_park e of
             Too_Late \<Rightarrow> (if loud then sun_do (Said ''error'' False Park_Too_Late) s else s, Some False)
           | Refused_It why \<Rightarrow> (if loud then sun_do (Said ''error'' False (Park_Refused why)) s else s, Some False)
           | Took_It \<Rightarrow> (sun_do (Said ''error'' False Mount_Parked) (s\<lparr>sw_acted := True, sw_held := None\<rparr>), Some True))"

definition remember :: "sun_env \<Rightarrow> pyfloat \<Rightarrow> pyfloat \<Rightarrow> sun_watch \<Rightarrow> sun_watch" where
  "remember e ra dec s = (
     let now = w_clock e Read_Done;
       s = s\<lparr>sw_last_read := Some now\<rparr>;
       s = (case sw_noted s of None \<Rightarrow> s | Some t \<Rightarrow> if t \<le> w_clock e Read_Began then s\<lparr>sw_noted := None\<rparr> else s) in
     s\<lparr>sw_last_good := (if moving (w_lanes e At_Read) \<noteq> [] then None else Some (ra, dec, now))\<rparr>)"

definition entry_text :: "rat \<Rightarrow> string option" where
  "entry_text lead = (if lead \<le> 0 then None else Some (fmt_fixed 0 (lead / 60)))"

text \<open>The smaller of the two separations, of a stopped and of a tracking tube.\<close>

definition blind_sep :: "sky \<Rightarrow> sun_env \<Rightarrow> rat \<Rightarrow> pyfloat \<times> pyfloat \<times> rat \<Rightarrow> (rat \<times> rat \<times> bool) res" where
  "blind_sep sk e lead good = (case good of (ra, dec, read_at) \<Rightarrow>
     let now = w_clock e Projected; age = max 0 (now - read_at);
       stopped = fst (project_pointing ra dec False age) in
     case closest_approach sk stopped dec False now lead of Inl x \<Rightarrow> Inl x
     | Inr (sep_s, lead_s) \<Rightarrow> (case closest_approach sk ra dec True now lead of Inl x \<Rightarrow> Inl x
       | Inr (sep_t, lead_t) \<Rightarrow> Inr (if sep_s \<le> sep_t then (sep_s, lead_s, True) else (sep_t, lead_t, False))))"

definition blind_projection :: "sky \<Rightarrow> sun_env \<Rightarrow> rat \<Rightarrow> sun_watch \<Rightarrow> sun_watch \<times> bool" where
  "blind_projection sk e cone s =
     (if sw_noted s \<noteq> None then (s\<lparr>sw_held := None, sw_tries := 0\<rparr>, False)
      else case sw_last_good s of None \<Rightarrow> (s, False)
      | Some good \<Rightarrow> (case blind_sep sk e (sw_lead s) good of
          Inl _ \<Rightarrow> (s, True)
        | Inr (sep, lead, stopped) \<Rightarrow>
            if cone \<le> sep then (s\<lparr>sw_held := None, sw_tries := 0\<rparr>, False)
            else if sw_acted s then (sun_hold Blind_Acted None ''info'' False s, False)
            else let hold = (\<lambda>h. sun_hold (Blind_Hands_On h (fmt_fixed 0 cone)) None ''warning'' False) in
              case sun_hands_off e At_Check of
                Some h \<Rightarrow> (hold h s, False)
              | None \<Rightarrow> let s = land e In_Parked s in
                  if w_parked e = Some True then (sun_hold Blind_Parked None ''info'' False s, False)
                  else let tries = sw_tries s;
                      a = From_Memory (fmt_fixed 0 (max 0 (w_clock e Projected - snd (snd good)) / 60)) stopped (entry_text lead)
                        (fmt_fixed 0 sep) (fmt_fixed 0 cone) in
                    case sun_park sk e a hold (tries mod BLIND_LOG_EVERY = 0) s of
                      (s, None) \<Rightarrow> (s, False)
                    | (s, Some True) \<Rightarrow> (s\<lparr>sw_tries := 0\<rparr>, False)
                    | (s, Some False) \<Rightarrow> (s\<lparr>sw_tries := tries + 1\<rparr>, False)))"

text \<open>\<open>_position\<close>: what is not a number is no position.\<close>

definition sun_position :: "sun_env \<Rightarrow> (pyfloat \<times> pyfloat) option" where
  "sun_position e = (case w_position e of None \<Rightarrow> None
     | Some (ra, dec) \<Rightarrow> if ra = NaN \<or> dec = NaN then None else Some (ra, dec))"

definition judge_live :: "sky \<Rightarrow> sun_env \<Rightarrow> rat \<Rightarrow> pyfloat \<Rightarrow> pyfloat \<Rightarrow> sun_watch \<Rightarrow> sun_watch \<times> bool" where
  "judge_live sk e cone ra dec s = (
     let s = land e In_Tracking (remember e ra dec (clear_blind e s)); tracking = (w_tracking e = Some True) in
     case closest_approach sk ra dec tracking (w_clock e Read_Done) (sw_lead s) of
       Inl _ \<Rightarrow> (s, True)
     | Inr (sep, lead) \<Rightarrow>
         if cone \<le> sep then
           ((if sw_acted s \<or> sw_held s \<noteq> None
             then sun_do (Said ''info'' False (Clear_Again (fmt_fixed 0 sep) (fmt_fixed 0 (sw_lead s / 60)))) s else s)
            \<lparr>sw_acted := False, sw_held := None\<rparr>, False)
         else let a = Live (entry_text lead) (fmt_fixed 0 sep) (fmt_fixed 0 cone) tracking in
           if sw_acted s then (sun_hold (Not_Moved a) (Some sep) ''error'' False s, False)
           else let hold = (\<lambda>h. sun_hold (Hands_On h a) (Some sep) ''warning'' False) in
             case sun_hands_off e At_Check of
               Some h \<Rightarrow> (hold h s, False)
             | None \<Rightarrow> let s = land e In_Parked s in
                 if w_parked e = Some True then (sun_hold (Parked_There a) (Some sep) ''error'' False s, False)
                 else (fst (sun_park sk e a hold True s), False))"

definition read_and_judge :: "sky \<Rightarrow> sun_env \<Rightarrow> rat \<Rightarrow> sun_watch \<Rightarrow> sun_watch \<times> bool" where
  "read_and_judge sk e cone s = (let s = land e In_Position s in
     case sun_position e of
       None \<Rightarrow> blind_projection sk e cone (blind sk e Not_Answering s)
     | Some (ra, dec) \<Rightarrow> judge_live sk e cone ra dec s)"

definition cone_of :: "sun_env \<Rightarrow> rat" where
  "cone_of e = (case w_cone e of None \<Rightarrow> 0 | Some c \<Rightarrow> c)"

definition sun_tick :: "sky \<Rightarrow> sun_env \<Rightarrow> sun_watch \<Rightarrow> sun_watch \<times> bool" where
  "sun_tick sk e s =
     (if \<not> w_avoid e then (stand_down Solar_Off s, False)
      else if cone_of e \<le> 0 then (stand_down Cone_Off s, False)
      else if \<not> w_tel e then (stand_down No_Telescope s, False)
      else if \<not> w_known e At_Top then (position_unknown_tick sk e s, False)
      else let s = (if sw_unknown_since s \<noteq> None then drop_unknown (s\<lparr>sw_held := None\<rparr>) else s) in
        if w_connected e then read_and_judge sk e (cone_of e) s
        else let s = (if sun_hands_off e At_Reopen = None then land e In_Reopen (sun_do Reopened s) else s) in
          if w_back e then read_and_judge sk e (cone_of e) s
          else blind_projection sk e (cone_of e) (blind sk e Link_Down s))"

text \<open>One turn of the loop: a tick that raises is said, and the net goes on.\<close>

definition sun_turn :: "sky \<Rightarrow> sun_watch \<Rightarrow> sun_env \<Rightarrow> sun_watch" where
  "sun_turn sk s e = (case sun_tick sk e s of (s, raised) \<Rightarrow> if raised then sun_do (Said ''warning'' False Tick_Failed) s else s)"

section \<open>When it parks\<close>

definition watching :: "sun_env \<Rightarrow> bool" where
  "watching e = (w_avoid e \<and> 0 < cone_of e \<and> w_tel e \<and> w_known e At_Top)"

definition sees :: "sun_env \<Rightarrow> (pyfloat \<times> pyfloat) option" where
  "sees e = (if w_connected e \<or> w_back e then sun_position e else None)"

text \<open>Nobody has the mount at the two looks, it does not say that it is parked, and the position is known at the last
  two gates.\<close>

definition may_park :: "sun_env \<Rightarrow> bool" where
  "may_park e = (sun_hands_off e At_Check = None \<and> sun_hands_off e At_Park = None \<and> w_parked e \<noteq> Some True
     \<and> w_known e At_Gate \<and> w_known e Under_Lock)"

text \<open>The park another path noted, as the blind projection finds it.\<close>

definition note_before :: "sun_env \<Rightarrow> sun_watch \<Rightarrow> rat option" where
  "note_before e s = sw_noted ((if w_connected e \<or> w_back e then land e In_Position else id)
     ((if \<not> w_connected e \<and> sun_hands_off e At_Reopen = None then land e In_Reopen else id) s))"

text \<open>The Sun comes into the cone: around the position just read, unless a park for it was accepted before and the
  mount has been seen since; or around the last position read, unless a park was accepted or noted.\<close>

definition closing :: "sky \<Rightarrow> sun_watch \<Rightarrow> sun_env \<Rightarrow> bool" where
  "closing sk s e = (case sees e of
     Some (ra, dec) \<Rightarrow> (sw_acted s \<longrightarrow> sw_blind_reason s \<noteq> None)
       \<and> (case closest_approach sk ra dec (w_tracking e = Some True) (w_clock e Read_Done) (sw_lead s) of
            Inl _ \<Rightarrow> False | Inr (sep, _) \<Rightarrow> sep < cone_of e)
   | None \<Rightarrow> \<not> sw_acted s \<and> note_before e s = None
       \<and> (case sw_last_good s of None \<Rightarrow> False
          | Some good \<Rightarrow> (case blind_sep sk e (sw_lead s) good of Inl _ \<Rightarrow> False | Inr (sep, _) \<Rightarrow> sep < cone_of e)))"

definition sun_allowed :: "sky \<Rightarrow> sun_watch \<Rightarrow> sun_env \<Rightarrow> bool" where
  "sun_allowed sk s e = (watching e \<and> may_park e \<and> closing sk s e)"

abbreviation sun_reports :: "bool \<Rightarrow> sun_watch \<Rightarrow> sun_watch \<Rightarrow> bool" where
  "sun_reports b s s' \<equiv> reports b (sw_did s) (sw_did s')"

lemma land_fields [simp]:
  "sw_did (land e a s) = sw_did s" "sw_lead (land e a s) = sw_lead s" "sw_acted (land e a s) = sw_acted s"
  "sw_blind_reason (land e a s) = sw_blind_reason s" "sw_last_good (land e a s) = sw_last_good s" "sw_tries (land e a s) = sw_tries s"
  "sw_held (land e a s) = sw_held s" "sw_unknown_since (land e a s) = sw_unknown_since s"
  "sw_blind_count (land e a s) = sw_blind_count s" "sw_daylight (land e a s) = sw_daylight s" "sw_last_read (land e a s) = sw_last_read s"
  by (simp_all add: land_def note_parked_def split: option.split)

lemma sun_do_fields [simp]:
  "sw_did (sun_do x s) = sw_did s @ [x]" "sw_lead (sun_do x s) = sw_lead s" "sw_acted (sun_do x s) = sw_acted s"
  "sw_blind_reason (sun_do x s) = sw_blind_reason s" "sw_last_good (sun_do x s) = sw_last_good s" "sw_tries (sun_do x s) = sw_tries s"
  "sw_noted (sun_do x s) = sw_noted s" "sw_held (sun_do x s) = sw_held s" "sw_unknown_since (sun_do x s) = sw_unknown_since s"
  "sw_blind_count (sun_do x s) = sw_blind_count s" "sw_daylight (sun_do x s) = sw_daylight s" "sw_last_read (sun_do x s) = sw_last_read s"
  by (simp_all add: sun_do_def)

lemma sun_hold_fields [simp]:
  "sw_lead (sun_hold r p l b s) = sw_lead s" "sw_acted (sun_hold r p l b s) = sw_acted s" "sw_noted (sun_hold r p l b s) = sw_noted s"
  "sw_last_good (sun_hold r p l b s) = sw_last_good s" "sw_held (sun_hold r p l b s) = Some r"
  by (simp_all add: sun_hold_def)

lemma quiet_hold [simp]: "sun_reports False s (sun_hold r p l b s)"
  by (simp add: sun_hold_def)

lemma quiet_unknown [simp]: "sun_reports False s (position_unknown_tick sk e s)"
  by (auto simp: position_unknown_tick_def Let_def sun_hold_def drop_blind_def split: option.split prod.split bool.split)

lemma quiet_stand_down: "sun_reports False s (stand_down r s)"
  by (simp add: stand_down_def drop_blind_def drop_unknown_def)

lemma quiet_blind [simp]: "sun_reports False s (blind sk e r s)"
  by (auto simp: blind_def Let_def blind_in_daylight_def split: option.split)

lemma blind_fields [simp]:
  "sw_lead (blind sk e r s) = sw_lead s" "sw_acted (blind sk e r s) = sw_acted s" "sw_noted (blind sk e r s) = sw_noted s"
  "sw_last_good (blind sk e r s) = sw_last_good s"
  by (simp_all add: blind_def Let_def blind_in_daylight_def split: option.split)

lemma quiet_clear [simp]: "sun_reports False s (clear_blind e s)"
  by (simp add: clear_blind_def drop_blind_def)

lemma clear_fields [simp]:
  "sw_lead (clear_blind e s) = sw_lead s" "sw_acted (clear_blind e s) = (sw_acted s \<and> sw_blind_reason s = None)"
  "sw_noted (clear_blind e s) = sw_noted s"
  by (simp_all add: clear_blind_def drop_blind_def)

lemma remember_fields [simp]:
  "sw_did (remember e ra dec s) = sw_did s" "sw_lead (remember e ra dec s) = sw_lead s" "sw_acted (remember e ra dec s) = sw_acted s"
  by (simp_all add: remember_def Let_def split: option.split)

text \<open>The park block sends its command where both gates and the last look let it.\<close>

lemma sun_park_reports:
  assumes "\<And>h. sun_reports False s (hold h s)"
  shows "sun_reports (sun_hands_off e At_Park = None \<and> w_known e At_Gate \<and> w_known e Under_Lock) s
    (fst (sun_park sk e a hold loud s))"
proof -
  define t where "t = (if loud then sun_do (Said ''error'' False (Parking_Now a)) s else s)"
  define b where "b = land e In_Lock (sun_do Bumped t)"
  have t: "sun_reports False s t"
    by (simp add: t_def)
  have "sun_reports False t b"
    by (simp add: b_def)
  from reports_trans(1) [OF this quiet_unknown] have unknown: "sun_reports False s (position_unknown_tick sk e b)"
    using reports_trans(2) [OF t] by blast
  have all: "fst (sun_park sk e a hold loud s) = (case sun_hands_off e At_Park of Some h \<Rightarrow> hold h s
      | None \<Rightarrow> if \<not> w_known e At_Gate then position_unknown_tick sk e s
          else if \<not> w_known e Under_Lock then position_unknown_tick sk e b
          else case w_park e of
             Too_Late \<Rightarrow> if loud then sun_do (Said ''error'' False Park_Too_Late) (land e In_Park (sun_do Park b)) else land e In_Park (sun_do Park b)
           | Refused_It why \<Rightarrow> if loud then sun_do (Said ''error'' False (Park_Refused why)) (land e In_Park (sun_do Park b)) else land e In_Park (sun_do Park b)
           | Took_It \<Rightarrow> sun_do (Said ''error'' False Mount_Parked) ((land e In_Park (sun_do Park b))\<lparr>sw_acted := True, sw_held := None\<rparr>))"
    by (simp add: sun_park_def t_def b_def Let_def split: option.split park_answer.split)
  have park: "sun_reports True t (land e In_Park (sun_do Park b))"
    "sun_reports True t (sun_do (Said l f x) (land e In_Park (sun_do Park b)))"
    "sun_reports True t (sun_do (Said l f x) ((land e In_Park (sun_do Park b))\<lparr>sw_acted := True, sw_held := None\<rparr>))" for l f x
    using reports_park [of "[]" "sw_did t"] reports_park [of "[Said l f x]" "sw_did t"] by (simp_all add: b_def)
  note parked = park [THEN reports_trans(2) [OF t]]
  show ?thesis
    using assms unknown parked unfolding all by (auto split: option.split park_answer.split)
qed

lemma blind_projection_reports:
  "sun_reports (may_park e \<and> \<not> sw_acted s \<and> sw_noted s = None
      \<and> (case sw_last_good s of None \<Rightarrow> False
          | Some good \<Rightarrow> (case blind_sep sk e (sw_lead s) good of Inl _ \<Rightarrow> False | Inr (sep, _) \<Rightarrow> sep < cone)))
    s (fst (blind_projection sk e cone s))"
proof (cases "sw_noted s = None \<and> \<not> sw_acted s")
  case True
  show ?thesis
  proof (cases "sw_last_good s")
    case (Some good)
    show ?thesis
    proof (cases "blind_sep sk e (sw_lead s) good")
      case (Inr r)
      obtain sep lead stopped where r: "r = (sep, lead, stopped)"
        by (cases r)
      define hold where "hold = (\<lambda>h. sun_hold (Blind_Hands_On h (fmt_fixed 0 cone)) None ''warning'' False)"
      define t where "t = land e In_Parked s"
      define a where "a = From_Memory (fmt_fixed 0 (max 0 (w_clock e Projected - snd (snd good)) / 60)) stopped (entry_text lead)
        (fmt_fixed 0 sep) (fmt_fixed 0 cone)"
      define p where "p = sun_park sk e a hold (sw_tries t mod BLIND_LOG_EVERY = 0) t"
      have t: "sw_did t = sw_did s"
        by (simp add: t_def)
      have hold: "sun_reports False u (hold h u)" for h u
        by (simp add: hold_def)
      have held: "sun_reports False s (sun_hold x y z b t)" for x y z b
        using quiet_hold [of t] by (simp add: t)
      have all: "sw_did (fst (blind_projection sk e cone s)) = (if cone \<le> sep then sw_did s
          else case sun_hands_off e At_Check of Some h \<Rightarrow> sw_did (hold h s)
          | None \<Rightarrow> if w_parked e = Some True then sw_did (sun_hold Blind_Parked None ''info'' False t) else sw_did (fst p))"
        using True Some Inr r
        by (simp add: blind_projection_def Let_def hold_def [symmetric] t_def [symmetric] a_def [symmetric] p_def [symmetric]
            split: option.split prod.split bool.split)
      note sends = sun_park_reports [of t hold e sk a "sw_tries t mod BLIND_LOG_EVERY = 0", OF hold, folded p_def, unfolded t]
      show ?thesis
        using sends held hold True Some Inr r unfolding all
        by (auto simp: may_park_def split: option.split)
    qed (use Some True in \<open>simp add: blind_projection_def\<close>)
  qed (use True in \<open>simp add: blind_projection_def\<close>)
next
  case False
  then show ?thesis
    by (auto simp: blind_projection_def Let_def split: option.split sum.split)
qed

lemma judge_live_reports:
  "sun_reports (may_park e \<and> (sw_acted s \<longrightarrow> sw_blind_reason s \<noteq> None)
      \<and> (case closest_approach sk ra dec (w_tracking e = Some True) (w_clock e Read_Done) (sw_lead s) of
           Inl _ \<Rightarrow> False | Inr (sep, _) \<Rightarrow> sep < cone))
    s (fst (judge_live sk e cone ra dec s))"
proof -
  define t where "t = land e In_Tracking (remember e ra dec (clear_blind e s))"
  have t: "sun_reports False s t" "sw_lead t = sw_lead s" "sw_acted t = (sw_acted s \<and> sw_blind_reason s = None)"
    by (simp_all add: t_def)
  show ?thesis
  proof (cases "closest_approach sk ra dec (w_tracking e = Some True) (w_clock e Read_Done) (sw_lead s)")
    case (Inl x)
    then show ?thesis
      using t by (simp add: judge_live_def t_def [symmetric])
  next
    case (Inr r)
    obtain sep lead where r: "r = (sep, lead)"
      by (cases r)
    define a where "a = Live (entry_text lead) (fmt_fixed 0 sep) (fmt_fixed 0 cone) (w_tracking e = Some True)"
    define hold where "hold = (\<lambda>h. sun_hold (Hands_On h a) (Some sep) ''warning'' False)"
    define u where "u = land e In_Parked t"
    have u: "sw_did u = sw_did t"
      by (simp add: u_def)
    have hold: "sun_reports False v (hold h v)" for h v
      by (simp add: hold_def)
    have held: "sun_reports False t (sun_hold x y z b u)" for x y z b
      using quiet_hold [of u] by (simp add: u)
    have clear: "sun_reports False t (sun_do (Said l f x) t)" for l f x
      by simp
    have all: "sw_did (fst (judge_live sk e cone ra dec s)) =
      (if cone \<le> sep then
           (if sw_acted t \<or> sw_held t \<noteq> None
            then sw_did (sun_do (Said ''info'' False (Clear_Again (fmt_fixed 0 sep) (fmt_fixed 0 (sw_lead t / 60)))) t) else sw_did t)
       else if sw_acted t then sw_did (sun_hold (Not_Moved a) (Some sep) ''error'' False t)
       else case sun_hands_off e At_Check of Some h \<Rightarrow> sw_did (hold h t)
         | None \<Rightarrow> if w_parked e = Some True then sw_did (sun_hold (Parked_There a) (Some sep) ''error'' False u)
             else sw_did (fst (sun_park sk e a hold True u)))"
      using Inr r t(2) unfolding judge_live_def Let_def t_def [symmetric]
      by (simp add: a_def [symmetric] hold_def u_def [symmetric] split: option.split)
    note sends = sun_park_reports [of u hold e sk a True, OF hold, unfolded u]
    have "sun_reports (may_park e \<and> \<not> sw_acted t \<and> sep < cone) t (fst (judge_live sk e cone ra dec s))"
      using sends held hold clear unfolding all by (auto simp: may_park_def split: option.split)
    then show ?thesis
      using reports_trans(2) [OF t(1)] Inr r t(3) by (auto cong: conj_cong)
  qed
qed

lemma sun_tick_reports: "sun_reports (sun_allowed sk s e) s (fst (sun_tick sk e s))"
proof (cases "watching e")
  case False
  then show ?thesis
    using quiet_stand_down by (auto simp: sun_tick_def sun_allowed_def watching_def)
next
  case True
  define t where "t = (if sw_unknown_since s \<noteq> None then drop_unknown (s\<lparr>sw_held := None\<rparr>) else s)"
  define u where "u = (if \<not> w_connected e \<and> sun_hands_off e At_Reopen = None then land e In_Reopen (sun_do Reopened t) else t)"
  have t: "sw_did t = sw_did s" "sw_lead t = sw_lead s" "sw_acted t = sw_acted s" "sw_blind_reason t = sw_blind_reason s"
      "sw_last_good t = sw_last_good s" "sw_noted t = sw_noted s"
    by (simp_all add: t_def drop_unknown_def)
  have u: "sun_reports False s u" "sw_lead u = sw_lead s" "sw_acted u = sw_acted s" "sw_blind_reason u = sw_blind_reason s"
      "sw_last_good u = sw_last_good s"
    using t by (simp_all add: u_def)
  have noted: "note_before e s = sw_noted ((if w_connected e \<or> w_back e then land e In_Position else id) u)"
    using t(6) by (cases "\<not> w_connected e \<and> sun_hands_off e At_Reopen = None")
      (auto simp: note_before_def u_def land_def note_parked_def split: option.split)
  have tick: "sun_tick sk e s = (if w_connected e \<or> w_back e then read_and_judge sk e (cone_of e) u
      else blind_projection sk e (cone_of e) (blind sk e Link_Down u))"
  proof -
    have "sun_tick sk e s = (if w_connected e then read_and_judge sk e (cone_of e) t
        else let s = (if sun_hands_off e At_Reopen = None then land e In_Reopen (sun_do Reopened t) else t) in
          if w_back e then read_and_judge sk e (cone_of e) s else blind_projection sk e (cone_of e) (blind sk e Link_Down s))"
      using True unfolding sun_tick_def watching_def t_def Let_def by simp
    then show ?thesis
      by (simp add: u_def Let_def)
  qed
  show ?thesis
  proof (cases "sees e")
    case (Some p)
    obtain ra dec where p: "p = (ra, dec)"
      by (cases p)
    have "w_connected e \<or> w_back e" "sun_position e = Some (ra, dec)"
      using Some p by (auto simp: sees_def split: if_splits)
    then have "fst (sun_tick sk e s) = fst (judge_live sk e (cone_of e) ra dec (land e In_Position u))"
      unfolding tick by (simp add: read_and_judge_def)
    moreover have "sun_allowed sk s e = (may_park e \<and> (sw_acted s \<longrightarrow> sw_blind_reason s \<noteq> None)
      \<and> (case closest_approach sk ra dec (w_tracking e = Some True) (w_clock e Read_Done) (sw_lead s) of
           Inl _ \<Rightarrow> False | Inr (sep, _) \<Rightarrow> sep < cone_of e))"
      using True Some p by (simp add: sun_allowed_def closing_def)
    ultimately show ?thesis
      using judge_live_reports [where e = e and s = "land e In_Position u" and sk = sk and ra = ra and dec = dec and cone = "cone_of e"] u reports_trans(2) [OF u(1)] by simp
  next
    case None
    define r where "r = (if w_connected e \<or> w_back e then Not_Answering else Link_Down)"
    define v where "v = (if w_connected e \<or> w_back e then land e In_Position u else u)"
    have v: "sw_did v = sw_did u" "sw_lead v = sw_lead s" "sw_acted v = sw_acted s" "sw_last_good v = sw_last_good s"
        "sw_noted v = note_before e s"
      using u noted by (simp_all add: v_def)
    have eq: "fst (sun_tick sk e s) = fst (blind_projection sk e (cone_of e) (blind sk e r v))"
      using None unfolding tick by (auto simp: sees_def read_and_judge_def r_def v_def)
    have allowed: "sun_allowed sk s e = (may_park e \<and> \<not> sw_acted s \<and> note_before e s = None
      \<and> (case sw_last_good s of None \<Rightarrow> False
          | Some good \<Rightarrow> (case blind_sep sk e (sw_lead s) good of Inl _ \<Rightarrow> False | Inr (sep, _) \<Rightarrow> sep < cone_of e)))"
      using True None by (simp add: sun_allowed_def closing_def)
    have "sun_reports False s (blind sk e r v)"
      using reports_trans(2) [OF u(1)] quiet_blind [of v sk e r] v(1) by simp
    from reports_trans(2) [OF this blind_projection_reports [where e = e and s = "blind sk e r v" and sk = sk and cone = "cone_of e"]]
    show ?thesis
      unfolding eq allowed by (simp only: v blind_fields)
  qed
qed

lemma sun_turn_reports: "sun_reports (sun_allowed sk s e) s (sun_turn sk s e)"
proof -
  have "sun_reports False (fst (sun_tick sk e s)) (sun_turn sk s e)"
    by (simp add: sun_turn_def split: prod.split)
  then show ?thesis
    by (rule reports_trans(1) [OF sun_tick_reports])
qed

interpretation sun_net: parking_net "sun_turn sk" sw_did "sun_allowed sk"
  by unfold_locales (rule sun_turn_reports)

text \<open>C23. The sun watch parks the mount in exactly these ticks: it is watching and knows where the tube points at all
  three gates, nobody else has the mount at the two looks, the mount does not say it is parked, and the Sun comes into
  the cone within the lead time, around the position just read or, where none can be read, around the last one,
  stopped or tracking. The command stands right behind the bump of the motion fence.\<close>

theorem sun_watch_parks_exactly_when:
  "(Park \<in> set (news (sw_did s) (sw_did (sun_turn sk s e))) \<longleftrightarrow>
      w_avoid e \<and> 0 < cone_of e \<and> w_tel e \<and> w_known e At_Top \<and> may_park e \<and> closing sk s e)
    \<and> fenced (news (sw_did s) (sw_did (sun_turn sk s e)))"
  using sun_net.park_iff [of s sk e] sun_turn_reports [of sk s e]
  by (auto simp: sun_allowed_def watching_def reports_def)

section \<open>The cone and the projection\<close>

text \<open>The angle to the Sun at a sample, for a position that is finite.\<close>

definition sep_at :: "sky \<Rightarrow> rat \<Rightarrow> rat \<Rightarrow> bool \<Rightarrow> rat \<Rightarrow> rat \<Rightarrow> rat" where
  "sep_at sk ra dec tracking now off =
     sky_sep sk (if tracking then ra else pymod (ra + off / 3600 * SIDEREAL_HOURS_PER_SOLAR_HOUR) 24) dec
       (fst (sky_sun sk (now + off))) (snd (sky_sun sk (now + off)))"

lemma nearest_Fin:
  "nearest sk (Fin ra) (Fin dec) tracking now offs best
     = Inr (foldl (\<lambda>best off. if sep_at sk ra dec tracking now off < fst best then (sep_at sk ra dec tracking now off, off) else best) best offs)"
  by (induction offs arbitrary: best) (auto simp: sep_at_def angular_sep_def project_pointing_def)

lemma fold_least:
  fixes f :: "rat \<Rightarrow> rat"
  defines "least \<equiv> foldl (\<lambda>best off. if f off < fst best then (f off, off) else best)"
  shows "fst (least best offs) \<le> fst best" "off \<in> set offs \<Longrightarrow> fst (least best offs) \<le> f off"
    "least best offs = best \<or> (snd (least best offs) \<in> set offs \<and> fst (least best offs) = f (snd (least best offs)))"
proof -
  have "fst (least best offs) \<le> fst best \<and> (\<forall>off \<in> set offs. fst (least best offs) \<le> f off)
      \<and> (least best offs = best \<or> (snd (least best offs) \<in> set offs \<and> fst (least best offs) = f (snd (least best offs))))"
    unfolding least_def
  proof (induction offs arbitrary: best)
    case (Cons x xs)
    show ?case
      using Cons [of "if f x < fst best then (f x, x) else best"] by (auto split: if_splits intro: order_trans)
  qed simp
  then show "fst (least best offs) \<le> fst best" "off \<in> set offs \<Longrightarrow> fst (least best offs) \<le> f off"
    "least best offs = best \<or> (snd (least best offs) \<in> set offs \<and> fst (least best offs) = f (snd (least best offs)))"
    by simp_all
qed

lemma sample_offsets_range:
  assumes "0 \<le> lead"
  shows "0 \<in> set (sample_offsets lead step)" "lead \<in> set (sample_offsets lead step)"
    "off \<in> set (sample_offsets lead step) \<Longrightarrow> 0 \<le> off \<and> off \<le> lead"
proof -
  define n where "n = nat (max 1 (round_half_even (lead / step)))"
  have n: "0 < n"
    by (simp add: n_def)
  have eq: "sample_offsets lead step = map (\<lambda>i. of_nat i * (lead / of_nat n)) [0..<n + 1]"
    by (simp add: sample_offsets_def n_def Let_def)
  show "0 \<in> set (sample_offsets lead step)"
    unfolding eq by (auto intro!: image_eqI [of _ _ 0])
  show "lead \<in> set (sample_offsets lead step)"
    unfolding eq using n by (auto intro!: image_eqI [of _ _ n])
  assume "off \<in> set (sample_offsets lead step)"
  then obtain i where "i \<in> set [0..<n + 1]" and i: "off = of_nat i * (lead / of_nat n)"
    unfolding eq set_map by (elim imageE)
  then have "i \<le> n"
    by (auto simp: less_Suc_eq_le)
  have "of_nat i * (lead / of_nat n) \<le> of_nat n * (lead / of_nat n)"
    using \<open>i \<le> n\<close> assms by (intro mult_right_mono) simp_all
  then show "0 \<le> off \<and> off \<le> lead"
    using i n assms by simp
qed

text \<open>The projection of a finite position is the least angle over the samples, the present and the end of the lead
  among them, and all within it: a Sun already in the cone is found with the offset 0 or at a nearer sample, and one
  that enters between now and the lead time at a sample is found.\<close>

theorem projection_is_the_least:
  assumes "0 \<le> lead" "\<forall>off \<in> set (sample_offsets lead PROJECTION_STEP_S). sep_at sk ra dec tracking now off < 360"
  shows "\<exists>off. off \<in> set (sample_offsets lead PROJECTION_STEP_S) \<and> 0 \<le> off \<and> off \<le> lead
    \<and> closest_approach sk (Fin ra) (Fin dec) tracking now lead = Inr (sep_at sk ra dec tracking now off, off)
    \<and> (\<forall>x \<in> set (sample_offsets lead PROJECTION_STEP_S). sep_at sk ra dec tracking now off \<le> sep_at sk ra dec tracking now x)"
proof -
  let ?f = "sep_at sk ra dec tracking now" and ?offs = "sample_offsets lead PROJECTION_STEP_S"
  define r where "r = foldl (\<lambda>best off. if ?f off < fst best then (?f off, off) else best) (360, 0) ?offs"
  have "fst r \<le> ?f 0" "?f 0 < 360"
    using fold_least(2) [where f = ?f and best = "(360, 0)" and offs = ?offs and off = 0] sample_offsets_range(1) [OF assms(1)] assms(2) by (simp_all add: r_def)
  then have "snd r \<in> set ?offs" "fst r = ?f (snd r)"
    using fold_least(3) [where f = ?f and best = "(360, 0)" and offs = ?offs] by (auto simp: r_def [symmetric])
  moreover have "closest_approach sk (Fin ra) (Fin dec) tracking now lead = Inr r"
    by (simp add: closest_approach_def nearest_Fin r_def)
  moreover have "\<forall>x \<in> set ?offs. fst r \<le> ?f x"
    using fold_least(2) [where f = ?f and best = "(360, 0)" and offs = ?offs] by (simp add: r_def)
  ultimately show ?thesis
    using sample_offsets_range(3) [OF assms(1)] by (intro exI [of _ "snd r"]) (metis prod.collapse)
qed

section \<open>A blind streak\<close>

fun is_blind_line :: "sun_line net_step \<Rightarrow> bool" where
  "is_blind_line (Said level site (Blind_Line r n t)) = True"
| "is_blind_line _ = False"

definition blind_lines :: "sun_watch \<Rightarrow> nat" where
  "blind_lines s = length (filter is_blind_line (sw_did s))"

text \<open>How many lines a streak of \<open>n\<close> ticks says: at the first, the tenth, the thirtieth and every thirtieth on.\<close>

definition spoken :: "nat \<Rightarrow> nat" where
  "spoken n = (if 1 \<le> n then 1 else 0) + (if 10 \<le> n then 1 else 0) + n div 30"

lemma spoken_Suc: "spoken (Suc n) = spoken n + (if blind_level (Suc n) = None then 0 else 1)"
proof -
  have "Suc n div 30 = n div 30 + (if Suc n mod 30 = 0 then 1 else 0)"
    by (simp add: div_Suc)
  moreover have "Suc n mod 30 = 0 \<longleftrightarrow> 30 \<le> Suc n \<and> (Suc n - 30) mod 30 = 0"
    by (metis add_diff_inverse_nat dvd_imp_le mod_0_imp_dvd mod_add_self1 mod_less not_less zero_less_Suc dvd_imp_mod_0)
  ultimately show ?thesis
    by (auto simp: spoken_def blind_level_def BLIND_WARN_AFTER_def BLIND_ERROR_AFTER_def BLIND_LOG_EVERY_def)
qed

text \<open>A part of a tick that leaves the streak and says no blind line.\<close>

definition same_streak :: "sun_watch \<Rightarrow> sun_watch \<Rightarrow> bool" where
  "same_streak s s' = (sw_blind_reason s' = sw_blind_reason s \<and> sw_blind_count s' = sw_blind_count s \<and> blind_lines s' = blind_lines s)"

lemma same_streak_refl: "same_streak s s"
  by (simp add: same_streak_def)

lemma same_streak_trans: "same_streak s t \<Longrightarrow> same_streak t u \<Longrightarrow> same_streak s u"
  by (simp add: same_streak_def)

lemma same_streak_simps [simp]:
  "same_streak s (s'\<lparr>sw_held := h\<rparr>) = same_streak s s'" "same_streak s (s'\<lparr>sw_tries := n\<rparr>) = same_streak s s'"
  "same_streak s (s'\<lparr>sw_acted := b\<rparr>) = same_streak s s'" "same_streak s (land e a s') = same_streak s s'"
  "\<not> is_blind_line x \<Longrightarrow> same_streak s (sun_do x s') = same_streak s s'"
  by (auto simp: same_streak_def blind_lines_def sun_do_def)

lemma same_streak_hold [simp]: "same_streak s (sun_hold r p l b s') = same_streak s s'"
  by (simp add: sun_hold_def)

lemma same_streak_park:
  assumes "w_known e At_Gate" "w_known e Under_Lock" "\<And>h t. same_streak s (hold h t) = same_streak s t"
  shows "same_streak s (fst (sun_park sk e a hold loud s))"
  using assms by (auto simp: sun_park_def Let_def same_streak_refl split: option.split park_answer.split)

text \<open>What leaves a predicate through the blind projection.\<close>

lemma blind_projection_leaves:
  assumes "P s" "\<And>h n. P (s\<lparr>sw_held := h, sw_tries := n\<rparr>)" "\<And>r p l b. P (sun_hold r p l b s)"
    and "\<And>r p l b. P (sun_hold r p l b (land e In_Parked s))"
    and "\<And>a f loud n u r. sun_park sk e a (\<lambda>h. sun_hold (f h) None ''warning'' False) loud (land e In_Parked s) = (u, r)
      \<Longrightarrow> P u \<and> P (u\<lparr>sw_tries := n\<rparr>)"
  shows "P (fst (blind_projection sk e cone s))"
proof (cases "sw_noted s = None")
  case True
  show ?thesis
  proof (cases "sw_last_good s")
    case (Some good)
    show ?thesis
    proof (cases "blind_sep sk e (sw_lead s) good")
      case (Inr r)
      obtain sep lead stopped where r: "r = (sep, lead, stopped)"
        by (cases r)
      show ?thesis
        using assms True Some Inr r
        by (simp add: blind_projection_def Let_def split: option.split prod.split bool.split)
    qed (use assms True Some in \<open>simp add: blind_projection_def\<close>)
  qed (use assms True in \<open>simp add: blind_projection_def\<close>)
qed (use assms in \<open>simp add: blind_projection_def\<close>)

lemma same_streak_projection:
  assumes "w_known e At_Gate" "w_known e Under_Lock"
  shows "same_streak s (fst (blind_projection sk e cone s))"
proof (rule blind_projection_leaves)
  fix a f loud n u r
  assume "sun_park sk e a (\<lambda>h. sun_hold (f h) None ''warning'' False) loud (land e In_Parked s) = (u, r)"
  then have "same_streak (land e In_Parked s) u"
    using same_streak_park [OF assms, of "land e In_Parked s" "\<lambda>h. sun_hold (f h) None ''warning'' False" sk a loud] by simp
  then show "same_streak s u \<and> same_streak s (u\<lparr>sw_tries := n\<rparr>)"
    by (simp add: same_streak_def blind_lines_def)
qed (simp_all add: same_streak_refl)

lemma same_streak_daylight: "same_streak s (blind_in_daylight sk e r mins n s)"
  by (simp add: blind_in_daylight_def same_streak_def blind_lines_def split: option.split)

lemma blind_streak:
  "sw_blind_reason (blind sk e r s) \<noteq> None"
  "sw_blind_count (blind sk e r s) = (if sw_blind_reason s = None then 1 else sw_blind_count s + 1)"
  "blind_lines (blind sk e r s) = blind_lines s + (if blind_level (sw_blind_count (blind sk e r s)) = None then 0 else 1)"
proof -
  define t where "t = (if sw_blind_reason s = None then s\<lparr>sw_blind_count := 0, sw_blind_since := w_clock e Blind_Began\<rparr> else s)"
  define n where "n = sw_blind_count t + 1"
  define u where "u = t\<lparr>sw_blind_reason := Some r, sw_blind_count := n\<rparr>"
  define mins where "mins = fmt_fixed 0 ((w_clock e Blind_Said - sw_blind_since u) / 60)"
  define v where "v = (case blind_level n of None \<Rightarrow> u
    | Some level \<Rightarrow> sun_do (Said level False (Blind_Line r (fallback_note u) (if n = 1 then None else Some (mins, n)))) u)"
  have eq: "blind sk e r s = blind_in_daylight sk e r mins n v"
    unfolding blind_def Let_def t_def [symmetric] n_def [symmetric] u_def [symmetric] mins_def [symmetric] v_def [symmetric] ..
  have "sw_blind_reason v = Some r" "sw_blind_count v = n" "blind_lines v = blind_lines s + (if blind_level n = None then 0 else 1)"
    "n = (if sw_blind_reason s = None then 1 else sw_blind_count s + 1)"
    by (simp_all add: v_def u_def t_def n_def blind_lines_def split: option.split)
  then show "sw_blind_reason (blind sk e r s) \<noteq> None"
    "sw_blind_count (blind sk e r s) = (if sw_blind_reason s = None then 1 else sw_blind_count s + 1)"
    "blind_lines (blind sk e r s) = blind_lines s + (if blind_level (sw_blind_count (blind sk e r s)) = None then 0 else 1)"
    using same_streak_daylight [of v sk e r mins n] by (simp_all add: eq same_streak_def)
qed

definition blind_tick :: "sun_env \<Rightarrow> bool" where
  "blind_tick e = (watching e \<and> sees e = None \<and> w_known e At_Gate \<and> w_known e Under_Lock)"

lemma blind_turn:
  assumes "blind_tick e"
  shows "sw_blind_reason (sun_turn sk s e) \<noteq> None"
    "sw_blind_count (sun_turn sk s e) = (if sw_blind_reason s = None then 1 else sw_blind_count s + 1)"
    "blind_lines (sun_turn sk s e) = blind_lines s + (if blind_level (sw_blind_count (sun_turn sk s e)) = None then 0 else 1)"
proof -
  define t where "t = (if sw_unknown_since s \<noteq> None then drop_unknown (s\<lparr>sw_held := None\<rparr>) else s)"
  define u where "u = (if w_connected e then land e In_Position t
    else (if w_back e then land e In_Position else id) (if sun_hands_off e At_Reopen = None then land e In_Reopen (sun_do Reopened t) else t))"
  define r where "r = (if w_connected e \<or> w_back e then Not_Answering else Link_Down)"
  have u: "same_streak s u"
    by (simp add: u_def t_def drop_unknown_def same_streak_def blind_lines_def)
  have tick: "sun_tick sk e s = blind_projection sk e (cone_of e) (blind sk e r u)"
    using assms unfolding blind_tick_def watching_def sun_tick_def t_def [symmetric] Let_def
    by (auto simp: sees_def read_and_judge_def u_def r_def)
  have "same_streak (blind sk e r u) (sun_turn sk s e)"
    using same_streak_projection [of e "blind sk e r u" sk "cone_of e"] assms
    by (auto simp: sun_turn_def tick blind_tick_def split: prod.split)
  then show "sw_blind_reason (sun_turn sk s e) \<noteq> None"
    "sw_blind_count (sun_turn sk s e) = (if sw_blind_reason s = None then 1 else sw_blind_count s + 1)"
    "blind_lines (sun_turn sk s e) = blind_lines s + (if blind_level (sw_blind_count (sun_turn sk s e)) = None then 0 else 1)"
    using u blind_streak [of sk e r u] by (simp_all add: same_streak_def)
qed

text \<open>An outage is never silent and never floods: however the link flaps between down and not answering, a streak
  of \<open>n\<close> blind ticks says one line at its start, one at the tenth tick and one at every thirtieth.\<close>

theorem blind_streak_is_heard:
  assumes "sw_blind_reason s = None" "\<forall>e \<in> set es. blind_tick e"
  shows "blind_lines (run (sun_turn sk) s es) = blind_lines s + spoken (length es)
    \<and> (es \<noteq> [] \<longrightarrow> pu_blind (sun_state alive (run (sun_turn sk) s es)))"
proof -
  have "blind_lines (run (sun_turn sk) s es) = blind_lines s + spoken (length es)
    \<and> (es \<noteq> [] \<longrightarrow> sw_blind_reason (run (sun_turn sk) s es) \<noteq> None \<and> sw_blind_count (run (sun_turn sk) s es) = length es)"
    using assms(2)
  proof (induction es rule: rev_induct)
    case (snoc e es)
    let ?t = "run (sun_turn sk) s es"
    have e: "blind_tick e" and rest: "\<forall>e \<in> set es. blind_tick e"
      using snoc.prems by simp_all
    note IH = snoc.IH [OF rest]
    have "sw_blind_count (sun_turn sk ?t e) = Suc (length es)"
      using IH assms(1) by (cases es) (simp_all add: blind_turn(2) [OF e])
    then show ?case
      using IH blind_turn(1,3) [OF e, of sk ?t] by (simp add: spoken_Suc)
  qed (simp add: spoken_def)
  then show ?thesis
    by (auto simp: sun_state_def)
qed

section \<open>A park another path noted\<close>

definition noting :: "sun_env \<Rightarrow> sun_watch \<Rightarrow> sun_watch \<Rightarrow> bool" where
  "noting e s s' = (sw_noted s' = sw_noted s \<or> (\<exists>a t. w_noted e a = Some t \<and> sw_noted s' = Some t))"

lemma notes_trans: "noting e s t \<Longrightarrow> noting e t u \<Longrightarrow> noting e s u"
  by (auto simp: noting_def)

lemma notes_same: "sw_noted s' = sw_noted s \<Longrightarrow> noting e s s'"
  by (simp add: noting_def)

lemma notes_land [simp]: "noting e s (land e a s)"
  by (auto simp: noting_def land_def note_parked_def split: option.split)

lemma notes_simps [simp]:
  "noting e s (s'\<lparr>sw_held := h\<rparr>) = noting e s s'" "noting e s (s'\<lparr>sw_tries := n\<rparr>) = noting e s s'"
  "noting e s (s'\<lparr>sw_acted := b\<rparr>) = noting e s s'" "noting e s (sun_do x s') = noting e s s'"
  "noting e s (sun_hold r p l b s') = noting e s s'"
  by (auto simp: noting_def)

lemma noted_unknown [simp]: "sw_noted (position_unknown_tick sk e s) = sw_noted s"
  by (auto simp: position_unknown_tick_def Let_def drop_blind_def split: option.split prod.split bool.split)

lemma notes_park:
  assumes "\<And>h t u. noting e t (hold h u) = noting e t u"
  shows "noting e s (fst (sun_park sk e a hold loud s))"
proof -
  have land: "noting e s (land e b t)" if "noting e s t" for b t
    using that notes_land by (rule notes_trans)
  have unknown: "noting e s (position_unknown_tick sk e t)" if "noting e s t" for t
    using that by (simp add: noting_def)
  have "noting e s s"
    by (simp add: noting_def)
  then show ?thesis
    using assms land unknown by (auto simp: sun_park_def Let_def split: option.split park_answer.split)
qed

lemma notes_projection: "noting e s (fst (blind_projection sk e cone s))"
proof (rule blind_projection_leaves)
  fix a f loud n u r
  assume "sun_park sk e a (\<lambda>h. sun_hold (f h) None ''warning'' False) loud (land e In_Parked s) = (u, r)"
  then have "noting e (land e In_Parked s) u"
    using notes_park [of e "\<lambda>h. sun_hold (f h) None ''warning'' False" "land e In_Parked s" sk a loud] by simp
  then have "noting e s u"
    by (rule notes_trans [OF notes_land])
  then show "noting e s u \<and> noting e s (u\<lparr>sw_tries := n\<rparr>)"
    by simp
qed (simp_all, simp_all add: noting_def)

lemma notes_live:
  assumes "sw_noted s = Some t" "w_clock e Read_Began < t"
  shows "noting e s (fst (judge_live sk e cone ra dec s))"
proof -
  define u where "u = land e In_Tracking (remember e ra dec (clear_blind e s))"
  have "sw_noted (remember e ra dec (clear_blind e s)) = sw_noted s"
    using assms by (simp add: remember_def Let_def)
  then have u: "noting e s u"
    unfolding u_def using notes_land notes_trans notes_same by blast
  have park: "noting e s (fst (sun_park sk e a hold loud (land e In_Parked u)))" if "\<And>h t u. noting e t (hold h u) = noting e t u" for a hold loud
    using notes_trans [OF u notes_trans [OF notes_land notes_park [OF that]]] .
  have landed: "noting e s (land e In_Parked u)"
    using u notes_land notes_trans by blast
  show ?thesis
    unfolding judge_live_def Let_def u_def [symmetric]
    using u landed by (auto intro!: park split: option.split sum.split prod.split)
qed

text \<open>The note stands, at the time \<open>t\<close> or later.\<close>

definition parked_since :: "rat \<Rightarrow> sun_watch \<Rightarrow> bool" where
  "parked_since t s = (\<exists>t'. sw_noted s = Some t' \<and> t \<le> t')"

text \<open>A tick whose read, if it has one, began before \<open>t\<close>; the parks noted during it are later.\<close>

definition no_later_read :: "rat \<Rightarrow> sun_env \<Rightarrow> bool" where
  "no_later_read t e = ((sees e \<noteq> None \<longrightarrow> w_clock e Read_Began < t) \<and> (\<forall>a t'. w_noted e a = Some t' \<longrightarrow> t \<le> t'))"

lemma parked_since_notes: "parked_since t s \<Longrightarrow> noting e s s' \<Longrightarrow> no_later_read t e \<Longrightarrow> parked_since t s'"
  by (auto simp: parked_since_def noting_def no_later_read_def)

lemma parked_since_turn:
  assumes "parked_since t s" "no_later_read t e"
  shows "parked_since t (sun_turn sk s e)"
proof -
  obtain t' where t': "sw_noted s = Some t'" "t \<le> t'"
    using assms(1) by (auto simp: parked_since_def)
  define v where "v = (if sw_unknown_since s \<noteq> None then drop_unknown (s\<lparr>sw_held := None\<rparr>) else s)"
  define u where "u = (if w_connected e then v else if sun_hands_off e At_Reopen = None then land e In_Reopen (sun_do Reopened v) else v)"
  have "noting e s v"
    by (simp add: v_def noting_def drop_unknown_def)
  then have "noting e s u"
    using notes_trans [OF _ notes_land] by (auto simp: u_def)
  then have u: "parked_since t u"
    by (rule parked_since_notes [OF assms(1) _ assms(2)])
  then have landed: "parked_since t (land e In_Position u)"
    using parked_since_notes [OF _ notes_land assms(2)] by blast
  have projected: "parked_since t (fst (blind_projection sk e c (blind sk e r w)))" if "parked_since t w" for r w c
    using that by (intro parked_since_notes [OF _ notes_projection assms(2)]) (simp add: parked_since_def)
  have read: "parked_since t (fst (read_and_judge sk e c u))" if "w_connected e \<or> w_back e" for c
  proof (cases "sun_position e")
    case None
    then show ?thesis
      using projected [OF landed] by (simp add: read_and_judge_def)
  next
    case (Some p)
    obtain ra dec where p: "p = (ra, dec)"
      by (cases p)
    have "w_clock e Read_Began < t"
      using assms(2) Some that by (simp add: no_later_read_def sees_def)
    moreover obtain t'' where "sw_noted (land e In_Position u) = Some t''" "t \<le> t''"
      using landed by (auto simp: parked_since_def)
    ultimately have "noting e (land e In_Position u) (fst (judge_live sk e c ra dec (land e In_Position u)))"
      by (intro notes_live [of _ t'']) simp_all
    then show ?thesis
      using parked_since_notes [OF landed _ assms(2)] Some p by (simp add: read_and_judge_def)
  qed
  have still: "parked_since t (stand_down r s)" "parked_since t (position_unknown_tick sk e s)" for r
    using assms(1) by (simp_all add: parked_since_def stand_down_def drop_unknown_def drop_blind_def)
  have "parked_since t (fst (sun_tick sk e s))"
    unfolding sun_tick_def Let_def v_def [symmetric]
    using still read projected [OF u] unfolding u_def by (cases "w_connected e"; cases "sun_hands_off e At_Reopen") simp_all
  then show ?thesis
    by (simp add: sun_turn_def parked_since_def case_prod_unfold)
qed

interpretation parked_notes: lawful "sun_turn sk" "parked_since t" "\<lambda>_. no_later_read t"
  by unfold_locales (rule parked_since_turn)

text \<open>C24. After another path has parked the mount and noted it, the net sends no park on the position it read before,
  whatever happens, until it has a position from a read that began at or after the note; a read that was in flight
  when the park was confirmed does not count.\<close>

theorem noted_park_holds:
  assumes "\<forall>e \<in> set es. no_later_read t e" "no_later_read t e" "sees e = None"
    and "run (sun_turn sk) (note_parked t s) es = s'"
  shows "Park \<notin> set (news (sw_did s') (sw_did (sun_turn sk s' e)))"
proof -
  have "legal_run (\<lambda>_. no_later_read t) (sun_turn sk) s0 es" for s0
    using assms(1) by (induction es arbitrary: s0) simp_all
  moreover have "parked_since t (note_parked t s)"
    by (simp add: parked_since_def note_parked_def)
  ultimately have "parked_since t s'"
    using parked_notes.inv_legal_run assms(4) by blast
  then have "note_before e s' \<noteq> None"
    by (auto simp: note_before_def parked_since_def land_def note_parked_def split: option.split)
  then have "\<not> sun_allowed sk s' e"
    using assms(3) by (simp add: sun_allowed_def closing_def)
  then show ?thesis
    using sun_net.park_iff by blast
qed

text \<open>A coordinate that is infinite passes for a position: the tick raises, the net is not blind, and no park comes.\<close>

lemma infinite_position_is_not_blind:
  assumes "watching e" "sees e = Some (ra, dec)" "\<not> (isfinite ra \<and> isfinite dec)"
  shows "Park \<notin> set (news (sw_did s) (sw_did (sun_turn sk s e))) \<and> \<not> pu_blind (sun_state alive (sun_turn sk s e))
    \<and> last (sw_did (sun_turn sk s e)) = Said ''warning'' False Tick_Failed"
proof -
  define v where "v = (if sw_unknown_since s \<noteq> None then drop_unknown (s\<lparr>sw_held := None\<rparr>) else s)"
  define u where "u = land e In_Position (if w_connected e then v else if sun_hands_off e At_Reopen = None then land e In_Reopen (sun_do Reopened v) else v)"
  have p: "w_connected e \<or> w_back e" "sun_position e = Some (ra, dec)"
    using assms(2) by (auto simp: sees_def split: if_splits)
  have raises: "closest_approach sk ra dec tr now lead = Inl ValueError" for tr now lead
  proof -
    obtain off offs where "sample_offsets lead PROJECTION_STEP_S = off # offs"
      by (cases "sample_offsets lead PROJECTION_STEP_S") (auto simp: sample_offsets_def Let_def)
    then show ?thesis
      using assms(3) by (cases ra; cases dec; cases tr)
        (simp_all add: closest_approach_def angular_sep_def project_pointing_def isfinite_def)
  qed
  have "sun_tick sk e s = judge_live sk e (cone_of e) ra dec u"
    using assms(1) p unfolding watching_def sun_tick_def v_def [symmetric] Let_def
    by (auto simp: read_and_judge_def u_def)
  then have eq: "sun_turn sk s e = sun_do (Said ''warning'' False Tick_Failed) (land e In_Tracking (remember e ra dec (clear_blind e u)))"
    by (simp add: sun_turn_def judge_live_def raises Let_def)
  have "\<not> sun_allowed sk s e"
    using assms(2) by (simp add: sun_allowed_def closing_def raises)
  moreover have "sw_blind_reason (sun_turn sk s e) = None"
    by (simp add: eq remember_def Let_def clear_blind_def drop_blind_def split: option.split)
  ultimately show ?thesis
    using sun_net.park_iff [of s sk e] by (simp add: eq sun_state_def)
qed

section \<open>Concrete ticks\<close>

text \<open>A sky that is a circle: the Sun at 23 h, angles along the equator. Tracking is off, so a tube at 20 h comes to
  20.5 h in half an hour, 37.5 degrees from the Sun.\<close>

definition a_sky :: sky where
  "a_sky = \<lparr>sky_sun = (\<lambda>_. (23, 0)), sky_sep = (\<lambda>ra dec sra sdec. \<bar>ra - sra\<bar> * 15), sky_alt = (\<lambda>_ _ _. 10)\<rparr>"

definition a_tick :: sun_env where
  "a_tick = \<lparr>w_avoid = True, w_cone = Some 40, w_twilight = None, w_site = None, w_tel = True, w_known = (\<lambda>_. True),
     w_connected = True, w_back = True, w_running = (\<lambda>_. False), w_lanes = (\<lambda>_. Some [''capture'']),
     w_position = Some (Fin 20, Fin 0), w_tracking = None, w_parked = Some False, w_park = Took_It,
     w_clock = (\<lambda>_. 100), w_noted = (\<lambda>_. None)\<rparr>"

definition a_dark_tick :: sun_env where
  "a_dark_tick = a_tick\<lparr>w_connected := False, w_back := False, w_position := None, w_clock := (\<lambda>_. 160)\<rparr>"

lemma a_tick_parks:
  "Park \<in> set (sw_did (sun_turn a_sky (new_sun_watch LEAD_TIME_S) a_tick))"
  "sw_last_good (sun_turn a_sky (new_sun_watch LEAD_TIME_S) a_tick) = Some (Fin 20, Fin 0, 100)"
  by code_simp+

lemma a_dark_tick_parks: "Park \<in> set (sw_did (sun_turn a_sky ((new_sun_watch LEAD_TIME_S)\<lparr>sw_last_good := Some (Fin 20, Fin 0, 100)\<rparr>) a_dark_tick))"
  by code_simp

theorem noted_park_holds_witness:
  "Park \<notin> set (news [] (sw_did (sun_turn a_sky (note_parked 150 ((new_sun_watch LEAD_TIME_S)\<lparr>sw_last_good := Some (Fin 20, Fin 0, 100)\<rparr>)) a_dark_tick)))"
  using noted_park_holds [of "[]" 150 a_dark_tick a_sky "(new_sun_watch LEAD_TIME_S)\<lparr>sw_last_good := Some (Fin 20, Fin 0, 100)\<rparr>"]
  by (simp add: no_later_read_def sees_def a_dark_tick_def a_tick_def new_sun_watch_def note_parked_def)

theorem blind_streak_is_heard_witness:
  "blind_lines (run (sun_turn a_sky) (new_sun_watch LEAD_TIME_S) (replicate 90 a_dark_tick)) = 5"
proof -
  have "\<forall>e \<in> set (replicate 90 a_dark_tick). blind_tick e"
    by (simp add: blind_tick_def watching_def sees_def cone_of_def a_dark_tick_def a_tick_def)
  then show ?thesis
    using blind_streak_is_heard [of "new_sun_watch LEAD_TIME_S" "replicate 90 a_dark_tick" a_sky]
    by (simp add: new_sun_watch_def blind_lines_def spoken_def)
qed

theorem projection_is_the_least_witness:
  "\<exists>off. closest_approach a_sky (Fin 20) (Fin 0) True 100 1800 = Inr (45, off)"
proof -
  have sep: "sep_at a_sky 20 0 True 100 x = 45" for x
    by (simp add: sep_at_def a_sky_def)
  have "\<exists>off. off \<in> set (sample_offsets 1800 PROJECTION_STEP_S) \<and> 0 \<le> off \<and> off \<le> 1800
    \<and> closest_approach a_sky (Fin 20) (Fin 0) True 100 1800 = Inr (sep_at a_sky 20 0 True 100 off, off)
    \<and> (\<forall>x \<in> set (sample_offsets 1800 PROJECTION_STEP_S). sep_at a_sky 20 0 True 100 off \<le> sep_at a_sky 20 0 True 100 x)"
    by (rule projection_is_the_least) (simp_all add: sep)
  then show ?thesis
    unfolding sep by blast
qed

end
