(* ===== verification/Dawn_Park.thy ===== *)
theory Dawn_Park
  imports Park_Nets
begin

text \<open>
  The dawn park (\<open>server/astrodeck/dawn_park.py\<close>): once a minute, an idle mount is parked when the Sun has come up to the
  threshold, once a dawn; a guide loop that nobody drives is stopped; the camera is warmed when the night is over.

  The environment of a tick holds the answer of each device call and what the hub, the engine and the clock say at
  each look. Texts of exceptions are kept, since a streak of failures is told apart by them; the rest of a log line is
  its constructor with the numbers it prints.
\<close>

definition FAIL_LOG_EVERY :: nat where "FAIL_LOG_EVERY = 30"
definition PARK_FAILURES_BEFORE_FORCED_REOPEN :: nat where "PARK_FAILURES_BEFORE_FORCED_REOPEN = 2"

definition POSITION_UNKNOWN_STOP_FAILED :: string where
  "POSITION_UNKNOWN_STOP_FAILED = ''the mount's position is unknown, so it was not parked, and it did not confirm a stop of tracking''"

definition park_late_text :: string where
  "park_late_text = ''the mount did not park within 240s''"

definition link_down_text :: "string \<Rightarrow> string" where
  "link_down_text why = ''the mount's link is down and reopening it failed ('' @ why @ '')''"

datatype dawn_hands = Run_Going | Solar_Rig | Busy_With "string list" | No_Mount

datatype dawn_line =
    Inert
  | Rearmed string
  | Dawn_Held string dawn_hands
  | Paused_Run
  | Link_Reopened string
  | Already_Parked string
  | Parking_Unread string string "string option"
  | Parking_It string string
  | Dawn_Failed string "(nat \<times> string) option"
  | Recovered nat
  | State_Unread string bool
  | Dawn_Parked
  | Tracking_Stopped
  | Guiding_Alone string
  | Guide_Stop_Failed string string
  | Warm_Though_Armed string
  | Warm_Failed string
  | Warm_Needless string
  | Warming string

datatype dawn_look = Guide_Look | First_Look | Second_Look
datatype dawn_gate = For_The_Line | Before_Park | In_The_Lock
datatype dawn_clock = Guide_Now | Dawn_Sun | Fail_Began | Fail_Said

record dawn_env =
  d_site :: "(rat \<times> rat) option"
  d_twilight :: "rat option"
  d_avoid :: bool
  d_running :: "dawn_look \<Rightarrow> bool"
  d_paused :: "dawn_look \<Rightarrow> bool"
  d_lanes :: "dawn_look \<Rightarrow> lanes"
  d_tel :: bool
  d_connected :: bool
  d_reopen :: "string option"
  d_known :: "dawn_gate \<Rightarrow> bool"
  d_parked :: "string + bool"
  d_park :: park_answer
  d_tracking :: "bool option"
  d_tracking_again :: "bool option"
  d_limit :: "rat option"
  d_guiding :: bool
  d_guider :: bool
  d_guide_stop :: "string option"
  d_cooler :: bool
  d_armed :: "string option"
  d_warm :: "string + string"
  d_watch :: bool
  d_clock :: "dawn_clock \<Rightarrow> rat"

record dawn_park =
  dp_settled :: bool
  dp_held :: "dawn_hands option"
  dp_warned_no_site :: bool
  dp_alone :: "rat option"
  dp_fail_reason :: "string option"
  dp_fail_count :: nat
  dp_fail_since :: rat
  dp_read_warned :: "string option"
  dp_forced :: bool
  dp_did :: "dawn_line net_step list"

definition new_dawn_park :: dawn_park where
  "new_dawn_park = \<lparr>dp_settled = False, dp_held = None, dp_warned_no_site = False, dp_alone = None, dp_fail_reason = None,
     dp_fail_count = 0, dp_fail_since = 0, dp_read_warned = None, dp_forced = False, dp_did = []\<rparr>"

definition dawn_do :: "dawn_line net_step \<Rightarrow> dawn_park \<Rightarrow> dawn_park" where
  "dawn_do x s = s\<lparr>dp_did := dp_did s @ [x]\<rparr>"

definition alt_text :: "rat \<Rightarrow> string" where
  "alt_text alt = (if alt < 0 then [] else ''+'') @ fmt_fixed 1 alt"

section \<open>Guiding with nobody driving\<close>

definition somebody_is_driving :: "dawn_env \<Rightarrow> bool" where
  "somebody_is_driving e = ((d_running e Guide_Look \<and> \<not> d_paused e Guide_Look) \<or> moving (d_lanes e Guide_Look) \<noteq> [])"

definition limit_min :: "dawn_env \<Rightarrow> rat" where
  "limit_min e = (case d_limit e of None \<Rightarrow> 0 | Some x \<Rightarrow> x)"

definition check_unattended_guiding :: "dawn_env \<Rightarrow> dawn_park \<Rightarrow> dawn_park" where
  "check_unattended_guiding e s =
     (if limit_min e \<le> 0 \<or> \<not> d_guiding e \<or> somebody_is_driving e then s\<lparr>dp_alone := None\<rparr>
      else let now = d_clock e Guide_Now in
        case dp_alone s of
          None \<Rightarrow> s\<lparr>dp_alone := Some now\<rparr>
        | Some since \<Rightarrow>
            if now - since < limit_min e * 60 then s
            else let s = s\<lparr>dp_alone := Some now\<rparr> in
              if \<not> d_guider e then s
              else let s = dawn_do Guide_Off (dawn_do (Said ''warning'' False (Guiding_Alone (fmt_fixed 0 (limit_min e)))) s) in
                case d_guide_stop e of None \<Rightarrow> s
                | Some why \<Rightarrow> dawn_do (Said ''error'' False (Guide_Stop_Failed why (fmt_fixed 0 (limit_min e)))) s)"

section \<open>Failures\<close>

definition dawn_fail :: "dawn_env \<Rightarrow> string \<Rightarrow> dawn_park \<Rightarrow> dawn_park" where
  "dawn_fail e why s = (
     let s = (if Some why \<noteq> dp_fail_reason s
         then s\<lparr>dp_fail_reason := Some why, dp_fail_count := 0, dp_fail_since := d_clock e Fail_Began, dp_forced := False\<rparr> else s);
       n = dp_fail_count s + 1; s = s\<lparr>dp_fail_count := n\<rparr> in
     if n \<noteq> 1 \<and> n mod FAIL_LOG_EVERY \<noteq> 0 then s
     else dawn_do (Alerted ''error'' (Dawn_Failed why
       (if n = 1 then None else Some (n, fmt_fixed 0 ((d_clock e Fail_Said - dp_fail_since s) / 60))))) s)"

definition clear_failure :: "dawn_park \<Rightarrow> dawn_park" where
  "clear_failure s = (if dp_fail_reason s \<noteq> None \<and> 1 < dp_fail_count s
       then dawn_do (Said ''info'' True (Recovered (dp_fail_count s))) s else s)
     \<lparr>dp_fail_reason := None, dp_fail_count := 0, dp_read_warned := None, dp_forced := False\<rparr>"

definition dawn_hold :: "dawn_hands \<Rightarrow> rat \<Rightarrow> dawn_park \<Rightarrow> dawn_park" where
  "dawn_hold why alt s = (if dp_held s = Some why then s
     else dawn_do (Said ''info'' True (Dawn_Held (alt_text alt) why)) (s\<lparr>dp_held := Some why\<rparr>))"

text \<open>Whose rig is it? A paused run is overridden, and said.\<close>

definition dawn_hands_off :: "dawn_env \<Rightarrow> dawn_look \<Rightarrow> dawn_park \<Rightarrow> dawn_park \<times> dawn_hands option" where
  "dawn_hands_off e l s =
     (if d_running e l \<and> \<not> d_paused e l then (s, Some Run_Going)
      else let s = (if d_running e l then dawn_do (Alerted ''warning'' Paused_Run) s else s) in
        (s, if \<not> d_avoid e then Some Solar_Rig
            else if moving (d_lanes e l) \<noteq> [] then Some (Busy_With (moving (d_lanes e l))) else None))"

section \<open>The end of the night\<close>

definition tell_sun_watch :: "dawn_env \<Rightarrow> dawn_park \<Rightarrow> dawn_park" where
  "tell_sun_watch e s = (if d_watch e then dawn_do Told_Watch s else s)"

definition release_cooler :: "dawn_env \<Rightarrow> rat \<Rightarrow> dawn_park \<Rightarrow> dawn_park" where
  "release_cooler e alt s =
     (if \<not> d_cooler e then s
      else let s = (case d_armed e of None \<Rightarrow> s | Some name \<Rightarrow> dawn_do (Said ''info'' True (Warm_Though_Armed name)) s);
             s = dawn_do Warm s in
        case d_warm e of
          Inl why \<Rightarrow> dawn_do (Alerted ''warning'' (Warm_Failed why)) s
        | Inr note \<Rightarrow>
            if note \<noteq> [] then dawn_do (Said ''info'' True (Warm_Needless note)) s
            else if d_armed e = None then dawn_do (Said ''info'' True (Warming (alt_text alt))) s else s)"

definition stop_tracking_instead :: "dawn_env \<Rightarrow> rat \<Rightarrow> dawn_park \<Rightarrow> dawn_park" where
  "stop_tracking_instead e alt s = (
     let (s, tracking) = (if d_tracking e = Some False then (s, Some False)
         else (dawn_do Track_Off (dawn_do Bumped s), d_tracking_again e)) in
     if tracking \<noteq> Some False then dawn_fail e POSITION_UNKNOWN_STOP_FAILED s
     else release_cooler e alt (dawn_do (Alerted ''warning'' Tracking_Stopped) (clear_failure (s\<lparr>dp_settled := True\<rparr>))))"

definition read_parked :: "dawn_env \<Rightarrow> dawn_park \<Rightarrow> dawn_park \<times> bool option" where
  "read_parked e s = (case d_parked e of
     Inr b \<Rightarrow> (s, Some b)
   | Inl why \<Rightarrow> (if dp_read_warned s = Some why then s
         else dawn_do (Alerted ''warning'' (State_Unread why (d_known e For_The_Line))) (s\<lparr>dp_read_warned := Some why\<rparr>), None))"

definition park_or_stop :: "dawn_env \<Rightarrow> rat \<Rightarrow> rat \<Rightarrow> dawn_park \<Rightarrow> dawn_park" where
  "park_or_stop e alt th s = (case read_parked e s of
     (s, Some True) \<Rightarrow> release_cooler e alt (dawn_do (Said ''info'' True (Already_Parked (alt_text alt)))
       (tell_sun_watch e (clear_failure (s\<lparr>dp_settled := True\<rparr>))))
   | (s, parked) \<Rightarrow> (case dawn_hands_off e Second_Look s of
       (s, Some h) \<Rightarrow> dawn_hold h alt s
     | (s, None) \<Rightarrow>
         if \<not> d_known e Before_Park then stop_tracking_instead e alt s
         else let th_text = (if th < 0 then [] else ''+'') @ fmt_fixed 0 th;
                s = (if dp_fail_count s = 0
                  then dawn_do (Said ''info'' True (if parked = None then Parking_Unread (alt_text alt) th_text (dp_read_warned s)
                    else Parking_It (alt_text alt) th_text)) s else s);
                s = dawn_do Bumped s in
           if \<not> d_known e In_The_Lock then stop_tracking_instead e alt s
           else let s = dawn_do Park s in
             case d_park e of
               Too_Late \<Rightarrow> dawn_fail e park_late_text s
             | Refused_It why \<Rightarrow> dawn_fail e why s
             | Took_It \<Rightarrow> release_cooler e alt (dawn_do (Alerted ''warning'' Dawn_Parked)
                 (tell_sun_watch e (clear_failure (s\<lparr>dp_settled := True\<rparr>))))))"

section \<open>The tick\<close>

definition rearm :: "rat \<Rightarrow> dawn_park \<Rightarrow> dawn_park" where
  "rearm alt s = (if dp_settled s then dawn_do (Said ''info'' True (Rearmed (alt_text alt))) s else s)
     \<lparr>dp_settled := False, dp_held := None, dp_fail_reason := None, dp_fail_count := 0, dp_read_warned := None, dp_forced := False\<rparr>"

text \<open>Nobody has the rig: the link, then the park. A mount that claims its link is up and still fails gets one reopen.\<close>

definition dawn_attempt :: "dawn_env \<Rightarrow> rat \<Rightarrow> rat \<Rightarrow> dawn_park \<Rightarrow> dawn_park" where
  "dawn_attempt e alt th s =
     (if \<not> d_tel e then dawn_hold No_Mount alt s
      else if \<not> d_connected e then
        (let s = dawn_do Reopened s in
         case d_reopen e of
           Some why \<Rightarrow> dawn_fail e (link_down_text why) s
         | None \<Rightarrow> park_or_stop e alt th (dawn_do (Alerted ''warning'' (Link_Reopened (alt_text alt))) s))
      else park_or_stop e alt th
        (if PARK_FAILURES_BEFORE_FORCED_REOPEN \<le> dp_fail_count s \<and> \<not> dp_forced s
         then dawn_do Reopened (s\<lparr>dp_forced := True\<rparr>) else s))"

definition dawn_tick :: "sky \<Rightarrow> dawn_park \<Rightarrow> dawn_env \<Rightarrow> dawn_park" where
  "dawn_tick sk s e = (let s = check_unattended_guiding e s in
     case d_site e of
       None \<Rightarrow> if dp_warned_no_site s then s else dawn_do (Said ''info'' False Inert) (s\<lparr>dp_warned_no_site := True\<rparr>)
     | Some (lat, lon) \<Rightarrow>
         let s = s\<lparr>dp_warned_no_site := False\<rparr>; th = park_threshold_deg (d_twilight e); alt = sky_alt sk lat lon (d_clock e Dawn_Sun) in
         if alt < th then rearm alt s
         else if dp_settled s then s
         else case dawn_hands_off e First_Look s of
           (s, Some h) \<Rightarrow> dawn_hold h alt s
         | (s, None) \<Rightarrow> dawn_attempt e alt th s)"

section \<open>When it parks\<close>

text \<open>The Sun at the threshold or above it, at a site that is set.\<close>

definition dawn :: "sky \<Rightarrow> dawn_env \<Rightarrow> bool" where
  "dawn sk e = (case d_site e of None \<Rightarrow> False
     | Some (lat, lon) \<Rightarrow> park_threshold_deg (d_twilight e) \<le> sky_alt sk lat lon (d_clock e Dawn_Sun))"

definition hands_free :: "dawn_env \<Rightarrow> dawn_look \<Rightarrow> bool" where
  "hands_free e l = (\<not> (d_running e l \<and> \<not> d_paused e l) \<and> d_avoid e \<and> moving (d_lanes e l) = [])"

definition dawn_allowed :: "sky \<Rightarrow> dawn_park \<Rightarrow> dawn_env \<Rightarrow> bool" where
  "dawn_allowed sk s e = (dawn sk e \<and> \<not> dp_settled s \<and> hands_free e First_Look \<and> hands_free e Second_Look \<and> d_tel e
     \<and> (d_connected e \<or> d_reopen e = None) \<and> d_parked e \<noteq> Inr True \<and> d_known e Before_Park \<and> d_known e In_The_Lock)"

abbreviation dawn_reports :: "bool \<Rightarrow> dawn_park \<Rightarrow> dawn_park \<Rightarrow> bool" where
  "dawn_reports b s s' \<equiv> reports b (dp_did s) (dp_did s')"

lemma dawn_do_fields [simp]:
  "dp_did (dawn_do x s) = dp_did s @ [x]" "dp_settled (dawn_do x s) = dp_settled s" "dp_held (dawn_do x s) = dp_held s"
  "dp_alone (dawn_do x s) = dp_alone s" "dp_fail_reason (dawn_do x s) = dp_fail_reason s" "dp_fail_count (dawn_do x s) = dp_fail_count s"
  "dp_fail_since (dawn_do x s) = dp_fail_since s" "dp_read_warned (dawn_do x s) = dp_read_warned s" "dp_forced (dawn_do x s) = dp_forced s"
  by (simp_all add: dawn_do_def)

lemma quiet_guiding [simp]: "dawn_reports False s (check_unattended_guiding e s)"
  by (simp add: check_unattended_guiding_def Let_def split: option.split)

lemma quiet_fail [simp]: "dawn_reports False s (dawn_fail e why s)"
  by (simp add: dawn_fail_def Let_def)

lemma quiet_clear_failure [simp]: "dawn_reports False s (clear_failure s)"
  by (simp add: clear_failure_def)

lemma quiet_dawn_hold [simp]: "dawn_reports False s (dawn_hold h alt s)"
  by (simp add: dawn_hold_def)

lemma quiet_hands [simp]: "dawn_reports False s (fst (dawn_hands_off e l s))"
  by (simp add: dawn_hands_off_def)

lemma quiet_tell [simp]: "dawn_reports False s (tell_sun_watch e s)"
  by (simp add: tell_sun_watch_def)

lemma quiet_release [simp]: "dawn_reports False s (release_cooler e alt s)"
  by (simp add: release_cooler_def Let_def split: option.split sum.split)

lemma quiet_settle: "dawn_reports False s (release_cooler e alt (dawn_do x (tell_sun_watch e (clear_failure (s\<lparr>dp_settled := True\<rparr>)))))"
    "dawn_reports False s (release_cooler e alt (dawn_do x (clear_failure (s\<lparr>dp_settled := True\<rparr>))))" if "x \<noteq> Park"
proof -
  let ?s = "s\<lparr>dp_settled := True\<rparr>"
  have s: "dawn_reports False s ?s"
    by simp
  have step: "dawn_reports False t (dawn_do x t)" for t
    using that by simp
  show "dawn_reports False s (release_cooler e alt (dawn_do x (clear_failure ?s)))"
    by (rule reports_trans(1) [OF reports_trans(1) [OF reports_trans(1) [OF s quiet_clear_failure] step] quiet_release])
  show "dawn_reports False s (release_cooler e alt (dawn_do x (tell_sun_watch e (clear_failure ?s))))"
    by (rule reports_trans(1) [OF reports_trans(1) [OF reports_trans(1) [OF reports_trans(1) [OF s quiet_clear_failure] quiet_tell] step] quiet_release])
qed

lemma quiet_stop [simp]: "dawn_reports False s (stop_tracking_instead e alt s)"
proof -
  let ?t = "dawn_do Track_Off (dawn_do Bumped s)"
  have t: "dawn_reports False s ?t"
    by simp
  show ?thesis
    using reports_trans(1) [OF t quiet_fail] reports_trans(1) [OF t quiet_settle(2)] quiet_settle(2) quiet_fail
    by (simp add: stop_tracking_instead_def)
qed

lemma quiet_read [simp]: "dawn_reports False s (fst (read_parked e s))" "snd (read_parked e s) = (case d_parked e of Inl _ \<Rightarrow> None | Inr b \<Rightarrow> Some b)"
  by (simp_all add: read_parked_def split: sum.split)

lemma hands_off_iff [simp]: "snd (dawn_hands_off e l s) = None \<longleftrightarrow> hands_free e l"
  by (simp add: dawn_hands_off_def hands_free_def)

text \<open>From the first gate on, where the mount is not known to be parked and nobody has the rig.\<close>

lemma park_or_stop_free:
  assumes "d_parked e \<noteq> Inr True" "hands_free e Second_Look"
  shows "\<exists>line v. v = (if dp_fail_count (fst (dawn_hands_off e Second_Look (fst (read_parked e s)))) = 0
        then dawn_do (Said ''info'' True line) (fst (dawn_hands_off e Second_Look (fst (read_parked e s))))
        else fst (dawn_hands_off e Second_Look (fst (read_parked e s))))
      \<and> park_or_stop e alt th s = (if \<not> d_known e Before_Park
          then stop_tracking_instead e alt (fst (dawn_hands_off e Second_Look (fst (read_parked e s))))
        else if \<not> d_known e In_The_Lock then stop_tracking_instead e alt (dawn_do Bumped v)
        else case d_park e of
               Too_Late \<Rightarrow> dawn_fail e park_late_text (dawn_do Park (dawn_do Bumped v))
             | Refused_It why \<Rightarrow> dawn_fail e why (dawn_do Park (dawn_do Bumped v))
             | Took_It \<Rightarrow> release_cooler e alt (dawn_do (Alerted ''warning'' Dawn_Parked)
                 (tell_sun_watch e (clear_failure ((dawn_do Park (dawn_do Bumped v))\<lparr>dp_settled := True\<rparr>)))))"
proof -
  define t where "t = fst (read_parked e s)"
  define u where "u = fst (dawn_hands_off e Second_Look t)"
  have h: "dawn_hands_off e Second_Look t = (u, None)"
    using assms(2) hands_off_iff [of e Second_Look t] by (cases "dawn_hands_off e Second_Look t") (auto simp: u_def)
  define line where "line = (if snd (read_parked e s) = None then Parking_Unread (alt_text alt) ((if th < 0 then [] else ''+'') @ fmt_fixed 0 th) (dp_read_warned u)
    else Parking_It (alt_text alt) ((if th < 0 then [] else ''+'') @ fmt_fixed 0 th))"
  show ?thesis
    unfolding t_def [symmetric] u_def [symmetric]
    using assms(1) h by (intro exI [of _ line], cases "d_parked e")
      (auto simp: park_or_stop_def read_parked_def t_def line_def Let_def split: bool.splits park_answer.split)
qed

lemma park_or_stop_reports:
  "dawn_reports (d_parked e \<noteq> Inr True \<and> hands_free e Second_Look \<and> d_known e Before_Park \<and> d_known e In_The_Lock)
     s (park_or_stop e alt th s)"
proof (cases "d_parked e = Inr True")
  case True
  then show ?thesis
    using reports_trans(1) [OF quiet_read(1) quiet_settle(1)] by (simp add: park_or_stop_def read_parked_def quiet_settle(1))
next
  case False
  define t where "t = fst (read_parked e s)"
  define u where "u = fst (dawn_hands_off e Second_Look t)"
  have t: "dawn_reports False s t"
    by (simp add: t_def)
  then have u: "dawn_reports False s u"
    unfolding u_def by (rule reports_trans(1) [OF _ quiet_hands])
  show ?thesis
  proof (cases "hands_free e Second_Look")
    case held: False
    then obtain h where h: "dawn_hands_off e Second_Look t = (u, Some h)"
      using hands_off_iff [of e Second_Look t] by (cases "dawn_hands_off e Second_Look t") (auto simp: u_def)
    have eq: "park_or_stop e alt th s = dawn_hold h alt u"
      using False h by (cases "d_parked e") (auto simp: park_or_stop_def read_parked_def t_def split: bool.splits)
    show ?thesis
      unfolding eq using held reports_trans(1) [OF u quiet_dawn_hold] by simp
  next
    case free: True
    from park_or_stop_free [OF False free, where s = s and alt = alt and th = th, folded t_def, folded u_def] obtain line v where
      v_def: "v = (if dp_fail_count u = 0 then dawn_do (Said ''info'' True line) u else u)" and
      eq: "park_or_stop e alt th s = (if \<not> d_known e Before_Park then stop_tracking_instead e alt u
        else if \<not> d_known e In_The_Lock then stop_tracking_instead e alt (dawn_do Bumped v)
        else case d_park e of
               Too_Late \<Rightarrow> dawn_fail e park_late_text (dawn_do Park (dawn_do Bumped v))
             | Refused_It why \<Rightarrow> dawn_fail e why (dawn_do Park (dawn_do Bumped v))
             | Took_It \<Rightarrow> release_cooler e alt (dawn_do (Alerted ''warning'' Dawn_Parked)
                 (tell_sun_watch e (clear_failure ((dawn_do Park (dawn_do Bumped v))\<lparr>dp_settled := True\<rparr>)))))"
      by (elim exE conjE) (rule that)
    have v: "dawn_reports False s v"
      by (rule reports_trans(1) [OF u]) (simp add: v_def)
    have bumped: "dawn_reports False s (dawn_do Bumped v)"
      by (rule reports_trans(1) [OF v]) simp
    have "dawn_reports True v (dawn_do Park (dawn_do Bumped v))"
      using reports_park [of "[]" "dp_did v"] by simp
    then have parked: "dawn_reports True s (dawn_do Park (dawn_do Bumped v))"
      by (rule reports_trans(2) [OF v])
    show ?thesis
      unfolding eq using False free reports_trans(1) [OF u quiet_stop] reports_trans(1) [OF bumped quiet_stop]
        reports_trans(1) [OF parked quiet_fail] reports_trans(1) [OF parked quiet_settle(1)]
      by (simp split: park_answer.split)
  qed
qed

lemma guiding_settled [simp]: "dp_settled (check_unattended_guiding e s) = dp_settled s"
  by (simp add: check_unattended_guiding_def Let_def split: option.split)

lemma dawn_tick_awake:
  assumes "d_site e = Some (lat, lon)" "park_threshold_deg (d_twilight e) \<le> sky_alt sk lat lon (d_clock e Dawn_Sun)" "\<not> dp_settled s"
  shows "dawn_tick sk s e = (case dawn_hands_off e First_Look ((check_unattended_guiding e s)\<lparr>dp_warned_no_site := False\<rparr>) of
      (s, Some h) \<Rightarrow> dawn_hold h (sky_alt sk lat lon (d_clock e Dawn_Sun)) s
    | (s, None) \<Rightarrow> dawn_attempt e (sky_alt sk lat lon (d_clock e Dawn_Sun)) (park_threshold_deg (d_twilight e)) s)"
  using assms by (simp add: dawn_tick_def Let_def not_less [symmetric])

lemma dawn_tick_reports: "dawn_reports (dawn_allowed sk s e) s (dawn_tick sk s e)"
proof -
  define g where "g = check_unattended_guiding e s"
  have settled: "dp_settled g = dp_settled s"
    by (simp add: g_def check_unattended_guiding_def Let_def split: option.split)
  have g: "dawn_reports False s g"
    by (simp add: g_def)
  have "dawn_reports (dawn_allowed sk s e) g (dawn_tick sk s e)"
  proof (cases "d_site e")
    case None
    then show ?thesis
      by (simp add: dawn_tick_def g_def [symmetric] dawn_allowed_def dawn_def)
  next
    case (Some site)
    obtain lat lon where site: "site = (lat, lon)"
      by (cases site)
    define w where "w = g\<lparr>dp_warned_no_site := False\<rparr>"
    define th where "th = park_threshold_deg (d_twilight e)"
    define alt where "alt = sky_alt sk lat lon (d_clock e Dawn_Sun)"
    have w: "dp_did w = dp_did g" "dp_settled w = dp_settled s"
      by (simp_all add: w_def settled)
    define t where "t = fst (dawn_hands_off e First_Look w)"
    have t: "dawn_reports False g t"
      using quiet_hands [of w] by (simp add: t_def w(1) [symmetric] del: w(1))
    have dawn: "dawn sk e \<longleftrightarrow> th \<le> alt"
      by (simp add: dawn_def Some site th_def alt_def)
    have rearmed: "dawn_reports False g (rearm alt w)"
      by (simp add: rearm_def w)
    show ?thesis
    proof (cases "th \<le> alt \<and> \<not> dp_settled s")
      case False
      then have "dawn_tick sk s e = (if alt < th then rearm alt w else w)"
        using Some site w(2) by (auto simp: dawn_tick_def g_def [symmetric] w_def [symmetric] th_def [symmetric] alt_def [symmetric] Let_def)
      then show ?thesis
        using False rearmed w(1) by (auto simp: dawn_allowed_def dawn)
    next
      case True
      have awake: "dawn_tick sk s e = (case dawn_hands_off e First_Look w of (s, Some h) \<Rightarrow> dawn_hold h alt s
          | (s, None) \<Rightarrow> dawn_attempt e alt th s)"
        using dawn_tick_awake [of e lat lon sk s] True Some site settled by (simp add: w_def th_def alt_def g_def)
      have reopened: "dawn_reports False g (dawn_do Reopened t)"
        by (rule reports_trans(1) [OF t]) simp
      have linked: "dawn_reports False g (dawn_do (Alerted l x) (dawn_do Reopened t))" for l x
        by (rule reports_trans(1) [OF t]) simp
      have forced: "dawn_reports False g (if b then dawn_do Reopened (t\<lparr>dp_forced := True\<rparr>) else t)" for b
        by (rule reports_trans(1) [OF t]) simp
      show ?thesis
      proof (cases "hands_free e First_Look")
        case False
        then obtain h where "dawn_hands_off e First_Look w = (t, Some h)"
          using hands_off_iff [of e First_Look w] by (cases "dawn_hands_off e First_Look w") (auto simp: t_def)
        then show ?thesis
          using False reports_trans(1) [OF t quiet_dawn_hold] awake by (simp add: dawn_allowed_def)
      next
        case free: True
        then have "dawn_hands_off e First_Look w = (t, None)"
          using hands_off_iff [of e First_Look w] by (cases "dawn_hands_off e First_Look w") (auto simp: t_def)
        then have eq: "dawn_tick sk s e = dawn_attempt e alt th t"
          using awake by simp
        have allowed: "dawn_allowed sk s e = (d_tel e \<and> (d_connected e \<or> d_reopen e = None) \<and> d_parked e \<noteq> Inr True
            \<and> hands_free e Second_Look \<and> d_known e Before_Park \<and> d_known e In_The_Lock)"
          using True free dawn by (auto simp: dawn_allowed_def)
        show ?thesis
          unfolding eq allowed dawn_attempt_def Let_def using reports_trans(1) [OF t quiet_dawn_hold] reports_trans(1) [OF reopened quiet_fail]
            reports_trans(2) [OF linked park_or_stop_reports] reports_trans(2) [OF forced park_or_stop_reports]
          by (simp split: option.split)
      qed
    qed
  qed
  then show ?thesis
    by (rule reports_trans(2) [OF g])
qed

interpretation dawn_net: parking_net "dawn_tick sk" dp_did "dawn_allowed sk"
  by unfold_locales (rule dawn_tick_reports)

text \<open>C25. The dawn park parks in exactly these ticks: the Sun is at the threshold of a site that is set, this dawn is
  not settled, nobody has the rig at the two looks (a paused run is nobody), the mount is there, its link is up or came
  back, it does not say it is parked, and the position is known before the command and in the lock. The command stands
  right behind the bump of the motion fence.\<close>

theorem dawn_parks_exactly_when:
  "(Park \<in> set (news (dp_did s) (dp_did (dawn_tick sk s e))) \<longleftrightarrow>
      dawn sk e \<and> \<not> dp_settled s \<and> hands_free e First_Look \<and> hands_free e Second_Look \<and> d_tel e
      \<and> (d_connected e \<or> d_reopen e = None) \<and> d_parked e \<noteq> Inr True \<and> d_known e Before_Park \<and> d_known e In_The_Lock)
    \<and> fenced (news (dp_did s) (dp_did (dawn_tick sk s e)))"
  using dawn_net.park_iff [of s sk e] dawn_tick_reports [of sk s e] by (auto simp: dawn_allowed_def reports_def)

section \<open>Once a dawn\<close>

text \<open>The tick sees no Sun below the threshold.\<close>

definition no_night :: "sky \<Rightarrow> dawn_env \<Rightarrow> bool" where
  "no_night sk e = (case d_site e of None \<Rightarrow> True
     | Some (lat, lon) \<Rightarrow> park_threshold_deg (d_twilight e) \<le> sky_alt sk lat lon (d_clock e Dawn_Sun))"

text \<open>Steps on the mount and the camera.\<close>

definition rig_steps :: "dawn_park \<Rightarrow> dawn_line net_step list" where
  "rig_steps s = filter (\<lambda>x. x \<in> {Reopened, Bumped, Park, Track_Off, Warm, Told_Watch}) (dp_did s)"

lemma settled_tick:
  assumes "dp_settled s" "no_night sk e"
  shows "dp_settled (dawn_tick sk s e)" "rig_steps (dawn_tick sk s e) = rig_steps s"
proof -
  define g where "g = check_unattended_guiding e s"
  have g: "dp_settled g" "rig_steps g = rig_steps s"
    using assms(1) by (simp_all add: g_def check_unattended_guiding_def Let_def rig_steps_def split: option.split)
  have "dawn_tick sk s e = (case d_site e of
      None \<Rightarrow> if dp_warned_no_site g then g else dawn_do (Said ''info'' False Inert) (g\<lparr>dp_warned_no_site := True\<rparr>)
    | Some _ \<Rightarrow> g\<lparr>dp_warned_no_site := False\<rparr>)"
    using assms(2) g(1) by (auto simp: dawn_tick_def g_def [symmetric] no_night_def Let_def split: option.split prod.split)
  then show "dp_settled (dawn_tick sk s e)" "rig_steps (dawn_tick sk s e) = rig_steps s"
    using g by (auto simp: rig_steps_def split: option.split)
qed

lemma settled_run:
  "dp_settled s \<Longrightarrow> \<forall>e \<in> set es. no_night sk e \<Longrightarrow> dp_settled (run (dawn_tick sk) s es) \<and> rig_steps (run (dawn_tick sk) s es) = rig_steps s"
  by (induction es arbitrary: s) (simp_all add: settled_tick)

lemma dawn_settles:
  assumes "dawn_allowed sk s e" "d_park e = Took_It"
  shows "dp_settled (dawn_tick sk s e)"
proof -
  obtain lat lon where site: "d_site e = Some (lat, lon)"
    using assms(1) by (auto simp: dawn_allowed_def dawn_def split: option.splits)
  have released: "dp_settled (release_cooler e alt t) = dp_settled t" for alt t
    by (simp add: release_cooler_def Let_def split: option.split sum.split)
  have parked: "dp_settled (park_or_stop e alt th t)" for alt th t
    using park_or_stop_free [of e t alt th] assms
    by (auto simp: dawn_allowed_def released tell_sun_watch_def clear_failure_def)
  define w where "w = (check_unattended_guiding e s)\<lparr>dp_warned_no_site := False\<rparr>"
  obtain v where "dawn_hands_off e First_Look w = (v, None)"
    using assms(1) hands_off_iff [of e First_Look w] by (cases "dawn_hands_off e First_Look w") (auto simp: dawn_allowed_def)
  then have "dawn_tick sk s e = dawn_attempt e (sky_alt sk lat lon (d_clock e Dawn_Sun)) (park_threshold_deg (d_twilight e)) v"
    using dawn_tick_awake [OF site, of sk s, folded w_def] assms(1) site by (simp add: dawn_allowed_def dawn_def)
  then show ?thesis
    using assms(1) by (auto simp: dawn_attempt_def dawn_allowed_def Let_def parked)
qed

text \<open>C26. Once a dawn: after a park that the mount took, and until a tick sees the Sun below the threshold, the net
  sends nothing to the mount or the camera again, also when somebody unparks the mount or the run is paused.\<close>

theorem parks_once_a_dawn:
  assumes "Park \<in> set (news (dp_did s) (dp_did (dawn_tick sk s e)))" "d_park e = Took_It" "\<forall>e \<in> set es. no_night sk e"
  shows "rig_steps (run (dawn_tick sk) s (e # es)) = rig_steps (dawn_tick sk s e)"
proof -
  have "dp_settled (dawn_tick sk s e)"
    using assms(1,2) dawn_net.park_iff [of s sk e] dawn_settles by blast
  then show ?thesis
    using settled_run assms(3) by simp
qed

section \<open>A failing net stays legible\<close>

text \<open>The mount refuses the park with \<open>why\<close>, everything else is in order, and no run is there.\<close>

definition refuses :: "sky \<Rightarrow> string \<Rightarrow> dawn_env \<Rightarrow> bool" where
  "refuses sk why e = (dawn sk e \<and> d_tel e \<and> d_connected e \<and> d_parked e \<noteq> Inr True \<and> d_known e Before_Park \<and> d_known e In_The_Lock
     \<and> d_park e = Refused_It why \<and> (\<forall>l \<in> {First_Look, Second_Look}. hands_free e l \<and> \<not> d_running e l))"

definition is_failure_line :: "dawn_line net_step \<Rightarrow> bool" where
  "is_failure_line x = (case x of Alerted level _ \<Rightarrow> level = ''error'' | _ \<Rightarrow> False)"

definition failure_lines :: "dawn_park \<Rightarrow> nat" where
  "failure_lines s = length (filter is_failure_line (dp_did s))"

definition reopens :: "dawn_park \<Rightarrow> nat" where
  "reopens s = length (filter (\<lambda>x. x = Reopened) (dp_did s))"

text \<open>What a streak of failures is told by.\<close>

definition vitals :: "dawn_park \<Rightarrow> bool \<times> string option \<times> nat \<times> bool \<times> nat \<times> nat" where
  "vitals s = (dp_settled s, dp_fail_reason s, dp_fail_count s, dp_forced s, failure_lines s, reopens s)"

lemma quiet_vitals:
  assumes "\<not> is_failure_line x" "x \<noteq> Reopened"
  shows "vitals (dawn_do x s) = vitals s"
  using assms by (simp add: vitals_def failure_lines_def reopens_def)

lemma vitals_fields:
  "vitals (s\<lparr>dp_warned_no_site := a\<rparr>) = vitals s" "vitals (s\<lparr>dp_read_warned := b\<rparr>) = vitals s" "vitals (s\<lparr>dp_alone := c\<rparr>) = vitals s"
  by (simp_all add: vitals_def failure_lines_def reopens_def)

lemma guiding_vitals: "vitals (check_unattended_guiding e s) = vitals s"
  by (simp add: check_unattended_guiding_def Let_def quiet_vitals is_failure_line_def vitals_fields split: option.split)

lemma refused_park:
  assumes "refuses sk why e"
  shows "\<exists>v. park_or_stop e alt th s = dawn_fail e why v \<and> vitals v = vitals s"
proof -
  define t where "t = fst (read_parked e s)"
  have t: "vitals t = vitals s"
    by (simp add: t_def read_parked_def quiet_vitals is_failure_line_def vitals_fields split: sum.split)
  have free: "hands_free e Second_Look" "\<not> d_running e Second_Look" and parked: "d_parked e \<noteq> Inr True"
    using assms by (simp_all add: refuses_def)
  have hands: "dawn_hands_off e Second_Look t = (t, None)"
    using free by (simp add: dawn_hands_off_def hands_free_def)
  from park_or_stop_free [OF parked free(1), where s = s and alt = alt and th = th, folded t_def, unfolded hands fst_conv]
  obtain line v where v: "v = (if dp_fail_count t = 0 then dawn_do (Said ''info'' True line) t else t)"
    and eq: "park_or_stop e alt th s = dawn_fail e why (dawn_do Park (dawn_do Bumped v))"
    using assms by (auto simp: refuses_def)
  have "vitals (dawn_do Park (dawn_do Bumped v)) = vitals s"
    by (simp add: v t quiet_vitals is_failure_line_def)
  then show ?thesis
    using eq by blast
qed

text \<open>After \<open>k\<close> refusals in a row, with the lines and reopens counted from \<open>n\<close> and \<open>r\<close>.\<close>

definition streak :: "string \<Rightarrow> nat \<Rightarrow> nat \<Rightarrow> nat \<Rightarrow> bool \<times> string option \<times> nat \<times> bool \<times> nat \<times> nat" where
  "streak why n r k = (False, if k = 0 then None else Some why, k, 3 \<le> k,
     n + (if k = 0 then 0 else 1 + k div 30), r + (if 3 \<le> k then 1 else 0))"

lemma refused_fail:
  assumes "vitals v = (False, if k = 0 then None else Some why, k, 2 \<le> k, n + (if k = 0 then 0 else 1 + k div 30), r + (if 2 \<le> k then 1 else 0))"
  shows "vitals (dawn_fail e why v) = streak why n r (Suc k)"
proof -
  have "Suc k div 30 = (if Suc k mod 30 = 0 then Suc (k div 30) else k div 30)"
    by (rule div_Suc)
  then show ?thesis
    using assms by (cases k) (auto simp: dawn_fail_def Let_def streak_def vitals_def failure_lines_def reopens_def is_failure_line_def FAIL_LOG_EVERY_def)
qed

lemma refused_tick:
  assumes "refuses sk why e" "vitals s = streak why n r k"
  shows "vitals (dawn_tick sk s e) = streak why n r (Suc k)"
proof -
  obtain lat lon where site: "d_site e = Some (lat, lon)"
    using assms(1) by (auto simp: refuses_def dawn_def split: option.splits)
  define w where "w = (check_unattended_guiding e s)\<lparr>dp_warned_no_site := False\<rparr>"
  define alt where "alt = sky_alt sk lat lon (d_clock e Dawn_Sun)"
  define th where "th = park_threshold_deg (d_twilight e)"
  define u where "u = (if 2 \<le> dp_fail_count w \<and> \<not> dp_forced w then dawn_do Reopened (w\<lparr>dp_forced := True\<rparr>) else w)"
  have w: "vitals w = streak why n r k"
    by (simp add: w_def vitals_fields guiding_vitals assms(2))
  have "dawn_hands_off e First_Look w = (w, None)"
    using assms(1) by (simp add: refuses_def dawn_hands_off_def hands_free_def)
  then have "dawn_tick sk s e = dawn_attempt e alt th w"
    using dawn_tick_awake [OF site, of sk s, folded w_def] assms site
    by (simp add: refuses_def dawn_def alt_def th_def streak_def vitals_def)
  also have "\<dots> = park_or_stop e alt th u"
    using assms(1) by (simp add: dawn_attempt_def refuses_def u_def PARK_FAILURES_BEFORE_FORCED_REOPEN_def)
  finally obtain v where "dawn_tick sk s e = dawn_fail e why v" "vitals v = vitals u"
    using refused_park [OF assms(1)] by metis
  moreover have "vitals u = (False, if k = 0 then None else Some why, k, 2 \<le> k, n + (if k = 0 then 0 else 1 + k div 30), r + (if 2 \<le> k then 1 else 0))"
    using w by (auto simp: u_def vitals_def streak_def failure_lines_def reopens_def is_failure_line_def)
  ultimately show ?thesis
    using refused_fail [of v k why n r e] by simp
qed

lemma refused_run:
  "\<forall>e \<in> set es. refuses sk why e \<Longrightarrow> vitals s = streak why n r k \<Longrightarrow> vitals (run (dawn_tick sk) s es) = streak why n r (k + length es)"
proof (induction es arbitrary: s k)
  case (Cons e es)
  then show ?case
    using refused_tick [of sk why e s n r k] by simp
qed simp

text \<open>C27. A mount that refuses every park with the same words is told by one failure line and one more at each thirtieth
  refusal, not by one a minute, and its link is reopened exactly once, at the third refusal.\<close>

theorem failing_streak_is_legible:
  assumes "\<forall>e \<in> set es. refuses sk why e" "es \<noteq> []" "\<not> dp_settled s" "dp_fail_reason s = None" "dp_fail_count s = 0" "\<not> dp_forced s"
  shows "failure_lines (run (dawn_tick sk) s es) = failure_lines s + 1 + length es div 30
    \<and> reopens (run (dawn_tick sk) s es) = reopens s + (if 3 \<le> length es then 1 else 0)"
proof -
  have "vitals s = streak why (failure_lines s) (reopens s) 0"
    using assms by (simp add: vitals_def streak_def)
  from refused_run [OF assms(1) this] show ?thesis
    using assms(2) by (simp add: vitals_def streak_def)
qed

section \<open>A guide loop that nobody drives\<close>

definition left_alone :: "dawn_env \<Rightarrow> bool" where
  "left_alone e = (0 < limit_min e \<and> d_guiding e \<and> \<not> somebody_is_driving e)"

lemma guiding_fields: "dp_alone (dawn_tick sk s e) = dp_alone (check_unattended_guiding e s)"
  "filter (\<lambda>x. x = Guide_Off) (dp_did (dawn_tick sk s e)) = filter (\<lambda>x. x = Guide_Off) (dp_did (check_unattended_guiding e s))"
proof -
  define g where "g = check_unattended_guiding e s"
  define same where "same s' = (dp_alone s' = dp_alone g \<and> filter (\<lambda>x. x = Guide_Off) (dp_did s') = filter (\<lambda>x. x = Guide_Off) (dp_did g))" for s' :: dawn_park
  have base: "same g"
    by (simp add: same_def)
  have step: "same (dawn_do x t) = same t" if "x \<noteq> Guide_Off" for x t
    using that by (simp add: same_def)
  have upd: "same (t\<lparr>dp_settled := a\<rparr>) = same t" "same (t\<lparr>dp_held := b\<rparr>) = same t" "same (t\<lparr>dp_warned_no_site := c\<rparr>) = same t"
    "same (t\<lparr>dp_fail_reason := d\<rparr>) = same t" "same (t\<lparr>dp_fail_count := n\<rparr>) = same t" "same (t\<lparr>dp_fail_since := x\<rparr>) = same t"
    "same (t\<lparr>dp_read_warned := w\<rparr>) = same t" "same (t\<lparr>dp_forced := f\<rparr>) = same t" for t a b c d n x w f
    by (simp_all add: same_def)
  have fail: "same (dawn_fail e why t) = same t" for why t
    by (simp add: dawn_fail_def Let_def step upd)
  have clear: "same (clear_failure t) = same t" for t
    by (simp add: clear_failure_def step upd)
  have hold: "same (dawn_hold h alt t) = same t" for h alt t
    by (simp add: dawn_hold_def step upd)
  have hands: "same (fst (dawn_hands_off e l t)) = same t" for l t
    by (simp add: dawn_hands_off_def step)
  have tell: "same (tell_sun_watch e t) = same t" for t
    by (simp add: tell_sun_watch_def step)
  have release: "same (release_cooler e alt t) = same t" for alt t
    by (simp add: release_cooler_def Let_def step split: option.split sum.split)
  have stop: "same (stop_tracking_instead e alt t) = same t" for alt t
    by (simp add: stop_tracking_instead_def fail release step clear upd)
  have read: "same (fst (read_parked e t)) = same t" for t
    by (simp add: read_parked_def step upd split: sum.split)
  have park: "same (park_or_stop e alt th t)" if "same t" for alt th t
  proof -
    obtain u p where r: "read_parked e t = (u, p)"
      by fastforce
    obtain v h where l: "dawn_hands_off e Second_Look u = (v, h)"
      by fastforce
    have "same u" "same v"
      using that read [of t] hands [of Second_Look u] r l by simp_all
    then show ?thesis
      by (auto simp: park_or_stop_def r l Let_def release step tell clear upd hold stop fail split: option.split bool.split park_answer.split)
  qed
  have attempt: "same (dawn_attempt e alt th t)" if "same t" for alt th t
    using that by (auto simp: dawn_attempt_def Let_def hold fail step upd intro!: park split: option.split)
  have "same (dawn_tick sk s e)"
  proof (cases "d_site e")
    case (Some site)
    obtain lat lon where site: "site = (lat, lon)"
      by (cases site)
    obtain v h where l: "dawn_hands_off e First_Look (g\<lparr>dp_warned_no_site := False\<rparr>) = (v, h)"
      by fastforce
    have "same v"
      using hands [of First_Look "g\<lparr>dp_warned_no_site := False\<rparr>"] l base by (simp add: upd)
    then show ?thesis
      using base by (auto simp: dawn_tick_def g_def [symmetric] Some site Let_def rearm_def step upd l hold
          intro!: attempt split: option.split)
  qed (use base in \<open>simp add: dawn_tick_def g_def [symmetric] Let_def step upd\<close>)
  then show "dp_alone (dawn_tick sk s e) = dp_alone (check_unattended_guiding e s)"
    "filter (\<lambda>x. x = Guide_Off) (dp_did (dawn_tick sk s e)) = filter (\<lambda>x. x = Guide_Off) (dp_did (check_unattended_guiding e s))"
    by (simp_all add: same_def g_def)
qed

lemma alone_since:
  assumes "dp_alone (run (dawn_tick sk) new_dawn_park es) = Some t"
  shows "\<exists>xs z ys. es = xs @ z # ys \<and> d_clock z Guide_Now = t \<and> (\<forall>e \<in> set (z # ys). left_alone e)"
  using assms
proof (induction es arbitrary: t rule: rev_induct)
  case (snoc e es)
  let ?s = "run (dawn_tick sk) new_dawn_park es"
  have alone: "left_alone e"
    using snoc.prems by (auto simp: guiding_fields check_unattended_guiding_def left_alone_def not_le split: if_splits)
  show ?case
  proof (cases "d_clock e Guide_Now = t")
    case True
    then show ?thesis
      using alone by (intro exI [of _ es] exI [of _ e] exI [of _ "[]"]) simp
  next
    case False
    then have "dp_alone ?s = Some t"
      using snoc.prems by (auto simp: guiding_fields check_unattended_guiding_def Let_def split: if_splits option.splits)
    from snoc.IH [OF this] obtain xs z ys where "es = xs @ z # ys" "d_clock z Guide_Now = t" "\<forall>e \<in> set (z # ys). left_alone e"
      by blast
    then show ?thesis
      using alone by (intro exI [of _ xs] exI [of _ z] exI [of _ "ys @ [e]"]) simp
  qed
qed (simp add: new_dawn_park_def)

text \<open>A guide loop is stopped only when it was left alone for the whole of the limit: the stop comes at the end of
  an unbroken row of ticks, each with the loop closed, no run that runs and no lane that moves the mount, and the first
  of the row is at least the limit back.\<close>

theorem stopped_only_when_left_alone:
  assumes "run (dawn_tick sk) new_dawn_park es = s" "Guide_Off \<in> set (news (dp_did s) (dp_did (dawn_tick sk s e)))"
  shows "\<exists>xs z ys. es = xs @ z # ys \<and> (\<forall>x \<in> set (z # ys @ [e]). left_alone x)
    \<and> limit_min e * 60 \<le> d_clock e Guide_Now - d_clock z Guide_Now"
proof -
  obtain new where new: "dp_did (dawn_tick sk s e) = dp_did s @ new"
    using dawn_tick_reports [of sk s e] by (auto simp: reports_def)
  have "filter (\<lambda>x. x = Guide_Off) (dp_did (dawn_tick sk s e)) \<noteq> filter (\<lambda>x. x = Guide_Off) (dp_did s)"
    using assms(2) by (auto simp: new filter_empty_conv)
  then have changed: "filter (\<lambda>x. x = Guide_Off) (dp_did (check_unattended_guiding e s)) \<noteq> filter (\<lambda>x. x = Guide_Off) (dp_did s)"
    by (simp add: guiding_fields)
  then obtain t where t: "dp_alone s = Some t" "limit_min e * 60 \<le> d_clock e Guide_Now - t" "left_alone e"
    by (cases "dp_alone s") (auto simp: check_unattended_guiding_def Let_def left_alone_def not_le not_less split: if_splits)
  have "dp_alone (run (dawn_tick sk) new_dawn_park es) = Some t"
    using t(1) assms(1) by simp
  from alone_since [OF this] obtain xs z ys where "es = xs @ z # ys" "d_clock z Guide_Now = t" "\<forall>e \<in> set (z # ys). left_alone e"
    by blast
  then show ?thesis
    using t(2,3) by (intro exI [of _ xs] exI [of _ z] exI [of _ ys]) auto
qed

section \<open>Concrete ticks\<close>

definition morning_sky :: sky where
  "morning_sky = \<lparr>sky_sun = (\<lambda>_. (23, 0)), sky_sep = (\<lambda>_ _ _ _. 90), sky_alt = (\<lambda>_ _ _. -5)\<rparr>"

definition a_dawn :: dawn_env where
  "a_dawn = \<lparr>d_site = Some (50, 8), d_twilight = None, d_avoid = True, d_running = (\<lambda>_. False), d_paused = (\<lambda>_. False),
     d_lanes = (\<lambda>_. Some [''capture'']), d_tel = True, d_connected = True, d_reopen = None, d_known = (\<lambda>_. True),
     d_parked = Inr False, d_park = Took_It, d_tracking = Some True, d_tracking_again = Some False, d_limit = None,
     d_guiding = False, d_guider = True, d_guide_stop = None, d_cooler = True, d_armed = None, d_warm = Inr [], d_watch = True,
     d_clock = (\<lambda>_. 600)\<rparr>"

definition a_refusal :: dawn_env where
  "a_refusal = a_dawn\<lparr>d_park := Refused_It ''no answer''\<rparr>"

text \<open>No site, and a guide loop that is closed at the time \<open>t\<close>.\<close>

definition a_guide_loop :: "rat \<Rightarrow> dawn_env" where
  "a_guide_loop t = a_dawn\<lparr>d_site := None, d_guiding := True, d_limit := Some 30, d_clock := (\<lambda>_. t)\<rparr>"

text \<open>A paused run beside a mount that refuses the park: one failure line, and two warnings of the pause at every tick.\<close>

lemma paused_run_is_told_at_every_look:
  defines "e \<equiv> a_refusal\<lparr>d_running := (\<lambda>_. True), d_paused := (\<lambda>_. True)\<rparr>"
  shows "length (filter (\<lambda>x. case x of Alerted _ Paused_Run \<Rightarrow> True | _ \<Rightarrow> False) (dp_did (run (dawn_tick morning_sky) new_dawn_park [e, e, e]))) = 6"
    "failure_lines (run (dawn_tick morning_sky) new_dawn_park [e, e, e]) = 1"
  unfolding e_def by code_simp+

lemma a_dawn_parks: "Park \<in> set (dp_did (dawn_tick morning_sky new_dawn_park a_dawn))"
  by code_simp

theorem parks_once_a_dawn_witness:
  "rig_steps (run (dawn_tick morning_sky) new_dawn_park [a_dawn, a_dawn]) = rig_steps (dawn_tick morning_sky new_dawn_park a_dawn)"
proof -
  have "Park \<in> set (news (dp_did new_dawn_park) (dp_did (dawn_tick morning_sky new_dawn_park a_dawn)))"
    using a_dawn_parks by (simp add: new_dawn_park_def news_def)
  moreover have "d_park a_dawn = Took_It" "\<forall>e \<in> set [a_dawn]. no_night morning_sky e"
    by code_simp+
  ultimately show ?thesis
    by (rule parks_once_a_dawn)
qed

theorem failing_streak_is_legible_witness:
  "failure_lines (run (dawn_tick morning_sky) new_dawn_park (replicate 139 a_refusal)) = 5
    \<and> reopens (run (dawn_tick morning_sky) new_dawn_park (replicate 139 a_refusal)) = 1"
proof -
  have "refuses morning_sky ''no answer'' a_refusal"
    by code_simp
  then have "\<forall>e \<in> set (replicate 139 a_refusal). refuses morning_sky ''no answer'' e"
    by simp
  from failing_streak_is_legible [OF this, of new_dawn_park] show ?thesis
    by (simp add: new_dawn_park_def failure_lines_def reopens_def)
qed

theorem stopped_only_when_left_alone_witness:
  "\<exists>xs z ys. [a_guide_loop 0] = xs @ z # ys \<and> (\<forall>x \<in> set (z # ys @ [a_guide_loop 1800]). left_alone x)
    \<and> 1800 \<le> d_clock (a_guide_loop 1800) Guide_Now - d_clock z Guide_Now"
proof -
  let ?s = "run (dawn_tick morning_sky) new_dawn_park [a_guide_loop 0]"
  have before: "length (dp_did ?s) = 1"
    by code_simp
  have "Guide_Off \<in> set (drop 1 (dp_did (dawn_tick morning_sky ?s (a_guide_loop 1800))))"
    by code_simp
  then have "Guide_Off \<in> set (news (dp_did ?s) (dp_did (dawn_tick morning_sky ?s (a_guide_loop 1800))))"
    using before by (auto simp: news_def)
  from stopped_only_when_left_alone [OF refl this] show ?thesis
    by (simp add: limit_min_def a_guide_loop_def)
qed

end
