(* ===== verification/Safety_Gate.thy ===== *)
theory Safety_Gate
  imports Wind_Down Cloud_State Cooling Machines
begin

text \<open>
  The safety gate of a run (\<open>server/astrodeck/sequence/engine.py\<close>, \<open>_safety_gate\<close>): every frame boundary and every
  slew asks it. An unsafe verdict pauses the run under the open sky, closes the roof and waits, or ends the run; the
  waits go on until the weather has read safe often enough in a row.

  A wait is a function on the list of its turns, each with the answers the turn gets; a list that is used up is a
  wait that still goes on. A call that stops short gives the reason: the end of the run, a cancel, what a check or a
  setup raised, the end of the target, or the wait. What it did is appended to the state. A cancel lands at the start of a turn, or in the
  roof close. The acquisition of a target, the hold for cloud (an argument) and the seconds a log line prints are left out, and so is
  the \<open>action\<close> that \<open>_on_unsafe\<close> can be given and no caller gives it; a verdict is handled with the configuration the
  run was started with.
\<close>

section \<open>Readings\<close>

record reading =
  rd_safe :: bool
  rd_stale :: bool
  rd_reason :: string
  rd_source :: string

text \<open>\<open>_read_safety\<close> looks until there is a reading, for a bounded time: the looks it made.\<close>

definition read_safety :: "reading option list \<Rightarrow> reading option" where
  "read_safety looks = (case List.find (\<lambda>r. r \<noteq> None) looks of None \<Rightarrow> None | Some r \<Rightarrow> r)"

definition reads_safe :: "reading option \<Rightarrow> bool" where
  "reads_safe r = (case r of None \<Rightarrow> False | Some r \<Rightarrow> \<not> rd_stale r \<and> rd_safe r)"

definition unsafe_words :: "reading \<Rightarrow> string" where
  "unsafe_words r = (if rd_reason r \<noteq> [] then rd_reason r else if rd_source r \<noteq> [] then rd_source r
     else ''unsafe condition reported'')"

section \<open>Steps, state and ends\<close>

datatype gate_line =
    Unsafe_Found string string
  | Roof_Refused_Hold
  | Guider_Would_Not_Stop
  | Stop_Not_Confirmed "bool option"
  | Cooler_Checked string
  | Turned_While_Stopped
  | Turned_Under_The_Roof
  | Safe_Resuming
  | Safe_Reopening
  | Setup_Goes_On
  | Reacquiring
  | Pause_Too_Long
  | Closure_Too_Long
  | Sky_Stands_In
  | Sky_Stands_In_Beside
  | Hold_Deferred
  | Sky_Watches
  | Nothing_Watches
  | Already_Holding string
  | Holding_For string
  | Sky_Cleared bool
  | Pointing_Back
  | Stopped_On_Its_Own
  | Mount_Stopped string

text \<open>What the hold for clear sky does to the rig.\<close>

datatype hold_step = Guider_Stands_Down | Alerts_Tick | Dark_Frame | Beam_Back | Mount_Look | Point | Track_Again | Probe "bool option"

datatype gate_step =
    Rig wd_step
  | Line string gate_line
  | Recorded string string
  | Published bool string string bool
  | Shown string string
  | Republished
  | End_The_Wait
  | Stop_Guiding
  | Read "reading option"
  | Open_Roof
  | Ask_Roof
  | Check_Floor
  | Set_Up
  | Held hold_step

datatype abort_cause =
    Closing_Roof string
  | Unsafe_Verdict string
  | Unsafe_Too_Long string
  | Unsafe_Too_Long_Closed string
  | Reopen_Fails
  | Reopen_Unconfirmed
  | Cooling_Failed string
  | Hold_Too_Long

datatype stop_reason = Safety_Abort abort_cause | Cut | Raises string | Stop_Target string | Awaiting

record guard =
  gd_unsafe :: nat
  gd_safe :: nat
  gd_tripped :: "string option"
  gd_no_source_said :: bool
  gd_no_clouds_said :: bool
  gd_deferred :: bool
  gd_deferred_said :: bool
  gd_holding :: bool
  gd_wait :: bool
  gd_idle_open :: bool
  gd_clouds :: cloud_state
  gd_did :: "gate_step list"

definition did :: "gate_step list \<Rightarrow> guard \<Rightarrow> guard" where
  "did xs s = s\<lparr>gd_did := gd_did s @ xs\<rparr>"

definition followed_by :: "guard \<times> (stop_reason + 'a) \<Rightarrow> (guard \<Rightarrow> guard \<times> (stop_reason + 'b)) \<Rightarrow> guard \<times> (stop_reason + 'b)" where
  "followed_by m f = (case m of (s, Inl why) \<Rightarrow> (s, Inl why) | (s, Inr _) \<Rightarrow> f s)"

lemma followed_by_simps [simp]: "followed_by (s, Inl why) f = (s, Inl why)" "followed_by (s, Inr a) f = f s"
  by (simp_all add: followed_by_def)

lemma followed_by_Inr: "followed_by m f = (s, Inr b) \<Longrightarrow> \<exists>u a. m = (u, Inr a) \<and> f u = (s, Inr b)"
  by (cases m; cases "snd m") auto

lemma followed_by_keeps: "P (fst m) \<Longrightarrow> (\<And>s. P s \<Longrightarrow> P (fst (f s))) \<Longrightarrow> P (fst (followed_by m f))"
  by (cases m; cases "snd m") auto

text \<open>The settings the gate reads; \<open>cf_armed\<close> is \<open>safety.enabled\<close> and the plan's safety check, \<open>cf_cools\<close> that the plan
  asks for the temperature \<open>cf_cool_to\<close>, with the policy's bound on reaching it.\<close>

record safety_cfg =
  cf_armed :: bool
  cf_on_unsafe :: string
  cf_consecutive :: int
  cf_resume :: int
  cf_max_pause_min :: rat
  cf_close_dome :: bool
  cf_reopen :: bool
  cf_require_monitor :: bool
  cf_sky_fallback :: bool
  cf_reads_clouds :: bool
  cf_cools :: bool
  cf_cool_to :: rat
  cf_cool_timeout_s :: rat
  cf_require_cooling :: bool
  cf_cooling_action :: string

definition need_safe :: "safety_cfg \<Rightarrow> nat" where
  "need_safe cfg = nat (max 1 (cf_resume cfg))"

text \<open>The target of the call: is it a calibration, and does an acquisition of it wait behind this gate?\<close>

record aim =
  am_calibration :: bool
  am_behind :: bool

definition SAFETY_PAUSE_POLL_S :: rat where "SAFETY_PAUSE_POLL_S = 5"
definition IDLE_STOP_RETRY_S :: rat where "IDLE_STOP_RETRY_S = 60"

section \<open>The verdict is confirmed\<close>

text \<open>A further sample: a cancel at its checkpoint, an assigned monitor that is gone, or a reading.\<close>

record sample =
  sm_cut :: bool
  sm_gone :: bool
  sm_looks :: "reading option list"

fun confirm_loop :: "nat \<Rightarrow> sample list \<Rightarrow> guard \<Rightarrow> guard \<times> (stop_reason + bool)" where
  "confirm_loop need [] s = (s, if gd_unsafe s < need then Inl Awaiting else Inr True)"
| "confirm_loop need (m # ms) s =
     (if need \<le> gd_unsafe s then (s, Inr True)
      else if sm_cut m then (s, Inl Cut)
      else if sm_gone m then confirm_loop need ms (s\<lparr>gd_unsafe := gd_unsafe s + 1\<rparr>)
      else let r = read_safety (sm_looks m); s = did [Read r] s in
        if \<not> reads_safe r then confirm_loop need ms (s\<lparr>gd_unsafe := gd_unsafe s + 1\<rparr>)
        else (s\<lparr>gd_unsafe := 0, gd_safe := 1\<rparr>, Inr False))"

definition confirm_unsafe :: "safety_cfg \<Rightarrow> sample list \<Rightarrow> guard \<Rightarrow> guard \<times> (stop_reason + bool)" where
  "confirm_unsafe cfg ms s = confirm_loop (nat (max 1 (cf_consecutive cfg))) ms (s\<lparr>gd_unsafe := 1, gd_safe := 0\<rparr>)"

section \<open>The pause under the open sky\<close>

text \<open>What the pause knows of its stop of tracking, and when it asks again. None for the mount: there is none.\<close>

record pausing =
  pa_unconfirmed :: bool
  pa_next :: rat
  pa_leaned :: bool

record ask_env =
  ak_now :: rat
  ak_idle :: bool
  ak_again :: "stop_env option"
  ak_stop :: stop_env
  ak_back :: "stop_env option"
  ak_later :: rat

definition pause_stop_unconfirmed :: "bool \<Rightarrow> stop_env option \<Rightarrow> guard \<Rightarrow> guard \<times> bool" where
  "pause_stop_unconfirmed said mount s = (case mount of None \<Rightarrow> (s, False)
     | Some t \<Rightarrow> let s = did [Rig Ask_Track] s in
         if tracking_now t = Some False then (s, False)
         else (if said then s else did [Line ''warning'' (Stop_Not_Confirmed (tracking_now t))] s, True))"

definition ask_if_due :: "ask_env \<Rightarrow> pausing \<Rightarrow> guard \<Rightarrow> guard \<times> pausing" where
  "ask_if_due e p s =
     (if \<not> pa_unconfirmed p \<or> ak_now e < pa_next p then (s, p)
      else if ak_idle e then (s, p\<lparr>pa_leaned := True, pa_next := ak_later e + IDLE_STOP_RETRY_S\<rparr>)
      else let (s, still) = (if pa_leaned p then pause_stop_unconfirmed True (ak_again e) s else (s, True));
               (s, still) = (if still
                 then pause_stop_unconfirmed True (ak_back e) (did (map Rig (stop_tracking_quietly (ak_stop e))) s) else (s, False)) in
        (s, \<lparr>pa_unconfirmed = still, pa_next = ak_later e + IDLE_STOP_RETRY_S, pa_leaned = False\<rparr>))"

text \<open>The cooler gate of a release: the sensor's wait on a task of its own, the monitor read beside it.\<close>

record cool_turn =
  ct_cut :: bool
  ct_ask :: ask_env
  ct_now :: rat
  ct_looks :: "reading option list"

datatype cool_end = Settled | Cooling_Raises string | Still_Cooling

text \<open>The sensor's wait (\<open>_cool_and_wait\<close>): the camera as it is found and after the reconnect gate, whether the cooler's
  command went through, and the probes made, each with the clock read before it and what it read, if anything.
  Left out: its log lines, the figures in the words of a failure, the guider an operator's pause stands down, and, where
  a hold watches the mount through it, the looks.\<close>

datatype camera_now = Camera_Gone | No_Cooler | Has_Cooler

record cool_wait =
  cw_camera :: camera_now
  cw_again :: camera_now
  cw_commanded :: bool
  cw_began :: rat
  cw_probes :: "cool_probe list"

definition cooling_failed :: "safety_cfg \<Rightarrow> string \<Rightarrow> cool_end" where
  "cooling_failed cfg why = (if cf_require_cooling cfg \<and> cf_cooling_action cfg = ''abort''
     then Cooling_Raises (''cooling required but '' @ why) else Settled)"

definition cool_and_wait :: "safety_cfg \<Rightarrow> cool_wait \<Rightarrow> cool_end" where
  "cool_and_wait cfg w =
     (if cw_camera w = No_Cooler then Settled
      else case (if cw_camera w = Camera_Gone then cw_again w else cw_camera w) of
        Camera_Gone \<Rightarrow> cooling_failed cfg ''the camera is not connected''
      | No_Cooler \<Rightarrow> Settled
      | Has_Cooler \<Rightarrow>
          if \<not> cw_commanded w then cooling_failed cfg ''cooler command failed''
          else case cool_probing (cf_cool_to cfg) (cw_began w + cf_cool_timeout_s cfg) None False (cw_probes w) of
            Stable \<Rightarrow> Settled | Never why \<Rightarrow> cooling_failed cfg why | Probing \<Rightarrow> Still_Cooling)"

record cool_env =
  ce_began :: rat
  ce_turns :: "cool_turn list"
  ce_wait :: cool_wait
  ce_reaped :: "string option"

fun cool_watching :: "bool \<Rightarrow> cool_end \<Rightarrow> string option \<Rightarrow> cool_turn list \<Rightarrow> rat \<Rightarrow> pausing \<Rightarrow> guard \<Rightarrow> guard \<times> pausing \<times> (stop_reason + bool)" where
  "cool_watching asks over reaped [] next_read p s =
     (s, p, case over of Settled \<Rightarrow> Inr True | Cooling_Raises why \<Rightarrow> Inl (Safety_Abort (Cooling_Failed why)) | Still_Cooling \<Rightarrow> Inl Awaiting)"
| "cool_watching asks over reaped (t # ts) next_read p s =
     (if ct_cut t then (s, p, Inl Cut)
      else let (s, p) = (if asks then ask_if_due (ct_ask t) p s else (s, p)) in
        if ct_now t < next_read then cool_watching asks over reaped ts next_read p s
        else let r = read_safety (ct_looks t); s = did [Read r] s in
          if reads_safe r then cool_watching asks over reaped ts (ct_now t + SAFETY_PAUSE_POLL_S) p s
          else (s, p, case reaped of None \<Rightarrow> Inr False | Some why \<Rightarrow> Inl (Safety_Abort (Cooling_Failed why))))"

definition cooler_gate :: "safety_cfg \<Rightarrow> bool \<Rightarrow> string \<Rightarrow> cool_env \<Rightarrow> pausing \<Rightarrow> guard \<Rightarrow> guard \<times> pausing \<times> (stop_reason + bool)" where
  "cooler_gate cfg asks why e p s =
     (if \<not> cf_cools cfg then (s, p, Inr True)
      else cool_watching asks (cool_and_wait cfg (ce_wait e)) (ce_reaped e) (ce_turns e) (ce_began e + SAFETY_PAUSE_POLL_S) p
        (did [Line ''info'' (Cooler_Checked why)] s))"

text \<open>A turn of the pause: the ask, the reading, the cooler gate of a release, what the floor check and the setup raise.\<close>

record poll =
  po_cut :: bool
  po_ask :: ask_env
  po_looks :: "reading option list"
  po_cool :: cool_env
  po_floor :: "string option"
  po_setup :: "string option"
  po_clock :: rat

record pause_env =
  pe_guider :: "bool option"
  pe_stop :: stop_env
  pe_back :: "stop_env option"
  pe_began :: rat
  pe_asked :: rat
  pe_idle :: bool
  pe_polls :: "poll list"

definition park_hold :: "pause_env \<Rightarrow> guard \<Rightarrow> guard" where
  "park_hold e s = did (map Rig (stop_tracking_quietly (pe_stop e))) (case pe_guider e of None \<Rightarrow> s
     | Some stops \<Rightarrow> did (Stop_Guiding # (if stops then [] else [Line ''warning'' Guider_Would_Not_Stop])) s)"

text \<open>After a release: the floor and the pier, then the target, unless a setup behind the gate acquires it.\<close>

definition back_to_work :: "aim option \<Rightarrow> string option \<Rightarrow> string option \<Rightarrow> string \<Rightarrow> guard \<Rightarrow> guard \<times> (stop_reason + unit)" where
  "back_to_work tgt floor_says setup_says detail s = followed_by
     (case tgt of None \<Rightarrow> (s, Inr ())
      | Some a \<Rightarrow> (case floor_says of Some why \<Rightarrow> (did [Check_Floor] s, Inl (Raises why))
          | None \<Rightarrow> let s = did [Check_Floor] s in
              if am_calibration a then (s, Inr ())
              else if am_behind a then (did [Line ''info'' Setup_Goes_On] s, Inr ())
              else (did [Line ''info'' Reacquiring, Set_Up] s, case setup_says of None \<Rightarrow> Inr () | Some why \<Rightarrow> Inl (Raises why))))
     (\<lambda>s. (did [Shown ''running'' detail] s, Inr ()))"

definition past_the_limit :: "safety_cfg \<Rightarrow> rat \<Rightarrow> poll \<Rightarrow> bool" where
  "past_the_limit cfg began q = (0 < cf_max_pause_min cfg * 60 \<and> cf_max_pause_min cfg * 60 \<le> po_clock q - began)"

definition paused_text :: "string \<Rightarrow> string" where
  "paused_text why = ''paused (unsafe): '' @ why"

definition pause_over :: "pausing \<Rightarrow> guard \<Rightarrow> guard" where
  "pause_over p s = (let s = (did [Line ''info'' Safe_Resuming, Recorded ''conditions safe again'' ''resume'',
       Published True ''safe again'' ''resume'' False] s)\<lparr>gd_unsafe := 0\<rparr> in
     if pa_unconfirmed p then s else s\<lparr>gd_idle_open := False\<rparr>)"

fun pause_loop :: "safety_cfg \<Rightarrow> string \<Rightarrow> aim option \<Rightarrow> rat \<Rightarrow> poll list \<Rightarrow> pausing \<Rightarrow> guard \<Rightarrow> guard \<times> (stop_reason + unit)" where
  "pause_loop cfg why tgt began [] p s = (s, Inl Awaiting)"
| "pause_loop cfg why tgt began (q # qs) p s =
     (if po_cut q then (s, Inl Cut)
      else let (s, p) = ask_if_due (po_ask q) p s; r = read_safety (po_looks q); s = did [Read r] s;
               go_on = (\<lambda>p s. if past_the_limit cfg began q
                 then (did [Line ''error'' Pause_Too_Long] s, Inl (Safety_Abort (Unsafe_Too_Long why)))
                 else pause_loop cfg why tgt began qs p s) in
        if \<not> reads_safe r then go_on p (s\<lparr>gd_safe := 0\<rparr>)
        else let s = s\<lparr>gd_safe := gd_safe s + 1\<rparr> in
          if gd_safe s < need_safe cfg then go_on p s
          else case cooler_gate cfg True ''resumed after a safety pause'' (po_cool q) p s of
            (s, p, Inl out) \<Rightarrow> (s, Inl out)
          | (s, p, Inr True) \<Rightarrow> back_to_work tgt (po_floor q) (po_setup q) ''resumed (safe)'' (pause_over p s)
          | (s, p, Inr False) \<Rightarrow> go_on p ((did [Line ''info'' Turned_While_Stopped, Shown ''paused'' (paused_text why)] s)\<lparr>gd_safe := 0\<rparr>))"

definition park_hold_pause :: "safety_cfg \<Rightarrow> string \<Rightarrow> aim option \<Rightarrow> pause_env \<Rightarrow> guard \<Rightarrow> guard \<times> (stop_reason + unit)" where
  "park_hold_pause cfg why tgt e s = (
     let s = (did [Shown ''paused'' (paused_text why)] (park_hold e s))\<lparr>gd_safe := 0\<rparr>;
       (s, still) = pause_stop_unconfirmed False (pe_back e) s in
     pause_loop cfg why tgt (pe_began e) (pe_polls e)
       \<lparr>pa_unconfirmed = still, pa_next = pe_asked e + IDLE_STOP_RETRY_S, pa_leaned = pe_idle e\<rparr> s)"

section \<open>The wait under the closed roof\<close>

text \<open>A turn of this wait reads once more before the roof opens; the shutter's state is None when it cannot be read.\<close>

record roof_turn =
  ro_poll :: poll
  ro_again :: "reading option list"
  ro_opens :: bool
  ro_state :: "shutter_state option"

definition closed_text :: "string \<Rightarrow> string" where
  "closed_text why = ''roof closed (unsafe): '' @ why"

definition reopen_roof :: "roof_turn \<Rightarrow> aim option \<Rightarrow> guard \<Rightarrow> guard \<times> (stop_reason + unit)" where
  "reopen_roof t tgt s = (let s = did [Line ''info'' Safe_Reopening, Open_Roof] (s\<lparr>gd_unsafe := 0\<rparr>) in
     if \<not> ro_opens t then (s, Inl (Safety_Abort Reopen_Fails))
     else let s = did [Ask_Roof] s in
       case ro_state t of None \<Rightarrow> (s, Inl (Safety_Abort Reopen_Fails))
       | Some st \<Rightarrow> if st \<noteq> OPEN then (s, Inl (Safety_Abort Reopen_Unconfirmed))
           else back_to_work tgt (po_floor (ro_poll t)) (po_setup (ro_poll t)) ''resumed (roof reopened)''
             (did [Recorded (''roof reopened '' @ [CHR 0xE2, CHR 0x80, CHR 0x94] @ '' conditions safe again'') ''reopen_roof'',
               Published True ''safe again'' ''reopen'' False] s))"

fun reopen_loop :: "safety_cfg \<Rightarrow> string \<Rightarrow> aim option \<Rightarrow> rat \<Rightarrow> roof_turn list \<Rightarrow> pausing \<Rightarrow> guard \<Rightarrow> guard \<times> (stop_reason + unit)" where
  "reopen_loop cfg why tgt began [] p s = (s, Inl Awaiting)"
| "reopen_loop cfg why tgt began (t # ts) p s = (let q = ro_poll t in
     if po_cut q then (s, Inl Cut)
     else let r = read_safety (po_looks q); s = did [Read r] s;
              go_on = (\<lambda>s. if past_the_limit cfg began q
                then (did [Line ''error'' Closure_Too_Long] s, Inl (Safety_Abort (Unsafe_Too_Long_Closed why)))
                else reopen_loop cfg why tgt began ts p s) in
       if \<not> reads_safe r then go_on (s\<lparr>gd_safe := 0\<rparr>)
       else let s = s\<lparr>gd_safe := gd_safe s + 1\<rparr> in
         if gd_safe s < need_safe cfg then go_on s
         else case cooler_gate cfg False ''resumed after a roof reopen'' (po_cool q) p s of
           (s, p, Inl out) \<Rightarrow> (s, Inl out)
         | (s, p, Inr passed) \<Rightarrow>
             let again = read_safety (ro_again t); s = (if passed then did [Read again] s else s) in
             if passed \<and> reads_safe again then reopen_roof t tgt s
             else reopen_loop cfg why tgt began ts p
               ((did [Line ''info'' Turned_Under_The_Roof, Shown ''paused'' (closed_text why)] s)\<lparr>gd_safe := 0\<rparr>))"

record closure_env =
  cl_began :: rat
  cl_turns :: "roof_turn list"

definition await_safe_and_reopen :: "safety_cfg \<Rightarrow> string \<Rightarrow> aim option \<Rightarrow> closure_env \<Rightarrow> guard \<Rightarrow> guard \<times> (stop_reason + unit)" where
  "await_safe_and_reopen cfg why tgt e s =
     reopen_loop cfg why tgt (cl_began e) (cl_turns e) \<lparr>pa_unconfirmed = False, pa_next = 0, pa_leaned = False\<rparr>
       ((did [Shown ''paused'' (closed_text why)] s)\<lparr>gd_safe := 0\<rparr>)"

section \<open>An unsafe verdict\<close>

record unsafe_env =
  ue_dome :: bool
  ue_stop :: stop_env
  ue_close :: wind_env
  ue_ended :: bool
  ue_cut :: "nat option"
  ue_pause :: pause_env
  ue_closure :: closure_env

definition escalated_action :: "string \<Rightarrow> bool \<Rightarrow> safety_cfg \<Rightarrow> string" where
  "escalated_action act closing cfg = (if \<not> closing then act
     else if cf_reopen cfg then ''close_roof_wait'' else ''abort_park_close'')"

definition end_the_wait :: "bool \<Rightarrow> guard \<Rightarrow> guard" where
  "end_the_wait wait s = (if wait then did [End_The_Wait] s else s)"

definition on_unsafe :: "safety_cfg \<Rightarrow> unsafe_env \<Rightarrow> string \<Rightarrow> bool \<Rightarrow> aim option \<Rightarrow> guard \<Rightarrow> guard \<times> (stop_reason + unit)" where
  "on_unsafe cfg e why stale tgt s = (
     let wait = gd_wait s; closing = (cf_close_dome cfg \<and> ue_dome e);
       act = escalated_action (cf_on_unsafe cfg) closing cfg;
       s = did [Recorded why act, Published False why act stale, Line ''error'' (Unsafe_Found why act)] (s\<lparr>gd_wait := False\<rparr>) in
     if closing then
       (if \<not> cf_reopen cfg then (s, Inl (Safety_Abort (Closing_Roof why)))
        else let (closed, tr) = close_for_reopen (ue_stop e) (ue_close e) (ue_ended e) (ue_cut e);
               s = did (map Rig tr) (end_the_wait wait s) in
          case closed of None \<Rightarrow> (s, Inl Cut)
          | Some True \<Rightarrow> await_safe_and_reopen cfg why tgt (ue_closure e)
              (did [Recorded (''roof closed over parked gear: '' @ why) ''close_roof''] s)
          | Some False \<Rightarrow> park_hold_pause cfg why tgt (ue_pause e)
              (did [Line ''warning'' Roof_Refused_Hold,
                Recorded (''roof close refused/failed '' @ [CHR 0xE2, CHR 0x80, CHR 0x94] @ '' gear still under open sky'') ''close_roof_failed''] s))
     else if act = ''warn'' then (s, Inr ())
     else if act \<in> {''abort_park_warm'', ''park''} then (s, Inl (Safety_Abort (Unsafe_Verdict why)))
     else park_hold_pause cfg why tgt (ue_pause e) (end_the_wait wait s))"

section \<open>Nothing to read, or no clouds in it\<close>

record sky_env =
  sk_simulated :: bool
  sk_now :: rat
  sk_day_darks :: bool

definition note_hold_deferred :: "guard \<Rightarrow> guard" where
  "note_hold_deferred s = (let started = \<not> gd_deferred s; s = s\<lparr>gd_deferred := True\<rparr>;
       s = (if gd_deferred_said s then s else did [Line ''warning'' Hold_Deferred] (s\<lparr>gd_deferred_said := True\<rparr>)) in
     if started then did [Republished] s else s)"

definition stands_in :: "safety_cfg \<Rightarrow> sky_env \<Rightarrow> bool" where
  "stands_in cfg e = (\<not> sk_simulated e \<and> cf_sky_fallback cfg)"

text \<open>A hold needs a target; \<open>hold\<close> is the hold for clear sky.\<close>

type_synonym holder = "string \<Rightarrow> guard \<Rightarrow> guard \<times> (stop_reason + unit)"

definition hold_or_defer :: "holder \<Rightarrow> string \<Rightarrow> sky_env \<Rightarrow> aim option \<Rightarrow> guard \<Rightarrow> guard \<times> (stop_reason + unit)" where
  "hold_or_defer hold why e tgt s = (if tgt = None then (if sk_day_darks e then s else note_hold_deferred s, Inr ()) else hold why s)"

definition deferral_over :: "aim option \<Rightarrow> guard \<Rightarrow> guard" where
  "deferral_over tgt s = (if tgt = None \<and> gd_deferred s then did [Republished] (s\<lparr>gd_deferred := False\<rparr>) else s)"

definition no_safety_source :: "safety_cfg \<Rightarrow> holder \<Rightarrow> unsafe_env \<Rightarrow> sky_env \<Rightarrow> aim option \<Rightarrow> guard \<Rightarrow> guard \<times> (stop_reason + unit)" where
  "no_safety_source cfg hold ue e tgt s =
     (if cf_require_monitor cfg
      then on_unsafe cfg ue ''no safety monitor is assigned, and require_safety_monitor is on'' True tgt s
      else if stands_in cfg e \<and> cloudy (sk_now e) (gd_clouds s) = Some True then
        (if gd_holding s then (s, Inr ())
         else hold_or_defer hold ''no safety monitor is assigned and the frames say the sky has closed in'' e tgt
           (if gd_no_source_said s then s else did [Line ''warning'' Sky_Stands_In] (s\<lparr>gd_no_source_said := True\<rparr>)))
      else let s = (if stands_in cfg e then deferral_over tgt s else s) in
        if gd_no_source_said s then (s, Inr ())
        else (did [Line ''warning'' (if stands_in cfg e then Sky_Watches else Nothing_Watches)] (s\<lparr>gd_no_source_said := True\<rparr>), Inr ()))"

definition monitor_lacks_cloud_source :: "safety_cfg \<Rightarrow> holder \<Rightarrow> sky_env \<Rightarrow> aim option \<Rightarrow> guard \<Rightarrow> guard \<times> (stop_reason + unit)" where
  "monitor_lacks_cloud_source cfg hold e tgt s =
     (if \<not> stands_in cfg e then (s, Inr ())
      else if cloudy (sk_now e) (gd_clouds s) = Some True then
        (if gd_holding s then (s, Inr ())
         else hold_or_defer hold ''the assigned safety monitor does not read clouds and the frames say the sky has closed in'' e tgt
           (if gd_no_clouds_said s then s else did [Line ''warning'' Sky_Stands_In_Beside] (s\<lparr>gd_no_clouds_said := True\<rparr>)))
      else (deferral_over tgt s, Inr ()))"

section \<open>The gate\<close>

datatype monitor = No_Monitor | Gone | There

record gate_env =
  ge_cfg :: "safety_cfg option"
  ge_slew :: bool
  ge_aim :: "aim option"
  ge_monitor :: monitor
  ge_looks :: "reading option list"
  ge_samples :: "sample list"
  ge_trip :: unsafe_env
  ge_unsafe :: unsafe_env
  ge_sky :: sky_env
  ge_clouds :: sky_env
  ge_floor :: "string option"

definition slew_floor :: "gate_env \<Rightarrow> guard \<Rightarrow> guard \<times> (stop_reason + unit)" where
  "slew_floor e s = (if ge_slew e \<and> ge_aim e \<noteq> None
     then (did [Check_Floor] s, case ge_floor e of None \<Rightarrow> Inr () | Some why \<Rightarrow> Inl (Raises why)) else (s, Inr ()))"

definition read_monitor :: "safety_cfg \<Rightarrow> gate_env \<Rightarrow> guard \<Rightarrow> guard \<times> (stop_reason + unit)" where
  "read_monitor cfg e s = (let r = read_safety (ge_looks e); s = did [Read r] s in
     case r of None \<Rightarrow> on_unsafe cfg (ge_unsafe e) ''safety read stale/unavailable'' True (ge_aim e) s
     | Some r \<Rightarrow>
         if rd_stale r then on_unsafe cfg (ge_unsafe e) ''safety read stale/unavailable'' True (ge_aim e) s
         else if \<not> rd_safe r then (case confirm_unsafe cfg (ge_samples e) s of
             (s, Inl out) \<Rightarrow> (s, Inl out)
           | (s, Inr True) \<Rightarrow> on_unsafe cfg (ge_unsafe e) (unsafe_words r) False (ge_aim e) s
           | (s, Inr False) \<Rightarrow> (s, Inr ()))
         else (s\<lparr>gd_unsafe := 0, gd_safe := gd_safe s + 1\<rparr>, Inr ()))"

definition ask_monitor :: "safety_cfg \<Rightarrow> holder \<Rightarrow> gate_env \<Rightarrow> guard \<Rightarrow> guard \<times> (stop_reason + unit)" where
  "ask_monitor cfg hold e s = (case ge_monitor e of
     No_Monitor \<Rightarrow> no_safety_source cfg hold (ge_unsafe e) (ge_sky e) (ge_aim e) s
   | Gone \<Rightarrow> on_unsafe cfg (ge_unsafe e) ''safety monitor disconnected'' True (ge_aim e) s
   | There \<Rightarrow> followed_by (read_monitor cfg e s)
       (\<lambda>s. if cf_reads_clouds cfg then (s, Inr ()) else monitor_lacks_cloud_source cfg hold (ge_clouds e) (ge_aim e) s))"

definition safety_gate :: "holder \<Rightarrow> gate_env \<Rightarrow> guard \<Rightarrow> guard \<times> (stop_reason + unit)" where
  "safety_gate hold e s = (case ge_cfg e of None \<Rightarrow> (s, Inr ())
     | Some cfg \<Rightarrow> followed_by
         (case gd_tripped s of None \<Rightarrow> (s, Inr ())
          | Some why \<Rightarrow> on_unsafe cfg (ge_trip e) why False (ge_aim e) (s\<lparr>gd_tripped := None\<rparr>))
         (\<lambda>s. if \<not> cf_armed cfg then slew_floor e s else followed_by (ask_monitor cfg hold e s) (slew_floor e)))"

section \<open>A release follows safe readings\<close>

definition readings :: "gate_step list \<Rightarrow> reading option list" where
  "readings tr = concat (map (\<lambda>x. case x of Read r \<Rightarrow> [r] | _ \<Rightarrow> []) tr)"

text \<open>How many safe readings in a row a trace ends with.\<close>

definition calm :: "gate_step list \<Rightarrow> nat" where
  "calm tr = length (takeWhile reads_safe (rev (readings tr)))"

text \<open>What a step needs: the roof opens, and safe is published, only on safe readings in a row.\<close>

fun needs :: "nat \<Rightarrow> gate_step \<Rightarrow> nat" where
  "needs n Open_Roof = Suc n"
| "needs n (Published safe _ _ _) = (if safe then n else 0)"
| "needs n _ = 0"

definition licensed :: "nat \<Rightarrow> gate_step list \<Rightarrow> bool" where
  "licensed n tr = (\<forall>pre x post. tr = pre @ x # post \<longrightarrow> needs n x \<le> calm pre)"

fun is_read :: "gate_step \<Rightarrow> bool" where
  "is_read (Read _) = True"
| "is_read _ = False"

definition plain :: "gate_step list \<Rightarrow> bool" where
  "plain tr = list_all (\<lambda>x. needs 0 x = 0 \<and> (\<forall>n. needs n x = 0) \<and> \<not> is_read x) tr"

lemma readings_append [simp]: "readings (xs @ ys) = readings xs @ readings ys"
  by (simp add: readings_def)

lemma plain_readings: "plain tr \<Longrightarrow> readings tr = []"
  by (induction tr) (auto simp: plain_def readings_def split: gate_step.split)

lemma calm_read [simp]: "calm (tr @ [Read r]) = (if reads_safe r then Suc (calm tr) else 0)"
  by (simp add: calm_def readings_def)

lemma calm_other [simp]: "\<not> is_read x \<Longrightarrow> calm (tr @ [x]) = calm tr"
  by (cases x) (simp_all add: calm_def readings_def)

lemma calm_plain [simp]: "plain xs \<Longrightarrow> calm (tr @ xs) = calm tr"
  by (simp add: calm_def plain_readings)

lemma licensed_snoc: "licensed n (tr @ [x]) \<longleftrightarrow> licensed n tr \<and> needs n x \<le> calm tr"
proof
  assume l: "licensed n (tr @ [x])"
  then show "licensed n tr \<and> needs n x \<le> calm tr"
    unfolding licensed_def by (metis append.assoc append_Cons)
next
  assume l: "licensed n tr \<and> needs n x \<le> calm tr"
  show "licensed n (tr @ [x])"
    unfolding licensed_def
  proof (intro allI impI)
    fix pre y post
    assume eq: "tr @ [x] = pre @ y # post"
    show "needs n y \<le> calm pre"
    proof (cases post rule: rev_cases)
      case Nil
      then show ?thesis
        using eq l by simp
    next
      case (snoc post' z)
      then have "tr = pre @ y # post'"
        using eq by (metis append.assoc append_Cons butlast_snoc)
      then show ?thesis
        using l by (auto simp: licensed_def)
    qed
  qed
qed

lemma licensed_Nil [simp]: "licensed n []"
  by (simp add: licensed_def)

lemma licensed_plain: "plain xs \<Longrightarrow> licensed n (tr @ xs) = licensed n tr"
proof (induction xs rule: rev_induct)
  case (snoc x xs)
  then show ?case
    using licensed_snoc [of n "tr @ xs" x] by (simp add: plain_def)
qed simp

text \<open>The invariant of the waits: what the state counts is not more than the trace shows.\<close>

definition honest :: "nat \<Rightarrow> guard \<Rightarrow> bool" where
  "honest n s = (licensed n (gd_did s) \<and> gd_safe s \<le> calm (gd_did s))"

abbreviation licensed_so_far :: "nat \<Rightarrow> guard \<Rightarrow> bool" where
  "licensed_so_far n s \<equiv> licensed n (gd_did s)"

lemma did_fields [simp]:
  "gd_did (did xs s) = gd_did s @ xs" "gd_safe (did xs s) = gd_safe s" "gd_unsafe (did xs s) = gd_unsafe s"
  "gd_tripped (did xs s) = gd_tripped s" "gd_holding (did xs s) = gd_holding s" "gd_wait (did xs s) = gd_wait s"
  "gd_clouds (did xs s) = gd_clouds s" "gd_idle_open (did xs s) = gd_idle_open s" "gd_deferred (did xs s) = gd_deferred s"
  by (simp_all add: did_def)

lemma plain_simps [simp]: "plain []" "plain (xs @ ys) \<longleftrightarrow> plain xs \<and> plain ys"
  "plain (x # xs) \<longleftrightarrow> needs 0 x = 0 \<and> (\<forall>n. needs n x = 0) \<and> \<not> is_read x \<and> plain xs"
  by (simp_all add: plain_def)

lemma plain_rig [simp]: "plain (map Rig tr)"
  by (simp add: plain_def list_all_length)

text \<open>Between two states only plain steps were taken.\<close>

definition plainly :: "guard \<Rightarrow> guard \<Rightarrow> bool" where
  "plainly s s' = (\<exists>xs. gd_did s' = gd_did s @ xs \<and> plain xs)"

lemma plainly_refl [simp]: "plainly s s"
  by (simp add: plainly_def)

lemma plainly_trans [trans]: "plainly s t \<Longrightarrow> plainly t u \<Longrightarrow> plainly s u"
  unfolding plainly_def by (metis append.assoc plain_simps(2))

lemma plainlyD:
  assumes "plainly s s'"
  shows "calm (gd_did s') = calm (gd_did s)" "licensed n (gd_did s') = licensed n (gd_did s)"
  using assms by (auto simp: plainly_def licensed_plain)

lemma plainly_did [simp]: "plain xs \<Longrightarrow> plainly s (did xs s)"
  by (simp add: plainly_def)

lemma unconfirmed_plainly: "plainly s (fst (pause_stop_unconfirmed said t s))" "gd_safe (fst (pause_stop_unconfirmed said t s)) = gd_safe s"
  by (auto simp: pause_stop_unconfirmed_def Let_def plainly_def split: option.split)

lemma ask_plainly: "plainly s (fst (ask_if_due e p s))" "gd_safe (fst (ask_if_due e p s)) = gd_safe s"
proof -
  define t where "t = fst (if pa_leaned p then pause_stop_unconfirmed True (ak_again e) s else (s, True))"
  define u where "u = did (map Rig (stop_tracking_quietly (ak_stop e))) t"
  have t: "plainly s t" "gd_safe t = gd_safe s"
    using unconfirmed_plainly [where said = True and t = "ak_again e" and s = s] by (simp_all add: t_def)
  have u: "plainly s u" "gd_safe u = gd_safe s"
    using plainly_trans [OF t(1)] by (simp_all add: u_def t(2))
  have "fst (ask_if_due e p s) \<in> {s, t, fst (pause_stop_unconfirmed True (ak_back e) u)}"
    by (simp add: ask_if_due_def case_prod_unfold Let_def u_def t_def)
  then show "plainly s (fst (ask_if_due e p s))" "gd_safe (fst (ask_if_due e p s)) = gd_safe s"
    using t u plainly_trans [OF u(1) unconfirmed_plainly(1)] unconfirmed_plainly(2) by auto
qed

lemma plainly_honest: "plainly s s' \<Longrightarrow> gd_safe s' = gd_safe s \<Longrightarrow> honest n s' = honest n s"
  by (simp add: honest_def plainlyD)

lemma honest_did [simp]: "plain xs \<Longrightarrow> honest n (did xs s) = honest n s"
  by (simp add: plainly_honest)

lemma honest_reset [simp]: "honest n (s\<lparr>gd_safe := 0\<rparr>) = licensed_so_far n s"
  by (simp add: honest_def)

lemma honest_read:
  assumes "honest n s"
  shows "reads_safe r \<Longrightarrow> honest n ((did [Read r] s)\<lparr>gd_safe := gd_safe s + 1\<rparr>)" "licensed_so_far n (did [Read r] s)"
    "reads_safe r \<Longrightarrow> honest n (did [Read r] s)"
  using assms by (auto simp: honest_def licensed_snoc)

text \<open>The cooler gate keeps the invariant; when it has passed, every reading in it was safe.\<close>

lemma cool_watching_keeps:
  assumes "cool_watching asks over reaped ts due p s = (s', p', r)" "honest n s"
  shows "licensed_so_far n s' \<and> (r = Inr True \<longrightarrow> honest n s' \<and> gd_safe s' = gd_safe s)"
  using assms
proof (induction ts arbitrary: due p s)
  case Nil
  then show ?case
    by (auto simp: honest_def split: cool_end.splits)
next
  case (Cons t ts)
  obtain u q where a: "(if asks then ask_if_due (ct_ask t) p s else (s, p)) = (u, q)"
    by fastforce
  have u: "honest n u" "gd_safe u = gd_safe s"
    using Cons.prems(2) plainly_honest [OF ask_plainly, of n "ct_ask t" p s] ask_plainly(2) [of "ct_ask t" p s] a
    by (cases asks; simp)+
  consider "ct_cut t" | "\<not> ct_cut t" "ct_now t < due" | "\<not> ct_cut t" "\<not> ct_now t < due"
    by blast
  then show ?case
  proof cases
    case 1
    then show ?thesis
      using Cons.prems by (simp add: honest_def)
  next
    case 2
    then have "cool_watching asks over reaped ts due q u = (s', p', r)"
      using Cons.prems(1) by (simp add: a)
    from Cons.IH [OF this u(1)] show ?thesis
      using u(2) by simp
  next
    case 3
    let ?r = "read_safety (ct_looks t)"
    show ?thesis
    proof (cases "reads_safe ?r")
      case True
      then have "cool_watching asks over reaped ts (ct_now t + SAFETY_PAUSE_POLL_S) q (did [Read ?r] u) = (s', p', r)"
        using Cons.prems(1) 3 True by (simp add: a Let_def)
      from Cons.IH [OF this honest_read(3) [OF u(1) True]] show ?thesis
        using u(2) by simp
    next
      case unsafe: False
      then have "s' = did [Read ?r] u" "r \<noteq> Inr True"
        using Cons.prems(1) 3 unsafe by (auto simp: a Let_def split: option.splits)
      then show ?thesis
        using honest_read(2) [OF u(1)] by simp
    qed
  qed
qed

lemma cooler_gate_keeps:
  assumes "cooler_gate cfg asks why e p s = (s', p', r)" "honest n s"
  shows "licensed_so_far n s'" "r = Inr True \<Longrightarrow> honest n s' \<and> gd_safe s' = gd_safe s"
proof -
  have "licensed_so_far n s' \<and> (r = Inr True \<longrightarrow> honest n s' \<and> gd_safe s' = gd_safe s)"
  proof (cases "cf_cools cfg")
    case True
    have "honest n (did [Line ''info'' (Cooler_Checked why)] s)"
      using assms(2) by simp
    from cool_watching_keeps [OF _ this] show ?thesis
      using assms(1) True by (simp add: cooler_gate_def)
  qed (use assms in \<open>auto simp: cooler_gate_def honest_def\<close>)
  then show "licensed_so_far n s'" "r = Inr True \<Longrightarrow> honest n s' \<and> gd_safe s' = gd_safe s"
    by auto
qed

lemma back_to_work_plainly: "plainly s (fst (back_to_work tgt f w detail s))"
  by (cases tgt) (auto simp: back_to_work_def followed_by_def Let_def plainly_def split: option.split)

lemma licensed_release:
  assumes "honest n s" "n \<le> gd_safe s"
  shows "licensed_so_far n (pause_over p s)" "0 < n \<Longrightarrow> 0 < calm (gd_did (pause_over p s))"
proof -
  let ?b = "gd_did s @ [Line ''info'' Safe_Resuming, Recorded ''conditions safe again'' ''resume'']"
  have d: "gd_did (pause_over p s) = ?b @ [Published True ''safe again'' ''resume'' False]"
    by (simp add: pause_over_def Let_def)
  have b: "licensed n ?b" "n \<le> calm ?b"
    using assms by (simp_all add: honest_def licensed_plain)
  show "licensed_so_far n (pause_over p s)"
    unfolding d licensed_snoc using b by simp
  show "0 < n \<Longrightarrow> 0 < calm (gd_did (pause_over p s))"
    using b(2) calm_other [of "Published True ''safe again'' ''resume'' False" ?b] by (simp add: d)
qed

lemma need_safe_pos [simp]: "0 < need_safe cfg"
  by (simp add: need_safe_def)

text \<open>What holds before every turn, and what follows from it at every way out.\<close>

lemma pause_loop_rule:
  fixes I :: "pausing \<Rightarrow> guard \<Rightarrow> bool" and Q :: "guard \<times> (stop_reason + unit) \<Rightarrow> bool"
  assumes start: "I p s"
    and waits: "\<And>p s. I p s \<Longrightarrow> Q (s, Inl Awaiting)"
    and cut: "\<And>p s. I p s \<Longrightarrow> Q (s, Inl Cut)"
    and ask: "\<And>q p s. q \<in> set qs \<Longrightarrow> I p s \<Longrightarrow> I (snd (ask_if_due (po_ask q) p s)) (fst (ask_if_due (po_ask q) p s))"
    and read: "\<And>r p s. I p s \<Longrightarrow> I p ((did [Read r] s)\<lparr>gd_safe := if reads_safe r then gd_safe s + 1 else 0\<rparr>)"
    and late: "\<And>p s. I p s \<Longrightarrow> Q (did [Line ''error'' Pause_Too_Long] s, Inl (Safety_Abort (Unsafe_Too_Long why)))"
    and cool: "\<And>q p s p' s' g. q \<in> set qs \<Longrightarrow> I p s \<Longrightarrow> need_safe cfg \<le> gd_safe s
      \<Longrightarrow> cooler_gate cfg True ''resumed after a safety pause'' (po_cool q) p s = (s', p', g)
      \<Longrightarrow> (case g of Inl out \<Rightarrow> Q (s', Inl out)
        | Inr True \<Rightarrow> Q (back_to_work tgt (po_floor q) (po_setup q) ''resumed (safe)'' (pause_over p' s'))
        | Inr False \<Rightarrow> I p' ((did [Line ''info'' Turned_While_Stopped, Shown ''paused'' (paused_text why)] s')\<lparr>gd_safe := 0\<rparr>))"
  shows "Q (pause_loop cfg why tgt began qs p s)"
  using start ask cool
proof (induction qs arbitrary: p s)
  case (Cons q qs)
  define u where "u = fst (ask_if_due (po_ask q) p s)"
  define p1 where "p1 = snd (ask_if_due (po_ask q) p s)"
  have a: "ask_if_due (po_ask q) p s = (u, p1)"
    by (simp add: u_def p1_def)
  let ?r = "read_safety (po_looks q)"
  define v where "v = (did [Read ?r] u)\<lparr>gd_safe := if reads_safe ?r then gd_safe u + 1 else 0\<rparr>"
  define again where "again p s = (if past_the_limit cfg began q
    then (did [Line ''error'' Pause_Too_Long] s, Inl (Safety_Abort (Unsafe_Too_Long why))) else pause_loop cfg why tgt began qs p s)" for p s
  have again: "Q (again p s)" if "I p s" for p s
    using Cons.IH [OF that] Cons.prems(2,3) late that by (simp add: again_def)
  have "I p1 u"
    using Cons.prems(2) [of q p s] Cons.prems(1) by (simp add: u_def p1_def)
  then have v: "I p1 v"
    unfolding v_def by (rule read)
  consider "po_cut q" | "\<not> po_cut q" "\<not> reads_safe ?r \<or> gd_safe v < need_safe cfg"
    | "\<not> po_cut q" "reads_safe ?r" "need_safe cfg \<le> gd_safe v"
    by fastforce
  then show ?case
  proof cases
    case 1
    then show ?thesis
      using cut Cons.prems(1) by simp
  next
    case 2
    then have "pause_loop cfg why tgt began (q # qs) p s = again p1 v"
      by (cases "reads_safe ?r") (simp_all add: a v_def again_def Let_def)
    then show ?thesis
      using again [OF v] by simp
  next
    case 3
    obtain x p2 g where g: "cooler_gate cfg True ''resumed after a safety pause'' (po_cool q) p1 v = (x, p2, g)"
      by (metis prod.exhaust)
    have "pause_loop cfg why tgt began (q # qs) p s = (case g of Inl out \<Rightarrow> (x, Inl out)
      | Inr True \<Rightarrow> back_to_work tgt (po_floor q) (po_setup q) ''resumed (safe)'' (pause_over p2 x)
      | Inr False \<Rightarrow> again p2 ((did [Line ''info'' Turned_While_Stopped, Shown ''paused'' (paused_text why)] x)\<lparr>gd_safe := 0\<rparr>))"
      using 3 g by (auto simp: a v_def again_def Let_def split: sum.split bool.split)
    then show ?thesis
      using Cons.prems(3) [OF _ v 3(3) g] again by (auto split: sum.splits bool.splits)
  qed
qed (simp add: waits)

lemma pause_loop_keeps:
  assumes "honest (need_safe cfg) s"
  shows "licensed_so_far (need_safe cfg) (fst (pause_loop cfg why tgt began qs p s))
    \<and> (snd (pause_loop cfg why tgt began qs p s) = Inr () \<longrightarrow> 0 < calm (gd_did (fst (pause_loop cfg why tgt began qs p s))))"
proof (rule pause_loop_rule [where I = "\<lambda>p s. honest (need_safe cfg) s"])
  show "honest (need_safe cfg) (fst (ask_if_due (po_ask q) p s))" if "honest (need_safe cfg) s" for q p s
    using that by (simp add: plainly_honest [OF ask_plainly])
  show "honest (need_safe cfg) ((did [Read r] s)\<lparr>gd_safe := if reads_safe r then gd_safe s + 1 else 0\<rparr>)" if "honest (need_safe cfg) s" for r s
    using honest_read [OF that, of r] by simp
  fix q p s p' s' g
  assume s: "honest (need_safe cfg) s" "need_safe cfg \<le> gd_safe s"
    and g: "cooler_gate cfg True ''resumed after a safety pause'' (po_cool q) p s = (s', p', g)"
  note kept = cooler_gate_keeps [OF g s(1)]
  have released: "licensed_so_far (need_safe cfg) (pause_over p' s') \<and> 0 < calm (gd_did (pause_over p' s'))" if "g = Inr True"
    using licensed_release [of "need_safe cfg" s' p'] kept(2) [OF that] s(2) by simp
  show "case g of Inl out \<Rightarrow> licensed_so_far (need_safe cfg) (fst (s', Inl out)) \<and> (snd (s', Inl out) = Inr () \<longrightarrow> 0 < calm (gd_did (fst (s', Inl out))))
    | Inr True \<Rightarrow> licensed_so_far (need_safe cfg) (fst (back_to_work tgt (po_floor q) (po_setup q) ''resumed (safe)'' (pause_over p' s')))
        \<and> (snd (back_to_work tgt (po_floor q) (po_setup q) ''resumed (safe)'' (pause_over p' s')) = Inr ()
          \<longrightarrow> 0 < calm (gd_did (fst (back_to_work tgt (po_floor q) (po_setup q) ''resumed (safe)'' (pause_over p' s')))))
    | Inr False \<Rightarrow> honest (need_safe cfg) ((did [Line ''info'' Turned_While_Stopped, Shown ''paused'' (paused_text why)] s')\<lparr>gd_safe := 0\<rparr>)"
    using released kept(1) plainlyD [OF back_to_work_plainly [of "pause_over p' s'"]] by (auto simp: licensed_plain split: sum.split bool.split)
qed (use assms in \<open>auto simp: honest_def licensed_plain\<close>)

definition in_order :: "nat \<Rightarrow> guard \<times> (stop_reason + unit) \<Rightarrow> bool" where
  "in_order n m = (licensed_so_far n (fst m) \<and> (snd m = Inr () \<longrightarrow> 0 < calm (gd_did (fst m))))"

lemma reopen_roof_keeps:
  assumes "licensed_so_far n s" "Suc n \<le> calm (gd_did s)"
  shows "in_order n (reopen_roof t tgt s)"
proof -
  define u where "u = did [Line ''info'' Safe_Reopening, Open_Roof] (s\<lparr>gd_unsafe := 0\<rparr>)"
  have d: "gd_did u = (gd_did s @ [Line ''info'' Safe_Reopening]) @ [Open_Roof]"
    by (simp add: u_def)
  have u: "licensed_so_far n u" "Suc n \<le> calm (gd_did u)"
    unfolding d licensed_snoc using assms calm_other [of Open_Roof "gd_did s @ [Line ''info'' Safe_Reopening]"] by (simp_all add: licensed_plain)
  define b where "b = gd_did u @ [Ask_Roof, Recorded (''roof reopened '' @ [CHR 0xE2, CHR 0x80, CHR 0x94] @ '' conditions safe again'') ''reopen_roof'']"
  have b: "licensed n b" "Suc n \<le> calm b"
    using u by (simp_all add: b_def licensed_plain)
  define w where "w = did [Recorded (''roof reopened '' @ [CHR 0xE2, CHR 0x80, CHR 0x94] @ '' conditions safe again'') ''reopen_roof'',
    Published True ''safe again'' ''reopen'' False] (did [Ask_Roof] u)"
  have dw: "gd_did w = b @ [Published True ''safe again'' ''reopen'' False]"
    by (simp add: w_def b_def)
  have w: "licensed_so_far n w" "0 < calm (gd_did w)"
    unfolding dw licensed_snoc using b calm_other [of "Published True ''safe again'' ''reopen'' False" b] by simp_all
  have onward: "in_order n (back_to_work tgt f g x w)" for f g x
    using w plainlyD [OF back_to_work_plainly [of w]] by (simp add: in_order_def)
  have "reopen_roof t tgt s = (if \<not> ro_opens t then (u, Inl (Safety_Abort Reopen_Fails))
     else case ro_state t of None \<Rightarrow> (did [Ask_Roof] u, Inl (Safety_Abort Reopen_Fails))
       | Some st \<Rightarrow> if st \<noteq> OPEN then (did [Ask_Roof] u, Inl (Safety_Abort Reopen_Unconfirmed))
           else back_to_work tgt (po_floor (ro_poll t)) (po_setup (ro_poll t)) ''resumed (roof reopened)'' w)"
    by (simp add: reopen_roof_def u_def w_def Let_def split: option.split)
  then show ?thesis
    using u onward by (simp add: in_order_def licensed_plain split: option.split)
qed

lemma reopen_loop_keeps:
  assumes "honest (need_safe cfg) s"
  shows "in_order (need_safe cfg) (reopen_loop cfg why tgt began ts p s)"
  using assms
proof (induction ts arbitrary: p s)
  case Nil
  then show ?case
    by (simp add: in_order_def honest_def)
next
  case (Cons t ts)
  define q where "q = ro_poll t"
  define r where "r = read_safety (po_looks q)"
  define v where "v = (did [Read r] s)\<lparr>gd_safe := if reads_safe r then gd_safe s + 1 else 0\<rparr>"
  define again where "again s = (if past_the_limit cfg began q
    then (did [Line ''error'' Closure_Too_Long] s, Inl (Safety_Abort (Unsafe_Too_Long_Closed why))) else reopen_loop cfg why tgt began ts p s)" for s
  have again: "in_order (need_safe cfg) (again s)" if "honest (need_safe cfg) s" for s
    using Cons.IH [OF that] that by (simp add: again_def in_order_def honest_def licensed_plain)
  have v: "honest (need_safe cfg) v"
    using honest_read [OF Cons.prems, of r] by (simp add: v_def)
  consider "po_cut q" | "\<not> po_cut q" "\<not> reads_safe r \<or> gd_safe v < need_safe cfg"
    | "\<not> po_cut q" "reads_safe r" "need_safe cfg \<le> gd_safe v"
    by fastforce
  then show ?case
  proof cases
    case 1
    then show ?thesis
      using Cons.prems by (simp add: q_def in_order_def honest_def)
  next
    case 2
    then have "reopen_loop cfg why tgt began (t # ts) p s = again v"
      by (cases "reads_safe r") (simp_all add: v_def again_def Let_def q_def r_def)
    then show ?thesis
      using again [OF v] by simp
  next
    case 3
    obtain x p2 g where g: "cooler_gate cfg False ''resumed after a roof reopen'' (po_cool q) p v = (x, p2, g)"
      by (metis prod.exhaust)
    note x = cooler_gate_keeps [OF g v]
    define k where "k = read_safety (ro_again t)"
    define y where "y passed = (if passed then did [Read k] x else x)" for passed
    define turned where "turned passed = (did [Line ''info'' Turned_Under_The_Roof, Shown ''paused'' (closed_text why)] (y passed))\<lparr>gd_safe := 0\<rparr>" for passed
    have eq: "reopen_loop cfg why tgt began (t # ts) p s = (case g of Inl out \<Rightarrow> (x, Inl out)
      | Inr passed \<Rightarrow> if passed \<and> reads_safe k then reopen_roof t tgt (y passed) else reopen_loop cfg why tgt began ts p2 (turned passed))"
      using 3 g by (auto simp: v_def Let_def q_def r_def k_def y_def turned_def split: sum.split)
    have y: "licensed_so_far (need_safe cfg) (y passed)" if "g = Inr passed" for passed
      using x that honest_read(2) [of "need_safe cfg" x k] by (cases passed) (simp_all add: y_def)
    have "honest (need_safe cfg) (turned passed)" if "g = Inr passed" for passed
      using y [OF that] by (simp add: turned_def licensed_plain)
    moreover have "Suc (need_safe cfg) \<le> calm (gd_did (y True))" if "g = Inr True" "reads_safe k"
      using x(2) [OF that(1)] that(2) 3(3) by (simp add: y_def honest_def)
    ultimately show ?thesis
      unfolding eq using x(1) y reopen_roof_keeps Cons.IH by (auto simp: in_order_def [of _ "(x, Inl _)"] split: sum.split)
  qed
qed

text \<open>An unsafe verdict by cases, with the states after its record and after its close named.\<close>

definition action_of :: "safety_cfg \<Rightarrow> unsafe_env \<Rightarrow> string" where
  "action_of cfg e = escalated_action (cf_on_unsafe cfg) (cf_close_dome cfg \<and> ue_dome e) cfg"

definition verdict_said :: "safety_cfg \<Rightarrow> unsafe_env \<Rightarrow> string \<Rightarrow> bool \<Rightarrow> guard \<Rightarrow> guard" where
  "verdict_said cfg e why stale s = did [Recorded why (action_of cfg e), Published False why (action_of cfg e) stale,
     Line ''error'' (Unsafe_Found why (action_of cfg e))] (s\<lparr>gd_wait := False\<rparr>)"

definition the_close :: "unsafe_env \<Rightarrow> bool option \<times> wd_step list" where
  "the_close e = close_for_reopen (ue_stop e) (ue_close e) (ue_ended e) (ue_cut e)"

definition after_close :: "safety_cfg \<Rightarrow> unsafe_env \<Rightarrow> string \<Rightarrow> bool \<Rightarrow> guard \<Rightarrow> guard" where
  "after_close cfg e why stale s = did (map Rig (snd (the_close e))) (end_the_wait (gd_wait s) (verdict_said cfg e why stale s))"

lemma on_unsafe_closing:
  assumes "cf_close_dome cfg \<and> ue_dome e" "cf_reopen cfg"
  shows "on_unsafe cfg e why stale tgt s = (case fst (the_close e) of None \<Rightarrow> (after_close cfg e why stale s, Inl Cut)
    | Some shut \<Rightarrow> if shut then await_safe_and_reopen cfg why tgt (ue_closure e)
          (did [Recorded (''roof closed over parked gear: '' @ why) ''close_roof''] (after_close cfg e why stale s))
        else park_hold_pause cfg why tgt (ue_pause e) (did [Line ''warning'' Roof_Refused_Hold,
          Recorded (''roof close refused/failed '' @ [CHR 0xE2, CHR 0x80, CHR 0x94] @ '' gear still under open sky'') ''close_roof_failed'']
          (after_close cfg e why stale s)))"
  using assms by (cases "the_close e"; cases "fst (the_close e)")
    (simp_all add: on_unsafe_def Let_def after_close_def verdict_said_def action_of_def the_close_def)

lemma on_unsafe_ends:
  "cf_close_dome cfg \<and> ue_dome e \<Longrightarrow> \<not> cf_reopen cfg
    \<Longrightarrow> on_unsafe cfg e why stale tgt s = (verdict_said cfg e why stale s, Inl (Safety_Abort (Closing_Roof why)))"
  by (simp add: on_unsafe_def Let_def verdict_said_def action_of_def)

lemma on_unsafe_open:
  "\<not> (cf_close_dome cfg \<and> ue_dome e) \<Longrightarrow> on_unsafe cfg e why stale tgt s =
    (if cf_on_unsafe cfg = ''warn'' then (verdict_said cfg e why stale s, Inr ())
     else if cf_on_unsafe cfg \<in> {''abort_park_warm'', ''park''} then (verdict_said cfg e why stale s, Inl (Safety_Abort (Unsafe_Verdict why)))
     else park_hold_pause cfg why tgt (ue_pause e) (end_the_wait (gd_wait s) (verdict_said cfg e why stale s)))"
  by (auto simp: on_unsafe_def Let_def verdict_said_def action_of_def escalated_action_def)

lemma pause_in_order:
  assumes "licensed_so_far (need_safe cfg) s"
  shows "in_order (need_safe cfg) (park_hold_pause cfg why tgt pe s)"
proof -
  define u where "u = (did [Shown ''paused'' (paused_text why)] (park_hold pe s))\<lparr>gd_safe := 0\<rparr>"
  have "plainly s (park_hold pe s)"
    by (auto simp: park_hold_def plainly_def split: option.split)
  then have "honest (need_safe cfg) u"
    using assms by (simp add: u_def licensed_plain plainlyD)
  then have "honest (need_safe cfg) (fst (pause_stop_unconfirmed False (pe_back pe) u))"
    by (simp add: plainly_honest [OF unconfirmed_plainly])
  from pause_loop_keeps [OF this] show ?thesis
    by (simp add: park_hold_pause_def in_order_def case_prod_unfold Let_def u_def)
qed

lemma closure_in_order:
  "licensed_so_far (need_safe cfg) s \<Longrightarrow> in_order (need_safe cfg) (await_safe_and_reopen cfg why tgt ce s)"
  by (simp add: await_safe_and_reopen_def reopen_loop_keeps licensed_plain)

lemma verdict_plainly: "plainly s (verdict_said cfg e why stale s)" "plainly s (end_the_wait w s)" "plainly s (after_close cfg e why stale s)"
proof -
  show said: "plainly s (verdict_said cfg e why stale s)" for s
    by (simp add: verdict_said_def plainly_def)
  show waited: "plainly s (end_the_wait w s)" for w s
    by (simp add: end_the_wait_def)
  show "plainly s (after_close cfg e why stale s)"
    unfolding after_close_def by (rule plainly_trans [OF plainly_trans [OF said waited] plainly_did [OF plain_rig]])
qed

lemma on_unsafe_keeps:
  assumes "licensed_so_far (need_safe cfg) s"
  shows "licensed_so_far (need_safe cfg) (fst (on_unsafe cfg e why stale tgt s))"
    "cf_on_unsafe cfg \<noteq> ''warn'' \<Longrightarrow> in_order (need_safe cfg) (on_unsafe cfg e why stale tgt s)"
proof -
  let ?n = "need_safe cfg"
  have said: "licensed_so_far ?n (verdict_said cfg e why stale s)" "licensed_so_far ?n (end_the_wait w (verdict_said cfg e why stale s))"
      "licensed_so_far ?n (after_close cfg e why stale s)" for w
    using assms by (simp_all add: plainlyD(2) [OF verdict_plainly(1)] plainlyD(2) [OF verdict_plainly(3)]
        plainlyD(2) [OF plainly_trans [OF verdict_plainly(1) verdict_plainly(2)]])
  have main: "in_order ?n (on_unsafe cfg e why stale tgt s)" if "cf_on_unsafe cfg \<noteq> ''warn'' \<or> (cf_close_dome cfg \<and> ue_dome e)"
  proof (cases "cf_close_dome cfg \<and> ue_dome e")
    case True
    then show ?thesis
      using said(1,3) by (cases "cf_reopen cfg")
        (auto simp: on_unsafe_closing on_unsafe_ends in_order_def [of _ "(_, Inl _)"] licensed_plain
          intro!: pause_in_order closure_in_order split: option.split)
  next
    case False
    then show ?thesis
      using that said by (auto simp: on_unsafe_open in_order_def [of _ "(_, Inl _)"] intro!: pause_in_order)
  qed
  show "cf_on_unsafe cfg \<noteq> ''warn'' \<Longrightarrow> in_order ?n (on_unsafe cfg e why stale tgt s)"
    using main by blast
  show "licensed_so_far ?n (fst (on_unsafe cfg e why stale tgt s))"
    using main said(1) by (cases "cf_on_unsafe cfg \<noteq> ''warn'' \<or> (cf_close_dome cfg \<and> ue_dome e)") (auto simp: in_order_def on_unsafe_open)
qed

lemma in_order_plain: "plainly s s' \<Longrightarrow> licensed_so_far n s \<Longrightarrow> licensed_so_far n s'"
  by (simp add: plainlyD)

lemma note_plainly: "plainly s (note_hold_deferred s)" "plainly s (deferral_over tgt s)"
  by (auto simp: note_hold_deferred_def deferral_over_def Let_def plainly_def)

lemma floor_plainly: "plainly s (fst (slew_floor e s))"
  by (simp add: slew_floor_def)

lemma confirm_keeps:
  assumes "confirm_loop need ms s = (s', r)" "licensed_so_far n s"
  shows "licensed_so_far n s' \<and> (r = Inr False \<longrightarrow> 0 < calm (gd_did s'))"
  using assms
proof (induction ms arbitrary: s)
  case (Cons m ms)
  then show ?case
    by (auto simp: Let_def licensed_snoc split: if_splits)
qed (auto split: if_splits)

text \<open>An open hold stays open through a pause, a closure and a verdict.\<close>

lemma holding_unconfirmed [simp]: "gd_holding (fst (pause_stop_unconfirmed said t s)) = gd_holding s"
  by (simp add: pause_stop_unconfirmed_def Let_def split: option.split)

lemma holding_ask [simp]: "gd_holding (fst (ask_if_due e p s)) = gd_holding s"
  by (simp add: ask_if_due_def case_prod_unfold Let_def)

lemma holding_cool [simp]: "gd_holding (fst (cool_watching asks over reaped ts due p s)) = gd_holding s"
proof (induction ts arbitrary: due p s)
  case (Cons t ts)
  then show ?case
    by (simp add: case_prod_unfold Let_def)
qed simp

lemma holding_cooler: "cooler_gate cfg asks why e p s = (s', p', g) \<Longrightarrow> gd_holding s' = gd_holding s"
  using holding_cool [of asks "cool_and_wait cfg (ce_wait e)" "ce_reaped e" "ce_turns e" "ce_began e + SAFETY_PAUSE_POLL_S" p "did [Line ''info'' (Cooler_Checked why)] s"]
  by (auto simp: cooler_gate_def simp del: holding_cool split: if_splits)

lemma holding_work [simp]: "gd_holding (fst (back_to_work tgt f w d s)) = gd_holding s" "gd_holding (pause_over p s) = gd_holding s"
  by (cases tgt; auto simp: back_to_work_def Let_def pause_over_def split: option.split)+

lemma holding_pause [simp]: "gd_holding (fst (park_hold_pause cfg why tgt e s)) = gd_holding s"
proof -
  define u where "u = (did [Shown ''paused'' (paused_text why)] (park_hold e s))\<lparr>gd_safe := 0\<rparr>"
  have "gd_holding u = gd_holding s"
    by (simp add: u_def park_hold_def split: option.split)
  then have "gd_holding (fst (pause_loop cfg why tgt b qs p (fst (pause_stop_unconfirmed False m u)))) = gd_holding s" for b qs p m
  proof (intro pause_loop_rule [where I = "\<lambda>_ v. gd_holding v = gd_holding s" and Q = "\<lambda>m. gd_holding (fst m) = gd_holding s"])
    fix q p v p' v' g
    assume v: "gd_holding v = gd_holding s" and g: "cooler_gate cfg True ''resumed after a safety pause'' (po_cool q) p v = (v', p', g)"
    have "gd_holding v' = gd_holding s"
      using holding_cooler [OF g] v by simp
    then show "case g of Inl out \<Rightarrow> gd_holding (fst (v', Inl out)) = gd_holding s
      | Inr True \<Rightarrow> gd_holding (fst (back_to_work tgt (po_floor q) (po_setup q) ''resumed (safe)'' (pause_over p' v'))) = gd_holding s
      | Inr False \<Rightarrow> gd_holding ((did [Line ''info'' Turned_While_Stopped, Shown ''paused'' (paused_text why)] v')\<lparr>gd_safe := 0\<rparr>) = gd_holding s"
      by (simp split: sum.split bool.split)
  qed auto
  then show ?thesis
    by (simp add: park_hold_pause_def case_prod_unfold Let_def u_def)
qed

lemma holding_reopen [simp]: "gd_holding (fst (reopen_loop cfg why tgt began ts p s)) = gd_holding s"
proof (induction ts arbitrary: p s)
  case (Cons t ts)
  have roof: "gd_holding (fst (reopen_roof t tgt v)) = gd_holding v" for v
    by (simp add: reopen_roof_def Let_def split: option.split)
  show ?case
    using Cons.IH roof by (auto simp: Let_def dest!: holding_cooler split: prod.split sum.split)
qed simp

lemma holding_unsafe [simp]: "gd_holding (fst (on_unsafe cfg e why stale tgt s)) = gd_holding s"
proof -
  have said: "gd_holding (verdict_said cfg e why stale s) = gd_holding s" "gd_holding (end_the_wait w v) = gd_holding v"
      "gd_holding (after_close cfg e why stale s) = gd_holding s" for w v
    by (simp_all add: verdict_said_def after_close_def end_the_wait_def)
  have closed: "gd_holding (fst (await_safe_and_reopen cfg why tgt ce v)) = gd_holding v" for ce v
    by (simp add: await_safe_and_reopen_def)
  show ?thesis
    using said closed by (cases "cf_close_dome cfg \<and> ue_dome e"; cases "cf_reopen cfg")
      (auto simp: on_unsafe_closing on_unsafe_ends on_unsafe_open split: option.split)
qed

text \<open>Where a hold is open, the gate asks nobody for another.\<close>

lemma holding_confirm: "gd_holding (fst (confirm_loop need ms s)) = gd_holding s"
  by (induction ms arbitrary: s) (simp_all add: Let_def)

lemma holding_read [simp]: "gd_holding (fst (read_monitor cfg e s)) = gd_holding s"
proof -
  obtain u c where c: "confirm_unsafe cfg (ge_samples e) (did [Read (read_safety (ge_looks e))] s) = (u, c)"
    by fastforce
  have "gd_holding u = gd_holding s"
    using holding_confirm [of "nat (max 1 (cf_consecutive cfg))" "ge_samples e" "(did [Read (read_safety (ge_looks e))] s)\<lparr>gd_unsafe := 1, gd_safe := 0\<rparr>"] c
    by (simp add: confirm_unsafe_def)
  then show ?thesis
    unfolding read_monitor_def Let_def c by (auto split: option.split sum.split bool.split)
qed

text \<open>What the gate asks of the hold it may open, and what it gives then.\<close>

locale sky_hold =
  fixes hold :: "safety_cfg \<Rightarrow> holder"
  assumes hold_licensed: "licensed_so_far (need_safe cfg) s \<Longrightarrow> licensed_so_far (need_safe cfg) (fst (hold cfg why s))"
begin

lemma deferred_licensed:
  "licensed_so_far (need_safe cfg) s \<Longrightarrow> licensed_so_far (need_safe cfg) (fst (hold_or_defer (hold cfg) why e tgt s))"
  by (simp add: hold_or_defer_def in_order_plain [OF note_plainly(1)] hold_licensed)

lemma sky_licensed:
  assumes "licensed_so_far (need_safe cfg) s"
  shows "licensed_so_far (need_safe cfg) (fst (no_safety_source cfg (hold cfg) ue e tgt s))"
    "licensed_so_far (need_safe cfg) (fst (monitor_lacks_cloud_source cfg (hold cfg) e tgt s))"
  using assms on_unsafe_keeps(1) [OF assms]
  by (simp_all add: no_safety_source_def monitor_lacks_cloud_source_def Let_def licensed_plain deferred_licensed
      in_order_plain [OF note_plainly(2)])

lemma read_monitor_keeps:
  assumes "licensed_so_far (need_safe cfg) s"
  shows "licensed_so_far (need_safe cfg) (fst (read_monitor cfg e s))"
    "cf_on_unsafe cfg \<noteq> ''warn'' \<Longrightarrow> in_order (need_safe cfg) (read_monitor cfg e s)"
proof -
  define r where "r = read_safety (ge_looks e)"
  define t where "t = did [Read r] s"
  have t: "licensed_so_far (need_safe cfg) t"
    using assms by (simp add: t_def licensed_snoc)
  obtain u c where c: "confirm_unsafe cfg (ge_samples e) t = (u, c)"
    by fastforce
  have u: "licensed_so_far (need_safe cfg) u" "c = Inr False \<Longrightarrow> 0 < calm (gd_did u)"
    using confirm_keeps [OF c [unfolded confirm_unsafe_def], of "need_safe cfg"] t by simp_all
  have eq: "read_monitor cfg e s = (case r of None \<Rightarrow> on_unsafe cfg (ge_unsafe e) ''safety read stale/unavailable'' True (ge_aim e) t
     | Some r \<Rightarrow> if rd_stale r then on_unsafe cfg (ge_unsafe e) ''safety read stale/unavailable'' True (ge_aim e) t
         else if \<not> rd_safe r then (case c of Inl out \<Rightarrow> (u, Inl out)
           | Inr b \<Rightarrow> if b then on_unsafe cfg (ge_unsafe e) (unsafe_words r) False (ge_aim e) u else (u, Inr ()))
         else (t\<lparr>gd_unsafe := 0, gd_safe := gd_safe t + 1\<rparr>, Inr ()))"
    unfolding read_monitor_def Let_def r_def [symmetric] t_def [symmetric] c by (simp split: option.split sum.split bool.split)
  have safe: "0 < calm (gd_did t)" if "r = Some x" "\<not> rd_stale x" "rd_safe x" for x
    using that by (simp add: t_def reads_safe_def)
  show "licensed_so_far (need_safe cfg) (fst (read_monitor cfg e s))"
    unfolding eq using t u on_unsafe_keeps(1) [OF t] on_unsafe_keeps(1) [OF u(1)] by (simp split: option.split sum.split)
  show "in_order (need_safe cfg) (read_monitor cfg e s)" if "cf_on_unsafe cfg \<noteq> ''warn''"
    unfolding eq using t u safe on_unsafe_keeps(2) [OF t that] on_unsafe_keeps(2) [OF u(1) that]
    by (auto simp: in_order_def [of _ "(_, Inl _)"] in_order_def [of _ "(_, Inr _)"] split: option.split sum.split)
qed

lemma ask_licensed:
  assumes "licensed_so_far (need_safe cfg) s"
  shows "licensed_so_far (need_safe cfg) (fst (ask_monitor cfg (hold cfg) e s))"
proof (cases "ge_monitor e")
  case There
  obtain u r where m: "read_monitor cfg e s = (u, r)"
    by fastforce
  have "licensed_so_far (need_safe cfg) u"
    using read_monitor_keeps(1) [OF assms, of e] by (simp add: m)
  then show ?thesis
    by (simp add: ask_monitor_def There m followed_by_def sky_licensed split: sum.split)
qed (use assms in \<open>simp_all add: ask_monitor_def sky_licensed on_unsafe_keeps(1)\<close>)

lemma gate_licensed:
  assumes "licensed_so_far (need_safe cfg) s" "ge_cfg e = Some cfg"
  shows "licensed_so_far (need_safe cfg) (fst (safety_gate (hold cfg) e s))"
proof -
  define m where "m = (case gd_tripped s of None \<Rightarrow> (s, Inr ())
    | Some why \<Rightarrow> on_unsafe cfg (ge_trip e) why False (ge_aim e) (s\<lparr>gd_tripped := None\<rparr>))"
  have m: "licensed_so_far (need_safe cfg) (fst m)"
    using assms(1) by (simp add: m_def on_unsafe_keeps(1) split: option.split)
  have eq: "safety_gate (hold cfg) e s = followed_by m (\<lambda>s. if \<not> cf_armed cfg then slew_floor e s
    else followed_by (ask_monitor cfg (hold cfg) e s) (slew_floor e))"
    by (simp add: safety_gate_def assms(2) m_def)
  show ?thesis
    unfolding eq
    by (rule followed_by_keeps [where P = "licensed_so_far (need_safe cfg)", OF m])
      (auto intro!: followed_by_keeps [where P = "licensed_so_far (need_safe cfg)"] in_order_plain [OF floor_plainly] ask_licensed)
qed

text \<open>The gate fails closed: an armed gate with a monitor that reads clouds lets the run go on only on a safe reading.\<close>

lemma fails_closed:
  assumes "safety_gate (hold cfg) e s = (s', Inr ())" "ge_cfg e = Some cfg" "cf_armed cfg" "cf_on_unsafe cfg \<noteq> ''warn''"
    "ge_monitor e \<noteq> No_Monitor" "cf_reads_clouds cfg \<or> gd_holding s" "licensed_so_far (need_safe cfg) s"
  shows "0 < calm (gd_did s')"
proof -
  define m where "m = (case gd_tripped s of None \<Rightarrow> (s, Inr ())
    | Some why \<Rightarrow> on_unsafe cfg (ge_trip e) why False (ge_aim e) (s\<lparr>gd_tripped := None\<rparr>))"
  have m: "licensed_so_far (need_safe cfg) (fst m)"
    using assms(7) by (simp add: m_def on_unsafe_keeps(1) split: option.split)
  have gate: "followed_by m (\<lambda>s. followed_by (ask_monitor cfg (hold cfg) e s) (slew_floor e)) = (s', Inr ())"
    using assms(1-3) by (simp add: safety_gate_def m_def)
  obtain u where u: "m = (u, Inr ())" "followed_by (ask_monitor cfg (hold cfg) e u) (slew_floor e) = (s', Inr ())"
    using followed_by_Inr [OF gate] by auto
  obtain v where v: "ask_monitor cfg (hold cfg) e u = (v, Inr ())" "slew_floor e v = (s', Inr ())"
    using followed_by_Inr [OF u(2)] by auto
  have licensed_u: "licensed_so_far (need_safe cfg) u"
    using m u(1) by simp
  have "gd_holding (fst m) = gd_holding s"
    by (simp add: m_def split: option.split)
  then have reads: "cf_reads_clouds cfg \<or> gd_holding u"
    using assms(6) u(1) by simp
  have beside: "plainly w (fst (monitor_lacks_cloud_source cfg (hold cfg) (ge_clouds e) (ge_aim e) w))" if "gd_holding w" for w
    using that by (simp add: monitor_lacks_cloud_source_def note_plainly(2))
  obtain w c where rm: "read_monitor cfg e u = (w, c)"
    by fastforce
  have "gd_holding w = gd_holding u"
    using holding_read [of cfg e u] by (simp add: rm)
  then have "in_order (need_safe cfg) (ask_monitor cfg (hold cfg) e u)"
    using assms(4,5) reads on_unsafe_keeps(2) [OF licensed_u assms(4)] read_monitor_keeps(2) [OF licensed_u assms(4), of e]
      plainlyD [OF beside [of w]]
    by (cases "ge_monitor e"; cases c) (auto simp: ask_monitor_def rm in_order_def)
  then have "0 < calm (gd_did v)"
    by (simp add: v(1) in_order_def)
  then show ?thesis
    using plainlyD(1) [OF floor_plainly [of v e]] v(2) by simp
qed

end

section \<open>The stop is asked again at most once a minute\<close>

definition stops :: "guard \<Rightarrow> nat" where
  "stops s = length (filter (\<lambda>x. x = Rig Stop_Track) (gd_did s))"

lemma stops_did [simp]: "stops (did xs s) = stops s + length (filter (\<lambda>x. x = Rig Stop_Track) xs)"
  "stops (s\<lparr>gd_safe := n\<rparr>) = stops s" "stops (s\<lparr>gd_unsafe := n\<rparr>) = stops s" "stops (s\<lparr>gd_idle_open := b\<rparr>) = stops s"
  by (simp_all add: stops_def)

lemma stops_unconfirmed [simp]: "stops (fst (pause_stop_unconfirmed said t s)) = stops s"
  by (simp add: pause_stop_unconfirmed_def Let_def split: option.split)

lemma stops_quietly: "length (filter (\<lambda>x. x = Rig Stop_Track) (map Rig (stop_tracking_quietly t))) \<le> 1"
  by (simp add: stop_tracking_quietly_def)

lemma stops_work [simp]: "stops (fst (back_to_work tgt f w detail s)) = stops s" "stops (pause_over p s) = stops s"
  by (cases tgt; auto simp: back_to_work_def Let_def pause_over_def split: option.split)+

text \<open>An ask takes no negative time and is over by \<open>T\<close>.\<close>

definition timely :: "rat \<Rightarrow> ask_env \<Rightarrow> bool" where
  "timely T e = (ak_now e \<le> ak_later e \<and> ak_later e \<le> T)"

definition spaced :: "rat \<Rightarrow> nat \<Rightarrow> rat \<Rightarrow> pausing \<Rightarrow> guard \<Rightarrow> bool" where
  "spaced T b start p s = (b \<le> stops s \<and> 60 * of_nat (stops s - b) \<le> pa_next p - start \<and> pa_next p \<le> T + 60)"

lemma spaced_plain [simp]:
  "spaced T b start p (did xs s) = spaced T b start p s" if "Rig Stop_Track \<notin> set xs"
proof -
  have "filter (\<lambda>x. x = Rig Stop_Track) xs = []"
    using that by (auto simp: filter_empty_conv)
  then show ?thesis
    by (simp add: spaced_def)
qed

lemma spaced_update [simp]: "spaced T b start p (s\<lparr>gd_safe := n\<rparr>) = spaced T b start p s"
  by (simp add: spaced_def)

lemma ask_spaced:
  assumes "timely T e" "spaced T b start p s"
  shows "spaced T b start (snd (ask_if_due e p s)) (fst (ask_if_due e p s))"
proof (cases "\<not> pa_unconfirmed p \<or> ak_now e < pa_next p")
  case True
  then show ?thesis
    using assms(2) by (simp add: ask_if_due_def)
next
  case False
  define s1 where "s1 = fst (ask_if_due e p s)"
  define p1 where "p1 = snd (ask_if_due e p s)"
  have next1: "pa_next p1 = ak_later e + 60"
    using False by (simp add: p1_def ask_if_due_def case_prod_unfold Let_def IDLE_STOP_RETRY_S_def)
  have le: "stops s \<le> stops s1" "stops s1 \<le> Suc (stops s)"
    using False stops_quietly [of "ak_stop e"] by (auto simp: s1_def ask_if_due_def case_prod_unfold Let_def)
  then have "stops s1 - b \<le> Suc (stops s - b)"
    by arith
  then have "of_nat (stops s1 - b) \<le> (of_nat (Suc (stops s - b)) :: rat)"
    by (rule of_nat_mono)
  then have "60 * of_nat (stops s1 - b) \<le> (60 :: rat) * of_nat (stops s - b) + 60"
    by simp
  moreover have "pa_next p + 60 \<le> pa_next p1" "pa_next p1 \<le> T + 60"
    using False assms(1) next1 by (simp_all add: timely_def)
  ultimately have "spaced T b start p1 s1"
    using assms(2) le(1) unfolding spaced_def by linarith
  then show ?thesis
    by (simp add: s1_def p1_def)
qed

lemma cool_spaced:
  assumes "cool_watching asks over reaped ts due p s = (s', p', r)" "spaced T b start p s" "\<forall>t \<in> set ts. timely T (ct_ask t)"
  shows "spaced T b start p' s'"
  using assms
proof (induction ts arbitrary: due p s)
  case (Cons t ts)
  obtain u q where a: "(if asks then ask_if_due (ct_ask t) p s else (s, p)) = (u, q)"
    by fastforce
  have u: "spaced T b start q u"
    using ask_spaced [of T "ct_ask t" b start p s] Cons.prems(2,3) a by (cases asks) simp_all
  define v where "v = did [Read (read_safety (ct_looks t))] u"
  have v: "spaced T b start q v"
    using u by (simp add: v_def)
  consider "ct_cut t" | "\<not> ct_cut t" "ct_now t < due" | "\<not> ct_cut t" "\<not> ct_now t < due" "reads_safe (read_safety (ct_looks t))"
    | "\<not> ct_cut t" "\<not> ct_now t < due" "\<not> reads_safe (read_safety (ct_looks t))"
    by blast
  then show ?case
  proof cases
    case 1
    then show ?thesis
      using Cons.prems by simp
  next
    case 2
    then show ?thesis
      using Cons.IH [of due q u] Cons.prems u by (simp add: a)
  next
    case 3
    then show ?thesis
      using Cons.IH [of "ct_now t + SAFETY_PAUSE_POLL_S" q v] Cons.prems v by (simp add: a Let_def v_def)
  next
    case 4
    then show ?thesis
      using Cons.prems v by (auto simp: a Let_def v_def)
  qed
qed auto

text \<open>However long a pause lasts, the stop of tracking it made is asked for again at most once a minute, from the
  loop and from the cooler gate together: after \<open>T\<close> seconds at most \<open>T / 60\<close> times.\<close>

theorem stop_is_asked_once_a_minute:
  assumes "pe_asked e \<le> T" "\<forall>q \<in> set (pe_polls e). timely T (po_ask q) \<and> (\<forall>t \<in> set (ce_turns (po_cool q)). timely T (ct_ask t))"
  shows "60 * of_nat (stops (fst (park_hold_pause cfg why tgt e s)) - stops (fst (park_hold_pause cfg why tgt (e\<lparr>pe_polls := []\<rparr>) s)))
    \<le> T - pe_asked e"
proof -
  let ?polls = "pe_polls e"
  define u where "u = (did [Shown ''paused'' (paused_text why)] (park_hold e s))\<lparr>gd_safe := 0\<rparr>"
  define u1 where "u1 = fst (pause_stop_unconfirmed False (pe_back e) u)"
  define p1 where "p1 = \<lparr>pa_unconfirmed = snd (pause_stop_unconfirmed False (pe_back e) u), pa_next = pe_asked e + 60, pa_leaned = pe_idle e\<rparr>"
  have eq: "fst (park_hold_pause cfg why tgt (e\<lparr>pe_polls := qs\<rparr>) s) = fst (pause_loop cfg why tgt (pe_began e) qs p1 u1)" for qs
    by (simp add: park_hold_pause_def park_hold_def u_def u1_def p1_def case_prod_unfold Let_def IDLE_STOP_RETRY_S_def)
  define Q where "Q m = (60 * of_nat (stops (fst m) - stops u1) \<le> T - pe_asked e)" for m :: "guard \<times> (stop_reason + unit)"
  define I where "I p t = spaced T (stops u1) (pe_asked e + 60) p t" for p t
  have out: "Q (t, r)" if "I p t" for p t r
    using that unfolding Q_def I_def spaced_def fst_conv by linarith
  have work: "Q (back_to_work tgt f w d (pause_over p t))" if "I p t" for p t f w d
    using out [OF that] by (simp add: Q_def)
  have "Q (pause_loop cfg why tgt (pe_began e) ?polls p1 u1)"
  proof (rule pause_loop_rule [where I = I])
    show "I p1 u1"
      using assms(1) by (simp add: I_def spaced_def p1_def)
    show "I (snd (ask_if_due (po_ask q) p t)) (fst (ask_if_due (po_ask q) p t))" if "q \<in> set ?polls" "I p t" for q p t
      using that assms(2) ask_spaced by (simp add: I_def)
    show "I p ((did [Read r] t)\<lparr>gd_safe := if reads_safe r then gd_safe t + 1 else 0\<rparr>)" if "I p t" for r p t
      using that by (simp add: I_def)
    show "Q (did [Line ''error'' Pause_Too_Long] t, Inl (Safety_Abort (Unsafe_Too_Long why)))" if "I p t" for p t
      using out [OF that] by (simp add: Q_def)
    fix q p t p' t' g
    assume q: "q \<in> set ?polls" and t: "I p t" and g: "cooler_gate cfg True ''resumed after a safety pause'' (po_cool q) p t = (t', p', g)"
    have "I p' t'"
    proof (cases "cf_cools cfg")
      case True
      have "spaced T (stops u1) (pe_asked e + 60) p (did [Line ''info'' (Cooler_Checked ''resumed after a safety pause'')] t)"
        using t by (simp add: I_def)
      from cool_spaced [OF _ this] show ?thesis
        using g True q assms(2) by (simp add: cooler_gate_def I_def)
    qed (use t g in \<open>simp add: cooler_gate_def\<close>)
    then show "case g of Inl out \<Rightarrow> Q (t', Inl out)
      | Inr True \<Rightarrow> Q (back_to_work tgt (po_floor q) (po_setup q) ''resumed (safe)'' (pause_over p' t'))
      | Inr False \<Rightarrow> I p' ((did [Line ''info'' Turned_While_Stopped, Shown ''paused'' (paused_text why)] t')\<lparr>gd_safe := 0\<rparr>)"
      using out work by (auto simp: I_def split: sum.split bool.split)
  qed (use out in auto)
  then show ?thesis
    using eq [of ?polls] eq [of "[]"] by (simp add: Q_def)
qed

section \<open>A pause with a limit ends\<close>

lemma work_ends: "snd (back_to_work tgt f w detail s) \<noteq> Inl Awaiting"
  by (cases tgt) (auto simp: back_to_work_def Let_def split: option.split)

lemma cooling_ends:
  "over \<noteq> Still_Cooling \<Longrightarrow> snd (snd (cool_watching asks over reaped ts due p s)) \<noteq> Inl Awaiting"
proof (induction ts arbitrary: due p s)
  case Nil
  then show ?case
    by (cases over) simp_all
next
  case (Cons t ts)
  then show ?case
    by (auto simp: Let_def split: prod.split option.split)
qed

text \<open>The sensor's wait ends by itself: a probe after its two bounds is its last.\<close>

definition probed_out :: "safety_cfg \<Rightarrow> cool_wait \<Rightarrow> bool" where
  "probed_out cfg w = (\<exists>q \<in> set (cw_probes w). cw_began w + cf_cool_timeout_s cfg + COOLER_SETTLE_MAX_S \<le> cp_now q)"

lemma wait_ends: "probed_out cfg w \<Longrightarrow> cool_and_wait cfg w \<noteq> Still_Cooling"
  using probing_ends [of "cw_probes w" "cw_began w + cf_cool_timeout_s cfg" None "cf_cool_to cfg" False]
  by (auto simp: cool_and_wait_def probed_out_def cooling_failed_def split: camera_now.split probed.split)

lemma cooler_ends: "cool_and_wait cfg (ce_wait e) \<noteq> Still_Cooling \<Longrightarrow> cooler_gate cfg asks why e p s = (s', p', Inl out) \<Longrightarrow> out \<noteq> Awaiting"
  using cooling_ends [of "cool_and_wait cfg (ce_wait e)" asks "ce_reaped e" "ce_turns e" "ce_began e + SAFETY_PAUSE_POLL_S" p
      "did [Line ''info'' (Cooler_Checked why)] s"]
  by (auto simp: cooler_gate_def split: if_splits)

lemma pause_loop_ends:
  assumes "\<exists>q \<in> set qs. past_the_limit cfg began q" "\<forall>q \<in> set qs. cool_and_wait cfg (ce_wait (po_cool q)) \<noteq> Still_Cooling"
  shows "snd (pause_loop cfg why tgt began qs p s) \<noteq> Inl Awaiting"
  using assms
proof (induction qs arbitrary: p s)
  case (Cons q qs)
  define again where "again p s = (if past_the_limit cfg began q
    then (did [Line ''error'' Pause_Too_Long] s, Inl (Safety_Abort (Unsafe_Too_Long why))) else pause_loop cfg why tgt began qs p s)" for p s
  have again: "snd (again p s) \<noteq> Inl Awaiting" for p s
    using Cons.IH Cons.prems by (auto simp: again_def)
  obtain u p1 where a: "ask_if_due (po_ask q) p s = (u, p1)"
    by fastforce
  define v where "v = (did [Read (read_safety (po_looks q))] u)\<lparr>gd_safe := gd_safe u + 1\<rparr>"
  obtain x p2 g where g: "cooler_gate cfg True ''resumed after a safety pause'' (po_cool q) p1 v = (x, p2, g)"
    by (metis prod.exhaust)
  have out: "out \<noteq> Awaiting" if "g = Inl out" for out
    using cooler_ends [OF _ g [unfolded that]] Cons.prems(2) by simp
  have "pause_loop cfg why tgt began (q # qs) p s = (if po_cut q then (s, Inl Cut)
    else if \<not> reads_safe (read_safety (po_looks q)) then again p1 ((did [Read (read_safety (po_looks q))] u)\<lparr>gd_safe := 0\<rparr>)
    else if gd_safe v < need_safe cfg then again p1 v
    else case g of Inl out \<Rightarrow> (x, Inl out)
      | Inr passed \<Rightarrow> if passed then back_to_work tgt (po_floor q) (po_setup q) ''resumed (safe)'' (pause_over p2 x)
        else again p2 ((did [Line ''info'' Turned_While_Stopped, Shown ''paused'' (paused_text why)] x)\<lparr>gd_safe := 0\<rparr>))"
    using g by (auto simp: a v_def again_def Let_def split: sum.split bool.split)
  then show ?case
    using again out work_ends by (auto split: sum.split)
qed simp

text \<open>C11. A pause under a limit ends: once a turn of it is past \<open>max_pause_min\<close>, the pause has given the run back, ended it
  or been cut, whatever the monitor, the sensor and the mount answered; it does not wait on. Nor does a wait for the
  sensor within it, for as long as its probes go on: each has a probe past the cooling timeout and the time allowed to
  settle, if it has not ended before.\<close>

theorem pause_under_a_limit_ends:
  assumes "\<exists>q \<in> set (pe_polls e). past_the_limit cfg (pe_began e) q"
    and "\<forall>q \<in> set (pe_polls e). cool_and_wait cfg (ce_wait (po_cool q)) = Still_Cooling \<longrightarrow> probed_out cfg (ce_wait (po_cool q))"
  shows "snd (park_hold_pause cfg why tgt e s) \<noteq> Inl Awaiting"
proof -
  have "\<forall>q \<in> set (pe_polls e). cool_and_wait cfg (ce_wait (po_cool q)) \<noteq> Still_Cooling"
    using assms(2) wait_ends by blast
  from pause_loop_ends [OF assms(1) this] show ?thesis
    by (simp add: park_hold_pause_def case_prod_unfold Let_def)
qed

text \<open>Where there is no limit and no monitor, a pause has nothing to end it, the one of a tripped watchdog included.\<close>

lemma pause_without_a_monitor:
  assumes "cf_max_pause_min cfg \<le> 0" "\<forall>q \<in> set qs. po_looks q = [None] \<and> \<not> po_cut q"
  shows "snd (pause_loop cfg why tgt began qs p s) = Inl Awaiting"
  using assms
proof (induction qs arbitrary: p s)
  case (Cons q qs)
  then show ?case
    by (simp add: case_prod_unfold Let_def read_safety_def reads_safe_def past_the_limit_def)
qed simp

lemma watchdog_trip_without_a_monitor_never_ends:
  assumes "ge_cfg e = Some cfg" "gd_tripped s = Some why" "cf_on_unsafe cfg = ''pause''" "\<not> cf_close_dome cfg" "cf_max_pause_min cfg \<le> 0"
    "\<forall>q \<in> set (pe_polls (ue_pause (ge_trip e))). po_looks q = [None] \<and> \<not> po_cut q"
  shows "snd (safety_gate hold e s) = Inl Awaiting"
proof -
  define t where "t = s\<lparr>gd_tripped := None\<rparr>"
  have "snd (on_unsafe cfg (ge_trip e) why False (ge_aim e) t) = Inl Awaiting"
    using assms(3-6) pause_without_a_monitor
    by (simp add: on_unsafe_def Let_def escalated_action_def park_hold_pause_def case_prod_unfold)
  moreover obtain u r where m: "on_unsafe cfg (ge_trip e) why False (ge_aim e) t = (u, r)"
    by fastforce
  ultimately show ?thesis
    using assms(1,2) by (simp add: safety_gate_def t_def [symmetric])
qed

text \<open>Under the closed roof a turn in which the weather came back just before the roof was to open goes round without
  the question how long the wait has lasted, so that such turns outlast the limit.\<close>

lemma turning_weather_outlasts_the_limit:
  assumes "need_safe cfg = 1" "\<not> cf_cools cfg"
    "\<forall>t \<in> set ts. \<not> po_cut (ro_poll t) \<and> reads_safe (read_safety (po_looks (ro_poll t))) \<and> \<not> reads_safe (read_safety (ro_again t))"
  shows "snd (reopen_loop cfg why tgt began ts p s) = Inl Awaiting"
  using assms
proof (induction ts arbitrary: p s)
  case (Cons t ts)
  then show ?case
    by (simp add: cooler_gate_def Let_def)
qed simp

section \<open>What is recorded is what is done\<close>

text \<open>The roof is asked to move, or the whole close of it is under way.\<close>

fun roof_moves :: "gate_step \<Rightarrow> bool" where
  "roof_moves Open_Roof = True"
| "roof_moves (Rig (Roof Close_Shutter)) = True"
| "roof_moves _ = False"

text \<open>The trace grows, and from \<open>s\<close> to \<open>s'\<close> the roof is left alone.\<close>

definition roof_alone :: "guard \<Rightarrow> guard \<Rightarrow> bool" where
  "roof_alone s s' = (\<exists>xs. gd_did s' = gd_did s @ xs \<and> list_all (\<lambda>x. \<not> roof_moves x) xs)"

lemma roof_aloneD:
  assumes "roof_alone s t"
  obtains new where "gd_did t = gd_did s @ new" "list_all (\<lambda>x. \<not> roof_moves x) new" "Open_Roof \<notin> set new"
  using assms unfolding roof_alone_def list_all_iff by (metis roof_moves.simps(1))

lemma roof_alone_refl [simp]: "roof_alone s s"
  by (simp add: roof_alone_def)

lemma roof_alone_trans [trans]: "roof_alone s t \<Longrightarrow> roof_alone t u \<Longrightarrow> roof_alone s u"
  unfolding roof_alone_def by (metis append.assoc list_all_append)

lemma roof_alone_did [simp]: "list_all (\<lambda>x. \<not> roof_moves x) xs \<Longrightarrow> roof_alone s (did xs s)"
  by (simp add: roof_alone_def)

lemma roof_alone_fields [simp]:
  "roof_alone s (t\<lparr>gd_safe := n\<rparr>) = roof_alone s t" "roof_alone s (t\<lparr>gd_unsafe := n\<rparr>) = roof_alone s t"
  "roof_alone s (t\<lparr>gd_idle_open := b\<rparr>) = roof_alone s t" "roof_alone (s\<lparr>gd_wait := b\<rparr>) t = roof_alone s t"
  by (simp_all add: roof_alone_def)

lemma alone_did: "roof_alone s t \<Longrightarrow> list_all (\<lambda>x. \<not> roof_moves x) xs \<Longrightarrow> roof_alone s (did xs t)"
  using roof_alone_trans roof_alone_did by blast

lemma alone_stop: "list_all (\<lambda>x. \<not> roof_moves x) (map Rig (stop_tracking_quietly t))"
  by (simp add: stop_tracking_quietly_def)

lemma alone_unconfirmed: "roof_alone s t \<Longrightarrow> roof_alone s (fst (pause_stop_unconfirmed said m t))"
  by (auto simp: pause_stop_unconfirmed_def Let_def intro!: alone_did split: option.split)

lemma alone_ask: "roof_alone s t \<Longrightarrow> roof_alone s (fst (ask_if_due e p t))"
  by (auto simp: ask_if_due_def case_prod_unfold Let_def intro!: alone_unconfirmed alone_did alone_stop)

lemma alone_cool: "roof_alone s t \<Longrightarrow> roof_alone s (fst (cool_watching asks over reaped ts due p t))"
proof (induction ts arbitrary: due p t)
  case (Cons c ts)
  define u where "u = fst (if asks then ask_if_due (ct_ask c) p t else (t, p))"
  have "roof_alone s u"
    using Cons.prems alone_ask by (simp add: u_def)
  moreover have "roof_alone s (did [Read r] u)" for r
    using alone_did [OF calculation, of "[Read r]"] by simp
  ultimately show ?case
    using Cons by (simp add: case_prod_unfold Let_def u_def)
qed simp

lemma alone_cooler:
  assumes "roof_alone s t" "cooler_gate cfg asks why e p t = (t', p', g)"
  shows "roof_alone s t'"
proof -
  have "roof_alone s (fst (cooler_gate cfg asks why e p t))"
    using assms(1) by (simp add: cooler_gate_def alone_cool alone_did)
  then show ?thesis
    by (simp add: assms(2))
qed

lemma alone_work: "roof_alone s t \<Longrightarrow> roof_alone s (fst (back_to_work tgt f w detail t))"
  by (cases tgt) (auto simp: back_to_work_def Let_def intro!: alone_did split: option.split)

lemma alone_over: "roof_alone s t \<Longrightarrow> roof_alone s (pause_over p t)"
  by (simp add: pause_over_def Let_def alone_did)

lemma alone_pause: "roof_alone s t \<Longrightarrow> roof_alone s (fst (park_hold_pause cfg why tgt e t))"
proof -
  assume t: "roof_alone s t"
  define u where "u = (did [Shown ''paused'' (paused_text why)] (park_hold e t))\<lparr>gd_safe := 0\<rparr>"
  have "roof_alone s u"
    using t by (auto simp: u_def park_hold_def intro!: alone_did alone_stop split: option.split)
  then have start: "roof_alone s (fst (pause_stop_unconfirmed False (pe_back e) u))"
    by (rule alone_unconfirmed)
  have "roof_alone s (fst (pause_loop cfg why tgt (pe_began e) (pe_polls e) p (fst (pause_stop_unconfirmed False (pe_back e) u))))" for p
  proof (rule pause_loop_rule [where I = "\<lambda>_ t. roof_alone s t" and Q = "\<lambda>m. roof_alone s (fst m)"])
    fix q p v p' v' g
    assume v: "roof_alone s v" and g: "cooler_gate cfg True ''resumed after a safety pause'' (po_cool q) p v = (v', p', g)"
    have "roof_alone s v'"
      by (rule alone_cooler [OF v g])
    then show "case g of Inl out \<Rightarrow> roof_alone s (fst (v', Inl out))
      | Inr True \<Rightarrow> roof_alone s (fst (back_to_work tgt (po_floor q) (po_setup q) ''resumed (safe)'' (pause_over p' v')))
      | Inr False \<Rightarrow> roof_alone s ((did [Line ''info'' Turned_While_Stopped, Shown ''paused'' (paused_text why)] v')\<lparr>gd_safe := 0\<rparr>)"
      by (auto simp: alone_work alone_over alone_did split: sum.split bool.split)
  qed (auto simp: start alone_ask alone_did)
  then show ?thesis
    by (simp add: park_hold_pause_def case_prod_unfold Let_def u_def)
qed

definition extends :: "guard \<Rightarrow> guard \<Rightarrow> bool" where
  "extends s s' = (\<exists>xs. gd_did s' = gd_did s @ xs)"

lemma alone_extends: "roof_alone s t \<Longrightarrow> extends s t"
  by (auto simp: extends_def roof_alone_def)

lemma extends_did: "extends s t \<Longrightarrow> extends s (did xs t)"
  by (auto simp: extends_def)

lemma extends_fields [simp]: "extends s (t\<lparr>gd_safe := n\<rparr>) = extends s t" "extends s (t\<lparr>gd_unsafe := n\<rparr>) = extends s t"
  by (simp_all add: extends_def)

lemma extends_trans: "extends s t \<Longrightarrow> extends t u \<Longrightarrow> extends s u"
  by (auto simp: extends_def)

lemma extends_work: "extends s t \<Longrightarrow> extends s (fst (back_to_work tgt f w d t))"
  using extends_trans alone_extends [OF alone_work [OF roof_alone_refl]] by blast

lemma extends_reopen: "extends s (fst (reopen_roof t tgt s))"
proof -
  have "extends s (s\<lparr>gd_unsafe := 0\<rparr>)"
    by (simp add: extends_def)
  then show ?thesis
    by (auto simp: reopen_roof_def Let_def intro!: extends_work extends_did split: option.split)
qed

lemma extends_loop: "extends s (fst (reopen_loop cfg why tgt began ts p s))"
proof (induction ts arbitrary: p s)
  case Nil
  then show ?case
    by (simp add: extends_def)
next
  case (Cons t ts)
  have loop: "extends s (fst (reopen_loop cfg why tgt began ts p u))" if "extends s u" for p u
    using Cons.IH extends_trans [OF that] by blast
  have s: "extends s s"
    by (simp add: extends_def)
  have roof: "extends s (fst (reopen_roof t tgt u))" if "extends s u" for u
    using extends_reopen extends_trans [OF that] by blast
  have cool: "extends s u'" if "extends s u" "cooler_gate cfg False ''resumed after a roof reopen'' c p u = (u', p', g)" for c p u u' p' g
    using alone_extends [OF alone_cooler [OF roof_alone_refl that(2)]] extends_trans [OF that(1)] by blast
  show ?case
    by (auto simp: Let_def extends_did s intro!: loop roof extends_did dest!: cool [rotated] split: prod.split sum.split)
qed

lemma said_trace: "gd_did (verdict_said cfg e why stale s) = gd_did s @ [Recorded why (action_of cfg e),
    Published False why (action_of cfg e) stale, Line ''error'' (Unsafe_Found why (action_of cfg e))]"
  by (simp add: verdict_said_def)

lemma unless_closed:
  assumes "cf_close_dome cfg \<and> ue_dome e" "cf_reopen cfg"
  shows "\<exists>new. gd_did (fst (on_unsafe cfg e why stale tgt s)) = gd_did (verdict_said cfg e why stale s) @ new
    \<and> (Open_Roof \<in> set new \<longrightarrow> fst (the_close e) = Some True)"
proof -
  define t where "t = after_close cfg e why stale s"
  define xs where "xs = (if gd_wait s then [End_The_Wait] else []) @ map Rig (snd (the_close e))"
  have xs: "gd_did t = gd_did (verdict_said cfg e why stale s) @ xs" "Open_Roof \<notin> set xs"
    by (auto simp: t_def after_close_def end_the_wait_def xs_def)
  show ?thesis
  proof (cases "fst (the_close e)")
    case None
    then show ?thesis
      using xs by (simp add: on_unsafe_closing assms t_def)
  next
    case (Some shut)
    show ?thesis
    proof (cases shut)
      case True
      have "extends t (fst (await_safe_and_reopen cfg why tgt ce (did ys t)))" for ce ys
        unfolding await_safe_and_reopen_def by (rule extends_trans [OF _ extends_loop]) (simp add: extends_def)
      then show ?thesis
        using xs(1) Some True by (auto simp: on_unsafe_closing assms t_def [symmetric] extends_def)
    next
      case False
      let ?u = "did [Line ''warning'' Roof_Refused_Hold,
          Recorded (''roof close refused/failed '' @ [CHR 0xE2, CHR 0x80, CHR 0x94] @ '' gear still under open sky'') ''close_roof_failed''] t"
      have "roof_alone t ?u"
        by (rule roof_alone_did) simp
      then have "roof_alone t (fst (park_hold_pause cfg why tgt (ue_pause e) ?u))"
        by (rule alone_pause)
      then obtain ys where "gd_did (fst (park_hold_pause cfg why tgt (ue_pause e) ?u)) = gd_did t @ ys" "Open_Roof \<notin> set ys"
        by (rule roof_aloneD)
      then show ?thesis
        using xs Some False by (simp add: on_unsafe_closing assms t_def [symmetric])
    qed
  qed
qed

text \<open>C10. The action an unsafe verdict records is the one it takes: a recorded \<open>warn\<close> stops nothing and goes on, a
  recorded end of the run ends it at once with nothing moved, a recorded pause leaves the roof alone, and the roof
  opens again only under a recorded close that was confirmed.\<close>

theorem recorded_action_is_taken:
  assumes "cf_on_unsafe cfg \<in> {''abort_park_warm'', ''park'', ''pause'', ''warn''}"
  shows "\<exists>act new. gd_did (fst (on_unsafe cfg e why stale tgt s)) =
        gd_did s @ [Recorded why act, Published False why act stale, Line ''error'' (Unsafe_Found why act)] @ new
    \<and> (act = ''warn'' \<longrightarrow> snd (on_unsafe cfg e why stale tgt s) = Inr () \<and> new = [])
    \<and> (act \<in> {''abort_park_warm'', ''park'', ''abort_park_close''}
        \<longrightarrow> new = [] \<and> (\<exists>c. snd (on_unsafe cfg e why stale tgt s) = Inl (Safety_Abort c)))
    \<and> (act \<noteq> ''close_roof_wait'' \<longrightarrow> list_all (\<lambda>x. \<not> roof_moves x) new)
    \<and> (Open_Roof \<in> set new \<longrightarrow> fst (close_for_reopen (ue_stop e) (ue_close e) (ue_ended e) (ue_cut e)) = Some True)"
proof -
  let ?act = "action_of cfg e"
  consider "cf_close_dome cfg \<and> ue_dome e" "cf_reopen cfg" | "cf_close_dome cfg \<and> ue_dome e" "\<not> cf_reopen cfg"
    | "\<not> (cf_close_dome cfg \<and> ue_dome e)" "cf_on_unsafe cfg \<noteq> ''pause''" | "\<not> (cf_close_dome cfg \<and> ue_dome e)" "cf_on_unsafe cfg = ''pause''"
    by blast
  then show ?thesis
  proof cases
    case 1
    then have "?act = ''close_roof_wait''"
      by (simp add: action_of_def escalated_action_def)
    with unless_closed [OF 1, of why stale tgt s] show ?thesis
      by (intro exI [of _ ?act]) (auto simp: said_trace the_close_def)
  next
    case 2
    then show ?thesis
      by (intro exI [of _ ?act] exI [of _ "[]"]) (simp add: on_unsafe_ends said_trace action_of_def escalated_action_def)
  next
    case 3
    then show ?thesis
      using assms by (intro exI [of _ ?act] exI [of _ "[]"]) (auto simp: on_unsafe_open said_trace action_of_def escalated_action_def)
  next
    case 4
    let ?m = "park_hold_pause cfg why tgt (ue_pause e) (end_the_wait (gd_wait s) (verdict_said cfg e why stale s))"
    have "roof_alone (verdict_said cfg e why stale s) (end_the_wait (gd_wait s) (verdict_said cfg e why stale s))"
      by (simp add: end_the_wait_def)
    then have "roof_alone (verdict_said cfg e why stale s) (fst ?m)"
      by (rule alone_pause)
    then obtain new where "gd_did (fst ?m) = gd_did (verdict_said cfg e why stale s) @ new" "list_all (\<lambda>x. \<not> roof_moves x) new"
        "Open_Roof \<notin> set new"
      by (rule roof_aloneD)
    then show ?thesis
      using 4 by (intro exI [of _ ?act] exI [of _ new]) (simp add: on_unsafe_open said_trace action_of_def escalated_action_def)
  qed
qed

section \<open>A pause, evaluated\<close>

definition a_cfg :: safety_cfg where
  "a_cfg = \<lparr>cf_armed = True, cf_on_unsafe = ''pause'', cf_consecutive = 1, cf_resume = 2, cf_max_pause_min = 60, cf_close_dome = False,
     cf_reopen = False, cf_require_monitor = False, cf_sky_fallback = True, cf_reads_clouds = True, cf_cools = True,
     cf_cool_to = -5, cf_cool_timeout_s = 600, cf_require_cooling = False, cf_cooling_action = ''warn''\<rparr>"

text \<open>A sensor that a probe finds out of its band and that then settles, two minutes in it; and one that never gets there.\<close>

definition settling :: "rat \<Rightarrow> cool_wait" where
  "settling t = \<lparr>cw_camera = Camera_Gone, cw_again = Has_Cooler, cw_commanded = True, cw_began = t,
     cw_probes = map (\<lambda>(dt, c). \<lparr>cp_now = t + dt, cp_reads = c\<rparr>) [(0, Some 16), (5, None), (10, Some (-4)), (130, Some (-5))]\<rparr>"

lemma settling_settles:
  "cool_and_wait a_cfg (settling 7) = Settled"
  "cool_and_wait a_cfg ((settling 7)\<lparr>cw_probes := take 3 (cw_probes (settling 7))\<rparr>) = Still_Cooling"
  "cool_and_wait (a_cfg\<lparr>cf_require_cooling := True, cf_cooling_action := ''abort''\<rparr>)
     ((settling 7)\<lparr>cw_probes := [\<lparr>cp_now = 606, cp_reads = None\<rparr>, \<lparr>cp_now = 611, cp_reads = None\<rparr>]\<rparr>)
   = Cooling_Raises ''cooling required but cooler did not reach its band in time''"
  by code_simp+

definition a_look :: "bool \<Rightarrow> reading option list" where
  "a_look safe = [None, Some \<lparr>rd_safe = safe, rd_stale = False, rd_reason = ''rain'', rd_source = ''weather''\<rparr>]"

definition a_poll :: "bool \<times> rat \<Rightarrow> poll" where
  "a_poll x = (case x of (safe, t) \<Rightarrow> \<lparr>po_cut = False,
     po_ask = \<lparr>ak_now = t, ak_idle = False, ak_again = None, ak_stop = a_stop, ak_back = None, ak_later = t\<rparr>, po_looks = a_look safe,
     po_cool = \<lparr>ce_began = t, ce_turns = [], ce_wait = settling t, ce_reaped = None\<rparr>, po_floor = None, po_setup = None, po_clock = t\<rparr>)"

definition a_pause :: "(bool \<times> rat) list \<Rightarrow> pause_env" where
  "a_pause qs = \<lparr>pe_guider = Some True, pe_stop = a_stop, pe_back = Some a_stop, pe_began = 0, pe_asked = 0, pe_idle = False,
     pe_polls = map a_poll qs\<rparr>"

definition a_verdict :: "(bool \<times> rat) list \<Rightarrow> unsafe_env" where
  "a_verdict qs = \<lparr>ue_dome = False, ue_stop = a_stop, ue_close = a_refusal, ue_ended = False, ue_cut = None, ue_pause = a_pause qs,
     ue_closure = \<lparr>cl_began = 0, cl_turns = []\<rparr>\<rparr>"

definition a_gate :: "bool \<Rightarrow> (bool \<times> rat) list \<Rightarrow> gate_env" where
  "a_gate safe qs = \<lparr>ge_cfg = Some a_cfg, ge_slew = False, ge_aim = None, ge_monitor = There, ge_looks = a_look safe, ge_samples = [],
     ge_trip = a_verdict qs, ge_unsafe = a_verdict qs, ge_sky = \<lparr>sk_simulated = False, sk_now = 0, sk_day_darks = False\<rparr>,
     ge_clouds = \<lparr>sk_simulated = False, sk_now = 0, sk_day_darks = False\<rparr>, ge_floor = None\<rparr>"

definition new_guard :: "cloud_state \<Rightarrow> guard" where
  "new_guard c = \<lparr>gd_unsafe = 0, gd_safe = 0, gd_tripped = None, gd_no_source_said = False, gd_no_clouds_said = False,
     gd_deferred = False, gd_deferred_said = False, gd_holding = False, gd_wait = False, gd_idle_open = False, gd_clouds = c, gd_did = []\<rparr>"

lemma pause_under_a_limit_ends_witness:
  "snd (park_hold_pause a_cfg ''rain'' None (a_pause [(False, 1800), (True, 3600)]) (new_guard (cloud_init 2 900))) \<noteq> Inl Awaiting"
proof (rule pause_under_a_limit_ends)
  have "cool_and_wait a_cfg (settling 1800) \<noteq> Still_Cooling" "cool_and_wait a_cfg (settling 3600) \<noteq> Still_Cooling"
    by code_simp+
  then show "\<forall>q \<in> set (pe_polls (a_pause [(False, 1800), (True, 3600)])).
      cool_and_wait a_cfg (ce_wait (po_cool q)) = Still_Cooling \<longrightarrow> probed_out a_cfg (ce_wait (po_cool q))"
    by (simp add: a_pause_def a_poll_def)
qed (simp_all add: a_pause_def a_poll_def past_the_limit_def a_cfg_def)

lemma recorded_action_is_taken_witness:
  "\<exists>act new. gd_did (fst (on_unsafe a_cfg (a_verdict [(True, 5), (True, 10)]) ''rain'' False None (new_guard (cloud_init 2 900)))) =
     [Recorded ''rain'' act, Published False ''rain'' act False, Line ''error'' (Unsafe_Found ''rain'' act)] @ new"
  using recorded_action_is_taken [of a_cfg "a_verdict [(True, 5), (True, 10)]" "''rain''" False None "new_guard (cloud_init 2 900)"]
  by (simp add: a_cfg_def new_guard_def) (elim exE conjE, intro exI, assumption)

end
