(* ===== verification/Cloud_Hold.thy ===== *)
theory Cloud_Hold
  imports Safety_Gate
begin

text \<open>
  The hold for clear sky (\<open>server/astrodeck/sequence/engine.py\<close>, \<open>_hold_for_clear\<close>), which the safety gate opens
  where the frames say that the sky has closed in, and the wait for the sensor beside the monitor
  (\<open>_wait_beside_the_monitor\<close>) of its release.

  A hold is a function on the list of its passes. A pass asks the whole safety gate again, whose own answer to a cloudy
  sky would be another hold; it finds one open. The looks at the mount, its re-pointing, the darks, the probe's
  verdict and the setup are answers of a pass, with what they raise.
\<close>

section \<open>A wait beside the monitor\<close>

text \<open>One beginning of the wait: the gates asked while it lasts, how it ends, and what it raised when it was ended.\<close>

record beside =
  bs_gates :: "gate_env list"
  bs_over :: cool_wait
  bs_reaped :: "string option"

text \<open>The gate of a wait or a hold: at a frame, with the target's acquisition waiting behind it.\<close>

definition frame_gate :: "safety_cfg \<Rightarrow> aim option \<Rightarrow> gate_env \<Rightarrow> gate_env" where
  "frame_gate cfg tgt e = e\<lparr>ge_cfg := Some cfg, ge_slew := False, ge_aim := map_option (\<lambda>a. a\<lparr>am_behind := True\<rparr>) tgt\<rparr>"

definition ended_by :: "guard \<Rightarrow> guard \<Rightarrow> bool" where
  "ended_by s s' = (End_The_Wait \<in> set (drop (length (gd_did s)) (gd_did s')))"

fun gates_beside :: "safety_cfg \<Rightarrow> holder \<Rightarrow> aim option \<Rightarrow> gate_env list \<Rightarrow> guard \<Rightarrow> guard \<times> (stop_reason + bool)" where
  "gates_beside cfg hold tgt [] s = (s, Inr False)"
| "gates_beside cfg hold tgt (e # es) s = (case safety_gate hold (frame_gate cfg tgt e) (s\<lparr>gd_wait := True\<rparr>) of
     (s', r) \<Rightarrow> let s' = s'\<lparr>gd_wait := False\<rparr> in
       case r of Inl out \<Rightarrow> (s', Inl out)
       | Inr _ \<Rightarrow> if ended_by s s' then (s', Inr True) else gates_beside cfg hold tgt es s')"

fun wait_beside_the_monitor :: "safety_cfg \<Rightarrow> holder \<Rightarrow> aim option \<Rightarrow> beside list \<Rightarrow> guard \<Rightarrow> guard \<times> (stop_reason + unit)" where
  "wait_beside_the_monitor cfg hold tgt [] s = (s, Inl Awaiting)"
| "wait_beside_the_monitor cfg hold tgt (b # bs) s = (case gates_beside cfg hold tgt (bs_gates b) s of
     (s, Inl out) \<Rightarrow> (s, Inl out)
   | (s, Inr True) \<Rightarrow> (case bs_reaped b of Some why \<Rightarrow> (s, Inl (Safety_Abort (Cooling_Failed why)))
       | None \<Rightarrow> wait_beside_the_monitor cfg hold tgt bs s)
   | (s, Inr False) \<Rightarrow> (s, case cool_and_wait cfg (bs_over b) of Settled \<Rightarrow> Inr () | Cooling_Raises why \<Rightarrow> Inl (Safety_Abort (Cooling_Failed why))
       | Still_Cooling \<Rightarrow> Inl Awaiting))"

text \<open>The cooler gate of a hold's release: beside the monitor where there is one to read.\<close>

record release_env =
  re_assigned :: bool
  re_beside :: "beside list"
  re_alone :: cool_wait
  re_setup :: "stop_reason + unit"

definition monitor_to_read :: "safety_cfg \<Rightarrow> bool \<Rightarrow> bool" where
  "monitor_to_read cfg assigned = (cf_armed cfg \<and> (assigned \<or> cf_require_monitor cfg))"

definition release_cooler_gate :: "safety_cfg \<Rightarrow> holder \<Rightarrow> aim option \<Rightarrow> release_env \<Rightarrow> guard \<Rightarrow> guard \<times> (stop_reason + unit)" where
  "release_cooler_gate cfg hold tgt e s =
     (if \<not> cf_cools cfg then (s, Inr ())
      else let s = did [Line ''info'' (Cooler_Checked ''resumed after cloud'')] s in
        if monitor_to_read cfg (re_assigned e) then wait_beside_the_monitor cfg hold tgt (re_beside e) s
        else (s, case cool_and_wait cfg (re_alone e) of Settled \<Rightarrow> Inr () | Cooling_Raises why \<Rightarrow> Inl (Safety_Abort (Cooling_Failed why))
          | Still_Cooling \<Rightarrow> Inl Awaiting))"

section \<open>The hold\<close>

definition CLOUD_RESUME_CLEAR_PROBES :: nat where "CLOUD_RESUME_CLEAR_PROBES = 2"
definition CLOUD_MAX_HOLD_MIN :: rat where "CLOUD_MAX_HOLD_MIN = 45"

text \<open>A pass: a cancel at its checkpoint, the end of the night, the gate, the clock, whether a dark was taken, what the
  looks raise or why they leave the mount stopped, what the mount says of tracking, whether the run stopped it, the
  re-point and the restored tracking, and the probe.\<close>

record hold_pass =
  hp_cut :: bool
  hp_night :: "stop_reason option"
  hp_gate :: gate_env
  hp_clock :: rat
  hp_dark :: bool
  hp_look :: "stop_reason + string option"
  hp_tracking :: "bool option"
  hp_stopped :: bool
  hp_point :: "stop_reason + string option"
  hp_stop :: stop_env
  hp_track :: "stop_reason + unit"
  hp_probe :: "bool option"
  hp_release :: release_env

definition on_the_sky :: "aim option \<Rightarrow> bool" where
  "on_the_sky tgt = (case tgt of None \<Rightarrow> False | Some a \<Rightarrow> \<not> am_calibration a)"

text \<open>A second request while a hold is open.\<close>

definition refuse_hold :: holder where
  "refuse_hold why s = (did [Line ''warning'' (Already_Holding why)] s, Inr ())"

text \<open>The mount is pointed at the target, or stopped with the reason why not (\<open>_hold_park\<close>). Later looks say whether it
  stays stopped.\<close>

definition point_or_park :: "stop_reason + string option \<Rightarrow> stop_env \<Rightarrow> guard \<Rightarrow> guard \<times> (stop_reason + unit)" where
  "point_or_park point st s = (let s = did [Held Point] s in
     case point of Inl out \<Rightarrow> (s, Inl out)
     | Inr None \<Rightarrow> (s, Inr ())
     | Inr (Some why) \<Rightarrow> (did (Line ''warning'' (Mount_Stopped why) # map Rig (stop_tracking_quietly st)
         @ [Shown ''holding'' (''held for cloud - the mount is stopped: '' @ why)]) s, Inr ()))"

text \<open>The part of a pass in front of the probe: the three guards, the limit, the dark, the looks. The gate may ask for a
  hold; the one it asks is given, since it finds this one open below.\<close>

definition hold_guards :: "holder \<Rightarrow> safety_cfg \<Rightarrow> aim option \<Rightarrow> rat \<Rightarrow> hold_pass \<Rightarrow> guard \<Rightarrow> guard \<times> (stop_reason + unit)" where
  "hold_guards hold cfg tgt began h s =
     (if hp_cut h then (s, Inl Cut)
      else case hp_night h of Some out \<Rightarrow> (s, Inl out)
      | None \<Rightarrow> followed_by (safety_gate hold (frame_gate cfg tgt (hp_gate h)) s)
          (\<lambda>s. let s = did [Held Alerts_Tick] s in
             if 60 * CLOUD_MAX_HOLD_MIN \<le> hp_clock h - began then (s, Inl (Safety_Abort Hold_Too_Long))
             else (did ((if hp_dark h then [Held Dark_Frame] else []) @ [Held Beam_Back, Held Mount_Look]) s, Inr ())))"

definition release_hold :: "safety_cfg \<Rightarrow> aim option \<Rightarrow> release_env \<Rightarrow> guard \<Rightarrow> guard \<times> (stop_reason + unit)" where
  "release_hold cfg tgt e s = (let behind = (case tgt of None \<Rightarrow> False | Some a \<Rightarrow> \<not> am_calibration a \<and> am_behind a) in
     followed_by (release_cooler_gate cfg refuse_hold tgt e (did [Line ''info'' (Sky_Cleared behind)] s))
       (\<lambda>s. followed_by (if on_the_sky tgt \<and> \<not> behind then (did [Set_Up] s, re_setup e) else (s, Inr ()))
         (\<lambda>s. (did [Held Beam_Back, Shown ''running'' ''resumed after cloud''] s, Inr ()))))"

fun hold_loop :: "safety_cfg \<Rightarrow> aim option \<Rightarrow> rat \<Rightarrow> hold_pass list \<Rightarrow> nat \<Rightarrow> guard \<Rightarrow> guard \<times> (stop_reason + unit)" where
  "hold_loop cfg tgt began [] clear s = (s, Inl Awaiting)"
| "hold_loop cfg tgt began (h # hs) clear s = followed_by (hold_guards refuse_hold cfg tgt began h s)
     (\<lambda>s. case hp_look h of Inl out \<Rightarrow> (s, Inl out)
       | Inr (Some _) \<Rightarrow> hold_loop cfg tgt began hs 0 s
       | Inr None \<Rightarrow>
         if on_the_sky tgt \<and> hp_tracking h = Some False then
           followed_by (if hp_stopped h
               then point_or_park (hp_point h) (hp_stop h) (did [Line ''warning'' Pointing_Back, Shown ''holding'' ''pointing back''] s)
               else followed_by (did [Line ''warning'' Stopped_On_Its_Own, Shown ''holding'' ''restoring tracking'', Held Track_Again] s, hp_track h)
                 (\<lambda>s. (did [Shown ''holding'' ''held for cloud''] s, Inr ())))
             (hold_loop cfg tgt began hs 0)
         else let s = did [Held (Probe (hp_probe h))] s in
           if hp_probe h \<noteq> Some False then hold_loop cfg tgt began hs 0 s
           else if clear + 1 < CLOUD_RESUME_CLEAR_PROBES then hold_loop cfg tgt began hs (clear + 1) s
           else release_hold cfg tgt (hp_release h) s)"

record hold_env =
  ho_began :: rat
  ho_elsewhere :: bool
  ho_point :: "stop_reason + string option"
  ho_stop :: stop_env
  ho_passes :: "hold_pass list"

text \<open>The way out takes the hold with it; while it still waits it is on.\<close>

definition end_hold :: "guard \<times> (stop_reason + unit) \<Rightarrow> guard \<times> (stop_reason + unit)" where
  "end_hold m = (case m of (s, r) \<Rightarrow>
     if r = Inl Awaiting then (s, r)
     else ((case r of Inr _ \<Rightarrow> s | Inl (Stop_Target _) \<Rightarrow> did [Shown ''running'' ''cloud hold ended''] s | Inl _ \<Rightarrow> did [Republished] s)
       \<lparr>gd_holding := False\<rparr>, r))"

definition hold_for_clear :: "safety_cfg \<Rightarrow> aim option \<Rightarrow> hold_env \<Rightarrow> holder" where
  "hold_for_clear cfg tgt e why s =
     (if gd_holding s then refuse_hold why s
      else end_hold (followed_by
        (let s = did [Held Guider_Stands_Down, Line ''warning'' (Holding_For why), Shown ''holding'' ''held for cloud''] (s\<lparr>gd_holding := True\<rparr>) in
         if on_the_sky tgt \<and> ho_elsewhere e then point_or_park (ho_point e) (ho_stop e) s else (s, Inr ()))
        (hold_loop cfg tgt (ho_began e) (ho_passes e) 0)))"

section \<open>One hold at a time\<close>

lemma sky_asks_no_hold:
  assumes "gd_holding s"
  shows "no_safety_source cfg h ue e tgt s = no_safety_source cfg h' ue e tgt s"
    "monitor_lacks_cloud_source cfg h e tgt s = monitor_lacks_cloud_source cfg h' e tgt s"
    "gd_holding (fst (no_safety_source cfg h ue e tgt s))" "gd_holding (fst (monitor_lacks_cloud_source cfg h e tgt s))"
  using assms by (simp_all add: no_safety_source_def monitor_lacks_cloud_source_def deferral_over_def Let_def)

lemma ask_asks_no_hold:
  assumes "gd_holding s"
  shows "ask_monitor cfg h e s = ask_monitor cfg h' e s \<and> gd_holding (fst (ask_monitor cfg h e s))"
proof (cases "ge_monitor e")
  case There
  obtain u r where m: "read_monitor cfg e s = (u, r)"
    by fastforce
  have "gd_holding u"
    using holding_read [of cfg e s] assms by (simp add: m)
  then show ?thesis
    by (cases r) (simp_all add: ask_monitor_def There m sky_asks_no_hold(2) [of u cfg h "ge_clouds e" "ge_aim e" h'] sky_asks_no_hold(4))
next
  case No_Monitor
  then show ?thesis
    using assms sky_asks_no_hold(1) [OF assms, of cfg h _ _ _ h'] by (simp add: ask_monitor_def sky_asks_no_hold(3))
qed (use assms in \<open>simp add: ask_monitor_def\<close>)

text \<open>Where a hold is open, the gate asks nobody for another.\<close>

lemma gate_asks_no_hold:
  assumes "gd_holding s"
  shows "safety_gate h e s = safety_gate h' e s \<and> gd_holding (fst (safety_gate h e s))"
proof (cases "ge_cfg e")
  case (Some cfg)
  define m where "m = (case gd_tripped s of None \<Rightarrow> (s, Inr ())
    | Some why \<Rightarrow> on_unsafe cfg (ge_trip e) why False (ge_aim e) (s\<lparr>gd_tripped := None\<rparr>))"
  obtain u r where u: "m = (u, r)"
    by fastforce
  have "gd_holding (fst m)"
    using assms by (simp add: m_def split: option.split)
  then have h: "gd_holding u"
    by (simp add: u)
  have gate: "safety_gate k e s = followed_by (u, r) (\<lambda>s. if \<not> cf_armed cfg then slew_floor e s
    else followed_by (ask_monitor cfg k e s) (slew_floor e))" for k
    by (simp add: safety_gate_def Some m_def [symmetric] u)
  have floor: "gd_holding (fst (slew_floor e v)) = gd_holding v" for v
    by (simp add: slew_floor_def)
  have after: "gd_holding (fst (followed_by (ask_monitor cfg h e u) (slew_floor e)))"
    using ask_asks_no_hold [OF h, of cfg h e h] by (intro followed_by_keeps [where P = gd_holding]) (simp_all add: floor)
  show ?thesis
    using ask_asks_no_hold [OF h, of cfg h e h'] h after floor by (cases r) (simp_all add: gate)
qed (use assms in \<open>simp add: safety_gate_def\<close>)

text \<open>One hold owns the sky: the gate a hold asks in each pass may open a hold itself, any hold, on any sky, and it
  never does; the pass is the same as with a gate that cannot, and the hold stays the only one.\<close>

theorem one_hold_at_a_time:
  assumes "gd_holding s"
  shows "hold_guards hold cfg tgt began h s = hold_guards refuse_hold cfg tgt began h s
    \<and> gd_holding (fst (hold_guards hold cfg tgt began h s))"
proof -
  let ?e = "frame_gate cfg tgt (hp_gate h)"
  have gate: "safety_gate hold ?e s = safety_gate refuse_hold ?e s" "gd_holding (fst (safety_gate refuse_hold ?e s))"
    using gate_asks_no_hold [OF assms, of hold ?e refuse_hold] gate_asks_no_hold [OF assms, of refuse_hold ?e hold] by simp_all
  define f where "f = (\<lambda>s. let s = did [Held Alerts_Tick] s in
    if 60 * CLOUD_MAX_HOLD_MIN \<le> hp_clock h - began then (s, Inl (Safety_Abort Hold_Too_Long))
    else (did ((if hp_dark h then [Held Dark_Frame] else []) @ [Held Beam_Back, Held Mount_Look]) s, Inr ()))"
  have "gd_holding (fst (followed_by (safety_gate refuse_hold ?e s) f))"
    by (rule followed_by_keeps [where P = gd_holding, OF gate(2)]) (simp add: f_def Let_def)
  then show ?thesis
    unfolding hold_guards_def f_def [symmetric] gate(1) using assms by (simp split: option.split)
qed

section \<open>A hold keeps the gate's promises\<close>

interpretation refused: sky_hold "\<lambda>_. refuse_hold"
  by unfold_locales (simp add: refuse_hold_def licensed_plain)

lemma guards_licensed:
  assumes "licensed_so_far (need_safe cfg) s"
  shows "licensed_so_far (need_safe cfg) (fst (hold_guards refuse_hold cfg tgt began h s))"
proof -
  define f where "f = (\<lambda>s. let s = did [Held Alerts_Tick] s in
    if 60 * CLOUD_MAX_HOLD_MIN \<le> hp_clock h - began then (s, Inl (Safety_Abort Hold_Too_Long))
    else (did ((if hp_dark h then [Held Dark_Frame] else []) @ [Held Beam_Back, Held Mount_Look]) s, Inr ()))"
  have "licensed_so_far (need_safe cfg) (fst (safety_gate refuse_hold (frame_gate cfg tgt (hp_gate h)) s))"
    using refused.gate_licensed [OF assms, of "frame_gate cfg tgt (hp_gate h)"] by (simp add: frame_gate_def)
  then have "licensed_so_far (need_safe cfg) (fst (followed_by (safety_gate refuse_hold (frame_gate cfg tgt (hp_gate h)) s) f))"
    by (rule followed_by_keeps [where P = "licensed_so_far (need_safe cfg)"]) (simp add: f_def Let_def licensed_plain)
  then show ?thesis
    unfolding hold_guards_def f_def [symmetric] using assms by (simp split: option.split)
qed

lemma gates_beside_licensed:
  "licensed_so_far (need_safe cfg) s \<Longrightarrow> licensed_so_far (need_safe cfg) (fst (gates_beside cfg refuse_hold tgt es s))"
proof (induction es arbitrary: s)
  case (Cons e es)
  obtain u r where g: "safety_gate refuse_hold (frame_gate cfg tgt e) (s\<lparr>gd_wait := True\<rparr>) = (u, r)"
    by fastforce
  have "licensed_so_far (need_safe cfg) (fst (safety_gate refuse_hold (frame_gate cfg tgt e) (s\<lparr>gd_wait := True\<rparr>)))"
    by (rule refused.gate_licensed) (use Cons.prems in \<open>simp_all add: frame_gate_def\<close>)
  then have "licensed_so_far (need_safe cfg) u"
    by (simp add: g)
  then show ?case
    using Cons.IH by (simp add: g Let_def split: sum.split)
qed simp

lemma beside_licensed:
  "licensed_so_far (need_safe cfg) s \<Longrightarrow> licensed_so_far (need_safe cfg) (fst (wait_beside_the_monitor cfg refuse_hold tgt bs s))"
proof (induction bs arbitrary: s)
  case (Cons b bs)
  obtain u r where g: "gates_beside cfg refuse_hold tgt (bs_gates b) s = (u, r)"
    by fastforce
  have "licensed_so_far (need_safe cfg) u"
    using gates_beside_licensed [OF Cons.prems, of tgt "bs_gates b"] by (simp add: g)
  then show ?case
    using Cons.IH by (simp add: g split: sum.split option.split bool.split)
qed simp

lemma release_licensed:
  assumes "licensed_so_far (need_safe cfg) s"
  shows "licensed_so_far (need_safe cfg) (fst (release_hold cfg tgt e s))"
proof -
  have cooled: "licensed_so_far (need_safe cfg) (fst (release_cooler_gate cfg refuse_hold tgt e (did [Line ''info'' (Sky_Cleared b)] s)))" for b
    using assms by (simp add: release_cooler_gate_def Let_def licensed_plain beside_licensed)
  show ?thesis
    unfolding release_hold_def Let_def
    by (intro followed_by_keeps [where P = "licensed_so_far (need_safe cfg)"] cooled) (simp_all add: licensed_plain)
qed

lemma hold_loop_licensed:
  "licensed_so_far (need_safe cfg) s \<Longrightarrow> licensed_so_far (need_safe cfg) (fst (hold_loop cfg tgt began hs clear s))"
proof (induction hs arbitrary: clear s)
  case (Cons h hs)
  have point: "licensed_so_far (need_safe cfg) (fst (point_or_park pt st u))" if "licensed_so_far (need_safe cfg) u" for pt st u
    using that by (simp add: point_or_park_def Let_def licensed_plain split: sum.split option.split)
  show ?case
    unfolding hold_loop.simps
  proof (rule followed_by_keeps [where P = "licensed_so_far (need_safe cfg)", OF guards_licensed [OF Cons.prems]])
    fix u
    assume u: "licensed_so_far (need_safe cfg) u"
    show "licensed_so_far (need_safe cfg) (fst (case hp_look h of Inl out \<Rightarrow> (u, Inl out)
       | Inr (Some _) \<Rightarrow> hold_loop cfg tgt began hs 0 u
       | Inr None \<Rightarrow>
         if on_the_sky tgt \<and> hp_tracking h = Some False then
           followed_by (if hp_stopped h
               then point_or_park (hp_point h) (hp_stop h) (did [Line ''warning'' Pointing_Back, Shown ''holding'' ''pointing back''] u)
               else followed_by (did [Line ''warning'' Stopped_On_Its_Own, Shown ''holding'' ''restoring tracking'', Held Track_Again] u, hp_track h)
                 (\<lambda>s. (did [Shown ''holding'' ''held for cloud''] s, Inr ())))
             (hold_loop cfg tgt began hs 0)
         else let s = did [Held (Probe (hp_probe h))] u in
           if hp_probe h \<noteq> Some False then hold_loop cfg tgt began hs 0 s
           else if clear + 1 < CLOUD_RESUME_CLEAR_PROBES then hold_loop cfg tgt began hs (clear + 1) s
           else release_hold cfg tgt (hp_release h) s))"
      using u Cons.IH by (auto simp: Let_def licensed_plain release_licensed point split: sum.split option.split
          intro!: followed_by_keeps [where P = "licensed_so_far (need_safe cfg)"])
  qed
qed simp

interpretation cloud_hold: sky_hold "\<lambda>cfg. hold_for_clear cfg tgt e"
proof
  fix s cfg why
  assume s: "licensed_so_far (need_safe cfg) s"
  have ends: "licensed_so_far (need_safe cfg) (fst (end_hold m))" if "licensed_so_far (need_safe cfg) (fst m)" for m
    using that by (simp add: end_hold_def case_prod_unfold licensed_plain split: sum.split stop_reason.split)
  show "licensed_so_far (need_safe cfg) (fst (hold_for_clear cfg tgt e why s))"
    using s unfolding hold_for_clear_def Let_def
    by (auto simp: refuse_hold_def licensed_plain point_or_park_def Let_def split: sum.split option.split
        intro!: ends followed_by_keeps [where P = "licensed_so_far (need_safe cfg)"] hold_loop_licensed)
qed

section \<open>The gate of a run\<close>

text \<open>A run asks its gate again and again, each time with the hold that the gate may open. Between two gates the frames
  of the run feed the cloud state, and the watchdog over them may trip.\<close>

record since_the_last =
  si_tripped :: "string option"
  si_clouds :: cloud_state

definition run_gate :: "safety_cfg \<Rightarrow> guard \<Rightarrow> since_the_last \<times> gate_env \<times> hold_env \<Rightarrow> guard \<times> (stop_reason + unit)" where
  "run_gate cfg s x = (case x of (b, e, h) \<Rightarrow> safety_gate (hold_for_clear cfg (ge_aim e) h) (e\<lparr>ge_cfg := Some cfg\<rparr>)
     (s\<lparr>gd_tripped := si_tripped b, gd_clouds := si_clouds b\<rparr>))"

interpretation gates: machine "\<lambda>s x. fst (run_gate cfg s x)" "licensed_so_far (need_safe cfg)"
proof
  fix s and x :: "since_the_last \<times> gate_env \<times> hold_env"
  assume s: "licensed_so_far (need_safe cfg) s"
  obtain b e h where x: "x = (b, e, h)"
    using prod_cases3 by blast
  show "licensed_so_far (need_safe cfg) (fst (run_gate cfg s x))"
    unfolding run_gate_def x prod.case by (rule cloud_hold.gate_licensed) (use s in simp_all)
qed

lemma reachable_licensed: "licensed_so_far (need_safe cfg) (run (\<lambda>s x. fst (run_gate cfg s x)) (new_guard c) xs)"
  by (rule gates.inv_run) (simp add: new_guard_def)

text \<open>C5. Through all the gates of a run, with their pauses, closures and holds, the weather is published as safe only
  right after as many safe readings in a row as the settings ask for, and the roof opens only after one more, read when
  the sensor had settled.\<close>

theorem releases_are_earned:
  assumes "gd_did (run (\<lambda>s x. fst (run_gate cfg s x)) (new_guard c) xs) = pre @ x # post"
  shows "(x = Open_Roof \<longrightarrow> Suc (need_safe cfg) \<le> calm pre)
    \<and> (\<forall>why act stale. x = Published True why act stale \<longrightarrow> need_safe cfg \<le> calm pre)"
proof -
  have "needs (need_safe cfg) x \<le> calm pre"
    using reachable_licensed [of cfg c xs] assms by (simp add: licensed_def)
  then show ?thesis
    by auto
qed

text \<open>The trace ends with a safe reading.\<close>

lemma calm_safe_reading:
  assumes "0 < calm tr"
  shows "\<exists>pre r post. tr = pre @ Read r # post \<and> reads_safe r \<and> (\<forall>x \<in> set post. \<not> is_read x)"
  using assms
proof (induction tr rule: rev_induct)
  case (snoc x tr)
  show ?case
  proof (cases "is_read x")
    case True
    then obtain r where "x = Read r"
      by (cases x) auto
    then show ?thesis
      using snoc.prems by (intro exI [of _ tr] exI [of _ r] exI [of _ "[]"]) (simp split: if_splits)
  next
    case False
    then obtain pre r post where "tr = pre @ Read r # post" "reads_safe r" "\<forall>x \<in> set post. \<not> is_read x"
      using snoc by auto
    then show ?thesis
      using False by (intro exI [of _ pre] exI [of _ r] exI [of _ "post @ [x]"]) auto
  qed
qed (simp add: calm_def readings_def)

text \<open>C4. The gate fails closed: armed, with a monitor that is assigned and reads clouds, and any action but \<open>warn\<close>, it
  lets the run go on only when its last reading was fresh and safe. A stale or missing reading, a monitor that is gone
  and a confirmed unsafe verdict never pass, whatever pause, closure and reopening lie between.\<close>

theorem gate_fails_closed:
  assumes "run_gate cfg (run (\<lambda>s x. fst (run_gate cfg s x)) (new_guard c) xs) (b, e, h) = (s', Inr ())"
    "cf_armed cfg" "cf_reads_clouds cfg" "cf_on_unsafe cfg \<noteq> ''warn''" "ge_monitor e \<noteq> No_Monitor"
  shows "\<exists>pre r post. gd_did s' = pre @ Read r # post \<and> reads_safe r \<and> (\<forall>x \<in> set post. \<not> is_read x)"
proof (rule calm_safe_reading)
  define s where "s = run (\<lambda>s x. fst (run_gate cfg s x)) (new_guard c) xs"
  have s: "licensed_so_far (need_safe cfg) (s\<lparr>gd_tripped := si_tripped b, gd_clouds := si_clouds b\<rparr>)"
    using reachable_licensed [of cfg c xs] by (simp add: s_def)
  show "0 < calm (gd_did s')"
    by (rule cloud_hold.fails_closed [OF assms(1) [folded s_def, unfolded run_gate_def prod.case] _ assms(2,4) _ disjI1 [OF assms(3)] s])
      (use assms(5) in simp_all)
qed

section \<open>A hold is released by the sky\<close>

text \<open>The pass took a probe on a mount it did not find stopped, and read it clear.\<close>

definition saw_clear :: "aim option \<Rightarrow> hold_pass \<Rightarrow> bool" where
  "saw_clear tgt h = (hp_look h = Inr None \<and> \<not> (on_the_sky tgt \<and> hp_tracking h = Some False) \<and> hp_probe h = Some False)"

lemma followed_by_snd:
  assumes "snd (followed_by m f) = Inr b"
  obtains v where "snd (f v) = Inr b"
  using assms by (cases m; cases "snd m") auto

lemma released_loop:
  assumes "snd (hold_loop cfg tgt began hs clear s) = Inr ()" "clear \<le> 1"
  shows "(clear = 1 \<and> (\<exists>h ys. hs = h # ys \<and> saw_clear tgt h)) \<or> (\<exists>xs g h ys. hs = xs @ g # h # ys \<and> saw_clear tgt g \<and> saw_clear tgt h)"
  using assms
proof (induction hs arbitrary: clear s)
  case (Cons h hs)
  obtain u where u: "hold_guards refuse_hold cfg tgt began h s = (u, Inr ())"
    using Cons.prems(1) by (cases "hold_guards refuse_hold cfg tgt began h s"; cases "snd (hold_guards refuse_hold cfg tgt began h s)") auto
  show ?case
  proof (cases "saw_clear tgt h")
    case False
    have "\<exists>v. snd (hold_loop cfg tgt began hs 0 v) = Inr ()"
    proof (cases "hp_look h")
      case (Inl out)
      then show ?thesis
        using Cons.prems(1) u by simp
    next
      case (Inr parked)
      then show ?thesis
        using Cons.prems(1) False u
        by (cases parked) (auto simp: saw_clear_def Let_def split: if_splits dest!: arg_cong [where f = snd] prod_eqI [of _ "(_, _)"]
            elim!: followed_by_snd)
    qed
    then show ?thesis
      using Cons.IH [of 0] by (metis append_Cons zero_le zero_neq_one)
  next
    case True
    then have next_one: "clear = 0 \<Longrightarrow> \<exists>v. snd (hold_loop cfg tgt began hs 1 v) = Inr ()"
      using Cons.prems(1) u by (auto simp: saw_clear_def Let_def CLOUD_RESUME_CLEAR_PROBES_def)
    show ?thesis
    proof (cases "clear = 1")
      case True
      then show ?thesis
        using \<open>saw_clear tgt h\<close> by blast
    next
      case False
      then have "clear = 0"
        using Cons.prems(2) by simp
      with next_one Cons.IH [of 1] show ?thesis
        using True by (metis append_Cons append_Nil order_refl)
    qed
  qed
qed simp

text \<open>A hold lets go only of a sky seen clear twice running: two passes next to each other whose probe was clear, each
  on a mount that no look had stopped and that was not found standing.\<close>

theorem hold_is_released_by_the_sky:
  assumes "hold_for_clear cfg tgt e why s = (s', Inr ())" "\<not> gd_holding s"
  shows "\<exists>xs g h ys. ho_passes e = xs @ g # h # ys \<and> saw_clear tgt g \<and> saw_clear tgt h"
proof -
  have "\<exists>v. snd (hold_loop cfg tgt (ho_began e) (ho_passes e) 0 v) = Inr ()"
    using assms by (auto simp: hold_for_clear_def end_hold_def Let_def case_prod_unfold split: if_splits elim!: followed_by_snd)
  then show ?thesis
    using released_loop [of cfg tgt "ho_began e" "ho_passes e" 0] by auto
qed

text \<open>Every gate of a pass has a monitor, and so has every gate of the release's wait.\<close>

definition monitored :: "hold_pass \<Rightarrow> bool" where
  "monitored h = (ge_monitor (hp_gate h) \<noteq> No_Monitor
     \<and> (\<forall>b \<in> set (re_beside (hp_release h)). \<forall>e \<in> set (bs_gates b). ge_monitor e \<noteq> No_Monitor))"

definition watched :: "safety_cfg \<Rightarrow> guard \<Rightarrow> bool" where
  "watched cfg s = (licensed_so_far (need_safe cfg) s \<and> gd_holding s \<and> 0 < calm (gd_did s))"

lemma watched_plain: "watched cfg s \<Longrightarrow> plain xs \<Longrightarrow> watched cfg (did xs s)"
  by (simp add: watched_def licensed_plain)

definition strict :: "safety_cfg \<Rightarrow> bool" where
  "strict cfg = (cf_armed cfg \<and> cf_on_unsafe cfg \<noteq> ''warn'')"

lemma frame_gate_watched:
  assumes "safety_gate refuse_hold (frame_gate cfg tgt e) s = (s', Inr b)" "ge_monitor e \<noteq> No_Monitor"
    "licensed_so_far (need_safe cfg) s" "gd_holding s" "strict cfg"
  shows "watched cfg s'"
proof -
  have m: "ge_cfg (frame_gate cfg tgt e) = Some cfg" "ge_monitor (frame_gate cfg tgt e) \<noteq> No_Monitor"
    using assms(2) by (simp_all add: frame_gate_def)
  have "0 < calm (gd_did s')"
    using refused.fails_closed [OF _ m(1) _ _ m(2) _ assms(3)] assms(1,4,5) by (simp add: strict_def)
  moreover have "gd_holding s'"
    using gate_asks_no_hold [OF assms(4), of refuse_hold "frame_gate cfg tgt e" refuse_hold] assms(1) by simp
  moreover have "licensed_so_far (need_safe cfg) s'"
    using refused.gate_licensed [OF assms(3) m(1)] assms(1) by simp
  ultimately show ?thesis
    by (simp add: watched_def)
qed

lemma gates_watched:
  assumes "gates_beside cfg refuse_hold tgt es s = (s', Inr b)" "watched cfg s" "\<forall>e \<in> set es. ge_monitor e \<noteq> No_Monitor" "strict cfg"
  shows "watched cfg s'"
  using assms
proof (induction es arbitrary: s)
  case (Cons e es)
  obtain u r where g: "safety_gate refuse_hold (frame_gate cfg tgt e) (s\<lparr>gd_wait := True\<rparr>) = (u, r)"
    by fastforce
  obtain x where x: "r = Inr x"
    using Cons.prems(1) by (cases r) (auto simp: g Let_def)
  have "watched cfg (u\<lparr>gd_wait := False\<rparr>)"
    using frame_gate_watched [OF g [unfolded x]] Cons.prems(2-4) by (simp add: watched_def)
  then show ?case
    using Cons.IH [of "u\<lparr>gd_wait := False\<rparr>"] Cons.prems(1,3,4) by (simp add: g x Let_def split: if_splits)
qed auto

lemma beside_watched:
  assumes "wait_beside_the_monitor cfg refuse_hold tgt bs s = (s', Inr b)" "watched cfg s"
    "\<forall>b \<in> set bs. \<forall>e \<in> set (bs_gates b). ge_monitor e \<noteq> No_Monitor" "strict cfg"
  shows "watched cfg s'"
  using assms
proof (induction bs arbitrary: s)
  case (Cons b bs)
  obtain u r where g: "gates_beside cfg refuse_hold tgt (bs_gates b) s = (u, r)"
    by fastforce
  obtain x where x: "r = Inr x"
    using Cons.prems(1) by (cases r) (auto simp: g)
  have "watched cfg u"
    using gates_watched [OF g [unfolded x] Cons.prems(2)] Cons.prems(3,4) by simp
  then show ?case
    using Cons.IH [of u] Cons.prems(1,3,4) by (auto simp: g x split: bool.splits option.splits cool_end.splits)
qed auto

lemma release_watched:
  assumes "release_hold cfg tgt (hp_release h) s = (s', Inr b)" "watched cfg s" "monitored h" "strict cfg"
  shows "0 < calm (gd_did s')"
proof -
  let ?e = "hp_release h"
  define behind where "behind = (case tgt of None \<Rightarrow> False | Some a \<Rightarrow> \<not> am_calibration a \<and> am_behind a)"
  let ?c = "release_cooler_gate cfg refuse_hold tgt ?e (did [Line ''info'' (Sky_Cleared behind)] s)"
  define set_up where "set_up = (\<lambda>s. followed_by (if on_the_sky tgt \<and> \<not> behind then (did [Set_Up] s, re_setup ?e) else (s, Inr ()))
    (\<lambda>s. (did [Held Beam_Back, Shown ''running'' ''resumed after cloud''] s, Inr ())))"
  have "followed_by ?c set_up = (s', Inr b)"
    using assms(1) unfolding release_hold_def behind_def set_up_def Let_def .
  from followed_by_Inr [OF this] obtain u a where u: "?c = (u, Inr a)" "set_up u = (s', Inr b)"
    by (elim exE conjE) (rule that)
  have "watched cfg (did [Line ''info'' (Cooler_Checked ''resumed after cloud'')] (did [Line ''info'' (Sky_Cleared behind)] s))"
    by (intro watched_plain assms(2)) simp_all
  then have "watched cfg u"
    using u(1) assms(2-4) beside_watched watched_plain [OF assms(2), of "[Line ''info'' (Sky_Cleared behind)]"]
    by (auto simp: release_cooler_gate_def monitored_def Let_def split: if_splits cool_end.splits)
  then show ?thesis
    using u(2) by (auto simp: watched_def set_up_def dest!: followed_by_Inr split: if_splits)
qed

lemma loop_watched:
  assumes "hold_loop cfg tgt began hs clear s = (s', Inr ())" "licensed_so_far (need_safe cfg) s" "gd_holding s" "\<forall>h \<in> set hs. monitored h"
    "strict cfg"
  shows "0 < calm (gd_did s')"
  using assms
proof (induction hs arbitrary: clear s)
  case (Cons h hs)
  define f where "f = (\<lambda>s. let s = did [Held Alerts_Tick] s in
    if 60 * CLOUD_MAX_HOLD_MIN \<le> hp_clock h - began then (s, Inl (Safety_Abort Hold_Too_Long))
    else (did ((if hp_dark h then [Held Dark_Frame] else []) @ [Held Beam_Back, Held Mount_Look]) s, Inr ()))"
  obtain u a where "hold_guards refuse_hold cfg tgt began h s = (u, Inr a)"
    using followed_by_Inr [OF Cons.prems(1) [unfolded hold_loop.simps]] by blast
  then have u: "hold_guards refuse_hold cfg tgt began h s = (u, Inr ())"
    by simp
  have "followed_by (safety_gate refuse_hold (frame_gate cfg tgt (hp_gate h)) s) f = (u, Inr ())"
    using u unfolding hold_guards_def f_def [symmetric] by (simp split: if_splits option.splits)
  from followed_by_Inr [OF this] obtain v a
    where v: "safety_gate refuse_hold (frame_gate cfg tgt (hp_gate h)) s = (v, Inr a)" "f v = (u, Inr ())"
    by (elim exE conjE) (rule that)
  have "watched cfg v"
    using frame_gate_watched [OF v(1)] Cons.prems(2-5) by (simp add: monitored_def)
  then have wu: "watched cfg u"
    using v(2) by (auto simp: f_def Let_def intro!: watched_plain split: if_splits)
  have loop: "0 < calm (gd_did s')" if "hold_loop cfg tgt began hs k w = (s', Inr ())" "watched cfg w" for k w
    using Cons.IH [OF that(1)] that(2) Cons.prems(4,5) by (simp add: watched_def)
  have release: "0 < calm (gd_did s')" if "release_hold cfg tgt (hp_release h) w = (s', Inr ())" "watched cfg w" for w
    using release_watched [OF that] Cons.prems(4,5) by simp
  have stays: "watched cfg w \<Longrightarrow> point_or_park pt st w = (w', Inr c) \<Longrightarrow> watched cfg w'" for w w' pt st c
    by (auto simp: point_or_park_def Let_def intro!: watched_plain split: sum.splits option.splits)
  show ?case
  proof (cases "hp_look h")
    case (Inl out)
    then show ?thesis
      using Cons.prems(1) u by simp
  next
    case (Inr parked)
    show ?thesis
    proof (cases "parked \<noteq> None \<or> \<not> (on_the_sky tgt \<and> hp_tracking h = Some False)")
      case True
      then show ?thesis
        using Cons.prems(1) u Inr wu loop release watched_plain [OF wu, of "[Held (Probe (hp_probe h))]"]
        by (cases parked) (auto simp: Let_def split: if_splits)
    next
      case False
      let ?m = "if hp_stopped h then point_or_park (hp_point h) (hp_stop h) (did [Line ''warning'' Pointing_Back, Shown ''holding'' ''pointing back''] u)
        else followed_by (did [Line ''warning'' Stopped_On_Its_Own, Shown ''holding'' ''restoring tracking'', Held Track_Again] u, hp_track h)
          (\<lambda>s. (did [Shown ''holding'' ''held for cloud''] s, Inr ()))"
      have "followed_by ?m (hold_loop cfg tgt began hs 0) = (s', Inr ())"
        using Cons.prems(1) u Inr False by simp
      from followed_by_Inr [OF this] obtain w c where w: "?m = (w, Inr c)" "hold_loop cfg tgt began hs 0 w = (s', Inr ())"
        by (elim exE conjE) (rule that)
      have "watched cfg w"
      proof (cases "hp_stopped h")
        case True
        have "watched cfg (did [Line ''warning'' Pointing_Back, Shown ''holding'' ''pointing back''] u)"
          by (rule watched_plain [OF wu]) simp
        moreover have "point_or_park (hp_point h) (hp_stop h)
          (did [Line ''warning'' Pointing_Back, Shown ''holding'' ''pointing back''] u) = (w, Inr c)"
          using w(1) True by simp
        ultimately show ?thesis
          by (rule stays)
      next
        case False
        then have "w = did [Shown ''holding'' ''held for cloud'']
          (did [Line ''warning'' Stopped_On_Its_Own, Shown ''holding'' ''restoring tracking'', Held Track_Again] u)"
          using w(1) by (cases "hp_track h") auto
        then show ?thesis
          by (simp add: watched_plain wu)
      qed
      then show ?thesis
        by (rule loop [OF w(2)])
    qed
  qed
qed simp

text \<open>C6. A hold does not blind the gate: with a monitor to ask and any action but \<open>warn\<close>, a hold gives the run back only
  when the last reading of the monitor was fresh and safe, through every pass and the sensor's wait of its release.\<close>

theorem hold_gives_back_on_a_safe_reading:
  assumes "hold_for_clear cfg tgt e why s = (s', Inr ())" "\<not> gd_holding s" "licensed_so_far (need_safe cfg) s"
    "cf_armed cfg" "cf_on_unsafe cfg \<noteq> ''warn''" "\<forall>h \<in> set (ho_passes e). monitored h"
  shows "\<exists>pre r post. gd_did s' = pre @ Read r # post \<and> reads_safe r \<and> (\<forall>x \<in> set post. \<not> is_read x)"
proof (rule calm_safe_reading)
  let ?s = "did [Held Guider_Stands_Down, Line ''warning'' (Holding_For why), Shown ''holding'' ''held for cloud''] (s\<lparr>gd_holding := True\<rparr>)"
  let ?m = "if on_the_sky tgt \<and> ho_elsewhere e then point_or_park (ho_point e) (ho_stop e) ?s else (?s, Inr ())"
  obtain t where t: "followed_by ?m (hold_loop cfg tgt (ho_began e) (ho_passes e) 0) = (t, Inr ())" "s' = t\<lparr>gd_holding := False\<rparr>"
    using assms(1,2) by (auto simp: hold_for_clear_def end_hold_def Let_def case_prod_unfold prod_eq_iff split: if_splits)
  obtain w c where w: "?m = (w, Inr c)" "hold_loop cfg tgt (ho_began e) (ho_passes e) 0 w = (t, Inr ())"
    using followed_by_Inr [OF t(1)] by (elim exE conjE) (rule that)
  have "licensed_so_far (need_safe cfg) w" "gd_holding w"
    using w(1) assms(3) by (auto simp: point_or_park_def Let_def licensed_plain split: if_splits sum.splits option.splits)
  then have "0 < calm (gd_did t)"
    using loop_watched [OF w(2)] assms(4-6) by (simp add: strict_def)
  then show "0 < calm (gd_did s')"
    by (simp add: t(2))
qed

section \<open>A run, evaluated\<close>

definition a_release :: release_env where
  "a_release = \<lparr>re_assigned = True, re_beside = [\<lparr>bs_gates = [a_gate True [], a_gate True []], bs_over = settling 0, bs_reaped = None\<rparr>], re_alone = settling 0, re_setup = Inr ()\<rparr>"

definition a_pass :: "rat \<Rightarrow> bool option \<Rightarrow> hold_pass" where
  "a_pass t sky = \<lparr>hp_cut = False, hp_night = None, hp_gate = a_gate True [], hp_clock = t, hp_dark = True, hp_look = Inr None,
     hp_tracking = Some True, hp_stopped = False, hp_point = Inr None, hp_stop = a_stop, hp_track = Inr (), hp_probe = sky, hp_release = a_release\<rparr>"

definition a_hold :: "bool option list \<Rightarrow> hold_env" where
  "a_hold skies = \<lparr>ho_began = 0, ho_elsewhere = False, ho_point = Inr None, ho_stop = a_stop, ho_passes = map (a_pass 60) skies\<rparr>"

definition quiet :: guard where "quiet = new_guard (cloud_init 2 900)"

definition clear_between :: since_the_last where
  "clear_between = \<lparr>si_tripped = None, si_clouds = cloud_init 2 900\<rparr>"

abbreviation resumed :: guard where
  "resumed \<equiv> run (\<lambda>s x. fst (run_gate a_cfg s x)) quiet [(clear_between, a_gate False [(True, 5), (True, 10)], a_hold [])]"

lemma resumed_trace:
  "drop 13 (gd_did resumed) = [Published True ''safe again'' ''resume'' False, Shown ''running'' ''resumed (safe)'']"
  by code_simp

lemma two_safe: "need_safe a_cfg = 2"
  by code_simp

lemma releases_are_earned_witness: "2 \<le> calm (take 13 (gd_did resumed))"
proof -
  have split: "gd_did resumed = take 13 (gd_did resumed) @ Published True ''safe again'' ''resume'' False # [Shown ''running'' ''resumed (safe)'']"
    using append_take_drop_id [of 13 "gd_did resumed", unfolded resumed_trace] by (rule sym)
  have "need_safe a_cfg \<le> calm (take 13 (gd_did resumed))"
    using releases_are_earned [OF split [unfolded quiet_def]] unfolding quiet_def by blast
  then show ?thesis
    by (simp only: two_safe)
qed

lemma goes_on: "snd (run_gate a_cfg resumed (clear_between, a_gate True [], a_hold [])) = Inr ()"
  by code_simp

lemma gate_fails_closed_witness:
  "\<exists>r. Read r \<in> set (gd_did (fst (run_gate a_cfg resumed (clear_between, a_gate True [], a_hold [])))) \<and> reads_safe r"
proof -
  obtain t where t: "run_gate a_cfg resumed (clear_between, a_gate True [], a_hold []) = (t, Inr ())"
    using goes_on by (metis prod.collapse)
  have "\<exists>pre r post. gd_did t = pre @ Read r # post \<and> reads_safe r \<and> (\<forall>x \<in> set post. \<not> is_read x)"
    by (rule gate_fails_closed [OF t [unfolded quiet_def]]) (simp_all add: a_cfg_def a_gate_def)
  then show ?thesis
    unfolding t fst_conv by (elim exE conjE) (rule exI, rule conjI, simp_all)
qed

abbreviation on_target :: "aim option" where
  "on_target \<equiv> Some \<lparr>am_calibration = False, am_behind = False\<rparr>"

lemma sky_clears: "snd (hold_for_clear a_cfg on_target (a_hold [Some True, None, Some False, Some False]) ''clouds'' quiet) = Inr ()"
  by code_simp

lemma hold_gives_back_on_a_safe_reading_witness:
  "\<exists>r. Read r \<in> set (gd_did (fst (hold_for_clear a_cfg on_target (a_hold [Some True, None, Some False, Some False]) ''clouds'' quiet)))
     \<and> reads_safe r"
proof -
  obtain t where t: "hold_for_clear a_cfg on_target (a_hold [Some True, None, Some False, Some False]) ''clouds'' quiet = (t, Inr ())"
    using sky_clears by (metis prod.collapse)
  have "\<exists>pre r post. gd_did t = pre @ Read r # post \<and> reads_safe r \<and> (\<forall>x \<in> set post. \<not> is_read x)"
    by (rule hold_gives_back_on_a_safe_reading [OF t])
      (simp_all add: a_cfg_def quiet_def new_guard_def a_hold_def a_pass_def a_gate_def a_release_def monitored_def)
  then show ?thesis
    unfolding t fst_conv by (elim exE conjE) (rule exI, rule conjI, simp_all)
qed

end
