(* ===== verification/Resume_Ladder.thy ===== *)
theory Resume_Ladder
  imports Safety_Gate
begin

text \<open>
  The recovery ladder (\<open>server/astrodeck/sequence/resume_arm.py\<close>, \<open>_recover\<close>): what an unattended resume does to a
  rig before it starts the run again. It lists what the run can shoot, asks the safety monitor, focuses where the
  focuser lost count, finds out where the mount points, and re-centres on the first target it may slew to.

  Every await has its answer in the environment, every question that is asked again later (does the driver vouch
  for the position, was the ladder asked to stop) an answer of its own each time, and a cancel may land in any await.
  The order of the targets, the rotator's angle, the words of a sentence and its numbers are left out.
\<close>

section \<open>Steps and ends\<close>

datatype ladder_line =
    Focus_Lost_No_Provider
  | Focus_Lost
  | Sweep_Found_Nothing
  | Slews_From_Park
  | Position_On_Trust
  | Refused_In_Doubt
  | Recentre_Goes_Ahead
  | Refused_Unread
  | Needs_Someone
  | Not_Confirmed
  | Parked_After_Failed_Solve

datatype ladder_act =
    Said string ladder_line
  | Ask_Safety
  | Ask_Focuser
  | Sweep_Focus
  | Vouch_Focus
  | Ask_Parked
  | Blind_Solve
  | Mount wd_step
  | Check_Limits string
  | Goto string
  | Disarm_Halted

text \<open>The reasons a hold can have. The ones about a re-centre that was not solved say whether the mount was parked again.\<close>

datatype hold_reason =
    Nothing_Tonight
  | Nothing_Unmetered
  | Not_Reported
  | Reading_Stale
  | Not_Safe string
  | Sweep_Failed string
  | Unknown_No_Solver
  | No_Light
  | Refused_Sync_Far
  | Refused_Sync_Unknown
  | Unknown_Position
  | Unknown_Sync
  | Sync_Not_Confirmed
  | Software_Fault
  | Solve_Failed_Unknown string
  | Park_Not_Confirmed
  | Solve_Failed_Waits string
  | Below_Floor string
  | Mount_Silent
  | Outside_Limits string
  | Limits_Unchecked string
  | Unknown_Recentre
  | Mount_Refuses string
  | Recentre_Failed string
  | Halted_By_Operator
  | Recentre_Dark "bool option"
  | Recentre_Unsolved "bool option"
  | Recentre_Sync_Refused
  | Recentre_Sync_Not_Confirmed

text \<open>The ladder says that the rig is fit, or nothing (\<open>Says None\<close> both ways), or why it holds; or it was cancelled.\<close>

datatype ladder_end = Says "hold_reason option" | Cut_Short

record focus_sweep =
  sw_night :: string
  sw_at :: rat
  sw_position :: "int option"

record ladder =
  ld_did :: "ladder_act list"
  ld_light :: "bool option"
  ld_kind :: "string option"
  ld_nothing :: bool
  ld_fault :: bool
  ld_detail :: bool
  ld_recentred :: "string option"
  ld_sweep :: "focus_sweep option"

definition goes :: "ladder_act list \<Rightarrow> ladder \<Rightarrow> ladder" where
  "goes xs s = s\<lparr>ld_did := ld_did s @ xs\<rparr>"

definition climbs :: "ladder \<times> (ladder_end + 'a) \<Rightarrow> ('a \<Rightarrow> ladder \<Rightarrow> ladder \<times> (ladder_end + 'b)) \<Rightarrow> ladder \<times> (ladder_end + 'b)" where
  "climbs m f = (case m of (s, Inl out) \<Rightarrow> (s, Inl out) | (s, Inr a) \<Rightarrow> f a s)"

definition held_for :: "hold_reason \<Rightarrow> ladder \<Rightarrow> ladder \<times> (ladder_end + 'a)" where
  "held_for why s = (s, Inl (Says (Some why)))"

section \<open>The environment\<close>

datatype await_point = At_Safety | At_Focuser | At_Sweep | At_Swept | At_Vouch | At_Parked | At_Solve | At_Park | At_Limits | At_Goto | At_Repark

text \<open>Where the ladder asks whether it has to stop, and where it asks whether the driver vouches for the position.\<close>

datatype stop_point = Before_Sweep | Before_Pointing | Before_Park | Before_Goto | Before_Repark

datatype known_point = K_Parked | K_No_Solver | K_Refused | K_Failed | K_Solved | K_Recentre

datatype solve_answer =
    Solved
  | Dark "string option"
  | Sync_Refused "rat option"
  | Sync_Unverified
  | Faulty
  | Unsolved bool string

datatype limits_answer = Within | No_Answer | Out_Of_Limits | Check_Raises

record candidate =
  cd_id :: string
  cd_floor :: rat
  cd_alt :: "rat option"
  cd_limits :: limits_answer
  cd_cut :: bool

text \<open>What a re-centre that returned says.\<close>

record centring =
  ct_unknown :: bool
  ct_aborted :: bool
  ct_failed :: bool
  ct_light :: "bool option"
  ct_kind :: "string option"
  ct_refused :: bool
  ct_unverified :: bool

datatype goto_answer = Goto_Refused string | Goto_Dark "string option" | Goto_Cloud string | Goto_Raises string | Centred centring

record ladder_env =
  lv_cut :: "await_point option"
  lv_cut_after :: nat
  lv_stop :: "stop_point \<Rightarrow> bool"
  lv_known :: "known_point \<Rightarrow> bool"
  lv_nothing :: bool
  lv_unmetered :: bool
  lv_monitor :: bool
  lv_reading :: "reading option"
  lv_focuser :: "int option"
  lv_trusted :: bool
  lv_can_sweep :: bool
  lv_sweep :: "string + bool"
  lv_swept :: "int option"
  lv_vouched :: bool
  lv_night :: string
  lv_at :: rat
  lv_can_solve :: bool
  lv_can_solve_then :: bool
  lv_parked :: bool
  lv_solve :: solve_answer
  lv_park :: "wind_env option"
  lv_candidates :: "candidate list"
  lv_goto :: goto_answer
  lv_halted :: bool
  lv_repark :: "wind_env option"

definition awaits :: "ladder_env \<Rightarrow> await_point \<Rightarrow> (ladder \<Rightarrow> ladder \<times> (ladder_end + 'a)) \<Rightarrow> ladder \<Rightarrow> ladder \<times> (ladder_end + 'a)" where
  "awaits e p f s = (if lv_cut e = Some p then (s, Inl Cut_Short) else f s)"

section \<open>The rungs\<close>

definition list_targets :: "ladder_env \<Rightarrow> ladder \<Rightarrow> ladder \<times> (ladder_end + unit)" where
  "list_targets e s = (if lv_nothing e then held_for (if lv_unmetered e then Nothing_Unmetered else Nothing_Tonight) (s\<lparr>ld_nothing := True\<rparr>)
     else (s, Inr ()))"

definition ask_safety :: "ladder_env \<Rightarrow> ladder \<Rightarrow> ladder \<times> (ladder_end + unit)" where
  "ask_safety e s = (if \<not> lv_monitor e then (s, Inr ())
     else awaits e At_Safety (\<lambda>s. case lv_reading e of
         None \<Rightarrow> held_for Not_Reported s
       | Some r \<Rightarrow> if rd_stale r then held_for Reading_Stale s
           else if \<not> rd_safe r then held_for (Not_Safe (rd_reason r)) s
           else (s, Inr ())) (goes [Ask_Safety] s))"

text \<open>A sweep kept from an earlier ladder counts only while the drawtube stands where it left it.\<close>

definition kept_sweep :: "int option \<Rightarrow> ladder \<Rightarrow> ladder" where
  "kept_sweep pos s = (case ld_sweep s of
     None \<Rightarrow> s
   | Some k \<Rightarrow> if pos = None \<or> sw_position k = None \<or> pos \<noteq> sw_position k then s\<lparr>ld_sweep := None\<rparr> else s)"

definition note_recovery_sweep :: "ladder_env \<Rightarrow> bool \<Rightarrow> ladder \<Rightarrow> ladder" where
  "note_recovery_sweep e found s = (if \<not> found then goes [Said ''warning'' Sweep_Found_Nothing] (s\<lparr>ld_sweep := None\<rparr>)
     else s\<lparr>ld_sweep := Some \<lparr>sw_night = lv_night e, sw_at = lv_at e, sw_position = lv_swept e\<rparr>\<rparr>)"

definition focus_again :: "ladder_env \<Rightarrow> ladder \<Rightarrow> ladder \<times> (ladder_end + unit)" where
  "focus_again e s = awaits e At_Sweep (\<lambda>s. case lv_sweep e of
       Inl why \<Rightarrow> held_for (Sweep_Failed why) (s\<lparr>ld_sweep := None\<rparr>)
     | Inr found \<Rightarrow>
         if lv_cut e = Some At_Swept \<and> found then (s, Inl Cut_Short)
         else let s = note_recovery_sweep e found s in
           if \<not> found then (s, Inr ())
           else awaits e At_Vouch (\<lambda>s. (if lv_vouched e then goes [Vouch_Focus] s else s, Inr ())) s)
     (goes [Said ''info'' Focus_Lost, Sweep_Focus] s)"

definition recover_focus :: "ladder_env \<Rightarrow> ladder \<Rightarrow> ladder \<times> (ladder_end + unit)" where
  "recover_focus e s = awaits e At_Focuser (\<lambda>s. let s = kept_sweep (lv_focuser e) s in
       if lv_focuser e = None \<or> lv_trusted e then (s, Inr ())
       else if \<not> lv_can_sweep e then (goes [Said ''warning'' Focus_Lost_No_Provider] s, Inr ())
       else if lv_stop e Before_Sweep then (s, Inl (Says None))
       else focus_again e s)
     (goes [Ask_Focuser] s)"

definition RECOVERY_REFUSED_SYNC_MAX_DEG :: rat where "RECOVERY_REFUSED_SYNC_MAX_DEG = 5"

text \<open>The engine's fenced park; None where it raises. Parked is what it confirmed.\<close>

definition park_for_resume :: "wind_env option \<Rightarrow> ladder \<Rightarrow> ladder \<times> bool" where
  "park_for_resume w s = (case w of None \<Rightarrow> (s, False)
     | Some w \<Rightarrow> (case fenced_park w of (parked, tr) \<Rightarrow> (goes (map Mount tr) s, parked = Some True)))"

text \<open>A cancel leaves a part of the park done.\<close>

definition parks_then :: "ladder_env \<Rightarrow> await_point \<Rightarrow> wind_env option \<Rightarrow> (bool \<Rightarrow> ladder \<Rightarrow> ladder \<times> (ladder_end + 'a)) \<Rightarrow> ladder \<Rightarrow> ladder \<times> (ladder_end + 'a)" where
  "parks_then e p w f s = (if lv_cut e = Some p
     then (case w of None \<Rightarrow> s | Some w \<Rightarrow> goes (map Mount (take (lv_cut_after e) (snd (fenced_park w)))) s, Inl Cut_Short)
     else case park_for_resume w s of (s, parked) \<Rightarrow> f parked s)"

text \<open>Where the solve failed and the driver vouches for the position, the mount is parked and solves at the target.\<close>

definition solve_failed :: "ladder_env \<Rightarrow> bool \<Rightarrow> string \<Rightarrow> ladder \<Rightarrow> ladder \<times> (ladder_end + bool)" where
  "solve_failed e lit why s = (let s = (if lit then s\<lparr>ld_light := Some True\<rparr> else s) in
     if \<not> lv_known e K_Failed then held_for (Solve_Failed_Unknown why) s
     else if lv_stop e Before_Park then (s, Inl (Says None))
     else parks_then e At_Park (lv_park e) (\<lambda>parked s.
       if \<not> parked then held_for Park_Not_Confirmed s
       else let s = goes [Said ''info'' Parked_After_Failed_Solve] s in
         if lv_candidates e = [] then held_for (Solve_Failed_Waits why) s else (s, Inr True)) s)"

definition sync_refused :: "ladder_env \<Rightarrow> rat option \<Rightarrow> ladder \<Rightarrow> ladder \<times> (ladder_end + bool)" where
  "sync_refused e off s = (let s = s\<lparr>ld_light := Some True\<rparr> in
     case off of None \<Rightarrow> held_for Refused_Sync_Unknown (goes [Said ''warning'' Refused_Unread] s)
     | Some d \<Rightarrow>
         if d \<le> RECOVERY_REFUSED_SYNC_MAX_DEG then
           (if \<not> lv_known e K_Refused then held_for Unknown_Position (goes [Said ''warning'' Refused_In_Doubt] s)
            else (goes [Said ''warning'' Recentre_Goes_Ahead] s, Inr False))
         else held_for Refused_Sync_Far (goes [Said ''warning'' Needs_Someone] s))"

definition solve_in_place :: "ladder_env \<Rightarrow> ladder \<Rightarrow> ladder \<times> (ladder_end + bool)" where
  "solve_in_place e s = climbs
     (awaits e At_Solve (\<lambda>s. case lv_solve e of
         Solved \<Rightarrow> (s, Inr False)
       | Dark kind \<Rightarrow> held_for No_Light (s\<lparr>ld_light := Some False, ld_kind := kind\<rparr>)
       | Sync_Refused off \<Rightarrow> sync_refused e off s
       | Sync_Unverified \<Rightarrow> held_for Sync_Not_Confirmed (goes [Said ''warning'' Not_Confirmed] (s\<lparr>ld_light := Some True\<rparr>))
       | Faulty \<Rightarrow> held_for Software_Fault (s\<lparr>ld_fault := True\<rparr>)
       | Unsolved lit why \<Rightarrow> solve_failed e lit why s) (goes [Blind_Solve] s))
     (\<lambda>unsolved s. let s = (if unsolved then s else s\<lparr>ld_light := Some True\<rparr>) in
       if \<not> lv_known e K_Solved then held_for Unknown_Sync s else (s, Inr unsolved))"

text \<open>The result: the sky is still to be solved, and the mount goes back to its park at a hold. Both hold together.\<close>

definition find_pointing :: "ladder_env \<Rightarrow> ladder \<Rightarrow> ladder \<times> (ladder_end + bool)" where
  "find_pointing e s =
     (if lv_stop e Before_Pointing then (s, Inl (Says None))
      else if lv_can_solve e \<and> lv_known e K_Parked \<and> lv_cut e = Some At_Parked then (goes [Ask_Parked] s, Inl Cut_Short)
      else let asked = (lv_can_solve e \<and> lv_known e K_Parked); s = (if asked then goes [Ask_Parked] s else s) in
        if asked \<and> lv_parked e then (goes [Said ''info'' Slews_From_Park] s, Inr True)
        else if \<not> (if asked then lv_can_solve_then e else lv_can_solve e) then
          (if \<not> lv_known e K_No_Solver then held_for Unknown_No_Solver s else (goes [Said ''warning'' Position_On_Trust] s, Inr False))
        else solve_in_place e s)"

text \<open>The first target that clears its own floor and the limits of a slew, or why the first of all does not.\<close>

fun choose_target :: "candidate list \<Rightarrow> hold_reason option \<Rightarrow> ladder \<Rightarrow> ladder \<times> (ladder_end + candidate option)" where
  "choose_target [] first s = (case first of None \<Rightarrow> (s, Inr None) | Some why \<Rightarrow> held_for why (s\<lparr>ld_detail := True\<rparr>))"
| "choose_target (c # cs) first s =
     (let or_first = (\<lambda>why. case first of None \<Rightarrow> Some why | Some _ \<Rightarrow> first) in
      if 0 < cd_floor c \<and> (case cd_alt c of None \<Rightarrow> False | Some alt \<Rightarrow> alt < cd_floor c)
      then choose_target cs (or_first (Below_Floor (cd_id c))) s
      else let s = goes [Check_Limits (cd_id c)] s in
        if cd_cut c then (s, Inl Cut_Short)
        else case cd_limits c of
          Within \<Rightarrow> (s, Inr (Some c))
        | No_Answer \<Rightarrow> held_for Mount_Silent (s\<lparr>ld_detail := True\<rparr>)
        | Out_Of_Limits \<Rightarrow> choose_target cs (or_first (Outside_Limits (cd_id c))) s
        | Check_Raises \<Rightarrow> choose_target cs (or_first (Limits_Unchecked (cd_id c))) s)"

text \<open>A hold of the re-centre parks the mount again where this ladder took it off its park.\<close>

definition park_again :: "ladder_env \<Rightarrow> bool \<Rightarrow> (bool option \<Rightarrow> hold_reason) \<Rightarrow> ladder \<Rightarrow> ladder \<times> (ladder_end + unit)" where
  "park_again e repark why s = (if repark \<and> \<not> lv_stop e Before_Repark
     then parks_then e At_Repark (lv_repark e) (\<lambda>parked. held_for (why (Some parked))) s
     else held_for (why None) s)"

definition hold_unsolved_recentre :: "ladder_env \<Rightarrow> bool option \<Rightarrow> string option \<Rightarrow> bool \<Rightarrow> ladder \<Rightarrow> ladder \<times> (ladder_end + unit)" where
  "hold_unsolved_recentre e light kind repark s = (case light of
     Some False \<Rightarrow> park_again e repark Recentre_Dark (s\<lparr>ld_light := Some False, ld_kind := kind\<rparr>)
   | Some True \<Rightarrow> park_again e repark Recentre_Unsolved (s\<lparr>ld_light := Some True\<rparr>)
   | None \<Rightarrow> park_again e repark Recentre_Unsolved s)"

definition judge_centring :: "ladder_env \<Rightarrow> string \<Rightarrow> bool \<Rightarrow> centring \<Rightarrow> ladder \<Rightarrow> ladder \<times> (ladder_end + unit)" where
  "judge_centring e target unsolved ct s =
     (if ct_unknown ct then held_for Unknown_Recentre s
      else if ct_aborted ct \<and> lv_halted e then held_for Halted_By_Operator (goes [Disarm_Halted] s)
      else if unsolved \<and> ct_failed ct then hold_unsolved_recentre e (ct_light ct) (ct_kind ct) unsolved s
      else let s = (if unsolved \<and> \<not> ct_aborted ct then s\<lparr>ld_light := Some True\<rparr> else s) in
        if ct_refused ct then park_again e unsolved (\<lambda>_. Recentre_Sync_Refused) s
        else if ct_unverified ct then park_again e unsolved (\<lambda>_. Recentre_Sync_Not_Confirmed) s
        else (s\<lparr>ld_recentred := Some target\<rparr>, Inr ()))"

definition recentre :: "ladder_env \<Rightarrow> candidate option \<Rightarrow> bool \<Rightarrow> ladder \<Rightarrow> ladder \<times> (ladder_end + unit)" where
  "recentre e chosen unsolved s = (case chosen of None \<Rightarrow> (s, Inr ())
     | Some c \<Rightarrow>
         if lv_stop e Before_Goto then (s, Inl (Says None))
         else if \<not> lv_known e K_Recentre then held_for Unknown_Recentre s
         else awaits e At_Goto (\<lambda>s. case lv_goto e of
             Goto_Refused why \<Rightarrow> park_again e unsolved (\<lambda>_. Mount_Refuses why) s
           | Goto_Dark kind \<Rightarrow> if unsolved then hold_unsolved_recentre e (Some False) kind unsolved s
               else park_again e unsolved (\<lambda>_. Recentre_Failed ''no light'') s
           | Goto_Cloud why \<Rightarrow> if unsolved then hold_unsolved_recentre e (Some True) None unsolved s
               else park_again e unsolved (\<lambda>_. Recentre_Failed why) s
           | Goto_Raises why \<Rightarrow> park_again e unsolved (\<lambda>_. Recentre_Failed why) s
           | Centred ct \<Rightarrow> judge_centring e (cd_id c) unsolved ct s) (goes [Goto (cd_id c)] s))"

definition recover :: "ladder_env \<Rightarrow> ladder \<Rightarrow> ladder \<times> ladder_end" where
  "recover e s = (case climbs (list_targets e s) (\<lambda>_ s.
       climbs (ask_safety e s) (\<lambda>_ s.
       climbs (recover_focus e s) (\<lambda>_ s.
       climbs (find_pointing e s) (\<lambda>unsolved s.
       climbs (choose_target (lv_candidates e) None s) (\<lambda>chosen. recentre e chosen unsolved)))))
     of (s, Inl out) \<Rightarrow> (s, out) | (s, Inr _) \<Rightarrow> (s, Says None))"

section \<open>What the rungs leave behind\<close>

lemma climbs_simps [simp]: "climbs (s, Inl out) f = (s, Inl out)" "climbs (s, Inr a) f = f a s"
  by (simp_all add: climbs_def)

lemma climbs_Inr: "climbs m f = (s, Inr b) \<Longrightarrow> \<exists>u a. m = (u, Inr a) \<and> f a u = (s, Inr b)"
  by (cases m; cases "snd m") auto

lemma goes_fields [simp]: "ld_did (goes xs s) = ld_did s @ xs" "ld_light (goes xs s) = ld_light s" "ld_kind (goes xs s) = ld_kind s"
  "ld_nothing (goes xs s) = ld_nothing s" "ld_fault (goes xs s) = ld_fault s" "ld_detail (goes xs s) = ld_detail s"
  "ld_recentred (goes xs s) = ld_recentred s" "ld_sweep (goes xs s) = ld_sweep s"
  by (simp_all add: goes_def)

lemma held_for_simps [simp]: "fst (held_for why s) = s" "snd (held_for why s) = Inl (Says (Some why))" "held_for why s \<noteq> (t, Inr a)"
  by (simp_all add: held_for_def)

text \<open>Between two states only steps with \<open>P\<close> were taken.\<close>

definition grown :: "(ladder_act \<Rightarrow> bool) \<Rightarrow> ladder \<Rightarrow> ladder \<Rightarrow> bool" where
  "grown P s s' = (\<exists>xs. ld_did s' = ld_did s @ xs \<and> list_all P xs)"

lemma grown_refl [simp]: "ld_did s' = ld_did s \<Longrightarrow> grown P s s'"
  by (simp add: grown_def)

lemma grown_trans [trans]: "grown P s t \<Longrightarrow> grown P t u \<Longrightarrow> grown P s u"
  unfolding grown_def by (metis append.assoc list_all_append)

lemma grown_goes [simp]: "list_all P xs \<Longrightarrow> grown P s (goes xs s)"
  by (simp add: grown_def)

lemma grown_then: "grown P s t \<Longrightarrow> ld_did u = ld_did t @ xs \<Longrightarrow> list_all P xs \<Longrightarrow> grown P s u"
  unfolding grown_def by (metis append.assoc list_all_append)

lemma grown_climbs: "grown P s (fst m) \<Longrightarrow> (\<And>a u. m = (u, Inr a) \<Longrightarrow> grown P u (fst (f a u))) \<Longrightarrow> grown P s (fst (climbs m f))"
  by (cases m; cases "snd m") (auto intro: grown_trans)

lemma list_grown: "grown P s (fst (list_targets e s))"
  by (simp add: list_targets_def)

lemma safety_grown: "P Ask_Safety \<Longrightarrow> grown P s (fst (ask_safety e s))"
  by (simp add: ask_safety_def awaits_def split: option.split)

lemma kept_sweep_did [simp]: "ld_did (kept_sweep pos s) = ld_did s" "ld_light (kept_sweep pos s) = ld_light s" "ld_recentred (kept_sweep pos s) = ld_recentred s"
  by (simp_all add: kept_sweep_def split: option.split)

text \<open>None of the rungs before the last sends a goto.\<close>

fun stays_put :: "ladder_act \<Rightarrow> bool" where
  "stays_put (Goto _) = False"
| "stays_put _ = True"

lemma stays_no_goto: "list_all stays_put xs \<Longrightarrow> Goto t \<notin> set xs"
  by (auto simp: list_all_iff)

lemma focus_grown: "grown stays_put s (fst (recover_focus e s))"
  by (auto simp: recover_focus_def focus_again_def note_recovery_sweep_def awaits_def Let_def grown_def split: sum.split)

lemma parks_grown:
  assumes "\<And>parked t. grown P t (fst (f parked t))" "\<And>x. P (Mount x)"
  shows "grown P s (fst (parks_then e p w f s))"
proof -
  have mounts: "list_all P (map Mount tr)" for tr
    using assms(2) by (induction tr) simp_all
  show ?thesis
    using assms(1) grown_trans [OF grown_goes [OF mounts] assms(1)]
    by (auto simp: parks_then_def park_for_resume_def mounts split: option.split prod.split)
qed

lemma failed_grown: "grown stays_put s (fst (solve_failed e lit why s))"
proof -
  have "grown stays_put t (fst (parks_then e At_Park (lv_park e) (\<lambda>parked s.
      if \<not> parked then held_for Park_Not_Confirmed s
      else let s = goes [Said ''info'' Parked_After_Failed_Solve] s in
        if lv_candidates e = [] then held_for (Solve_Failed_Waits why) s else (s, Inr True)) t))" for t
    by (rule parks_grown) (auto simp: Let_def)
  then have "grown stays_put s (fst (parks_then e At_Park (lv_park e) (\<lambda>parked s.
      if \<not> parked then held_for Park_Not_Confirmed s
      else let s = goes [Said ''info'' Parked_After_Failed_Solve] s in
        if lv_candidates e = [] then held_for (Solve_Failed_Waits why) s else (s, Inr True)) t))" if "ld_did t = ld_did s" for t
    using that grown_trans [OF grown_refl] by blast
  then show ?thesis
    by (simp add: solve_failed_def Let_def)
qed

lemma refused_grown: "grown stays_put s (fst (sync_refused e off s))"
  by (auto simp: sync_refused_def Let_def grown_def split: option.split)

lemma solve_grown: "grown stays_put s (fst (solve_in_place e s))"
proof -
  let ?s = "goes [Blind_Solve] s"
  have s: "grown stays_put s ?s"
    by simp
  have "grown stays_put s (fst (awaits e At_Solve (\<lambda>s. case lv_solve e of
         Solved \<Rightarrow> (s, Inr False)
       | Dark kind \<Rightarrow> held_for No_Light (s\<lparr>ld_light := Some False, ld_kind := kind\<rparr>)
       | Sync_Refused off \<Rightarrow> sync_refused e off s
       | Sync_Unverified \<Rightarrow> held_for Sync_Not_Confirmed (goes [Said ''warning'' Not_Confirmed] (s\<lparr>ld_light := Some True\<rparr>))
       | Faulty \<Rightarrow> held_for Software_Fault (s\<lparr>ld_fault := True\<rparr>)
       | Unsolved lit why \<Rightarrow> solve_failed e lit why s) ?s))"
    using grown_trans [OF s refused_grown] grown_trans [OF s failed_grown]
    by (auto simp: awaits_def grown_def split: solve_answer.split)
  then show ?thesis
    unfolding solve_in_place_def by (rule grown_climbs) (auto simp: Let_def)
qed

lemma pointing_grown: "grown stays_put s (fst (find_pointing e s))"
  using solve_grown [of s e] grown_trans [OF grown_goes [of stays_put "[Ask_Parked]" s] solve_grown [of _ e]]
  by (auto simp: find_pointing_def Let_def grown_def)

lemma choose_grown: "grown stays_put s (fst (choose_target cs first s))"
proof (induction cs arbitrary: first s)
  case (Cons c cs)
  have check: "grown stays_put s (fst (choose_target cs first (goes [Check_Limits (cd_id c)] s)))" for first
    by (rule grown_trans [OF _ Cons.IH]) simp
  have detail: "grown stays_put s (goes [Check_Limits (cd_id c)] s\<lparr>ld_detail := True\<rparr>)"
    by (simp add: grown_def)
  show ?case
    using Cons.IH [of s] check detail by (simp add: Let_def split: limits_answer.split)
qed (auto split: option.split)

section \<open>A goto is earned\<close>

text \<open>What stands behind a goto: the pointing found, and the first target in the run's order that may be reached.\<close>

definition parked_home :: "ladder_env \<Rightarrow> bool" where
  "parked_home e = (case lv_park e of None \<Rightarrow> False | Some w \<Rightarrow> fst (fenced_park w) = Some True)"

definition no_solver :: "ladder_env \<Rightarrow> bool" where
  "no_solver e = (\<not> lv_can_solve e \<or> (lv_known e K_Parked \<and> \<not> lv_can_solve_then e))"

definition on_trust :: "ladder_env \<Rightarrow> bool" where
  "on_trust e = (no_solver e \<and> lv_known e K_No_Solver)"

definition from_park :: "ladder_env \<Rightarrow> bool" where
  "from_park e = (lv_can_solve e \<and> lv_known e K_Parked \<and> lv_parked e
     \<or> (case lv_solve e of Unsolved lit why \<Rightarrow> lv_known e K_Failed \<and> parked_home e \<and> lv_known e K_Solved | _ \<Rightarrow> False))"

definition solved_in_place :: "ladder_env \<Rightarrow> bool" where
  "solved_in_place e = (lv_known e K_Solved \<and> (case lv_solve e of Solved \<Rightarrow> True
     | Sync_Refused (Some d) \<Rightarrow> d \<le> RECOVERY_REFUSED_SYNC_MAX_DEG \<and> lv_known e K_Refused | _ \<Rightarrow> False))"

definition reachable :: "candidate \<Rightarrow> bool" where
  "reachable c = (\<not> (0 < cd_floor c \<and> (case cd_alt c of None \<Rightarrow> False | Some alt \<Rightarrow> alt < cd_floor c)) \<and> cd_limits c = Within)"

lemma chosen_is_first:
  assumes "choose_target cs first s = (s', Inr (Some c))"
  shows "\<exists>xs ys. cs = xs @ c # ys \<and> reachable c \<and> (\<forall>x \<in> set xs. \<not> reachable x)"
  using assms
proof (induction cs arbitrary: first s)
  case (Cons d cs)
  show ?case
  proof (cases "reachable d")
    case True
    then have "c = d"
      using Cons.prems by (simp add: reachable_def Let_def split: if_splits)
    then show ?thesis
      using True by (intro exI [of _ "[]"] exI [of _ cs]) simp
  next
    case False
    obtain f t where "choose_target cs f t = (s', Inr (Some c))"
      using Cons.prems False by (auto simp: reachable_def Let_def split: if_splits limits_answer.splits)
    then obtain xs ys where "cs = xs @ c # ys" "reachable c" "\<forall>x \<in> set xs. \<not> reachable x"
      using Cons.IH by blast
    then show ?thesis
      using False by (intro exI [of _ "d # xs"] exI [of _ ys]) simp
  qed
qed (simp split: option.splits)

lemma failed_unsolved:
  assumes "solve_failed e lit why s = (s', Inr b)"
  shows "b \<and> lv_known e K_Failed \<and> parked_home e"
  using assms
  by (auto simp: solve_failed_def parks_then_def park_for_resume_def parked_home_def Let_def split: if_splits option.splits prod.splits)

lemma refused_solved:
  assumes "sync_refused e off s = (s', Inr b)"
  shows "\<not> b \<and> (\<exists>d. off = Some d \<and> d \<le> RECOVERY_REFUSED_SYNC_MAX_DEG \<and> lv_known e K_Refused)"
  using assms by (auto simp: sync_refused_def Let_def split: option.splits if_splits)

lemma solve_located:
  assumes "solve_in_place e s = (s', Inr b)"
  shows "if b then from_park e else solved_in_place e"
proof -
  define m where "m = awaits e At_Solve (\<lambda>s. case lv_solve e of
         Solved \<Rightarrow> (s, Inr False)
       | Dark kind \<Rightarrow> held_for No_Light (s\<lparr>ld_light := Some False, ld_kind := kind\<rparr>)
       | Sync_Refused off \<Rightarrow> sync_refused e off s
       | Sync_Unverified \<Rightarrow> held_for Sync_Not_Confirmed (goes [Said ''warning'' Not_Confirmed] (s\<lparr>ld_light := Some True\<rparr>))
       | Faulty \<Rightarrow> held_for Software_Fault (s\<lparr>ld_fault := True\<rparr>)
       | Unsolved lit why \<Rightarrow> solve_failed e lit why s) (goes [Blind_Solve] s)"
  obtain u a where u: "m = (u, Inr a)" "a = b" "lv_known e K_Solved"
    using climbs_Inr [OF assms [unfolded solve_in_place_def, folded m_def]] by (auto simp: Let_def split: if_splits)
  show ?thesis
  proof (cases "lv_solve e")
    case (Sync_Refused off)
    then have "sync_refused e off (goes [Blind_Solve] s) = (u, Inr a)"
      using u(1) by (simp add: m_def awaits_def split: if_splits)
    from refused_solved [OF this] show ?thesis
      using u Sync_Refused by (auto simp: solved_in_place_def)
  next
    case (Unsolved lit why)
    then have "solve_failed e lit why (goes [Blind_Solve] s) = (u, Inr a)"
      using u(1) by (simp add: m_def awaits_def split: if_splits)
    from failed_unsolved [OF this] show ?thesis
      using u Unsolved by (auto simp: from_park_def)
  qed (use u in \<open>auto simp: m_def awaits_def solved_in_place_def split: if_splits\<close>)
qed

lemma pointing_located:
  assumes "find_pointing e s = (s', Inr b)"
  shows "if b then from_park e else on_trust e \<or> solved_in_place e"
  using assms solve_located
  by (fastforce simp: find_pointing_def Let_def on_trust_def no_solver_def from_park_def split: if_splits)

lemma safety_passed: "ask_safety e s = (s', Inr a) \<Longrightarrow> lv_monitor e \<Longrightarrow> reads_safe (lv_reading e)"
  by (auto simp: ask_safety_def awaits_def reads_safe_def split: if_splits option.splits)

text \<open>The last rung sends at most the one goto, to the chosen target.\<close>

lemma again_grown: "(\<And>x. P (Mount x)) \<Longrightarrow> grown P s (fst (park_again e repark why s))"
  unfolding park_again_def by (cases "repark \<and> \<not> lv_stop e Before_Repark") (simp_all add: parks_grown)

lemma unsolved_grown: "(\<And>x. P (Mount x)) \<Longrightarrow> grown P s (fst (hold_unsolved_recentre e light kind repark s))"
  using again_grown [of P] grown_trans [OF grown_refl again_grown [of P]]
  by (simp add: hold_unsolved_recentre_def split: option.split bool.split)

lemma judged_grown: "(\<And>x. P (Mount x)) \<Longrightarrow> P Disarm_Halted \<Longrightarrow> grown P s (fst (judge_centring e t unsolved ct s))"
  using again_grown [of P] unsolved_grown [of P] grown_trans [OF grown_refl again_grown [of P]]
  by (simp add: judge_centring_def Let_def)

definition ends_recentre :: "ladder_env \<Rightarrow> candidate \<Rightarrow> bool \<Rightarrow> ladder \<Rightarrow> ladder \<times> (ladder_end + unit)" where
  "ends_recentre e c unsolved s = (case lv_goto e of
       Goto_Refused why \<Rightarrow> park_again e unsolved (\<lambda>_. Mount_Refuses why) s
     | Goto_Dark kind \<Rightarrow> if unsolved then hold_unsolved_recentre e (Some False) kind unsolved s
         else park_again e unsolved (\<lambda>_. Recentre_Failed ''no light'') s
     | Goto_Cloud why \<Rightarrow> if unsolved then hold_unsolved_recentre e (Some True) None unsolved s
         else park_again e unsolved (\<lambda>_. Recentre_Failed why) s
     | Goto_Raises why \<Rightarrow> park_again e unsolved (\<lambda>_. Recentre_Failed why) s
     | Centred ct \<Rightarrow> judge_centring e (cd_id c) unsolved ct s)"

lemma recentre_eq: "recentre e (Some c) unsolved s = (if lv_stop e Before_Goto then (s, Inl (Says None))
    else if \<not> lv_known e K_Recentre then held_for Unknown_Recentre s
    else awaits e At_Goto (ends_recentre e c unsolved) (goes [Goto (cd_id c)] s))"
  by (simp add: recentre_def awaits_def ends_recentre_def)

lemma ends_grown: "grown stays_put s (fst (ends_recentre e c unsolved s))"
  using again_grown [of stays_put] unsolved_grown [of stays_put] judged_grown [of stays_put]
  by (simp add: ends_recentre_def split: goto_answer.split)

lemma recentre_did:
  obtains xs where "ld_did (fst (recentre e (Some c) unsolved s)) = ld_did s @ xs" "list_all stays_put xs"
  | xs where "ld_did (fst (recentre e (Some c) unsolved s)) = ld_did s @ Goto (cd_id c) # xs" "list_all stays_put xs"
    "lv_known e K_Recentre" "\<not> lv_stop e Before_Goto"
proof (cases "lv_stop e Before_Goto \<or> \<not> lv_known e K_Recentre")
  case True
  then show thesis
    using that(1) [of "[]"] by (auto simp: recentre_eq split: if_splits)
next
  case False
  obtain xs where xs: "ld_did (fst (ends_recentre e c unsolved (goes [Goto (cd_id c)] s))) = ld_did s @ Goto (cd_id c) # xs" "list_all stays_put xs"
    using ends_grown [of "goes [Goto (cd_id c)] s" e c unsolved] by (auto simp: grown_def)
  show thesis
  proof (cases "lv_cut e = Some At_Goto")
    case True
    then show thesis
      using that(2) [of "[]"] False by (simp add: recentre_eq awaits_def)
  next
    case cut: False
    then show thesis
      using that(2) [of xs] xs False by (simp add: recentre_eq awaits_def)
  qed
qed

text \<open>How a ladder goes that sends a goto.\<close>

lemma goto_path:
  assumes "ld_did (fst (recover e s)) = ld_did s @ xs" "Goto t \<in> set xs"
  obtains s1 s2 s3 s4 s5 b c where "list_targets e s = (s1, Inr ())" "ask_safety e s1 = (s2, Inr ())" "recover_focus e s2 = (s3, Inr ())"
    "find_pointing e s3 = (s4, Inr b)" "choose_target (lv_candidates e) None s4 = (s5, Inr (Some c))" "grown stays_put s s5"
    "recover e s = (case recentre e (Some c) b s5 of (u, Inl out) \<Rightarrow> (u, out) | (u, Inr _) \<Rightarrow> (u, Says None))"
proof -
  have no: False if "grown stays_put s (fst (recover e s))"
    using that assms by (auto simp: grown_def list_all_iff)
  have "fst (list_targets e s) = fst (recover e s) \<or> (\<exists>a. snd (list_targets e s) = Inr a)"
    by (cases "list_targets e s"; cases "snd (list_targets e s)") (auto simp: recover_def)
  then obtain s1 where s1: "list_targets e s = (s1, Inr ())"
    using no list_grown [of stays_put s e] by (metis old.unit.exhaust prod.collapse)
  have "fst (ask_safety e s1) = fst (recover e s) \<or> (\<exists>a. snd (ask_safety e s1) = Inr a)"
    by (cases "ask_safety e s1"; cases "snd (ask_safety e s1)") (auto simp: recover_def s1)
  moreover have g1: "grown stays_put s s1"
    using list_grown [of stays_put s e] by (simp add: s1)
  moreover have g2: "grown stays_put s (fst (ask_safety e s1))"
    by (rule grown_trans [OF g1 safety_grown]) simp
  ultimately obtain s2 where s2: "ask_safety e s1 = (s2, Inr ())"
    using no by (metis old.unit.exhaust prod.collapse)
  have "fst (recover_focus e s2) = fst (recover e s) \<or> (\<exists>a. snd (recover_focus e s2) = Inr a)"
    by (cases "recover_focus e s2"; cases "snd (recover_focus e s2)") (auto simp: recover_def s1 s2)
  moreover have g3: "grown stays_put s (fst (recover_focus e s2))"
    using grown_trans [OF g2 focus_grown] by (simp add: s2)
  ultimately obtain s3 where s3: "recover_focus e s2 = (s3, Inr ())"
    using no by (metis old.unit.exhaust prod.collapse)
  have "fst (find_pointing e s3) = fst (recover e s) \<or> (\<exists>a. snd (find_pointing e s3) = Inr a)"
    by (cases "find_pointing e s3"; cases "snd (find_pointing e s3)") (auto simp: recover_def s1 s2 s3)
  moreover have g4: "grown stays_put s (fst (find_pointing e s3))"
    using grown_trans [OF g3 pointing_grown] by (simp add: s3)
  ultimately obtain s4 b where s4: "find_pointing e s3 = (s4, Inr b)"
    using no by (metis prod.collapse)
  have "fst (choose_target (lv_candidates e) None s4) = fst (recover e s) \<or> (\<exists>c. snd (choose_target (lv_candidates e) None s4) = Inr (Some c))"
    by (cases "choose_target (lv_candidates e) None s4"; cases "snd (choose_target (lv_candidates e) None s4)")
      (auto simp: recover_def s1 s2 s3 s4 recentre_def split: option.splits)
  moreover have g5: "grown stays_put s (fst (choose_target (lv_candidates e) None s4))"
    using grown_trans [OF g4 choose_grown] by (simp add: s4)
  ultimately obtain s5 c where s5: "choose_target (lv_candidates e) None s4 = (s5, Inr (Some c))"
    using no by (metis prod.collapse)
  have "recover e s = (case recentre e (Some c) b s5 of (u, Inl out) \<Rightarrow> (u, out) | (u, Inr _) \<Rightarrow> (u, Says None))"
    by (simp add: recover_def s1 s2 s3 s4 s5)
  with s1 s2 s3 s4 s5 g5 show thesis
    by (intro that [of s1 s2 s3 s4 b s5 c]) simp_all
qed

text \<open>C7. A ladder slews only where it may. Behind a goto it has a fresh and safe reading where there is a monitor, the
  driver vouches for the position right before it, nobody asked it to stop, and it knows where the mount points:
  solved in place, or from its park, or, on a rig without a solver, on the driver's word. The goto is to the first
  target of the run that is above its floor and within the limits of a slew.\<close>

theorem goto_is_earned:
  assumes "ld_did (fst (recover e s)) = ld_did s @ xs" "Goto t \<in> set xs"
  shows "(lv_monitor e \<longrightarrow> reads_safe (lv_reading e)) \<and> lv_known e K_Recentre \<and> \<not> lv_stop e Before_Goto
    \<and> (solved_in_place e \<or> from_park e \<or> on_trust e)
    \<and> (\<exists>ys c zs. lv_candidates e = ys @ c # zs \<and> cd_id c = t \<and> reachable c \<and> (\<forall>y \<in> set ys. \<not> reachable y))"
proof -
  obtain s1 s2 s3 s4 s5 b c where "list_targets e s = (s1, Inr ())" and safe: "ask_safety e s1 = (s2, Inr ())"
      and "recover_focus e s2 = (s3, Inr ())" and located: "find_pointing e s3 = (s4, Inr b)"
      and chosen: "choose_target (lv_candidates e) None s4 = (s5, Inr (Some c))" and put: "grown stays_put s s5"
      and path: "recover e s = (case recentre e (Some c) b s5 of (u, Inl out) \<Rightarrow> (u, out) | (u, Inr _) \<Rightarrow> (u, Says None))"
    by (rule goto_path [OF assms])
  have last_rung: "fst (recover e s) = fst (recentre e (Some c) b s5)"
    by (simp add: path split: prod.split sum.split)
  obtain ys where ys: "ld_did s5 = ld_did s @ ys" "list_all stays_put ys"
    using put by (auto simp: grown_def)
  have goto: "cd_id c = t \<and> lv_known e K_Recentre \<and> \<not> lv_stop e Before_Goto"
  proof (rule recentre_did [of e c b s5])
    fix zs
    assume "ld_did (fst (recentre e (Some c) b s5)) = ld_did s5 @ zs" "list_all stays_put zs"
    then show ?thesis
      using assms ys stays_no_goto [of ys t] stays_no_goto [of zs t] by (auto simp: last_rung)
  next
    fix zs
    assume "ld_did (fst (recentre e (Some c) b s5)) = ld_did s5 @ Goto (cd_id c) # zs" "list_all stays_put zs"
      "lv_known e K_Recentre" "\<not> lv_stop e Before_Goto"
    then show ?thesis
      using assms ys stays_no_goto [of ys t] stays_no_goto [of zs t] by (auto simp: last_rung)
  qed
  have known: "solved_in_place e \<or> from_park e \<or> on_trust e"
    using pointing_located [OF located] by (cases b) auto
  obtain us zs where "lv_candidates e = us @ c # zs" "reachable c" "\<forall>x \<in> set us. \<not> reachable x"
    using chosen_is_first [OF chosen] by blast
  then have "\<exists>ys c zs. lv_candidates e = ys @ c # zs \<and> cd_id c = t \<and> reachable c \<and> (\<forall>y \<in> set ys. \<not> reachable y)"
    by (intro exI [of _ us] exI [of _ c] exI [of _ zs] conjI) (use goto in simp_all)
  then show ?thesis
    by (intro conjI impI safety_passed [OF safe] known) (use goto in simp_all)
qed

text \<open>Where the monitor's word is missing, stale or unsafe, the ladder does nothing but ask for it.\<close>

theorem unsafe_touches_nothing:
  assumes "lv_monitor e" "\<not> reads_safe (lv_reading e)"
  shows "ld_did (fst (recover e s)) \<in> {ld_did s, ld_did s @ [Ask_Safety]} \<and> snd (recover e s) \<noteq> Says None"
  using assms
  by (auto simp: recover_def list_targets_def ask_safety_def awaits_def reads_safe_def held_for_def split: option.splits)

section \<open>After a goto\<close>

text \<open>What the park after a hold does, where it does not raise, and whether it is confirmed.\<close>

definition repark_acts :: "ladder_env \<Rightarrow> ladder_act list" where
  "repark_acts e = (case lv_repark e of None \<Rightarrow> [] | Some w \<Rightarrow> map Mount (snd (fenced_park w)))"

definition reparked :: "ladder_env \<Rightarrow> bool" where
  "reparked e = (case lv_repark e of None \<Rightarrow> False | Some w \<Rightarrow> fst (fenced_park w) = Some True)"

text \<open>A reason that tells how the park went tells it as it went.\<close>

definition told_home :: "ladder_env \<Rightarrow> hold_reason \<Rightarrow> bool" where
  "told_home e why = (\<forall>p. why = Recentre_Dark p \<or> why = Recentre_Unsolved p \<longrightarrow> p = Some (reparked e))"

lemma again_home:
  assumes "park_again e True why s = (s', Inl (Says (Some r)))" "\<not> lv_stop e Before_Repark"
  shows "ld_did s' = ld_did s @ repark_acts e \<and> r = why (Some (reparked e))"
  using assms
  by (auto simp: park_again_def parks_then_def park_for_resume_def held_for_def repark_acts_def reparked_def
      split: if_splits prod.splits option.splits)

lemma unsolved_home:
  assumes "hold_unsolved_recentre e light kind True s = (s', Inl (Says (Some r)))" "\<not> lv_stop e Before_Repark"
  shows "ld_did s' = ld_did s @ repark_acts e \<and> told_home e r"
  using assms again_home [OF _ assms(2)]
  by (fastforce simp: hold_unsolved_recentre_def told_home_def split: option.splits bool.splits)

lemma ends_home:
  assumes "ends_recentre e c True s = (s', Inl (Says (Some r)))" "r \<notin> {Halted_By_Operator, Unknown_Recentre}"
    and "\<not> lv_stop e Before_Repark"
  shows "ld_did s' = ld_did s @ repark_acts e \<and> told_home e r"
proof -
  note again = again_home [OF _ assms(3)] and unsolved = unsolved_home [OF _ assms(3)]
  show ?thesis
  proof (cases "lv_goto e")
    case (Centred ct)
    then have judged: "judge_centring e (cd_id c) True ct s = (s', Inl (Says (Some r)))"
      using assms(1) by (simp add: ends_recentre_def)
    define u where "u = (if \<not> ct_aborted ct then s\<lparr>ld_light := Some True\<rparr> else s)"
    have u: "ld_did u = ld_did s"
      by (simp add: u_def)
    from judged assms(2) consider
        "hold_unsolved_recentre e (ct_light ct) (ct_kind ct) True s = (s', Inl (Says (Some r)))"
      | "park_again e True (\<lambda>_. Recentre_Sync_Refused) u = (s', Inl (Says (Some r)))"
      | "park_again e True (\<lambda>_. Recentre_Sync_Not_Confirmed) u = (s', Inl (Says (Some r)))"
      by (auto simp: judge_centring_def u_def [symmetric] Let_def held_for_def split: if_splits)
    then show ?thesis
      using again unsolved u by cases (fastforce simp: told_home_def)+
  next
    case (Goto_Refused why)
    then have "park_again e True (\<lambda>_. Mount_Refuses why) s = (s', Inl (Says (Some r)))"
      using assms(1) by (simp add: ends_recentre_def)
    then show ?thesis using again by (fastforce simp: told_home_def)
  next
    case (Goto_Raises why)
    then have "park_again e True (\<lambda>_. Recentre_Failed why) s = (s', Inl (Says (Some r)))"
      using assms(1) by (simp add: ends_recentre_def)
    then show ?thesis using again by (fastforce simp: told_home_def)
  qed (use assms(1) unsolved in \<open>simp_all add: ends_recentre_def\<close>)
qed

text \<open>C8. An attempt that took the mount off its park and then holds tries to park it again, unless the operator
  halted the mount, the ladder was asked to stop, or the driver no longer vouches for the position. From the
  goto on it does nothing but that fenced park, if the park does not raise: and the park sends a park command,
  or has read that the position is unknown, or found no mount there. A reason that tells of it (no light, no
  solution) says that the mount is parked just where the park was confirmed, and then it was commanded.\<close>

theorem hold_sends_the_mount_home:
  assumes "recover e s = (s', Says (Some why))" "ld_did s' = ld_did s @ xs" "Goto t \<in> set xs"
    and "\<not> solved_in_place e" "\<not> on_trust e" "why \<notin> {Halted_By_Operator, Unknown_Recentre}"
    and "\<not> lv_stop e Before_Repark"
  shows "\<exists>ys zs. xs = ys @ Goto t # zs \<and> list_all stays_put ys
    \<and> (case lv_repark e of None \<Rightarrow> zs = []
       | Some w \<Rightarrow> zs = map Mount (snd (fenced_park w))
           \<and> (Mount Park_Cmd \<in> set zs \<or> Mount (Position True) \<in> set zs \<or> \<not> (wn_tel w \<and> wn_present w)))
    \<and> (\<forall>p. why = Recentre_Dark p \<or> why = Recentre_Unsolved p \<longrightarrow>
         p = Some (\<exists>w. lv_repark e = Some w \<and> fst (fenced_park w) = Some True)
         \<and> (p = Some True \<longrightarrow> Mount Park_Cmd \<in> set zs))"
proof -
  have did: "ld_did (fst (recover e s)) = ld_did s @ xs"
    using assms(1,2) by simp
  obtain s1 s2 s3 s4 s5 b c where "list_targets e s = (s1, Inr ())" and "ask_safety e s1 = (s2, Inr ())"
      and "recover_focus e s2 = (s3, Inr ())" and located: "find_pointing e s3 = (s4, Inr b)"
      and "choose_target (lv_candidates e) None s4 = (s5, Inr (Some c))" and put: "grown stays_put s s5"
      and path: "recover e s = (case recentre e (Some c) b s5 of (u, Inl out) \<Rightarrow> (u, out) | (u, Inr _) \<Rightarrow> (u, Says None))"
    by (rule goto_path [OF did assms(3)])
  have b: "b = True"
    using pointing_located [OF located] assms(4,5) by (cases b) simp_all
  have rung: "recentre e (Some c) True s5 = (s', Inl (Says (Some why)))"
    using path assms(1) by (auto simp: b split: prod.splits sum.splits)
  obtain ys where ys: "ld_did s5 = ld_did s @ ys" "list_all stays_put ys"
    using put by (auto simp: grown_def)
  have "ends_recentre e c True (goes [Goto (cd_id c)] s5) = (s', Inl (Says (Some why)))"
    using rung assms(6) by (auto simp: recentre_eq awaits_def held_for_def split: if_splits)
  from ends_home [OF this assms(6,7)] assms(2) ys(1)
  have xs: "xs = ys @ Goto (cd_id c) # repark_acts e" and told: "told_home e why"
    by simp_all
  have "Goto t \<notin> set (repark_acts e)"
    by (auto simp: repark_acts_def split: option.splits)
  then have "xs = ys @ Goto t # repark_acts e"
    using assms(3) ys(2) stays_no_goto [of ys t] xs by auto
  moreover have "case lv_repark e of None \<Rightarrow> repark_acts e = []
     | Some w \<Rightarrow> repark_acts e = map Mount (snd (fenced_park w)) \<and> (Mount Park_Cmd \<in> set (repark_acts e)
         \<or> Mount (Position True) \<in> set (repark_acts e) \<or> \<not> (wn_tel w \<and> wn_present w))"
    using fenced_sends_a_park(1) by (auto simp: repark_acts_def split: option.split)
  moreover have "p = Some (\<exists>w. lv_repark e = Some w \<and> fst (fenced_park w) = Some True)
      \<and> (p = Some True \<longrightarrow> Mount Park_Cmd \<in> set (repark_acts e))"
    if "why = Recentre_Dark p \<or> why = Recentre_Unsolved p" for p
    using told that fenced_sends_a_park(2)
    by (auto simp: told_home_def reparked_def repark_acts_def split: option.splits)
  ultimately show ?thesis
    using ys(2) by blast
qed

lemma chosen_none: "choose_target cs first s = (s', Inr None) \<Longrightarrow> cs = [] \<and> first = None \<and> s' = s"
proof (induction cs arbitrary: first s)
  case (Cons c cs)
  then show ?case
    by (fastforce simp: Let_def split: if_splits limits_answer.splits option.splits)
qed (simp split: option.splits)

text \<open>A rung says nothing only where the ladder was asked to stop.\<close>

lemma says_why: "snd (held_for why s) \<noteq> Inl (Says None)" "snd (list_targets e s) \<noteq> Inl (Says None)"
  "snd (ask_safety e s) \<noteq> Inl (Says None)" "snd (choose_target cs first s) \<noteq> Inl (Says None)"
proof -
  show "snd (choose_target cs first s) \<noteq> Inl (Says None)"
    by (induction cs arbitrary: first s) (simp_all add: Let_def split: option.split limits_answer.split)
qed (auto simp: list_targets_def ask_safety_def awaits_def split: option.splits)

lemma focus_says_why: "\<not> lv_stop e Before_Sweep \<Longrightarrow> snd (recover_focus e s) \<noteq> Inl (Says None)"
  by (auto simp: recover_focus_def focus_again_def awaits_def Let_def split: sum.splits)

lemma solve_says_why: "\<not> lv_stop e Before_Park \<Longrightarrow> snd (solve_in_place e s) \<noteq> Inl (Says None)"
proof -
  assume stop: "\<not> lv_stop e Before_Park"
  have "snd (solve_failed e lit why u) \<noteq> Inl (Says None)" for lit why u
    using stop by (auto simp: solve_failed_def parks_then_def Let_def split: prod.splits)
  moreover have "snd (sync_refused e off u) \<noteq> Inl (Says None)" for off u
    by (auto simp: sync_refused_def Let_def split: option.splits)
  ultimately have "snd (awaits e At_Solve (\<lambda>s. case lv_solve e of
         Solved \<Rightarrow> (s, Inr False)
       | Dark kind \<Rightarrow> held_for No_Light (s\<lparr>ld_light := Some False, ld_kind := kind\<rparr>)
       | Sync_Refused off \<Rightarrow> sync_refused e off s
       | Sync_Unverified \<Rightarrow> held_for Sync_Not_Confirmed (goes [Said ''warning'' Not_Confirmed] (s\<lparr>ld_light := Some True\<rparr>))
       | Faulty \<Rightarrow> held_for Software_Fault (s\<lparr>ld_fault := True\<rparr>)
       | Unsolved lit why \<Rightarrow> solve_failed e lit why s) (goes [Blind_Solve] s)) \<noteq> Inl (Says None)"
    by (simp add: awaits_def split: solve_answer.split)
  then show ?thesis
    unfolding solve_in_place_def by (auto simp: climbs_def Let_def split: prod.splits sum.splits)
qed

lemma pointing_says_why: "\<not> lv_stop e Before_Pointing \<Longrightarrow> \<not> lv_stop e Before_Park \<Longrightarrow> snd (find_pointing e s) \<noteq> Inl (Says None)"
  using solve_says_why by (auto simp: find_pointing_def Let_def)

lemma again_says_why: "snd (park_again e repark why s) \<noteq> Inl (Says None)" "snd (park_again e repark why s) \<noteq> Inr ()"
  by (auto simp: park_again_def parks_then_def split: prod.splits)

lemma unsolved_says_why: "snd (hold_unsolved_recentre e light kind repark s) \<noteq> Inl (Says None)" "snd (hold_unsolved_recentre e light kind repark s) \<noteq> Inr ()"
  using again_says_why by (auto simp: hold_unsolved_recentre_def split: option.splits bool.splits)

lemma ends_centred:
  assumes "ends_recentre e c unsolved s = (s', r)" "r \<in> {Inr (), Inl (Says None)}"
  shows "ld_recentred s' = Some (cd_id c) \<and> (\<exists>ct. lv_goto e = Centred ct \<and> \<not> ct_unknown ct \<and> \<not> ct_refused ct \<and> \<not> ct_unverified ct
    \<and> \<not> (ct_aborted ct \<and> lv_halted e) \<and> \<not> (unsolved \<and> ct_failed ct))"
proof (cases "lv_goto e")
  case (Centred ct)
  have judged: "judge_centring e (cd_id c) unsolved ct s = (s', r)"
    using assms(1) by (simp add: ends_recentre_def Centred)
  have not_again: "park_again e q why u \<noteq> (s', r)" "hold_unsolved_recentre e light kind q u \<noteq> (s', r)" "held_for h u \<noteq> (s', r)" for q why u light kind h
    using assms(2) again_says_why [of e q why u] unsolved_says_why [of e light kind q u] by (auto simp: held_for_def)
  show ?thesis
    using judged not_again by (auto simp: judge_centring_def Let_def Centred split: if_splits)
next
  case (Goto_Dark kind)
  then show ?thesis
    using assms again_says_why unsolved_says_why by (auto simp: ends_recentre_def split: if_splits dest!: arg_cong [where f = snd])
qed (use assms again_says_why unsolved_says_why in \<open>auto simp: ends_recentre_def split: if_splits dest!: arg_cong [where f = snd]\<close>)

text \<open>C9. A ladder that nobody asked to stop and that finds nothing against a start has, in this very climb, sent the
  mount to a reachable target of the run, and the goto came back: with a position the driver still vouches for,
  its sync neither refused nor unconfirmed, not halted by the operator, and solved, unless the sky was solved
  before it or the rig goes by the driver's word. (A halt by anything else, the safety monitor or dawn, passes for
  an arrival.) Or the run has no target to slew to.\<close>

theorem fit_means_on_target:
  assumes "recover e s = (s', Says None)" "\<forall>p. \<not> lv_stop e p"
  shows "lv_candidates e = [] \<or> (\<exists>c \<in> set (lv_candidates e). \<exists>ct xs. reachable c \<and> ld_recentred s' = Some (cd_id c)
    \<and> ld_did s' = ld_did s @ xs \<and> Goto (cd_id c) \<in> set xs \<and> lv_goto e = Centred ct
    \<and> \<not> ct_unknown ct \<and> \<not> ct_refused ct \<and> \<not> ct_unverified ct \<and> \<not> (ct_aborted ct \<and> lv_halted e)
    \<and> (ct_failed ct \<longrightarrow> solved_in_place e \<or> on_trust e))"
proof -
  have stop: "\<not> lv_stop e p" for p
    using assms(2) by simp
  have rung: "\<exists>a u. m = (u, Inr a) \<and> f a u = (s', r)" if "climbs m f = (s', r)" "r \<in> {Inr (), Inl (Says None)}" "snd m \<noteq> Inl (Says None)"
    for m :: "ladder \<times> (ladder_end + 'a)" and f and r :: "ladder_end + unit"
    using that by (cases m; cases "snd m") auto
  define m where "m = climbs (list_targets e s) (\<lambda>_ s. climbs (ask_safety e s) (\<lambda>_ s. climbs (recover_focus e s) (\<lambda>_ s.
       climbs (find_pointing e s) (\<lambda>unsolved s. climbs (choose_target (lv_candidates e) None s) (\<lambda>chosen. recentre e chosen unsolved)))))"
  obtain r where r: "m = (s', r)" "r \<in> {Inr (), Inl (Says None)}"
    using assms(1) by (cases m; cases "snd m") (auto simp: recover_def m_def [symmetric])
  obtain s1 where p1: "list_targets e s = (s1, Inr ())" and "climbs (ask_safety e s1) (\<lambda>_ s. climbs (recover_focus e s) (\<lambda>_ s.
       climbs (find_pointing e s) (\<lambda>unsolved s. climbs (choose_target (lv_candidates e) None s) (\<lambda>chosen. recentre e chosen unsolved)))) = (s', r)"
    using rung [OF r(1) [unfolded m_def] r(2) says_why(2)] by auto
  from rung [OF this(2) r(2) says_why(3)] obtain s2 where p2: "ask_safety e s1 = (s2, Inr ())" and "climbs (recover_focus e s2) (\<lambda>_ s.
       climbs (find_pointing e s) (\<lambda>unsolved s. climbs (choose_target (lv_candidates e) None s) (\<lambda>chosen. recentre e chosen unsolved))) = (s', r)"
    by auto
  from rung [OF this(2) r(2) focus_says_why [OF stop]] obtain s3 where p3: "recover_focus e s2 = (s3, Inr ())" and
    "climbs (find_pointing e s3) (\<lambda>unsolved s. climbs (choose_target (lv_candidates e) None s) (\<lambda>chosen. recentre e chosen unsolved)) = (s', r)"
    by auto
  from rung [OF this(2) r(2) pointing_says_why [OF stop stop]] obtain s4 b where p4: "find_pointing e s3 = (s4, Inr b)" and
    "climbs (choose_target (lv_candidates e) None s4) (\<lambda>chosen. recentre e chosen b) = (s', r)"
    by auto
  from rung [OF this(2) r(2) says_why(4)] obtain s5 chosen where
    p5: "choose_target (lv_candidates e) None s4 = (s5, Inr chosen)" and went: "recentre e chosen b s5 = (s', r)"
    by auto
  have "grown stays_put s s5"
  proof -
    have "grown stays_put s s1" "grown stays_put s1 s2"
      using list_grown [of stays_put s e] safety_grown [of stays_put s1 e] by (simp_all add: p1 p2)
    moreover have "grown stays_put s2 s3" "grown stays_put s3 s4" "grown stays_put s4 s5"
      using focus_grown [of s2 e] pointing_grown [of s3 e] choose_grown [of s4 "lv_candidates e" None] by (simp_all add: p3 p4 p5)
    ultimately show ?thesis
      by (blast intro: grown_trans)
  qed
  then obtain xs where xs: "ld_did s5 = ld_did s @ xs"
    by (auto simp: grown_def)
  show ?thesis
  proof (cases chosen)
    case None
    then show ?thesis
      using chosen_none [of "lv_candidates e" None s4 s5] p5 by simp
  next
    case (Some c)
    then have "recentre e (Some c) b s5 = (s', r)"
      using went by simp
    then have ended: "ends_recentre e c b (goes [Goto (cd_id c)] s5) = (s', r)"
      using r(2) stop by (auto simp: recentre_eq awaits_def held_for_def split: if_splits)
    obtain ys where "ld_did s' = ld_did s @ xs @ Goto (cd_id c) # ys"
      using ends_grown [of "goes [Goto (cd_id c)] s5" e c b] ended xs by (auto simp: grown_def)
    moreover obtain ct where "ld_recentred s' = Some (cd_id c)" "lv_goto e = Centred ct" "\<not> ct_unknown ct" "\<not> ct_refused ct"
        "\<not> ct_unverified ct" "\<not> (ct_aborted ct \<and> lv_halted e)" "\<not> (b \<and> ct_failed ct)"
      using ends_centred [OF ended r(2)] by blast
    moreover have "b \<or> solved_in_place e \<or> on_trust e"
      using pointing_located [OF p4] by (cases b) auto
    moreover obtain us zs where "lv_candidates e = us @ c # zs" "reachable c"
      using chosen_is_first [of "lv_candidates e" None s4 s5 c] p5 Some by auto
    ultimately show ?thesis
      by (intro disjI2 bexI [of _ c] exI [of _ ct] exI [of _ "xs @ Goto (cd_id c) # ys"]) auto
  qed
qed

text \<open>A re-centre that was halted by anything but the operator counts as one that came to its target.\<close>

lemma other_halt_passes:
  assumes "ct_aborted ct" "\<not> lv_halted e" "\<not> ct_unknown ct" "\<not> ct_failed ct" "\<not> ct_refused ct" "\<not> ct_unverified ct"
  shows "judge_centring e t unsolved ct s = (s\<lparr>ld_recentred := Some t\<rparr>, Inr ())"
  using assms by (simp add: judge_centring_def)

section \<open>Ladders, evaluated\<close>

definition a_candidate :: "string \<Rightarrow> rat \<Rightarrow> candidate" where
  "a_candidate i alt = \<lparr>cd_id = i, cd_floor = 30, cd_alt = Some alt, cd_limits = Within, cd_cut = False\<rparr>"

definition on_the_field :: centring where
  "on_the_field = \<lparr>ct_unknown = False, ct_aborted = False, ct_failed = False, ct_light = None, ct_kind = None, ct_refused = False, ct_unverified = False\<rparr>"

text \<open>A parked mount, a focuser that lost count, a first target below its floor.\<close>

definition an_ascent :: ladder_env where
  "an_ascent = \<lparr>lv_cut = None, lv_cut_after = 0, lv_stop = (\<lambda>_. False), lv_known = (\<lambda>_. True), lv_nothing = False, lv_unmetered = False,
     lv_monitor = True, lv_reading = Some \<lparr>rd_safe = True, rd_stale = False, rd_reason = [], rd_source = []\<rparr>, lv_focuser = Some 100,
     lv_trusted = False, lv_can_sweep = True, lv_sweep = Inr True, lv_swept = Some 120, lv_vouched = True, lv_night = ''tonight'', lv_at = 0,
     lv_can_solve = True, lv_can_solve_then = True, lv_parked = True, lv_solve = Dark None, lv_park = None,
     lv_candidates = [a_candidate ''low'' 10, a_candidate ''high'' 50], lv_goto = Centred on_the_field, lv_halted = False,
     lv_repark = Some an_ending\<rparr>"

definition at_the_foot :: ladder where
  "at_the_foot = \<lparr>ld_did = [], ld_light = None, ld_kind = None, ld_nothing = False, ld_fault = False, ld_detail = False,
     ld_recentred = None, ld_sweep = None\<rparr>"

lemma ascent_did: "ld_did (fst (recover an_ascent at_the_foot)) = [Ask_Safety, Ask_Focuser, Said ''info'' Focus_Lost, Sweep_Focus, Vouch_Focus,
    Ask_Parked, Said ''info'' Slews_From_Park, Check_Limits ''high'', Goto ''high'']"
  by code_simp

lemma goto_is_earned_witness: "\<exists>c. cd_id c = ''high'' \<and> reachable c \<and> c \<in> set (lv_candidates an_ascent)"
proof -
  have "ld_did (fst (recover an_ascent at_the_foot)) = ld_did at_the_foot @ ld_did (fst (recover an_ascent at_the_foot))"
    by (simp add: at_the_foot_def)
  moreover have "Goto ''high'' \<in> set (ld_did (fst (recover an_ascent at_the_foot)))"
    by (simp add: ascent_did)
  ultimately have "\<exists>ys c zs. lv_candidates an_ascent = ys @ c # zs \<and> cd_id c = ''high'' \<and> reachable c \<and> (\<forall>y \<in> set ys. \<not> reachable y)"
    using goto_is_earned [of an_ascent at_the_foot] by blast
  then show ?thesis
    by auto
qed

lemma ascent_fits: "snd (recover an_ascent at_the_foot) = Says None"
  by code_simp

lemma fit_means_on_target_witness: "\<exists>t. ld_recentred (fst (recover an_ascent at_the_foot)) = Some t"
proof -
  have "recover an_ascent at_the_foot = (fst (recover an_ascent at_the_foot), Says None)"
    by (simp add: prod_eq_iff ascent_fits)
  from fit_means_on_target [OF this] show ?thesis
    by (auto simp: an_ascent_def)
qed

definition in_the_rain :: ladder_env where
  "in_the_rain = an_ascent\<lparr>lv_reading := Some \<lparr>rd_safe = False, rd_stale = False, rd_reason = ''rain'', rd_source = []\<rparr>\<rparr>"

lemma unsafe_touches_nothing_witness: "set (ld_did (fst (recover in_the_rain at_the_foot))) \<subseteq> {Ask_Safety}"
proof -
  have "lv_monitor in_the_rain" "\<not> reads_safe (lv_reading in_the_rain)"
    by (simp_all add: in_the_rain_def an_ascent_def reads_safe_def)
  from unsafe_touches_nothing [OF this, of at_the_foot] show ?thesis
    by (auto simp: at_the_foot_def)
qed

definition a_missed_slew :: ladder_env where
  "a_missed_slew = an_ascent\<lparr>lv_goto := Goto_Raises ''the mount lost its link''\<rparr>"

lemma missed_slew:
  "snd (recover a_missed_slew at_the_foot) = Says (Some (Recentre_Failed ''the mount lost its link''))"
  "Goto ''high'' \<in> set (ld_did (fst (recover a_missed_slew at_the_foot)))"
  by code_simp+

lemma hold_sends_the_mount_home_witness:
  "Mount Park_Cmd \<in> set (ld_did (fst (recover a_missed_slew at_the_foot)))"
proof -
  let ?s = "fst (recover a_missed_slew at_the_foot)"
  have "recover a_missed_slew at_the_foot = (?s, Says (Some (Recentre_Failed ''the mount lost its link'')))"
    by (simp add: prod_eq_iff missed_slew(1))
  moreover have "ld_did ?s = ld_did at_the_foot @ ld_did ?s"
    by (simp add: at_the_foot_def)
  moreover have "\<not> solved_in_place a_missed_slew" "\<not> on_trust a_missed_slew" "\<not> lv_stop a_missed_slew Before_Repark"
      "lv_repark a_missed_slew = Some an_ending"
    by (simp_all add: a_missed_slew_def an_ascent_def solved_in_place_def on_trust_def no_solver_def)
  moreover have "Park_Cmd \<in> set (snd (fenced_park an_ending))"
    by code_simp
  ultimately show ?thesis
    using hold_sends_the_mount_home [of a_missed_slew at_the_foot ?s _ "ld_did ?s" "''high''"] missed_slew(2) by fastforce
qed

end
