(* ===== verification/Spec2Isabelle.thy ===== *)
theory Spec2Isabelle
  imports Event_Bus Persist Wind_Down Session_Tokens Campaign Session_Store Recovery Cloud_State Instructions Panel_Order Policy
    Group_Theorems Group_Meridian Auth_Routes Auth_Providers Rate_Limits Update_Apply Users Relay_Registry Dew Dusk_Arm
    Park_Nets Sun_Watch Dawn_Park Safety_Gate Cloud_Hold Resume_Ladder
begin

text \<open>
  A verification library for AstroDeck, the server that runs an unattended observatory
  (\<open>src/server/astrodeck\<close>), the supervisor that updates it (\<open>src/supervisor\<close>) and the relay that makes it
  reachable (\<open>src/relay\<close>).

  \<^bold>\<open>The program.\<close> A night is conducted by the sequence engine (\<open>sequence/engine.py\<close>). The engine does
  the input and output and asks pure rule objects what to do: which panel of a mosaic to shoot next, what
  a failed visit means, when a side of the meridian is closed, whether the roof may move, whether the sky
  is cloudy, which operator instruction fires. Services run beside it: the dew heaters and the guard of
  their power, the preparation of an idle rig at dusk, the two nets that park an unattended mount, the event
  bus with its night log, the files on the disk.
  Requests reach all of this through an HTTP interface whose every route is gated by a capability, and
  from outside the LAN through the relay. New releases are fetched, staged and swapped by an update
  service together with a supervisor. The library models those rules, machines and gates; the devices,
  the operating system and the network around them are arguments of the model.

  \<^bold>\<open>Common ground.\<close>
  \<^item> \<open>Prelude\<close>: Python's values as the code uses them. An exception is a value of \<open>exn\<close> in the left of a sum
    (\<open>res\<close>); a float is a \<open>pyfloat\<close>, a rational or one of the two infinities or NaN; a dict is a map, or an
    association list where its order shows; a set is a set. The argument checks that the rule modules
    share (\<open>_finite\<close>, \<open>_nonneg\<close>, \<open>_count\<close>) stand here. \<open>Py_Values\<close> has JSON values and Python's string
    operations.
  \<^item> \<open>Machines\<close>: a run of a step function, what a run spends, and four locales. \<open>machine\<close> and \<open>lawful\<close>
    carry an invariant over a run (the second under a law on the events, such as a clock that does not go
    back), \<open>metered\<close> and \<open>lawful_meter\<close> bound what a run spends by what the state books. The first is
    an instance of the second and the third of the fourth by \<open>sublocale\<close>. Components interpret them on
    their own step functions, and their properties over arbitrary runs rest on those facts.

  \<^bold>\<open>Interleaving and failure.\<close> Where a coroutine awaits, or a system or device call can fail, the model takes
  the answer from its environment argument, a record or a list of answers; a theorem quantified over the
  environment therefore covers every order in which the world may change between two awaits. Where several
  threads or tasks touch one state (the night log's writer, the registry's connections, the heaters'
  requests), each atomic section of the code is one event of a machine and the theorem is about every list
  of events.

  \<^bold>\<open>The sequence rules\<close> (\<open>server/astrodeck/sequence\<close>).
  \<^item> \<open>Group_Rules\<close>, \<open>Group_Props\<close>, \<open>Group_Theorems\<close>: \<open>group_rules.py\<close>, the run of a mosaic group. The class
    \<open>GroupRun\<close> is the record \<open>group_run\<close>, field by field; each method is a function that returns the new
    record, or the exception. \<open>group_event\<close> lists every method the engine may call, and \<open>group_step\<close>
    applies one; a call that raises leaves the state. The invariant \<open>group_ok\<close> is kept by each of them
    (\<open>interpretation grp\<close>), so it holds after any calls in any order. On it rest: the disjointness of
    complete and set aside, the bound on strikes, that closing a pass never raises, that the pass rules
    blame the sky or the rig and not a panel, that held passes are bounded and that a set-aside panel
    comes back clean.
  \<^item> \<open>Group_Meridian\<close>: the second half of the same file: the meridian rule (one pier change a night, and no
    stall), RA spans, the first clear instant, the camera-angle decision.
  \<^item> \<open>Panel_Order\<close>: \<open>panel_order.py\<close>: the order is a stable sort of the panels by a policy's key; it is a
    permutation, does not depend on the listing, and the grid policy walks the snake.
  \<^item> \<open>Instructions\<close>: \<open>instructions.py\<close> with the types of \<open>models.py\<close>: operator rules evaluated at every
    frame boundary. Level rules fire once per rising edge, an unknown reading moves nothing, a cooldown
    spaces fires.
  \<^item> \<open>Recovery\<close>, \<open>Cloud_State\<close>, \<open>Policy\<close>, \<open>Roof\<close>: \<open>recovery.py\<close> (the ladder of a missed target and the
    operator's pause), \<open>cloudstate.py\<close> (the debounced verdict, against a specification on the history of
    frames), \<open>policy.py\<close> (the layered settings and the frame gates), \<open>roof.py\<close> (closing the roof, with
    every device answer and failure in the environment).
  \<^item> \<open>Wind_Down\<close>: the end of a night in \<open>engine.py\<close>: the park with its read-back, the stop of tracking where
    a park fails or the position is unknown, the roof, the warm-up, the close of an automatic reopen, with an
    Abort at any point. A run is its list of steps, and the theorems say what that list never contains: a roof
    told to close before the park was settled or after an Abort, a park without a reading of its own before it.

  \<^item> \<open>Cooling\<close>: the loop in which the engine waits for a cooled sensor, and its bounds; \<open>Safety_Gate\<close> has the
    rest of \<open>_cool_and_wait\<close> around it.
  \<^item> \<open>Safety_Gate\<close>: the gate of \<open>engine.py\<close> that every frame and slew asks: reading the monitor, confirming an
    unsafe verdict, the pause under the open sky, the close of the roof and its reopening. The state is the record
    \<open>guard\<close>, a wait is a function on the list of its turns, and what was done is a list of steps. The locale
    \<open>sky_hold\<close> states what the gate asks of the hold for clear sky: that it publishes no safe weather and opens no
    roof without the readings for it. Under it the gate keeps the same promise and fails closed.
  \<^item> \<open>Cloud_Hold\<close>: that hold (\<open>_hold_for_clear\<close>), which asks the gate again in every pass, and the wait for the
    sensor beside the monitor. The hold that is refused and the one that is opened interpret \<open>sky_hold\<close>, and the
    machine of a run's gates, between which the frames change the cloud state and the watchdog, carries the invariant:
    releases follow safe readings, and the gate lets the run go on only on a fresh and safe one.

  \<^item> \<open>Campaign\<close>: \<open>session.py\<close> and the parts of \<open>engine.py\<close> that keep the night's memory in it: the frames a
    campaign owes by two books that balance, and the records of panels set aside, with their expiry once a
    night, over runs of looks, retries and restarts.
  \<^item> \<open>Session_Store\<close>: the store of \<open>session.py\<close> as a directory of files, the routes of \<open>api/app.py\<close> and the
    engine steps that arm, queue, start, finish, delete and restore a session. A start and an ending hold no
    lock, so they are two parts each with requests in between. The machine of them all keeps at most one session
    armed, but for a PATCH that arms in the middle of one of these, which is shown to leave two.

  \<^item> \<open>Resume_Ladder\<close>: the recovery ladder of \<open>resume_arm.py\<close> (\<open>_recover\<close>), which an unattended resume climbs before it
    starts a run: the safety reading, the focus, the pointing and the re-centre are its rungs, each a function that
    goes on, holds with a reason or was cut short. A goto is earned by all the rungs before it, a hold after it sends
    the mount back through a fenced park, and a ladder that finds nothing against a start has sent the mount to a
    target of the run and got an answer that speaks against nothing but a halt.

  \<^bold>\<open>Services\<close> (\<open>server/astrodeck\<close>).
  \<^item> \<open>Power_Guard\<close>, \<open>Dew\<close>: \<open>power_guard.py\<close> and \<open>dew.py\<close>: the heater levels from the dew margin, the
    override by hand that the automation keeps, and the ports that must not be switched.
  \<^item> \<open>Dusk_Arm\<close>: \<open>dusk_arm.py\<close>: an idle rig is connected and cooled at dusk, at most once before the dawn
    recorded with the attempt, however the night is reckoned later, and the night is recorded as ready only when the temperature has settled in its band.
  \<^item> \<open>Park_Nets\<close>, \<open>Sun_Watch\<close>, \<open>Dawn_Park\<close>: \<open>sun_watch.py\<close>, \<open>dawn_park.py\<close> and the position gate of
    \<open>devices/base.py\<close>. A tick of a net appends steps and log lines to its state; the locale \<open>parking_net\<close>
    asks that a tick parks exactly when it is allowed to, right behind the fence for motions, and the two
    nets interpret it. What each net is allowed is spelt out (\<open>sun_allowed\<close>, \<open>dawn_allowed\<close>). On the runs
    rest: a park noted by the other net holds, one park a dawn, the bound on failure lines, and that a guide
    loop is stopped only when nobody drove it for the whole limit.
  \<^item> \<open>Event_Bus\<close>: \<open>events.py\<close>: publishing, the storm limiter, the two rings, the bounded subscriptions with
    their gap markers, the night log with its writer thread. The refinement of a subscription says that a
    reader sees the published stream, or is told where it does not.
  \<^item> \<open>Persist\<close>: \<open>persist.py\<close>: the atomic write over a directory whose entries and contents become durable
    separately; after a crash anywhere the file is the old or the new one.

  \<^bold>\<open>The gates\<close> (\<open>server/astrodeck/auth\<close>, \<open>relay/relay\<close>).
  \<^item> \<open>Auth_Caps\<close>: the role table and principals (\<open>capabilities.py\<close>, \<open>principal.py\<close>).
  \<^item> \<open>Auth_Providers\<close>: who a request is (\<open>providers.py\<close>) and what it may do (\<open>deps.py\<close>). The contract of the
    \<open>AuthProvider\<close> protocol is the locale \<open>authenticator\<close>; two of them in a row are \<open>two_authenticators\<close>,
    an authenticator again by \<open>sublocale\<close>. The token provider, the session provider and their composition
    are interpretations, and the theorems about the gate follow.
  \<^item> \<open>Session_Tokens\<close>: \<open>session.py\<close>: the signed envelope of a session, its round trip, the separation of the two
    algorithms, and with \<open>Auth_Providers\<close> that a session resolves only to what was granted.
  \<^item> \<open>Users\<close>: \<open>users.py\<close> and \<open>passwords.py\<close>: the account store refines a list of accounts wherever a look or
    a write may fail, keeps an administrator, and ends the sessions of an account that changes.
  \<^item> \<open>Auth_Routes\<close>: the assertion at boot that every route is gated (\<open>rbac.py\<close>), proved to accept exactly
    the apps whose routes, behind included routers too, obey the rules.
  \<^item> \<open>Rate_Limits\<close>: the login limiter, the WebSocket tickets and the relay's token bucket, each as a machine
    with its budget.
  \<^item> \<open>Relay_Registry\<close>, \<open>Rig_Beacon\<close>: the relay's table of tunnels (\<open>registry.py\<close>, the parts of \<open>server.py\<close>
    and \<open>connection.py\<close> that change it), with one live tunnel per home; the status beacon, its encoder and
    its strict parser.

  \<^bold>\<open>Updates\<close> (\<open>server/astrodeck/update\<close>, \<open>src/supervisor\<close>).
  \<^item> \<open>Update_Version\<close>: versions and their order, the choice of a release, the signature check of a manifest.
  \<^item> \<open>Supervisor\<close>: \<open>supervisor.py\<close> and its file protocol: the machine that launches, probes, promotes and
    rolls back a release.
  \<^item> \<open>Update_Apply\<close>: the update service and its composition with the supervisor, from a staged release to the
    one that runs.

  \<^bold>\<open>Bounds and parameters.\<close> No fuel is used: every loop of the modelled code is structural, or has a
  measure (the walk over the routers), or a number of steps computed before it (\<open>forward_clear_ts\<close>), or
  runs over the answers its environment gives. The wait for a probe is bounded by the number of polls its
  deadline allows, and a separate theorem shows that it ends. Floats are exact rationals, so rounding is
  not modelled; where the code adds a tolerance for it, the model has the same tolerance. Parameters of the
  definitions are: the MAC, Ed25519, password and release signature functions, JSON parsers, the
  local calendar of a clock time (\<open>mk\<close>), the clear predicate of a panel, the answers of devices, files and
  peers, random tokens and clock readings, the places of the Sun and the angles on the sphere.

  \<^bold>\<open>Not modelled.\<close> The pass loop, the frame loop, the setups and the looks at the mount of the engine, the tick of the
  resume arm around its ladder, device drivers, guiding,
  focusing, solving and imaging (numerical code over pixels), catalogs and ephemerides, most HTTP handlers,
  the relay's tunnel frames and the flow editor.
  Of \<open>models.py\<close> only the types that the instructions use are modelled, and of the relay's multiplexer only the
  table of tunnels.
\<close>

end
